(* ===== verification/Prelude.thy ===== *)
theory Prelude
  imports Main "HOL-Library.Word"
begin

text \<open>
  Shared material of the development: the machine word of the \<^verbatim>\<open>vvp\<close> runtime, shifts as the
  compiled code performs them, loops that may hit a failing \<^verbatim>\<open>assert\<close>, loops that rewrite an
  array word by word, and the number that an array of words stands for.

  Conventions used by every component theory:
  \<^item> \<^verbatim>\<open>unsigned long\<close> is 64 bits wide (\<^verbatim>\<open>SIZEOF_UNSIGNED_LONG == 8\<close>) and modelled by \<open>u64\<close>;
  \<^item> \<^verbatim>\<open>unsigned\<close> sizes, indices and widths are \<open>nat\<close>; the sums of an address and a width that the
    code forms are assumed to stay below \<open>2 ^ 32\<close>, so that they are the sums of \<open>nat\<close>;
  \<^item> a failing \<^verbatim>\<open>assert\<close> aborts the simulator: such operations return an option, and \<open>None\<close>
    is the abort.
\<close>

unbundle bit_operations_syntax

named_theorems bitlevel \<open>characterisations of operations by the single bits of their results\<close>
named_theorems vsize \<open>sizes and well-formedness of the results of vector operations\<close>

section \<open>Machine words\<close>

type_synonym u64 = "64 word"

text \<open>
  A C++ shift by 64 or more is undefined. The code does perform such shifts (for example
  \<^verbatim>\<open>-1UL >> (BITS_PER_WORD - wid_ % BITS_PER_WORD)\<close> with a width that is a multiple of 64) and
  relies on what the x86-64 instruction does with them, which takes the count modulo 64.
\<close>

definition shl :: "u64 \<Rightarrow> nat \<Rightarrow> u64" where
  "shl w n = push_bit (n mod 64) w"

definition shr :: "u64 \<Rightarrow> nat \<Rightarrow> u64" where
  "shr w n = drop_bit (n mod 64) w"

lemma bit_shl [bitlevel]:
  "bit (shl w n) i \<longleftrightarrow> i < 64 \<and> n mod 64 \<le> i \<and> bit w (i - n mod 64)"
  by (auto simp: shl_def bit_push_bit_iff)

lemma bit_shr [bitlevel]: "bit (shr w n) i \<longleftrightarrow> bit w (n mod 64 + i)"
  by (simp add: shr_def bit_drop_bit_eq)

lemma shl_1_minus_1: "n < 64 \<Longrightarrow> shl 1 n - 1 = mask n"
  by (simp add: shl_def mask_eq_exp_minus_1 push_bit_eq_mult)

lemma not_shl_minus_1: "n < 64 \<Longrightarrow> NOT (shl (- 1) n) = mask n"
  by (rule bit_eqI) (auto simp: bit_not_iff bit_shl bit_mask_iff)

lemma bit_shr_minus_1: "bit (shr (- 1) n) i \<longleftrightarrow> n mod 64 + i < 64"
  by (simp add: bit_shr)

lemma u64_zero_iff: "(w :: u64) = 0 \<longleftrightarrow> (\<forall>i<64. \<not> bit w i)"
  by (auto simp: bit_eq_iff)

lemma u64_and_mask_zero_iff: "n \<le> 64 \<Longrightarrow> (w :: u64) AND mask n = 0 \<longleftrightarrow> (\<forall>i<n. \<not> bit w i)"
  by (auto simp: bit_eq_iff bit_and_iff bit_mask_iff dest: order_less_le_trans)

lemma u64_eq_mask_iff:
  "n \<le> 64 \<Longrightarrow> (v :: u64) AND mask n = w AND mask n \<longleftrightarrow> (\<forall>i<n. bit v i = bit w i)"
  by (auto simp: bit_eq_iff bit_and_iff bit_mask_iff dest: order_less_le_trans)

lemma u64_eq_iff: "(v :: u64) = w \<longleftrightarrow> (\<forall>i<64. bit v i = bit w i)"
  by (auto simp: bit_eq_iff)

section \<open>Loops\<close>

text \<open>A \<^verbatim>\<open>for\<close> loop over a list of indices whose body may abort.\<close>

fun foldM :: "('a \<Rightarrow> 's \<Rightarrow> 's option) \<Rightarrow> 'a list \<Rightarrow> 's \<Rightarrow> 's option" where
  "foldM f [] s = Some s"
| "foldM f (x # xs) s = (case f x s of None \<Rightarrow> None | Some s' \<Rightarrow> foldM f xs s')"

lemma foldM_append:
  "foldM f (xs @ ys) s = (case foldM f xs s of None \<Rightarrow> None | Some s' \<Rightarrow> foldM f ys s')"
  by (induction xs arbitrary: s) (auto split: option.splits)

lemma foldM_snoc:
  "foldM f (xs @ [x]) s = (case foldM f xs s of None \<Rightarrow> None | Some s' \<Rightarrow> f x s')"
  by (simp add: foldM_append split: option.splits)

lemma foldM_cong: "(\<And>x s. x \<in> set xs \<Longrightarrow> f x s = g x s) \<Longrightarrow> foldM f xs s = foldM g xs s"
  by (induction xs arbitrary: s) (auto split: option.splits)

lemma foldM_map: "foldM f (map g xs) s = foldM (\<lambda>x. f (g x)) xs s"
  by (induction xs arbitrary: s) (auto split: option.splits)

text \<open>A loop over \<open>0, \<dots>, n - 1\<close> keeps an invariant indexed by the number of finished rounds.\<close>

lemma foldM_upt_inv:
  assumes "P 0 s"
    and "\<And>i s. i < n \<Longrightarrow> P i s \<Longrightarrow> \<exists>s'. f i s = Some s' \<and> P (Suc i) s'"
  shows "\<exists>s'. foldM f [0..<n] s = Some s' \<and> P n s'"
  using assms(2)
proof (induction n)
  case 0
  then show ?case using assms(1) by simp
next
  case (Suc n)
  then obtain s' where "foldM f [0..<n] s = Some s'" "P n s'"
    by (meson less_SucI)
  moreover obtain s'' where "f n s' = Some s''" "P (Suc n) s''"
    using Suc.prems[of n s'] \<open>P n s'\<close> by auto
  ultimately show ?case
    by (simp add: foldM_append)
qed

text \<open>A loop that rewrites each cell of an array from its own old content.\<close>

definition update_cells :: "(nat \<Rightarrow> 'a \<Rightarrow> 'a) \<Rightarrow> nat list \<Rightarrow> 'a list \<Rightarrow> 'a list" where
  "update_cells f is xs = fold (\<lambda>i xs. xs[i := f i (xs ! i)]) is xs"

lemma length_update_cells [simp]: "length (update_cells f is xs) = length xs"
  unfolding update_cells_def by (induction "is" arbitrary: xs) auto

lemma nth_update_cells_from:
  "j < length xs \<Longrightarrow>
     update_cells f [m..<n] xs ! j = (if m \<le> j \<and> j < n then f j (xs ! j) else xs ! j)"
proof (induction n)
  case 0
  then show ?case by (simp add: update_cells_def)
next
  case (Suc n)
  then have "length (fold (\<lambda>i xs. xs[i := f i (xs ! i)]) [m..<n] xs) = length xs"
    using length_update_cells[of f "[m..<n]" xs] by (simp add: update_cells_def)
  with Suc show ?case
    by (cases "m \<le> n"; cases "j = n") (auto simp: update_cells_def nth_list_update less_Suc_eq)
qed

lemma nth_update_cells:
  "j < length xs \<Longrightarrow> update_cells f [0..<n] xs ! j = (if j < n then f j (xs ! j) else xs ! j)"
  by (simp add: nth_update_cells_from)

section \<open>Arrays of words\<close>

text \<open>The number of words a vector of \<open>n\<close> bits occupies, \<^verbatim>\<open>(n + BITS_PER_WORD - 1) / BITS_PER_WORD\<close>.\<close>

abbreviation word_count :: "nat \<Rightarrow> nat" where
  "word_count n \<equiv> (n + 63) div 64"

lemma div_less_word_count: "i < n \<Longrightarrow> i div 64 < word_count n"
proof -
  assume "i < n"
  then have "i + 64 \<le> n + 63" by simp
  then have "(i + 64) div 64 \<le> (n + 63) div 64" by (rule div_le_mono)
  then show ?thesis by simp
qed

lemma word_count_le_1: "n \<le> 64 \<Longrightarrow> word_count n \<le> 1"
  by simp

lemma word_count_gt_1: "64 < n \<Longrightarrow> 1 < word_count n"
  by simp

text \<open>A width cut into its full words and the tail.\<close>

lemma tail_index: "(i::nat) < n \<Longrightarrow> i div 64 = n div 64 \<longleftrightarrow> \<not> i div 64 < n div 64"
  using div_le_mono[of i n 64] by linarith

lemma tail_mod_less: "(i::nat) < n \<Longrightarrow> i div 64 = n div 64 \<Longrightarrow> i mod 64 < n mod 64"
  using mult_div_mod_eq[of 64 i] mult_div_mod_eq[of 64 n] by linarith

lemma tail_cases:
  assumes "(i::nat) < n"
  obtains "i div 64 < n div 64" | "i div 64 = n div 64" "0 < n mod 64" "i mod 64 < n mod 64"
  using assms tail_index[of i n] tail_mod_less[of i n] by fastforce

lemma word_count_tail: "word_count n = n div 64 + (if 0 < n mod 64 then 1 else 0)"
proof -
  have "n + 63 = n mod 64 + 63 + 64 * (n div 64)" by simp
  then have "(n + 63) div 64 = n div 64 + (n mod 64 + 63) div 64"
    by (metis add.commute div_mult_self2 zero_neq_numeral)
  moreover have "(n mod 64 + 63) div 64 = 1" if "0 < n mod 64"
    using that by (intro div_nat_eqI) auto
  ultimately show ?thesis by auto
qed

text \<open>The number that an array of words stands for, least significant word first.\<close>

fun words_val :: "u64 list \<Rightarrow> nat" where
  "words_val [] = 0"
| "words_val (w # ws) = unat w + 2 ^ 64 * words_val ws"

lemma unat_u64_less [simp]: "unat (w :: u64) < 18446744073709551616"
  using unsigned_less[of w] by simp

lemma unat_u64_mod [simp]: "unat (w :: u64) mod 18446744073709551616 = unat w"
  by (rule mod_less) simp

lemma words_val_less: "words_val ws < 2 ^ (64 * length ws)"
proof (induction ws)
  case Nil
  then show ?case by simp
next
  case (Cons w ws)
  have "words_val (w # ws) < 2 ^ 64 + 2 ^ 64 * words_val ws"
    using unat_u64_less[of w] by simp
  also have "\<dots> = 2 ^ 64 * Suc (words_val ws)" by simp
  also have "\<dots> \<le> 2 ^ 64 * 2 ^ (64 * length ws)"
    using Cons by (intro mult_le_mono) auto
  finally show ?case by (simp add: power_add)
qed

lemma bit_unat_u64: "bit (unat (w :: u64)) i \<longleftrightarrow> bit w i"
  by (simp add: bit_unsigned_iff)

lemma bit_words_val:
  "bit (words_val ws) i \<longleftrightarrow> i div 64 < length ws \<and> bit (ws ! (i div 64)) (i mod 64)"
proof (induction ws arbitrary: i)
  case Nil
  then show ?case by simp
next
  case (Cons w ws)
  show ?case
  proof (cases "i < 64")
    case True
    have "take_bit 64 (words_val (w # ws)) = unat w"
      by (simp add: take_bit_eq_mod)
    then have "bit (words_val (w # ws)) i = bit (unat w) i"
      using True by (metis bit_take_bit_iff)
    then show ?thesis using True by (simp add: bit_unat_u64)
  next
    case False
    then obtain k where k: "i = 64 + k" using le_Suc_ex not_less by blast
    have "drop_bit 64 (words_val (w # ws)) = words_val ws"
      by (simp add: drop_bit_eq_div)
    then have "bit (words_val (w # ws)) i = bit (words_val ws) k"
      unfolding k by (metis bit_drop_bit_eq comp_apply)
    moreover have "i div 64 = Suc (k div 64)" "i mod 64 = k mod 64"
      using k by simp_all
    ultimately show ?thesis using Cons.IH[of k] by simp
  qed
qed

lemma words_val_append:
  "words_val (xs @ ys) = words_val xs + 2 ^ (64 * length xs) * words_val ys"
  by (induction xs) (simp_all add: power_add algebra_simps)

end
