(* ===== verification/Bit4.thy ===== *)
theory Bit4
  imports Prelude
begin

text \<open>
  The four-valued scalar \<^verbatim>\<open>vvp_bit4_t\<close> of \<^verbatim>\<open>vvp/vvp_net.h\<close> and \<^verbatim>\<open>vvp/vvp_net.cc\<close>: its
  encoding in two bits, the Boolean operators that rely on that encoding, edge classification, the
  one-bit full adder, and the word-sized adder and multiplier the wide arithmetic is built on.
  The abstract specification of the operators is the locale \<open>gate4\<close>: a four-valued operator is the
  most precise one that is sound for every way of resolving X and Z to a Boolean.
\<close>

section \<open>Encoding\<close>

datatype vvp_bit4_t = BIT4_0 | BIT4_1 | BIT4_X | BIT4_Z

text \<open>The enumeration's numbers, and the cast from such a number back.\<close>

fun bit4_int :: "vvp_bit4_t \<Rightarrow> nat" where
  "bit4_int BIT4_0 = 0"
| "bit4_int BIT4_1 = 1"
| "bit4_int BIT4_X = 3"
| "bit4_int BIT4_Z = 2"

definition bit4_cast :: "nat \<Rightarrow> vvp_bit4_t" where
  "bit4_cast n =
     (if n = 0 then BIT4_0 else if n = 1 then BIT4_1 else if n = 2 then BIT4_Z else BIT4_X)"

lemma bit4_cast_int [simp]: "bit4_cast (bit4_int a) = a"
  by (cases a) (simp_all add: bit4_cast_def)

lemma bit4_int_cast: "n < 4 \<Longrightarrow> bit4_int (bit4_cast n) = n"
  by (auto simp: bit4_cast_def)

lemma bit4_int_inj [simp]: "bit4_int a = bit4_int b \<longleftrightarrow> a = b"
  by (metis bit4_cast_int)

text \<open>Values are compared as the enumeration's numbers, so Z and X are the two largest.\<close>

instantiation vvp_bit4_t :: linorder
begin

definition less_eq_vvp_bit4_t :: "vvp_bit4_t \<Rightarrow> vvp_bit4_t \<Rightarrow> bool" where
  "less_eq_vvp_bit4_t a b \<longleftrightarrow> bit4_int a \<le> bit4_int b"

definition less_vvp_bit4_t :: "vvp_bit4_t \<Rightarrow> vvp_bit4_t \<Rightarrow> bool" where
  "less_vvp_bit4_t a b \<longleftrightarrow> bit4_int a < bit4_int b"

instance
  by standard (auto simp: less_eq_vvp_bit4_t_def less_vvp_bit4_t_def)

end

definition vvp_bit4_to_ascii :: "vvp_bit4_t \<Rightarrow> char" where
  "vvp_bit4_to_ascii a = ''01zx'' ! bit4_int a"

definition bit4_is_xz :: "vvp_bit4_t \<Rightarrow> bool" where
  "bit4_is_xz a \<longleftrightarrow> 2 \<le> bit4_int a"

definition bit4_z2x :: "vvp_bit4_t \<Rightarrow> vvp_bit4_t" where
  "bit4_z2x a = bit4_cast (bit4_int a OR drop_bit 1 (bit4_int a))"

lemma bit4_is_xz_simps [simp]:
  "\<not> bit4_is_xz BIT4_0" "\<not> bit4_is_xz BIT4_1" "bit4_is_xz BIT4_X" "bit4_is_xz BIT4_Z"
  by (simp_all add: bit4_is_xz_def)

lemma bit4_z2x_simps [simp]:
  "bit4_z2x BIT4_0 = BIT4_0" "bit4_z2x BIT4_1 = BIT4_1"
  "bit4_z2x BIT4_X = BIT4_X" "bit4_z2x BIT4_Z = BIT4_X"
  by (simp_all add: bit4_z2x_def bit4_cast_def drop_bit_eq_div)

section \<open>Operators\<close>

definition bit4_not :: "vvp_bit4_t \<Rightarrow> vvp_bit4_t" where
  "bit4_not a = bit4_z2x (bit4_cast (bit4_int a XOR 1))"

definition bit4_or :: "vvp_bit4_t \<Rightarrow> vvp_bit4_t \<Rightarrow> vvp_bit4_t" where
  "bit4_or a b =
     (if a = BIT4_1 \<or> b = BIT4_1 then BIT4_1 else bit4_z2x (bit4_cast (bit4_int a OR bit4_int b)))"

definition bit4_and :: "vvp_bit4_t \<Rightarrow> vvp_bit4_t \<Rightarrow> vvp_bit4_t" where
  "bit4_and a b =
     (if a = BIT4_0 \<or> b = BIT4_0 then BIT4_0 else bit4_z2x (bit4_cast (bit4_int a OR bit4_int b)))"

definition bit4_xor :: "vvp_bit4_t \<Rightarrow> vvp_bit4_t \<Rightarrow> vvp_bit4_t" where
  "bit4_xor a b =
     (if bit4_is_xz a then BIT4_X
      else if bit4_is_xz b then BIT4_X
      else if a = BIT4_0 then b
      else if b = BIT4_0 then a
      else BIT4_0)"

lemma bit4_not_simps [simp]:
  "bit4_not BIT4_0 = BIT4_1" "bit4_not BIT4_1 = BIT4_0"
  "bit4_not BIT4_X = BIT4_X" "bit4_not BIT4_Z = BIT4_X"
  by (simp_all add: bit4_not_def bit4_cast_def)

lemma bit4_or_table:
  "bit4_or a b =
     (if a = BIT4_1 \<or> b = BIT4_1 then BIT4_1 else if a = BIT4_0 \<and> b = BIT4_0 then BIT4_0 else BIT4_X)"
  by (cases a; cases b) (simp_all add: bit4_or_def bit4_cast_def)

lemma bit4_and_table:
  "bit4_and a b =
     (if a = BIT4_0 \<or> b = BIT4_0 then BIT4_0 else if a = BIT4_1 \<and> b = BIT4_1 then BIT4_1 else BIT4_X)"
  by (cases a; cases b) (simp_all add: bit4_and_def bit4_cast_def)

section \<open>What an operator promises\<close>

text \<open>The Booleans a four-valued bit may stand for, and the bit that best describes a set of them.\<close>

definition concretes :: "vvp_bit4_t \<Rightarrow> bool set" where
  "concretes a = (case a of BIT4_0 \<Rightarrow> {False} | BIT4_1 \<Rightarrow> {True} | _ \<Rightarrow> {False, True})"

definition best_bit4 :: "bool set \<Rightarrow> vvp_bit4_t" where
  "best_bit4 S = (if S = {False} then BIT4_0 else if S = {True} then BIT4_1 else BIT4_X)"

lemma concretes_simps [simp]:
  "concretes BIT4_0 = {False}" "concretes BIT4_1 = {True}"
  "concretes BIT4_X = {False, True}" "concretes BIT4_Z = {False, True}"
  by (simp_all add: concretes_def)

locale gate4 =
  fixes op4 :: "vvp_bit4_t \<Rightarrow> vvp_bit4_t \<Rightarrow> vvp_bit4_t"
    and bop :: "bool \<Rightarrow> bool \<Rightarrow> bool"
  assumes precise: "op4 a b = best_bit4 (\<Union>x\<in>concretes a. bop x ` concretes b)"
    and bop_comm: "bop x y = bop y x"
    and bop_assoc: "bop (bop x y) z = bop x (bop y z)"
begin

lemma gate_sound: "x \<in> concretes a \<Longrightarrow> y \<in> concretes b \<Longrightarrow> bop x y \<in> concretes (op4 a b)"
  unfolding precise best_bit4_def by (cases "bop x y") auto

lemma gate_comm: "op4 a b = op4 b a"
proof -
  have "(\<Union>x\<in>concretes a. bop x ` concretes b) = (\<Union>x\<in>concretes b. bop x ` concretes a)"
    using bop_comm by blast
  then show ?thesis by (simp only: precise)
qed

lemma gate_never_z: "op4 a b \<noteq> BIT4_Z"
  by (simp add: precise best_bit4_def)

lemma gate_z2x: "op4 (bit4_z2x a) (bit4_z2x b) = op4 a b"
proof -
  have "concretes (bit4_z2x c) = concretes c" for c by (cases c) auto
  then show ?thesis by (simp only: precise)
qed

lemma gate_known: "op4 (if x then BIT4_1 else BIT4_0) (if y then BIT4_1 else BIT4_0) =
    (if bop x y then BIT4_1 else BIT4_0)"
  by (cases x; cases y; cases "bop x y") (auto simp: precise best_bit4_def)

end

interpretation and4: gate4 bit4_and "(\<and>)"
proof (unfold_locales, goal_cases)
  case (1 a b)
  show ?case by (cases a; cases b) (auto simp: bit4_and_table best_bit4_def)
qed auto

interpretation or4: gate4 bit4_or "(\<or>)"
proof (unfold_locales, goal_cases)
  case (1 a b)
  show ?case by (cases a; cases b) (auto simp: bit4_or_table best_bit4_def)
qed auto

interpretation xor4: gate4 bit4_xor "(\<noteq>)"
proof (unfold_locales, goal_cases)
  case (1 a b)
  show ?case by (cases a; cases b) (auto simp: bit4_xor_def best_bit4_def)
qed auto

section \<open>Edges\<close>

text \<open>An edge is one bit of an \<^verbatim>\<open>unsigned short\<close>, indexed by the two values' encodings.\<close>

definition VVP_EDGE :: "vvp_bit4_t \<Rightarrow> vvp_bit4_t \<Rightarrow> 16 word" where
  "VVP_EDGE from to = push_bit (push_bit 2 (bit4_int from) OR bit4_int to) 1"

definition vvp_edge_posedge :: "16 word" where
  "vvp_edge_posedge =
     VVP_EDGE BIT4_0 BIT4_1 OR VVP_EDGE BIT4_0 BIT4_X OR VVP_EDGE BIT4_0 BIT4_Z OR
     VVP_EDGE BIT4_X BIT4_1 OR VVP_EDGE BIT4_Z BIT4_1"

definition vvp_edge_negedge :: "16 word" where
  "vvp_edge_negedge =
     VVP_EDGE BIT4_1 BIT4_0 OR VVP_EDGE BIT4_1 BIT4_X OR VVP_EDGE BIT4_1 BIT4_Z OR
     VVP_EDGE BIT4_X BIT4_0 OR VVP_EDGE BIT4_Z BIT4_0"

definition edge :: "vvp_bit4_t \<Rightarrow> vvp_bit4_t \<Rightarrow> int" where
  "edge from to =
     (let mask = VVP_EDGE from to
      in if mask AND vvp_edge_posedge \<noteq> 0 then 1
         else if mask AND vvp_edge_negedge \<noteq> 0 then - 1
         else 0)"

text \<open>The level of a value between low and high, with X and Z in the middle.\<close>

definition bit4_level :: "vvp_bit4_t \<Rightarrow> int" where
  "bit4_level a = (case a of BIT4_0 \<Rightarrow> 0 | BIT4_1 \<Rightarrow> 2 | _ \<Rightarrow> 1)"

text \<open>The bit-mask test of \<^verbatim>\<open>edge\<close> classifies a transition by the direction in which the
  level moves: a posedge where it rises, a negedge where it falls, no edge where it stays (so not
  between X and Z). In particular a transition and its reverse are opposite edges.\<close>

lemma edge_level: "edge from to = sgn (bit4_level to - bit4_level from)"
  by (cases "from"; cases "to")
    (simp_all add: edge_def VVP_EDGE_def vvp_edge_posedge_def vvp_edge_negedge_def bit4_level_def
      push_bit_of_1 Let_def)

section \<open>Adders and counters\<close>

text \<open>\<^verbatim>\<open>add_with_carry\<close> on bits returns the sum bit and leaves the carry in its third argument.\<close>

definition bit4_add_with_carry ::
  "vvp_bit4_t \<Rightarrow> vvp_bit4_t \<Rightarrow> vvp_bit4_t \<Rightarrow> vvp_bit4_t \<times> vvp_bit4_t" where
  "bit4_add_with_carry a b c =
     (if bit4_is_xz a \<or> bit4_is_xz b \<or> bit4_is_xz c then (BIT4_X, BIT4_X)
      else
        let sum = bit4_int a + bit4_int b + bit4_int c
        in if sum = 0 then (BIT4_0, c)
           else if sum = 1 then (BIT4_1, BIT4_0)
           else if sum = 2 then (BIT4_0, BIT4_1)
           else (BIT4_1, BIT4_1))"

lemma bit4_add_with_carry_known:
  "bit4_add_with_carry (bit4_cast (of_bool x)) (bit4_cast (of_bool y)) (bit4_cast (of_bool z)) =
     (bit4_cast (of_bool ((x \<noteq> y) \<noteq> z)), bit4_cast (of_bool (x \<and> y \<or> z \<and> (x \<or> y))))"
  by (cases x; cases y; cases z) (simp_all add: bit4_add_with_carry_def bit4_cast_def)

text \<open>The scalar codes of \<^verbatim>\<open>vpi_user.h\<close>; any other code aborts.\<close>

definition scalar_to_bit4 :: "int \<Rightarrow> vvp_bit4_t option" where
  "scalar_to_bit4 scalar =
     (if scalar = 0 then Some BIT4_0
      else if scalar = 1 then Some BIT4_1
      else if scalar = 3 then Some BIT4_X
      else if scalar = 2 then Some BIT4_Z
      else None)"

text \<open>The counters are \<^verbatim>\<open>counts[0]\<close>, \<^verbatim>\<open>counts[1]\<close> and \<^verbatim>\<open>counts[2]\<close>.\<close>

definition update_driver_counts :: "vvp_bit4_t \<Rightarrow> nat list \<Rightarrow> nat list" where
  "update_driver_counts b counts =
     (case b of
        BIT4_0 \<Rightarrow> counts[0 := counts ! 0 + 1]
      | BIT4_1 \<Rightarrow> counts[1 := counts ! 1 + 1]
      | BIT4_X \<Rightarrow> counts[2 := counts ! 2 + 1]
      | BIT4_Z \<Rightarrow> counts)"

section \<open>Word-sized addition and multiplication\<close>

text \<open>Both return the result and the new carry.\<close>

definition add_with_carry :: "u64 \<Rightarrow> u64 \<Rightarrow> u64 \<Rightarrow> u64 \<times> u64" where
  "add_with_carry a b carry =
     (let tmp = b + carry;
          sum = a + tmp;
          carry = 0;
          carry = (if tmp < b then 1 else carry);
          carry = (if sum < tmp then 1 else carry);
          carry = (if sum < a then 1 else carry)
      in (sum, carry))"

definition multiply_with_carry :: "u64 \<Rightarrow> u64 \<Rightarrow> u64 \<times> u64" where
  "multiply_with_carry a b =
     (let m = shl 1 32 - 1;
          a0 = a AND m; a1 = shr a 32 AND m;
          b0 = b AND m; b1 = shr b 32 AND m;
          tmp = a0 * b0; r00 = tmp AND m; c00 = shr tmp 32 AND m;
          tmp = a0 * b1; r01 = tmp AND m; c01 = shr tmp 32 AND m;
          tmp = a1 * b0; r10 = tmp AND m; c10 = shr tmp 32 AND m;
          tmp = a1 * b1; r11 = tmp AND m; c11 = shr tmp 32 AND m;
          r1 = c00 + r01 + r10;
          r2 = shr r1 32 AND m;
          r1 = r1 AND m;
          r2 = r2 + (c01 + c10 + r11);
          r3 = shr r2 32 AND m;
          r2 = r2 AND m;
          r3 = r3 + c11;
          r3 = r3 AND m
      in (shl r1 32 + r00, shl r3 32 + r2))"

lemma carry_chain_nat:
  fixes A B C T S K M :: nat
  assumes "1 < M" "A < M" "B < M" "C \<le> 1"
    and "T = (if B + C < M then B + C else B + C - M)"
    and "S = (if A + T < M then A + T else A + T - M)"
    and "K = (if S < A then 1 else if S < T then 1 else if T < B then 1 else 0)"
  shows "S + M * K = A + B + C \<and> K \<le> 1"
  using assms by (auto split: if_splits)

lemma add_with_carry_words:
  assumes "unat c \<le> 1" and "add_with_carry a b c = (s, c')"
  shows "unat s + 2 ^ 64 * unat c' = unat a + unat b + unat c \<and> unat c' \<le> 1"
proof (rule carry_chain_nat)
  show "(1 :: nat) < 2 ^ 64" "unat a < 2 ^ 64" "unat b < 2 ^ 64" "unat c \<le> 1"
    using assms(1) by simp_all
  show "unat (b + c) = (if unat b + unat c < 2 ^ 64 then unat b + unat c else unat b + unat c - 2 ^ 64)"
    by (simp add: unat_plus_if')
  show "unat s = (if unat a + unat (b + c) < 2 ^ 64 then unat a + unat (b + c)
          else unat a + unat (b + c) - 2 ^ 64)"
    using assms(2) unat_plus_if'[of a "b + c"] by (simp add: add_with_carry_def Let_def split: if_splits)
  show "unat c' = (if unat s < unat a then 1 else if unat s < unat (b + c) then 1
          else if unat (b + c) < unat b then 1 else 0)"
    using assms(2) by (auto simp: add_with_carry_def Let_def word_less_nat_alt split: if_splits)
qed

lemma unat_and_mask32: "unat (w AND (shl 1 32 - 1)) = unat w mod 2 ^ 32"
  by (simp only: shl_1_minus_1 take_bit_eq_mask [symmetric] take_bit_eq_mod) (simp add: unat_mod)

lemma unat_shr32: "unat (shr w 32) = unat w div 2 ^ 32"
  by (simp only: shr_def drop_bit_eq_div) (simp add: unat_div)

lemma unat_hi32: "unat (shr w 32 AND (shl 1 32 - 1)) = unat w div 2 ^ 32"
  unfolding unat_and_mask32 unat_shr32
  using unat_u64_less[of w] by (simp add: div_less_iff_less_mult)

lemma unat_add_no_wrap: "unat x + unat y < 2 ^ 64 \<Longrightarrow> unat (x + y :: u64) = unat x + unat y"
  by (simp add: unat_word_ariths)

lemma unat_mult_no_wrap: "unat x * unat y < 2 ^ 64 \<Longrightarrow> unat (x * y :: u64) = unat x * unat y"
  by (simp add: unat_word_ariths)

lemma unat_shl32: "unat x < 2 ^ 32 \<Longrightarrow> unat (shl x 32) = unat x * 2 ^ 32"
  by (simp add: shl_def push_bit_eq_mult unat_word_ariths)

lemma mult_less_pow64: "x < 2 ^ 32 \<Longrightarrow> y < 2 ^ 32 \<Longrightarrow> x * y < (2 :: nat) ^ 64"
  using mult_strict_mono[of x "2 ^ 32" y "2 ^ 32"] by simp

text \<open>The schoolbook product of two numbers cut into 32-bit halves, on natural numbers.\<close>

lemma halves_product:
  fixes a0 a1 b0 b1 :: nat
  assumes r1: "r1 = a0 * b0 div B + a0 * b1 mod B + a1 * b0 mod B"
    and r2: "r2 = r1 div B + (a0 * b1 div B + a1 * b0 div B + a1 * b1 mod B)"
    and r3: "r3 = r2 div B + a1 * b1 div B"
  shows "(a0 + a1 * B) * (b0 + b1 * B) =
           a0 * b0 mod B + r1 mod B * B + (r2 mod B + r3 * B) * (B * B)"
proof -
  define p00 q00 p01 q01 p10 q10 p11 q11 where
    "p00 = a0 * b0 mod B" "q00 = a0 * b0 div B" "p01 = a0 * b1 mod B" "q01 = a0 * b1 div B"
    "p10 = a1 * b0 mod B" "q10 = a1 * b0 div B" "p11 = a1 * b1 mod B" "q11 = a1 * b1 div B"
  define s1 t1 s2 t2 where "s1 = r1 mod B" "t1 = r1 div B" "s2 = r2 mod B" "t2 = r2 div B"
  have cut: "a0 * b0 = p00 + q00 * B" "a0 * b1 = p01 + q01 * B" "a1 * b0 = p10 + q10 * B"
    "a1 * b1 = p11 + q11 * B"
    by (simp_all add: p00_q00_p01_q01_p10_q10_p11_q11_def)
  have "(a0 + a1 * B) * (b0 + b1 * B) = a0 * b0 + (a0 * b1 + a1 * b0) * B + a1 * b1 * B * B"
    by (simp add: algebra_simps)
  also have "\<dots> = p00 + (q00 + p01 + p10) * B + (q01 + q10 + p11) * B * B + q11 * B * B * B"
    by (simp add: cut algebra_simps)
  also have "q00 + p01 + p10 = s1 + t1 * B"
    using r1 by (simp add: s1_t1_s2_t2_def p00_q00_p01_q01_p10_q10_p11_q11_def)
  also have "p00 + (s1 + t1 * B) * B + (q01 + q10 + p11) * B * B + q11 * B * B * B =
      p00 + s1 * B + (t1 + (q01 + q10 + p11)) * B * B + q11 * B * B * B"
    by (simp add: algebra_simps)
  also have "t1 + (q01 + q10 + p11) = s2 + t2 * B"
    using r2 by (simp add: s1_t1_s2_t2_def p00_q00_p01_q01_p10_q10_p11_q11_def)
  also have "p00 + s1 * B + (s2 + t2 * B) * B * B + q11 * B * B * B =
      p00 + s1 * B + (s2 + (t2 + q11) * B) * (B * B)"
    by (simp add: algebra_simps)
  finally show ?thesis
    using r3 by (simp add: s1_t1_s2_t2_def p00_q00_p01_q01_p10_q10_p11_q11_def)
qed

lemma unat_add_halves:
  "unat x < 4 * 2 ^ 32 \<Longrightarrow> unat y < 4 * 2 ^ 32 \<Longrightarrow> unat (x + y :: u64) = unat x + unat y"
  by (rule unat_add_no_wrap) simp

lemma top_half_less:
  fixes B r t p q u v :: nat
  assumes "p + q * B + (u + r * B) * (B * B) = x * y" and "x < B * B" and "y < B * B" and "0 < B"
  shows "r < B"
proof (rule ccontr)
  assume "\<not> r < B"
  then have "B * B * (B * B) \<le> r * B * (B * B)" by simp
  also have "\<dots> \<le> x * y" using assms(1) by (simp add: algebra_simps)
  also have "\<dots> < B * B * (B * B)" using assms(2-4) by (intro mult_strict_mono) auto
  finally show False by simp
qed

lemma multiply_with_carry_full:
  "(case multiply_with_carry a b of (lo, carry) \<Rightarrow> unat lo + 2 ^ 64 * unat carry) = unat a * unat b"
proof -
  define B :: nat where "B = 2 ^ 32"
  define lo hi where "lo w = w AND (shl 1 32 - 1)" "hi w = shr w 32 AND (shl 1 32 - 1)" for w
  have cut: "unat (lo w) = unat w mod B" "unat (hi w) = unat w div B"
    "unat (lo w) < B" "unat (hi w) < B" for w
    using unat_and_mask32[of w] unat_hi32[of w]
    by (simp_all add: lo_hi_def B_def div_less_iff_less_mult)
  have prod: "unat (x * y) = unat x * unat y" if "unat x < B" "unat y < B" for x y :: u64
    using that by (intro unat_mult_no_wrap mult_less_pow64) (simp_all add: B_def)
  have sum: "unat (x + y) = unat x + unat y" if "unat x < 4 * B" "unat y < 4 * B" for x y :: u64
    using that by (intro unat_add_halves) (simp_all add: B_def)
  note prods = prod[OF cut(3) cut(3)] prod[OF cut(3) cut(4)] prod[OF cut(4) cut(3)] prod[OF cut(4) cut(4)]
  define W1 where "W1 = hi (lo a * lo b) + lo (lo a * hi b) + lo (hi a * lo b)"
  define W2 where "W2 = hi W1 + (hi (lo a * hi b) + hi (hi a * lo b) + lo (hi a * hi b))"
  define W3 where "W3 = lo (hi W2 + hi (hi a * hi b))"
  have code: "multiply_with_carry a b = (shl (lo W1) 32 + lo (lo a * lo b), shl W3 32 + lo W2)"
    by (simp add: multiply_with_carry_def Let_def W1_def W2_def W3_def lo_hi_def)
  have w1: "unat W1 = unat (hi (lo a * lo b)) + unat (lo (lo a * hi b)) + unat (lo (hi a * lo b))"
    unfolding W1_def
    using cut(4)[of "lo a * lo b"] cut(3)[of "lo a * hi b"] cut(3)[of "hi a * lo b"]
    by (simp add: sum)
  have w2: "unat W2 = unat (hi W1) +
      (unat (hi (lo a * hi b)) + unat (hi (hi a * lo b)) + unat (lo (hi a * hi b)))"
    unfolding W2_def using cut(3)[of "hi a * hi b"] cut(4)[of "lo a * hi b"] cut(4)[of "hi a * lo b"]
      cut(4)[of W1]
    by (simp add: sum)
  define r3 where "r3 = unat W2 div B + unat (hi a) * unat (hi b) div B"
  have ab: "unat a = unat (lo a) + unat (hi a) * B" "unat b = unat (lo b) + unat (hi b) * B"
    by (simp_all add: cut)
  have total: "unat a * unat b =
      unat (lo a) * unat (lo b) mod B + unat W1 mod B * B + (unat W2 mod B + r3 * B) * (B * B)"
    unfolding ab
    by (rule halves_product [where ?r1.0 = "unat W1" and ?r2.0 = "unat W2"])
      (simp_all only: w1 w2 r3_def cut(1,2) prods)
  have "r3 < B"
    using total [symmetric] by (rule top_half_less) (simp_all add: B_def)
  then have w3: "unat W3 = r3"
    unfolding W3_def r3_def using cut(4)[of W2] cut(4)[of "hi a * hi b"]
    by (simp add: cut(1,2) sum prods[unfolded cut(1,2)])
  have "unat (shl (lo W1) 32 + lo (lo a * lo b)) = unat W1 mod B * B + unat (lo a) * unat (lo b) mod B"
    using cut(3)[of W1] cut(3)[of "lo a * lo b"]
    by (subst unat_add_no_wrap) (auto simp: unat_shl32 B_def cut prod)
  moreover have "unat (shl W3 32 + lo W2) = r3 * B + unat W2 mod B"
    using \<open>r3 < B\<close> cut(3)[of W2]
    by (subst unat_add_no_wrap) (auto simp: unat_shl32 B_def cut w3)
  ultimately show ?thesis
    unfolding code using total by (simp add: B_def)
qed

text \<open>The two word operations under the wide arithmetic lose nothing. \<^verbatim>\<open>add_with_carry\<close> on two words
  and a carry of at most 1 returns the exact sum as a word and a carry of at most 1, though it detects
  the carry by comparing wrapped sums; \<^verbatim>\<open>multiply_with_carry\<close> returns the low and the high word of the
  exact 128-bit product, computed from four products of halves.\<close>

lemma word_arith_exact:
  assumes "unat c \<le> 1"
  shows "(case add_with_carry a b c of (s, c') \<Rightarrow>
       unat c' \<le> 1 \<and> unat s + 2 ^ 64 * unat c' = unat a + unat b + unat c) \<and>
    (case multiply_with_carry a b of (lo, hi) \<Rightarrow> unat lo + 2 ^ 64 * unat hi = unat a * unat b)"
  using add_with_carry_words[OF assms, of a b] multiply_with_carry_full[of a b]
  by (auto split: prod.splits)

end
