(* ===== verification/Bit_Vector.thy ===== *)
theory Bit_Vector
  imports Bit4
begin

text \<open>
  The interface the clients of the three vector classes of \<^verbatim>\<open>vvp_net.h\<close> rely on. Almost all of the
  runtime builds a vector by a loop of \<^verbatim>\<open>set_bit\<close> calls and reads one by \<^verbatim>\<open>value\<close>; the locale
  \<open>bit_vector\<close> states what these two promise, and the lemmas about such loops are proved once for
  \<^verbatim>\<open>vvp_vector4_t\<close>, \<^verbatim>\<open>vvp_vector2_t\<close> and \<^verbatim>\<open>vvp_vector8_t\<close>.
\<close>

locale bit_vector =
  fixes vsize :: "'v \<Rightarrow> nat"
    and vvalue :: "'v \<Rightarrow> nat \<Rightarrow> 'b"
    and vset :: "'v \<Rightarrow> nat \<Rightarrow> 'b \<Rightarrow> 'v option"
    and vwf :: "'v \<Rightarrow> bool"
  assumes set_in_range: "vwf v \<Longrightarrow> i < vsize v \<Longrightarrow>
      \<exists>v'. vset v i b = Some v' \<and> vwf v' \<and> vsize v' = vsize v \<and>
           (\<forall>j<vsize v. vvalue v' j = (if j = i then b else vvalue v j))"
    and set_out_of_range: "vsize v \<le> i \<Longrightarrow> vset v i b = None"
begin

text \<open>A loop that writes the bits \<open>f 0, f 1, \<dots>\<close> to distinct positions \<open>g 0, g 1, \<dots>\<close>.\<close>

lemma set_loop:
  assumes "vwf v" and "inj_on g {..<n}" and "\<And>i. i < n \<Longrightarrow> g i < vsize v"
  shows "\<exists>v'. foldM (\<lambda>i v. vset v (g i) (f i)) [0..<n] v = Some v' \<and> vwf v' \<and> vsize v' = vsize v \<and>
      (\<forall>i<n. vvalue v' (g i) = f i) \<and>
      (\<forall>j<vsize v. j \<notin> g ` {..<n} \<longrightarrow> vvalue v' j = vvalue v j)"
  using assms(2,3)
proof (induction n)
  case 0
  then show ?case using assms(1) by auto
next
  case (Suc n)
  have "inj_on g {..<n}" using Suc.prems(1) by (rule inj_on_subset) auto
  moreover have "g i < vsize v" if "i < n" for i using Suc.prems(2)[of i] that by simp
  ultimately obtain u where u: "foldM (\<lambda>i v. vset v (g i) (f i)) [0..<n] v = Some u" "vwf u"
    "vsize u = vsize v" "\<forall>i<n. vvalue u (g i) = f i"
    "\<forall>j<vsize v. j \<notin> g ` {..<n} \<longrightarrow> vvalue u j = vvalue v j"
    using Suc.IH by blast
  obtain w where w: "vset u (g n) (f n) = Some w" "vwf w" "vsize w = vsize u"
    "\<forall>j<vsize u. vvalue w j = (if j = g n then f n else vvalue u j)"
    using set_in_range[OF u(2), of "g n" "f n"] Suc.prems(2)[of n] u(3) by auto
  have fresh: "g i \<noteq> g n" if "i < n" for i
    using Suc.prems(1) that by (auto dest: inj_onD)
  have "\<forall>i<Suc n. vvalue w (g i) = f i"
    using w(4) u(3,4) fresh Suc.prems(2) by (auto simp: less_Suc_eq)
  moreover have "\<forall>j<vsize v. j \<notin> g ` {..<Suc n} \<longrightarrow> vvalue w j = vvalue v j"
    using w(4) u(3,5) by (auto simp: lessThan_Suc)
  ultimately show ?case
    using u(1,3) w(1-3) by (simp add: foldM_append)
qed

lemma set_loop_at:
  assumes "vwf v" and "base + n \<le> vsize v"
  shows "\<exists>v'. foldM (\<lambda>i v. vset v (base + i) (f i)) [0..<n] v = Some v' \<and> vwf v' \<and> vsize v' = vsize v \<and>
      (\<forall>j<vsize v. vvalue v' j = (if base \<le> j \<and> j < base + n then f (j - base) else vvalue v j))"
proof -
  obtain v' where v': "foldM (\<lambda>i v. vset v (base + i) (f i)) [0..<n] v = Some v'" "vwf v'"
    "vsize v' = vsize v" "\<forall>i<n. vvalue v' (base + i) = f i"
    "\<forall>j<vsize v. j \<notin> (\<lambda>i. base + i) ` {..<n} \<longrightarrow> vvalue v' j = vvalue v j"
    using set_loop[OF assms(1), of "\<lambda>i. base + i" n f] assms(2) by (auto simp: inj_on_def)
  have "vvalue v' j = f (j - base)" if "base \<le> j" "j < base + n" for j
    using v'(4) that by (metis add_diff_inverse_nat add_less_cancel_left not_less)
  moreover have "vvalue v' j = vvalue v j" if "j < vsize v" "\<not> (base \<le> j \<and> j < base + n)" for j
    using v'(5) that by auto
  ultimately show ?thesis using v'(1-3) by auto
qed

lemma set_loop_all:
  assumes "vwf v" and "n = vsize v"
  shows "\<exists>v'. foldM (\<lambda>i v. vset v i (f i)) [0..<n] v = Some v' \<and> vwf v' \<and> vsize v' = vsize v \<and>
      (\<forall>j<vsize v. vvalue v' j = f j)"
  using set_loop_at[OF assms(1), of 0 n f] assms(2) by simp

text \<open>A loop that fills the vector from its most significant end.\<close>

lemma set_loop_rev:
  assumes "vwf v" and "n = vsize v"
  shows "\<exists>v'. foldM (\<lambda>i v. vset v (n - i - 1) (f i)) [0..<n] v = Some v' \<and> vwf v' \<and> vsize v' = vsize v \<and>
      (\<forall>j<vsize v. vvalue v' j = f (n - j - 1))"
proof -
  have inj: "inj_on (\<lambda>i. n - i - 1) {..<n}"
    by (auto simp: inj_on_def)
  obtain v' where v': "foldM (\<lambda>i v. vset v (n - i - 1) (f i)) [0..<n] v = Some v'" "vwf v'"
    "vsize v' = vsize v" "\<forall>i<n. vvalue v' (n - i - 1) = f i"
    using set_loop[OF assms(1) inj, of f] assms(2) by auto
  have "vvalue v' j = f (n - j - 1)" if "j < n" for j
  proof -
    have "n - j - 1 < n" "n - (n - j - 1) - 1 = j" using that by simp_all
    then show ?thesis using v'(4) by metis
  qed
  then show ?thesis using v'(1-3) assms(2) by auto
qed

end

end
