(* ===== verification/Vector4.thy ===== *)
theory Vector4
  imports Bit_Vector
begin

text \<open>
  The four-valued vector \<^verbatim>\<open>vvp_vector4_t\<close>: its representation by two planes of words, reading and
  writing one bit, construction, and the whole-vector operations that work a word at a time
  (\<^verbatim>\<open>vvp_net.h\<close>, \<^verbatim>\<open>vvp_net.cc\<close>). Every word-level operation is characterised by what it does to the
  single bits, the characterisation a reader of the Verilog standard would write down.

  The union of \<^verbatim>\<open>abits_val_\<close> and \<^verbatim>\<open>abits_ptr_\<close> is a list of words: one word when \<^verbatim>\<open>size_\<close> is at most
  64 (the code's \<^verbatim>\<open>abits_val_\<close> is its word 0), and \<^verbatim>\<open>(size_ + 63) / 64\<close> words otherwise. The bits of
  the last word beyond \<^verbatim>\<open>size_\<close> are whatever the code left there.
\<close>

section \<open>Representation\<close>

record vvp_vector4_t =
  vec_size :: nat
  abits :: "u64 list"
  bbits :: "u64 list"

definition nwords :: "nat \<Rightarrow> nat" where
  "nwords n = (if 64 < n then word_count n else 1)"

definition vec4_wf :: "vvp_vector4_t \<Rightarrow> bool" where
  "vec4_wf v \<longleftrightarrow> length (abits v) = nwords (vec_size v) \<and> length (bbits v) = nwords (vec_size v)"

text \<open>\<^verbatim>\<open>allocate_words_\<close>; the constructor sets \<^verbatim>\<open>size_\<close> first.\<close>

definition vec4_allocate_words :: "nat \<Rightarrow> u64 \<Rightarrow> u64 \<Rightarrow> vvp_vector4_t" where
  "vec4_allocate_words n inita initb =
     (if 64 < n
      then let cnt = (n + 63) div 64
           in \<lparr>vec_size = n, abits = replicate cnt inita, bbits = replicate cnt initb\<rparr>
      else \<lparr>vec_size = n, abits = [inita], bbits = [initb]\<rparr>)"

definition WORD_ABITS :: "vvp_bit4_t \<Rightarrow> u64" where
  "WORD_ABITS b = (case b of BIT4_0 \<Rightarrow> 0 | BIT4_1 \<Rightarrow> - 1 | BIT4_X \<Rightarrow> - 1 | BIT4_Z \<Rightarrow> 0)"

definition WORD_BBITS :: "vvp_bit4_t \<Rightarrow> u64" where
  "WORD_BBITS b = (case b of BIT4_0 \<Rightarrow> 0 | BIT4_1 \<Rightarrow> 0 | BIT4_X \<Rightarrow> - 1 | BIT4_Z \<Rightarrow> - 1)"

definition vec4_new :: "nat \<Rightarrow> vvp_bit4_t \<Rightarrow> vvp_vector4_t" where
  "vec4_new n val = vec4_allocate_words n (WORD_ABITS val) (WORD_BBITS val)"

definition vec4_value :: "vvp_vector4_t \<Rightarrow> nat \<Rightarrow> vvp_bit4_t" where
  "vec4_value v idx =
     (if idx \<ge> vec_size v then BIT4_X
      else
        let (off, aw, bw) =
          (if 64 < vec_size v
           then let wdx = idx div 64 in (idx mod 64, abits v ! wdx, bbits v ! wdx)
           else (idx, abits v ! 0, bbits v ! 0));
          aw = shr aw off;
          bw = shr bw off
        in bit4_cast (unat (shl (bw AND 1) 1 + (aw AND 1))))"

definition set_mask_bits :: "vvp_bit4_t \<Rightarrow> u64 \<Rightarrow> u64 \<times> u64 \<Rightarrow> u64 \<times> u64" where
  "set_mask_bits val msk ab =
     (case val of
        BIT4_0 \<Rightarrow> (fst ab AND NOT msk, snd ab AND NOT msk)
      | BIT4_1 \<Rightarrow> (fst ab OR msk, snd ab AND NOT msk)
      | BIT4_X \<Rightarrow> (fst ab OR msk, snd ab OR msk)
      | BIT4_Z \<Rightarrow> (fst ab AND NOT msk, snd ab OR msk))"

definition vec4_set_bit :: "vvp_vector4_t \<Rightarrow> nat \<Rightarrow> vvp_bit4_t \<Rightarrow> vvp_vector4_t option" where
  "vec4_set_bit v idx val =
     (if idx < vec_size v
      then let msk = shl 1 (idx mod 64);
               wdx = (if 64 < vec_size v then idx div 64 else 0);
               (a, b) = set_mask_bits val msk (abits v ! wdx, bbits v ! wdx)
           in Some (v\<lparr>abits := (abits v)[wdx := a], bbits := (bbits v)[wdx := b]\<rparr>)
      else None)"

section \<open>Single bits\<close>

text \<open>A bit of a plane, and the value that a pair of plane bits encodes.\<close>

definition plane_bit :: "u64 list \<Rightarrow> nat \<Rightarrow> bool" where
  "plane_bit ws i = bit (ws ! (i div 64)) (i mod 64)"

definition bit4_ab :: "bool \<Rightarrow> bool \<Rightarrow> vvp_bit4_t" where
  "bit4_ab a b = (if b then (if a then BIT4_X else BIT4_Z) else if a then BIT4_1 else BIT4_0)"

text \<open>The list of the bits, bit 0 first: the abstract value of a vector.\<close>

definition vec4_bits :: "vvp_vector4_t \<Rightarrow> vvp_bit4_t list" where
  "vec4_bits v = map (vec4_value v) [0..<vec_size v]"

lemma nwords_small [simp]: "n \<le> 64 \<Longrightarrow> nwords n = 1"
  by (simp add: nwords_def)

lemma nwords_big [simp]: "64 < n \<Longrightarrow> nwords n = word_count n"
  by (simp add: nwords_def)

lemma div_less_nwords: "i < n \<Longrightarrow> i div 64 < nwords n"
  by (cases "64 < n") (simp_all add: div_less_word_count)

lemma nwords_pos [simp]: "0 < nwords n"
  by (cases "64 < n") simp_all

lemma and_1_eq_of_bool: "(w :: u64) AND 1 = of_bool (bit w 0)"
  by (simp add: and_one_eq odd_iff_mod_2_eq_one bit_0 mod2_eq_if)

lemma decode_bit_pair:
  "bit4_cast (unat (shl (b AND 1) 1 + (a AND 1))) = bit4_ab (bit a 0) (bit b 0)"
  by (cases "bit a 0"; cases "bit b 0")
    (simp_all add: and_1_eq_of_bool shl_def bit4_cast_def bit4_ab_def)

lemma vec4_value_planes:
  "vec4_value v i =
     (if i < vec_size v then bit4_ab (plane_bit (abits v) i) (plane_bit (bbits v) i) else BIT4_X)"
proof (cases "i < vec_size v")
  case True
  then have "vec_size v \<le> 64 \<Longrightarrow> i < 64" by simp
  with True show ?thesis
    by (simp add: vec4_value_def Let_def decode_bit_pair [unfolded One_nat_def] bit_shr plane_bit_def)
qed (simp add: vec4_value_def)

lemma bit4_ab_inject [simp]: "bit4_ab a b = bit4_ab c d \<longleftrightarrow> a = c \<and> b = d"
  by (simp add: bit4_ab_def)

lemma bit4_ab_xz [simp]: "bit4_is_xz (bit4_ab a b) \<longleftrightarrow> b"
  by (simp add: bit4_ab_def)

lemma vec4_value_out [simp]: "vec_size v \<le> i \<Longrightarrow> vec4_value v i = BIT4_X"
  by (simp add: vec4_value_def)

lemma length_vec4_bits [simp]: "length (vec4_bits v) = vec_size v"
  by (simp add: vec4_bits_def)

lemma nth_vec4_bits [simp]: "i < vec_size v \<Longrightarrow> vec4_bits v ! i = vec4_value v i"
  by (simp add: vec4_bits_def)

lemma vec4_bits_eq_iff:
  "vec4_bits u = vec4_bits v \<longleftrightarrow>
     vec_size u = vec_size v \<and> (\<forall>i<vec_size u. vec4_value u i = vec4_value v i)"
  by (auto simp: list_eq_iff_nth_eq)

section \<open>Construction and assignment of bits\<close>

lemma vec4_new_wf [vsize]: "vec4_wf (vec4_new n b)" "vec_size (vec4_new n b) = n"
  by (simp_all add: vec4_new_def vec4_allocate_words_def vec4_wf_def Let_def)

lemma vec4_value_new [bitlevel]: "i < n \<Longrightarrow> vec4_value (vec4_new n b) i = b"
  using div_less_word_count[of i n]
  by (cases b)
    (auto simp: vec4_value_planes vec4_new_def vec4_allocate_words_def Let_def plane_bit_def
      WORD_ABITS_def WORD_BBITS_def bit4_ab_def bit_minus_1_iff)

lemma set_mask_bits_bit:
  assumes "set_mask_bits val msk (a, b) = (a', b')" and "msk = shl 1 k" and "k < 64" and "i < 64"
  shows "bit4_ab (bit a' i) (bit b' i) = (if i = k then val else bit4_ab (bit a i) (bit b i))"
  using assms
  by (cases val)
    (auto simp: set_mask_bits_def bit_and_iff bit_or_iff bit_not_iff bit_shl bit_1_iff bit4_ab_def)

lemma vec4_set_bit_correct:
  assumes "vec4_wf v" and "i < vec_size v"
  shows "\<exists>v'. vec4_set_bit v i b = Some v' \<and> vec4_wf v' \<and> vec_size v' = vec_size v \<and>
      (\<forall>j<vec_size v. vec4_value v' j = (if j = i then b else vec4_value v j))"
proof -
  define w where "w = i div 64"
  have small: "64 < vec_size v \<or> i div 64 = 0" using assms(2) by auto
  obtain a' b' where ab: "set_mask_bits b (shl 1 (i mod 64)) (abits v ! w, bbits v ! w) = (a', b')"
    by fastforce
  have w: "w < length (abits v)" "w < length (bbits v)"
    using assms by (simp_all add: vec4_wf_def w_def div_less_nwords)
  define v' where "v' = v\<lparr>abits := (abits v)[w := a'], bbits := (bbits v)[w := b']\<rparr>"
  have "vec4_set_bit v i b = Some v'"
    using assms(2) small ab by (auto simp: vec4_set_bit_def Let_def w_def v'_def)
  moreover have "vec4_wf v'" "vec_size v' = vec_size v"
    using assms(1) by (simp_all add: vec4_wf_def v'_def)
  moreover have "vec4_value v' j = (if j = i then b else vec4_value v j)" if "j < vec_size v" for j
  proof (cases "j div 64 = w")
    case True
    have "vec4_value v' j = bit4_ab (bit a' (j mod 64)) (bit b' (j mod 64))"
      using that True w by (simp add: vec4_value_planes v'_def plane_bit_def)
    also have "\<dots> = (if j mod 64 = i mod 64 then b
        else bit4_ab (bit (abits v ! w) (j mod 64)) (bit (bbits v ! w) (j mod 64)))"
      by (rule set_mask_bits_bit[OF ab refl]) simp_all
    also have "j mod 64 = i mod 64 \<longleftrightarrow> j = i"
      using True w_def by (metis div_mult_mod_eq)
    finally show ?thesis
      using that True by (simp add: vec4_value_planes plane_bit_def)
  next
    case False
    then have "j \<noteq> i" by (auto simp: w_def)
    with False that show ?thesis by (simp add: vec4_value_planes v'_def plane_bit_def)
  qed
  ultimately show ?thesis by blast
qed

lemma vec4_set_bit_abort: "vec_size v \<le> i \<Longrightarrow> vec4_set_bit v i b = None"
  by (simp add: vec4_set_bit_def)

interpretation vec4: bit_vector vec_size vec4_value vec4_set_bit vec4_wf
  by unfold_locales (simp_all add: vec4_set_bit_correct vec4_set_bit_abort)

end
