(* ===== verification/Vector4_Bitwise.thy ===== *)
theory Vector4_Bitwise
  imports Vector4
begin

text \<open>
  The operations of \<^verbatim>\<open>vvp_vector4_t\<close> that treat every bit alike: copying, inversion, the in-place
  \<^verbatim>\<open>&=\<close> and \<^verbatim>\<open>|=\<close>, \<^verbatim>\<open>change_z2x\<close>, \<^verbatim>\<open>set_to_x\<close>, and the tests \<^verbatim>\<open>eeq\<close>, \<^verbatim>\<open>eq_xz\<close> and \<^verbatim>\<open>has_xz\<close>
  (\<^verbatim>\<open>vvp_net.cc\<close>). Where the code has one branch for a vector that fits a word and one for longer
  vectors that does the same to each word, the model runs over \<open>nwords\<close> words, which is one word
  for the former. A loop that subtracts 64 from the remaining width until less than a word is left
  runs over the first \<open>size div 64\<close> words and leaves \<open>size mod 64\<close> bits.
\<close>

section \<open>Operations\<close>

definition vec4_copy_from :: "vvp_vector4_t \<Rightarrow> vvp_vector4_t" where
  "vec4_copy_from that =
     (let n = vec_size that
      in \<lparr>vec_size = n,
          abits = map (\<lambda>idx. abits that ! idx) [0..<nwords n],
          bbits = map (\<lambda>idx. bbits that ! idx) [0..<nwords n]\<rparr>)"

definition vec4_copy_inverted_from :: "vvp_vector4_t \<Rightarrow> vvp_vector4_t" where
  "vec4_copy_inverted_from that =
     (let n = vec_size that;
          inv = (\<lambda>idx. bbits that ! idx OR NOT (abits that ! idx))
      in if 64 < n
         then let words = (n + 63) div 64; remaining = n mod 64
              in \<lparr>vec_size = n,
                  abits = map inv [0..<n div 64] @
                    (if 0 < remaining then [(shl 1 remaining - 1) AND inv (n div 64)] else []),
                  bbits = map (\<lambda>idx. bbits that ! idx) [0..<words]\<rparr>
         else let msk = (if n < 64 then shl 1 n - 1 else - 1)
              in \<lparr>vec_size = n, abits = [msk AND inv 0], bbits = [bbits that ! 0]\<rparr>)"

definition vec4_not :: "vvp_vector4_t \<Rightarrow> vvp_vector4_t" where
  "vec4_not that = vec4_copy_inverted_from that"

definition vec4_invert :: "vvp_vector4_t \<Rightarrow> vvp_vector4_t" where
  "vec4_invert v =
     (let n = vec_size v
      in if n \<le> 64
         then let msk = (if n < 64 then shl 1 n - 1 else - 1)
              in v\<lparr>abits := (abits v)[0 := (msk AND NOT (abits v ! 0)) OR bbits v ! 0]\<rparr>
         else
           let as = update_cells (\<lambda>idx w. NOT w OR bbits v ! idx) [0..<n div 64] (abits v);
               remaining = n mod 64; idx = n div 64;
               as = (if 0 < remaining
                     then as[idx := ((shl 1 remaining - 1) AND NOT (as ! idx)) OR bbits v ! idx]
                     else as)
           in v\<lparr>abits := as\<rparr>)"

definition vec4_and_assign :: "vvp_vector4_t \<Rightarrow> vvp_vector4_t \<Rightarrow> vvp_vector4_t" where
  "vec4_and_assign v that =
     (let words = nwords (vec_size v);
          tmp1 = (\<lambda>idx. abits v ! idx OR bbits v ! idx);
          tmp2 = (\<lambda>idx. abits that ! idx OR bbits that ! idx)
      in v\<lparr>abits := map (\<lambda>idx. tmp1 idx AND tmp2 idx) [0..<words],
           bbits := map (\<lambda>idx. (tmp1 idx AND bbits that ! idx) OR (tmp2 idx AND bbits v ! idx)) [0..<words]\<rparr>)"

definition vec4_or_assign :: "vvp_vector4_t \<Rightarrow> vvp_vector4_t \<Rightarrow> vvp_vector4_t" where
  "vec4_or_assign v that =
     (let words = nwords (vec_size v);
          tmp = (\<lambda>idx. abits v ! idx OR bbits v ! idx OR abits that ! idx OR bbits that ! idx)
      in v\<lparr>bbits := map (\<lambda>idx.
             ((NOT (abits v ! idx) OR bbits v ! idx) AND bbits that ! idx) OR
             ((NOT (abits that ! idx) OR bbits that ! idx) AND bbits v ! idx)) [0..<words],
           abits := map tmp [0..<words]\<rparr>)"

definition vec4_change_z2x :: "vvp_vector4_t \<Rightarrow> vvp_vector4_t" where
  "vec4_change_z2x v =
     v\<lparr>abits := map (\<lambda>idx. abits v ! idx OR bbits v ! idx) [0..<nwords (vec_size v)]\<rparr>"

definition vec4_set_to_x :: "vvp_vector4_t \<Rightarrow> vvp_vector4_t" where
  "vec4_set_to_x v =
     v\<lparr>abits := map (\<lambda>_. WORD_ABITS BIT4_X) [0..<nwords (vec_size v)],
       bbits := map (\<lambda>_. WORD_BBITS BIT4_X) [0..<nwords (vec_size v)]\<rparr>"

definition vec4_eeq :: "vvp_vector4_t \<Rightarrow> vvp_vector4_t \<Rightarrow> bool" where
  "vec4_eeq v that =
     (let n = vec_size v
      in if n \<noteq> vec_size that then False
         else if n < 64
         then let msk = shl 1 n - 1
              in abits v ! 0 AND msk = abits that ! 0 AND msk \<and>
                 bbits v ! 0 AND msk = bbits that ! 0 AND msk
         else if n = 64
         then abits v ! 0 = abits that ! 0 \<and> bbits v ! 0 = bbits that ! 0
         else
           let words = n div 64; tail = n mod 64
           in list_all (\<lambda>idx. abits v ! idx = abits that ! idx \<and> bbits v ! idx = bbits that ! idx) [0..<words] \<and>
              (if 0 < tail
               then let msk = shl 1 tail - 1
                    in abits v ! words AND msk = abits that ! words AND msk \<and>
                       bbits v ! words AND msk = bbits that ! words AND msk
               else True))"

definition vec4_eq_xz :: "vvp_vector4_t \<Rightarrow> vvp_vector4_t \<Rightarrow> bool" where
  "vec4_eq_xz v that =
     (let n = vec_size v;
          ab = (\<lambda>u idx. abits u ! idx OR bbits u ! idx)
      in if n \<noteq> vec_size that then False
         else if n < 64
         then let msk = shl 1 n - 1
              in ab v 0 AND msk = ab that 0 AND msk \<and> bbits v ! 0 AND msk = bbits that ! 0 AND msk
         else if n = 64
         then ab v 0 = ab that 0 \<and> bbits v ! 0 = bbits that ! 0
         else
           let words = n div 64; tail = n mod 64
           in list_all (\<lambda>idx. ab v idx = ab that idx \<and> bbits v ! idx = bbits that ! idx) [0..<words] \<and>
              (if 0 < tail
               then let msk = shl 1 tail - 1
                    in ab v words AND msk = ab that words AND msk \<and>
                       bbits v ! words AND msk = bbits that ! words AND msk
               else True))"

definition vec4_has_xz :: "vvp_vector4_t \<Rightarrow> bool" where
  "vec4_has_xz v =
     (let n = vec_size v
      in if n < 64
         then bbits v ! 0 AND shr (- 1) (64 - n) \<noteq> 0
         else if n = 64
         then bbits v ! 0 \<noteq> 0
         else
           let words = n div 64; tail = n mod 64
           in if list_ex (\<lambda>idx. bbits v ! idx \<noteq> 0) [0..<words] then True
              else if 0 < tail then bbits v ! words AND shr (- 1) (64 - tail) \<noteq> 0
              else False)"

section \<open>Word-parallel operations\<close>

text \<open>A plane computed word by word by an operation on words that acts on each bit separately.\<close>

lemma plane_bit_map:
  "i < n \<Longrightarrow> plane_bit (map f [0..<nwords n]) i = bit (f (i div 64)) (i mod 64)"
  by (simp add: plane_bit_def div_less_nwords)

lemma vec4_bitwise_wf [vsize]:
  "vec4_wf (vec4_copy_from v)" "vec_size (vec4_copy_from v) = vec_size v"
  "vec_size (vec4_and_assign v u) = vec_size v" "vec4_wf (vec4_and_assign v u)"
  "vec_size (vec4_or_assign v u) = vec_size v" "vec4_wf (vec4_or_assign v u)"
  "vec_size (vec4_change_z2x v) = vec_size v" "vec4_wf v \<Longrightarrow> vec4_wf (vec4_change_z2x v)"
  "vec_size (vec4_set_to_x v) = vec_size v" "vec4_wf (vec4_set_to_x v)"
  by (simp_all add: vec4_copy_from_def vec4_and_assign_def vec4_or_assign_def vec4_change_z2x_def
      vec4_set_to_x_def vec4_wf_def Let_def)

lemma vec4_copy_from_id: "vec4_wf v \<Longrightarrow> vec4_copy_from v = v"
  by (cases v) (auto simp: vec4_copy_from_def vec4_wf_def Let_def list_eq_iff_nth_eq)

lemma vec4_value_and_assign [bitlevel]:
  assumes "vec_size u = vec_size v"
  shows "vec4_value (vec4_and_assign v u) i =
    (if i < vec_size v then bit4_and (vec4_value v i) (vec4_value u i) else BIT4_X)"
  using assms
  by (auto simp: vec4_value_planes vec4_and_assign_def Let_def plane_bit_map bit_and_iff bit_or_iff
      bit4_ab_def bit4_and_table plane_bit_def [symmetric])

lemma vec4_value_or_assign [bitlevel]:
  assumes "vec_size u = vec_size v"
  shows "vec4_value (vec4_or_assign v u) i =
    (if i < vec_size v then bit4_or (vec4_value v i) (vec4_value u i) else BIT4_X)"
  using assms
  by (auto simp: vec4_value_planes vec4_or_assign_def Let_def plane_bit_map bit_and_iff bit_or_iff
      bit_not_iff bit4_ab_def bit4_or_table plane_bit_def [symmetric])

lemma vec4_value_change_z2x [bitlevel]:
  "vec4_value (vec4_change_z2x v) i = (if i < vec_size v then bit4_z2x (vec4_value v i) else BIT4_X)"
  by (auto simp: vec4_value_planes vec4_change_z2x_def plane_bit_map bit_or_iff bit4_ab_def plane_bit_def [symmetric])

lemma vec4_value_set_to_x [bitlevel]: "vec4_value (vec4_set_to_x v) i = BIT4_X"
  by (auto simp: vec4_value_planes vec4_set_to_x_def plane_bit_map WORD_ABITS_def WORD_BBITS_def
      bit4_ab_def plane_bit_def [symmetric] bit_minus_1_iff)

section \<open>Inversion\<close>

lemma vec4_not_wf [vsize]:
  "vec_size (vec4_not v) = vec_size v" "vec4_wf (vec4_not v)"
  "vec_size (vec4_invert v) = vec_size v" "vec4_wf v \<Longrightarrow> vec4_wf (vec4_invert v)"
  using word_count_tail[of "vec_size v"]
  by (auto simp: vec4_not_def vec4_copy_inverted_from_def vec4_invert_def vec4_wf_def Let_def)

lemma bit_small_mask: "i < n \<Longrightarrow> n \<le> 64 \<Longrightarrow> bit (if n < 64 then shl 1 n - 1 else - 1) i"
  by (auto simp: shl_1_minus_1 bit_mask_iff bit_minus_1_iff)

lemma vec4_value_not [bitlevel]:
  "vec4_value (vec4_not v) i = bit4_not (vec4_value v i)"
proof (cases "i < vec_size v")
  case True
  let ?n = "vec_size v"
  have "plane_bit (abits (vec4_not v)) i \<longleftrightarrow> plane_bit (bbits v) i \<or> \<not> plane_bit (abits v) i"
  proof (cases "64 < ?n")
    case big: True
    show ?thesis
      using \<open>i < ?n\<close>
    proof (cases rule: tail_cases)
      case 1
      then show ?thesis
        using big by (simp add: vec4_not_def vec4_copy_inverted_from_def Let_def plane_bit_def
            nth_append bit_or_iff bit_not_iff)
    next
      case 2
      then show ?thesis
        using big by (simp add: vec4_not_def vec4_copy_inverted_from_def Let_def plane_bit_def
            nth_append bit_or_iff bit_not_iff bit_and_iff shl_1_minus_1 bit_mask_iff)
    qed
  next
    case False
    then show ?thesis
      using True bit_small_mask[of i ?n]
      by (auto simp: vec4_not_def vec4_copy_inverted_from_def Let_def plane_bit_def
          bit_or_iff bit_not_iff bit_and_iff)
  qed
  moreover have "plane_bit (bbits (vec4_not v)) i = plane_bit (bbits v) i"
    using True div_less_word_count[of i ?n]
    by (auto simp: vec4_not_def vec4_copy_inverted_from_def Let_def plane_bit_def)
  ultimately show ?thesis
    using True by (simp add: vec4_value_planes vsize bit4_ab_def)
qed (simp add: vec4_not_wf)

text \<open>Inverting in place maps Z to X only where \<^verbatim>\<open>~\<close> does, so the two agree.\<close>

lemma vec4_value_invert [bitlevel]:
  assumes "vec4_wf v"
  shows "vec4_value (vec4_invert v) i = bit4_not (vec4_value v i)"
proof (cases "i < vec_size v")
  case True
  let ?n = "vec_size v"
  have len: "length (abits v) = nwords ?n" using assms by (simp add: vec4_wf_def)
  have "plane_bit (abits (vec4_invert v)) i \<longleftrightarrow> plane_bit (bbits v) i \<or> \<not> plane_bit (abits v) i"
  proof (cases "64 < ?n")
    case big: True
    have il: "i div 64 < length (abits v)" using True len by (simp add: div_less_nwords)
    show ?thesis
      using \<open>i < ?n\<close>
    proof (cases rule: tail_cases)
      case 1
      then show ?thesis
        using big il by (auto simp: vec4_invert_def Let_def plane_bit_def nth_update_cells
            bit_or_iff bit_not_iff)
    next
      case 2
      then show ?thesis
        using big il by (auto simp: vec4_invert_def Let_def plane_bit_def nth_update_cells
            bit_or_iff bit_not_iff bit_and_iff shl_1_minus_1 bit_mask_iff)
    qed
  next
    case False
    then show ?thesis
      using True bit_small_mask[of i ?n] len
      by (auto simp: vec4_invert_def Let_def plane_bit_def bit_or_iff bit_not_iff bit_and_iff)
  qed
  moreover have "plane_bit (bbits (vec4_invert v)) i = plane_bit (bbits v) i"
    by (simp add: vec4_invert_def Let_def)
  ultimately show ?thesis
    using True by (simp add: vec4_value_planes vsize bit4_ab_def)
qed (simp add: vec4_not_wf)

section \<open>Comparison\<close>

text \<open>The three ways the code compares two arrays of words on their first \<open>n\<close> bits.\<close>

lemma agree_short:
  "n < 64 \<Longrightarrow> (f::u64) AND (shl 1 n - 1) = g AND (shl 1 n - 1) \<longleftrightarrow> (\<forall>i<n. bit f i = bit g i)"
  by (simp add: shl_1_minus_1 u64_eq_mask_iff)

lemma agree_long:
  fixes f g :: "nat \<Rightarrow> u64"
  shows "list_all (\<lambda>idx. f idx = g idx) [0..<n div 64] \<and>
     (0 < n mod 64 \<longrightarrow>
        f (n div 64) AND (shl 1 (n mod 64) - 1) = g (n div 64) AND (shl 1 (n mod 64) - 1)) \<longleftrightarrow>
     (\<forall>i<n. bit (f (i div 64)) (i mod 64) = bit (g (i div 64)) (i mod 64))"
  (is "?full \<and> ?tail \<longleftrightarrow> ?bits")
proof
  assume *: "?full \<and> ?tail"
  show ?bits
  proof (intro allI impI)
    fix i assume "i < n"
    then show "bit (f (i div 64)) (i mod 64) = bit (g (i div 64)) (i mod 64)"
      by (cases rule: tail_cases) (use * in \<open>auto simp: list_all_iff agree_short\<close>)
  qed
next
  assume bits: ?bits
  have "f k = g k" if "k < n div 64" for k
    unfolding u64_eq_iff
  proof (intro allI impI)
    fix j :: nat assume "j < 64"
    moreover have "64 * k + j < n"
      using that \<open>j < 64\<close> mult_le_mono2[of "Suc k" "n div 64" 64] times_div_less_eq_dividend[of 64 n]
      by simp
    ultimately show "bit (f k) j = bit (g k) j"
      using bits[rule_format, of "64 * k + j"] by simp
  qed
  moreover have "bit (f (n div 64)) j = bit (g (n div 64)) j" if "j < n mod 64" for j
  proof -
    have "j < 64" using that by (rule less_trans) simp
    moreover have "64 * (n div 64) + j < n" using that mult_div_mod_eq[of 64 n] by linarith
    ultimately show ?thesis using bits[rule_format, of "64 * (n div 64) + j"] by simp
  qed
  ultimately show "?full \<and> ?tail" by (simp add: list_all_iff agree_short)
qed

lemma list_all_conj: "list_all (\<lambda>x. P x \<and> Q x) xs \<longleftrightarrow> list_all P xs \<and> list_all Q xs"
  by (induction xs) auto

lemma vec4_eeq_iff:
  "vec4_eeq u v \<longleftrightarrow> vec4_bits u = vec4_bits v"
proof (cases "vec_size u = vec_size v")
  case True
  let ?n = "vec_size v"
  have "vec4_eeq u v \<longleftrightarrow>
     (\<forall>i<?n. plane_bit (abits u) i = plane_bit (abits v) i) \<and>
     (\<forall>i<?n. plane_bit (bbits u) i = plane_bit (bbits v) i)"
  proof -
    consider "?n < 64" | "?n = 64" | "64 < ?n" by linarith
    then show ?thesis
    proof cases
      case 1
      then show ?thesis using True by (simp add: vec4_eeq_def Let_def plane_bit_def agree_short)
    next
      case 2
      then show ?thesis using True by (simp add: vec4_eeq_def plane_bit_def u64_eq_iff)
    next
      case 3
      note agree = agree_long[of "\<lambda>i. abits u ! i" "\<lambda>i. abits v ! i" ?n, symmetric]
        agree_long[of "\<lambda>i. bbits u ! i" "\<lambda>i. bbits v ! i" ?n, symmetric]
      show ?thesis
        unfolding plane_bit_def agree using 3 True
        by (simp add: vec4_eeq_def Let_def list_all_conj conj_ac)
    qed
  qed
  then show ?thesis
    using True by (auto simp: vec4_bits_eq_iff vec4_value_planes)
next
  case False
  then show ?thesis by (auto simp: vec4_eeq_def Let_def vec4_bits_eq_iff)
qed

lemma vec4_eq_xz_iff:
  "vec4_eq_xz u v \<longleftrightarrow> map bit4_z2x (vec4_bits u) = map bit4_z2x (vec4_bits v)"
proof (cases "vec_size u = vec_size v")
  case True
  let ?n = "vec_size v"
  have "vec4_eq_xz u v \<longleftrightarrow>
     (\<forall>i<?n. (plane_bit (abits u) i \<or> plane_bit (bbits u) i) = (plane_bit (abits v) i \<or> plane_bit (bbits v) i)) \<and>
     (\<forall>i<?n. plane_bit (bbits u) i = plane_bit (bbits v) i)"
  proof -
    consider "?n < 64" | "?n = 64" | "64 < ?n" by linarith
    then show ?thesis
    proof cases
      case 1
      then show ?thesis
        using True by (simp add: vec4_eq_xz_def Let_def plane_bit_def agree_short bit_or_iff)
    next
      case 2
      then show ?thesis
        using True by (simp add: vec4_eq_xz_def Let_def plane_bit_def u64_eq_iff bit_or_iff)
    next
      case 3
      note agree = agree_long[of "\<lambda>i. abits u ! i OR bbits u ! i" "\<lambda>i. abits v ! i OR bbits v ! i" ?n, symmetric]
        agree_long[of "\<lambda>i. bbits u ! i" "\<lambda>i. bbits v ! i" ?n, symmetric]
      show ?thesis
        unfolding plane_bit_def bit_or_iff [symmetric] agree using 3 True
        by (simp add: vec4_eq_xz_def Let_def list_all_conj conj_ac)
    qed
  qed
  moreover have "bit4_z2x (bit4_ab a b) = bit4_ab (a \<or> b) b" for a b
    by (auto simp: bit4_ab_def)
  ultimately show ?thesis
    using True by (auto simp: list_eq_iff_nth_eq vec4_value_planes)
next
  case False
  then show ?thesis by (auto simp: vec4_eq_xz_def Let_def list_eq_iff_nth_eq)
qed

lemma high_mask: "0 < n \<Longrightarrow> n < 64 \<Longrightarrow> shr (- 1) (64 - n) = mask n"
  by (rule bit_eqI) (auto simp: bit_shr bit_mask_iff bit_minus_1_iff)

lemma vec4_has_xz_iff:
  assumes "0 < vec_size v"
  shows "vec4_has_xz v \<longleftrightarrow> (\<exists>i<vec_size v. bit4_is_xz (vec4_value v i))"
proof -
  let ?n = "vec_size v"
  have "\<not> vec4_has_xz v \<longleftrightarrow> (\<forall>i<?n. \<not> plane_bit (bbits v) i)"
  proof -
    consider "?n < 64" | "?n = 64" | "64 < ?n" by linarith
    then show ?thesis
    proof cases
      case 1
      then show ?thesis
        using assms by (auto simp: vec4_has_xz_def high_mask u64_and_mask_zero_iff plane_bit_def)
    next
      case 2
      then show ?thesis by (auto simp: vec4_has_xz_def u64_zero_iff plane_bit_def)
    next
      case 3
      show ?thesis
        using 3 agree_long[of "\<lambda>i. bbits v ! i" "\<lambda>_. 0" ?n]
        by (cases "list_ex (\<lambda>idx. bbits v ! idx \<noteq> 0) [0..<?n div 64]"; cases "0 < ?n mod 64")
          (auto simp: vec4_has_xz_def Let_def plane_bit_def list_all_iff list_ex_iff high_mask
            shl_1_minus_1)
    qed
  qed
  then show ?thesis by (auto simp: vec4_value_planes)
qed

end
