(* ===== verification/Vector4_Parts.thy ===== *)
theory Vector4_Parts
  imports Vector4_Bitwise
begin

text \<open>
  Writing a part of a \<^verbatim>\<open>vvp_vector4_t\<close>, \<^verbatim>\<open>set_vec\<close> (\<^verbatim>\<open>vvp_net.cc\<close>). The code shifts and masks whole words and treats the two planes by the same
  statements, one after the other; the model has those statements once, as a function of a plane.
  The predicate \<open>merged\<close> says how far a transfer has come, and the lemma \<open>merged_step\<close>, that one
  masked write of a word advances it, carries all the proofs.
\<close>

section \<open>Writing a part\<close>

text \<open>The repeated statement: compare the masked word, and where it differs write it and set the flag.\<close>

definition put_word :: "nat \<Rightarrow> u64 \<Rightarrow> u64 \<Rightarrow> u64 list \<times> bool \<Rightarrow> u64 list \<times> bool" where
  "put_word ptr msk tmp st =
     (if fst st ! ptr AND msk \<noteq> tmp
      then ((fst st)[ptr := (fst st ! ptr AND NOT msk) OR tmp], True)
      else st)"

text \<open>The loop over the full words of an aligned transfer, with the masked write of the remainder.\<close>

fun set_vec_aligned :: "u64 list \<Rightarrow> nat \<Rightarrow> nat \<Rightarrow> nat \<Rightarrow> u64 list \<times> bool \<Rightarrow> u64 list \<times> bool" where
  "set_vec_aligned src remain sptr dptr st =
     (if 64 \<le> remain
      then set_vec_aligned src (remain - 64) (sptr + 1) (dptr + 1)
             (if fst st ! dptr \<noteq> src ! sptr then ((fst st)[dptr := src ! sptr], True) else st)
      else if 0 < remain
      then let msk = shl 1 remain - 1
           in put_word dptr msk (src ! sptr AND msk) st
      else st)"

declare set_vec_aligned.simps [simp del]

definition set_vec_unaligned_tail ::
  "u64 list \<Rightarrow> nat \<Rightarrow> nat \<Rightarrow> nat \<Rightarrow> nat \<Rightarrow> u64 list \<times> bool \<Rightarrow> u64 list \<times> bool" where
  "set_vec_unaligned_tail src doff remain sptr dptr st =
     (let lmask = shl 1 doff - 1;
          hshift = doff + remain;
          hmask = (if hshift \<ge> 64 then - 1 else shl 1 (doff + remain) - 1);
          msk = hmask AND NOT lmask;
          st = put_word dptr msk (shl (src ! sptr) doff AND msk) st
      in if doff + remain > 64
         then let tail = doff + remain - 64;
                  msk = (if tail \<ge> 64 then - 1 else shl 1 tail - 1);
                  dptr = dptr + 1
              in put_word dptr msk (shr (src ! sptr) (remain - tail) AND msk) st
         else st)"

fun set_vec_unaligned ::
  "u64 list \<Rightarrow> nat \<Rightarrow> nat \<Rightarrow> nat \<Rightarrow> nat \<Rightarrow> u64 list \<times> bool \<Rightarrow> u64 list \<times> bool" where
  "set_vec_unaligned src doff remain sptr dptr st =
     (if 64 \<le> remain
      then let lmask = shl 1 doff - 1;
               ndoff = 64 - doff;
               st = put_word dptr (NOT lmask) (shl (src ! sptr) doff AND NOT lmask) st;
               dptr = dptr + 1;
               st = put_word dptr lmask (shr (src ! sptr) ndoff AND lmask) st
           in set_vec_unaligned src doff (remain - 64) (sptr + 1) dptr st
      else if 0 < remain then set_vec_unaligned_tail src doff remain sptr dptr st
      else st)"

declare set_vec_unaligned.simps [simp del]

definition set_vec_plane :: "nat \<Rightarrow> nat \<Rightarrow> nat \<Rightarrow> u64 list \<Rightarrow> u64 list \<Rightarrow> u64 list \<times> bool" where
  "set_vec_plane n adr m src ws =
     (if n \<le> 64
      then let lmask = shl 1 adr - 1;
               hshift = adr + m;
               hmask = (if hshift \<ge> 64 then - 1 else shl 1 (adr + m) - 1);
               msk = hmask AND NOT lmask
           in put_word 0 msk (shl (src ! 0) adr AND msk) (ws, False)
      else if m \<le> 64
      then let dptr = adr div 64;
               doff = adr mod 64;
               lmask = shl 1 doff - 1;
               hshift = doff + m;
               hmask = (if hshift \<ge> 64 then - 1 else shl 1 hshift - 1);
               msk = hmask AND NOT lmask;
               st = put_word dptr msk (shl (src ! 0) doff AND msk) (ws, False)
           in if doff + m > 64
              then let tail = doff + m - 64;
                       msk = shl 1 tail - 1;
                       dptr = dptr + 1
                   in put_word dptr msk (shr (src ! 0) (m - tail) AND msk) st
              else st
      else if adr mod 64 = 0 then set_vec_aligned src m 0 (adr div 64) (ws, False)
      else set_vec_unaligned src (adr mod 64) m 0 (adr div 64) (ws, False))"

text \<open>\<^verbatim>\<open>set_vec\<close> returns whether any bit changed.\<close>

definition vec4_set_vec :: "vvp_vector4_t \<Rightarrow> nat \<Rightarrow> vvp_vector4_t \<Rightarrow> (vvp_vector4_t \<times> bool) option" where
  "vec4_set_vec v adr that =
     (if adr + vec_size that \<le> vec_size v
      then let (as, adiff) = set_vec_plane (vec_size v) adr (vec_size that) (abits that) (abits v);
               (bs, bdiff) = set_vec_plane (vec_size v) adr (vec_size that) (bbits that) (bbits v)
           in Some (v\<lparr>abits := as, bbits := bs\<rparr>, adiff \<or> bdiff)
      else None)"

section \<open>Transfers\<close>

text \<open>The first \<open>k\<close> bits of \<open>src\<close> have been written at \<open>adr\<close>, and the flag says whether that changed anything.\<close>

definition merged :: "u64 list \<Rightarrow> u64 list \<Rightarrow> nat \<Rightarrow> nat \<Rightarrow> u64 list \<times> bool \<Rightarrow> bool" where
  "merged ws0 src adr k st \<longleftrightarrow>
     length (fst st) = length ws0 \<and>
     (\<forall>i. plane_bit (fst st) i =
        (if adr \<le> i \<and> i < adr + k then plane_bit src (i - adr) else plane_bit ws0 i)) \<and>
     (snd st \<longleftrightarrow> (\<exists>i<k. plane_bit src i \<noteq> plane_bit ws0 (adr + i)))"

lemma merged_0: "merged ws src adr 0 (ws, False)"
  by (auto simp: merged_def)

lemma plane_bit_linear: "off < 64 \<Longrightarrow> plane_bit ws (64 * ptr + off) = bit (ws ! ptr) off"
  by (simp add: plane_bit_def)

lemma plane_bit_update:
  assumes "ptr < length ws"
  shows "plane_bit (ws[ptr := w]) i = (if i div 64 = ptr then bit w (i mod 64) else plane_bit ws i)"
  using assms by (auto simp: plane_bit_def)

lemma merged_step:
  assumes m: "merged ws0 src adr k st"
    and pos: "adr + k = 64 * ptr + off" and fit: "off + t \<le> 64" and len: "0 < t \<Longrightarrow> ptr < length ws0"
    and msk: "\<And>j. j < 64 \<Longrightarrow> bit msk j \<longleftrightarrow> off \<le> j \<and> j < off + t"
    and tmp: "\<And>j. j < 64 \<Longrightarrow> bit tmp j \<longleftrightarrow> off \<le> j \<and> j < off + t \<and> plane_bit src (k + (j - off))"
  shows "merged ws0 src adr (k + t) (put_word ptr msk tmp st)"
proof (cases "t = 0")
  case True
  then have "msk = 0" "tmp = 0"
    using msk tmp by (auto simp: u64_zero_iff)
  then show ?thesis using m True by (simp add: put_word_def)
next
  case False
  define ws where "ws = fst st"
  have l: "ptr < length ws" and lw: "length ws = length ws0"
    using len False m by (auto simp: merged_def ws_def)
  have bits: "plane_bit ws i = (if adr \<le> i \<and> i < adr + k then plane_bit src (i - adr) else plane_bit ws0 i)"
    for i using m by (simp add: merged_def ws_def)
  have old: "bit (ws ! ptr) (off + j) = plane_bit ws0 (adr + (k + j))" if "j < t" for j
  proof -
    have "bit (ws ! ptr) (off + j) = plane_bit ws (64 * ptr + (off + j))"
      using that fit by (simp only: plane_bit_linear)
    also have "64 * ptr + (off + j) = adr + (k + j)" using pos by simp
    finally show ?thesis using bits by simp
  qed
  have tmpj: "bit tmp (off + j) = plane_bit src (k + j)" if "j < t" for j
    using tmp[of "off + j"] that fit by simp
  have same: "ws ! ptr AND msk = tmp \<longleftrightarrow> (\<forall>j<t. plane_bit src (k + j) = plane_bit ws0 (adr + (k + j)))"
    (is "?l \<longleftrightarrow> ?r")
  proof
    assume ?l
    then have eq: "bit (ws ! ptr) (off + j) = bit tmp (off + j)" if "j < t" for j
      using msk[of "off + j"] that fit by (auto simp: bit_and_iff)
    show ?r using old tmpj eq by metis
  next
    assume r: ?r
    have "bit (ws ! ptr AND msk) j = bit tmp j" if "j < 64" for j
    proof (cases "off \<le> j \<and> j < off + t")
      case True
      then obtain d where d: "j = off + d" "d < t" using le_Suc_ex by fastforce
      have "bit (ws ! ptr) j = bit tmp j"
        using r d old[of d] tmpj[of d] by simp
      then show ?thesis using msk[OF that] True by (simp add: bit_and_iff)
    next
      case False
      then show ?thesis using msk[OF that] tmp[OF that] by (auto simp: bit_and_iff)
    qed
    then show ?l by (simp add: u64_eq_iff)
  qed
  define ws' where "ws' = ws[ptr := (ws ! ptr AND NOT msk) OR tmp]"
  have put: "fst (put_word ptr msk tmp st) = ws'"
  proof (cases "ws ! ptr AND msk = tmp")
    case True
    then have "(ws ! ptr AND NOT msk) OR tmp = ws ! ptr"
      by (auto simp: bit_eq_iff bit_or_iff bit_and_iff bit_not_iff)
    then show ?thesis using True by (simp add: put_word_def ws'_def ws_def)
  qed (simp add: put_word_def ws'_def ws_def)
  have flag: "snd (put_word ptr msk tmp st) \<longleftrightarrow> snd st \<or> ws ! ptr AND msk \<noteq> tmp"
    by (simp add: put_word_def ws_def)
  have new: "plane_bit ws' i =
      (if adr \<le> i \<and> i < adr + (k + t) then plane_bit src (i - adr) else plane_bit ws0 i)" for i
  proof (cases "adr + k \<le> i \<and> i < adr + (k + t)")
    case True
    then obtain d where d: "i = adr + k + d" "d < t"
      using le_Suc_ex by fastforce
    then have i: "i = 64 * ptr + (off + d)" "off + d < 64" using pos fit by simp_all
    then have "plane_bit ws' i = bit ((ws ! ptr AND NOT msk) OR tmp) (off + d)"
      using l by (simp only: ws'_def plane_bit_linear nth_list_update_eq)
    also have "\<dots> = plane_bit src (k + d)"
      using msk[of "off + d"] tmpj[of d] i(2) d(2) by (simp add: bit_or_iff bit_and_iff bit_not_iff)
    finally show ?thesis using True d by (simp add: add.assoc)
  next
    case False
    have "plane_bit ws' i = plane_bit ws i"
    proof (cases "i div 64 = ptr")
      case ptr: True
      define j where "j = i mod 64"
      have i: "i = 64 * ptr + j" "j < 64" using ptr by (auto simp: j_def)
      then have "\<not> (off \<le> j \<and> j < off + t)" using False pos by auto
      then show ?thesis
        using i l msk[OF i(2)] tmp[OF i(2)]
        by (simp only: i(1) plane_bit_linear[OF i(2)] ws'_def nth_list_update_eq)
          (auto simp: bit_or_iff bit_and_iff bit_not_iff)
    next
      case False
      then show ?thesis using l by (simp add: ws'_def plane_bit_update)
    qed
    then show ?thesis using False bits by auto
  qed
  have ex: "(\<exists>i<k + t. Q i) \<longleftrightarrow> (\<exists>i<k. Q i) \<or> (\<exists>j<t. Q (k + j))" for Q
    by (metis add_diff_inverse_nat nat_add_left_cancel_less trans_less_add1)
  have "snd st \<or> ws ! ptr AND msk \<noteq> tmp \<longleftrightarrow>
      (\<exists>i<k + t. plane_bit src i \<noteq> plane_bit ws0 (adr + i))"
    using m same by (auto simp: merged_def ex)
  then show ?thesis
    using new lw by (simp add: merged_def put flag ws'_def)
qed

section \<open>The three shapes of \<^verbatim>\<open>set_vec\<close>\<close>

text \<open>The masks the code builds: the bits from \<open>off\<close> up to \<open>off + t\<close>, and the source shifted into place.\<close>

lemma bit_range_mask:
  assumes "off < 64" and "j < 64"
  shows "bit ((if off + t \<ge> 64 then - 1 else shl 1 (off + t) - 1) AND NOT (shl 1 off - 1)) j \<longleftrightarrow>
    off \<le> j \<and> j < off + t"
  using assms by (auto simp: bit_and_iff bit_not_iff shl_1_minus_1 bit_mask_iff bit_minus_1_iff)

lemma bit_shifted_in:
  assumes "off < 64" and "j < 64"
  shows "bit (shl (src ! s) off) j \<longleftrightarrow> off \<le> j \<and> plane_bit src (64 * s + (j - off))"
  using assms by (auto simp: bit_shl plane_bit_linear)

lemma bit_low_mask: "t < 64 \<Longrightarrow> j < 64 \<Longrightarrow> bit (shl 1 t - 1 :: u64) j \<longleftrightarrow> j < t"
  by (auto simp: shl_1_minus_1 bit_mask_iff)

lemma merged_low_part:
  assumes m: "merged ws0 src adr k st" and pos: "adr + k = 64 * ptr + off" and off: "off < 64"
    and k: "k = 64 * s" and len: "0 < t \<Longrightarrow> ptr < length ws0" and t: "t' = min t (64 - off)"
    and msk: "\<And>j. j < 64 \<Longrightarrow> bit msk j \<longleftrightarrow> off \<le> j \<and> j < off + t"
  shows "merged ws0 src adr (k + t') (put_word ptr msk (shl (src ! s) off AND msk) st)"
  using m pos
proof (rule merged_step)
  show "off + t' \<le> 64" using t off by simp
  show "ptr < length ws0" if "0 < t'" using that len t by (cases "t = 0") auto
  fix j :: nat assume j: "j < 64"
  show "bit msk j \<longleftrightarrow> off \<le> j \<and> j < off + t'" using msk[OF j] t j off by auto
  then show "bit (shl (src ! s) off AND msk) j \<longleftrightarrow>
      off \<le> j \<and> j < off + t' \<and> plane_bit src (k + (j - off))"
    using bit_shifted_in[OF off j] k by (auto simp: bit_and_iff)
qed

text \<open>The high part: the bits that did not fit go to the bottom of the next word.\<close>

lemma merged_high_part:
  assumes m: "merged ws0 src adr k st" and pos: "adr + k = 64 * ptr"
    and k: "k = 64 * s + shift" and shift: "0 < shift" "shift + t \<le> 64" and len: "ptr < length ws0"
    and msk: "\<And>j. j < 64 \<Longrightarrow> bit msk j \<longleftrightarrow> j < t"
  shows "merged ws0 src adr (k + t) (put_word ptr msk (shr (src ! s) shift AND msk) st)"
proof (rule merged_step[OF m, where off = 0])
  show "adr + k = 64 * ptr + 0" using pos by simp
  show "0 + t \<le> 64" using shift by simp
  fix j :: nat assume j: "j < 64"
  show "bit msk j \<longleftrightarrow> 0 \<le> j \<and> j < 0 + t" using msk[OF j] by simp
  have "bit (shr (src ! s) shift) j = plane_bit src (k + j)" if "j < t"
  proof (cases "shift < 64")
    case True
    then have "bit (shr (src ! s) shift) j = bit (src ! s) (shift + j)" by (simp add: bit_shr)
    also have "\<dots> = plane_bit src (64 * s + (shift + j))"
      using that shift by (simp only: plane_bit_linear)
    finally show ?thesis using k by (simp add: add.assoc)
  qed (use that shift in simp)
  then show "bit (shr (src ! s) shift AND msk) j \<longleftrightarrow>
      0 \<le> j \<and> j < 0 + t \<and> plane_bit src (k + (j - 0))"
    using msk[OF j] by (auto simp: bit_and_iff)
qed (use len in simp)

lemma set_vec_aligned_merged:
  assumes "merged ws0 src adr (64 * sptr) st" and "adr + 64 * sptr = 64 * dptr"
    and "adr + 64 * sptr + remain \<le> 64 * length ws0"
  shows "merged ws0 src adr (64 * sptr + remain) (set_vec_aligned src remain sptr dptr st)"
  using assms
proof (induction src remain sptr dptr st rule: set_vec_aligned.induct)
  case (1 src remain sptr dptr st)
  show ?case
  proof (cases "64 \<le> remain")
    case True
    have st: "(if fst st ! dptr \<noteq> src ! sptr then ((fst st)[dptr := src ! sptr], True) else st) =
        put_word dptr (- 1) (shl (src ! sptr) 0 AND - 1) st"
      by (simp add: put_word_def shl_def)
    have "merged ws0 src adr (64 * sptr + 64) (put_word dptr (- 1) (shl (src ! sptr) 0 AND - 1) st)"
      by (rule merged_low_part[OF "1.prems"(1), where off = 0 and t = 64])
        (use "1.prems" True in \<open>auto simp: bit_minus_1_iff\<close>)
    then show ?thesis
      using "1.IH" "1.prems" True by (subst set_vec_aligned.simps) (simp add: st algebra_simps)
  next
    case False
    show ?thesis
    proof (cases "0 < remain")
      case True
      have "merged ws0 src adr (64 * sptr + remain)
          (put_word dptr (shl 1 remain - 1) (shl (src ! sptr) 0 AND (shl 1 remain - 1)) st)"
        by (rule merged_low_part[OF "1.prems"(1), where off = 0 and t = remain])
          (use "1.prems" True False in \<open>auto simp: bit_low_mask\<close>)
      then show ?thesis
        using True False by (subst set_vec_aligned.simps) (simp add: Let_def shl_def)
    next
      case zero: False
      then show ?thesis
        using "1.prems" False by (subst set_vec_aligned.simps) simp
    qed
  qed
qed

lemma set_vec_tail_merged:
  assumes m: "merged ws0 src adr (64 * sptr) st" and pos: "adr + 64 * sptr = 64 * dptr + doff"
    and doff: "doff < 64" and t: "t \<le> 64"
    and fit: "adr + 64 * sptr + t \<le> 64 * length ws0"
    and st1: "st1 = put_word dptr ((if doff + t \<ge> 64 then - 1 else shl 1 (doff + t) - 1) AND NOT (shl 1 doff - 1))
        (shl (src ! sptr) doff AND ((if doff + t \<ge> 64 then - 1 else shl 1 (doff + t) - 1) AND NOT (shl 1 doff - 1))) st"
    and st2: "st2 = (if doff + t > 64
        then put_word (dptr + 1) (shl 1 (doff + t - 64) - 1)
          (shr (src ! sptr) (t - (doff + t - 64)) AND (shl 1 (doff + t - 64) - 1)) st1
        else st1)"
  shows "merged ws0 src adr (64 * sptr + t) st2"
proof -
  have len: "dptr < length ws0" if "0 < t" using that fit pos by simp
  have low: "merged ws0 src adr (64 * sptr + min t (64 - doff)) st1"
    unfolding st1
    by (rule merged_low_part[OF m pos doff, where t = t]) (use len doff in \<open>auto simp: bit_range_mask\<close>)
  show ?thesis
  proof (cases "doff + t > 64")
    case True
    define u where "u = doff + t - 64"
    have u: "u < 64" "min t (64 - doff) = 64 - doff" "t - u = 64 - doff" "t = 64 - doff + u"
      "u \<le> doff"
      using True doff t by (simp_all add: u_def)
    have "merged ws0 src adr (64 * sptr + (64 - doff) + u)
        (put_word (dptr + 1) (shl 1 u - 1) (shr (src ! sptr) (64 - doff) AND (shl 1 u - 1)) st1)"
    proof (rule merged_high_part)
      show "merged ws0 src adr (64 * sptr + (64 - doff)) st1" using low u(2) by simp
      show "adr + (64 * sptr + (64 - doff)) = 64 * (dptr + 1)" using pos doff by simp
      show "dptr + 1 < length ws0" using fit pos True by simp
      show "bit (shl 1 u - 1) j = (j < u)" if "j < 64" for j using that u(1) by (simp add: bit_low_mask)
    qed (use doff u in auto)
    moreover have "64 * sptr + (64 - doff) + u = 64 * sptr + t" using u(4) by simp
    ultimately show ?thesis
      by (simp only: st2 True if_True u_def [symmetric] u(3))
  next
    case False
    then have "min t (64 - doff) = t" using doff by simp
    then show ?thesis using low False by (simp add: st2)
  qed
qed

lemma set_vec_unaligned_merged:
  assumes "merged ws0 src adr (64 * sptr) st" and "adr + 64 * sptr = 64 * dptr + doff"
    and "0 < doff" and "doff < 64" and "adr + 64 * sptr + remain \<le> 64 * length ws0"
  shows "merged ws0 src adr (64 * sptr + remain) (set_vec_unaligned src doff remain sptr dptr st)"
  using assms
proof (induction src doff remain sptr dptr st rule: set_vec_unaligned.induct)
  case (1 src doff remain sptr dptr st)
  show ?case
  proof (cases "64 \<le> remain")
    case True
    define st1 where "st1 = put_word dptr (NOT (shl 1 doff - 1)) (shl (src ! sptr) doff AND NOT (shl 1 doff - 1)) st"
    define st2 where "st2 = put_word (dptr + 1) (shl 1 doff - 1) (shr (src ! sptr) (64 - doff) AND (shl 1 doff - 1)) st1"
    have "merged ws0 src adr (64 * sptr + 64) st2"
    proof (rule set_vec_tail_merged[OF "1.prems"(1,2,4), where t = 64])
      show "st1 = put_word dptr ((if doff + 64 \<ge> 64 then - 1 else shl 1 (doff + 64) - 1) AND NOT (shl 1 doff - 1))
        (shl (src ! sptr) doff AND ((if doff + 64 \<ge> 64 then - 1 else shl 1 (doff + 64) - 1) AND NOT (shl 1 doff - 1))) st"
        by (simp add: st1_def)
      show "st2 = (if doff + 64 > 64
        then put_word (dptr + 1) (shl 1 (doff + 64 - 64) - 1)
          (shr (src ! sptr) (64 - (doff + 64 - 64)) AND (shl 1 (doff + 64 - 64) - 1)) st1
        else st1)"
        using "1.prems"(3) by (simp add: st2_def)
    qed (use "1.prems" True in auto)
    then have "merged ws0 src adr (64 * (sptr + 1) + (remain - 64))
        (set_vec_unaligned src doff (remain - 64) (sptr + 1) (dptr + 1) st2)"
      using "1.IH"[OF True refl refl st1_def _ st2_def] "1.prems" True by (simp add: st1_def algebra_simps)
    then show ?thesis
      using True by (subst set_vec_unaligned.simps) (simp add: Let_def st1_def st2_def algebra_simps)
  next
    case False
    show ?thesis
    proof (cases "0 < remain")
      case True
      have "merged ws0 src adr (64 * sptr + remain) (set_vec_unaligned_tail src doff remain sptr dptr st)"
        by (rule set_vec_tail_merged[OF "1.prems"(1,2,4), where t = remain, OF _ _ refl])
          (use "1.prems" False in \<open>auto simp: set_vec_unaligned_tail_def Let_def\<close>)
      then show ?thesis
        using True False by (subst set_vec_unaligned.simps) simp
    next
      case zero: False
      then show ?thesis
        using "1.prems" False by (subst set_vec_unaligned.simps) simp
    qed
  qed
qed

lemma set_vec_plane_merged:
  assumes "length ws = nwords n" and "0 < m" and "adr + m \<le> n"
  shows "merged ws src adr m (set_vec_plane n adr m src ws)"
proof -
  have len: "n \<le> 64 * length ws"
    using assms(1) div_less_word_count[of "n - 1" n] by (cases "64 < n") auto
  consider "n \<le> 64" | "64 < n" "m \<le> 64" | "64 < n" "64 < m" "adr mod 64 = 0"
    | "64 < n" "64 < m" "0 < adr mod 64" by linarith
  then show ?thesis
  proof cases
    case 1
    have "merged ws src adr (64 * 0 + m) (set_vec_plane n adr m src ws)"
      by (rule set_vec_tail_merged[where dptr = 0 and doff = adr, OF _ _ _ _ _ refl])
        (use 1 assms len in \<open>auto simp: set_vec_plane_def Let_def merged_0\<close>)
    then show ?thesis by simp
  next
    case 2
    have "merged ws src adr (64 * 0 + m) (set_vec_plane n adr m src ws)"
      by (rule set_vec_tail_merged[where dptr = "adr div 64" and doff = "adr mod 64", OF _ _ _ _ _ refl])
        (use 2 assms len in \<open>auto simp: set_vec_plane_def Let_def merged_0\<close>)
    then show ?thesis by simp
  next
    case 3
    have "merged ws src adr (64 * 0 + m) (set_vec_aligned src m 0 (adr div 64) (ws, False))"
      by (rule set_vec_aligned_merged) (use 3 assms len in \<open>auto simp: merged_0\<close>)
    then show ?thesis using 3 by (simp add: set_vec_plane_def)
  next
    case 4
    have "merged ws src adr (64 * 0 + m) (set_vec_unaligned src (adr mod 64) m 0 (adr div 64) (ws, False))"
      by (rule set_vec_unaligned_merged) (use 4 assms len in \<open>auto simp: merged_0\<close>)
    then show ?thesis using 4 by (simp add: set_vec_plane_def)
  qed
qed

text \<open>\<^verbatim>\<open>set_vec\<close>, in all four of its word-level branches, does what the bit-by-bit loop would.\<close>

lemma vec4_set_vec_bits:
  assumes "vec4_wf v" and "0 < vec_size that"
  shows "if adr + vec_size that \<le> vec_size v
    then \<exists>v' diff. vec4_set_vec v adr that = Some (v', diff) \<and> vec4_wf v' \<and>
      vec4_bits v' =
        take adr (vec4_bits v) @ vec4_bits that @ drop (adr + vec_size that) (vec4_bits v) \<and>
      (diff \<longleftrightarrow> vec4_bits v' \<noteq> vec4_bits v)
    else vec4_set_vec v adr that = None"
proof (cases "adr + vec_size that \<le> vec_size v")
  case True
  let ?m = "vec_size that" and ?n = "vec_size v"
  obtain as ad bs bd where
    a: "set_vec_plane ?n adr ?m (abits that) (abits v) = (as, ad)" and
    b: "set_vec_plane ?n adr ?m (bbits that) (bbits v) = (bs, bd)" by fastforce
  define v' where "v' = v\<lparr>abits := as, bbits := bs\<rparr>"
  have code: "vec4_set_vec v adr that = Some (v', ad \<or> bd)"
    using True by (simp add: vec4_set_vec_def a b v'_def)
  have ma: "merged (abits v) (abits that) adr ?m (as, ad)"
    and mb: "merged (bbits v) (bbits that) adr ?m (bs, bd)"
    using set_vec_plane_merged[of "abits v" ?n ?m adr "abits that"]
      set_vec_plane_merged[of "bbits v" ?n ?m adr "bbits that"]
      a b assms True by (simp_all add: vec4_wf_def)
  have wf: "vec4_wf v'" using assms(1) ma mb by (simp add: vec4_wf_def merged_def v'_def)
  have val: "vec4_value v' i = (if adr \<le> i \<and> i < adr + ?m then vec4_value that (i - adr) else vec4_value v i)"
    if "i < ?n" for i
    using that ma mb by (auto simp: vec4_value_planes merged_def v'_def)
  have bits: "vec4_bits v' = take adr (vec4_bits v) @ vec4_bits that @ drop (adr + ?m) (vec4_bits v)"
    (is "_ = ?r")
  proof (rule nth_equalityI)
    show "length (vec4_bits v') = length ?r" using True by (simp add: v'_def)
    fix i assume "i < length (vec4_bits v')"
    then have "i < ?n" by (simp add: v'_def)
    then show "vec4_bits v' ! i = ?r ! i"
      using True val[of i] by (auto simp: v'_def nth_append)
  qed
  have diff: "ad \<or> bd \<longleftrightarrow> (\<exists>i<?m. vec4_value that i \<noteq> vec4_value v (adr + i))"
    using ma mb True by (auto simp: merged_def vec4_value_planes)
  have "ad \<or> bd \<longleftrightarrow> vec4_bits v' \<noteq> vec4_bits v"
  proof
    assume "ad \<or> bd"
    then obtain i where "i < ?m" "vec4_value that i \<noteq> vec4_value v (adr + i)" using diff by blast
    then have "vec4_bits v' ! (adr + i) \<noteq> vec4_bits v ! (adr + i)"
      using True val[of "adr + i"] by (simp add: v'_def)
    then show "vec4_bits v' \<noteq> vec4_bits v" by metis
  next
    assume "vec4_bits v' \<noteq> vec4_bits v"
    then obtain i where i: "i < ?n" "vec4_value v' i \<noteq> vec4_value v i"
      by (auto simp: vec4_bits_eq_iff v'_def)
    then have "adr \<le> i" "i < adr + ?m" "vec4_value that (i - adr) \<noteq> vec4_value v i"
      using val[OF i(1)] by (auto split: if_splits)
    then show "ad \<or> bd"
      unfolding diff by (intro exI[of _ "i - adr"]) auto
  qed
  then show ?thesis using True code wf bits by auto
qed (simp add: vec4_set_vec_def)

end
