(* ===== verification/Vector4_Select.thy ===== *)
theory Vector4_Select
  imports Vector4_Parts
begin

text \<open>
  Part select and change of width of a \<^verbatim>\<open>vvp_vector4_t\<close> (\<^verbatim>\<open>vvp_net.cc\<close>): the constructor behind
  \<^verbatim>\<open>subvalue\<close> and \<^verbatim>\<open>resize\<close>. A part select reads X beyond the source, \<^verbatim>\<open>resize\<close> pads with a given
  value.
\<close>

section \<open>Part select\<close>

function subvalue_words :: "u64 list \<Rightarrow> nat \<Rightarrow> nat \<Rightarrow> nat \<Rightarrow> nat \<Rightarrow> nat \<Rightarrow> u64 list \<Rightarrow> u64 list" where
  "subvalue_words src adr wid ptr tr dst ws =
     (let off = adr mod 64; noff = 64 - off; lmask = shl 1 off - 1
      in if tr < wid
         then
           let ws = ws[dst := shr (src ! ptr AND NOT lmask) off];
               tr = tr + noff
           in if wid \<le> tr then ws
              else
                let ptr = ptr + 1
                in if noff \<noteq> 64
                   then subvalue_words src adr wid ptr (tr + off) (dst + 1)
                          (ws[dst := ws ! dst OR shl (src ! ptr AND lmask) noff])
                   else subvalue_words src adr wid ptr tr (dst + 1) ws
         else ws)"
  by pat_completeness auto
termination
  by (relation "measure (\<lambda>(src, adr, wid, ptr, tr, dst, ws). wid - tr)")
    (auto simp: Let_def intro!: diff_less_mono2)

declare subvalue_words.simps [simp del]

definition subvalue_word :: "u64 list \<Rightarrow> nat \<Rightarrow> nat \<Rightarrow> u64" where
  "subvalue_word src adr wid =
     (let ptr = adr div 64;
          off = adr mod 64;
          tr = 64 - off;
          tr = (if tr > wid then wid else tr)
      in if tr = 64 then src ! ptr
         else
           let lmask = shl (shl 1 tr - 1) off;
               val = shr (src ! ptr AND lmask) off
           in if tr < wid
              then let hmask = shl 1 (wid - tr) - 1
                   in val OR shl (src ! (ptr + 1) AND hmask) tr
              else val)"

definition subvalue_plane :: "nat \<Rightarrow> u64 list \<Rightarrow> nat \<Rightarrow> nat \<Rightarrow> u64 list \<Rightarrow> u64 list" where
  "subvalue_plane n src adr wid ws =
     (if 64 < wid then subvalue_words src adr wid (adr div 64) 0 0 ws
      else if 64 < n then ws[0 := subvalue_word src adr wid]
      else if wid = 64 then ws[0 := src ! 0]
      else let msk = shl (shl 1 wid - 1) adr in ws[0 := shr (src ! 0 AND msk) adr])"

definition vec4_subvalue :: "vvp_vector4_t \<Rightarrow> nat \<Rightarrow> nat \<Rightarrow> vvp_vector4_t option" where
  "vec4_subvalue that adr wid =
     (let res = vec4_new wid BIT4_X
      in if adr \<ge> vec_size that then Some res
         else if adr + wid > vec_size that
         then let use_wid = vec_size that - adr
              in foldM (\<lambda>idx res. vec4_set_bit res idx (vec4_value that (adr + idx))) [0..<use_wid] res
         else Some (res\<lparr>abits := subvalue_plane (vec_size that) (abits that) adr wid (abits res),
                        bbits := subvalue_plane (vec_size that) (bbits that) adr wid (bbits res)\<rparr>))"

lemma bit_split_word:
  assumes "off < 64" and "j < 64"
  shows "bit (shr (src ! p AND NOT (shl 1 off - 1)) off) j \<longleftrightarrow> j < 64 - off \<and> plane_bit src (64 * p + off + j)"
    and "bit (shl (src ! p AND (shl 1 off - 1)) (64 - off)) j \<longleftrightarrow>
      0 < off \<and> 64 - off \<le> j \<and> plane_bit src (64 * p + (off + j - 64)) \<or> off = 0 \<and> False"
proof -
  show "bit (shr (src ! p AND NOT (shl 1 off - 1)) off) j \<longleftrightarrow> j < 64 - off \<and> plane_bit src (64 * p + off + j)"
    using assms plane_bit_linear[of "off + j" src p]
    by (auto simp: bit_shr bit_and_iff bit_not_iff shl_1_minus_1 bit_mask_iff add.assoc)
  show "bit (shl (src ! p AND (shl 1 off - 1)) (64 - off)) j \<longleftrightarrow>
      0 < off \<and> 64 - off \<le> j \<and> plane_bit src (64 * p + (off + j - 64)) \<or> off = 0 \<and> False"
  proof (cases "off = 0")
    case True
    then show ?thesis by (simp add: bit_shl shl_1_minus_1)
  next
    case False
    then have "(64 - off) mod 64 = 64 - off" "j - (64 - off) = off + j - 64 \<or> j < 64 - off"
      using assms(1) by auto
    then show ?thesis
      using assms False plane_bit_linear[of "off + j - 64" src p]
      by (auto simp: bit_shl bit_and_iff shl_1_minus_1 bit_mask_iff)
  qed
qed

lemma subvalue_words_bits:
  assumes "length ws = word_count wid" and "tr = 64 * dst" and "ptr = adr div 64 + dst"
    and "\<forall>i<wid. i < 64 * dst \<longrightarrow> plane_bit ws i = plane_bit src (adr + i)"
  shows "length (subvalue_words src adr wid ptr tr dst ws) = length ws \<and>
    (\<forall>i<wid. plane_bit (subvalue_words src adr wid ptr tr dst ws) i = plane_bit src (adr + i))"
  using assms
proof (induction "wid - tr" arbitrary: ptr tr dst ws rule: less_induct)
  case (less tr ptr dst ws)
  define off noff where "off = adr mod 64" "noff = 64 - off"
  define lmask :: u64 where "lmask = shl 1 off - 1"
  note defs = off_noff_def lmask_def
  have off: "off < 64" by (simp add: defs)
  define w1 where "w1 = shr (src ! ptr AND NOT lmask) off"
  define ws1 where "ws1 = ws[dst := w1]"
  show ?case
  proof (cases "tr < wid")
    case False
    then show ?thesis
      using less.prems by (subst (1 2) subvalue_words.simps) (auto simp: Let_def)
  next
    case True
    have dst: "dst < length ws"
      using True less.prems(1,2) div_less_word_count[of tr wid] by simp
    have w1: "bit w1 j \<longleftrightarrow> j < noff \<and> plane_bit src (adr + (64 * dst + j))" if "j < 64" for j
    proof -
      have "64 * ptr + off + j = adr + (64 * dst + j)"
        using less.prems(3) mult_div_mod_eq[of 64 adr] by (simp add: defs)
      then show ?thesis
        using bit_split_word(1)[OF off that, of src ptr]
        by (simp add: w1_def lmask_def defs(2) add.assoc)
    qed
    have split: "plane_bit (ws[dst := w]) i = (if i div 64 = dst then bit w (i mod 64) else plane_bit ws i)"
      for w i using dst by (rule plane_bit_update)
    show ?thesis
    proof (cases "wid \<le> tr + noff")
      case stop: True
      have code: "subvalue_words src adr wid ptr tr dst ws = ws1"
        using True stop by (subst subvalue_words.simps) (simp add: Let_def ws1_def w1_def defs)
      have "plane_bit ws1 i = plane_bit src (adr + i)" if "i < wid" for i
      proof (cases "i div 64 = dst")
        case True
        then have "i = 64 * dst + i mod 64" by auto
        moreover have "i mod 64 < noff" using calculation that stop less.prems(2) by linarith
        ultimately show ?thesis using w1[of "i mod 64"] True by (simp add: ws1_def split)
      next
        case False
        have "i < 64 * dst"
          using False that stop less.prems(2) off by (simp add: defs div_less_iff_less_mult)
        then show ?thesis using less.prems(4) that False by (simp add: ws1_def split)
      qed
      then show ?thesis by (simp add: code ws1_def)
    next
      case go: False
      define w2 where "w2 = w1 OR shl (src ! (ptr + 1) AND lmask) noff"
      have noff_64: "noff \<noteq> 64 \<longleftrightarrow> off \<noteq> 0" using off by (auto simp: defs)
      define wf where "wf = (if noff \<noteq> 64 then w2 else w1)"
      define ws2 where "ws2 = ws[dst := wf]"
      have wf: "bit wf j \<longleftrightarrow> plane_bit src (adr + (64 * dst + j))" if "j < 64" for j
      proof (cases "off = 0")
        case True
        then show ?thesis using w1[OF that] that noff_64 by (simp add: wf_def defs(2))
      next
        case False
        then have wf_j: "bit wf j \<longleftrightarrow> bit w1 j \<or> bit (shl (src ! (ptr + 1) AND lmask) noff) j"
          using noff_64 by (simp add: wf_def w2_def bit_or_iff)
        have hi: "bit (shl (src ! (ptr + 1) AND lmask) noff) j \<longleftrightarrow>
            noff \<le> j \<and> plane_bit src (64 * (ptr + 1) + (off + j - 64))"
          using bit_split_word(2)[OF off that, of src "ptr + 1"] False
          by (simp only: lmask_def defs(2)) simp
        have "noff \<le> j \<Longrightarrow> 64 * (ptr + 1) + (off + j - 64) = adr + (64 * dst + j)"
          using less.prems(3) mult_div_mod_eq[of 64 adr] by (simp add: defs)
        then show ?thesis
          using w1[OF that] wf_j hi by (cases "noff \<le> j") auto
      qed
      have inv: "\<forall>i<wid. i < 64 * (dst + 1) \<longrightarrow> plane_bit ws2 i = plane_bit src (adr + i)"
      proof (intro allI impI)
        fix i assume "i < wid" "i < 64 * (dst + 1)"
        show "plane_bit ws2 i = plane_bit src (adr + i)"
        proof (cases "i div 64 = dst")
          case True
          then have "i = 64 * dst + i mod 64" by auto
          then show ?thesis using wf[of "i mod 64"] True by (simp add: ws2_def split)
        next
          case False
          then have "i < 64 * dst" using \<open>i < 64 * (dst + 1)\<close> by (simp add: div_less_iff_less_mult)
          then show ?thesis using less.prems(4) \<open>i < wid\<close> False by (simp add: ws2_def split)
        qed
      qed
      have code: "subvalue_words src adr wid ptr tr dst ws =
          subvalue_words src adr wid (ptr + 1) (64 * (dst + 1)) (dst + 1) ws2"
        using True go off dst less.prems(2) noff_64
        by (subst subvalue_words.simps)
          (auto simp: Let_def ws2_def wf_def w2_def w1_def defs add.commute)
      show ?thesis
        unfolding code
        using less.hyps[OF _ _ refl _ inv, of "ptr + 1"] less.prems True
        by (simp add: ws2_def)
    qed
  qed
qed

lemma bit_window_mask:
  assumes "off < 64" and "off + t \<le> 64" and "t < 64" and "j < 64"
  shows "bit (shl (shl 1 t - 1) off) j \<longleftrightarrow> off \<le> j \<and> j < off + t"
  using assms by (auto simp: bit_shl shl_1_minus_1 bit_mask_iff)

lemma bit_window:
  assumes "off < 64" and "off + t \<le> 64" and "t < 64" and "j < 64"
  shows "bit (shr (src ! p AND shl (shl 1 t - 1) off) off) j \<longleftrightarrow> j < t \<and> plane_bit src (64 * p + off + j)"
proof (cases "off + j < 64")
  case True
  then show ?thesis
    using assms bit_window_mask[of off t "off + j"] plane_bit_linear[of "off + j" src p]
    by (auto simp: bit_shr bit_and_iff add.assoc)
next
  case False
  then show ?thesis using assms by (auto simp: bit_shr dest: bit_imp_le_length)
qed

lemma subvalue_word_bits:
  assumes "wid \<le> 64" and "j < wid"
  shows "bit (subvalue_word src adr wid) j = plane_bit src (adr + j)"
proof -
  define p off t where "p = adr div 64" "off = adr mod 64" "t = min (64 - off) wid"
  note defs = p_off_t_def
  have off: "off < 64" and adr: "adr = 64 * p + off" by (simp_all add: defs)
  have t: "(if 64 - off > wid then wid else 64 - off) = t" by (simp add: defs min_def)
  show ?thesis
  proof (cases "t = 64")
    case True
    then have "off = 0" "wid = 64" using assms by (simp_all add: defs)
    then have "subvalue_word src adr wid = src ! p" by (simp add: subvalue_word_def Let_def defs(1,2))
    then show ?thesis
      using assms adr \<open>off = 0\<close> plane_bit_linear[of j src p] by simp
  next
    case False
    define low where "low = shr (src ! p AND shl (shl 1 t - 1) off) off"
    have le: "off + t \<le> 64" "t < 64" using off False by (auto simp: defs)
    have low: "bit low i \<longleftrightarrow> i < t \<and> plane_bit src (adr + i)" if "i < 64" for i
      using bit_window[OF off le that, of src p] adr by (simp add: low_def)
    have code: "subvalue_word src adr wid =
        (if t < wid then low OR shl (src ! (p + 1) AND (shl 1 (wid - t) - 1)) t else low)"
      using False by (simp add: subvalue_word_def Let_def defs(1,2) [symmetric] t low_def)
    show ?thesis
    proof (cases "t < wid")
      case True
      then have t_off: "t = 64 - off" by (auto simp: defs)
      have "bit (shl (src ! (p + 1) AND (shl 1 (wid - t) - 1)) t) j \<longleftrightarrow> t \<le> j \<and> plane_bit src (adr + j)"
      proof (cases "t \<le> j")
        case le_j: True
        have idx: "64 * (p + 1) + (j - t) = adr + j" using adr t_off le_j off by simp
        have "bit (src ! (p + 1)) (j - t) = plane_bit src (64 * (p + 1) + (j - t))"
          using assms by (simp only: plane_bit_linear)
        moreover have "bit (shl 1 (wid - t) - 1 :: u64) (j - t)"
          using assms True le_j t_off off False le bit_low_mask[of "wid - t" "j - t"] by fastforce
        ultimately show ?thesis
          using assms le le_j idx by (simp add: bit_shl bit_and_iff)
      qed (use le in \<open>simp add: bit_shl\<close>)
      then show ?thesis using True code low[of j] assms by (auto simp: bit_or_iff)
    next
      case ge: False
      then show ?thesis using code low[of j] assms by simp
    qed
  qed
qed

lemma subvalue_plane_bits:
  assumes "adr + wid \<le> n" and "adr < n" and "length ws = nwords wid" and "i < wid"
  shows "plane_bit (subvalue_plane n src adr wid ws) i = plane_bit src (adr + i)"
    and "length (subvalue_plane n src adr wid ws) = nwords wid"
proof -
  consider "64 < wid" | "wid \<le> 64" "64 < n" | "wid = 64" "n \<le> 64" | "wid < 64" "n \<le> 64" by linarith
  then have "plane_bit (subvalue_plane n src adr wid ws) i = plane_bit src (adr + i) \<and>
      length (subvalue_plane n src adr wid ws) = nwords wid"
  proof cases
    case 1
    then show ?thesis
      using assms subvalue_words_bits[of ws wid 0 0 "adr div 64" adr src] by (simp add: subvalue_plane_def)
  next
    case 2
    then have "i div 64 = 0" "i mod 64 = i" using assms(4) by simp_all
    then show ?thesis
      using 2 assms subvalue_word_bits[of wid i src adr] by (simp add: subvalue_plane_def plane_bit_def)
  next
    case 3
    have adr: "adr = 0" using 3 assms(1) by linarith
    show ?thesis using 3 assms(3,4) unfolding adr by (auto simp: subvalue_plane_def plane_bit_def)
  next
    case 4
    then have "i div 64 = 0" "i mod 64 = i" using assms(4) by simp_all
    then show ?thesis
      using 4 assms bit_window[of adr wid i src 0]
      by (simp add: subvalue_plane_def plane_bit_def Let_def)
  qed
  then show "plane_bit (subvalue_plane n src adr wid ws) i = plane_bit src (adr + i)"
    and "length (subvalue_plane n src adr wid ws) = nwords wid" by simp_all
qed

lemma subvalue_plane_length:
  "length ws = nwords wid \<Longrightarrow> length (subvalue_plane n src adr wid ws) = nwords wid"
  using subvalue_words_bits[of ws wid 0 0 "adr div 64" adr src] by (simp add: subvalue_plane_def Let_def)

text \<open>The bits of a vector in which a part has been replaced.\<close>

lemma vec4_value_replaced:
  assumes "vec4_bits v' = take adr (vec4_bits v) @ vec4_bits that @ drop (adr + vec_size that) (vec4_bits v)"
    and "adr + vec_size that \<le> vec_size v"
  shows "vec4_value v' j =
    (if adr \<le> j \<and> j < adr + vec_size that then vec4_value that (j - adr) else vec4_value v j)"
proof -
  have n: "vec_size v' = vec_size v" using arg_cong[OF assms(1), of length] assms(2) by simp
  show ?thesis
  proof (cases "j < vec_size v")
    case True
    then have "vec4_value v' j = vec4_bits v' ! j" using n by (simp add: vec4_bits_def)
    also have "\<dots> = (if adr \<le> j \<and> j < adr + vec_size that then vec4_bits that ! (j - adr) else vec4_bits v ! j)"
      unfolding assms(1) using True assms(2) by (auto simp: nth_append)
    finally show ?thesis using True by (auto simp: vec4_bits_def)
  next
    case False
    then show ?thesis using n assms(2) by auto
  qed
qed

text \<open>The part-select constructor never aborts, and reads X beyond the source.\<close>

lemma vec4_subvalue_bits:
  "\<exists>r. vec4_subvalue that adr wid = Some r \<and> vec4_wf r \<and>
     vec4_bits r = map (\<lambda>i. vec4_value that (adr + i)) [0..<wid]"
proof -
  let ?res = "vec4_new wid BIT4_X" and ?n = "vec_size that"
  consider "?n \<le> adr" | "adr < ?n" "?n < adr + wid" | "adr < ?n" "adr + wid \<le> ?n" by linarith
  then show ?thesis
  proof cases
    case 1
    then have "vec4_bits ?res = map (\<lambda>i. vec4_value that (adr + i)) [0..<wid]"
      by (simp add: list_eq_iff_nth_eq vsize bitlevel)
    then show ?thesis using 1 by (simp add: vec4_subvalue_def vsize)
  next
    case 2
    obtain r where r: "foldM (\<lambda>i r. vec4_set_bit r (0 + i) (vec4_value that (adr + i))) [0..<?n - adr] ?res = Some r"
      "vec4_wf r" "vec_size r = wid"
      "\<forall>j<wid. vec4_value r j = (if 0 \<le> j \<and> j < 0 + (?n - adr) then vec4_value that (adr + (j - 0))
          else vec4_value ?res j)"
    proof -
      have "0 + (?n - adr) \<le> vec_size ?res" using 2 by (simp add: vsize)
      from vec4.set_loop_at[OF vec4_new_wf(1) this, of "\<lambda>i. vec4_value that (adr + i)"]
      show thesis using that by (auto simp only: vec4_new_wf)
    qed
    then have "vec4_bits r = map (\<lambda>i. vec4_value that (adr + i)) [0..<wid]"
      by (auto simp: list_eq_iff_nth_eq bitlevel)
    then show ?thesis using 2 r by (simp add: vec4_subvalue_def)
  next
    case 3
    define r where "r = ?res\<lparr>abits := subvalue_plane ?n (abits that) adr wid (abits ?res),
      bbits := subvalue_plane ?n (bbits that) adr wid (bbits ?res)\<rparr>"
    have len: "length (abits ?res) = nwords wid" "length (bbits ?res) = nwords wid"
      using vec4_new_wf[of wid BIT4_X] by (simp_all add: vec4_wf_def)
    have "vec_size r = wid" "vec4_wf r"
      using len subvalue_plane_length by (simp_all add: r_def vec4_wf_def vsize)
    moreover have "vec4_value r i = vec4_value that (adr + i)" if "i < wid" for i
      using that 3 subvalue_plane_bits(1)[OF 3(2,1) len(1) that] subvalue_plane_bits(1)[OF 3(2,1) len(2) that]
      by (simp add: vec4_value_planes r_def vsize)
    ultimately show ?thesis
      using 3 by (simp add: vec4_subvalue_def r_def [symmetric] list_eq_iff_nth_eq)
  qed
qed

text \<open>C14. Writing a part and reading any part back, through all word-level branches of both operations:
  \<^verbatim>\<open>set_vec\<close> aborts exactly when the source does not fit; otherwise it replaces the addressed bits
  and no others, reports a change exactly when some bit differs, and every later part select, wherever
  it starts and however long, reads the new bits where they were written, the old bits elsewhere and X
  beyond the vector.\<close>

theorem vec4_part_write_read:
  assumes "vec4_wf v" "0 < vec_size that"
  shows "if adr + vec_size that \<le> vec_size v
    then \<exists>v' diff. vec4_set_vec v adr that = Some (v', diff) \<and> vec4_wf v' \<and>
      vec4_bits v' =
        take adr (vec4_bits v) @ vec4_bits that @ drop (adr + vec_size that) (vec4_bits v) \<and>
      (diff \<longleftrightarrow> vec4_bits v' \<noteq> vec4_bits v) \<and>
      (\<forall>a w. \<exists>r. vec4_subvalue v' a w = Some r \<and> vec4_wf r \<and> vec4_bits r =
        map (\<lambda>i. if adr \<le> a + i \<and> a + i < adr + vec_size that then vec4_value that (a + i - adr)
                 else vec4_value v (a + i)) [0..<w])
    else vec4_set_vec v adr that = None"
proof (cases "adr + vec_size that \<le> vec_size v")
  case True
  then obtain v' diff where v': "vec4_set_vec v adr that = Some (v', diff)" "vec4_wf v'"
    "vec4_bits v' = take adr (vec4_bits v) @ vec4_bits that @ drop (adr + vec_size that) (vec4_bits v)"
    "diff \<longleftrightarrow> vec4_bits v' \<noteq> vec4_bits v"
    using vec4_set_vec_bits[OF assms, of adr] by auto
  note val = vec4_value_replaced[OF v'(3) True]
  show ?thesis using True v' vec4_subvalue_bits[of v'] by (simp add: val)
next
  case False
  then show ?thesis using vec4_set_vec_bits[OF assms, of adr] by simp
qed

theorem vec4_part_write_read_witness:
  "\<exists>v' diff r. vec4_set_vec (vec4_new 130 BIT4_Z) 63 (vec4_new 66 BIT4_1) = Some (v', diff) \<and>
     vec4_subvalue v' 62 3 = Some r \<and> vec4_bits r = [BIT4_Z, BIT4_1, BIT4_1]"
proof -
  have "vec4_wf (vec4_new 130 BIT4_Z)" "0 < vec_size (vec4_new 66 BIT4_1)" "63 + vec_size (vec4_new 66 BIT4_1) \<le> vec_size (vec4_new 130 BIT4_Z)"
    by (simp_all add: vsize)
  then obtain v' diff where set: "vec4_set_vec (vec4_new 130 BIT4_Z) 63 (vec4_new 66 BIT4_1) = Some (v', diff)"
    and get: "\<forall>a w. \<exists>r. vec4_subvalue v' a w = Some r \<and> vec4_wf r \<and> vec4_bits r =
        map (\<lambda>i. if 63 \<le> a + i \<and> a + i < 63 + vec_size (vec4_new 66 BIT4_1) then vec4_value (vec4_new 66 BIT4_1) (a + i - 63)
                 else vec4_value (vec4_new 130 BIT4_Z) (a + i)) [0..<w]"
    using vec4_part_write_read[of "vec4_new 130 BIT4_Z" "vec4_new 66 BIT4_1" 63] by metis
  show ?thesis using set spec[OF spec[OF get], of 62 3] by (auto simp: bitlevel vsize upt_rec)
qed

section \<open>Change of width\<close>

definition resize_plane :: "nat \<Rightarrow> nat \<Rightarrow> u64 \<Rightarrow> u64 list \<Rightarrow> u64 list" where
  "resize_plane oldsize newsize pad ws =
     (let cnt = word_count oldsize;
          fill = oldsize mod 64;
          refill = (\<lambda>ws. if fill \<noteq> 0
                     then ws[cnt - 1 := (ws ! (cnt - 1) AND NOT (shl (- 1) fill)) OR shl pad fill]
                     else ws)
      in if 64 < newsize
         then
           let newcnt = word_count newsize
           in if newcnt = cnt
              then if oldsize < newsize then refill ws else ws
              else
                let newbits = (if 1 < cnt then map (\<lambda>idx. ws ! idx) [0..<min cnt newcnt] else [ws ! 0])
                in if oldsize < newsize
                   then take cnt (refill newbits) @ replicate (newcnt - cnt) pad
                   else newbits
         else
           let newval = ws ! 0
           in if oldsize < newsize
              then [(newval AND NOT (shl (- 1) oldsize)) OR shl pad oldsize]
              else [newval])"

definition vec4_resize :: "vvp_vector4_t \<Rightarrow> nat \<Rightarrow> vvp_bit4_t \<Rightarrow> vvp_vector4_t" where
  "vec4_resize v newsize pad_bit =
     (if vec_size v = newsize then v
      else v\<lparr>abits := resize_plane (vec_size v) newsize (WORD_ABITS pad_bit) (abits v),
             bbits := resize_plane (vec_size v) newsize (WORD_BBITS pad_bit) (bbits v),
             vec_size := newsize\<rparr>)"

lemma refill_bit:
  assumes "0 < f" "f < 64" "j < 64" "\<forall>j<64. bit pad j = c"
  shows "bit ((w AND NOT (shl (- 1) f)) OR shl pad f) j = (if j < f then bit w j else c)"
  using assms by (auto simp: bit_or_iff bit_and_iff bit_not_iff bit_shl bit_minus_1_iff)

lemma word_count_fill: "0 < n mod 64 \<Longrightarrow> word_count n - 1 = n div 64"
  by (simp add: word_count_tail)

lemma word_count_no_fill: "n mod 64 = 0 \<Longrightarrow> word_count n = n div 64"
  by (simp add: word_count_tail)

lemma refill_plane_bit:
  assumes c: "\<forall>j<64. bit pad j = c" and len: "word_count n \<le> length ws" and i: "i < 64 * word_count n"
  shows "plane_bit (if n mod 64 \<noteq> 0
      then ws[word_count n - 1 := (ws ! (word_count n - 1) AND NOT (shl (- 1) (n mod 64))) OR shl pad (n mod 64)]
      else ws) i = (if i < n then plane_bit ws i else c)"
proof (cases "n mod 64 = 0")
  case True
  then have "i < n" using i by (simp add: word_count_no_fill)
  then show ?thesis using True by simp
next
  case False
  then have last: "word_count n - 1 = n div 64" "n div 64 < length ws"
    using len by (simp_all add: word_count_tail)
  show ?thesis
  proof (cases "i div 64 = n div 64")
    case True
    then have "i mod 64 < n mod 64 \<longleftrightarrow> i < n"
      by (metis div_mult_mod_eq nat_add_left_cancel_less)
    then show ?thesis
      using False last True refill_bit[OF _ _ _ c, of "n mod 64" "i mod 64" "ws ! (n div 64)"]
      by (simp add: plane_bit_def)
  next
    case neq: False
    have "i div 64 < word_count n" using i by (simp add: div_less_iff_less_mult mult.commute)
    then have "i div 64 < n div 64" using neq False by (simp add: word_count_tail)
    then have "i < n" by (metis div_le_mono not_le_imp_less leD)
    then show ?thesis using neq False last by (simp add: plane_bit_def)
  qed
qed

lemma resize_plane_bits:
  assumes c: "\<forall>j<64. bit pad j = c" and len: "length ws = nwords n" and ne: "n \<noteq> m"
  shows "length (resize_plane n m pad ws) = nwords m \<and>
    (\<forall>i<m. plane_bit (resize_plane n m pad ws) i = (if i < n then plane_bit ws i else c))"
proof (cases "64 < m")
  case big: True
  define refill where "refill ws = (if n mod 64 \<noteq> 0
      then ws[word_count n - 1 := (ws ! (word_count n - 1) AND NOT (shl (- 1) (n mod 64))) OR shl pad (n mod 64)]
      else ws)" for ws
  have lr: "length (refill ws) = length ws" for ws by (simp add: refill_def)
  have i_m: "i div 64 < word_count m" if "i < m" for i using that by (rule div_less_word_count)
  show ?thesis
  proof (cases "word_count m = word_count n")
    case True
    then have n64: "64 < n" using big word_count_le_1[of n] word_count_gt_1[of m] by linarith
    have code: "resize_plane n m pad ws = (if n < m then refill ws else ws)"
      using big True by (simp add: resize_plane_def Let_def refill_def)
    show ?thesis
    proof (cases "n < m")
      case True
      have "i < 64 * word_count n" if "i < m" for i
        using i_m[OF that] \<open>word_count m = word_count n\<close> by (simp add: div_less_iff_less_mult mult.commute)
      then show ?thesis
        using True refill_plane_bit[OF c, of n ws] len n64 big lr \<open>word_count m = word_count n\<close>
        by (simp add: code refill_def)
    next
      case False
      then show ?thesis using len n64 big \<open>word_count m = word_count n\<close> by (simp add: code)
    qed
  next
    case False
    define newbits where "newbits = (if 1 < word_count n
        then map (\<lambda>idx. ws ! idx) [0..<min (word_count n) (word_count m)] else [ws ! 0])"
    have code: "resize_plane n m pad ws = (if n < m
        then take (word_count n) (refill newbits) @ replicate (word_count m - word_count n) pad else newbits)"
      using big False by (simp add: resize_plane_def Let_def refill_def newbits_def)
    show ?thesis
    proof (cases "n < m")
      case grow: True
      then have cnt: "word_count n < word_count m" using False div_le_mono[of "n + 63" "m + 63" 64] by linarith
      have lnew: "length newbits = max 1 (word_count n)" using cnt by (simp add: newbits_def)
      have nb: "plane_bit newbits i = plane_bit ws i" if "i < n" for i
        using div_less_word_count[OF that] cnt by (auto simp: newbits_def plane_bit_def)
      have rb: "plane_bit (refill newbits) i = (if i < n then plane_bit ws i else c)" if "i < 64 * word_count n" for i
        using refill_plane_bit[OF c, of n newbits i] that lnew nb by (simp add: refill_def)
      have "plane_bit (resize_plane n m pad ws) i = (if i < n then plane_bit ws i else c)" if "i < m" for i
      proof (cases "i div 64 < word_count n")
        case True
        then have "plane_bit (resize_plane n m pad ws) i = plane_bit (refill newbits) i"
          using grow lnew lr by (simp add: code plane_bit_def nth_append)
        moreover have "i < 64 * word_count n" using True by (simp add: div_less_iff_less_mult mult.commute)
        ultimately show ?thesis using rb by simp
      next
        case False
        then have "\<not> i < n" using div_less_word_count by blast
        have "i div 64 - word_count n < word_count m - word_count n"
          using False i_m[OF that] by (intro diff_less_mono) auto
        then show ?thesis
          using \<open>\<not> i < n\<close> False grow lnew lr c by (simp add: code plane_bit_def nth_append min_def)
      qed
      then show ?thesis using grow lnew lr cnt big by (simp add: code min_def max_def)
    next
      case shrink: False
      then have "word_count m < word_count n"
        using False div_le_mono[of "m + 63" "n + 63" 64] by linarith
      then have "newbits = map (\<lambda>idx. ws ! idx) [0..<word_count m]" using big by (simp add: newbits_def)
      then show ?thesis
        using shrink big i_m by (auto simp: code plane_bit_def)
    qed
  qed
next
  case False
  then have i: "i div 64 = 0" "i mod 64 = i" if "i < m" for i using that by simp_all
  show ?thesis
  proof (cases "n < m")
    case True
    have "bit ((ws ! 0 AND NOT (shl (- 1) n)) OR shl pad n) i = (if i < n then bit (ws ! 0) i else c)"
      if "i < m" for i
      using that False True c
      by (auto simp: bit_or_iff bit_and_iff bit_not_iff bit_shl bit_minus_1_iff)
    then show ?thesis
      using False True i by (simp add: resize_plane_def Let_def plane_bit_def)
  next
    case shrink: False
    then show ?thesis
      using False i by (simp add: resize_plane_def Let_def plane_bit_def)
  qed
qed

lemma WORD_BITS_const: "\<forall>j<64. bit (WORD_ABITS b) j = (b = BIT4_1 \<or> b = BIT4_X)"
  "\<forall>j<64. bit (WORD_BBITS b) j = (b = BIT4_X \<or> b = BIT4_Z)"
  by (cases b; simp add: WORD_ABITS_def WORD_BBITS_def bit_minus_1_iff)+

text \<open>\<^verbatim>\<open>resize\<close> keeps the bits that fit and pads a longer vector with the given value,
  with no stale bit of the old top word left in between.\<close>

lemma vec4_resize_bits:
  assumes "vec4_wf v"
  shows "vec4_wf (vec4_resize v n pad) \<and>
    vec4_bits (vec4_resize v n pad) = take n (vec4_bits v) @ replicate (n - vec_size v) pad"
proof (cases "vec_size v = n")
  case True
  then show ?thesis using assms by (simp add: vec4_resize_def)
next
  case False
  let ?m = "vec_size v"
  have a: "length (resize_plane ?m n (WORD_ABITS pad) (abits v)) = nwords n \<and>
      (\<forall>i<n. plane_bit (resize_plane ?m n (WORD_ABITS pad) (abits v)) i =
        (if i < ?m then plane_bit (abits v) i else pad = BIT4_1 \<or> pad = BIT4_X))"
    by (rule resize_plane_bits[OF WORD_BITS_const(1)]) (use assms False in \<open>auto simp: vec4_wf_def\<close>)
  have b: "length (resize_plane ?m n (WORD_BBITS pad) (bbits v)) = nwords n \<and>
      (\<forall>i<n. plane_bit (resize_plane ?m n (WORD_BBITS pad) (bbits v)) i =
        (if i < ?m then plane_bit (bbits v) i else pad = BIT4_X \<or> pad = BIT4_Z))"
    by (rule resize_plane_bits[OF WORD_BITS_const(2)]) (use assms False in \<open>auto simp: vec4_wf_def\<close>)
  have pad: "bit4_ab (pad = BIT4_1 \<or> pad = BIT4_X) (pad = BIT4_X \<or> pad = BIT4_Z) = pad"
    by (cases pad) (simp_all add: bit4_ab_def)
  have val: "vec4_value (vec4_resize v n pad) i = (if i < ?m then vec4_value v i else pad)" if "i < n" for i
    using a b that False pad by (simp add: vec4_value_planes vec4_resize_def)
  have "vec4_wf (vec4_resize v n pad)" "vec_size (vec4_resize v n pad) = n"
    using a b False by (simp_all add: vec4_resize_def vec4_wf_def)
  then show ?thesis
    by (auto simp: list_eq_iff_nth_eq nth_append val)
qed

end
