(* ===== verification/Word_Array.thy ===== *)
theory Word_Array
  imports Vector4_Bitwise
begin

text \<open>
  Arithmetic on arrays of words, shared by \<^verbatim>\<open>vvp_vector4_t\<close> and \<^verbatim>\<open>vvp_vector2_t\<close>
  (\<^verbatim>\<open>vvp_net.cc\<close>): the carry chains of addition and schoolbook multiplication, read as
  operations on the number that the array stands for.
\<close>

section \<open>The number in an array\<close>

lemma words_val_update:
  "k < length ws \<Longrightarrow>
     words_val (ws[k := w]) + 2 ^ (64 * k) * unat (ws ! k) = words_val ws + 2 ^ (64 * k) * unat w"
proof (induction ws arbitrary: k)
  case Nil
  then show ?case by simp
next
  case (Cons x ws)
  show ?case
  proof (cases k)
    case 0
    then show ?thesis by simp
  next
    case (Suc j)
    then have "words_val (ws[j := w]) + 2 ^ (64 * j) * unat (ws ! j) = words_val ws + 2 ^ (64 * j) * unat w"
      using Cons by simp
    then have "2 ^ 64 * (words_val (ws[j := w]) + 2 ^ (64 * j) * unat (ws ! j)) =
        2 ^ 64 * (words_val ws + 2 ^ (64 * j) * unat w)" by simp
    then show ?thesis
      by (simp add: Suc power_add algebra_simps)
  qed
qed

lemma words_val_take_Suc:
  "k < length ws \<Longrightarrow> words_val (take (Suc k) ws) = words_val (take k ws) + 2 ^ (64 * k) * unat (ws ! k)"
  by (simp add: take_Suc_conv_app_nth words_val_append)

lemma bit_words_val_plane: "i < 64 * length ws \<Longrightarrow> bit (words_val ws) i \<longleftrightarrow> plane_bit ws i"
  by (simp add: bit_words_val plane_bit_def less_mult_imp_div_less mult.commute)

lemma words_val_replicate_0 [simp]: "words_val (replicate n 0) = 0"
  by (induction n) auto

section \<open>Addition\<close>

definition add_word :: "(u64 \<Rightarrow> u64) \<Rightarrow> u64 list \<Rightarrow> nat \<Rightarrow> u64 list \<times> u64 \<Rightarrow> u64 list \<times> u64" where
  "add_word f that idx st =
     (let (s, carry) = add_with_carry (fst st ! idx) (f (that ! idx)) (snd st)
      in ((fst st)[idx := s], carry))"

lemma add_words_val:
  assumes "k \<le> length ws" "k \<le> length that" "unat c \<le> 1"
  shows "length (fst (fold (add_word f that) [0..<k] (ws, c))) = length ws \<and>
     drop k (fst (fold (add_word f that) [0..<k] (ws, c))) = drop k ws \<and>
     unat (snd (fold (add_word f that) [0..<k] (ws, c))) \<le> 1 \<and>
     words_val (take k (fst (fold (add_word f that) [0..<k] (ws, c)))) +
       2 ^ (64 * k) * unat (snd (fold (add_word f that) [0..<k] (ws, c))) =
     words_val (take k ws) + words_val (map f (take k that)) + unat c"
  using assms
proof (induction k)
  case 0
  then show ?case by simp
next
  case (Suc k)
  obtain xs c1 where st: "fold (add_word f that) [0..<k] (ws, c) = (xs, c1)" by (meson surj_pair)
  with Suc have IH: "length xs = length ws" "drop k xs = drop k ws" "unat c1 \<le> 1"
    "words_val (take k xs) + 2 ^ (64 * k) * unat c1 = words_val (take k ws) + words_val (map f (take k that)) + unat c"
    by simp_all
  then have nth: "xs ! k = ws ! k" using Suc.prems(1) by (metis Suc_le_lessD hd_drop_conv_nth)
  obtain s c2 where s: "add_with_carry (xs ! k) (f (that ! k)) c1 = (s, c2)" by (meson surj_pair)
  note sum = add_with_carry_words[OF IH(3) s]
  have "drop (Suc k) xs = drop (Suc k) ws"
    using IH(2) by (metis drop_Suc tl_drop)
  moreover have "words_val (take (Suc k) (xs[k := s])) = words_val (take k xs) + 2 ^ (64 * k) * unat s"
    using Suc.prems(1) IH(1) by (simp add: words_val_take_Suc)
  moreover have "words_val (take (Suc k) ws) = words_val (take k ws) + 2 ^ (64 * k) * unat (ws ! k)"
    using Suc.prems(1) by (simp add: words_val_take_Suc)
  moreover have "words_val (map f (take (Suc k) that)) = words_val (map f (take k that)) + 2 ^ (64 * k) * unat (f (that ! k))"
    using Suc.prems(2) by (simp add: take_Suc_conv_app_nth words_val_append min_def)
  moreover have "2 ^ (64 * k) * unat s + 2 ^ (64 * Suc k) * unat c2 =
      2 ^ (64 * k) * unat (ws ! k) + 2 ^ (64 * k) * unat (f (that ! k)) + 2 ^ (64 * k) * unat c1"
    using arg_cong[OF conjunct1[OF sum], of "\<lambda>x. 2 ^ (64 * k) * x"] nth
    by (simp add: power_add algebra_simps)
  moreover have "fold (add_word f that) [0..<Suc k] (ws, c) = (xs[k := s], c2)"
    using st s by (simp add: add_word_def[of f that k])
  ultimately show ?case
    using IH sum by simp
qed

lemma words_val_not: "words_val (map (\<lambda>w. NOT w) ws) + words_val ws + 1 = 2 ^ (64 * length ws)"
proof (induction ws)
  case Nil
  then show ?case by simp
next
  case (Cons w ws)
  have "NOT w = - 1 - w" by (simp add: not_eq_complement)
  then have "unat (NOT w) = unat (- 1 :: u64) - unat w" by (simp add: unat_sub word_order.extremum)
  then have "unat (NOT w) + unat w = 2 ^ 64 - 1"
    using unat_u64_less[of w] by (simp add: unsigned_minus_1_eq_mask mask_eq_exp_minus_1 del: unat_u64_less)
  then have "words_val (map (\<lambda>w. NOT w) (w # ws)) + words_val (w # ws) + 1 =
      2 ^ 64 * (words_val (map (\<lambda>w. NOT w) ws) + words_val ws + 1)" by (simp add: algebra_simps)
  then show ?case using Cons by (simp add: power_add)
qed

section \<open>Multiplication\<close>

text \<open>One product of two words added into the result at word \<open>base\<close>: the low half there, the high
  half and the carries in the words above. What would land above the top word is dropped.\<close>

definition mul_carry :: "nat \<Rightarrow> u64 list \<times> u64 \<times> u64 \<Rightarrow> u64 list \<times> u64 \<times> u64" where
  "mul_carry add_idx st =
     (let (res, hi, carry) = st;
          (s, carry) = add_with_carry (res ! add_idx) hi carry
      in (res[add_idx := s], 0, carry))"

definition mul_cell :: "nat \<Rightarrow> u64 \<Rightarrow> u64 \<Rightarrow> nat \<Rightarrow> u64 list \<Rightarrow> u64 list" where
  "mul_cell cnt lval rval base res =
     (let (tmp, hi) = multiply_with_carry lval rval;
          (s, carry) = add_with_carry (res ! base) tmp 0
      in fst (fold mul_carry [base + 1..<cnt] (res[base := s], hi, carry)))"

definition mul_words :: "nat \<Rightarrow> (nat \<Rightarrow> u64) \<Rightarrow> (nat \<Rightarrow> u64) \<Rightarrow> u64 list" where
  "mul_words cnt ls rs =
     fold (\<lambda>mul_a res.
         fold (\<lambda>mul_b res. mul_cell cnt (ls mul_a) (rs mul_b) (mul_a + mul_b) res) [0..<cnt - mul_a] res)
       [0..<cnt] (replicate cnt 0)"

lemma mul_words_cong:
  assumes "\<And>i. i < cnt \<Longrightarrow> ls i = ls' i" "\<And>i. i < cnt \<Longrightarrow> rs i = rs' i"
  shows "mul_words cnt ls rs = mul_words cnt ls' rs'"
proof -
  have "fold (\<lambda>b. mul_cell cnt (ls a) (rs b) (a + b)) [0..<cnt - a] res =
      fold (\<lambda>b. mul_cell cnt (ls' a) (rs' b) (a + b)) [0..<cnt - a] res" if "a < cnt" for a res
    using assms that by (intro fold_cong) auto
  then show ?thesis unfolding mul_words_def by (intro fold_cong) auto
qed

lemma mul_carry_val:
  assumes "m \<le> k" "k \<le> length res" "unat carry \<le> 1"
  shows "case fold mul_carry [m..<k] (res, hi, carry) of (res', hi', carry') \<Rightarrow>
    length res' = length res \<and> unat carry' \<le> 1 \<and>
    words_val res' + 2 ^ (64 * k) * (unat hi' + unat carry') =
    words_val res + 2 ^ (64 * m) * (unat hi + unat carry)"
  using assms
proof (induction k rule: dec_induct)
  case base
  then show ?case by simp
next
  case (step k)
  obtain r1 s1 c1 where st: "fold mul_carry [m..<k] (res, hi, carry) = (r1, s1, c1)" by (metis prod_cases3)
  with step have IH: "length r1 = length res" "unat c1 \<le> 1"
    "words_val r1 + 2 ^ (64 * k) * (unat s1 + unat c1) = words_val res + 2 ^ (64 * m) * (unat hi + unat carry)"
    by simp_all
  obtain s c2 where s: "add_with_carry (r1 ! k) s1 c1 = (s, c2)" by (meson surj_pair)
  note sum = add_with_carry_words[OF IH(2) s]
  have upd: "words_val (r1[k := s]) + 2 ^ (64 * k) * unat (r1 ! k) = words_val r1 + 2 ^ (64 * k) * unat s"
    using step IH(1) by (intro words_val_update) simp
  have "2 ^ (64 * k) * unat s + 2 ^ (64 * Suc k) * unat c2 =
      2 ^ (64 * k) * unat (r1 ! k) + 2 ^ (64 * k) * (unat s1 + unat c1)"
    using arg_cong[OF conjunct1[OF sum], of "\<lambda>x. 2 ^ (64 * k) * x"]
    by (simp add: power_add algebra_simps)
  with upd IH(3) have "words_val (r1[k := s]) + 2 ^ (64 * Suc k) * unat c2 =
      words_val res + 2 ^ (64 * m) * (unat hi + unat carry)"
    by linarith
  moreover have "fold mul_carry [m..<Suc k] (res, hi, carry) = (r1[k := s], 0, c2)"
    using st s step(1) by (simp add: mul_carry_def[of k])
  ultimately show ?case using IH(1) sum by simp
qed

lemma mul_cell_val:
  assumes "base < cnt" "length res = cnt"
  shows "length (mul_cell cnt lval rval base res) = cnt \<and>
    words_val (mul_cell cnt lval rval base res) mod 2 ^ (64 * cnt) =
    (words_val res + 2 ^ (64 * base) * (unat lval * unat rval)) mod 2 ^ (64 * cnt)"
proof -
  obtain tmp hi where m: "multiply_with_carry lval rval = (tmp, hi)" by (meson surj_pair)
  have product: "unat tmp + 2 ^ 64 * unat hi = unat lval * unat rval"
    using multiply_with_carry_full[of lval rval] m by simp
  obtain s c where s: "add_with_carry (res ! base) tmp 0 = (s, c)" by (meson surj_pair)
  have low: "unat s + 2 ^ 64 * unat c = unat (res ! base) + unat tmp" "unat c \<le> 1"
    using add_with_carry_words[OF _ s] by simp_all
  obtain r1 s1 c1 where st: "fold mul_carry [base + 1..<cnt] (res[base := s], hi, c) = (r1, s1, c1)"
    by (metis prod_cases3)
  have chain: "length r1 = cnt" "words_val r1 + 2 ^ (64 * cnt) * (unat s1 + unat c1) =
      words_val (res[base := s]) + 2 ^ (64 * Suc base) * (unat hi + unat c)"
    using mul_carry_val[of "base + 1" cnt "res[base := s]" c hi] assms st low(2) by simp_all
  have upd: "words_val (res[base := s]) + 2 ^ (64 * base) * unat (res ! base) =
      words_val res + 2 ^ (64 * base) * unat s"
    using assms by (intro words_val_update) simp
  have "2 ^ (64 * base) * unat s + 2 ^ (64 * Suc base) * (unat hi + unat c) =
      2 ^ (64 * base) * unat (res ! base) + 2 ^ (64 * base) * (unat lval * unat rval)"
    using arg_cong[OF low(1), of "\<lambda>x. 2 ^ (64 * base) * x"] arg_cong[OF product, of "\<lambda>x. 2 ^ (64 * base) * x"]
    by (simp add: power_add algebra_simps)
  with upd chain(2) have "words_val r1 + 2 ^ (64 * cnt) * (unat s1 + unat c1) =
      words_val res + 2 ^ (64 * base) * (unat lval * unat rval)"
    by linarith
  then have "words_val r1 mod 2 ^ (64 * cnt) = (words_val res + 2 ^ (64 * base) * (unat lval * unat rval)) mod 2 ^ (64 * cnt)"
    by (metis mod_mult_self2)
  moreover have "mul_cell cnt lval rval base res = r1"
    using m s st by (simp add: mul_cell_def)
  ultimately show ?thesis using chain(1) by simp
qed

lemma mul_row_val:
  fixes l :: u64
  assumes "a < cnt" "length res = cnt" "k \<le> cnt - a" "length bs = cnt"
  defines "row \<equiv> \<lambda>k. fold (\<lambda>b res. mul_cell cnt l (bs ! b) (a + b) res) [0..<k] res"
  shows "length (row k) = cnt \<and> words_val (row k) mod 2 ^ (64 * cnt) =
    (words_val res + 2 ^ (64 * a) * (unat l * words_val (take k bs))) mod 2 ^ (64 * cnt)"
  using assms(3)
proof (induction k)
  case 0
  then show ?case using assms(2) by (simp add: row_def)
next
  case (Suc k)
  let ?M = "2 ^ (64 * cnt) :: nat"
  have IH: "length (row k) = cnt" "words_val (row k) mod ?M =
      (words_val res + 2 ^ (64 * a) * (unat l * words_val (take k bs))) mod ?M"
    using Suc by simp_all
  have "row (Suc k) = mul_cell cnt l (bs ! k) (a + k) (row k)" by (simp add: row_def)
  then have "length (row (Suc k)) = cnt" "words_val (row (Suc k)) mod ?M =
      (words_val (row k) + 2 ^ (64 * (a + k)) * (unat l * unat (bs ! k))) mod ?M"
    using mul_cell_val[of "a + k" cnt "row k"] Suc.prems IH(1) by simp_all
  moreover have "words_val (take (Suc k) bs) = words_val (take k bs) + 2 ^ (64 * k) * unat (bs ! k)"
    using Suc.prems assms(4) by (intro words_val_take_Suc) simp
  then have "words_val res + 2 ^ (64 * a) * (unat l * words_val (take (Suc k) bs)) =
      words_val res + 2 ^ (64 * a) * (unat l * words_val (take k bs)) +
      2 ^ (64 * (a + k)) * (unat l * unat (bs ! k))"
    by (simp add: power_add algebra_simps)
  ultimately show ?case using mod_add_cong[OF IH(2) refl] by (simp add: add.assoc)
qed

lemma mul_row_full:
  assumes "a < cnt" "length bs = cnt"
  shows "2 ^ (64 * a) * (l * words_val (take (cnt - a) bs)) mod 2 ^ (64 * cnt) =
    2 ^ (64 * a) * (l * words_val bs) mod 2 ^ (64 * cnt)"
proof -
  have "words_val bs = words_val (take (cnt - a) bs) + 2 ^ (64 * (cnt - a)) * words_val (drop (cnt - a) bs)"
    using words_val_append[of "take (cnt - a) bs" "drop (cnt - a) bs"] assms(2) by simp
  moreover have "(2 :: nat) ^ (64 * a) * 2 ^ (64 * (cnt - a)) = 2 ^ (64 * cnt)"
    using assms(1) by (simp flip: power_add add: algebra_simps)
  ultimately have "2 ^ (64 * a) * (l * words_val bs) =
      2 ^ (64 * a) * (l * words_val (take (cnt - a) bs)) + 2 ^ (64 * cnt) * (l * words_val (drop (cnt - a) bs))"
    by (simp add: algebra_simps)
  then show ?thesis by simp
qed

lemma mul_words_val:
  assumes "length as = cnt" "length bs = cnt"
  shows "length (mul_words cnt ((!) as) ((!) bs)) = cnt \<and>
    words_val (mul_words cnt ((!) as) ((!) bs)) mod 2 ^ (64 * cnt) =
    (words_val as * words_val bs) mod 2 ^ (64 * cnt)"
proof -
  let ?M = "2 ^ (64 * cnt) :: nat"
  define rows where "rows k = fold (\<lambda>a res. fold (\<lambda>b res. mul_cell cnt (as ! a) (bs ! b) (a + b) res) [0..<cnt - a] res)
      [0..<k] (replicate cnt 0)" for k
  have "k \<le> cnt \<Longrightarrow> length (rows k) = cnt \<and>
      words_val (rows k) mod ?M = (words_val (take k as) * words_val bs) mod ?M" for k
  proof (induction k)
    case 0
    then show ?case by (simp add: rows_def)
  next
    case (Suc k)
    then have IH: "length (rows k) = cnt" "words_val (rows k) mod ?M = words_val (take k as) * words_val bs mod ?M"
      by simp_all
    have row: "rows (Suc k) = fold (\<lambda>b res. mul_cell cnt (as ! k) (bs ! b) (k + b) res) [0..<cnt - k] (rows k)"
      by (simp add: rows_def)
    have "length (rows (Suc k)) = cnt \<and> words_val (rows (Suc k)) mod ?M =
        (words_val (rows k) + 2 ^ (64 * k) * (unat (as ! k) * words_val (take (cnt - k) bs))) mod ?M"
      unfolding row by (rule mul_row_val) (use Suc.prems IH assms in auto)
    moreover have "words_val (take (Suc k) as) * words_val bs =
        words_val (take k as) * words_val bs + 2 ^ (64 * k) * (unat (as ! k) * words_val bs)"
      using Suc.prems assms by (simp add: words_val_take_Suc algebra_simps)
    moreover have "2 ^ (64 * k) * (unat (as ! k) * words_val (take (cnt - k) bs)) mod ?M =
        2 ^ (64 * k) * (unat (as ! k) * words_val bs) mod ?M"
      using Suc.prems assms(2) by (intro mul_row_full) simp_all
    ultimately show ?case using mod_add_cong[OF IH(2)] mod_add_cong[OF refl] by metis
  qed
  from this[of cnt] show ?thesis using assms(1) by (simp add: rows_def mul_words_def)
qed

end
