(* ===== verification/Vector4_Arith.thy ===== *)
theory Vector4_Arith
  imports Word_Array
begin

text \<open>
  Verilog arithmetic on \<^verbatim>\<open>vvp_vector4_t\<close> (\<^verbatim>\<open>vvp_net.cc\<close>): \<^verbatim>\<open>add\<close>, \<^verbatim>\<open>sub\<close>, \<^verbatim>\<open>mul\<close>.
  Any X or Z bit in an operand makes
  the whole result X; otherwise the result is the integer operation modulo two to the width. The
  abstract side is \<open>lift_int4\<close>, an operation on integers lifted to bit lists.
\<close>

section \<open>Vectors as numbers\<close>

definition bits_num :: "vvp_bit4_t list \<Rightarrow> int" where
  "bits_num bs = horner_sum of_bool 2 (map (\<lambda>b. b = BIT4_1) bs)"

definition num_bits :: "nat \<Rightarrow> int \<Rightarrow> vvp_bit4_t list" where
  "num_bits n k = map (\<lambda>i. if bit k i then BIT4_1 else BIT4_0) [0..<n]"

definition lift_int4 :: "nat \<Rightarrow> (int \<Rightarrow> int \<Rightarrow> int) \<Rightarrow> vvp_bit4_t list \<Rightarrow> vvp_bit4_t list \<Rightarrow> vvp_bit4_t list" where
  "lift_int4 n f xs ys =
     (if list_ex bit4_is_xz (xs @ ys) then replicate n BIT4_X else num_bits n (f (bits_num xs) (bits_num ys)))"

section \<open>Operations\<close>

text \<open>The \<^verbatim>\<open>x_out\<close> label: every word becomes X, the last one up to the size.\<close>

definition vec4_x_out :: "vvp_vector4_t \<Rightarrow> vvp_vector4_t" where
  "vec4_x_out v =
     (let cnt = vec_size v div 64;
          tail = vec_size v mod 64;
          as = update_cells (\<lambda>_ _. WORD_ABITS BIT4_X) [0..<cnt] (abits v);
          bs = update_cells (\<lambda>_ _. WORD_BBITS BIT4_X) [0..<cnt] (bbits v)
      in if 0 < tail
         then let msk = NOT (shl (- 1) tail)
              in v\<lparr>abits := as[cnt := WORD_ABITS BIT4_X AND msk], bbits := bs[cnt := WORD_BBITS BIT4_X AND msk]\<rparr>
         else v\<lparr>abits := as, bbits := bs\<rparr>)"

text \<open>The short and the long form of \<^verbatim>\<open>add\<close> and \<^verbatim>\<open>sub\<close>. The long form stops with \<^verbatim>\<open>None\<close> where the code
  jumps to \<^verbatim>\<open>x_out\<close>, which overwrites all words that the loop has changed.\<close>

definition vec4_word_op :: "(u64 \<Rightarrow> u64 \<Rightarrow> u64) \<Rightarrow> vvp_vector4_t \<Rightarrow> vvp_vector4_t \<Rightarrow> vvp_vector4_t" where
  "vec4_word_op f v that =
     (if vec_size v < 64
      then let msk = NOT (shl (- 1) (vec_size v))
           in if (bbits v ! 0 OR bbits that ! 0) AND msk \<noteq> 0
              then v\<lparr>abits := (abits v)[0 := abits v ! 0 OR msk], bbits := (bbits v)[0 := bbits v ! 0 OR msk]\<rparr>
              else v\<lparr>abits := (abits v)[0 := f (abits v ! 0) (abits that ! 0) AND msk]\<rparr>
      else if bbits v ! 0 OR bbits that ! 0 \<noteq> 0
      then v\<lparr>abits := (abits v)[0 := WORD_ABITS BIT4_X], bbits := (bbits v)[0 := WORD_BBITS BIT4_X]\<rparr>
      else v\<lparr>abits := (abits v)[0 := f (abits v ! 0) (abits that ! 0)]\<rparr>)"

definition vec4_carry_op :: "(u64 \<Rightarrow> u64) \<Rightarrow> u64 \<Rightarrow> vvp_vector4_t \<Rightarrow> vvp_vector4_t \<Rightarrow> u64 list option" where
  "vec4_carry_op f carry v that =
     (let cnt = vec_size v div 64; tail = vec_size v mod 64
      in case foldM (\<lambda>idx st. if bbits v ! idx OR bbits that ! idx \<noteq> 0 then None
                              else Some (add_word f (abits that) idx st)) [0..<cnt] (abits v, carry) of
           None \<Rightarrow> None
         | Some st \<Rightarrow>
             if 0 < tail
             then let msk = NOT (shl (- 1) tail)
                  in if (bbits v ! cnt OR bbits that ! cnt) AND msk \<noteq> 0 then None
                     else let as = fst (add_word f (abits that) cnt st) in Some (as[cnt := as ! cnt AND msk])
             else Some (fst st))"

definition vec4_add :: "vvp_vector4_t \<Rightarrow> vvp_vector4_t \<Rightarrow> vvp_vector4_t option" where
  "vec4_add v that =
     (if vec_size v \<noteq> vec_size that then None
      else if vec_size v \<le> 64 then Some (vec4_word_op (+) v that)
      else case vec4_carry_op (\<lambda>w. w) 0 v that of
             None \<Rightarrow> Some (vec4_x_out v)
           | Some as \<Rightarrow> Some (v\<lparr>abits := as\<rparr>))"

definition vec4_sub :: "vvp_vector4_t \<Rightarrow> vvp_vector4_t \<Rightarrow> vvp_vector4_t option" where
  "vec4_sub v that =
     (if vec_size v \<noteq> vec_size that then None
      else if vec_size v \<le> 64 then Some (vec4_word_op (-) v that)
      else case vec4_carry_op (\<lambda>w. NOT w) 1 v that of
             None \<Rightarrow> Some (vec4_x_out v)
           | Some as \<Rightarrow> Some (v\<lparr>abits := as\<rparr>))"

definition last_masked :: "nat \<Rightarrow> u64 \<Rightarrow> u64 list \<Rightarrow> nat \<Rightarrow> u64" where
  "last_masked cnt msk ws idx = (if idx = cnt - 1 then ws ! idx AND msk else ws ! idx)"

definition vec4_mul :: "vvp_vector4_t \<Rightarrow> vvp_vector4_t \<Rightarrow> vvp_vector4_t option" where
  "vec4_mul v that =
     (if vec_size v \<noteq> vec_size that then None
      else if vec_size v \<le> 64 then Some (vec4_word_op (*) v that)
      else
        let cnt = (vec_size v + 63) div 64;
            tail = vec_size v mod 64;
            msk = (if 0 < tail then NOT (shl (- 1) tail) else NOT 0)
        in if list_ex (\<lambda>idx. last_masked cnt msk (bbits v) idx \<noteq> 0 \<or> last_masked cnt msk (bbits that) idx \<noteq> 0) [0..<cnt]
           then Some (v\<lparr>abits := (update_cells (\<lambda>_ _. WORD_ABITS BIT4_X) [0..<cnt - 1] (abits v))
                          [cnt - 1 := WORD_ABITS BIT4_X AND msk],
                        bbits := (update_cells (\<lambda>_ _. WORD_BBITS BIT4_X) [0..<cnt - 1] (bbits v))
                          [cnt - 1 := WORD_BBITS BIT4_X AND msk]\<rparr>)
           else
             let res = mul_words cnt (last_masked cnt msk (abits v)) (last_masked cnt msk (abits that));
                 res = res[cnt - 1 := res ! (cnt - 1) AND msk]
             in Some (v\<lparr>abits := update_cells (\<lambda>idx _. res ! idx) [0..<cnt] (abits v)\<rparr>))"

section \<open>Reading a result\<close>

lemma bit_bits_num: "bit (bits_num bs) i \<longleftrightarrow> i < length bs \<and> bs ! i = BIT4_1"
  by (auto simp: bits_num_def bit_horner_sum_bit_iff)

lemma length_num_bits [simp]: "length (num_bits n k) = n"
  by (simp add: num_bits_def)

lemma nth_num_bits [simp]: "i < n \<Longrightarrow> num_bits n k ! i = (if bit k i then BIT4_1 else BIT4_0)"
  by (simp add: num_bits_def)

lemma num_bits_cong: "take_bit n k = take_bit n l \<Longrightarrow> num_bits n k = num_bits n l"
  by (auto simp: num_bits_def) (metis bit_take_bit_iff)+

lemma list_ex_xz_iff:
  "list_ex bit4_is_xz (vec4_bits v) \<longleftrightarrow> (\<exists>i<vec_size v. plane_bit (bbits v) i)"
  by (auto simp: list_ex_iff vec4_bits_def vec4_value_planes)

lemma bits_num_known:
  assumes "vec4_wf v" "\<not> list_ex bit4_is_xz (vec4_bits v)"
  shows "bits_num (vec4_bits v) = take_bit (vec_size v) (int (words_val (abits v)))"
proof (rule bit_eqI)
  fix i
  have "i < vec_size v \<Longrightarrow> i < 64 * length (abits v)"
    using assms(1) div_less_nwords[of i "vec_size v"] by (auto simp: vec4_wf_def)
  then show "bit (bits_num (vec4_bits v)) i = bit (take_bit (vec_size v) (int (words_val (abits v)))) i"
    using assms(2)
    by (auto simp: bit_bits_num bit_take_bit_iff bit_of_nat_iff_bit bit_words_val_plane list_ex_xz_iff
        vec4_value_planes bit4_ab_def split: if_splits)
qed

text \<open>What makes a vector the value of an operation: its B plane is clear and its A plane is the
  number, or all its bits are X.\<close>

lemma vec4_bits_num:
  assumes "vec4_wf r" "vec_size r = n" "\<And>i. i < n \<Longrightarrow> \<not> plane_bit (bbits r) i"
    and "take_bit n (int (words_val (abits r))) = take_bit n k"
  shows "vec4_bits r = num_bits n k"
proof -
  have "plane_bit (abits r) i = bit k i" if "i < n" for i
  proof -
    have "i < 64 * length (abits r)"
      using assms(1,2) that div_less_nwords[of i n] by (auto simp: vec4_wf_def)
    then have "plane_bit (abits r) i = bit (int (words_val (abits r))) i"
      by (simp add: bit_of_nat_iff_bit bit_words_val_plane)
    then show ?thesis using assms(4) that by (metis bit_take_bit_iff)
  qed
  then show ?thesis
    using assms by (auto simp: list_eq_iff_nth_eq vec4_value_planes bit4_ab_def)
qed

lemma vec4_bits_x:
  assumes "vec_size r = n" "\<And>i. i < n \<Longrightarrow> plane_bit (abits r) i \<and> plane_bit (bbits r) i"
  shows "vec4_bits r = replicate n BIT4_X"
  using assms by (auto simp: list_eq_iff_nth_eq vec4_value_planes bit4_ab_def)


text \<open>An operation of the machine that is an operation of the integers modulo every power of two.\<close>

locale ring_op =
  fixes f :: "u64 \<Rightarrow> u64 \<Rightarrow> u64" and F :: "int \<Rightarrow> int \<Rightarrow> int"
  assumes word: "take_bit 64 (uint (f a b)) = take_bit 64 (F (uint a) (uint b))"
    and low: "take_bit n (F (take_bit n x) (take_bit n y)) = take_bit n (F x y)"
begin

lemma lift_known:
  assumes wf: "vec4_wf u" "vec4_wf v" "vec4_wf r"
    and n: "vec_size u = n" "vec_size v = n" "vec_size r = n"
    and known: "\<And>i. i < n \<Longrightarrow> \<not> plane_bit (bbits u) i \<and> \<not> plane_bit (bbits v) i \<and> \<not> plane_bit (bbits r) i"
    and val: "take_bit n (int (words_val (abits r))) =
      take_bit n (F (int (words_val (abits u))) (int (words_val (abits v))))"
  shows "vec4_bits r = lift_int4 n F (vec4_bits u) (vec4_bits v)"
proof -
  have "\<not> list_ex bit4_is_xz (vec4_bits u)" "\<not> list_ex bit4_is_xz (vec4_bits v)"
    using known n by (auto simp: list_ex_xz_iff)
  then have "lift_int4 n F (vec4_bits u) (vec4_bits v) =
      num_bits n (F (take_bit n (int (words_val (abits u)))) (take_bit n (int (words_val (abits v)))))"
    using wf n by (simp add: lift_int4_def bits_num_known)
  also have "\<dots> = num_bits n (F (int (words_val (abits u))) (int (words_val (abits v))))"
    by (rule num_bits_cong) (rule low)
  also have "\<dots> = vec4_bits r"
    using wf(3) n(3) known val by (intro vec4_bits_num[symmetric]) auto
  finally show ?thesis by (rule sym)
qed

lemma lift_unknown:
  assumes "vec_size u = n" "vec_size v = n" "vec_size r = n"
    and "i < n" "plane_bit (bbits u) i \<or> plane_bit (bbits v) i"
    and "\<And>i. i < n \<Longrightarrow> plane_bit (abits r) i \<and> plane_bit (bbits r) i"
  shows "vec4_bits r = lift_int4 n F (vec4_bits u) (vec4_bits v)"
proof -
  have "list_ex bit4_is_xz (vec4_bits u @ vec4_bits v)"
    using assms(1,2,4,5) by (auto simp: list_ex_xz_iff)
  then show ?thesis using vec4_bits_x[OF assms(3,6)] by (simp add: lift_int4_def)
qed

lemma word_op_bits:
  assumes wf: "vec4_wf u" "vec4_wf v" and n: "vec_size u = vec_size v" "vec_size u \<le> 64"
  shows "vec4_wf (vec4_word_op f u v) \<and> vec_size (vec4_word_op f u v) = vec_size u \<and>
    vec4_bits (vec4_word_op f u v) = lift_int4 (vec_size u) F (vec4_bits u) (vec4_bits v)"
proof -
  let ?n = "vec_size u" and ?r = "vec4_word_op f u v"
  define msk :: u64 where "msk = (if ?n < 64 then NOT (shl (- 1) ?n) else - 1)"
  have msk: "bit msk i \<longleftrightarrow> i < ?n" if "i < 64" for i
    using that n(2) by (auto simp: msk_def not_shl_minus_1 bit_mask_iff bit_minus_1_iff)
  obtain a b c d where uv: "abits u = [a]" "bbits u = [b]" "abits v = [c]" "bbits v = [d]"
    using wf n by (auto simp: vec4_wf_def length_Suc_conv)
  have r: "?r = (if (b OR d) AND msk \<noteq> 0 then u\<lparr>abits := [a OR msk], bbits := [b OR msk]\<rparr>
      else u\<lparr>abits := [f a c AND msk]\<rparr>)"
  proof -
    have "a OR - 1 = - 1" "b OR - 1 = - 1" by (simp_all add: u64_eq_iff bit_or_iff bit_minus_1_iff)
    then show ?thesis
      using n by (auto simp: vec4_word_op_def msk_def uv Let_def WORD_ABITS_def WORD_BBITS_def)
  qed
  have small: "i div 64 = 0" "i mod 64 = i" "i < 64" if "i < ?n" for i using that n(2) by simp_all
  have wf_r: "vec4_wf ?r" "vec_size ?r = ?n" using wf n by (simp_all add: r vec4_wf_def)
  have xz: "(b OR d) AND msk \<noteq> 0 \<longleftrightarrow> (\<exists>i<?n. plane_bit (bbits u) i \<or> plane_bit (bbits v) i)"
  proof -
    have "(b OR d) AND msk \<noteq> 0 \<longleftrightarrow> (\<exists>i<64. i < ?n \<and> (bit b i \<or> bit d i))"
      using msk by (auto simp: u64_zero_iff bit_and_iff bit_or_iff)
    then show ?thesis using small by (auto simp: plane_bit_def uv)
  qed
  show ?thesis
  proof (cases "(b OR d) AND msk \<noteq> 0")
    case True
    then obtain i where i: "i < ?n" "plane_bit (bbits u) i \<or> plane_bit (bbits v) i" using xz by auto
    have "vec4_bits ?r = lift_int4 ?n F (vec4_bits u) (vec4_bits v)"
      by (rule lift_unknown[OF _ _ _ i])
        (use True n small msk in \<open>auto simp: r plane_bit_def bit_or_iff\<close>)
    then show ?thesis using wf_r by simp
  next
    case False
    have "take_bit ?n (int (unat (f a c AND msk))) = take_bit ?n (uint (f a c))"
      using msk small by (intro bit_eqI) (auto simp: bit_take_bit_iff bit_of_nat_iff_bit bit_unat_u64 bit_and_iff bit_uint_iff)
    also have "\<dots> = take_bit ?n (F (uint a) (uint c))"
    proof -
      have "take_bit ?n (take_bit 64 (uint (f a c))) = take_bit ?n (take_bit 64 (F (uint a) (uint c)))"
        by (simp only: word)
      then show ?thesis using n(2) by (simp add: min_def)
    qed
    finally have "vec4_bits ?r = lift_int4 ?n F (vec4_bits u) (vec4_bits v)"
      using False xz wf wf_r n by (intro lift_known) (auto simp: r uv)
    then show ?thesis using wf_r by simp
  qed
qed

end

interpretation add_op: ring_op "(+)" "(+)"
  by unfold_locales (simp_all add: uint_word_ariths take_bit_eq_mod mod_simps)

interpretation sub_op: ring_op "(-)" "(-)"
  by unfold_locales (simp_all add: uint_word_ariths take_bit_eq_mod mod_simps)

interpretation mul_op: ring_op "(*)" "(*)"
  by unfold_locales (simp_all add: uint_word_ariths take_bit_eq_mod mod_simps)


section \<open>Long vectors\<close>

lemma take_bit_mod_cong:
  assumes "(m :: nat) = n + d" "x mod 2 ^ m = y mod 2 ^ m"
  shows "take_bit n x = take_bit n (y :: nat)"
proof -
  have "x mod 2 ^ m mod 2 ^ n = y mod 2 ^ m mod 2 ^ n" using assms(2) by simp
  then show ?thesis by (simp add: take_bit_eq_mod assms(1) power_add mod_mod_cancel)
qed

lemma foldM_guard:
  "foldM (\<lambda>i st. if P i then None else Some (g i st)) is s = (if list_ex P is then None else Some (fold g is s))"
  by (induction "is" arbitrary: s) auto

lemma bit_not_shl: "j < 64 \<Longrightarrow> bit (NOT (shl (- 1) t) :: u64) j \<longleftrightarrow> t mod 64 = 0 \<and> False \<or> j < t mod 64"
  by (auto simp: bit_not_iff bit_shl bit_minus_1_iff)

lemma plane_zero_long:
  assumes "64 < n"
  shows "(list_ex (\<lambda>i. x i \<noteq> 0) [0..<n div 64] \<or> 0 < n mod 64 \<and> x (n div 64) AND NOT (shl (- 1) (n mod 64)) \<noteq> (0 :: u64))
    \<longleftrightarrow> (\<exists>i<n. bit (x (i div 64)) (i mod 64))"
  using agree_long[of x "\<lambda>_. 0" n]
  by (auto simp: list_all_iff list_ex_iff shl_1_minus_1 not_shl_minus_1)

lemma nwords_bits: "n \<le> 64 * nwords n"
  using mult_div_mod_eq[of 64 n] by (cases "64 < n") (auto simp: word_count_tail)

lemma carry_op_none:
  assumes "64 < vec_size u"
  shows "vec4_carry_op f c u v = None \<longleftrightarrow> (\<exists>i<vec_size u. plane_bit (bbits u) i \<or> plane_bit (bbits v) i)"
  using plane_zero_long[OF assms, of "\<lambda>i. bbits u ! i OR bbits v ! i"]
  by (auto simp: vec4_carry_op_def Let_def foldM_guard plane_bit_def bit_or_iff split: if_splits)

lemma take_bit_plane:
  assumes "length xs = nwords n" "length ys = nwords n" "\<And>i. i < n \<Longrightarrow> plane_bit xs i = plane_bit ys i"
  shows "take_bit n (words_val xs) = take_bit n (words_val ys)"
proof (rule bit_eqI)
  fix i
  have "i < n \<Longrightarrow> i < 64 * nwords n"
    using div_less_nwords[of i n] by (simp add: div_less_iff_less_mult mult.commute)
  then show "bit (take_bit n (words_val xs)) i = bit (take_bit n (words_val ys)) i"
    using assms by (auto simp: bit_take_bit_iff bit_words_val_plane)
qed

lemma take_bit_tail_mask:
  assumes "length as = nwords n" "64 < n"
  shows "take_bit n (words_val (if 0 < n mod 64 then as[n div 64 := as ! (n div 64) AND NOT (shl (- 1) (n mod 64))] else as)) =
    take_bit n (words_val as)"
proof (rule take_bit_plane)
  fix i assume "i < n"
  then show "plane_bit (if 0 < n mod 64 then as[n div 64 := as ! (n div 64) AND NOT (shl (- 1) (n mod 64))] else as) i = plane_bit as i"
  proof (cases rule: tail_cases)
    case 1
    then show ?thesis by (simp add: plane_bit_def)
  next
    case 2
    moreover have "n div 64 < length as" using assms 2 by (simp add: word_count_tail)
    ultimately show ?thesis
      by (simp add: plane_bit_def bit_and_iff not_shl_minus_1 bit_mask_iff)
  qed
qed (use assms in auto)

lemma carry_op_some:
  assumes wf: "vec4_wf u" "vec4_wf v" and n: "vec_size u = n" "vec_size v = n" "64 < n" and c: "unat c \<le> 1"
    and as: "vec4_carry_op f c u v = Some as"
  shows "length as = nwords n \<and>
    take_bit n (words_val as) = take_bit n (words_val (abits u) + words_val (map f (abits v)) + unat c)"
proof -
  let ?k = "nwords n"
  have len: "length (abits u) = ?k" "length (abits v) = ?k" using wf n by (simp_all add: vec4_wf_def)
  define ys where "ys = fst (fold (add_word f (abits v)) [0..<?k] (abits u, c))"
  have fold_k: "ys = fst (if 0 < n mod 64
      then add_word f (abits v) (n div 64) (fold (add_word f (abits v)) [0..<n div 64] (abits u, c))
      else fold (add_word f (abits v)) [0..<n div 64] (abits u, c))"
    using n(3) by (simp add: ys_def word_count_tail)
  have "length ys = ?k" and
    val: "words_val ys + 2 ^ (64 * ?k) * unat (snd (fold (add_word f (abits v)) [0..<?k] (abits u, c))) =
      words_val (abits u) + words_val (map f (abits v)) + unat c"
    using add_words_val[of ?k "abits u" "abits v" c f] len c by (auto simp: ys_def)
  obtain d where d: "64 * ?k = n + d" using nwords_bits[of n] le_iff_add by auto
  have code: "as = (if 0 < n mod 64 then ys[n div 64 := ys ! (n div 64) AND NOT (shl (- 1) (n mod 64))] else ys)"
    using as n by (auto simp: vec4_carry_op_def Let_def foldM_guard fold_k split: if_splits)
  have "take_bit n (words_val as) = take_bit n (words_val ys)"
    unfolding code using \<open>length ys = ?k\<close> n(3) by (rule take_bit_tail_mask)
  also have "\<dots> = take_bit n (words_val (abits u) + words_val (map f (abits v)) + unat c)"
    using val[symmetric] by (simp add: take_bit_eq_mod d power_add mult.assoc)
  finally show ?thesis using \<open>length ys = ?k\<close> by (simp add: code)
qed

lemma x_out_planes:
  assumes "vec4_wf v" "64 < vec_size v"
  shows "vec4_wf (vec4_x_out v) \<and> vec_size (vec4_x_out v) = vec_size v \<and>
    (\<forall>i<vec_size v. plane_bit (abits (vec4_x_out v)) i \<and> plane_bit (bbits (vec4_x_out v)) i)"
proof -
  have len: "length (abits v) = word_count (vec_size v)" "length (bbits v) = word_count (vec_size v)"
    using assms by (simp_all add: vec4_wf_def)
  have "plane_bit (abits (vec4_x_out v)) i \<and> plane_bit (bbits (vec4_x_out v)) i" if "i < vec_size v" for i
    using that
  proof (cases rule: tail_cases)
    case 1
    moreover have "i div 64 < word_count (vec_size v)" using that by (rule div_less_word_count)
    ultimately show ?thesis
      using len by (simp add: vec4_x_out_def Let_def plane_bit_def nth_update_cells WORD_ABITS_def
          WORD_BBITS_def bit_minus_1_iff)
  next
    case 2
    then show ?thesis
      using len by (simp add: vec4_x_out_def Let_def plane_bit_def WORD_ABITS_def WORD_BBITS_def
          word_count_tail not_shl_minus_1 bit_mask_iff)
  qed
  then show ?thesis using len assms by (simp add: vec4_x_out_def Let_def vec4_wf_def)
qed


text \<open>The vector that \<^verbatim>\<open>add\<close> and \<^verbatim>\<open>sub\<close> leave for long operands.\<close>

context ring_op
begin

lemma carry_op_bits:
  assumes wf: "vec4_wf u" "vec4_wf v" and n: "vec_size u = vec_size v" "64 < vec_size u" and c: "unat c \<le> 1"
    and F: "\<And>ws. length ws = nwords (vec_size u) \<Longrightarrow>
      take_bit (vec_size u) (int (words_val (abits u) + words_val (map g ws) + unat c)) =
      take_bit (vec_size u) (F (int (words_val (abits u))) (int (words_val ws)))"
    and r: "r = (case vec4_carry_op g c u v of None \<Rightarrow> vec4_x_out u | Some as \<Rightarrow> u\<lparr>abits := as\<rparr>)"
  shows "vec4_wf r \<and> vec_size r = vec_size u \<and> vec4_bits r = lift_int4 (vec_size u) F (vec4_bits u) (vec4_bits v)"
proof (cases "vec4_carry_op g c u v")
  case None
  then obtain i where i: "i < vec_size u" "plane_bit (bbits u) i \<or> plane_bit (bbits v) i"
    using carry_op_none[OF n(2), of g c v] by auto
  note x = x_out_planes[OF wf(1) n(2)]
  have "vec4_bits (vec4_x_out u) = lift_int4 (vec_size u) F (vec4_bits u) (vec4_bits v)"
    by (rule lift_unknown[OF _ _ _ i]) (use n x in auto)
  then show ?thesis using x None r by simp
next
  case (Some as)
  have known: "\<not> plane_bit (bbits u) i \<and> \<not> plane_bit (bbits v) i" if "i < vec_size u" for i
    using carry_op_none[OF n(2), of g c v] Some that by auto
  note val = carry_op_some[OF wf refl n(1)[symmetric] n(2) c Some]
  have wf_r: "vec4_wf r" "vec_size r = vec_size u" using wf val Some by (simp_all add: r vec4_wf_def)
  have "take_bit (vec_size u) (int (words_val as)) =
      take_bit (vec_size u) (F (int (words_val (abits u))) (int (words_val (abits v))))"
    using arg_cong[OF conjunct2[OF val], of int] F[of "abits v"] wf(2) n(1)
    by (simp add: vec4_wf_def flip: take_bit_of_nat del: of_nat_add)
  then have "vec4_bits r = lift_int4 (vec_size u) F (vec4_bits u) (vec4_bits v)"
    using wf wf_r n known Some by (intro lift_known) (auto simp: r)
  then show ?thesis using wf_r by simp
qed

end

lemma sub_carry_words:
  assumes "length ws = nwords n" "64 < n"
  shows "take_bit n (int (A + words_val (map (\<lambda>w. NOT w) ws) + 1)) = take_bit n (int A - int (words_val ws))"
proof -
  obtain d where d: "64 * nwords n = n + d" using nwords_bits[of n] le_iff_add by auto
  have "int (words_val (map (\<lambda>w. NOT w) ws)) + int (words_val ws) + 1 = 2 ^ n * 2 ^ d"
    using arg_cong[OF words_val_not[of ws], of int] assms d by (simp add: power_add)
  then have "int (A + words_val (map (\<lambda>w. NOT w) ws) + 1) = int A - int (words_val ws) + 2 ^ n * 2 ^ d"
    by simp
  then show ?thesis by (simp only: take_bit_eq_mod mod_mult_self2)
qed

section \<open>The arithmetic operators\<close>

lemma vec4_add_bits:
  assumes "vec4_wf u" "vec4_wf v" "vec_size u = vec_size v"
  shows "\<exists>r. vec4_add u v = Some r \<and> vec4_wf r \<and> vec_size r = vec_size u \<and>
    vec4_bits r = lift_int4 (vec_size u) (+) (vec4_bits u) (vec4_bits v)"
proof (cases "vec_size u \<le> 64")
  case True
  then show ?thesis using assms add_op.word_op_bits[of u v] by (simp add: vec4_add_def)
next
  case False
  have "vec4_wf r \<and> vec_size r = vec_size u \<and> vec4_bits r = lift_int4 (vec_size u) (+) (vec4_bits u) (vec4_bits v)"
    if "r = (case vec4_carry_op (\<lambda>w. w) 0 u v of None \<Rightarrow> vec4_x_out u | Some as \<Rightarrow> u\<lparr>abits := as\<rparr>)" for r
    by (rule add_op.carry_op_bits[OF assms _ _ _ that]) (use False in auto)
  then show ?thesis using False assms(3) by (auto simp: vec4_add_def split: option.splits)
qed

lemma vec4_sub_bits:
  assumes "vec4_wf u" "vec4_wf v" "vec_size u = vec_size v"
  shows "\<exists>r. vec4_sub u v = Some r \<and> vec4_wf r \<and> vec_size r = vec_size u \<and>
    vec4_bits r = lift_int4 (vec_size u) (-) (vec4_bits u) (vec4_bits v)"
proof (cases "vec_size u \<le> 64")
  case True
  then show ?thesis using assms sub_op.word_op_bits[of u v] by (simp add: vec4_sub_def)
next
  case False
  have "vec4_wf r \<and> vec_size r = vec_size u \<and> vec4_bits r = lift_int4 (vec_size u) (-) (vec4_bits u) (vec4_bits v)"
    if "r = (case vec4_carry_op (\<lambda>w. NOT w) 1 u v of None \<Rightarrow> vec4_x_out u | Some as \<Rightarrow> u\<lparr>abits := as\<rparr>)" for r
    by (rule sub_op.carry_op_bits[OF assms _ _ _ that]) (use False sub_carry_words in auto)
  then show ?thesis using False assms(3) by (auto simp: vec4_sub_def split: option.splits)
qed

section \<open>Multiplication of long vectors\<close>

lemma mul_mask_planes:
  assumes "64 < n" "length ws = nwords n"
  defines "cnt \<equiv> (n + 63) div 64"
    and "msk \<equiv> (if 0 < n mod 64 then NOT (shl (- 1) (n mod 64)) else NOT 0)"
  shows "\<And>i. i < n \<Longrightarrow> plane_bit (map (last_masked cnt msk ws) [0..<cnt]) i = plane_bit ws i"
    and "\<And>idx. idx < cnt \<Longrightarrow> last_masked cnt msk ws idx = 0 \<longleftrightarrow> (\<forall>i<n. i div 64 = idx \<longrightarrow> \<not> plane_bit ws i)"
proof -
  have last: "bit (last_masked cnt msk ws (i div 64)) (i mod 64) \<longleftrightarrow> i < n \<and> plane_bit ws i" if "i div 64 < cnt" for i
  proof -
    have "i < n \<longleftrightarrow> i div 64 < n div 64 \<or> i div 64 = n div 64 \<and> i mod 64 < n mod 64"
      using mult_div_mod_eq[of 64 i] mult_div_mod_eq[of 64 n] div_le_mono[of i n 64] by linarith
    then show ?thesis
      using that by (auto simp: last_masked_def cnt_def msk_def plane_bit_def bit_and_iff
          not_shl_minus_1 bit_mask_iff word_count_tail bit_minus_1_iff split: if_splits)
  qed
  show "plane_bit (map (last_masked cnt msk ws) [0..<cnt]) i = plane_bit ws i" if "i < n" for i
    using last[of i] that div_less_word_count[OF that] by (simp add: plane_bit_def cnt_def)
  show "last_masked cnt msk ws idx = 0 \<longleftrightarrow> (\<forall>i<n. i div 64 = idx \<longrightarrow> \<not> plane_bit ws i)" if "idx < cnt" for idx
  proof -
    have "bit (last_masked cnt msk ws idx) j \<longleftrightarrow> 64 * idx + j < n \<and> plane_bit ws (64 * idx + j)" if "j < 64" for j
      using last[of "64 * idx + j"] that \<open>idx < cnt\<close> by simp
    then show ?thesis
      by (auto simp: u64_zero_iff) (metis mult_div_mod_eq mod_less_divisor zero_less_numeral)
  qed
qed


lemma vec4_mul_bits:
  assumes "vec4_wf u" "vec4_wf v" "vec_size u = vec_size v"
  shows "\<exists>r. vec4_mul u v = Some r \<and> vec4_wf r \<and> vec_size r = vec_size u \<and>
    vec4_bits r = lift_int4 (vec_size u) (*) (vec4_bits u) (vec4_bits v)"
proof (cases "vec_size u \<le> 64")
  case True
  then show ?thesis using assms mul_op.word_op_bits[of u v] by (simp add: vec4_mul_def)
next
  case False
  define n where "n = vec_size u"
  define cnt where "cnt = (n + 63) div 64"
  define msk :: u64 where "msk = (if 0 < n mod 64 then NOT (shl (- 1) (n mod 64)) else NOT 0)"
  define xz where "xz \<longleftrightarrow> list_ex (\<lambda>idx. last_masked cnt msk (bbits u) idx \<noteq> 0 \<or> last_masked cnt msk (bbits v) idx \<noteq> 0) [0..<cnt]"
  define res where "res = mul_words cnt (last_masked cnt msk (abits u)) (last_masked cnt msk (abits v))"
  have n: "64 < n" "vec_size u = n" "vec_size v = n" using False assms(3) by (simp_all add: n_def)
  have cnt: "nwords n = cnt" "0 < cnt" using n by (simp_all add: cnt_def)
  have len: "length (abits u) = cnt" "length (bbits u) = cnt" "length (abits v) = cnt" "length (bbits v) = cnt"
    using assms n cnt by (simp_all add: vec4_wf_def)
  note masked = mul_mask_planes[OF n(1), folded cnt_def, folded msk_def]
  have idx: "i div 64 < cnt" if "i < n" for i using div_less_word_count[OF that] by (simp add: cnt_def)
  have xz_iff: "xz \<longleftrightarrow> (\<exists>i<n. plane_bit (bbits u) i \<or> plane_bit (bbits v) i)"
    using masked(2)[of "bbits u"] masked(2)[of "bbits v"] len cnt idx
    by (fastforce simp: xz_def list_ex_iff)
  show ?thesis
  proof (cases xz)
    case True
    then obtain i where i: "i < n" "plane_bit (bbits u) i \<or> plane_bit (bbits v) i" using xz_iff by auto
    define r where "r = u\<lparr>abits := (update_cells (\<lambda>_ _. WORD_ABITS BIT4_X) [0..<cnt - 1] (abits u))
          [cnt - 1 := WORD_ABITS BIT4_X AND msk],
        bbits := (update_cells (\<lambda>_ _. WORD_BBITS BIT4_X) [0..<cnt - 1] (bbits u))[cnt - 1 := WORD_BBITS BIT4_X AND msk]\<rparr>"
    have code: "vec4_mul u v = Some r"
      unfolding vec4_mul_def Let_def n_def[symmetric] cnt_def[symmetric] msk_def[symmetric] xz_def[symmetric] r_def
      using True n by simp
    have ones: "(WORD_ABITS BIT4_X AND msk) = msk" "(WORD_BBITS BIT4_X AND msk) = msk"
      by (simp_all add: WORD_ABITS_def WORD_BBITS_def)
    have top: "bit msk (i mod 64)" if "i < n" "\<not> i div 64 < cnt - 1" for i
      using that
      by (cases rule: tail_cases)
        (auto simp: msk_def cnt_def word_count_tail not_shl_minus_1 bit_mask_iff bit_minus_1_iff split: if_splits)
    have "plane_bit (abits r) i \<and> plane_bit (bbits r) i" if "i < n" for i
      using top[OF that] idx[OF that] len
      by (cases "i div 64 < cnt - 1")
        (auto simp: r_def ones plane_bit_def nth_list_update nth_update_cells WORD_ABITS_def WORD_BBITS_def bit_minus_1_iff)
    then have "vec4_bits r = lift_int4 n (*) (vec4_bits u) (vec4_bits v)"
      by (intro mul_op.lift_unknown[OF n(2,3) _ i]) (auto simp: r_def n)
    moreover have "vec4_wf r" using len n cnt by (simp add: r_def vec4_wf_def)
    ultimately show ?thesis using code n by (simp add: r_def)
  next
    case False
    let ?L = "map (last_masked cnt msk (abits u)) [0..<cnt]" and ?R = "map (last_masked cnt msk (abits v)) [0..<cnt]"
    have "res = mul_words cnt ((!) ?L) ((!) ?R)"
      unfolding res_def by (rule mul_words_cong) simp_all
    then have res: "length res = cnt" "words_val res mod 2 ^ (64 * cnt) = words_val ?L * words_val ?R mod 2 ^ (64 * cnt)"
      using mul_words_val[of ?L cnt ?R] by simp_all
    define res' where "res' = res[cnt - 1 := res ! (cnt - 1) AND msk]"
    have res': "res' = (if 0 < n mod 64 then res[n div 64 := res ! (n div 64) AND NOT (shl (- 1) (n mod 64))] else res)"
      using cnt by (auto simp: res'_def msk_def cnt_def word_count_tail)
    have cells: "update_cells (\<lambda>idx _. res' ! idx) [0..<cnt] (abits u) = res'"
      using len res by (intro nth_equalityI) (simp_all add: nth_update_cells res'_def)
    have code: "vec4_mul u v = Some (u\<lparr>abits := res'\<rparr>)"
      unfolding vec4_mul_def Let_def n_def[symmetric] cnt_def[symmetric] msk_def[symmetric] xz_def[symmetric]
        res_def[symmetric] res'_def[symmetric] cells
      using False n by simp
    have tb: "take_bit n (words_val ?L) = take_bit n (words_val (abits u))"
      "take_bit n (words_val ?R) = take_bit n (words_val (abits v))"
      using masked(1)[of "abits u"] masked(1)[of "abits v"] len cnt by (intro take_bit_plane; simp)+
    obtain d where d: "64 * cnt = n + d" using nwords_bits[of n] le_iff_add cnt by auto
    have "take_bit n (words_val res') = take_bit n (words_val res)"
      unfolding res' using res cnt n by (intro take_bit_tail_mask) simp_all
    also have "\<dots> = take_bit n (words_val ?L * words_val ?R)"
      by (rule take_bit_mod_cong[OF d]) (rule res(2))
    also have "\<dots> = take_bit n (words_val (abits u) * words_val (abits v))"
      using mod_mult_cong[OF tb[unfolded take_bit_eq_mod]] by (simp only: take_bit_eq_mod)
    finally have "take_bit n (int (words_val res')) =
        take_bit n (int (words_val (abits u)) * int (words_val (abits v)))"
      by (simp only: take_bit_of_nat of_nat_mult [symmetric])
    then have "vec4_bits (u\<lparr>abits := res'\<rparr>) = lift_int4 n (*) (vec4_bits u) (vec4_bits v)"
      using assms n False xz_iff res cnt len
      by (intro mul_op.lift_known) (auto simp: vec4_wf_def res'_def)
    then show ?thesis
      using code n res cnt len by (simp add: vec4_wf_def res'_def)
  qed
qed

text \<open>C5. \<^verbatim>\<open>add\<close>, \<^verbatim>\<open>sub\<close> and \<^verbatim>\<open>mul\<close> on two vectors of one width: all X as soon as an operand has an X
  or Z bit, otherwise the sum, the difference and the product of the two unsigned numbers modulo two to
  the width, whether computed in one word, by a chain of carries or by the schoolbook product. The code
  subtracts by adding the complement with a carry in.\<close>

theorem vec4_ring_bits:
  assumes "vec4_wf u" "vec4_wf v" "vec_size u = vec_size v"
    and "(opr, f) \<in> {(vec4_add, (+)), (vec4_sub, (-)), (vec4_mul, (*))}"
  shows "\<exists>r. opr u v = Some r \<and> vec4_wf r \<and> vec_size r = vec_size u \<and>
    vec4_bits r = lift_int4 (vec_size u) f (vec4_bits u) (vec4_bits v)"
  using vec4_add_bits[OF assms(1-3)] vec4_sub_bits[OF assms(1-3)] vec4_mul_bits[OF assms(1-3)] assms(4)
  by auto

theorem vec4_ring_bits_witness:
  "\<exists>r. vec4_sub (vec4_new 65 BIT4_0) (vec4_new 65 BIT4_1) = Some r \<and> vec4_wf r \<and> vec_size r = 65"
  using vec4_ring_bits[OF vec4_new_wf(1) vec4_new_wf(1), of 65 BIT4_0 65 BIT4_1 vec4_sub "(-)"]
  by (auto simp: vec4_new_wf)

end
