(* ===== verification/Vector4_Serial.thy ===== *)
theory Vector4_Serial
  imports Vector4_Arith
begin

text \<open>
  The operations of \<^verbatim>\<open>vvp_vector4_t\<close> that go bit by bit (\<^verbatim>\<open>vvp_net.cc\<close>): the relational operators
  \<^verbatim>\<open>compare_gtge\<close> and \<^verbatim>\<open>compare_gtge_signed\<close>, the in-place addition of an integer
  \<^verbatim>\<open>operator+=\<close>.
\<close>

section \<open>Comparison\<close>

fun compare_bits :: "(nat \<Rightarrow> vvp_bit4_t) \<Rightarrow> (nat \<Rightarrow> vvp_bit4_t) \<Rightarrow> vvp_bit4_t \<Rightarrow> nat \<Rightarrow> vvp_bit4_t" where
  "compare_bits lef rig out_if_equal 0 = out_if_equal"
| "compare_bits lef rig out_if_equal (Suc idx) =
     (let lv = lef idx; rv = rig idx
      in if lv = rv then compare_bits lef rig out_if_equal idx
         else if lv = BIT4_1 then BIT4_1 else BIT4_0)"

definition compare_gtge :: "vvp_vector4_t \<Rightarrow> vvp_vector4_t \<Rightarrow> vvp_bit4_t \<Rightarrow> vvp_bit4_t" where
  "compare_gtge lef rig out_if_equal =
     (let min_size = (if vec_size rig < vec_size lef then vec_size rig else vec_size lef)
      in if min_size = 0 then BIT4_X
         else if vec4_has_xz lef then BIT4_X
         else if vec4_has_xz rig then BIT4_X
         else if list_ex (\<lambda>idx. vec4_value lef idx = BIT4_1) (rev [vec_size rig..<vec_size lef]) then BIT4_1
         else if list_ex (\<lambda>idx. vec4_value rig idx = BIT4_1) (rev [vec_size lef..<vec_size rig]) then BIT4_0
         else compare_bits (vec4_value lef) (vec4_value rig) out_if_equal min_size)"

definition compare_gtge_signed :: "vvp_vector4_t \<Rightarrow> vvp_vector4_t \<Rightarrow> vvp_bit4_t \<Rightarrow> vvp_bit4_t option" where
  "compare_gtge_signed a b out_if_equal =
     (if vec_size a \<noteq> vec_size b then None
      else
        let sign_idx = vec_size a - 1;
            a_sign = vec4_value a sign_idx;
            b_sign = vec4_value b sign_idx
        in Some (if bit4_is_xz a_sign then BIT4_X
           else if bit4_is_xz b_sign then BIT4_X
           else if a_sign = b_sign then compare_gtge a b out_if_equal
           else if vec4_has_xz a then BIT4_X
           else if vec4_has_xz b then BIT4_X
           else if a_sign = BIT4_0 then BIT4_1 else BIT4_0))"

text \<open>The specification: the order of the numbers, and of the numbers in two's complement.\<close>

definition gtge_result :: "int \<Rightarrow> int \<Rightarrow> vvp_bit4_t \<Rightarrow> vvp_bit4_t" where
  "gtge_result a b out = (if b < a then BIT4_1 else if a < b then BIT4_0 else out)"

definition bits_snum :: "vvp_bit4_t list \<Rightarrow> int" where
  "bits_snum bs = signed_take_bit (length bs - 1) (bits_num bs)"

lemma bits_num_bounds: "0 \<le> bits_num bs \<and> bits_num bs < 2 ^ length bs"
proof -
  have "take_bit (length bs) (bits_num bs) = bits_num bs"
    by (rule bit_eqI) (auto simp: bit_take_bit_iff bit_bits_num)
  then show ?thesis by (metis take_bit_int_less_exp take_bit_nonnegative)
qed

lemma known_value:
  assumes "\<not> list_ex bit4_is_xz (vec4_bits v)" "i < vec_size v"
  shows "vec4_value v i = (if bit (bits_num (vec4_bits v)) i then BIT4_1 else BIT4_0)"
proof -
  have "\<not> bit4_is_xz (vec4_value v i)" using assms by (auto simp: list_ex_iff vec4_bits_def)
  then show ?thesis using assms(2) by (cases "vec4_value v i") (simp_all add: bit_bits_num)
qed

lemma take_bit_Suc_top: "take_bit (Suc k) (a :: int) = take_bit k a + 2 ^ k * of_bool (bit a k)"
  using take_bit_Suc_from_most[of k a] by simp

lemma compare_bits_gtge:
  assumes "\<And>i. i < k \<Longrightarrow> lef i = (if bit a i then BIT4_1 else BIT4_0)"
    and "\<And>i. i < k \<Longrightarrow> rig i = (if bit b i then BIT4_1 else BIT4_0)"
  shows "compare_bits lef rig out k = gtge_result (take_bit k a) (take_bit k b) out"
  using assms
proof (induction k)
  case 0
  then show ?case by (simp add: gtge_result_def)
next
  case (Suc k)
  obtain x y where xy: "take_bit k a = x" "take_bit k b = y" "0 \<le> x" "x < 2 ^ k" "0 \<le> y" "y < 2 ^ k"
    by (simp add: take_bit_int_less_exp)
  then show ?case
    using Suc
    by (cases "bit a k"; cases "bit b k") (auto simp: gtge_result_def take_bit_Suc_top)
qed

lemma high_bit_bound:
  assumes "bit (a :: int) i" "m \<le> i" "0 \<le> a"
  shows "2 ^ m \<le> a"
proof (rule ccontr)
  assume "\<not> 2 ^ m \<le> a"
  then have "take_bit m a = a" using assms(3) by (simp add: take_bit_int_eq_self)
  then show False using assms by (metis bit_take_bit_iff leD)
qed

lemma no_high_bits:
  assumes "\<And>i. m \<le> i \<Longrightarrow> i < n \<Longrightarrow> \<not> bit (a :: int) i" "0 \<le> a" "a < 2 ^ n"
  shows "take_bit m a = a"
proof (rule bit_eqI)
  fix i
  have "n \<le> i \<Longrightarrow> \<not> bit a i" using assms(2,3) by (metis bit_take_bit_iff leD take_bit_int_eq_self)
  then show "bit (take_bit m a) i = bit a i" using assms(1)[of i]
    by (cases "m \<le> i"; cases "n \<le> i") (auto simp: bit_take_bit_iff)
qed

lemma compare_gtge_result:
  "compare_gtge u v out =
     (if vec_size u = 0 \<or> vec_size v = 0 \<or> list_ex bit4_is_xz (vec4_bits u @ vec4_bits v) then BIT4_X
      else gtge_result (bits_num (vec4_bits u)) (bits_num (vec4_bits v)) out)"
proof (cases "0 < vec_size u \<and> 0 < vec_size v \<and> \<not> list_ex bit4_is_xz (vec4_bits u @ vec4_bits v)")
  case False
  have "vec4_has_xz w \<longleftrightarrow> list_ex bit4_is_xz (vec4_bits w)" if "0 < vec_size w" for w
    using vec4_has_xz_iff[OF that] by (auto simp: list_ex_iff vec4_bits_def)
  then show ?thesis
    using False
    by (cases "vec_size u = 0"; cases "vec_size v = 0") (auto simp: compare_gtge_def Let_def)
next
  case True
  let ?a = "bits_num (vec4_bits u)" and ?b = "bits_num (vec4_bits v)"
  let ?m = "vec_size u" and ?n = "vec_size v"
  have known: "\<not> list_ex bit4_is_xz (vec4_bits u)" "\<not> list_ex bit4_is_xz (vec4_bits v)" using True by auto
  have has: "\<not> vec4_has_xz u" "\<not> vec4_has_xz v"
    using True known by (auto simp: vec4_has_xz_iff list_ex_iff vec4_bits_def)
  note val = known_value[OF known(1)] known_value[OF known(2)]
  have bounds: "0 \<le> ?a" "?a < 2 ^ ?m" "0 \<le> ?b" "?b < 2 ^ ?n"
    using bits_num_bounds[of "vec4_bits u"] bits_num_bounds[of "vec4_bits v"] by simp_all
  have up: "list_ex (\<lambda>idx. vec4_value u idx = BIT4_1) (rev [?n..<?m]) \<longleftrightarrow> (\<exists>i<?m. ?n \<le> i \<and> bit ?a i)"
    "list_ex (\<lambda>idx. vec4_value v idx = BIT4_1) (rev [?m..<?n]) \<longleftrightarrow> (\<exists>i<?n. ?m \<le> i \<and> bit ?b i)"
    using val by (auto simp: list_ex_iff split: if_splits)
  consider (left) i where "i < ?m" "?n \<le> i" "bit ?a i" | (right) i where "i < ?n" "?m \<le> i" "bit ?b i"
    | (rest) "\<not> (\<exists>i<?m. ?n \<le> i \<and> bit ?a i)" "\<not> (\<exists>i<?n. ?m \<le> i \<and> bit ?b i)" by auto
  then show ?thesis
  proof cases
    case left
    then have "?b < ?a" using high_bit_bound[of ?a i ?n] bounds by simp
    then show ?thesis using True has up left by (auto simp: compare_gtge_def Let_def gtge_result_def)
  next
    case right
    then have "?a < ?b" using high_bit_bound[of ?b i ?m] bounds by simp
    moreover have "\<not> (\<exists>i<?m. ?n \<le> i \<and> bit ?a i)" using right by auto
    ultimately show ?thesis using True has up right by (auto simp: compare_gtge_def Let_def gtge_result_def)
  next
    case rest
    define k where "k = (if ?n < ?m then ?n else ?m)"
    have "take_bit k ?a = ?a"
      by (rule no_high_bits[of k ?m]) (use rest bounds in \<open>auto simp: k_def split: if_splits\<close>)
    moreover have "take_bit k ?b = ?b"
      by (rule no_high_bits[of k ?n]) (use rest bounds in \<open>auto simp: k_def split: if_splits\<close>)
    moreover have "compare_bits (vec4_value u) (vec4_value v) out k = gtge_result (take_bit k ?a) (take_bit k ?b) out"
      by (rule compare_bits_gtge) (use val in \<open>auto simp: k_def split: if_splits\<close>)
    ultimately show ?thesis
      unfolding compare_gtge_def Let_def k_def[symmetric] using True has up rest by (auto simp: k_def)
  qed
qed

lemma compare_gtge_signed_result:
  "compare_gtge_signed u v out =
     (if vec_size u \<noteq> vec_size v then None
      else if vec_size u = 0 \<or> list_ex bit4_is_xz (vec4_bits u @ vec4_bits v) then Some BIT4_X
      else Some (gtge_result (bits_snum (vec4_bits u)) (bits_snum (vec4_bits v)) out))"
proof (cases "vec_size u = vec_size v \<and> 0 < vec_size u")
  case False
  then show ?thesis by (auto simp: compare_gtge_signed_def Let_def)
next
  case True
  then obtain k where k: "vec_size u = Suc k" "vec_size v = Suc k" by (metis gr0_implies_Suc)
  have has: "vec4_has_xz w \<longleftrightarrow> list_ex bit4_is_xz (vec4_bits w)" if "0 < vec_size w" for w
    using vec4_has_xz_iff[OF that] by (auto simp: list_ex_iff vec4_bits_def)
  show ?thesis
  proof (cases "list_ex bit4_is_xz (vec4_bits u @ vec4_bits v)")
    case True
    then show ?thesis
      using k has by (auto simp: compare_gtge_signed_def Let_def compare_gtge_result)
  next
    case False
    then have known: "\<not> list_ex bit4_is_xz (vec4_bits u)" "\<not> list_ex bit4_is_xz (vec4_bits v)" by auto
    let ?a = "bits_num (vec4_bits u)" and ?b = "bits_num (vec4_bits v)"
    have ab: "0 \<le> ?a" "?a < 2 ^ Suc k" "0 \<le> ?b" "?b < 2 ^ Suc k"
      using bits_num_bounds[of "vec4_bits u"] bits_num_bounds[of "vec4_bits v"] k by simp_all
    have s: "bits_snum (vec4_bits u) = ?a - 2 ^ Suc k * of_bool (bit ?a k)"
      "bits_snum (vec4_bits v) = ?b - 2 ^ Suc k * of_bool (bit ?b k)"
      using ab k by (simp_all add: bits_snum_def signed_take_bit_eq_take_bit_minus take_bit_int_eq_self)
    have sign: "vec4_value u k = (if bit ?a k then BIT4_1 else BIT4_0)" "vec4_value v k = (if bit ?b k then BIT4_1 else BIT4_0)"
      using known_value[OF known(1)] known_value[OF known(2)] k by simp_all
    show ?thesis
      using False k known has sign ab s
      by (cases "bit ?a k"; cases "bit ?b k")
        (auto simp: compare_gtge_signed_def Let_def compare_gtge_result gtge_result_def)
  qed
qed

text \<open>C25. The relational operators. \<^verbatim>\<open>compare_gtge\<close>, behind all the unsigned ones, is X when an
  operand is empty or has an X or Z bit, otherwise the order of the two numbers whatever their widths,
  with the given answer for equal numbers. \<^verbatim>\<open>compare_gtge_signed\<close> on operands of one width orders
  them as numbers in two's complement; different widths abort.\<close>

theorem compare_gtge_orders:
  "compare_gtge u v out =
     (if vec_size u = 0 \<or> vec_size v = 0 \<or> list_ex bit4_is_xz (vec4_bits u @ vec4_bits v) then BIT4_X
      else gtge_result (bits_num (vec4_bits u)) (bits_num (vec4_bits v)) out) \<and>
   compare_gtge_signed u v out =
     (if vec_size u \<noteq> vec_size v then None
      else if vec_size u = 0 \<or> list_ex bit4_is_xz (vec4_bits u @ vec4_bits v) then Some BIT4_X
      else Some (gtge_result (bits_snum (vec4_bits u)) (bits_snum (vec4_bits v)) out))"
  by (intro conjI compare_gtge_result compare_gtge_signed_result)

section \<open>Addition of an integer\<close>

fun vec4_plus_loop :: "nat list \<Rightarrow> int \<Rightarrow> vvp_bit4_t \<Rightarrow> vvp_vector4_t \<Rightarrow> vvp_vector4_t option" where
  "vec4_plus_loop [] that carry v = Some v"
| "vec4_plus_loop (idx # is) that carry v =
     (if that = 0 \<and> carry = BIT4_0 then Some v
      else
        let that_bit = (if odd that then BIT4_1 else BIT4_0);
            that = that div 2
        in if that_bit = BIT4_0 \<and> carry = BIT4_0 then vec4_plus_loop is that carry v
           else
             let b = vec4_value v idx;
                 (b, carry) = bit4_add_with_carry b that_bit carry
             in case vec4_set_bit v idx b of None \<Rightarrow> None | Some v \<Rightarrow> vec4_plus_loop is that carry v)"

definition vec4_plus_int :: "vvp_vector4_t \<Rightarrow> int \<Rightarrow> vvp_vector4_t option" where
  "vec4_plus_int v that =
     (if vec4_has_xz v then Some (vec4_new (vec_size v) BIT4_X)
      else vec4_plus_loop [0..<vec_size v] that BIT4_0 v)"

definition bit4_of_bool :: "bool \<Rightarrow> vvp_bit4_t" where
  "bit4_of_bool b = (if b then BIT4_1 else BIT4_0)"

lemma bit4_add_bools:
  "bit4_add_with_carry (bit4_of_bool a) (bit4_of_bool b) (bit4_of_bool c) =
     (bit4_of_bool (odd (of_bool a + of_bool b + of_bool c :: int)),
      bit4_of_bool ((of_bool a + of_bool b + of_bool c :: int) div 2 = 1))"
  by (cases a; cases b; cases c) (simp_all add: bit4_add_with_carry_def bit4_of_bool_def)

text \<open>The loop from bit \<open>k\<close> on adds, to the number \<open>a\<close> that the bits from \<open>k\<close> on stand for, the
  rest of the integer and the carry.\<close>

lemma plus_loop_bits:
  assumes "vec4_wf v" "vec_size v = n" "k \<le> n"
    and "\<And>i. i < n - k \<Longrightarrow> vec4_value v (k + i) = bit4_of_bool (bit a i)"
  shows "\<exists>r. vec4_plus_loop [k..<n] t (bit4_of_bool c) v = Some r \<and> vec4_wf r \<and> vec_size r = n \<and>
    (\<forall>i<k. vec4_value r i = vec4_value v i) \<and>
    (\<forall>i<n - k. vec4_value r (k + i) = bit4_of_bool (bit (a + t + of_bool c) i))"
  using assms
proof (induction "n - k" arbitrary: k a t c v)
  case 0
  then show ?case by simp
next
  case (Suc m)
  then have split: "[k..<n] = k # [Suc k..<n]" by (simp add: upt_conv_Cons)
  have "\<And>i. i < n - Suc k \<Longrightarrow> vec4_value v (Suc k + i) = bit4_of_bool (bit (a div 2) i)"
    using Suc.prems(4)[of "Suc i" for i] by (simp add: bit_Suc)
  moreover have a0: "vec4_value v k = bit4_of_bool (odd a)" using Suc.prems(4)[of 0] Suc.hyps(2) by (simp add: bit_0)
  ultimately have tl: "\<And>i. i < n - Suc k \<Longrightarrow> vec4_value v (Suc k + i) = bit4_of_bool (bit (a div 2) i)" by simp
  define s :: int where "s = of_bool (odd a) + of_bool (odd t) + of_bool c"
  have total: "a + t + of_bool c = s + 2 * (a div 2 + t div 2)"
    using mod_mult_div_eq[of a 2] mod_mult_div_eq[of t 2] by (simp add: s_def mod_2_eq_odd)
  have s2: "s div 2 = of_bool (s div 2 = 1)" by (simp add: s_def)
  have kn: "k < vec_size v" using Suc.hyps(2) Suc.prems(2) by simp
  have bits: "bit (a + t + of_bool c) 0 = odd s" "bit (a + t + of_bool c) (Suc i) = bit (a div 2 + t div 2 + s div 2) i" for i
  proof -
    have "(a + t + of_bool c) div 2 = a div 2 + t div 2 + s div 2"
      unfolding total by (rule div_mult_self2) simp
    then show "bit (a + t + of_bool c) (Suc i) = bit (a div 2 + t div 2 + s div 2) i" by (simp add: bit_Suc)
    show "bit (a + t + of_bool c) 0 = odd s" unfolding total by (simp add: bit_0)
  qed
  show ?case
  proof (cases "t = 0 \<and> \<not> c")
    case True
    then show ?thesis using Suc.prems split by (auto simp: bit4_of_bool_def)
  next
    case False
    then have go: "\<not> (t = 0 \<and> bit4_of_bool c = BIT4_0)" by (simp add: bit4_of_bool_def)
    show ?thesis
    proof (cases "even t \<and> \<not> c")
      case True
      have "\<exists>r. vec4_plus_loop [Suc k..<n] (t div 2) (bit4_of_bool c) v = Some r \<and> vec4_wf r \<and> vec_size r = n \<and>
          (\<forall>i<Suc k. vec4_value r i = vec4_value v i) \<and>
          (\<forall>i<n - Suc k. vec4_value r (Suc k + i) = bit4_of_bool (bit (a div 2 + t div 2 + of_bool c) i))"
        by (rule Suc.hyps(1)) (use Suc.hyps(2) Suc.prems tl in auto)
      then obtain r where r: "vec4_plus_loop [Suc k..<n] (t div 2) (bit4_of_bool c) v = Some r" "vec4_wf r" "vec_size r = n"
        "\<forall>i<Suc k. vec4_value r i = vec4_value v i"
        "\<forall>i<n - Suc k. vec4_value r (Suc k + i) = bit4_of_bool (bit (a div 2 + t div 2 + of_bool c) i)" by blast
      have "vec4_value r (k + i) = bit4_of_bool (bit (a + t + of_bool c) i)" if "i < n - k" for i
      proof (cases i)
        case 0
        then show ?thesis using r(4) a0 bits(1) True by (simp add: s_def)
      next
        case (Suc j)
        then show ?thesis using r(5) that bits(2)[of j] True s2 by (simp add: s_def)
      qed
      moreover have "vec4_plus_loop [k..<n] t (bit4_of_bool c) v = Some r"
        using split go True r(1) by (simp add: bit4_of_bool_def)
      ultimately show ?thesis using r by auto
    next
      case addb: False
      have carry: "bit4_add_with_carry (vec4_value v k) (if odd t then BIT4_1 else BIT4_0) (bit4_of_bool c) =
          (bit4_of_bool (odd s), bit4_of_bool (s div 2 = 1))"
        using bit4_add_bools[of "odd a" "odd t" c] a0 by (simp add: s_def bit4_of_bool_def)
      obtain v' where v': "vec4_set_bit v k (bit4_of_bool (odd s)) = Some v'" "vec4_wf v'" "vec_size v' = n"
        "\<And>i. i < n \<Longrightarrow> vec4_value v' i = (if i = k then bit4_of_bool (odd s) else vec4_value v i)"
        using vec4.set_in_range[of v k "bit4_of_bool (odd s)"] Suc.prems kn by auto
      have "\<exists>r. vec4_plus_loop [Suc k..<n] (t div 2) (bit4_of_bool (s div 2 = 1)) v' = Some r \<and> vec4_wf r \<and> vec_size r = n \<and>
          (\<forall>i<Suc k. vec4_value r i = vec4_value v' i) \<and>
          (\<forall>i<n - Suc k. vec4_value r (Suc k + i) = bit4_of_bool (bit (a div 2 + t div 2 + of_bool (s div 2 = 1)) i))"
        by (rule Suc.hyps(1)) (use Suc.hyps(2) Suc.prems tl v' in auto)
      then obtain r where r: "vec4_plus_loop [Suc k..<n] (t div 2) (bit4_of_bool (s div 2 = 1)) v' = Some r" "vec4_wf r" "vec_size r = n"
        "\<forall>i<Suc k. vec4_value r i = vec4_value v' i"
        "\<forall>i<n - Suc k. vec4_value r (Suc k + i) = bit4_of_bool (bit (a div 2 + t div 2 + of_bool (s div 2 = 1)) i)" by blast
      have "vec4_value r (k + i) = bit4_of_bool (bit (a + t + of_bool c) i)" if "i < n - k" for i
      proof (cases i)
        case 0
        then show ?thesis using r(4) v'(4) bits(1) Suc.hyps(2) by simp
      next
        case (Suc j)
        then show ?thesis using r(5) that bits(2)[of j] s2 by simp
      qed
      moreover have "vec4_plus_loop [k..<n] t (bit4_of_bool c) v = Some r"
        using split go addb carry v'(1) r(1) by (auto simp: bit4_of_bool_def)
      ultimately show ?thesis using r v'(4) Suc.prems(3) by auto
    qed
  qed
qed

lemma vec4_plus_int_num:
  assumes "vec4_wf v"
  shows "\<exists>r. vec4_plus_int v t = Some r \<and> vec4_wf r \<and> vec_size r = vec_size v \<and>
    vec4_bits r = (if list_ex bit4_is_xz (vec4_bits v) then replicate (vec_size v) BIT4_X
                   else num_bits (vec_size v) (bits_num (vec4_bits v) + t))"
proof (cases "vec4_has_xz v")
  case True
  have x: "vec4_bits (vec4_new (vec_size v) BIT4_X) = replicate (vec_size v) BIT4_X"
    by (simp add: list_eq_iff_nth_eq vec4_value_new vec4_new_wf)
  show ?thesis
  proof (cases "vec_size v = 0")
    case True
    then have "vec4_bits v = []" "num_bits 0 k = []" for k by (simp_all add: vec4_bits_def num_bits_def)
    then show ?thesis using True \<open>vec4_has_xz v\<close> x by (simp add: vec4_plus_int_def vec4_new_wf)
  next
    case False
    then have "list_ex bit4_is_xz (vec4_bits v)"
      using True by (auto simp: vec4_has_xz_iff list_ex_iff vec4_bits_def)
    then show ?thesis using True x by (simp add: vec4_plus_int_def vec4_new_wf)
  qed
next
  case False
  then have known: "\<not> list_ex bit4_is_xz (vec4_bits v)"
    by (cases "vec_size v = 0") (auto simp: vec4_has_xz_iff list_ex_iff vec4_bits_def)
  have "\<exists>r. vec4_plus_loop [0..<vec_size v] t (bit4_of_bool False) v = Some r \<and> vec4_wf r \<and> vec_size r = vec_size v \<and>
    (\<forall>i<0. vec4_value r i = vec4_value v i) \<and>
    (\<forall>i<vec_size v - 0. vec4_value r (0 + i) = bit4_of_bool (bit (bits_num (vec4_bits v) + t + of_bool False) i))"
    by (rule plus_loop_bits) (use assms known_value[OF known] in \<open>auto simp: bit4_of_bool_def\<close>)
  then obtain r where r: "vec4_plus_loop [0..<vec_size v] t BIT4_0 v = Some r" "vec4_wf r" "vec_size r = vec_size v"
    "\<And>i. i < vec_size v \<Longrightarrow> vec4_value r i = bit4_of_bool (bit (bits_num (vec4_bits v) + t) i)"
    by (auto simp: bit4_of_bool_def[of False])
  then have "vec4_bits r = num_bits (vec_size v) (bits_num (vec4_bits v) + t)"
    by (intro nth_equalityI) (simp_all add: bit4_of_bool_def)
  then show ?thesis using False known r by (simp add: vec4_plus_int_def)
qed

end
