(* ===== verification/Vector4_Convert.thy ===== *)
theory Vector4_Convert
  imports Vector4_Serial
begin

text \<open>
  Conversions of \<^verbatim>\<open>vvp_vector4_t\<close> (\<^verbatim>\<open>vvp_net.cc\<close>): \<^verbatim>\<open>vector4_to_value\<close> to the machine integers, the text
  form \<^verbatim>\<open>C4<...>\<close> written by \<^verbatim>\<open>as_string\<close> and read by \<^verbatim>\<open>c4string_to_vector4\<close>, and the packed
  memories \<^verbatim>\<open>vvp_vector4array_sa\<close> and \<^verbatim>\<open>vvp_vector4array_aa\<close> that store vectors of one width. A C
  string is the list of its characters before the terminating NUL.
\<close>

section \<open>Machine integers\<close>

text \<open>The template parameter \<^verbatim>\<open>INT\<close> is the length of the word. An early \<^verbatim>\<open>return false\<close> leaves \<^verbatim>\<open>val\<close>
  unwritten, the second component \<^verbatim>\<open>None\<close>.\<close>

definition to_value_step ::
  "vvp_vector4_t \<Rightarrow> bool \<Rightarrow> nat \<Rightarrow> 'a::len word \<times> 'a word \<times> bool \<Rightarrow> ('a word \<times> 'a word \<times> bool) option" where
  "to_value_step vec is_arithmetic idx st =
     (let (res, msk, rc_flag) = st
      in case vec4_value vec idx of
           BIT4_0 \<Rightarrow> Some (res, push_bit 1 msk, rc_flag)
         | BIT4_1 \<Rightarrow> Some (res OR msk, push_bit 1 msk, rc_flag)
         | _ \<Rightarrow> if is_arithmetic then None else Some (res, push_bit 1 msk, False))"

definition vec4_to_value :: "vvp_vector4_t \<Rightarrow> bool \<Rightarrow> bool \<Rightarrow> bool \<times> 'a::len word option" where
  "vec4_to_value vec is_signed is_arithmetic =
     (let n = (if vec_size vec > LENGTH('a) then LENGTH('a) else vec_size vec)
      in case foldM (to_value_step vec is_arithmetic) [0..<n] (0, 1, True) of
           None \<Rightarrow> (False, None)
         | Some (res, msk, rc_flag) \<Rightarrow>
             if is_signed \<and> vec4_value vec (vec_size vec - 1) = BIT4_1 \<and> vec_size vec < LENGTH('a)
             then (rc_flag, Some (res OR ucast (shl (- 1) (vec_size vec))))
             else (rc_flag, Some res))"

definition to_value_ov_step ::
  "vvp_vector4_t \<Rightarrow> nat \<Rightarrow> u64 \<times> u64 \<times> bool \<Rightarrow> (u64 \<times> u64 \<times> bool) option" where
  "to_value_ov_step vec idx st =
     (let (res, msk, overflow_flag) = st
      in case vec4_value vec idx of
           BIT4_0 \<Rightarrow> Some (res, push_bit 1 msk, overflow_flag)
         | BIT4_1 \<Rightarrow> if msk = 0 then Some (res, push_bit 1 msk, True)
                     else Some (res OR msk, push_bit 1 msk, overflow_flag)
         | _ \<Rightarrow> None)"

text \<open>The form with an overflow flag; the result is the flag and the value, nothing if it fails.\<close>

definition vec4_to_value_ov :: "vvp_vector4_t \<Rightarrow> (bool \<times> u64) option" where
  "vec4_to_value_ov vec =
     (case foldM (to_value_ov_step vec) [0..<vec_size vec] (0, 1, False) of
        None \<Rightarrow> None | Some (res, msk, overflow_flag) \<Rightarrow> Some (overflow_flag, res))"

lemma bit_bits_num_value: "bit (bits_num (vec4_bits v)) i \<longleftrightarrow> i < vec_size v \<and> vec4_value v i = BIT4_1"
  by (auto simp: bit_bits_num)

lemma bit_or_exp:
  "bit (w OR 2 ^ k :: 'a::len word) i \<longleftrightarrow> bit w i \<or> (i = k \<and> k < LENGTH('a))"
  by (auto simp: bit_or_iff bit_exp_iff)

lemma push_bit_1_exp: "push_bit (Suc 0) (2 ^ k) = (2 ^ Suc k :: 'a::len word)"
  by (simp add: push_bit_eq_mult)

lemma list_ex_take: "list_ex P (take w xs) \<longleftrightarrow> (\<exists>i<if w < length xs then w else length xs. P (xs ! i))"
  by (auto simp: list_ex_length cong: conj_cong intro: less_trans)

lemma to_value_loop:
  "case foldM (to_value_step v ar) [0..<k] (0, 1, True) of
     None \<Rightarrow> ar \<and> (\<exists>i<k. bit4_is_xz (vec4_value v i))
   | Some (res, msk, rc) \<Rightarrow> (ar \<longrightarrow> (\<forall>i<k. \<not> bit4_is_xz (vec4_value v i))) \<and>
       msk = (2 ^ k :: 'a::len word) \<and> rc = (\<forall>i<k. \<not> bit4_is_xz (vec4_value v i)) \<and>
       (\<forall>i<LENGTH('a). bit res i \<longleftrightarrow> i < k \<and> vec4_value v i = BIT4_1)"
proof (induction k)
  case 0
  then show ?case by simp
next
  case (Suc k)
  show ?case
  proof (cases "foldM (to_value_step v ar) [0..<k] (0, 1 :: 'a word, True)")
    case None
    then show ?thesis using Suc by (auto simp: foldM_append less_Suc_eq)
  next
    case (Some st)
    then obtain res msk rc where st: "st = (res, msk, rc)" by (cases st) auto
    note IH = Suc[unfolded Some st]
    show ?thesis
      using IH Some st
      by (cases "vec4_value v k")
        (auto simp: foldM_append to_value_step_def[of v ar k] push_bit_1_exp[simplified] less_Suc_eq bit_or_exp)
  qed
qed

lemma word_of_int_eqI:
  assumes "\<And>i. i < LENGTH('a::len) \<Longrightarrow> bit w i = bit k i"
  shows "w = (word_of_int k :: 'a word)"
  by (rule bit_word_eqI) (simp add: assms bit_word_of_int_iff)

lemma bit_bits_snum:
  assumes "0 < vec_size v"
  shows "bit (bits_snum (vec4_bits v)) i \<longleftrightarrow>
    (if i < vec_size v then vec4_value v i = BIT4_1 else vec4_value v (vec_size v - 1) = BIT4_1)"
  using assms
  by (cases "i = vec_size v - 1") (auto simp: bits_snum_def bit_signed_take_bit_iff bit_bits_num_value min_def)

lemma vec4_to_value_num:
  assumes "LENGTH('a::len) \<le> 64"
  shows "vec4_to_value v sg ar =
    (let xz = list_ex bit4_is_xz (take LENGTH('a) (vec4_bits v))
     in (\<not> xz, if xz \<and> ar then None
               else Some (word_of_int (if sg then bits_snum (vec4_bits v) else bits_num (vec4_bits v)) :: 'a word)))"
proof -
  let ?w = "LENGTH('a)" and ?m = "vec_size v"
  define k where "k = (if ?w < ?m then ?w else ?m)"
  have xz: "list_ex bit4_is_xz (take ?w (vec4_bits v)) \<longleftrightarrow> (\<exists>i<k. bit4_is_xz (vec4_value v i))"
    unfolding list_ex_take length_vec4_bits k_def[symmetric] by (auto simp: k_def split: if_splits)
  note loop = to_value_loop[where v = v and ar = ar and k = k and 'a = 'a]
  show ?thesis
  proof (cases "foldM (to_value_step v ar) [0..<k] (0, 1 :: 'a word, True)")
    case None
    then have "vec4_to_value v sg ar = (False, None :: 'a word option)"
      by (simp add: vec4_to_value_def k_def)
    moreover have "list_ex bit4_is_xz (take ?w (vec4_bits v))" "ar" using xz loop None by simp_all
    ultimately show ?thesis by (simp add: Let_def)
  next
    case (Some st)
    then obtain res msk rc where st: "st = (res, msk, rc)" by (cases st) auto
    note inv = loop[unfolded Some st]
    have ext: "bit (ucast (shl (- 1) ?m) :: 'a word) i \<longleftrightarrow> ?m \<le> i" if "i < ?w" "?m < ?w" for i
      using that assms by (auto simp: bit_ucast_iff bit_shl bit_minus_1_iff)
    have code: "vec4_to_value v sg ar = (rc, Some (if sg \<and> vec4_value v (?m - 1) = BIT4_1 \<and> ?m < ?w
        then res OR ucast (shl (- 1) ?m) else res))"
      using Some st by (simp add: vec4_to_value_def k_def[symmetric])
    have "(if sg \<and> vec4_value v (?m - 1) = BIT4_1 \<and> ?m < ?w then res OR ucast (shl (- 1) ?m) else res) =
        (word_of_int (if sg then bits_snum (vec4_bits v) else bits_num (vec4_bits v)) :: 'a word)"
    proof (rule word_of_int_eqI)
      fix i assume i: "i < ?w"
      have b: "bit res i \<longleftrightarrow> i < ?m \<and> vec4_value v i = BIT4_1" using inv i by (auto simp: k_def)
      show "bit (if sg \<and> vec4_value v (?m - 1) = BIT4_1 \<and> ?m < ?w then res OR ucast (shl (- 1) ?m) else res) i =
          bit (if sg then bits_snum (vec4_bits v) else bits_num (vec4_bits v)) i"
      proof (cases "0 < ?m")
        case True
        then show ?thesis
          using b i ext[OF i] by (auto simp: bit_bits_snum bit_bits_num_value bit_or_iff)
      next
        case False
        then have "vec4_bits v = []" by (simp add: vec4_bits_def)
        then show ?thesis using b False by (simp add: bits_snum_def bits_num_def)
      qed
    qed
    then show ?thesis using code xz inv by (auto simp: Let_def)
  qed
qed

text \<open>C32. \<^verbatim>\<open>vector4_to_value\<close> into an integer type of at most 64 bits reads the number, in two's
  complement when signed, wrapped to the type; X and Z bits count as 0. It reports an X or Z bit only
  among the bits that fit into the type, not one above them, and then writes nothing if the caller asked for arithmetic, so that the
  variable of the caller keeps its value. The comment in \<^verbatim>\<open>vvp_net.h\<close> promises a report of any X or Z bit, and the value 0.\<close>

theorem vec4_to_value_result:
  assumes "LENGTH('a::len) \<le> 64"
  shows "vec4_to_value v sg ar =
    (let xz = list_ex bit4_is_xz (take LENGTH('a) (vec4_bits v))
     in (\<not> xz, if xz \<and> ar then None
               else Some (word_of_int (if sg then bits_snum (vec4_bits v) else bits_num (vec4_bits v)) :: 'a word)))"
  using assms by (rule vec4_to_value_num)

theorem vec4_to_value_result_witness:
  "vec4_to_value (vec4_new 4 BIT4_1) True True = (True, Some (- 1 :: 32 word))"
proof -
  have bits: "vec4_bits (vec4_new 4 BIT4_1) = [BIT4_1, BIT4_1, BIT4_1, BIT4_1]"
    by (simp add: vec4_bits_def vec4_value_new vec4_new_wf(2) upt_rec eval_nat_numeral)
  show ?thesis
    using vec4_to_value_result[of "vec4_new 4 BIT4_1" True True, where 'a = 32]
    by (simp add: bits bits_snum_def bits_num_def)
qed


lemma to_value_ov_loop:
  "case foldM (to_value_ov_step v) [0..<k] (0, 1, False) of
     None \<Rightarrow> (\<exists>i<k. bit4_is_xz (vec4_value v i))
   | Some (res, msk, ov) \<Rightarrow> (\<forall>i<k. \<not> bit4_is_xz (vec4_value v i)) \<and> msk = 2 ^ k \<and>
       (ov \<longleftrightarrow> (\<exists>i<k. 64 \<le> i \<and> vec4_value v i = BIT4_1)) \<and>
       (\<forall>i<64. bit res i \<longleftrightarrow> i < k \<and> vec4_value v i = BIT4_1)"
proof (induction k)
  case 0
  then show ?case by simp
next
  case (Suc k)
  show ?case
  proof (cases "foldM (to_value_ov_step v) [0..<k] (0, 1, False)")
    case None
    then show ?thesis using Suc by (auto simp: foldM_append less_Suc_eq)
  next
    case (Some st)
    then obtain res msk ov where st: "st = (res, msk, ov)" by (cases st) auto
    note IH = Suc[unfolded Some st]
    have z: "(2 :: u64) ^ k = 0 \<longleftrightarrow> 64 \<le> k" by (simp add: exp_eq_zero_iff)
    show ?thesis
      using IH Some st z
      by (cases "vec4_value v k")
        (auto simp: foldM_append to_value_ov_step_def[of v k] push_bit_1_exp[simplified] less_Suc_eq bit_or_exp)
  qed
qed

lemma vec4_to_value_ov_result:
  "vec4_to_value_ov v =
     (if list_ex bit4_is_xz (vec4_bits v) then None
      else Some (2 ^ 64 \<le> bits_num (vec4_bits v), word_of_int (bits_num (vec4_bits v))))"
proof (cases "foldM (to_value_ov_step v) [0..<vec_size v] (0, 1, False)")
  case None
  then show ?thesis
    using to_value_ov_loop[where v = v and k = "vec_size v"] by (auto simp: vec4_to_value_ov_def list_ex_iff vec4_bits_def)
next
  case (Some st)
  then obtain res msk ov where st: "st = (res, msk, ov)" by (cases st) auto
  note inv = to_value_ov_loop[where v = v and k = "vec_size v", unfolded Some st]
  let ?a = "bits_num (vec4_bits v)"
  have "res = word_of_int ?a"
    by (rule word_of_int_eqI) (use inv in \<open>auto simp: bit_bits_num_value\<close>)
  moreover have "ov \<longleftrightarrow> 2 ^ 64 \<le> ?a"
  proof
    assume ov
    then obtain i where "64 \<le> i" "bit ?a i" using inv by (auto simp: bit_bits_num_value)
    then show "2 ^ 64 \<le> ?a" using high_bit_bound[of ?a i 64] bits_num_bounds[of "vec4_bits v"] by simp
  next
    assume big: "2 ^ 64 \<le> ?a"
    show ov
    proof (rule ccontr)
      assume "\<not> ov"
      then have "take_bit 64 ?a = ?a"
        using inv bits_num_bounds[of "vec4_bits v"]
        by (intro no_high_bits[of _ "vec_size v"]) (auto simp: bit_bits_num_value)
      then have "?a < 2 ^ 64" using take_bit_int_less_exp[of 64 ?a] by metis
      then show False using big by simp
    qed
  qed
  moreover have "\<not> list_ex bit4_is_xz (vec4_bits v)" using inv by (auto simp: list_ex_iff vec4_bits_def)
  ultimately show ?thesis using Some st by (simp add: vec4_to_value_ov_def)
qed

section \<open>The text form\<close>

text \<open>\<^verbatim>\<open>as_string\<close> writes into a buffer of \<^verbatim>\<open>buf_len\<close> bytes; the subtraction of the three header bytes
  is on \<^verbatim>\<open>size_t\<close>.\<close>

fun as_string_digits :: "vvp_vector4_t \<Rightarrow> nat list \<Rightarrow> nat \<Rightarrow> string" where
  "as_string_digits v [] buf_len = []"
| "as_string_digits v (idx # is) buf_len =
     (if buf_len \<ge> 2
      then (case vec4_value v (vec_size v - idx - 1) of
              BIT4_0 \<Rightarrow> CHR ''0'' | BIT4_1 \<Rightarrow> CHR ''1'' | BIT4_X \<Rightarrow> CHR ''x'' | BIT4_Z \<Rightarrow> CHR ''z'') #
           as_string_digits v is (buf_len - 1)
      else [])"

definition vec4_as_string :: "vvp_vector4_t \<Rightarrow> nat \<Rightarrow> string" where
  "vec4_as_string v buf_len =
     (let buf_len = unat (of_nat buf_len - 3 :: u64)
      in ''C4<'' @ as_string_digits v [0..<vec_size v] buf_len @ ''>'')"

definition strspn :: "string \<Rightarrow> string \<Rightarrow> nat" where
  "strspn s accept = length (takeWhile (\<lambda>c. c \<in> set accept) s)"

definition c_char :: "string \<Rightarrow> nat \<Rightarrow> char" where
  "c_char s i = (if i < length s then s ! i else CHR 0x00)"

definition c4string_test :: "string \<Rightarrow> bool" where
  "c4string_test str =
     (if take 3 str \<noteq> ''C4<'' then False
      else
        let value_size = strspn (drop 3 str) ''01xz''
        in if c_char str (3 + value_size) \<noteq> CHR ''>'' then False
           else if c_char str (3 + value_size + 1) \<noteq> CHR 0x00 then False
           else True)"

definition c4_bit :: "char \<Rightarrow> vvp_bit4_t option" where
  "c4_bit c =
     (if c = CHR ''0'' then Some BIT4_0
      else if c = CHR ''1'' then Some BIT4_1
      else if c = CHR ''x'' then Some BIT4_X
      else if c = CHR ''z'' then Some BIT4_Z
      else None)"

definition c4string_to_vector4 :: "string \<Rightarrow> vvp_vector4_t option" where
  "c4string_to_vector4 str =
     (if \<not> (c_char str 0 = CHR ''C'' \<and> c_char str 1 = CHR ''4'' \<and> c_char str 2 = CHR ''<'') then None
      else
        let str = drop 3 str;
            tp = strspn str ''01xz''
        in if c_char str tp \<noteq> CHR ''>'' then None
           else
             let tmp = vec4_new tp BIT4_X
             in foldM (\<lambda>idx tmp. case c4_bit (c_char str idx) of
                                   None \<Rightarrow> None
                                 | Some b \<Rightarrow> vec4_set_bit tmp (vec_size tmp - idx - 1) b)
                  [0..<tp] tmp)"

lemma as_string_digits_map:
  "as_string_digits v is l =
     map (\<lambda>idx. vvp_bit4_to_ascii (vec4_value v (vec_size v - idx - 1))) (take (l - 1) is)"
proof (induction "is" arbitrary: l)
  case Nil
  then show ?case by simp
next
  case (Cons i "is")
  then show ?case
    by (cases "l - 1") (auto simp: vvp_bit4_to_ascii_def split: vvp_bit4_t.splits)
qed


text \<open>C30. The bytes that \<^verbatim>\<open>as_string\<close> writes, the NUL included, for a buffer of \<open>l\<close> bytes: a text
  that fits is written in full, a longer one is cut, but to \<open>l + 1\<close> bytes: the reserve of two
  for the closing bracket and the NUL is tested before the digit is written, so the NUL lands one
  byte after the buffer.\<close>

theorem as_string_bytes:
  assumes "4 \<le> l" "l < 2 ^ 64"
  shows "length (vec4_as_string v l) + 1 = min (vec_size v + 5) (l + 1)"
proof -
  have "of_nat l - (3 :: u64) = of_nat (l - 3)" using assms(1) by simp
  then have "unat (of_nat l - 3 :: u64) = l - 3"
    using assms(2) by (simp add: unat_of_nat take_bit_nat_eq_self)
  then show ?thesis
    using assms(1) by (simp add: vec4_as_string_def Let_def as_string_digits_map)
qed

theorem as_string_bytes_witness:
  "length (vec4_as_string (vec4_new 10 BIT4_Z) 8) + 1 = 9"
  using as_string_bytes[of 8 "vec4_new 10 BIT4_Z"] by (simp add: vec4_new_wf(2))

text \<open>The text that a bit list is written as, most significant bit first.\<close>

definition c4_text :: "vvp_bit4_t list \<Rightarrow> string" where
  "c4_text bs = ''C4<'' @ map vvp_bit4_to_ascii (rev bs) @ ''>''"

lemma as_string_text:
  assumes "vec_size v + 4 \<le> l" "l < 2 ^ 64"
  shows "vec4_as_string v l = c4_text (vec4_bits v)"
proof -
  have "of_nat l - (3 :: u64) = of_nat (l - 3)" using assms(1) by simp
  then have len: "unat (of_nat l - 3 :: u64) = l - 3"
    using assms(2) by (simp add: unat_of_nat take_bit_nat_eq_self)
  have "map (\<lambda>idx. vvp_bit4_to_ascii (vec4_value v (vec_size v - idx - 1))) [0..<vec_size v] =
      map vvp_bit4_to_ascii (rev (vec4_bits v))"
    by (rule nth_equalityI) (simp_all add: rev_nth)
  then show ?thesis
    using assms(1) by (simp add: vec4_as_string_def Let_def as_string_digits_map len c4_text_def)
qed

lemma ascii_bit: "vvp_bit4_to_ascii b \<in> set ''01xz''" "c4_bit (vvp_bit4_to_ascii b) = Some b"
  by (cases b; simp add: vvp_bit4_to_ascii_def c4_bit_def)+

lemma strspn_digits: "strspn (map vvp_bit4_to_ascii bs @ ''>'') ''01xz'' = length bs"
proof -
  have "takeWhile (\<lambda>c. c \<in> set ''01xz'') (map vvp_bit4_to_ascii bs @ ''>'') = map vvp_bit4_to_ascii bs"
    using ascii_bit(1) by (subst takeWhile_append2) auto
  then show ?thesis by (simp add: strspn_def)
qed

lemma c4_header:
  "c_char (''C4<'' @ ds) 0 = CHR ''C''" "c_char (''C4<'' @ ds) 1 = CHR ''4''"
  "c_char (''C4<'' @ ds) 2 = CHR ''<''" "drop 3 (''C4<'' @ ds) = ds"
  by (simp_all add: c_char_def)

text \<open>C29. Round trip: the text that \<^verbatim>\<open>as_string\<close> writes into a large enough buffer passes
  \<^verbatim>\<open>c4string_test\<close>, and \<^verbatim>\<open>c4string_to_vector4\<close> reads it back to the same bits.\<close>

theorem c4string_roundtrip:
  assumes "vec_size v + 5 \<le> l" "l < 2 ^ 64"
  shows "c4string_test (vec4_as_string v l) \<and>
    (\<exists>r. c4string_to_vector4 (vec4_as_string v l) = Some r \<and> vec4_wf r \<and> vec4_bits r = vec4_bits v)"
proof -
  let ?ds = "map vvp_bit4_to_ascii (rev (vec4_bits v)) @ ''>''" and ?n = "vec_size v"
  let ?step = "\<lambda>idx tmp. case c4_bit (c_char ?ds idx) of None \<Rightarrow> None | Some b \<Rightarrow> vec4_set_bit tmp (vec_size tmp - idx - 1) b"
  have written: "vec4_as_string v l = ''C4<'' @ ?ds"
    using assms as_string_text[of v l] by (simp add: c4_text_def)
  have span: "strspn ?ds ''01xz'' = ?n" by (simp add: strspn_digits)
  have digit: "c_char ?ds i = vvp_bit4_to_ascii (vec4_value v (?n - i - 1))" if "i < ?n" for i
    using that by (simp add: c_char_def nth_append rev_nth)
  have "c_char ?ds ?n = CHR ''>''" by (simp add: c_char_def nth_append)
  have "c4string_test (''C4<'' @ ?ds)"
    using span by (simp add: c4string_test_def Let_def c_char_def nth_append)
  moreover
  have "\<exists>r. foldM ?step [0..<?n] (vec4_new ?n BIT4_X) = Some r \<and>
      (vec4_wf r \<and> vec_size r = ?n \<and> (\<forall>j<?n. ?n - ?n \<le> j \<longrightarrow> vec4_value r j = vec4_value v j))"
  proof (rule foldM_upt_inv[where P = "\<lambda>i r. vec4_wf r \<and> vec_size r = ?n \<and> (\<forall>j<?n. ?n - i \<le> j \<longrightarrow> vec4_value r j = vec4_value v j)"])
    show "vec4_wf (vec4_new ?n BIT4_X) \<and> vec_size (vec4_new ?n BIT4_X) = ?n \<and>
        (\<forall>j<?n. ?n - 0 \<le> j \<longrightarrow> vec4_value (vec4_new ?n BIT4_X) j = vec4_value v j)" by (simp add: vec4_new_wf)
  next
    fix i r assume i: "i < ?n" and r: "vec4_wf r \<and> vec_size r = ?n \<and> (\<forall>j<?n. ?n - i \<le> j \<longrightarrow> vec4_value r j = vec4_value v j)"
    then obtain r' where r': "vec4_set_bit r (?n - i - 1) (vec4_value v (?n - i - 1)) = Some r'" "vec4_wf r'" "vec_size r' = ?n"
      "\<forall>j<?n. vec4_value r' j = (if j = ?n - i - 1 then vec4_value v (?n - i - 1) else vec4_value r j)"
      using vec4.set_in_range[of r "?n - i - 1" "vec4_value v (?n - i - 1)"] by auto
    have "?n - i \<le> j" if "?n - Suc i \<le> j" "j \<noteq> ?n - i - 1" for j using that i by simp
    then show "\<exists>r'. ?step i r = Some r' \<and> vec4_wf r' \<and> vec_size r' = ?n \<and>
        (\<forall>j<?n. ?n - Suc i \<le> j \<longrightarrow> vec4_value r' j = vec4_value v j)"
      using r r' i by (auto simp: digit ascii_bit(2))
  qed
  then obtain r where r: "foldM ?step [0..<?n] (vec4_new ?n BIT4_X) = Some r" "vec4_wf r" "vec_size r = ?n"
    "\<forall>j<?n. vec4_value r j = vec4_value v j" by auto
  then have "c4string_to_vector4 (''C4<'' @ ?ds) = Some r"
    using span \<open>c_char ?ds ?n = CHR ''>''\<close>
    unfolding c4string_to_vector4_def Let_def c4_header by (simp only: simp_thms if_True if_False not_True_eq_False)
  moreover have "vec4_bits r = vec4_bits v" using r by (simp add: vec4_bits_eq_iff)
  ultimately show ?thesis using written r(2) by auto
qed

theorem c4string_roundtrip_witness:
  "c4string_test (vec4_as_string (vec4_new 3 BIT4_Z) 100)"
  using c4string_roundtrip[of "vec4_new 3 BIT4_Z" 100] by (simp add: vec4_new_wf(2))

end
