(* ===== verification/Vector4_Memory.thy ===== *)
theory Vector4_Memory
  imports Vector4_Convert
begin

text \<open>
  Vectors as arrays of machine words and arrays of vectors (\<^verbatim>\<open>vvp_net.cc\<close>): \<^verbatim>\<open>subarray\<close>, by which the
  opcodes of the thread engine fetch an operand as words, and the packed memories \<^verbatim>\<open>vvp_vector4array_sa\<close> (static) and \<^verbatim>\<open>vvp_vector4array_aa\<close> (automatic, one array of
  cells per context). The loop of \<^verbatim>\<open>subarray\<close> is a \<^verbatim>\<open>while\<close> loop and is modelled as a partial function:
  \<open>None\<close> would be a loop that does not end, and the theorem shows that it ends.
\<close>

section \<open>Fetching words\<close>

record subarray_state =
  sub_adr :: nat
  sub_wid :: nat
  val_ptr :: nat
  val_off :: nat
  sub_val :: "u64 list"

definition subarray_step :: "vvp_vector4_t \<Rightarrow> bool \<Rightarrow> subarray_state \<Rightarrow> subarray_state option" where
  "subarray_step v xz_to_0 s =
     (let atmp = abits v ! (sub_adr s div 64);
          btmp = bbits v ! (sub_adr s div 64);
          off = sub_adr s mod 64;
          atmp = shr atmp off;
          btmp = shr btmp off;
          tr = 64 - off;
          tr = (if tr > 64 - val_off s then 64 - val_off s else tr);
          tr = (if sub_wid s < tr then sub_wid s else tr);
          atmp = (if tr < 64 then atmp AND (shl 1 tr - 1) else atmp);
          btmp = (if tr < 64 then btmp AND (shl 1 tr - 1) else btmp)
      in if btmp \<noteq> 0 \<and> \<not> xz_to_0 then None
         else
           let atmp = (if btmp \<noteq> 0 then atmp AND NOT btmp else atmp);
               val = (sub_val s)[val_ptr s := sub_val s ! val_ptr s OR shl atmp (val_off s)];
               voff = val_off s + tr
           in Some \<lparr>sub_adr = sub_adr s + tr, sub_wid = sub_wid s - tr,
                    val_ptr = (if voff = 64 then val_ptr s + 1 else val_ptr s),
                    val_off = (if voff = 64 then 0 else voff), sub_val = val\<rparr>)"

partial_function (option) subarray_loop ::
  "vvp_vector4_t \<Rightarrow> bool \<Rightarrow> subarray_state \<Rightarrow> u64 list option option" where
  "subarray_loop v xz_to_0 s =
     (if sub_wid s = 0 then Some (Some (sub_val s))
      else case subarray_step v xz_to_0 s of None \<Rightarrow> Some None | Some s' \<Rightarrow> subarray_loop v xz_to_0 s')"

definition vec4_subarray :: "vvp_vector4_t \<Rightarrow> nat \<Rightarrow> nat \<Rightarrow> bool \<Rightarrow> u64 list option option" where
  "vec4_subarray v adr wid xz_to_0 =
     (let awid = (wid + 63) div 64;
          val = replicate awid 0
      in if vec_size v \<le> 64
         then
           let atmp = shr (abits v ! 0) adr;
               btmp = shr (bbits v ! 0) adr;
               atmp = (if wid < 64 then atmp AND (shl 1 wid - 1) else atmp);
               btmp = (if wid < 64 then btmp AND (shl 1 wid - 1) else btmp)
           in if btmp \<noteq> 0 \<and> \<not> xz_to_0 then Some None
              else Some (Some (val[0 := (if btmp \<noteq> 0 then atmp AND NOT btmp else atmp)]))
         else subarray_loop v xz_to_0
                \<lparr>sub_adr = adr, sub_wid = wid, val_ptr = 0, val_off = 0, sub_val = val\<rparr>)"

lemma div_mod_64_add:
  assumes "a mod 64 + j < (64 :: nat)"
  shows "(a + j) div 64 = a div 64" "(a + j) mod 64 = a mod 64 + j"
proof -
  have e: "a + j = (a mod 64 + j) + 64 * (a div 64)" by simp
  show "(a + j) div 64 = a div 64" using assms by (subst e) (simp only: div_mult_self2 zero_neq_numeral not_False_eq_True div_less)
  show "(a + j) mod 64 = a mod 64 + j" using assms by (subst e) (simp only: mod_mult_self2 mod_less)
qed

lemma div_mod_64_full:
  assumes "a mod 64 + j = (64 :: nat)"
  shows "(a + j) div 64 = a div 64 + 1" "(a + j) mod 64 = 0"
proof -
  have e: "a + j = 64 * (a div 64 + 1)" using assms by (metis add.assoc add_mult_distrib2 mult.right_neutral mult_div_mod_eq)
  show "(a + j) div 64 = a div 64 + 1" "(a + j) mod 64 = 0"
    unfolding e by (simp_all only: nonzero_mult_div_cancel_left mod_mult_self1_is_0 zero_neq_numeral not_False_eq_True)
qed

lemma bit_chunk:
  assumes "off = adr mod 64" "tr \<le> 64 - off" "j < 64"
  shows "bit (if tr < 64 then shr (ws ! (adr div 64)) off AND (shl 1 tr - 1) else shr (ws ! (adr div 64)) off) j
    \<longleftrightarrow> j < tr \<and> plane_bit ws (adr + j)"
proof (cases "j < tr")
  case True
  then have o: "off + j < 64" "off < 64" using assms by auto
  then have "(adr + j) div 64 = adr div 64" "(adr + j) mod 64 = off + j"
    using div_mod_64_add[of adr j] assms(1) by simp_all
  then show ?thesis
    using True assms o
    by (auto simp: plane_bit_def bit_and_iff bit_shr shl_1_minus_1 bit_mask_iff)
next
  case False
  have "tr = 64 \<Longrightarrow> off = 0" using assms(2) by simp
  then show ?thesis
    using False assms
    by (auto simp: bit_and_iff bit_shr shl_1_minus_1 bit_mask_iff)
qed

text \<open>What an X or Z bit does, and what the fetched words hold, for the first \<open>k\<close> bits.\<close>

definition known_bits :: "vvp_vector4_t \<Rightarrow> nat \<Rightarrow> nat \<Rightarrow> bool" where
  "known_bits v adr k \<longleftrightarrow> (\<forall>i<k. \<not> plane_bit (bbits v) (adr + i))"

definition fetched :: "vvp_vector4_t \<Rightarrow> nat \<Rightarrow> nat \<Rightarrow> u64 list \<Rightarrow> bool" where
  "fetched v adr k ws \<longleftrightarrow> (\<forall>i<64 * length ws. plane_bit ws i \<longleftrightarrow>
     i < k \<and> plane_bit (abits v) (adr + i) \<and> \<not> plane_bit (bbits v) (adr + i))"

lemma subarray_step_inv:
  assumes s: "s = \<lparr>sub_adr = adr + k, sub_wid = wid - k, val_ptr = k div 64, val_off = k mod 64, sub_val = ws\<rparr>"
    and k: "k < wid" and len: "length ws = word_count wid"
    and inv: "fetched v adr k ws"
  obtains tr where "0 < tr" "tr \<le> wid - k"
    "if \<not> xz_to_0 \<and> \<not> known_bits v (adr + k) tr then subarray_step v xz_to_0 s = None
     else \<exists>ws'. subarray_step v xz_to_0 s = Some \<lparr>sub_adr = adr + (k + tr), sub_wid = wid - (k + tr),
        val_ptr = (k + tr) div 64, val_off = (k + tr) mod 64, sub_val = ws'\<rparr> \<and>
        length ws' = length ws \<and> fetched v adr (k + tr) ws'"
proof -
  define off where "off = (adr + k) mod 64"
  define t1 where "t1 = (if 64 - off > 64 - k mod 64 then 64 - k mod 64 else 64 - off)"
  define tr where "tr = (if wid - k < t1 then wid - k else t1)"
  have off: "off < 64" by (simp add: off_def)
  have tr: "0 < tr" "tr \<le> wid - k" "tr \<le> 64 - off" "k mod 64 + tr \<le> 64"
    using k off by (auto simp: tr_def t1_def)
  define chunk where "chunk ws = (if tr < 64 then shr (ws ! ((adr + k) div 64)) off AND (shl 1 tr - 1)
      else shr (ws ! ((adr + k) div 64)) off)" for ws
  have chunk: "bit (chunk ws) j \<longleftrightarrow> j < tr \<and> plane_bit ws (adr + k + j)" if "j < 64" for ws j
    unfolding chunk_def by (rule bit_chunk) (use that tr off_def in auto)
  have xz: "chunk (bbits v) = 0 \<longleftrightarrow> known_bits v (adr + k) tr"
    using chunk[of _ "bbits v"] tr off by (auto simp: u64_zero_iff known_bits_def)
  define a where "a = (if chunk (bbits v) \<noteq> 0 then chunk (abits v) AND NOT (chunk (bbits v)) else chunk (abits v))"
  have a: "bit a j \<longleftrightarrow> j < tr \<and> plane_bit (abits v) (adr + k + j) \<and> \<not> plane_bit (bbits v) (adr + k + j)" if "j < 64" for j
    using chunk[OF that, of "abits v"] chunk[OF that, of "bbits v"] that
    by (cases "chunk (bbits v) = 0") (auto simp: a_def bit_and_iff bit_not_iff)
  define ws' where "ws' = ws[k div 64 := ws ! (k div 64) OR shl a (k mod 64)]"
  have ptr: "k div 64 < length ws" using div_less_word_count[OF k] len by simp
  have bits: "plane_bit ws' i \<longleftrightarrow> plane_bit ws i \<or> (i div 64 = k div 64 \<and> k mod 64 \<le> i mod 64 \<and> bit a (i mod 64 - k mod 64))"
    for i using ptr by (auto simp: ws'_def plane_bit_def nth_list_update bit_or_iff bit_shl)
  have "fetched v adr (k + tr) ws'"
    unfolding fetched_def
  proof (intro allI impI)
    fix i assume i: "i < 64 * length ws'"
    have old: "plane_bit ws i \<longleftrightarrow> i < k \<and> plane_bit (abits v) (adr + i) \<and> \<not> plane_bit (bbits v) (adr + i)"
      using inv i by (simp add: fetched_def ws'_def)
    show "plane_bit ws' i \<longleftrightarrow> i < k + tr \<and> plane_bit (abits v) (adr + i) \<and> \<not> plane_bit (bbits v) (adr + i)"
    proof (cases "i div 64 = k div 64 \<and> k mod 64 \<le> i mod 64")
      case True
      define j where "j = i mod 64 - k mod 64"
      have "i = k + j" unfolding j_def
        using True[THEN conjunct1] True[THEN conjunct2] mult_div_mod_eq[of 64 k] mult_div_mod_eq[of 64 i] by linarith
      then have j: "i = k + j" "j < 64" by (simp_all add: j_def less_imp_diff_less)
      have "plane_bit ws' i \<longleftrightarrow> plane_bit ws i \<or> bit a j" using True bits[of i] by (simp add: j_def)
      then show ?thesis using old a[OF j(2)] by (auto simp: j(1) add.assoc)
    next
      case False
      have "i < k" if "i < k + tr"
      proof (rule ccontr)
        assume "\<not> i < k"
        then obtain j where "i = k + j" "j < tr" using \<open>i < k + tr\<close> le_Suc_ex not_less by fastforce
        moreover have "k mod 64 + j < 64" using calculation tr(4) by simp
        ultimately have "i div 64 = k div 64" "i mod 64 = k mod 64 + j"
          using div_mod_64_add[of k j] by simp_all
        then show False using False by simp
      qed
      then show ?thesis using False bits[of i] old by auto
    qed
  qed
  moreover have "length ws' = length ws" by (simp add: ws'_def)
  moreover have "subarray_step v xz_to_0 s = (if \<not> xz_to_0 \<and> \<not> known_bits v (adr + k) tr then None
      else Some \<lparr>sub_adr = adr + (k + tr), sub_wid = wid - (k + tr), val_ptr = (k + tr) div 64,
        val_off = (k + tr) mod 64, sub_val = ws'\<rparr>)"
  proof -
    have "(k + tr) div 64 = (if k mod 64 + tr = 64 then k div 64 + 1 else k div 64)"
      "(k + tr) mod 64 = (if k mod 64 + tr = 64 then 0 else k mod 64 + tr)"
      using tr(4) div_mod_64_add[of k tr] div_mod_64_full[of k tr] by auto
    then show ?thesis
      unfolding xz[symmetric] s subarray_step_def Let_def subarray_state.simps
      unfolding off_def[symmetric] unfolding t1_def[symmetric] unfolding tr_def[symmetric]
      unfolding chunk_def[symmetric] unfolding a_def[symmetric] unfolding ws'_def[symmetric]
      by (auto simp: add.assoc)
  qed
  ultimately have "if \<not> xz_to_0 \<and> \<not> known_bits v (adr + k) tr then subarray_step v xz_to_0 s = None
     else \<exists>ws'. subarray_step v xz_to_0 s = Some \<lparr>sub_adr = adr + (k + tr), sub_wid = wid - (k + tr),
        val_ptr = (k + tr) div 64, val_off = (k + tr) mod 64, sub_val = ws'\<rparr> \<and>
        length ws' = length ws \<and> fetched v adr (k + tr) ws'"
    by (cases "\<not> xz_to_0 \<and> \<not> known_bits v (adr + k) tr") (simp_all only: if_True if_False simp_thms, blast)
  then show thesis by (rule that[OF tr(1,2)])
qed


lemma subarray_loop_result:
  assumes "length ws = word_count wid" "fetched v adr k ws" "known_bits v adr k \<or> xz_to_0" "k \<le> wid"
  shows "\<exists>r. subarray_loop v xz_to_0 \<lparr>sub_adr = adr + k, sub_wid = wid - k, val_ptr = k div 64, val_off = k mod 64, sub_val = ws\<rparr> = Some r \<and>
    (if \<not> xz_to_0 \<and> \<not> known_bits v adr wid then r = None
     else \<exists>ws'. r = Some ws' \<and> length ws' = word_count wid \<and> fetched v adr wid ws')"
  using assms
proof (induction "wid - k" arbitrary: k ws rule: less_induct)
  case (less k ws)
  show ?case
  proof (cases "k < wid")
    case False
    then have "k = wid" using less.prems by simp
    then show ?thesis using less.prems by (subst subarray_loop.simps) auto
  next
    case True
    let ?s = "\<lparr>sub_adr = adr + k, sub_wid = wid - k, val_ptr = k div 64, val_off = k mod 64, sub_val = ws\<rparr>"
    obtain tr where tr: "0 < tr" "tr \<le> wid - k" and
      step: "if \<not> xz_to_0 \<and> \<not> known_bits v (adr + k) tr then subarray_step v xz_to_0 ?s = None
       else \<exists>ws'. subarray_step v xz_to_0 ?s = Some \<lparr>sub_adr = adr + (k + tr), sub_wid = wid - (k + tr),
          val_ptr = (k + tr) div 64, val_off = (k + tr) mod 64, sub_val = ws'\<rparr> \<and>
          length ws' = length ws \<and> fetched v adr (k + tr) ws'"
      by (rule subarray_step_inv[OF refl True less.prems(1,2), of xz_to_0])
    have cut: "known_bits v adr (k + tr) \<longleftrightarrow> known_bits v adr k \<and> known_bits v (adr + k) tr"
      unfolding known_bits_def
      by (auto simp: add.assoc) (metis add_diff_inverse_nat less_diff_conv2 nat_add_left_cancel_less not_less)
    show ?thesis
    proof (cases "\<not> xz_to_0 \<and> \<not> known_bits v (adr + k) tr")
      case bad: True
      then have "\<not> known_bits v adr wid"
        using tr True by (auto simp: known_bits_def add.assoc) (metis add.commute add_less_mono1 le_add_diff_inverse2 less_imp_le less_le_trans)
      then show ?thesis using bad step True by (subst subarray_loop.simps) simp
    next
      case good: False
      then obtain ws' where ws': "subarray_step v xz_to_0 ?s = Some \<lparr>sub_adr = adr + (k + tr), sub_wid = wid - (k + tr),
          val_ptr = (k + tr) div 64, val_off = (k + tr) mod 64, sub_val = ws'\<rparr>"
          "length ws' = length ws" "fetched v adr (k + tr) ws'"
        using step by auto
      have "known_bits v adr (k + tr) \<or> xz_to_0" using good less.prems(3) cut by auto
      then show ?thesis
        using less.hyps[of "k + tr" ws'] tr True less.prems(1) ws'
        by (subst subarray_loop.simps) simp
    qed
  qed
qed

text \<open>\<^verbatim>\<open>subarray\<close> ends for every part of a vector, and returns its bits as words of the machine with
  the unused high bits clear; an X or Z bit in the part gives a null pointer, or reads as 0
  when the caller asked for that.\<close>

lemma vec4_subarray_bits:
  assumes "vec4_wf v" "adr + wid \<le> vec_size v" "0 < wid"
  shows "\<exists>r. vec4_subarray v adr wid z = Some r \<and>
    (if \<not> z \<and> (\<exists>i<wid. bit4_is_xz (vec4_value v (adr + i))) then r = None
     else \<exists>ws. r = Some ws \<and> length ws = word_count wid \<and>
       (\<forall>i<64 * word_count wid. plane_bit ws i \<longleftrightarrow> i < wid \<and> vec4_value v (adr + i) = BIT4_1))"
proof -
  have one: "vec4_value v (adr + i) = BIT4_1 \<longleftrightarrow> plane_bit (abits v) (adr + i) \<and> \<not> plane_bit (bbits v) (adr + i)"
    and xz: "bit4_is_xz (vec4_value v (adr + i)) \<longleftrightarrow> plane_bit (bbits v) (adr + i)" if "i < wid" for i
    using that assms(2) by (auto simp: vec4_value_planes bit4_ab_def)
  have "\<exists>r. vec4_subarray v adr wid z = Some r \<and>
    (if \<not> z \<and> \<not> known_bits v adr wid then r = None
     else \<exists>ws. r = Some ws \<and> length ws = word_count wid \<and> fetched v adr wid ws)"
  proof (cases "vec_size v \<le> 64")
    case False
    have "fetched v adr 0 (replicate (word_count wid) 0)"
      by (simp add: fetched_def plane_bit_def less_mult_imp_div_less mult.commute)
    then show ?thesis
      using subarray_loop_result[of "replicate (word_count wid) 0" wid v adr 0 z] False
      by (simp add: vec4_subarray_def known_bits_def)
  next
    case True
    define tb where "tb ws = (if wid < 64 then shr (ws ! 0) adr AND (shl 1 wid - 1) else shr (ws ! 0) adr)" for ws
    have small: "adr < 64" "wid \<le> 64" using True assms by auto
    have tb: "bit (tb ws) j \<longleftrightarrow> j < wid \<and> plane_bit ws (adr + j)" if "j < 64" for ws j
    proof -
      have "adr div 64 = 0" "adr = adr mod 64" "wid \<le> 64 - adr" using small assms True by auto
      then show ?thesis using bit_chunk[of adr adr wid j ws] that by (simp only: tb_def)
    qed
    have z0: "tb (bbits v) = 0 \<longleftrightarrow> known_bits v adr wid"
      using tb[of _ "bbits v"] small by (auto simp: u64_zero_iff known_bits_def)
    define a where "a = (if tb (bbits v) \<noteq> 0 then tb (abits v) AND NOT (tb (bbits v)) else tb (abits v))"
    have a: "bit a j \<longleftrightarrow> j < wid \<and> plane_bit (abits v) (adr + j) \<and> \<not> plane_bit (bbits v) (adr + j)" if "j < 64" for j
      using tb[OF that, of "abits v"] tb[OF that, of "bbits v"] that
      by (cases "tb (bbits v) = 0") (auto simp: a_def bit_and_iff bit_not_iff)
    have wc: "word_count wid = 1" using small assms(3) by (intro div_nat_eqI) auto
    have fetch: "fetched v adr wid [a]" using a by (auto simp: fetched_def plane_bit_def)
    have cell: "(replicate (word_count wid) 0)[0 := a] = [a]" unfolding wc by simp
    have code: "vec4_subarray v adr wid z = (if tb (bbits v) \<noteq> 0 \<and> \<not> z then Some None else Some (Some [a]))"
      unfolding vec4_subarray_def Let_def
      unfolding tb_def[symmetric]
      unfolding a_def[symmetric] if_P[OF True] cell by (rule refl)
    show ?thesis
    proof (cases "\<not> z \<and> \<not> known_bits v adr wid")
      case bad: True
      then show ?thesis using z0 unfolding code by simp
    next
      case False
      then have "\<not> (tb (bbits v) \<noteq> 0 \<and> \<not> z)" using z0 by blast
      then show ?thesis using fetch wc False unfolding code by (simp only: if_False) auto
    qed
  qed
  moreover have kn: "known_bits v adr wid \<longleftrightarrow> \<not> (\<exists>i<wid. bit4_is_xz (vec4_value v (adr + i)))"
    using xz by (auto simp: known_bits_def)
  moreover have ft: "fetched v adr wid ws \<longleftrightarrow>
      (\<forall>i<64 * word_count wid. plane_bit ws i \<longleftrightarrow> i < wid \<and> vec4_value v (adr + i) = BIT4_1)"
    if "length ws = word_count wid" for ws
    using one that by (auto simp: fetched_def)
  ultimately show ?thesis by (simp only: kn ft not_not cong: conj_cong)
qed

section \<open>Packed memories\<close>

text \<open>A cell of a memory (\<^verbatim>\<open>v4cell\<close>). For a width of at most 64 it holds the two words; for a wider
  one a null pointer (\<open>None\<close>) stands for a word that was never written.\<close>

type_synonym v4cell = "(u64 list \<times> u64 list) option"

record vvp_vector4array_t =
  array_width :: nat
  array_words :: nat

definition v4cell_set_word :: "vvp_vector4array_t \<Rightarrow> v4cell \<Rightarrow> vvp_vector4_t \<Rightarrow> v4cell option" where
  "v4cell_set_word arr cell that =
     (if vec_size that \<noteq> array_width arr then None
      else if array_width arr \<le> 64 then Some (Some ([abits that ! 0], [bbits that ! 0]))
      else
        let cnt = (array_width arr + 63) div 64
        in Some (Some (map (\<lambda>idx. abits that ! idx) [0..<cnt], map (\<lambda>idx. bbits that ! idx) [0..<cnt])))"

definition v4cell_get_word :: "vvp_vector4array_t \<Rightarrow> v4cell \<Rightarrow> vvp_vector4_t" where
  "v4cell_get_word arr cell =
     (let width = array_width arr
      in if width \<le> 64
         then case cell of
                None \<Rightarrow> vec4_new width BIT4_X
              | Some (a, b) \<Rightarrow> \<lparr>vec_size = width, abits = [a ! 0], bbits = [b ! 0]\<rparr>
         else case cell of
                None \<Rightarrow> vec4_new width BIT4_X
              | Some (a, b) \<Rightarrow>
                  let cnt = (width + 63) div 64
                  in \<lparr>vec_size = width, abits = map (\<lambda>idx. a ! idx) [0..<cnt], bbits = map (\<lambda>idx. b ! idx) [0..<cnt]\<rparr>)"

text \<open>The constructor of the static array, and \<^verbatim>\<open>alloc_instance\<close> of the automatic one.\<close>

definition v4cells_new :: "vvp_vector4array_t \<Rightarrow> v4cell list" where
  "v4cells_new arr =
     (if array_width arr \<le> 64
      then map (\<lambda>_. Some ([WORD_ABITS BIT4_X], [WORD_BBITS BIT4_X])) [0..<array_words arr]
      else map (\<lambda>_. None) [0..<array_words arr])"

definition v4cells_reset :: "vvp_vector4array_t \<Rightarrow> v4cell list \<Rightarrow> v4cell list" where
  "v4cells_reset arr cells =
     (if array_width arr \<le> 64
      then update_cells (\<lambda>_ _. Some ([WORD_ABITS BIT4_X], [WORD_BBITS BIT4_X])) [0..<array_words arr] cells
      else
        let cnt = (array_width arr + 63) div 64
        in update_cells
             (\<lambda>_ cell. case cell of
                None \<Rightarrow> None
              | Some (a, b) \<Rightarrow> Some (update_cells (\<lambda>_ _. WORD_ABITS BIT4_X) [0..<cnt] a,
                                    update_cells (\<lambda>_ _. WORD_BBITS BIT4_X) [0..<cnt] b))
             [0..<array_words arr] cells)"

definition v4array_set_word ::
  "vvp_vector4array_t \<Rightarrow> v4cell list \<Rightarrow> nat \<Rightarrow> vvp_vector4_t \<Rightarrow> v4cell list option" where
  "v4array_set_word arr cells index that =
     (if index < array_words arr
      then case v4cell_set_word arr (cells ! index) that of
             None \<Rightarrow> None | Some cell \<Rightarrow> Some (cells[index := cell])
      else None)"

definition v4array_get_word :: "vvp_vector4array_t \<Rightarrow> v4cell list \<Rightarrow> nat \<Rightarrow> vvp_vector4_t" where
  "v4array_get_word arr cells index =
     (if index \<ge> array_words arr then vec4_new (array_width arr) BIT4_X
      else v4cell_get_word arr (cells ! index))"

text \<open>The invariant of the cells: the arrays behind the pointers have the words of one vector.\<close>

definition v4cells_wf :: "vvp_vector4array_t \<Rightarrow> v4cell list \<Rightarrow> bool" where
  "v4cells_wf arr cells \<longleftrightarrow> length cells = array_words arr \<and>
     (\<forall>cell\<in>set cells. case cell of
        None \<Rightarrow> 64 < array_width arr
      | Some (a, b) \<Rightarrow> length a = nwords (array_width arr) \<and> length b = nwords (array_width arr))"

text \<open>The interface of a memory of words of one width, as the rest of the runtime uses it.\<close>

locale word_memory =
  fixes mem_wf :: "'m \<Rightarrow> bool"
    and mem_get :: "'m \<Rightarrow> nat \<Rightarrow> 'w"
    and mem_set :: "'m \<Rightarrow> nat \<Rightarrow> 'w \<Rightarrow> 'm option"
    and word_ok :: "'w \<Rightarrow> bool"
    and mem_words :: nat
  assumes set_word: "mem_wf m \<Longrightarrow> word_ok w \<Longrightarrow> i < mem_words \<Longrightarrow>
      \<exists>m'. mem_set m i w = Some m' \<and> mem_wf m' \<and> (\<forall>j<mem_words. mem_get m' j = (if j = i then w else mem_get m j))"
begin

text \<open>Filling the memory word by word, as a data file is loaded.\<close>

lemma fill_words:
  assumes "mem_wf m" "length ws \<le> mem_words" "\<forall>w\<in>set ws. word_ok w"
  shows "\<exists>m'. foldM (\<lambda>i m. mem_set m i (ws ! i)) [0..<length ws] m = Some m' \<and>
    (mem_wf m' \<and> (\<forall>j<mem_words. mem_get m' j = (if j < length ws then ws ! j else mem_get m j)))"
proof (rule foldM_upt_inv[where P = "\<lambda>k m'. mem_wf m' \<and> (\<forall>j<mem_words. mem_get m' j = (if j < k then ws ! j else mem_get m j))"])
  show "mem_wf m \<and> (\<forall>j<mem_words. mem_get m j = (if j < 0 then ws ! j else mem_get m j))"
    using assms(1) by simp
next
  fix i m1 assume i: "i < length ws" and inv: "mem_wf m1 \<and> (\<forall>j<mem_words. mem_get m1 j = (if j < i then ws ! j else mem_get m j))"
  then obtain m2 where "mem_set m1 i (ws ! i) = Some m2" "mem_wf m2"
    "\<forall>j<mem_words. mem_get m2 j = (if j = i then ws ! i else mem_get m1 j)"
    using set_word[of m1 "ws ! i" i] assms(2,3) by auto
  then show "\<exists>m'. mem_set m1 i (ws ! i) = Some m' \<and> mem_wf m' \<and>
      (\<forall>j<mem_words. mem_get m' j = (if j < Suc i then ws ! j else mem_get m j))"
    using inv by (auto simp: less_Suc_eq)
qed

end

definition vec4_of_width :: "nat \<Rightarrow> vvp_vector4_t \<Rightarrow> bool" where
  "vec4_of_width n v \<longleftrightarrow> vec4_wf v \<and> vec_size v = n"

lemma v4array_set_get:
  assumes "v4cells_wf arr cells" "vec4_of_width (array_width arr) v" "i < array_words arr"
  shows "\<exists>cells'. v4array_set_word arr cells i v = Some cells' \<and> v4cells_wf arr cells' \<and>
    (\<forall>j<array_words arr. v4array_get_word arr cells' j = (if j = i then v else v4array_get_word arr cells j))"
proof -
  have len: "length cells = array_words arr" using assms(1) by (simp add: v4cells_wf_def)
  have v: "vec_size v = array_width arr" "length (abits v) = nwords (array_width arr)" "length (bbits v) = nwords (array_width arr)"
    using assms(2) by (auto simp: vec4_of_width_def vec4_wf_def)
  define cell :: v4cell where "cell = Some (abits v, bbits v)"
  have all: "map (\<lambda>idx. ws ! idx) [0..<length ws] = ws" for ws :: "u64 list" by (rule map_nth)
  have one: "\<exists>w. ws = [w]" if "length ws = Suc 0" for ws :: "u64 list" using that by (simp add: length_Suc_conv)
  have set_cell: "v4cell_set_word arr c v = Some cell" for c
    using v one[of "abits v"] one[of "bbits v"] all[of "abits v"] all[of "bbits v"]
    by (cases "array_width arr \<le> 64") (auto simp: v4cell_set_word_def cell_def Let_def)
  have get_cell: "v4cell_get_word arr cell = v"
    using v one[of "abits v"] one[of "bbits v"] all[of "abits v"] all[of "bbits v"]
    by (cases "array_width arr \<le> 64") (auto simp: v4cell_get_word_def cell_def Let_def)
  have "set (cells[i := cell]) \<subseteq> insert cell (set cells)" by (rule set_update_subset_insert)
  then have "v4cells_wf arr (cells[i := cell])"
    using assms(1) v by (fastforce simp: v4cells_wf_def cell_def)
  then show ?thesis
    using set_cell get_cell assms(3) len by (simp add: v4array_set_word_def v4array_get_word_def)
qed

interpretation v4array: word_memory "v4cells_wf arr" "v4array_get_word arr" "v4array_set_word arr"
    "vec4_of_width (array_width arr)" "array_words arr" for arr
  by unfold_locales (rule v4array_set_get)

lemma v4cell_x:
  assumes "\<forall>a b. cell = Some (a, b) \<longrightarrow> length a = nwords (array_width arr) \<and> length b = nwords (array_width arr) \<and>
      set a \<subseteq> {- 1} \<and> set b \<subseteq> {- 1}"
  shows "vec4_bits (v4cell_get_word arr cell) = replicate (array_width arr) BIT4_X"
proof (cases cell)
  case None
  then show ?thesis
    by (auto simp: v4cell_get_word_def Let_def list_eq_iff_nth_eq vec4_new_wf vec4_value_new)
next
  case (Some ab)
  then obtain a b where ab: "cell = Some (a, b)" by (cases ab) auto
  then have len: "length a = nwords (array_width arr)" "length b = nwords (array_width arr)"
    and ones: "\<And>k. k < nwords (array_width arr) \<Longrightarrow> a ! k = - 1 \<and> b ! k = - 1"
    using assms by (auto simp: subset_iff in_set_conv_nth) metis+
  show ?thesis
  proof (cases "array_width arr \<le> 64")
    case True
    then show ?thesis
      using ab ones[of 0] by (intro vec4_bits_x) (auto simp: v4cell_get_word_def plane_bit_def bit_minus_1_iff)
  next
    case False
    then show ?thesis
      using ab ones div_less_word_count
      by (intro vec4_bits_x) (auto simp: v4cell_get_word_def plane_bit_def bit_minus_1_iff Let_def)
  qed
qed

text \<open>C31. A packed memory, static or automatic: all words are X after allocation and after the reset
  of an automatic instance, a write of a vector of the right width changes exactly the word
  it names, and a read beyond the last word is X.\<close>

theorem v4array_memory:
  assumes "v4cells_wf arr cells" "vec4_of_width (array_width arr) v" "i < array_words arr"
  shows "(\<exists>cells'. v4array_set_word arr cells i v = Some cells' \<and> v4cells_wf arr cells' \<and>
      (\<forall>j. v4array_get_word arr cells' j = (if j = i then v else v4array_get_word arr cells j))) \<and>
    v4cells_wf arr (v4cells_new arr) \<and> v4cells_wf arr (v4cells_reset arr cells) \<and>
    (\<forall>j. vec4_bits (v4array_get_word arr (v4cells_new arr) j) = replicate (array_width arr) BIT4_X) \<and>
    (\<forall>j. vec4_bits (v4array_get_word arr (v4cells_reset arr cells) j) = replicate (array_width arr) BIT4_X)"
proof (intro conjI)
  have len: "length cells = array_words arr" using assms(1) by (simp add: v4cells_wf_def)
  have beyond: "vec4_bits (v4array_get_word arr cs j) = replicate (array_width arr) BIT4_X" if "array_words arr \<le> j" for cs j
    using that by (simp add: v4array_get_word_def list_eq_iff_nth_eq vec4_new_wf vec4_value_new)
  show "\<exists>cells'. v4array_set_word arr cells i v = Some cells' \<and> v4cells_wf arr cells' \<and>
      (\<forall>j. v4array_get_word arr cells' j = (if j = i then v else v4array_get_word arr cells j))"
    using v4array.set_word[OF assms] assms(3) by (fastforce simp: v4array_get_word_def)
  show new_wf: "v4cells_wf arr (v4cells_new arr)" by (auto simp: v4cells_wf_def v4cells_new_def)
  have cell_len: "length a = nwords (array_width arr) \<and> length b = nwords (array_width arr)"
    if "j < array_words arr" "cells ! j = Some (a, b)" for j a b
    using assms(1) that len unfolding v4cells_wf_def by (metis (mono_tags, lifting) nth_mem option.simps(5) case_prod_conv)
  have x: "update_cells (\<lambda>_ _. c) [0..<length ws] ws = replicate (length ws) c" for c :: u64 and ws
    by (rule nth_equalityI) (simp_all add: nth_update_cells)
  have reset: "v4cells_reset arr cells ! j =
      (if array_width arr \<le> 64 then Some ([- 1], [- 1])
       else map_option (\<lambda>_. (replicate (nwords (array_width arr)) (- 1), replicate (nwords (array_width arr)) (- 1))) (cells ! j))"
    if "j < array_words arr" for j
    using that len cell_len[OF that] x
    by (auto simp: v4cells_reset_def nth_update_cells WORD_ABITS_def WORD_BBITS_def Let_def split: option.splits) metis+
  have reset_len: "length (v4cells_reset arr cells) = array_words arr" using len by (simp add: v4cells_reset_def Let_def)
  show "v4cells_wf arr (v4cells_reset arr cells)"
    unfolding v4cells_wf_def
  proof (intro conjI ballI)
    fix cell assume "cell \<in> set (v4cells_reset arr cells)"
    then obtain j where j: "j < array_words arr" "cell = v4cells_reset arr cells ! j"
      using reset_len by (metis in_set_conv_nth)
    show "case cell of None \<Rightarrow> 64 < array_width arr
        | Some (a, b) \<Rightarrow> length a = nwords (array_width arr) \<and> length b = nwords (array_width arr)"
      using j reset[OF j(1)] by (cases "cells ! j") auto
  qed (rule reset_len)
  show "\<forall>j. vec4_bits (v4array_get_word arr (v4cells_new arr) j) = replicate (array_width arr) BIT4_X"
  proof
    fix j
    show "vec4_bits (v4array_get_word arr (v4cells_new arr) j) = replicate (array_width arr) BIT4_X"
    proof (cases "j < array_words arr")
      case True
      then show ?thesis
        by (simp add: v4array_get_word_def)
          (rule v4cell_x, auto simp: v4cells_new_def WORD_ABITS_def WORD_BBITS_def)
    qed (use beyond in simp)
  qed
  show "\<forall>j. vec4_bits (v4array_get_word arr (v4cells_reset arr cells) j) = replicate (array_width arr) BIT4_X"
  proof
    fix j
    show "vec4_bits (v4array_get_word arr (v4cells_reset arr cells) j) = replicate (array_width arr) BIT4_X"
    proof (cases "j < array_words arr")
      case True
      then show ?thesis
        by (simp add: v4array_get_word_def)
          (rule v4cell_x, auto simp: reset[OF True] split: if_splits)
    qed (use beyond in simp)
  qed
qed

theorem v4array_memory_witness:
  "vec4_bits (v4array_get_word \<lparr>array_width = 2, array_words = 3\<rparr> (v4cells_new \<lparr>array_width = 2, array_words = 3\<rparr>) 1) =
     [BIT4_X, BIT4_X]"
proof -
  have wf: "v4cells_wf \<lparr>array_width = 2, array_words = 3\<rparr> (v4cells_new \<lparr>array_width = 2, array_words = 3\<rparr>)"
    by (auto simp: v4cells_wf_def v4cells_new_def)
  show ?thesis
    using v4array_memory[OF wf, of "vec4_new 2 BIT4_0" 1] by (simp add: vec4_of_width_def vec4_new_wf numeral_2_eq_2)
qed

end
