(* ===== verification/Strength.thy ===== *)
theory Strength
  imports Vector4_Bitwise "HOL-Library.Multiset"
begin

text \<open>
  Values with drive strength (\<^verbatim>\<open>vvp_scalar_t\<close> of \<^verbatim>\<open>vvp_net.h\<close> and \<^verbatim>\<open>vvp_net.cc\<close>) and the resolution
  of two drivers of a net. The byte holds two nibbles \<^verbatim>\<open>VSSS\<close>: the high one is the end of the range
  of strengths nearest to supply 1, the low one the end nearest to supply 0. The abstract side is
  \<open>strongest\<close>: the strengths of the strongest driver to 0 and of the strongest driver to 1.
\<close>

section \<open>Scalars\<close>

datatype vvp_scalar_t = vvp_scalar (raw: "8 word")

definition scalar_hiz :: vvp_scalar_t where
  "scalar_hiz = vvp_scalar 0"

definition scalar_make :: "vvp_bit4_t \<Rightarrow> nat \<Rightarrow> nat \<Rightarrow> vvp_scalar_t option" where
  "scalar_make val str0 str1 =
     (if \<not> (str0 \<le> 7 \<and> str1 \<le> 7) then None
      else if str0 = 0 \<and> str1 = 0 then Some (vvp_scalar 0)
      else Some (vvp_scalar
        (let s0 = of_nat str0; s1 = of_nat str1
         in case val of
              BIT4_0 \<Rightarrow> s0 OR push_bit 4 s0
            | BIT4_1 \<Rightarrow> s1 OR push_bit 4 s1 OR 0x88
            | BIT4_X \<Rightarrow> s0 OR push_bit 4 s1 OR 0x80
            | BIT4_Z \<Rightarrow> 0)))"

definition scalar_value :: "vvp_scalar_t \<Rightarrow> vvp_bit4_t" where
  "scalar_value a =
     (if raw a AND 0x77 = 0 then BIT4_Z
      else let v = raw a AND 0x88 in if v = 0 then BIT4_0 else if v = 0x88 then BIT4_1 else BIT4_X)"

definition scalar_eeq :: "vvp_scalar_t \<Rightarrow> vvp_scalar_t \<Rightarrow> bool" where
  "scalar_eeq a that \<longleftrightarrow> raw a = raw that"

definition scalar_is_hiz :: "vvp_scalar_t \<Rightarrow> bool" where
  "scalar_is_hiz a \<longleftrightarrow> raw a AND 0x77 = 0"

definition UNAMBIG :: "8 word \<Rightarrow> bool" where
  "UNAMBIG v \<longleftrightarrow> v AND 0x0f = drop_bit 4 v AND 0x0f"

definition STREN1 :: "8 word \<Rightarrow> nat" where
  "STREN1 v = unat (drop_bit 4 (v AND 0x70))"

definition STREN0 :: "8 word \<Rightarrow> nat" where
  "STREN0 v = unat (v AND 0x07)"

definition scalar_strength0 :: "vvp_scalar_t \<Rightarrow> nat" where
  "scalar_strength0 a = STREN0 (raw a)"

definition scalar_strength1 :: "vvp_scalar_t \<Rightarrow> nat" where
  "scalar_strength1 a = STREN1 (raw a)"

section \<open>Resolution of two drivers\<close>

text \<open>An unambiguous signal \<open>u\<close> sweeps up the weaker ends of an ambiguous one \<open>m\<close>.\<close>

definition resolv_sweep :: "8 word \<Rightarrow> 8 word \<Rightarrow> 8 word" where
  "resolv_sweep u m =
     (let res = 0;
          res = (if u AND 0x70 > m AND 0x70 then res OR (u AND 0xf0) else res OR (m AND 0xf0));
          res = (if u AND 0x07 > m AND 0x07 then res OR (u AND 0x0f) else res OR (m AND 0x0f))
      in res)"

text \<open>Two ambiguous signals: the strongest end to 1 and the strongest end to 0 of both ranges.\<close>

definition resolv_widen :: "8 word \<Rightarrow> 8 word \<Rightarrow> 8 word" where
  "resolv_widen a b =
     (let sv1a = (if a AND 0x80 \<noteq> 0 then int (STREN1 a) else - int (STREN1 a));
          sv0a = (if a AND 0x08 \<noteq> 0 then int (STREN0 a) else - int (STREN0 a));
          sv1b = (if b AND 0x80 \<noteq> 0 then int (STREN1 b) else - int (STREN1 b));
          sv0b = (if b AND 0x08 \<noteq> 0 then int (STREN0 b) else - int (STREN0 b));
          sv1 = sv1a;
          sv0 = sv0a;
          sv1 = (if sv0a > sv1 then sv0a else sv1);
          sv1 = (if sv1b > sv1 then sv1b else sv1);
          sv1 = (if sv0b > sv1 then sv0b else sv1);
          sv0 = (if sv1a < sv0 then sv1a else sv0);
          sv0 = (if sv1b < sv0 then sv1b else sv0);
          sv0 = (if sv0b < sv0 then sv0b else sv0);
          tmp = 0;
          tmp = (if sv1 > 0 then tmp OR 0x80 OR push_bit 4 (word_of_int sv1)
                 else tmp OR ((a AND b) AND 0x80) OR push_bit 4 (word_of_int (- sv1)));
          tmp = (if sv0 > 0 then tmp OR 0x08 OR word_of_int sv0 else tmp OR word_of_int (- sv0))
      in if tmp AND 0x77 = 0 then 0 else tmp)"

definition fully_featured_resolv :: "vvp_scalar_t \<Rightarrow> vvp_scalar_t \<Rightarrow> vvp_scalar_t" where
  "fully_featured_resolv a b =
     (if UNAMBIG (raw a) \<and> UNAMBIG (raw b)
      then if raw b AND 0x07 > raw a AND 0x07 then b
           else if raw b AND 0x77 = raw a AND 0x77 then vvp_scalar ((raw a AND 0x77) OR 0x80)
           else a
      else if UNAMBIG (raw a) then vvp_scalar (resolv_sweep (raw a) (raw b))
      else if UNAMBIG (raw b) then vvp_scalar (resolv_sweep (raw b) (raw a))
      else vvp_scalar (resolv_widen (raw a) (raw b)))"

definition scalar_resolve :: "vvp_scalar_t \<Rightarrow> vvp_scalar_t \<Rightarrow> vvp_scalar_t" where
  "scalar_resolve a b =
     (if scalar_is_hiz a then b
      else if scalar_is_hiz b then a
      else if scalar_eeq a b then a
      else fully_featured_resolv a b)"

section \<open>The abstract net\<close>

text \<open>The signal of a net whose strongest driver to 0 has strength \<open>s0\<close> and whose strongest driver
  to 1 has strength \<open>s1\<close>, 0 for no driver.\<close>

definition strongest :: "nat \<Rightarrow> nat \<Rightarrow> vvp_scalar_t" where
  "strongest s0 s1 =
     (if s0 = 0 \<and> s1 = 0 then vvp_scalar 0
      else if s1 < s0 then vvp_scalar (of_nat (17 * s0))
      else if s0 < s1 then vvp_scalar (of_nat (17 * s1 + 0x88))
      else vvp_scalar (of_nat (17 * s0 + 0x80)))"

lemmas resolve_defs = scalar_resolve_def strongest_def scalar_is_hiz_def scalar_eeq_def
  fully_featured_resolv_def UNAMBIG_def resolv_sweep_def resolv_widen_def STREN0_def STREN1_def

lemma strength_cases: "s \<in> {1..<8} \<Longrightarrow> s = 1 \<or> s = 2 \<or> s = 3 \<or> s = 4 \<or> s = 5 \<or> s = 6 \<or> s = (7 :: nat)"
  by auto

text \<open>The three kinds of signal against each other, every strength against every strength.\<close>

lemma net_0_0: "s \<in> {1..<8} \<Longrightarrow> t \<in> {1..<8} \<Longrightarrow>
    scalar_resolve (strongest s 0) (strongest t 0) = strongest (max s t) 0"
  by (drule strength_cases, drule strength_cases, elim disjE) (simp_all add: resolve_defs)

lemma net_1_1: "s \<in> {1..<8} \<Longrightarrow> t \<in> {1..<8} \<Longrightarrow>
    scalar_resolve (strongest 0 s) (strongest 0 t) = strongest 0 (max s t)"
  by (drule strength_cases, drule strength_cases, elim disjE) (simp_all add: resolve_defs)

lemma net_x_x: "s \<in> {1..<8} \<Longrightarrow> t \<in> {1..<8} \<Longrightarrow>
    scalar_resolve (strongest s s) (strongest t t) = strongest (max s t) (max s t)"
  by (drule strength_cases, drule strength_cases, elim disjE) (simp_all add: resolve_defs)

lemma net_0_1: "s \<in> {1..<8} \<Longrightarrow> t \<in> {1..<8} \<Longrightarrow>
    scalar_resolve (strongest s 0) (strongest 0 t) = strongest s t"
  by (drule strength_cases, drule strength_cases, elim disjE) (simp_all add: resolve_defs)

lemma net_0_x: "s \<in> {1..<8} \<Longrightarrow> t \<in> {1..<8} \<Longrightarrow>
    scalar_resolve (strongest s 0) (strongest t t) = strongest (max s t) t"
  by (drule strength_cases, drule strength_cases, elim disjE) (simp_all add: resolve_defs)

lemma net_1_x: "s \<in> {1..<8} \<Longrightarrow> t \<in> {1..<8} \<Longrightarrow>
    scalar_resolve (strongest 0 s) (strongest t t) = strongest t (max s t)"
  by (drule strength_cases, drule strength_cases, elim disjE) (simp_all add: resolve_defs)

lemma net_1_0: "s \<in> {1..<8} \<Longrightarrow> t \<in> {1..<8} \<Longrightarrow>
    scalar_resolve (strongest 0 s) (strongest t 0) = strongest t s"
  by (drule strength_cases, drule strength_cases, elim disjE) (simp_all add: resolve_defs)

lemma net_x_0: "s \<in> {1..<8} \<Longrightarrow> t \<in> {1..<8} \<Longrightarrow>
    scalar_resolve (strongest s s) (strongest t 0) = strongest (max s t) s"
  by (drule strength_cases, drule strength_cases, elim disjE) (simp_all add: resolve_defs)

lemma net_x_1: "s \<in> {1..<8} \<Longrightarrow> t \<in> {1..<8} \<Longrightarrow>
    scalar_resolve (strongest s s) (strongest 0 t) = strongest s (max s t)"
  by (drule strength_cases, drule strength_cases, elim disjE) (simp_all add: resolve_defs)

text \<open>A net only shows the stronger side, or both when they tie.\<close>

lemma strongest_dominated: "s1 < s0 \<Longrightarrow> strongest s0 s1 = strongest s0 0" "s0 < s1 \<Longrightarrow> strongest s0 s1 = strongest 0 s1"
  by (auto simp: strongest_def)

lemma strongest_hiz:
  assumes "s0 < 8" "s1 < 8"
  shows "scalar_is_hiz (strongest s0 s1) \<longleftrightarrow> s0 = 0 \<and> s1 = 0"
proof -
  have one: "\<not> scalar_is_hiz (strongest s 0)" "\<not> scalar_is_hiz (strongest 0 s)" "\<not> scalar_is_hiz (strongest s s)"
    if "s \<in> {1..<8}" for s
    using strength_cases[OF that] by (elim disjE; simp add: scalar_is_hiz_def strongest_def)+
  have zero: "scalar_is_hiz (strongest 0 0)" by (simp add: scalar_is_hiz_def strongest_def)
  consider "s1 < s0" | "s0 < s1" | "s0 = s1" by linarith
  then show ?thesis
    using one[of s0] one[of s1] assms
    by cases (auto simp: strongest_dominated(1)[of s1 s0] strongest_dominated(2)[of s0 s1] zero Suc_le_eq)
qed

lemma resolve_hiz: "scalar_resolve (strongest 0 0) b = b" "s0 < 8 \<Longrightarrow> s1 < 8 \<Longrightarrow> scalar_resolve (strongest s0 s1) (strongest 0 0) = strongest s0 s1"
  by (auto simp: scalar_resolve_def strongest_hiz)

lemma resolve_strongest:
  assumes "s0 < 8" "s1 < 8" "t0 < 8" "t1 < 8"
  shows "scalar_resolve (strongest s0 s1) (strongest t0 t1) = strongest (max s0 t0) (max s1 t1)"
proof -
  note left = strongest_dominated(1)[of s1 s0] strongest_dominated(2)[of s0 s1]
  note right = strongest_dominated(1)[of t1 t0] strongest_dominated(2)[of t0 t1]
  consider "s1 < s0" | "s0 < s1" | "s0 = s1" "0 < s0" | "s0 = 0" "s1 = 0" by linarith
  then show ?thesis
  proof cases
    case 1
    consider "t1 < t0" | "t0 < t1" | "t0 = t1" "0 < t0" | "t0 = 0" "t1 = 0" by linarith
    then show ?thesis
    proof cases
      case 1
      then have "strongest (max s0 t0) (max s1 t1) = strongest (max s0 t0) 0"
        using \<open>s1 < s0\<close> by (intro strongest_dominated(1)) auto
      then show ?thesis
        using net_0_0[of s0 t0] assms 1 \<open>s1 < s0\<close> by (simp add: left right)
    next
      case 2
      then have "strongest (max s0 t0) (max s1 t1) = strongest s0 t1"
        using \<open>s1 < s0\<close> by (auto simp: strongest_def max_def)
      then show ?thesis using net_0_1[of s0 t1] assms 2 \<open>s1 < s0\<close> by (simp add: left right)
    next
      case 3
      then have "strongest (max s0 t0) (max s1 t1) = strongest (max s0 t0) t0"
        using \<open>s1 < s0\<close> by (auto simp: strongest_def max_def)
      then show ?thesis using net_0_x[of s0 t0] assms 3 \<open>s1 < s0\<close> by (simp add: left right)
    qed (use assms in \<open>simp add: resolve_hiz\<close>)
  next
    case 2
    consider "t1 < t0" | "t0 < t1" | "t0 = t1" "0 < t0" | "t0 = 0" "t1 = 0" by linarith
    then show ?thesis
    proof cases
      case 1
      then have "strongest (max s0 t0) (max s1 t1) = strongest t0 s1"
        using \<open>s0 < s1\<close> by (auto simp: strongest_def max_def)
      then show ?thesis using net_1_0[of s1 t0] assms 1 \<open>s0 < s1\<close> by (simp add: left right)
    next
      case 2
      then have "strongest (max s0 t0) (max s1 t1) = strongest 0 (max s1 t1)"
        using \<open>s0 < s1\<close> by (intro strongest_dominated(2)) auto
      then show ?thesis
        using net_1_1[of s1 t1] assms 2 \<open>s0 < s1\<close> by (simp add: left right)
    next
      case 3
      then have "strongest (max s0 t0) (max s1 t1) = strongest t0 (max s1 t0)"
        using \<open>s0 < s1\<close> by (auto simp: strongest_def max_def)
      then show ?thesis using net_1_x[of s1 t0] assms 3 \<open>s0 < s1\<close> by (simp add: left right)
    qed (use assms in \<open>simp add: resolve_hiz\<close>)
  next
    case 3
    consider "t1 < t0" | "t0 < t1" | "t0 = t1" "0 < t0" | "t0 = 0" "t1 = 0" by linarith
    then show ?thesis
    proof cases
      case 1
      then have "strongest (max s0 t0) (max s1 t1) = strongest (max s0 t0) s0"
        using 3 by (auto simp: strongest_def max_def)
      then show ?thesis using net_x_0[of s0 t0] assms 1 3 by (simp add: left right)
    next
      case 2
      then have "strongest (max s0 t0) (max s1 t1) = strongest s0 (max s0 t1)"
        using 3 by (auto simp: strongest_def max_def)
      then show ?thesis using net_x_1[of s0 t1] assms 2 3 by (simp add: left right)
    next
      case 3
      then show ?thesis using net_x_x[of s0 t0] assms \<open>s0 = s1\<close> \<open>0 < s0\<close> by simp
    qed (use assms in \<open>simp add: resolve_hiz\<close>)
  next
    case 4
    then show ?thesis by (simp add: resolve_hiz)
  qed
qed


section \<open>Nets with many drivers\<close>

text \<open>The contract of a resolution function: on the signals of a net it is a semilattice with high
  impedance as its unit, so neither the order of the drivers nor a tree of partial resolutions matters.\<close>

locale resolver =
  fixes res :: "'s \<Rightarrow> 's \<Rightarrow> 's" and hiz :: 's and signal :: "'s \<Rightarrow> bool"
  assumes signal_hiz: "signal hiz"
    and signal_res: "signal a \<Longrightarrow> signal b \<Longrightarrow> signal (res a b)"
    and res_hiz: "signal a \<Longrightarrow> res hiz a = a"
    and res_commute: "signal a \<Longrightarrow> signal b \<Longrightarrow> res a b = res b a"
    and res_assoc: "signal a \<Longrightarrow> signal b \<Longrightarrow> signal c \<Longrightarrow> res (res a b) c = res a (res b c)"
    and res_idem: "signal a \<Longrightarrow> res a a = a"
begin

lemma fold_signal: "signal a \<Longrightarrow> \<forall>x\<in>set xs. signal x \<Longrightarrow> signal (fold res xs a)"
  by (induction xs arbitrary: a) (auto simp: signal_res)

lemma fold_res_out: "signal a \<Longrightarrow> signal b \<Longrightarrow> \<forall>x\<in>set xs. signal x \<Longrightarrow> fold res xs (res a b) = res a (fold res xs b)"
proof (induction xs arbitrary: b)
  case Nil
  then show ?case by simp
next
  case (Cons x xs)
  then have "res x (res a b) = res a (res x b)"
    by (metis list.set_intros(1) res_assoc res_commute)
  then show ?case using Cons by (simp add: signal_res)
qed

lemma fold_hiz: "signal a \<Longrightarrow> \<forall>x\<in>set xs. signal x \<Longrightarrow> fold res xs a = res a (fold res xs hiz)"
  using fold_res_out[of a hiz xs] by (metis res_commute res_hiz signal_hiz)

lemma resolve_concat:
  "\<forall>xs\<in>set xss. \<forall>x\<in>set xs. signal x \<Longrightarrow>
     fold res (map (\<lambda>xs. fold res xs hiz) xss) hiz = fold res (concat xss) hiz"
proof (induction xss)
  case Nil
  then show ?case by simp
next
  case (Cons xs xss)
  let ?h = "fold res xs hiz"
  have s: "signal ?h" using Cons.prems by (intro fold_signal) (auto simp: signal_hiz)
  have t: "\<forall>x\<in>set (map (\<lambda>xs. fold res xs hiz) xss). signal x"
    using Cons.prems by (auto intro!: fold_signal simp: signal_hiz)
  have "fold res (map (\<lambda>xs. fold res xs hiz) xss) (res ?h hiz) = res ?h (fold res (map (\<lambda>xs. fold res xs hiz) xss) hiz)"
    using fold_res_out[OF s signal_hiz t] .
  also have "\<dots> = res ?h (fold res (concat xss) hiz)" using Cons by simp
  also have "\<dots> = fold res (concat xss) ?h"
    using fold_hiz[of ?h "concat xss"] s Cons.prems by auto
  finally show ?case by simp
qed

lemma resolve_perm:
  assumes "mset xs = mset ys" "\<forall>x\<in>set xs. signal x"
  shows "fold res xs hiz = fold res ys hiz"
proof -
  have "fold res xs a = fold res ys a" if "signal a" for a
  using assms that
  proof (induction xs arbitrary: ys a)
    case Nil
    then show ?case by simp
  next
    case (Cons x xs)
    then have "x \<in> set ys" by (metis list.set_intros(1) mset_eq_setD)
    then obtain us vs where ys: "ys = us @ x # vs" by (meson split_list)
    have "set ys = set (x # xs)" using Cons.prems(1) by (rule mset_eq_setD[symmetric])
    then have sig: "signal x" "\<forall>y\<in>set ys. signal y" using Cons.prems(2) by auto
    then have "\<forall>y\<in>set us. signal y" "signal (res x a)" using ys Cons.prems(3) by (auto simp: signal_res)
    have "fold res xs (res x a) = fold res (us @ vs) (res x a)"
      using Cons.prems ys \<open>signal (res x a)\<close> by (intro Cons.IH) auto
    also have "fold res us (res x a) = res x (fold res us a)"
      using fold_res_out[of x a us] sig \<open>\<forall>y\<in>set us. signal y\<close> Cons.prems(3) by simp
    then have "fold res (us @ vs) (res x a) = fold res ys a" by (simp add: ys)
    finally show ?case by simp
  qed
  then show ?thesis using signal_hiz by blast
qed

end

definition net_signal :: "vvp_scalar_t \<Rightarrow> bool" where
  "net_signal a \<longleftrightarrow> (\<exists>s0<8. \<exists>s1<8. a = strongest s0 s1)"

interpretation net: resolver scalar_resolve scalar_hiz net_signal
proof unfold_locales
  show "net_signal scalar_hiz" by (auto simp: net_signal_def scalar_hiz_def strongest_def intro: exI[of _ 0])
  show "net_signal (scalar_resolve a b)" if ab: "net_signal a" "net_signal b" for a b
  proof -
    obtain a0 a1 b0 b1 where "a0 < 8" "a1 < 8" "b0 < 8" "b1 < 8" "a = strongest a0 a1" "b = strongest b0 b1"
      using ab unfolding net_signal_def by blast
    then show ?thesis
      unfolding net_signal_def by (intro exI[of _ "max a0 b0"] exI[of _ "max a1 b1"] conjI) (simp_all add: resolve_strongest)
  qed
  show "scalar_resolve scalar_hiz a = a" for a
    by (simp add: scalar_resolve_def scalar_is_hiz_def scalar_hiz_def)
  show "scalar_resolve a b = scalar_resolve b a" if ab: "net_signal a" "net_signal b" for a b
  proof -
    obtain a0 a1 b0 b1 where "a0 < 8" "a1 < 8" "b0 < 8" "b1 < 8" "a = strongest a0 a1" "b = strongest b0 b1"
      using ab unfolding net_signal_def by blast
    then show ?thesis by (simp add: resolve_strongest max.commute)
  qed
  show "scalar_resolve (scalar_resolve a b) c = scalar_resolve a (scalar_resolve b c)"
    if ab: "net_signal a" "net_signal b" "net_signal c" for a b c
  proof -
    obtain a0 a1 b0 b1 c0 c1 where sig: "a0 < 8" "a1 < 8" "b0 < 8" "b1 < 8" "c0 < 8" "c1 < 8"
      "a = strongest a0 a1" "b = strongest b0 b1" "c = strongest c0 c1"
      using ab unfolding net_signal_def by blast
    then show ?thesis by (simp add: resolve_strongest max.assoc)
  qed
  show "scalar_resolve a a = a" for a by (auto simp: scalar_resolve_def scalar_eeq_def)
qed

text \<open>A driver of a net: its value and the drive strengths it was declared with. A driver to 1
  without strength to 1 but with strength to 0 is left out: its byte is 0x88, high impedance in a
  second encoding. A driver to X drives both sides with one strength.\<close>

definition driver_ok :: "vvp_bit4_t \<times> nat \<times> nat \<Rightarrow> bool" where
  "driver_ok d \<longleftrightarrow> (case d of (val, str0, str1) \<Rightarrow> str0 < 8 \<and> str1 < 8 \<and>
     (val = BIT4_1 \<longrightarrow> str1 = 0 \<longrightarrow> str0 = 0) \<and> (val = BIT4_X \<longrightarrow> str0 = str1))"

definition drive0 :: "vvp_bit4_t \<times> nat \<times> nat \<Rightarrow> nat" where
  "drive0 d = (case d of (val, str0, str1) \<Rightarrow> if val = BIT4_0 \<or> val = BIT4_X then str0 else 0)"

definition drive1 :: "vvp_bit4_t \<times> nat \<times> nat \<Rightarrow> nat" where
  "drive1 d = (case d of (val, str0, str1) \<Rightarrow> if val = BIT4_1 \<or> val = BIT4_X then str1 else 0)"

lemma scalar_make_strongest:
  assumes "driver_ok (val, str0, str1)"
  shows "scalar_make val str0 str1 = Some (strongest (drive0 (val, str0, str1)) (drive1 (val, str0, str1)))"
proof -
  have b: "str0 = 0 \<or> str0 \<in> {1..<8}" "str1 = 0 \<or> str1 \<in> {1..<8}" using assms by (auto simp: driver_ok_def)
  have z: "of_nat s OR push_bit 4 (of_nat s) = (of_nat (17 * s) :: 8 word) \<and>
      of_nat s OR push_bit 4 (of_nat s) OR 0x88 = (of_nat (17 * s + 0x88) :: 8 word) \<and>
      of_nat s OR push_bit 4 (of_nat s) OR 0x80 = (of_nat (17 * s + 0x80) :: 8 word)" if "s \<in> {1..<8}" for s
    using strength_cases[OF that] by (elim disjE; simp)
  show ?thesis
    using assms b z[of str0] z[of str1]
    by (cases val) (auto simp: scalar_make_def driver_ok_def drive0_def drive1_def strongest_def Let_def)
qed

lemma drive_less: "driver_ok d \<Longrightarrow> drive0 d < 8" "driver_ok d \<Longrightarrow> drive1 d < 8"
  by (auto simp: driver_ok_def drive0_def drive1_def split: prod.splits)

lemma fold_strongest:
  assumes "\<forall>d\<in>set ds. driver_ok d" "s0 < 8" "s1 < 8"
  shows "fold scalar_resolve (map (\<lambda>d. strongest (drive0 d) (drive1 d)) ds) (strongest s0 s1) =
    strongest (fold max (map drive0 ds) s0) (fold max (map drive1 ds) s1)"
  using assms
proof (induction ds arbitrary: s0 s1)
  case Nil
  then show ?case by simp
next
  case (Cons d ds)
  have "drive0 d < 8" "drive1 d < 8" using Cons.prems(1) drive_less by auto
  then show ?case using Cons by (simp add: resolve_strongest)
qed

text \<open>The drivers of a net with the resolution functors between them, and the signal at the root.\<close>

datatype drivers = Driver vvp_bit4_t nat nat | Resolver "drivers list"

fun resolved :: "drivers \<Rightarrow> vvp_scalar_t" where
  "resolved (Driver val str0 str1) = the (scalar_make val str0 str1)"
| "resolved (Resolver ts) = fold scalar_resolve (map resolved ts) scalar_hiz"

fun leaves :: "drivers \<Rightarrow> (vvp_bit4_t \<times> nat \<times> nat) list" where
  "leaves (Driver val str0 str1) = [(val, str0, str1)]"
| "leaves (Resolver ts) = concat (map leaves ts)"

lemma resolved_flat:
  "\<forall>d\<in>set (leaves t). driver_ok d \<Longrightarrow>
     resolved t = fold scalar_resolve (map (\<lambda>d. strongest (drive0 d) (drive1 d)) (leaves t)) scalar_hiz"
proof (induction t)
  case (Driver val str0 str1)
  let ?s = "strongest (drive0 (val, str0, str1)) (drive1 (val, str0, str1))"
  have d: "driver_ok (val, str0, str1)" using Driver by simp
  have "net_signal ?s" unfolding net_signal_def using drive_less[OF d] by blast
  moreover have "net_signal scalar_hiz" by (rule net.signal_hiz)
  ultimately have "scalar_resolve ?s scalar_hiz = ?s" by (metis net.res_commute net.res_hiz)
  then show ?case using Driver scalar_make_strongest by simp
next
  case (Resolver ts)
  let ?sig = "\<lambda>d. strongest (drive0 d) (drive1 d)"
  have "map resolved ts = map (\<lambda>xs. fold scalar_resolve xs scalar_hiz) (map (\<lambda>t. map ?sig (leaves t)) ts)"
    using Resolver unfolding map_map comp_def by (intro map_cong refl) auto
  then have "resolved (Resolver ts) = fold scalar_resolve (map (\<lambda>xs. fold scalar_resolve xs scalar_hiz) (map (\<lambda>t. map ?sig (leaves t)) ts)) scalar_hiz"
    by (simp only: resolved.simps)
  also have "\<dots> = fold scalar_resolve (concat (map (\<lambda>t. map ?sig (leaves t)) ts)) scalar_hiz"
  proof (rule net.resolve_concat, intro ballI)
    fix xs x assume "xs \<in> set (map (\<lambda>t. map ?sig (leaves t)) ts)" "x \<in> set xs"
    then obtain t d where d: "t \<in> set ts" "d \<in> set (leaves t)" "x = ?sig d" by auto
    then have "driver_ok d" using Resolver.prems by auto
    then show "net_signal x" unfolding net_signal_def d(3) using drive_less by blast
  qed
  finally show ?case by (simp add: map_concat comp_def)
qed

text \<open>C15. Resolution of a net with any number of drivers through any tree of resolvers, in any order: the result depends only on
  the strength of the strongest driver to 0 and of the strongest driver to 1. The stronger side wins, equal strengths give X, no
  driver gives Z. The drivers have the strengths 0 to 7 for each side; a driver to X must drive both sides with the same strength, and a
  driver to 1 must not have a strength to 0 only: the range of the first is not a single strength, and the byte of the second is
  not that of high impedance, so of both the statement does not hold.\<close>

theorem resolve_net:
  assumes "\<forall>d\<in>set (leaves t). driver_ok d"
  shows "resolved t = strongest (Max (insert 0 (drive0 ` set (leaves t)))) (Max (insert 0 (drive1 ` set (leaves t))))"
proof -
  have "resolved t = fold scalar_resolve (map (\<lambda>d. strongest (drive0 d) (drive1 d)) (leaves t)) scalar_hiz"
    by (rule resolved_flat[OF assms])
  also have "\<dots> = strongest (fold max (map drive0 (leaves t)) 0) (fold max (map drive1 (leaves t)) 0)"
    using fold_strongest[OF assms, of 0 0] by (simp add: scalar_hiz_def strongest_def[of 0 0])
  also have "\<dots> = strongest (Max (insert 0 (drive0 ` set (leaves t)))) (Max (insert 0 (drive1 ` set (leaves t))))"
    using Max.set_eq_fold[of 0 "map drive0 (leaves t)"] Max.set_eq_fold[of 0 "map drive1 (leaves t)"] by simp
  finally show ?thesis .
qed

theorem resolve_net_witness:
  "resolved (Resolver [Resolver [Driver BIT4_1 6 6, Resolver [Driver BIT4_0 5 5, Driver BIT4_X 2 2]], Driver BIT4_0 6 3]) = strongest 6 6"
  using resolve_net[of "Resolver [Resolver [Driver BIT4_1 6 6, Resolver [Driver BIT4_0 5 5, Driver BIT4_X 2 2]], Driver BIT4_0 6 3]"]
  by (simp add: driver_ok_def drive0_def drive1_def)

end
