(* ===== verification/Vector8.thy ===== *)
theory Vector8
  imports Strength Vector4_Convert
begin

text \<open>
  Vectors of values with strength (\<^verbatim>\<open>vvp_vector8_t\<close> of \<^verbatim>\<open>vvp_net.h\<close> and \<^verbatim>\<open>vvp_net.cc\<close>). The bytes of
  a vector of at most 8 bits live in the object itself, in an array of 8 bytes (\<^verbatim>\<open>val_\<close>) that shares its
  storage with the pointer; longer vectors own an array of exactly their size. Equality compares the
  8 bytes at once, which is right because every operation keeps the unused bytes at zero.
\<close>

section \<open>Representation\<close>

record vvp_vector8_t =
  v8_size :: nat
  v8_bytes :: "8 word list"

text \<open>The storage of an empty vector is not looked at: assigning an empty vector leaves the bytes of
  the freed pointer there.\<close>

definition vec8_wf :: "vvp_vector8_t \<Rightarrow> bool" where
  "vec8_wf v \<longleftrightarrow> v8_size v = 0 \<or>
     (if v8_size v \<le> 8 then length (v8_bytes v) = 8 \<and> (\<forall>i<8. v8_size v \<le> i \<longrightarrow> v8_bytes v ! i = 0)
      else length (v8_bytes v) = v8_size v)"

definition vec8_new :: "nat \<Rightarrow> vvp_vector8_t" where
  "vec8_new n =
     (if n \<le> 8 then \<lparr>v8_size = n, v8_bytes = replicate 8 0\<rparr>
      else \<lparr>v8_size = n, v8_bytes = replicate n 0\<rparr>)"

definition vec8_value :: "vvp_vector8_t \<Rightarrow> nat \<Rightarrow> vvp_scalar_t option" where
  "vec8_value v idx = (if idx < v8_size v then Some (vvp_scalar (v8_bytes v ! idx)) else None)"

definition vec8_set_bit :: "vvp_vector8_t \<Rightarrow> nat \<Rightarrow> vvp_scalar_t \<Rightarrow> vvp_vector8_t option" where
  "vec8_set_bit v idx val =
     (if idx < v8_size v then Some (v\<lparr>v8_bytes := (v8_bytes v)[idx := raw val]\<rparr>) else None)"

text \<open>The constructor from a vector of bits; of an empty one it leaves the storage \<open>junk\<close> as it is.\<close>

definition vec8_from_vec4 :: "8 word list \<Rightarrow> vvp_vector4_t \<Rightarrow> nat \<Rightarrow> nat \<Rightarrow> vvp_vector8_t option" where
  "vec8_from_vec4 junk that str0 str1 =
     (let n = vec_size that
      in if n = 0 then Some \<lparr>v8_size = 0, v8_bytes = junk\<rparr>
         else
           let bytes = (if n \<le> 8 then replicate 8 0 else replicate n 0)
           in case foldM (\<lambda>idx bytes. case scalar_make (vec4_value that idx) str0 str1 of
                                       None \<Rightarrow> None | Some s \<Rightarrow> Some (bytes[idx := raw s]))
                    [0..<n] bytes of
                None \<Rightarrow> None
              | Some bytes \<Rightarrow> Some \<lparr>v8_size = n, v8_bytes = bytes\<rparr>)"

definition vec8_copy :: "vvp_vector8_t \<Rightarrow> vvp_vector8_t" where
  "vec8_copy that =
     (if v8_size that \<le> 8 then \<lparr>v8_size = v8_size that, v8_bytes = map ((!) (v8_bytes that)) [0..<8]\<rparr>
      else \<lparr>v8_size = v8_size that, v8_bytes = map ((!) (v8_bytes that)) [0..<v8_size that]\<rparr>)"

text \<open>Assignment of \<open>that\<close> to a different object \<open>v\<close>.\<close>

definition vec8_assign :: "vvp_vector8_t \<Rightarrow> vvp_vector8_t \<Rightarrow> vvp_vector8_t" where
  "vec8_assign v that =
     (let v = (if v8_size v \<noteq> v8_size that then v\<lparr>v8_size := 0\<rparr> else v)
      in if v8_size that = 0 then v
         else if v8_size that \<le> 8
         then v\<lparr>v8_size := v8_size that, v8_bytes := map ((!) (v8_bytes that)) [0..<8]\<rparr>
         else
           let n = (if v8_size v = 0 then v8_size that else v8_size v)
           in \<lparr>v8_size = n, v8_bytes = map ((!) (v8_bytes that)) [0..<n]\<rparr>)"

definition vec8_eeq :: "vvp_vector8_t \<Rightarrow> vvp_vector8_t \<Rightarrow> bool" where
  "vec8_eeq v that =
     (if v8_size v \<noteq> v8_size that then False
      else if v8_size v = 0 then True
      else if v8_size v \<le> 8 then v8_bytes v = v8_bytes that
      else list_all (\<lambda>i. v8_bytes v ! i = v8_bytes that ! i) [0..<v8_size v])"

definition vec8_subvalue :: "vvp_vector8_t \<Rightarrow> nat \<Rightarrow> nat \<Rightarrow> vvp_vector8_t" where
  "vec8_subvalue v base wid =
     (let tmp = vec8_new wid;
          cnt = (if v8_size v \<le> base then 0 else min wid (v8_size v - base))
      in tmp\<lparr>v8_bytes := update_cells (\<lambda>idx _. v8_bytes v ! (base + idx)) [0..<cnt] (v8_bytes tmp)\<rparr>)"

definition vec8_set_vec :: "vvp_vector8_t \<Rightarrow> nat \<Rightarrow> vvp_vector8_t \<Rightarrow> vvp_vector8_t option" where
  "vec8_set_vec v base that =
     (if base + v8_size that \<le> v8_size v
      then foldM (\<lambda>idx v. case vec8_value that idx of None \<Rightarrow> None | Some s \<Rightarrow> vec8_set_bit v (base + idx) s)
             [0..<v8_size that] v
      else None)"

definition part_expand :: "vvp_vector8_t \<Rightarrow> nat \<Rightarrow> nat \<Rightarrow> vvp_vector8_t option" where
  "part_expand that wid off =
     (if off < wid
      then
        let tmp = vec8_new wid
        in Some (tmp\<lparr>v8_bytes := update_cells (\<lambda>idx _. v8_bytes that ! (idx - off))
                                  [off..<min wid (off + v8_size that)] (v8_bytes tmp)\<rparr>)
      else None)"

definition vec8_resolve :: "vvp_vector8_t \<Rightarrow> vvp_vector8_t \<Rightarrow> vvp_vector8_t option" where
  "vec8_resolve a b =
     (if v8_size a = v8_size b
      then foldM (\<lambda>idx out. case (vec8_value a idx, vec8_value b idx) of
                              (Some x, Some y) \<Rightarrow> vec8_set_bit out idx (scalar_resolve x y)
                            | _ \<Rightarrow> None)
             [0..<v8_size a] (vec8_new (v8_size a))
      else None)"

definition reduce4 :: "vvp_vector8_t \<Rightarrow> vvp_vector4_t option" where
  "reduce4 that =
     foldM (\<lambda>idx out. case vec8_value that idx of
                        None \<Rightarrow> None | Some s \<Rightarrow> vec4_set_bit out idx (scalar_value s))
       [0..<v8_size that] (vec4_new (v8_size that) BIT4_X)"

section \<open>The list of the scalars\<close>

definition vec8_scalars :: "vvp_vector8_t \<Rightarrow> vvp_scalar_t list" where
  "vec8_scalars v = map (\<lambda>i. vvp_scalar (v8_bytes v ! i)) [0..<v8_size v]"

lemma length_vec8_scalars [simp]: "length (vec8_scalars v) = v8_size v"
  by (simp add: vec8_scalars_def)

lemma nth_vec8_scalars: "i < v8_size v \<Longrightarrow> vec8_scalars v ! i = vvp_scalar (v8_bytes v ! i)"
  by (simp add: vec8_scalars_def)

lemma vec8_value_scalars: "i < v8_size v \<Longrightarrow> vec8_value v i = Some (vec8_scalars v ! i)"
  by (simp add: vec8_value_def nth_vec8_scalars)

lemma vec8_wf_length: "vec8_wf v \<Longrightarrow> v8_size v \<le> length (v8_bytes v)"
  by (auto simp: vec8_wf_def split: if_splits)

lemma vec8_new_wf [simp]: "vec8_wf (vec8_new n)" "v8_size (vec8_new n) = n"
  by (auto simp: vec8_new_def vec8_wf_def)

lemma vec8_new_scalars: "vec8_scalars (vec8_new n) = replicate n scalar_hiz"
  by (auto simp: vec8_new_def list_eq_iff_nth_eq nth_vec8_scalars scalar_hiz_def)

interpretation vec8: bit_vector v8_size "\<lambda>v i. vec8_scalars v ! i" vec8_set_bit vec8_wf
proof unfold_locales
  fix v :: vvp_vector8_t and i b
  assume v: "vec8_wf v" and i: "i < v8_size v"
  show "\<exists>v'. vec8_set_bit v i b = Some v' \<and> vec8_wf v' \<and> v8_size v' = v8_size v \<and>
      (\<forall>j<v8_size v. vec8_scalars v' ! j = (if j = i then b else vec8_scalars v ! j))"
    using v i vec8_wf_length[OF v]
    by (auto simp: vec8_set_bit_def vec8_wf_def nth_vec8_scalars nth_list_update)
next
  fix v :: vvp_vector8_t and i b
  assume "v8_size v \<le> i"
  then show "vec8_set_bit v i b = None" by (simp add: vec8_set_bit_def)
qed

lemma vec8_eq_bytes:
  assumes "vec8_wf u" "vec8_wf v" "0 < v8_size u"
  shows "vec8_scalars u = vec8_scalars v \<longleftrightarrow> v8_size u = v8_size v \<and> v8_bytes u = v8_bytes v"
proof
  assume eq: "vec8_scalars u = vec8_scalars v"
  then have n: "v8_size u = v8_size v" by (metis length_vec8_scalars)
  have low: "v8_bytes u ! i = v8_bytes v ! i" if "i < v8_size u" for i
    using arg_cong[OF eq, of "\<lambda>l. l ! i"] that n by (simp add: nth_vec8_scalars)
  have "v8_bytes u ! i = v8_bytes v ! i" if "i < length (v8_bytes u)" for i
    using assms low[of i] that n by (cases "i < v8_size u") (auto simp: vec8_wf_def split: if_splits)
  moreover have "length (v8_bytes u) = length (v8_bytes v)" using assms n by (auto simp: vec8_wf_def split: if_splits)
  ultimately show "v8_size u = v8_size v \<and> v8_bytes u = v8_bytes v" using n by (simp add: list_eq_iff_nth_eq)
qed (simp add: vec8_scalars_def)

lemma vec8_copy_value: "vec8_wf v \<Longrightarrow> vec8_wf (vec8_copy v) \<and> vec8_scalars (vec8_copy v) = vec8_scalars v"
  by (auto simp: vec8_copy_def vec8_wf_def list_eq_iff_nth_eq nth_vec8_scalars split: if_splits)

lemma vec8_assign_value: "vec8_wf v \<Longrightarrow> vec8_wf that \<Longrightarrow> vec8_wf (vec8_assign v that) \<and> vec8_scalars (vec8_assign v that) = vec8_scalars that"
  by (auto simp: vec8_assign_def vec8_wf_def list_eq_iff_nth_eq nth_vec8_scalars Let_def split: if_splits)

lemma vec8_cells_wf:
  assumes "n \<le> m"
  shows "vec8_wf ((vec8_new m)\<lparr>v8_bytes := update_cells f [k..<n] (v8_bytes (vec8_new m))\<rparr>)"
  using assms by (auto simp: vec8_new_def vec8_wf_def nth_update_cells_from)

lemma vec8_cells_scalars:
  assumes "n \<le> m" "i < m"
  shows "vec8_scalars ((vec8_new m)\<lparr>v8_bytes := update_cells f [k..<n] (v8_bytes (vec8_new m))\<rparr>) ! i =
    vvp_scalar (if k \<le> i \<and> i < n then f i 0 else 0)"
  using assms by (auto simp: vec8_new_def nth_vec8_scalars nth_update_cells_from)

text \<open>On vectors that keep the unused bytes of the object at zero, \<^verbatim>\<open>eeq\<close>, which compares 8 bytes
  at once, is equality of all values, and copying and assignment give an equal vector that keeps it.\<close>

theorem vec8_eeq_iff:
  assumes "vec8_wf u" "vec8_wf v"
  shows "(vec8_eeq u v \<longleftrightarrow> vec8_scalars u = vec8_scalars v) \<and>
    vec8_eeq u (vec8_copy u) \<and> vec8_wf (vec8_copy u) \<and> vec8_eeq u (vec8_assign v u) \<and> vec8_wf (vec8_assign v u)"
proof -
  have eeq: "vec8_eeq x y \<longleftrightarrow> vec8_scalars x = vec8_scalars y" if wf: "vec8_wf x" "vec8_wf y" for x y
  proof (cases "v8_size x = v8_size y \<and> 0 < v8_size x")
    case True
    then show ?thesis
      using vec8_eq_bytes[OF wf] wf
      by (auto simp: vec8_eeq_def vec8_wf_def list_all_iff list_eq_iff_nth_eq)
  next
    case False
    then show ?thesis
      by (cases "v8_size x = v8_size y") (auto simp: vec8_eeq_def vec8_scalars_def dest: arg_cong[where f = length])
  qed
  show ?thesis
    using assms vec8_assign_value[OF assms(2,1)] vec8_copy_value[OF assms(1)] by (auto simp: eeq)
qed

lemma vec8_set_vec_scalars:
  assumes "vec8_wf v" "base + v8_size that \<le> v8_size v"
  shows "\<exists>r. vec8_set_vec v base that = Some r \<and> vec8_wf r \<and> v8_size r = v8_size v \<and>
    (\<forall>j<v8_size v. vec8_scalars r ! j =
      (if base \<le> j \<and> j < base + v8_size that then vec8_scalars that ! (j - base) else vec8_scalars v ! j))"
proof -
  have step: "foldM (\<lambda>idx v. case vec8_value that idx of None \<Rightarrow> None | Some s \<Rightarrow> vec8_set_bit v (base + idx) s) [0..<v8_size that] v =
      foldM (\<lambda>idx v. vec8_set_bit v (base + idx) (vec8_scalars that ! idx)) [0..<v8_size that] v"
    by (rule foldM_cong) (simp_all add: vec8_value_scalars)
  show ?thesis
    using vec8.set_loop_at[OF assms, of "\<lambda>i. vec8_scalars that ! i"] assms(2) step
    by (simp add: vec8_set_vec_def)
qed

text \<open>Parts of a vector with strength: \<^verbatim>\<open>subvalue\<close> reads high impedance beyond the end,
  \<^verbatim>\<open>part_expand\<close> surrounds the part by high impedance, \<^verbatim>\<open>set_vec\<close> replaces exactly the addressed
  values; the last two abort when the part does not fit. All results keep the invariant.\<close>

theorem vec8_parts:
  assumes "vec8_wf v" "vec8_wf that"
  shows "vec8_wf (vec8_subvalue v base wid) \<and>
    vec8_scalars (vec8_subvalue v base wid) =
      map (\<lambda>i. if base + i < v8_size v then vec8_scalars v ! (base + i) else scalar_hiz) [0..<wid] \<and>
    (case part_expand that wid base of
       None \<Rightarrow> wid \<le> base
     | Some r \<Rightarrow> base < wid \<and> vec8_wf r \<and> vec8_scalars r =
         map (\<lambda>i. if base \<le> i \<and> i < base + v8_size that then vec8_scalars that ! (i - base) else scalar_hiz) [0..<wid]) \<and>
    (case vec8_set_vec v base that of
       None \<Rightarrow> v8_size v < base + v8_size that
     | Some r \<Rightarrow> base + v8_size that \<le> v8_size v \<and> vec8_wf r \<and>
         vec8_scalars r = take base (vec8_scalars v) @ vec8_scalars that @ drop (base + v8_size that) (vec8_scalars v))"
proof (intro conjI)
  define cnt where "cnt = (if v8_size v \<le> base then 0 else min wid (v8_size v - base))"
  have cnt: "cnt \<le> wid" by (simp add: cnt_def)
  show "vec8_wf (vec8_subvalue v base wid)"
    using vec8_cells_wf[OF cnt] by (simp add: vec8_subvalue_def Let_def cnt_def)
  show "vec8_scalars (vec8_subvalue v base wid) =
      map (\<lambda>i. if base + i < v8_size v then vec8_scalars v ! (base + i) else scalar_hiz) [0..<wid]"
  proof (rule nth_equalityI)
    show len: "length (vec8_scalars (vec8_subvalue v base wid)) = length (map (\<lambda>i. if base + i < v8_size v then vec8_scalars v ! (base + i) else scalar_hiz) [0..<wid])"
      by (simp add: vec8_subvalue_def Let_def)
    fix i assume "i < length (vec8_scalars (vec8_subvalue v base wid))"
    then have i: "i < wid" using len by simp
    have "i < cnt \<longleftrightarrow> base + i < v8_size v" using i by (auto simp: cnt_def)
    then show "vec8_scalars (vec8_subvalue v base wid) ! i =
        map (\<lambda>i. if base + i < v8_size v then vec8_scalars v ! (base + i) else scalar_hiz) [0..<wid] ! i"
      using vec8_cells_scalars[OF cnt i, of "\<lambda>idx _. v8_bytes v ! (base + idx)" 0] i
      by (simp add: vec8_subvalue_def Let_def cnt_def[symmetric] nth_vec8_scalars scalar_hiz_def)
  qed
next
  show "case part_expand that wid base of
       None \<Rightarrow> wid \<le> base
     | Some r \<Rightarrow> base < wid \<and> vec8_wf r \<and> vec8_scalars r =
         map (\<lambda>i. if base \<le> i \<and> i < base + v8_size that then vec8_scalars that ! (i - base) else scalar_hiz) [0..<wid]"
  proof (cases "base < wid")
    case True
    define n where "n = min wid (base + v8_size that)"
    have n: "n \<le> wid" by (simp add: n_def)
    have "vec8_scalars ((vec8_new wid)\<lparr>v8_bytes := update_cells (\<lambda>idx _. v8_bytes that ! (idx - base)) [base..<n] (v8_bytes (vec8_new wid))\<rparr>) =
        map (\<lambda>i. if base \<le> i \<and> i < base + v8_size that then vec8_scalars that ! (i - base) else scalar_hiz) [0..<wid]"
      by (rule nth_equalityI)
        (use vec8_cells_scalars[OF n] in \<open>auto simp: nth_vec8_scalars scalar_hiz_def n_def\<close>)
    then show ?thesis using True vec8_cells_wf[OF n] by (simp add: part_expand_def Let_def n_def)
  qed (simp add: part_expand_def)
next
  show "case vec8_set_vec v base that of
       None \<Rightarrow> v8_size v < base + v8_size that
     | Some r \<Rightarrow> base + v8_size that \<le> v8_size v \<and> vec8_wf r \<and>
         vec8_scalars r = take base (vec8_scalars v) @ vec8_scalars that @ drop (base + v8_size that) (vec8_scalars v)"
  proof (cases "base + v8_size that \<le> v8_size v")
    case True
    then show ?thesis
      using vec8_set_vec_scalars[OF assms(1) True] by (auto simp: list_eq_iff_nth_eq nth_append)
  qed (simp add: vec8_set_vec_def)
qed

lemma scalar_make_value:
  assumes "0 < str0" "str0 < 8" "0 < str1" "str1 < 8"
  shows "\<exists>s. scalar_make b str0 str1 = Some s \<and> scalar_value s = b"
proof -
  have c: "str0 \<in> {1..<8}" "str1 \<in> {1..<8}" using assms by auto
  note defs = scalar_make_def scalar_value_def Let_def
  show ?thesis
  proof (cases b)
    case BIT4_0
    then show ?thesis using strength_cases[OF c(1)] assms by (elim disjE) (simp_all add: defs)
  next
    case BIT4_1
    then show ?thesis using strength_cases[OF c(2)] assms by (elim disjE) (simp_all add: defs)
  next
    case BIT4_X
    then show ?thesis
      using strength_cases[OF c(1)] strength_cases[OF c(2)] by (elim disjE) (simp_all add: defs)
  next
    case BIT4_Z
    then show ?thesis using assms by (simp add: defs)
  qed
qed

lemma reduce4_bits:
  "\<exists>r. reduce4 v = Some r \<and> vec4_wf r \<and> vec4_bits r = map scalar_value (vec8_scalars v)"
proof -
  have step: "foldM (\<lambda>idx out. case vec8_value v idx of None \<Rightarrow> None | Some s \<Rightarrow> vec4_set_bit out idx (scalar_value s)) [0..<v8_size v] w =
      foldM (\<lambda>idx out. vec4_set_bit out (0 + idx) (scalar_value (vec8_scalars v ! idx))) [0..<v8_size v] w" for w
    by (rule foldM_cong) (simp add: vec8_value_scalars)
  show ?thesis
    using vec4.set_loop_at[of "vec4_new (v8_size v) BIT4_X" 0 "v8_size v" "\<lambda>i. scalar_value (vec8_scalars v ! i)"] step
    by (auto simp: reduce4_def vec4_new_wf list_eq_iff_nth_eq)
qed

lemma vec8_from_vec4_scalars:
  assumes "\<And>b. scalar_make b str0 str1 = Some (f b)"
  shows "\<exists>d. vec8_from_vec4 junk w str0 str1 = Some d \<and> vec8_wf d \<and> vec8_scalars d = map f (vec4_bits w)"
proof (cases "vec_size w = 0")
  case True
  then show ?thesis by (simp add: vec8_from_vec4_def vec8_wf_def vec8_scalars_def vec4_bits_def)
next
  case False
  let ?n = "vec_size w"
  define bytes :: "8 word list" where "bytes = (if ?n \<le> 8 then replicate 8 0 else replicate ?n 0)"
  have n: "?n \<le> length bytes" by (simp add: bytes_def)
  have run: "foldM (\<lambda>idx bytes. case scalar_make (vec4_value w idx) str0 str1 of None \<Rightarrow> None | Some s \<Rightarrow> Some (bytes[idx := raw s])) [0..<k] bytes =
      Some (update_cells (\<lambda>idx _. raw (f (vec4_value w idx))) [0..<k] bytes)" for k
    by (induction k) (simp_all add: foldM_append assms update_cells_def)
  have "vec8_from_vec4 junk w str0 str1 = Some \<lparr>v8_size = ?n, v8_bytes = update_cells (\<lambda>idx _. raw (f (vec4_value w idx))) [0..<?n] bytes\<rparr>"
    using False run[of ?n] by (simp add: vec8_from_vec4_def Let_def bytes_def)
  then show ?thesis
    using n by (auto simp: vec8_wf_def nth_update_cells list_eq_iff_nth_eq nth_vec8_scalars bytes_def split: if_splits)
qed

text \<open>The bit that a driver with the strengths \<open>str0\<close> to 0 and \<open>str1\<close> to 1 leaves: without strength to the side of
  the bit, or to either side, it is Z.\<close>

definition driven_bit :: "nat \<Rightarrow> nat \<Rightarrow> vvp_bit4_t \<Rightarrow> vvp_bit4_t" where
  "driven_bit str0 str1 b =
     (if b = BIT4_0 \<and> str0 = 0 \<or> b = BIT4_1 \<and> str1 = 0 \<or> str0 = 0 \<and> str1 = 0 then BIT4_Z else b)"

lemma scalar_make_driven:
  assumes "str0 < 8" "str1 < 8"
  shows "\<exists>s. scalar_make b str0 str1 = Some s \<and> scalar_value s = driven_bit str0 str1 b"
proof -
  note defs = scalar_make_def scalar_value_def driven_bit_def Let_def
  consider "0 < str0" "0 < str1" | "str0 = 0" "str1 = 0" | "str0 = 0" "str1 \<in> {1..<8}" | "str0 \<in> {1..<8}" "str1 = 0"
    using assms by fastforce
  then show ?thesis
  proof cases
    case 1
    then show ?thesis using scalar_make_value[of str0 str1 b] assms by (auto simp: driven_bit_def)
  next
    case 2
    then show ?thesis by (simp add: defs)
  next
    case 3
    then show ?thesis using strength_cases[OF 3(2)] by (cases b) (elim disjE; simp add: defs)+
  next
    case 4
    then show ?thesis using strength_cases[OF 4(1)] by (cases b) (elim disjE; simp add: defs)+
  qed
qed

text \<open>C35. Between vectors of bits and vectors with strength: driving bits and reducing them back gives the same bits when both
  strengths are not zero; when one is zero (highz0, highz1), the bits of that side become Z and the others, X among
  them, stay, and when both are, all bits become Z. The resolution of two vectors of one size is the resolution
  of their values one by one; different sizes abort.\<close>

theorem vec8_drive_reduce:
  assumes "str0 < 8" "str1 < 8"
  shows "(\<exists>d r. vec8_from_vec4 junk w str0 str1 = Some d \<and> vec8_wf d \<and>
      reduce4 d = Some r \<and> vec4_wf r \<and> vec4_bits r = map (driven_bit str0 str1) (vec4_bits w) \<and>
      (0 < str0 \<and> 0 < str1 \<longrightarrow> vec4_bits r = vec4_bits w)) \<and>
    (case vec8_resolve u v of
       None \<Rightarrow> v8_size u \<noteq> v8_size v
     | Some r \<Rightarrow> v8_size u = v8_size v \<and> vec8_wf r \<and> vec8_scalars r = map2 scalar_resolve (vec8_scalars u) (vec8_scalars v))"
proof
  define f where "f b = the (scalar_make b str0 str1)" for b
  have f: "scalar_make b str0 str1 = Some (f b)" "scalar_value (f b) = driven_bit str0 str1 b" for b
    using scalar_make_driven[OF assms, of b] by (auto simp: f_def)
  obtain d where d: "vec8_from_vec4 junk w str0 str1 = Some d" "vec8_wf d" "vec8_scalars d = map f (vec4_bits w)"
    using vec8_from_vec4_scalars[OF f(1)] by blast
  obtain r where "reduce4 d = Some r" "vec4_wf r" "vec4_bits r = map scalar_value (vec8_scalars d)"
    using reduce4_bits by blast
  then have "vec4_wf r" "reduce4 d = Some r" "vec4_bits r = map (driven_bit str0 str1) (vec4_bits w)"
    using d(3) f(2) by (simp_all add: comp_def)
  moreover have "driven_bit str0 str1 = id" if "0 < str0" "0 < str1" using that by (auto simp: driven_bit_def fun_eq_iff)
  ultimately show "\<exists>d r. vec8_from_vec4 junk w str0 str1 = Some d \<and> vec8_wf d \<and> reduce4 d = Some r \<and> vec4_wf r \<and>
      vec4_bits r = map (driven_bit str0 str1) (vec4_bits w) \<and> (0 < str0 \<and> 0 < str1 \<longrightarrow> vec4_bits r = vec4_bits w)"
    using d(1,2) by auto
next
  show "case vec8_resolve u v of
       None \<Rightarrow> v8_size u \<noteq> v8_size v
     | Some r \<Rightarrow> v8_size u = v8_size v \<and> vec8_wf r \<and> vec8_scalars r = map2 scalar_resolve (vec8_scalars u) (vec8_scalars v)"
  proof (cases "v8_size u = v8_size v")
    case True
    have step: "foldM (\<lambda>idx out. case (vec8_value u idx, vec8_value v idx) of
          (Some x, Some y) \<Rightarrow> vec8_set_bit out idx (scalar_resolve x y) | _ \<Rightarrow> None) [0..<v8_size u] (vec8_new (v8_size u)) =
        foldM (\<lambda>idx out. vec8_set_bit out (0 + idx) (scalar_resolve (vec8_scalars u ! idx) (vec8_scalars v ! idx)))
          [0..<v8_size u] (vec8_new (v8_size u))"
      by (rule foldM_cong) (simp add: vec8_value_scalars True)
    show ?thesis
      using True step vec8.set_loop_at[of "vec8_new (v8_size u)" 0 "v8_size u" "\<lambda>i. scalar_resolve (vec8_scalars u ! i) (vec8_scalars v ! i)"]
      by (auto simp: vec8_resolve_def list_eq_iff_nth_eq)
  qed (simp add: vec8_resolve_def)
qed

theorem vec8_drive_reduce_witness:
  "\<exists>d r. vec8_from_vec4 [] (vec4_new 3 BIT4_X) 6 5 = Some d \<and> reduce4 d = Some r \<and> vec4_bits r = vec4_bits (vec4_new 3 BIT4_X)"
  using vec8_drive_reduce[of 6 5 "[]" "vec4_new 3 BIT4_X" "vec8_new 0" "vec8_new 0"] by fastforce

section \<open>The text form\<close>

text \<open>\<^verbatim>\<open>c8string_test\<close> scans to a closing bracket at the end of the string.\<close>

fun c8_scan :: "string \<Rightarrow> bool" where
  "c8_scan [] = False"
| "c8_scan (c # cs) =
     (if c = CHR ''>'' \<and> cs = [] then True
      else if c \<in> set ''0123456789'' then c8_scan cs
      else if c = CHR ''x'' then c8_scan cs
      else if c = CHR ''z'' then c8_scan cs
      else False)"

definition c8string_test :: "string \<Rightarrow> bool" where
  "c8string_test str =
     (if c_char str 0 \<noteq> CHR ''C'' then False
      else if c_char str 1 \<noteq> CHR ''8'' then False
      else if c_char str 2 \<noteq> CHR ''<'' then False
      else c8_scan (drop 3 str))"

definition c8string_to_vector8 :: "string \<Rightarrow> vvp_vector8_t option" where
  "c8string_to_vector8 str =
     (let vsize = length str - 4
      in if vsize mod 3 \<noteq> 0 then None
         else
           let vsize = vsize div 3
           in foldM (\<lambda>idx tmp.
                 let cp = drop (3 + 3 * idx) str;
                     dr0 = of_char (c_char cp 0) - of_char CHR ''0'' :: int;
                     dr1 = of_char (c_char cp 1) - of_char CHR ''0'' :: int;
                     c = c_char cp 2;
                     b = (if c = CHR ''0'' then BIT4_0 else if c = CHR ''1'' then BIT4_1
                          else if c = CHR ''x'' then BIT4_X else if c = CHR ''z'' then BIT4_Z else BIT4_X)
                 in if dr0 < 0 \<or> dr1 < 0 then None
                    else case scalar_make b (nat dr0) (nat dr1) of
                           None \<Rightarrow> None
                         | Some s \<Rightarrow> vec8_set_bit tmp (vsize - idx - 1) s)
               [0..<vsize] (vec8_new vsize))"

end
