(* ===== verification/Event_Ring.thy ===== *)
theory Event_Ring
  imports Prelude
begin

text \<open>
  The event lists of the scheduler (\<^verbatim>\<open>schedule.cc\<close>). Every list of events is a ring linked through
  \<^verbatim>\<open>event_s::next\<close> and known by a pointer to its last cell, so that both appending and taking the first
  event are constant-time pointer updates. The model here is at the level of the pointers: a store gives
  the \<^verbatim>\<open>next\<close> field of each cell by address, \<open>None\<close> is the null pointer. The locale \<open>event_fifo\<close> states
  what the scheduler relies on, the interpretation shows that the pointer code provides it; the other theories
  of the scheduler use lists.
\<close>

section \<open>The pointer operations\<close>

type_synonym event_addr = nat

text \<open>The \<^verbatim>\<open>next\<close> fields, and the pointer to the last cell.\<close>

type_synonym ring = "(event_addr \<Rightarrow> event_addr) \<times> event_addr option"

text \<open>The tail of \<^verbatim>\<open>schedule_event_\<close>, and in the same form \<^verbatim>\<open>schedule_init_event\<close> and
  \<^verbatim>\<open>schedule_final_event\<close>: a cell goes to the end.\<close>

definition ring_append :: "event_addr \<Rightarrow> ring \<Rightarrow> ring" where
  "ring_append cur r =
     (let nxt = (fst r)(cur := cur)
      in case snd r of
           None \<Rightarrow> (nxt, Some cur)
         | Some q \<Rightarrow>
             let nxt = nxt(cur := nxt q);
                 nxt = nxt(q := cur)
             in (nxt, Some cur))"

definition init_append :: "event_addr \<Rightarrow> ring \<Rightarrow> ring" where
  "init_append cur r =
     (case snd r of
        None \<Rightarrow> ((fst r)(cur := cur), Some cur)
      | Some q \<Rightarrow>
          let nxt = (fst r)(cur := fst r q);
              nxt = nxt(q := cur)
          in (nxt, Some cur))"

text \<open>The tail of \<^verbatim>\<open>schedule_event_push_\<close>: a cell goes to the front.\<close>

definition ring_push :: "event_addr \<Rightarrow> ring \<Rightarrow> ring" where
  "ring_push cur r =
     (case snd r of
        None \<Rightarrow> ((fst r)(cur := cur), Some cur)
      | Some q \<Rightarrow>
          let nxt = (fst r)(cur := fst r q);
              nxt = nxt(q := cur)
          in (nxt, Some q))"

text \<open>Taking the first cell, as in all the loops that run events.\<close>

definition ring_pop :: "ring \<Rightarrow> (event_addr \<times> ring) option" where
  "ring_pop r =
     (case snd r of
        None \<Rightarrow> None
      | Some q \<Rightarrow>
          let cur = fst r q
          in if fst r cur = cur then Some (cur, (fst r, None))
             else Some (cur, ((fst r)(q := fst r cur), Some q)))"

text \<open>\<^verbatim>\<open>clear_events\<close>; the result also lists the cells that were deleted. A loop that does not end would
  be \<open>None\<close>.\<close>

partial_function (option) clear_events :: "ring \<Rightarrow> event_addr list \<Rightarrow> (ring \<times> event_addr list) option" where
  "clear_events r deleted =
     (case snd r of
        None \<Rightarrow> Some (r, deleted)
      | Some ev \<Rightarrow>
          let cur = fst r ev
          in if fst r cur = cur then clear_events (fst r, None) (deleted @ [cur])
             else clear_events ((fst r)(ev := fst r cur), Some ev) (deleted @ [cur]))"

section \<open>The list a ring stands for\<close>

definition ring_list :: "ring \<Rightarrow> event_addr list \<Rightarrow> bool" where
  "ring_list r xs \<longleftrightarrow> distinct xs \<and>
     (case xs of
        [] \<Rightarrow> snd r = None
      | x # _ \<Rightarrow> snd r = Some (last xs) \<and> fst r (last xs) = x \<and>
          (\<forall>i. Suc i < length xs \<longrightarrow> fst r (xs ! i) = xs ! Suc i))"

lemma ring_list_Nil [simp]: "ring_list r [] \<longleftrightarrow> snd r = None"
  by (simp add: ring_list_def)

lemma ring_list_Cons:
  "ring_list r (x # xs) \<longleftrightarrow> distinct (x # xs) \<and> snd r = Some (last (x # xs)) \<and> fst r (last (x # xs)) = x \<and>
     (\<forall>i<length xs. fst r ((x # xs) ! i) = xs ! i)"
  by (auto simp: ring_list_def)

lemma last_nth: "last (x # xs) = (x # xs) ! length xs"
  by (simp add: last_conv_nth)

lemma ring_append_list:
  assumes "ring_list r xs" "cur \<notin> set xs"
  shows "ring_list (ring_append cur r) (xs @ [cur])"
proof (cases xs)
  case Nil
  then show ?thesis using assms by (simp add: ring_append_def ring_list_Cons)
next
  case (Cons x ys)
  then have l: "snd r = Some (last xs)" "fst r (last xs) = x" "distinct xs"
    "\<And>i. i < length ys \<Longrightarrow> fst r (xs ! i) = ys ! i"
    using assms(1) by (auto simp: ring_list_Cons)
  have ne: "last xs \<noteq> cur" using assms(2) Cons by (metis last_in_set list.distinct(1))
  have nth: "(xs @ [cur]) ! i \<noteq> cur" if "i < length xs" for i
    using that assms(2) by (auto simp: nth_append)
  have code: "ring_append cur r = ((fst r)(cur := x, last xs := cur), Some cur)"
    using l ne by (simp add: ring_append_def Let_def)
  have "fst (ring_append cur r) ((xs @ [cur]) ! i) = (ys @ [cur]) ! i" if "i < length (ys @ [cur])" for i
  proof (cases "i = length ys")
    case True
    then have "(xs @ [cur]) ! i = xs ! i" using Cons by (intro nth_append_left) simp
    also have "xs ! i = last xs" using True Cons last_nth[of x ys] by (simp del: last.simps)
    finally show ?thesis using True code by (simp add: nth_append)
  next
    case False
    then have i: "i < length ys" using that by simp
    have "xs ! i \<noteq> last xs"
      using i l(3) Cons last_nth[of x ys] by (simp add: nth_eq_iff_index_eq del: last.simps)
    moreover have e: "(xs @ [cur]) ! i = xs ! i" "(ys @ [cur]) ! i = ys ! i"
      using i Cons nth_append_left[of i xs "[cur]"] nth_append_left[of i ys "[cur]"] by simp_all
    moreover have "xs ! i \<noteq> cur" using nth[of i] e(1) i Cons by simp
    ultimately show ?thesis unfolding code e using l(4)[OF i] by simp
  qed
  then show ?thesis using Cons assms(2) l code ne by (simp add: ring_list_Cons del: nth_Cons_Suc)
qed

lemma init_append_eq: "ring_list r xs \<Longrightarrow> cur \<notin> set xs \<Longrightarrow> init_append cur r = ring_append cur r"
  by (cases xs) (auto simp: init_append_def ring_append_def ring_list_Cons Let_def dest: sym split: if_splits)

lemma ring_push_list:
  assumes "ring_list r xs" "cur \<notin> set xs"
  shows "ring_list (ring_push cur r) (cur # xs)"
proof (cases xs)
  case Nil
  then show ?thesis using assms by (simp add: ring_push_def ring_list_Cons)
next
  case (Cons x ys)
  then have l: "snd r = Some (last xs)" "fst r (last xs) = x" "distinct xs"
    "\<And>i. i < length ys \<Longrightarrow> fst r (xs ! i) = ys ! i"
    using assms(1) by (auto simp: ring_list_Cons)
  have ne: "last xs \<noteq> cur" using assms(2) Cons by (metis last_in_set list.distinct(1))
  have code: "ring_push cur r = ((fst r)(cur := x, last xs := cur), Some (last xs))"
    using l by (simp add: ring_push_def Let_def)
  have "fst (ring_push cur r) ((cur # xs) ! i) = xs ! i" if "i < length xs" for i
  proof (cases i)
    case 0
    then show ?thesis using code ne Cons by simp
  next
    case (Suc j)
    then have j: "j < length ys" using that Cons by simp
    have "xs ! j \<noteq> last xs"
      using j l(3) Cons last_nth[of x ys] by (simp add: nth_eq_iff_index_eq del: last.simps)
    moreover have "xs ! j \<noteq> cur" using j assms(2) Cons by (metis length_Cons less_SucI nth_mem)
    ultimately show ?thesis using Suc j code l(4)[OF j] Cons by simp
  qed
  then show ?thesis using assms(2) l(3) code Cons by (simp add: ring_list_Cons)
qed

lemma ring_pop_list:
  assumes "ring_list r (x # xs)"
  shows "\<exists>r'. ring_pop r = Some (x, r') \<and> ring_list r' xs"
proof (cases xs)
  case Nil
  then show ?thesis using assms by (simp add: ring_pop_def ring_list_Cons)
next
  case (Cons y ys)
  then have l: "snd r = Some (last xs)" "fst r (last xs) = x" "distinct (x # xs)" "fst r x = y"
    "\<And>i. i < length ys \<Longrightarrow> fst r (xs ! i) = ys ! i"
    using assms by (auto simp: ring_list_Cons dest: spec[of _ 0] spec[of _ "Suc i" for i])
  have code: "ring_pop r = Some (x, ((fst r)(last xs := y), Some (last xs)))"
    using l Cons by (auto simp: ring_pop_def Let_def)
  have "((fst r)(last xs := y)) (xs ! i) = ys ! i" if "i < length ys" for i
  proof -
    have "xs ! i \<noteq> last xs"
      using that l(3) Cons last_nth[of y ys] by (simp add: nth_eq_iff_index_eq del: last.simps)
    then show ?thesis using l(5)[OF that] by simp
  qed
  then have "ring_list ((fst r)(last xs := y), Some (last xs)) xs"
    using Cons l(3) by (simp add: ring_list_Cons)
  then show ?thesis using code by blast
qed

section \<open>The contract\<close>

locale event_fifo =
  fixes lists :: "'r \<Rightarrow> 'e list \<Rightarrow> bool"
    and append :: "'e \<Rightarrow> 'r \<Rightarrow> 'r" and push :: "'e \<Rightarrow> 'r \<Rightarrow> 'r" and pop :: "'r \<Rightarrow> ('e \<times> 'r) option"
  assumes lists_append: "lists r xs \<Longrightarrow> e \<notin> set xs \<Longrightarrow> lists (append e r) (xs @ [e])"
    and lists_push: "lists r xs \<Longrightarrow> e \<notin> set xs \<Longrightarrow> lists (push e r) (e # xs)"
    and lists_pop: "lists r (x # xs) \<Longrightarrow> \<exists>r'. pop r = Some (x, r') \<and> lists r' xs"
    and lists_empty: "lists r [] \<Longrightarrow> pop r = None"
begin

text \<open>Taking all events, as many as there are.\<close>

fun drain :: "nat \<Rightarrow> 'r \<Rightarrow> 'e list" where
  "drain 0 r = []"
| "drain (Suc n) r = (case pop r of None \<Rightarrow> [] | Some (e, r) \<Rightarrow> e # drain n r)"

lemma drain_lists: "lists r xs \<Longrightarrow> length xs \<le> n \<Longrightarrow> drain n r = xs"
proof (induction n arbitrary: r xs)
  case 0
  then show ?case by simp
next
  case (Suc n)
  then show ?case
    by (cases xs) (auto simp: lists_empty dest!: lists_pop)
qed

lemma append_all:
  "lists r xs \<Longrightarrow> distinct (xs @ es) \<Longrightarrow> lists (fold append es r) (xs @ es)"
  by (induction es arbitrary: r xs) (simp, metis append_assoc append_Cons append_Nil distinct_append
    distinct.simps(2) fold_simps(2) lists_append not_distinct_conv_prefix)

end

interpretation ring: event_fifo ring_list ring_append ring_push ring_pop
proof unfold_locales
  show "\<exists>r'. ring_pop r = Some (x, r') \<and> ring_list r' xs" if "ring_list r (x # xs)" for r x xs
    using that by (rule ring_pop_list)
  show "ring_pop r = None" if "ring_list r []" for r
    using that by (simp add: ring_pop_def)
qed (simp_all add: ring_append_list ring_push_list)

text \<open>C23. The rings of the scheduler are queues: events appended one by one come out in their order,
  after the events already there and after an event pushed to the front.\<close>

theorem ring_fifo_order:
  assumes "ring_list r xs" "distinct (xs @ es)" "p \<notin> set (xs @ es)" "length (xs @ es) < n"
  shows "ring.drain n (ring_push p (fold ring_append es r)) = p # xs @ es"
proof -
  have "ring_list (fold ring_append es r) (xs @ es)" using assms(1,2) by (rule ring.append_all)
  then have "ring_list (ring_push p (fold ring_append es r)) (p # xs @ es)"
    using assms(3) by (rule ring.lists_push)
  then show ?thesis using assms(4) by (intro ring.drain_lists) auto
qed

theorem ring_fifo_order_witness:
  "ring.drain 5 (ring_push 9 (fold ring_append [4, 2, 7] (\<lambda>_. 0, None))) = [9, 4, 2, 7]"
  using ring_fifo_order[of "(\<lambda>_. 0, None)" "[]" "[4, 2, 7]" 9 5] by simp

text \<open>C16. \<^verbatim>\<open>clear_events\<close> ends on every ring, deletes each event exactly once, in order, and leaves
  the null pointer.\<close>

theorem clear_events_all:
  assumes "ring_list r xs"
  shows "\<exists>nxt. clear_events r deleted = Some ((nxt, None), deleted @ xs)"
  using assms
proof (induction xs arbitrary: r deleted)
  case Nil
  then show ?case by (cases r) (simp add: clear_events.simps)
next
  case (Cons x xs)
  then obtain r' where r': "ring_pop r = Some (x, r')" "ring_list r' xs" using ring_pop_list by blast
  have "clear_events r deleted = clear_events r' (deleted @ [x])"
    using r'(1) by (subst clear_events.simps) (auto simp: ring_pop_def Let_def split: option.splits if_splits)
  then show ?case using Cons.IH[OF r'(2), of "deleted @ [x]"] by simp
qed

theorem clear_events_all_witness:
  "\<exists>nxt. clear_events ((id(3 := 5))(5 := 3), Some 5) [] = Some ((nxt, None), [3, 5])"
  using clear_events_all[of "((id(3 := 5))(5 := 3), Some 5)" "[3, 5]" "[]"] by (simp add: ring_list_Cons)

end
