(* ===== verification/Scheduler.thy ===== *)
theory Scheduler
  imports Vector8
begin

text \<open>
  The stratified event queue of \<^verbatim>\<open>schedule.cc\<close>: the list of time steps with their regions, the
  insertion of an event at a delay, and the interface by which the rest of the runtime schedules events. A
  time step is a record, the list of time steps is a list (\<^verbatim>\<open>event_time_s::next\<close>), each region is the list
  of its events in the order they will run (the rings behind them are in \<open>Event_Ring\<close>). Delays are
  numbers below two to the 64; the delay of a time step is relative to the one before it. A failed
  \<^verbatim>\<open>assert\<close> is \<open>None\<close>. The calls into the thread engine (\<^verbatim>\<open>vthread_mark_scheduled\<close>,
  \<^verbatim>\<open>vthread_delay_delete\<close>) change state of that component only; the model records them in order.
\<close>

section \<open>Events\<close>

text \<open>Threads, nets, arrays and generic objects are known by their addresses, a real number by the
  64 bits of its representation.\<close>

type_synonym vthread_t = nat
type_synonym vvp_net_addr = nat
type_synonym vvp_array_t = nat
type_synonym vvp_gen_event_t = "nat option"
type_synonym real_bits = u64

record vvp_net_ptr_t =
  ptr_net :: vvp_net_addr
  ptr_port :: nat

datatype event_s =
    vthread_event_s vthread_t
  | del_thr_event_s vthread_t
  | assign_vector4_event_s vvp_net_ptr_t vvp_vector4_t nat nat
  | assign_vector8_event_s vvp_net_ptr_t vvp_vector8_t
  | assign_real_event_s vvp_net_ptr_t real_bits
  | assign_array_word_s vvp_array_t nat vvp_vector4_t nat
  | force_vector4_event_s vvp_net_addr vvp_vector4_t nat nat
  | propagate_vector4_event_s vvp_net_addr vvp_vector4_t
  | propagate_real_event_s vvp_net_addr real_bits
  | assign_array_r_word_s vvp_array_t nat real_bits
  | generic_event_s vvp_gen_event_t bool

datatype event_queue_t =
  SEQ_START | SEQ_ACTIVE | SEQ_INACTIVE | SEQ_NBASSIGN | SEQ_RWSYNC | SEQ_ROSYNC | DEL_THREAD

fun queue_int :: "event_queue_t \<Rightarrow> nat" where
  "queue_int SEQ_START = 0"
| "queue_int SEQ_ACTIVE = 1"
| "queue_int SEQ_INACTIVE = 2"
| "queue_int SEQ_NBASSIGN = 3"
| "queue_int SEQ_RWSYNC = 4"
| "queue_int SEQ_ROSYNC = 5"
| "queue_int DEL_THREAD = 6"

lemma queue_int_inj: "queue_int a = queue_int b \<Longrightarrow> a = b"
  by (cases a; cases b) simp_all

instantiation event_queue_t :: linorder
begin

definition less_eq_event_queue_t :: "event_queue_t \<Rightarrow> event_queue_t \<Rightarrow> bool" where
  "less_eq_event_queue_t a b \<longleftrightarrow> queue_int a \<le> queue_int b"

definition less_event_queue_t :: "event_queue_t \<Rightarrow> event_queue_t \<Rightarrow> bool" where
  "less_event_queue_t a b \<longleftrightarrow> queue_int a < queue_int b"

instance
  by intro_classes (auto simp: less_eq_event_queue_t_def less_event_queue_t_def queue_int_inj)

end

section \<open>Time steps\<close>

record 'e event_time_s =
  et_delay :: nat
  et_start :: "'e list"
  et_active :: "'e list"
  et_inactive :: "'e list"
  et_nbassign :: "'e list"
  et_rwsync :: "'e list"
  et_rosync :: "'e list"
  et_del_thr :: "'e list"

definition event_time_new :: "nat \<Rightarrow> 'e event_time_s" where
  "event_time_new delay =
     \<lparr>et_delay = delay, et_start = [], et_active = [], et_inactive = [], et_nbassign = [],
      et_rwsync = [], et_rosync = [], et_del_thr = []\<rparr>"

fun region :: "event_queue_t \<Rightarrow> 'e event_time_s \<Rightarrow> 'e list" where
  "region SEQ_START c = et_start c"
| "region SEQ_ACTIVE c = et_active c"
| "region SEQ_INACTIVE c = et_inactive c"
| "region SEQ_NBASSIGN c = et_nbassign c"
| "region SEQ_RWSYNC c = et_rwsync c"
| "region SEQ_ROSYNC c = et_rosync c"
| "region DEL_THREAD c = et_del_thr c"

text \<open>The \<^verbatim>\<open>switch\<close> at the end of \<^verbatim>\<open>schedule_event_\<close>; \<open>delay\<close> is its local variable at that point.\<close>

fun put_event :: "'e \<Rightarrow> event_queue_t \<Rightarrow> nat \<Rightarrow> 'e event_time_s \<Rightarrow> 'e event_time_s option" where
  "put_event cur SEQ_START delay ctim = Some (ctim\<lparr>et_start := et_start ctim @ [cur]\<rparr>)"
| "put_event cur SEQ_ACTIVE delay ctim = Some (ctim\<lparr>et_active := et_active ctim @ [cur]\<rparr>)"
| "put_event cur SEQ_INACTIVE delay ctim =
     (if delay = 0 then Some (ctim\<lparr>et_inactive := et_inactive ctim @ [cur]\<rparr>) else None)"
| "put_event cur SEQ_NBASSIGN delay ctim = Some (ctim\<lparr>et_nbassign := et_nbassign ctim @ [cur]\<rparr>)"
| "put_event cur SEQ_RWSYNC delay ctim = Some (ctim\<lparr>et_rwsync := et_rwsync ctim @ [cur]\<rparr>)"
| "put_event cur SEQ_ROSYNC delay ctim = Some (ctim\<lparr>et_rosync := et_rosync ctim @ [cur]\<rparr>)"
| "put_event cur DEL_THREAD delay ctim = Some (ctim\<lparr>et_del_thr := et_del_thr ctim @ [cur]\<rparr>)"

text \<open>The \<^verbatim>\<open>while\<close> loop of \<^verbatim>\<open>schedule_event_\<close> with the insertion after it. The recursion carries
  \<^verbatim>\<open>prev\<close>: the cells it has passed are rebuilt in front of the result.\<close>

fun walk_times :: "'e \<Rightarrow> event_queue_t \<Rightarrow> nat \<Rightarrow> 'e event_time_s list \<Rightarrow> 'e event_time_s list option" where
  "walk_times cur q delay [] = None"
| "walk_times cur q delay (ctim # rest) =
     (if rest \<noteq> [] \<and> et_delay ctim < delay
      then case walk_times cur q (delay - et_delay ctim) rest of
             None \<Rightarrow> None | Some rest' \<Rightarrow> Some (ctim # rest')
      else if et_delay ctim > delay
      then case put_event cur q delay (event_time_new delay) of
             None \<Rightarrow> None
           | Some tmp \<Rightarrow> Some (tmp # ctim\<lparr>et_delay := et_delay ctim - delay\<rparr> # rest)
      else if et_delay ctim = delay
      then case put_event cur q delay ctim of None \<Rightarrow> None | Some ctim' \<Rightarrow> Some (ctim' # rest)
      else case put_event cur q delay (event_time_new (delay - et_delay ctim)) of
             None \<Rightarrow> None | Some tmp \<Rightarrow> Some (ctim # tmp # rest))"

definition schedule_times :: "'e \<Rightarrow> nat \<Rightarrow> event_queue_t \<Rightarrow> 'e event_time_s list \<Rightarrow> 'e event_time_s list option" where
  "schedule_times cur delay q sched_list =
     (case sched_list of
        [] \<Rightarrow> (case put_event cur q delay (event_time_new delay) of None \<Rightarrow> None | Some ctim \<Rightarrow> Some [ctim])
      | ctim # rest \<Rightarrow>
          if et_delay ctim > delay
          then case put_event cur q delay (event_time_new delay) of
                 None \<Rightarrow> None
               | Some tmp \<Rightarrow> Some (tmp # ctim\<lparr>et_delay := et_delay ctim - delay\<rparr> # rest)
          else walk_times cur q delay sched_list)"

section \<open>The scheduler\<close>

datatype thread_call = Mark_scheduled vthread_t | Delay_delete

record scheduler =
  sched_list :: "event_s event_time_s list"
  schedule_init_list :: "event_s list"
  schedule_final_list :: "event_s list"
  schedule_runnable :: bool
  schedule_stopped_flag :: bool
  schedule_single_step_flag :: bool
  sim_started :: bool
  schedule_time :: nat
  sim_at_rosync :: bool
  rosync_error :: bool
  thread_calls :: "thread_call list"

definition schedule_event ::
  "event_s \<Rightarrow> nat \<Rightarrow> event_queue_t \<Rightarrow> scheduler \<Rightarrow> scheduler option" where
  "schedule_event cur delay q s =
     (case schedule_times cur delay q (sched_list s) of
        None \<Rightarrow> None | Some l \<Rightarrow> Some (s\<lparr>sched_list := l\<rparr>))"

definition schedule_event_push :: "event_s \<Rightarrow> scheduler \<Rightarrow> scheduler option" where
  "schedule_event_push cur s =
     (case sched_list s of
        [] \<Rightarrow> schedule_event cur 0 SEQ_ACTIVE s
      | ctim # rest \<Rightarrow>
          if et_delay ctim > 0 then schedule_event cur 0 SEQ_ACTIVE s
          else if et_active ctim = [] then Some (s\<lparr>sched_list := ctim\<lparr>et_active := [cur]\<rparr> # rest\<rparr>)
          else Some (s\<lparr>sched_list := ctim\<lparr>et_active := cur # et_active ctim\<rparr> # rest\<rparr>))"

definition schedule_init_event :: "event_s \<Rightarrow> scheduler \<Rightarrow> scheduler" where
  "schedule_init_event cur s = s\<lparr>schedule_init_list := schedule_init_list s @ [cur]\<rparr>"

definition schedule_final_event :: "event_s \<Rightarrow> scheduler \<Rightarrow> scheduler" where
  "schedule_final_event cur s = s\<lparr>schedule_final_list := schedule_final_list s @ [cur]\<rparr>"

definition call_thread :: "thread_call \<Rightarrow> scheduler \<Rightarrow> scheduler" where
  "call_thread c s = s\<lparr>thread_calls := thread_calls s @ [c]\<rparr>"

definition schedule_finish :: "scheduler \<Rightarrow> scheduler" where
  "schedule_finish s =
     (let s = (case sched_list s of
                 [] \<Rightarrow> s
               | ctim # rest \<Rightarrow>
                   s\<lparr>sched_list := ctim\<lparr>et_active := [], et_inactive := [], et_nbassign := [],
                                         et_rwsync := [], et_rosync := []\<rparr> # rest\<rparr>)
      in s\<lparr>schedule_runnable := False\<rparr>)"

definition schedule_stop :: "scheduler \<Rightarrow> scheduler" where
  "schedule_stop s = s\<lparr>schedule_stopped_flag := True\<rparr>"

definition schedule_single_step :: "scheduler \<Rightarrow> scheduler" where
  "schedule_single_step s = s\<lparr>schedule_single_step_flag := True\<rparr>"


section \<open>The interface of the scheduler\<close>

definition schedule_vthread :: "vthread_t \<Rightarrow> nat \<Rightarrow> bool \<Rightarrow> scheduler \<Rightarrow> scheduler option" where
  "schedule_vthread thr delay push_flag s =
     (let cur = vthread_event_s thr;
          s = call_thread (Mark_scheduled thr) s
      in if push_flag \<and> delay = 0 then schedule_event_push cur s
         else schedule_event cur delay SEQ_ACTIVE s)"

definition schedule_t0_trigger :: "vvp_net_ptr_t \<Rightarrow> scheduler \<Rightarrow> scheduler option" where
  "schedule_t0_trigger ptr s =
     (let bt = vec4_new 1 BIT4_X
      in schedule_event (assign_vector4_event_s ptr bt 0 0) 0 SEQ_INACTIVE s)"

definition schedule_inactive :: "vthread_t \<Rightarrow> scheduler \<Rightarrow> scheduler option" where
  "schedule_inactive thr s =
     (let s = call_thread (Mark_scheduled thr) s in schedule_event (vthread_event_s thr) 0 SEQ_INACTIVE s)"

definition schedule_init_vthread :: "vthread_t \<Rightarrow> scheduler \<Rightarrow> scheduler" where
  "schedule_init_vthread thr s =
     (let s = call_thread (Mark_scheduled thr) s in schedule_init_event (vthread_event_s thr) s)"

definition schedule_final_vthread :: "vthread_t \<Rightarrow> scheduler \<Rightarrow> scheduler" where
  "schedule_final_vthread thr s =
     (let s = call_thread (Mark_scheduled thr) s in schedule_final_event (vthread_event_s thr) s)"

definition schedule_assign_vector ::
  "vvp_net_ptr_t \<Rightarrow> nat \<Rightarrow> nat \<Rightarrow> vvp_vector4_t \<Rightarrow> nat \<Rightarrow> scheduler \<Rightarrow> scheduler option" where
  "schedule_assign_vector ptr base vwid bt delay s =
     schedule_event (assign_vector4_event_s ptr bt base vwid) delay SEQ_NBASSIGN s"

definition schedule_force_vector ::
  "vvp_net_addr \<Rightarrow> nat \<Rightarrow> nat \<Rightarrow> vvp_vector4_t \<Rightarrow> nat \<Rightarrow> scheduler \<Rightarrow> scheduler option" where
  "schedule_force_vector net base vwid bt delay s =
     schedule_event (force_vector4_event_s net bt base vwid) delay SEQ_NBASSIGN s"

definition schedule_propagate_vector :: "vvp_net_addr \<Rightarrow> nat \<Rightarrow> vvp_vector4_t \<Rightarrow> scheduler \<Rightarrow> scheduler option" where
  "schedule_propagate_vector net delay src s =
     schedule_event (propagate_vector4_event_s net src) delay SEQ_NBASSIGN s"

definition schedule_assign_array_word ::
  "vvp_array_t \<Rightarrow> nat \<Rightarrow> nat \<Rightarrow> vvp_vector4_t \<Rightarrow> nat \<Rightarrow> scheduler \<Rightarrow> scheduler option" where
  "schedule_assign_array_word mem word_addr off val delay s =
     schedule_event (assign_array_word_s mem word_addr val off) delay SEQ_NBASSIGN s"

definition schedule_assign_array_r_word ::
  "vvp_array_t \<Rightarrow> nat \<Rightarrow> real_bits \<Rightarrow> nat \<Rightarrow> scheduler \<Rightarrow> scheduler option" where
  "schedule_assign_array_r_word mem word_addr val delay s =
     schedule_event (assign_array_r_word_s mem word_addr val) delay SEQ_NBASSIGN s"

definition schedule_set_vector4 :: "vvp_net_ptr_t \<Rightarrow> vvp_vector4_t \<Rightarrow> scheduler \<Rightarrow> scheduler option" where
  "schedule_set_vector4 ptr bt s = schedule_event (assign_vector4_event_s ptr bt 0 0) 0 SEQ_ACTIVE s"

definition schedule_set_vector8 :: "vvp_net_ptr_t \<Rightarrow> vvp_vector8_t \<Rightarrow> scheduler \<Rightarrow> scheduler option" where
  "schedule_set_vector8 ptr bt s = schedule_event (assign_vector8_event_s ptr bt) 0 SEQ_ACTIVE s"

definition schedule_set_real :: "vvp_net_ptr_t \<Rightarrow> real_bits \<Rightarrow> scheduler \<Rightarrow> scheduler option" where
  "schedule_set_real ptr bt s = schedule_event (assign_real_event_s ptr bt) 0 SEQ_ACTIVE s"

definition schedule_init_vector4 :: "vvp_net_ptr_t \<Rightarrow> vvp_vector4_t \<Rightarrow> scheduler \<Rightarrow> scheduler" where
  "schedule_init_vector4 ptr bt s = schedule_init_event (assign_vector4_event_s ptr bt 0 0) s"

definition schedule_init_vector8 :: "vvp_net_ptr_t \<Rightarrow> vvp_vector8_t \<Rightarrow> scheduler \<Rightarrow> scheduler" where
  "schedule_init_vector8 ptr bt s = schedule_init_event (assign_vector8_event_s ptr bt) s"

definition schedule_init_real :: "vvp_net_ptr_t \<Rightarrow> real_bits \<Rightarrow> scheduler \<Rightarrow> scheduler" where
  "schedule_init_real ptr bt s = schedule_init_event (assign_real_event_s ptr bt) s"

definition schedule_init_propagate4 :: "vvp_net_addr \<Rightarrow> vvp_vector4_t \<Rightarrow> scheduler \<Rightarrow> scheduler" where
  "schedule_init_propagate4 net bt s = schedule_init_event (propagate_vector4_event_s net bt) s"

definition schedule_init_propagate_real :: "vvp_net_addr \<Rightarrow> real_bits \<Rightarrow> scheduler \<Rightarrow> scheduler" where
  "schedule_init_propagate_real net bt s = schedule_init_event (propagate_real_event_s net bt) s"

definition schedule_del_thr :: "vthread_t \<Rightarrow> scheduler \<Rightarrow> scheduler option" where
  "schedule_del_thr thr s = schedule_event (del_thr_event_s thr) 0 DEL_THREAD s"

definition schedule_generic ::
  "vvp_gen_event_t \<Rightarrow> nat \<Rightarrow> bool \<Rightarrow> bool \<Rightarrow> bool \<Rightarrow> scheduler \<Rightarrow> scheduler option" where
  "schedule_generic obj delay sync_flag ro_flag delete_when_done s =
     (case schedule_event (generic_event_s obj delete_when_done) delay
             (if sync_flag then if ro_flag then SEQ_ROSYNC else SEQ_RWSYNC else SEQ_ACTIVE) s of
        None \<Rightarrow> None
      | Some s \<Rightarrow> Some (if sync_flag then call_thread Delay_delete s else s))"

definition schedule_functor :: "vvp_gen_event_t \<Rightarrow> scheduler \<Rightarrow> scheduler option" where
  "schedule_functor obj s =
     (if \<not> sim_started s then Some (schedule_init_event (generic_event_s obj False) s)
      else schedule_event (generic_event_s obj False) 0 SEQ_ACTIVE s)"

definition schedule_at_start_of_simtime :: "vvp_gen_event_t \<Rightarrow> nat \<Rightarrow> scheduler \<Rightarrow> scheduler option" where
  "schedule_at_start_of_simtime obj delay s = schedule_event (generic_event_s obj False) delay SEQ_START s"

definition schedule_at_end_of_simtime :: "vvp_gen_event_t \<Rightarrow> nat \<Rightarrow> scheduler \<Rightarrow> scheduler option" where
  "schedule_at_end_of_simtime obj delay s = schedule_event (generic_event_s obj False) delay SEQ_RWSYNC s"

section \<open>The agenda\<close>

text \<open>The abstract queue: the events that wait at a distance from the current time in a region.\<close>

fun pending :: "'e event_time_s list \<Rightarrow> nat \<Rightarrow> event_queue_t \<Rightarrow> 'e list" where
  "pending [] t q = []"
| "pending (c # cs) t q =
     (if t = et_delay c then region q c else if t < et_delay c then [] else pending cs (t - et_delay c) q)"

text \<open>Between two time steps the time advances.\<close>

definition times_wf :: "'e event_time_s list \<Rightarrow> bool" where
  "times_wf l \<longleftrightarrow> (\<forall>c\<in>set (tl l). 0 < et_delay c)"

lemma times_wf_Cons: "times_wf (c # cs) \<longleftrightarrow> (\<forall>d\<in>set cs. 0 < et_delay d)"
  by (simp add: times_wf_def)

lemma times_wf_tl: "times_wf (c # cs) \<Longrightarrow> times_wf cs"
  by (cases cs) (auto simp: times_wf_def)

lemma put_event_delay: "put_event cur q delay c = Some c' \<Longrightarrow> et_delay c' = et_delay c"
  by (cases q) (auto split: if_splits)

lemma put_event_inactive: "put_event cur SEQ_INACTIVE delay c = Some c' \<Longrightarrow> delay = 0"
  by (simp split: if_splits)

lemma put_event_region:
  "put_event cur q delay c = Some c' \<Longrightarrow> region r c' = (if r = q then region r c @ [cur] else region r c)"
  by (cases q; cases r) (auto split: if_splits)

lemma put_event_none: "put_event cur q delay c = None \<longleftrightarrow> q = SEQ_INACTIVE \<and> delay \<noteq> 0"
  by (cases q) auto

declare put_event.simps [simp del]

lemma region_new [simp]: "region q (event_time_new d) = []"
  by (cases q) (simp_all add: event_time_new_def)

lemma event_time_new_delay [simp]: "et_delay (event_time_new d) = d"
  by (simp add: event_time_new_def)

lemma region_delay [simp]: "region q (c\<lparr>et_delay := d\<rparr>) = region q c"
  by (cases q) simp_all

lemma pending_before: "\<forall>c\<in>set cs. 0 < et_delay c \<Longrightarrow> pending cs 0 q = []"
  by (cases cs) auto

lemma pending_new_front:
  assumes "et_delay tmp = d" "d < et_delay c" "region r tmp = (if r = q then [cur] else [])"
  shows "pending (tmp # c\<lparr>et_delay := et_delay c - d\<rparr> # rest) t r =
    (if t = d \<and> r = q then pending (c # rest) t r @ [cur] else pending (c # rest) t r)"
proof -
  consider "t < d" | "t = d" | "d < t" by linarith
  then show ?thesis
  proof cases
    case 3
    then have "t - d = et_delay c - d \<longleftrightarrow> t = et_delay c" "t - d < et_delay c - d \<longleftrightarrow> t < et_delay c"
      "t - d - (et_delay c - d) = t - et_delay c" using assms(2) by auto
    then show ?thesis using 3 assms(1) by simp
  qed (use assms in simp_all)
qed

lemma walk_times_none:
  "cs \<noteq> [] \<Longrightarrow> et_delay (hd cs) \<le> delay \<Longrightarrow> times_wf cs \<Longrightarrow>
     walk_times cur q delay cs = None \<longleftrightarrow> q = SEQ_INACTIVE \<and> delay \<noteq> 0"
proof (induction cur q delay cs rule: walk_times.induct)
  case (1 cur q delay)
  then show ?case by simp
next
  case (2 cur q delay c rest)
  show ?case
  proof (cases "rest \<noteq> [] \<and> et_delay c < delay")
    case True
    then have wf: "times_wf rest" using times_wf_tl 2(4) by blast
    show ?thesis
    proof (cases "et_delay (hd rest) \<le> delay - et_delay c")
      case le: True
      then show ?thesis using 2(1)[OF True] True wf by (auto split: option.splits)
    next
      case False
      then obtain d ds where "rest = d # ds" using True by (cases rest) auto
      then show ?thesis using False True by (auto simp: put_event_none dest: put_event_inactive split: option.splits)
    qed
  next
    case False
    then show ?thesis using 2(3) by (auto simp: put_event_none dest: put_event_inactive split: option.splits)
  qed
qed

lemma walk_times_pending:
  assumes "walk_times cur q delay cs = Some cs'" "times_wf cs" "et_delay (hd cs) \<le> delay \<or> 0 < delay"
  shows "times_wf cs' \<and> cs' \<noteq> [] \<and> et_delay (hd cs') = min (et_delay (hd cs)) delay \<and>
    pending cs' t r = (if t = delay \<and> r = q then pending cs t r @ [cur] else pending cs t r)"
  using assms
proof (induction cur q delay cs arbitrary: cs' t rule: walk_times.induct)
  case (1 cur q delay)
  then show ?case by simp
next
  case (2 cur q delay c rest)
  note wf = 2(3)[unfolded times_wf_Cons]
  show ?case
  proof (cases "rest \<noteq> [] \<and> et_delay c < delay")
    case True
    then obtain rest' where rest': "walk_times cur q (delay - et_delay c) rest = Some rest'" "cs' = c # rest'"
      using 2(2) by (auto split: option.splits)
    have IH: "times_wf rest' \<and> rest' \<noteq> [] \<and> et_delay (hd rest') = min (et_delay (hd rest)) (delay - et_delay c) \<and>
        pending rest' u r = (if u = delay - et_delay c \<and> r = q then pending rest u r @ [cur] else pending rest u r)" for u
      using 2(1)[OF True rest'(1)] times_wf_tl[OF 2(3)] True by simp
    have "0 < et_delay (hd rest')" using IH True wf by auto
    then have "times_wf (c # rest')" using IH by (cases rest') (auto simp: times_wf_Cons)
    moreover have "pending (c # rest') t r = (if t = delay \<and> r = q then pending (c # rest) t r @ [cur] else pending (c # rest) t r)"
      using IH[of "t - et_delay c"] True by auto
    ultimately show ?thesis using rest'(2) True by simp
  next
    case False
    consider (before) "delay < et_delay c" | (here) "et_delay c = delay" | (last) "rest = []" "et_delay c < delay"
      using False by linarith
    then show ?thesis
    proof cases
      case before
      then obtain tmp where tmp: "put_event cur q delay (event_time_new delay) = Some tmp"
        "cs' = tmp # c\<lparr>et_delay := et_delay c - delay\<rparr> # rest"
        using 2(2) False by (auto split: option.splits if_splits)
      then have "et_delay tmp = delay" "region r tmp = (if r = q then [cur] else [])"
        using put_event_delay[OF tmp(1)] put_event_region[OF tmp(1), of r] by simp_all
      then have "pending cs' t r = (if t = delay \<and> r = q then pending (c # rest) t r @ [cur] else pending (c # rest) t r)"
        unfolding tmp(2) using before by (intro pending_new_front)
      moreover have "times_wf cs'" unfolding tmp(2) using before wf by (simp add: times_wf_Cons)
      ultimately show ?thesis using tmp(2) before \<open>et_delay tmp = delay\<close> by simp
    next
      case here
      then obtain c' where c': "put_event cur q delay c = Some c'" "cs' = c' # rest"
        using 2(2) False by (auto split: option.splits if_splits)
      then have "et_delay c' = delay" "region r c' = (if r = q then region r c @ [cur] else region r c)"
        using here put_event_delay[OF c'(1)] put_event_region[OF c'(1), of r] by simp_all
      then show ?thesis using c' here wf by (auto simp: times_wf_Cons)
    next
      case last
      then obtain tmp where tmp: "put_event cur q delay (event_time_new (delay - et_delay c)) = Some tmp"
        "cs' = c # tmp # rest"
        using 2(2) False by (auto split: option.splits if_splits)
      then have "et_delay tmp = delay - et_delay c" "region r tmp = (if r = q then [cur] else [])"
        using put_event_delay[OF tmp(1)] put_event_region[OF tmp(1), of r] by simp_all
      then show ?thesis using tmp last wf by (auto simp: times_wf_Cons)
    qed
  qed
qed

lemma schedule_times_pending:
  assumes "times_wf l"
  shows "case schedule_times cur delay q l of
     None \<Rightarrow> q = SEQ_INACTIVE \<and> delay \<noteq> 0
   | Some l' \<Rightarrow> \<not> (q = SEQ_INACTIVE \<and> delay \<noteq> 0) \<and> times_wf l' \<and>
       (\<forall>t r. pending l' t r = (if t = delay \<and> r = q then pending l t r @ [cur] else pending l t r))"
proof (cases l)
  case Nil
  then show ?thesis
    by (auto simp: schedule_times_def put_event_none times_wf_def put_event_region
        dest: put_event_delay put_event_inactive split: option.splits)
next
  case (Cons c rest)
  note wf = assms[unfolded Cons times_wf_Cons]
  show ?thesis
  proof (cases "delay < et_delay c")
    case True
    show ?thesis
    proof (cases "put_event cur q delay (event_time_new delay)")
      case None
      then have "schedule_times cur delay q l = None" using Cons True by (simp add: schedule_times_def)
      then show ?thesis using None by (simp add: put_event_none)
    next
      case (Some tmp)
      have "et_delay tmp = delay" "region r tmp = (if r = q then [cur] else [])" for r
        using put_event_delay[OF Some] put_event_region[OF Some, of r] by simp_all
      then have "pending (tmp # c\<lparr>et_delay := et_delay c - delay\<rparr> # rest) t r =
          (if t = delay \<and> r = q then pending (c # rest) t r @ [cur] else pending (c # rest) t r)" for t r
        using True by (intro pending_new_front)
      moreover have "times_wf (tmp # c\<lparr>et_delay := et_delay c - delay\<rparr> # rest)"
        using True wf by (simp add: times_wf_Cons)
      moreover have "\<not> (q = SEQ_INACTIVE \<and> delay \<noteq> 0)" 
        using Some put_event_none[where cur = cur and q = q and delay = delay and c = "event_time_new delay"] by simp
      ultimately show ?thesis using Cons True Some by (simp add: schedule_times_def)
    qed
  next
    case False
    then have code: "schedule_times cur delay q l = walk_times cur q delay l" using Cons by (simp add: schedule_times_def)
    have none: "walk_times cur q delay l = None \<longleftrightarrow> q = SEQ_INACTIVE \<and> delay \<noteq> 0"
      using walk_times_none[of l delay cur q] assms Cons False by simp
    show ?thesis
    proof (cases "walk_times cur q delay l")
      case None
      then show ?thesis using none code by simp
    next
      case (Some l')
      have "times_wf l' \<and> pending l' t r = (if t = delay \<and> r = q then pending l t r @ [cur] else pending l t r)" for t r
        using walk_times_pending[OF Some assms, of t r] Cons False by auto
      then show ?thesis using none code Some by simp
    qed
  qed
qed

text \<open>C1. Scheduling an event appends it to the region it names at exactly its delay from the current
  time and changes no other region of no other time; only an event for the inactive region with a
  delay other than 0 aborts. The list keeps increasing times, and nothing else changes.\<close>

theorem schedule_event_agenda:
  assumes "times_wf (sched_list s)"
  shows "case schedule_event cur delay q s of
     None \<Rightarrow> q = SEQ_INACTIVE \<and> delay \<noteq> 0
   | Some s' \<Rightarrow> \<not> (q = SEQ_INACTIVE \<and> delay \<noteq> 0) \<and> times_wf (sched_list s') \<and> s' = s\<lparr>sched_list := sched_list s'\<rparr> \<and>
       (\<forall>t r. pending (sched_list s') t r =
         (if t = delay \<and> r = q then pending (sched_list s) t r @ [cur] else pending (sched_list s) t r))"
  using schedule_times_pending[OF assms, where cur = cur and delay = delay and q = q]
  by (auto simp: schedule_event_def split: option.splits)

definition scheduler_initial :: scheduler where
  "scheduler_initial =
     \<lparr>sched_list = [], schedule_init_list = [], schedule_final_list = [], schedule_runnable = True,
      schedule_stopped_flag = False, schedule_single_step_flag = False, sim_started = False,
      schedule_time = 0, sim_at_rosync = False, rosync_error = False, thread_calls = []\<rparr>"

theorem schedule_event_agenda_witness:
  "case schedule_event (vthread_event_s 1) 5 SEQ_ACTIVE scheduler_initial of
     None \<Rightarrow> False | Some s' \<Rightarrow> pending (sched_list s') 5 SEQ_ACTIVE = [vthread_event_s 1]"
  using schedule_event_agenda[where s = scheduler_initial and cur = "vthread_event_s 1" and delay = 5 and q = SEQ_ACTIVE]
  by (auto simp: scheduler_initial_def times_wf_def split: option.splits)

text \<open>C17. Pushing an event puts it in front of everything that is active at the current time, whether
  a time step for it exists or not, and never aborts.\<close>

theorem schedule_push_agenda:
  assumes "times_wf (sched_list s)"
  shows "\<exists>s'. schedule_event_push cur s = Some s' \<and> times_wf (sched_list s') \<and> s' = s\<lparr>sched_list := sched_list s'\<rparr> \<and>
    (\<forall>t r. pending (sched_list s') t r =
      (if t = 0 \<and> r = SEQ_ACTIVE then cur # pending (sched_list s) t r else pending (sched_list s) t r))"
proof (cases "sched_list s = [] \<or> 0 < et_delay (hd (sched_list s))")
  case True
  then have empty: "pending (sched_list s) 0 SEQ_ACTIVE = []" by (cases "sched_list s") auto
  have "schedule_event_push cur s = schedule_event cur 0 SEQ_ACTIVE s"
    using True by (cases "sched_list s") (auto simp: schedule_event_push_def)
  then show ?thesis
    using schedule_times_pending[OF assms, where cur = cur and delay = 0 and q = SEQ_ACTIVE] empty
    by (auto simp: schedule_event_def split: option.splits)
next
  case False
  then obtain c rest where l: "sched_list s = c # rest" "et_delay c = 0" by (cases "sched_list s") auto
  have "schedule_event_push cur s = Some (s\<lparr>sched_list := c\<lparr>et_active := cur # et_active c\<rparr> # rest\<rparr>)"
    using l by (simp add: schedule_event_push_def)
  moreover have "pending (c\<lparr>et_active := cur # et_active c\<rparr> # rest) t r =
      (if t = 0 \<and> r = SEQ_ACTIVE then cur # pending (c # rest) t r else pending (c # rest) t r)" for t r
    using l(2) by (cases r) auto
  moreover have "times_wf (c\<lparr>et_active := cur # et_active c\<rparr> # rest)" using assms l by (simp add: times_wf_Cons)
  ultimately show ?thesis using l by (auto intro!: exI scheduler.equality)
qed

theorem schedule_push_agenda_witness:
  "\<exists>s'. schedule_event_push (vthread_event_s 2) scheduler_initial = Some s' \<and>
     pending (sched_list s') 0 SEQ_ACTIVE = [vthread_event_s 2]"
  using schedule_push_agenda[of scheduler_initial "vthread_event_s 2"]
  by (auto simp: scheduler_initial_def times_wf_def)

end
