(* ===== verification/Simulate.thy ===== *)
theory Simulate
  imports Scheduler
begin

text \<open>
  The simulation loop of \<^verbatim>\<open>schedule.cc\<close>. What an event or a callback does in the rest of the runtime is a
  parameter, \<open>beh\<close>: from the state of the scheduler and the rest of the world it gives the new world and, in order,
  the calls it makes into the scheduler; everything below holds for every such behaviour. \<open>None\<close> is an
  abort or a loop that does not end. In the code \<^verbatim>\<open>ctim\<close> points to the time step that runs; it is the first
  of the list as long as it runs, because events are only inserted at delays of 0 or others.
\<close>

section \<open>Calls into the scheduler\<close>

text \<open>One constructor for each function of the interface in \<^verbatim>\<open>schedule.h\<close>.\<close>

datatype sched_call =
    Call_vthread vthread_t nat bool
  | Call_t0_trigger vvp_net_ptr_t
  | Call_inactive vthread_t
  | Call_init_vthread vthread_t
  | Call_final_vthread vthread_t
  | Call_assign_vector vvp_net_ptr_t nat nat vvp_vector4_t nat
  | Call_force_vector vvp_net_addr nat nat vvp_vector4_t nat
  | Call_propagate_vector vvp_net_addr nat vvp_vector4_t
  | Call_assign_array_word vvp_array_t nat nat vvp_vector4_t nat
  | Call_assign_array_r_word vvp_array_t nat real_bits nat
  | Call_set_vector4 vvp_net_ptr_t vvp_vector4_t
  | Call_set_vector8 vvp_net_ptr_t vvp_vector8_t
  | Call_set_real vvp_net_ptr_t real_bits
  | Call_init_vector4 vvp_net_ptr_t vvp_vector4_t
  | Call_init_vector8 vvp_net_ptr_t vvp_vector8_t
  | Call_init_real vvp_net_ptr_t real_bits
  | Call_init_propagate4 vvp_net_addr vvp_vector4_t
  | Call_init_propagate_real vvp_net_addr real_bits
  | Call_del_thr vthread_t
  | Call_generic vvp_gen_event_t nat bool bool bool
  | Call_functor vvp_gen_event_t
  | Call_at_start_of_simtime vvp_gen_event_t nat
  | Call_at_end_of_simtime vvp_gen_event_t nat
  | Call_finish
  | Call_stop
  | Call_single_step

fun perform :: "sched_call \<Rightarrow> scheduler \<Rightarrow> scheduler option" where
  "perform (Call_vthread thr delay push_flag) s = schedule_vthread thr delay push_flag s"
| "perform (Call_t0_trigger ptr) s = schedule_t0_trigger ptr s"
| "perform (Call_inactive thr) s = schedule_inactive thr s"
| "perform (Call_init_vthread thr) s = Some (schedule_init_vthread thr s)"
| "perform (Call_final_vthread thr) s = Some (schedule_final_vthread thr s)"
| "perform (Call_assign_vector ptr base vwid bt delay) s = schedule_assign_vector ptr base vwid bt delay s"
| "perform (Call_force_vector net base vwid bt delay) s = schedule_force_vector net base vwid bt delay s"
| "perform (Call_propagate_vector net delay src) s = schedule_propagate_vector net delay src s"
| "perform (Call_assign_array_word mem adr off val delay) s = schedule_assign_array_word mem adr off val delay s"
| "perform (Call_assign_array_r_word mem adr val delay) s = schedule_assign_array_r_word mem adr val delay s"
| "perform (Call_set_vector4 ptr bt) s = schedule_set_vector4 ptr bt s"
| "perform (Call_set_vector8 ptr bt8) s = schedule_set_vector8 ptr bt8 s"
| "perform (Call_set_real ptr r) s = schedule_set_real ptr r s"
| "perform (Call_init_vector4 ptr bt) s = Some (schedule_init_vector4 ptr bt s)"
| "perform (Call_init_vector8 ptr bt8) s = Some (schedule_init_vector8 ptr bt8 s)"
| "perform (Call_init_real ptr r) s = Some (schedule_init_real ptr r s)"
| "perform (Call_init_propagate4 net bt) s = Some (schedule_init_propagate4 net bt s)"
| "perform (Call_init_propagate_real net r) s = Some (schedule_init_propagate_real net r s)"
| "perform (Call_del_thr thr) s = schedule_del_thr thr s"
| "perform (Call_generic obj delay sync_flag ro_flag del) s = schedule_generic obj delay sync_flag ro_flag del s"
| "perform (Call_functor obj) s = schedule_functor obj s"
| "perform (Call_at_start_of_simtime obj delay) s = schedule_at_start_of_simtime obj delay s"
| "perform (Call_at_end_of_simtime obj delay) s = schedule_at_end_of_simtime obj delay s"
| "perform Call_finish s = Some (schedule_finish s)"
| "perform Call_stop s = Some (schedule_stop s)"
| "perform Call_single_step s = Some (schedule_single_step s)"

section \<open>The loop\<close>

text \<open>What the scheduler calls: an event, the handler of the debugger and the VPI callbacks.\<close>

datatype hook = Run event_s | Stop_handler | End_of_compile | Start_of_sim | Next_sim_time | Postsim

type_synonym 'w behaviour = "hook \<Rightarrow> scheduler \<Rightarrow> 'w \<Rightarrow> 'w \<times> sched_call list"

definition run_hook :: "'w behaviour \<Rightarrow> hook \<Rightarrow> scheduler \<times> 'w \<Rightarrow> (scheduler \<times> 'w) option" where
  "run_hook beh h st =
     (let (w, calls) = beh h (fst st) (snd st)
      in case foldM perform calls (fst st) of None \<Rightarrow> None | Some s \<Rightarrow> Some (s, w))"

fun set_region :: "event_queue_t \<Rightarrow> 'e list \<Rightarrow> 'e event_time_s \<Rightarrow> 'e event_time_s" where
  "set_region SEQ_START es c = c\<lparr>et_start := es\<rparr>"
| "set_region SEQ_ACTIVE es c = c\<lparr>et_active := es\<rparr>"
| "set_region SEQ_INACTIVE es c = c\<lparr>et_inactive := es\<rparr>"
| "set_region SEQ_NBASSIGN es c = c\<lparr>et_nbassign := es\<rparr>"
| "set_region SEQ_RWSYNC es c = c\<lparr>et_rwsync := es\<rparr>"
| "set_region SEQ_ROSYNC es c = c\<lparr>et_rosync := es\<rparr>"
| "set_region DEL_THREAD es c = c\<lparr>et_del_thr := es\<rparr>"

text \<open>The loops \<^verbatim>\<open>while (ctim->start)\<close>, \<^verbatim>\<open>while (ctim->rosync)\<close> and \<^verbatim>\<open>while (ctim->del_thr)\<close>.\<close>

partial_function (option) drain_region ::
  "'w behaviour \<Rightarrow> event_queue_t \<Rightarrow> scheduler \<times> 'w \<Rightarrow> (scheduler \<times> 'w) option" where
  "drain_region beh q st =
     (case sched_list (fst st) of
        [] \<Rightarrow> None
      | ctim # rest \<Rightarrow>
          (case region q ctim of
             [] \<Rightarrow> Some st
           | cur # others \<Rightarrow>
               (case run_hook beh (Run cur) ((fst st)\<lparr>sched_list := set_region q others ctim # rest\<rparr>, snd st) of
                  None \<Rightarrow> None | Some st' \<Rightarrow> drain_region beh q st')))"

definition run_rosync :: "'w behaviour \<Rightarrow> scheduler \<times> 'w \<Rightarrow> (scheduler \<times> 'w) option" where
  "run_rosync beh st =
     (case drain_region beh SEQ_ROSYNC ((fst st)\<lparr>sim_at_rosync := True\<rparr>, snd st) of
        None \<Rightarrow> None
      | Some (s, w) \<Rightarrow>
          (case drain_region beh DEL_THREAD (s\<lparr>sim_at_rosync := False\<rparr>, w) of
             None \<Rightarrow> None
           | Some (s, w) \<Rightarrow>
               (case sched_list s of
                  [] \<Rightarrow> None
                | ctim # rest \<Rightarrow>
                    if et_active ctim \<noteq> [] \<or> et_inactive ctim \<noteq> [] \<or> et_nbassign ctim \<noteq> [] \<or> et_rwsync ctim \<noteq> []
                    then Some (s\<lparr>rosync_error := True\<rparr>, w) else Some (s, w))))"

text \<open>The statements under \<^verbatim>\<open>if (ctim->delay > 0)\<close>, once \<^verbatim>\<open>schedule_runnable\<close> has been tested.\<close>

definition enter_time :: "'w behaviour \<Rightarrow> scheduler \<times> 'w \<Rightarrow> (scheduler \<times> 'w) option" where
  "enter_time beh st =
     (case sched_list (fst st) of
        [] \<Rightarrow> None
      | ctim # rest \<Rightarrow>
          if et_delay ctim > 0 then
            (case run_hook beh Next_sim_time
                    ((fst st)\<lparr>schedule_time := (schedule_time (fst st) + et_delay ctim) mod 2 ^ 64,
                       sched_list := ctim\<lparr>et_delay := 0\<rparr> # rest\<rparr>, snd st) of
               None \<Rightarrow> None | Some st \<Rightarrow> drain_region beh SEQ_START st)
          else Some st)"

text \<open>Advancing the event queues of a time step with no active event.\<close>

definition promote :: "'e event_time_s \<Rightarrow> 'e event_time_s" where
  "promote ctim =
     (if et_active ctim = [] then
        let ctim = ctim\<lparr>et_active := et_inactive ctim, et_inactive := []\<rparr>
        in if et_active ctim = [] then
             let ctim = ctim\<lparr>et_active := et_nbassign ctim, et_nbassign := []\<rparr>
             in if et_active ctim = [] then ctim\<lparr>et_active := et_rwsync ctim, et_rwsync := []\<rparr> else ctim
           else ctim
      else ctim)"

definition run_step :: "'w behaviour \<Rightarrow> scheduler \<times> 'w \<Rightarrow> (scheduler \<times> 'w) option" where
  "run_step beh st =
     (case sched_list (fst st) of
        [] \<Rightarrow> None
      | ctim0 # rest \<Rightarrow>
          let ctim = promote ctim0; s = (fst st)\<lparr>sched_list := ctim # rest\<rparr>
          in case et_active ctim of
               [] \<Rightarrow> (case run_rosync beh (s, snd st) of
                       None \<Rightarrow> None | Some (s, w) \<Rightarrow> Some (s\<lparr>sched_list := tl (sched_list s)\<rparr>, w))
             | cur # others \<Rightarrow>
                 let s = s\<lparr>sched_list := ctim\<lparr>et_active := others\<rparr> # rest\<rparr>;
                     s = (if schedule_single_step_flag s
                          then s\<lparr>schedule_stopped_flag := True, schedule_single_step_flag := False\<rparr> else s)
                 in run_hook beh (Run cur) (s, snd st))"

text \<open>One round of the main loop; the flag says whether the loop goes on.\<close>

definition sim_iter :: "'w behaviour \<Rightarrow> scheduler \<times> 'w \<Rightarrow> ((scheduler \<times> 'w) \<times> bool) option" where
  "sim_iter beh st =
     (let s = fst st
      in case sched_list s of
           [] \<Rightarrow> Some (st, False)
         | ctim # rest \<Rightarrow>
             if schedule_stopped_flag s then
               (case run_hook beh Stop_handler (s\<lparr>schedule_stopped_flag := False\<rparr>, snd st) of
                  None \<Rightarrow> None | Some st \<Rightarrow> Some (st, schedule_runnable (fst st)))
             else if et_delay ctim > 0 \<and> \<not> schedule_runnable s then Some (st, False)
             else (case enter_time beh st of
                     None \<Rightarrow> None
                   | Some st \<Rightarrow> (case run_step beh st of None \<Rightarrow> None | Some st \<Rightarrow> Some (st, True))))"

partial_function (option) sim_loop :: "'w behaviour \<Rightarrow> scheduler \<times> 'w \<Rightarrow> (scheduler \<times> 'w) option" where
  "sim_loop beh st =
     (case sim_iter beh st of
        None \<Rightarrow> None
      | Some (st', go_on) \<Rightarrow> if go_on then sim_loop beh st' else Some st')"

partial_function (option) drain_init :: "'w behaviour \<Rightarrow> scheduler \<times> 'w \<Rightarrow> (scheduler \<times> 'w) option" where
  "drain_init beh st =
     (case schedule_init_list (fst st) of
        [] \<Rightarrow> Some st
      | cur # others \<Rightarrow>
          (case run_hook beh (Run cur) ((fst st)\<lparr>schedule_init_list := others\<rparr>, snd st) of
             None \<Rightarrow> None | Some st' \<Rightarrow> drain_init beh st'))"

partial_function (option) drain_final :: "'w behaviour \<Rightarrow> scheduler \<times> 'w \<Rightarrow> (scheduler \<times> 'w) option" where
  "drain_final beh st =
     (case schedule_final_list (fst st) of
        [] \<Rightarrow> Some st
      | cur # others \<Rightarrow>
          if schedule_runnable (fst st)
          then (case run_hook beh (Run cur) ((fst st)\<lparr>schedule_final_list := others\<rparr>, snd st) of
                  None \<Rightarrow> None | Some st' \<Rightarrow> drain_final beh st')
          else Some st)"

text \<open>The function itself, in two parts: up to the main loop, and from it on.\<close>

definition simulate_start :: "'w behaviour \<Rightarrow> scheduler \<times> 'w \<Rightarrow> (scheduler \<times> 'w) option" where
  "simulate_start beh st =
     (case run_hook beh End_of_compile ((fst st)\<lparr>sim_started := False, schedule_time := 0\<rparr>, snd st) of
        None \<Rightarrow> None
      | Some st \<Rightarrow>
          (case drain_init beh st of
             None \<Rightarrow> None
           | Some st \<Rightarrow>
               (case run_hook beh Start_of_sim st of
                  None \<Rightarrow> None | Some (s, w) \<Rightarrow> Some (s\<lparr>sim_started := True\<rparr>, w))))"

definition schedule_simulate :: "'w behaviour \<Rightarrow> scheduler \<times> 'w \<Rightarrow> (scheduler \<times> 'w) option" where
  "schedule_simulate beh st =
     (case simulate_start beh st of
        None \<Rightarrow> None
      | Some st \<Rightarrow>
          let run_finals = schedule_runnable (fst st)
          in case (if run_finals then sim_loop beh st else Some st) of
               None \<Rightarrow> None
             | Some (s, w) \<Rightarrow>
                 (case drain_final beh (s\<lparr>schedule_runnable := run_finals\<rparr>, w) of
                    None \<Rightarrow> None | Some st \<Rightarrow> run_hook beh Postsim st))"

section \<open>What a call does\<close>

text \<open>The effect of each function of the interface, read off its name and arguments only.\<close>

datatype call_kind =
    Insert event_s nat event_queue_t
  | Push event_s
  | At_init event_s
  | At_final event_s
  | Finish_now
  | Stop_soon
  | Step_once

fun kind_of :: "bool \<Rightarrow> sched_call \<Rightarrow> call_kind" where
  "kind_of started (Call_vthread thr delay push_flag) =
     (if push_flag \<and> delay = 0 then Push (vthread_event_s thr) else Insert (vthread_event_s thr) delay SEQ_ACTIVE)"
| "kind_of started (Call_t0_trigger ptr) = Insert (assign_vector4_event_s ptr (vec4_new 1 BIT4_X) 0 0) 0 SEQ_INACTIVE"
| "kind_of started (Call_inactive thr) = Insert (vthread_event_s thr) 0 SEQ_INACTIVE"
| "kind_of started (Call_init_vthread thr) = At_init (vthread_event_s thr)"
| "kind_of started (Call_final_vthread thr) = At_final (vthread_event_s thr)"
| "kind_of started (Call_assign_vector ptr base vwid bt delay) = Insert (assign_vector4_event_s ptr bt base vwid) delay SEQ_NBASSIGN"
| "kind_of started (Call_force_vector net base vwid bt delay) = Insert (force_vector4_event_s net bt base vwid) delay SEQ_NBASSIGN"
| "kind_of started (Call_propagate_vector net delay src) = Insert (propagate_vector4_event_s net src) delay SEQ_NBASSIGN"
| "kind_of started (Call_assign_array_word mem adr off val delay) = Insert (assign_array_word_s mem adr val off) delay SEQ_NBASSIGN"
| "kind_of started (Call_assign_array_r_word mem adr val delay) = Insert (assign_array_r_word_s mem adr val) delay SEQ_NBASSIGN"
| "kind_of started (Call_set_vector4 ptr bt) = Insert (assign_vector4_event_s ptr bt 0 0) 0 SEQ_ACTIVE"
| "kind_of started (Call_set_vector8 ptr bt8) = Insert (assign_vector8_event_s ptr bt8) 0 SEQ_ACTIVE"
| "kind_of started (Call_set_real ptr r) = Insert (assign_real_event_s ptr r) 0 SEQ_ACTIVE"
| "kind_of started (Call_init_vector4 ptr bt) = At_init (assign_vector4_event_s ptr bt 0 0)"
| "kind_of started (Call_init_vector8 ptr bt8) = At_init (assign_vector8_event_s ptr bt8)"
| "kind_of started (Call_init_real ptr r) = At_init (assign_real_event_s ptr r)"
| "kind_of started (Call_init_propagate4 net bt) = At_init (propagate_vector4_event_s net bt)"
| "kind_of started (Call_init_propagate_real net r) = At_init (propagate_real_event_s net r)"
| "kind_of started (Call_del_thr thr) = Insert (del_thr_event_s thr) 0 DEL_THREAD"
| "kind_of started (Call_generic obj delay sync_flag ro_flag del) = Insert (generic_event_s obj del) delay
     (if \<not> sync_flag then SEQ_ACTIVE else if ro_flag then SEQ_ROSYNC else SEQ_RWSYNC)"
| "kind_of started (Call_functor obj) =
     (if started then Insert (generic_event_s obj False) 0 SEQ_ACTIVE else At_init (generic_event_s obj False))"
| "kind_of started (Call_at_start_of_simtime obj delay) = Insert (generic_event_s obj False) delay SEQ_START"
| "kind_of started (Call_at_end_of_simtime obj delay) = Insert (generic_event_s obj False) delay SEQ_RWSYNC"
| "kind_of started Call_finish = Finish_now"
| "kind_of started Call_stop = Stop_soon"
| "kind_of started Call_single_step = Step_once"

fun apply_kind :: "call_kind \<Rightarrow> scheduler \<Rightarrow> scheduler option" where
  "apply_kind (Insert e d q) s = schedule_event e d q s"
| "apply_kind (Push e) s = schedule_event_push e s"
| "apply_kind (At_init e) s = Some (schedule_init_event e s)"
| "apply_kind (At_final e) s = Some (schedule_final_event e s)"
| "apply_kind Finish_now s = Some (schedule_finish s)"
| "apply_kind Stop_soon s = Some (schedule_stop s)"
| "apply_kind Step_once s = Some (schedule_single_step s)"

lemma schedule_event_calls:
  "schedule_event e d q (s\<lparr>thread_calls := tc\<rparr>) = map_option (\<lambda>s'. s'\<lparr>thread_calls := tc\<rparr>) (schedule_event e d q s)"
  by (simp add: schedule_event_def split: option.splits)

lemma schedule_event_push_calls:
  "schedule_event_push e (s\<lparr>thread_calls := tc\<rparr>) = map_option (\<lambda>s'. s'\<lparr>thread_calls := tc\<rparr>) (schedule_event_push e s)"
  by (simp add: schedule_event_push_def schedule_event_calls split: list.splits)

lemma apply_kind_calls:
  "kind_of b c = k \<Longrightarrow> map_option (\<lambda>s'. s'\<lparr>thread_calls := thread_calls s\<rparr>) (apply_kind k s) = apply_kind k s"
  by (cases c) (auto simp: schedule_event_def schedule_event_push_def schedule_init_event_def schedule_final_event_def
      schedule_finish_def schedule_stop_def schedule_single_step_def Let_def split: option.splits list.splits)

lemma perform_kind:
  "\<exists>tc. perform c s = map_option (\<lambda>s'. s'\<lparr>thread_calls := tc\<rparr>) (apply_kind (kind_of (sim_started s) c) s)"
proof -
  note ifaces = schedule_vthread_def schedule_t0_trigger_def schedule_inactive_def schedule_init_vthread_def
    schedule_final_vthread_def schedule_assign_vector_def schedule_force_vector_def schedule_propagate_vector_def
    schedule_assign_array_word_def schedule_assign_array_r_word_def schedule_set_vector4_def schedule_set_vector8_def
    schedule_set_real_def schedule_init_vector4_def schedule_init_vector8_def schedule_init_real_def
    schedule_init_propagate4_def schedule_init_propagate_real_def schedule_del_thr_def schedule_generic_def
    schedule_functor_def schedule_at_start_of_simtime_def schedule_at_end_of_simtime_def call_thread_def Let_def
    schedule_event_calls schedule_event_push_calls schedule_init_event_def schedule_final_event_def
  have marked: ?thesis if "perform c s = map_option (\<lambda>s'. s'\<lparr>thread_calls := tc\<rparr>) (apply_kind (kind_of (sim_started s) c) s)" for tc
    using that by blast
  have unmarked: ?thesis if "perform c s = apply_kind (kind_of (sim_started s) c) s"
    using that apply_kind_calls[where b = "sim_started s" and c = c and s = s, OF refl] by metis
  show ?thesis
  proof (cases c)
    case (Call_vthread thr delay push_flag)
    then show ?thesis by (intro marked[of "thread_calls s @ [Mark_scheduled thr]"]) (simp add: ifaces)
  next
    case (Call_inactive thr)
    then show ?thesis by (intro marked[of "thread_calls s @ [Mark_scheduled thr]"]) (simp add: ifaces)
  next
    case (Call_init_vthread thr)
    then show ?thesis by (intro marked[of "thread_calls s @ [Mark_scheduled thr]"]) (simp add: ifaces)
  next
    case (Call_final_vthread thr)
    then show ?thesis by (intro marked[of "thread_calls s @ [Mark_scheduled thr]"]) (simp add: ifaces)
  next
    case (Call_generic obj delay sync_flag ro_flag del)
    show ?thesis
    proof (cases sync_flag)
      case True
      then show ?thesis using Call_generic
        by (intro marked[of "thread_calls s @ [Delay_delete]"])
          (cases ro_flag; simp add: ifaces schedule_event_def split: option.splits)
    next
      case False
      then show ?thesis using Call_generic by (intro unmarked) (simp add: ifaces split: option.splits)
    qed
  qed (rule unmarked, simp add: ifaces)+
qed

section \<open>Invariants of the queue\<close>

text \<open>While a time step runs it is the first of the list.\<close>

definition in_step :: "scheduler \<Rightarrow> bool" where
  "in_step s \<longleftrightarrow> sched_list s \<noteq> [] \<and> et_delay (hd (sched_list s)) = 0 \<and> times_wf (sched_list s)"

lemma kind_of_inactive: "kind_of b c = Insert e d SEQ_INACTIVE \<Longrightarrow> d = 0"
  by (cases c) (auto split: if_splits)

lemma schedule_times_in_step:
  assumes "l \<noteq> []" "et_delay (hd l) = 0" "times_wf l" "schedule_times cur d q l = Some l'"
  shows "l' \<noteq> [] \<and> et_delay (hd l') = 0"
proof -
  obtain c rest where "l = c # rest" using assms(1) by (cases l) auto
  then have "walk_times cur q d l = Some l'" using assms by (simp add: schedule_times_def)
  from walk_times_pending[OF this assms(3)] show ?thesis using assms(2) by simp
qed

lemma schedule_event_total:
  assumes "times_wf (sched_list s)" "q = SEQ_INACTIVE \<Longrightarrow> d = 0"
  shows "\<exists>l. schedule_event e d q s = Some (s\<lparr>sched_list := l\<rparr>) \<and> schedule_times e d q (sched_list s) = Some l \<and> times_wf l \<and>
    (\<forall>t r. pending l t r = (if t = d \<and> r = q then pending (sched_list s) t r @ [e] else pending (sched_list s) t r))"
  using schedule_times_pending[OF assms(1), where cur = e and delay = d and q = q] assms(2)
  by (auto simp: schedule_event_def split: option.splits)

lemma schedule_event_push_total:
  assumes "times_wf (sched_list s)"
  shows "\<exists>l. schedule_event_push e s = Some (s\<lparr>sched_list := l\<rparr>) \<and> times_wf l \<and>
    (l \<noteq> [] \<and> et_delay (hd l) = 0 \<or> sched_list s = [] \<or> et_delay (hd (sched_list s)) > 0)"
proof (cases "sched_list s = [] \<or> 0 < et_delay (hd (sched_list s))")
  case True
  then have "schedule_event_push e s = schedule_event e 0 SEQ_ACTIVE s"
    by (cases "sched_list s") (auto simp: schedule_event_push_def)
  then show ?thesis using schedule_event_total[OF assms, of SEQ_ACTIVE 0 e] True by auto
next
  case False
  then obtain c rest where "sched_list s = c # rest" "et_delay c = 0" by (cases "sched_list s") auto
  then show ?thesis using assms by (auto simp: schedule_event_push_def times_wf_Cons intro!: exI)
qed

section \<open>Every call and every loop returns\<close>

text \<open>A measure of the work the scheduler holds: two for an event, one for a time step and one for a pending stop.\<close>

definition n_events :: "'e event_time_s \<Rightarrow> nat" where
  "n_events c = length (et_start c) + length (et_active c) + length (et_inactive c) + length (et_nbassign c) +
     length (et_rwsync c) + length (et_rosync c) + length (et_del_thr c)"

definition steps_load :: "'e event_time_s list \<Rightarrow> nat" where
  "steps_load l = (\<Sum>c\<leftarrow>l. 1 + 2 * n_events c)"

definition load :: "scheduler \<Rightarrow> nat" where
  "load s = steps_load (sched_list s) + 2 * length (schedule_init_list s) + 2 * length (schedule_final_list s) +
     (if schedule_stopped_flag s then 1 else 0)"

lemma steps_load_simps [simp]: "steps_load [] = 0" "steps_load (c # cs) = 1 + 2 * n_events c + steps_load cs"
  by (simp_all add: steps_load_def)

lemma n_events_simps [simp]: "n_events (event_time_new d) = 0" "n_events (c\<lparr>et_delay := d\<rparr>) = n_events c"
  by (simp_all add: n_events_def event_time_new_def)

lemma n_events_put: "put_event e q d c = Some c' \<Longrightarrow> n_events c' = Suc (n_events c)"
  by (cases q) (auto simp: n_events_def put_event.simps split: if_splits)

lemma walk_times_load: "walk_times e q d l = Some l' \<Longrightarrow> steps_load l' \<le> steps_load l + 3"
proof (induction e q d l arbitrary: l' rule: walk_times.induct)
  case (2 cur q delay ctim rest)
  then show ?case by (auto simp: n_events_put split: if_splits option.splits)
qed simp

lemma schedule_times_load: "schedule_times e d q l = Some l' \<Longrightarrow> steps_load l' \<le> steps_load l + 3"
  using walk_times_load[of e q d l l']
  by (auto simp: schedule_times_def n_events_put split: list.splits if_splits option.splits)

lemma schedule_event_load:
  assumes "times_wf (sched_list s)" "q = SEQ_INACTIVE \<Longrightarrow> d = 0"
  shows "\<exists>s'. schedule_event e d q s = Some s' \<and> times_wf (sched_list s') \<and> load s' \<le> load s + 3 \<and> (in_step s \<longrightarrow> in_step s')"
proof -
  obtain l where l: "schedule_event e d q s = Some (s\<lparr>sched_list := l\<rparr>)" "schedule_times e d q (sched_list s) = Some l" "times_wf l"
    using schedule_event_total[OF assms, where e = e] by blast
  then show ?thesis
    using schedule_times_load[OF l(2)] schedule_times_in_step[where l = "sched_list s" and cur = e and d = d and q = q and l' = l]
    by (auto simp: load_def in_step_def)
qed

lemma schedule_event_push_load:
  assumes "times_wf (sched_list s)"
  shows "\<exists>s'. schedule_event_push e s = Some s' \<and> times_wf (sched_list s') \<and> load s' \<le> load s + 3 \<and> (in_step s \<longrightarrow> in_step s')"
proof (cases "sched_list s = [] \<or> 0 < et_delay (hd (sched_list s))")
  case True
  then have "schedule_event_push e s = schedule_event e 0 SEQ_ACTIVE s"
    by (cases "sched_list s") (auto simp: schedule_event_push_def)
  then show ?thesis using schedule_event_load[OF assms, of SEQ_ACTIVE 0 e] by simp
next
  case False
  then obtain c rest where "sched_list s = c # rest" "et_delay c = 0" by (cases "sched_list s") auto
  then show ?thesis
    using assms by (auto simp: schedule_event_push_def times_wf_Cons load_def in_step_def n_events_def)
qed

lemma schedule_finish_load:
  "times_wf (sched_list s) \<Longrightarrow>
     times_wf (sched_list (schedule_finish s)) \<and> load (schedule_finish s) \<le> load s \<and> (in_step s \<longrightarrow> in_step (schedule_finish s))"
  by (cases "sched_list s") (auto simp: schedule_finish_def Let_def times_wf_Cons load_def in_step_def n_events_def)

lemma perform_total:
  assumes "times_wf (sched_list s)"
  shows "\<exists>s'. perform c s = Some s' \<and> times_wf (sched_list s') \<and> load s' \<le> load s + 3 \<and> (in_step s \<longrightarrow> in_step s')"
proof -
  let ?k = "kind_of (sim_started s) c"
  obtain tc where tc: "perform c s = map_option (\<lambda>s'. s'\<lparr>thread_calls := tc\<rparr>) (apply_kind ?k s)"
    using perform_kind by blast
  have "\<exists>s'. apply_kind ?k s = Some s' \<and> times_wf (sched_list s') \<and> load s' \<le> load s + 3 \<and> (in_step s \<longrightarrow> in_step s')"
  proof (cases ?k)
    case (Insert e d q)
    have "q = SEQ_INACTIVE \<Longrightarrow> d = 0" using Insert kind_of_inactive by blast
    then show ?thesis using Insert schedule_event_load[OF assms, of q d e] by simp
  next
    case (Push e)
    then show ?thesis using schedule_event_push_load[OF assms] by simp
  next
    case Finish_now
    then show ?thesis using schedule_finish_load[OF assms] by fastforce
  qed (use assms in \<open>auto simp: schedule_init_event_def schedule_final_event_def schedule_stop_def
    schedule_single_step_def load_def in_step_def\<close>)
  then show ?thesis using tc by (auto simp: load_def in_step_def)
qed

lemma perform_all_total:
  assumes "times_wf (sched_list s)"
  shows "\<exists>s'. foldM perform cs s = Some s' \<and> times_wf (sched_list s') \<and> load s' \<le> load s + 3 * length cs \<and> (in_step s \<longrightarrow> in_step s')"
  using assms
proof (induction cs arbitrary: s)
  case (Cons c cs)
  obtain s1 where s1: "perform c s = Some s1" "times_wf (sched_list s1)" "load s1 \<le> load s + 3" "in_step s \<longrightarrow> in_step s1"
    using perform_total[OF Cons.prems] by blast
  then show ?case using Cons.IH[OF s1(2)] by fastforce
qed simp

text \<open>A behaviour with a potential: it can be carried out with the scheduling calls the potential of the world allows.\<close>

definition calls_bounded :: "('w \<Rightarrow> nat) \<Rightarrow> 'w behaviour \<Rightarrow> bool" where
  "calls_bounded potential beh \<longleftrightarrow> (\<forall>h s w. potential (fst (beh h s w)) + length (snd (beh h s w)) \<le> potential w)"

definition energy :: "('w \<Rightarrow> nat) \<Rightarrow> scheduler \<times> 'w \<Rightarrow> nat" where
  "energy potential st = load (fst st) + 3 * potential (snd st)"

lemma run_hook_total:
  assumes "calls_bounded potential beh" "times_wf (sched_list (fst st))"
  shows "\<exists>st'. run_hook beh h st = Some st' \<and> times_wf (sched_list (fst st')) \<and> energy potential st' \<le> energy potential st \<and>
    (in_step (fst st) \<longrightarrow> in_step (fst st'))"
proof -
  obtain w cs where w: "beh h (fst st) (snd st) = (w, cs)" by (cases "beh h (fst st) (snd st)")
  then have "potential w + length cs \<le> potential (snd st)"
    using assms(1) unfolding calls_bounded_def by (metis fst_conv snd_conv)
  then show ?thesis using perform_all_total[OF assms(2), of cs] w by (fastforce simp: run_hook_def energy_def)
qed

lemma set_region_simps [simp]:
  "region r (set_region q es c) = (if r = q then es else region r c)" "et_delay (set_region q es c) = et_delay c"
  by (cases q; cases r; simp)+

lemma n_events_set_region: "n_events c + length es = n_events (set_region q es c) + length (region q c)"
  by (cases q) (simp_all add: n_events_def)

lemma drain_total:
  assumes "calls_bounded potential beh" "in_step (fst st)"
  shows "\<exists>st'. drain_region beh q st = Some st' \<and> in_step (fst st') \<and> energy potential st' \<le> energy potential st \<and>
    region q (hd (sched_list (fst st'))) = []"
  using assms(2)
proof (induction "energy potential st" arbitrary: st rule: less_induct)
  case less
  obtain c rest where c: "sched_list (fst st) = c # rest" "et_delay c = 0" "times_wf (c # rest)"
    using less.prems by (cases "sched_list (fst st)") (auto simp: in_step_def)
  show ?case
  proof (cases "region q c")
    case Nil
    then show ?thesis using c less.prems by (simp add: drain_region.simps[of beh q st])
  next
    case (Cons e es)
    let ?st = "((fst st)\<lparr>sched_list := set_region q es c # rest\<rparr>, snd st)"
    have step: "in_step (fst ?st)" using c by (simp add: in_step_def times_wf_Cons)
    then have wf: "times_wf (sched_list (fst ?st))" by (simp add: in_step_def)
    have "energy potential ?st < energy potential st"
      using n_events_set_region[of c es q] c(1) Cons by (simp add: energy_def load_def)
    moreover obtain st' where st': "run_hook beh (Run e) ?st = Some st'" "in_step (fst st')" "energy potential st' \<le> energy potential ?st"
      using run_hook_total[OF assms(1) wf, of "Run e"] step by blast
    ultimately have "energy potential st' < energy potential st" by linarith
    from less.hyps[OF this st'(2)] show ?thesis
      using c(1) Cons st'(1) \<open>energy potential st' < energy potential st\<close> by (fastforce simp: drain_region.simps[of beh q st])
  qed
qed

lemma run_rosync_total:
  assumes "calls_bounded potential beh" "in_step (fst st)"
  shows "\<exists>st'. run_rosync beh st = Some st' \<and> in_step (fst st') \<and> energy potential st' \<le> energy potential st"
proof -
  have e1: "energy potential ((fst st)\<lparr>sim_at_rosync := True\<rparr>, snd st) = energy potential st"
    by (simp add: energy_def load_def)
  have "in_step (fst ((fst st)\<lparr>sim_at_rosync := True\<rparr>, snd st))" using assms(2) by (simp add: in_step_def)
  from drain_total[OF assms(1) this, of SEQ_ROSYNC] obtain s1 w1 where
    s1: "drain_region beh SEQ_ROSYNC ((fst st)\<lparr>sim_at_rosync := True\<rparr>, snd st) = Some (s1, w1)" "in_step s1"
      "energy potential (s1, w1) \<le> energy potential st" using e1 by auto
  have "in_step (fst (s1\<lparr>sim_at_rosync := False\<rparr>, w1))" using s1(2) by (simp add: in_step_def)
  from drain_total[OF assms(1) this, of DEL_THREAD] obtain s2 w2 where
    s2: "drain_region beh DEL_THREAD (s1\<lparr>sim_at_rosync := False\<rparr>, w1) = Some (s2, w2)" "in_step s2"
      "energy potential (s2, w2) \<le> energy potential (s1\<lparr>sim_at_rosync := False\<rparr>, w1)" by auto
  have "energy potential (s1\<lparr>sim_at_rosync := False\<rparr>, w1) = energy potential (s1, w1)" by (simp add: energy_def load_def)
  with s2(3) s1(3) have le: "energy potential (s2, w2) \<le> energy potential st" by simp
  obtain c rest where c: "sched_list s2 = c # rest" using s2(2) by (cases "sched_list s2") (auto simp: in_step_def)
  have flag: "energy potential (s2\<lparr>rosync_error := True\<rparr>, w2) = energy potential (s2, w2)" "in_step (s2\<lparr>rosync_error := True\<rparr>)"
    using s2(2) by (simp_all add: energy_def load_def in_step_def)
  show ?thesis unfolding run_rosync_def using s1(1) s2(1,2) c le flag by simp
qed

lemma enter_time_total:
  assumes "calls_bounded potential beh" "times_wf (sched_list (fst st))" "sched_list (fst st) \<noteq> []"
  shows "\<exists>st'. enter_time beh st = Some st' \<and> in_step (fst st') \<and> energy potential st' \<le> energy potential st"
proof -
  obtain c rest where c: "sched_list (fst st) = c # rest" using assms(3) by (cases "sched_list (fst st)") auto
  show ?thesis
  proof (cases "et_delay c = 0")
    case True
    then show ?thesis using c assms by (simp add: enter_time_def in_step_def)
  next
    case False
    let ?st = "((fst st)\<lparr>schedule_time := (schedule_time (fst st) + et_delay c) mod 2 ^ 64,
      sched_list := c\<lparr>et_delay := 0\<rparr> # rest\<rparr>, snd st)"
    have step: "in_step (fst ?st)" using assms(2) c by (simp add: in_step_def times_wf_Cons)
    then have wf: "times_wf (sched_list (fst ?st))" by (simp add: in_step_def)
    have "energy potential ?st = energy potential st" using c by (simp add: energy_def load_def)
    then obtain st1 where st1: "run_hook beh Next_sim_time ?st = Some st1" "in_step (fst st1)"
      "energy potential st1 \<le> energy potential st" using run_hook_total[OF assms(1) wf, of Next_sim_time] step by auto
    obtain st2 where "drain_region beh SEQ_START st1 = Some st2" "in_step (fst st2)" "energy potential st2 \<le> energy potential st1"
      using drain_total[OF assms(1) st1(2)] by blast
    then show ?thesis using st1 c False by (simp add: enter_time_def)
  qed
qed

definition rw_events :: "'e event_time_s \<Rightarrow> 'e list" where
  "rw_events c = et_active c @ et_inactive c @ et_nbassign c @ et_rwsync c"

lemma promote_simps [simp]:
  "et_delay (promote c) = et_delay c" "n_events (promote c) = n_events c"
  "rw_events (promote c) = rw_events c" "et_rosync (promote c) = et_rosync c" "et_del_thr (promote c) = et_del_thr c"
  "et_start (promote c) = et_start c" "et_active (promote c) = [] \<longleftrightarrow> rw_events c = []"
  by (auto simp: promote_def Let_def n_events_def rw_events_def)

lemma run_step_total:
  assumes "calls_bounded potential beh" "in_step (fst st)"
  shows "\<exists>st'. run_step beh st = Some st' \<and> times_wf (sched_list (fst st')) \<and> energy potential st' < energy potential st"
proof -
  obtain c rest where c: "sched_list (fst st) = c # rest" "et_delay c = 0" "times_wf (c # rest)"
    using assms(2) by (cases "sched_list (fst st)") (auto simp: in_step_def)
  let ?s = "(fst st)\<lparr>sched_list := promote c # rest\<rparr>"
  show ?thesis
  proof (cases "et_active (promote c)")
    case Nil
    have "in_step (fst (?s, snd st))" using c by (simp add: in_step_def times_wf_Cons)
    from run_rosync_total[OF assms(1) this] obtain s1 w1 where
      s1: "run_rosync beh (?s, snd st) = Some (s1, w1)" "in_step s1" "energy potential (s1, w1) \<le> energy potential (?s, snd st)" by auto
    obtain d ds where d: "sched_list s1 = d # ds" using s1(2) by (cases "sched_list s1") (auto simp: in_step_def)
    have "energy potential (?s, snd st) = energy potential st" using c(1) by (simp add: energy_def load_def)
    then have "energy potential (s1\<lparr>sched_list := ds\<rparr>, w1) < energy potential st" using s1(3) d by (simp add: energy_def load_def)
    moreover have "times_wf ds" using s1(2) d times_wf_tl by (auto simp: in_step_def)
    ultimately show ?thesis unfolding run_step_def using c(1) s1(1) d by (simp add: Let_def Nil)
  next
    case (Cons e es)
    let ?s1 = "(fst st)\<lparr>sched_list := (promote c)\<lparr>et_active := es\<rparr> # rest\<rparr>"
    let ?s2 = "if schedule_single_step_flag ?s1
      then ?s1\<lparr>schedule_stopped_flag := True, schedule_single_step_flag := False\<rparr> else ?s1"
    have "n_events c = Suc (n_events ((promote c)\<lparr>et_active := es\<rparr>))"
      using Cons by (simp only: promote_simps(2)[symmetric, of c]) (simp add: n_events_def)
    then have less: "energy potential (?s2, snd st) < energy potential st" using c(1) by (simp add: energy_def load_def)
    have "times_wf (sched_list (fst (?s2, snd st)))" using c(3) by (simp add: times_wf_Cons)
    from run_hook_total[OF assms(1) this, of "Run e"] obtain st' where
      "run_hook beh (Run e) (?s2, snd st) = Some st'" "times_wf (sched_list (fst st'))" "energy potential st' < energy potential st"
      using less by auto
    then show ?thesis unfolding run_step_def using c(1) Cons
      by (cases "schedule_single_step_flag (fst st)") (simp_all add: Let_def)
  qed
qed

lemma sim_iter_total:
  assumes "calls_bounded potential beh" "times_wf (sched_list (fst st))"
  shows "\<exists>st' b. sim_iter beh st = Some (st', b) \<and> times_wf (sched_list (fst st')) \<and>
    (b \<longrightarrow> energy potential st' < energy potential st) \<and>
    (\<not> b \<longrightarrow> sched_list (fst st') = [] \<or> \<not> schedule_runnable (fst st'))"
proof (cases "sched_list (fst st)")
  case Nil
  then show ?thesis using assms(2) by (intro exI[of _ st] exI[of _ False]) (simp add: sim_iter_def)
next
  case (Cons c rest)
  show ?thesis
  proof (cases "schedule_stopped_flag (fst st)")
    case True
    let ?st = "((fst st)\<lparr>schedule_stopped_flag := False\<rparr>, snd st)"
    have less: "energy potential ?st < energy potential st" using True by (simp add: energy_def load_def)
    have "times_wf (sched_list (fst ?st))" using assms(2) by simp
    from run_hook_total[OF assms(1) this, of Stop_handler] obtain st' where
      "run_hook beh Stop_handler ?st = Some st'" "times_wf (sched_list (fst st'))" "energy potential st' < energy potential st"
      using less by auto
    then show ?thesis using Cons True by (simp add: sim_iter_def Let_def)
  next
    case run: False
    show ?thesis
    proof (cases "et_delay c > 0 \<and> \<not> schedule_runnable (fst st)")
      case True
      then show ?thesis using Cons run assms(2) by (intro exI[of _ st] exI[of _ False]) (simp add: sim_iter_def Let_def)
    next
      case False
      obtain st1 where st1: "enter_time beh st = Some st1" "in_step (fst st1)" "energy potential st1 \<le> energy potential st"
        using enter_time_total[OF assms] Cons by auto
      obtain st2 where "run_step beh st1 = Some st2" "times_wf (sched_list (fst st2))" "energy potential st2 < energy potential st1"
        using run_step_total[OF assms(1) st1(2)] by blast
      then show ?thesis using Cons run False st1
        by (intro exI[of _ st2] exI[of _ True]) (auto simp: sim_iter_def Let_def)
    qed
  qed
qed

lemma sim_loop_total:
  assumes "calls_bounded potential beh" "times_wf (sched_list (fst st))"
  shows "\<exists>st'. sim_loop beh st = Some st' \<and> times_wf (sched_list (fst st')) \<and>
    (sched_list (fst st') = [] \<or> \<not> schedule_runnable (fst st'))"
  using assms(2)
proof (induction "energy potential st" arbitrary: st rule: less_induct)
  case less
  obtain st1 b where st1: "sim_iter beh st = Some (st1, b)" "times_wf (sched_list (fst st1))"
    "b \<longrightarrow> energy potential st1 < energy potential st" "\<not> b \<longrightarrow> sched_list (fst st1) = [] \<or> \<not> schedule_runnable (fst st1)"
    using sim_iter_total[OF assms(1) less.prems] by blast
  show ?case
    using less.hyps[OF _ st1(2)] st1 by (cases b) (auto simp: sim_loop.simps[of beh st])
qed

lemma drain_init_total:
  assumes "calls_bounded potential beh" "times_wf (sched_list (fst st))"
  shows "\<exists>st'. drain_init beh st = Some st' \<and> times_wf (sched_list (fst st'))"
  using assms(2)
proof (induction "energy potential st" arbitrary: st rule: less_induct)
  case less
  show ?case
  proof (cases "schedule_init_list (fst st)")
    case Nil
    then show ?thesis using less.prems by (simp add: drain_init.simps[of beh st])
  next
    case (Cons e es)
    let ?st = "((fst st)\<lparr>schedule_init_list := es\<rparr>, snd st)"
    have less': "energy potential ?st < energy potential st" using Cons by (simp add: energy_def load_def)
    have "times_wf (sched_list (fst ?st))" using less.prems by simp
    from run_hook_total[OF assms(1) this, of "Run e"] obtain st' where
      "run_hook beh (Run e) ?st = Some st'" "times_wf (sched_list (fst st'))" "energy potential st' < energy potential st"
      using less' by auto
    then show ?thesis using less.hyps[of st'] Cons by (auto simp: drain_init.simps[of beh st])
  qed
qed

lemma drain_final_total:
  assumes "calls_bounded potential beh" "times_wf (sched_list (fst st))"
  shows "\<exists>st'. drain_final beh st = Some st' \<and> times_wf (sched_list (fst st')) \<and>
    (schedule_final_list (fst st') = [] \<or> \<not> schedule_runnable (fst st'))"
  using assms(2)
proof (induction "energy potential st" arbitrary: st rule: less_induct)
  case less
  show ?case
  proof (cases "schedule_final_list (fst st) = [] \<or> \<not> schedule_runnable (fst st)")
    case True
    then show ?thesis using less.prems by (cases "schedule_final_list (fst st)") (auto simp: drain_final.simps[of beh st])
  next
    case False
    then obtain e es where Cons: "schedule_final_list (fst st) = e # es" by (cases "schedule_final_list (fst st)") auto
    let ?st = "((fst st)\<lparr>schedule_final_list := es\<rparr>, snd st)"
    have less': "energy potential ?st < energy potential st" using Cons by (simp add: energy_def load_def)
    have "times_wf (sched_list (fst ?st))" using less.prems by simp
    from run_hook_total[OF assms(1) this, of "Run e"] obtain st' where
      "run_hook beh (Run e) ?st = Some st'" "times_wf (sched_list (fst st'))" "energy potential st' < energy potential st"
      using less' by auto
    then show ?thesis using less.hyps[of st'] Cons False by (auto simp: drain_final.simps[of beh st])
  qed
qed

text \<open>C4. A simulation ends and never aborts when the runtime as a whole makes only finitely many calls into the
  scheduler: every loop of the scheduler, the draining of the callback lists included, uses up events. The main
  loop ends with an empty queue unless the simulation was finished.\<close>

theorem simulate_terminates:
  assumes "calls_bounded potential beh" "times_wf (sched_list (fst st))"
  shows "(\<exists>st'. schedule_simulate beh st = Some st' \<and> times_wf (sched_list (fst st'))) \<and>
    (\<exists>st'. sim_loop beh st = Some st' \<and> (sched_list (fst st') = [] \<or> \<not> schedule_runnable (fst st')))"
proof -
  let ?st = "((fst st)\<lparr>sim_started := False, schedule_time := 0\<rparr>, snd st)"
  have "times_wf (sched_list (fst ?st))" using assms(2) by simp
  from run_hook_total[OF assms(1) this, of End_of_compile] obtain st1 where
    st1: "run_hook beh End_of_compile ?st = Some st1" "times_wf (sched_list (fst st1))" by blast
  obtain st2 where st2: "drain_init beh st1 = Some st2" "times_wf (sched_list (fst st2))"
    using drain_init_total[OF assms(1) st1(2)] by blast
  obtain s3 w3 where s3: "run_hook beh Start_of_sim st2 = Some (s3, w3)" "times_wf (sched_list s3)"
    using run_hook_total[OF assms(1) st2(2), of Start_of_sim] by auto
  let ?st3 = "(s3\<lparr>sim_started := True\<rparr>, w3)"
  have start: "simulate_start beh st = Some ?st3" using st1 st2 s3 by (simp add: simulate_start_def)
  have "times_wf (sched_list (fst ?st3))" using s3(2) by simp
  from sim_loop_total[OF assms(1) this] obtain st4 where
    "sim_loop beh ?st3 = Some st4" "times_wf (sched_list (fst st4))" by blast
  then obtain s4 w4 where
    s4: "(if schedule_runnable s3 then sim_loop beh ?st3 else Some ?st3) = Some (s4, w4)" "times_wf (sched_list s4)"
    using s3(2) by (cases "schedule_runnable s3"; cases st4) auto
  have "times_wf (sched_list (fst (s4\<lparr>schedule_runnable := schedule_runnable s3\<rparr>, w4)))" using s4(2) by simp
  from drain_final_total[OF assms(1) this] obtain st5 where
    st5: "drain_final beh (s4\<lparr>schedule_runnable := schedule_runnable s3\<rparr>, w4) = Some st5" "times_wf (sched_list (fst st5))" by blast
  obtain st6 where "run_hook beh Postsim st5 = Some st6" "times_wf (sched_list (fst st6))"
    using run_hook_total[OF assms(1) st5(2), of Postsim] by blast
  then have "schedule_simulate beh st = Some st6" using start s4(1) st5(1) by (simp add: schedule_simulate_def Let_def)
  then show ?thesis using \<open>times_wf (sched_list (fst st6))\<close> sim_loop_total[OF assms] by blast
qed

section \<open>The order of events\<close>

text \<open>The abstract agenda of the current time: the region whose first event runs next, and what is left then.\<close>

type_synonym agenda = "nat \<Rightarrow> event_queue_t \<Rightarrow> event_s list"

fun agenda_call :: "call_kind \<Rightarrow> agenda \<Rightarrow> agenda" where
  "agenda_call (Insert e d q) A = A(d := (A d)(q := A d q @ [e]))"
| "agenda_call (Push e) A = A(0 := (A 0)(SEQ_ACTIVE := e # A 0 SEQ_ACTIVE))"
| "agenda_call (At_init e) A = A"
| "agenda_call (At_final e) A = A"
| "agenda_call Finish_now A = A(0 := \<lambda>q. if q \<in> {SEQ_START, DEL_THREAD} then A 0 q else [])"
| "agenda_call Stop_soon A = A"
| "agenda_call Step_once A = A"

fun next_event :: "event_queue_t list \<Rightarrow> agenda \<Rightarrow> (event_s \<times> agenda) option" where
  "next_event [] A = None"
| "next_event (q # qs) A =
     (case A 0 q of [] \<Rightarrow> next_event qs A | e # es \<Rightarrow> Some (e, A(0 := (A 0)(q := [], SEQ_ACTIVE := es))))"

abbreviation rw_regions :: "event_queue_t list" where
  "rw_regions \<equiv> [SEQ_ACTIVE, SEQ_INACTIVE, SEQ_NBASSIGN, SEQ_RWSYNC]"

lemma pending_step: "et_delay c = 0 \<Longrightarrow> pending (c # rest) t q = (if t = 0 then region q c else pending rest t q)"
  by simp

lemma agenda_finish:
  assumes "in_step s"
  shows "pending (sched_list (schedule_finish s)) = agenda_call Finish_now (pending (sched_list s))"
proof -
  obtain c rest where "sched_list s = c # rest" "et_delay c = 0" using assms by (cases "sched_list s") (auto simp: in_step_def)
  then have "pending (sched_list (schedule_finish s)) t q = agenda_call Finish_now (pending (sched_list s)) t q" for t q
    by (cases q) (simp_all add: schedule_finish_def Let_def pending_step)
  then show ?thesis by blast
qed

lemma perform_agenda:
  assumes "in_step s" "perform c s = Some s'"
  shows "in_step s' \<and> pending (sched_list s') = agenda_call (kind_of (sim_started s) c) (pending (sched_list s)) \<and>
    sim_started s' = sim_started s \<and> schedule_time s' = schedule_time s"
proof -
  have wf: "times_wf (sched_list s)" using assms(1) by (simp add: in_step_def)
  let ?k = "kind_of (sim_started s) c"
  obtain tc where tc: "perform c s = map_option (\<lambda>s'. s'\<lparr>thread_calls := tc\<rparr>) (apply_kind ?k s)"
    using perform_kind by blast
  then obtain s1 where s1: "apply_kind ?k s = Some s1" "s' = s1\<lparr>thread_calls := tc\<rparr>"
    using assms(2) by (cases "apply_kind ?k s") auto
  have "pending (sched_list s1) = agenda_call ?k (pending (sched_list s)) \<and> sim_started s1 = sim_started s \<and>
    schedule_time s1 = schedule_time s"
  proof (cases ?k)
    case (Insert e d q)
    have "q = SEQ_INACTIVE \<Longrightarrow> d = 0" using Insert kind_of_inactive by blast
    then obtain l where l: "schedule_event e d q s = Some (s\<lparr>sched_list := l\<rparr>)"
      "\<forall>t r. pending l t r = (if t = d \<and> r = q then pending (sched_list s) t r @ [e] else pending (sched_list s) t r)"
      using schedule_event_total[OF wf, where e = e] by blast
    then have "pending l = agenda_call ?k (pending (sched_list s))" using Insert by (auto simp: fun_eq_iff)
    then show ?thesis using Insert s1(1) l(1) by auto
  next
    case (Push e)
    obtain a rest where a: "sched_list s = a # rest" "et_delay a = 0" using assms(1) by (cases "sched_list s") (auto simp: in_step_def)
    have "pending (a\<lparr>et_active := e # et_active a\<rparr> # rest) t q = agenda_call ?k (pending (a # rest)) t q" for t q
      using Push a(2) by (cases q) simp_all
    then have "pending (a\<lparr>et_active := e # et_active a\<rparr> # rest) = agenda_call ?k (pending (a # rest))" by blast
    moreover have "s1 = s\<lparr>sched_list := a\<lparr>et_active := e # et_active a\<rparr> # rest\<rparr>"
      using Push s1(1) a by (auto simp: schedule_event_push_def split: if_splits)
    ultimately show ?thesis using a(1) by simp
  next
    case Finish_now
    then have "s1 = schedule_finish s" using s1(1) by simp
    then show ?thesis
      using agenda_finish[OF assms(1)] Finish_now by (auto simp: schedule_finish_def Let_def split: list.splits)
  qed (use s1(1) in \<open>auto simp: schedule_init_event_def schedule_final_event_def schedule_stop_def schedule_single_step_def\<close>)
  moreover have "in_step s'" using perform_total[OF wf, of c] assms by auto
  ultimately show ?thesis using s1(2) by simp
qed

lemma perform_all_agenda:
  assumes "in_step s" "foldM perform cs s = Some s'"
  shows "in_step s' \<and> pending (sched_list s') = fold (\<lambda>c. agenda_call (kind_of (sim_started s) c)) cs (pending (sched_list s)) \<and>
    schedule_time s' = schedule_time s"
  using assms
proof (induction cs arbitrary: s)
  case (Cons c cs)
  then obtain s1 where s1: "perform c s = Some s1" "foldM perform cs s1 = Some s'" by (auto split: option.splits)
  then show ?case using perform_agenda[OF Cons.prems(1) s1(1)] Cons.IH[of s1] by simp
qed simp

lemma next_event_promote:
  assumes "et_delay c = 0"
  shows "next_event rw_regions (pending (c # rest)) =
    (case et_active (promote c) of [] \<Rightarrow> None
     | e # es \<Rightarrow> Some (e, pending ((promote c)\<lparr>et_active := es\<rparr> # rest)))"
proof -
  have ext: "A(0 := (A 0)(q := [], SEQ_ACTIVE := es)) = pending (d # rest)"
    if "A = pending (c # rest)" "et_delay d = 0" "\<And>r. region r d = (if r = SEQ_ACTIVE then es else if r = q then [] else region r c)"
    for A q es d
    using that assms by (auto simp: fun_eq_iff)
  have found: ?thesis
    if "et_active (promote c) = e # es" "next_event rw_regions (pending (c # rest)) =
        Some (e, (pending (c # rest))(0 := (pending (c # rest) 0)(q := [], SEQ_ACTIVE := es)))"
      "\<And>r. region r ((promote c)\<lparr>et_active := es\<rparr>) = (if r = SEQ_ACTIVE then es else if r = q then [] else region r c)"
    for e es q
    using that(1,2) ext[OF refl _ that(3)] assms by simp
  note pro = promote_def Let_def
  show ?thesis
  proof (cases "et_active c")
    case (Cons e es)
    show ?thesis
    proof (rule found)
      show "region r ((promote c)\<lparr>et_active := es\<rparr>) = (if r = SEQ_ACTIVE then es else if r = SEQ_ACTIVE then [] else region r c)" for r
        using Cons by (cases r) (simp_all add: pro)
    qed (use Cons assms in \<open>simp_all add: pro\<close>)
  next
    case n1: Nil
    show ?thesis
    proof (cases "et_inactive c")
      case (Cons e es)
      show ?thesis
      proof (rule found)
        show "region r ((promote c)\<lparr>et_active := es\<rparr>) = (if r = SEQ_ACTIVE then es else if r = SEQ_INACTIVE then [] else region r c)" for r
          using n1 Cons by (cases r) (simp_all add: pro)
      qed (use n1 Cons assms in \<open>simp_all add: pro\<close>)
    next
      case n2: Nil
      show ?thesis
      proof (cases "et_nbassign c")
        case (Cons e es)
        show ?thesis
        proof (rule found)
          show "region r ((promote c)\<lparr>et_active := es\<rparr>) = (if r = SEQ_ACTIVE then es else if r = SEQ_NBASSIGN then [] else region r c)" for r
            using n1 n2 Cons by (cases r) (simp_all add: pro)
        qed (use n1 n2 Cons assms in \<open>simp_all add: pro\<close>)
      next
        case n3: Nil
        show ?thesis
        proof (cases "et_rwsync c")
          case (Cons e es)
          show ?thesis
          proof (rule found)
            show "region r ((promote c)\<lparr>et_active := es\<rparr>) = (if r = SEQ_ACTIVE then es else if r = SEQ_RWSYNC then [] else region r c)" for r
              using n1 n2 n3 Cons by (cases r) (simp_all add: pro)
          qed (use n1 n2 n3 Cons assms in \<open>simp_all add: pro\<close>)
        qed (use n1 n2 n3 assms in \<open>simp add: pro\<close>)
      qed
    qed
  qed
qed

text \<open>C2. The regions of a time step run in order: the event of the first region that has one (active, inactive,
  nonblocking assignment, read-write sync) runs next, the rest of its region becomes active, and
  nothing else changes but by the calls the event makes, of which each changes the agenda as its name says.\<close>

theorem sim_iter_refines:
  assumes "in_step s" "\<not> schedule_stopped_flag s" "next_event rw_regions (pending (sched_list s)) = Some (e, A)"
  shows "\<exists>s1 s'. pending (sched_list s1) = A \<and> schedule_time s1 = schedule_time s \<and> sim_started s1 = sim_started s \<and>
    sim_iter beh (s, w) = Some ((s', fst (beh (Run e) s1 w)), True) \<and>
    pending (sched_list s') = fold (\<lambda>c. agenda_call (kind_of (sim_started s) c)) (snd (beh (Run e) s1 w)) A \<and>
    schedule_time s' = schedule_time s \<and> in_step s'"
proof -
  obtain c rest where c: "sched_list s = c # rest" "et_delay c = 0" "times_wf (c # rest)"
    using assms(1) by (cases "sched_list s") (auto simp: in_step_def)
  obtain es where es: "et_active (promote c) = e # es" "A = pending ((promote c)\<lparr>et_active := es\<rparr> # rest)"
    using assms(3) next_event_promote[OF c(2), of rest] c(1) by (cases "et_active (promote c)") auto
  let ?s = "s\<lparr>sched_list := (promote c)\<lparr>et_active := es\<rparr> # rest\<rparr>"
  let ?s1 = "if schedule_single_step_flag ?s then ?s\<lparr>schedule_stopped_flag := True, schedule_single_step_flag := False\<rparr> else ?s"
  have same: "sched_list ?s1 = (promote c)\<lparr>et_active := es\<rparr> # rest" "schedule_time ?s1 = schedule_time s"
    "sim_started ?s1 = sim_started s" by simp_all
  have step: "in_step ?s1" using c by (simp add: in_step_def times_wf_Cons)
  then have wf: "times_wf (sched_list ?s1)" by (simp only: in_step_def)
  obtain w' cs where beh: "beh (Run e) ?s1 w = (w', cs)" by (cases "beh (Run e) ?s1 w")
  obtain s' where s': "foldM perform cs ?s1 = Some s'" using perform_all_total[OF wf, of cs] by blast
  have "run_hook beh (Run e) (?s1, w) = Some (s', w')" using beh s' by (simp add: run_hook_def)
  moreover have "run_step beh (s, w) = run_hook beh (Run e) (?s1, w)"
    unfolding run_step_def using c(1) es(1) by (cases "schedule_single_step_flag s") (simp_all add: Let_def)
  ultimately have "sim_iter beh (s, w) = Some ((s', w'), True)"
    using c(1,2) assms(2) by (simp add: sim_iter_def enter_time_def Let_def)
  then show ?thesis
    using perform_all_agenda[OF step s'] same es(2) beh by (intro exI[of _ ?s1] exI[of _ s']) simp
qed

definition nothing_more :: "'w behaviour" where
  "nothing_more h s w = (w, [])"

section \<open>A complete run\<close>

text \<open>A behaviour that records every hook with the time at which it is called.\<close>

definition logged :: "'w behaviour \<Rightarrow> ('w \<times> (nat \<times> hook) list) behaviour" where
  "logged beh h s w = (let (w', cs) = beh h s (fst w) in ((w', snd w @ [(schedule_time s, h)]), cs))"

definition silent_on :: "'w behaviour \<Rightarrow> hook set \<Rightarrow> bool" where
  "silent_on beh H \<longleftrightarrow> (\<forall>h\<in>H. \<forall>s w. snd (beh h s w) = [])"

definition runs_at :: "nat \<Rightarrow> event_s list \<Rightarrow> (nat \<times> hook) list" where
  "runs_at t es = map (\<lambda>e. (t, Run e)) es"

lemma runs_at_simps [simp]: "runs_at t [] = []" "runs_at t (e # es) = (t, Run e) # runs_at t es"
  "runs_at t (es @ fs) = runs_at t es @ runs_at t fs"
  by (simp_all add: runs_at_def)

lemma run_hook_silent:
  assumes "silent_on beh H" "h \<in> H"
  shows "\<exists>w'. run_hook (logged beh) h (s, (w, l)) = Some (s, (w', l @ [(schedule_time s, h)]))"
proof -
  have "snd (beh h s w) = []" using assms by (simp add: silent_on_def)
  then show ?thesis by (cases "beh h s w") (simp add: run_hook_def logged_def Let_def)
qed

lemma set_region_twice [simp]: "set_region q es (set_region q fs c) = set_region q es c"
  by (cases q) simp_all

lemma set_region_same: "region q c = es \<Longrightarrow> set_region q es c = c"
  by (cases q) auto

lemma drain_silent:
  assumes "silent_on beh H" "Run ` set (region q c) \<subseteq> H" "sched_list s = c # rest"
  shows "\<exists>w'. drain_region (logged beh) q (s, (w, l)) =
    Some (s\<lparr>sched_list := set_region q [] c # rest\<rparr>, (w', l @ runs_at (schedule_time s) (region q c)))"
  using assms(2,3)
proof (induction "region q c" arbitrary: s c w l)
  case Nil
  have "s\<lparr>sched_list := set_region q [] c # rest\<rparr> = s" using Nil set_region_same[of q c "[]"] by simp
  then show ?case using Nil by (simp add: drain_region.simps[of "logged beh" q "(s, (w, l))"])
next
  case (Cons e es)
  let ?s = "s\<lparr>sched_list := set_region q es c # rest\<rparr>"
  have "e \<in> set (region q c)" using Cons.hyps(2)[symmetric] by simp
  then have "Run e \<in> H" using Cons.prems(1) by auto
  from run_hook_silent[OF assms(1) this, of ?s w l] obtain w1 where
    w1: "run_hook (logged beh) (Run e) (?s, (w, l)) = Some (?s, (w1, l @ [(schedule_time ?s, Run e)]))" by blast
  have "es = region q (set_region q es c)" "Run ` set (region q (set_region q es c)) \<subseteq> H" "sched_list ?s = set_region q es c # rest"
    using Cons.hyps(2)[symmetric] Cons.prems by auto
  from Cons.hyps(1)[OF this, of w1 "l @ [(schedule_time s, Run e)]"] obtain w2 where
    "drain_region (logged beh) q (?s, (w1, l @ [(schedule_time s, Run e)])) =
      Some (?s\<lparr>sched_list := set_region q [] (set_region q es c) # rest\<rparr>,
        (w2, (l @ [(schedule_time s, Run e)]) @ runs_at (schedule_time ?s) (region q (set_region q es c))))"
    by blast
  then show ?case
    using w1 Cons.hyps(2)[symmetric] Cons.prems(2) by (simp add: drain_region.simps[of "logged beh" q "(s, (w, l))"])
qed

text \<open>The events of a time step in the order they run; those of its start region run when time arrives at it.\<close>

definition step_events :: "event_s event_time_s \<Rightarrow> event_s list" where
  "step_events c = rw_events c @ et_rosync c @ et_del_thr c"

definition quiet :: "scheduler \<Rightarrow> bool" where
  "quiet s \<longleftrightarrow> \<not> schedule_stopped_flag s \<and> \<not> schedule_single_step_flag s"

lemma rosync_silent:
  assumes "silent_on beh H" "Run ` set (et_rosync c) \<union> Run ` set (et_del_thr c) \<subseteq> H" "sched_list s = c # rest" "rw_events c = []"
  shows "\<exists>w'. run_rosync (logged beh) (s, (w, l)) =
    Some (s\<lparr>sim_at_rosync := False, sched_list := c\<lparr>et_rosync := [], et_del_thr := []\<rparr> # rest\<rparr>,
      (w', l @ runs_at (schedule_time s) (et_rosync c @ et_del_thr c)))"
proof -
  let ?s = "s\<lparr>sim_at_rosync := True\<rparr>"
  have "Run ` set (region SEQ_ROSYNC c) \<subseteq> H" "sched_list ?s = c # rest" using assms(2,3) by simp_all
  from drain_silent[OF assms(1) this, of w l] obtain w1 where
    w1: "drain_region (logged beh) SEQ_ROSYNC (?s, (w, l)) = Some (?s\<lparr>sched_list := set_region SEQ_ROSYNC [] c # rest\<rparr>,
      (w1, l @ runs_at (schedule_time ?s) (region SEQ_ROSYNC c)))" by blast
  let ?s1 = "s\<lparr>sched_list := c\<lparr>et_rosync := []\<rparr> # rest, sim_at_rosync := False\<rparr>" and ?l1 = "l @ runs_at (schedule_time s) (et_rosync c)"
  have "Run ` set (region DEL_THREAD (c\<lparr>et_rosync := []\<rparr>)) \<subseteq> H" "sched_list ?s1 = c\<lparr>et_rosync := []\<rparr> # rest"
    using assms(2) by simp_all
  from drain_silent[OF assms(1) this, of w1 ?l1] obtain w2 where
    w2: "drain_region (logged beh) DEL_THREAD (?s1, (w1, ?l1)) = Some (?s1\<lparr>sched_list := set_region DEL_THREAD [] (c\<lparr>et_rosync := []\<rparr>) # rest\<rparr>,
      (w2, ?l1 @ runs_at (schedule_time ?s1) (region DEL_THREAD (c\<lparr>et_rosync := []\<rparr>))))" by blast
  have same: "?s\<lparr>sched_list := set_region SEQ_ROSYNC [] c # rest, sim_at_rosync := False\<rparr> = ?s1" by simp
  show ?thesis
    using w1 w2 assms(4) same by (intro exI[of _ w2]) (simp add: run_rosync_def rw_events_def)
qed

lemma step_silent:
  assumes "silent_on beh H" "Run ` set (step_events c) \<subseteq> H" "sched_list s = c # rest" "et_delay c = 0" "quiet s"
  shows "\<exists>w'. sim_loop (logged beh) (s, (w, l)) =
    sim_loop (logged beh) (s\<lparr>sim_at_rosync := False, sched_list := rest\<rparr>, (w', l @ runs_at (schedule_time s) (step_events c)))"
  using assms(2-)
proof (induction "length (rw_events c)" arbitrary: s c w l)
  case 0
  let ?s = "s\<lparr>sched_list := promote c # rest\<rparr>"
  have none: "rw_events c = []" using 0 by simp
  then have act: "et_active (promote c) = []" by simp
  have "Run ` set (et_rosync (promote c)) \<union> Run ` set (et_del_thr (promote c)) \<subseteq> H" "sched_list ?s = promote c # rest"
    "rw_events (promote c) = []"
    using 0 none by (auto simp: step_events_def)
  from rosync_silent[OF assms(1) this, of w l] obtain w1 where
    w1: "run_rosync (logged beh) (?s, (w, l)) =
      Some (?s\<lparr>sim_at_rosync := False, sched_list := (promote c)\<lparr>et_rosync := [], et_del_thr := []\<rparr> # rest\<rparr>,
        (w1, l @ runs_at (schedule_time ?s) (et_rosync (promote c) @ et_del_thr (promote c))))" by blast
  have "run_step (logged beh) (s, (w, l)) =
      Some (s\<lparr>sim_at_rosync := False, sched_list := rest\<rparr>, (w1, l @ runs_at (schedule_time s) (et_rosync c @ et_del_thr c)))"
    unfolding run_step_def using 0 w1 by (simp add: Let_def act)
  then have "sim_iter (logged beh) (s, (w, l)) =
      Some ((s\<lparr>sim_at_rosync := False, sched_list := rest\<rparr>, (w1, l @ runs_at (schedule_time s) (et_rosync c @ et_del_thr c))), True)"
    using 0 by (simp add: sim_iter_def enter_time_def quiet_def Let_def)
  then show ?case using none by (intro exI[of _ w1]) (simp add: sim_loop.simps[of _ "(s, (w, l))"] step_events_def)
next
  case (Suc n)
  then have "et_active (promote c) \<noteq> []" by (simp del: length_0_conv) auto
  then obtain e es where es: "et_active (promote c) = e # es" by (cases "et_active (promote c)") auto
  let ?c = "(promote c)\<lparr>et_active := es\<rparr>"
  have rw: "rw_events c = e # rw_events ?c"
    using promote_simps(3)[of c] es by (simp only: promote_simps(3)[of c, symmetric]) (simp add: rw_events_def)
  then have events: "step_events c = e # step_events ?c" by (simp add: step_events_def)
  let ?s = "s\<lparr>sched_list := ?c # rest\<rparr>"
  have "Run e \<in> H" using Suc.prems(1) events by simp
  from run_hook_silent[OF assms(1) this, of ?s w l] obtain w1 where
    w1: "run_hook (logged beh) (Run e) (?s, (w, l)) = Some (?s, (w1, l @ [(schedule_time ?s, Run e)]))" by blast
  have "run_step (logged beh) (s, (w, l)) = Some (?s, (w1, l @ [(schedule_time s, Run e)]))"
    unfolding run_step_def using Suc.prems es w1 by (simp add: Let_def quiet_def)
  then have iter: "sim_iter (logged beh) (s, (w, l)) = Some ((?s, (w1, l @ [(schedule_time s, Run e)])), True)"
    using Suc.prems by (simp add: sim_iter_def enter_time_def quiet_def Let_def)
  have "n = length (rw_events ?c)" "Run ` set (step_events ?c) \<subseteq> H" "sched_list ?s = ?c # rest" "et_delay ?c = 0" "quiet ?s"
    using Suc.hyps(2) Suc.prems rw events by (simp_all add: quiet_def)
  from Suc.hyps(1)[OF this, of w1 "l @ [(schedule_time s, Run e)]"] obtain w2 where
    "sim_loop (logged beh) (?s, (w1, l @ [(schedule_time s, Run e)])) =
      sim_loop (logged beh) (?s\<lparr>sim_at_rosync := False, sched_list := rest\<rparr>,
        (w2, (l @ [(schedule_time s, Run e)]) @ runs_at (schedule_time ?s) (step_events ?c)))" by blast
  then show ?case using iter events by (intro exI[of _ w2]) (simp add: sim_loop.simps[of _ "(s, (w, l))"])
qed

text \<open>What the main loop runs, from the time step at the head of the list on.\<close>

fun agenda_trace :: "nat \<Rightarrow> event_s event_time_s list \<Rightarrow> (nat \<times> hook) list" where
  "agenda_trace now [] = []"
| "agenda_trace now (c # cs) =
     (if et_delay c = 0 then runs_at now (step_events c) @ agenda_trace now cs
      else let t = (now + et_delay c) mod 2 ^ 64
           in (t, Next_sim_time) # runs_at t (et_start c @ step_events c) @ agenda_trace t cs)"

lemma sim_loop_enter:
  assumes "enter_time beh st = Some st1" "in_step (fst st1)" "schedule_runnable (fst st)"
    "\<not> schedule_stopped_flag (fst st)" "\<not> schedule_stopped_flag (fst st1)" "sched_list (fst st) \<noteq> []"
  shows "sim_loop beh st = sim_loop beh st1"
proof -
  obtain c rest where c: "sched_list (fst st1) = c # rest" "et_delay c = 0"
    using assms(2) by (cases "sched_list (fst st1)") (auto simp: in_step_def)
  then have "enter_time beh st1 = Some st1" by (simp add: enter_time_def)
  moreover obtain d ds where "sched_list (fst st) = d # ds" using assms(6) by (cases "sched_list (fst st)") auto
  ultimately have "sim_iter beh st = sim_iter beh st1"
    using assms c by (simp add: sim_iter_def Let_def)
  then show ?thesis by (simp add: sim_loop.simps[of beh st] sim_loop.simps[of beh st1])
qed

lemma loop_silent:
  assumes "silent_on beh UNIV" "quiet s" "schedule_runnable s" "times_wf (sched_list s)"
  shows "\<exists>s' w'. sim_loop (logged beh) (s, (w, l)) = Some (s', (w', l @ agenda_trace (schedule_time s) (sched_list s))) \<and>
    sched_list s' = [] \<and> schedule_final_list s' = schedule_final_list s"
  using assms(2-)
proof (induction "sched_list s" arbitrary: s w l)
  case Nil
  then show ?case by (simp add: sim_loop.simps[of _ "(s, (w, l))"] sim_iter_def)
next
  case (Cons c rest)
  have wf: "times_wf rest" using Cons.hyps(2) Cons.prems(3) times_wf_tl by metis
  have head: "\<exists>s' w'. sim_loop (logged beh) (s0, (w0, l0)) =
      Some (s', (w', l0 @ runs_at (schedule_time s0) (step_events d) @ agenda_trace (schedule_time s0) rest)) \<and>
      sched_list s' = [] \<and> schedule_final_list s' = schedule_final_list s0"
    if s0: "sched_list s0 = d # rest" "et_delay d = 0" "quiet s0" "schedule_runnable s0" for s0 d w0 l0
  proof -
    let ?s = "s0\<lparr>sim_at_rosync := False, sched_list := rest\<rparr>"
    obtain w1 where w1: "sim_loop (logged beh) (s0, (w0, l0)) =
        sim_loop (logged beh) (?s, (w1, l0 @ runs_at (schedule_time s0) (step_events d)))"
      using step_silent[OF assms(1) _ s0(1-3), of w0 l0] by blast
    have "rest = sched_list ?s" "quiet ?s" "schedule_runnable ?s" "times_wf (sched_list ?s)"
      using s0 wf by (simp_all add: quiet_def)
    from Cons.hyps(1)[OF this, of w1 "l0 @ runs_at (schedule_time s0) (step_events d)"] show ?thesis using w1 by auto
  qed
  show ?case
  proof (cases "et_delay c = 0")
    case True
    then show ?thesis using head[of s c w l] Cons.hyps(2)[symmetric] Cons.prems by simp
  next
    case False
    let ?t = "(schedule_time s + et_delay c) mod 2 ^ 64"
    let ?s1 = "s\<lparr>schedule_time := ?t, sched_list := c\<lparr>et_delay := 0\<rparr> # rest\<rparr>"
    obtain w1 where w1: "run_hook (logged beh) Next_sim_time (?s1, (w, l)) = Some (?s1, (w1, l @ [(schedule_time ?s1, Next_sim_time)]))"
      using run_hook_silent[OF assms(1), of Next_sim_time ?s1 w l] by blast
    let ?l1 = "l @ [(?t, Next_sim_time)]" and ?d = "c\<lparr>et_delay := 0, et_start := []\<rparr>"
    have "Run ` set (region SEQ_START (c\<lparr>et_delay := 0\<rparr>)) \<subseteq> UNIV" "sched_list ?s1 = c\<lparr>et_delay := 0\<rparr> # rest" by simp_all
    from drain_silent[OF assms(1) this, of w1 ?l1] obtain w2 where
      w2: "drain_region (logged beh) SEQ_START (?s1, (w1, ?l1)) = Some (?s1\<lparr>sched_list := set_region SEQ_START [] (c\<lparr>et_delay := 0\<rparr>) # rest\<rparr>,
        (w2, ?l1 @ runs_at (schedule_time ?s1) (region SEQ_START (c\<lparr>et_delay := 0\<rparr>))))" by blast
    let ?s2 = "?s1\<lparr>sched_list := ?d # rest\<rparr>" and ?l2 = "?l1 @ runs_at ?t (et_start c)"
    have enter: "enter_time (logged beh) (s, (w, l)) = Some (?s2, (w2, ?l2))"
      using w1 w2 False Cons.hyps(2)[symmetric] by (simp add: enter_time_def)
    have "in_step ?s2" using Cons.hyps(2)[symmetric] Cons.prems(3) by (simp add: in_step_def times_wf_Cons)
    then have loop: "sim_loop (logged beh) (s, (w, l)) = sim_loop (logged beh) (?s2, (w2, ?l2))"
      using Cons.prems Cons.hyps(2)[symmetric] by (intro sim_loop_enter[OF enter]) (simp_all add: quiet_def)
    have "step_events ?d = step_events c" by (simp add: step_events_def rw_events_def)
    then show ?thesis
      using head[of ?s2 ?d w2 ?l2] loop False Cons.hyps(2)[symmetric] Cons.prems by (simp add: quiet_def Let_def)
  qed
qed

lemma drain_init_silent:
  assumes "silent_on beh UNIV"
  shows "\<exists>w'. drain_init (logged beh) (s, (w, l)) =
    Some (s\<lparr>schedule_init_list := []\<rparr>, (w', l @ runs_at (schedule_time s) (schedule_init_list s)))"
proof (induction "schedule_init_list s" arbitrary: s w l)
  case Nil
  have "s\<lparr>schedule_init_list := []\<rparr> = s" using Nil by simp
  then show ?case using Nil by (simp add: drain_init.simps[of _ "(s, (w, l))"])
next
  case (Cons e es)
  let ?s = "s\<lparr>schedule_init_list := es\<rparr>"
  obtain w1 where w1: "run_hook (logged beh) (Run e) (?s, (w, l)) = Some (?s, (w1, l @ [(schedule_time ?s, Run e)]))"
    using run_hook_silent[OF assms, of "Run e" ?s w l] by blast
  have "es = schedule_init_list ?s" by simp
  from Cons.hyps(1)[OF this, of w1 "l @ [(schedule_time s, Run e)]"] show ?case
    using w1 Cons.hyps(2)[symmetric] by (simp add: drain_init.simps[of _ "(s, (w, l))"])
qed

lemma drain_final_silent:
  assumes "silent_on beh UNIV" "schedule_runnable s"
  shows "\<exists>w'. drain_final (logged beh) (s, (w, l)) =
    Some (s\<lparr>schedule_final_list := []\<rparr>, (w', l @ runs_at (schedule_time s) (schedule_final_list s)))"
  using assms(2)
proof (induction "schedule_final_list s" arbitrary: s w l)
  case Nil
  have "s\<lparr>schedule_final_list := []\<rparr> = s" using Nil by simp
  then show ?case using Nil by (simp add: drain_final.simps[of _ "(s, (w, l))"])
next
  case (Cons e es)
  let ?s = "s\<lparr>schedule_final_list := es\<rparr>"
  obtain w1 where w1: "run_hook (logged beh) (Run e) (?s, (w, l)) = Some (?s, (w1, l @ [(schedule_time ?s, Run e)]))"
    using run_hook_silent[OF assms(1), of "Run e" ?s w l] by blast
  have "es = schedule_final_list ?s" "schedule_runnable ?s" using Cons.prems by simp_all
  from Cons.hyps(1)[OF this, of w1 "l @ [(schedule_time s, Run e)]"] show ?case
    using w1 Cons.hyps(2)[symmetric] Cons.prems by (simp add: drain_final.simps[of _ "(s, (w, l))"])
qed

text \<open>C3. When nothing that runs schedules anything more, a simulation runs the initialization events, then the time
  steps in order, in each the start callbacks, the active, inactive, nonblocking, read-write and read-only events and the thread
  deletions, then the final events: each of them once, at the time for which it was scheduled, and nothing else. The exception
  are start callbacks of a time step without delay: the code calls start callbacks only where time advances, so
  these never run.\<close>

theorem simulate_trace:
  assumes "silent_on beh UNIV" "quiet s" "schedule_runnable s" "times_wf (sched_list s)"
  shows "\<exists>s' w' now. schedule_simulate (logged beh) (s, (w, [])) = Some (s', (w',
      (0, End_of_compile) # runs_at 0 (schedule_init_list s) @ (0, Start_of_sim) # agenda_trace 0 (sched_list s) @
      runs_at now (schedule_final_list s) @ [(now, Postsim)])) \<and>
    sched_list s' = [] \<and> schedule_time s' = now"
proof -
  let ?s = "s\<lparr>sim_started := False, schedule_time := 0\<rparr>"
  obtain w1 where w1: "run_hook (logged beh) End_of_compile (?s, (w, [])) = Some (?s, (w1, [] @ [(schedule_time ?s, End_of_compile)]))"
    using run_hook_silent[OF assms(1), of End_of_compile ?s w "[]"] by blast
  let ?l1 = "[(0, End_of_compile)]" and ?s2 = "?s\<lparr>schedule_init_list := []\<rparr>"
  obtain w2 where w2: "drain_init (logged beh) (?s, (w1, ?l1)) =
      Some (?s2, (w2, ?l1 @ runs_at (schedule_time ?s) (schedule_init_list ?s)))"
    using drain_init_silent[OF assms(1), of ?s w1 ?l1] by blast
  let ?l2 = "?l1 @ runs_at 0 (schedule_init_list s)"
  obtain w3 where w3: "run_hook (logged beh) Start_of_sim (?s2, (w2, ?l2)) = Some (?s2, (w3, ?l2 @ [(schedule_time ?s2, Start_of_sim)]))"
    using run_hook_silent[OF assms(1), of Start_of_sim ?s2 w2 ?l2] by blast
  let ?l3 = "?l2 @ [(0, Start_of_sim)]" and ?s3 = "?s2\<lparr>sim_started := True\<rparr>"
  have start: "simulate_start (logged beh) (s, (w, [])) = Some (?s3, (w3, ?l3))"
    using w1 w2 w3 by (simp add: simulate_start_def)
  have "quiet ?s3" "schedule_runnable ?s3" "times_wf (sched_list ?s3)" using assms by (simp_all add: quiet_def)
  from loop_silent[OF assms(1) this, of w3 ?l3] obtain s4 w4 where
    s4: "sim_loop (logged beh) (?s3, (w3, ?l3)) = Some (s4, (w4, ?l3 @ agenda_trace (schedule_time ?s3) (sched_list ?s3)))"
      "sched_list s4 = []" "schedule_final_list s4 = schedule_final_list ?s3" by blast
  let ?s4 = "s4\<lparr>schedule_runnable := True\<rparr>" and ?l4 = "?l3 @ agenda_trace 0 (sched_list s)"
  have "schedule_runnable ?s4" by simp
  from drain_final_silent[OF assms(1) this, of w4 ?l4] obtain w5 where
    w5: "drain_final (logged beh) (?s4, (w4, ?l4)) =
      Some (?s4\<lparr>schedule_final_list := []\<rparr>, (w5, ?l4 @ runs_at (schedule_time ?s4) (schedule_final_list ?s4)))" by blast
  let ?s5 = "?s4\<lparr>schedule_final_list := []\<rparr>" and ?l5 = "?l4 @ runs_at (schedule_time s4) (schedule_final_list s)"
  obtain w6 where w6: "run_hook (logged beh) Postsim (?s5, (w5, ?l5)) = Some (?s5, (w6, ?l5 @ [(schedule_time ?s5, Postsim)]))"
    using run_hook_silent[OF assms(1), of Postsim ?s5 w5 ?l5] by blast
  show ?thesis
    unfolding schedule_simulate_def start
    using s4 w5 w6 assms(3) by (intro exI[of _ ?s5] exI[of _ w6] exI[of _ "schedule_time s4"]) (simp add: Let_def)
qed

theorem simulate_trace_witness:
  "\<exists>s' w'. schedule_simulate (logged nothing_more)
       (scheduler_initial\<lparr>sched_list := [(event_time_new 7)\<lparr>et_active := [vthread_event_s 1]\<rparr>]\<rparr>, ((), [])) =
     Some (s', (w', [(0, End_of_compile), (0, Start_of_sim), (7, Next_sim_time), (7, Run (vthread_event_s 1)), (schedule_time s', Postsim)]))"
  using simulate_trace[of nothing_more "scheduler_initial\<lparr>sched_list := [(event_time_new 7)\<lparr>et_active := [vthread_event_s 1]\<rparr>]\<rparr>" "()"]
  by (auto simp: silent_on_def nothing_more_def quiet_def scheduler_initial_def times_wf_def step_events_def rw_events_def event_time_new_def)

text \<open>C18. After \<^verbatim>\<open>schedule_finish\<close> the main loop ends: of everything that is scheduled, now or later, it runs the
  thread deletions of the current time only.\<close>

theorem finish_ends_loop:
  assumes "in_step s" "quiet s" "silent_on beh (Run ` set (et_del_thr (hd (sched_list s))))"
  shows "\<exists>s' w'. sim_loop (logged beh) (schedule_finish s, (w, l)) =
      Some (s', (w', l @ runs_at (schedule_time s) (et_del_thr (hd (sched_list s))))) \<and>
    sched_list s' = tl (sched_list s) \<and> schedule_time s' = schedule_time s"
proof -
  obtain c rest where c: "sched_list s = c # rest" "et_delay c = 0" "\<forall>d\<in>set rest. 0 < et_delay d"
    using assms(1) by (cases "sched_list s") (auto simp: in_step_def times_wf_Cons)
  let ?c = "c\<lparr>et_active := [], et_inactive := [], et_nbassign := [], et_rwsync := [], et_rosync := []\<rparr>"
  let ?s = "schedule_finish s"
  have events: "step_events ?c = et_del_thr c" by (simp add: step_events_def rw_events_def)
  have "Run ` set (step_events ?c) \<subseteq> Run ` set (et_del_thr (hd (sched_list s)))" "sched_list ?s = ?c # rest"
    "et_delay ?c = 0" "quiet ?s"
    using c assms(2) events by (simp_all add: schedule_finish_def Let_def quiet_def)
  from step_silent[OF assms(3) this, of w l] obtain w1 where
    w1: "sim_loop (logged beh) (?s, (w, l)) = sim_loop (logged beh) (?s\<lparr>sim_at_rosync := False, sched_list := rest\<rparr>,
      (w1, l @ runs_at (schedule_time ?s) (step_events ?c)))" by blast
  let ?s1 = "?s\<lparr>sim_at_rosync := False, sched_list := rest\<rparr>"
  have "schedule_runnable ?s1 = False" "schedule_stopped_flag ?s1 = False" "schedule_time ?s1 = schedule_time s"
    using assms(2) c(1) by (simp_all add: schedule_finish_def Let_def quiet_def)
  moreover have "sim_loop beh' (?s1, x) = Some (?s1, x)" for x :: "'a \<times> (nat \<times> hook) list" and beh'
  proof -
    have "sim_iter beh' (?s1, x) = Some ((?s1, x), False)"
      using calculation c(3) by (cases rest) (simp_all add: sim_iter_def Let_def)
    then show ?thesis by (subst sim_loop.simps) simp
  qed
  ultimately show ?thesis using w1 events c(1) by simp
qed

theorem finish_ends_loop_witness:
  "\<exists>s' w'. sim_loop (logged nothing_more) (schedule_finish (scheduler_initial\<lparr>sched_list :=
         [(event_time_new 0)\<lparr>et_active := [vthread_event_s 1], et_del_thr := [del_thr_event_s 2]\<rparr>]\<rparr>), ((), [])) =
     Some (s', (w', [(0, Run (del_thr_event_s 2))]))"
  using finish_ends_loop[of "scheduler_initial\<lparr>sched_list :=
         [(event_time_new 0)\<lparr>et_active := [vthread_event_s 1], et_del_thr := [del_thr_event_s 2]\<rparr>]\<rparr>" nothing_more "()" "[]"]
  by (auto simp: silent_on_def nothing_more_def quiet_def scheduler_initial_def in_step_def times_wf_def event_time_new_def)

theorem simulate_terminates_witness:
  "\<exists>st'. schedule_simulate nothing_more (scheduler_initial, ()) = Some st'"
  using simulate_terminates[of "\<lambda>_. 0" nothing_more "(scheduler_initial, ())"]
  by (auto simp: calls_bounded_def nothing_more_def scheduler_initial_def times_wf_def)

theorem sim_iter_refines_witness:
  "\<exists>s'. sim_iter nothing_more (scheduler_initial\<lparr>sched_list := [(event_time_new 0)\<lparr>et_nbassign := [vthread_event_s 1]\<rparr>]\<rparr>, ()) =
     Some ((s', ()), True) \<and> pending (sched_list s') 0 SEQ_NBASSIGN = []"
proof -
  let ?s = "scheduler_initial\<lparr>sched_list := [(event_time_new 0)\<lparr>et_nbassign := [vthread_event_s 1]\<rparr>]\<rparr>"
  have "next_event rw_regions (pending (sched_list ?s)) =
      Some (vthread_event_s 1, (pending (sched_list ?s))(0 := (pending (sched_list ?s) 0)(SEQ_NBASSIGN := [], SEQ_ACTIVE := [])))"
    by (simp add: scheduler_initial_def event_time_new_def)
  from sim_iter_refines[OF _ _ this, of nothing_more "()"] show ?thesis
    by (auto simp: nothing_more_def scheduler_initial_def in_step_def times_wf_def event_time_new_def)
qed

end
