(* ===== verification/Simulate_Audit.thy ===== *)
theory Simulate_Audit
  imports Simulate "HOL-Library.Multiset"
begin

text \<open>
  The books of the simulation loop: every event that is scheduled into the queue either waits in it, at its absolute
  time, or has run at that time. The behaviour of the rest of the runtime is arbitrary but for the calls that
  discard events.
\<close>

section \<open>The events in the queue\<close>

type_synonym bookings = "(nat \<times> event_s) multiset"

text \<open>All events of a time step, and all events of the queue with their absolute times, of 64 bits.\<close>

definition step_mset :: "event_s event_time_s \<Rightarrow> event_s multiset" where
  "step_mset c = mset (et_start c) + mset (et_active c) + mset (et_inactive c) + mset (et_nbassign c) +
     mset (et_rwsync c) + mset (et_rosync c) + mset (et_del_thr c)"

fun dated :: "nat \<Rightarrow> event_s event_time_s list \<Rightarrow> bookings" where
  "dated now [] = {#}"
| "dated now (c # cs) =
     image_mset (Pair ((now + et_delay c) mod 2 ^ 64)) (step_mset c) + dated ((now + et_delay c) mod 2 ^ 64) cs"

lemma step_mset_new [simp]: "step_mset (event_time_new d) = {#}"
  by (simp add: step_mset_def event_time_new_def)

lemma step_mset_delay [simp]: "step_mset (c\<lparr>et_delay := d\<rparr>) = step_mset c"
  by (simp add: step_mset_def)

lemma step_mset_put: "put_event e q d c = Some c' \<Longrightarrow> step_mset c' = add_mset e (step_mset c)"
  by (cases q) (auto simp: step_mset_def put_event.simps split: if_splits)

lemma step_mset_take: "region q c = e # es \<Longrightarrow> step_mset c = add_mset e (step_mset (set_region q es c))"
  by (cases q) (auto simp: step_mset_def)

lemma step_mset_promote [simp]: "step_mset (promote c) = step_mset c"
  by (auto simp: promote_def Let_def step_mset_def)

lemma step_mset_regions:
  assumes "\<And>q. region q c = []"
  shows "step_mset c = {#}"
  using assms[of SEQ_START] assms[of SEQ_ACTIVE] assms[of SEQ_INACTIVE] assms[of SEQ_NBASSIGN] assms[of SEQ_RWSYNC]
    assms[of SEQ_ROSYNC] assms[of DEL_THREAD] by (simp add: step_mset_def)

text \<open>The absolute time of a time step, whatever the 64-bit sums wrap.\<close>

lemma time_sum:
  assumes "d \<le> (d' :: nat)"
  shows "((now + d) mod 2 ^ 64 + (d' - d)) mod 2 ^ 64 = (now + d') mod 2 ^ 64"
  unfolding mod_add_left_eq using assms by simp

lemma dated_before:
  "d \<le> et_delay c \<Longrightarrow> dated ((now + d) mod 2 ^ 64) (c\<lparr>et_delay := et_delay c - d\<rparr> # cs) = dated now (c # cs)"
proof -
  assume d: "d \<le> et_delay c"
  have "et_delay (c\<lparr>et_delay := et_delay c - d\<rparr>) = et_delay c - d" by simp
  then show ?thesis unfolding dated.simps by (simp only: step_mset_delay time_sum[OF d])
qed

lemma dated_walk:
  "walk_times e q d l = Some l' \<Longrightarrow> dated now l' = add_mset ((now + d) mod 2 ^ 64, e) (dated now l)"
proof (induction e q d l arbitrary: now l' rule: walk_times.induct)
  case (2 e q d c rest)
  show ?case
  proof (cases "rest \<noteq> [] \<and> et_delay c < d")
    case True
    then obtain rest' where r: "walk_times e q (d - et_delay c) rest = Some rest'" "l' = c # rest'"
      using 2(2) by (auto split: option.splits)
    have "et_delay c \<le> d" using True by simp
    then show ?thesis
      using 2(1)[OF True r(1), of "(now + et_delay c) mod 2 ^ 64"] unfolding r(2) dated.simps by (simp only: time_sum union_mset_add_mset_right)
  next
    case False
    consider (before) "d < et_delay c" | (here) "et_delay c = d" | (last) "rest = []" "et_delay c < d"
      using False by linarith
    then show ?thesis
    proof cases
      case before
      then obtain tmp where tmp: "put_event e q d (event_time_new d) = Some tmp" "l' = tmp # c\<lparr>et_delay := et_delay c - d\<rparr> # rest"
        using 2(2) False by (auto split: option.splits if_splits)
      then show ?thesis
        using step_mset_put[OF tmp(1)] put_event_delay[OF tmp(1)] dated_before[of d c now rest] before by simp
    next
      case here
      then obtain c' where c': "put_event e q d c = Some c'" "l' = c' # rest"
        using 2(2) False by (auto split: option.splits if_splits)
      then show ?thesis using step_mset_put[OF c'(1)] put_event_delay[OF c'(1)] here by simp
    next
      case last
      then obtain tmp where tmp: "put_event e q d (event_time_new (d - et_delay c)) = Some tmp" "l' = c # tmp # rest"
        using 2(2) False by (auto split: option.splits if_splits)
      have "et_delay c \<le> d" using last by simp
      then show ?thesis
        using put_event_delay[OF tmp(1)] unfolding tmp(2) last(1) dated.simps
        by (simp only: time_sum event_time_new_delay step_mset_put[OF tmp(1)]) simp
    qed
  qed
qed simp

lemma dated_schedule:
  "schedule_times e d q l = Some l' \<Longrightarrow> dated now l' = add_mset ((now + d) mod 2 ^ 64, e) (dated now l)"
proof (cases l)
  case Nil
  assume "schedule_times e d q l = Some l'"
  then obtain c where c: "put_event e q d (event_time_new d) = Some c" "l' = [c]"
    using Nil by (auto simp: schedule_times_def split: option.splits)
  then show ?thesis using step_mset_put[OF c(1)] put_event_delay[OF c(1)] Nil by simp
next
  case (Cons c rest)
  assume a: "schedule_times e d q l = Some l'"
  show ?thesis
  proof (cases "d < et_delay c")
    case True
    then obtain tmp where tmp: "put_event e q d (event_time_new d) = Some tmp" "l' = tmp # c\<lparr>et_delay := et_delay c - d\<rparr> # rest"
      using a Cons by (auto simp: schedule_times_def split: option.splits)
    then show ?thesis
      using step_mset_put[OF tmp(1)] put_event_delay[OF tmp(1)] dated_before[of d c now rest] True Cons by simp
  next
    case False
    then have "walk_times e q d l = Some l'" using a Cons by (simp add: schedule_times_def)
    then show ?thesis by (rule dated_walk)
  qed
qed

section \<open>The audit\<close>

text \<open>What a call adds to the queue. The times are those of the queue: modulo two to the 64.\<close>

fun booked :: "nat \<Rightarrow> call_kind \<Rightarrow> bookings" where
  "booked now (Insert e d q) = {#((now + d) mod 2 ^ 64, e)#}"
| "booked now (Push e) = {#(now mod 2 ^ 64, e)#}"
| "booked now k = {#}"

fun run_of :: "nat \<Rightarrow> hook \<Rightarrow> bookings" where
  "run_of now (Run e) = {#(now, e)#}"
| "run_of now h = {#}"

text \<open>A behaviour that keeps books beside its world: the events that ran with the time at which they did, and the
  events that were scheduled with the time for which they were.\<close>

type_synonym 'w books = "'w \<times> bookings \<times> bookings"

definition audited :: "'w behaviour \<Rightarrow> 'w books behaviour" where
  "audited beh h s st =
     (let (w, past, scheduled) = st; (w', calls) = beh h s w
      in ((w', past + run_of (schedule_time s) h,
           scheduled + (\<Sum>c\<leftarrow>calls. booked (schedule_time s) (kind_of (sim_started s) c))), calls))"

text \<open>
  Three things discard events by design: \<^verbatim>\<open>schedule_finish\<close>, a start callback for a time step that
  already runs, and an event for a region that a time step has behind it when its threads are deleted.
\<close>

fun discards :: "sched_call \<Rightarrow> bool" where
  "discards Call_finish = True"
| "discards (Call_at_start_of_simtime obj delay) = (delay = 0)"
| "discards c = False"

definition discards_nothing :: "'w behaviour \<Rightarrow> bool" where
  "discards_nothing beh \<longleftrightarrow>
     (\<forall>h s w. \<forall>c\<in>set (snd (beh h s w)). \<not> discards c) \<and> (\<forall>thr s w. snd (beh (Run (del_thr_event_s thr)) s w) = [])"

definition tidy :: "scheduler \<Rightarrow> bool" where
  "tidy s \<longleftrightarrow> times_wf (sched_list s) \<and> schedule_time s < 2 ^ 64 \<and>
     (\<forall>t. set (pending (sched_list s) t DEL_THREAD) \<subseteq> range del_thr_event_s)"

definition no_start :: "scheduler \<Rightarrow> bool" where
  "no_start s \<longleftrightarrow> pending (sched_list s) 0 SEQ_START = []"

definition waiting_events :: "scheduler \<Rightarrow> bookings" where
  "waiting_events s = dated (schedule_time s) (sched_list s)"

definition balanced :: "bookings \<Rightarrow> scheduler \<times> 'w books \<Rightarrow> bool" where
  "balanced given st \<longleftrightarrow> (case st of (s, w, past, scheduled) \<Rightarrow> waiting_events s + past = given + scheduled)"

text \<open>What one call does to the books.\<close>

lemma discards_kind:
  "\<not> discards c \<Longrightarrow> kind_of b c \<noteq> Finish_now" "\<not> discards c \<Longrightarrow> kind_of b c \<noteq> Insert e 0 SEQ_START"
  "kind_of b c = Insert e d DEL_THREAD \<Longrightarrow> e \<in> range del_thr_event_s"
  by (cases c; auto split: if_splits)+

lemma push_audit:
  assumes "schedule_event_push e s = Some s'" "times_wf (sched_list s)" "schedule_time s < 2 ^ 64"
  shows "dated (schedule_time s) (sched_list s') = add_mset (schedule_time s, e) (dated (schedule_time s) (sched_list s)) \<and>
    (\<forall>t r. r \<noteq> SEQ_ACTIVE \<longrightarrow> pending (sched_list s') t r = pending (sched_list s) t r) \<and> s' = s\<lparr>sched_list := sched_list s'\<rparr>"
proof (cases "sched_list s = [] \<or> 0 < et_delay (hd (sched_list s))")
  case True
  then have "schedule_event e 0 SEQ_ACTIVE s = Some s'"
    using assms(1) by (cases "sched_list s") (auto simp: schedule_event_push_def)
  then obtain l where l: "schedule_times e 0 SEQ_ACTIVE (sched_list s) = Some l" "s' = s\<lparr>sched_list := l\<rparr>"
    by (auto simp: schedule_event_def split: option.splits)
  then show ?thesis
    using dated_schedule[OF l(1), of "schedule_time s"] schedule_times_pending[OF assms(2), where cur = e and delay = 0 and q = SEQ_ACTIVE] assms(3) by simp
next
  case False
  then obtain c rest where c: "sched_list s = c # rest" "et_delay c = 0" by (cases "sched_list s") auto
  then have "s' = s\<lparr>sched_list := c\<lparr>et_active := e # et_active c\<rparr> # rest\<rparr>"
    using assms(1) by (auto simp: schedule_event_push_def split: if_splits)
  moreover have "region r (c\<lparr>et_active := x\<rparr>) = region r c" if "r \<noteq> SEQ_ACTIVE" for r x using that by (cases r) simp_all
  ultimately show ?thesis using c assms(3) by (simp add: step_mset_def)
qed

lemma perform_audit:
  assumes "perform c s = Some s'" "\<not> discards c" "tidy s"
  shows "tidy s' \<and> (no_start s \<longrightarrow> no_start s') \<and> (in_step s \<longrightarrow> in_step s') \<and> schedule_time s' = schedule_time s \<and> sim_started s' = sim_started s \<and>
    waiting_events s' = waiting_events s + booked (schedule_time s) (kind_of (sim_started s) c)"
proof -
  let ?k = "kind_of (sim_started s) c"
  have wf: "times_wf (sched_list s)" and now: "schedule_time s < 2 ^ 64" using assms(3) by (simp_all add: tidy_def)
  have keep: "times_wf (sched_list s')" "in_step s \<longrightarrow> in_step s'" using perform_total[OF wf, of c] assms(1) by auto
  obtain tc where tc: "perform c s = map_option (\<lambda>s'. s'\<lparr>thread_calls := tc\<rparr>) (apply_kind ?k s)"
    using perform_kind by blast
  then obtain s1 where s1: "apply_kind ?k s = Some s1" "s' = s1\<lparr>thread_calls := tc\<rparr>"
    using assms(1) by (cases "apply_kind ?k s") auto
  have "(\<forall>t. set (pending (sched_list s1) t DEL_THREAD) \<subseteq> range del_thr_event_s) \<and> (no_start s \<longrightarrow> no_start s1) \<and>
    schedule_time s1 = schedule_time s \<and> sim_started s1 = sim_started s \<and> waiting_events s1 = waiting_events s + booked (schedule_time s) ?k"
  proof (cases ?k)
    case (Insert e d q)
    have s1': "schedule_event e d q s = Some s1" using s1(1) Insert by simp
    then obtain l where l: "schedule_times e d q (sched_list s) = Some l" "s1 = s\<lparr>sched_list := l\<rparr>"
      by (auto simp: schedule_event_def split: option.splits)
    have p: "\<forall>t r. pending l t r = (if t = d \<and> r = q then pending (sched_list s) t r @ [e] else pending (sched_list s) t r)"
      using schedule_times_pending[OF wf, where cur = e and delay = d and q = q] l(1) by simp
    have "\<not> (0 = d \<and> SEQ_START = q)" using discards_kind(2)[OF assms(2)] Insert by auto
    then have "no_start s \<longrightarrow> no_start s1" using p l(2) by (auto simp: no_start_def)
    moreover have "q = DEL_THREAD \<Longrightarrow> e \<in> range del_thr_event_s" using discards_kind(3) Insert by blast
    then have "\<forall>t. set (pending (sched_list s1) t DEL_THREAD) \<subseteq> range del_thr_event_s"
      using p l(2) assms(3) by (simp add: tidy_def)
    ultimately show ?thesis using dated_schedule[OF l(1), of "schedule_time s"] l(2) Insert by (simp add: waiting_events_def)
  next
    case (Push e)
    then have "schedule_event_push e s = Some s1" using s1(1) by simp
    from push_audit[OF this wf now] have p: "dated (schedule_time s) (sched_list s1) = add_mset (schedule_time s, e) (dated (schedule_time s) (sched_list s))"
      "\<forall>t r. r \<noteq> SEQ_ACTIVE \<longrightarrow> pending (sched_list s1) t r = pending (sched_list s) t r" "s1 = s\<lparr>sched_list := sched_list s1\<rparr>" by blast+
    have "schedule_time s1 = schedule_time s" "sim_started s1 = sim_started s" by (subst p(3); simp)+
    then show ?thesis using p(1,2) assms(3) now Push by (simp add: waiting_events_def no_start_def tidy_def)
  next
    case Finish_now
    then show ?thesis using discards_kind(1)[OF assms(2)] by blast
  qed (use s1(1)[symmetric] assms(3) in \<open>simp_all add: schedule_init_event_def schedule_final_event_def schedule_stop_def schedule_single_step_def
    tidy_def no_start_def waiting_events_def\<close>)
  then show ?thesis using keep s1(2) now by (auto simp: tidy_def no_start_def waiting_events_def)
qed

lemma perform_all_audit:
  assumes "foldM perform cs s = Some s'" "\<forall>c\<in>set cs. \<not> discards c" "tidy s"
  shows "tidy s' \<and> (no_start s \<longrightarrow> no_start s') \<and> (in_step s \<longrightarrow> in_step s') \<and> schedule_time s' = schedule_time s \<and>
    waiting_events s' = waiting_events s + (\<Sum>c\<leftarrow>cs. booked (schedule_time s) (kind_of (sim_started s) c))"
  using assms
proof (induction cs arbitrary: s)
  case (Cons c cs)
  then obtain s1 where s1: "perform c s = Some s1" "foldM perform cs s1 = Some s'" by (auto split: option.splits)
  then show ?case using perform_audit[OF s1(1)] Cons.IH[OF s1(2)] Cons.prems(2,3) by simp
qed simp

section \<open>The books of the loops\<close>

text \<open>What holds between two events: the books are balanced, and the queue is as the code keeps it.\<close>

definition in_order :: "bookings \<Rightarrow> scheduler \<times> 'w books \<Rightarrow> bool" where
  "in_order given st \<longleftrightarrow> balanced given st \<and> tidy (fst st)"

lemma hook_audit:
  assumes "run_hook (audited beh) h (s, w, past, scheduled) = Some st'" "discards_nothing beh" "tidy s"
    "waiting_events s + run_of (schedule_time s) h + past = given + scheduled"
  shows "in_order given st' \<and> (no_start s \<longrightarrow> no_start (fst st')) \<and> (in_step s \<longrightarrow> in_step (fst st'))"
proof -
  obtain w' cs where cs: "beh h s w = (w', cs)" by (cases "beh h s w")
  then have ok: "\<forall>c\<in>set cs. \<not> discards c" using assms(2) unfolding discards_nothing_def by (metis snd_conv)
  let ?more = "\<Sum>c\<leftarrow>cs. booked (schedule_time s) (kind_of (sim_started s) c)"
  obtain s' where s': "foldM perform cs s = Some s'" "st' = (s', w', past + run_of (schedule_time s) h, scheduled + ?more)"
    using assms(1) cs by (auto simp: run_hook_def audited_def split: option.splits)
  from perform_all_audit[OF s'(1) ok assms(3)] show ?thesis
    using assms(4) by (simp add: in_order_def balanced_def s'(2) ac_simps)
qed

text \<open>A hook that is no event, and an event taken out of its region.\<close>

lemma other_hook_audit:
  assumes "run_hook (audited beh) h st = Some st'" "discards_nothing beh" "in_order given st" "\<And>now. run_of now h = {#}"
  shows "in_order given st' \<and> (no_start (fst st) \<longrightarrow> no_start (fst st')) \<and> (in_step (fst st) \<longrightarrow> in_step (fst st'))"
proof -
  obtain s w past scheduled where st: "st = (s, w, past, scheduled)" by (cases st)
  show ?thesis
    using hook_audit[OF assms(1)[unfolded st] assms(2)] assms(3,4) by (simp add: in_order_def balanced_def st)
qed

lemma in_stepE:
  assumes "in_step s"
  obtains c rest where "sched_list s = c # rest" "et_delay c = 0" "times_wf (c # rest)"
  using assms by (cases "sched_list s") (auto simp: in_step_def)

lemma tidy_head:
  assumes "tidy s" "sched_list s = c # rest" "et_delay c = 0" "et_delay c' = 0" "set (et_del_thr c') \<subseteq> set (et_del_thr c)"
  shows "tidy (s\<lparr>sched_list := c' # rest\<rparr>)"
proof -
  have "set (pending (c' # rest) t DEL_THREAD) \<subseteq> set (pending (c # rest) t DEL_THREAD)" for t
    using assms(3-5) by (cases "t = 0") simp_all
  moreover have "set (pending (c # rest) t DEL_THREAD) \<subseteq> range del_thr_event_s" for t
    using assms(1,2) unfolding tidy_def by metis
  ultimately have "set (pending (c' # rest) t DEL_THREAD) \<subseteq> range del_thr_event_s" for t by (rule subset_trans)
  then show ?thesis using assms(1,2) by (simp add: tidy_def times_wf_Cons del: pending.simps)
qed

lemma event_audit:
  assumes "run_hook (audited beh) (Run e) (s1, w) = Some st'" "discards_nothing beh" "in_order given (s, w)"
    "sched_list s = c # rest" "et_delay c = 0" "sched_list s1 = c' # rest" "et_delay c' = 0" "schedule_time s1 = schedule_time s"
    "step_mset c = add_mset e (step_mset c')" "set (et_del_thr c') \<subseteq> set (et_del_thr c)"
  shows "in_order given st' \<and> (et_start c' = [] \<longrightarrow> no_start (fst st')) \<and> in_step (fst st')"
proof -
  obtain w0 past scheduled where w: "w = (w0, past, scheduled)" by (cases w)
  have tidy: "tidy s" and now: "schedule_time s < 2 ^ 64" and wf: "times_wf (c # rest)"
    using assms(3,4) by (simp_all add: in_order_def tidy_def)
  have "tidy s1"
    using tidy_head[OF tidy assms(4,5,7,10)] assms(6,8) by (simp add: tidy_def)
  moreover have "waiting_events s = waiting_events s1 + {#(schedule_time s, e)#}"
    using assms(4-9) now by (simp add: waiting_events_def)
  then have "waiting_events s1 + run_of (schedule_time s1) (Run e) + past = given + scheduled"
    using assms(3,8) by (simp add: in_order_def balanced_def w)
  moreover have "in_step s1" using assms(6,7) wf by (simp add: in_step_def times_wf_Cons)
  moreover have "et_start c' = [] \<Longrightarrow> no_start s1" using assms(6,7) by (simp add: no_start_def)
  ultimately show ?thesis using hook_audit[OF assms(1)[unfolded w] assms(2)] by blast
qed

text \<open>A region is drained until it is empty; in no other region than the first do start callbacks appear.\<close>

lemma drain_audit:
  assumes "drain_region (audited beh) q st = Some st'" "discards_nothing beh" "in_order given st" "in_step (fst st)"
  shows "in_order given st' \<and> in_step (fst st') \<and> (no_start (fst st) \<longrightarrow> no_start (fst st')) \<and> region q (hd (sched_list (fst st'))) = []"
proof -
  let ?P = "\<lambda>b q st st'. b = audited beh \<longrightarrow> in_order given st \<longrightarrow> in_step (fst st) \<longrightarrow> in_order given st' \<and> in_step (fst st') \<and>
      (no_start (fst st) \<longrightarrow> no_start (fst st')) \<and> region q (hd (sched_list (fst st'))) = []"
  have "?P (audited beh) q st st'"
  proof (rule drain_region.raw_induct[where P = ?P, OF _ assms(1)], intro impI)
    fix self and b :: "'a books behaviour" and q st st'
    assume IH: "\<And>b q st st'. self b q st = Some st' \<Longrightarrow> ?P b q st st'"
      and body: "(case sched_list (fst st) of [] \<Rightarrow> None
        | ctim # rest \<Rightarrow> (case region q ctim of [] \<Rightarrow> Some st
          | cur # others \<Rightarrow> (case run_hook b (Run cur) ((fst st)\<lparr>sched_list := set_region q others ctim # rest\<rparr>, snd st) of
              None \<Rightarrow> None | Some st' \<Rightarrow> self b q st'))) = Some st'"
      and b: "b = audited beh" and ord: "in_order given st" and step: "in_step (fst st)"
    obtain c rest where c: "sched_list (fst st) = c # rest" "et_delay c = 0" "times_wf (c # rest)" using step by (rule in_stepE)
    show "in_order given st' \<and> in_step (fst st') \<and> (no_start (fst st) \<longrightarrow> no_start (fst st')) \<and> region q (hd (sched_list (fst st'))) = []"
    proof (cases "region q c")
      case Nil
      then show ?thesis using body ord step c by simp
    next
      case (Cons e es)
      let ?s = "(fst st)\<lparr>sched_list := set_region q es c # rest\<rparr>"
      obtain st1 where st1: "run_hook (audited beh) (Run e) (?s, snd st) = Some st1" "self b q st1 = Some st'"
        using body b c(1) Cons by (auto split: option.splits)
      have del: "set (et_del_thr (set_region q es c)) \<subseteq> set (et_del_thr c)"
        using Cons by (cases q) auto
      have "in_order given (fst st, snd st)" using ord by simp
      from event_audit[OF st1(1) assms(2) this c(1,2) _ _ _ step_mset_take[OF Cons] del]
      have after: "in_order given st1" "in_step (fst st1)" "et_start (set_region q es c) = [] \<Longrightarrow> no_start (fst st1)"
        using c(2) by simp_all
      have "no_start (fst st) \<Longrightarrow> et_start (set_region q es c) = []"
        using c(1,2) Cons by (cases q) (auto simp: no_start_def)
      then show ?thesis using IH[OF st1(2)] b after by blast
    qed
  qed
  then show ?thesis using assms by blast
qed

section \<open>The error flag\<close>

text \<open>The flag \<^verbatim>\<open>rosync_error\<close> is never cleared.\<close>

lemma perform_error: "perform c s = Some s' \<Longrightarrow> rosync_error s' = rosync_error s"
proof -
  assume a: "perform c s = Some s'"
  obtain tc where tc: "perform c s = map_option (\<lambda>s'. s'\<lparr>thread_calls := tc\<rparr>) (apply_kind (kind_of (sim_started s) c) s)"
    using perform_kind by blast
  then obtain s1 where s1: "apply_kind (kind_of (sim_started s) c) s = Some s1" "s' = s1\<lparr>thread_calls := tc\<rparr>"
    using a by (cases "apply_kind (kind_of (sim_started s) c) s") auto
  have "rosync_error s1 = rosync_error s"
    using s1(1) by (cases "kind_of (sim_started s) c") (auto simp: schedule_event_def schedule_event_push_def schedule_init_event_def
      schedule_final_event_def schedule_finish_def schedule_stop_def schedule_single_step_def Let_def split: option.splits list.splits if_splits)
  then show ?thesis by (simp add: s1(2))
qed

lemma perform_all_error: "foldM perform cs s = Some s' \<Longrightarrow> rosync_error s' = rosync_error s"
  by (induction cs arbitrary: s) (auto simp: perform_error split: option.splits)

lemma hook_error: "run_hook beh h st = Some st' \<Longrightarrow> rosync_error (fst st') = rosync_error (fst st)"
  by (auto simp: run_hook_def perform_all_error split: option.splits prod.splits)

lemma drain_error:
  assumes "drain_region beh q st = Some st'"
  shows "rosync_error (fst st') = rosync_error (fst st)"
proof (rule drain_region.raw_induct[where P = "\<lambda>b q st st'. rosync_error (fst st') = rosync_error (fst st)", OF _ assms])
  fix self and b :: "'a behaviour" and q st st'
  assume "\<And>b q st st'. self b q st = Some st' \<Longrightarrow> rosync_error (fst st') = rosync_error (fst st)"
    and "(case sched_list (fst st) of [] \<Rightarrow> None
      | ctim # rest \<Rightarrow> (case region q ctim of [] \<Rightarrow> Some st
        | cur # others \<Rightarrow> (case run_hook b (Run cur) ((fst st)\<lparr>sched_list := set_region q others ctim # rest\<rparr>, snd st) of
            None \<Rightarrow> None | Some st' \<Rightarrow> self b q st'))) = Some st'"
  then show "rosync_error (fst st') = rosync_error (fst st)" by (auto dest!: hook_error split: list.splits option.splits)
qed

lemma rosync_error_stays: "run_rosync beh st = Some st' \<Longrightarrow> rosync_error (fst st) \<Longrightarrow> rosync_error (fst st')"
  by (auto simp: run_rosync_def dest!: drain_error split: option.splits list.splits if_splits prod.splits)

lemma iter_error_stays: "sim_iter beh st = Some (st', b) \<Longrightarrow> rosync_error (fst st) \<Longrightarrow> rosync_error (fst st')"
proof -
  assume a: "sim_iter beh st = Some (st', b)" "rosync_error (fst st)"
  have enter: "enter_time beh st = Some st1 \<Longrightarrow> rosync_error (fst st1)" for st1
    using a(2) by (auto simp: enter_time_def dest!: hook_error drain_error split: list.splits option.splits if_splits)
  have step: "run_step beh st1 = Some st2 \<Longrightarrow> rosync_error (fst st1) \<Longrightarrow> rosync_error (fst st2)" for st1 st2
    by (auto simp: run_step_def Let_def dest!: hook_error rosync_error_stays split: list.splits option.splits if_splits prod.splits)
  show ?thesis
    using a enter step by (auto simp: sim_iter_def Let_def dest!: hook_error split: list.splits option.splits if_splits prod.splits)
qed

section \<open>The books of the main loop\<close>

lemma drain_quiet:
  "\<forall>e\<in>set (region q c). \<forall>s w. snd (beh (Run e) s w) = [] \<Longrightarrow> sched_list s = c # rest \<Longrightarrow>
   \<exists>w'. drain_region beh q (s, w) = Some (s\<lparr>sched_list := set_region q [] c # rest\<rparr>, w')"
proof (induction "region q c" arbitrary: s c w)
  case Nil
  have "s\<lparr>sched_list := set_region q [] c # rest\<rparr> = s" using Nil set_region_same[of q c "[]"] by simp
  then show ?case using Nil by (simp add: drain_region.simps[of beh q "(s, w)"])
next
  case (Cons e es)
  let ?s = "s\<lparr>sched_list := set_region q es c # rest\<rparr>"
  have "snd (beh (Run e) ?s w) = []" using Cons.prems(1) Cons.hyps(2)[symmetric] by simp
  then obtain w1 where w1: "run_hook beh (Run e) (?s, w) = Some (?s, w1)"
    by (cases "beh (Run e) ?s w") (simp add: run_hook_def)
  have "es = region q (set_region q es c)" "\<forall>e\<in>set (region q (set_region q es c)). \<forall>s w. snd (beh (Run e) s w) = []"
    "sched_list ?s = set_region q es c # rest"
    using Cons.prems Cons.hyps(2)[symmetric] by simp_all
  from Cons.hyps(1)[OF this, of w1] show ?case
    using w1 Cons.hyps(2)[symmetric] Cons.prems(2) by (auto simp: drain_region.simps[of beh q "(s, w)"])
qed

lemma audited_calls: "snd (audited beh h s st) = snd (beh h s (fst st))"
  by (auto simp: audited_def split: prod.splits)

text \<open>Without the error flag the step that ends is empty.\<close>

lemma rosync_audit:
  assumes "run_rosync (audited beh) st = Some (s', w')" "discards_nothing beh" "in_order given st" "in_step (fst st)" "no_start (fst st)"
    "\<not> rosync_error s'"
  shows "in_order given (s', w') \<and> in_step s' \<and> (\<exists>c rest. sched_list s' = c # rest \<and> step_mset c = {#})"
proof -
  let ?st = "((fst st)\<lparr>sim_at_rosync := True\<rparr>, snd st)"
  have "in_order given ?st" "in_step (fst ?st)" "no_start (fst ?st)"
    using assms(3-5) by (auto simp: in_order_def balanced_def tidy_def in_step_def no_start_def waiting_events_def)
  moreover from assms(1) obtain s1 w1 where s1: "drain_region (audited beh) SEQ_ROSYNC ?st = Some (s1, w1)"
    unfolding run_rosync_def by (cases "drain_region (audited beh) SEQ_ROSYNC ?st") auto
  ultimately have k1: "in_order given (s1, w1)" "in_step s1" "no_start s1" "et_rosync (hd (sched_list s1)) = []"
    using drain_audit[OF s1 assms(2)] by auto
  obtain c rest where c: "sched_list s1 = c # rest" "et_delay c = 0" using k1(2) by (rule in_stepE)
  let ?s1 = "s1\<lparr>sim_at_rosync := False\<rparr>"
  have k2: "in_order given (?s1, w1)" "in_step ?s1" "no_start ?s1"
    using k1 by (auto simp: in_order_def balanced_def tidy_def in_step_def no_start_def waiting_events_def)
  have "set (pending (sched_list s1) 0 DEL_THREAD) \<subseteq> range del_thr_event_s"
    using k1(1) unfolding in_order_def tidy_def by simp
  then have "set (region DEL_THREAD c) \<subseteq> range del_thr_event_s" using c by simp
  then have "\<forall>e\<in>set (region DEL_THREAD c). \<forall>s w. snd (audited beh (Run e) s w) = []"
    using assms(2) unfolding discards_nothing_def audited_calls by auto
  then obtain w2 where w2: "drain_region (audited beh) DEL_THREAD (?s1, w1) = Some (?s1\<lparr>sched_list := set_region DEL_THREAD [] c # rest\<rparr>, w2)"
    using drain_quiet[of DEL_THREAD c "audited beh" ?s1 rest w1] c(1) by auto
  let ?s2 = "?s1\<lparr>sched_list := set_region DEL_THREAD [] c # rest\<rparr>"
  have k3: "in_order given (?s2, w2)" "in_step ?s2" "no_start ?s2"
    using drain_audit[OF w2 assms(2)] k2 by simp_all
  have end_: "(s', w') = (?s2, w2) \<and> et_active c = [] \<and> et_inactive c = [] \<and> et_nbassign c = [] \<and> et_rwsync c = []"
    using assms(1,6) s1 w2 by (auto simp: run_rosync_def split: if_splits)
  have "et_start c = []" "et_rosync c = []" using k1(4) k3(3) c by (simp_all add: no_start_def)
  then have "step_mset (c\<lparr>et_del_thr := []\<rparr>) = {#}" using end_ by (simp add: step_mset_def)
  then show ?thesis using end_ k3 by (intro conjI exI) simp_all
qed

lemma pop_audit:
  assumes "in_order given (s, w)" "in_step s" "sched_list s = c # rest" "step_mset c = {#}"
  shows "in_order given (s\<lparr>sched_list := rest\<rparr>, w) \<and> no_start (s\<lparr>sched_list := rest\<rparr>)"
proof -
  have c: "et_delay c = 0" "\<forall>d\<in>set rest. 0 < et_delay d" using assms(2,3) by (auto simp: in_step_def times_wf_Cons)
  have none: "pending rest 0 q = []" for q using c(2) by (rule pending_before)
  have tidy: "tidy s" using assms(1) by (simp add: in_order_def)
  have "set (pending rest t DEL_THREAD) \<subseteq> range del_thr_event_s" for t
  proof (cases "t = 0")
    case False
    then have "pending rest t DEL_THREAD = pending (sched_list s) t DEL_THREAD" using c(1) assms(3) by simp
    then show ?thesis using tidy by (simp add: tidy_def)
  qed (simp add: none)
  moreover have "waiting_events (s\<lparr>sched_list := rest\<rparr>) = waiting_events s"
    using assms(3,4) c(1) tidy by (simp add: waiting_events_def tidy_def)
  ultimately show ?thesis
    using assms(1,3) tidy times_wf_tl[of c rest] none by (auto simp: in_order_def balanced_def tidy_def no_start_def)
qed

lemma step_audit:
  assumes "run_step (audited beh) st = Some st'" "discards_nothing beh" "in_order given st" "in_step (fst st)" "no_start (fst st)"
    "\<not> rosync_error (fst st')"
  shows "in_order given st' \<and> no_start (fst st')"
proof -
  obtain s w where st: "st = (s, w)" by (cases st)
  obtain c rest where c: "sched_list s = c # rest" "et_delay c = 0" "times_wf (c # rest)" using assms(4) unfolding st fst_conv by (rule in_stepE)
  have start: "et_start (promote c) = []" using assms(5) c by (simp add: no_start_def st)
  show ?thesis
  proof (cases "et_active (promote c)")
    case Nil
    let ?s = "s\<lparr>sched_list := promote c # rest\<rparr>"
    have "tidy ?s" using assms(3) c by (intro tidy_head[where c = c]) (simp_all add: in_order_def st)
    moreover have "waiting_events ?s = waiting_events s" using c by (simp add: waiting_events_def)
    ultimately have k: "in_order given (?s, w)" "in_step (fst (?s, w))" "no_start (fst (?s, w))"
      using assms(3) c start by (simp_all add: in_order_def balanced_def st in_step_def times_wf_Cons no_start_def)
    obtain s1 w1 where s1: "run_rosync (audited beh) (?s, w) = Some (s1, w1)" "st' = (s1\<lparr>sched_list := tl (sched_list s1)\<rparr>, w1)"
      using assms(1) c(1) Nil by (auto simp: run_step_def Let_def st split: option.splits)
    have "\<not> rosync_error s1" using assms(6) by (simp add: s1(2))
    from rosync_audit[OF s1(1) assms(2) k this] obtain d ds where d: "in_order given (s1, w1)" "in_step s1" "sched_list s1 = d # ds" "step_mset d = {#}"
      by blast
    show ?thesis using pop_audit[OF d] d(3) by (simp add: s1(2))
  next
    case (Cons e es)
    let ?s = "s\<lparr>sched_list := (promote c)\<lparr>et_active := es\<rparr> # rest\<rparr>"
    let ?s1 = "if schedule_single_step_flag ?s then ?s\<lparr>schedule_stopped_flag := True, schedule_single_step_flag := False\<rparr> else ?s"
    have run: "run_hook (audited beh) (Run e) (?s1, w) = Some st'"
      using assms(1) c(1) Cons by (cases "schedule_single_step_flag s") (simp_all add: run_step_def Let_def st)
    have "step_mset c = add_mset e (step_mset ((promote c)\<lparr>et_active := es\<rparr>))"
      using Cons by (simp only: step_mset_promote[of c, symmetric]) (simp add: step_mset_def)
    from event_audit[OF run assms(2) assms(3)[unfolded st] c(1,2) _ _ _ this] show ?thesis using c(2) start by simp
  qed
qed

lemma enter_audit:
  assumes "enter_time (audited beh) st = Some st'" "discards_nothing beh" "in_order given st" "no_start (fst st)"
  shows "in_order given st' \<and> in_step (fst st') \<and> no_start (fst st')"
proof -
  obtain s w where st: "st = (s, w)" by (cases st)
  obtain c rest where c: "sched_list s = c # rest" using assms(1) by (auto simp: enter_time_def st split: list.splits)
  have tidy: "tidy s" "times_wf (c # rest)" using assms(3) c by (simp_all add: in_order_def tidy_def st)
  show ?thesis
  proof (cases "et_delay c = 0")
    case True
    then have "st' = st" using assms(1) c by (simp add: enter_time_def st)
    then show ?thesis using True c tidy assms(3,4) by (simp add: st in_step_def)
  next
    case False
    let ?s = "s\<lparr>schedule_time := (schedule_time s + et_delay c) mod 2 ^ 64, sched_list := c\<lparr>et_delay := 0\<rparr> # rest\<rparr>"
    obtain st1 where st1: "run_hook (audited beh) Next_sim_time (?s, w) = Some st1" "drain_region (audited beh) SEQ_START st1 = Some st'"
      using assms(1) c False by (auto simp: enter_time_def st split: option.splits)
    have "pending (sched_list ?s) t q = pending (sched_list s) (t + et_delay c) q" for t q
      using c by (cases q; cases "t = 0") auto
    then have "tidy ?s" using tidy by (auto simp: tidy_def times_wf_Cons)
    moreover have "waiting_events ?s = waiting_events s" using c by (simp add: waiting_events_def)
    ultimately have "in_order given (?s, w)" using assms(3) by (simp add: in_order_def balanced_def st)
    moreover have "in_step ?s" using tidy(2) by (simp add: in_step_def times_wf_Cons)
    ultimately have k: "in_order given st1" "in_step (fst st1)"
      using other_hook_audit[OF st1(1) assms(2)] by simp_all
    from drain_audit[OF st1(2) assms(2) k] have d: "in_order given st'" "in_step (fst st')" "region SEQ_START (hd (sched_list (fst st'))) = []" by blast+
    then show ?thesis by (auto simp: no_start_def elim!: in_stepE)
  qed
qed

lemma iter_audit:
  assumes "sim_iter (audited beh) st = Some (st', b)" "discards_nothing beh" "in_order given st" "no_start (fst st)" "\<not> rosync_error (fst st')"
  shows "in_order given st' \<and> no_start (fst st')"
proof -
  obtain s w where st: "st = (s, w)" by (cases st)
  consider "st' = st"
    | "run_hook (audited beh) Stop_handler (s\<lparr>schedule_stopped_flag := False\<rparr>, w) = Some st'"
    | st1 where "enter_time (audited beh) st = Some st1" "run_step (audited beh) st1 = Some st'"
    using assms(1) by (auto simp: sim_iter_def Let_def st split: list.splits if_splits option.splits)
  then show ?thesis
  proof cases
    case 2
    have "in_order given (s\<lparr>schedule_stopped_flag := False\<rparr>, w)" "no_start (s\<lparr>schedule_stopped_flag := False\<rparr>)"
      using assms(3,4) by (simp_all add: st in_order_def balanced_def tidy_def waiting_events_def no_start_def)
    then show ?thesis using other_hook_audit[OF 2 assms(2)] by simp
  next
    case 3
    show ?thesis using enter_audit[OF 3(1) assms(2-4)] step_audit[OF 3(2) assms(2)] assms(5) by blast
  qed (use assms(3,4) in simp)
qed

section \<open>No event is lost\<close>

text \<open>The states between two rounds of the main loop, and after the last.\<close>

inductive rounds :: "'w behaviour \<Rightarrow> scheduler \<times> 'w \<Rightarrow> scheduler \<times> 'w \<Rightarrow> bool" for beh where
  zero: "rounds beh st st"
| more: "sim_iter beh st = Some (st1, go_on) \<Longrightarrow> rounds beh st1 st' \<Longrightarrow> rounds beh st st'"

lemma rounds_error: "rounds beh st st' \<Longrightarrow> rosync_error (fst st) \<Longrightarrow> rosync_error (fst st')"
  by (induction rule: rounds.induct) (auto dest: iter_error_stays)

lemma rounds_audit:
  assumes "rounds (audited beh) st st'" "discards_nothing beh" "in_order given st" "no_start (fst st)" "\<not> rosync_error (fst st')"
  shows "in_order given st'"
  using assms(1,3-5)
proof (induction rule: rounds.induct)
  case (more st st1 go_on st')
  have "\<not> rosync_error (fst st1)" using rounds_error[OF more(2)] more(6) by blast
  from iter_audit[OF more(1) assms(2) more(4,5) this] show ?case using more(3,6) by blast
qed simp

lemma sim_loop_rounds:
  assumes "sim_loop beh st = Some st'"
  shows "rounds beh st st' \<and> (sched_list (fst st') = [] \<or> \<not> schedule_runnable (fst st'))"
proof (rule sim_loop.raw_induct[where P = "\<lambda>b st st'. rounds b st st' \<and> (sched_list (fst st') = [] \<or> \<not> schedule_runnable (fst st'))", OF _ assms])
  fix self and b :: "'a behaviour" and st st'
  assume IH: "\<And>b st st'. self b st = Some st' \<Longrightarrow> rounds b st st' \<and> (sched_list (fst st') = [] \<or> \<not> schedule_runnable (fst st'))"
    and body: "(case sim_iter b st of None \<Rightarrow> None | Some (st', go_on) \<Rightarrow> if go_on then self b st' else Some st') = Some st'"
  then obtain st1 go_on where st1: "sim_iter b st = Some (st1, go_on)" by (cases "sim_iter b st") auto
  show "rounds b st st' \<and> (sched_list (fst st') = [] \<or> \<not> schedule_runnable (fst st'))"
  proof (cases go_on)
    case True
    then show ?thesis using body st1 IH[of b st1 st'] rounds.more[OF st1] by simp
  next
    case False
    then have "sched_list (fst st1) = [] \<or> \<not> schedule_runnable (fst st1)"
      using st1 by (auto simp: sim_iter_def Let_def split: list.splits if_splits option.splits)
    then show ?thesis using body st1 False rounds.more[OF st1 rounds.zero] by simp
  qed
qed

text \<open>C19. No event is lost, invented, moved in time or run twice, whatever the events do and schedule (as long as nothing that runs
  calls \<^verbatim>\<open>schedule_finish\<close> or schedules a start callback without delay, and deleting a thread schedules nothing; at the beginning
  the queue has increasing times, no start callback at the present time and nothing but deletions in the regions for them). After
  any number of rounds of the main loop that have not set \<^verbatim>\<open>rosync_error\<close>, the events in the queue with
  their absolute times together with the events that have run, with the times at which they did, are exactly those that were in
  the queue at the beginning and those that have been scheduled since, with the times for which they were. So when
  the loop ends by itself, exactly these have run, each at its time and as often as it was scheduled.\<close>

theorem no_event_lost:
  assumes "discards_nothing beh" "tidy s0" "no_start s0"
  shows "(rounds (audited beh) (s0, w, {#}, {#}) (s, w', past, scheduled) \<and> \<not> rosync_error s \<longrightarrow>
      waiting_events s + past = waiting_events s0 + scheduled) \<and>
    (sim_loop (audited beh) (s0, w, {#}, {#}) = Some (s, w', past, scheduled) \<and> \<not> rosync_error s \<and> schedule_runnable s \<longrightarrow>
      past = waiting_events s0 + scheduled)"
proof -
  have "in_order (waiting_events s0) (s0, w, {#}, {#})" using assms(2) by (simp add: in_order_def balanced_def)
  then have "waiting_events s + past = waiting_events s0 + scheduled"
    if "rounds (audited beh) (s0, w, {#}, {#}) (s, w', past, scheduled)" "\<not> rosync_error s"
    using rounds_audit[OF that(1) assms(1)] assms(3) that(2) by (simp add: in_order_def balanced_def)
  moreover have "waiting_events s = {#}" if "sched_list s = []" using that by (simp add: waiting_events_def)
  ultimately show ?thesis using sim_loop_rounds[of "audited beh" "(s0, w, {#}, {#})" "(s, w', past, scheduled)"] by auto
qed

text \<open>A thread that runs at the time 7 schedules another, three units later.\<close>

definition chain :: "unit behaviour" where
  "chain h s w = (w, if h = Run (vthread_event_s 1) then [Call_vthread 2 3 False] else [])"

definition chain_start :: scheduler where
  "chain_start = scheduler_initial\<lparr>sched_list := [(event_time_new 7)\<lparr>et_active := [vthread_event_s 1]\<rparr>]\<rparr>"

theorem no_event_lost_witness:
  "\<exists>s scheduled. sim_loop (audited chain) (chain_start, (), {#}, {#}) = Some (s, (), {#(7, vthread_event_s 1), (10, vthread_event_s 2)#}, scheduled) \<and>
     {#(7, vthread_event_s 1), (10, vthread_event_s 2)#} = waiting_events chain_start + scheduled"
proof -
  have ok: "discards_nothing chain" "tidy chain_start" "no_start chain_start"
    by (auto simp: discards_nothing_def chain_def tidy_def no_start_def chain_start_def scheduler_initial_def times_wf_def event_time_new_def
        split: if_splits)
  have "\<exists>s. sim_loop (audited chain) (chain_start, (), {#}, {#}) =
      Some (s, (), {#(7, vthread_event_s 1), (10, vthread_event_s 2)#}, {#(10, vthread_event_s 2)#}) \<and> \<not> rosync_error s \<and> schedule_runnable s"
    by (simp add: sim_loop.simps[of "audited chain"] drain_region.simps[of "audited chain"] sim_iter_def enter_time_def run_step_def run_rosync_def
        run_hook_def audited_def chain_def chain_start_def scheduler_initial_def event_time_new_def promote_def Let_def schedule_vthread_def
        schedule_event_def schedule_times_def call_thread_def put_event.simps)
  then show ?thesis using no_event_lost[OF ok] by blast
qed

end
