(* ===== verification/Functor.thy ===== *)
theory Functor
  imports Scheduler Vector4_Parts Vector4_Select
begin

text \<open>
  What the functors of a vvp program have in common (\<^verbatim>\<open>vvp_net_fun_t\<close> of \<^verbatim>\<open>vvp_net.h\<close> and
  \<^verbatim>\<open>vvp_net.cc\<close>). A functor receives messages from the nets at its ports; it sends values to its own
  net or asks the scheduler to run it. Its operations return the new state and, in order, what they send
  and ask for. Most functors recompute lazily: \<^verbatim>\<open>net_\<close> is null while no run is scheduled, and the first
  message that matters stores the net there and schedules a run. The locale \<open>lazy_functor\<close> states that
  contract; its lemma is that no update is lost and no run is scheduled twice.
\<close>

section \<open>Messages and actions\<close>

datatype net_msg =
    Recv_vec4 vvp_net_ptr_t vvp_vector4_t
  | Recv_vec4_pv vvp_net_ptr_t vvp_vector4_t nat nat nat
  | Recv_vec8 vvp_net_ptr_t vvp_vector8_t
  | Recv_vec8_pv vvp_net_ptr_t vvp_vector8_t nat nat nat
  | Recv_real vvp_net_ptr_t real_bits

datatype net_action =
    Send_vec4 vvp_net_addr vvp_vector4_t
  | Send_vec4_pv vvp_net_addr vvp_vector4_t nat nat nat
  | Send_vec8 vvp_net_addr vvp_vector8_t
  | Send_vec8_pv vvp_net_addr vvp_vector8_t nat nat nat
  | Send_real vvp_net_addr real_bits
  | Schedule_functor

type_synonym 's outcome = "('s \<times> net_action list) option"

text \<open>Comparison of two \<^verbatim>\<open>double\<close> values by their IEEE 754 representation.\<close>

definition double_is_nan :: "real_bits \<Rightarrow> bool" where
  "double_is_nan r \<longleftrightarrow> (r AND 0x7FFFFFFFFFFFFFFF) > 0x7FF0000000000000"

definition double_eq :: "real_bits \<Rightarrow> real_bits \<Rightarrow> bool" where
  "double_eq a b \<longleftrightarrow> \<not> double_is_nan a \<and> \<not> double_is_nan b \<and>
     (a = b \<or> (a AND 0x7FFFFFFFFFFFFFFF) = 0 \<and> (b AND 0x7FFFFFFFFFFFFFFF) = 0)"

section \<open>Defaults of the base class\<close>

text \<open>A part value is extended by undriven bits to the full width and received as a whole.\<close>

definition fun_recv_vec4_pv ::
  "(vvp_net_ptr_t \<Rightarrow> vvp_vector4_t \<Rightarrow> 's \<Rightarrow> 's outcome) \<Rightarrow>
   vvp_net_ptr_t \<Rightarrow> vvp_vector4_t \<Rightarrow> nat \<Rightarrow> nat \<Rightarrow> nat \<Rightarrow> 's \<Rightarrow> 's outcome" where
  "fun_recv_vec4_pv recv_vec4 p bt base wid vwid s =
     (if vec_size bt \<noteq> wid then None
      else if \<not> base + wid \<le> vwid then None
      else case vec4_set_vec (vec4_new vwid BIT4_Z) base bt of
             None \<Rightarrow> None
           | Some (tmp, _) \<Rightarrow> recv_vec4 p tmp s)"

definition fun_recv_vec8 ::
  "(vvp_net_ptr_t \<Rightarrow> vvp_vector4_t \<Rightarrow> 's \<Rightarrow> 's outcome) \<Rightarrow> vvp_net_ptr_t \<Rightarrow> vvp_vector8_t \<Rightarrow> 's \<Rightarrow> 's outcome" where
  "fun_recv_vec8 recv_vec4 port bt s =
     (case reduce4 bt of None \<Rightarrow> None | Some b \<Rightarrow> recv_vec4 port b s)"

definition fun_recv_vec8_pv ::
  "(vvp_net_ptr_t \<Rightarrow> vvp_vector4_t \<Rightarrow> nat \<Rightarrow> nat \<Rightarrow> nat \<Rightarrow> 's \<Rightarrow> 's outcome) \<Rightarrow>
   vvp_net_ptr_t \<Rightarrow> vvp_vector8_t \<Rightarrow> nat \<Rightarrow> nat \<Rightarrow> nat \<Rightarrow> 's \<Rightarrow> 's outcome" where
  "fun_recv_vec8_pv recv_vec4_pv port bt base wid vwid s =
     (case reduce4 bt of None \<Rightarrow> None | Some b \<Rightarrow> recv_vec4_pv port b base wid vwid s)"

text \<open>The methods of a functor that handles \<^verbatim>\<open>recv_vec4\<close> and \<^verbatim>\<open>recv_vec4_pv\<close> itself and leaves the
  others to the base class; receiving a real is an internal error there.\<close>

fun vec4_methods ::
  "(vvp_net_ptr_t \<Rightarrow> vvp_vector4_t \<Rightarrow> 's \<Rightarrow> 's outcome) \<Rightarrow>
   (vvp_net_ptr_t \<Rightarrow> vvp_vector4_t \<Rightarrow> nat \<Rightarrow> nat \<Rightarrow> nat \<Rightarrow> 's \<Rightarrow> 's outcome) \<Rightarrow> net_msg \<Rightarrow> 's \<Rightarrow> 's outcome" where
  "vec4_methods recv4 recv4_pv (Recv_vec4 p v) s = recv4 p v s"
| "vec4_methods recv4 recv4_pv (Recv_vec4_pv p v base wid vwid) s = recv4_pv p v base wid vwid s"
| "vec4_methods recv4 recv4_pv (Recv_vec8 p v) s = fun_recv_vec8 recv4 p v s"
| "vec4_methods recv4 recv4_pv (Recv_vec8_pv p v base wid vwid) s = fun_recv_vec8_pv recv4_pv p v base wid vwid s"
| "vec4_methods recv4 recv4_pv (Recv_real p r) s = None"

section \<open>Lazy functors\<close>

text \<open>The data of the functor, and \<^verbatim>\<open>net_\<close>.\<close>

record 'd net_functor =
  fdata :: 'd
  fnet :: "vvp_net_addr option"

text \<open>The statements \<^verbatim>\<open>if (net_ == 0) { net_ = ptr.ptr(); schedule_functor(this); }\<close>.\<close>

definition request_run :: "vvp_net_ptr_t \<Rightarrow> 'd net_functor \<Rightarrow> 'd net_functor \<times> net_action list" where
  "request_run p s =
     (if fnet s = None then (s\<lparr>fnet := Some (ptr_net p)\<rparr>, [Schedule_functor]) else (s, []))"

text \<open>A functor among its messages and runs: its state, the number of its runs that wait in the
  scheduler, and what its last run sent.\<close>

inductive functor_reach ::
  "('m \<Rightarrow> 's \<Rightarrow> 's outcome) \<Rightarrow> ('s \<Rightarrow> 's outcome) \<Rightarrow> ('m \<Rightarrow> 's \<Rightarrow> bool) \<Rightarrow> 's \<Rightarrow>
   's \<times> nat \<times> net_action list option \<Rightarrow> bool"
  for recv and run and fits and s0 where
  start: "functor_reach recv run fits s0 (s0, 0, None)"
| message: "functor_reach recv run fits s0 (s, q, sent) \<Longrightarrow> fits m s \<Longrightarrow> recv m s = Some (s', acts) \<Longrightarrow>
     functor_reach recv run fits s0 (s', q + length acts, sent)"
| run: "functor_reach recv run fits s0 (s, q, sent) \<Longrightarrow> 0 < q \<Longrightarrow> run s = Some (s', acts) \<Longrightarrow>
     functor_reach recv run fits s0 (s', q - 1, Some acts)"

locale lazy_functor =
  fixes recv :: "'m \<Rightarrow> 's \<Rightarrow> 's outcome"
    and run :: "'s \<Rightarrow> 's outcome"
    and waiting :: "'s \<Rightarrow> vvp_net_addr option"
    and target :: "'m \<Rightarrow> vvp_net_addr"
    and result :: "'s \<Rightarrow> 'r"
    and sends :: "vvp_net_addr \<Rightarrow> 'r \<Rightarrow> net_action list \<Rightarrow> bool"
    and ok :: "'s \<Rightarrow> bool"
    and fits :: "'m \<Rightarrow> 's \<Rightarrow> bool"
  assumes recv_ok: "ok s \<Longrightarrow> fits m s \<Longrightarrow>
      \<exists>s' acts. recv m s = Some (s', acts) \<and> ok s' \<and>
        (acts = [] \<and> waiting s' = waiting s \<and> (waiting s = None \<longrightarrow> result s' = result s) \<or>
         acts = [Schedule_functor] \<and> waiting s = None \<and> waiting s' = Some (target m))"
    and run_ok: "ok s \<Longrightarrow> waiting s = Some n \<Longrightarrow>
      \<exists>s' acts. run s = Some (s', acts) \<and> sends n (result s) acts \<and> ok s' \<and> waiting s' = None \<and>
        result s' = result s"
begin

text \<open>What holds between any two steps: exactly one run waits when \<^verbatim>\<open>net_\<close> is set and none otherwise,
  and when none waits, the last run has sent the result for the present inputs.\<close>

definition settled :: "'s \<Rightarrow> 's \<Rightarrow> nat \<Rightarrow> net_action list option \<Rightarrow> bool" where
  "settled s0 s q sent \<longleftrightarrow> ok s \<and> q = (if waiting s = None then 0 else 1) \<and>
     (waiting s = None \<longrightarrow>
        (case sent of None \<Rightarrow> result s = result s0 | Some acts \<Rightarrow> \<exists>n. sends n (result s) acts))"

lemma settled_reach:
  assumes "ok s0" "waiting s0 = None"
  shows "functor_reach recv run fits s0 c \<Longrightarrow> settled s0 (fst c) (fst (snd c)) (snd (snd c))"
proof (induction rule: functor_reach.induct)
  case start
  then show ?case using assms by (simp add: settled_def)
next
  case (message s q sent m s' acts)
  then show ?case
    using recv_ok[of s m] by (cases sent) (auto simp: settled_def split: if_splits)
next
  case (run s q sent s' acts)
  then obtain n where "ok s" "waiting s = Some n" by (auto simp: settled_def split: if_splits)
  then show ?case using run run_ok[of s n] by (auto simp: settled_def)
qed

text \<open>The same written out, with the run that is always possible when one waits.\<close>

lemma no_lost_update:
  assumes "ok s0" "waiting s0 = None" "functor_reach recv run fits s0 (s, q, sent)"
  shows "case waiting s of
      None \<Rightarrow> q = 0 \<and> (case sent of None \<Rightarrow> result s = result s0 | Some acts \<Rightarrow> \<exists>n. sends n (result s) acts)
    | Some n \<Rightarrow> q = 1 \<and> (\<exists>s' acts. run s = Some (s', acts) \<and> sends n (result s) acts \<and> waiting s' = None)"
  using settled_reach[OF assms] run_ok[of s] by (fastforce simp: settled_def split: option.splits if_splits)

lemma message_accepted:
  assumes "ok s0" "waiting s0 = None" "functor_reach recv run fits s0 (s, q, sent)" "fits m s"
  shows "\<exists>s' acts. recv m s = Some (s', acts)"
  using settled_reach[OF assms(1-3)] recv_ok[of s m] assms(4) by (auto simp: settled_def)

end

text \<open>A functor that sends one vector.\<close>

definition sends_bits :: "vvp_net_addr \<Rightarrow> vvp_bit4_t list \<Rightarrow> net_action list \<Rightarrow> bool" where
  "sends_bits n bs acts \<longleftrightarrow> (\<exists>r. acts = [Send_vec4 n r] \<and> vec4_wf r \<and> vec4_bits r = bs)"

fun msg_target :: "net_msg \<Rightarrow> vvp_net_addr" where
  "msg_target (Recv_vec4 p v) = ptr_net p"
| "msg_target (Recv_vec4_pv p v base wid vwid) = ptr_net p"
| "msg_target (Recv_vec8 p v) = ptr_net p"
| "msg_target (Recv_vec8_pv p v base wid vwid) = ptr_net p"
| "msg_target (Recv_real p r) = ptr_net p"

section \<open>Loops over the bits of a vector\<close>

text \<open>A loop that sets every bit, possibly from the old value of the same bit.\<close>

lemma vec4_map_loop:
  assumes "vec4_wf v"
  shows "\<exists>r. foldM (\<lambda>i r. vec4_set_bit r i (g i (vec4_value r i))) [0..<vec_size v] v = Some r \<and>
    vec4_wf r \<and> vec_size r = vec_size v \<and> vec4_bits r = map (\<lambda>i. g i (vec4_value v i)) [0..<vec_size v]"
proof -
  let ?done = "\<lambda>k r. vec4_wf r \<and> vec_size r = vec_size v \<and>
    (\<forall>j<vec_size v. vec4_value r j = (if j < k then g j (vec4_value v j) else vec4_value v j))"
  have "\<exists>r. foldM (\<lambda>i r. vec4_set_bit r i (g i (vec4_value r i))) [0..<vec_size v] v = Some r \<and> ?done (vec_size v) r"
  proof (rule foldM_upt_inv[where P = ?done], goal_cases)
    case 1
    show ?case using assms by simp
  next
    case (2 i r)
    then show ?case
      using vec4_set_bit_correct[of r i "g i (vec4_value r i)"] by (auto simp: less_Suc_eq)
  qed
  then show ?thesis by (auto simp: vec4_bits_def)
qed

lemma vec4_fill_loop:
  assumes "vec4_wf v" "n = vec_size v"
  shows "\<exists>r. foldM (\<lambda>i r. vec4_set_bit r i (f i)) [0..<n] v = Some r \<and>
    vec4_wf r \<and> vec_size r = n \<and> vec4_bits r = map f [0..<n]"
  using vec4.set_loop_all[OF assms(1), of n f] assms(2) by (auto simp: vec4_bits_def)

text \<open>A loop that writes \<open>n\<close> bits from \<open>off\<close> on.\<close>

lemma vec4_write_loop:
  assumes "vec4_wf v" "off + n \<le> vec_size v"
  shows "\<exists>r. foldM (\<lambda>i r. vec4_set_bit r (off + i) (f i)) [0..<n] v = Some r \<and> vec4_wf r \<and>
    vec_size r = vec_size v \<and> vec4_bits r = take off (vec4_bits v) @ map f [0..<n] @ drop (off + n) (vec4_bits v)"
proof -
  obtain r where r: "foldM (\<lambda>i r. vec4_set_bit r (off + i) (f i)) [0..<n] v = Some r" "vec4_wf r"
    "vec_size r = vec_size v"
    "\<forall>j<vec_size v. vec4_value r j = (if off \<le> j \<and> j < off + n then f (j - off) else vec4_value v j)"
    using vec4.set_loop_at[OF assms, of f] by blast
  have "vec4_bits r = take off (vec4_bits v) @ map f [0..<n] @ drop (off + n) (vec4_bits v)"
    using r(3,4) assms(2) by (intro nth_equalityI) (auto simp: vec4_bits_def nth_append)
  then show ?thesis using r by blast
qed

text \<open>The port a message goes to.\<close>

fun msg_port :: "net_msg \<Rightarrow> nat" where
  "msg_port (Recv_vec4 p v) = ptr_port p"
| "msg_port (Recv_vec4_pv p v base wid vwid) = ptr_port p"
| "msg_port (Recv_vec8 p v) = ptr_port p"
| "msg_port (Recv_vec8_pv p v base wid vwid) = ptr_port p"
| "msg_port (Recv_real p r) = ptr_port p"

text \<open>Messages that fit an input of a given width.\<close>

fun fits_input :: "nat \<Rightarrow> (nat \<Rightarrow> bool) \<Rightarrow> net_msg \<Rightarrow> bool" where
  "fits_input w ports (Recv_vec4 p v) \<longleftrightarrow> ports (ptr_port p) \<and> vec4_wf v \<and> vec_size v = w"
| "fits_input w ports (Recv_vec4_pv p v base wid vwid) \<longleftrightarrow>
     ports (ptr_port p) \<and> vec4_wf v \<and> vec_size v = wid \<and> 0 < wid \<and> base + wid \<le> vwid \<and> vwid = w"
| "fits_input w ports (Recv_vec8 p v) \<longleftrightarrow> ports (ptr_port p) \<and> v8_size v = w"
| "fits_input w ports (Recv_vec8_pv p v base wid vwid) \<longleftrightarrow>
     ports (ptr_port p) \<and> v8_size v = wid \<and> 0 < wid \<and> base + wid \<le> vwid \<and> vwid = w"
| "fits_input w ports (Recv_real p r) \<longleftrightarrow> False"

text \<open>A message with strengths is a message without; so a law of the two vector methods carries over
  to all messages.\<close>

lemma reduce4_sized: "\<exists>b. reduce4 v = Some b \<and> vec4_wf b \<and> vec_size b = v8_size v"
  using reduce4_bits[of v] length_vec4_bits by (metis length_map length_vec8_scalars)

lemma vec4_methods_law:
  assumes vec4: "\<And>p v. fits_input w ports (Recv_vec4 p v) \<Longrightarrow> P (ptr_net p) (recv4 p v s)"
    and vec4_pv: "\<And>p v base wid vwid. fits_input w ports (Recv_vec4_pv p v base wid vwid) \<Longrightarrow>
      P (ptr_net p) (recv4_pv p v base wid vwid s)"
    and "fits_input w ports m"
  shows "P (msg_target m) (vec4_methods recv4 recv4_pv m s)"
proof (cases m)
  case (Recv_vec8 p v)
  obtain b where "reduce4 v = Some b" "vec4_wf b" "vec_size b = v8_size v" using reduce4_sized by blast
  then show ?thesis using assms(3) vec4[of p b] Recv_vec8 by (simp add: fun_recv_vec8_def)
next
  case (Recv_vec8_pv p v base wid vwid)
  obtain b where "reduce4 v = Some b" "vec4_wf b" "vec_size b = v8_size v" using reduce4_sized by blast
  then show ?thesis using assms(3) vec4_pv[of p b base wid vwid] Recv_vec8_pv by (simp add: fun_recv_vec8_pv_def)
qed (use assms in simp_all)

section \<open>Proving that a functor is lazy\<close>

text \<open>The frame of every \<^verbatim>\<open>run_run\<close> that sends a vector.\<close>

definition functor_run :: "('d \<Rightarrow> vvp_vector4_t option) \<Rightarrow> 'd net_functor \<Rightarrow> 'd net_functor outcome" where
  "functor_run calc s =
     (case fnet s of
        None \<Rightarrow> None
      | Some ptr \<Rightarrow>
          (case calc (fdata s) of None \<Rightarrow> None | Some r \<Rightarrow> Some (s\<lparr>fnet := None\<rparr>, [Send_vec4 ptr r])))"

lemma request_run_law:
  "\<exists>s' acts. request_run p s = (s', acts) \<and> fdata s' = fdata s \<and>
     (acts = [] \<and> fnet s' = fnet s \<and> fnet s \<noteq> None \<or>
      acts = [Schedule_functor] \<and> fnet s = None \<and> fnet s' = Some (ptr_net p))"
  by (auto simp: request_run_def)

text \<open>The law of a message, for a functor whose result is a function of its data.\<close>

definition message_law :: "('d \<Rightarrow> bool) \<Rightarrow> ('d \<Rightarrow> 'r) \<Rightarrow> 'd net_functor \<Rightarrow> vvp_net_addr \<Rightarrow> 'd net_functor outcome \<Rightarrow> bool" where
  "message_law good f s n out \<longleftrightarrow> (\<exists>s' acts. out = Some (s', acts) \<and> good (fdata s') \<and>
     (acts = [] \<and> fnet s' = fnet s \<and> (fnet s = None \<longrightarrow> f (fdata s') = f (fdata s)) \<or>
      acts = [Schedule_functor] \<and> fnet s = None \<and> fnet s' = Some n))"

lemma message_law_same:
  "good d \<Longrightarrow> (fnet s = None \<Longrightarrow> f d = f (fdata s)) \<Longrightarrow> message_law good f s n (Some (s\<lparr>fdata := d\<rparr>, []))"
  by (auto simp: message_law_def)

lemma message_law_skip: "good (fdata s) \<Longrightarrow> message_law good f s n (Some (s, []))"
  by (auto simp: message_law_def)

lemma message_law_request:
  "good d \<Longrightarrow> message_law good f s (ptr_net p) (Some (request_run p (s\<lparr>fdata := d\<rparr>)))"
  using request_run_law[of p "s\<lparr>fdata := d\<rparr>"] by (auto simp: message_law_def)

lemma lazy_functorI:
  assumes msg: "\<And>m s. good (fdata s) \<Longrightarrow> fits m (fdata s) \<Longrightarrow> message_law good f s (msg_target m) (recv m s)"
    and run: "\<And>s n. good (fdata s) \<Longrightarrow> fnet s = Some n \<Longrightarrow>
      \<exists>s' acts. run s = Some (s', acts) \<and> sends n (f (fdata s)) acts \<and> good (fdata s') \<and> fnet s' = None \<and>
        f (fdata s') = f (fdata s)"
  shows "lazy_functor recv run fnet msg_target (\<lambda>s. f (fdata s)) sends (\<lambda>s. good (fdata s)) (\<lambda>m s. fits m (fdata s))"
  using msg run by unfold_locales (auto simp: message_law_def)

lemma functor_run_law:
  assumes "\<exists>r. calc (fdata s) = Some r \<and> vec4_wf r \<and> vec4_bits r = bs" "fnet s = Some n"
  shows "\<exists>s' acts. functor_run calc s = Some (s', acts) \<and> sends_bits n bs acts \<and> fdata s' = fdata s \<and> fnet s' = None"
  using assms by (auto simp: functor_run_def sends_bits_def)

text \<open>Writing a part into an input, as all the functors do it.\<close>

lemma set_part_input:
  assumes "vec4_wf v" "vec_size v = vwid" "vec_size bt = wid" "0 < wid" "base + wid \<le> vwid"
  obtains v' diff where "vec4_set_vec v base bt = Some (v', diff)" "vec4_wf v'" "vec_size v' = vwid"
    "\<not> diff \<longrightarrow> vec4_bits v' = vec4_bits v"
proof -
  obtain v' diff where v': "vec4_set_vec v base bt = Some (v', diff)" "vec4_wf v'"
    "vec4_bits v' = take base (vec4_bits v) @ vec4_bits bt @ drop (base + vec_size bt) (vec4_bits v)"
    "diff \<longleftrightarrow> vec4_bits v' \<noteq> vec4_bits v"
    using vec4_set_vec_bits[of v bt base] assms by auto
  moreover have "vec_size v' = vwid" using arg_cong[OF v'(3), of length] assms by simp
  ultimately show thesis using that by blast
qed

end
