(* ===== verification/Logic.thy ===== *)
theory Logic
  imports Functor
begin

text \<open>
  The logic gates (\<^verbatim>\<open>logic.h\<close>, \<^verbatim>\<open>logic.cc\<close>): and, or and xor with up to four inputs, buf, not, bufz, buft
  and the multiplexers. All but bufz and buft are lazy functors and interpret that locale.
\<close>

section \<open>Gates with four inputs\<close>

type_synonym vvp_fun_boolean = "vvp_vector4_t list net_functor"

definition boolean_new :: "nat \<Rightarrow> vvp_fun_boolean" where
  "boolean_new wid = \<lparr>fdata = map (\<lambda>_. vec4_new wid BIT4_Z) [0..<4], fnet = None\<rparr>"

definition boolean_recv_vec4 :: "vvp_net_ptr_t \<Rightarrow> vvp_vector4_t \<Rightarrow> vvp_fun_boolean \<Rightarrow> vvp_fun_boolean outcome" where
  "boolean_recv_vec4 p bt s =
     (if vec4_eeq (fdata s ! ptr_port p) bt then Some (s, [])
      else Some (request_run p (s\<lparr>fdata := (fdata s)[ptr_port p := bt]\<rparr>)))"

definition boolean_recv_vec4_pv ::
  "vvp_net_ptr_t \<Rightarrow> vvp_vector4_t \<Rightarrow> nat \<Rightarrow> nat \<Rightarrow> nat \<Rightarrow> vvp_fun_boolean \<Rightarrow> vvp_fun_boolean outcome" where
  "boolean_recv_vec4_pv p bt base wid vwid s =
     (if vec_size bt \<noteq> wid then None
      else if \<not> base + wid \<le> vwid then None
      else case vec4_set_vec (fdata s ! ptr_port p) base bt of
             None \<Rightarrow> None
           | Some (input, flag) \<Rightarrow>
               let s = s\<lparr>fdata := (fdata s)[ptr_port p := input]\<rparr>
               in if flag = False then Some (s, []) else Some (request_run p s))"

text \<open>The inner loop over the other ports, with its \<^verbatim>\<open>break\<close>.\<close>

fun gate_ports :: "(vvp_bit4_t \<Rightarrow> vvp_bit4_t \<Rightarrow> vvp_bit4_t) \<Rightarrow> vvp_vector4_t list \<Rightarrow> nat \<Rightarrow> vvp_bit4_t \<Rightarrow> nat list \<Rightarrow> vvp_bit4_t" where
  "gate_ports opr inputs idx bitbit [] = bitbit"
| "gate_ports opr inputs idx bitbit (pdx # ps) =
     (if vec_size (inputs ! pdx) < idx then BIT4_X
      else gate_ports opr inputs idx (opr bitbit (vec4_value (inputs ! pdx) idx)) ps)"

definition gate_loop ::
  "(vvp_bit4_t \<Rightarrow> vvp_bit4_t \<Rightarrow> vvp_bit4_t) \<Rightarrow> bool \<Rightarrow> vvp_vector4_t list \<Rightarrow> vvp_vector4_t \<Rightarrow> vvp_vector4_t option" where
  "gate_loop opr invert inputs result =
     foldM (\<lambda>idx result.
         let bitbit = gate_ports opr inputs idx (vec4_value result idx) [1..<4];
             bitbit = (if invert then bit4_not bitbit else bitbit)
         in vec4_set_bit result idx bitbit) [0..<vec_size result] result"

text \<open>What the gates compute from their inputs.\<close>

definition and_value :: "bool \<Rightarrow> vvp_vector4_t list \<Rightarrow> vvp_vector4_t option" where
  "and_value invert inputs =
     (let result = inputs ! 0
      in if vec_size result = vec_size (inputs ! 1)
         then let result = vec4_and_assign result (inputs ! 1)
              in Some (if invert then vec4_not result else result)
         else gate_loop bit4_and invert inputs result)"

definition or_value :: "bool \<Rightarrow> vvp_vector4_t list \<Rightarrow> vvp_vector4_t option" where
  "or_value invert inputs =
     (let result = inputs ! 0
      in if vec_size result = vec_size (inputs ! 1)
         then let result = vec4_or_assign result (inputs ! 1)
              in Some (if invert then vec4_not result else result)
         else gate_loop bit4_or invert inputs result)"

definition xor_value :: "bool \<Rightarrow> vvp_vector4_t list \<Rightarrow> vvp_vector4_t option" where
  "xor_value invert inputs = gate_loop bit4_xor invert inputs (inputs ! 0)"

definition and_run :: "bool \<Rightarrow> vvp_fun_boolean \<Rightarrow> vvp_fun_boolean outcome" where
  "and_run invert = functor_run (and_value invert)"

definition or_run :: "bool \<Rightarrow> vvp_fun_boolean \<Rightarrow> vvp_fun_boolean outcome" where
  "or_run invert = functor_run (or_value invert)"

definition xor_run :: "bool \<Rightarrow> vvp_fun_boolean \<Rightarrow> vvp_fun_boolean outcome" where
  "xor_run invert = functor_run (xor_value invert)"

section \<open>Buffers\<close>

type_synonym vvp_fun_buf = "vvp_vector4_t net_functor"

definition buf_new :: "nat \<Rightarrow> vvp_fun_buf" where
  "buf_new wid = \<lparr>fdata = vec4_new wid BIT4_Z, fnet = None\<rparr>"

definition buf_recv_vec4 :: "vvp_net_ptr_t \<Rightarrow> vvp_vector4_t \<Rightarrow> vvp_fun_buf \<Rightarrow> vvp_fun_buf outcome" where
  "buf_recv_vec4 p bt s =
     (if ptr_port p \<noteq> 0 then Some (s, [])
      else if vec4_eeq (fdata s) bt then Some (s, [])
      else Some (request_run p (s\<lparr>fdata := bt\<rparr>)))"

definition buf_recv_vec4_pv ::
  "vvp_net_ptr_t \<Rightarrow> vvp_vector4_t \<Rightarrow> nat \<Rightarrow> nat \<Rightarrow> nat \<Rightarrow> vvp_fun_buf \<Rightarrow> vvp_fun_buf outcome" where
  "buf_recv_vec4_pv p bt base wid vwid s =
     (if ptr_port p \<noteq> 0 then Some (s, [])
      else if vec_size bt \<noteq> wid then None
      else if \<not> base + wid \<le> vwid then None
      else case vec4_set_vec (fdata s) base bt of
             None \<Rightarrow> None
           | Some (input, flag) \<Rightarrow>
               let s = s\<lparr>fdata := input\<rparr>
               in if flag = False then Some (s, []) else Some (request_run p s))"

definition buf_run :: "vvp_fun_buf \<Rightarrow> vvp_fun_buf outcome" where
  "buf_run = functor_run (\<lambda>input. Some (vec4_change_z2x input))"

text \<open>The methods of \<^verbatim>\<open>vvp_fun_not\<close> that receive a value are those of \<^verbatim>\<open>vvp_fun_buf\<close>, statement by statement.\<close>

definition not_new :: "nat \<Rightarrow> vvp_fun_buf" where
  "not_new = buf_new"

definition not_recv_vec4 :: "vvp_net_ptr_t \<Rightarrow> vvp_vector4_t \<Rightarrow> vvp_fun_buf \<Rightarrow> vvp_fun_buf outcome" where
  "not_recv_vec4 = buf_recv_vec4"

definition not_recv_vec4_pv ::
  "vvp_net_ptr_t \<Rightarrow> vvp_vector4_t \<Rightarrow> nat \<Rightarrow> nat \<Rightarrow> nat \<Rightarrow> vvp_fun_buf \<Rightarrow> vvp_fun_buf outcome" where
  "not_recv_vec4_pv = buf_recv_vec4_pv"

definition not_run :: "vvp_fun_buf \<Rightarrow> vvp_fun_buf outcome" where
  "not_run = functor_run (\<lambda>input. Some (vec4_not input))"

text \<open>\<^verbatim>\<open>vvp_fun_bufz\<close> and \<^verbatim>\<open>vvp_fun_buft\<close> have no state and pass their input on at once.\<close>

definition bufz_recv_vec4 :: "vvp_net_ptr_t \<Rightarrow> vvp_vector4_t \<Rightarrow> net_action list" where
  "bufz_recv_vec4 p bt = (if ptr_port p \<noteq> 0 then [] else [Send_vec4 (ptr_net p) bt])"

definition bufz_recv_vec4_pv :: "vvp_net_ptr_t \<Rightarrow> vvp_vector4_t \<Rightarrow> nat \<Rightarrow> nat \<Rightarrow> nat \<Rightarrow> net_action list" where
  "bufz_recv_vec4_pv p bt base wid vwid =
     (if ptr_port p \<noteq> 0 then [] else [Send_vec4_pv (ptr_net p) bt base wid vwid])"

definition bufz_recv_real :: "vvp_net_ptr_t \<Rightarrow> real_bits \<Rightarrow> net_action list" where
  "bufz_recv_real p r = (if ptr_port p \<noteq> 0 then [] else [Send_real (ptr_net p) r])"

definition buft_recv_vec8 :: "vvp_net_ptr_t \<Rightarrow> vvp_vector8_t \<Rightarrow> net_action list" where
  "buft_recv_vec8 p bt = (if ptr_port p \<noteq> 0 then [] else [Send_vec8 (ptr_net p) bt])"

section \<open>Multiplexers\<close>

datatype sel_type = SEL_PORT0 | SEL_PORT1 | SEL_BOTH

record mux_data =
  mux_a :: vvp_vector4_t
  mux_b :: vvp_vector4_t
  mux_select :: sel_type
  mux_has_run :: bool

type_synonym vvp_fun_muxz = "mux_data net_functor"

definition muxz_new :: "nat \<Rightarrow> vvp_fun_muxz" where
  "muxz_new wid =
     \<lparr>fdata = \<lparr>mux_a = vec4_new wid BIT4_Z, mux_b = vec4_new wid BIT4_Z, mux_select = SEL_BOTH,
               mux_has_run = False\<rparr>,
      fnet = None\<rparr>"

definition muxz_recv_vec4 :: "vvp_net_ptr_t \<Rightarrow> vvp_vector4_t \<Rightarrow> vvp_fun_muxz \<Rightarrow> vvp_fun_muxz outcome" where
  "muxz_recv_vec4 p bt s =
     (let d = fdata s
      in if ptr_port p = 0 then
           if vec4_eeq (mux_a d) bt \<and> mux_has_run d then Some (s, [])
           else
             let s = s\<lparr>fdata := d\<lparr>mux_a := bt\<rparr>\<rparr>
             in if mux_select d = SEL_PORT1 then Some (s, []) else Some (request_run p s)
         else if ptr_port p = 1 then
           if vec4_eeq (mux_b d) bt \<and> mux_has_run d then Some (s, [])
           else
             let s = s\<lparr>fdata := d\<lparr>mux_b := bt\<rparr>\<rparr>
             in if mux_select d = SEL_PORT0 then Some (s, []) else Some (request_run p s)
         else if ptr_port p = 2 then
           if vec_size bt \<noteq> 1 then None
           else (case vec4_value bt 0 of
               BIT4_0 \<Rightarrow>
                 if mux_select d = SEL_PORT0 then Some (s, [])
                 else Some (request_run p (s\<lparr>fdata := d\<lparr>mux_select := SEL_PORT0\<rparr>\<rparr>))
             | BIT4_1 \<Rightarrow>
                 if mux_select d = SEL_PORT1 then Some (s, [])
                 else Some (request_run p (s\<lparr>fdata := d\<lparr>mux_select := SEL_PORT1\<rparr>\<rparr>))
             | _ \<Rightarrow>
                 if mux_select d = SEL_BOTH \<and> mux_has_run d then Some (s, [])
                 else Some (request_run p (s\<lparr>fdata := d\<lparr>mux_select := SEL_BOTH\<rparr>\<rparr>)))
         else Some (s, []))"

definition muxz_recv_vec4_pv ::
  "vvp_net_ptr_t \<Rightarrow> vvp_vector4_t \<Rightarrow> nat \<Rightarrow> nat \<Rightarrow> nat \<Rightarrow> vvp_fun_muxz \<Rightarrow> vvp_fun_muxz outcome" where
  "muxz_recv_vec4_pv p bt base wid vwid s =
     (let d = fdata s
      in if vec_size bt \<noteq> wid then None
         else if \<not> base + wid \<le> vwid then None
         else if ptr_port p = 0 then
           (case vec4_set_vec (mux_a d) base bt of
              None \<Rightarrow> None
            | Some (a, flag) \<Rightarrow>
                let s = s\<lparr>fdata := d\<lparr>mux_a := a\<rparr>\<rparr>
                in if flag = False \<and> mux_has_run d then Some (s, [])
                   else if mux_select d = SEL_PORT1 then Some (s, []) else Some (request_run p s))
         else if ptr_port p = 1 then
           (case vec4_set_vec (mux_b d) base bt of
              None \<Rightarrow> None
            | Some (b, flag) \<Rightarrow>
                let s = s\<lparr>fdata := d\<lparr>mux_b := b\<rparr>\<rparr>
                in if flag = False \<and> mux_has_run d then Some (s, [])
                   else if mux_select d = SEL_PORT0 then Some (s, []) else Some (request_run p s))
         else if ptr_port p = 2 then
           if \<not> (base = 0 \<and> wid = 1) then None else muxz_recv_vec4 p bt s
         else Some (s, []))"

definition muxz_blend :: "vvp_vector4_t \<Rightarrow> vvp_vector4_t \<Rightarrow> vvp_vector4_t option" where
  "muxz_blend a b =
     (let min_size = vec_size a;
          max_size = vec_size a;
          min_size = (if vec_size b < min_size then vec_size b else min_size);
          max_size = (if vec_size b > max_size then vec_size b else max_size)
      in case foldM (\<lambda>idx res.
             let v = vec4_value a idx
             in if v = vec4_value b idx \<and> v \<noteq> BIT4_Z then vec4_set_bit res idx (vec4_value a idx)
                else vec4_set_bit res idx BIT4_X) [0..<min_size] (vec4_new max_size BIT4_X) of
           None \<Rightarrow> None
         | Some res \<Rightarrow> foldM (\<lambda>idx res. vec4_set_bit res idx BIT4_X) [min_size..<max_size] res)"

definition muxz_value :: "mux_data \<Rightarrow> vvp_vector4_t option" where
  "muxz_value d =
     (case mux_select d of
        SEL_PORT0 \<Rightarrow> Some (mux_a d)
      | SEL_PORT1 \<Rightarrow> Some (mux_b d)
      | SEL_BOTH \<Rightarrow> muxz_blend (mux_a d) (mux_b d))"

definition muxz_run :: "vvp_fun_muxz \<Rightarrow> vvp_fun_muxz outcome" where
  "muxz_run s = functor_run muxz_value (s\<lparr>fdata := (fdata s)\<lparr>mux_has_run := True\<rparr>\<rparr>)"

text \<open>The multiplexer of reals; the select input is still a vector.\<close>

record muxr_data =
  muxr_a :: real_bits
  muxr_b :: real_bits
  muxr_select :: sel_type

type_synonym vvp_fun_muxr = "muxr_data net_functor"

definition muxr_new :: vvp_fun_muxr where
  "muxr_new = \<lparr>fdata = \<lparr>muxr_a = 0, muxr_b = 0, muxr_select = SEL_BOTH\<rparr>, fnet = None\<rparr>"

definition muxr_recv_vec4 :: "vvp_net_ptr_t \<Rightarrow> vvp_vector4_t \<Rightarrow> vvp_fun_muxr \<Rightarrow> vvp_fun_muxr outcome" where
  "muxr_recv_vec4 p bt s =
     (let d = fdata s
      in if ptr_port p \<noteq> 2 then Some (s, [])
         else if vec_size bt \<noteq> 1 then None
         else
           let c = (case vec4_value bt 0 of BIT4_0 \<Rightarrow> SEL_PORT0 | BIT4_1 \<Rightarrow> SEL_PORT1 | _ \<Rightarrow> SEL_BOTH)
           in if muxr_select d = c then Some (s, [])
              else Some (request_run p (s\<lparr>fdata := d\<lparr>muxr_select := c\<rparr>\<rparr>)))"

definition muxr_recv_real :: "vvp_net_ptr_t \<Rightarrow> real_bits \<Rightarrow> vvp_fun_muxr \<Rightarrow> vvp_fun_muxr outcome" where
  "muxr_recv_real p r s =
     (let d = fdata s
      in if ptr_port p = 0 then
           if double_eq (muxr_a d) r then Some (s, [])
           else
             let s = s\<lparr>fdata := d\<lparr>muxr_a := r\<rparr>\<rparr>
             in if muxr_select d = SEL_PORT1 then Some (s, []) else Some (request_run p s)
         else if ptr_port p = 1 then
           if double_eq (muxr_b d) r then Some (s, [])
           else
             let s = s\<lparr>fdata := d\<lparr>muxr_b := r\<rparr>\<rparr>
             in if muxr_select d = SEL_PORT0 then Some (s, []) else Some (request_run p s)
         else None)"

definition muxr_value :: "muxr_data \<Rightarrow> real_bits" where
  "muxr_value d =
     (case muxr_select d of
        SEL_PORT0 \<Rightarrow> muxr_a d
      | SEL_PORT1 \<Rightarrow> muxr_b d
      | SEL_BOTH \<Rightarrow> if double_eq (muxr_a d) (muxr_b d) then muxr_a d else 0)"

definition muxr_run :: "vvp_fun_muxr \<Rightarrow> vvp_fun_muxr outcome" where
  "muxr_run s =
     (case fnet s of
        None \<Rightarrow> None | Some ptr \<Rightarrow> Some (s\<lparr>fnet := None\<rparr>, [Send_real ptr (muxr_value (fdata s))]))"

fun muxr_methods :: "net_msg \<Rightarrow> vvp_fun_muxr \<Rightarrow> vvp_fun_muxr outcome" where
  "muxr_methods (Recv_vec4 p v) s = muxr_recv_vec4 p v s"
| "muxr_methods (Recv_vec8 p v) s = fun_recv_vec8 muxr_recv_vec4 p v s"
| "muxr_methods (Recv_real p r) s = muxr_recv_real p r s"
| "muxr_methods m s = None"

section \<open>Drivers\<close>

text \<open>\<^verbatim>\<open>vvp_fun_drive\<close> of \<^verbatim>\<open>vvp_net.cc\<close> gives the bits it passes on a strength. The memory that a short
  vector leaves unwritten is an argument, as in \<open>Vector8\<close>.\<close>

record vvp_fun_drive =
  drive0 :: nat
  drive1 :: nat

definition drive_new :: "nat \<Rightarrow> nat \<Rightarrow> vvp_fun_drive option" where
  "drive_new str0 str1 = (if \<not> str0 < 8 then None else if \<not> str1 < 8 then None else Some \<lparr>drive0 = str0, drive1 = str1\<rparr>)"

definition drive_recv_vec4 ::
  "8 word list \<Rightarrow> vvp_net_ptr_t \<Rightarrow> vvp_vector4_t \<Rightarrow> vvp_fun_drive \<Rightarrow> vvp_fun_drive outcome" where
  "drive_recv_vec4 junk port bt d =
     (if ptr_port port \<noteq> 0 then None
      else case vec8_from_vec4 junk bt (drive0 d) (drive1 d) of
             None \<Rightarrow> None | Some v \<Rightarrow> Some (d, [Send_vec8 (ptr_net port) v]))"

definition drive_recv_vec4_pv ::
  "8 word list \<Rightarrow> vvp_net_ptr_t \<Rightarrow> vvp_vector4_t \<Rightarrow> nat \<Rightarrow> nat \<Rightarrow> nat \<Rightarrow> vvp_fun_drive \<Rightarrow> vvp_fun_drive outcome" where
  "drive_recv_vec4_pv junk ptr bt base wid vwid d = fun_recv_vec4_pv (drive_recv_vec4 junk) ptr bt base wid vwid d"

section \<open>What the gates compute\<close>

definition inputs_ok :: "nat \<Rightarrow> vvp_vector4_t list \<Rightarrow> bool" where
  "inputs_ok w ins \<longleftrightarrow> length ins = 4 \<and> (\<forall>v\<in>set ins. vec4_wf v \<and> vec_size v = w)"

definition inverted :: "bool \<Rightarrow> vvp_bit4_t \<Rightarrow> vvp_bit4_t" where
  "inverted neg b = (if neg then bit4_not b else b)"

text \<open>Gates of two and of four inputs, on lists of bits.\<close>

definition gate2 :: "(vvp_bit4_t \<Rightarrow> vvp_bit4_t \<Rightarrow> vvp_bit4_t) \<Rightarrow> bool \<Rightarrow> vvp_bit4_t list list \<Rightarrow> vvp_bit4_t list" where
  "gate2 opr neg bs = map (inverted neg) (map2 opr (bs ! 0) (bs ! 1))"

definition gate4_bits :: "(vvp_bit4_t \<Rightarrow> vvp_bit4_t \<Rightarrow> vvp_bit4_t) \<Rightarrow> bool \<Rightarrow> vvp_bit4_t list list \<Rightarrow> vvp_bit4_t list" where
  "gate4_bits opr neg bs =
     map (inverted neg) (map2 opr (map2 opr (map2 opr (bs ! 0) (bs ! 1)) (bs ! 2)) (bs ! 3))"

lemma inputs_ok_nth: "inputs_ok w ins \<Longrightarrow> k < 4 \<Longrightarrow> vec4_wf (ins ! k) \<and> vec_size (ins ! k) = w"
  by (simp add: inputs_ok_def)

lemma inputs_ok_update: "inputs_ok w ins \<Longrightarrow> vec4_wf v \<Longrightarrow> vec_size v = w \<Longrightarrow> inputs_ok w (ins[k := v])"
  using set_update_subset_insert[of ins k v] by (auto simp: inputs_ok_def)

lemma vec4_bits_eqI:
  "vec_size r = length bs \<Longrightarrow> (\<And>i. i < length bs \<Longrightarrow> vec4_value r i = bs ! i) \<Longrightarrow> vec4_bits r = bs"
  by (rule nth_equalityI) (simp_all add: vec4_bits_def)

lemma nth_map_bits: "k < length ins \<Longrightarrow> i < vec_size (ins ! k) \<Longrightarrow> map vec4_bits ins ! k ! i = vec4_value (ins ! k) i"
  by (simp add: vec4_bits_def)

lemma and_value_bits:
  assumes "inputs_ok w ins"
  shows "\<exists>r. and_value neg ins = Some r \<and> vec4_wf r \<and> vec4_bits r = gate2 bit4_and neg (map vec4_bits ins)"
proof -
  note in0 = inputs_ok_nth[OF assms, of 0, simplified] and in1 = inputs_ok_nth[OF assms, of 1, simplified]
  define r where "r = (let r = vec4_and_assign (ins ! 0) (ins ! 1) in if neg then vec4_not r else r)"
  have "and_value neg ins = Some r" using in0 in1 by (simp add: and_value_def r_def Let_def)
  moreover have "vec4_wf r" "vec_size r = w" using in0 by (simp_all add: r_def Let_def vsize)
  moreover have "vec4_bits r = gate2 bit4_and neg (map vec4_bits ins)"
  proof (rule vec4_bits_eqI)
    have len: "length ins = 4" using assms by (simp add: inputs_ok_def)
    then show size: "vec_size r = length (gate2 bit4_and neg (map vec4_bits ins))"
      using \<open>vec_size r = w\<close> in0 in1 by (simp add: gate2_def)
    show "vec4_value r i = gate2 bit4_and neg (map vec4_bits ins) ! i"
      if "i < length (gate2 bit4_and neg (map vec4_bits ins))" for i
      using that len in0 in1 size
      by (simp add: r_def Let_def gate2_def nth_map_bits inverted_def bitlevel)
  qed
  ultimately show ?thesis by blast
qed

lemma or_value_bits:
  assumes "inputs_ok w ins"
  shows "\<exists>r. or_value neg ins = Some r \<and> vec4_wf r \<and> vec4_bits r = gate2 bit4_or neg (map vec4_bits ins)"
proof -
  note in0 = inputs_ok_nth[OF assms, of 0, simplified] and in1 = inputs_ok_nth[OF assms, of 1, simplified]
  define r where "r = (let r = vec4_or_assign (ins ! 0) (ins ! 1) in if neg then vec4_not r else r)"
  have "or_value neg ins = Some r" using in0 in1 by (simp add: or_value_def r_def Let_def)
  moreover have "vec4_wf r" "vec_size r = w" using in0 by (simp_all add: r_def Let_def vsize)
  moreover have "vec4_bits r = gate2 bit4_or neg (map vec4_bits ins)"
  proof (rule vec4_bits_eqI)
    have len: "length ins = 4" using assms by (simp add: inputs_ok_def)
    then show size: "vec_size r = length (gate2 bit4_or neg (map vec4_bits ins))"
      using \<open>vec_size r = w\<close> in0 in1 by (simp add: gate2_def)
    show "vec4_value r i = gate2 bit4_or neg (map vec4_bits ins) ! i"
      if "i < length (gate2 bit4_or neg (map vec4_bits ins))" for i
      using that len in0 in1 size
      by (simp add: r_def Let_def gate2_def nth_map_bits inverted_def bitlevel)
  qed
  ultimately show ?thesis by blast
qed

lemma gate_ports_four:
  assumes "inputs_ok w ins" "i < w"
  shows "gate_ports opr ins i b [1..<4] =
    opr (opr (opr b (vec4_value (ins ! 1) i)) (vec4_value (ins ! 2) i)) (vec4_value (ins ! 3) i)"
proof -
  have "[1..<4] = [1, 2, 3 :: nat]" by (simp add: upt_rec)
  then show ?thesis using inputs_ok_nth[OF assms(1)] assms(2) by simp
qed

lemma xor_value_bits:
  assumes "inputs_ok w ins"
  shows "\<exists>r. xor_value neg ins = Some r \<and> vec4_wf r \<and> vec4_bits r = gate4_bits bit4_xor neg (map vec4_bits ins)"
proof -
  let ?g = "\<lambda>i b. inverted neg (gate_ports bit4_xor ins i b [1..<4])"
  note in0 = inputs_ok_nth[OF assms]
  obtain r where r: "xor_value neg ins = Some r" "vec4_wf r" "vec_size r = w"
    "vec4_bits r = map (\<lambda>i. ?g i (vec4_value (ins ! 0) i)) [0..<w]"
    using vec4_map_loop[of "ins ! 0" ?g] in0[of 0]
    by (auto simp: xor_value_def gate_loop_def Let_def inverted_def)
  have "length ins = 4" using assms by (simp add: inputs_ok_def)
  then have "vec4_bits r = gate4_bits bit4_xor neg (map vec4_bits ins)"
    unfolding r(4) using in0
    by (auto simp: gate4_bits_def list_eq_iff_nth_eq gate_ports_four[OF assms, unfolded One_nat_def] nth_map_bits)
  then show ?thesis using r by blast
qed

section \<open>The gates as lazy functors\<close>

lemma boolean_message:
  assumes "inputs_ok w (fdata s)" "fits_input w (\<lambda>k. k < 4) m"
  shows "message_law (inputs_ok w) (\<lambda>ins. f (map vec4_bits ins)) s (msg_target m)
    (vec4_methods boolean_recv_vec4 boolean_recv_vec4_pv m s)"
proof (rule vec4_methods_law[OF _ _ assms(2)], goal_cases)
  case (1 p v)
  then show ?case
    using assms(1) inputs_ok_update
    by (auto simp: boolean_recv_vec4_def intro!: message_law_request message_law_skip)
next
  case (2 p v base wid vwid)
  then have p: "vec4_wf (fdata s ! ptr_port p)" "vec_size (fdata s ! ptr_port p) = vwid"
    using inputs_ok_nth[OF assms(1), of "ptr_port p"] by simp_all
  obtain u diff where u: "vec4_set_vec (fdata s ! ptr_port p) base v = Some (u, diff)" "vec4_wf u" "vec_size u = vwid"
    "\<not> diff \<longrightarrow> vec4_bits u = vec4_bits (fdata s ! ptr_port p)"
    using set_part_input[OF p, of v wid base] 2 by auto
  have good: "inputs_ok w ((fdata s)[ptr_port p := u])" using inputs_ok_update assms(1) u 2 by simp
  have same: "\<not> diff \<Longrightarrow> map vec4_bits ((fdata s)[ptr_port p := u]) = map vec4_bits (fdata s)"
    using u(4) by (simp add: map_update list_update_same_conv assms(1)[unfolded inputs_ok_def] 2[simplified])
  let ?out = "boolean_recv_vec4_pv p v base wid vwid s" and ?s = "s\<lparr>fdata := (fdata s)[ptr_port p := u]\<rparr>"
  have "?out = Some (if diff then request_run p ?s else (?s, []))"
    using 2 u(1) by (simp add: boolean_recv_vec4_pv_def Let_def)
  moreover have "message_law (inputs_ok w) (\<lambda>ins. f (map vec4_bits ins)) s (ptr_net p) (Some (request_run p ?s))"
    by (rule message_law_request) (rule good)
  moreover have "message_law (inputs_ok w) (\<lambda>ins. f (map vec4_bits ins)) s (ptr_net p) (Some (?s, []))" if "\<not> diff"
    by (rule message_law_same) (simp_all add: good same that)
  ultimately show ?case by (cases diff) simp_all
qed

lemma lazy_boolean:
  assumes "\<And>ins. inputs_ok w ins \<Longrightarrow> \<exists>r. calc ins = Some r \<and> vec4_wf r \<and> vec4_bits r = f (map vec4_bits ins)"
  shows "lazy_functor (vec4_methods boolean_recv_vec4 boolean_recv_vec4_pv) (functor_run calc) fnet msg_target
    (\<lambda>s. f (map vec4_bits (fdata s))) sends_bits (\<lambda>s. inputs_ok w (fdata s)) (\<lambda>m s. fits_input w (\<lambda>k. k < 4) m)"
proof (rule lazy_functorI, goal_cases)
  case (1 m s)
  then show ?case using boolean_message by blast
next
  case (2 s n)
  obtain s' acts where "functor_run calc s = Some (s', acts)" "sends_bits n (f (map vec4_bits (fdata s))) acts"
    "fdata s' = fdata s" "fnet s' = None"
    using functor_run_law[where calc = calc and s = s and n = n, OF assms[OF 2(1)] 2(2)] by auto
  then show ?case using 2 by simp
qed

interpretation and_gate: lazy_functor "vec4_methods boolean_recv_vec4 boolean_recv_vec4_pv" "and_run neg" fnet msg_target
  "\<lambda>s. gate2 bit4_and neg (map vec4_bits (fdata s))" sends_bits "\<lambda>s. inputs_ok w (fdata s)" "\<lambda>m s. fits_input w (\<lambda>k. k < 4) m"
  for neg w
  unfolding and_run_def by (rule lazy_boolean) (rule and_value_bits)

interpretation or_gate: lazy_functor "vec4_methods boolean_recv_vec4 boolean_recv_vec4_pv" "or_run neg" fnet msg_target
  "\<lambda>s. gate2 bit4_or neg (map vec4_bits (fdata s))" sends_bits "\<lambda>s. inputs_ok w (fdata s)" "\<lambda>m s. fits_input w (\<lambda>k. k < 4) m"
  for neg w
  unfolding or_run_def by (rule lazy_boolean) (rule or_value_bits)

interpretation xor_gate: lazy_functor "vec4_methods boolean_recv_vec4 boolean_recv_vec4_pv" "xor_run neg" fnet msg_target
  "\<lambda>s. gate4_bits bit4_xor neg (map vec4_bits (fdata s))" sends_bits "\<lambda>s. inputs_ok w (fdata s)" "\<lambda>m s. fits_input w (\<lambda>k. k < 4) m"
  for neg w
  unfolding xor_run_def by (rule lazy_boolean) (rule xor_value_bits)

text \<open>Buffers and inverters.\<close>

lemma buf_message:
  assumes "vec4_wf (fdata s) \<and> vec_size (fdata s) = w" "fits_input w (\<lambda>k. True) m"
  shows "message_law (\<lambda>v. vec4_wf v \<and> vec_size v = w) (\<lambda>v. f (vec4_bits v)) s (msg_target m)
    (vec4_methods buf_recv_vec4 buf_recv_vec4_pv m s)"
proof (rule vec4_methods_law[OF _ _ assms(2)], goal_cases)
  case (1 p v)
  then show ?case
    using assms(1) by (auto simp: buf_recv_vec4_def intro!: message_law_request message_law_skip)
next
  case (2 p v base wid vwid)
  let ?good = "\<lambda>v. vec4_wf v \<and> vec_size v = w" and ?f = "\<lambda>v. f (vec4_bits v)"
  obtain u diff where u: "vec4_set_vec (fdata s) base v = Some (u, diff)" "vec4_wf u" "vec_size u = vwid"
    "\<not> diff \<longrightarrow> vec4_bits u = vec4_bits (fdata s)"
    using set_part_input[of "fdata s" vwid v wid base] assms(1) 2 by auto
  let ?s = "s\<lparr>fdata := u\<rparr>"
  have "buf_recv_vec4_pv p v base wid vwid s =
      Some (if ptr_port p \<noteq> 0 then (s, []) else if diff then request_run p ?s else (?s, []))"
    using 2 u(1) by (simp add: buf_recv_vec4_pv_def Let_def)
  moreover have "message_law ?good ?f s (ptr_net p) (Some (s, []))"
    by (rule message_law_skip) (rule assms(1))
  moreover have "message_law ?good ?f s (ptr_net p) (Some (request_run p ?s))"
    by (rule message_law_request) (use u 2 in simp)
  moreover have "message_law ?good ?f s (ptr_net p) (Some (?s, []))" if "\<not> diff"
    by (rule message_law_same) (use u 2 that in simp_all)
  ultimately show ?case by (cases diff) simp_all
qed

lemma lazy_buf:
  assumes "\<And>v. vec4_wf v \<Longrightarrow> \<exists>r. calc v = Some r \<and> vec4_wf r \<and> vec4_bits r = f (vec4_bits v)"
  shows "lazy_functor (vec4_methods buf_recv_vec4 buf_recv_vec4_pv) (functor_run calc) fnet msg_target
    (\<lambda>s. f (vec4_bits (fdata s))) sends_bits (\<lambda>s. vec4_wf (fdata s) \<and> vec_size (fdata s) = w)
    (\<lambda>m s. fits_input w (\<lambda>k. True) m)"
proof (rule lazy_functorI, goal_cases)
  case (1 m s)
  then show ?case using buf_message by blast
next
  case (2 s n)
  obtain s' acts where "functor_run calc s = Some (s', acts)" "sends_bits n (f (vec4_bits (fdata s))) acts"
    "fdata s' = fdata s" "fnet s' = None"
    using functor_run_law[where calc = calc and s = s and n = n, OF assms[of "fdata s"] 2(2)] 2(1) by auto
  then show ?case using 2 by simp
qed

interpretation buf_gate: lazy_functor "vec4_methods buf_recv_vec4 buf_recv_vec4_pv" buf_run fnet msg_target
  "\<lambda>s. map bit4_z2x (vec4_bits (fdata s))" sends_bits "\<lambda>s. vec4_wf (fdata s) \<and> vec_size (fdata s) = w"
  "\<lambda>m s. fits_input w (\<lambda>k. True) m" for w
  unfolding buf_run_def
  by (rule lazy_buf) (auto simp: vsize bitlevel vec4_bits_def)

interpretation not_gate: lazy_functor "vec4_methods not_recv_vec4 not_recv_vec4_pv" not_run fnet msg_target
  "\<lambda>s. map bit4_not (vec4_bits (fdata s))" sends_bits "\<lambda>s. vec4_wf (fdata s) \<and> vec_size (fdata s) = w"
  "\<lambda>m s. fits_input w (\<lambda>k. True) m" for w
  unfolding not_run_def not_recv_vec4_def not_recv_vec4_pv_def
  by (rule lazy_buf) (auto simp: vsize bitlevel vec4_bits_def)

text \<open>The multiplexer: with an unknown select the result is X wherever the data differ or are Z.\<close>

definition blend_bit :: "vvp_bit4_t \<Rightarrow> vvp_bit4_t \<Rightarrow> vvp_bit4_t" where
  "blend_bit x y = (if x = y \<and> x \<noteq> BIT4_Z then x else BIT4_X)"

definition mux_bits :: "mux_data \<Rightarrow> vvp_bit4_t list" where
  "mux_bits d =
     (case mux_select d of
        SEL_PORT0 \<Rightarrow> vec4_bits (mux_a d)
      | SEL_PORT1 \<Rightarrow> vec4_bits (mux_b d)
      | SEL_BOTH \<Rightarrow> map2 blend_bit (vec4_bits (mux_a d)) (vec4_bits (mux_b d)))"

definition mux_ok :: "nat \<Rightarrow> mux_data \<Rightarrow> bool" where
  "mux_ok w d \<longleftrightarrow> vec4_wf (mux_a d) \<and> vec4_wf (mux_b d) \<and> vec_size (mux_a d) = w \<and> vec_size (mux_b d) = w"

text \<open>The select input is one bit wide, the data inputs have one width.\<close>

definition mux_fits :: "nat \<Rightarrow> net_msg \<Rightarrow> bool" where
  "mux_fits w m \<longleftrightarrow> fits_input (if msg_port m = 2 then 1 else w) (\<lambda>k. k = msg_port m) m"

lemma muxz_blend_bits:
  "\<exists>r. muxz_blend a b = Some r \<and> vec4_wf r \<and>
     vec4_bits r = map (\<lambda>i. blend_bit (vec4_value a i) (vec4_value b i)) [0..<max (vec_size a) (vec_size b)]"
proof -
  define lo hi where "lo = min (vec_size a) (vec_size b)" and "hi = max (vec_size a) (vec_size b)"
  let ?f = "\<lambda>i. blend_bit (vec4_value a i) (vec4_value b i)"
  obtain r where r: "foldM (\<lambda>i r. vec4_set_bit r i (?f i)) [0..<hi] (vec4_new hi BIT4_X) = Some r" "vec4_wf r"
    "vec4_bits r = map ?f [0..<hi]"
    using vec4_fill_loop[of "vec4_new hi BIT4_X" hi ?f] by (auto simp: vsize)
  have out: "?f i = BIT4_X" if "lo \<le> i" for i
    using that by (cases "vec_size a \<le> i") (auto simp: lo_def blend_bit_def)
  have "lo \<le> hi" by (simp add: lo_def hi_def)
  then have split: "[0..<hi] = [0..<lo] @ [lo..<hi]" using upt_add_eq_append[of 0 lo "hi - lo"] by simp
  have step: "(if vec4_value a i = vec4_value b i \<and> vec4_value a i \<noteq> BIT4_Z then vec4_set_bit r i (vec4_value a i)
          else vec4_set_bit r i BIT4_X) = vec4_set_bit r i (?f i)" for i r
    by (auto simp: blend_bit_def)
  have rest: "foldM (\<lambda>i r. vec4_set_bit r i BIT4_X) [lo..<hi] u = foldM (\<lambda>i r. vec4_set_bit r i (?f i)) [lo..<hi] u" for u
    by (rule foldM_cong) (simp add: out)
  have sizes: "(if vec_size b < vec_size a then vec_size b else vec_size a) = lo"
    "(if vec_size a < vec_size b then vec_size b else vec_size a) = hi"
    by (simp_all add: lo_def hi_def)
  have "muxz_blend a b = foldM (\<lambda>i r. vec4_set_bit r i (?f i)) [0..<hi] (vec4_new hi BIT4_X)"
    unfolding muxz_blend_def Let_def sizes step rest split foldM_append by (rule refl)
  then show ?thesis using r hi_def by simp
qed

lemma muxz_value_bits:
  assumes "mux_ok w d"
  shows "\<exists>r. muxz_value d = Some r \<and> vec4_wf r \<and> vec4_bits r = mux_bits d"
proof -
  have "map (\<lambda>i. blend_bit (vec4_value (mux_a d) i) (vec4_value (mux_b d) i)) [0..<w] =
      map2 blend_bit (vec4_bits (mux_a d)) (vec4_bits (mux_b d))"
    using assms by (auto simp: list_eq_iff_nth_eq mux_ok_def vec4_bits_def)
  then show ?thesis
    using assms muxz_blend_bits[of "mux_a d" "mux_b d"]
    by (auto simp: muxz_value_def mux_bits_def mux_ok_def split: sel_type.splits)
qed

text \<open>Storing a data input: the result depends on it unless the other one is selected.\<close>

lemma mux_store:
  assumes "mux_ok w (fdata s)" "vec4_wf v" "vec_size v = w"
  shows "message_law (mux_ok w) mux_bits s (ptr_net p)
      (Some (if mux_select (fdata s) = SEL_PORT1 then (s\<lparr>fdata := (fdata s)\<lparr>mux_a := v\<rparr>\<rparr>, [])
             else request_run p (s\<lparr>fdata := (fdata s)\<lparr>mux_a := v\<rparr>\<rparr>)))"
    and "message_law (mux_ok w) mux_bits s (ptr_net p)
      (Some (if mux_select (fdata s) = SEL_PORT0 then (s\<lparr>fdata := (fdata s)\<lparr>mux_b := v\<rparr>\<rparr>, [])
             else request_run p (s\<lparr>fdata := (fdata s)\<lparr>mux_b := v\<rparr>\<rparr>)))"
  using assms by (auto simp: mux_ok_def mux_bits_def intro!: message_law_same message_law_request)

lemma mux_store_same:
  assumes "mux_ok w (fdata s)" "vec4_wf v" "vec_size v = w"
  shows "vec4_bits v = vec4_bits (mux_a (fdata s)) \<Longrightarrow>
      message_law (mux_ok w) mux_bits s n (Some (s\<lparr>fdata := (fdata s)\<lparr>mux_a := v\<rparr>\<rparr>, []))"
    and "vec4_bits v = vec4_bits (mux_b (fdata s)) \<Longrightarrow>
      message_law (mux_ok w) mux_bits s n (Some (s\<lparr>fdata := (fdata s)\<lparr>mux_b := v\<rparr>\<rparr>, []))"
  using assms by (auto simp: mux_ok_def mux_bits_def split: sel_type.splits intro!: message_law_same)

lemma mux_selects:
  assumes "mux_ok w (fdata s)"
  shows "message_law (mux_ok w) mux_bits s (ptr_net p) (Some (request_run p (s\<lparr>fdata := (fdata s)\<lparr>mux_select := c\<rparr>\<rparr>)))"
  using assms by (auto simp: mux_ok_def intro!: message_law_request)

lemma mux_message4:
  assumes "mux_ok w (fdata s)" "fits_input (if ptr_port p = 2 then 1 else w) ports (Recv_vec4 p v)"
  shows "message_law (mux_ok w) mux_bits s (ptr_net p) (muxz_recv_vec4 p v s)"
proof -
  note skip = message_law_skip[where good = "mux_ok w" and f = mux_bits and s = s and n = "ptr_net p", OF assms(1)]
  consider (a) "ptr_port p = 0" | (b) "ptr_port p = 1" | (sel) "ptr_port p = 2" | (other) "2 < ptr_port p" by linarith
  then show ?thesis
  proof cases
    case a
    then show ?thesis
      using skip mux_store(1)[OF assms(1), of v p] assms(2) by (auto simp: muxz_recv_vec4_def Let_def)
  next
    case b
    then show ?thesis
      using skip mux_store(2)[OF assms(1), of v p] assms(2) by (auto simp: muxz_recv_vec4_def Let_def)
  next
    case sel
    then show ?thesis
      using skip mux_selects[OF assms(1), of p] assms(2)
      by (auto simp: muxz_recv_vec4_def Let_def split: vvp_bit4_t.splits)
  next
    case other
    then show ?thesis using skip by (simp add: muxz_recv_vec4_def Let_def)
  qed
qed

lemma mux_message4_pv:
  assumes "mux_ok w (fdata s)" "fits_input (if ptr_port p = 2 then 1 else w) ports (Recv_vec4_pv p v base wid vwid)"
  shows "message_law (mux_ok w) mux_bits s (ptr_net p) (muxz_recv_vec4_pv p v base wid vwid s)"
proof -
  note skip = message_law_skip[where good = "mux_ok w" and f = mux_bits and s = s and n = "ptr_net p", OF assms(1)]
  let ?d = "fdata s"
  consider (data) "ptr_port p < 2" | (sel) "ptr_port p = 2" | (other) "2 < ptr_port p" by linarith
  then show ?thesis
  proof cases
    case data
    let ?x = "if ptr_port p = 0 then mux_a ?d else mux_b ?d"
    have x: "vec4_wf ?x" "vec_size ?x = vwid" and part: "vec_size v = wid" "0 < wid" "base + wid \<le> vwid" "vwid = w"
      using assms data by (simp_all add: mux_ok_def)
    obtain u diff where "vec4_set_vec ?x base v = Some (u, diff)" "vec4_wf u" "vec_size u = vwid"
      "\<not> diff \<longrightarrow> vec4_bits u = vec4_bits ?x"
      by (rule set_part_input[OF x part(1-3)])
    note u = this[unfolded part(4)]
    show ?thesis
    proof (cases "ptr_port p = 0")
      case True
      then show ?thesis
        using u mux_store(1)[OF assms(1), of u p] mux_store_same(1)[OF assms(1), of u] assms(2)
        by (cases diff) (auto simp: muxz_recv_vec4_pv_def Let_def)
    next
      case False
      then show ?thesis
        using u data mux_store(2)[OF assms(1), of u p] mux_store_same(2)[OF assms(1), of u] assms(2)
        by (cases diff) (auto simp: muxz_recv_vec4_pv_def Let_def)
    qed
  next
    case sel
    then have "muxz_recv_vec4_pv p v base wid vwid s = muxz_recv_vec4 p v s"
      using assms(2) by (auto simp: muxz_recv_vec4_pv_def Let_def)
    then show ?thesis using mux_message4[OF assms(1), of p ports v] assms(2) sel by auto
  next
    case other
    then show ?thesis using skip assms(2) by (simp add: muxz_recv_vec4_pv_def Let_def)
  qed
qed

lemma mux_message:
  assumes "mux_ok w (fdata s)" "mux_fits w m"
  shows "message_law (mux_ok w) mux_bits s (msg_target m) (vec4_methods muxz_recv_vec4 muxz_recv_vec4_pv m s)"
proof (rule vec4_methods_law[OF _ _ assms(2)[unfolded mux_fits_def]], goal_cases)
  case (1 p v)
  show ?case by (rule mux_message4[OF assms(1), where ports = "\<lambda>k. True"]) (use 1 in auto)
next
  case (2 p v base wid vwid)
  show ?case by (rule mux_message4_pv[OF assms(1), where ports = "\<lambda>k. True"]) (use 2 in auto)
qed

interpretation mux_gate: lazy_functor "vec4_methods muxz_recv_vec4 muxz_recv_vec4_pv" muxz_run fnet msg_target
  "\<lambda>s. mux_bits (fdata s)" sends_bits "\<lambda>s. mux_ok w (fdata s)" "\<lambda>m s. mux_fits w m" for w
proof (rule lazy_functorI, goal_cases)
  case (1 m s)
  then show ?case using mux_message by blast
next
  case (2 s n)
  let ?s = "s\<lparr>fdata := (fdata s)\<lparr>mux_has_run := True\<rparr>\<rparr>"
  have ok: "mux_ok w (fdata ?s)" "mux_bits (fdata ?s) = mux_bits (fdata s)" "fnet ?s = Some n"
    using 2 by (simp_all add: mux_ok_def mux_bits_def cong: sel_type.case_cong)
  obtain s' acts where "muxz_run s = Some (s', acts)" "sends_bits n (mux_bits (fdata ?s)) acts"
    "fdata s' = fdata ?s" "fnet s' = None"
    using functor_run_law[where calc = muxz_value and s = ?s and n = n, OF muxz_value_bits[OF ok(1)] ok(3)]
    by (auto simp: muxz_run_def)
  then show ?case using ok by simp
qed

text \<open>The multiplexer of reals.\<close>

definition sends_real :: "vvp_net_addr \<Rightarrow> real_bits \<Rightarrow> net_action list \<Rightarrow> bool" where
  "sends_real n r acts \<longleftrightarrow> acts = [Send_real n r]"

fun muxr_fits :: "net_msg \<Rightarrow> bool" where
  "muxr_fits (Recv_vec4 p v) \<longleftrightarrow> ptr_port p = 2 \<longrightarrow> vec_size v = 1"
| "muxr_fits (Recv_vec8 p v) \<longleftrightarrow> ptr_port p = 2 \<longrightarrow> v8_size v = 1"
| "muxr_fits (Recv_real p r) \<longleftrightarrow> ptr_port p < 2"
| "muxr_fits m \<longleftrightarrow> False"

lemma muxr_message4:
  assumes "ptr_port p = 2 \<longrightarrow> vec_size v = 1"
  shows "message_law (\<lambda>d. True) muxr_value s (ptr_net p) (muxr_recv_vec4 p v s)"
  using assms message_law_request[of "\<lambda>d. True" _ muxr_value s p] message_law_skip[of "\<lambda>d. True" s muxr_value]
  by (simp add: muxr_recv_vec4_def Let_def)

lemma muxr_message:
  assumes "muxr_fits m"
  shows "message_law (\<lambda>d. True) muxr_value s (msg_target m) (muxr_methods m s)"
proof (cases m)
  case (Recv_vec4 p v)
  then show ?thesis using assms muxr_message4[of p v s] by simp
next
  case (Recv_vec8 p v)
  obtain b where "reduce4 v = Some b" "vec_size b = v8_size v" using reduce4_sized by blast
  then show ?thesis using assms muxr_message4[of p b s] Recv_vec8 by (simp add: fun_recv_vec8_def)
next
  case (Recv_real p r)
  have "message_law (\<lambda>d. True) muxr_value s (ptr_net p) (Some (s, []))"
    "message_law (\<lambda>d. True) muxr_value s (ptr_net p) (Some (request_run p (s\<lparr>fdata := d\<rparr>)))" for d
    by (simp_all add: message_law_skip message_law_request)
  moreover have "message_law (\<lambda>d. True) muxr_value s n (Some (s\<lparr>fdata := (fdata s)\<lparr>muxr_a := r\<rparr>\<rparr>, []))"
    if "muxr_select (fdata s) = SEL_PORT1" for n
    by (rule message_law_same) (simp_all add: that muxr_value_def)
  moreover have "message_law (\<lambda>d. True) muxr_value s n (Some (s\<lparr>fdata := (fdata s)\<lparr>muxr_b := r\<rparr>\<rparr>, []))"
    if "muxr_select (fdata s) = SEL_PORT0" for n
    by (rule message_law_same) (simp_all add: that muxr_value_def)
  ultimately show ?thesis using assms Recv_real by (simp add: muxr_recv_real_def Let_def)
qed (use assms in simp_all)

interpretation muxr_gate: lazy_functor muxr_methods muxr_run fnet msg_target "\<lambda>s. muxr_value (fdata s)" sends_real
  "\<lambda>s. True" "\<lambda>m s. muxr_fits m"
  by (rule lazy_functorI[where good = "\<lambda>d. True" and fits = "\<lambda>m d. muxr_fits m"])
    (simp_all add: muxr_message muxr_run_def sends_real_def)

section \<open>Properties\<close>

text \<open>C13. The gates never lose an update: after any sequence of messages and runs of an and, or or xor
  gate of one width, one of three things holds. Exactly one run is scheduled, and it will send the gate's function of
  the inputs at that time; or no run is scheduled and what the last run sent is the function of the present inputs; or no run
  is scheduled, none has been made and nothing sent, and the function of the present inputs is still the one of the initial inputs
  (all Z). As coded, the function of and and of or is that of their first two inputs only, the
  one of xor that of all four.\<close>

theorem logic_gates_settled:
  assumes "(run, f) \<in> {(and_run neg, gate2 bit4_and neg), (or_run neg, gate2 bit4_or neg),
      (xor_run neg, gate4_bits bit4_xor neg)}"
    and "functor_reach (vec4_methods boolean_recv_vec4 boolean_recv_vec4_pv) run
      (\<lambda>m s. fits_input w (\<lambda>k. k < 4) m) (boolean_new w) (s, q, sent)"
  shows "case fnet s of
      None \<Rightarrow> q = 0 \<and> (case sent of
          None \<Rightarrow> f (map vec4_bits (fdata s)) = f (map vec4_bits (fdata (boolean_new w)))
        | Some acts \<Rightarrow> \<exists>n. sends_bits n (f (map vec4_bits (fdata s))) acts)
    | Some n \<Rightarrow> q = 1 \<and> (\<exists>s' acts. run s = Some (s', acts) \<and>
        sends_bits n (f (map vec4_bits (fdata s))) acts \<and> fnet s' = None)"
proof -
  have new: "inputs_ok w (fdata (boolean_new w))" "fnet (boolean_new w) = None"
    by (auto simp: inputs_ok_def boolean_new_def vsize)
  show ?thesis
    using assms and_gate.no_lost_update[OF new, of neg] or_gate.no_lost_update[OF new, of neg]
      xor_gate.no_lost_update[OF new, of neg]
    by auto
qed

theorem logic_gates_settled_witness:
  "\<exists>s s' acts. boolean_recv_vec4 \<lparr>ptr_net = 7, ptr_port = 0\<rparr> (vec4_new 2 BIT4_1) (boolean_new 2) = Some (s, [Schedule_functor]) \<and>
     and_run False s = Some (s', acts) \<and> sends_bits 7 (gate2 bit4_and False (map vec4_bits (fdata s))) acts"
proof -
  let ?p = "\<lparr>ptr_net = 7, ptr_port = 0\<rparr>" and ?v = "vec4_new 2 BIT4_1"
  have "\<not> vec4_eeq (vec4_new 2 BIT4_Z) ?v"
    by (simp add: vec4_eeq_iff vec4_bits_def vsize bitlevel upt_rec)
  then obtain s where s: "boolean_recv_vec4 ?p ?v (boolean_new 2) = Some (s, [Schedule_functor])" "fnet s = Some 7"
    by (auto simp: boolean_recv_vec4_def boolean_new_def request_run_def)
  have "functor_reach (vec4_methods boolean_recv_vec4 boolean_recv_vec4_pv) (and_run False)
      (\<lambda>m s. fits_input 2 (\<lambda>k. k < 4) m) (boolean_new 2) (s, 0 + length [Schedule_functor], None)"
    by (rule functor_reach.message[OF functor_reach.start, of _ "Recv_vec4 ?p ?v"]) (simp_all add: s vsize)
  then show ?thesis
    using logic_gates_settled[of "and_run False" "gate2 bit4_and False" False 2 s 1 None] s by auto
qed

text \<open>C33. A gate with three or four inputs does not see its third and fourth input: when the first two
  have one width, and as well as or take the branch for whole vectors, which combines only these two. (The
  xor gate has no such branch and combines all four.)\<close>

theorem and_or_drop_inputs:
  assumes "vec_size a = vec_size b"
  shows "and_value neg [a, b, c, d] = and_value neg [a, b, c', d'] \<and>
    or_value neg [a, b, c, d] = or_value neg [a, b, c', d']"
  using assms by (simp add: and_value_def or_value_def)

theorem and_or_drop_inputs_witness:
  "and_value False [vec4_new 1 BIT4_1, vec4_new 1 BIT4_1, vec4_new 1 BIT4_0, vec4_new 1 BIT4_1] =
   and_value False [vec4_new 1 BIT4_1, vec4_new 1 BIT4_1, vec4_new 1 BIT4_1, vec4_new 1 BIT4_1]"
  using and_or_drop_inputs[of "vec4_new 1 BIT4_1" "vec4_new 1 BIT4_1"] by simp

text \<open>C20. The multiplexer never loses an update: when no run is scheduled, what it sent last is the data
  input its select input chooses, or, for an unknown select, the blend of both that is X where they
  differ or are Z; when its select excludes an input, changes of that input schedule no run.\<close>

theorem mux_settled:
  assumes "functor_reach (vec4_methods muxz_recv_vec4 muxz_recv_vec4_pv) muxz_run (\<lambda>m s. mux_fits w m) (muxz_new w) (s, q, sent)"
  shows "case fnet s of
      None \<Rightarrow> q = 0 \<and> (case sent of
          None \<Rightarrow> mux_bits (fdata s) = mux_bits (fdata (muxz_new w))
        | Some acts \<Rightarrow> \<exists>n. sends_bits n (mux_bits (fdata s)) acts)
    | Some n \<Rightarrow> q = 1 \<and> (\<exists>s' acts. muxz_run s = Some (s', acts) \<and> sends_bits n (mux_bits (fdata s)) acts \<and> fnet s' = None)"
  by (rule mux_gate.no_lost_update[OF _ _ assms]) (auto simp: mux_ok_def muxz_new_def vsize)

theorem mux_settled_witness:
  "\<exists>s s' acts. muxz_recv_vec4 \<lparr>ptr_net = 7, ptr_port = 2\<rparr> (vec4_new 1 BIT4_1) (muxz_new 3) = Some (s, [Schedule_functor]) \<and>
     muxz_run s = Some (s', acts) \<and> sends_bits 7 (vec4_bits (vec4_new 3 BIT4_Z)) acts"
proof -
  let ?p = "\<lparr>ptr_net = 7, ptr_port = 2\<rparr>" and ?v = "vec4_new 1 BIT4_1"
  obtain s where s: "muxz_recv_vec4 ?p ?v (muxz_new 3) = Some (s, [Schedule_functor])" "fnet s = Some 7"
    "mux_bits (fdata s) = vec4_bits (vec4_new 3 BIT4_Z)"
    by (simp add: muxz_recv_vec4_def muxz_new_def request_run_def Let_def vsize bitlevel mux_bits_def)
  have "functor_reach (vec4_methods muxz_recv_vec4 muxz_recv_vec4_pv) muxz_run (\<lambda>m s. mux_fits 3 m) (muxz_new 3)
      (s, 0 + length [Schedule_functor], None)"
    by (rule functor_reach.message[OF functor_reach.start, of _ "Recv_vec4 ?p ?v"]) (simp_all add: s s(1)[unfolded One_nat_def] mux_fits_def vsize)
  then show ?thesis using mux_settled[of 3 s 1 None] s by auto
qed

text \<open>Buffers and inverters never lose an update: when no run is scheduled, what they sent last is
  their present input with Z turned into X, inverted for the inverter.\<close>

theorem buf_not_settled:
  assumes "(recv, run, f) \<in> {(vec4_methods buf_recv_vec4 buf_recv_vec4_pv, buf_run, bit4_z2x),
      (vec4_methods not_recv_vec4 not_recv_vec4_pv, not_run, bit4_not)}"
    and "functor_reach recv run (\<lambda>m s. fits_input w (\<lambda>k. True) m) (buf_new w) (s, q, sent)"
  shows "case fnet s of
      None \<Rightarrow> q = 0 \<and> (case sent of
          None \<Rightarrow> map f (vec4_bits (fdata s)) = map f (vec4_bits (fdata (buf_new w)))
        | Some acts \<Rightarrow> \<exists>n. sends_bits n (map f (vec4_bits (fdata s))) acts)
    | Some n \<Rightarrow> q = 1 \<and> (\<exists>s' acts. run s = Some (s', acts) \<and>
        sends_bits n (map f (vec4_bits (fdata s))) acts \<and> fnet s' = None)"
proof -
  have new: "vec4_wf (fdata (buf_new w)) \<and> vec_size (fdata (buf_new w)) = w" "fnet (buf_new w) = None"
    by (simp_all add: buf_new_def vsize)
  show ?thesis
    using assms buf_gate.no_lost_update[OF new] not_gate.no_lost_update[OF new] by auto
qed

end
