(* ===== verification/Wiring.thy ===== *)
theory Wiring
  imports Functor
begin

text \<open>
  The functors that compute by rearranging bits: reduction operators (\<^verbatim>\<open>reduce.cc\<close>), concatenation and
  repetition (\<^verbatim>\<open>concat.cc\<close>), sign extension (\<^verbatim>\<open>extend.cc\<close>) and the static part selects (\<^verbatim>\<open>part.h\<close>,
  \<^verbatim>\<open>part.cc\<close>). All but the constant part select send their result at once. The variants for automatic
  scopes keep the same state in a context; they are not modelled.
\<close>

section \<open>Reduction operators\<close>

text \<open>The virtual methods \<^verbatim>\<open>calculate_result\<close>.\<close>

definition reduce_and_result :: "vvp_vector4_t \<Rightarrow> vvp_bit4_t" where
  "reduce_and_result v = fold (\<lambda>idx res. bit4_and res (vec4_value v idx)) [0..<vec_size v] BIT4_1"

definition reduce_or_result :: "vvp_vector4_t \<Rightarrow> vvp_bit4_t" where
  "reduce_or_result v = fold (\<lambda>idx res. bit4_or res (vec4_value v idx)) [0..<vec_size v] BIT4_0"

definition reduce_xor_result :: "vvp_vector4_t \<Rightarrow> vvp_bit4_t" where
  "reduce_xor_result v = fold (\<lambda>idx res. bit4_xor res (vec4_value v idx)) [0..<vec_size v] BIT4_0"

definition reduce_nand_result :: "vvp_vector4_t \<Rightarrow> vvp_bit4_t" where
  "reduce_nand_result v = bit4_not (fold (\<lambda>idx res. bit4_and res (vec4_value v idx)) [0..<vec_size v] BIT4_1)"

definition reduce_nor_result :: "vvp_vector4_t \<Rightarrow> vvp_bit4_t" where
  "reduce_nor_result v = bit4_not (fold (\<lambda>idx res. bit4_or res (vec4_value v idx)) [0..<vec_size v] BIT4_0)"

definition reduce_xnor_result :: "vvp_vector4_t \<Rightarrow> vvp_bit4_t" where
  "reduce_xnor_result v = bit4_not (fold (\<lambda>idx res. bit4_xor res (vec4_value v idx)) [0..<vec_size v] BIT4_0)"

text \<open>The state is \<^verbatim>\<open>bits_\<close>.\<close>

definition reduce_recv_vec4 ::
  "(vvp_vector4_t \<Rightarrow> vvp_bit4_t) \<Rightarrow> vvp_net_ptr_t \<Rightarrow> vvp_vector4_t \<Rightarrow> vvp_vector4_t \<Rightarrow> vvp_vector4_t outcome" where
  "reduce_recv_vec4 calculate_result prt bt bits =
     (let bits = bt;
          res = calculate_result bits;
          rv = vec4_new 1 res
      in Some (bits, [Send_vec4 (ptr_net prt) rv]))"

definition reduce_recv_vec4_pv ::
  "(vvp_vector4_t \<Rightarrow> vvp_bit4_t) \<Rightarrow> vvp_net_ptr_t \<Rightarrow> vvp_vector4_t \<Rightarrow> nat \<Rightarrow> nat \<Rightarrow> nat \<Rightarrow>
   vvp_vector4_t \<Rightarrow> vvp_vector4_t outcome" where
  "reduce_recv_vec4_pv calculate_result prt bt base wid vwid bits =
     (let bits = (if vec_size bits = 0 then vec4_new vwid BIT4_X else bits)
      in if vec_size bits \<noteq> vwid then None
         else if vec_size bt \<noteq> wid then None
         else case vec4_set_vec bits base bt of
                None \<Rightarrow> None
              | Some (bits, _) \<Rightarrow>
                  let res = calculate_result bits;
                      rv = vec4_new 1 res
                  in Some (bits, [Send_vec4 (ptr_net prt) rv]))"

section \<open>Concatenation\<close>

record vvp_fun_concat =
  cc_wid :: "nat list"
  cc_val :: vvp_vector4_t

definition concat_new :: "nat \<Rightarrow> nat \<Rightarrow> nat \<Rightarrow> nat \<Rightarrow> vvp_fun_concat option" where
  "concat_new w0 w1 w2 w3 =
     (let val = vec4_new (w0 + w1 + w2 + w3) BIT4_X
      in case foldM (\<lambda>idx val. vec4_set_bit val idx BIT4_Z) [0..<vec_size val] val of
           None \<Rightarrow> None | Some val \<Rightarrow> Some \<lparr>cc_wid = [w0, w1, w2, w3], cc_val = val\<rparr>)"

definition port_offset :: "nat list \<Rightarrow> nat \<Rightarrow> nat" where
  "port_offset wid pdx = fold (\<lambda>idx off. off + wid ! idx) [0..<pdx] 0"

definition concat_recv_vec4 :: "vvp_net_ptr_t \<Rightarrow> vvp_vector4_t \<Rightarrow> vvp_fun_concat \<Rightarrow> vvp_fun_concat outcome" where
  "concat_recv_vec4 port bt s =
     (let pdx = ptr_port port
      in if vec_size bt \<noteq> cc_wid s ! pdx then None
         else
           let off = port_offset (cc_wid s) pdx
           in case foldM (\<lambda>idx val. vec4_set_bit val (off + idx) (vec4_value bt idx)) [0..<cc_wid s ! pdx] (cc_val s) of
                None \<Rightarrow> None
              | Some val \<Rightarrow> Some (s\<lparr>cc_val := val\<rparr>, [Send_vec4 (ptr_net port) val]))"

definition concat_recv_vec4_pv ::
  "vvp_net_ptr_t \<Rightarrow> vvp_vector4_t \<Rightarrow> nat \<Rightarrow> nat \<Rightarrow> nat \<Rightarrow> vvp_fun_concat \<Rightarrow> vvp_fun_concat outcome" where
  "concat_recv_vec4_pv port bt base wid vwid s =
     (if vec_size bt \<noteq> wid then None
      else
        let pdx = ptr_port port
        in if vwid \<noteq> cc_wid s ! pdx then None
           else
             let off = port_offset (cc_wid s) pdx;
                 limit = off + cc_wid s ! pdx;
                 off = off + base
             in case foldM (\<lambda>idx val. vec4_set_bit val (off + idx) (vec4_value bt idx))
                       (takeWhile (\<lambda>idx. \<not> off + idx \<ge> limit) [0..<wid]) (cc_val s) of
                  None \<Rightarrow> None
                | Some val \<Rightarrow> Some (s\<lparr>cc_val := val\<rparr>, [Send_vec4 (ptr_net port) val]))"

record vvp_fun_concat8 =
  cc8_wid :: "nat list"
  cc8_val :: vvp_vector8_t

definition concat8_new :: "nat \<Rightarrow> nat \<Rightarrow> nat \<Rightarrow> nat \<Rightarrow> vvp_fun_concat8 option" where
  "concat8_new w0 w1 w2 w3 =
     (let val = vec8_new (w0 + w1 + w2 + w3)
      in case foldM (\<lambda>idx val. case scalar_make BIT4_Z 0 0 of None \<Rightarrow> None | Some b \<Rightarrow> vec8_set_bit val idx b)
             [0..<v8_size val] val of
           None \<Rightarrow> None | Some val \<Rightarrow> Some \<lparr>cc8_wid = [w0, w1, w2, w3], cc8_val = val\<rparr>)"

definition copy_scalars :: "nat list \<Rightarrow> nat \<Rightarrow> vvp_vector8_t \<Rightarrow> vvp_vector8_t \<Rightarrow> vvp_vector8_t option" where
  "copy_scalars idxs off bt val =
     foldM (\<lambda>idx val. case vec8_value bt idx of None \<Rightarrow> None | Some b \<Rightarrow> vec8_set_bit val (off + idx) b) idxs val"

definition concat8_recv_vec8 :: "vvp_net_ptr_t \<Rightarrow> vvp_vector8_t \<Rightarrow> vvp_fun_concat8 \<Rightarrow> vvp_fun_concat8 outcome" where
  "concat8_recv_vec8 port bt s =
     (let pdx = ptr_port port
      in if v8_size bt \<noteq> cc8_wid s ! pdx then None
         else
           let off = port_offset (cc8_wid s) pdx
           in case copy_scalars [0..<cc8_wid s ! pdx] off bt (cc8_val s) of
                None \<Rightarrow> None
              | Some val \<Rightarrow> Some (s\<lparr>cc8_val := val\<rparr>, [Send_vec8 (ptr_net port) val]))"

definition concat8_recv_vec8_pv ::
  "vvp_net_ptr_t \<Rightarrow> vvp_vector8_t \<Rightarrow> nat \<Rightarrow> nat \<Rightarrow> nat \<Rightarrow> vvp_fun_concat8 \<Rightarrow> vvp_fun_concat8 outcome" where
  "concat8_recv_vec8_pv port bt base wid vwid s =
     (if v8_size bt \<noteq> wid then None
      else
        let pdx = ptr_port port
        in if vwid \<noteq> cc8_wid s ! pdx then None
           else
             let off = port_offset (cc8_wid s) pdx;
                 limit = off + cc8_wid s ! pdx;
                 off = off + base
             in case copy_scalars (takeWhile (\<lambda>idx. \<not> off + idx \<ge> limit) [0..<wid]) off bt (cc8_val s) of
                  None \<Rightarrow> None
                | Some val \<Rightarrow> Some (s\<lparr>cc8_val := val\<rparr>, [Send_vec8 (ptr_net port) val]))"

text \<open>Bits without strength enter as strong drivers.\<close>

definition concat8_recv_vec4 ::
  "8 word list \<Rightarrow> vvp_net_ptr_t \<Rightarrow> vvp_vector4_t \<Rightarrow> vvp_fun_concat8 \<Rightarrow> vvp_fun_concat8 outcome" where
  "concat8_recv_vec4 junk port bt s =
     (case vec8_from_vec4 junk bt 6 6 of None \<Rightarrow> None | Some bit8 \<Rightarrow> concat8_recv_vec8 port bit8 s)"

definition concat8_recv_vec4_pv ::
  "8 word list \<Rightarrow> vvp_net_ptr_t \<Rightarrow> vvp_vector4_t \<Rightarrow> nat \<Rightarrow> nat \<Rightarrow> nat \<Rightarrow> vvp_fun_concat8 \<Rightarrow> vvp_fun_concat8 outcome" where
  "concat8_recv_vec4_pv junk port bt base wid vwid s =
     (case vec8_from_vec4 junk bt 6 6 of None \<Rightarrow> None | Some bit8 \<Rightarrow> concat8_recv_vec8_pv port bit8 base wid vwid s)"

text \<open>Repetition and sign extension have no state.\<close>

definition repeat_recv_vec4 :: "nat \<Rightarrow> nat \<Rightarrow> vvp_net_ptr_t \<Rightarrow> vvp_vector4_t \<Rightarrow> net_action list option" where
  "repeat_recv_vec4 pwid rep port bt =
     (if vec_size bt \<noteq> pwid div rep then None
      else case foldM (\<lambda>rdx val.
               let off = rdx * vec_size bt
               in foldM (\<lambda>idx val. vec4_set_bit val (off + idx) (vec4_value bt idx)) [0..<vec_size bt] val)
             [0..<rep] (vec4_new pwid BIT4_X) of
             None \<Rightarrow> None | Some val \<Rightarrow> Some [Send_vec4 (ptr_net port) val])"

definition extend_signed_recv_vec4 :: "nat \<Rightarrow> vvp_net_ptr_t \<Rightarrow> vvp_vector4_t \<Rightarrow> net_action list option" where
  "extend_signed_recv_vec4 width port bt =
     (if vec_size bt \<ge> width then Some [Send_vec4 (ptr_net port) bt]
      else case foldM (\<lambda>idx res. vec4_set_bit res idx (vec4_value bt idx)) [0..<vec_size bt] (vec4_new width BIT4_X) of
             None \<Rightarrow> None
           | Some res \<Rightarrow>
               let pad = (if vec_size bt > 0 then vec4_value bt (vec_size bt - 1) else BIT4_0)
               in case foldM (\<lambda>idx res. vec4_set_bit res idx pad) [vec_size bt..<vec_size res] res of
                    None \<Rightarrow> None | Some res \<Rightarrow> Some [Send_vec4 (ptr_net port) res])"

definition extend_signed_recv_vec4_pv ::
  "nat \<Rightarrow> vvp_net_ptr_t \<Rightarrow> vvp_vector4_t \<Rightarrow> nat \<Rightarrow> nat \<Rightarrow> nat \<Rightarrow> net_action list option" where
  "extend_signed_recv_vec4_pv width ptr bt base wid vwid =
     map_option snd (fun_recv_vec4_pv (\<lambda>p b s. map_option (Pair s) (extend_signed_recv_vec4 width p b)) ptr bt base wid vwid ())"

section \<open>Part selects\<close>

text \<open>The constant part select keeps \<^verbatim>\<open>val_\<close>, the selected part of its last input.\<close>

type_synonym vvp_fun_part_sa = "vvp_vector4_t net_functor"

definition part_sa_new :: vvp_fun_part_sa where
  "part_sa_new = \<lparr>fdata = vec4_new 0 BIT4_X, fnet = None\<rparr>"

definition part_sa_recv_vec4 ::
  "nat \<Rightarrow> nat \<Rightarrow> vvp_net_ptr_t \<Rightarrow> vvp_vector4_t \<Rightarrow> vvp_fun_part_sa \<Rightarrow> vvp_fun_part_sa outcome" where
  "part_sa_recv_vec4 pbase pwid port bt s =
     (if ptr_port port \<noteq> 0 then None
      else case vec4_subvalue bt pbase pwid of
             None \<Rightarrow> None
           | Some tmp \<Rightarrow>
               if vec4_eeq (fdata s) tmp then Some (s, [])
               else Some (request_run port (s\<lparr>fdata := tmp\<rparr>)))"

definition part_sa_recv_vec4_pv ::
  "nat \<Rightarrow> nat \<Rightarrow> vvp_net_ptr_t \<Rightarrow> vvp_vector4_t \<Rightarrow> nat \<Rightarrow> nat \<Rightarrow> nat \<Rightarrow> vvp_fun_part_sa \<Rightarrow> vvp_fun_part_sa outcome" where
  "part_sa_recv_vec4_pv pbase pwid port bt base wid vwid s =
     (if vec_size bt \<noteq> wid then None
      else case vec4_set_vec (vec4_new vwid BIT4_Z) pbase (fdata s) of
             None \<Rightarrow> None
           | Some (tmp, _) \<Rightarrow>
               (case vec4_set_vec tmp base bt of
                  None \<Rightarrow> None | Some (tmp, _) \<Rightarrow> part_sa_recv_vec4 pbase pwid port tmp s))"

definition part_sa_run :: "vvp_fun_part_sa \<Rightarrow> vvp_fun_part_sa outcome" where
  "part_sa_run s =
     (case fnet s of None \<Rightarrow> None | Some ptr \<Rightarrow> Some (s\<lparr>fnet := None\<rparr>, [Send_vec4 ptr (fdata s)]))"

text \<open>A vector that drives a part of a wider net.\<close>

definition part_pv_recv_vec4 :: "nat \<Rightarrow> nat \<Rightarrow> nat \<Rightarrow> vvp_net_ptr_t \<Rightarrow> vvp_vector4_t \<Rightarrow> net_action list option" where
  "part_pv_recv_vec4 pbase pwid pvwid port bt =
     (if ptr_port port \<noteq> 0 then None
      else if vec_size bt \<noteq> pwid then None
      else Some [Send_vec4_pv (ptr_net port) bt pbase pwid pvwid])"

definition part_pv_recv_vec4_pv ::
  "nat \<Rightarrow> nat \<Rightarrow> nat \<Rightarrow> vvp_net_ptr_t \<Rightarrow> vvp_vector4_t \<Rightarrow> nat \<Rightarrow> nat \<Rightarrow> nat \<Rightarrow> net_action list option" where
  "part_pv_recv_vec4_pv pbase pwid pvwid port bt base wid vwid =
     (if ptr_port port \<noteq> 0 then None
      else if vec_size bt \<noteq> wid then None
      else if \<not> base + wid \<le> vwid then None
      else if vwid \<noteq> pwid then None
      else case vec4_set_vec (vec4_new pwid BIT4_Z) base bt of
             None \<Rightarrow> None | Some (tmp, _) \<Rightarrow> Some [Send_vec4_pv (ptr_net port) tmp pbase pwid pvwid])"

definition part_pv_recv_vec8 :: "nat \<Rightarrow> nat \<Rightarrow> nat \<Rightarrow> vvp_net_ptr_t \<Rightarrow> vvp_vector8_t \<Rightarrow> net_action list option" where
  "part_pv_recv_vec8 pbase pwid pvwid port bt =
     (if ptr_port port \<noteq> 0 then None
      else if v8_size bt \<noteq> pwid then None
      else Some [Send_vec8_pv (ptr_net port) bt pbase pwid pvwid])"

text \<open>The part select with a variable base. The addresses are computed in 32-bit integers.\<close>

record vvp_fun_part_var =
  pvar_base :: "32 word"
  pvar_source :: vvp_vector4_t
  pvar_ref :: vvp_vector4_t

definition part_var_new :: vvp_fun_part_var where
  "part_var_new = \<lparr>pvar_base = 0, pvar_source = vec4_new 0 BIT4_X, pvar_ref = vec4_new 0 BIT4_X\<rparr>"

fun part_var_loop :: "32 word \<Rightarrow> vvp_vector4_t \<Rightarrow> nat list \<Rightarrow> vvp_vector4_t \<Rightarrow> vvp_vector4_t option" where
  "part_var_loop base source [] res = Some res"
| "part_var_loop base source (idx # idxs) res =
     (let adr = base + of_nat idx
      in if sint adr < 0 then part_var_loop base source idxs res
         else if unat adr \<ge> vec_size source then Some res
         else case vec4_set_bit res idx (vec4_value source (unat adr)) of
                None \<Rightarrow> None | Some res \<Rightarrow> part_var_loop base source idxs res)"

text \<open>The common part of \<^verbatim>\<open>recv_vec4_\<close> after the switch: \<^verbatim>\<open>true\<close> when the selected part has changed.\<close>

definition part_var_update :: "nat \<Rightarrow> vvp_fun_part_var \<Rightarrow> (vvp_fun_part_var \<times> bool) option" where
  "part_var_update pwid s =
     (case part_var_loop (pvar_base s) (pvar_source s) [0..<pwid] (vec4_new pwid BIT4_X) of
        None \<Rightarrow> None
      | Some res \<Rightarrow>
          if \<not> vec4_eeq (pvar_ref s) res then Some (s\<lparr>pvar_ref := res\<rparr>, True) else Some (s, False))"

definition part_var_recv ::
  "nat \<Rightarrow> bool \<Rightarrow> vvp_net_ptr_t \<Rightarrow> vvp_vector4_t \<Rightarrow> vvp_fun_part_var \<Rightarrow> (vvp_fun_part_var \<times> bool) option" where
  "part_var_recv pwid is_signed port bt s =
     (if ptr_port port = 0 then part_var_update pwid (s\<lparr>pvar_source := bt\<rparr>)
      else if ptr_port port = 1 then
        let tmp = (case snd (vec4_to_value bt is_signed True) of None \<Rightarrow> 0x80000000 | Some v \<Rightarrow> v)
        in if tmp = pvar_base s then Some (s, False) else part_var_update pwid (s\<lparr>pvar_base := tmp\<rparr>)
      else None)"

definition part_var_recv_vec4 ::
  "nat \<Rightarrow> bool \<Rightarrow> vvp_net_ptr_t \<Rightarrow> vvp_vector4_t \<Rightarrow> vvp_fun_part_var \<Rightarrow> vvp_fun_part_var outcome" where
  "part_var_recv_vec4 pwid is_signed port bt s =
     (case part_var_recv pwid is_signed port bt s of
        None \<Rightarrow> None
      | Some (s, changed) \<Rightarrow> Some (s, if changed then [Send_vec4 (ptr_net port) (pvar_ref s)] else []))"

definition part_var_recv_vec4_pv ::
  "nat \<Rightarrow> bool \<Rightarrow> vvp_net_ptr_t \<Rightarrow> vvp_vector4_t \<Rightarrow> nat \<Rightarrow> nat \<Rightarrow> nat \<Rightarrow> vvp_fun_part_var \<Rightarrow> vvp_fun_part_var outcome" where
  "part_var_recv_vec4_pv pwid is_signed port bt base wid vwid s =
     (if vec_size bt \<noteq> wid then None
      else
        let tmp = pvar_source s;
            tmp = (if vec_size tmp = 0 then vec4_new vwid BIT4_X else tmp)
        in if vec_size tmp \<noteq> vwid then None
           else case vec4_set_vec tmp base bt of
                  None \<Rightarrow> None | Some (tmp, _) \<Rightarrow> part_var_recv_vec4 pwid is_signed port tmp s)"

section \<open>Reduction\<close>

lemma fold_bits: "fold (\<lambda>idx res. f res (vec4_value v idx)) [0..<vec_size v] a = foldl f a (vec4_bits v)"
  by (simp add: foldl_conv_fold vec4_bits_def fold_map comp_def)

lemma foldl_and: "foldl bit4_and BIT4_1 bs =
    (if BIT4_0 \<in> set bs then BIT4_0 else if list_ex bit4_is_xz bs then BIT4_X else BIT4_1)"
proof (induction bs rule: rev_induct)
  case (snoc b bs)
  then show ?case by (cases b) (auto simp: bit4_and_table list_ex_iff)
qed simp

lemma foldl_or: "foldl bit4_or BIT4_0 bs =
    (if BIT4_1 \<in> set bs then BIT4_1 else if list_ex bit4_is_xz bs then BIT4_X else BIT4_0)"
proof (induction bs rule: rev_induct)
  case (snoc b bs)
  then show ?case by (cases b) (auto simp: bit4_or_table list_ex_iff)
qed simp

lemma foldl_xor: "foldl bit4_xor BIT4_0 bs =
    (if list_ex bit4_is_xz bs then BIT4_X else if odd (count_list bs BIT4_1) then BIT4_1 else BIT4_0)"
proof (induction bs rule: rev_induct)
  case (snoc b bs)
  then show ?case by (cases b) (auto simp: bit4_xor_def bit4_cast_def list_ex_iff)
qed simp

text \<open>C34. The reduction operators are those of the language: and is 0 as soon as a bit is 0, else X when a
  bit is X or Z, else 1; or is dual; xor is the parity of the ones, X when a bit is X or Z; nand, nor and
  xnor are their complements. An empty vector reduces to the neutral element.\<close>

theorem reduce_results:
  "reduce_and_result v =
     (if BIT4_0 \<in> set (vec4_bits v) then BIT4_0 else if list_ex bit4_is_xz (vec4_bits v) then BIT4_X else BIT4_1) \<and>
   reduce_or_result v =
     (if BIT4_1 \<in> set (vec4_bits v) then BIT4_1 else if list_ex bit4_is_xz (vec4_bits v) then BIT4_X else BIT4_0) \<and>
   reduce_xor_result v =
     (if list_ex bit4_is_xz (vec4_bits v) then BIT4_X
      else if odd (count_list (vec4_bits v) BIT4_1) then BIT4_1 else BIT4_0) \<and>
   reduce_nand_result v = bit4_not (reduce_and_result v) \<and> reduce_nor_result v = bit4_not (reduce_or_result v) \<and>
   reduce_xnor_result v = bit4_not (reduce_xor_result v)"
  by (simp add: reduce_and_result_def reduce_or_result_def reduce_xor_result_def reduce_nand_result_def
      reduce_nor_result_def reduce_xnor_result_def fold_bits foldl_and foldl_or foldl_xor)

section \<open>Concatenation\<close>

text \<open>The abstract state: the bits last received at each port.\<close>

definition concat_segments :: "vvp_bit4_t list list \<Rightarrow> vvp_fun_concat \<Rightarrow> bool" where
  "concat_segments segs s \<longleftrightarrow> map length segs = cc_wid s \<and> vec4_wf (cc_val s) \<and> vec4_bits (cc_val s) = concat segs"

lemma port_offset_sum: "p \<le> length ws \<Longrightarrow> port_offset ws p = sum_list (take p ws)"
  by (induction p) (simp_all add: port_offset_def take_Suc_conv_app_nth)

lemma concat_replace:
  assumes "p < length segs" "n + m \<le> length (segs ! p)" "length bs = m"
  shows "concat (segs[p := take n (segs ! p) @ bs @ drop (n + m) (segs ! p)]) =
    take (length (concat (take p segs)) + n) (concat segs) @ bs @
      drop (length (concat (take p segs)) + n + m) (concat segs)"
proof -
  have "concat segs = concat (take p segs) @ segs ! p @ concat (drop (Suc p) segs)"
    using assms(1) by (metis id_take_nth_drop concat_append concat.simps(2))
  then show ?thesis
    using assms by (simp add: upd_conv_take_nth_drop add.assoc)
qed

lemma concat_write:
  assumes "concat_segments segs s" "p < length segs" "n + m \<le> length (segs ! p)"
  shows "\<exists>r. foldM (\<lambda>i r. vec4_set_bit r (port_offset (cc_wid s) p + n + i) (f i)) [0..<m] (cc_val s) = Some r \<and> vec4_wf r \<and>
    vec4_bits r = concat (segs[p := take n (segs ! p) @ map f [0..<m] @ drop (n + m) (segs ! p)])"
proof -
  have wid: "cc_wid s = map length segs" and bits: "vec4_wf (cc_val s)" "vec4_bits (cc_val s) = concat segs"
    using assms(1) by (auto simp: concat_segments_def)
  have off: "port_offset (cc_wid s) p = length (concat (take p segs))"
    using assms(2) by (simp add: port_offset_sum wid length_concat take_map)
  have "segs = take p segs @ segs ! p # drop (Suc p) segs" by (rule id_take_nth_drop[OF assms(2)])
  then have "length (concat segs) = length (concat (take p segs)) + (length (segs ! p) + length (concat (drop (Suc p) segs)))"
    by (metis concat_append concat.simps(2) length_append)
  then have "port_offset (cc_wid s) p + n + m \<le> vec_size (cc_val s)"
    using assms(3) off arg_cong[OF bits(2), of length] by simp
  then show ?thesis
    using vec4_write_loop[OF bits(1), of "port_offset (cc_wid s) p + n" m f] concat_replace[OF assms(2,3), of "map f [0..<m]"]
    by (auto simp: bits(2) off)
qed

lemma map_value_bits: "map (vec4_value v) [0..<vec_size v] = vec4_bits v"
  by (simp add: vec4_bits_def)

lemma concat_new_segments:
  "\<exists>s. concat_new w0 w1 w2 w3 = Some s \<and>
     concat_segments [replicate w0 BIT4_Z, replicate w1 BIT4_Z, replicate w2 BIT4_Z, replicate w3 BIT4_Z] s"
proof -
  let ?n = "w0 + w1 + w2 + w3"
  obtain r where r: "foldM (\<lambda>i r. vec4_set_bit r i BIT4_Z) [0..<?n] (vec4_new ?n BIT4_X) = Some r" "vec4_wf r"
    "vec4_bits r = map (\<lambda>i. BIT4_Z) [0..<?n]"
    using vec4_fill_loop[of "vec4_new ?n BIT4_X" ?n "\<lambda>i. BIT4_Z"] by (auto simp: vsize)
  then show ?thesis
    by (auto simp: concat_new_def concat_segments_def vsize map_replicate_trivial replicate_add)
qed

lemma takeWhile_part: "base + wid \<le> w \<Longrightarrow> takeWhile (\<lambda>idx. \<not> w \<le> base + idx) [0..<wid] = [0..<wid]"
  by (rule takeWhile_eq_all_conv[THEN iffD2]) auto

text \<open>C21. Concatenation refines its abstract state, the values last received at each port: it starts with all
  ports Z, a vector received at a port replaces that port's value and a part of it that part, nothing else
  changes, and what is sent is the concatenation of all the values.\<close>

theorem concat_refines:
  assumes "concat_segments segs s" "ptr_port port < length segs" "length (segs ! ptr_port port) = vwid"
  shows "(\<exists>s0. concat_new w0 w1 w2 w3 = Some s0 \<and>
      concat_segments [replicate w0 BIT4_Z, replicate w1 BIT4_Z, replicate w2 BIT4_Z, replicate w3 BIT4_Z] s0) \<and>
    (vec_size bt = vwid \<longrightarrow> (\<exists>s' v. concat_recv_vec4 port bt s = Some (s', [Send_vec4 (ptr_net port) v]) \<and>
      concat_segments (segs[ptr_port port := vec4_bits bt]) s' \<and>
      vec4_bits v = concat (segs[ptr_port port := vec4_bits bt]))) \<and>
    (vec_size bt = wid \<and> base + wid \<le> vwid \<longrightarrow>
      (\<exists>s' v part. concat_recv_vec4_pv port bt base wid vwid s = Some (s', [Send_vec4 (ptr_net port) v]) \<and>
        part = take base (segs ! ptr_port port) @ vec4_bits bt @ drop (base + wid) (segs ! ptr_port port) \<and>
        concat_segments (segs[ptr_port port := part]) s' \<and> vec4_bits v = concat (segs[ptr_port port := part])))"
proof -
  let ?p = "ptr_port port"
  have wid: "cc_wid s = map length segs" using assms(1) by (simp add: concat_segments_def)
  then have w: "cc_wid s ! ?p = vwid" using assms by simp
  have keep: "map length (segs[?p := bs]) = cc_wid s" if "length bs = vwid" for bs
    using that assms(2,3) wid by (metis list_update_id map_update)
  show ?thesis
  proof (intro conjI impI)
    assume size: "vec_size bt = vwid"
    obtain r where r: "foldM (\<lambda>i r. vec4_set_bit r (port_offset (cc_wid s) ?p + i) (vec4_value bt i)) [0..<vwid] (cc_val s) = Some r"
      "vec4_wf r" "vec4_bits r = concat (segs[?p := vec4_bits bt])"
      using concat_write[OF assms(1,2), of 0 vwid "vec4_value bt"] assms(3) size
      by (auto simp: map_value_bits[of bt, unfolded size])
    then show "\<exists>s' v. concat_recv_vec4 port bt s = Some (s', [Send_vec4 (ptr_net port) v]) \<and>
      concat_segments (segs[?p := vec4_bits bt]) s' \<and> vec4_bits v = concat (segs[?p := vec4_bits bt])"
      using size w keep[of "vec4_bits bt"] by (simp add: concat_recv_vec4_def Let_def concat_segments_def)
  next
    assume "vec_size bt = wid \<and> base + wid \<le> vwid"
    then have size: "vec_size bt = wid" "base + wid \<le> vwid" by auto
    let ?part = "take base (segs ! ?p) @ vec4_bits bt @ drop (base + wid) (segs ! ?p)"
    obtain r where r: "foldM (\<lambda>i r. vec4_set_bit r (port_offset (cc_wid s) ?p + base + i) (vec4_value bt i)) [0..<wid] (cc_val s) = Some r"
      "vec4_wf r" "vec4_bits r = concat (segs[?p := ?part])"
      using concat_write[OF assms(1,2), of base wid "vec4_value bt"] assms(3) size
      by (auto simp: map_value_bits[of bt, unfolded size])
    then have "concat_recv_vec4_pv port bt base wid vwid s = Some (s\<lparr>cc_val := r\<rparr>, [Send_vec4 (ptr_net port) r])"
      using size w by (simp add: concat_recv_vec4_pv_def Let_def takeWhile_part)
    then show "\<exists>s' v part. concat_recv_vec4_pv port bt base wid vwid s = Some (s', [Send_vec4 (ptr_net port) v]) \<and>
        part = ?part \<and> concat_segments (segs[?p := part]) s' \<and> vec4_bits v = concat (segs[?p := part])"
      using r keep[of ?part] assms(3) size by (simp add: concat_segments_def)
  next
    show "\<exists>s0. concat_new w0 w1 w2 w3 = Some s0 \<and>
      concat_segments [replicate w0 BIT4_Z, replicate w1 BIT4_Z, replicate w2 BIT4_Z, replicate w3 BIT4_Z] s0"
      by (rule concat_new_segments)
  qed
qed

theorem concat_refines_witness:
  "\<exists>s s' v. concat_new 2 1 0 0 = Some s \<and> concat_recv_vec4 \<lparr>ptr_net = 4, ptr_port = 1\<rparr> (vec4_new 1 BIT4_1) s =
     Some (s', [Send_vec4 4 v]) \<and> vec4_bits v = [BIT4_Z, BIT4_Z, BIT4_1]"
proof -
  obtain s where s: "concat_new 2 1 0 0 = Some s"
    "concat_segments [replicate 2 BIT4_Z, replicate 1 BIT4_Z, replicate 0 BIT4_Z, replicate 0 BIT4_Z] s"
    using concat_new_segments[of 2 1 0 0] by blast
  have one: "vec4_bits (vec4_new 1 BIT4_1) = [BIT4_1]" by (simp add: vec4_bits_def vsize bitlevel)
  let ?segs = "[replicate 2 BIT4_Z, replicate 1 BIT4_Z, replicate 0 BIT4_Z, replicate 0 BIT4_Z]"
    and ?p = "\<lparr>ptr_net = 4, ptr_port = 1 :: nat\<rparr>"
  have "\<exists>s' v. concat_recv_vec4 ?p (vec4_new 1 BIT4_1) s = Some (s', [Send_vec4 4 v]) \<and>
      vec4_bits v = concat (?segs[1 := vec4_bits (vec4_new 1 BIT4_1)])"
    using concat_refines[OF s(2), of ?p 1 0 0 0 0 "vec4_new 1 BIT4_1" 0 0] by (auto simp: vsize)
  then show ?thesis unfolding one using s(1) by (auto simp: numeral_2_eq_2)
qed

section \<open>Repetition and extension\<close>

lemma repeat_bits:
  assumes "vec_size bt = n" "w = rep * n"
  shows "\<exists>r. foldM (\<lambda>rdx val. let off = rdx * n
             in foldM (\<lambda>idx val. vec4_set_bit val (off + idx) (vec4_value bt idx)) [0..<n] val)
           [0..<rep] (vec4_new w BIT4_X) = Some r \<and>
    (vec4_wf r \<and> vec_size r = w \<and> take (rep * n) (vec4_bits r) = concat (replicate rep (vec4_bits bt)))"
proof (rule foldM_upt_inv[where P = "\<lambda>k r. vec4_wf r \<and> vec_size r = w \<and> take (k * n) (vec4_bits r) = concat (replicate k (vec4_bits bt))"], goal_cases)
  case 1
  show ?case by (simp add: vsize)
next
  case (2 i r)
  have "i * n + n \<le> w" using 2(1) assms(2) by (metis Suc_leI add.commute mult_Suc mult_le_mono1)
  then obtain r' where r': "foldM (\<lambda>idx val. vec4_set_bit val (i * n + idx) (vec4_value bt idx)) [0..<n] r = Some r'"
    "vec4_wf r'" "vec_size r' = w"
    "vec4_bits r' = take (i * n) (vec4_bits r) @ vec4_bits bt @ drop (i * n + n) (vec4_bits r)"
    using vec4_write_loop[of r "i * n" n "vec4_value bt"] 2(2) assms(1) by (auto simp: vec4_bits_def[of bt])
  moreover have "take (Suc i * n) (vec4_bits r') = concat (replicate i (vec4_bits bt)) @ vec4_bits bt"
  proof -
    have "length (concat (replicate i (vec4_bits bt))) = i * n" by (simp add: length_concat sum_list_replicate assms(1))
    then show ?thesis using 2(2) assms(1) \<open>i * n + n \<le> w\<close> by (simp add: r'(4) add.commute)
  qed
  ultimately show ?case by (auto simp: replicate_append_same [symmetric])
qed

lemma extend_bits:
  assumes "vec_size bt = n" "n < w"
  shows "\<exists>r. extend_signed_recv_vec4 w port bt = Some [Send_vec4 (ptr_net port) r] \<and>
    vec4_bits r = vec4_bits bt @ replicate (w - n) (if 0 < n then last (vec4_bits bt) else BIT4_0)"
proof -
  let ?pad = "if 0 < n then vec4_value bt (n - 1) else BIT4_0"
  obtain u where u: "foldM (\<lambda>idx res. vec4_set_bit res (0 + idx) (vec4_value bt idx)) [0..<n] (vec4_new w BIT4_X) = Some u"
    "vec4_wf u" "vec_size u = w" "vec4_bits u = vec4_bits bt @ drop n (vec4_bits (vec4_new w BIT4_X))"
    using vec4_write_loop[of "vec4_new w BIT4_X" 0 n "vec4_value bt"] assms by (auto simp: vsize vec4_bits_def[of bt])
  obtain r where r: "foldM (\<lambda>idx res. vec4_set_bit res (n + idx) ?pad) [0..<w - n] u = Some r" "vec_size r = w"
    "vec4_bits r = take n (vec4_bits u) @ map (\<lambda>i. ?pad) [0..<w - n] @ drop (n + (w - n)) (vec4_bits u)"
    using vec4_write_loop[of u n "w - n" "\<lambda>i. ?pad"] u(2,3) assms(2) by auto
  have bits: "vec4_bits r = vec4_bits bt @ replicate (w - n) ?pad"
    unfolding r(3) using u(3,4) assms by (simp add: map_replicate_trivial vsize)
  have "map ((+) n) [0..<w - n] = [n..<w]" by (rule nth_equalityI) (use assms(2) in auto)
  then have loop: "foldM (\<lambda>idx res. vec4_set_bit res idx ?pad) [n..<w] u = Some r"
    using foldM_map[of "\<lambda>idx res. vec4_set_bit res idx ?pad" "(+) n" "[0..<w - n]" u] r(1)
    by (simp only: \<open>map ((+) n) [0..<w - n] = _\<close>)
  have "0 < n \<Longrightarrow> last (vec4_bits bt) = vec4_value bt (n - 1)"
    using assms(1) by (simp add: last_conv_nth vec4_bits_def)
  then show ?thesis
    using assms u(1,3) loop bits by (auto simp: extend_signed_recv_vec4_def Let_def)
qed

lemma bits_snum_extend:
  assumes "bs \<noteq> []"
  shows "bits_snum (bs @ replicate k (last bs)) = bits_snum bs"
proof -
  obtain m where m: "length bs = Suc m" using assms by (cases bs) auto
  have top: "bs ! m = last bs" using assms m by (simp add: last_conv_nth)
  have "(bs @ replicate k (last bs)) ! min (m + k) i = bs ! min m i" for i
  proof (cases "i \<le> m")
    case True
    then show ?thesis using m by (simp add: nth_append min_absorb2)
  next
    case False
    then show ?thesis using m top by (cases "k = 0") (auto simp: nth_append min_def)
  qed
  moreover have "min (m + k) i < Suc m + k" "min m i < Suc m" for i by simp_all
  ultimately have "bit (bits_snum (bs @ replicate k (last bs))) i = bit (bits_snum bs) i" for i
    by (simp add: bits_snum_def m bit_signed_take_bit_iff bit_bits_num)
  then show ?thesis by (rule bit_eqI)
qed

text \<open>Repetition sends as many copies of its input as fit its width, and a sign extension sends its
  input unchanged when that is wide enough and otherwise extended by copies of its top bit, which
  keeps the value in two's complement.\<close>

theorem repeat_extend_bits:
  assumes "vec_size bt = n" "0 < n"
  shows "(0 < rep \<longrightarrow> (\<exists>r. repeat_recv_vec4 (rep * n) rep port bt = Some [Send_vec4 (ptr_net port) r] \<and>
      vec4_bits r = concat (replicate rep (vec4_bits bt)))) \<and>
    (\<exists>r. extend_signed_recv_vec4 w port bt = Some [Send_vec4 (ptr_net port) r] \<and>
      vec4_bits r = vec4_bits bt @ replicate (w - n) (last (vec4_bits bt)) \<and>
      bits_snum (vec4_bits r) = bits_snum (vec4_bits bt))"
proof (intro conjI impI)
  assume "0 < rep"
  obtain r where r: "foldM (\<lambda>rdx val. let off = rdx * n
             in foldM (\<lambda>idx val. vec4_set_bit val (off + idx) (vec4_value bt idx)) [0..<n] val)
           [0..<rep] (vec4_new (rep * n) BIT4_X) = Some r"
    "vec_size r = rep * n" "take (rep * n) (vec4_bits r) = concat (replicate rep (vec4_bits bt))"
    using repeat_bits[OF assms(1) refl] by blast
  then show "\<exists>r. repeat_recv_vec4 (rep * n) rep port bt = Some [Send_vec4 (ptr_net port) r] \<and>
      vec4_bits r = concat (replicate rep (vec4_bits bt))"
    using assms(1) \<open>0 < rep\<close> by (simp add: repeat_recv_vec4_def)
next
  have ne: "vec4_bits bt \<noteq> []" using assms by (metis length_0_conv length_vec4_bits less_numeral_extra(3))
  show "\<exists>r. extend_signed_recv_vec4 w port bt = Some [Send_vec4 (ptr_net port) r] \<and>
      vec4_bits r = vec4_bits bt @ replicate (w - n) (last (vec4_bits bt)) \<and>
      bits_snum (vec4_bits r) = bits_snum (vec4_bits bt)"
  proof (cases "n < w")
    case True
    then obtain r where "extend_signed_recv_vec4 w port bt = Some [Send_vec4 (ptr_net port) r]"
      "vec4_bits r = vec4_bits bt @ replicate (w - n) (last (vec4_bits bt))"
      using extend_bits[OF assms(1), of w port] assms(2) by auto
    then show ?thesis using bits_snum_extend[OF ne] by simp
  next
    case False
    then show ?thesis using assms by (simp add: extend_signed_recv_vec4_def)
  qed
qed

section \<open>Part selects\<close>

definition part_bits :: "nat \<Rightarrow> nat \<Rightarrow> vvp_vector4_t \<Rightarrow> vvp_bit4_t list" where
  "part_bits base wid v = map (\<lambda>i. vec4_value v (base + i)) [0..<wid]"

text \<open>The constant part select. It can take a part value once it has stored a first part.\<close>

fun part_fits :: "nat \<Rightarrow> nat \<Rightarrow> net_msg \<Rightarrow> vvp_vector4_t \<Rightarrow> bool" where
  "part_fits pbase pwid (Recv_vec4 p v) d \<longleftrightarrow> ptr_port p = 0"
| "part_fits pbase pwid (Recv_vec4_pv p v base wid vwid) d \<longleftrightarrow> ptr_port p = 0 \<and> vec_size v = wid \<and> 0 < wid \<and>
     base + wid \<le> vwid \<and> 0 < vec_size d \<and> pbase + vec_size d \<le> vwid"
| "part_fits pbase pwid (Recv_vec8 p v) d \<longleftrightarrow> ptr_port p = 0"
| "part_fits pbase pwid m d \<longleftrightarrow> False"

lemma part_message4:
  assumes "ptr_port p = 0" "vec4_wf (fdata s)"
  shows "message_law vec4_wf vec4_bits s (ptr_net p) (part_sa_recv_vec4 pbase pwid p v s)"
proof -
  obtain r where r: "vec4_subvalue v pbase pwid = Some r" "vec4_wf r" using vec4_subvalue_bits[of v pbase pwid] by blast
  have "message_law vec4_wf vec4_bits s (ptr_net p) (Some (request_run p (s\<lparr>fdata := r\<rparr>)))"
    by (rule message_law_request) (rule r(2))
  moreover have "message_law vec4_wf vec4_bits s (ptr_net p) (Some (s, []))"
    by (rule message_law_skip) (rule assms(2))
  ultimately show ?thesis using r assms(1) by (simp add: part_sa_recv_vec4_def)
qed

lemma part_message:
  assumes "vec4_wf (fdata s)" "part_fits pbase pwid m (fdata s)"
  shows "message_law vec4_wf vec4_bits s (msg_target m)
    (vec4_methods (part_sa_recv_vec4 pbase pwid) (part_sa_recv_vec4_pv pbase pwid) m s)"
proof (cases m)
  case (Recv_vec4_pv p v base wid vwid)
  then have f: "ptr_port p = 0" "vec_size v = wid" "0 < wid" "base + wid \<le> vwid" "0 < vec_size (fdata s)"
    "pbase + vec_size (fdata s) \<le> vwid" using assms(2) by simp_all
  have "\<exists>t d. vec4_set_vec (vec4_new vwid BIT4_Z) pbase (fdata s) = Some (t, d) \<and> vec4_wf t \<and> vec_size t = vwid"
    by (rule set_part_input[of "vec4_new vwid BIT4_Z" vwid "fdata s" "vec_size (fdata s)" pbase]) (use f in \<open>auto simp: vsize\<close>)
  then obtain t d where t: "vec4_set_vec (vec4_new vwid BIT4_Z) pbase (fdata s) = Some (t, d)" "vec4_wf t" "vec_size t = vwid"
    by blast
  obtain u e where "vec4_set_vec t base v = Some (u, e)"
    by (rule set_part_input[OF t(2,3) f(2-4)]) blast
  then show ?thesis
    using Recv_vec4_pv t f part_message4[OF f(1) assms(1)] by (simp add: part_sa_recv_vec4_pv_def)
next
  case (Recv_vec8 p v)
  obtain b where "reduce4 v = Some b" using reduce4_sized by blast
  then show ?thesis using Recv_vec8 assms part_message4[of p s] by (simp add: fun_recv_vec8_def)
qed (use assms part_message4 in simp_all)

interpretation part_select: lazy_functor "vec4_methods (part_sa_recv_vec4 pbase pwid) (part_sa_recv_vec4_pv pbase pwid)"
  part_sa_run fnet msg_target "\<lambda>s. vec4_bits (fdata s)" sends_bits "\<lambda>s. vec4_wf (fdata s)"
  "\<lambda>m s. part_fits pbase pwid m (fdata s)" for pbase pwid
  by (rule lazy_functorI) (simp_all add: part_message part_sa_run_def sends_bits_def)

text \<open>The bit that the part select with base \<open>k\<close> takes from the source for its result bit \<open>i\<close>.\<close>

definition select_bit :: "vvp_vector4_t \<Rightarrow> int \<Rightarrow> nat \<Rightarrow> vvp_bit4_t" where
  "select_bit source k i = (if 0 \<le> k + int i then vec4_value source (nat (k + int i)) else BIT4_X)"

lemma sint_address:
  fixes base :: "32 word"
  assumes "i < 2 ^ 31"
  shows "sint (base + of_nat i) = (if sint base + int i < 2 ^ 31 then sint base + int i else sint (base + of_nat i))"
    and "2 ^ 31 \<le> sint base + int i \<Longrightarrow> sint (base + of_nat i) < 0"
proof -
  have range: "- (2 ^ 31) \<le> sint base" "sint base < 2 ^ 31"
    using sint_greater_eq[of base] sint_less[of base] by simp_all
  have "base + of_nat i = word_of_int (sint base + int i)" by simp
  then have eq: "sint (base + of_nat i) = signed_take_bit 31 (sint base + int i)" by (simp only: signed_of_int) simp
  show "sint (base + of_nat i) = (if sint base + int i < 2 ^ 31 then sint base + int i else sint (base + of_nat i))"
    using range by (simp add: eq signed_take_bit_int_eq_self)
  assume big: "2 ^ 31 \<le> sint base + int i"
  then have "(sint base + int i) div 2 ^ 31 = 1" using range assms by (intro div_pos_geq[THEN trans]) auto
  then have "bit (sint base + int i) 31" by (simp add: bit_iff_odd)
  then show "sint (base + of_nat i) < 0" by (simp add: eq)
qed

lemma part_var_loop_bits:
  assumes "n \<le> 2 ^ 31" "vec_size source < 2 ^ 31" "vec4_wf res" "vec_size res = n" "k \<le> n"
    and "\<forall>j<n. k \<le> j \<longrightarrow> vec4_value res j = BIT4_X"
  shows "\<exists>r. part_var_loop base source [k..<n] res = Some r \<and> vec4_wf r \<and> vec_size r = n \<and>
    (\<forall>j<n. vec4_value r j = (if j < k then vec4_value res j else select_bit source (sint base) j))"
  using assms(3-6)
proof (induction "n - k" arbitrary: k res)
  case 0
  then show ?case by simp
next
  case (Suc d)
  then have k: "k < n" "[k..<n] = k # [Suc k..<n]" by (simp_all add: upt_conv_Cons)
  let ?adr = "base + of_nat k" and ?sel = "select_bit source (sint base)"
  have k31: "k < 2 ^ 31" using k assms(1) by simp
  note adr = sint_address[OF k31, of base]
  have unat: "unat ?adr = nat (sint ?adr)" if "0 \<le> sint ?adr"
  proof -
    have "sint ?adr < 2 ^ 32" using sint_less[of ?adr] by simp
    then have "uint ?adr = sint ?adr" using that by (simp add: uint_sint take_bit_int_eq_self)
    then show ?thesis by (simp add: unat_eq_nat_uint)
  qed
  show ?case
  proof (cases "sint ?adr < 0")
    case True
    have "?sel k = BIT4_X"
      using True adr assms(2) by (cases "sint base + int k < 2 ^ 31") (auto simp: select_bit_def)
    moreover have "vec4_value res k = BIT4_X" using Suc.prems(4) k(1) by simp
    moreover have "\<exists>r. part_var_loop base source [Suc k..<n] res = Some r \<and> vec4_wf r \<and> vec_size r = n \<and>
      (\<forall>j<n. vec4_value r j = (if j < Suc k then vec4_value res j else ?sel j))"
      by (rule Suc.hyps(1)) (use Suc.hyps(2) Suc.prems k in auto)
    then obtain r where "part_var_loop base source [Suc k..<n] res = Some r" "vec4_wf r" "vec_size r = n"
      "\<forall>j<n. vec4_value r j = (if j < Suc k then vec4_value res j else ?sel j)" by blast
    ultimately show ?thesis
      using True k(2) by (intro exI[of _ r]) (auto simp: Let_def less_Suc_eq)
  next
    case False
    then have pos: "sint ?adr = sint base + int k" using adr by (auto split: if_splits)
    show ?thesis
    proof (cases "vec_size source \<le> unat ?adr")
      case True
      then have "?sel j = BIT4_X" if "k \<le> j" for j
        using that False pos unat by (auto simp: select_bit_def nat_le_iff le_nat_iff)
      then show ?thesis using True False k Suc.prems by (auto simp: Let_def not_less)
    next
      case inside: False
      obtain res' where res': "vec4_set_bit res k (vec4_value source (unat ?adr)) = Some res'" "vec4_wf res'"
        "vec_size res' = n" "\<forall>j<n. vec4_value res' j = (if j = k then vec4_value source (unat ?adr) else vec4_value res j)"
        using vec4_set_bit_correct[OF Suc.prems(1), of k] Suc.prems(2) k by auto
      have "vec4_value source (unat ?adr) = ?sel k" using False pos unat by (simp add: select_bit_def)
      moreover have "\<exists>r. part_var_loop base source [Suc k..<n] res' = Some r \<and> vec4_wf r \<and> vec_size r = n \<and>
        (\<forall>j<n. vec4_value r j = (if j < Suc k then vec4_value res' j else ?sel j))"
        by (rule Suc.hyps(1)) (use Suc.hyps(2) Suc.prems k res' in auto)
      then obtain r where "part_var_loop base source [Suc k..<n] res' = Some r" "vec4_wf r" "vec_size r = n"
        "\<forall>j<n. vec4_value r j = (if j < Suc k then vec4_value res' j else ?sel j)" by blast
      ultimately show ?thesis
        using False inside k(2) res' by (intro exI[of _ r]) (auto simp: Let_def less_Suc_eq)
    qed
  qed
qed

text \<open>What the output register holds: nothing before the first message with an effect, later the selection.\<close>

definition part_var_settled :: "nat \<Rightarrow> vvp_fun_part_var \<Rightarrow> bool" where
  "part_var_settled pwid s \<longleftrightarrow> s = part_var_new \<or>
     vec4_bits (pvar_ref s) = map (select_bit (pvar_source s) (sint (pvar_base s))) [0..<pwid]"

text \<open>C22. The part select with a variable base: from its creation on, its output register always holds the bits of the
  last source from the base on, X before the beginning and beyond the end of the source, although the addresses
  are computed in wrapping 32-bit integers (for a part of at most two to the 31 bits of a source below that). It sends exactly when
  this value changes. The base is the signed 32-bit integer that
  \<^verbatim>\<open>vector4_to_value\<close> makes of the last vector received, the least integer when it is unknown: of a longer vector only the
  lower 32 bits count, and a value of two to the 31 or more is taken as the negative number with the same lower bits, so that
  there the functor selects bits at a wrapped position where the language asks for X.\<close>

theorem part_var_select:
  assumes "pwid \<le> 2 ^ 31" "vec_size (pvar_source s') < 2 ^ 31"
    and "part_var_recv pwid is_signed port bt s = Some (s', changed)" "part_var_settled pwid s"
  shows "part_var_settled pwid s' \<and> part_var_settled pwid part_var_new \<and>
    (changed \<longleftrightarrow> vec4_bits (pvar_ref s') \<noteq> vec4_bits (pvar_ref s)) \<and>
    pvar_source s' = (if ptr_port port = 0 then bt else pvar_source s) \<and>
    pvar_base s' = (if ptr_port port = 1
       then (case snd (vec4_to_value bt is_signed True) of None \<Rightarrow> 0x80000000 | Some v \<Rightarrow> v) else pvar_base s)"
proof -
  have upd: "pvar_source t' = pvar_source t \<and> pvar_base t' = pvar_base t \<and>
      vec4_bits (pvar_ref t') = map (select_bit (pvar_source t) (sint (pvar_base t))) [0..<pwid] \<and>
      (b \<longleftrightarrow> vec4_bits (pvar_ref t') \<noteq> vec4_bits (pvar_ref t))"
    if run: "part_var_update pwid t = Some (t', b)" and bound: "vec_size (pvar_source t') < 2 ^ 31" for t t' b
  proof -
    have src: "pvar_source t' = pvar_source t" "pvar_base t' = pvar_base t"
      using run by (auto simp: part_var_update_def split: option.splits if_splits)
    have "\<exists>r. part_var_loop (pvar_base t) (pvar_source t) [0..<pwid] (vec4_new pwid BIT4_X) = Some r \<and> vec4_wf r \<and>
      vec_size r = pwid \<and> (\<forall>j<pwid. vec4_value r j = (if j < 0 then vec4_value (vec4_new pwid BIT4_X) j
        else select_bit (pvar_source t) (sint (pvar_base t)) j))"
      by (rule part_var_loop_bits[OF assms(1)]) (use bound src in \<open>auto simp: vsize bitlevel\<close>)
    then obtain r where r: "part_var_loop (pvar_base t) (pvar_source t) [0..<pwid] (vec4_new pwid BIT4_X) = Some r"
      "vec_size r = pwid" "\<forall>j<pwid. vec4_value r j = select_bit (pvar_source t) (sint (pvar_base t)) j"
      by (simp only: not_less_zero if_False) blast
    then have "vec4_bits r = map (select_bit (pvar_source t) (sint (pvar_base t))) [0..<pwid]"
      by (simp add: vec4_bits_def)
    moreover have "if vec4_eeq (pvar_ref t) r then t' = t \<and> \<not> b else t' = t\<lparr>pvar_ref := r\<rparr> \<and> b"
      using run r(1) by (simp add: part_var_update_def split: if_splits)
    ultimately show ?thesis
      using src vec4_eeq_iff[of "pvar_ref t" r] by (cases "vec4_eeq (pvar_ref t) r") (simp only: if_True if_False simp_thms, force)+
  qed
  let ?tmp = "case snd (vec4_to_value bt is_signed True) of None \<Rightarrow> 0x80000000 | Some v \<Rightarrow> v"
  consider "ptr_port port = 0" | "ptr_port port = 1" "?tmp = pvar_base s" | "ptr_port port = 1" "?tmp \<noteq> pvar_base s"
    using assms(3) by (auto simp: part_var_recv_def split: if_splits)
  then show ?thesis
  proof cases
    case 1
    then have "part_var_update pwid (s\<lparr>pvar_source := bt\<rparr>) = Some (s', changed)" using assms(3) by (simp add: part_var_recv_def)
    from upd[OF this assms(2)] show ?thesis using 1 by (simp add: part_var_settled_def)
  next
    case 2
    then have "s' = s \<and> \<not> changed" using assms(3) by (simp add: part_var_recv_def)
    then show ?thesis using 2 assms(4) by (simp add: part_var_settled_def)
  next
    case 3
    then have "part_var_update pwid (s\<lparr>pvar_base := ?tmp\<rparr>) = Some (s', changed)" using assms(3) by (simp add: part_var_recv_def)
    from upd[OF this assms(2)] show ?thesis using 3 by (simp add: part_var_settled_def)
  qed
qed

theorem part_var_select_witness:
  "\<exists>s'. part_var_recv 2 True \<lparr>ptr_net = 4, ptr_port = 0\<rparr> (vec4_new 1 BIT4_1) part_var_new = Some (s', True) \<and>
     part_var_settled 2 s'"
proof -
  let ?p = "\<lparr>ptr_net = 4, ptr_port = 0 :: nat\<rparr>" and ?v = "vec4_new 1 BIT4_1"
  have "\<exists>r. part_var_loop 0 ?v [0..<2] (vec4_new 2 BIT4_X) = Some r \<and> vec4_wf r \<and> vec_size r = 2 \<and>
    (\<forall>j<2. vec4_value r j = (if j < 0 then vec4_value (vec4_new 2 BIT4_X) j else select_bit ?v (sint (0 :: 32 word)) j))"
    by (rule part_var_loop_bits) (auto simp: vsize bitlevel)
  then obtain r where r: "part_var_loop 0 ?v [0..<2] (vec4_new 2 BIT4_X) = Some r" "vec_size r = 2" by blast
  have "vec_size r \<noteq> vec_size (pvar_ref part_var_new)" using r(2) by (simp add: part_var_new_def vsize)
  then have "\<not> vec4_eeq (pvar_ref part_var_new) r" by (metis vec4_eeq_iff length_vec4_bits)
  then have s': "part_var_recv 2 True ?p ?v part_var_new = Some (part_var_new\<lparr>pvar_source := ?v, pvar_ref := r\<rparr>, True)"
    using r(1) by (simp add: part_var_recv_def part_var_update_def part_var_new_def)
  then show ?thesis using part_var_select[OF _ _ s'] by (simp add: vsize part_var_settled_def)
qed

end
