(* ===== verification/Vector2.thy ===== *)
theory Vector2
  imports Vector4_Memory
begin

text \<open>
  The two-valued vector \<^verbatim>\<open>vvp_vector2_t\<close> (\<^verbatim>\<open>vvp_net.h\<close>, \<^verbatim>\<open>vvp_net.cc\<close>), on which the arithmetic
  functors compute when a width exceeds a machine word: an array of words with the least significant first.
  This theory holds the representation, conversion from and to \<^verbatim>\<open>vvp_vector4_t\<close>, the access to bits,
  the comparisons and the shifts; \<open>Vector2_Arith\<close> holds the arithmetic. Many operations are only right for a vector
  whose bits above its width in the top word are 0 (\<open>vec2_clean\<close>), and some leave others behind. A null pointer
  is the empty list; reading or writing beyond the array is outside the model where it is not said to be \<open>None\<close>.
\<close>

section \<open>Representation\<close>

record vvp_vector2_t =
  v2_size :: nat
  v2_vec :: "u64 list"

definition vec2_null :: vvp_vector2_t where
  "vec2_null = \<lparr>v2_size = 0, v2_vec = []\<rparr>"

definition vec2_new :: "u64 \<Rightarrow> nat \<Rightarrow> vvp_vector2_t" where
  "vec2_new v wid =
     (let words = (wid + 63) div 64
      in \<lparr>v2_size = wid, v2_vec = (if words = 0 then [] else v # replicate (words - 1) 0)\<rparr>)"

datatype fill_t = FILL0 | FILL1

definition vec2_fill :: "fill_t \<Rightarrow> nat \<Rightarrow> vvp_vector2_t" where
  "vec2_fill fill wid =
     (let words = (wid + 63) div 64
      in \<lparr>v2_size = wid, v2_vec = replicate words (case fill of FILL0 \<Rightarrow> 0 | FILL1 \<Rightarrow> - 1)\<rparr>)"

definition vec2_value :: "vvp_vector2_t \<Rightarrow> nat \<Rightarrow> nat" where
  "vec2_value v idx =
     (if v2_size v \<le> idx then 0
      else let addr = idx div 64; msk = idx mod 64
           in if (v2_vec v ! addr) AND shl 1 msk \<noteq> 0 then 1 else 0)"

definition vec2_value4 :: "vvp_vector2_t \<Rightarrow> nat \<Rightarrow> vvp_bit4_t" where
  "vec2_value4 v idx = (if vec2_value v idx \<noteq> 0 then BIT4_1 else BIT4_0)"

text \<open>The constructor for a part does not clear the array it allocates: \<open>fresh\<close> is what the memory holds.\<close>

definition vec2_part :: "u64 list \<Rightarrow> vvp_vector2_t \<Rightarrow> nat \<Rightarrow> nat \<Rightarrow> vvp_vector2_t" where
  "vec2_part fresh that base wid =
     \<lparr>v2_size = wid,
      v2_vec = fold (\<lambda>idx vec.
          if vec2_value that (base + idx) = 0 then vec
          else vec[idx div 64 := (vec ! (idx div 64)) OR shl 1 (idx mod 64)]) [0..<wid] fresh\<rparr>"

definition vec2_copy_from_vec4 :: "vvp_vector4_t \<Rightarrow> vvp_vector2_t option" where
  "vec2_copy_from_vec4 that =
     (let words = (vec_size that + 63) div 64
      in if words = 0 then Some vec2_null
         else case vec4_subarray that 0 (vec_size that) True of
                None \<Rightarrow> None
              | Some None \<Rightarrow> None
              | Some (Some ws) \<Rightarrow> Some \<lparr>v2_size = vec_size that, v2_vec = ws\<rparr>)"

definition vec2_copy :: "vvp_vector2_t \<Rightarrow> vvp_vector2_t" where
  "vec2_copy that =
     (let words = (v2_size that + 63) div 64
      in if words = 0 then vec2_null
         else \<lparr>v2_size = v2_size that, v2_vec = map (\<lambda>idx. v2_vec that ! idx) [0..<words]\<rparr>)"

definition vec2_resize :: "vvp_vector2_t \<Rightarrow> nat \<Rightarrow> vvp_vector2_t" where
  "vec2_resize that newsize =
     (if newsize = 0 then vec2_null
      else let words = (newsize + 63) div 64; twords = (v2_size that + 63) div 64
           in \<lparr>v2_size = newsize, v2_vec = map (\<lambda>idx. if idx < twords then v2_vec that ! idx else 0) [0..<words]\<rparr>)"

definition vec2_from_vec4 :: "vvp_vector4_t \<Rightarrow> bool \<Rightarrow> vvp_vector2_t option" where
  "vec2_from_vec4 that enable_NaN =
     (if enable_NaN \<and> vec4_has_xz that then Some vec2_null else vec2_copy_from_vec4 that)"

definition vec2_set_bit :: "vvp_vector2_t \<Rightarrow> nat \<Rightarrow> nat \<Rightarrow> vvp_vector2_t option" where
  "vec2_set_bit v idx b =
     (if \<not> idx < v2_size v then None
      else let addr = idx div 64; msk = idx mod 64
           in Some (v\<lparr>v2_vec := (v2_vec v)[addr :=
                (if b \<noteq> 0 then (v2_vec v ! addr) OR shl 1 msk else (v2_vec v ! addr) AND NOT (shl 1 msk))]\<rparr>))"

definition vec2_set_vec :: "vvp_vector2_t \<Rightarrow> nat \<Rightarrow> vvp_vector2_t \<Rightarrow> vvp_vector2_t option" where
  "vec2_set_vec v adr that =
     (if \<not> adr + v2_size that \<le> v2_size v then None
      else foldM (\<lambda>idx v. vec2_set_bit v (adr + idx) (vec2_value that idx)) [0..<v2_size that] v)"

definition vector2_to_vector4 :: "vvp_vector2_t \<Rightarrow> nat \<Rightarrow> vvp_vector4_t option" where
  "vector2_to_vector4 that wid =
     foldM (\<lambda>idx res. vec4_set_bit res idx (if vec2_value that idx \<noteq> 0 then BIT4_1 else BIT4_0)) [0..<wid] (vec4_new wid BIT4_X)"

section \<open>Tests\<close>

definition vec2_is_NaN :: "vvp_vector2_t \<Rightarrow> bool" where
  "vec2_is_NaN v \<longleftrightarrow> v2_size v = 0"

definition vec2_is_zero :: "vvp_vector2_t \<Rightarrow> bool" where
  "vec2_is_zero v \<longleftrightarrow> (let words = (v2_size v + 63) div 64 in list_all (\<lambda>idx. v2_vec v ! idx = 0) [0..<words])"

text \<open>The next two read the first word of a vector without one when the width is 0.\<close>

definition vec2_is_one :: "vvp_vector2_t \<Rightarrow> bool option" where
  "vec2_is_one v =
     (if v2_size v = 0 then None
      else if v2_vec v ! 0 \<noteq> 1 then Some False
      else let words = (v2_size v + 63) div 64 in Some (list_all (\<lambda>idx. v2_vec v ! idx = 0) [1..<words]))"

definition vec2_is_all_one :: "vvp_vector2_t \<Rightarrow> bool option" where
  "vec2_is_all_one v =
     (if v2_size v = 0 then None
      else let words = (v2_size v - 1) div 64
           in Some (list_all (\<lambda>idx. v2_vec v ! idx = - 1) [0..<words] \<and>
                list_all (\<lambda>idx. vec2_value v idx = 1) [words * 64..<v2_size v]))"

text \<open>The width at which \<^verbatim>\<open>trim\<close> and \<^verbatim>\<open>trim_neg\<close> stop; the array stays as it is.\<close>

fun trim_width :: "vvp_vector2_t \<Rightarrow> nat \<Rightarrow> nat" where
  "trim_width v wid =
     (if vec2_value (v\<lparr>v2_size := wid\<rparr>) (wid - 1) = 0 \<and> wid > 1 then trim_width v (wid - 1) else wid)"

definition vec2_trim :: "vvp_vector2_t \<Rightarrow> vvp_vector2_t" where
  "vec2_trim v = v\<lparr>v2_size := trim_width v (v2_size v)\<rparr>"

fun trim_neg_width :: "vvp_vector2_t \<Rightarrow> nat \<Rightarrow> nat" where
  "trim_neg_width v wid =
     (if vec2_value (v\<lparr>v2_size := wid\<rparr>) (wid - 2) = 1 \<and> wid > 32 then trim_neg_width v (wid - 1) else wid)"

definition vec2_trim_neg :: "vvp_vector2_t \<Rightarrow> vvp_vector2_t" where
  "vec2_trim_neg v =
     (if vec2_value v (v2_size v - 1) = 1 \<and> v2_size v > 32 then v\<lparr>v2_size := trim_neg_width v (v2_size v)\<rparr> else v)"

section \<open>Comparison\<close>

text \<open>The loop of all five operators, from the top word down: the answer of the first words that differ.\<close>

fun compare_words :: "vvp_vector2_t \<Rightarrow> vvp_vector2_t \<Rightarrow> nat \<Rightarrow> bool option" where
  "compare_words a b 0 = None"
| "compare_words a b (Suc k) =
     (let awords = (v2_size a + 63) div 64; bwords = (v2_size b + 63) div 64;
          aw = (if Suc k \<le> awords then v2_vec a ! k else 0); bw = (if Suc k \<le> bwords then v2_vec b ! k else 0)
      in if aw > bw then Some True else if aw < bw then Some False else compare_words a b k)"

definition compare_vec2 :: "vvp_vector2_t \<Rightarrow> vvp_vector2_t \<Rightarrow> bool option" where
  "compare_vec2 a b =
     (let awords = (v2_size a + 63) div 64; bwords = (v2_size b + 63) div 64
      in compare_words a b (if awords > bwords then awords else bwords))"

definition vec2_gt :: "vvp_vector2_t \<Rightarrow> vvp_vector2_t \<Rightarrow> bool" where
  "vec2_gt a b = (case compare_vec2 a b of None \<Rightarrow> False | Some is_gt \<Rightarrow> is_gt)"

definition vec2_ge :: "vvp_vector2_t \<Rightarrow> vvp_vector2_t \<Rightarrow> bool" where
  "vec2_ge a b = (case compare_vec2 a b of None \<Rightarrow> True | Some is_gt \<Rightarrow> is_gt)"

definition vec2_lt :: "vvp_vector2_t \<Rightarrow> vvp_vector2_t \<Rightarrow> bool" where
  "vec2_lt a b = (case compare_vec2 a b of None \<Rightarrow> False | Some is_gt \<Rightarrow> \<not> is_gt)"

definition vec2_le :: "vvp_vector2_t \<Rightarrow> vvp_vector2_t \<Rightarrow> bool option" where
  "vec2_le a b =
     (if v2_size a \<noteq> v2_size b then None
      else Some (case compare_vec2 a b of None \<Rightarrow> True | Some is_gt \<Rightarrow> \<not> is_gt))"

definition vec2_eq :: "vvp_vector2_t \<Rightarrow> vvp_vector2_t \<Rightarrow> bool" where
  "vec2_eq a b = (case compare_vec2 a b of None \<Rightarrow> True | Some is_gt \<Rightarrow> False)"

section \<open>Shifts\<close>

definition shl_words :: "nat \<Rightarrow> nat \<Rightarrow> u64 list \<Rightarrow> u64 list" where
  "shl_words words wshift vec =
     (if wshift > 0
      then fold (\<lambda>idx vec. vec[idx := 0]) [0..<wshift]
             (fold (\<lambda>idx vec. vec[words - idx - 1 := vec ! (words - idx - 1 - wshift)]) [0..<words - wshift] vec)
      else vec)"

definition shl_fine :: "nat \<Rightarrow> nat \<Rightarrow> u64 list \<times> u64 \<Rightarrow> u64 list \<times> u64" where
  "shl_fine oshift idx st =
     (let (vec, pad) = st; next_pad = shr (vec ! idx) (64 - oshift)
      in (vec[idx := (shl (vec ! idx) oshift) OR pad], next_pad))"

definition vec2_shl :: "vvp_vector2_t \<Rightarrow> nat \<Rightarrow> vvp_vector2_t" where
  "vec2_shl v shift =
     (if v2_size v = 0 then v
      else let words = (v2_size v + 63) div 64; wshift = shift div 64; oshift = shift mod 64
           in if wshift \<ge> words then v\<lparr>v2_vec := replicate words 0\<rparr>
              else let vec = shl_words words wshift (v2_vec v)
                   in if oshift \<noteq> 0
                      then let vec = fst (fold (shl_fine oshift) [0..<words] (vec, 0));
                               msk = shr (- 1) (64 - v2_size v mod 64)
                           in v\<lparr>v2_vec := vec[words - 1 := (vec ! (words - 1)) AND msk]\<rparr>
                      else v\<lparr>v2_vec := vec\<rparr>)"

definition shr_words :: "nat \<Rightarrow> nat \<Rightarrow> u64 list \<Rightarrow> u64 list" where
  "shr_words words wshift vec =
     (if wshift > 0
      then fold (\<lambda>idx vec. vec[idx := 0]) [words - wshift..<words]
             (fold (\<lambda>idx vec. vec[idx := vec ! (idx + wshift)]) [0..<words - wshift] vec)
      else vec)"

text \<open>The loop counts \<^verbatim>\<open>idx\<close> from \<^verbatim>\<open>words\<close> down to 1.\<close>

definition shr_fine :: "nat \<Rightarrow> nat \<Rightarrow> u64 list \<times> u64 \<Rightarrow> u64 list \<times> u64" where
  "shr_fine oshift idx st =
     (let (vec, pad) = st; new_pad = shl (vec ! (idx - 1)) (64 - oshift)
      in (vec[idx - 1 := pad OR shr (vec ! (idx - 1)) oshift], new_pad))"

fun mask_tail :: "nat \<Rightarrow> nat \<Rightarrow> u64 list \<Rightarrow> u64 list option" where
  "mask_tail use_words mask_shift vec =
     (if mask_shift \<ge> 64 then mask_tail (use_words - 1) (mask_shift - 64) (vec[use_words - 1 := 0])
      else if mask_shift > 0 then
        if \<not> use_words > 0 then None
        else Some (vec[use_words - 1 := (vec ! (use_words - 1)) AND shr (- 1) mask_shift])
      else Some vec)"

definition vec2_shr :: "vvp_vector2_t \<Rightarrow> nat \<Rightarrow> vvp_vector2_t option" where
  "vec2_shr v shift =
     (if v2_size v = 0 then Some v
      else let words = (v2_size v + 63) div 64; wshift = shift div 64; oshift = shift mod 64
           in if wshift \<ge> words then Some (v\<lparr>v2_vec := replicate words 0\<rparr>)
              else let vec = shr_words words wshift (v2_vec v)
                   in if oshift > 0
                      then let vec = fst (fold (shr_fine oshift) (rev [1..<Suc words]) (vec, 0));
                               mask_shift = (64 - v2_size v mod 64) mod 64 + oshift
                           in (case mask_tail words mask_shift vec of None \<Rightarrow> None | Some vec \<Rightarrow> Some (v\<lparr>v2_vec := vec\<rparr>))
                      else Some (v\<lparr>v2_vec := vec\<rparr>))"

declare trim_width.simps [simp del] trim_neg_width.simps [simp del] mask_tail.simps [simp del]

section \<open>The number a vector stands for\<close>

definition vec2_num :: "vvp_vector2_t \<Rightarrow> nat" where
  "vec2_num v = words_val (v2_vec v)"

definition vec2_ok :: "vvp_vector2_t \<Rightarrow> bool" where
  "vec2_ok v \<longleftrightarrow> length (v2_vec v) = word_count (v2_size v)"

definition vec2_clean :: "vvp_vector2_t \<Rightarrow> bool" where
  "vec2_clean v \<longleftrightarrow> vec2_ok v \<and> vec2_num v < 2 ^ v2_size v"

lemma bit_words_valI:
  assumes "length ws = n" "\<And>j m. j < n \<Longrightarrow> m < 64 \<Longrightarrow> bit (ws ! j) m \<longleftrightarrow> P (64 * j + m)"
  shows "bit (words_val ws) i \<longleftrightarrow> i < 64 * n \<and> P i"
proof -
  have "i div 64 < n \<longleftrightarrow> i < 64 * n" by (simp add: div_less_iff_less_mult mult.commute)
  moreover have "64 * (i div 64) + i mod 64 = i" by simp
  ultimately show ?thesis using assms(1) assms(2)[of "i div 64" "i mod 64"] by (auto simp: bit_words_val)
qed

lemma bit_words_val_at: "m < 64 \<Longrightarrow> bit (words_val ws) (64 * j + m) \<longleftrightarrow> j < length ws \<and> bit (ws ! j) m"
  by (simp add: bit_words_val)

lemma nat_less_exp_iff: "(x :: nat) < 2 ^ n \<longleftrightarrow> (\<forall>i\<ge>n. \<not> bit x i)"
proof
  assume "x < 2 ^ n"
  then have "take_bit n x = x" by (simp add: take_bit_nat_eq_self)
  then show "\<forall>i\<ge>n. \<not> bit x i" by (metis bit_take_bit_iff not_less)
next
  assume high: "\<forall>i\<ge>n. \<not> bit x i"
  have "bit (take_bit n x) i = bit x i" for i using high by (cases "i < n") (simp_all add: bit_take_bit_iff)
  then have "take_bit n x = x" by (rule bit_eqI)
  then show "x < 2 ^ n" by (metis take_bit_nat_less_exp)
qed

lemma vec2_num_less: "vec2_ok v \<Longrightarrow> vec2_num v < 2 ^ (64 * word_count (v2_size v))"
  using words_val_less[of "v2_vec v"] by (simp add: vec2_ok_def vec2_num_def)

lemma bit_shl_1: "m < 64 \<Longrightarrow> bit (shl 1 m) j \<longleftrightarrow> j = m"
  by (auto simp: bit_shl bit_1_iff)

lemma and_shl_1: "m < 64 \<Longrightarrow> (w AND shl 1 m) \<noteq> 0 \<longleftrightarrow> bit w m"
  by (auto simp: u64_zero_iff bit_and_iff bit_shl_1)

lemma vec2_value_bit:
  "vec2_ok v \<Longrightarrow> vec2_value v i = of_bool (i < v2_size v \<and> bit (vec2_num v) i)"
  using div_less_word_count[of i "v2_size v"]
  by (auto simp: vec2_value_def vec2_num_def bit_words_val vec2_ok_def and_shl_1 Let_def)

section \<open>Comparison is comparison of numbers\<close>

lemma words_val_take_step:
  "words_val (take (Suc k) ws) = words_val (take k ws) + 2 ^ (64 * k) * unat (if k < length ws then ws ! k else 0)"
  by (cases "k < length ws") (simp_all add: words_val_take_Suc)

lemma top_word_decides:
  fixes x y :: nat
  assumes "x < 2 ^ n" "y < 2 ^ n"
  shows "x + 2 ^ n * a > y + 2 ^ n * b \<longleftrightarrow> a > b \<or> a = b \<and> x > y"
proof -
  have step: "p + 2 ^ n * c < q + 2 ^ n * d" if "c < d" "p < 2 ^ n" for c d p q :: nat
  proof -
    have "2 ^ n * Suc c \<le> 2 ^ n * d" using that(1) by (intro mult_le_mono2) simp
    then show ?thesis using that(2) by simp
  qed
  show ?thesis
    using step[of a b x y] step[of b a y x] assms by (cases a b rule: linorder_cases) auto
qed

lemma compare_words_num:
  assumes "vec2_ok a" "vec2_ok b"
  shows "compare_words a b k =
    (let x = words_val (take k (v2_vec a)); y = words_val (take k (v2_vec b))
     in if x > y then Some True else if x < y then Some False else None)"
proof (induction k)
  case (Suc k)
  let ?x = "words_val (take k (v2_vec a))" and ?y = "words_val (take k (v2_vec b))"
  let ?aw = "if k < length (v2_vec a) then v2_vec a ! k else 0" and ?bw = "if k < length (v2_vec b) then v2_vec b ! k else 0"
  have less: "?x < 2 ^ (64 * k)" "?y < 2 ^ (64 * k)"
    using words_val_less[of "take k (v2_vec a)"] words_val_less[of "take k (v2_vec b)"]
    by (auto intro: order_less_le_trans)
  have gt: "words_val (take (Suc k) (v2_vec a)) > words_val (take (Suc k) (v2_vec b)) \<longleftrightarrow> ?aw > ?bw \<or> ?aw = ?bw \<and> ?x > ?y"
    using top_word_decides[OF less, where a = "unat ?aw" and b = "unat ?bw"]
    by (simp only: words_val_take_step word_less_nat_alt word_unat_eq_iff)
  have lt: "words_val (take (Suc k) (v2_vec a)) < words_val (take (Suc k) (v2_vec b)) \<longleftrightarrow> ?aw < ?bw \<or> ?aw = ?bw \<and> ?x < ?y"
    using top_word_decides[OF less(2,1), where a = "unat ?bw" and b = "unat ?aw"]
    by (simp only: words_val_take_step word_less_nat_alt word_unat_eq_iff) auto
  have "compare_words a b (Suc k) = (if ?aw > ?bw then Some True else if ?aw < ?bw then Some False else compare_words a b k)"
    using assms by (simp add: vec2_ok_def Let_def Suc_le_eq)
  then show ?case
    unfolding Let_def gt lt Suc.IH by (cases ?aw ?bw rule: linorder_cases) auto
qed simp

lemma compare_vec2_num:
  assumes "vec2_ok a" "vec2_ok b"
  shows "compare_vec2 a b =
    (if vec2_num a > vec2_num b then Some True else if vec2_num a < vec2_num b then Some False else None)"
proof -
  let ?n = "if word_count (v2_size a) > word_count (v2_size b) then word_count (v2_size a) else word_count (v2_size b)"
  have "take ?n (v2_vec a) = v2_vec a" "take ?n (v2_vec b) = v2_vec b" using assms by (simp_all add: vec2_ok_def)
  then show ?thesis
    using compare_words_num[OF assms, of ?n] by (simp only: compare_vec2_def vec2_num_def Let_def)
qed

lemma vec2_order:
  assumes "vec2_ok a" "vec2_ok b"
  shows "vec2_gt a b \<longleftrightarrow> vec2_num a > vec2_num b" "vec2_ge a b \<longleftrightarrow> vec2_num a \<ge> vec2_num b"
    "vec2_lt a b \<longleftrightarrow> vec2_num a < vec2_num b" "vec2_eq a b \<longleftrightarrow> vec2_num a = vec2_num b"
    "v2_size a = v2_size b \<Longrightarrow> vec2_le a b = Some (vec2_num a \<le> vec2_num b)"
    "v2_size a \<noteq> v2_size b \<Longrightarrow> vec2_le a b = None"
  using compare_vec2_num[OF assms]
  by (auto simp: vec2_gt_def vec2_ge_def vec2_lt_def vec2_eq_def vec2_le_def)

section \<open>Shifts are multiplication and division\<close>

lemma shl_words_nth:
  assumes "length vec = words" "wshift < words" "j < words"
  shows "length (shl_words words wshift vec) = words \<and>
    shl_words words wshift vec ! j = (if j < wshift then 0 else vec ! (j - wshift))"
proof (cases "wshift = 0")
  case True
  then show ?thesis using assms by (simp add: shl_words_def)
next
  case False
  let ?move = "\<lambda>idx vec. vec[words - idx - 1 := vec ! (words - idx - 1 - wshift)]"
  have move: "length (fold ?move [0..<k] vec) = words \<and>
      (\<forall>i<words. fold ?move [0..<k] vec ! i = (if words - k \<le> i then vec ! (i - wshift) else vec ! i))"
    if "k \<le> words - wshift" for k
    using that
  proof (induction k)
    case (Suc k)
    let ?v = "fold ?move [0..<k] vec"
    have IH: "length ?v = words" "\<forall>i<words. ?v ! i = (if words - k \<le> i then vec ! (i - wshift) else vec ! i)"
      using Suc by simp_all
    have "?v ! (words - k - 1 - wshift) = vec ! (words - k - 1 - wshift)" using IH(2) Suc.prems False assms(2) by simp
    moreover have "words - Suc k \<le> i \<longleftrightarrow> words - k \<le> i \<or> i = words - k - 1" if "i < words" for i
      using Suc.prems assms(2) that by linarith
    ultimately show ?case using IH Suc.prems by (simp add: nth_list_update)
  qed (use assms(1) in simp)
  let ?m = "fold ?move [0..<words - wshift] vec" and ?zero = "\<lambda>idx vec. vec[idx := 0 :: u64]"
  have m: "length ?m = words" "\<forall>i<words. ?m ! i = (if wshift \<le> i then vec ! (i - wshift) else vec ! i)"
    using move[of "words - wshift"] assms(2) by simp_all
  have zero: "length (fold ?zero [0..<k] ?m) = words \<and> (\<forall>i<words. fold ?zero [0..<k] ?m ! i = (if i < k then 0 else ?m ! i))" for k
    by (induction k) (use m in \<open>auto simp: nth_list_update less_Suc_eq\<close>)
  show ?thesis using False zero[of wshift] m(2) assms(3) by (simp add: shl_words_def)
qed

lemma shl_fine_nth:
  "k \<le> length vec \<Longrightarrow> length (fst (fold (shl_fine o1) [0..<k] (vec, 0))) = length vec \<and>
     snd (fold (shl_fine o1) [0..<k] (vec, 0)) = (if k = 0 then 0 else shr (vec ! (k - 1)) (64 - o1)) \<and>
     (\<forall>j<length vec. fst (fold (shl_fine o1) [0..<k] (vec, 0)) ! j =
        (if j < k then shl (vec ! j) o1 OR (if j = 0 then 0 else shr (vec ! (j - 1)) (64 - o1)) else vec ! j))"
proof (induction k)
  case (Suc k)
  obtain u pad where st: "fold (shl_fine o1) [0..<k] (vec, 0) = (u, pad)" by (meson surj_pair)
  have step: "fold (shl_fine o1) [0..<Suc k] (vec, 0) = (u[k := (shl (u ! k) o1) OR pad], shr (u ! k) (64 - o1))"
    using st by (simp add: shl_fine_def[of o1 k] Let_def)
  show ?case unfolding step using Suc st by (auto simp: nth_list_update less_Suc_eq)
qed simp

lemma shl_fine_bit:
  assumes "0 < o1" "o1 < 64" "m < 64"
  shows "bit (shl w o1 OR (if j = 0 then 0 else shr (ws ! (j - 1)) (64 - o1))) m \<longleftrightarrow>
    (if o1 \<le> m then bit w (m - o1) else 0 < j \<and> bit (ws ! (j - 1)) (64 + m - o1))"
proof -
  have "(64 - o1) mod 64 = 64 - o1" "o1 mod 64 = o1" using assms by simp_all
  moreover have "\<not> bit (ws ! (j - 1)) (64 - o1 + m)" if "o1 \<le> m"
    using bit_imp_le_length[of "ws ! (j - 1)" "64 - o1 + m"] that assms by auto
  moreover have "64 - o1 + m = 64 + m - o1" using assms by simp
  ultimately show ?thesis using assms by (auto simp: bit_or_iff bit_shl bit_shr)
qed

lemma msk_tail_bit: "m < 64 \<Longrightarrow> bit (shr (- 1) (64 - n mod 64)) m \<longleftrightarrow> (n mod 64 = 0 \<or> m < n mod 64)"
proof (cases "n mod 64 = 0")
  case False
  then have "(64 - n mod 64) mod 64 = 64 - n mod 64" by simp
  moreover have "64 - n mod 64 + m < 64 \<longleftrightarrow> m < n mod 64" using False mod_less_divisor[of 64 n] by linarith
  ultimately show ?thesis using False by (simp add: bit_shr)
qed (simp add: bit_shr)

lemma top_word_index:
  assumes "j < word_count n" "m < 64"
  shows "64 * j + m < n \<longleftrightarrow> j \<noteq> word_count n - 1 \<or> n mod 64 = 0 \<or> m < n mod 64"
proof -
  define q r where "q = n div 64" and r: "r = n mod 64"
  then have n: "n = 64 * q + r" "r < 64" by simp_all
  have count: "word_count n = (if 0 < r then Suc q else q)" using word_count_tail[of n] \<open>q = n div 64\<close> r by simp
  show ?thesis
  proof (cases "0 < r")
    case True
    then have "j \<le> q" "word_count n - 1 = q" using assms(1) count by simp_all
    then show ?thesis unfolding r[symmetric] using True n assms(2) by (cases "j = q") auto
  next
    case False
    then have "j < q" using assms(1) count by simp
    then show ?thesis unfolding r[symmetric] using False n assms(2) by simp
  qed
qed

lemma vec2_shl_size [simp]: "v2_size (vec2_shl v s) = v2_size v"
  by (simp add: vec2_shl_def Let_def)

lemma vec2_shl_bit:
  assumes "vec2_ok v"
  shows "vec2_ok (vec2_shl v s) \<and>
    (bit (vec2_num (vec2_shl v s)) i \<longleftrightarrow> i < 64 * word_count (v2_size v) \<and> s \<le> i \<and> bit (vec2_num v) (i - s) \<and>
       (i < v2_size v \<or> s mod 64 = 0))"
proof (cases "v2_size v = 0")
  case True
  then show ?thesis using assms by (simp add: vec2_shl_def vec2_ok_def vec2_num_def)
next
  case size: False
  let ?n = "word_count (v2_size v)" and ?w = "s div 64" and ?o = "s mod 64"
  have len: "length (v2_vec v) = ?n" using assms by (simp add: vec2_ok_def)
  have n: "0 < ?n" using size by (simp add: div_greater_zero_iff)
  have s: "s = 64 * ?w + ?o" by simp
  show ?thesis
  proof (cases "?n \<le> ?w")
    case True
    then have "64 * ?n \<le> s" by (metis div_mult_self1_is_m le_trans mult_le_mono2 mult_div_mod_eq le_add1)
    then show ?thesis using True size by (auto simp: vec2_shl_def vec2_ok_def vec2_num_def Let_def)
  next
    case False
    then have w: "?w < ?n" by simp
    let ?u = "shl_words ?n ?w (v2_vec v)"
    have u: "length ?u = ?n" "\<And>j. j < ?n \<Longrightarrow> ?u ! j = (if j < ?w then 0 else v2_vec v ! (j - ?w))"
      using shl_words_nth[OF len w] n by auto
    have ubit: "bit (words_val ?u) i \<longleftrightarrow> i < 64 * ?n \<and> 64 * ?w \<le> i \<and> bit (vec2_num v) (i - 64 * ?w)" for i
    proof (rule bit_words_valI[OF u(1)])
      fix j m assume jm: "j < ?n" "m < (64 :: nat)"
      show "bit (?u ! j) m \<longleftrightarrow> 64 * ?w \<le> 64 * j + m \<and> bit (vec2_num v) (64 * j + m - 64 * ?w)"
      proof (cases "j < ?w")
        case True
        then have "\<not> 64 * ?w \<le> 64 * j + m" using jm by linarith
        then show ?thesis using True jm u(2) by simp
      next
        case False
        then have "64 * j + m - 64 * ?w = 64 * (j - ?w) + m" "j - ?w < ?n" using jm by (simp_all add: diff_mult_distrib2)
        then show ?thesis using False jm u(2)[of j] len by (simp add: vec2_num_def bit_words_val_at)
      qed
    qed
    show ?thesis
    proof (cases "?o = 0")
      case True
      then have "vec2_shl v s = v\<lparr>v2_vec := ?u\<rparr>" using size False by (simp add: vec2_shl_def Let_def)
      then show ?thesis using True s u(1) ubit[of i] by (simp add: vec2_ok_def vec2_num_def)
    next
      case fine: False
      let ?f = "fst (fold (shl_fine ?o) [0..<?n] (?u, 0))" and ?msk = "shr (- 1) (64 - v2_size v mod 64)"
      have o: "0 < ?o" "?o < 64" using fine by simp_all
      have f: "length ?f = ?n" "\<And>j. j < ?n \<Longrightarrow> ?f ! j = (shl (?u ! j) ?o OR (if j = 0 then 0 else shr (?u ! (j - 1)) (64 - ?o)))"
        using shl_fine_nth[of ?n ?u ?o] u(1) by simp_all
      have code: "vec2_shl v s = v\<lparr>v2_vec := ?f[?n - 1 := (?f ! (?n - 1)) AND ?msk]\<rparr>"
        using size False fine by (simp add: vec2_shl_def Let_def)
      have "bit (words_val (?f[?n - 1 := (?f ! (?n - 1)) AND ?msk])) i \<longleftrightarrow> i < 64 * ?n \<and> (?o \<le> i \<and> bit (words_val ?u) (i - ?o) \<and> i < v2_size v)"
      proof (rule bit_words_valI)
        fix j m assume jm: "j < ?n" "m < (64 :: nat)"
        have fbit: "bit (?f ! j) m \<longleftrightarrow> ?o \<le> 64 * j + m \<and> bit (words_val ?u) (64 * j + m - ?o)"
        proof (cases "?o \<le> m")
          case True
          then have eq: "64 * j + m - ?o = 64 * j + (m - ?o)" by simp
          have "bit (words_val ?u) (64 * j + m - ?o) \<longleftrightarrow> bit (?u ! j) (m - ?o)"
            unfolding eq using bit_words_val_at[of "m - ?o" ?u j] jm u(1) by simp
          then show ?thesis using True f(2)[OF jm(1)] shl_fine_bit[OF o jm(2), of "?u ! j" j ?u] by simp
        next
          case False
          show ?thesis
          proof (cases j)
            case 0
            then show ?thesis using False f(2)[OF jm(1)] shl_fine_bit[OF o jm(2), of "?u ! j" j ?u] by simp
          next
            case (Suc k)
            then have eq: "64 * j + m - ?o = 64 * k + (64 + m - ?o)" and less: "64 + m - ?o < 64" using False o by simp_all
            have "bit (words_val ?u) (64 * j + m - ?o) \<longleftrightarrow> bit (?u ! k) (64 + m - ?o)"
              unfolding eq using bit_words_val_at[OF less, of ?u k] jm u(1) Suc by simp
            moreover have "?o \<le> 64 * j + m" using Suc o by simp
            ultimately show ?thesis using False Suc f(2)[OF jm(1)] shl_fine_bit[OF o jm(2), of "?u ! j" j ?u] by simp
          qed
        qed
        have "64 * j + m < v2_size v \<longleftrightarrow> j \<noteq> ?n - 1 \<or> v2_size v mod 64 = 0 \<or> m < v2_size v mod 64"
          using jm by (rule top_word_index)
        then show "bit (?f[?n - 1 := (?f ! (?n - 1)) AND ?msk] ! j) m \<longleftrightarrow>
            ?o \<le> 64 * j + m \<and> bit (words_val ?u) (64 * j + m - ?o) \<and> 64 * j + m < v2_size v"
          using jm f(1) fbit by (auto simp: nth_list_update bit_and_iff msk_tail_bit)
      qed (simp add: f(1))
      moreover have "i - ?o < 64 * ?n \<and> 64 * ?w \<le> i - ?o \<and> ?o \<le> i \<longleftrightarrow> s \<le> i" "i - ?o - 64 * ?w = i - s" if "i < 64 * ?n"
        using s that by linarith+
      ultimately show ?thesis using code f(1) fine ubit[of "i - ?o"] by (auto simp: vec2_ok_def vec2_num_def)
    qed
  qed
qed

lemma word_count_pad: "64 * word_count n = n + (64 - n mod 64) mod 64"
proof -
  define q r where "q = n div 64" and r: "r = n mod 64"
  then have n: "n = 64 * q + r" "r < 64" by simp_all
  have "word_count n = (if 0 < r then Suc q else q)" using word_count_tail[of n] \<open>q = n div 64\<close> r by simp
  then show ?thesis unfolding r[symmetric] using n by (cases "r = 0") simp_all
qed

lemma word_count_bound: "n \<le> 64 * word_count n"
  by (simp only: word_count_pad)

lemma vec2_shl_num:
  assumes "vec2_ok v"
  shows "vec2_num (vec2_shl v s) = vec2_num v * 2 ^ s mod 2 ^ (if s mod 64 = 0 then 64 * word_count (v2_size v) else v2_size v)"
proof -
  let ?n = "64 * word_count (v2_size v)"
  have "v2_size v \<le> ?n" by simp
  have "bit (vec2_num (vec2_shl v s)) i \<longleftrightarrow>
      bit (take_bit (if s mod 64 = 0 then ?n else v2_size v) (push_bit s (vec2_num v))) i" for i
    using vec2_shl_bit[OF assms, of s i] \<open>v2_size v \<le> ?n\<close> by (auto simp: bit_take_bit_iff bit_push_bit_iff possible_bit_def)
  then have "vec2_num (vec2_shl v s) = take_bit (if s mod 64 = 0 then ?n else v2_size v) (push_bit s (vec2_num v))"
    by (rule bit_eqI)
  then show ?thesis by (simp add: take_bit_eq_mod push_bit_eq_mult)
qed

lemma shr_words_nth:
  assumes "length vec = words" "wshift < words"
  shows "length (shr_words words wshift vec) = words \<and>
    (\<forall>j<words. shr_words words wshift vec ! j = (if j < words - wshift then vec ! (j + wshift) else 0))"
proof (cases "wshift = 0")
  case True
  then show ?thesis using assms by (simp add: shr_words_def)
next
  case False
  let ?move = "\<lambda>idx vec. vec[idx := vec ! (idx + wshift)]" and ?zero = "\<lambda>idx vec. vec[idx := 0 :: u64]"
  have move: "length (fold ?move [0..<k] vec) = words \<and>
      (\<forall>i<words. fold ?move [0..<k] vec ! i = (if i < k then vec ! (i + wshift) else vec ! i))" if "k \<le> words - wshift" for k
    using that by (induction k) (use assms False in \<open>auto simp: nth_list_update less_Suc_eq\<close>)
  let ?m = "fold ?move [0..<words - wshift] vec"
  have m: "length ?m = words" "\<forall>i<words. ?m ! i = (if i < words - wshift then vec ! (i + wshift) else vec ! i)"
    using move[of "words - wshift"] by simp_all
  have zero: "length (fold ?zero [words - wshift..<k] ?m) = words \<and>
      (\<forall>i<words. fold ?zero [words - wshift..<k] ?m ! i = (if words - wshift \<le> i \<and> i < k then 0 else ?m ! i))"
    if "words - wshift \<le> k" for k
    using that by (induction k rule: dec_induct) (use m in \<open>auto simp: nth_list_update less_Suc_eq\<close>)
  show ?thesis using False zero[of words] m(2) by (auto simp: shr_words_def)
qed

lemma shr_fine_nth:
  "n \<le> length vec \<Longrightarrow> length (fst (fold (shr_fine o1) (rev [1..<Suc n]) (vec, pad))) = length vec \<and>
     (\<forall>j<length vec. fst (fold (shr_fine o1) (rev [1..<Suc n]) (vec, pad)) ! j =
        (if j < n then (if Suc j = n then pad else shl (vec ! Suc j) (64 - o1)) OR shr (vec ! j) o1 else vec ! j))"
proof (induction n arbitrary: vec pad)
  case (Suc n)
  let ?v = "vec[n := pad OR shr (vec ! n) o1]"
  have list: "rev [1..<Suc (Suc n)] = Suc n # rev [1..<Suc n]" by simp
  have step: "fold (shr_fine o1) (rev [1..<Suc (Suc n)]) (vec, pad) = fold (shr_fine o1) (rev [1..<Suc n]) (?v, shl (vec ! n) (64 - o1))"
    unfolding list by (simp add: shr_fine_def[of o1 "Suc n"] Let_def del: upt_Suc)
  show ?case
    unfolding step using Suc.IH[of ?v "shl (vec ! n) (64 - o1)"] Suc.prems by (auto simp: nth_list_update less_Suc_eq simp del: upt_Suc)
qed simp

lemma shr_fine_bit:
  assumes "0 < o1" "o1 < 64" "m < 64"
  shows "bit ((if last_word then 0 else shl w' (64 - o1)) OR shr w o1) m \<longleftrightarrow>
    (if o1 + m < 64 then bit w (o1 + m) else \<not> last_word \<and> bit w' (o1 + m - 64))"
proof -
  have "(64 - o1) mod 64 = 64 - o1" "o1 mod 64 = o1" using assms by simp_all
  moreover have "\<not> bit w (o1 + m)" if "\<not> o1 + m < 64" using bit_imp_le_length[of w "o1 + m"] that by auto
  moreover have "64 - o1 \<le> m \<Longrightarrow> m - (64 - o1) = o1 + m - 64" using assms by simp
  ultimately show ?thesis using assms by (auto simp: bit_or_iff bit_shl bit_shr)
qed

lemma mask_tail_abort: "0 < m \<Longrightarrow> m < 64 \<Longrightarrow> mask_tail 0 m vec = None"
  by (subst mask_tail.simps) simp

lemma mask_tail_id:
  "use_words \<le> length vec \<Longrightarrow> ms \<le> 64 * use_words \<Longrightarrow>
     (\<forall>i. 64 * use_words - ms \<le> i \<longrightarrow> i < 64 * use_words \<longrightarrow> \<not> bit (words_val vec) i) \<Longrightarrow>
     mask_tail use_words ms vec = Some vec"
proof (induction use_words ms vec rule: mask_tail.induct)
  case (1 use_words ms vec)
  have top: "bit (vec ! (use_words - 1)) m = bit (words_val vec) (64 * (use_words - 1) + m)" if "m < 64" "0 < use_words" for m
  proof -
    have "use_words - 1 < length vec" using "1.prems"(1) that(2) by simp
    then show ?thesis using that(1) by (simp add: bit_words_val_at)
  qed
  consider "64 \<le> ms" | "ms < 64" "0 < ms" | "ms = 0" by linarith
  then show ?case
  proof cases
    case 1
    then have pos: "0 < use_words" using "1.prems"(2) by auto
    have zero: "\<not> bit (vec ! (use_words - 1)) m" if "m < 64" for m
      using top[OF that pos] 1 "1.prems"(3)[rule_format, of "64 * (use_words - 1) + m"] pos that by auto
    then have "vec ! (use_words - 1) = 0" by (simp add: u64_zero_iff)
    then have "vec[use_words - 1 := 0] = vec" by (metis list_update_id)
    moreover have "mask_tail (use_words - 1) (ms - 64) (vec[use_words - 1 := 0]) = Some (vec[use_words - 1 := 0])"
      by (rule "1.IH") (use 1 "1.prems" pos calculation in \<open>auto simp: diff_mult_distrib2\<close>)
    ultimately show ?thesis using 1 by (simp add: mask_tail.simps[of use_words ms vec])
  next
    case 2
    then have pos: "0 < use_words" using "1.prems"(2) by auto
    have "bit ((vec ! (use_words - 1)) AND shr (- 1) ms) m = bit (vec ! (use_words - 1)) m" if m: "m < 64" for m
    proof (cases "ms + m < 64")
      case False
      then have "\<not> bit (vec ! (use_words - 1)) m"
        using top[OF m pos] 2 "1.prems"(3)[rule_format, of "64 * (use_words - 1) + m"] pos m by auto
      then show ?thesis by (simp add: bit_and_iff)
    qed (use 2 in \<open>simp add: bit_and_iff bit_shr\<close>)
    then have "(vec ! (use_words - 1)) AND shr (- 1) ms = vec ! (use_words - 1)" by (simp add: u64_eq_iff)
    then show ?thesis using 2 pos by (simp add: mask_tail.simps[of use_words ms vec])
  next
    case 3
    then show ?thesis by (subst mask_tail.simps) simp
  qed
qed

lemma vec2_shr_num:
  assumes "vec2_clean v" "0 < v2_size v"
  shows "if v2_size v < s \<and> s < 64 then vec2_shr v s = None
    else \<exists>r. vec2_shr v s = Some r \<and> vec2_clean r \<and> v2_size r = v2_size v \<and> vec2_num r = vec2_num v div 2 ^ s"
proof -
  let ?n = "word_count (v2_size v)" and ?w = "s div 64" and ?o = "s mod 64"
  have len: "length (v2_vec v) = ?n" and small: "vec2_num v < 2 ^ v2_size v"
    using assms(1) by (simp_all add: vec2_clean_def vec2_ok_def)
  have n: "0 < ?n" using assms(2) by (simp add: div_greater_zero_iff)
  have s: "s = 64 * ?w + ?o" by simp
  have high: "\<not> bit (vec2_num v) i" if "v2_size v \<le> i" for i
    using small nat_less_exp_iff[of "vec2_num v" "v2_size v"] that by blast
  have result: ?thesis
    if code: "vec2_shr v s = Some (v\<lparr>v2_vec := ws\<rparr>)" and ws: "length ws = ?n" "\<And>i. bit (words_val ws) i \<longleftrightarrow> bit (vec2_num v) (i + s)"
      and no_abort: "\<not> (v2_size v < s \<and> s < 64)" for ws
  proof -
    have "words_val ws = vec2_num v div 2 ^ s"
      using ws(2) by (intro bit_eqI) (simp add: bit_drop_bit_eq add.commute flip: drop_bit_eq_div)
    moreover from this have "words_val ws < 2 ^ v2_size v" using small div_le_dividend[of "vec2_num v" "2 ^ s"] by linarith
    ultimately show ?thesis using code ws(1) no_abort by (simp add: vec2_clean_def vec2_ok_def vec2_num_def)
  qed
  show ?thesis
  proof (cases "?n \<le> ?w")
    case True
    then have "64 * ?n \<le> 64 * ?w" by (rule mult_le_mono2)
    also have "\<dots> \<le> s" by simp
    finally have "v2_size v \<le> s" "\<not> s < 64" using word_count_bound[of "v2_size v"] n by simp_all
    then show ?thesis using True assms(2) high by (intro result[of "replicate ?n 0"]) (auto simp: vec2_shr_def Let_def)
  next
    case False
    then have w: "?w < ?n" by simp
    let ?u = "shr_words ?n ?w (v2_vec v)"
    have u: "length ?u = ?n" "\<And>j. j < ?n \<Longrightarrow> ?u ! j = (if j < ?n - ?w then v2_vec v ! (j + ?w) else 0)"
      using shr_words_nth[OF len w] by auto
    have ubit: "bit (words_val ?u) i \<longleftrightarrow> bit (vec2_num v) (i + 64 * ?w)" for i
    proof -
      have "bit (words_val ?u) i \<longleftrightarrow> i < 64 * ?n \<and> bit (vec2_num v) (i + 64 * ?w)"
      proof (rule bit_words_valI[OF u(1)])
        fix j m assume jm: "j < ?n" "m < (64 :: nat)"
        have eq: "64 * j + m + 64 * ?w = 64 * (j + ?w) + m" by simp
        show "bit (?u ! j) m \<longleftrightarrow> bit (vec2_num v) (64 * j + m + 64 * ?w)"
          unfolding eq vec2_num_def using bit_words_val_at[OF jm(2), of "v2_vec v" "j + ?w"] u(2)[OF jm(1)] len by auto
      qed
      moreover have "\<not> bit (vec2_num v) (i + 64 * ?w)" if "\<not> i < 64 * ?n" using that by (intro high) simp
      ultimately show ?thesis by blast
    qed
    show ?thesis
    proof (cases "?o = 0")
      case True
      then have "vec2_shr v s = Some (v\<lparr>v2_vec := ?u\<rparr>)" "\<not> (v2_size v < s \<and> s < 64)"
        using assms(2) False by (auto simp: vec2_shr_def Let_def)
      then show ?thesis using True s u(1) ubit by (intro result) simp_all
    next
      case fine: False
      let ?f = "fst (fold (shr_fine ?o) (rev [1..<Suc ?n]) (?u, 0))" and ?ms = "(64 - v2_size v mod 64) mod 64 + ?o"
      have o: "0 < ?o" "?o < 64" using fine by simp_all
      have f: "length ?f = ?n" "\<And>j. j < ?n \<Longrightarrow> ?f ! j = (if Suc j = ?n then 0 else shl (?u ! Suc j) (64 - ?o)) OR shr (?u ! j) ?o"
        using shr_fine_nth[of ?n ?u ?o 0] u(1) by (simp_all del: upt_Suc)
      have fbit: "bit (words_val ?f) i \<longleftrightarrow> bit (vec2_num v) (i + s)" for i
      proof -
        have "bit (words_val ?f) i \<longleftrightarrow> i < 64 * ?n \<and> bit (words_val ?u) (i + ?o)"
        proof (rule bit_words_valI[OF f(1)])
          fix j m assume jm: "j < ?n" "m < (64 :: nat)"
          show "bit (?f ! j) m \<longleftrightarrow> bit (words_val ?u) (64 * j + m + ?o)"
          proof (cases "?o + m < 64")
            case True
            have eq: "64 * j + m + ?o = 64 * j + (?o + m)" by simp
            show ?thesis unfolding eq
              using True f(2)[OF jm(1)] shr_fine_bit[OF o jm(2), of "Suc j = ?n" "?u ! Suc j" "?u ! j"] jm u(1)
                bit_words_val_at[OF True, of ?u j] by simp
          next
            case False
            then have eq: "64 * j + m + ?o = 64 * Suc j + (?o + m - 64)" and less: "?o + m - 64 < 64" using o jm by simp_all
            show ?thesis unfolding eq
              using False f(2)[OF jm(1)] shr_fine_bit[OF o jm(2), of "Suc j = ?n" "?u ! Suc j" "?u ! j"] jm u(1)
                bit_words_val_at[OF less, of ?u "Suc j"] by auto
          qed
        qed
        moreover have "i + ?o + 64 * ?w = i + s" using s by simp
        moreover have "\<not> bit (vec2_num v) (i + s)" if "\<not> i < 64 * ?n" using that by (intro high) simp
        ultimately show ?thesis using ubit[of "i + ?o"] by auto
      qed
      have code: "vec2_shr v s = (case mask_tail ?n ?ms ?f of None \<Rightarrow> None | Some vec \<Rightarrow> Some (v\<lparr>v2_vec := vec\<rparr>))"
        using assms(2) False fine by (simp add: vec2_shr_def Let_def del: upt_Suc)
      have pad: "64 * ?n = v2_size v + (64 - v2_size v mod 64) mod 64" by (rule word_count_pad)
      show ?thesis
      proof (cases "v2_size v < s \<and> s < 64")
        case True
        then have "?n \<le> 1" by (intro word_count_le_1) simp
        then have one: "?n = 1" using n by simp
        have "?o = s" using True by simp
        then have "64 < ?ms" using pad one True by linarith
        moreover have "(64 - v2_size v mod 64) mod 64 < 64" by simp
        then have "?ms - 64 < 64" using o by linarith
        ultimately have "mask_tail 0 (?ms - 64) (?f[0 := 0]) = None" by (intro mask_tail_abort) simp_all
        with \<open>64 < ?ms\<close> have "mask_tail 1 ?ms ?f = None" by (subst mask_tail.simps) (simp del: upt_Suc)
        then show ?thesis using code one True by simp
      next
        case no_abort: False
        have "mask_tail ?n ?ms ?f = Some ?f"
        proof (rule mask_tail_id)
          show "?ms \<le> 64 * ?n" using pad no_abort s o w by (cases "?w = 0") auto
          have "v2_size v \<le> i + s" if "64 * ?n - ?ms \<le> i" for i
          proof -
            have "64 * ?n - ?ms = v2_size v - ?o" "?o \<le> s" unfolding pad by simp_all
            then show ?thesis using that by linarith
          qed
          then show "\<forall>i. 64 * ?n - ?ms \<le> i \<longrightarrow> i < 64 * ?n \<longrightarrow> \<not> bit (words_val ?f) i"
            using fbit high by blast
        qed (simp only: f(1) order_refl)
        then show ?thesis using code f(1) fbit no_abort by (intro result) simp_all
      qed
    qed
  qed
qed

section \<open>Bits and conversion\<close>

lemma vec2_set_bit_ok:
  assumes "vec2_ok v" "i < v2_size v"
  shows "\<exists>v'. vec2_set_bit v i b = Some v' \<and> vec2_ok v' \<and> v2_size v' = v2_size v \<and>
    (\<forall>j<v2_size v. vec2_value v' j = (if j = i then of_bool (b \<noteq> 0) else vec2_value v j))"
proof -
  define w where "w = (if b \<noteq> 0 then (v2_vec v ! (i div 64)) OR shl 1 (i mod 64) else (v2_vec v ! (i div 64)) AND NOT (shl 1 (i mod 64)))"
  define u where "u = v\<lparr>v2_vec := (v2_vec v)[i div 64 := w]\<rparr>"
  have vec: "v2_vec u = (v2_vec v)[i div 64 := w]" "v2_size u = v2_size v" by (simp_all add: u_def)
  have len: "length (v2_vec v) = word_count (v2_size v)" using assms(1) by (simp add: vec2_ok_def)
  then have ok: "vec2_ok u" by (simp add: vec2_ok_def vec)
  have word: "bit w m \<longleftrightarrow> (if m = i mod 64 then b \<noteq> 0 else bit (v2_vec v ! (i div 64)) m)" if "m < 64" for m
    using that by (auto simp: w_def bit_or_iff bit_and_iff bit_not_iff bit_shl_1)
  have "vec2_value u j = (if j = i then of_bool (b \<noteq> 0) else vec2_value v j)" if "j < v2_size v" for j
  proof -
    have eq: "j = i \<longleftrightarrow> j div 64 = i div 64 \<and> j mod 64 = i mod 64" by (metis mult_div_mod_eq)
    have "bit (v2_vec u ! (j div 64)) (j mod 64) \<longleftrightarrow> (if j = i then b \<noteq> 0 else bit (v2_vec v ! (j div 64)) (j mod 64))"
      using word[of "j mod 64"] div_less_word_count[OF assms(2)] len eq vec(1) by (cases "j div 64 = i div 64") simp_all
    then show ?thesis
      using that div_less_word_count[OF that] len vec
      by (simp add: vec2_value_bit[OF ok] vec2_value_bit[OF assms(1)] vec2_num_def bit_words_val)
  qed
  moreover have "vec2_set_bit v i b = Some u" using assms(2) by (simp add: vec2_set_bit_def Let_def u_def w_def)
  ultimately show ?thesis using ok vec(2) by blast
qed

interpretation vec2: bit_vector v2_size "\<lambda>v i. vec2_value v i \<noteq> 0" "\<lambda>v i b. vec2_set_bit v i (of_bool b)" vec2_ok
proof
  fix v i b assume "vec2_ok v" "i < v2_size v"
  from vec2_set_bit_ok[OF this, of "of_bool b"] show "\<exists>v'. vec2_set_bit v i (of_bool b) = Some v' \<and> vec2_ok v' \<and>
      v2_size v' = v2_size v \<and> (\<forall>j<v2_size v. (vec2_value v' j \<noteq> 0) = (if j = i then b else vec2_value v j \<noteq> 0))"
    by fastforce
qed (simp add: vec2_set_bit_def)

lemma vec2_value_01: "vec2_value v i = 0 \<or> vec2_value v i = 1"
  by (simp add: vec2_value_def Let_def)

lemma vec2_value_of_bool: "of_bool (vec2_value v i \<noteq> 0) = vec2_value v i"
  by (simp add: vec2_value_def Let_def)

lemma vec2_set_vec_ok:
  assumes "vec2_ok v" "adr + v2_size that \<le> v2_size v"
  shows "\<exists>v'. vec2_set_vec v adr that = Some v' \<and> vec2_ok v' \<and> v2_size v' = v2_size v \<and>
    (\<forall>j<v2_size v. vec2_value v' j = (if adr \<le> j \<and> j < adr + v2_size that then vec2_value that (j - adr) else vec2_value v j))"
proof -
  obtain v' where v': "foldM (\<lambda>i v. vec2_set_bit v (adr + i) (of_bool (vec2_value that i \<noteq> 0))) [0..<v2_size that] v = Some v'"
    "vec2_ok v'" "v2_size v' = v2_size v"
    "\<forall>j<v2_size v. (vec2_value v' j \<noteq> 0) = (if adr \<le> j \<and> j < adr + v2_size that then vec2_value that (j - adr) \<noteq> 0 else vec2_value v j \<noteq> 0)"
    using vec2.set_loop_at[OF assms, of "\<lambda>i. vec2_value that i \<noteq> 0"] by blast
  have "vec2_value v' j = (if adr \<le> j \<and> j < adr + v2_size that then vec2_value that (j - adr) else vec2_value v j)" if "j < v2_size v" for j
    using v'(4)[rule_format, OF that] vec2_value_01[of v' j] vec2_value_01[of that "j - adr"] vec2_value_01[of v j]
    by (auto split: if_splits)
  then show ?thesis using v'(1)[unfolded vec2_value_of_bool] v'(2,3) assms(2) by (simp add: vec2_set_vec_def)
qed

lemma vec2_num_eqI:
  "vec2_ok v \<Longrightarrow> (\<And>i. bit (vec2_num v) i \<longleftrightarrow> i < v2_size v \<and> vec2_value v i \<noteq> 0) \<Longrightarrow> vec2_clean v"
  by (simp add: vec2_clean_def nat_less_exp_iff)

lemma vec2_copy_from_vec4_ok:
  assumes "vec4_wf v"
  shows "\<exists>u. vec2_copy_from_vec4 v = Some u \<and> vec2_clean u \<and> v2_size u = vec_size v \<and>
    (\<forall>i<vec_size v. vec2_value u i = of_bool (vec4_value v i = BIT4_1))"
proof (cases "vec_size v = 0")
  case True
  then show ?thesis by (simp add: vec2_copy_from_vec4_def vec2_null_def vec2_clean_def vec2_ok_def vec2_num_def)
next
  case False
  then have n: "word_count (vec_size v) \<noteq> 0" by (simp add: div_greater_zero_iff)
  obtain ws where ws: "vec4_subarray v 0 (vec_size v) True = Some (Some ws)" "length ws = word_count (vec_size v)"
    "\<forall>i<64 * word_count (vec_size v). plane_bit ws i \<longleftrightarrow> i < vec_size v \<and> vec4_value v (0 + i) = BIT4_1"
    using vec4_subarray_bits[of v 0 "vec_size v" True] assms False by auto
  let ?u = "\<lparr>v2_size = vec_size v, v2_vec = ws\<rparr>"
  have ok: "vec2_ok ?u" using ws(2) by (simp add: vec2_ok_def)
  have bits: "bit (vec2_num ?u) i \<longleftrightarrow> i < vec_size v \<and> vec4_value v i = BIT4_1" for i
  proof (cases "i < 64 * word_count (vec_size v)")
    case True
    then show ?thesis using ws(2,3) by (simp add: vec2_num_def bit_words_val_plane)
  next
    case False
    then show ?thesis using ws(2) word_count_bound[of "vec_size v"]
      by (auto simp: vec2_num_def bit_words_val div_less_iff_less_mult mult.commute)
  qed
  have "vec2_value ?u i = of_bool (vec4_value v i = BIT4_1)" if "i < vec_size v" for i
    using that bits by (simp add: vec2_value_bit[OF ok])
  moreover have "vec2_clean ?u" using ok bits by (simp add: vec2_clean_def nat_less_exp_iff)
  ultimately show ?thesis using n ws(1) by (simp add: vec2_copy_from_vec4_def Let_def)
qed

lemma vector2_to_vector4_bits:
  "\<exists>r. vector2_to_vector4 u wid = Some r \<and> vec4_wf r \<and> vec_size r = wid \<and>
     vec4_bits r = map (\<lambda>i. if vec2_value u i \<noteq> 0 then BIT4_1 else BIT4_0) [0..<wid]"
proof -
  obtain r where "foldM (\<lambda>i res. vec4_set_bit res i (if vec2_value u i \<noteq> 0 then BIT4_1 else BIT4_0)) [0..<wid] (vec4_new wid BIT4_X) = Some r"
    "vec4_wf r" "vec_size r = wid" "\<forall>j<wid. vec4_value r j = (if vec2_value u j \<noteq> 0 then BIT4_1 else BIT4_0)"
    using vec4.set_loop_all[of "vec4_new wid BIT4_X" wid "\<lambda>i. if vec2_value u i \<noteq> 0 then BIT4_1 else BIT4_0"] by (auto simp: vsize)
  then show ?thesis by (simp add: vector2_to_vector4_def vec4_bits_def)
qed

text \<open>C26. Conversion from a four-valued vector and back, to any width: known bits return, X and Z bits become 0, a
  wider result is padded with 0 and a narrower one truncated. When NaN is allowed, exactly the
  vectors with an X or Z bit become NaN. Bits written into a converted vector are read back.\<close>

theorem vec2_vec4_roundtrip:
  assumes "vec4_wf v" "0 < vec_size v"
  shows "\<exists>u r. vec2_from_vec4 v False = Some u \<and> vec2_clean u \<and> v2_size u = vec_size v \<and> vector2_to_vector4 u wid = Some r \<and>
    vec4_bits r = map (\<lambda>i. if i < vec_size v \<and> vec4_value v i = BIT4_1 then BIT4_1 else BIT4_0) [0..<wid] \<and>
    (\<exists>n. vec2_from_vec4 v True = Some n \<and> (vec2_is_NaN n \<longleftrightarrow> list_ex bit4_is_xz (vec4_bits v)) \<and> (\<not> vec2_is_NaN n \<longrightarrow> n = u)) \<and>
    (\<forall>i<vec_size v. \<exists>w. vec2_set_bit u i b = Some w \<and>
       (\<forall>j<vec_size v. vec2_value w j = (if j = i then of_bool (b \<noteq> 0) else vec2_value u j)))"
proof -
  obtain u where u: "vec2_copy_from_vec4 v = Some u" "vec2_clean u" "v2_size u = vec_size v"
    "\<forall>i<vec_size v. vec2_value u i = of_bool (vec4_value v i = BIT4_1)" using vec2_copy_from_vec4_ok[OF assms(1)] by blast
  obtain r where r: "vector2_to_vector4 u wid = Some r"
    "vec4_bits r = map (\<lambda>i. if vec2_value u i \<noteq> 0 then BIT4_1 else BIT4_0) [0..<wid]" using vector2_to_vector4_bits by blast
  have "vec2_value u i \<noteq> 0 \<longleftrightarrow> i < vec_size v \<and> vec4_value v i = BIT4_1" for i
    using u(3,4) by (cases "i < vec_size v") (simp_all add: vec2_value_def)
  moreover have "list_ex bit4_is_xz (vec4_bits v) \<longleftrightarrow> vec4_has_xz v"
    using vec4_has_xz_iff[OF assms(2)] by (auto simp: list_ex_iff vec4_bits_def)
  moreover have "\<forall>i<vec_size v. \<exists>w. vec2_set_bit u i b = Some w \<and>
      (\<forall>j<vec_size v. vec2_value w j = (if j = i then of_bool (b \<noteq> 0) else vec2_value u j))"
    using vec2_set_bit_ok[of u _ b] u(2,3) unfolding vec2_clean_def by metis
  moreover have "vec2_from_vec4 v False = Some u" using u(1) by (simp add: vec2_from_vec4_def)
  moreover have "\<exists>n. vec2_from_vec4 v True = Some n \<and> (vec2_is_NaN n \<longleftrightarrow> vec4_has_xz v) \<and> (\<not> vec2_is_NaN n \<longrightarrow> n = u)"
    using u(1,3) assms(2) by (cases "vec4_has_xz v") (simp_all add: vec2_from_vec4_def vec2_is_NaN_def vec2_null_def)
  ultimately show ?thesis using u(2,3) r by (intro exI[of _ u] exI[of _ r]) simp
qed

theorem vec2_vec4_roundtrip_witness:
  "\<exists>u r. vec2_from_vec4 (vec4_new 70 BIT4_1) False = Some u \<and> vector2_to_vector4 u 2 = Some r \<and> vec4_bits r = [BIT4_1, BIT4_1]"
proof -
  obtain u r where "vec2_from_vec4 (vec4_new 70 BIT4_1) False = Some u" "vector2_to_vector4 u 2 = Some r"
    "vec4_bits r = map (\<lambda>i. if i < 70 \<and> vec4_value (vec4_new 70 BIT4_1) i = BIT4_1 then BIT4_1 else BIT4_0) [0..<2]"
    using vec2_vec4_roundtrip[of "vec4_new 70 BIT4_1" 2 1] by (auto simp: vsize)
  then show ?thesis by (simp add: upt_rec bitlevel)
qed

end
