(* ===== verification/Vector2_Arith.thy ===== *)
theory Vector2_Arith
  imports Vector2
begin

text \<open>
  The arithmetic of \<^verbatim>\<open>vvp_vector2_t\<close> (\<^verbatim>\<open>vvp_net.cc\<close>): sum, difference, product, negation and power.
  The operators are stated on the numbers in the arrays. Most compute modulo two to the number of bits in the
  array, which may be more than the width; only \<^verbatim>\<open>+=\<close> clears the bits above the width.
\<close>

section \<open>Sum and difference\<close>

definition add_carry :: "u64 \<Rightarrow> u64 \<Rightarrow> u64 \<Rightarrow> u64 \<times> u64" where
  "add_carry a b carry =
     (let out = carry; carry = 0;
          carry = (if - 1 - out < a then carry + 1 else carry); out = out + a;
          carry = (if - 1 - out < b then carry + 1 else carry); out = out + b
      in (out, carry))"

definition add2_word :: "(u64 \<Rightarrow> u64) \<Rightarrow> u64 list \<Rightarrow> nat \<Rightarrow> u64 list \<times> u64 \<Rightarrow> u64 list \<times> u64" where
  "add2_word f that idx st =
     (let (s, carry) = add_carry (fst st ! idx) (f (that ! idx)) (snd st) in ((fst st)[idx := s], carry))"

definition vec2_add :: "vvp_vector2_t \<Rightarrow> vvp_vector2_t \<Rightarrow> vvp_vector2_t option" where
  "vec2_add v that =
     (if v2_size v \<noteq> v2_size that then None
      else if v2_size v = 0 then Some v
      else let words = (v2_size v + 63) div 64;
               vec = fst (fold (add2_word id (v2_vec that)) [0..<words] (v2_vec v, 0));
               msk = shr (- 1) (64 - v2_size v mod 64)
           in Some (v\<lparr>v2_vec := vec[words - 1 := (vec ! (words - 1)) AND msk]\<rparr>))"

definition vec2_sub :: "vvp_vector2_t \<Rightarrow> vvp_vector2_t \<Rightarrow> vvp_vector2_t option" where
  "vec2_sub v that =
     (if v2_size v \<noteq> v2_size that then None
      else if v2_size v = 0 then Some v
      else let words = (v2_size v + 63) div 64
           in Some (v\<lparr>v2_vec := fst (fold (add2_word (\<lambda>w. NOT w) (v2_vec that)) [0..<words] (v2_vec v, 1))\<rparr>))"

definition vec2_neg :: "vvp_vector2_t \<Rightarrow> vvp_vector2_t option" where
  "vec2_neg that =
     (let neg = vec2_copy that
      in if v2_size neg = 0 then Some neg
         else let words = (v2_size neg + 63) div 64
              in vec2_add (neg\<lparr>v2_vec := update_cells (\<lambda>_ w. NOT w) [0..<words] (v2_vec neg)\<rparr>) (vec2_new 1 (v2_size neg)))"

section \<open>Product and power\<close>

definition multiply_long :: "u64 \<Rightarrow> u64 \<Rightarrow> u64 \<times> u64" where
  "multiply_long a b =
     (let word_mask = shl 1 32 - 1;
          tmpa = a AND word_mask; tmpb = b AND word_mask;
          r0 = tmpa * tmpb; r1 = shr r0 32; r0 = r0 AND word_mask;
          tmpa = shr a 32 AND word_mask; tmpb = b AND word_mask;
          r1 = r1 + tmpa * tmpb; r2 = shr r1 32; r1 = r1 AND word_mask;
          tmpa = a AND word_mask; tmpb = shr b 32 AND word_mask;
          r1 = r1 + tmpa * tmpb; r2 = r2 + shr r1 32; r3 = shr r2 32; r1 = r1 AND word_mask; r2 = r2 AND word_mask;
          tmpa = shr a 32 AND word_mask; tmpb = shr b 32 AND word_mask;
          r2 = r2 + tmpa * tmpb; r3 = r3 + shr r2 32; r2 = r2 AND word_mask
      in ((shl r1 32) OR r0, (shl r3 32) OR r2))"

text \<open>The innermost loop, \<open>adr\<close> running over \<^verbatim>\<open>adx + bdx + sdx\<close>; \<^verbatim>\<open>low\<close> is replaced by \<^verbatim>\<open>hig\<close> and then by 0.\<close>

definition mul2_carry :: "nat \<Rightarrow> u64 list \<times> u64 \<times> u64 \<times> u64 \<Rightarrow> u64 list \<times> u64 \<times> u64 \<times> u64" where
  "mul2_carry adr st =
     (let (r, low, hig, carry) = st; (s, carry) = add_carry (r ! adr) low carry
      in (r[adr := s], hig, 0, carry))"

definition mul2_cell :: "nat \<Rightarrow> u64 \<Rightarrow> u64 \<Rightarrow> nat \<Rightarrow> u64 list \<Rightarrow> u64 list" where
  "mul2_cell words tmpa tmpb base r =
     (let (low, hig) = multiply_long tmpa tmpb in fst (fold mul2_carry [base..<words] (r, low, hig, 0)))"

definition vec2_mul :: "vvp_vector2_t \<Rightarrow> vvp_vector2_t \<Rightarrow> vvp_vector2_t option" where
  "vec2_mul a b =
     (if v2_size a \<noteq> v2_size b then None
      else let r = vec2_new 0 (v2_size a); words = (v2_size r + 63) div 64
           in Some (r\<lparr>v2_vec := fold (\<lambda>bdx r.
                let tmpb = v2_vec b ! bdx
                in if tmpb = 0 then r
                   else fold (\<lambda>adx r.
                       let tmpa = v2_vec a ! adx
                       in if tmpa = 0 then r else mul2_cell words tmpa tmpb (adx + bdx) r) [0..<words] r)
                [0..<words] (v2_vec r)\<rparr>))"

text \<open>\<^verbatim>\<open>pow\<close> changes its second argument; the model returns it with the result.\<close>

partial_function (option) vec2_pow :: "vvp_vector2_t \<Rightarrow> vvp_vector2_t \<Rightarrow> (vvp_vector2_t \<times> vvp_vector2_t) option" where
  "vec2_pow x y =
     (if vec2_eq y (vec2_new 0 1) then Some (vec2_new 1 (v2_size x), y)
      else if vec2_value y 0 = 1 then
        (case vec2_set_bit y 0 0 of
           None \<Rightarrow> None
         | Some y \<Rightarrow> Option.bind (vec2_pow x y) (\<lambda>(p, y). map_option (\<lambda>res. (res, y)) (vec2_mul x p)))
      else
        (case vec2_shr y 1 of
           None \<Rightarrow> None
         | Some y \<Rightarrow> Option.bind (vec2_pow x y) (\<lambda>(z, y). map_option (\<lambda>res. (res, y)) (vec2_mul z z))))"

section \<open>Addition and subtraction on numbers\<close>

lemma two_carries:
  fixes a b c x y M :: nat
  assumes "a < M" "b < M" "c \<le> 1" "x = (if c + a < M then c + a else c + a - M)" "y = (if x + b < M then x + b else x + b - M)"
  shows "y + M * ((if M \<le> c + a then 1 else 0) + (if M \<le> x + b then 1 else 0)) = a + b + c \<and>
    (if M \<le> c + a then 1 else 0 :: nat) + (if M \<le> x + b then 1 else 0) \<le> 1"
  using assms by (auto split: if_splits)

lemma carry_unique:
  fixes s t c d x M :: nat
  assumes "s + M * c = x" "t + M * d = x" "s < M" "t < M"
  shows "s = t \<and> c = d"
proof -
  have "x mod M = s" unfolding assms(1)[symmetric] using assms(3) by simp
  moreover have "x mod M = t" unfolding assms(2)[symmetric] using assms(4) by simp
  ultimately have "s = t" by simp
  then have "M * c = M * d" using assms(1,2) by linarith
  then show ?thesis using \<open>s = t\<close> assms(3) by simp
qed

lemma add_carry_words:
  assumes "unat c \<le> 1" "add_carry a b c = (s, c')"
  shows "unat s + 2 ^ 64 * unat c' = unat a + unat b + unat c \<and> unat c' \<le> 1"
proof -
  have over: "- 1 - x < y \<longleftrightarrow> 2 ^ 64 \<le> unat x + unat y" for x y :: u64
  proof -
    have "unat (- 1 - x) = 2 ^ 64 - 1 - unat x"
      by (simp add: unat_sub word_order.extremum unsigned_minus_1_eq_mask mask_eq_exp_minus_1)
    moreover have "unat x < 2 ^ 64" by simp
    ultimately show ?thesis unfolding word_less_nat_alt by linarith
  qed
  have plus: "unat (x + y) = (if unat x + unat y < 2 ^ 64 then unat x + unat y else unat x + unat y - 2 ^ 64)" for x y :: u64
    by (simp add: unat_plus_if')
  let ?o1 = "2 ^ 64 \<le> unat c + unat a" and ?o2 = "2 ^ 64 \<le> unat (c + a) + unat b"
  have s: "s = c + a + b" and c': "c' = (if ?o1 then 1 else 0) + (if ?o2 then 1 else 0)"
    using assms(2) by (auto simp: add_carry_def Let_def over)
  have "unat s + 2 ^ 64 * ((if ?o1 then 1 else 0) + (if ?o2 then 1 else 0)) = unat a + unat b + unat c \<and>
      (if ?o1 then 1 else 0 :: nat) + (if ?o2 then 1 else 0) \<le> 1"
    unfolding s by (rule two_carries[OF _ _ assms(1) plus plus]) simp_all
  moreover from this have "unat c' = (if ?o1 then 1 else 0) + (if ?o2 then 1 else 0)" unfolding c' by (auto split: if_splits)
  ultimately show ?thesis by simp
qed

lemma add_carry_eq: "unat c \<le> 1 \<Longrightarrow> add_carry a b c = add_with_carry a b c"
proof -
  assume c: "unat c \<le> 1"
  obtain s c1 where l: "add_carry a b c = (s, c1)" by (meson surj_pair)
  obtain t c2 where r: "add_with_carry a b c = (t, c2)" by (meson surj_pair)
  have "unat s = unat t \<and> unat c1 = unat c2"
    by (rule carry_unique[OF conjunct1[OF add_carry_words[OF c l]] conjunct1[OF add_with_carry_words[OF c r]]]) simp_all
  then show ?thesis using l r by (simp add: word_unat_eq_iff)
qed

lemma add2_words:
  assumes "k \<le> length ws" "k \<le> length that" "unat c \<le> 1"
  shows "fold (add2_word f that) [0..<k] (ws, c) = fold (add_word f that) [0..<k] (ws, c)"
  using assms(1,2)
proof (induction k)
  case (Suc k)
  have "unat (snd (fold (add_word f that) [0..<k] (ws, c))) \<le> 1"
    using add_words_val[of k ws that c f] Suc.prems assms(3) by simp
  then show ?case using Suc by (simp add: add2_word_def[of f that k] add_word_def[of f that k] add_carry_eq)
qed simp

text \<open>The sum of two arrays of one length, up to the last carry.\<close>

lemma add2_words_val:
  assumes "length ws = n" "length that = n" "unat c \<le> 1"
  shows "length (fst (fold (add2_word f that) [0..<n] (ws, c))) = n \<and>
    words_val (fst (fold (add2_word f that) [0..<n] (ws, c))) = (words_val ws + words_val (map f that) + unat c) mod 2 ^ (64 * n)"
proof -
  let ?r = "fold (add_word f that) [0..<n] (ws, c)"
  have len: "length (fst ?r) = n" using add_words_val[of n ws that c f] assms by simp
  then have val: "words_val (fst ?r) + 2 ^ (64 * n) * unat (snd ?r) = words_val ws + words_val (map f that) + unat c"
    using add_words_val[of n ws that c f] assms take_all[of "fst ?r" n] by (metis order_refl take_all)
  have "words_val (fst ?r) = (words_val (fst ?r) + 2 ^ (64 * n) * unat (snd ?r)) mod 2 ^ (64 * n)"
    using words_val_less[of "fst ?r"] len by simp
  then show ?thesis using len val add2_words[of n ws that c f] assms by simp
qed

text \<open>Clearing the bits of the top word above the width.\<close>

lemma clear_tail_num:
  assumes "length vec = word_count n" "0 < n"
  shows "words_val (vec[word_count n - 1 := (vec ! (word_count n - 1)) AND shr (- 1) (64 - n mod 64)]) = words_val vec mod 2 ^ n"
proof -
  have pos: "0 < word_count n" using assms(2) by (simp add: div_greater_zero_iff)
  let ?r = "vec[word_count n - 1 := (vec ! (word_count n - 1)) AND shr (- 1) (64 - n mod 64)]"
  have bits: "bit (words_val ?r) i \<longleftrightarrow> i < 64 * word_count n \<and> (bit (words_val vec) i \<and> i < n)" for i
  proof (rule bit_words_valI)
    fix j m assume jm: "j < word_count n" "m < (64 :: nat)"
    show "bit (?r ! j) m \<longleftrightarrow> bit (words_val vec) (64 * j + m) \<and> 64 * j + m < n"
    proof (cases "j = word_count n - 1")
      case True
      then have "?r ! j = (vec ! j) AND shr (- 1) (64 - n mod 64)" using jm(1) assms(1) by (simp only: nth_list_update_eq)
      then have "bit (?r ! j) m \<longleftrightarrow> bit (vec ! j) m \<and> (n mod 64 = 0 \<or> m < n mod 64)"
        using jm(2) by (simp only: bit_and_iff msk_tail_bit)
      moreover have "\<not> j \<noteq> word_count n - 1" using True by simp
      then have "64 * j + m < n \<longleftrightarrow> n mod 64 = 0 \<or> m < n mod 64"
        using top_word_index[OF jm] by (simp only: simp_thms)
      moreover have "bit (words_val vec) (64 * j + m) \<longleftrightarrow> bit (vec ! j) m"
        using bit_words_val_at[OF jm(2), of vec j] jm(1) assms(1) by simp
      ultimately show ?thesis by (simp only: )
    next
      case False
      then have "?r ! j = vec ! j" by simp
      moreover have "64 * j + m < n" using top_word_index[OF jm] False by (simp only: simp_thms)
      moreover have "bit (words_val vec) (64 * j + m) \<longleftrightarrow> bit (vec ! j) m"
        using bit_words_val_at[OF jm(2), of vec j] jm(1) assms(1) by simp
      ultimately show ?thesis by (simp only: simp_thms)
    qed
  qed (simp add: assms(1))
  have "bit (words_val ?r) i = bit (take_bit n (words_val vec)) i" for i
  proof (cases "i < n")
    case True
    then have "i < 64 * word_count n" using word_count_bound[of n] by (rule less_le_trans)
    then show ?thesis unfolding bits bit_take_bit_iff using True by blast
  qed (unfold bits bit_take_bit_iff, blast)
  then have "words_val ?r = take_bit n (words_val vec)" by (rule bit_eqI)
  then show ?thesis by (simp only: take_bit_eq_mod)
qed

lemma vec2_add_num:
  assumes "vec2_ok v" "vec2_ok that" "v2_size that = v2_size v"
  shows "\<exists>r. vec2_add v that = Some r \<and> v2_size r = v2_size v \<and> vec2_clean r \<and>
    vec2_num r = (vec2_num v + vec2_num that) mod 2 ^ v2_size v"
proof (cases "v2_size v = 0")
  case True
  then show ?thesis using assms by (simp add: vec2_add_def vec2_clean_def vec2_ok_def vec2_num_def)
next
  case False
  let ?n = "word_count (v2_size v)" and ?m = "2 ^ (64 * word_count (v2_size v)) :: nat"
  let ?vec = "fst (fold (add2_word id (v2_vec that)) [0..<?n] (v2_vec v, 0))"
  have vec: "length ?vec = ?n" "words_val ?vec = (vec2_num v + vec2_num that) mod ?m"
    using add2_words_val[of "v2_vec v" ?n "v2_vec that" 0 id] assms by (simp_all add: vec2_ok_def vec2_num_def)
  have "words_val ?vec mod 2 ^ v2_size v = (vec2_num v + vec2_num that) mod 2 ^ v2_size v"
    unfolding vec(2) using le_imp_power_dvd[OF word_count_bound[of "v2_size v"], of "2 :: nat"] by (simp add: mod_mod_cancel)
  then show ?thesis
    using clear_tail_num[OF vec(1)] vec(1) False assms(3)
    by (simp add: vec2_add_def Let_def vec2_clean_def vec2_ok_def vec2_num_def)
qed

lemma vec2_sub_num:
  assumes "vec2_ok v" "vec2_ok that" "v2_size that = v2_size v"
  shows "\<exists>r. vec2_sub v that = Some r \<and> v2_size r = v2_size v \<and> vec2_ok r \<and>
    int (vec2_num r) = (int (vec2_num v) - int (vec2_num that)) mod 2 ^ (64 * word_count (v2_size v))"
proof (cases "v2_size v = 0")
  case True
  then show ?thesis using assms by (simp add: vec2_sub_def vec2_ok_def vec2_num_def)
next
  case False
  let ?n = "word_count (v2_size v)" and ?m = "2 ^ (64 * word_count (v2_size v)) :: nat"
  let ?vec = "fst (fold (add2_word (\<lambda>w. NOT w) (v2_vec that)) [0..<?n] (v2_vec v, 1))"
  have len: "length (v2_vec that) = ?n" using assms by (simp add: vec2_ok_def)
  have vec: "length ?vec = ?n" "words_val ?vec = (vec2_num v + words_val (map (\<lambda>w. NOT w) (v2_vec that)) + 1) mod ?m"
    using add2_words_val[of "v2_vec v" ?n "v2_vec that" 1 "\<lambda>w. NOT w"] assms by (simp_all add: vec2_ok_def vec2_num_def)
  have "words_val (map (\<lambda>w. NOT w) (v2_vec that)) + vec2_num that + 1 = ?m"
    using words_val_not[of "v2_vec that"] len by (simp add: vec2_num_def)
  then have eq: "int (vec2_num v + words_val (map (\<lambda>w. NOT w) (v2_vec that)) + 1) = int (vec2_num v) - int (vec2_num that) + int ?m"
    by linarith
  have "int (words_val ?vec) = (int (vec2_num v) - int (vec2_num that)) mod int ?m"
    unfolding vec(2) zmod_int eq by (rule mod_add_self2)
  then show ?thesis using vec(1) False assms(3) by (simp add: vec2_sub_def Let_def vec2_ok_def vec2_num_def)
qed

lemma vec2_new_num:
  assumes "0 < n"
  shows "vec2_ok (vec2_new w n) \<and> v2_size (vec2_new w n) = n \<and> vec2_num (vec2_new w n) = unat w"
  using assms by (auto simp: vec2_new_def vec2_ok_def vec2_num_def Let_def div_greater_zero_iff)

lemma vec2_new_clean: "0 < n \<Longrightarrow> unat w < 2 ^ n \<Longrightarrow> vec2_clean (vec2_new w n)"
  using vec2_new_num[of n w] by (simp add: vec2_clean_def)

lemma vec2_new_0: "vec2_clean (vec2_new 0 n) \<and> vec2_num (vec2_new 0 n) = 0 \<and> v2_size (vec2_new 0 n) = n"
  by (cases "n = 0") (auto simp: vec2_new_num vec2_clean_def, simp_all add: vec2_new_def vec2_ok_def vec2_num_def)

lemma vec2_copy_id: "vec2_ok v \<Longrightarrow> vec2_copy v = v"
proof (cases "word_count (v2_size v) = 0")
  case True
  assume "vec2_ok v"
  then show ?thesis using True by (simp add: vec2_copy_def vec2_ok_def vec2_null_def div_eq_0_iff)
next
  case False
  assume "vec2_ok v"
  then have "map (\<lambda>idx. v2_vec v ! idx) [0..<word_count (v2_size v)] = v2_vec v"
    using map_nth[of "v2_vec v"] by (simp only: vec2_ok_def)
  then show ?thesis using False by (simp add: vec2_copy_def)
qed

lemma vec2_neg_num:
  assumes "vec2_ok v"
  shows "\<exists>r. vec2_neg v = Some r \<and> v2_size r = v2_size v \<and> vec2_clean r \<and>
    int (vec2_num r) = (- int (vec2_num v)) mod 2 ^ v2_size v"
proof (cases "v2_size v = 0")
  case True
  then show ?thesis using assms vec2_copy_id[OF assms] by (simp add: vec2_neg_def vec2_clean_def vec2_ok_def vec2_num_def Let_def)
next
  case False
  let ?n = "word_count (v2_size v)"
  let ?u = "v\<lparr>v2_vec := update_cells (\<lambda>_ w. NOT w) [0..<?n] (v2_vec v)\<rparr>"
  have len: "length (v2_vec v) = ?n" using assms by (simp add: vec2_ok_def)
  then have vec: "v2_vec ?u = map (\<lambda>w. NOT w) (v2_vec v)" by (intro nth_equalityI) (simp_all add: nth_update_cells)
  have "vec2_ok ?u" using len by (simp add: vec2_ok_def)
  then obtain r where r: "vec2_add ?u (vec2_new 1 (v2_size v)) = Some r" "v2_size r = v2_size v" "vec2_clean r"
    "vec2_num r = (vec2_num ?u + 1) mod 2 ^ v2_size v"
    using vec2_add_num[of ?u "vec2_new 1 (v2_size v)"] vec2_new_num[of "v2_size v" 1] False by auto
  have "vec2_num ?u + vec2_num v + 1 = 2 ^ (64 * ?n)"
    using words_val_not[of "v2_vec v"] len vec by (simp add: vec2_num_def)
  from arg_cong[OF this, of int] have eq: "int (vec2_num ?u + 1) = - int (vec2_num v) + 2 ^ (64 * ?n)" by simp
  have "(2 :: int) ^ (64 * ?n) mod 2 ^ v2_size v = 0" using le_imp_power_dvd[OF word_count_bound[of "v2_size v"], of "2 :: int"] by simp
  then have "int (vec2_num r) = (- int (vec2_num v)) mod 2 ^ v2_size v"
    unfolding r(4) zmod_int eq using mod_add_right_eq[of "- int (vec2_num v)" "2 ^ (64 * ?n)" "2 ^ v2_size v"] by simp
  then show ?thesis using r(1-3) False vec2_copy_id[OF assms] by (simp add: vec2_neg_def Let_def)
qed

section \<open>Multiplication on numbers\<close>

lemma partial_products:
  fixes a0 a1 b0 b1 B :: nat
  defines "s1 \<equiv> a0 * b0 div B + a1 * b0"
  defines "s2 \<equiv> s1 mod B + a0 * b1"
  defines "t2 \<equiv> s1 div B + s2 div B"
  defines "s3 \<equiv> t2 mod B + a1 * b1"
  shows "(a0 + a1 * B) * (b0 + b1 * B) = a0 * b0 mod B + s2 mod B * B + (s3 mod B + (t2 div B + s3 div B) * B) * (B * B)"
proof -
  define m0 d0 m1 d1 m2 d2 m3 d3 m4 d4 where
    "m0 = a0 * b0 mod B" "d0 = a0 * b0 div B" "m1 = s1 mod B" "d1 = s1 div B" "m2 = s2 mod B" "d2 = s2 div B"
    "m3 = t2 mod B" "d3 = t2 div B" "m4 = s3 mod B" "d4 = s3 div B"
  note parts = this
  have e0: "a0 * b0 = m0 + d0 * B" by (simp add: parts)
  have e1: "(d0 + a1 * b0) * B = (m1 + d1 * B) * B" by (simp add: parts flip: s1_def)
  have e2: "(m1 + a0 * b1) * B = (m2 + d2 * B) * B" by (simp add: parts flip: s2_def)
  have e3: "(d1 + d2) * (B * B) = (m3 + d3 * B) * (B * B)" by (simp add: parts flip: t2_def)
  have e4: "(m3 + a1 * b1) * (B * B) = (m4 + d4 * B) * (B * B)" by (simp add: parts flip: s3_def)
  have "(a0 + a1 * B) * (b0 + b1 * B) = a0 * b0 + a1 * b0 * B + a0 * b1 * B + a1 * b1 * (B * B)"
    by (simp add: algebra_simps)
  also have "\<dots> = m0 + m2 * B + (m4 + (d3 + d4) * B) * (B * B)"
    using e0 e1 e2 e3 e4 unfolding distrib_right distrib_left mult.assoc by linarith
  finally show ?thesis by (simp only: parts)
qed

lemma unat_or_halves:
  assumes "unat x < 2 ^ 32" "unat y < 2 ^ 32"
  shows "unat ((shl x 32) OR y) = unat x * 2 ^ 32 + unat y"
proof -
  have high: "\<not> bit y i" if "32 \<le> i" for i
    using nat_less_exp_iff[of "unat y" 32] assms(2) that by (simp add: bit_unat_u64)
  have "(shl x 32) AND y = 0" using high by (auto simp: u64_zero_iff bit_and_iff bit_shl)
  then have "(shl x 32) OR y = shl x 32 + y" using word_plus_and_or[of "shl x 32" y] by simp
  moreover have "unat (shl x 32 + y) = unat (shl x 32) + unat y"
    using assms by (intro unat_add_no_wrap) (simp add: unat_shl32)
  ultimately show ?thesis using assms(1) by (simp add: unat_shl32)
qed

lemma multiply_long_full:
  "(case multiply_long a b of (low, high) \<Rightarrow> unat low + 2 ^ 64 * unat high) = unat a * unat b"
proof -
  define B :: nat where "B = 2 ^ 32"
  define lo hi where "lo w = w AND (shl 1 32 - 1)" "hi w = shr w 32 AND (shl 1 32 - 1)" for w
  have hi: "shr w 32 = hi w" for w
    by (rule word_unat_eq_iff[THEN iffD2]) (simp only: lo_hi_def unat_hi32 unat_shr32)
  have cut: "unat (lo w) = unat w mod B" "unat (hi w) = unat w div B" "unat (lo w) < B" "unat (hi w) < B" for w
    using unat_and_mask32[of w] unat_hi32[of w] by (simp_all add: lo_hi_def B_def div_less_iff_less_mult)
  have lo_hi_id: "lo (hi w) = hi w" for w
    by (rule word_unat_eq_iff[THEN iffD2]) (use cut(1)[of "hi w"] cut(4)[of w] in simp)
  have BB: "B * B = 2 ^ 64" by (simp add: B_def)
  have prod: "unat (x * y) = unat x * unat y" if "unat x < B" "unat y < B" for x y :: u64
    using that by (intro unat_mult_no_wrap mult_less_pow64) (simp_all add: B_def)
  have fma: "unat (z + x * y) = unat z + unat x * unat y" if "unat z < B" "unat x < B" "unat y < B" for x y z :: u64
  proof -
    have "unat x * unat y \<le> (B - 1) * (B - 1)" using that by (intro mult_le_mono) auto
    also have "\<dots> + B \<le> B * B" by (simp add: B_def)
    finally have "unat z + unat (x * y) < 2 ^ 64" using that prod[OF that(2,3)] BB by simp
    then show ?thesis using unat_add_no_wrap[of z "x * y"] prod[OF that(2,3)] by simp
  qed
  have sum: "unat (x + y) = unat x + unat y" if "unat x < 4 * B" "unat y < 4 * B" for x y :: u64
    using that by (intro unat_add_halves) (simp_all add: B_def)
  define S1 where "S1 = hi (lo a * lo b) + hi a * lo b"
  define S2 where "S2 = lo S1 + lo a * hi b"
  define T2 where "T2 = hi S1 + hi S2"
  define S3 where "S3 = lo T2 + hi a * hi b"
  define T3 where "T3 = hi T2 + hi S3"
  have code: "multiply_long a b = ((shl (lo S2) 32) OR lo (lo a * lo b), (shl T3 32) OR lo S3)"
    unfolding multiply_long_def Let_def S1_def S2_def T2_def S3_def T3_def by (simp only: hi lo_hi_id flip: lo_hi_def(1))
  have s1: "unat S1 = unat (lo a) * unat (lo b) div B + unat (hi a) * unat (lo b)"
    unfolding S1_def by (simp add: fma cut(3,4)) (simp add: cut(2) prod cut(3))
  have s2: "unat S2 = unat S1 mod B + unat (lo a) * unat (hi b)"
    unfolding S2_def by (simp add: fma cut(3,4)) (simp add: cut(1))
  have t2: "unat T2 = unat S1 div B + unat S2 div B"
    unfolding T2_def using cut(4)[of S1] cut(4)[of S2] by (subst sum) (simp_all add: cut(2))
  have s3: "unat S3 = unat T2 mod B + unat (hi a) * unat (hi b)"
    unfolding S3_def by (simp add: fma cut(3,4)) (simp add: cut(1))
  have t3: "unat T3 = unat T2 div B + unat S3 div B"
    unfolding T3_def using cut(4)[of T2] cut(4)[of S3] by (subst sum) (simp_all add: cut(2))
  have ab: "unat a = unat (lo a) + unat (hi a) * B" "unat b = unat (lo b) + unat (hi b) * B"
    by (simp_all add: cut)
  have total: "unat a * unat b = unat (lo a) * unat (lo b) mod B + unat S2 mod B * B + (unat S3 mod B + unat T3 * B) * (B * B)"
    unfolding ab t3 s3 t2 s2 s1 by (rule partial_products)
  have "unat T3 < B" using total[symmetric] by (rule top_half_less) (simp_all add: B_def)
  then have high: "unat ((shl T3 32) OR lo S3) = unat T3 * B + unat S3 mod B"
    using unat_or_halves[of T3 "lo S3"] cut(1)[of S3] cut(3)[of S3] by (simp add: B_def)
  have low: "unat ((shl (lo S2) 32) OR lo (lo a * lo b)) = unat S2 mod B * B + unat (lo a) * unat (lo b) mod B"
    using unat_or_halves[of "lo S2" "lo (lo a * lo b)"] cut(1)[of S2] cut(3)[of S2] cut(1)[of "lo a * lo b"] cut(3)[of "lo a * lo b"]
      prod[OF cut(3) cut(3), of a b] by (simp add: B_def)
  show ?thesis unfolding code using total high low BB by simp
qed

lemma mul2_carry_val:
  assumes "m \<le> k" "k \<le> length r" "unat carry \<le> 1"
  shows "case fold mul2_carry [m..<k] (r, low, hig, carry) of (r', low', hig', carry') \<Rightarrow>
    length r' = length r \<and> unat carry' \<le> 1 \<and>
    words_val r' + 2 ^ (64 * k) * (unat low' + 2 ^ 64 * unat hig' + unat carry') =
    words_val r + 2 ^ (64 * m) * (unat low + 2 ^ 64 * unat hig + unat carry)"
  using assms
proof (induction k rule: dec_induct)
  case (step k)
  obtain r1 l1 h1 c1 where st: "fold mul2_carry [m..<k] (r, low, hig, carry) = (r1, l1, h1, c1)" by (metis prod_cases4)
  with step have IH: "length r1 = length r" "unat c1 \<le> 1"
    "words_val r1 + 2 ^ (64 * k) * (unat l1 + 2 ^ 64 * unat h1 + unat c1) = words_val r + 2 ^ (64 * m) * (unat low + 2 ^ 64 * unat hig + unat carry)"
    by simp_all
  obtain s c2 where s: "add_carry (r1 ! k) l1 c1 = (s, c2)" by (meson surj_pair)
  note sum = add_carry_words[OF IH(2) s]
  have upd: "words_val (r1[k := s]) + 2 ^ (64 * k) * unat (r1 ! k) = words_val r1 + 2 ^ (64 * k) * unat s"
    using step IH(1) by (intro words_val_update) simp
  have "2 ^ (64 * k) * unat s + 2 ^ (64 * Suc k) * unat c2 = 2 ^ (64 * k) * unat (r1 ! k) + 2 ^ (64 * k) * (unat l1 + unat c1)"
    using arg_cong[OF conjunct1[OF sum], of "\<lambda>x. 2 ^ (64 * k) * x"] by (simp add: power_add algebra_simps)
  with upd IH(3) have "words_val (r1[k := s]) + 2 ^ (64 * Suc k) * (unat h1 + unat c2) =
      words_val r + 2 ^ (64 * m) * (unat low + 2 ^ 64 * unat hig + unat carry)"
    by (simp add: power_add algebra_simps)
  moreover have "fold mul2_carry [m..<Suc k] (r, low, hig, carry) = (r1[k := s], h1, 0, c2)"
    using st s step(1) by (simp add: mul2_carry_def[of k])
  ultimately show ?case using IH(1) sum by simp
qed simp

lemma mul2_cell_val:
  assumes "length r = words"
  shows "length (mul2_cell words a b base r) = words \<and>
    words_val (mul2_cell words a b base r) mod 2 ^ (64 * words) = (words_val r + 2 ^ (64 * base) * (unat a * unat b)) mod 2 ^ (64 * words)"
proof (cases "base \<le> words")
  case True
  obtain low hig where m: "multiply_long a b = (low, hig)" by (meson surj_pair)
  have product: "unat low + 2 ^ 64 * unat hig = unat a * unat b" using multiply_long_full[of a b] m by simp
  obtain r1 l1 h1 c1 where st: "fold mul2_carry [base..<words] (r, low, hig, 0) = (r1, l1, h1, c1)" by (metis prod_cases4)
  have "length r1 = words" "words_val r1 + 2 ^ (64 * words) * (unat l1 + 2 ^ 64 * unat h1 + unat c1) =
      words_val r + 2 ^ (64 * base) * (unat a * unat b)"
    using mul2_carry_val[OF True, of r 0 low hig] st assms product by simp_all
  then have "words_val r1 mod 2 ^ (64 * words) = (words_val r + 2 ^ (64 * base) * (unat a * unat b)) mod 2 ^ (64 * words)"
    by (metis mod_mult_self2)
  then show ?thesis using m st \<open>length r1 = words\<close> by (simp add: mul2_cell_def)
next
  case False
  then have "mul2_cell words a b base r = r" by (simp add: mul2_cell_def split: prod.splits)
  moreover have "2 ^ (64 * words) dvd (2 :: nat) ^ (64 * base)" using False by (intro le_imp_power_dvd) simp
  then have "2 ^ (64 * base) * (unat a * unat b) mod 2 ^ (64 * words) = 0" by (simp add: dvd_imp_mod_0)
  ultimately show ?thesis using assms by (metis add.right_neutral mod_add_right_eq)
qed

lemma mod_step:
  fixes x y z M :: nat
  assumes "x mod M = y mod M"
  shows "(x + z) mod M = (y + z) mod M"
  using mod_add_cong[OF assms refl] .

lemma mul2_row_val:
  assumes "length r = words" "k \<le> length as"
  shows "length (fold (\<lambda>adx r. let tmpa = as ! adx in if tmpa = 0 then r else mul2_cell words tmpa tmpb (adx + bdx) r) [0..<k] r) = words \<and>
    words_val (fold (\<lambda>adx r. let tmpa = as ! adx in if tmpa = 0 then r else mul2_cell words tmpa tmpb (adx + bdx) r) [0..<k] r) mod 2 ^ (64 * words) =
    (words_val r + 2 ^ (64 * bdx) * (unat tmpb * words_val (take k as))) mod 2 ^ (64 * words)"
  using assms(2)
proof (induction k)
  case (Suc k)
  let ?M = "2 ^ (64 * words) :: nat"
  let ?step = "\<lambda>adx r. let tmpa = as ! adx in if tmpa = 0 then r else mul2_cell words tmpa tmpb (adx + bdx) r"
  let ?r = "fold ?step [0..<k] r"
  have IH: "length ?r = words" "words_val ?r mod ?M = (words_val r + 2 ^ (64 * bdx) * (unat tmpb * words_val (take k as))) mod ?M"
    using Suc by simp_all
  have cell: "length (?step k ?r) = words \<and>
      words_val (?step k ?r) mod ?M = (words_val ?r + 2 ^ (64 * (k + bdx)) * (unat (as ! k) * unat tmpb)) mod ?M"
    using IH(1) mul2_cell_val[OF IH(1), of "as ! k" tmpb "k + bdx"] by (simp add: Let_def)
  have "words_val (take (Suc k) as) = words_val (take k as) + 2 ^ (64 * k) * unat (as ! k)"
    using Suc.prems by (intro words_val_take_Suc) simp
  then have eq: "words_val r + 2 ^ (64 * bdx) * (unat tmpb * words_val (take (Suc k) as)) =
      (words_val r + 2 ^ (64 * bdx) * (unat tmpb * words_val (take k as))) + 2 ^ (64 * (k + bdx)) * (unat (as ! k) * unat tmpb)"
    by (simp add: power_add algebra_simps)
  have fold_Suc: "fold ?step [0..<Suc k] r = ?step k ?r" by simp
  show ?case
    unfolding fold_Suc eq
    by (intro conjI conjunct1[OF cell] trans[OF conjunct2[OF cell] mod_step[OF IH(2)]])
qed (use assms(1) in simp)

lemma vec2_mul_num:
  assumes "vec2_ok a" "vec2_ok b" "v2_size b = v2_size a"
  shows "\<exists>r. vec2_mul a b = Some r \<and> v2_size r = v2_size a \<and> vec2_ok r \<and>
    vec2_num r = vec2_num a * vec2_num b mod 2 ^ (64 * word_count (v2_size a))"
proof -
  let ?n = "word_count (v2_size a)" and ?M = "2 ^ (64 * word_count (v2_size a)) :: nat"
  let ?row = "\<lambda>bdx tmpb r. fold (\<lambda>adx r. let tmpa = v2_vec a ! adx in if tmpa = 0 then r else mul2_cell ?n tmpa tmpb (adx + bdx) r) [0..<?n] r"
  let ?step = "\<lambda>bdx r. let tmpb = v2_vec b ! bdx in if tmpb = 0 then r else ?row bdx tmpb r"
  let ?r0 = "v2_vec (vec2_new 0 (v2_size a))"
  have fold_Suc: "fold f [0..<Suc k] r = f k (fold f [0..<k] r)" for f :: "nat \<Rightarrow> 64 word list \<Rightarrow> 64 word list" and k r by simp
  have size: "v2_size (vec2_new 0 s) = s" for s by (simp add: vec2_new_0)
  have len: "length (v2_vec a) = ?n" "length (v2_vec b) = ?n" using assms by (simp_all add: vec2_ok_def)
  have r0: "length ?r0 = ?n" "words_val ?r0 = 0"
    using vec2_new_0[of "v2_size a"] by (simp_all add: vec2_clean_def vec2_ok_def vec2_num_def)
  have "length (fold ?step [0..<k] ?r0) = ?n \<and>
      words_val (fold ?step [0..<k] ?r0) mod ?M = vec2_num a * words_val (take k (v2_vec b)) mod ?M" if "k \<le> ?n" for k
    using that
  proof (induction k)
    case (Suc k)
    let ?r = "fold ?step [0..<k] ?r0"
    have IH: "length ?r = ?n" "words_val ?r mod ?M = vec2_num a * words_val (take k (v2_vec b)) mod ?M" using Suc by simp_all
    have row: "length (?step k ?r) = ?n \<and>
        words_val (?step k ?r) mod ?M = (words_val ?r + 2 ^ (64 * k) * (unat (v2_vec b ! k) * vec2_num a)) mod ?M"
      using IH(1) mul2_row_val[OF IH(1), of ?n "v2_vec a" "v2_vec b ! k" k] len by (simp add: Let_def vec2_num_def)
    have "words_val (take (Suc k) (v2_vec b)) = words_val (take k (v2_vec b)) + 2 ^ (64 * k) * unat (v2_vec b ! k)"
      using Suc.prems len by (intro words_val_take_Suc) simp
    then have eq: "vec2_num a * words_val (take (Suc k) (v2_vec b)) =
        vec2_num a * words_val (take k (v2_vec b)) + 2 ^ (64 * k) * (unat (v2_vec b ! k) * vec2_num a)"
      by (simp add: algebra_simps)
    show ?case
      unfolding fold_Suc eq
      by (intro conjI conjunct1[OF row] trans[OF conjunct2[OF row] mod_step[OF IH(2)]])
  qed (use r0 in simp)
  from this[of ?n] have res: "length (fold ?step [0..<?n] ?r0) = ?n"
    "words_val (fold ?step [0..<?n] ?r0) mod ?M = vec2_num a * vec2_num b mod ?M" using len by (simp_all add: vec2_num_def)
  moreover have "words_val (fold ?step [0..<?n] ?r0) mod ?M = words_val (fold ?step [0..<?n] ?r0)"
    using words_val_less[of "fold ?step [0..<?n] ?r0"] res(1) by simp
  moreover have "vec2_mul a b = Some ((vec2_new 0 (v2_size a))\<lparr>v2_vec := fold ?step [0..<?n] ?r0\<rparr>)"
    unfolding vec2_mul_def using assms(3) by (simp add: Let_def size cong: if_cong)
  ultimately show ?thesis using size[of "v2_size a"] by (simp add: vec2_ok_def vec2_num_def)
qed

lemma vec2_clear_bit_0:
  assumes "vec2_ok y" "0 < v2_size y"
  shows "\<exists>z. vec2_set_bit y 0 0 = Some z \<and> vec2_ok z \<and> v2_size z = v2_size y \<and> vec2_num z = vec2_num y - of_bool (odd (vec2_num y))"
proof -
  define ws where "ws = (v2_vec y)[0 := (v2_vec y ! 0) AND NOT (shl 1 0)]"
  let ?z = "y\<lparr>v2_vec := ws\<rparr>"
  have len: "length (v2_vec y) = word_count (v2_size y)" "0 < word_count (v2_size y)"
    using assms by (simp_all add: vec2_ok_def div_greater_zero_iff)
  have lenws: "length ws = word_count (v2_size y)" using len by (simp add: ws_def)
  have bits: "bit (words_val ws) i \<longleftrightarrow> i < 64 * word_count (v2_size y) \<and> (bit (vec2_num y) i \<and> i \<noteq> 0)" for i
  proof (rule bit_words_valI[OF lenws])
    fix j m assume jm: "j < word_count (v2_size y)" "m < (64 :: nat)"
    have "bit (ws ! j) m \<longleftrightarrow> bit (v2_vec y ! j) m \<and> (j \<noteq> 0 \<or> m \<noteq> 0)"
      using jm len bit_shl_1[of 0 m] by (cases "j = 0") (simp_all add: ws_def bit_and_iff bit_not_iff)
    then show "bit (ws ! j) m \<longleftrightarrow> bit (vec2_num y) (64 * j + m) \<and> 64 * j + m \<noteq> 0"
      using bit_words_val_at[OF jm(2), of "v2_vec y" j] jm(1) len by (simp add: vec2_num_def)
  qed
  have "bit (words_val ws) i = bit (unset_bit 0 (vec2_num y)) i" for i
  proof (cases "i < 64 * word_count (v2_size y)")
    case False
    then have "\<not> bit (vec2_num y) i" using vec2_num_less[OF assms(1)] nat_less_exp_iff not_less by blast
    then show ?thesis by (simp add: bits bit_unset_bit_iff)
  qed (auto simp: bits bit_unset_bit_iff)
  then have "words_val ws = unset_bit 0 (vec2_num y)" by (rule bit_eqI)
  also have "\<dots> = vec2_num y - of_bool (odd (vec2_num y))" by (cases "odd (vec2_num y)") (auto simp: unset_bit_0 elim!: oddE)
  finally have "words_val ws = vec2_num y - of_bool (odd (vec2_num y))" .
  then show ?thesis using assms(2) lenws by (simp add: vec2_set_bit_def Let_def ws_def vec2_ok_def vec2_num_def)
qed

lemma vec2_value_0: "vec2_ok y \<Longrightarrow> 0 < v2_size y \<Longrightarrow> vec2_value y 0 = of_bool (odd (vec2_num y))"
  by (simp add: vec2_value_bit bit_0)

lemma vec2_pow_num:
  assumes "vec2_ok x" "0 < v2_size x" "vec2_clean y"
  shows "\<exists>r y'. vec2_pow x y = Some (r, y') \<and> v2_size r = v2_size x \<and> vec2_ok r \<and>
    vec2_num r = vec2_num x ^ vec2_num y mod 2 ^ (64 * word_count (v2_size x))"
  using assms(3)
proof (induction "vec2_num y" arbitrary: y rule: less_induct)
  case less
  let ?M = "2 ^ (64 * word_count (v2_size x)) :: nat"
  have ok: "vec2_ok y" using less.prems by (simp add: vec2_clean_def)
  have zero: "vec2_eq y (vec2_new 0 1) \<longleftrightarrow> vec2_num y = 0"
    using vec2_order(4)[OF ok, of "vec2_new 0 1"] vec2_new_num[of 1 0] by simp
  have one: "1 mod ?M = 1" using assms(2) by (simp add: div_greater_zero_iff)
  show ?case
  proof (cases "vec2_num y = 0")
    case True
    then show ?thesis
      using zero vec2_new_num[OF assms(2), of 1] one by (subst vec2_pow.simps) simp
  next
    case False
    then have size: "0 < v2_size y" using less.prems by (cases "v2_size y = 0") (auto simp: vec2_clean_def)
    show ?thesis
    proof (cases "odd (vec2_num y)")
      case True
      obtain z where z: "vec2_set_bit y 0 0 = Some z" "vec2_ok z" "v2_size z = v2_size y" "vec2_num z = vec2_num y - 1"
        using vec2_clear_bit_0[OF ok size] True by auto
      have "vec2_num z < vec2_num y" "vec2_clean z" using z less.prems False by (auto simp: vec2_clean_def)
      from less.hyps[OF this] obtain p y' where
        p: "vec2_pow x z = Some (p, y')" "v2_size p = v2_size x" "vec2_ok p" "vec2_num p = vec2_num x ^ vec2_num z mod ?M" by blast
      obtain r where r: "vec2_mul x p = Some r" "v2_size r = v2_size x" "vec2_ok r" "vec2_num r = vec2_num x * vec2_num p mod ?M"
        using vec2_mul_num[OF assms(1) p(3,2)] by blast
      have "vec2_num y = Suc (vec2_num z)" using z(4) False by simp
      then have "vec2_num r = vec2_num x ^ vec2_num y mod ?M" using r(4) p(4) by (simp add: mod_mult_right_eq)
      then show ?thesis using zero False vec2_value_0[OF ok size] True z(1) p(1) r(1-3) by (subst vec2_pow.simps) simp
    next
      case even: False
      obtain z where z: "vec2_shr y 1 = Some z" "vec2_clean z" "vec2_num z = vec2_num y div 2"
        using vec2_shr_num[OF less.prems size, of 1] size by auto
      have "vec2_num z < vec2_num y" using z(3) False by simp
      from less.hyps[OF this z(2)] obtain p y' where
        p: "vec2_pow x z = Some (p, y')" "v2_size p = v2_size x" "vec2_ok p" "vec2_num p = vec2_num x ^ vec2_num z mod ?M" by blast
      obtain r where r: "vec2_mul p p = Some r" "v2_size r = v2_size x" "vec2_ok r" "vec2_num r = vec2_num p * vec2_num p mod ?M"
        using vec2_mul_num[OF p(3,3) refl] p(2) by auto
      have "vec2_num x ^ vec2_num y = vec2_num x ^ vec2_num z * vec2_num x ^ vec2_num z"
        using even z(3) by (simp add: semiring_normalization_rules(36)[symmetric] flip: power_add mult_2)
      then have "vec2_num r = vec2_num x ^ vec2_num y mod ?M" using r(4) p(4) by (simp add: mod_mult_eq)
      then show ?thesis using zero False vec2_value_0[OF ok size] even z(1) p(1) r(1-3) by (subst vec2_pow.simps) simp
    qed
  qed
qed

end
