(* ===== verification/Vector2_Division.thy ===== *)
theory Vector2_Division
  imports Vector2_Arith
begin

text \<open>
  The division of two-valued vectors by shifting and subtracting (\<^verbatim>\<open>div_mod\<close> and the operators
  \<^verbatim>\<open>/\<close> and \<^verbatim>\<open>%\<close> of \<^verbatim>\<open>vvp_net.cc\<close>). The two loops are partial functions, shown to end.
\<close>

section \<open>Division\<close>

text \<open>\<^verbatim>\<open>while (divtmp < dividend)\<close>\<close>

partial_function (option) div_align ::
  "vvp_vector2_t \<Rightarrow> vvp_vector2_t \<Rightarrow> vvp_vector2_t \<Rightarrow> (vvp_vector2_t \<times> vvp_vector2_t) option" where
  "div_align dividend divtmp msk =
     (if vec2_lt divtmp dividend then div_align dividend (vec2_shl divtmp 1) (vec2_shl msk 1) else Some (divtmp, msk))"

text \<open>\<^verbatim>\<open>while (dividend >= divisor)\<close>\<close>

partial_function (option) div_reduce ::
  "vvp_vector2_t \<Rightarrow> vvp_vector2_t \<Rightarrow> vvp_vector2_t \<Rightarrow> vvp_vector2_t \<Rightarrow> vvp_vector2_t \<Rightarrow>
   (vvp_vector2_t \<times> vvp_vector2_t) option" where
  "div_reduce divisor dividend divtmp msk quot =
     (if vec2_ge dividend divisor then
        (case (case vec2_le divtmp dividend of
                 None \<Rightarrow> None
               | Some le \<Rightarrow>
                   if le then (case (vec2_sub dividend divtmp, vec2_add quot msk) of
                                 (Some d, Some q) \<Rightarrow> Some (d, q) | _ \<Rightarrow> None)
                   else Some (dividend, quot)) of
           None \<Rightarrow> None
         | Some (dividend, quot) \<Rightarrow>
             (case (vec2_shr divtmp 1, vec2_shr msk 1) of
                (Some divtmp, Some msk) \<Rightarrow> div_reduce divisor dividend divtmp msk quot | _ \<Rightarrow> None))
      else Some (dividend, quot))"

text \<open>The result is the quotient and the remainder; a division by 0 exits.\<close>

definition div_mod :: "vvp_vector2_t \<Rightarrow> vvp_vector2_t \<Rightarrow> (vvp_vector2_t \<times> vvp_vector2_t) option" where
  "div_mod dividend divisor =
     (let quot = vec2_new 0 (v2_size dividend)
      in if vec2_eq divisor quot then None
         else if vec2_lt dividend divisor then Some (quot, dividend)
         else let msk = vec2_new 1 (v2_size dividend);
                  dividend = vec2_resize dividend (v2_size dividend + 1);
                  divtmp = vec2_resize divisor (v2_size dividend)
              in (case div_align dividend divtmp msk of
                    None \<Rightarrow> None
                  | Some (divtmp, msk) \<Rightarrow>
                      (case div_reduce divisor dividend divtmp msk quot of
                         None \<Rightarrow> None
                       | Some (dividend, quot) \<Rightarrow> Some (quot, vec2_resize dividend (v2_size msk)))))"

definition vec2_div :: "vvp_vector2_t \<Rightarrow> vvp_vector2_t \<Rightarrow> vvp_vector2_t option" where
  "vec2_div dividend divisor = map_option fst (div_mod dividend divisor)"

definition vec2_mod :: "vvp_vector2_t \<Rightarrow> vvp_vector2_t \<Rightarrow> vvp_vector2_t option" where
  "vec2_mod dividend divisor = map_option snd (div_mod dividend divisor)"

section \<open>Division on numbers\<close>

lemma vec2_resize_num:
  assumes "vec2_ok v" "0 < n"
  shows "vec2_ok (vec2_resize v n) \<and> v2_size (vec2_resize v n) = n \<and>
    vec2_num (vec2_resize v n) = vec2_num v mod 2 ^ (64 * word_count n)"
proof -
  let ?ws = "map (\<lambda>idx. if idx < word_count (v2_size v) then v2_vec v ! idx else 0) [0..<word_count n]"
  have r: "vec2_resize v n = \<lparr>v2_size = n, v2_vec = ?ws\<rparr>" using assms(2) by (simp add: vec2_resize_def)
  have "bit (words_val ?ws) i \<longleftrightarrow> i < 64 * word_count n \<and> bit (vec2_num v) i" for i
  proof (rule bit_words_valI)
    fix j m assume jm: "j < word_count n" "m < (64 :: nat)"
    then show "bit (?ws ! j) m \<longleftrightarrow> bit (vec2_num v) (64 * j + m)"
      using bit_words_val_at[OF jm(2), of "v2_vec v" j] assms(1) by (simp add: vec2_num_def vec2_ok_def)
  qed simp
  then have "words_val ?ws = take_bit (64 * word_count n) (vec2_num v)"
    by (intro bit_eqI) (auto simp: bit_take_bit_iff)
  then show ?thesis unfolding r by (simp add: vec2_ok_def vec2_num_def take_bit_eq_mod)
qed

text \<open>
  The alignment doubles the divisor until it is not less than the dividend; the width of one more bit keeps
  the doubling exact.
\<close>

lemma div_align_num:
  assumes "vec2_clean D" "2 * vec2_num D < 2 ^ v2_size D" "vec2_clean T" "v2_size T = v2_size D" "0 < vec2_num T" "vec2_clean M"
  shows "\<exists>k T' M'. div_align D T M = Some (T', M') \<and> vec2_clean T' \<and> v2_size T' = v2_size D \<and> vec2_num T' = vec2_num T * 2 ^ k \<and>
    vec2_clean M' \<and> v2_size M' = v2_size M \<and> vec2_num M' = vec2_num M * 2 ^ k mod 2 ^ v2_size M \<and>
    vec2_num D \<le> vec2_num T' \<and> (0 < k \<longrightarrow> vec2_num T' < 2 * vec2_num D)"
  using assms(3-6)
proof (induction "vec2_num D - vec2_num T" arbitrary: T M rule: less_induct)
  case less
  have ok: "vec2_ok D" "vec2_ok T" using assms(1) less.prems by (simp_all add: vec2_clean_def)
  show ?case
  proof (cases "vec2_num T < vec2_num D")
    case False
    then have "div_align D T M = Some (T, M)" using vec2_order(3)[OF ok(2,1)] by (subst div_align.simps) simp
    moreover have "vec2_num M mod 2 ^ v2_size M = vec2_num M" using less.prems(4) by (simp add: vec2_clean_def)
    ultimately show ?thesis using False less.prems by (intro exI[of _ 0] exI[of _ T] exI[of _ M]) simp
  next
    case True
    let ?T = "vec2_shl T 1" and ?M = "vec2_shl M 1"
    have shl: "vec2_clean (vec2_shl v 1) \<and> vec2_num (vec2_shl v 1) = vec2_num v * 2 mod 2 ^ v2_size v" if "vec2_clean v" for v
      using that vec2_shl_num[of v 1] vec2_shl_bit[of v 1] by (simp add: vec2_clean_def)
    have T: "vec2_clean ?T" "v2_size ?T = v2_size D" "vec2_num ?T = vec2_num T * 2" and M: "vec2_clean ?M"
      using shl[OF less.prems(1)] shl[OF less.prems(4)] less.prems(2) True assms(2) by simp_all
    have "vec2_num D - vec2_num ?T < vec2_num D - vec2_num T" "0 < vec2_num ?T" using True T(3) less.prems(3) by linarith+
    from less.hyps[OF this(1) T(1,2) this(2) M] obtain k T' M' where
      run: "div_align D ?T ?M = Some (T', M')" "vec2_clean T'" "v2_size T' = v2_size D" "vec2_num T' = vec2_num ?T * 2 ^ k"
        "vec2_clean M'" "v2_size M' = v2_size M" "vec2_num M' = vec2_num ?M * 2 ^ k mod 2 ^ v2_size M"
        "vec2_num D \<le> vec2_num T'" "0 < k \<longrightarrow> vec2_num T' < 2 * vec2_num D" unfolding vec2_shl_size by blast
    have "div_align D T M = Some (T', M')" using True run(1) vec2_order(3)[OF ok(2,1)] by (subst div_align.simps) simp
    moreover have "vec2_num M' = vec2_num M * 2 ^ Suc k mod 2 ^ v2_size M"
      using run(7) shl[OF less.prems(4)] by (simp add: mod_mult_left_eq mult.assoc)
    moreover have "vec2_num T' < 2 * vec2_num D" using run(4,9) T(3) True by (cases k) simp_all
    ultimately show ?thesis
      using run(2-6,8) T(3) by (intro exI[of _ "Suc k"] exI[of _ T'] exI[of _ M']) simp
  qed
qed

text \<open>One turn of the second loop.\<close>

lemma div_reduce_step:
  assumes "vec2_clean E" "vec2_clean T" "v2_size T = v2_size E" "0 < v2_size E" "vec2_clean M" "0 < v2_size M"
    "vec2_clean Q" "v2_size Q = v2_size M" "vec2_ok d" "vec2_num d \<le> vec2_num E"
  shows "\<exists>E' T' M' Q'. div_reduce d E T M Q = div_reduce d E' T' M' Q' \<and>
    vec2_clean E' \<and> v2_size E' = v2_size E \<and> vec2_num E' = (if vec2_num T \<le> vec2_num E then vec2_num E - vec2_num T else vec2_num E) \<and>
    vec2_clean T' \<and> v2_size T' = v2_size E \<and> vec2_num T' = vec2_num T div 2 \<and>
    vec2_clean M' \<and> v2_size M' = v2_size M \<and> vec2_num M' = vec2_num M div 2 \<and>
    vec2_clean Q' \<and> v2_size Q' = v2_size M \<and>
    vec2_num Q' = (if vec2_num T \<le> vec2_num E then (vec2_num Q + vec2_num M) mod 2 ^ v2_size M else vec2_num Q)"
proof -
  have ok: "vec2_ok E" "vec2_ok T" "vec2_ok M" "vec2_ok Q" using assms by (simp_all add: vec2_clean_def)
  have ge: "vec2_ge E d" using vec2_order(2)[OF ok(1) assms(9)] assms(10) by simp
  have le: "vec2_le T E = Some (vec2_num T \<le> vec2_num E)" using vec2_order(5)[OF ok(2,1) assms(3)] .
  have pos: "0 < v2_size T" using assms(3,4) by simp
  obtain T' where T': "vec2_shr T 1 = Some T'" "vec2_clean T'" "v2_size T' = v2_size E" "vec2_num T' = vec2_num T div 2"
    using vec2_shr_num[OF assms(2) pos, of 1] assms(3,4) by auto
  obtain M' where M': "vec2_shr M 1 = Some M'" "vec2_clean M'" "v2_size M' = v2_size M" "vec2_num M' = vec2_num M div 2"
    using vec2_shr_num[OF assms(5,6), of 1] assms(6) by auto
  show ?thesis
  proof (cases "vec2_num T \<le> vec2_num E")
    case False
    then have "div_reduce d E T M Q = div_reduce d E T' M' Q" using ge le T'(1) M'(1) by (subst div_reduce.simps) simp
    then show ?thesis using False T' M' assms by (intro exI[of _ E] exI[of _ T'] exI[of _ M'] exI[of _ Q]) simp
  next
    case True
    obtain E' where E': "vec2_sub E T = Some E'" "v2_size E' = v2_size E" "vec2_ok E'"
      "int (vec2_num E') = (int (vec2_num E) - int (vec2_num T)) mod 2 ^ (64 * word_count (v2_size E))"
      using vec2_sub_num[OF ok(1,2) assms(3)] by blast
    have "int (vec2_num E) < int (2 ^ (64 * word_count (v2_size E)))" by (rule of_nat_less_iff[THEN iffD2, OF vec2_num_less[OF ok(1)]])
    then have bound: "int (vec2_num E) - int (vec2_num T) < 2 ^ (64 * word_count (v2_size E))"
      unfolding of_nat_power of_nat_numeral by linarith
    have num: "vec2_num E' = vec2_num E - vec2_num T"
      using E'(4) True by (subst (asm) mod_pos_pos_trivial[OF _ bound]) simp_all
    then have clean: "vec2_clean E'" using E'(2,3) assms(1) less_imp_diff_less by (simp add: vec2_clean_def)
    obtain Q' where Q': "vec2_add Q M = Some Q'" "v2_size Q' = v2_size M" "vec2_clean Q'"
      "vec2_num Q' = (vec2_num Q + vec2_num M) mod 2 ^ v2_size M"
      using vec2_add_num[OF ok(4,3)] assms(8) by auto
    have "div_reduce d E T M Q = div_reduce d E' T' M' Q'" using True ge le T'(1) M'(1) E'(1) Q'(1) by (subst div_reduce.simps) simp
    then show ?thesis using True T' M' E'(2) num clean Q' by (intro exI[of _ E'] exI[of _ T'] exI[of _ M'] exI[of _ Q']) simp
  qed
qed

lemma div_reduce_num:
  assumes "vec2_ok d" "0 < vec2_num d"
    "vec2_clean E" "vec2_clean T" "v2_size T = v2_size E" "0 < v2_size E" "vec2_clean M" "0 < v2_size M" "vec2_clean Q" "v2_size Q = v2_size M"
    "vec2_num T = vec2_num d * 2 ^ j" "vec2_num E < 2 * vec2_num T" "vec2_num M = c * 2 ^ j"
  shows "\<exists>E' Q'. div_reduce d E T M Q = Some (E', Q') \<and> vec2_clean E' \<and> v2_size E' = v2_size E \<and> vec2_num E' = vec2_num E mod vec2_num d \<and>
    vec2_clean Q' \<and> v2_size Q' = v2_size M \<and> vec2_num Q' = (vec2_num Q + c * (vec2_num E div vec2_num d)) mod 2 ^ v2_size M"
  using assms(3-)
proof (induction j arbitrary: E T M Q)
  case (0 E T M Q)
  have ok: "vec2_ok E" using 0 by (simp add: vec2_clean_def)
  have stop: "div_reduce d E T M Q = Some (E, Q)" if "vec2_num E < vec2_num d" "vec2_ok E" for E T M Q
    using vec2_order(2)[OF that(2) assms(1)] that(1) by (subst div_reduce.simps) simp
  show ?case
  proof (cases "vec2_num d \<le> vec2_num E")
    case False
    then show ?thesis using stop[of E T M Q] ok 0 by (simp add: vec2_clean_def)
  next
    case True
    from div_reduce_step[OF 0(1-8) assms(1) True] obtain E' T' M' Q' where
      step: "div_reduce d E T M Q = div_reduce d E' T' M' Q'" "vec2_clean E'" "v2_size E' = v2_size E" "vec2_num E' = vec2_num E - vec2_num d"
        "vec2_clean Q'" "v2_size Q' = v2_size M" "vec2_num Q' = (vec2_num Q + vec2_num M) mod 2 ^ v2_size M"
      using True 0(9) by auto
    have "vec2_num E' < vec2_num d" using step(4) 0(9,10) True by simp
    then have "div_reduce d E T M Q = Some (E', Q')" using step(1,2) stop by (simp add: vec2_clean_def)
    moreover have "vec2_num E div vec2_num d = 1" "vec2_num E mod vec2_num d = vec2_num E - vec2_num d"
      using \<open>vec2_num E' < vec2_num d\<close> step(4) True assms(2) by (simp_all add: div_if mod_if)
    ultimately show ?thesis using step 0(11) by simp
  qed
next
  case (Suc j E T M Q)
  let ?d = "vec2_num d" and ?e = "vec2_num E"
  show ?case
  proof (cases "?d \<le> ?e")
    case False
    then have "div_reduce d E T M Q = Some (E, Q)"
      using vec2_order(2)[of E d] Suc.prems(1) assms(1) by (subst div_reduce.simps) (simp add: vec2_clean_def)
    then show ?thesis using False Suc.prems by (simp add: vec2_clean_def)
  next
    case True
    from div_reduce_step[OF Suc.prems(1-8) assms(1) True] obtain E' T' M' Q' where
      step: "div_reduce d E T M Q = div_reduce d E' T' M' Q'"
      and E': "vec2_clean E'" "v2_size E' = v2_size E" "vec2_num E' = (if vec2_num T \<le> ?e then ?e - vec2_num T else ?e)"
      and T': "vec2_clean T'" "v2_size T' = v2_size E" "vec2_num T' = vec2_num T div 2"
      and M': "vec2_clean M'" "v2_size M' = v2_size M" "vec2_num M' = vec2_num M div 2"
      and Q': "vec2_clean Q'" "v2_size Q' = v2_size M"
        "vec2_num Q' = (if vec2_num T \<le> ?e then (vec2_num Q + vec2_num M) mod 2 ^ v2_size M else vec2_num Q)" by blast
    have T2: "vec2_num T' = ?d * 2 ^ j" "vec2_num M' = c * 2 ^ j" using T'(3) M'(3) Suc.prems(9,11) by simp_all
    have below: "vec2_num E' < 2 * vec2_num T'" using E'(3) T2 Suc.prems(9,10) by (auto split: if_splits)
    obtain R P where run: "div_reduce d E' T' M' Q' = Some (R, P)" "vec2_clean R" "v2_size R = v2_size E'" "vec2_num R = vec2_num E' mod ?d"
        "vec2_clean P" "v2_size P = v2_size M'" "vec2_num P = (vec2_num Q' + c * (vec2_num E' div ?d)) mod 2 ^ v2_size M'"
      using Suc.IH[OF E'(1) T'(1) _ _ M'(1) _ Q'(1) _ T2(1) below T2(2)] E'(2) T'(2) M'(2) Q'(2) Suc.prems(4,6) by auto
    have split: "?e = vec2_num E' + (if vec2_num T \<le> ?e then 2 ^ Suc j * ?d else 0)" using E'(3) Suc.prems(9) by simp
    have "?e mod ?d = vec2_num E' mod ?d" by (subst split) simp
    moreover have "?e div ?d = vec2_num E' div ?d + (if vec2_num T \<le> ?e then 2 ^ Suc j else 0)"
      by (subst split) (use assms(2) in simp)
    then have "(vec2_num Q + c * (?e div ?d)) mod 2 ^ v2_size M = vec2_num P"
      using run(7) Q'(3) M'(2) Suc.prems(11) by (auto simp: mod_simps algebra_simps)
    ultimately show ?thesis using step run E'(2) M'(2) by auto
  qed
qed

text \<open>
  The mask that marks the quotient bit is as wide as the dividend. It is shifted out when the divisor has to be
  doubled as often as the width says, which is so exactly for a division by 1 of a number above half the range.
\<close>

definition div_quot :: "nat \<Rightarrow> nat \<Rightarrow> nat \<Rightarrow> nat" where
  "div_quot w D d = (if d = 1 \<and> 2 ^ (w - 1) < D then 0 else D div d)"

lemma mask_shifted_out:
  fixes d D k w :: nat
  assumes "D < 2 ^ w" "0 < w" "D \<le> d * 2 ^ k" "0 < k \<longrightarrow> d * 2 ^ k < 2 * D" "0 < d" "d \<le> D"
  shows "(2 ^ k mod 2 ^ w = (2 :: nat) ^ k \<and> \<not> (d = 1 \<and> 2 ^ (w - 1) < D)) \<or> (2 ^ k mod 2 ^ w = (0 :: nat) \<and> d = 1 \<and> 2 ^ (w - 1) < D)"
proof (cases "k < w")
  case True
  then have "(2 :: nat) ^ k \<le> 2 ^ (w - 1)" by (intro power_increasing) simp_all
  then have "D \<le> 2 ^ (w - 1)" if "d = 1"
    using order_trans[OF assms(3)] that by (simp del: power_increasing_iff)
  then show ?thesis using True by auto
next
  case False
  obtain v where v: "w = Suc v" using assms(2) by (cases w) auto
  have "d * 2 ^ k < 2 * D" using assms(2,4) False by simp
  moreover have "d * 2 ^ w \<le> d * 2 ^ k" using False by (intro mult_left_mono power_increasing) simp_all
  ultimately have "d * 2 ^ w < 2 * D" by (rule le_less_trans[rotated])
  then have "d * 2 ^ v < D" unfolding v by simp
  moreover have "D < 2 * 2 ^ v" using assms(1) v by simp
  ultimately have "d * 2 ^ v < 2 * 2 ^ v" by (rule less_trans)
  then have "d = 1" using assms(5) by simp
  moreover have "2 ^ k mod 2 ^ w = (0 :: nat)" using False by (intro dvd_imp_mod_0 le_imp_power_dvd) simp
  ultimately show ?thesis using \<open>d * 2 ^ v < D\<close> v by simp
qed

lemma div_mod_num:
  assumes "vec2_clean D" "vec2_clean d" "v2_size d = v2_size D" "0 < v2_size D" "vec2_num d \<noteq> 0"
  shows "\<exists>Q R. div_mod D d = Some (Q, R) \<and> vec2_clean Q \<and> v2_size Q = v2_size D \<and> vec2_clean R \<and> v2_size R = v2_size D \<and>
    vec2_num Q = div_quot (v2_size D) (vec2_num D) (vec2_num d) \<and> vec2_num R = vec2_num D mod vec2_num d"
proof -
  let ?w = "v2_size D" and ?Q = "vec2_new 0 (v2_size D)"
  have ok: "vec2_ok D" "vec2_ok d" "vec2_ok ?Q" and lt: "vec2_num D < 2 ^ ?w" "vec2_num d < 2 ^ ?w"
    using assms vec2_new_0[of ?w] by (simp_all add: vec2_clean_def)
  have Q0: "vec2_clean ?Q" "v2_size ?Q = ?w" "vec2_num ?Q = 0" using vec2_new_0[of ?w] by simp_all
  have nz: "\<not> vec2_eq d ?Q" using vec2_order(4)[OF ok(2,3)] Q0(3) assms(5) by simp
  show ?thesis
  proof (cases "vec2_num D < vec2_num d")
    case True
    then have "div_mod D d = Some (?Q, D)" using nz vec2_order(3)[OF ok(1,2)] by (simp add: div_mod_def)
    then show ?thesis using True Q0 assms(1,5) by (simp add: div_quot_def)
  next
    case False
    define M where "M = vec2_new 1 ?w"
    define D' where "D' = vec2_resize D (?w + 1)"
    define T where "T = vec2_resize d (v2_size D')"
    have fits: "n < 2 ^ (64 * word_count (?w + 1))" if "n < 2 ^ ?w" for n :: nat
      using that order.strict_trans2[OF that, of "2 ^ (64 * word_count (?w + 1))"] word_count_bound[of "?w + 1"]
      by (auto intro: power_increasing)
    have D': "vec2_ok D'" "v2_size D' = ?w + 1" "vec2_num D' = vec2_num D"
      using vec2_resize_num[OF ok(1), of "?w + 1"] fits[OF lt(1)] by (simp_all add: D'_def)
    have T: "vec2_ok T" "v2_size T = ?w + 1" "vec2_num T = vec2_num d"
      using vec2_resize_num[OF ok(2), of "?w + 1"] fits[OF lt(2)] D'(2) by (simp_all add: T_def)
    have clean: "vec2_clean D'" "vec2_clean T" using D' T lt by (simp_all add: vec2_clean_def)
    have M: "vec2_clean M" "v2_size M = ?w" "vec2_num M = 1"
      using vec2_new_clean[OF assms(4), of 1] vec2_new_num[OF assms(4), of 1] one_less_power[of "2 :: nat", OF _ assms(4)]
      by (simp_all add: M_def)
    have pre: "2 * vec2_num D' < 2 ^ v2_size D'" "v2_size T = v2_size D'" "0 < vec2_num T" using D' T lt(1) assms(5) by simp_all
    obtain k T' M' where align: "div_align D' T M = Some (T', M')" "vec2_clean T'" "v2_size T' = v2_size D'" "vec2_num T' = vec2_num d * 2 ^ k"
      "vec2_clean M'" "v2_size M' = ?w" "vec2_num M' = 2 ^ k mod 2 ^ ?w" "vec2_num D \<le> vec2_num T'" "0 < k \<longrightarrow> vec2_num T' < 2 * vec2_num D"
      using div_align_num[OF clean(1) pre(1) clean(2) pre(2,3) M(1), unfolded D'(3) T(3) M(2,3) mult_1] by blast
    have shifted: "2 ^ k mod 2 ^ ?w = (2 :: nat) ^ k \<and> \<not> (vec2_num d = 1 \<and> 2 ^ (?w - 1) < vec2_num D) \<or>
        2 ^ k mod 2 ^ ?w = (0 :: nat) \<and> vec2_num d = 1 \<and> 2 ^ (?w - 1) < vec2_num D"
      using mask_shifted_out[OF lt(1) assms(4), of "vec2_num d" k] align(4,8,9) False assms(5) by simp
    define c :: nat where "c = (if vec2_num d = 1 \<and> 2 ^ (?w - 1) < vec2_num D then 0 else 1)"
    have c: "vec2_num M' = c * 2 ^ k" using shifted align(7) by (auto simp: c_def)
    have below: "vec2_num D' < 2 * vec2_num T'" using D'(3) align(8) False assms(5) by simp
    obtain E' Q' where reduce: "div_reduce d D' T' M' ?Q = Some (E', Q')" "vec2_clean E'" "vec2_num E' = vec2_num D mod vec2_num d"
      "vec2_clean Q'" "v2_size Q' = ?w" "vec2_num Q' = c * (vec2_num D div vec2_num d) mod 2 ^ ?w"
      using div_reduce_num[OF ok(2) _ clean(1) align(2,3) _ align(5) _ Q0(1) _ align(4) below c] D' align(6) Q0 assms(4,5) by auto
    have run: "div_mod D d = Some (Q', vec2_resize E' ?w)"
      using nz False vec2_order(3)[OF ok(1,2)] align(1,6) reduce(1)
      unfolding div_mod_def Let_def M_def[symmetric] D'_def[symmetric] T_def[symmetric] by simp
    have rem: "vec2_num E' < 2 ^ ?w" using le_less_trans[OF mod_less_eq_dividend lt(1)] reduce(3) by simp
    then have "vec2_num E' mod 2 ^ (64 * word_count ?w) = vec2_num E'"
      using order.strict_trans2[OF rem power_increasing[OF word_count_bound]] by simp
    then have res: "vec2_clean (vec2_resize E' ?w)" "v2_size (vec2_resize E' ?w) = ?w" "vec2_num (vec2_resize E' ?w) = vec2_num E'"
      using vec2_resize_num[of E' ?w] reduce(2) rem assms(4) by (simp_all add: vec2_clean_def)
    have "vec2_num D div vec2_num d < 2 ^ ?w" by (rule le_less_trans[OF div_le_dividend lt(1)])
    then have "vec2_num Q' = div_quot ?w (vec2_num D) (vec2_num d)" using reduce(6) by (auto simp: c_def div_quot_def)
    then show ?thesis using run res reduce by simp
  qed
qed

section \<open>The results of the operators\<close>

text \<open>C28. The arithmetic operators of two-valued vectors of one width compute the operation on the numbers: the sum
  and the negation modulo two to the width, the difference, the product and the power modulo two to the bits
  of the array, a left shift modulo two to the width (to the bits of the array when whole words are shifted), a
  right shift the quotient. Only a right shift by less than a word but more than the width aborts.
\<close>

theorem vec2_arithmetic:
  assumes "vec2_clean a" "vec2_clean b" "v2_size b = v2_size a" "0 < v2_size a"
  defines "w \<equiv> v2_size a" and "m \<equiv> 64 * ((v2_size a + 63) div 64)"
  shows "(\<exists>r. vec2_add a b = Some r \<and> v2_size r = w \<and> vec2_clean r \<and> vec2_num r = (vec2_num a + vec2_num b) mod 2 ^ w) \<and>
    (\<exists>r. vec2_sub a b = Some r \<and> v2_size r = w \<and> vec2_ok r \<and> int (vec2_num r) = (int (vec2_num a) - int (vec2_num b)) mod 2 ^ m) \<and>
    (\<exists>r. vec2_neg a = Some r \<and> v2_size r = w \<and> vec2_clean r \<and> int (vec2_num r) = (- int (vec2_num a)) mod 2 ^ w) \<and>
    (\<exists>r. vec2_mul a b = Some r \<and> v2_size r = w \<and> vec2_ok r \<and> vec2_num r = vec2_num a * vec2_num b mod 2 ^ m) \<and>
    (\<exists>r y. vec2_pow a b = Some (r, y) \<and> v2_size r = w \<and> vec2_ok r \<and> vec2_num r = vec2_num a ^ vec2_num b mod 2 ^ m) \<and>
    vec2_num (vec2_shl a s) = vec2_num a * 2 ^ s mod 2 ^ (if s mod 64 = 0 then m else w) \<and>
    (if w < s \<and> s < 64 then vec2_shr a s = None
     else \<exists>r. vec2_shr a s = Some r \<and> v2_size r = w \<and> vec2_clean r \<and> vec2_num r = vec2_num a div 2 ^ s)"
proof -
  have ok: "vec2_ok a" "vec2_ok b" using assms(1,2) by (simp_all add: vec2_clean_def)
  show ?thesis
    unfolding w_def m_def
    using vec2_add_num[OF ok assms(3)] vec2_sub_num[OF ok assms(3)] vec2_neg_num[OF ok(1)] vec2_mul_num[OF ok assms(3)]
      vec2_pow_num[OF ok(1) assms(4,2)] vec2_shl_num[OF ok(1), of s] vec2_shr_num[OF assms(1,4), of s]
    by (intro conjI) (blast | simp only: if_cancel split: if_splits | blast)+
qed

theorem vec2_arithmetic_witness:
  "\<exists>r. vec2_mul (vec2_new 300 70) (vec2_new 5 70) = Some r \<and> vec2_num r = 1500"
proof -
  have "vec2_clean (vec2_new 300 70)" "vec2_clean (vec2_new 5 70)" "v2_size (vec2_new w 70) = 70" "vec2_num (vec2_new w 70) = unat w" for w
    using vec2_new_clean[of 70] vec2_new_num[of 70] by simp_all
  then show ?thesis using vec2_arithmetic[of "vec2_new 300 70" "vec2_new 5 70" 0] by auto
qed

text \<open>C27. Division of two-valued vectors of one width ends and exits exactly when the divisor is 0. The
  remainder is the remainder of the numbers; the quotient is the quotient, but 0 when a number above half the
  range is divided by 1.
\<close>

theorem div_mod_result:
  assumes "vec2_clean D" "vec2_clean d" "v2_size d = v2_size D" "0 < v2_size D"
  shows "if vec2_num d = 0 then vec2_div D d = None \<and> vec2_mod D d = None
    else \<exists>Q R. vec2_div D d = Some Q \<and> vec2_mod D d = Some R \<and> vec2_clean Q \<and> v2_size Q = v2_size D \<and> vec2_clean R \<and> v2_size R = v2_size D \<and>
      vec2_num R = vec2_num D mod vec2_num d \<and>
      vec2_num Q = (if vec2_num d = 1 \<and> 2 ^ (v2_size D - 1) < vec2_num D then 0 else vec2_num D div vec2_num d)"
proof (cases "vec2_num d = 0")
  case True
  then have "vec2_eq d (vec2_new 0 (v2_size D))"
    using vec2_order(4)[of d "vec2_new 0 (v2_size D)"] vec2_new_0[of "v2_size D"] assms(2) by (simp add: vec2_clean_def)
  then show ?thesis using True by (simp add: vec2_div_def vec2_mod_def div_mod_def)
next
  case False
  from div_mod_num[OF assms False] show ?thesis using False by (auto simp: vec2_div_def vec2_mod_def div_quot_def)
qed

theorem div_mod_result_witness:
  "(\<exists>Q. vec2_div (vec2_new 13 8) (vec2_new 4 8) = Some Q \<and> vec2_num Q = 3) \<and> (\<exists>Q. vec2_div (vec2_new 3 2) (vec2_new 1 2) = Some Q \<and> vec2_num Q = 0)"
proof -
  have "vec2_clean (vec2_new 13 8)" "vec2_clean (vec2_new 4 8)" "vec2_clean (vec2_new 3 2)" "vec2_clean (vec2_new 1 2)"
    using vec2_new_clean[of 8 13] vec2_new_clean[of 8 4] vec2_new_clean[of 2 3] vec2_new_clean[of 2 1] by simp_all
  moreover have "v2_size (vec2_new w 8) = 8" "v2_size (vec2_new w 2) = 2" "vec2_num (vec2_new w 8) = unat w" "vec2_num (vec2_new w 2) = unat w" for w
    using vec2_new_num[of 8 w] vec2_new_num[of 2 w] by simp_all
  ultimately show ?thesis using div_mod_result[of "vec2_new 13 8" "vec2_new 4 8"] div_mod_result[of "vec2_new 3 2" "vec2_new 1 2"] by auto
qed

end
