(* ===== verification/Vector_Numbers.thy ===== *)
theory Vector_Numbers
  imports Vector4_Serial Vector2_Arith Complex_Main
begin

text \<open>
  Machine numbers and vectors (\<^verbatim>\<open>vvp_net.cc\<close>): the integer read from a two-valued vector and the vector made
  from a \<^verbatim>\<open>double\<close>. A \<^verbatim>\<open>double\<close> is its IEEE 754 representation. All that the
  constructor does to the number is exact: \<^verbatim>\<open>frexp\<close> and \<^verbatim>\<open>ldexp\<close> move the binary point and whole words are
  taken off the top. So the variable \<^verbatim>\<open>fraction\<close> is modelled as a natural number over a fixed power of two.
\<close>

section \<open>Integer of a two-valued vector\<close>

text \<open>The flag says whether the vector fits into 32 bits.\<close>

definition vector2_to_value :: "vvp_vector2_t \<Rightarrow> bool \<Rightarrow> bool \<times> 32 word" where
  "vector2_to_value a is_signed =
     (let (val, msk) = fold (\<lambda>idx (val, msk). (if vec2_value a idx \<noteq> 0 then val OR msk else val, push_bit 1 msk))
            [0..<(if v2_size a < 32 then v2_size a else 32)] (0, 1);
          val = (if is_signed \<and> v2_size a < 32 \<and> vec2_value a (v2_size a - 1) \<noteq> 0
                 then val OR push_bit (v2_size a) (- 1) else val)
      in (v2_size a \<le> 32, val))"

section \<open>The number a double stands for\<close>

definition double_neg :: "u64 \<Rightarrow> bool" where
  "double_neg r \<longleftrightarrow> bit r 63"

definition double_exponent :: "u64 \<Rightarrow> nat" where
  "double_exponent r = unat (shr r 52 AND 0x7FF)"

text \<open>Magnitude: \<open>double_mant r\<close> times two to \<open>double_scale r\<close>.\<close>

definition double_mant :: "u64 \<Rightarrow> nat" where
  "double_mant r = unat (r AND 0xFFFFFFFFFFFFF) + (if double_exponent r = 0 then 0 else 2 ^ 52)"

definition double_scale :: "u64 \<Rightarrow> int" where
  "double_scale r = (if double_exponent r = 0 then 1 else int (double_exponent r)) - 1075"

definition double_finite :: "u64 \<Rightarrow> bool" where
  "double_finite r \<longleftrightarrow> double_exponent r \<noteq> 0x7FF"

definition double_val :: "u64 \<Rightarrow> real" where
  "double_val r = (if double_neg r then - 1 else 1) * real (double_mant r) * 2 powi double_scale r"

fun bit_len :: "nat \<Rightarrow> nat" where
  "bit_len n = (if n = 0 then 0 else Suc (bit_len (n div 2)))"

declare bit_len.simps [simp del]

section \<open>The constructor\<close>

text \<open>\<^verbatim>\<open>lround\<close> of the magnitude: half is rounded away from zero.\<close>

definition lround :: "nat \<Rightarrow> int \<Rightarrow> nat" where
  "lround m e = (if 0 \<le> e then m * 2 ^ nat e else (m + 2 ^ (nat (- e) - 1)) div 2 ^ nat (- e))"

text \<open>
  A vector of width 0 has no words to take: for a large number the code would write outside, \<open>None\<close>.
  The top words of \<open>num / 2 ^ b\<close>: one turn of the loops takes the integer part as the word at \<open>idx\<close> and moves
  the next word before the binary point.
\<close>

definition take_word :: "nat \<Rightarrow> nat \<Rightarrow> u64 list \<times> nat \<Rightarrow> u64 list \<times> nat" where
  "take_word b idx st =
     (let (ws, num) = st in (ws[idx := of_nat (num div 2 ^ b)], num mod 2 ^ b * 2 ^ 64))"

definition skip_word :: "nat \<Rightarrow> nat \<Rightarrow> nat" where
  "skip_word b num = num mod 2 ^ b * 2 ^ 64"

text \<open>The words of a large number.\<close>

definition double_words :: "nat \<Rightarrow> nat \<Rightarrow> nat \<Rightarrow> nat \<Rightarrow> vvp_vector4_t option" where
  "double_words n b num_words num =
     (let v = vec4_new n BIT4_0; my_words = (n + 63) div 64 - 1;
          num = (skip_word b ^^ (num_words - my_words)) num
      in if my_words = 0
         then (let bits = num div 2 ^ b; v = v\<lparr>abits := (abits v)[0 := of_nat bits]\<rparr>
               in if 2 * (num mod 2 ^ b) \<ge> 2 ^ b then vec4_plus_int v 1 else Some v)
         else (let my_words = (if num_words < my_words then num_words else my_words);
                   (ws, num) = fold (take_word b) (rev [0..<Suc my_words]) (abits v, num);
                   v = v\<lparr>abits := ws\<rparr>
               in if num \<ge> 2 ^ 63 * 2 ^ b then vec4_plus_int v 1 else Some v))"

definition vec4_of_double :: "nat \<Rightarrow> u64 \<Rightarrow> vvp_vector4_t option" where
  "vec4_of_double n val =
     (if \<not> double_finite val then Some (vec4_new n BIT4_X)
      else
        let m = double_mant val; e = double_scale val;
            is_neg = double_neg val \<and> m \<noteq> 0;
            v = vec4_new n BIT4_0;
            b = bit_len m;
            exponent = (if m = 0 then 0 else int b + e)
        in if exponent < 64 - 2 then
             (let v = (if is_neg then vec4_invert v else v);
                  sval = (if is_neg then - of_nat (lround m e) else of_nat (lround m e))
              in Some (v\<lparr>abits := (abits v)[0 := sval]\<rparr>))
           else if n = 0 then None
           else
             (let v = double_words n b ((nat exponent - 1) div 64) (m * 2 ^ ((nat exponent - 1) mod 64 + 1))
              in if is_neg then Option.bind v (\<lambda>v. vec4_plus_int (vec4_invert v) 1) else v))"

section \<open>The vector is the rounded number\<close>

lemma bit_len_bounds: "n < 2 ^ bit_len n \<and> (0 < n \<longrightarrow> 2 ^ (bit_len n - 1) \<le> n)"
proof (induction n rule: bit_len.induct)
  case (1 n)
  show ?case
  proof (cases "n = 0")
    case False
    then have IH: "n div 2 < 2 ^ bit_len (n div 2)" "0 < n div 2 \<longrightarrow> 2 ^ (bit_len (n div 2) - 1) \<le> n div 2" using 1 by simp_all
    have len: "bit_len n = Suc (bit_len (n div 2))" using False by (subst bit_len.simps) simp
    have "2 ^ bit_len (n div 2) \<le> n"
    proof (cases "n div 2 = 0")
      case True
      then show ?thesis using False by (simp add: bit_len.simps[of 0])
    next
      case half: False
      then have "0 < bit_len (n div 2)" by (subst bit_len.simps) simp
      then have "2 ^ bit_len (n div 2) = 2 * 2 ^ (bit_len (n div 2) - 1)" by (cases "bit_len (n div 2)") simp_all
      also have "\<dots> \<le> 2 * (n div 2)" using IH(2) half by simp
      also have "\<dots> \<le> n" by simp
      finally show ?thesis .
    qed
    moreover have "n < 2 * 2 ^ bit_len (n div 2)" using IH(1) by linarith
    ultimately show ?thesis unfolding len by simp
  qed (simp add: bit_len.simps[of 0])
qed

lemma bit_len_less: "n < 2 ^ k \<Longrightarrow> bit_len n \<le> k"
proof (rule ccontr)
  assume "n < 2 ^ k" "\<not> bit_len n \<le> k"
  then have "(2 :: nat) ^ k \<le> 2 ^ (bit_len n - 1)" by (intro power_increasing) simp_all
  moreover have "0 < n" using \<open>\<not> bit_len n \<le> k\<close> by (cases "n = 0") (simp_all add: bit_len.simps[of 0])
  ultimately have "(2 :: nat) ^ k \<le> n" using bit_len_bounds[of n] by (meson le_trans)
  then show False using \<open>n < 2 ^ k\<close> by simp
qed

lemma double_mant_less: "double_mant r < 2 ^ 53"
proof -
  have "r AND 0xFFFFFFFFFFFFF = take_bit 52 r" by (simp add: take_bit_eq_mask mask_eq_exp_minus_1)
  then have "unat (r AND 0xFFFFFFFFFFFFF) < 2 ^ 52"
    using take_bit_nat_less_exp[of 52 "unat r"] by (simp add: unsigned_take_bit_eq)
  then show ?thesis by (simp add: double_mant_def)
qed

text \<open>The rounded number, with ties away from zero.\<close>

definition double_round :: "u64 \<Rightarrow> int" where
  "double_round r = (if double_neg r then - 1 else 1) * \<lfloor>\<bar>double_val r\<bar> + 1 / 2\<rfloor>"

lemma lround_real: "int (lround m e) = \<lfloor>real m * 2 powi e + 1 / 2\<rfloor>"
proof (cases "0 \<le> e")
  case True
  then have "real m * 2 powi e = of_int (int (m * 2 ^ nat e))" by (simp add: power_int_def)
  then have "\<lfloor>real m * 2 powi e + 1 / 2\<rfloor> = int (m * 2 ^ nat e)" by (simp only: floor_add_int[symmetric] add.commute[of _ "1 / 2"]) simp
  then show ?thesis using True by (simp add: lround_def)
next
  case False
  then obtain k where k: "nat (- e) = Suc k" by (cases "nat (- e)") auto
  have "real m * 2 powi e + 1 / 2 = real (m + 2 ^ k) / real (2 ^ Suc k)"
    using False k by (simp add: power_int_def field_simps)
  then show ?thesis using False k by (simp add: lround_def floor_divide_of_nat_eq del: of_nat_add of_nat_power power_Suc)
qed

lemma double_round_lround:
  "double_round r = (if double_neg r then - int (lround (double_mant r) (double_scale r)) else int (lround (double_mant r) (double_scale r)))"
proof -
  have "\<bar>double_val r\<bar> = real (double_mant r) * 2 powi double_scale r" by (simp add: double_val_def abs_mult)
  then show ?thesis by (simp add: double_round_def lround_real)
qed

text \<open>Small numbers: one word is written.\<close>

lemma set_word0:
  assumes "vec4_wf v" "\<And>j. j < vec_size v \<Longrightarrow> vec4_value v j = bit4_of_bool (P j)" "i < vec_size v"
  shows "vec4_value (v\<lparr>abits := (abits v)[0 := w]\<rparr>) i = bit4_of_bool (if i < 64 then bit w i else P i)"
proof -
  have "\<not> plane_bit (bbits v) i" "plane_bit (abits v) i = P i"
    using assms(2)[OF assms(3)] assms(3) by (auto simp: vec4_value_planes bit4_of_bool_def bit4_ab_def split: if_splits)
  moreover have "0 < length (abits v)" using assms(1) by (simp add: vec4_wf_def)
  ultimately show ?thesis
    using assms(3) by (cases "i < 64") (auto simp: vec4_value_planes plane_bit_def bit4_of_bool_def bit4_ab_def nth_list_update)
qed

lemma bit_neg_small:
  assumes "0 < R" "R \<le> 2 ^ 63" "64 \<le> i"
  shows "bit (- int R) i" "\<not> bit (int R) i"
proof -
  have "(2 :: int) ^ 63 < 2 ^ i" using assms(3) by (intro power_strict_increasing) simp_all
  moreover have "int R \<le> 2 ^ 63" using of_nat_mono[OF assms(2), where 'a = int] by simp
  ultimately have "int R < 2 ^ i" by linarith
  then show "\<not> bit (int R) i" by (simp add: bit_iff_odd)
  have "- int R div 2 ^ i = - 1" using \<open>int R < 2 ^ i\<close> assms(1) by (simp add: zdiv_zminus1_eq_if)
  then show "bit (- int R) i" by (simp add: bit_iff_odd)
qed

lemma small_double:
  assumes "R \<le> 2 ^ 63"
  shows "\<exists>r. (let v = (if is_neg then vec4_invert (vec4_new n BIT4_0) else vec4_new n BIT4_0);
                  sval = (if is_neg then - of_nat R else of_nat R)
              in Some (v\<lparr>abits := (abits v)[0 := sval]\<rparr>)) = Some r \<and> vec4_wf r \<and> vec_size r = n \<and>
    vec4_bits r = num_bits n (if is_neg then (if R = 0 then - (2 ^ 64) else - int R) else int R)"
proof -
  let ?v = "if is_neg then vec4_invert (vec4_new n BIT4_0) else vec4_new n BIT4_0"
  let ?k = "if is_neg then (if R = 0 then - (2 ^ 64) else - int R) else int R"
  let ?w = "if is_neg then - of_nat R else of_nat R :: u64"
  have v: "vec4_wf ?v" "vec_size ?v = n" "\<And>j. j < n \<Longrightarrow> vec4_value ?v j = bit4_of_bool is_neg"
    by (simp_all add: vec4_new_wf vec4_value_invert vec4_value_new bit4_of_bool_def vec4_not_wf)
  have w: "?w = word_of_int (if is_neg then - int R else int R)" by simp
  have bits: "(if i < 64 then bit ?w i else is_neg) = bit ?k i" for i
  proof (cases "i < 64")
    case True
    have "\<not> bit (- (2 ^ 64) :: int) i" using True by (simp only: bit_minus_exp_iff) simp
    then show ?thesis using True unfolding w by (simp add: bit_word_of_int_iff)
  next
    case False
    have "bit (- (2 ^ 64) :: int) i" using False by (simp only: bit_minus_exp_iff) simp
    then show ?thesis using False bit_neg_small[of R i] assms by (cases "R = 0") auto
  qed
  have "vec4_value (?v\<lparr>abits := (abits ?v)[0 := ?w]\<rparr>) i = bit4_of_bool (bit ?k i)" if "i < n" for i
    using set_word0[OF v(1), of "\<lambda>_. is_neg" i ?w] v(2,3) that bits[of i] by simp
  then have "vec4_bits (?v\<lparr>abits := (abits ?v)[0 := ?w]\<rparr>) = num_bits n ?k"
    using v(2) by (simp add: list_eq_iff_nth_eq bit4_of_bool_def)
  then show ?thesis using v(1,2) by (simp add: Let_def vec4_wf_def)
qed

text \<open>Large numbers are integers; their words are taken from the top.\<close>

lemma word_off_top:
  fixes N num b k :: nat
  assumes "num * 2 ^ k = N * 2 ^ b"
  shows "num div 2 ^ b = N div 2 ^ k" "(num mod 2 ^ b) * 2 ^ k = (N mod 2 ^ k) * 2 ^ b"
proof -
  have "num div 2 ^ b = (num * 2 ^ k) div (2 ^ b * 2 ^ k)" by (rule div_mult_mult2[symmetric]) simp
  also have "\<dots> = N div 2 ^ k" unfolding assms mult.commute[of "2 ^ b" "2 ^ k"] by (rule div_mult_mult2) simp
  finally show "num div 2 ^ b = N div 2 ^ k" .
  have "(num mod 2 ^ b) * 2 ^ k = (num * 2 ^ k) mod (2 ^ b * 2 ^ k)" by (rule mult_mod_left)
  also have "\<dots> = (N mod 2 ^ k) * 2 ^ b" unfolding assms mult.commute[of "2 ^ b" "2 ^ k"] by (rule mult_mod_left[symmetric])
  finally show "(num mod 2 ^ b) * 2 ^ k = (N mod 2 ^ k) * 2 ^ b" .
qed

definition fraction_at :: "nat \<Rightarrow> nat \<Rightarrow> nat \<Rightarrow> nat \<Rightarrow> bool" where
  "fraction_at b N idx num \<longleftrightarrow> num * 2 ^ (64 * idx) = (N mod 2 ^ (64 * Suc idx)) * 2 ^ b"

lemma fraction_word:
  assumes "fraction_at b N idx num"
  shows "num div 2 ^ b = N mod 2 ^ (64 * Suc idx) div 2 ^ (64 * idx)"
    "idx = Suc i \<Longrightarrow> fraction_at b N i (skip_word b num)" "idx = 0 \<Longrightarrow> num mod 2 ^ b = 0"
proof -
  note off = word_off_top[OF assms[unfolded fraction_at_def]]
  have "(2 :: nat) ^ (64 * idx) dvd 2 ^ (64 * Suc idx)" by (intro le_imp_power_dvd) simp
  then have low: "N mod 2 ^ (64 * Suc idx) mod 2 ^ (64 * idx) = N mod 2 ^ (64 * idx)" by (rule mod_mod_cancel)
  show "num div 2 ^ b = N mod 2 ^ (64 * Suc idx) div 2 ^ (64 * idx)" by (rule off(1))
  show "fraction_at b N i (skip_word b num)" if "idx = Suc i"
  proof -
    have "skip_word b num * 2 ^ (64 * i) = (num mod 2 ^ b) * 2 ^ (64 * idx)"
      unfolding that skip_word_def by (simp add: power_add mult.assoc)
    also have "\<dots> = (N mod 2 ^ (64 * idx)) * 2 ^ b" unfolding off(2) low ..
    finally show ?thesis by (simp only: fraction_at_def that)
  qed
  show "num mod 2 ^ b = 0" if "idx = 0" using off(2) that by simp
qed

lemma skip_words:
  "fraction_at b N (j + k) num \<Longrightarrow> fraction_at b N k ((skip_word b ^^ j) num)"
proof (induction j arbitrary: num)
  case (Suc j)
  have "fraction_at b N (j + k) (skip_word b num)" using fraction_word(2)[OF Suc.prems] by simp
  from Suc.IH[OF this] show ?case by (simp add: funpow_swap1)
qed simp

lemma take_words:
  assumes "fraction_at b N k num" "k < length ws"
  shows "\<exists>ws' num'. fold (take_word b) (rev [0..<Suc k]) (ws, num) = (ws', num') \<and> length ws' = length ws \<and> num' = 0 \<and>
    (\<forall>i<length ws. ws' ! i = (if i \<le> k then of_nat (N mod 2 ^ (64 * Suc i) div 2 ^ (64 * i)) else ws ! i))"
  using assms
proof (induction k arbitrary: ws num)
  case 0
  then show ?case using fraction_word(1,3)[OF 0(1)] by (auto simp: take_word_def nth_list_update)
next
  case (Suc k)
  let ?ws = "ws[Suc k := of_nat (num div 2 ^ b)]"
  have "fraction_at b N k (skip_word b num)" using fraction_word(2)[OF Suc.prems(1)] by simp
  from Suc.IH[OF this, of ?ws] Suc.prems(2) obtain ws' num' where
    r: "fold (take_word b) (rev [0..<Suc k]) (?ws, skip_word b num) = (ws', num')" "length ws' = length ws" "num' = 0"
      "\<forall>i<length ws. ws' ! i = (if i \<le> k then of_nat (N mod 2 ^ (64 * Suc i) div 2 ^ (64 * i)) else ?ws ! i)" by auto
  have "fold (take_word b) (rev [0..<Suc (Suc k)]) (ws, num) = fold (take_word b) (rev [0..<Suc k]) (?ws, skip_word b num)"
    by (simp add: take_word_def skip_word_def)
  then show ?case using r fraction_word(1)[OF Suc.prems(1)] Suc.prems(2) by (auto simp: nth_list_update le_Suc_eq)
qed

lemma words_of_nat_bits:
  assumes "length ws = nwords n" "\<And>i. i < nwords n \<Longrightarrow> ws ! i = of_nat (N mod 2 ^ (64 * Suc i) div 2 ^ (64 * i))" "j < n"
  shows "plane_bit ws j \<longleftrightarrow> bit N j"
proof -
  have inside: "j < 64 * Suc (j div 64)" using mod_less_divisor[of 64 j] mult_div_mod_eq[of 64 j] by simp
  have "bit (of_nat (N mod 2 ^ (64 * Suc (j div 64)) div 2 ^ (64 * (j div 64))) :: u64) (j mod 64)
      \<longleftrightarrow> bit (N mod 2 ^ (64 * Suc (j div 64)) div 2 ^ (64 * (j div 64))) (j mod 64)"
    by (simp add: bit_of_nat_iff)
  also have "\<dots> \<longleftrightarrow> bit (take_bit (64 * Suc (j div 64)) N) (64 * (j div 64) + j mod 64)"
    by (simp add: take_bit_eq_mod bit_drop_bit_eq flip: drop_bit_eq_div)
  also have "\<dots> \<longleftrightarrow> bit N j"
    using inside by (simp add: bit_take_bit_iff)
  finally show ?thesis using assms(2)[OF div_less_nwords[OF assms(3)]] by (simp add: plane_bit_def)
qed

lemma large_double:
  assumes "N < 2 ^ (64 * Suc nw)" "num * 2 ^ (64 * nw) = N * 2 ^ b" "0 < n"
  shows "\<exists>r. double_words n b nw num = Some r \<and> vec4_wf r \<and> vec_size r = n \<and> vec4_bits r = num_bits n (int N)"
proof -
  let ?v = "vec4_new n BIT4_0"
  have v: "vec4_wf ?v" "vec_size ?v = n" "length (abits ?v) = nwords n" "\<And>i. i < nwords n \<Longrightarrow> abits ?v ! i = 0"
    "\<And>i. i < n \<Longrightarrow> \<not> plane_bit (bbits ?v) i"
    using div_less_word_count[of _ n]
    by (auto simp: vec4_new_wf vec4_new_def vec4_allocate_words_def nwords_def WORD_ABITS_def WORD_BBITS_def plane_bit_def Let_def vec4_wf_def)
  define my where "my = (n + 63) div 64 - 1"
  define num0 where "num0 = (skip_word b ^^ (nw - my)) num"
  have code: "double_words n b nw num = (if my = 0
      then (if 2 * (num0 mod 2 ^ b) \<ge> 2 ^ b then vec4_plus_int (?v\<lparr>abits := (abits ?v)[0 := of_nat (num0 div 2 ^ b)]\<rparr>) 1
            else Some (?v\<lparr>abits := (abits ?v)[0 := of_nat (num0 div 2 ^ b)]\<rparr>))
      else (case fold (take_word b) (rev [0..<Suc (if nw < my then nw else my)]) (abits ?v, num0) of
              (ws, num) \<Rightarrow> if num \<ge> 2 ^ 63 * 2 ^ b then vec4_plus_int (?v\<lparr>abits := ws\<rparr>) 1 else Some (?v\<lparr>abits := ws\<rparr>)))"
    unfolding double_words_def Let_def my_def[symmetric] num0_def[symmetric] ..
  define top where "top = (if nw < my then nw else my)"
  have "N mod 2 ^ (64 * Suc nw) = N" using assms(1) by simp
  then have "fraction_at b N nw num" using assms(2) by (simp add: fraction_at_def del: mult_Suc_right)
  moreover have "nw = (nw - my) + top" by (simp add: top_def)
  ultimately have start: "fraction_at b N top num0" unfolding num0_def using skip_words[of b N "nw - my" top num] by simp
  have words: "my < nwords n" "nwords n = Suc my" using assms(3) by (auto simp: my_def nwords_def div_greater_zero_iff)
  then have topn: "top < length (abits ?v)" using v(3) by (simp add: top_def)
  have result: "vec4_bits (?v\<lparr>abits := ws\<rparr>) = num_bits n (int N)"
    if "length ws = nwords n" "\<And>i. i < nwords n \<Longrightarrow> ws ! i = of_nat (N mod 2 ^ (64 * Suc i) div 2 ^ (64 * i))" for ws
    using words_of_nat_bits[OF that] v(2,5) by (simp add: list_eq_iff_nth_eq vec4_value_planes bit4_ab_def bit_of_nat_iff_bit)
  show ?thesis
  proof (cases "my = 0")
    case True
    then have "fraction_at b N 0 num0" using start by (simp add: top_def)
    note w = fraction_word(1,3)[OF this]
    have "vec4_bits (?v\<lparr>abits := (abits ?v)[0 := of_nat (num0 div 2 ^ b)]\<rparr>) = num_bits n (int N)"
      using w(1) v(3) words True by (intro result) simp_all
    then show ?thesis using code True w(2) v(1,2) by (simp add: vec4_wf_def)
  next
    case False
    obtain ws num' where r: "fold (take_word b) (rev [0..<Suc top]) (abits ?v, num0) = (ws, num')" "length ws = nwords n" "num' = 0"
      "\<forall>i<nwords n. ws ! i = (if i \<le> top then of_nat (N mod 2 ^ (64 * Suc i) div 2 ^ (64 * i)) else abits ?v ! i)"
      using take_words[OF start topn, unfolded v(3)] by blast
    have "ws ! i = of_nat (N mod 2 ^ (64 * Suc i) div 2 ^ (64 * i))" if i: "i < nwords n" for i
    proof (cases "i \<le> top")
      case False
      then have "nw < i" using i words by (auto simp: top_def split: if_splits)
      then have "(2 :: nat) ^ (64 * Suc nw) \<le> 2 ^ (64 * i)" by (intro power_increasing) simp_all
      then have "N mod 2 ^ (64 * Suc i) div 2 ^ (64 * i) = 0"
        using assms(1) by (intro div_less) (meson le_less_trans less_le_trans mod_less_eq_dividend)
      then show ?thesis using r(4) v(4) i False by simp
    qed (use r(4) i in simp)
    then have "vec4_bits (?v\<lparr>abits := ws\<rparr>) = num_bits n (int N)" using r(2) by (intro result)
    then show ?thesis using code False r(1-3) v(1,2) by (simp add: top_def[symmetric] vec4_wf_def del: upt_Suc)
  qed
qed

lemma vec4_of_double_num:
  assumes "0 < n"
  shows "\<exists>r. vec4_of_double n x = Some r \<and> vec4_wf r \<and> vec_size r = n \<and>
    vec4_bits r = (if double_finite x
      then num_bits n (if double_neg x \<and> double_mant x \<noteq> 0 \<and> double_round x = 0 then - (2 ^ 64) else double_round x)
      else replicate n BIT4_X)"
proof (cases "double_finite x")
  case False
  have "vec4_bits (vec4_new n BIT4_X) = replicate n BIT4_X" by (simp add: list_eq_iff_nth_eq vec4_value_new vec4_new_wf(2))
  then show ?thesis using False by (simp add: vec4_of_double_def vec4_new_wf)
next
  case True
  define m e where "m = double_mant x" and "e = double_scale x"
  define b where "b = bit_len m"
  define neg where "neg \<longleftrightarrow> double_neg x \<and> m \<noteq> 0"
  define E where "E = (if m = 0 then 0 else int b + e)"
  have m: "m < 2 ^ b" "b \<le> 53" using bit_len_bounds[of m] bit_len_less[OF double_mant_less[of x]] by (simp_all add: b_def m_def)
  have round: "double_round x = (if neg then - int (lround m e) else int (lround m e))"
    using double_round_lround[of x] by (auto simp: neg_def m_def e_def lround_def)
  show ?thesis
  proof (cases "E < 62")
    case small: True
    have "lround m e \<le> 2 ^ 63"
    proof (cases "0 \<le> e")
      case True
      have "m * 2 ^ nat e \<le> 2 ^ b * 2 ^ nat e" using m(1) by simp
      moreover have "m \<noteq> 0 \<Longrightarrow> (2 :: nat) ^ b * 2 ^ nat e \<le> 2 ^ 63"
        unfolding power_add[symmetric] using small True by (intro power_increasing) (auto simp: E_def)
      ultimately have "m \<noteq> 0 \<Longrightarrow> m * 2 ^ nat e \<le> 2 ^ 63" by (meson le_trans)
      then show ?thesis using True by (cases "m = 0") (simp_all add: lround_def)
    next
      case False
      have "(m + 2 ^ (nat (- e) - 1)) div 2 ^ nat (- e) \<le> (m + 2 ^ nat (- e)) div 2 ^ nat (- e)" by (intro div_le_mono add_left_mono power_increasing) simp_all
      also have "\<dots> = m div 2 ^ nat (- e) + 1" by simp
      also have "\<dots> \<le> m + 1" using div_le_dividend by simp
      also have "m + 1 \<le> 2 ^ 53" using double_mant_less[of x] by (simp add: m_def)
      also have "\<dots> \<le> (2 :: nat) ^ 63" by simp
      finally show ?thesis using False by (simp add: lround_def)
    qed
    from small_double[OF this, of neg n] obtain r where
      r: "(let v = (if neg then vec4_invert (vec4_new n BIT4_0) else vec4_new n BIT4_0);
               sval = (if neg then - of_nat (lround m e) else of_nat (lround m e))
           in Some (v\<lparr>abits := (abits v)[0 := sval]\<rparr>)) = Some r" "vec4_wf r" "vec_size r = n"
        "vec4_bits r = num_bits n (if neg then (if lround m e = 0 then - (2 ^ 64) else - int (lround m e)) else int (lround m e))" by blast
    have "vec4_of_double n x = Some r"
      unfolding vec4_of_double_def Let_def m_def[symmetric] e_def[symmetric] b_def[symmetric] neg_def[symmetric] E_def[symmetric]
      using True small r(1) by (simp add: Let_def)
    moreover have K: "(if neg then (if lround m e = 0 then - (2 ^ 64) else - int (lround m e)) else int (lround m e)) =
        (if double_neg x \<and> double_mant x \<noteq> 0 \<and> double_round x = 0 then - (2 ^ 64) else double_round x)"
      using round by (auto simp: neg_def m_def)
    ultimately show ?thesis using r(2,3) r(4)[unfolded K] True by (intro exI[of _ r]) (simp only: if_True simp_thms)
  next
    case large: False
    then have nz: "m \<noteq> 0" and e: "0 \<le> e" and E: "E = int (b + nat e)" using m(2) by (auto simp: E_def split: if_splits)
    define nw where "nw = (nat E - 1) div 64"
    define num where "num = m * 2 ^ ((nat E - 1) mod 64 + 1)"
    let ?N = "m * 2 ^ nat e"
    have pos: "0 < b + nat e" using large E by linarith
    then have natE: "nat E = b + nat e" "0 < nat E" unfolding E nat_int by simp_all
    have step: "x + y = nat E - 1 \<Longrightarrow> x + 1 + y = nat E" for x y using natE(2) by simp
    have exp: "(nat E - 1) mod 64 + 1 + 64 * nw = b + nat e"
      using step[OF mod_mult_div_eq[of "nat E - 1" 64]] unfolding nw_def natE(1) .
    have "num * 2 ^ (64 * nw) = ?N * 2 ^ b"
      unfolding num_def mult.assoc power_add[symmetric] exp by (simp only: add.commute)
    moreover have "?N < 2 ^ (64 * Suc nw)"
    proof -
      have "?N < 2 ^ b * 2 ^ nat e" using m(1) by simp
      also have "\<dots> \<le> 2 ^ (64 * Suc nw)" unfolding power_add[symmetric]
      proof (rule power_increasing)
        define y where "y = (nat E - 1) mod 64"
        have "y < 64" by (simp add: y_def)
        then show "b + nat e \<le> 64 * Suc nw" using exp unfolding y_def[symmetric] by simp
      qed simp
      finally show ?thesis .
    qed
    moreover note assms
    ultimately obtain u where u: "double_words n b nw num = Some u" "vec4_wf u" "vec_size u = n" "vec4_bits u = num_bits n (int ?N)"
      using large_double[of ?N nw num b n] by blast
    have run: "vec4_of_double n x = (if neg then vec4_plus_int (vec4_invert u) 1 else Some u)"
      unfolding vec4_of_double_def Let_def m_def[symmetric] e_def[symmetric] b_def[symmetric] neg_def[symmetric] E_def[symmetric]
        nw_def[symmetric] num_def[symmetric] u(1)
      using True large assms by simp
    have N: "lround m e = ?N" using e by (simp add: lround_def)
    have u_val: "vec4_value u i = bit4_of_bool (bit ?N i)" if "i < n" for i
      using arg_cong[OF u(4), of "\<lambda>bs. bs ! i"] that u(3) by (simp add: bit4_of_bool_def bit_of_nat_iff_bit del: of_nat_mult)
    show ?thesis
    proof (cases neg)
      case False
      then show ?thesis using run u True round N by (auto simp: neg_def m_def)
    next
      case True
      let ?i = "vec4_invert u"
      have inv: "vec4_wf ?i" "vec_size ?i = n" "\<And>i. i < n \<Longrightarrow> vec4_value ?i i = bit4_of_bool (bit (NOT (int ?N)) i)"
        using u(2,3) u_val by (simp_all add: vec4_not_wf vec4_value_invert bit_not_iff bit4_of_bool_def bit_of_nat_iff_bit del: of_nat_mult)
      have "take_bit n (bits_num (vec4_bits ?i)) = take_bit n (NOT (int ?N))"
        using inv(2,3) by (intro bit_eqI) (auto simp: bit_take_bit_iff bit_bits_num bit4_of_bool_def split: if_splits)
      then have "take_bit n (bits_num (vec4_bits ?i) + 1) = take_bit n (NOT (int ?N) + 1)" by (metis take_bit_add)
      then have "num_bits n (bits_num (vec4_bits ?i) + 1) = num_bits n (- int ?N)"
        using num_bits_cong[of n "bits_num (vec4_bits ?i) + 1" "NOT (int ?N) + 1"] by (simp add: not_int_def)
      moreover have "\<not> list_ex bit4_is_xz (vec4_bits ?i)" using inv(2,3) by (auto simp: list_ex_iff vec4_bits_def bit4_of_bool_def)
      moreover have "?N \<noteq> 0" using nz by simp
      ultimately show ?thesis
        using vec4_plus_int_num[OF inv(1), of 1] inv(2) run True \<open>double_finite x\<close> round N by (auto simp: neg_def m_def)
    qed
  qed
qed

lemma vector2_to_value_signed:
  assumes "vec2_clean u" "0 < v2_size u"
  shows "fst (vector2_to_value u True) = (v2_size u \<le> 32) \<and>
    (v2_size u \<le> 32 \<longrightarrow> snd (vector2_to_value u True) = word_of_int (signed_take_bit (v2_size u - 1) (int (vec2_num u))))"
proof -
  let ?n = "v2_size u"
  let ?step = "\<lambda>idx (val, msk). (if vec2_value u idx \<noteq> 0 then val OR msk else val, push_bit 1 msk)"
  have ok: "vec2_ok u" using assms(1) by (simp add: vec2_clean_def)
  have loop: "\<exists>val. fold ?step [0..<k] (0, 1 :: 32 word) = (val, push_bit k 1) \<and> (\<forall>i<32. bit val i \<longleftrightarrow> i < k \<and> i < ?n \<and> bit (vec2_num u) i)" for k
  proof (induction k)
    case (Suc k)
    then obtain val where v: "fold ?step [0..<k] (0, 1 :: 32 word) = (val, push_bit k 1)"
      "\<forall>i<32. bit val i \<longleftrightarrow> i < k \<and> i < ?n \<and> bit (vec2_num u) i" by blast
    have "bit (val OR push_bit k 1) i \<longleftrightarrow> bit val i \<or> i = k" if "i < 32" for i
      using that by (auto simp: bit_or_iff bit_push_bit_iff bit_1_iff bit_exp_iff)
    then show ?case
      using v vec2_value_bit[OF ok, of k] by (auto simp: less_Suc_eq push_bit_push_bit)
  qed simp
  show ?thesis
  proof (cases "?n \<le> 32")
    case False
    then show ?thesis by (simp add: vector2_to_value_def split: prod.splits)
  next
    case True
    obtain val where v: "fold ?step [0..<?n] (0, 1 :: 32 word) = (val, push_bit ?n 1)"
      "\<forall>i<32. bit val i \<longleftrightarrow> i < ?n \<and> bit (vec2_num u) i" using loop[of ?n] by auto
    have n: "(if ?n < 32 then ?n else 32) = ?n" using True by simp
    define s where "s = (if ?n < 32 \<and> vec2_value u (?n - 1) \<noteq> 0 then val OR push_bit ?n (- 1) else val)"
    have run: "vector2_to_value u True = (?n \<le> 32, s)" unfolding vector2_to_value_def n v(1) s_def by simp
    have top: "vec2_value u (?n - 1) \<noteq> 0 \<longleftrightarrow> bit (vec2_num u) (?n - 1)" using vec2_value_bit[OF ok, of "?n - 1"] assms(2) by simp
    have "s = word_of_int (signed_take_bit (?n - 1) (int (vec2_num u)))"
    proof (rule bit_word_eqI)
      fix i assume i: "i < LENGTH(32)"
      have "bit (word_of_int (signed_take_bit (?n - 1) (int (vec2_num u))) :: 32 word) i \<longleftrightarrow> bit (vec2_num u) (min (?n - 1) i)"
        using i by (simp add: bit_word_of_int_iff bit_signed_take_bit_iff bit_of_nat_iff_bit)
      moreover have "bit s i \<longleftrightarrow> (if i < ?n then bit (vec2_num u) i else bit (vec2_num u) (?n - 1))"
        using i v(2) top True by (auto simp: s_def bit_or_iff bit_push_bit_iff bit_not_iff bit_mask_iff)
      moreover have "min (?n - 1) i = (if i < ?n then i else ?n - 1)" using assms(2) by (auto simp: min_def)
      ultimately show "bit s i \<longleftrightarrow> bit (word_of_int (signed_take_bit (?n - 1) (int (vec2_num u))) :: 32 word) i" by simp
    qed
    then show ?thesis using run by simp
  qed
qed

text \<open>C24. The vector made from a finite real number holds, modulo two to the width, the nearest integer with ties
  away from zero, however large the number or the vector. NaN and infinities give X. One case is wrong: a negative number that rounds
  to 0, in a vector of more than 64 bits, leaves the upper words inverted and gives minus two to the 64.
\<close>

theorem vec4_of_double_rounds:
  assumes "0 < n"
  shows "\<exists>r. vec4_of_double n x = Some r \<and> vec4_wf r \<and> vec4_bits r =
    (if \<not> double_finite x then replicate n BIT4_X
     else if double_val x < 0 \<and> - 1 / 2 < double_val x \<and> 64 < n then num_bits n (- (2 ^ 64))
     else num_bits n (if double_val x < 0 then - \<lfloor>- double_val x + 1 / 2\<rfloor> else \<lfloor>double_val x + 1 / 2\<rfloor>))"
proof -
  have pos: "\<not> (2 :: real) powi double_scale x < 0" by (simp add: not_less)
  have neg: "double_val x < 0 \<longleftrightarrow> double_neg x \<and> double_mant x \<noteq> 0" using pos by (auto simp: double_val_def mult_less_0_iff)
  have round: "double_round x = (if double_val x < 0 then - \<lfloor>- double_val x + 1 / 2\<rfloor> else \<lfloor>double_val x + 1 / 2\<rfloor>)"
    using neg by (auto simp: double_round_def double_val_def abs_mult)
  have zero: "double_round x = 0 \<longleftrightarrow> - 1 / 2 < double_val x" if "double_val x < 0"
    using that unfolding round by (auto simp: floor_eq_iff)
  have "num_bits n (- (2 ^ 64)) = num_bits n 0" if "\<not> 64 < n"
    using that by (intro num_bits_cong bit_eqI) (simp only: bit_take_bit_iff bit_minus_exp_iff, auto)
  then show ?thesis
    using vec4_of_double_num[OF assms, of x] neg round zero by (auto split: if_splits)
qed

theorem vec4_of_double_rounds_witness:
  "\<exists>r. vec4_of_double 100 0xBFD3333333333333 = Some r \<and> vec4_bits r = num_bits 100 (- (2 ^ 64))"
proof -
  have "double_neg 0xBFD3333333333333" "double_finite 0xBFD3333333333333" "double_mant 0xBFD3333333333333 = 0x13333333333333"
    "double_scale 0xBFD3333333333333 = - 54"
    by (simp_all add: double_neg_def double_finite_def double_mant_def double_scale_def double_exponent_def shr_def bit_iff_odd drop_bit_eq_div)
  moreover from this have "double_val 0xBFD3333333333333 = - 5404319552844595 / 18014398509481984"
    by (simp add: double_val_def power_int_def power_divide)
  ultimately show ?thesis using vec4_of_double_rounds[of 100 "0xBFD3333333333333"] by auto
qed

end
