(* ===== verification/Arith.thy ===== *)
theory Arith
  imports Functor Vector2_Division Vector4_Convert Vector_Numbers "HOL-Library.Signed_Division"
begin

text \<open>
  The arithmetic and relational functors (\<^verbatim>\<open>arith.h\<close>, \<^verbatim>\<open>arith.cc\<close>). Unlike the gates they answer every
  message at once: the operand is stored and the result for the present operands sent. The locale
  \<open>arith_functor\<close> states this for any result function; every functor below is an instance.
  The functors on real numbers and the conversions from and to them are left out.
\<close>

section \<open>Operands\<close>

record vvp_arith =
  ar_wid :: nat
  op_a :: vvp_vector4_t
  op_b :: vvp_vector4_t
  x_val :: vvp_vector4_t

definition arith_new :: "nat \<Rightarrow> vvp_arith option" where
  "arith_new wid =
     foldM (\<lambda>idx s.
         case (vec4_set_bit (op_a s) idx BIT4_Z, vec4_set_bit (op_b s) idx BIT4_Z, vec4_set_bit (x_val s) idx BIT4_X) of
           (Some a, Some b, Some x) \<Rightarrow> Some (s\<lparr>op_a := a, op_b := b, x_val := x\<rparr>)
         | _ \<Rightarrow> None)
       [0..<wid] \<lparr>ar_wid = wid, op_a = vec4_new wid BIT4_X, op_b = vec4_new wid BIT4_X, x_val = vec4_new wid BIT4_X\<rparr>"

definition dispatch_operand :: "vvp_net_ptr_t \<Rightarrow> vvp_vector4_t \<Rightarrow> vvp_arith \<Rightarrow> vvp_arith option" where
  "dispatch_operand p bt s =
     (if ptr_port p = 0 then Some (s\<lparr>op_a := bt\<rparr>) else if ptr_port p = 1 then Some (s\<lparr>op_b := bt\<rparr>) else None)"

text \<open>The frame of every \<^verbatim>\<open>recv_vec4\<close>: store, compute, send.\<close>

definition arith_recv_vec4 :: "(vvp_arith \<Rightarrow> vvp_vector4_t option) \<Rightarrow> vvp_net_ptr_t \<Rightarrow> vvp_vector4_t \<Rightarrow> vvp_arith \<Rightarrow> vvp_arith outcome" where
  "arith_recv_vec4 calc p bt s =
     (case dispatch_operand p bt s of
        None \<Rightarrow> None
      | Some s \<Rightarrow> (case calc s of None \<Rightarrow> None | Some r \<Rightarrow> Some (s, [Send_vec4 (ptr_net p) r])))"

definition arith_recv :: "(vvp_arith \<Rightarrow> vvp_vector4_t option) \<Rightarrow> net_msg \<Rightarrow> vvp_arith \<Rightarrow> vvp_arith outcome" where
  "arith_recv calc = vec4_methods (arith_recv_vec4 calc) (fun_recv_vec4_pv (arith_recv_vec4 calc))"

section \<open>Results\<close>

text \<open>
  The loop that writes the bits of a machine word into the result. The multiplier shifts a signed \<^verbatim>\<open>val\<close>; the
  bits that differ come in at the top and are not read.
\<close>

definition word_bits_into :: "vvp_vector4_t \<Rightarrow> nat \<Rightarrow> u64 \<Rightarrow> vvp_vector4_t option" where
  "word_bits_into v wid val =
     map_option fst (foldM (\<lambda>idx (vval, val).
         case vec4_set_bit vval idx (if val AND 1 \<noteq> 0 then BIT4_1 else BIT4_0) of
           None \<Rightarrow> None | Some vval \<Rightarrow> Some (vval, shr val 1))
       [0..<wid] (v, val))"

definition word_to_vec4 :: "nat \<Rightarrow> u64 \<Rightarrow> vvp_vector4_t option" where
  "word_to_vec4 wid val = word_bits_into (vec4_new wid BIT4_X) wid val"

text \<open>The adders. The loop returns nothing when it meets an X.\<close>

fun arith_carry_loop ::
  "(nat \<Rightarrow> vvp_bit4_t) \<Rightarrow> (nat \<Rightarrow> vvp_bit4_t) \<Rightarrow> nat list \<Rightarrow> vvp_bit4_t \<Rightarrow> vvp_vector4_t \<Rightarrow> vvp_vector4_t option option" where
  "arith_carry_loop a b [] carry val = Some (Some val)"
| "arith_carry_loop a b (idx # is) carry val =
     (let (cur, carry) = bit4_add_with_carry (a idx) (b idx) carry
      in if cur = BIT4_X then Some None
         else case vec4_set_bit val idx cur of None \<Rightarrow> None | Some val \<Rightarrow> arith_carry_loop a b is carry val)"

definition arith_sum :: "vvp_arith \<Rightarrow> vvp_vector4_t option" where
  "arith_sum s =
     (let pad = BIT4_0
      in map_option (case_option (x_val s) id)
           (arith_carry_loop
             (\<lambda>idx. if idx \<ge> vec_size (op_a s) then pad else vec4_value (op_a s) idx)
             (\<lambda>idx. if idx \<ge> vec_size (op_b s) then pad else vec4_value (op_b s) idx)
             [0..<ar_wid s] BIT4_0 (vec4_new (ar_wid s) BIT4_X)))"

definition arith_sub :: "vvp_arith \<Rightarrow> vvp_vector4_t option" where
  "arith_sub s =
     (let pad = BIT4_1
      in map_option (case_option (x_val s) id)
           (arith_carry_loop
             (\<lambda>idx. if idx \<ge> vec_size (op_a s) then pad else vec4_value (op_a s) idx)
             (\<lambda>idx. if idx \<ge> vec_size (op_b s) then pad else bit4_not (vec4_value (op_b s) idx))
             [0..<ar_wid s] BIT4_1 (vec4_new (ar_wid s) BIT4_X)))"

definition mult_wide :: "vvp_arith \<Rightarrow> vvp_vector4_t option" where
  "mult_wide s =
     (case (vec2_from_vec4 (op_a s) True, vec2_from_vec4 (op_b s) True) of
        (Some a2, Some b2) \<Rightarrow>
          if vec2_is_NaN a2 \<or> vec2_is_NaN b2 then Some (x_val s)
          else (case vec2_mul a2 b2 of None \<Rightarrow> None | Some r \<Rightarrow> vector2_to_vector4 r (ar_wid s))
      | _ \<Rightarrow> None)"

definition arith_mult :: "vvp_arith \<Rightarrow> vvp_vector4_t option" where
  "arith_mult s =
     (if ar_wid s > 64 then mult_wide s
      else case vec4_to_value (op_a s) False True of
             (True, Some (a :: 64 word)) \<Rightarrow>
               (case vec4_to_value (op_b s) False True of
                  (True, Some b) \<Rightarrow> word_to_vec4 (ar_wid s) (a * b)
                | _ \<Rightarrow> Some (x_val s))
           | _ \<Rightarrow> Some (x_val s))"

text \<open>Division: the operands by magnitude, and whether to negate the result.\<close>

definition take_sign :: "bool \<Rightarrow> vvp_vector4_t \<Rightarrow> u64 \<Rightarrow> u64 \<times> bool" where
  "take_sign signed_flag op a =
     (if signed_flag then
        let sign_mask = (if vec_size op \<noteq> 64 then shl (- 1) (vec_size op) else 0)
        in if vec4_value op (vec_size op - 1) \<noteq> BIT4_0 then ((- a) AND NOT sign_mask, True) else (a, False)
      else (a, False))"

definition take_sign2 :: "bool \<Rightarrow> vvp_vector2_t \<Rightarrow> (vvp_vector2_t \<times> bool) option" where
  "take_sign2 signed_flag a =
     (if signed_flag \<and> vec2_value a (v2_size a - 1) \<noteq> 0 then map_option (\<lambda>a. (a, True)) (vec2_neg a) else Some (a, False))"

definition div_wide4 :: "bool \<Rightarrow> vvp_arith \<Rightarrow> vvp_vector4_t option" where
  "div_wide4 signed_flag s =
     (case vec2_from_vec4 (op_a s) True of
        None \<Rightarrow> None
      | Some a2 \<Rightarrow>
          if vec2_is_NaN a2 then Some (x_val s)
          else (case vec2_from_vec4 (op_b s) True of
                  None \<Rightarrow> None
                | Some b2 \<Rightarrow>
                    if vec2_is_NaN b2 \<or> vec2_is_zero b2 then Some (x_val s)
                    else (case (take_sign2 signed_flag a2, take_sign2 signed_flag b2) of
                            (Some (a2, na), Some (b2, nb)) \<Rightarrow>
                              (case vec2_div a2 b2 of
                                 None \<Rightarrow> None
                               | Some res \<Rightarrow>
                                   (case (if na \<noteq> nb then vec2_neg res else Some res) of
                                      None \<Rightarrow> None | Some res \<Rightarrow> vector2_to_vector4 res (ar_wid s)))
                          | _ \<Rightarrow> None)))"

definition arith_div :: "bool \<Rightarrow> vvp_arith \<Rightarrow> vvp_vector4_t option" where
  "arith_div signed_flag s =
     (if ar_wid s > 64 then div_wide4 signed_flag s
      else case (vec4_to_value_ov (op_a s), vec4_to_value_ov (op_b s)) of
             (Some (_, a), Some (_, b)) \<Rightarrow>
               (let (a, na) = take_sign signed_flag (op_a s) a; (b, nb) = take_sign signed_flag (op_b s) b
                in if b = 0 then foldM (\<lambda>idx xval. vec4_set_bit xval idx BIT4_X) [0..<ar_wid s] (vec4_new (ar_wid s) BIT4_X)
                   else let val = a div b; val = (if na \<noteq> nb then - val else val) in word_to_vec4 (ar_wid s) val)
           | _ \<Rightarrow> Some (x_val s))"

definition mod_wide :: "bool \<Rightarrow> vvp_arith \<Rightarrow> vvp_vector4_t option" where
  "mod_wide signed_flag s =
     (case vec2_from_vec4 (op_a s) True of
        None \<Rightarrow> None
      | Some a2 \<Rightarrow>
          if vec2_is_NaN a2 then Some (x_val s)
          else (case vec2_from_vec4 (op_b s) True of
                  None \<Rightarrow> None
                | Some b2 \<Rightarrow>
                    if vec2_is_NaN b2 \<or> vec2_is_zero b2 then Some (x_val s)
                    else (case (take_sign2 signed_flag a2, take_sign2 signed_flag b2) of
                            (Some (a2, negate), Some (b2, _)) \<Rightarrow>
                              (case vec2_mod a2 b2 of
                                 None \<Rightarrow> None
                               | Some res \<Rightarrow>
                                   (case (if negate then vec2_neg res else Some res) of
                                      None \<Rightarrow> None | Some res \<Rightarrow> vector2_to_vector4 res (v2_size res)))
                          | _ \<Rightarrow> None)))"

definition arith_mod :: "bool \<Rightarrow> vvp_arith \<Rightarrow> vvp_vector4_t option" where
  "arith_mod signed_flag s =
     (if ar_wid s > 64 then mod_wide signed_flag s
      else case (vec4_to_value_ov (op_a s), vec4_to_value_ov (op_b s)) of
             (Some (_, a), Some (_, b)) \<Rightarrow>
               (let (a, negate) = take_sign signed_flag (op_a s) a; (b, _) = take_sign signed_flag (op_b s) b
                in if b = 0 then foldM (\<lambda>idx xval. vec4_set_bit xval idx BIT4_X) [0..<ar_wid s] (vec4_new (ar_wid s) BIT4_X)
                   else let val = a mod b; val = (if negate then - val else val) in word_to_vec4 (ar_wid s) val)
           | _ \<Rightarrow> Some (x_val s))"

text \<open>Power. The double of the negative exponents is 0, 1 or -1.\<close>

definition arith_pow :: "bool \<Rightarrow> vvp_arith \<Rightarrow> vvp_vector4_t option" where
  "arith_pow signed_flag s =
     (case (vec2_from_vec4 (op_a s) True, vec2_from_vec4 (op_b s) True) of
        (Some a2, Some b2) \<Rightarrow>
          if vec2_is_NaN a2 \<or> vec2_is_NaN b2 then Some (x_val s)
          else if signed_flag \<and> vec2_value b2 (v2_size b2 - 1) \<noteq> 0 then
            (let (ok, a_val) = vector2_to_value a2 True; r_val = 0
             in if ok \<and> a_val = 0 then Some (x_val s)
                else let r_val = (if ok \<and> a_val = 1 then 0x3FF0000000000000 else r_val);
                         r_val = (if ok \<and> a_val = - 1 then (if vec2_value b2 0 \<noteq> 0 then 0xBFF0000000000000 else 0x3FF0000000000000) else r_val)
                     in vec4_of_double (ar_wid s) r_val)
          else (case vec2_pow a2 b2 of None \<Rightarrow> None | Some (r, _) \<Rightarrow> vector2_to_vector4 r (ar_wid s))
      | _ \<Rightarrow> None)"

text \<open>Shifts. \<^verbatim>\<open>vector4_to_value\<close> reports an overflow and the bits below it.\<close>

definition arith_shiftl :: "vvp_arith \<Rightarrow> vvp_vector4_t option" where
  "arith_shiftl s =
     (let n = vec_size (op_a s)
      in case vec4_to_value_ov (op_b s) of
           None \<Rightarrow> Some (x_val s)
         | Some (overflow_flag, w) \<Rightarrow>
             (let shift = (if overflow_flag \<or> unat w > n then n else unat w)
              in Option.bind (foldM (\<lambda>idx out. vec4_set_bit out idx BIT4_0) [0..<shift] (vec4_new n BIT4_X))
                   (foldM (\<lambda>idx out. vec4_set_bit out idx (vec4_value (op_a s) (idx - shift))) [shift..<n])))"

definition arith_shiftr :: "bool \<Rightarrow> vvp_arith \<Rightarrow> vvp_vector4_t option" where
  "arith_shiftr signed_flag s =
     (let n = vec_size (op_a s)
      in case vec4_to_value_ov (op_b s) of
           None \<Rightarrow> Some (x_val s)
         | Some (overflow_flag, w) \<Rightarrow>
             (let shift = (if overflow_flag \<or> unat w > n then n else unat w);
                  pad = (if signed_flag \<and> n > 0 then vec4_value (op_a s) (n - 1) else BIT4_0)
              in Option.bind (foldM (\<lambda>idx out. vec4_set_bit out (idx - shift) (vec4_value (op_a s) idx)) [shift..<n] (vec4_new n BIT4_X))
                   (foldM (\<lambda>idx out. vec4_set_bit out (idx + n - shift) pad) [0..<shift])))"

section \<open>Comparisons\<close>

text \<open>What the body of a comparison loop does with one pair of bits: go on, make the result X, or leave.\<close>

datatype cmp_case = CmpSame | CmpUnknown | CmpDiffer

fun cmp_loop :: "(vvp_bit4_t \<Rightarrow> vvp_bit4_t \<Rightarrow> cmp_case) \<Rightarrow> vvp_bit4_t \<Rightarrow> (vvp_bit4_t \<times> vvp_bit4_t) list \<Rightarrow> vvp_bit4_t \<Rightarrow> vvp_bit4_t" where
  "cmp_loop body found [] res = res"
| "cmp_loop body found ((a, b) # ps) res =
     (case body a b of
        CmpSame \<Rightarrow> cmp_loop body found ps res
      | CmpUnknown \<Rightarrow> cmp_loop body found ps BIT4_X
      | CmpDiffer \<Rightarrow> found)"

definition cmp_eeq_body :: "vvp_bit4_t \<Rightarrow> vvp_bit4_t \<Rightarrow> cmp_case" where
  "cmp_eeq_body a b = (if a \<noteq> b then CmpDiffer else CmpSame)"

definition cmp_eq_body :: "vvp_bit4_t \<Rightarrow> vvp_bit4_t \<Rightarrow> cmp_case" where
  "cmp_eq_body a b =
     (if a = BIT4_X then CmpUnknown else if a = BIT4_Z then CmpUnknown
      else if b = BIT4_X then CmpUnknown else if b = BIT4_Z then CmpUnknown
      else if a \<noteq> b then CmpDiffer else CmpSame)"

definition cmp_eqx_body :: "vvp_bit4_t \<Rightarrow> vvp_bit4_t \<Rightarrow> cmp_case" where
  "cmp_eqx_body a b =
     (if b = BIT4_X then CmpSame else if b = BIT4_Z then CmpSame else if a \<noteq> b then CmpDiffer else CmpSame)"

definition cmp_eqz_body :: "vvp_bit4_t \<Rightarrow> vvp_bit4_t \<Rightarrow> cmp_case" where
  "cmp_eqz_body a b = (if b = BIT4_Z then CmpSame else if a \<noteq> b then CmpDiffer else CmpSame)"

definition cmp_weq_body :: "vvp_bit4_t \<Rightarrow> vvp_bit4_t \<Rightarrow> cmp_case" where
  "cmp_weq_body a b =
     (if b = BIT4_X then CmpSame else if b = BIT4_Z then CmpSame
      else if a = BIT4_X then CmpUnknown else if a = BIT4_Z then CmpUnknown
      else if a \<noteq> b then CmpDiffer else CmpSame)"

text \<open>The functors differ in the body, the answer for equal vectors and the answer at a difference.\<close>

definition cmp_functor :: "(vvp_bit4_t \<Rightarrow> vvp_bit4_t \<Rightarrow> cmp_case) \<Rightarrow> vvp_bit4_t \<Rightarrow> vvp_bit4_t \<Rightarrow> vvp_arith \<Rightarrow> vvp_vector4_t option" where
  "cmp_functor body same found s =
     (if vec_size (op_a s) \<noteq> vec_size (op_b s) then None
      else vec4_set_bit (vec4_new 1 BIT4_X) 0
             (cmp_loop body found (map (\<lambda>idx. (vec4_value (op_a s) idx, vec4_value (op_b s) idx)) [0..<vec_size (op_a s)]) same))"

definition cmp_eeq :: "vvp_arith \<Rightarrow> vvp_vector4_t option" where
  "cmp_eeq = cmp_functor cmp_eeq_body BIT4_1 BIT4_0"

definition cmp_nee :: "vvp_arith \<Rightarrow> vvp_vector4_t option" where
  "cmp_nee = cmp_functor cmp_eeq_body BIT4_0 BIT4_1"

definition cmp_eq :: "vvp_arith \<Rightarrow> vvp_vector4_t option" where
  "cmp_eq = cmp_functor cmp_eq_body BIT4_1 BIT4_0"

definition cmp_ne :: "vvp_arith \<Rightarrow> vvp_vector4_t option" where
  "cmp_ne = cmp_functor cmp_eq_body BIT4_0 BIT4_1"

definition cmp_eqx :: "vvp_arith \<Rightarrow> vvp_vector4_t option" where
  "cmp_eqx = cmp_functor cmp_eqx_body BIT4_1 BIT4_0"

definition cmp_eqz :: "vvp_arith \<Rightarrow> vvp_vector4_t option" where
  "cmp_eqz = cmp_functor cmp_eqz_body BIT4_1 BIT4_0"

definition cmp_weq :: "vvp_arith \<Rightarrow> vvp_vector4_t option" where
  "cmp_weq = cmp_functor cmp_weq_body BIT4_1 BIT4_0"

definition cmp_wne :: "vvp_arith \<Rightarrow> vvp_vector4_t option" where
  "cmp_wne = cmp_functor cmp_weq_body BIT4_0 BIT4_1"

definition cmp_gtge_base :: "bool \<Rightarrow> vvp_bit4_t \<Rightarrow> vvp_arith \<Rightarrow> vvp_vector4_t option" where
  "cmp_gtge_base signed_flag out_if_equal s =
     (case (if signed_flag then compare_gtge_signed (op_a s) (op_b s) out_if_equal
            else Some (compare_gtge (op_a s) (op_b s) out_if_equal)) of
        None \<Rightarrow> None
      | Some out \<Rightarrow> vec4_set_bit (vec4_new 1 BIT4_X) 0 out)"

definition cmp_ge :: "bool \<Rightarrow> vvp_arith \<Rightarrow> vvp_vector4_t option" where
  "cmp_ge signed_flag = cmp_gtge_base signed_flag BIT4_1"

definition cmp_gt :: "bool \<Rightarrow> vvp_arith \<Rightarrow> vvp_vector4_t option" where
  "cmp_gt signed_flag = cmp_gtge_base signed_flag BIT4_0"

section \<open>Functors without operands\<close>

definition abs_recv_vec4 :: "vvp_net_ptr_t \<Rightarrow> vvp_vector4_t \<Rightarrow> unit \<Rightarrow> unit outcome" where
  "abs_recv_vec4 p bt s =
     (let out = vec4_new (vec_size bt) BIT4_0
      in case compare_gtge_signed bt out BIT4_1 of
           None \<Rightarrow> None
         | Some cmp \<Rightarrow>
             map_option (\<lambda>out. (s, [Send_vec4 (ptr_net p) out]))
               (case cmp of BIT4_1 \<Rightarrow> Some bt | BIT4_0 \<Rightarrow> vec4_plus_int (vec4_not bt) 1 | _ \<Rightarrow> Some (vec4_new (vec_size bt) BIT4_X)))"

definition abs_recv_real :: "vvp_net_ptr_t \<Rightarrow> u64 \<Rightarrow> unit \<Rightarrow> unit outcome" where
  "abs_recv_real p bt s = Some (s, [Send_real (ptr_net p) (bt AND 0x7FFFFFFFFFFFFFFF)])"

definition cast_vec2_recv_vec4 :: "nat \<Rightarrow> vvp_net_ptr_t \<Rightarrow> vvp_vector4_t \<Rightarrow> unit \<Rightarrow> unit outcome" where
  "cast_vec2_recv_vec4 wid p bt s =
     (case vec2_from_vec4 bt False of
        None \<Rightarrow> None
      | Some tmp \<Rightarrow> map_option (\<lambda>out. (s, [Send_vec4 (ptr_net p) out])) (vector2_to_vector4 tmp wid))"

definition cast_recv_real :: "nat \<Rightarrow> vvp_net_ptr_t \<Rightarrow> u64 \<Rightarrow> unit \<Rightarrow> unit outcome" where
  "cast_recv_real wid p bt s = map_option (\<lambda>out. (s, [Send_vec4 (ptr_net p) out])) (vec4_of_double wid bt)"

end
