(* ===== verification/Arith_Results.thy ===== *)
theory Arith_Results
  imports Arith
begin

text \<open>
  What the functors of \<open>Arith\<close> send. The locale \<open>arith_functor\<close> holds the protocol: after any sequence of
  messages each has been answered by the result for the operands as they then were. Its interpretations give
  the result of every functor as a function of the numbers or the bits of the operands.
\<close>

section \<open>The protocol\<close>

definition arith_ok :: "vvp_arith \<Rightarrow> bool" where
  "arith_ok s \<longleftrightarrow> ar_wid s < 2 ^ 32 \<and> vec4_wf (op_a s) \<and> vec4_wf (op_b s) \<and> vec4_wf (x_val s) \<and> vec_size (op_a s) = ar_wid s \<and>
     vec_size (op_b s) = ar_wid s \<and> vec4_bits (x_val s) = replicate (ar_wid s) BIT4_X"

text \<open>The bits and the port of a message; what the last message to a port brought.\<close>

fun msg_bits :: "net_msg \<Rightarrow> vvp_bit4_t list" where
  "msg_bits (Recv_vec4 p v) = vec4_bits v"
| "msg_bits (Recv_vec4_pv p v base wid vwid) = replicate base BIT4_Z @ vec4_bits v @ replicate (vwid - (base + wid)) BIT4_Z"
| "msg_bits (Recv_vec8 p v) = map scalar_value (vec8_scalars v)"
| "msg_bits (Recv_vec8_pv p v base wid vwid) =
     replicate base BIT4_Z @ map scalar_value (vec8_scalars v) @ replicate (vwid - (base + wid)) BIT4_Z"
| "msg_bits (Recv_real p r) = []"

definition last_operand :: "nat \<Rightarrow> vvp_bit4_t list \<Rightarrow> net_msg list \<Rightarrow> vvp_bit4_t list" where
  "last_operand port start ms = fold (\<lambda>m bs. if msg_port m = port then msg_bits m else bs) ms start"

fun run_messages :: "(net_msg \<Rightarrow> 's \<Rightarrow> 's outcome) \<Rightarrow> net_msg list \<Rightarrow> 's \<Rightarrow> 's outcome" where
  "run_messages recv [] s = Some (s, [])"
| "run_messages recv (m # ms) s =
     (case recv m s of
        None \<Rightarrow> None
      | Some (s, acts) \<Rightarrow> map_option (\<lambda>(s, acts'). (s, acts @ acts')) (run_messages recv ms s))"

lemma base_part:
  assumes "vec4_wf bt" "vec_size bt = wid" "0 < wid" "base + wid \<le> vwid"
  shows "\<exists>v. fun_recv_vec4_pv recv4 p bt base wid vwid s = recv4 p v s \<and> vec4_wf v \<and> vec_size v = vwid \<and>
    vec4_bits v = replicate base BIT4_Z @ vec4_bits bt @ replicate (vwid - (base + wid)) BIT4_Z"
proof -
  have z: "vec4_bits (vec4_new vwid BIT4_Z) = replicate vwid BIT4_Z"
    by (simp add: list_eq_iff_nth_eq vec4_value_new vec4_new_wf(2))
  obtain v diff where v: "vec4_set_vec (vec4_new vwid BIT4_Z) base bt = Some (v, diff)" "vec4_wf v"
    "vec4_bits v = take base (replicate vwid BIT4_Z) @ vec4_bits bt @ drop (base + vec_size bt) (replicate vwid BIT4_Z)"
    using vec4_set_vec_bits[of "vec4_new vwid BIT4_Z" bt base] assms z by (auto simp: vec4_new_wf)
  have "vec_size v = vwid" using arg_cong[OF v(3), of length] assms by simp
  then show ?thesis using v assms by (intro exI[of _ v]) (simp add: fun_recv_vec4_pv_def)
qed

locale arith_functor =
  fixes calc :: "vvp_arith \<Rightarrow> vvp_vector4_t option"
    and result :: "nat \<Rightarrow> vvp_bit4_t list \<Rightarrow> vvp_bit4_t list \<Rightarrow> vvp_bit4_t list"
  assumes calc_result: "arith_ok s \<Longrightarrow> 0 < ar_wid s \<Longrightarrow>
    \<exists>r. calc s = Some r \<and> vec4_wf r \<and> vec4_bits r = result (ar_wid s) (vec4_bits (op_a s)) (vec4_bits (op_b s))"
begin

definition answers :: "vvp_arith \<Rightarrow> net_msg \<Rightarrow> vvp_arith outcome \<Rightarrow> bool" where
  "answers s m out \<longleftrightarrow> (\<exists>s' r. out = Some (s', [Send_vec4 (msg_target m) r]) \<and> arith_ok s' \<and> ar_wid s' = ar_wid s \<and>
     vec4_bits (op_a s') = last_operand 0 (vec4_bits (op_a s)) [m] \<and>
     vec4_bits (op_b s') = last_operand 1 (vec4_bits (op_b s)) [m] \<and>
     vec4_wf r \<and> vec4_bits r = result (ar_wid s) (vec4_bits (op_a s')) (vec4_bits (op_b s')))"

lemma recv_vec4_answers:
  assumes "arith_ok s" "0 < ar_wid s" "vec4_wf v" "vec_size v = ar_wid s" "ptr_port p < 2"
    "msg_bits m = vec4_bits v" "msg_port m = ptr_port p" "msg_target m = ptr_net p"
  shows "answers s m (arith_recv_vec4 calc p v s)"
proof (cases "ptr_port p = 0")
  case True
  have "arith_ok (s\<lparr>op_a := v\<rparr>)" using assms by (simp add: arith_ok_def)
  then show ?thesis
    using calc_result[of "s\<lparr>op_a := v\<rparr>"] assms True
    by (auto simp: answers_def arith_recv_vec4_def dispatch_operand_def last_operand_def)
next
  case False
  then have "ptr_port p = 1" using assms(5) by simp
  moreover have "arith_ok (s\<lparr>op_b := v\<rparr>)" using assms by (simp add: arith_ok_def)
  ultimately show ?thesis
    using calc_result[of "s\<lparr>op_b := v\<rparr>"] assms
    by (auto simp: answers_def arith_recv_vec4_def dispatch_operand_def last_operand_def)
qed

lemma message_answered:
  assumes "arith_ok s" "0 < ar_wid s" "fits_input (ar_wid s) (\<lambda>p. p < 2) m"
  shows "answers s m (arith_recv calc m s)"
proof (cases m)
  case (Recv_vec4 p v)
  then show ?thesis using assms by (auto simp: arith_recv_def intro!: recv_vec4_answers)
next
  case (Recv_vec4_pv p v base wid vwid)
  then show ?thesis
    using base_part[of v wid base vwid "arith_recv_vec4 calc" p s] assms
    by (auto simp: arith_recv_def intro!: recv_vec4_answers)
next
  case (Recv_vec8 p v)
  obtain b where b: "reduce4 v = Some b" "vec4_wf b" "vec4_bits b = map scalar_value (vec8_scalars v)"
    using reduce4_bits by blast
  then have "vec_size b = v8_size v" using length_vec4_bits[of b] by simp
  then show ?thesis using assms Recv_vec8 b by (auto simp: arith_recv_def fun_recv_vec8_def intro!: recv_vec4_answers)
next
  case (Recv_vec8_pv p v base wid vwid)
  obtain b where b: "reduce4 v = Some b" "vec4_wf b" "vec4_bits b = map scalar_value (vec8_scalars v)"
    using reduce4_bits by blast
  then have "vec_size b = v8_size v" using length_vec4_bits[of b] by simp
  then show ?thesis
    using base_part[of b wid base vwid "arith_recv_vec4 calc" p s] assms Recv_vec8_pv b
    by (auto simp: arith_recv_def fun_recv_vec8_pv_def intro!: recv_vec4_answers)
qed (use assms in simp)

lemma all_answered:
  assumes "arith_ok s" "0 < ar_wid s" "\<forall>m\<in>set ms. fits_input (ar_wid s) (\<lambda>p. p < 2) m"
  shows "\<exists>s' acts. run_messages (arith_recv calc) ms s = Some (s', acts) \<and> arith_ok s' \<and> length acts = length ms \<and>
    (\<forall>i<length ms. \<exists>r. acts ! i = Send_vec4 (msg_target (ms ! i)) r \<and> vec4_wf r \<and>
       vec4_bits r = result (ar_wid s) (last_operand 0 (vec4_bits (op_a s)) (take (Suc i) ms))
                                       (last_operand 1 (vec4_bits (op_b s)) (take (Suc i) ms)))"
  using assms
proof (induction ms arbitrary: s)
  case Nil
  then show ?case by simp
next
  case (Cons m ms)
  from message_answered[of s m] Cons.prems obtain s1 r where
    m: "arith_recv calc m s = Some (s1, [Send_vec4 (msg_target m) r])" "arith_ok s1" "ar_wid s1 = ar_wid s"
      "vec4_bits (op_a s1) = last_operand 0 (vec4_bits (op_a s)) [m]" "vec4_bits (op_b s1) = last_operand 1 (vec4_bits (op_b s)) [m]"
      "vec4_wf r" "vec4_bits r = result (ar_wid s) (vec4_bits (op_a s1)) (vec4_bits (op_b s1))"
    by (auto simp: answers_def)
  have last: "last_operand p (last_operand p bs [m]) ms' = last_operand p bs (m # ms')" for p bs ms' by (simp add: last_operand_def)
  from Cons.IH[of s1] Cons.prems m(2,3) obtain s2 acts where
    ms: "run_messages (arith_recv calc) ms s1 = Some (s2, acts)" "arith_ok s2" "length acts = length ms"
      "\<forall>i<length ms. \<exists>r. acts ! i = Send_vec4 (msg_target (ms ! i)) r \<and> vec4_wf r \<and>
       vec4_bits r = result (ar_wid s) (last_operand 0 (vec4_bits (op_a s1)) (take (Suc i) ms))
                                       (last_operand 1 (vec4_bits (op_b s1)) (take (Suc i) ms))" by auto
  have run: "run_messages (arith_recv calc) (m # ms) s = Some (s2, Send_vec4 (msg_target m) r # acts)" using m(1) ms(1) by simp
  show ?case
    unfolding run
    using ms m by (auto simp: last nth_Cons' less_Suc_eq_0_disj)
qed

end

section \<open>Sum and difference\<close>

text \<open>The loop from bit \<open>k\<close> on, for bits that are those of two numbers, and for an unknown bit.\<close>

lemma carry_loop_known:
  assumes "vec4_wf v" "vec_size v = n" "k \<le> n"
    and "\<And>i. i < n - k \<Longrightarrow> a (k + i) = bit4_of_bool (bit x i)" "\<And>i. i < n - k \<Longrightarrow> b (k + i) = bit4_of_bool (bit y i)"
  shows "\<exists>r. arith_carry_loop a b [k..<n] (bit4_of_bool c) v = Some (Some r) \<and> vec4_wf r \<and> vec_size r = n \<and>
    (\<forall>i<k. vec4_value r i = vec4_value v i) \<and>
    (\<forall>i<n - k. vec4_value r (k + i) = bit4_of_bool (bit (x + y + of_bool c :: int) i))"
  using assms
proof (induction "n - k" arbitrary: k x y c v)
  case 0
  then show ?case by simp
next
  case (Suc m)
  then have split: "[k..<n] = k # [Suc k..<n]" by (simp add: upt_conv_Cons)
  have tl: "\<And>i. i < n - Suc k \<Longrightarrow> a (Suc k + i) = bit4_of_bool (bit (x div 2) i)"
    "\<And>i. i < n - Suc k \<Longrightarrow> b (Suc k + i) = bit4_of_bool (bit (y div 2) i)"
    using Suc.prems(4)[of "Suc i" for i] Suc.prems(5)[of "Suc i" for i] by (simp_all add: bit_Suc)
  have hd: "a k = bit4_of_bool (odd x)" "b k = bit4_of_bool (odd y)"
    using Suc.prems(4)[of 0] Suc.prems(5)[of 0] Suc.hyps(2) by (simp_all add: bit_0)
  define s :: int where "s = of_bool (odd x) + of_bool (odd y) + of_bool c"
  have total: "x + y + of_bool c = s + 2 * (x div 2 + y div 2)"
    using mod_mult_div_eq[of x 2] mod_mult_div_eq[of y 2] by (simp add: s_def mod_2_eq_odd)
  have s2: "s div 2 = of_bool (s div 2 = 1)" by (simp add: s_def)
  have half: "(x + y + of_bool c) div 2 = x div 2 + y div 2 + of_bool (s div 2 = 1)"
    unfolding total using div_mult_self2[of 2 s "x div 2 + y div 2"] s2 by simp
  have kn: "k < vec_size v" using Suc.hyps(2) Suc.prems(2) by simp
  have bits: "bit (x + y + of_bool c) 0 = odd s" "bit (x + y + of_bool c) (Suc i) = bit (x div 2 + y div 2 + of_bool (s div 2 = 1)) i" for i
    using half unfolding total by (simp_all add: bit_0 bit_Suc)
  have carry: "bit4_add_with_carry (a k) (b k) (bit4_of_bool c) = (bit4_of_bool (odd s), bit4_of_bool (s div 2 = 1))"
    unfolding hd s_def by (rule bit4_add_bools)
  obtain v' where v': "vec4_set_bit v k (bit4_of_bool (odd s)) = Some v'" "vec4_wf v'" "vec_size v' = n"
    "\<And>i. i < n \<Longrightarrow> vec4_value v' i = (if i = k then bit4_of_bool (odd s) else vec4_value v i)"
    using vec4.set_in_range[of v k "bit4_of_bool (odd s)"] Suc.prems kn by auto
  have "\<exists>r. arith_carry_loop a b [Suc k..<n] (bit4_of_bool (s div 2 = 1)) v' = Some (Some r) \<and> vec4_wf r \<and> vec_size r = n \<and>
      (\<forall>i<Suc k. vec4_value r i = vec4_value v' i) \<and>
      (\<forall>i<n - Suc k. vec4_value r (Suc k + i) = bit4_of_bool (bit (x div 2 + y div 2 + of_bool (s div 2 = 1)) i))"
    by (rule Suc.hyps(1)) (use Suc.hyps(2) Suc.prems tl v' in auto)
  then obtain r where r: "arith_carry_loop a b [Suc k..<n] (bit4_of_bool (s div 2 = 1)) v' = Some (Some r)" "vec4_wf r" "vec_size r = n"
    "\<forall>i<Suc k. vec4_value r i = vec4_value v' i"
    "\<forall>i<n - Suc k. vec4_value r (Suc k + i) = bit4_of_bool (bit (x div 2 + y div 2 + of_bool (s div 2 = 1)) i)" by blast
  have "vec4_value r (k + i) = bit4_of_bool (bit (x + y + of_bool c) i)" if "i < n - k" for i
  proof (cases i)
    case 0
    then show ?thesis using r(4) v'(4) bits(1) Suc.hyps(2) by simp
  next
    case (Suc j)
    then show ?thesis using r(5) that bits(2)[of j] by simp
  qed
  moreover have "arith_carry_loop a b [k..<n] (bit4_of_bool c) v = Some (Some r)"
    using split carry v'(1) r(1) by (auto simp: bit4_of_bool_def)
  ultimately show ?case using r v'(4) Suc.prems(3) by auto
qed

lemma carry_loop_unknown:
  assumes "vec4_wf v" "vec_size v = n" "\<exists>i. k \<le> i \<and> i < n \<and> (bit4_is_xz (a i) \<or> bit4_is_xz (b i))"
  shows "arith_carry_loop a b [k..<n] carry v = Some None"
  using assms
proof (induction "n - k" arbitrary: k carry v)
  case (Suc m)
  then have split: "[k..<n] = k # [Suc k..<n]" by (simp add: upt_conv_Cons)
  obtain cur cy where c: "bit4_add_with_carry (a k) (b k) carry = (cur, cy)" by (meson surj_pair)
  show ?case
  proof (cases "cur = BIT4_X")
    case True
    then show ?thesis using split c by simp
  next
    case False
    then have known: "\<not> bit4_is_xz (a k)" "\<not> bit4_is_xz (b k)" using c by (auto simp: bit4_add_with_carry_def)
    obtain v' where v': "vec4_set_bit v k cur = Some v'" "vec4_wf v'" "vec_size v' = n"
      using vec4.set_in_range[of v k cur] Suc by auto
    obtain i where "k \<le> i" "i < n" "bit4_is_xz (a i) \<or> bit4_is_xz (b i)" using Suc.prems(3) by blast
    then have "\<exists>i. Suc k \<le> i \<and> i < n \<and> (bit4_is_xz (a i) \<or> bit4_is_xz (b i))" using known by (intro exI[of _ i]) (auto simp: le_less)
    then have "arith_carry_loop a b [Suc k..<n] cy v' = Some None" using Suc.hyps v' by simp
    then show ?thesis using split c False v'(1) by simp
  qed
qed auto

lemma known_of_bool:
  "\<not> list_ex bit4_is_xz (vec4_bits v) \<Longrightarrow> i < vec_size v \<Longrightarrow> vec4_value v i = bit4_of_bool (bit (bits_num (vec4_bits v)) i)"
  by (simp add: known_value bit4_of_bool_def)

lemma bits_num_of_values:
  "vec_size r = w \<Longrightarrow> (\<And>i. i < w \<Longrightarrow> vec4_value r i = bit4_of_bool (bit k i)) \<Longrightarrow> vec4_bits r = num_bits w k"
  by (simp add: list_eq_iff_nth_eq bit4_of_bool_def)

lemma carry_loop_all:
  assumes "\<And>i. i < n \<Longrightarrow> a i = bit4_of_bool (bit x i)" "\<And>i. i < n \<Longrightarrow> b i = bit4_of_bool (bit y i)"
  shows "\<exists>r. arith_carry_loop a b [0..<n] (bit4_of_bool c) (vec4_new n BIT4_X) = Some (Some r) \<and> vec4_wf r \<and>
    vec4_bits r = num_bits n (x + y + of_bool c)"
proof -
  obtain r where r: "arith_carry_loop a b [0..<n] (bit4_of_bool c) (vec4_new n BIT4_X) = Some (Some r)" "vec4_wf r" "vec_size r = n"
    "\<forall>i<n. vec4_value r i = bit4_of_bool (bit (x + y + of_bool c) i)"
    using carry_loop_known[of "vec4_new n BIT4_X" n 0 a x b y c] assms by (auto simp: vec4_new_wf)
  then show ?thesis using bits_num_of_values[OF r(3)] by blast
qed

lemma arith_ok_x: "arith_ok s \<Longrightarrow> \<exists>r. Some (x_val s) = Some r \<and> vec4_wf r \<and> vec4_bits r = replicate (ar_wid s) BIT4_X"
  by (simp add: arith_ok_def)

lemma arith_sum_bits:
  assumes "arith_ok s"
  shows "\<exists>r. arith_sum s = Some r \<and> vec4_wf r \<and> vec4_bits r = lift_int4 (ar_wid s) (+) (vec4_bits (op_a s)) (vec4_bits (op_b s))"
proof -
  let ?w = "ar_wid s" and ?v = "vec4_new (ar_wid s) BIT4_X"
  let ?a = "\<lambda>idx. if idx \<ge> vec_size (op_a s) then BIT4_0 else vec4_value (op_a s) idx"
  let ?b = "\<lambda>idx. if idx \<ge> vec_size (op_b s) then BIT4_0 else vec4_value (op_b s) idx"
  have sz: "vec_size (op_a s) = ?w" "vec_size (op_b s) = ?w" "vec_size (x_val s) = ?w" using assms by (auto simp: arith_ok_def dest: arg_cong[of _ _ length])
  show ?thesis
  proof (cases "list_ex bit4_is_xz (vec4_bits (op_a s) @ vec4_bits (op_b s))")
    case True
    then obtain i where "i < ?w" "bit4_is_xz (vec4_value (op_a s) i) \<or> bit4_is_xz (vec4_value (op_b s) i)"
      using sz by (auto simp: list_ex_iff vec4_bits_def)
    then have "\<exists>i. 0 \<le> i \<and> i < ?w \<and> (bit4_is_xz (?a i) \<or> bit4_is_xz (?b i))" using sz by (intro exI[of _ i]) (auto)
    then have "arith_carry_loop ?a ?b [0..<?w] BIT4_0 ?v = Some None" by (intro carry_loop_unknown) (simp_all add: vec4_new_wf)
    then show ?thesis using True assms by (simp add: arith_sum_def lift_int4_def arith_ok_def)
  next
    case False
    then have "?a i = bit4_of_bool (bit (bits_num (vec4_bits (op_a s))) i)" "?b i = bit4_of_bool (bit (bits_num (vec4_bits (op_b s))) i)" if "i < ?w" for i
      using that sz known_of_bool[of "op_a s" i] known_of_bool[of "op_b s" i] by simp_all
    from carry_loop_all[of ?w ?a _ ?b _ False, OF this] show ?thesis using False by (auto simp: arith_sum_def lift_int4_def bit4_of_bool_def)
  qed
qed

lemma arith_sub_bits:
  assumes "arith_ok s"
  shows "\<exists>r. arith_sub s = Some r \<and> vec4_wf r \<and> vec4_bits r = lift_int4 (ar_wid s) (-) (vec4_bits (op_a s)) (vec4_bits (op_b s))"
proof -
  let ?w = "ar_wid s" and ?v = "vec4_new (ar_wid s) BIT4_X" and ?x = "bits_num (vec4_bits (op_a s))" and ?y = "bits_num (vec4_bits (op_b s))"
  let ?a = "\<lambda>idx. if idx \<ge> vec_size (op_a s) then BIT4_1 else vec4_value (op_a s) idx"
  let ?b = "\<lambda>idx. if idx \<ge> vec_size (op_b s) then BIT4_1 else bit4_not (vec4_value (op_b s) idx)"
  have sz: "vec_size (op_a s) = ?w" "vec_size (op_b s) = ?w" using assms by (auto simp: arith_ok_def)
  have xz: "bit4_is_xz (bit4_not b) = bit4_is_xz b" for b by (cases b) simp_all
  show ?thesis
  proof (cases "list_ex bit4_is_xz (vec4_bits (op_a s) @ vec4_bits (op_b s))")
    case True
    then obtain i where "i < ?w" "bit4_is_xz (vec4_value (op_a s) i) \<or> bit4_is_xz (vec4_value (op_b s) i)"
      using sz by (auto simp: list_ex_iff vec4_bits_def)
    then have "\<exists>i. 0 \<le> i \<and> i < ?w \<and> (bit4_is_xz (?a i) \<or> bit4_is_xz (?b i))" using sz by (intro exI[of _ i]) (auto simp: xz)
    then have "arith_carry_loop ?a ?b [0..<?w] BIT4_1 ?v = Some None" by (intro carry_loop_unknown) (simp_all add: vec4_new_wf)
    then show ?thesis using True assms by (simp add: arith_sub_def lift_int4_def arith_ok_def)
  next
    case False
    then have "?a i = bit4_of_bool (bit ?x i)" "?b i = bit4_of_bool (bit (NOT ?y) i)" if "i < ?w" for i
      using that sz known_of_bool[of "op_a s" i] known_of_bool[of "op_b s" i] by (simp_all add: bit_not_iff bit4_of_bool_def)
    note loop = carry_loop_all[of ?w ?a ?x ?b "NOT ?y" True, OF this]
    have "?x + NOT ?y + of_bool True = ?x - ?y" by (simp add: not_int_def)
    note loop = loop[unfolded this]
    then show ?thesis using False loop by (auto simp: arith_sub_def lift_int4_def bit4_of_bool_def)
  qed
qed

section \<open>Numbers of the two kinds of vectors\<close>

lemma int_of_bits_eqI: "(\<And>i. bit (n :: nat) i \<longleftrightarrow> bit k i) \<Longrightarrow> int n = k"
  by (intro bit_eqI) (simp add: bit_of_nat_iff_bit)

lemma vec2_of_vec4:
  assumes "vec4_wf v" "0 < vec_size v"
  shows "if list_ex bit4_is_xz (vec4_bits v) then vec2_from_vec4 v True = Some vec2_null
    else \<exists>u. vec2_from_vec4 v True = Some u \<and> vec2_clean u \<and> v2_size u = vec_size v \<and> int (vec2_num u) = bits_num (vec4_bits v)"
proof -
  have xz: "vec4_has_xz v \<longleftrightarrow> list_ex bit4_is_xz (vec4_bits v)"
    using vec4_has_xz_iff[OF assms(2)] by (auto simp: list_ex_iff vec4_bits_def)
  obtain u where u: "vec2_copy_from_vec4 v = Some u" "vec2_clean u" "v2_size u = vec_size v"
    "\<forall>i<vec_size v. vec2_value u i = of_bool (vec4_value v i = BIT4_1)"
    using vec2_copy_from_vec4_ok[OF assms(1)] by blast
  have "bit (vec2_num u) i \<longleftrightarrow> bit (bits_num (vec4_bits v)) i" for i
  proof (cases "i < vec_size v")
    case True
    then have "of_bool (bit (vec2_num u) i) = (of_bool (vec4_value v i = BIT4_1) :: nat)"
      using u(4)[rule_format, OF True] vec2_value_bit[of u i] u(2,3) by (simp add: vec2_clean_def)
    then show ?thesis using True by (simp only: of_bool_eq_iff bit_bits_num length_vec4_bits nth_vec4_bits simp_thms)
  next
    case False
    then have "\<not> bit (vec2_num u) i" using u(2,3) nat_less_exp_iff[of "vec2_num u" "vec_size v"] by (auto simp: vec2_clean_def)
    then show ?thesis using False by (simp add: bit_bits_num)
  qed
  then have "int (vec2_num u) = bits_num (vec4_bits v)" by (rule int_of_bits_eqI)
  then show ?thesis using u xz by (simp add: vec2_from_vec4_def)
qed

lemma vec4_of_vec2:
  assumes "vec2_ok u" "wid \<le> v2_size u"
  shows "\<exists>r. vector2_to_vector4 u wid = Some r \<and> vec4_wf r \<and> vec4_bits r = num_bits wid (int (vec2_num u))"
  using vector2_to_vector4_bits[of u wid] assms
  by (auto simp: num_bits_def vec2_value_bit bit_of_nat_iff_bit)

text \<open>The bits of a result depend on the number modulo two to the width.\<close>

lemma num_bits_mod: "m mod 2 ^ w = k mod (2 :: int) ^ w \<Longrightarrow> num_bits w m = num_bits w k"
  by (rule num_bits_cong) (simp add: take_bit_eq_mod)

lemma num_bits_mod_more:
  assumes "w \<le> n"
  shows "num_bits w (k mod 2 ^ n) = num_bits w k"
proof (rule num_bits_mod)
  have "(2 :: int) ^ w dvd 2 ^ n" using assms by (rule le_imp_power_dvd)
  then show "k mod 2 ^ n mod 2 ^ w = k mod 2 ^ w" by (rule mod_mod_cancel)
qed

lemma word_bits_into_bits:
  assumes "vec4_wf v" "vec_size v = wid" "wid \<le> 64"
  shows "\<exists>r. word_bits_into v wid (word_of_int k) = Some r \<and> vec4_wf r \<and> vec4_bits r = num_bits wid k"
proof -
  let ?step = "\<lambda>idx (vval, val). case vec4_set_bit vval idx (if val AND 1 \<noteq> 0 then BIT4_1 else BIT4_0) of
      None \<Rightarrow> None | Some vval \<Rightarrow> Some (vval, shr val 1)"
  have "\<exists>r. foldM ?step [0..<j] (v, w) = Some (r, drop_bit j w) \<and> vec4_wf r \<and> vec_size r = wid \<and>
      (\<forall>i<j. vec4_value r i = bit4_of_bool (bit w i))" if "j \<le> wid" for j and w :: u64
    using that
  proof (induction j)
    case 0
    then show ?case using assms(1,2) by simp
  next
    case (Suc j)
    then obtain r where r: "foldM ?step [0..<j] (v, w) = Some (r, drop_bit j w)" "vec4_wf r" "vec_size r = wid"
      "\<forall>i<j. vec4_value r i = bit4_of_bool (bit w i)" by auto
    have b: "(if drop_bit j w AND 1 \<noteq> 0 then BIT4_1 else BIT4_0) = bit4_of_bool (bit w j)"
      by (simp add: and_1_eq_of_bool bit_drop_bit_eq bit4_of_bool_def)
    obtain r' where r': "vec4_set_bit r j (bit4_of_bool (bit w j)) = Some r'" "vec4_wf r'" "vec_size r' = wid"
      "\<forall>i<wid. vec4_value r' i = (if i = j then bit4_of_bool (bit w j) else vec4_value r i)"
      using vec4.set_in_range[of r j "bit4_of_bool (bit w j)"] r Suc.prems by auto
    have "shr (drop_bit j w) 1 = drop_bit (Suc j) w" by (simp add: shr_def drop_bit_drop_bit)
    then have "foldM ?step [0..<Suc j] (v, w) = Some (r', drop_bit (Suc j) w)"
      using r(1) r'(1) b by (simp add: foldM_append)
    then show ?case using r r' Suc.prems by (auto simp: less_Suc_eq)
  qed
  from this[of wid "word_of_int k"] obtain r where r: "word_bits_into v wid (word_of_int k) = Some r" "vec4_wf r" "vec_size r = wid"
    "\<forall>i<wid. vec4_value r i = bit4_of_bool (bit (word_of_int k :: u64) i)" by (auto simp: word_bits_into_def)
  have "bit (word_of_int k :: u64) i = bit k i" if "i < wid" for i using that assms(3) by (simp add: bit_word_of_int_iff)
  then show ?thesis using r bits_num_of_values[OF r(3)] by simp
qed

lemma word_to_vec4_bits:
  assumes "wid \<le> 64"
  shows "\<exists>r. word_to_vec4 wid (word_of_int k) = Some r \<and> vec4_wf r \<and> vec4_bits r = num_bits wid k"
  using word_bits_into_bits[OF vec4_new_wf assms] by (simp add: word_to_vec4_def)

section \<open>Product\<close>

lemma arith_mult_bits:
  assumes "arith_ok s" "0 < ar_wid s"
  shows "\<exists>r. arith_mult s = Some r \<and> vec4_wf r \<and> vec4_bits r = lift_int4 (ar_wid s) (*) (vec4_bits (op_a s)) (vec4_bits (op_b s))"
proof -
  let ?w = "ar_wid s" and ?x = "bits_num (vec4_bits (op_a s))" and ?y = "bits_num (vec4_bits (op_b s))"
  have ok: "vec4_wf (op_a s)" "vec4_wf (op_b s)" "vec_size (op_a s) = ?w" "vec_size (op_b s) = ?w" using assms by (auto simp: arith_ok_def)
  show ?thesis
  proof (cases "64 < ?w")
    case True
    note a = vec2_of_vec4[OF ok(1)] and b = vec2_of_vec4[OF ok(2)]
    show ?thesis
    proof (cases "list_ex bit4_is_xz (vec4_bits (op_a s) @ vec4_bits (op_b s))")
      case xz: True
      have "\<exists>a2 b2. vec2_from_vec4 (op_a s) True = Some a2 \<and> vec2_from_vec4 (op_b s) True = Some b2 \<and> (vec2_is_NaN a2 \<or> vec2_is_NaN b2)"
        using a b xz ok True by (auto simp: vec2_is_NaN_def vec2_null_def split: if_splits)
      then have "arith_mult s = Some (x_val s)" using True by (auto simp: arith_mult_def mult_wide_def)
      then show ?thesis using arith_ok_x[OF assms(1)] xz by (simp add: lift_int4_def)
    next
      case False
      then obtain a2 b2 where u: "vec2_from_vec4 (op_a s) True = Some a2" "vec2_clean a2" "v2_size a2 = ?w" "int (vec2_num a2) = ?x"
        "vec2_from_vec4 (op_b s) True = Some b2" "vec2_clean b2" "v2_size b2 = ?w" "int (vec2_num b2) = ?y"
        using a b ok True by auto
      obtain r where r: "vec2_mul a2 b2 = Some r" "v2_size r = ?w" "vec2_ok r" "vec2_num r = vec2_num a2 * vec2_num b2 mod 2 ^ (64 * word_count ?w)"
        using vec2_mul_num[of a2 b2] u by (auto simp: vec2_clean_def)
      obtain q where q: "vector2_to_vector4 r ?w = Some q" "vec4_wf q" "vec4_bits q = num_bits ?w (int (vec2_num r))"
        using vec4_of_vec2[OF r(3), of ?w] r(2) by auto
      have "int (vec2_num r) = ?x * ?y mod 2 ^ (64 * word_count ?w)" using r(4) u(4,8) by (simp add: zmod_int)
      then have "vec4_bits q = num_bits ?w (?x * ?y)" using q(3) num_bits_mod_more[OF word_count_bound] by simp
      then show ?thesis using False True u(1,3,5,7) r(1) q(1,2) by (auto simp: arith_mult_def mult_wide_def vec2_is_NaN_def lift_int4_def)
    qed
  next
    case False
    have "vec4_to_value v False True = (let xz = list_ex bit4_is_xz (vec4_bits v)
        in (\<not> xz, if xz then None else Some (word_of_int (bits_num (vec4_bits v)) :: u64)))" if "vec_size v \<le> 64" for v
      using that by (subst vec4_to_value_num) (simp_all add: Let_def)
    then have val: "arith_mult s = (if list_ex bit4_is_xz (vec4_bits (op_a s) @ vec4_bits (op_b s)) then Some (x_val s)
        else word_to_vec4 ?w (word_of_int ?x * word_of_int ?y))"
      using False ok by (simp add: arith_mult_def Let_def)
    then show ?thesis
      using arith_ok_x[OF assms(1)] word_to_vec4_bits[of ?w "?x * ?y"] False by (auto simp: lift_int4_def)
  qed
qed

section \<open>Quotient and remainder\<close>

lemma snum_top:
  assumes "\<not> list_ex bit4_is_xz (vec4_bits v)" "0 < vec_size v"
  shows "bits_snum (vec4_bits v) = (if vec4_value v (vec_size v - 1) = BIT4_1
    then bits_num (vec4_bits v) - 2 ^ vec_size v else bits_num (vec4_bits v)) \<and>
    (vec4_value v (vec_size v - 1) = BIT4_0 \<or> vec4_value v (vec_size v - 1) = BIT4_1) \<and>
    (vec4_value v (vec_size v - 1) = BIT4_1 \<longleftrightarrow> 2 ^ (vec_size v - 1) \<le> bits_num (vec4_bits v))"
proof -
  obtain m where m: "vec_size v = Suc m" using assms(2) by (cases "vec_size v") auto
  let ?x = "bits_num (vec4_bits v)"
  have top: "vec4_value v m = bit4_of_bool (bit ?x m)" using known_of_bool[OF assms(1), of m] m by simp
  have range: "0 \<le> ?x" "?x < 2 ^ Suc m" using bits_num_bounds[of "vec4_bits v"] m by simp_all
  have split: "?x = take_bit m ?x + 2 ^ m * of_bool (bit ?x m)"
    using take_bit_Suc_top[of m ?x] range by (simp add: take_bit_int_eq_self)
  have low: "0 \<le> take_bit m ?x" "take_bit m ?x < 2 ^ m" by simp_all
  have "bit ?x m \<Longrightarrow> ?x = take_bit m ?x + 2 ^ m" "\<not> bit ?x m \<Longrightarrow> ?x = take_bit m ?x" using split by simp_all
  then have high: "bit ?x m \<longleftrightarrow> 2 ^ m \<le> ?x" using low by linarith
  have "bits_snum (vec4_bits v) = (if bit ?x m then ?x - 2 ^ Suc m else ?x)"
    using m range by (simp add: bits_snum_def signed_take_bit_eq_take_bit_minus take_bit_int_eq_self)
  then show ?thesis using top high m by (cases "bit ?x m") (simp_all add: bit4_of_bool_def)
qed

lemma snum_bounds:
  assumes "\<not> list_ex bit4_is_xz (vec4_bits v)" "0 < vec_size v"
  shows "\<bar>bits_snum (vec4_bits v)\<bar> \<le> 2 ^ (vec_size v - 1) \<and> (bits_snum (vec4_bits v) = 0 \<longleftrightarrow> bits_num (vec4_bits v) = 0)"
proof -
  obtain m where m: "vec_size v = Suc m" using assms(2) by (cases "vec_size v") auto
  have "0 \<le> bits_num (vec4_bits v)" "bits_num (vec4_bits v) < 2 ^ Suc m" using bits_num_bounds[of "vec4_bits v"] m by simp_all
  then show ?thesis using snum_top[OF assms] m by (auto split: if_splits)
qed

text \<open>The magnitudes.\<close>

lemma take_sign_val:
  assumes "\<not> list_ex bit4_is_xz (vec4_bits v)" "0 < vec_size v" "vec_size v \<le> 64"
  shows "take_sign sf v (word_of_int (bits_num (vec4_bits v))) =
    (if sf then (word_of_int \<bar>bits_snum (vec4_bits v)\<bar>, bits_snum (vec4_bits v) < 0)
     else (word_of_int (bits_num (vec4_bits v)), False))"
proof (cases "sf \<and> vec4_value v (vec_size v - 1) = BIT4_1")
  case False
  have "0 \<le> bits_num (vec4_bits v)" using bits_num_bounds by blast
  then show ?thesis using False snum_top[OF assms(1,2)] by (auto simp: take_sign_def Let_def)
next
  case True
  let ?w = "vec_size v" and ?x = "bits_num (vec4_bits v)"
  have x: "2 ^ (?w - 1) \<le> ?x" "?x < 2 ^ ?w" "bits_snum (vec4_bits v) = ?x - 2 ^ ?w"
    using True snum_top[OF assms(1,2)] bits_num_bounds[of "vec4_bits v"] by simp_all
  have m: "0 < 2 ^ ?w - ?x" "2 ^ ?w - ?x < 2 ^ ?w" using x(1,2) less_le_trans[of 0 "2 ^ (?w - 1)" ?x] by simp_all
  have "(- word_of_int ?x :: u64) AND NOT (if ?w \<noteq> 64 then shl (- 1) ?w else 0) = word_of_int (2 ^ ?w - ?x)"
  proof (cases "?w = 64")
    case True
    then show ?thesis by simp
  next
    case False
    have "(- word_of_int ?x :: u64) AND NOT (shl (- 1) ?w) = take_bit ?w (- word_of_int ?x)"
      using False assms(3) by (intro bit_word_eqI) (auto simp: bit_and_iff bit_not_iff bit_take_bit_iff bit_shl)
    also have "\<dots> = word_of_int (take_bit ?w (- ?x))"
      using assms(3) by (intro bit_word_eqI) (simp add: bit_take_bit_iff bit_word_of_int_iff flip: of_int_minus)
    also have "take_bit ?w (- ?x) = take_bit ?w (2 ^ ?w - ?x)"
      by (simp add: take_bit_eq_mod mod_diff_left_eq[of "2 ^ ?w", symmetric])
    also have "\<dots> = 2 ^ ?w - ?x" using m by (simp add: take_bit_int_eq_self)
    finally show ?thesis using False by simp
  qed
  then show ?thesis using True x m(1) by (simp add: take_sign_def Let_def)
qed

lemma take_sign2_val:
  assumes "\<not> list_ex bit4_is_xz (vec4_bits v)" "0 < vec_size v"
    "vec2_clean u" "v2_size u = vec_size v" "int (vec2_num u) = bits_num (vec4_bits v)"
  shows "\<exists>u'. take_sign2 sf u = Some (u', sf \<and> bits_snum (vec4_bits v) < 0) \<and> vec2_clean u' \<and> v2_size u' = vec_size v \<and>
    int (vec2_num u') = (if sf then \<bar>bits_snum (vec4_bits v)\<bar> else bits_num (vec4_bits v))"
proof -
  let ?w = "vec_size v" and ?x = "bits_num (vec4_bits v)"
  have "vec2_value u (v2_size u - 1) = of_bool (bit (vec2_num u) (?w - 1))"
    using vec2_value_bit[of u "?w - 1"] assms(2-4) by (simp add: vec2_clean_def)
  moreover have "bit (vec2_num u) (?w - 1) \<longleftrightarrow> vec4_value v (?w - 1) = BIT4_1"
    using bit_bits_num[of "vec4_bits v" "?w - 1"] assms(2) by (simp add: bit_of_nat_iff_bit flip: assms(5))
  ultimately have top: "vec2_value u (v2_size u - 1) \<noteq> 0 \<longleftrightarrow> vec4_value v (?w - 1) = BIT4_1" by simp
  have x: "0 \<le> ?x" "?x < 2 ^ ?w" using bits_num_bounds[of "vec4_bits v"] by simp_all
  show ?thesis
  proof (cases "sf \<and> vec4_value v (?w - 1) = BIT4_1")
    case False
    then show ?thesis using top snum_top[OF assms(1,2)] assms(3-5) x by (auto simp: take_sign2_def)
  next
    case True
    obtain u' where u': "vec2_neg u = Some u'" "v2_size u' = ?w" "vec2_clean u'" "int (vec2_num u') = (- ?x) mod 2 ^ ?w"
      using vec2_neg_num[of u] assms(3-5) by (auto simp: vec2_clean_def)
    have s: "bits_snum (vec4_bits v) = ?x - 2 ^ ?w" "2 ^ (?w - 1) \<le> ?x" using True snum_top[OF assms(1,2)] by simp_all
    then have "0 < ?x" using less_le_trans[of 0 "2 ^ (?w - 1)" ?x] by simp
    then have "(- ?x) mod 2 ^ ?w = 2 ^ ?w - ?x" using x(2) by (simp add: zmod_zminus1_eq_if)
    then show ?thesis using True top u' s x(2) by (auto simp: take_sign2_def)
  qed
qed

definition div_result :: "bool \<Rightarrow> nat \<Rightarrow> vvp_bit4_t list \<Rightarrow> vvp_bit4_t list \<Rightarrow> vvp_bit4_t list" where
  "div_result sf w xs ys =
     (if list_ex bit4_is_xz (xs @ ys) \<or> bits_num ys = 0 then replicate w BIT4_X
      else num_bits w
        (if sf then bits_snum xs sdiv bits_snum ys
         else if 64 < w \<and> bits_num ys = 1 \<and> 2 ^ (w - 1) < bits_num xs then 0
         else bits_num xs div bits_num ys))"

definition mod_result :: "bool \<Rightarrow> nat \<Rightarrow> vvp_bit4_t list \<Rightarrow> vvp_bit4_t list \<Rightarrow> vvp_bit4_t list" where
  "mod_result sf w xs ys =
     (if list_ex bit4_is_xz (xs @ ys) \<or> bits_num ys = 0 then replicate w BIT4_X
      else num_bits w (if sf then bits_snum xs smod bits_snum ys else bits_num xs mod bits_num ys))"

lemma signed_by_magnitude:
  fixes x y :: int
  shows "(if (x < 0) \<noteq> (y < 0) then - (\<bar>x\<bar> div \<bar>y\<bar>) else \<bar>x\<bar> div \<bar>y\<bar>) = x sdiv y"
    "(if x < 0 then - (\<bar>x\<bar> mod \<bar>y\<bar>) else \<bar>x\<bar> mod \<bar>y\<bar>) = x smod y"
  by (auto simp: signed_divide_int_def signed_modulo_int_def sgn_if)

lemma word_of_int_div_mod:
  fixes a b :: int
  assumes "0 \<le> a" "a < 2 ^ 64" "0 \<le> b" "b < 2 ^ 64"
  shows "(word_of_int a div word_of_int b :: u64) = word_of_int (a div b)"
    "(word_of_int a mod word_of_int b :: u64) = word_of_int (a mod b)" "(word_of_int b :: u64) = 0 \<longleftrightarrow> b = 0"
proof -
  have u: "uint (word_of_int a :: u64) = a" "uint (word_of_int b :: u64) = b"
    using assms by (simp_all add: uint_word_of_int)
  then show "(word_of_int a div word_of_int b :: u64) = word_of_int (a div b)"
    "(word_of_int a mod word_of_int b :: u64) = word_of_int (a mod b)" by (simp_all add: word_div_def word_mod_def)
  show "(word_of_int b :: u64) = 0 \<longleftrightarrow> b = 0" using u(2) by (metis uint_0_iff)
qed

lemma x_fill: "\<exists>r. foldM (\<lambda>idx xval. vec4_set_bit xval idx BIT4_X) [0..<w] (vec4_new w BIT4_X) = Some r \<and> vec4_wf r \<and>
    vec4_bits r = replicate w BIT4_X"
  using vec4_fill_loop[of "vec4_new w BIT4_X" w "\<lambda>_. BIT4_X"] by (auto simp: vec4_new_wf map_replicate_const)

lemma num_range: "0 \<le> bits_num (vec4_bits v) \<and> bits_num (vec4_bits v) < 2 ^ vec_size v"
  using bits_num_bounds[of "vec4_bits v"] by simp

lemma narrow_magnitudes:
  assumes "\<not> list_ex bit4_is_xz (vec4_bits v)" "0 < vec_size v" "vec_size v \<le> 64"
  shows "\<bar>bits_snum (vec4_bits v)\<bar> < 2 ^ 64" "bits_num (vec4_bits v) < 2 ^ 64"
proof -
  have "(2 :: int) ^ (vec_size v - 1) \<le> 2 ^ 63" using assms(3) by (intro power_increasing) simp_all
  then show "\<bar>bits_snum (vec4_bits v)\<bar> < 2 ^ 64" using snum_bounds[OF assms(1,2)] by simp
  show "bits_num (vec4_bits v) < 2 ^ 64" using num_range[of v] assms(3) by (meson less_le_trans one_le_numeral power_increasing)
qed

text \<open>Both functors, from what their common parts do with the magnitudes and the signs.\<close>

lemma narrow_division:
  assumes "vec4_wf a" "vec4_wf b" "vec_size a = w" "vec_size b = w" "0 < w" "w \<le> 64"
    and "\<not> list_ex bit4_is_xz (vec4_bits a @ vec4_bits b)"
  shows "\<exists>A B na nb. vec4_to_value_ov a = Some A \<and> vec4_to_value_ov b = Some B \<and>
    take_sign sf a (snd A) = (word_of_int na, sf \<and> bits_snum (vec4_bits a) < 0) \<and>
    take_sign sf b (snd B) = (word_of_int nb, sf \<and> bits_snum (vec4_bits b) < 0) \<and>
    na = (if sf then \<bar>bits_snum (vec4_bits a)\<bar> else bits_num (vec4_bits a)) \<and>
    nb = (if sf then \<bar>bits_snum (vec4_bits b)\<bar> else bits_num (vec4_bits b)) \<and>
    0 \<le> na \<and> na < 2 ^ 64 \<and> 0 \<le> nb \<and> nb < 2 ^ 64 \<and> (nb = 0 \<longleftrightarrow> bits_num (vec4_bits b) = 0)"
  using assms take_sign_val[of a sf] take_sign_val[of b sf] narrow_magnitudes[of a] narrow_magnitudes[of b] num_range[of a] num_range[of b]
    snum_bounds[of b] by (simp add: vec4_to_value_ov_result)

lemma wide_division:
  assumes "vec4_wf a" "vec4_wf b" "vec_size a = w" "vec_size b = w" "0 < w"
    and "\<not> list_ex bit4_is_xz (vec4_bits a @ vec4_bits b)"
  shows "\<exists>a2 b2 D d. vec2_from_vec4 a True = Some a2 \<and> vec2_from_vec4 b True = Some b2 \<and> v2_size a2 = w \<and> v2_size b2 = w \<and>
    take_sign2 sf a2 = Some (D, sf \<and> bits_snum (vec4_bits a) < 0) \<and> take_sign2 sf b2 = Some (d, sf \<and> bits_snum (vec4_bits b) < 0) \<and>
    vec2_clean D \<and> vec2_clean d \<and> v2_size D = w \<and> v2_size d = w \<and>
    int (vec2_num D) = (if sf then \<bar>bits_snum (vec4_bits a)\<bar> else bits_num (vec4_bits a)) \<and>
    int (vec2_num d) = (if sf then \<bar>bits_snum (vec4_bits b)\<bar> else bits_num (vec4_bits b)) \<and>
    (vec2_is_zero b2 \<longleftrightarrow> bits_num (vec4_bits b) = 0)"
proof -
  obtain a2 b2 where u: "vec2_from_vec4 a True = Some a2" "vec2_clean a2" "v2_size a2 = w" "int (vec2_num a2) = bits_num (vec4_bits a)"
    "vec2_from_vec4 b True = Some b2" "vec2_clean b2" "v2_size b2 = w" "int (vec2_num b2) = bits_num (vec4_bits b)"
    using vec2_of_vec4[OF assms(1)] vec2_of_vec4[OF assms(2)] assms by auto
  have "vec2_is_zero b2 \<longleftrightarrow> vec2_num b2 = 0"
  proof -
    have len: "length (v2_vec b2) = word_count (v2_size b2)" using u(6) by (simp add: vec2_clean_def vec2_ok_def)
    have "vec2_is_zero b2 \<longleftrightarrow> v2_vec b2 = replicate (word_count (v2_size b2)) 0"
      using len by (auto simp: vec2_is_zero_def list_all_iff list_eq_iff_nth_eq)
    also have "\<dots> \<longleftrightarrow> vec2_num b2 = 0"
    proof
      assume "vec2_num b2 = 0"
      then have "\<not> bit (v2_vec b2 ! j) m" if "j < length (v2_vec b2)" "m < 64" for j m
        using bit_words_val_at[OF that(2), of "v2_vec b2" j] that(1) by (simp add: vec2_num_def)
      then show "v2_vec b2 = replicate (word_count (v2_size b2)) 0"
        using len by (intro nth_equalityI) (auto intro!: bit_word_eqI)
    qed (simp add: vec2_num_def words_val_replicate_0)
    finally show ?thesis .
  qed
  then have "vec2_is_zero b2 \<longleftrightarrow> bits_num (vec4_bits b) = 0" using of_nat_eq_0_iff[of "vec2_num b2", where 'a = int] u(8) by simp
  then show ?thesis
    using u assms take_sign2_val[of a a2 sf] take_sign2_val[of b b2 sf] by auto
qed

lemma wide_answer:
  assumes "vec2_clean res" "v2_size res = w" "int (vec2_num res) = q"
  shows "\<exists>r' r. (if negate then vec2_neg res else Some res) = Some r' \<and> v2_size r' = w \<and> vector2_to_vector4 r' w = Some r \<and> vec4_wf r \<and>
    vec4_bits r = num_bits w (if negate then - q else q)"
proof (cases negate)
  case True
  obtain r' where r': "vec2_neg res = Some r'" "v2_size r' = w" "vec2_clean r'" "int (vec2_num r') = (- q) mod 2 ^ w"
    using vec2_neg_num[of res] assms by (auto simp: vec2_clean_def)
  then have "vec2_ok r'" by (simp add: vec2_clean_def)
  from vec4_of_vec2[OF this, of w] r' True num_bits_mod_more[of w w "- q"] show ?thesis by auto
next
  case False
  then show ?thesis using vec4_of_vec2[of res w] assms by (auto simp: vec2_clean_def)
qed

lemma arith_div_bits:
  assumes "arith_ok s" "0 < ar_wid s"
  shows "\<exists>r. arith_div sf s = Some r \<and> vec4_wf r \<and> vec4_bits r = div_result sf (ar_wid s) (vec4_bits (op_a s)) (vec4_bits (op_b s))"
proof -
  let ?w = "ar_wid s" and ?a = "op_a s" and ?b = "op_b s"
  have ok: "vec4_wf ?a" "vec4_wf ?b" "vec_size ?a = ?w" "vec_size ?b = ?w" using assms by (auto simp: arith_ok_def)
  note X = arith_ok_x[OF assms(1)]
  show ?thesis
  proof (cases "list_ex bit4_is_xz (vec4_bits ?a @ vec4_bits ?b)")
    case True
    have "arith_div sf s = Some (x_val s)"
    proof (cases "64 < ?w")
      case wide: True
      then show ?thesis
        using True vec2_of_vec4[OF ok(1)] vec2_of_vec4[OF ok(2)] ok
        by (auto simp: arith_div_def div_wide4_def vec2_is_NaN_def vec2_null_def split: if_splits)
    qed (use True in \<open>auto simp: arith_div_def vec4_to_value_ov_result split: option.splits\<close>)
    then show ?thesis using True X by (simp add: div_result_def)
  next
    case known: False
    show ?thesis
    proof (cases "64 < ?w")
      case False
      then have small: "?w \<le> 64" by simp
      obtain A B na nb where nums: "vec4_to_value_ov ?a = Some A" "vec4_to_value_ov ?b = Some B"
        "take_sign sf ?a (snd A) = (word_of_int na, sf \<and> bits_snum (vec4_bits ?a) < 0)"
        "take_sign sf ?b (snd B) = (word_of_int nb, sf \<and> bits_snum (vec4_bits ?b) < 0)"
        "na = (if sf then \<bar>bits_snum (vec4_bits ?a)\<bar> else bits_num (vec4_bits ?a))"
        "nb = (if sf then \<bar>bits_snum (vec4_bits ?b)\<bar> else bits_num (vec4_bits ?b))"
        "0 \<le> na" "na < 2 ^ 64" "0 \<le> nb" "nb < 2 ^ 64" "nb = 0 \<longleftrightarrow> bits_num (vec4_bits ?b) = 0"
        using narrow_division[OF ok assms(2) small known] by blast
      define p q where pq: "p \<longleftrightarrow> sf \<and> bits_snum (vec4_bits ?a) < 0" "q \<longleftrightarrow> sf \<and> bits_snum (vec4_bits ?b) < 0"
      have word: "(word_of_int na div word_of_int nb :: u64) = word_of_int (na div nb)" "(word_of_int nb :: u64) = 0 \<longleftrightarrow> nb = 0"
        using word_of_int_div_mod[OF nums(7-10)] by simp_all
      have val: "arith_div sf s = (if nb = 0 then foldM (\<lambda>idx xval. vec4_set_bit xval idx BIT4_X) [0..<?w] (vec4_new ?w BIT4_X)
          else word_to_vec4 ?w (word_of_int (if p \<noteq> q then - (na div nb) else na div nb)))"
        using False nums(1,2) nums(3,4)[folded pq] word by (cases A; cases B; cases p; cases q) (simp_all add: arith_div_def)
      have "(if p \<noteq> q then - (na div nb) else na div nb) =
          (if sf then bits_snum (vec4_bits ?a) sdiv bits_snum (vec4_bits ?b) else bits_num (vec4_bits ?a) div bits_num (vec4_bits ?b))"
        unfolding pq nums(5,6) by (cases sf) (simp_all add: signed_by_magnitude(1)[symmetric])
      then show ?thesis
        using val x_fill[of ?w] word_to_vec4_bits[OF small] nums(11) known False by (simp add: div_result_def)
    next
      case True
      obtain a2 b2 D d where nums: "vec2_from_vec4 ?a True = Some a2" "vec2_from_vec4 ?b True = Some b2" "v2_size a2 = ?w" "v2_size b2 = ?w"
        "take_sign2 sf a2 = Some (D, sf \<and> bits_snum (vec4_bits ?a) < 0)" "take_sign2 sf b2 = Some (d, sf \<and> bits_snum (vec4_bits ?b) < 0)"
        "vec2_clean D" "vec2_clean d" "v2_size D = ?w" "v2_size d = ?w"
        "int (vec2_num D) = (if sf then \<bar>bits_snum (vec4_bits ?a)\<bar> else bits_num (vec4_bits ?a))"
        "int (vec2_num d) = (if sf then \<bar>bits_snum (vec4_bits ?b)\<bar> else bits_num (vec4_bits ?b))"
        "vec2_is_zero b2 \<longleftrightarrow> bits_num (vec4_bits ?b) = 0"
        using wide_division[OF ok assms(2) known, of sf] by blast
      show ?thesis
      proof (cases "bits_num (vec4_bits ?b) = 0")
        case zero: True
        then have "arith_div sf s = Some (x_val s)" using True nums assms(2) by (simp add: arith_div_def div_wide4_def)
        then show ?thesis using zero X by (simp add: div_result_def)
      next
        case nz: False
        have "vec2_num d \<noteq> 0" using nums(12) nz snum_bounds[of ?b] known ok assms(2) by (auto split: if_splits)
        then obtain Q R where Q: "div_mod D d = Some (Q, R)" "vec2_clean Q" "v2_size Q = ?w" "vec2_num Q = div_quot ?w (vec2_num D) (vec2_num d)"
          using div_mod_num[OF nums(7,8)] nums(9,10) assms(2) by auto
        define q where "q = int (div_quot ?w (vec2_num D) (vec2_num d))"
        have "sf \<Longrightarrow> int (vec2_num D) \<le> int (2 ^ (?w - 1))" using nums(11) snum_bounds[of ?a] known ok assms(2) by simp
        then have half: "sf \<Longrightarrow> \<not> 2 ^ (?w - 1) < vec2_num D" by (simp only: of_nat_le_iff not_less)
        have q: "q = (if sf then \<bar>bits_snum (vec4_bits ?a)\<bar> div \<bar>bits_snum (vec4_bits ?b)\<bar>
            else if bits_num (vec4_bits ?b) = 1 \<and> 2 ^ (?w - 1) < bits_num (vec4_bits ?a) then 0
            else bits_num (vec4_bits ?a) div bits_num (vec4_bits ?b))"
        proof (cases sf)
          case True
          then show ?thesis using half nums(11,12) by (simp add: q_def div_quot_def zdiv_int)
        next
          case False
          then have "vec2_num d = 1 \<longleftrightarrow> bits_num (vec4_bits ?b) = 1" "2 ^ (?w - 1) < vec2_num D \<longleftrightarrow> 2 ^ (?w - 1) < bits_num (vec4_bits ?a)"
            using nums(11,12) by (auto simp flip: of_nat_less_iff[where 'a = int] of_nat_eq_iff[where 'a = int])
          then show ?thesis using False nums(11,12) by (simp add: q_def div_quot_def zdiv_int)
        qed
        define n1 n2 where n: "n1 \<longleftrightarrow> sf \<and> bits_snum (vec4_bits ?a) < 0" "n2 \<longleftrightarrow> sf \<and> bits_snum (vec4_bits ?b) < 0"
        obtain r' r where r: "(if n1 \<noteq> n2 then vec2_neg Q else Some Q) = Some r'" "vector2_to_vector4 r' ?w = Some r" "vec4_wf r"
          "vec4_bits r = num_bits ?w (if n1 \<noteq> n2 then - q else q)"
          using wide_answer[OF Q(2,3), of q "n1 \<noteq> n2"] Q(4) by (auto simp: q_def)
        have "arith_div sf s = Some r"
          using True nums(1-4,13) nums(5,6)[folded n] nz assms(2) Q(1) r(1,2)
          by (cases n1; cases n2) (simp_all add: arith_div_def div_wide4_def vec2_is_NaN_def vec2_div_def)
        moreover have "num_bits ?w (if n1 \<noteq> n2 then - q else q) = div_result sf ?w (vec4_bits ?a) (vec4_bits ?b)"
          using q known nz True by (cases sf) (simp_all add: div_result_def n signed_by_magnitude(1)[symmetric])
        ultimately show ?thesis using r(3,4) by simp
      qed
    qed
  qed
qed

lemma arith_mod_bits:
  assumes "arith_ok s" "0 < ar_wid s"
  shows "\<exists>r. arith_mod sf s = Some r \<and> vec4_wf r \<and> vec4_bits r = mod_result sf (ar_wid s) (vec4_bits (op_a s)) (vec4_bits (op_b s))"
proof -
  let ?w = "ar_wid s" and ?a = "op_a s" and ?b = "op_b s"
  have ok: "vec4_wf ?a" "vec4_wf ?b" "vec_size ?a = ?w" "vec_size ?b = ?w" using assms by (auto simp: arith_ok_def)
  note X = arith_ok_x[OF assms(1)]
  show ?thesis
  proof (cases "list_ex bit4_is_xz (vec4_bits ?a @ vec4_bits ?b)")
    case True
    have "arith_mod sf s = Some (x_val s)"
    proof (cases "64 < ?w")
      case wide: True
      then show ?thesis
        using True vec2_of_vec4[OF ok(1)] vec2_of_vec4[OF ok(2)] ok
        by (auto simp: arith_mod_def mod_wide_def vec2_is_NaN_def vec2_null_def split: if_splits)
    qed (use True in \<open>auto simp: arith_mod_def vec4_to_value_ov_result split: option.splits\<close>)
    then show ?thesis using True X by (simp add: mod_result_def)
  next
    case known: False
    show ?thesis
    proof (cases "64 < ?w")
      case False
      then have small: "?w \<le> 64" by simp
      obtain A B na nb where nums: "vec4_to_value_ov ?a = Some A" "vec4_to_value_ov ?b = Some B"
        "take_sign sf ?a (snd A) = (word_of_int na, sf \<and> bits_snum (vec4_bits ?a) < 0)"
        "take_sign sf ?b (snd B) = (word_of_int nb, sf \<and> bits_snum (vec4_bits ?b) < 0)"
        "na = (if sf then \<bar>bits_snum (vec4_bits ?a)\<bar> else bits_num (vec4_bits ?a))"
        "nb = (if sf then \<bar>bits_snum (vec4_bits ?b)\<bar> else bits_num (vec4_bits ?b))"
        "0 \<le> na" "na < 2 ^ 64" "0 \<le> nb" "nb < 2 ^ 64" "nb = 0 \<longleftrightarrow> bits_num (vec4_bits ?b) = 0"
        using narrow_division[OF ok assms(2) small known] by blast
      define p q where pq: "p \<longleftrightarrow> sf \<and> bits_snum (vec4_bits ?a) < 0" "q \<longleftrightarrow> sf \<and> bits_snum (vec4_bits ?b) < 0"
      have word: "(word_of_int na mod word_of_int nb :: u64) = word_of_int (na mod nb)" "(word_of_int nb :: u64) = 0 \<longleftrightarrow> nb = 0"
        using word_of_int_div_mod[OF nums(7-10)] by simp_all
      have val: "arith_mod sf s = (if nb = 0 then foldM (\<lambda>idx xval. vec4_set_bit xval idx BIT4_X) [0..<?w] (vec4_new ?w BIT4_X)
          else word_to_vec4 ?w (word_of_int (if p then - (na mod nb) else na mod nb)))"
        using False nums(1,2) nums(3,4)[folded pq] word by (cases A; cases B; cases p; cases q) (simp_all add: arith_mod_def)
      have "(if p then - (na mod nb) else na mod nb) =
          (if sf then bits_snum (vec4_bits ?a) smod bits_snum (vec4_bits ?b) else bits_num (vec4_bits ?a) mod bits_num (vec4_bits ?b))"
        unfolding pq nums(5,6) by (cases sf) (simp_all add: signed_by_magnitude(2)[symmetric])
      then show ?thesis
        using val x_fill[of ?w] word_to_vec4_bits[OF small] nums(11) known False by (simp add: mod_result_def)
    next
      case True
      obtain a2 b2 D d where nums: "vec2_from_vec4 ?a True = Some a2" "vec2_from_vec4 ?b True = Some b2" "v2_size a2 = ?w" "v2_size b2 = ?w"
        "take_sign2 sf a2 = Some (D, sf \<and> bits_snum (vec4_bits ?a) < 0)" "take_sign2 sf b2 = Some (d, sf \<and> bits_snum (vec4_bits ?b) < 0)"
        "vec2_clean D" "vec2_clean d" "v2_size D = ?w" "v2_size d = ?w"
        "int (vec2_num D) = (if sf then \<bar>bits_snum (vec4_bits ?a)\<bar> else bits_num (vec4_bits ?a))"
        "int (vec2_num d) = (if sf then \<bar>bits_snum (vec4_bits ?b)\<bar> else bits_num (vec4_bits ?b))"
        "vec2_is_zero b2 \<longleftrightarrow> bits_num (vec4_bits ?b) = 0"
        using wide_division[OF ok assms(2) known, of sf] by blast
      show ?thesis
      proof (cases "bits_num (vec4_bits ?b) = 0")
        case zero: True
        then have "arith_mod sf s = Some (x_val s)" using True nums assms(2) by (simp add: arith_mod_def mod_wide_def)
        then show ?thesis using zero X by (simp add: mod_result_def)
      next
        case nz: False
        have "vec2_num d \<noteq> 0" using nums(12) nz snum_bounds[of ?b] known ok assms(2) by (auto split: if_splits)
        then obtain Q R where Q: "div_mod D d = Some (Q, R)" "vec2_clean R" "v2_size R = ?w" "vec2_num R = vec2_num D mod vec2_num d"
          using div_mod_num[OF nums(7,8)] nums(9,10) assms(2) by auto
        define q where "q = int (vec2_num D mod vec2_num d)"
        have q: "q = (if sf then \<bar>bits_snum (vec4_bits ?a)\<bar> mod \<bar>bits_snum (vec4_bits ?b)\<bar>
            else bits_num (vec4_bits ?a) mod bits_num (vec4_bits ?b))"
          using nums(11,12) by (simp add: q_def zmod_int)
        define n1 n2 where n: "n1 \<longleftrightarrow> sf \<and> bits_snum (vec4_bits ?a) < 0" "n2 \<longleftrightarrow> sf \<and> bits_snum (vec4_bits ?b) < 0"
        obtain r' r where r: "(if n1 then vec2_neg R else Some R) = Some r'" "vector2_to_vector4 r' (v2_size r') = Some r" "vec4_wf r"
          "vec4_bits r = num_bits ?w (if n1 then - q else q)"
          using wide_answer[OF Q(2,3), of q n1] Q(4) by (auto simp: q_def)
        have "arith_mod sf s = Some r"
          using True nums(1-4,13) nums(5,6)[folded n] nz assms(2) Q(1) r(1,2)
          by (cases n1; cases n2) (simp_all add: arith_mod_def mod_wide_def vec2_is_NaN_def vec2_mod_def)
        moreover have "num_bits ?w (if n1 then - q else q) = mod_result sf ?w (vec4_bits ?a) (vec4_bits ?b)"
          using q known nz True by (cases sf) (simp_all add: mod_result_def n signed_by_magnitude(2)[symmetric])
        ultimately show ?thesis using r(3,4) by simp
      qed
    qed
  qed
qed

end
