(* ===== verification/Arith_Compare.thy ===== *)
theory Arith_Compare
  imports Arith_Results
begin

text \<open>
  Power, shifts and comparisons of \<open>Arith\<close>, and the results of all its functors as instances of the protocol
  \<open>arith_functor\<close>.
\<close>

section \<open>Power\<close>

definition pow_result :: "bool \<Rightarrow> nat \<Rightarrow> vvp_bit4_t list \<Rightarrow> vvp_bit4_t list \<Rightarrow> vvp_bit4_t list" where
  "pow_result sf w xs ys =
     (if list_ex bit4_is_xz (xs @ ys) then replicate w BIT4_X
      else if sf \<and> bits_snum ys < 0 then
        (if w \<le> 32 \<and> bits_snum xs = 0 then replicate w BIT4_X
         else num_bits w (if w \<le> 32 \<and> bits_snum xs = 1 then 1
                          else if w \<le> 32 \<and> bits_snum xs = - 1 then (if odd (bits_num ys) then - 1 else 1) else 0))
      else num_bits w (bits_num xs ^ nat (bits_num ys)))"

lemma small_real_bits:
  assumes "0 < w"
  shows "\<exists>r. vec4_of_double w 0 = Some r \<and> vec4_wf r \<and> vec4_bits r = num_bits w 0"
    "\<exists>r. vec4_of_double w 0x3FF0000000000000 = Some r \<and> vec4_wf r \<and> vec4_bits r = num_bits w 1"
    "\<exists>r. vec4_of_double w 0xBFF0000000000000 = Some r \<and> vec4_wf r \<and> vec4_bits r = num_bits w (- 1)"
proof -
  note eval = double_neg_def double_finite_def double_mant_def double_scale_def double_exponent_def shr_def bit_iff_odd drop_bit_eq_div
  have zero: "double_finite 0" "double_mant 0 = 0" "double_round 0 = 0" by (simp_all add: eval double_round_lround lround_def)
  show "\<exists>r. vec4_of_double w 0 = Some r \<and> vec4_wf r \<and> vec4_bits r = num_bits w 0"
    using vec4_of_double_num[OF assms, of 0] zero by auto
  have one: "double_finite 0x3FF0000000000000" "\<not> double_neg 0x3FF0000000000000" "double_round 0x3FF0000000000000 = 1"
    by (simp_all add: eval double_round_lround lround_def)
  show "\<exists>r. vec4_of_double w 0x3FF0000000000000 = Some r \<and> vec4_wf r \<and> vec4_bits r = num_bits w 1"
    using vec4_of_double_num[OF assms, of "0x3FF0000000000000"] one by auto
  have "double_finite 0xBFF0000000000000" "double_round 0xBFF0000000000000 = - 1"
    by (simp_all add: eval double_round_lround lround_def)
  then show "\<exists>r. vec4_of_double w 0xBFF0000000000000 = Some r \<and> vec4_wf r \<and> vec4_bits r = num_bits w (- 1)"
    using vec4_of_double_num[OF assms, of "0xBFF0000000000000"] by auto
qed

lemma word32_of_small:
  assumes "\<bar>k\<bar> \<le> 2 ^ 31" "\<bar>l\<bar> \<le> 1"
  shows "(word_of_int k :: 32 word) = word_of_int l \<longleftrightarrow> k = l"
proof
  assume eq: "(word_of_int k :: 32 word) = word_of_int l"
  have "k mod 2 ^ 32 = l mod 2 ^ 32" using arg_cong[OF eq, of uint] by (simp add: uint_word_of_int take_bit_eq_mod)
  then have "2 ^ 32 dvd k - l" by (rule mod_eq_dvd_iff[THEN iffD1])
  then obtain z where z: "k - l = 2 ^ 32 * z" by (rule dvdE)
  have "\<bar>2 ^ 32 * z\<bar> < 2 ^ 32" unfolding z[symmetric] using assms by simp
  then have "z = 0" by (simp add: abs_mult)
  then show "k = l" using z by simp
qed simp

lemma arith_pow_bits:
  assumes "arith_ok s" "0 < ar_wid s"
  shows "\<exists>r. arith_pow sf s = Some r \<and> vec4_wf r \<and> vec4_bits r = pow_result sf (ar_wid s) (vec4_bits (op_a s)) (vec4_bits (op_b s))"
proof -
  let ?w = "ar_wid s" and ?x = "bits_num (vec4_bits (op_a s))" and ?y = "bits_num (vec4_bits (op_b s))"
  let ?sx = "bits_snum (vec4_bits (op_a s))" and ?sy = "bits_snum (vec4_bits (op_b s))"
  have ok: "vec4_wf (op_a s)" "vec4_wf (op_b s)" "vec_size (op_a s) = ?w" "vec_size (op_b s) = ?w" using assms by (auto simp: arith_ok_def)
  have pos: "0 < vec_size (op_a s)" "0 < vec_size (op_b s)" using ok assms(2) by simp_all
  note a = vec2_of_vec4[OF ok(1) pos(1)] and b = vec2_of_vec4[OF ok(2) pos(2)]
  show ?thesis
  proof (cases "list_ex bit4_is_xz (vec4_bits (op_a s) @ vec4_bits (op_b s))")
    case True
    have "\<exists>a2 b2. vec2_from_vec4 (op_a s) True = Some a2 \<and> vec2_from_vec4 (op_b s) True = Some b2 \<and> (vec2_is_NaN a2 \<or> vec2_is_NaN b2)"
      using a b True by (auto simp: vec2_is_NaN_def vec2_null_def split: if_splits)
    then have "arith_pow sf s = Some (x_val s)" by (auto simp: arith_pow_def)
    then show ?thesis using arith_ok_x[OF assms(1)] True by (simp add: pow_result_def)
  next
    case False
    then have known: "\<not> list_ex bit4_is_xz (vec4_bits (op_a s))" "\<not> list_ex bit4_is_xz (vec4_bits (op_b s))" by simp_all
    obtain a2 b2 where u: "vec2_from_vec4 (op_a s) True = Some a2" "vec2_clean a2" "v2_size a2 = ?w" "int (vec2_num a2) = ?x"
      "vec2_from_vec4 (op_b s) True = Some b2" "vec2_clean b2" "v2_size b2 = ?w" "int (vec2_num b2) = ?y"
      using a b known ok by auto
    have okb: "vec2_ok b2" "vec2_ok a2" using u by (simp_all add: vec2_clean_def)
    have NaN: "\<not> vec2_is_NaN a2" "\<not> vec2_is_NaN b2" using u assms(2) by (simp_all add: vec2_is_NaN_def)
    have bit: "vec2_value b2 i = of_bool (i < ?w \<and> bit ?y i)" for i
      using vec2_value_bit[OF okb(1), of i] u(7) by (simp add: bit_of_nat_iff_bit flip: u(8))
    have "vec2_value b2 (v2_size b2 - 1) \<noteq> 0 \<longleftrightarrow> vec4_value (op_b s) (?w - 1) = BIT4_1"
      using bit[of "?w - 1"] u(7) assms(2) ok(4) bit_bits_num[of "vec4_bits (op_b s)" "?w - 1"] by simp
    then have top: "vec2_value b2 (v2_size b2 - 1) \<noteq> 0 \<longleftrightarrow> ?sy < 0"
      using snum_top[OF known(2) pos(2)] num_range[of "op_b s"] ok(4) by (auto split: if_splits)
    have low: "vec2_value b2 0 \<noteq> 0 \<longleftrightarrow> odd ?y" using bit[of 0] assms(2) by (simp add: bit_0)
    show ?thesis
    proof (cases "sf \<and> ?sy < 0")
      case neg: False
      obtain r y where r: "vec2_pow a2 b2 = Some (r, y)" "v2_size r = ?w" "vec2_ok r" "vec2_num r = vec2_num a2 ^ vec2_num b2 mod 2 ^ (64 * word_count ?w)"
        using vec2_pow_num[OF okb(2) _ u(6)] u(3) assms(2) by auto
      obtain q where q: "vector2_to_vector4 r ?w = Some q" "vec4_wf q" "vec4_bits q = num_bits ?w (int (vec2_num r))"
        using vec4_of_vec2[OF r(3), of ?w] r(2) by auto
      have "int (vec2_num r) = ?x ^ nat ?y mod 2 ^ (64 * word_count ?w)" using r(4) by (simp add: zmod_int flip: u(4,8))
      then have "vec4_bits q = num_bits ?w (?x ^ nat ?y)" using q(3) num_bits_mod_more[OF word_count_bound] by simp
      moreover have "arith_pow sf s = Some q" using u(1,5) NaN neg top r(1) q(1) by (cases sf) (simp_all add: arith_pow_def)
      ultimately show ?thesis using q(2) False neg by (cases sf) (simp_all add: pow_result_def)
    next
      case neg: True
      obtain fits a_val where v: "vector2_to_value a2 True = (fits, a_val)" by (meson surj_pair)
      have "signed_take_bit (?w - 1) (int (vec2_num a2)) = ?sx" using u(4) ok(3) by (simp add: bits_snum_def)
      then have val: "fits \<longleftrightarrow> ?w \<le> 32" "?w \<le> 32 \<Longrightarrow> a_val = word_of_int ?sx"
        using vector2_to_value_signed[OF u(2)] u(3) assms(2) v by auto
      have small: "?w \<le> 32 \<Longrightarrow> (a_val = 0 \<longleftrightarrow> ?sx = 0) \<and> (a_val = 1 \<longleftrightarrow> ?sx = 1) \<and> (a_val = - 1 \<longleftrightarrow> ?sx = - 1)"
      proof -
        assume w: "?w \<le> 32"
        have "\<bar>?sx\<bar> \<le> 2 ^ (?w - 1)" using snum_bounds[OF known(1) pos(1)] ok(3) by simp
        also have "(2 :: int) ^ (?w - 1) \<le> 2 ^ 31" using w by (intro power_increasing) simp_all
        finally have "\<bar>?sx\<bar> \<le> 2 ^ 31" .
        from word32_of_small[OF this, of 0] word32_of_small[OF this, of 1] word32_of_small[OF this, of "- 1"]
        show ?thesis using val(2)[OF w] by simp
      qed
      have run: "arith_pow sf s = (if fits \<and> a_val = 0 then Some (x_val s)
          else vec4_of_double ?w (if fits \<and> a_val = - 1 then (if odd ?y then 0xBFF0000000000000 else 0x3FF0000000000000)
                                  else if fits \<and> a_val = 1 then 0x3FF0000000000000 else 0))"
        using u(1,5) NaN neg top v low by (simp add: arith_pow_def)
      show ?thesis
        using run small val(1) small_real_bits[OF assms(2)] arith_ok_x[OF assms(1)] neg False
        by (cases "?w \<le> 32"; cases "?sx = 0"; cases "?sx = 1"; cases "?sx = - 1"; cases "odd ?y") (simp_all add: pow_result_def)
    qed
  qed
qed

section \<open>Shifts\<close>

definition shiftl_result :: "nat \<Rightarrow> vvp_bit4_t list \<Rightarrow> vvp_bit4_t list \<Rightarrow> vvp_bit4_t list" where
  "shiftl_result w xs ys =
     (if list_ex bit4_is_xz ys then replicate w BIT4_X
      else let n = nat (min (int w) (bits_num ys)) in replicate n BIT4_0 @ take (w - n) xs)"

definition shiftr_result :: "bool \<Rightarrow> nat \<Rightarrow> vvp_bit4_t list \<Rightarrow> vvp_bit4_t list \<Rightarrow> vvp_bit4_t list" where
  "shiftr_result sf w xs ys =
     (if list_ex bit4_is_xz ys then replicate w BIT4_X
      else let n = nat (min (int w) (bits_num ys)) in drop n xs @ replicate n (if sf then last xs else BIT4_0))"

lemma shift_amount:
  assumes "\<not> list_ex bit4_is_xz (vec4_bits v)" "n < 2 ^ 32"
  shows "\<exists>ov k. vec4_to_value_ov v = Some (ov, k) \<and> (if ov \<or> unat k > n then n else unat k) = nat (min (int n) (bits_num (vec4_bits v)))"
proof -
  let ?y = "bits_num (vec4_bits v)"
  have y: "0 \<le> ?y" using bits_num_bounds by blast
  have code: "vec4_to_value_ov v = Some (2 ^ 64 \<le> ?y, word_of_int ?y)" using assms(1) by (simp add: vec4_to_value_ov_result)
  have "(if 2 ^ 64 \<le> ?y \<or> unat (word_of_int ?y :: u64) > n then n else unat (word_of_int ?y :: u64)) = nat (min (int n) ?y)"
  proof (cases "2 ^ 64 \<le> ?y")
    case True
    then have "int n \<le> ?y" using of_nat_less_iff[of n "2 ^ 32", where 'a = int] assms(2) by simp
    then show ?thesis using True by simp
  next
    case False
    then have "unat (word_of_int ?y :: u64) = nat ?y"
      using y by (simp add: unat_eq_nat_uint uint_word_of_int take_bit_int_eq_self)
    then show ?thesis using False y by (simp add: min_def zless_nat_eq_int_zless)
  qed
  then show ?thesis using code by blast
qed

text \<open>Two loops that fill a vector from the bottom and from the top.\<close>

lemma fill_two:
  assumes "k \<le> n"
  shows "\<exists>r. Option.bind (foldM (\<lambda>idx out. vec4_set_bit out idx (f idx)) [0..<k] (vec4_new n BIT4_X))
      (foldM (\<lambda>idx out. vec4_set_bit out idx (g idx)) [k..<n]) = Some r \<and> vec4_wf r \<and>
    vec4_bits r = map f [0..<k] @ map g [k..<n]"
proof -
  let ?h = "\<lambda>i. if i < k then f i else g i"
  have "foldM (\<lambda>i r. vec4_set_bit r i (?h i)) [0..<n] v =
      Option.bind (foldM (\<lambda>idx out. vec4_set_bit out idx (f idx)) [0..<k] v) (foldM (\<lambda>idx out. vec4_set_bit out idx (g idx)) [k..<n])" for v
  proof -
    have split: "[0..<n] = [0..<k] @ [k..<n]" using assms by (metis le0 le_add_diff_inverse upt_add_eq_append)
    have "foldM (\<lambda>i r. vec4_set_bit r i (?h i)) [0..<k] v = foldM (\<lambda>idx out. vec4_set_bit out idx (f idx)) [0..<k] v" for v
      by (rule foldM_cong) simp_all
    moreover have "foldM (\<lambda>i r. vec4_set_bit r i (?h i)) [k..<n] u = foldM (\<lambda>idx out. vec4_set_bit out idx (g idx)) [k..<n] u" for u
      by (rule foldM_cong) simp_all
    ultimately show ?thesis unfolding split foldM_append by (cases "foldM (\<lambda>idx out. vec4_set_bit out idx (f idx)) [0..<k] v") simp_all
  qed
  moreover obtain r where "foldM (\<lambda>i r. vec4_set_bit r i (?h i)) [0..<n] (vec4_new n BIT4_X) = Some r" "vec4_wf r" "vec4_bits r = map ?h [0..<n]"
    using vec4_fill_loop[of "vec4_new n BIT4_X" n ?h] by (auto simp: vec4_new_wf)
  moreover have "map ?h [0..<n] = map f [0..<k] @ map g [k..<n]" using assms by (auto simp: list_eq_iff_nth_eq nth_append)
  ultimately show ?thesis by auto
qed

lemma arith_shiftl_bits:
  assumes "arith_ok s"
  shows "\<exists>r. arith_shiftl s = Some r \<and> vec4_wf r \<and> vec4_bits r = shiftl_result (ar_wid s) (vec4_bits (op_a s)) (vec4_bits (op_b s))"
proof (cases "list_ex bit4_is_xz (vec4_bits (op_b s))")
  case True
  then show ?thesis using arith_ok_x[OF assms] by (simp add: arith_shiftl_def shiftl_result_def vec4_to_value_ov_result Let_def)
next
  case False
  let ?n = "vec_size (op_a s)"
  have sz: "?n = ar_wid s" "ar_wid s < 2 ^ 32" using assms by (simp_all add: arith_ok_def)
  define k where "k = nat (min (int ?n) (bits_num (vec4_bits (op_b s))))"
  obtain ov w where v: "vec4_to_value_ov (op_b s) = Some (ov, w)" "(if ov \<or> unat w > ?n then ?n else unat w) = k"
    using shift_amount[OF False, of ?n] sz by (auto simp: k_def)
  have "k \<le> ?n" by (simp add: k_def)
  moreover have "map (\<lambda>idx. BIT4_0) [0..<k] @ map (\<lambda>idx. vec4_value (op_a s) (idx - k)) [k..<?n] =
      replicate k BIT4_0 @ take (?n - k) (vec4_bits (op_a s))"
    using calculation by (intro nth_equalityI) (auto simp: nth_append nth_upt not_less)
  ultimately show ?thesis
    using fill_two[of k ?n "\<lambda>_. BIT4_0" "\<lambda>idx. vec4_value (op_a s) (idx - k)"] False sz(1)
    unfolding arith_shiftl_def Let_def v(1) option.case prod.case v(2) by (auto simp: shiftl_result_def Let_def k_def[unfolded sz(1), symmetric])
qed

lemma arith_shiftr_bits:
  assumes "arith_ok s" "0 < ar_wid s"
  shows "\<exists>r. arith_shiftr sf s = Some r \<and> vec4_wf r \<and> vec4_bits r = shiftr_result sf (ar_wid s) (vec4_bits (op_a s)) (vec4_bits (op_b s))"
proof (cases "list_ex bit4_is_xz (vec4_bits (op_b s))")
  case True
  then show ?thesis using arith_ok_x[OF assms(1)] by (simp add: arith_shiftr_def shiftr_result_def vec4_to_value_ov_result Let_def)
next
  case False
  let ?n = "vec_size (op_a s)"
  have sz: "?n = ar_wid s" "ar_wid s < 2 ^ 32" using assms by (simp_all add: arith_ok_def)
  define k where "k = nat (min (int ?n) (bits_num (vec4_bits (op_b s))))"
  obtain ov w where v: "vec4_to_value_ov (op_b s) = Some (ov, w)" "(if ov \<or> unat w > ?n then ?n else unat w) = k"
    using shift_amount[OF False, of ?n] sz by (auto simp: k_def)
  have k: "k \<le> ?n" by (simp add: k_def)
  define pad where "pad = (if sf then last (vec4_bits (op_a s)) else BIT4_0)"
  have pad: "(if sf \<and> ?n > 0 then vec4_value (op_a s) (?n - 1) else BIT4_0) = pad"
  proof -
    have "last (vec4_bits (op_a s)) = vec4_value (op_a s) (?n - 1)"
      using assms(2) sz(1) last_conv_nth[of "vec4_bits (op_a s)"] by (cases "vec4_bits (op_a s) = []") (auto dest: arg_cong[of _ _ length])
    then show ?thesis using assms(2) sz(1) by (simp add: pad_def)
  qed
  have "[k..<?n] = map (\<lambda>i. i + k) [0..<?n - k]" "[0..<k] = map (\<lambda>i. i - (?n - k)) [?n - k..<?n]"
    using k by (simp_all add: list_eq_iff_nth_eq)
  then have loops: "Option.bind (foldM (\<lambda>idx out. vec4_set_bit out (idx - k) (vec4_value (op_a s) idx)) [k..<?n] (vec4_new ?n BIT4_X))
        (foldM (\<lambda>idx out. vec4_set_bit out (idx + ?n - k) pad) [0..<k]) =
      Option.bind (foldM (\<lambda>idx out. vec4_set_bit out idx (vec4_value (op_a s) (idx + k))) [0..<?n - k] (vec4_new ?n BIT4_X))
        (foldM (\<lambda>idx out. vec4_set_bit out idx pad) [?n - k..<?n])"
  proof -
    have "foldM (\<lambda>idx out. vec4_set_bit out (idx - (?n - k) + ?n - k) pad) [?n - k..<?n] u = foldM (\<lambda>idx out. vec4_set_bit out idx pad) [?n - k..<?n] u" for u
    proof (rule foldM_cong)
      fix x v assume "x \<in> set [?n - k..<?n]"
      then have "?n - k \<le> x" by simp
      then have "x - (?n - k) + ?n - k = x" using k by linarith
      then show "vec4_set_bit v (x - (?n - k) + ?n - k) pad = vec4_set_bit v x pad" by (simp only:)
    qed
    then show ?thesis
      unfolding \<open>[k..<?n] = _\<close> \<open>[0..<k] = _\<close> foldM_map by (intro arg_cong2[where f = Option.bind] ext) simp_all
  qed
  have bits: "map (\<lambda>idx. vec4_value (op_a s) (idx + k)) [0..<?n - k] @ map (\<lambda>idx. pad) [?n - k..<?n] = drop k (vec4_bits (op_a s)) @ replicate k pad"
    using k by (simp add: list_eq_iff_nth_eq nth_append add.commute)
  have "arith_shiftr sf s = Option.bind (foldM (\<lambda>idx out. vec4_set_bit out idx (vec4_value (op_a s) (idx + k))) [0..<?n - k] (vec4_new ?n BIT4_X))
        (foldM (\<lambda>idx out. vec4_set_bit out idx pad) [?n - k..<?n])"
    unfolding arith_shiftr_def Let_def v(1) option.case prod.case v(2) pad by (rule loops)
  then show ?thesis
    using fill_two[of "?n - k" ?n "\<lambda>idx. vec4_value (op_a s) (idx + k)" "\<lambda>_. pad"] bits False sz(1)
    by (auto simp: shiftr_result_def Let_def k_def[unfolded sz(1), symmetric] pad_def)
qed

section \<open>Comparisons\<close>

text \<open>Some pair of bits at one position is related by \<open>P\<close>.\<close>

definition some_pair :: "('a \<Rightarrow> 'a \<Rightarrow> bool) \<Rightarrow> 'a list \<Rightarrow> 'a list \<Rightarrow> bool" where
  "some_pair P xs ys \<longleftrightarrow> list_ex (\<lambda>(a, b). P a b) (zip xs ys)"

lemma some_pair_Nil [simp]: "some_pair P [] ys = False" "some_pair P xs [] = False"
  by (simp_all add: some_pair_def)

lemma some_pair_Cons [simp]: "some_pair P (x # xs) (y # ys) = (P x y \<or> some_pair P xs ys)"
  by (simp add: some_pair_def)

lemma some_pair_neq: "length xs = length ys \<Longrightarrow> some_pair (\<lambda>a b. a \<noteq> b) xs ys = (xs \<noteq> ys)"
  by (induction xs ys rule: list_induct2) auto

lemma some_pair_or: "length xs = length ys \<Longrightarrow> some_pair (\<lambda>a b. P a \<or> P b) xs ys = (list_ex P xs \<or> list_ex P ys)"
  by (induction xs ys rule: list_induct2) auto

lemma some_pair_False: "some_pair (\<lambda>a b. False) xs ys = False"
  by (auto simp: some_pair_def list_ex_iff)

lemma cmp_loop_result:
  "cmp_loop body found ps res =
     (if list_ex (\<lambda>(a, b). body a b = CmpDiffer) ps then found
      else if list_ex (\<lambda>(a, b). body a b = CmpUnknown) ps then BIT4_X else res)"
  by (induction ps arbitrary: res) (auto split: cmp_case.splits prod.splits)

lemma one_bit: "\<exists>r. vec4_set_bit (vec4_new 1 BIT4_X) 0 b = Some r \<and> vec4_wf r \<and> vec4_bits r = [b]"
  using vec4.set_in_range[of "vec4_new 1 BIT4_X" 0 b] by (auto simp: vec4_new_wf vec4_bits_def)

lemma cmp_functor_bits:
  assumes "arith_ok s" "\<And>a b. (body a b = CmpDiffer) = D a b" "\<And>a b. (body a b = CmpUnknown) = U a b"
  shows "\<exists>r. cmp_functor body same found s = Some r \<and> vec4_wf r \<and> vec4_bits r =
    [if some_pair D (vec4_bits (op_a s)) (vec4_bits (op_b s)) then found
     else if some_pair U (vec4_bits (op_a s)) (vec4_bits (op_b s)) then BIT4_X else same]"
proof -
  have sz: "vec_size (op_a s) = vec_size (op_b s)" using assms by (simp add: arith_ok_def)
  have zip: "map (\<lambda>idx. (vec4_value (op_a s) idx, vec4_value (op_b s) idx)) [0..<vec_size (op_a s)] = zip (vec4_bits (op_a s)) (vec4_bits (op_b s))"
    using sz by (simp add: list_eq_iff_nth_eq)
  show ?thesis unfolding cmp_functor_def zip cmp_loop_result assms(2,3) some_pair_def using sz one_bit by simp
qed

definition eeq_result :: "vvp_bit4_t \<Rightarrow> vvp_bit4_t \<Rightarrow> nat \<Rightarrow> vvp_bit4_t list \<Rightarrow> vvp_bit4_t list \<Rightarrow> vvp_bit4_t list" where
  "eeq_result same found w xs ys = [if xs = ys then same else found]"

definition eq_result :: "vvp_bit4_t \<Rightarrow> vvp_bit4_t \<Rightarrow> nat \<Rightarrow> vvp_bit4_t list \<Rightarrow> vvp_bit4_t list \<Rightarrow> vvp_bit4_t list" where
  "eq_result same found w xs ys =
     [if some_pair (\<lambda>a b. \<not> bit4_is_xz a \<and> \<not> bit4_is_xz b \<and> a \<noteq> b) xs ys then found
      else if list_ex bit4_is_xz xs \<or> list_ex bit4_is_xz ys then BIT4_X else same]"

definition weq_result :: "vvp_bit4_t \<Rightarrow> vvp_bit4_t \<Rightarrow> nat \<Rightarrow> vvp_bit4_t list \<Rightarrow> vvp_bit4_t list \<Rightarrow> vvp_bit4_t list" where
  "weq_result same found w xs ys =
     [if some_pair (\<lambda>a b. \<not> bit4_is_xz a \<and> \<not> bit4_is_xz b \<and> a \<noteq> b) xs ys then found
      else if some_pair (\<lambda>a b. bit4_is_xz a \<and> \<not> bit4_is_xz b) xs ys then BIT4_X else same]"

definition wild_result :: "(vvp_bit4_t \<Rightarrow> bool) \<Rightarrow> nat \<Rightarrow> vvp_bit4_t list \<Rightarrow> vvp_bit4_t list \<Rightarrow> vvp_bit4_t list" where
  "wild_result wild w xs ys = [if some_pair (\<lambda>a b. \<not> wild b \<and> a \<noteq> b) xs ys then BIT4_0 else BIT4_1]"

definition order_result :: "bool \<Rightarrow> vvp_bit4_t \<Rightarrow> nat \<Rightarrow> vvp_bit4_t list \<Rightarrow> vvp_bit4_t list \<Rightarrow> vvp_bit4_t list" where
  "order_result sf out w xs ys =
     [if list_ex bit4_is_xz (xs @ ys) then BIT4_X
      else if sf then gtge_result (bits_snum xs) (bits_snum ys) out else gtge_result (bits_num xs) (bits_num ys) out]"

lemma op_lengths: "arith_ok s \<Longrightarrow> length (vec4_bits (op_a s)) = length (vec4_bits (op_b s))"
  by (simp add: arith_ok_def)

lemma cmp_eeq_bits:
  assumes "arith_ok s"
  shows "\<exists>r. cmp_functor cmp_eeq_body same found s = Some r \<and> vec4_wf r \<and>
    vec4_bits r = eeq_result same found (ar_wid s) (vec4_bits (op_a s)) (vec4_bits (op_b s))"
proof -
  have "(cmp_eeq_body a b = CmpDiffer) = (a \<noteq> b)" "(cmp_eeq_body a b = CmpUnknown) = False" for a b
    by (simp_all add: cmp_eeq_body_def)
  from cmp_functor_bits[OF assms, of cmp_eeq_body, OF this, of same found]
  show ?thesis unfolding some_pair_neq[OF op_lengths[OF assms]] some_pair_False eeq_result_def by (simp split: if_splits)
qed

lemma cmp_eq_bits:
  assumes "arith_ok s"
  shows "\<exists>r. cmp_functor cmp_eq_body same found s = Some r \<and> vec4_wf r \<and>
    vec4_bits r = eq_result same found (ar_wid s) (vec4_bits (op_a s)) (vec4_bits (op_b s))"
proof -
  have "(cmp_eq_body a b = CmpDiffer) = (\<not> bit4_is_xz a \<and> \<not> bit4_is_xz b \<and> a \<noteq> b)"
    "(cmp_eq_body a b = CmpUnknown) = (bit4_is_xz a \<or> bit4_is_xz b)" for a b
    by (cases a; cases b; simp add: cmp_eq_body_def)+
  from cmp_functor_bits[OF assms, of cmp_eq_body, OF this]
  show ?thesis unfolding some_pair_or[OF op_lengths[OF assms]] eq_result_def .
qed

lemma cmp_weq_bits:
  assumes "arith_ok s"
  shows "\<exists>r. cmp_functor cmp_weq_body same found s = Some r \<and> vec4_wf r \<and>
    vec4_bits r = weq_result same found (ar_wid s) (vec4_bits (op_a s)) (vec4_bits (op_b s))"
proof -
  have "(cmp_weq_body a b = CmpDiffer) = (\<not> bit4_is_xz a \<and> \<not> bit4_is_xz b \<and> a \<noteq> b)"
    "(cmp_weq_body a b = CmpUnknown) = (bit4_is_xz a \<and> \<not> bit4_is_xz b)" for a b
    by (cases a; cases b; simp add: cmp_weq_body_def)+
  from cmp_functor_bits[OF assms, of cmp_weq_body, OF this]
  show ?thesis unfolding weq_result_def .
qed

lemma cmp_wild_bits:
  assumes "arith_ok s" "\<And>a b. body a b = (if \<not> wild b \<and> a \<noteq> b then CmpDiffer else CmpSame)"
  shows "\<exists>r. cmp_functor body BIT4_1 BIT4_0 s = Some r \<and> vec4_wf r \<and>
    vec4_bits r = wild_result wild (ar_wid s) (vec4_bits (op_a s)) (vec4_bits (op_b s))"
proof -
  have "(body a b = CmpDiffer) = (\<not> wild b \<and> a \<noteq> b)" "(body a b = CmpUnknown) = False" for a b
    by (simp_all add: assms(2))
  from cmp_functor_bits[OF assms(1), of body, OF this, of BIT4_1 BIT4_0]
  show ?thesis unfolding some_pair_False wild_result_def by (simp split: if_splits)
qed

lemma cmp_eqx_body_wild: "cmp_eqx_body a b = (if \<not> bit4_is_xz b \<and> a \<noteq> b then CmpDiffer else CmpSame)"
  by (cases a; cases b; simp add: cmp_eqx_body_def)

lemma cmp_gtge_bits:
  assumes "arith_ok s" "0 < ar_wid s"
  shows "\<exists>r. cmp_gtge_base sf out s = Some r \<and> vec4_wf r \<and>
    vec4_bits r = order_result sf out (ar_wid s) (vec4_bits (op_a s)) (vec4_bits (op_b s))"
  using assms one_bit by (simp add: cmp_gtge_base_def compare_gtge_signed_result compare_gtge_result order_result_def arith_ok_def)

section \<open>Every functor is an instance\<close>

interpretation sum_functor: arith_functor arith_sum "\<lambda>w. lift_int4 w (+)"
  by unfold_locales (rule arith_sum_bits)

interpretation sub_functor: arith_functor arith_sub "\<lambda>w. lift_int4 w (-)"
  by unfold_locales (rule arith_sub_bits)

interpretation mult_functor: arith_functor arith_mult "\<lambda>w. lift_int4 w (*)"
  by unfold_locales (rule arith_mult_bits)

interpretation div_functor: arith_functor "arith_div sf" "div_result sf" for sf
  by unfold_locales (rule arith_div_bits)

interpretation mod_functor: arith_functor "arith_mod sf" "mod_result sf" for sf
  by unfold_locales (rule arith_mod_bits)

interpretation pow_functor: arith_functor "arith_pow sf" "pow_result sf" for sf
  by unfold_locales (rule arith_pow_bits)

interpretation shiftl_functor: arith_functor arith_shiftl shiftl_result
  by unfold_locales (rule arith_shiftl_bits)

interpretation shiftr_functor: arith_functor "arith_shiftr sf" "shiftr_result sf" for sf
  by unfold_locales (rule arith_shiftr_bits)

interpretation eeq_functor: arith_functor cmp_eeq "eeq_result BIT4_1 BIT4_0"
  unfolding cmp_eeq_def by unfold_locales (rule cmp_eeq_bits)

interpretation nee_functor: arith_functor cmp_nee "eeq_result BIT4_0 BIT4_1"
  unfolding cmp_nee_def by unfold_locales (rule cmp_eeq_bits)

interpretation eq_functor: arith_functor cmp_eq "eq_result BIT4_1 BIT4_0"
  unfolding cmp_eq_def by unfold_locales (rule cmp_eq_bits)

interpretation ne_functor: arith_functor cmp_ne "eq_result BIT4_0 BIT4_1"
  unfolding cmp_ne_def by unfold_locales (rule cmp_eq_bits)

interpretation eqx_functor: arith_functor cmp_eqx "wild_result bit4_is_xz"
  unfolding cmp_eqx_def by unfold_locales (rule cmp_wild_bits, assumption, rule cmp_eqx_body_wild)

interpretation eqz_functor: arith_functor cmp_eqz "wild_result (\<lambda>b. b = BIT4_Z)"
  unfolding cmp_eqz_def by unfold_locales (rule cmp_wild_bits, assumption, auto simp: cmp_eqz_body_def)

interpretation weq_functor: arith_functor cmp_weq "weq_result BIT4_1 BIT4_0"
  unfolding cmp_weq_def by unfold_locales (rule cmp_weq_bits)

interpretation wne_functor: arith_functor cmp_wne "weq_result BIT4_0 BIT4_1"
  unfolding cmp_wne_def by unfold_locales (rule cmp_weq_bits)

interpretation ge_functor: arith_functor "cmp_ge sf" "order_result sf BIT4_1" for sf
  unfolding cmp_ge_def by unfold_locales (rule cmp_gtge_bits)

interpretation gt_functor: arith_functor "cmp_gt sf" "order_result sf BIT4_0" for sf
  unfolding cmp_gt_def by unfold_locales (rule cmp_gtge_bits)

section \<open>Properties\<close>

lemma arith_new_ok:
  assumes "w < 2 ^ 32"
  shows "\<exists>s. arith_new w = Some s \<and> arith_ok s \<and> ar_wid s = w \<and>
    vec4_bits (op_a s) = replicate w BIT4_Z \<and> vec4_bits (op_b s) = replicate w BIT4_Z"
proof -
  define P where "P = (\<lambda>i (s :: vvp_arith). ar_wid s = w \<and> vec4_wf (op_a s) \<and> vec4_wf (op_b s) \<and> vec4_wf (x_val s) \<and>
    vec_size (op_a s) = w \<and> vec_size (op_b s) = w \<and> vec_size (x_val s) = w \<and>
    (\<forall>j<i. vec4_value (op_a s) j = BIT4_Z \<and> vec4_value (op_b s) j = BIT4_Z \<and> vec4_value (x_val s) j = BIT4_X))"
  let ?step = "\<lambda>idx (s :: vvp_arith). case (vec4_set_bit (op_a s) idx BIT4_Z, vec4_set_bit (op_b s) idx BIT4_Z, vec4_set_bit (x_val s) idx BIT4_X) of
       (Some a, Some b, Some x) \<Rightarrow> Some (s\<lparr>op_a := a, op_b := b, x_val := x\<rparr>) | _ \<Rightarrow> None"
  have step: "\<exists>s'. ?step i s = Some s' \<and> P (Suc i) s'" if "i < w" "P i s" for i s
    using that vec4.set_in_range[of "op_a s" i BIT4_Z] vec4.set_in_range[of "op_b s" i BIT4_Z] vec4.set_in_range[of "x_val s" i BIT4_X]
    by (auto simp: P_def less_Suc_eq)
  have start: "P 0 \<lparr>ar_wid = w, op_a = vec4_new w BIT4_X, op_b = vec4_new w BIT4_X, x_val = vec4_new w BIT4_X\<rparr>"
    by (simp add: P_def vec4_new_wf)
  have "\<exists>s. arith_new w = Some s \<and> P w s"
    unfolding arith_new_def by (rule foldM_upt_inv[where P = P and n = w, OF start step])
  then obtain s where s: "arith_new w = Some s" "P w s" by blast
  then have "vec4_bits (op_a s) = replicate w BIT4_Z" "vec4_bits (op_b s) = replicate w BIT4_Z" "vec4_bits (x_val s) = replicate w BIT4_X"
    by (simp_all add: P_def list_eq_iff_nth_eq)
  then show ?thesis using s assms by (auto simp: P_def arith_ok_def)
qed

text \<open>The functors by name, with what they compute.\<close>

datatype arith_op =
    Op_sum | Op_sub | Op_mult | Op_div bool | Op_mod bool | Op_pow bool | Op_shiftl | Op_shiftr bool
  | Op_eeq | Op_nee | Op_eq | Op_ne | Op_eqx | Op_eqz | Op_weq | Op_wne | Op_ge bool | Op_gt bool

primrec op_calc :: "arith_op \<Rightarrow> vvp_arith \<Rightarrow> vvp_vector4_t option" where
  "op_calc Op_sum = arith_sum"
| "op_calc Op_sub = arith_sub"
| "op_calc Op_mult = arith_mult"
| "op_calc (Op_div sf) = arith_div sf"
| "op_calc (Op_mod sf) = arith_mod sf"
| "op_calc (Op_pow sf) = arith_pow sf"
| "op_calc Op_shiftl = arith_shiftl"
| "op_calc (Op_shiftr sf) = arith_shiftr sf"
| "op_calc Op_eeq = cmp_eeq"
| "op_calc Op_nee = cmp_nee"
| "op_calc Op_eq = cmp_eq"
| "op_calc Op_ne = cmp_ne"
| "op_calc Op_eqx = cmp_eqx"
| "op_calc Op_eqz = cmp_eqz"
| "op_calc Op_weq = cmp_weq"
| "op_calc Op_wne = cmp_wne"
| "op_calc (Op_ge sf) = cmp_ge sf"
| "op_calc (Op_gt sf) = cmp_gt sf"

primrec op_result :: "arith_op \<Rightarrow> nat \<Rightarrow> vvp_bit4_t list \<Rightarrow> vvp_bit4_t list \<Rightarrow> vvp_bit4_t list" where
  "op_result Op_sum = (\<lambda>w. lift_int4 w (+))"
| "op_result Op_sub = (\<lambda>w. lift_int4 w (-))"
| "op_result Op_mult = (\<lambda>w. lift_int4 w (*))"
| "op_result (Op_div sf) = div_result sf"
| "op_result (Op_mod sf) = mod_result sf"
| "op_result (Op_pow sf) = pow_result sf"
| "op_result Op_shiftl = shiftl_result"
| "op_result (Op_shiftr sf) = shiftr_result sf"
| "op_result Op_eeq = eeq_result BIT4_1 BIT4_0"
| "op_result Op_nee = eeq_result BIT4_0 BIT4_1"
| "op_result Op_eq = eq_result BIT4_1 BIT4_0"
| "op_result Op_ne = eq_result BIT4_0 BIT4_1"
| "op_result Op_eqx = wild_result bit4_is_xz"
| "op_result Op_eqz = wild_result (\<lambda>b. b = BIT4_Z)"
| "op_result Op_weq = weq_result BIT4_1 BIT4_0"
| "op_result Op_wne = weq_result BIT4_0 BIT4_1"
| "op_result (Op_ge sf) = order_result sf BIT4_1"
| "op_result (Op_gt sf) = order_result sf BIT4_0"

lemmas calc_results =
  sum_functor.calc_result sub_functor.calc_result mult_functor.calc_result div_functor.calc_result
  mod_functor.calc_result pow_functor.calc_result shiftl_functor.calc_result shiftr_functor.calc_result
  eeq_functor.calc_result nee_functor.calc_result eq_functor.calc_result ne_functor.calc_result
  eqx_functor.calc_result eqz_functor.calc_result weq_functor.calc_result wne_functor.calc_result
  ge_functor.calc_result gt_functor.calc_result

interpretation op_functor: arith_functor "op_calc f" "op_result f" for f
proof
  fix s assume ok: "arith_ok s" "0 < ar_wid s"
  show "\<exists>r. op_calc f s = Some r \<and> vec4_wf r \<and> vec4_bits r = op_result f (ar_wid s) (vec4_bits (op_a s)) (vec4_bits (op_b s))"
    by (cases f) (simp_all only: op_calc.simps op_result.simps calc_results[OF ok])
qed

text \<open>C6. Every arithmetic, shift or comparison functor answers every message: from its construction on, for any
  sequence of messages of its width (whole or in part, with or without strengths) to its two ports, the
  functor never aborts and sends one vector after each, whose bits are the result of the operation on the
  last operands received, all Z before the first (the comment of \<^verbatim>\<open>vvp_arith_\<close> speaks of X). The wild
  comparisons \<open>Op_eqx\<close> and \<open>Op_eqz\<close> take X and Z, or Z only, in the right operand for a match and answer 0 or 1, never X, unlike
  the comment above \<^verbatim>\<open>vvp_cmp_eqx\<close>.\<close>

theorem arith_functors_answer:
  assumes "0 < w" "w < 2 ^ 32" "\<forall>m\<in>set ms. fits_input w (\<lambda>p. p < 2) m"
  shows "\<exists>s s' acts. arith_new w = Some s \<and> run_messages (arith_recv (op_calc f)) ms s = Some (s', acts) \<and>
    length acts = length ms \<and>
    (\<forall>i<length ms. \<exists>r. acts ! i = Send_vec4 (msg_target (ms ! i)) r \<and> vec4_wf r \<and>
       vec4_bits r = op_result f w (last_operand 0 (replicate w BIT4_Z) (take (Suc i) ms))
                                   (last_operand 1 (replicate w BIT4_Z) (take (Suc i) ms)))"
proof -
  obtain s where s: "arith_new w = Some s" "arith_ok s" "ar_wid s = w"
    "vec4_bits (op_a s) = replicate w BIT4_Z" "vec4_bits (op_b s) = replicate w BIT4_Z"
    using arith_new_ok[OF assms(2)] by blast
  then show ?thesis using op_functor.all_answered[of s ms f] assms(1,3) by auto
qed

theorem arith_functors_answer_witness:
  "\<exists>s s' r1 r2. arith_new 2 = Some s \<and>
     run_messages (arith_recv (op_calc Op_sum))
       [Recv_vec4 \<lparr>ptr_net = 7, ptr_port = 0\<rparr> (vec4_new 2 BIT4_1), Recv_vec4 \<lparr>ptr_net = 7, ptr_port = 1\<rparr> (vec4_new 2 BIT4_1)] s =
       Some (s', [Send_vec4 7 r1, Send_vec4 7 r2]) \<and>
     vec4_bits r1 = [BIT4_X, BIT4_X] \<and> vec4_bits r2 = [BIT4_0, BIT4_1]"
proof -
  let ?ms = "[Recv_vec4 \<lparr>ptr_net = 7, ptr_port = 0\<rparr> (vec4_new 2 BIT4_1), Recv_vec4 \<lparr>ptr_net = 7, ptr_port = 1\<rparr> (vec4_new 2 BIT4_1)]"
  have ones: "vec4_bits (vec4_new (Suc (Suc 0)) BIT4_1) = [BIT4_1, BIT4_1]" by (simp add: vec4_bits_def vsize bitlevel upt_rec)
  have "\<forall>m\<in>set ?ms. fits_input 2 (\<lambda>p. p < 2) m" by (simp add: vsize vec4_new_wf)
  from arith_functors_answer[OF _ _ this, of Op_sum] obtain s s' acts where a:
    "arith_new 2 = Some s" "run_messages (arith_recv (op_calc Op_sum)) ?ms s = Some (s', acts)" "length acts = length ?ms"
    "\<And>i. i < 2 \<Longrightarrow> \<exists>r. acts ! i = Send_vec4 (msg_target (?ms ! i)) r \<and> vec4_wf r \<and>
       vec4_bits r = lift_int4 2 (+) (last_operand 0 (replicate 2 BIT4_Z) (take (Suc i) ?ms))
                                     (last_operand 1 (replicate 2 BIT4_Z) (take (Suc i) ?ms))"
    by (auto simp del: run_messages.simps)
  obtain r1 where r1: "acts ! 0 = Send_vec4 7 r1" "vec4_bits r1 = lift_int4 2 (+) [BIT4_1, BIT4_1] [BIT4_Z, BIT4_Z]"
    using a(4)[of 0] by (auto simp: last_operand_def ones numeral_2_eq_2)
  obtain r2 where r2: "acts ! 1 = Send_vec4 7 r2" "vec4_bits r2 = lift_int4 2 (+) [BIT4_1, BIT4_1] [BIT4_1, BIT4_1]"
    using a(4)[of 1] by (auto simp: last_operand_def ones numeral_2_eq_2)
  have "acts = [Send_vec4 7 r1, Send_vec4 7 r2]"
    using a(3) r1(1) r2(1) by (cases acts; cases "tl acts") auto
  then show ?thesis using a(1,2) r1(2) r2(2)
    by (auto simp: lift_int4_def num_bits_def bits_num_def upt_rec numeral_2_eq_2 simp del: run_messages.simps)
qed

end
