(* ===== verification/Event_Functor.thy ===== *)
theory Event_Functor
  imports Functor
begin

text \<open>
  The functors a thread can wait on (\<^verbatim>\<open>event.cc\<close>, \<^verbatim>\<open>event.h\<close>), in their statically allocated forms: edge detectors,
  change detectors, the or of events and named events. A functor keeps the list of threads that wait for it (linked
  by \<^verbatim>\<open>wait_next\<close>, the newest first) and the non-blocking event controls, each with the number of
  events it still waits for. What a control does is a parameter.
\<close>

section \<open>Waiting threads and event controls\<close>

record 'a waitable =
  event_ctls :: "(nat \<times> 'a) list"
  waiting_threads :: "nat list"

datatype 'a event_action =
    Run_control 'a
  | Wake_threads "nat list"
  | Pass_vec4 vvp_net_addr vvp_vector4_t
  | Pass_vec4_pv vvp_net_addr vvp_vector4_t nat nat nat
  | Run_callbacks

text \<open>Every control counts down; those that reach zero run and are removed.\<close>

fun count_down :: "(nat \<times> 'a) list \<Rightarrow> ('a list \<times> (nat \<times> 'a) list) option" where
  "count_down [] = Some ([], [])"
| "count_down ((ecount, ctl) # cur) =
     (if ecount = 0 then None
      else map_option (\<lambda>(ran, kept). if ecount - 1 = 0 then (ctl # ran, kept) else (ran, (ecount - 1, ctl) # kept)) (count_down cur))"

definition run_waiting_threads :: "'a waitable \<Rightarrow> ('a waitable \<times> 'a event_action list) option" where
  "run_waiting_threads h =
     map_option (\<lambda>(ran, kept). (h\<lparr>event_ctls := kept, waiting_threads := []\<rparr>,
         map Run_control ran @ (if waiting_threads h = [] then [] else [Wake_threads (waiting_threads h)])))
       (count_down (event_ctls h))"

definition schedule_evctl :: "'a \<Rightarrow> nat \<Rightarrow> 'a waitable \<Rightarrow> 'a waitable" where
  "schedule_evctl ctl ecount h = h\<lparr>event_ctls := event_ctls h @ [(ecount, ctl)]\<rparr>"

definition add_waiting_thread :: "nat \<Rightarrow> 'a waitable \<Rightarrow> 'a waitable" where
  "add_waiting_thread thread h = h\<lparr>waiting_threads := thread # waiting_threads h\<rparr>"

section \<open>Edges\<close>

record 'a vvp_fun_edge =
  edge_bits :: "vvp_bit4_t list"
  edge_kind :: "16 word"
  edge_hooks :: "'a waitable"

definition vvp_edge_none :: "16 word" where
  "vvp_edge_none = 0"

definition new_fun_edge :: "16 word \<Rightarrow> 'a vvp_fun_edge" where
  "new_fun_edge e = \<lparr>edge_bits = replicate 4 BIT4_X, edge_kind = e, edge_hooks = \<lparr>event_ctls = [], waiting_threads = []\<rparr>\<rparr>"

definition edge_recv :: "vvp_vector4_t \<Rightarrow> nat \<Rightarrow> 'a vvp_fun_edge \<Rightarrow> ('a vvp_fun_edge \<times> 'a event_action list \<times> bool) option" where
  "edge_recv bt port s =
     (let msk = VVP_EDGE (edge_bits s ! port) (vec4_value bt 0);
          s = s\<lparr>edge_bits := (edge_bits s)[port := vec4_value bt 0]\<rparr>
      in if edge_kind s = vvp_edge_none \<or> edge_kind s AND msk \<noteq> 0
         then map_option (\<lambda>(h, acts). (s\<lparr>edge_hooks := h\<rparr>, acts, True)) (run_waiting_threads (edge_hooks s))
         else Some (s, [], False))"

definition edge_recv_vec4 :: "vvp_net_ptr_t \<Rightarrow> vvp_vector4_t \<Rightarrow> 'a vvp_fun_edge \<Rightarrow> ('a vvp_fun_edge \<times> 'a event_action list) option" where
  "edge_recv_vec4 p bt s =
     map_option (\<lambda>(s, acts, hit). (s, if hit then acts @ [Pass_vec4 (ptr_net p) bt] else acts)) (edge_recv bt (ptr_port p) s)"

definition edge_recv_vec4_pv ::
  "vvp_net_ptr_t \<Rightarrow> vvp_vector4_t \<Rightarrow> nat \<Rightarrow> nat \<Rightarrow> nat \<Rightarrow> 'a vvp_fun_edge \<Rightarrow> ('a vvp_fun_edge \<times> 'a event_action list) option" where
  "edge_recv_vec4_pv p bt base wid vwid s =
     (if base \<noteq> 0 then None
      else map_option (\<lambda>(s, acts, hit). (s, if hit then acts @ [Pass_vec4_pv (ptr_net p) bt base wid vwid] else acts))
             (edge_recv bt (ptr_port p) s))"

section \<open>Changes\<close>

text \<open>The last vector and the last real of each port; a vector of size 0 before the first message.\<close>

record 'a vvp_fun_anyedge =
  any_bits :: "vvp_vector4_t list"
  any_bitsr :: "real_bits list"
  any_hooks :: "'a waitable"

definition new_fun_anyedge :: "'a vvp_fun_anyedge" where
  "new_fun_anyedge = \<lparr>any_bits = replicate 4 (vec4_new 0 BIT4_X), any_bitsr = replicate 4 0, any_hooks = \<lparr>event_ctls = [], waiting_threads = []\<rparr>\<rparr>"

definition anyedge_changed :: "vvp_vector4_t \<Rightarrow> vvp_vector4_t \<Rightarrow> bool" where
  "anyedge_changed old_bits bt =
     (if vec_size old_bits \<noteq> vec_size bt then
        if vec_size old_bits = 0 then \<not> vec4_eeq (vec4_new (vec_size bt) BIT4_X) bt else True
      else list_ex (\<lambda>idx. vec4_value old_bits idx \<noteq> vec4_value bt idx) [0..<vec_size bt])"

text \<open>The first vector is kept as the X reference when it does not differ from it.\<close>

definition anyedge_recv :: "vvp_vector4_t \<Rightarrow> nat \<Rightarrow> 'a vvp_fun_anyedge \<Rightarrow> ('a vvp_fun_anyedge \<times> 'a event_action list \<times> bool) option" where
  "anyedge_recv bt port s =
     (let old_bits = any_bits s ! port
      in if anyedge_changed old_bits bt
         then map_option (\<lambda>(h, acts). (s\<lparr>any_bits := (any_bits s)[port := bt], any_hooks := h\<rparr>, acts, True)) (run_waiting_threads (any_hooks s))
         else Some (s\<lparr>any_bits := (any_bits s)[port := if vec_size old_bits \<noteq> vec_size bt then vec4_new (vec_size bt) BIT4_X else old_bits]\<rparr>, [], False))"

definition anyedge_recv_vec4 :: "vvp_net_ptr_t \<Rightarrow> vvp_vector4_t \<Rightarrow> 'a vvp_fun_anyedge \<Rightarrow> ('a vvp_fun_anyedge \<times> 'a event_action list) option" where
  "anyedge_recv_vec4 p bt s =
     map_option (\<lambda>(s, acts, hit). (s, if hit then acts @ [Pass_vec4 (ptr_net p) bt] else acts)) (anyedge_recv bt (ptr_port p) s)"

definition anyedge_recv_vec4_pv ::
  "vvp_net_ptr_t \<Rightarrow> vvp_vector4_t \<Rightarrow> nat \<Rightarrow> nat \<Rightarrow> nat \<Rightarrow> 'a vvp_fun_anyedge \<Rightarrow> ('a vvp_fun_anyedge \<times> 'a event_action list) option" where
  "anyedge_recv_vec4_pv p bt base wid vwid s =
     (let tmp = any_bits s ! ptr_port p;
          tmp = (if vec_size tmp = 0 then vec4_new vwid BIT4_Z else tmp)
      in if wid \<noteq> vec_size bt \<or> \<not> base + wid \<le> vwid \<or> vec_size tmp \<noteq> vwid then None
         else case vec4_set_vec tmp base bt of
                None \<Rightarrow> None
              | Some (tmp, _) \<Rightarrow>
                  map_option (\<lambda>(s, acts, hit). (s, if hit then acts @ [Pass_vec4 (ptr_net p) bt] else acts)) (anyedge_recv tmp (ptr_port p) s))"

definition anyedge_recv_real :: "vvp_net_ptr_t \<Rightarrow> real_bits \<Rightarrow> 'a vvp_fun_anyedge \<Rightarrow> ('a vvp_fun_anyedge \<times> 'a event_action list) option" where
  "anyedge_recv_real p bt s =
     (if \<not> double_eq (any_bitsr s ! ptr_port p) bt
      then map_option (\<lambda>(h, acts). (s\<lparr>any_bitsr := (any_bitsr s)[ptr_port p := bt], any_hooks := h\<rparr>, acts @ [Pass_vec4 (ptr_net p) (vec4_new 0 BIT4_X)]))
             (run_waiting_threads (any_hooks s))
      else Some (s, []))"

section \<open>Or of events, named events\<close>

definition event_or_recv_vec4 :: "vvp_net_ptr_t \<Rightarrow> vvp_vector4_t \<Rightarrow> 'a waitable \<Rightarrow> ('a waitable \<times> 'a event_action list) option" where
  "event_or_recv_vec4 p bt h = map_option (\<lambda>(h, acts). (h, acts @ [Pass_vec4 (ptr_net p) bt])) (run_waiting_threads h)"

definition named_event_recv_vec4 :: "vvp_net_ptr_t \<Rightarrow> vvp_vector4_t \<Rightarrow> 'a waitable \<Rightarrow> ('a waitable \<times> 'a event_action list) option" where
  "named_event_recv_vec4 p bt h = map_option (\<lambda>(h, acts). (h, acts @ [Pass_vec4 (ptr_net p) bt, Run_callbacks])) (run_waiting_threads h)"

section \<open>Traces\<close>

text \<open>The controls that are left after \<open>k\<close> events, and those that run at the next one.\<close>

definition controls_after :: "nat \<Rightarrow> (nat \<times> 'a) list \<Rightarrow> (nat \<times> 'a) list" where
  "controls_after k cs = map (\<lambda>(c, a). (c - k, a)) (filter (\<lambda>(c, a). k < c) cs)"

definition controls_at :: "nat \<Rightarrow> (nat \<times> 'a) list \<Rightarrow> 'a list" where
  "controls_at k cs = map snd (filter (\<lambda>(c, a). c = k) cs)"

lemma count_down_after: "count_down (controls_after k cs) = Some (controls_at (Suc k) cs, controls_after (Suc k) cs)"
  by (induction cs) (auto simp: controls_after_def controls_at_def)

text \<open>Whether a transition is an event for the functor.\<close>

definition edge_hit :: "16 word \<Rightarrow> vvp_bit4_t \<Rightarrow> vvp_bit4_t \<Rightarrow> bool" where
  "edge_hit e from to \<longleftrightarrow> e = vvp_edge_none \<or> e AND VVP_EDGE from to \<noteq> 0"

lemma edge_hit_level:
  "edge_hit vvp_edge_posedge a b \<longleftrightarrow> bit4_level a < bit4_level b" "edge_hit vvp_edge_negedge a b \<longleftrightarrow> bit4_level b < bit4_level a"
  "edge_hit vvp_edge_none a b"
  by (cases a; cases b; simp add: edge_hit_def vvp_edge_none_def VVP_EDGE_def vvp_edge_posedge_def vvp_edge_negedge_def bit4_level_def)+

text \<open>The messages at one port of a functor, one after the other.\<close>

fun edge_trace :: "vvp_net_ptr_t \<Rightarrow> vvp_vector4_t list \<Rightarrow> 'a vvp_fun_edge \<Rightarrow> ('a vvp_fun_edge \<times> 'a event_action list list) option" where
  "edge_trace p [] s = Some (s, [])"
| "edge_trace p (v # vs) s =
     (case edge_recv_vec4 p v s of
        None \<Rightarrow> None
      | Some (s, acts) \<Rightarrow> map_option (\<lambda>(s, outs). (s, acts # outs)) (edge_trace p vs s))"

fun anyedge_trace :: "vvp_net_ptr_t \<Rightarrow> vvp_vector4_t list \<Rightarrow> 'a vvp_fun_anyedge \<Rightarrow> ('a vvp_fun_anyedge \<times> 'a event_action list list) option" where
  "anyedge_trace p [] s = Some (s, [])"
| "anyedge_trace p (v # vs) s =
     (case anyedge_recv_vec4 p v s of
        None \<Rightarrow> None
      | Some (s, acts) \<Rightarrow> map_option (\<lambda>(s, outs). (s, acts # outs)) (anyedge_trace p vs s))"

text \<open>
  What a functor should do with messages of which each is an event or not: \<open>ts\<close> waited at first, \<open>cs\<close> were
  the controls at first, \<open>k\<close> events have happened.
\<close>

fun event_outputs :: "vvp_net_addr \<Rightarrow> nat list \<Rightarrow> (nat \<times> 'a) list \<Rightarrow> nat \<Rightarrow> (bool \<times> vvp_vector4_t) list \<Rightarrow> 'a event_action list list" where
  "event_outputs net ts cs k [] = []"
| "event_outputs net ts cs k ((hit, v) # vs) =
     (if hit
      then (map Run_control (controls_at (Suc k) cs) @ (if k = 0 \<and> ts \<noteq> [] then [Wake_threads ts] else []) @ [Pass_vec4 net v]) #
        event_outputs net ts cs (Suc k) vs
      else [] # event_outputs net ts cs k vs)"

text \<open>Each message with whether it is an edge, or a change, from the one before.\<close>

fun edges_from :: "16 word \<Rightarrow> vvp_bit4_t \<Rightarrow> vvp_vector4_t list \<Rightarrow> (bool \<times> vvp_vector4_t) list" where
  "edges_from e b [] = []"
| "edges_from e b (v # vs) = (edge_hit e b (vec4_value v 0), v) # edges_from e (vec4_value v 0) vs"

fun changes_from :: "vvp_bit4_t list \<Rightarrow> vvp_vector4_t list \<Rightarrow> (bool \<times> vvp_vector4_t) list" where
  "changes_from bs [] = []"
| "changes_from bs (v # vs) = (bs \<noteq> vec4_bits v, v) # changes_from (vec4_bits v) vs"

definition hooks_after :: "nat \<Rightarrow> nat list \<Rightarrow> (nat \<times> 'a) list \<Rightarrow> 'a waitable \<Rightarrow> bool" where
  "hooks_after k ts cs h \<longleftrightarrow> event_ctls h = controls_after k cs \<and> waiting_threads h = (if k = 0 then ts else [])"

lemma run_hooks_after:
  "hooks_after k ts cs h \<Longrightarrow> \<exists>h'. hooks_after (Suc k) ts cs h' \<and>
     run_waiting_threads h = Some (h', map Run_control (controls_at (Suc k) cs) @ (if k = 0 \<and> ts \<noteq> [] then [Wake_threads ts] else []))"
  by (intro exI[of _ "h\<lparr>event_ctls := controls_after (Suc k) cs, waiting_threads := []\<rparr>"])
    (auto simp: hooks_after_def run_waiting_threads_def count_down_after)

lemma controls_after_0: "list_all (\<lambda>(c, a). 0 < c) cs \<Longrightarrow> controls_after 0 cs = cs"
  by (induction cs) (auto simp: controls_after_def)

lemma hooks_at_first: "list_all (\<lambda>(c, a). 0 < c) (event_ctls h) \<Longrightarrow> hooks_after 0 (waiting_threads h) (event_ctls h) h"
  by (simp add: hooks_after_def controls_after_0)

lemma edge_trace_outputs:
  assumes "ptr_port p < 4" "length (edge_bits s) = 4" "hooks_after k ts cs (edge_hooks s)"
  shows "\<exists>s'. edge_trace p vs s = Some (s', event_outputs (ptr_net p) ts cs k (edges_from (edge_kind s) (edge_bits s ! ptr_port p) vs))"
  using assms
proof (induction vs arbitrary: s k)
  case (Cons v vs)
  let ?b = "edge_bits s ! ptr_port p" and ?s = "s\<lparr>edge_bits := (edge_bits s)[ptr_port p := vec4_value v 0]\<rparr>"
  show ?case
  proof (cases "edge_hit (edge_kind s) ?b (vec4_value v 0)")
    case True
    obtain h' where h': "hooks_after (Suc k) ts cs h'"
      "run_waiting_threads (edge_hooks s) = Some (h', map Run_control (controls_at (Suc k) cs) @ (if k = 0 \<and> ts \<noteq> [] then [Wake_threads ts] else []))"
      using run_hooks_after[OF Cons.prems(3)] by blast
    have "\<exists>s'. edge_trace p vs (?s\<lparr>edge_hooks := h'\<rparr>) = Some (s', event_outputs (ptr_net p) ts cs (Suc k) (edges_from (edge_kind s) (vec4_value v 0) vs))"
      using Cons.IH[of "?s\<lparr>edge_hooks := h'\<rparr>" "Suc k"] Cons.prems h'(1) by simp
    then show ?thesis using True h'(2) by (auto simp: edge_recv_vec4_def edge_recv_def Let_def edge_hit_def)
  next
    case False
    have "\<exists>s'. edge_trace p vs ?s = Some (s', event_outputs (ptr_net p) ts cs k (edges_from (edge_kind s) (vec4_value v 0) vs))"
      using Cons.IH[of ?s k] Cons.prems by simp
    then show ?thesis using False by (auto simp: edge_recv_vec4_def edge_recv_def Let_def edge_hit_def)
  qed
qed simp

text \<open>The reference of a change detector: all bits X before the first message.\<close>

definition any_reference :: "nat \<Rightarrow> vvp_vector4_t \<Rightarrow> vvp_bit4_t list" where
  "any_reference w old_bits = (if vec_size old_bits = 0 then replicate w BIT4_X else vec4_bits old_bits)"

lemma vec4_bits_X: "vec4_bits (vec4_new w BIT4_X) = replicate w BIT4_X"
  by (simp add: list_eq_iff_nth_eq vsize bitlevel)

lemma anyedge_changed_iff: "anyedge_changed old_bits bt \<longleftrightarrow> any_reference (vec_size bt) old_bits \<noteq> vec4_bits bt"
proof (cases "vec_size old_bits = vec_size bt")
  case True
  then show ?thesis
    by (cases "vec_size bt = 0") (auto simp: anyedge_changed_def any_reference_def list_ex_iff list_eq_iff_nth_eq vec4_bits_def)
next
  case False
  then have "vec4_bits old_bits \<noteq> vec4_bits bt" by (metis length_vec4_bits)
  then show ?thesis using False by (simp add: anyedge_changed_def any_reference_def vec4_eeq_iff vec4_bits_X)
qed

lemma anyedge_trace_outputs:
  assumes "ptr_port p < 4" "length (any_bits s) = 4" "hooks_after k ts cs (any_hooks s)" "\<forall>v\<in>set vs. vec_size v = w" "0 < w"
  shows "\<exists>s'. anyedge_trace p vs s = Some (s', event_outputs (ptr_net p) ts cs k (changes_from (any_reference w (any_bits s ! ptr_port p)) vs))"
  using assms(1-4)
proof (induction vs arbitrary: s k)
  case (Cons v vs)
  let ?b = "any_bits s ! ptr_port p"
  have v: "vec_size v = w" "any_reference w v = vec4_bits v" using Cons.prems(4) assms(5) by (simp_all add: any_reference_def)
  show ?case
  proof (cases "anyedge_changed ?b v")
    case True
    obtain h' where h': "hooks_after (Suc k) ts cs h'"
      "run_waiting_threads (any_hooks s) = Some (h', map Run_control (controls_at (Suc k) cs) @ (if k = 0 \<and> ts \<noteq> [] then [Wake_threads ts] else []))"
      using run_hooks_after[OF Cons.prems(3)] by blast
    let ?s = "s\<lparr>any_bits := (any_bits s)[ptr_port p := v], any_hooks := h'\<rparr>"
    have "\<exists>s'. anyedge_trace p vs ?s = Some (s', event_outputs (ptr_net p) ts cs (Suc k) (changes_from (vec4_bits v) vs))"
      using Cons.IH[of ?s "Suc k"] Cons.prems h'(1) v by simp
    then show ?thesis using True h'(2) anyedge_changed_iff[of ?b v] v by (auto simp: anyedge_recv_vec4_def anyedge_recv_def)
  next
    case False
    define b' where "b' = (if vec_size ?b \<noteq> vec_size v then vec4_new (vec_size v) BIT4_X else ?b)"
    let ?s = "s\<lparr>any_bits := (any_bits s)[ptr_port p := b']\<rparr>"
    have same: "any_reference w ?b = vec4_bits v" using False anyedge_changed_iff[of ?b v] v by simp
    have "vec_size ?b \<noteq> vec_size v \<Longrightarrow> vec_size ?b = 0"
      using same v by (metis any_reference_def length_vec4_bits)
    then have "any_reference w b' = vec4_bits v"
      using same v assms(5) by (auto simp: b'_def any_reference_def vec4_bits_X vsize)
    then have "\<exists>s'. anyedge_trace p vs ?s = Some (s', event_outputs (ptr_net p) ts cs k (changes_from (vec4_bits v) vs))"
      using Cons.IH[of ?s k] Cons.prems by simp
    then show ?thesis using False same by (auto simp: anyedge_recv_vec4_def anyedge_recv_def b'_def Let_def)
  qed
qed simp

section \<open>Properties\<close>

text \<open>C11. An edge or change detector passes on exactly the messages that are events for it, the first event
  wakes the list of all threads that wait, and a control that waits for c events runs at the c-th event and only then.
  For posedge the events are the messages whose lowest bit rises against the one before, for negedge
  those whose bit falls (X and Z lie between 0 and 1), for a change detector those whose bits
  differ from the message before; before the first message all bits count as X.\<close>

theorem event_functors_fire:
  assumes "ptr_port p < 4" "list_all (\<lambda>(c, a). 0 < c) (event_ctls h)" "0 < w" "\<forall>v\<in>set vs. vec_size v = w"
  shows "(\<exists>s'. edge_trace p vs ((new_fun_edge e)\<lparr>edge_hooks := h\<rparr>) =
        Some (s', event_outputs (ptr_net p) (waiting_threads h) (event_ctls h) 0 (edges_from e BIT4_X vs))) \<and>
      (\<exists>s'. anyedge_trace p vs (new_fun_anyedge\<lparr>any_hooks := h\<rparr>) =
        Some (s', event_outputs (ptr_net p) (waiting_threads h) (event_ctls h) 0 (changes_from (replicate w BIT4_X) vs))) \<and>
      (edge_hit vvp_edge_posedge a b \<longleftrightarrow> bit4_level a < bit4_level b) \<and>
      (edge_hit vvp_edge_negedge a b \<longleftrightarrow> bit4_level b < bit4_level a) \<and> edge_hit vvp_edge_none a b"
proof (intro conjI edge_hit_level)
  show "\<exists>s'. edge_trace p vs ((new_fun_edge e)\<lparr>edge_hooks := h\<rparr>) =
        Some (s', event_outputs (ptr_net p) (waiting_threads h) (event_ctls h) 0 (edges_from e BIT4_X vs))"
    using edge_trace_outputs[of p "(new_fun_edge e)\<lparr>edge_hooks := h\<rparr>", OF assms(1) _ hooks_at_first] assms(1,2) by (simp add: new_fun_edge_def)
  show "\<exists>s'. anyedge_trace p vs (new_fun_anyedge\<lparr>any_hooks := h\<rparr>) =
        Some (s', event_outputs (ptr_net p) (waiting_threads h) (event_ctls h) 0 (changes_from (replicate w BIT4_X) vs))"
    using anyedge_trace_outputs[of p "new_fun_anyedge\<lparr>any_hooks := h\<rparr>", OF assms(1) _ hooks_at_first assms(4,3)] assms(1,2)
    by (simp add: new_fun_anyedge_def any_reference_def vsize)
qed

theorem event_functors_fire_witness:
  "(\<exists>s'. edge_trace \<lparr>ptr_net = 7, ptr_port = 1\<rparr> [vec4_new 1 BIT4_1, vec4_new 1 BIT4_0, vec4_new 1 BIT4_X]
      ((new_fun_edge vvp_edge_posedge)\<lparr>edge_hooks := \<lparr>event_ctls = [(2, CHR ''c'')], waiting_threads = [4]\<rparr>\<rparr>) =
      Some (s', [[Wake_threads [4], Pass_vec4 7 (vec4_new 1 BIT4_1)], [], [Run_control CHR ''c'', Pass_vec4 7 (vec4_new 1 BIT4_X)]])) \<and>
   (\<exists>s'. anyedge_trace \<lparr>ptr_net = 7, ptr_port = 1\<rparr> [vec4_new 1 BIT4_X, vec4_new 1 BIT4_0, vec4_new 1 BIT4_1]
      (new_fun_anyedge\<lparr>any_hooks := \<lparr>event_ctls = [(2, CHR ''c'')], waiting_threads = [4]\<rparr>\<rparr>) =
      Some (s', [[], [Wake_threads [4], Pass_vec4 7 (vec4_new 1 BIT4_0)], [Run_control CHR ''c'', Pass_vec4 7 (vec4_new 1 BIT4_1)]]))"
proof -
  have v: "vec4_value (vec4_new 1 b) 0 = b" "vec4_bits (vec4_new 1 b) = [b]" for b by (simp_all add: vec4_bits_def vsize bitlevel)
  note fires = event_functors_fire[where p = "\<lparr>ptr_net = 7, ptr_port = 1\<rparr>" and h = "\<lparr>event_ctls = [(2, CHR ''c'')], waiting_threads = [4]\<rparr>"
      and w = 1]
  show ?thesis
    using fires[where e = vvp_edge_posedge and vs = "[vec4_new 1 BIT4_1, vec4_new 1 BIT4_0, vec4_new 1 BIT4_X]"]
      fires[where vs = "[vec4_new 1 BIT4_X, vec4_new 1 BIT4_0, vec4_new 1 BIT4_1]"]
    by (simp add: vsize v v[unfolded One_nat_def] edge_hit_level controls_at_def bit4_level_def del: edge_trace.simps anyedge_trace.simps)
qed

end
