(* ===== verification/Udp.thy ===== *)
theory Udp
  imports Functor Vector4_Convert "HOL-Library.Monad_Syntax"
begin

text \<open>
  User defined primitives (\<^verbatim>\<open>udp.cc\<close>, \<^verbatim>\<open>udp.h\<close>): the tables of a primitive are compiled into rows of bit
  masks, and an instance keeps the masks of its present inputs and its output. A table is a list of
  strings. The code runs over a table twice, first to count the rows; here the rows are appended as they come.
\<close>

section \<open>Rows\<close>

record udp_levels_table =
  mask0 :: u64
  mask1 :: u64
  maskx :: u64

record udp_edges_table = udp_levels_table +
  edge_position :: nat
  edge_mask0 :: bool
  edge_mask1 :: bool
  edge_maskx :: bool

definition no_levels :: udp_levels_table where
  "no_levels = \<lparr>mask0 = 0, mask1 = 0, maskx = 0\<rparr>"

definition no_edges :: udp_edges_table where
  "no_edges = \<lparr>mask0 = 0, mask1 = 0, maskx = 0, edge_position = 0, edge_mask0 = False, edge_mask1 = False, edge_maskx = False\<rparr>"

definition or_masks :: "bool \<Rightarrow> bool \<Rightarrow> bool \<Rightarrow> u64 \<Rightarrow> 'a udp_levels_table_scheme \<Rightarrow> 'a udp_levels_table_scheme" where
  "or_masks m0 m1 mx mask_bit cur =
     (let cur = (if m0 then cur\<lparr>mask0 := mask0 cur OR mask_bit\<rparr> else cur);
          cur = (if m1 then cur\<lparr>mask1 := mask1 cur OR mask_bit\<rparr> else cur)
      in if mx then cur\<lparr>maskx := maskx cur OR mask_bit\<rparr> else cur)"

definition or_based_on_char :: "char \<Rightarrow> u64 \<Rightarrow> 'a udp_levels_table_scheme \<Rightarrow> 'a udp_levels_table_scheme option" where
  "or_based_on_char flag mask_bit cur =
     (if flag = CHR ''0'' then Some (or_masks True False False mask_bit cur)
      else if flag = CHR ''1'' then Some (or_masks False True False mask_bit cur)
      else if flag = CHR ''x'' then Some (or_masks False False True mask_bit cur)
      else if flag = CHR ''b'' then Some (or_masks True True False mask_bit cur)
      else if flag = CHR ''l'' then Some (or_masks True False True mask_bit cur)
      else if flag = CHR ''h'' then Some (or_masks False True True mask_bit cur)
      else if flag = CHR ''?'' then Some (or_masks True True True mask_bit cur)
      else None)"

text \<open>The expression \<^verbatim>\<open>1 << pos\<close>, an \<^verbatim>\<open>int\<close> that is converted to \<^verbatim>\<open>unsigned long\<close>.\<close>

definition int_bit :: "nat \<Rightarrow> u64" where
  "int_bit pos = scast (push_bit (pos mod 32) 1 :: 32 word)"

definition set_edge :: "nat \<Rightarrow> bool \<Rightarrow> bool \<Rightarrow> bool \<Rightarrow> udp_edges_table \<Rightarrow> udp_edges_table" where
  "set_edge pos e0 ex e1 cur = cur\<lparr>edge_position := pos mod 256, edge_mask0 := e0, edge_maskx := ex, edge_mask1 := e1\<rparr>"

definition edge_based_on_char :: "char \<Rightarrow> nat \<Rightarrow> udp_edges_table \<Rightarrow> udp_edges_table option" where
  "edge_based_on_char chr pos cur =
     (let mask_bit = int_bit pos;
          edge = (\<lambda>m0 m1 mx e0 ex e1. Some (set_edge pos e0 ex e1 (or_masks m0 m1 mx mask_bit cur)))
      in if chr \<in> set ''01xblh?'' then or_based_on_char chr mask_bit cur
      else if chr = CHR ''B'' then edge True True False False True False
      else if chr = CHR ''f'' then edge True False False False False True
      else if chr = CHR ''F'' then edge True False False False True False
      else if chr = CHR ''M'' then edge False False True False False True
      else if chr = CHR ''N'' then edge True False True False False True
      else if chr = CHR ''P'' then edge False True True True False False
      else if chr = CHR ''q'' then edge False False True True False True
      else if chr = CHR ''Q'' then edge False False True True False False
      else if chr = CHR ''r'' then edge False True False True False False
      else if chr = CHR ''R'' then edge False True False False True False
      else if chr = CHR ''%'' then edge False False True True False True
      else if chr = CHR ''+'' then edge False True False True True False
      else if chr = CHR ''_'' then edge True False False False True True
      else None)"

section \<open>Combinational primitives\<close>

record vvp_udp_comb =
  comb_ports :: nat
  comb_levels0 :: "udp_levels_table list"
  comb_levels1 :: "udp_levels_table list"

definition row_hit :: "'a udp_levels_table_scheme \<Rightarrow> 'b udp_levels_table_scheme \<Rightarrow> bool" where
  "row_hit cur row \<longleftrightarrow> mask0 cur = mask0 cur AND mask0 row \<and> mask1 cur = mask1 cur AND mask1 row \<and> maskx cur = maskx cur AND maskx row"

definition comb_test_levels :: "vvp_udp_comb \<Rightarrow> udp_levels_table \<Rightarrow> vvp_bit4_t" where
  "comb_test_levels d cur =
     (if list_ex (row_hit cur) (comb_levels0 d) then BIT4_0
      else if list_ex (row_hit cur) (comb_levels1 d) then BIT4_1 else BIT4_X)"

definition comb_compile_row :: "string \<Rightarrow> vvp_udp_comb \<Rightarrow> vvp_udp_comb option" where
  "comb_compile_row row d =
     (let n = comb_ports d; out = row ! n
      in if length row \<noteq> n + 1 \<or> 64 < n \<or> out \<notin> set ''01x'' then None
      else do {
        cur \<leftarrow> foldM (\<lambda>pp. or_based_on_char (row ! pp) (shl 1 pp)) [0..<n] no_levels;
        Some (if out = CHR ''0'' then d\<lparr>comb_levels0 := comb_levels0 d @ [cur]\<rparr>
              else if out = CHR ''1'' then d\<lparr>comb_levels1 := comb_levels1 d @ [cur]\<rparr> else d) })"

definition comb_compile_table :: "nat \<Rightarrow> string list \<Rightarrow> vvp_udp_comb option" where
  "comb_compile_table ports tab = foldM comb_compile_row tab \<lparr>comb_ports = ports, comb_levels0 = [], comb_levels1 = []\<rparr>"

section \<open>Sequential primitives\<close>

record vvp_udp_seq =
  seq_ports :: nat
  levels0 :: "udp_levels_table list"
  levels1 :: "udp_levels_table list"
  levelsx :: "udp_levels_table list"
  levelsL :: "udp_levels_table list"
  edges0 :: "udp_edges_table list"
  edges1 :: "udp_edges_table list"
  edgesL :: "udp_edges_table list"

definition seq_level_row :: "string \<Rightarrow> vvp_udp_seq \<Rightarrow> vvp_udp_seq option" where
  "seq_level_row row d =
     (let n = seq_ports d; out = row ! (n + 1)
      in do {
        cur \<leftarrow> foldM (\<lambda>pp. or_based_on_char (row ! (pp + 1)) (shl 1 pp)) [0..<n] no_levels;
        cur \<leftarrow> or_based_on_char (row ! 0) (shl 1 n) cur;
        if out = CHR ''0'' then Some (d\<lparr>levels0 := levels0 d @ [cur]\<rparr>)
        else if out = CHR ''1'' then Some (d\<lparr>levels1 := levels1 d @ [cur]\<rparr>)
        else if out = CHR ''x'' then Some (d\<lparr>levelsx := levelsx d @ [cur]\<rparr>)
        else if out = CHR ''-'' then Some (d\<lparr>levelsL := levelsL d @ [cur]\<rparr>)
        else None })"

text \<open>A row with an edge letter for several edges needs up to two more rows.\<close>

record edge_rows =
  er_cur :: udp_edges_table
  er_ext0 :: udp_edges_table
  er_ext1 :: udp_edges_table
  need_ext0 :: bool
  need_ext1 :: bool

definition edge_rows_port :: "char \<Rightarrow> nat \<Rightarrow> edge_rows \<Rightarrow> edge_rows option" where
  "edge_rows_port chr pp er =
     (if chr = CHR ''n'' then do {
        cur \<leftarrow> edge_based_on_char CHR ''N'' pp (er_cur er);
        ext0 \<leftarrow> edge_based_on_char CHR ''_'' pp (er_ext0 er);
        Some (er\<lparr>er_cur := cur, er_ext0 := ext0, need_ext0 := True\<rparr>) }
      else if chr = CHR ''p'' then do {
        cur \<leftarrow> edge_based_on_char CHR ''P'' pp (er_cur er);
        ext0 \<leftarrow> edge_based_on_char CHR ''+'' pp (er_ext0 er);
        Some (er\<lparr>er_cur := cur, er_ext0 := ext0, need_ext0 := True\<rparr>) }
      else if chr = CHR ''*'' then do {
        cur \<leftarrow> edge_based_on_char CHR ''P'' pp (er_cur er);
        ext0 \<leftarrow> edge_based_on_char CHR ''N'' pp (er_ext0 er);
        ext1 \<leftarrow> edge_based_on_char CHR ''B'' pp (er_ext1 er);
        Some (er\<lparr>er_cur := cur, er_ext0 := ext0, er_ext1 := ext1, need_ext0 := True, need_ext1 := True\<rparr>) }
      else do {
        cur \<leftarrow> edge_based_on_char chr pp (er_cur er);
        ext0 \<leftarrow> edge_based_on_char chr pp (er_ext0 er);
        ext1 \<leftarrow> edge_based_on_char chr pp (er_ext1 er);
        Some (er\<lparr>er_cur := cur, er_ext0 := ext0, er_ext1 := ext1\<rparr>) })"

definition seq_edge_row :: "string \<Rightarrow> vvp_udp_seq \<Rightarrow> vvp_udp_seq option" where
  "seq_edge_row row d =
     (let n = seq_ports d; out = row ! (n + 1)
      in do {
        er \<leftarrow> foldM (\<lambda>pp. edge_rows_port (row ! (pp + 1)) pp) [0..<n]
                \<lparr>er_cur = no_edges, er_ext0 = no_edges, er_ext1 = no_edges, need_ext0 = False, need_ext1 = False\<rparr>;
        cur \<leftarrow> edge_based_on_char (row ! 0) n (er_cur er);
        ext0 \<leftarrow> edge_based_on_char (row ! 0) n (er_ext0 er);
        ext1 \<leftarrow> edge_based_on_char (row ! 0) n (er_ext1 er);
        let rows = [cur] @ (if need_ext0 er then [ext0] else []) @ (if need_ext1 er then [ext1] else [])
        in if out = CHR ''0'' then Some (d\<lparr>edges0 := edges0 d @ rows\<rparr>)
        else if out = CHR ''1'' then Some (d\<lparr>edges1 := edges1 d @ rows\<rparr>)
        else if out = CHR ''x'' then Some d
        else if out = CHR ''-'' then Some (d\<lparr>edgesL := edgesL d @ rows\<rparr>)
        else None })"

definition seq_compile_row :: "string \<Rightarrow> vvp_udp_seq \<Rightarrow> vvp_udp_seq option" where
  "seq_compile_row row d =
     (if length row \<noteq> seq_ports d + 2 then None
      else if strspn row ''01xblh?'' \<ge> seq_ports d + 1 then seq_level_row row d else seq_edge_row row d)"

definition seq_compile_table :: "nat \<Rightarrow> string list \<Rightarrow> vvp_udp_seq option" where
  "seq_compile_table ports tab = foldM seq_compile_row tab
     \<lparr>seq_ports = ports, levels0 = [], levels1 = [], levelsx = [], levelsL = [], edges0 = [], edges1 = [], edgesL = []\<rparr>"

text \<open>The output that a row with the output \<^verbatim>\<open>-\<close> keeps is taken from the masks.\<close>

definition kept_output :: "nat \<Rightarrow> udp_levels_table \<Rightarrow> vvp_bit4_t option" where
  "kept_output n cur =
     (if mask0 cur AND int_bit n \<noteq> 0 then Some BIT4_0
      else if mask1 cur AND int_bit n \<noteq> 0 then Some BIT4_1
      else if maskx cur AND int_bit n \<noteq> 0 then Some BIT4_X
      else None)"

definition seq_test_levels :: "vvp_udp_seq \<Rightarrow> udp_levels_table \<Rightarrow> vvp_bit4_t option" where
  "seq_test_levels d cur =
     (if list_ex (row_hit cur) (levels0 d) then Some BIT4_0
      else if list_ex (row_hit cur) (levels1 d) then Some BIT4_1
      else if list_ex (row_hit cur) (levelsx d) then Some BIT4_X
      else if list_ex (row_hit cur) (levelsL d) then kept_output (seq_ports d) cur
      else Some BIT4_Z)"

text \<open>The loop that looks for the lowest bit of a mask that is not zero, with one round for each bit of the word.\<close>

fun lowest_bit :: "nat \<Rightarrow> u64 \<Rightarrow> nat \<Rightarrow> (u64 \<times> nat) option" where
  "lowest_bit 0 edge_mask pos = None"
| "lowest_bit (Suc k) edge_mask pos =
     (if edge_mask AND 1 = 0 then lowest_bit k (shr edge_mask 1) (pos + 1) else Some (edge_mask, pos))"

definition edge_row_hit :: "nat \<Rightarrow> bool \<Rightarrow> bool \<Rightarrow> bool \<Rightarrow> udp_levels_table \<Rightarrow> udp_edges_table \<Rightarrow> bool" where
  "edge_row_hit pos e0 ex e1 cur row \<longleftrightarrow>
     edge_position row = pos \<and> \<not> (e0 \<and> \<not> edge_mask0 row) \<and> \<not> (ex \<and> \<not> edge_maskx row) \<and> \<not> (e1 \<and> \<not> edge_mask1 row) \<and>
     row_hit cur row"

definition seq_test_edges :: "vvp_udp_seq \<Rightarrow> udp_levels_table \<Rightarrow> udp_levels_table \<Rightarrow> vvp_bit4_t option" where
  "seq_test_edges d cur prev =
     (let edge_mask = ((mask0 cur XOR mask0 prev) OR (maskx cur XOR maskx prev) OR (mask1 cur XOR mask1 prev)) AND NOT (shl (- 1) (seq_ports d))
      in if edge_mask = 0 then Some BIT4_X
      else do {
        (edge_mask, pos) \<leftarrow> lowest_bit 64 edge_mask 0;
        if edge_mask \<noteq> 1 then None
        else let edge_mask = shl 1 pos;
                 hit = edge_row_hit pos (mask0 prev AND edge_mask \<noteq> 0) (maskx prev AND edge_mask \<noteq> 0) (mask1 prev AND edge_mask \<noteq> 0) cur
             in if list_ex hit (edges0 d) then Some BIT4_0
                else if list_ex hit (edges1 d) then Some BIT4_1
                else if list_ex hit (edgesL d) then kept_output (seq_ports d) cur
                else Some BIT4_X })"

definition seq_calculate_output :: "vvp_udp_seq \<Rightarrow> udp_levels_table \<Rightarrow> udp_levels_table \<Rightarrow> vvp_bit4_t \<Rightarrow> vvp_bit4_t option" where
  "seq_calculate_output d cur prev cur_out =
     (if cur = prev then Some cur_out
      else let mask_out = shl 1 (seq_ports d);
               cur_tmp = (case cur_out of
                   BIT4_0 \<Rightarrow> cur\<lparr>mask0 := mask0 cur OR mask_out\<rparr>
                 | BIT4_1 \<Rightarrow> cur\<lparr>mask1 := mask1 cur OR mask_out\<rparr>
                 | _ \<Rightarrow> cur\<lparr>maskx := maskx cur OR mask_out\<rparr>)
           in do { lev \<leftarrow> seq_test_levels d cur_tmp;
                   if lev = BIT4_Z then seq_test_edges d cur_tmp prev else Some lev })"

section \<open>Instances\<close>

datatype vvp_udp = Udp_comb vvp_udp_comb | Udp_seq vvp_udp_seq vvp_bit4_t

fun udp_port_count :: "vvp_udp \<Rightarrow> nat" where
  "udp_port_count (Udp_comb d) = comb_ports d"
| "udp_port_count (Udp_seq d init) = seq_ports d"

fun udp_get_init :: "vvp_udp \<Rightarrow> vvp_bit4_t" where
  "udp_get_init (Udp_comb d) = BIT4_X"
| "udp_get_init (Udp_seq d init) = init"

fun calculate_output :: "vvp_udp \<Rightarrow> udp_levels_table \<Rightarrow> udp_levels_table \<Rightarrow> vvp_bit4_t \<Rightarrow> vvp_bit4_t option" where
  "calculate_output (Udp_comb d) cur prev cur_out = Some (comb_test_levels d cur)"
| "calculate_output (Udp_seq d init) cur prev cur_out = seq_calculate_output d cur prev cur_out"

definition compile_udp_def :: "bool \<Rightarrow> nat \<Rightarrow> nat \<Rightarrow> string list \<Rightarrow> vvp_udp option" where
  "compile_udp_def sequ nin init table =
     (if sequ then
        let init4 = (if init = 0 then BIT4_0 else if init = 1 then BIT4_1 else BIT4_X)
        in map_option (\<lambda>d. Udp_seq d init4) (seq_compile_table nin table)
      else map_option Udp_comb (comb_compile_table nin table))"

record vvp_udp_fun_core =
  udp_def :: vvp_udp
  port_values :: "vvp_vector4_t list"
  current :: udp_levels_table
  cur_out :: vvp_bit4_t

datatype udp_action = Schedule_generic | Schedule_udp

definition new_udp_core :: "vvp_udp \<Rightarrow> vvp_udp_fun_core \<times> udp_action list" where
  "new_udp_core def =
     (let n = udp_port_count def; s = \<lparr>udp_def = def, port_values = replicate n (vec4_new 0 BIT4_X),
            current = \<lparr>mask0 = 0, mask1 = 0, maskx = NOT (shl (- 1) n)\<rparr>, cur_out = udp_get_init def\<rparr>
      in (s, if cur_out s \<noteq> BIT4_X then [Schedule_generic] else [Schedule_udp]))"

definition udp_run_run :: "vvp_udp_fun_core \<Rightarrow> vvp_vector4_t option" where
  "udp_run_run s = vec4_set_bit (vec4_new 1 BIT4_X) 0 (cur_out s)"

definition recv_vec4_from_inputs :: "nat \<Rightarrow> vvp_udp_fun_core \<Rightarrow> (vvp_udp_fun_core \<times> udp_action list) option" where
  "recv_vec4_from_inputs port s =
     (let v = port_values s ! port; m = shl 1 port; prev = current s
      in if vec_size v \<noteq> 1 then None
      else let cur = (case vec4_value v 0 of
                 BIT4_0 \<Rightarrow> \<lparr>mask0 = mask0 prev OR m, mask1 = mask1 prev AND NOT m, maskx = maskx prev AND NOT m\<rparr>
               | BIT4_1 \<Rightarrow> \<lparr>mask0 = mask0 prev AND NOT m, mask1 = mask1 prev OR m, maskx = maskx prev AND NOT m\<rparr>
               | _ \<Rightarrow> \<lparr>mask0 = mask0 prev AND NOT m, mask1 = mask1 prev AND NOT m, maskx = maskx prev OR m\<rparr>)
           in do { out_bit \<leftarrow> calculate_output (udp_def s) cur prev (cur_out s);
                   Some (if out_bit = cur_out s then (s\<lparr>current := cur\<rparr>, [])
                         else (s\<lparr>current := cur, cur_out := out_bit\<rparr>, [Schedule_udp])) })"

definition dispatch_vec4_from_input :: "nat \<Rightarrow> vvp_vector4_t \<Rightarrow> vvp_udp_fun_core \<Rightarrow> (vvp_udp_fun_core \<times> udp_action list) option" where
  "dispatch_vec4_from_input port bt s =
     (if port < udp_port_count (udp_def s)
      then recv_vec4_from_inputs port (s\<lparr>port_values := (port_values s)[port := bt]\<rparr>) else None)"

definition wide_recv_vec4 :: "nat \<Rightarrow> vvp_net_ptr_t \<Rightarrow> vvp_vector4_t \<Rightarrow> vvp_udp_fun_core \<Rightarrow> (vvp_udp_fun_core \<times> udp_action list) option" where
  "wide_recv_vec4 port_base p bt s = dispatch_vec4_from_input (port_base + ptr_port p) bt s"

end
