(* ===== verification/Udp_Rows.thy ===== *)
theory Udp_Rows
  imports Udp
begin

text \<open>What the rows of a user defined primitive mean, and that the compiled rows mean the same.\<close>

section \<open>The letters of a row\<close>

text \<open>An input counts as 0, 1 or X.\<close>

definition tri :: "vvp_bit4_t \<Rightarrow> vvp_bit4_t" where
  "tri b = (if b = BIT4_Z then BIT4_X else b)"

definition level_char :: "char \<Rightarrow> vvp_bit4_t \<Rightarrow> bool" where
  "level_char c b = (case b of BIT4_0 \<Rightarrow> c \<in> set ''0bl?'' | BIT4_1 \<Rightarrow> c \<in> set ''1bh?'' | _ \<Rightarrow> c \<in> set ''xlh?'')"

definition udp_edges :: "char \<Rightarrow> (vvp_bit4_t \<times> vvp_bit4_t) list" where
  "udp_edges c =
     (if c = CHR ''r'' then [(BIT4_0, BIT4_1)]
      else if c = CHR ''f'' then [(BIT4_1, BIT4_0)]
      else if c = CHR ''Q'' then [(BIT4_0, BIT4_X)]
      else if c = CHR ''M'' then [(BIT4_1, BIT4_X)]
      else if c = CHR ''F'' then [(BIT4_X, BIT4_0)]
      else if c = CHR ''R'' then [(BIT4_X, BIT4_1)]
      else if c = CHR ''B'' then [(BIT4_X, BIT4_0), (BIT4_X, BIT4_1)]
      else if c = CHR ''P'' then [(BIT4_0, BIT4_X), (BIT4_0, BIT4_1)]
      else if c = CHR ''N'' then [(BIT4_1, BIT4_X), (BIT4_1, BIT4_0)]
      else if c = CHR ''q'' \<or> c = CHR ''%'' then [(BIT4_0, BIT4_X), (BIT4_1, BIT4_X)]
      else if c = CHR ''+'' then [(BIT4_0, BIT4_1), (BIT4_X, BIT4_1)]
      else if c = CHR ''_'' then [(BIT4_1, BIT4_0), (BIT4_X, BIT4_0)]
      else if c = CHR ''p'' then [(BIT4_0, BIT4_X), (BIT4_0, BIT4_1), (BIT4_X, BIT4_1)]
      else if c = CHR ''n'' then [(BIT4_1, BIT4_X), (BIT4_1, BIT4_0), (BIT4_X, BIT4_0)]
      else if c = CHR ''*'' then [(BIT4_0, BIT4_1), (BIT4_0, BIT4_X), (BIT4_1, BIT4_0), (BIT4_1, BIT4_X), (BIT4_X, BIT4_0), (BIT4_X, BIT4_1)]
      else [])"

abbreviation "level_chars \<equiv> set ''01xblh?''"
abbreviation "edge_chars \<equiv> set ''BfFMNPqQrR%+_''"

lemma not_level_char: "c \<notin> level_chars \<Longrightarrow> \<not> level_char c b"
  by (cases b) (simp_all add: level_char_def)

lemma level_no_edges: "c \<in> level_chars \<Longrightarrow> udp_edges c = []"
  by (simp only: list.set insert_iff empty_iff, elim disjE) (simp_all add: udp_edges_def)

section \<open>Masks\<close>

definition mask_of :: "vvp_bit4_t \<Rightarrow> 'a udp_levels_table_scheme \<Rightarrow> u64" where
  "mask_of b cur = (case b of BIT4_0 \<Rightarrow> mask0 cur | BIT4_1 \<Rightarrow> mask1 cur | _ \<Rightarrow> maskx cur)"

lemma or_masks_bits:
  "bit (mask_of b (or_masks m0 m1 mx m cur)) i \<longleftrightarrow>
     bit (mask_of b cur) i \<or> (case b of BIT4_0 \<Rightarrow> m0 | BIT4_1 \<Rightarrow> m1 | _ \<Rightarrow> mx) \<and> bit m i"
  by (cases b) (auto simp: or_masks_def mask_of_def Let_def bit_or_iff)

lemma or_char_masks:
  "or_based_on_char c m cur =
     (if c \<in> level_chars then Some (or_masks (level_char c BIT4_0) (level_char c BIT4_1) (level_char c BIT4_X) m cur) else None)"
  by (simp add: or_based_on_char_def level_char_def)

lemma or_char:
  assumes "or_based_on_char c m cur = Some cur'"
  shows "c \<in> level_chars \<and> (\<forall>b i. bit (mask_of b cur') i \<longleftrightarrow> bit (mask_of b cur) i \<or> level_char c b \<and> bit m i)"
proof -
  have c: "c \<in> level_chars" "cur' = or_masks (level_char c BIT4_0) (level_char c BIT4_1) (level_char c BIT4_X) m cur"
    using assms unfolding or_char_masks by (metis option.distinct(1), metis option.distinct(1) option.inject)
  have "bit (mask_of b cur') i \<longleftrightarrow> bit (mask_of b cur) i \<or> level_char c b \<and> bit m i" for b i
    unfolding c(2) or_masks_bits by (cases b) (simp_all add: level_char_def)
  then show ?thesis using c(1) by blast
qed

lemma or_masks_more:
  "edge_position (or_masks m0 m1 mx m cur) = edge_position cur" "edge_mask0 (or_masks m0 m1 mx m cur) = edge_mask0 cur"
  "edge_mask1 (or_masks m0 m1 mx m cur) = edge_mask1 cur" "edge_maskx (or_masks m0 m1 mx m cur) = edge_maskx cur"
  by (simp_all add: or_masks_def Let_def)

lemma or_char_more: "or_based_on_char c m cur = Some cur' \<Longrightarrow>
    edge_position cur' = edge_position cur \<and> edge_mask0 cur' = edge_mask0 cur \<and> edge_mask1 cur' = edge_mask1 cur \<and> edge_maskx cur' = edge_maskx cur"
  unfolding or_char_masks by (metis or_masks_more option.distinct(1) option.inject)

lemma bit_shl_one: "k < 64 \<Longrightarrow> bit (shl 1 k) i \<longleftrightarrow> i = k"
  by (auto simp: bit_shl bit_1_iff)

lemma level_fold:
  "foldM (\<lambda>pp. or_based_on_char (f pp) (shl 1 pp)) [0..<n] no_levels = Some cur \<Longrightarrow> n \<le> 64 \<Longrightarrow>
     (\<forall>i<n. f i \<in> level_chars) \<and> (\<forall>b i. bit (mask_of b cur) i \<longleftrightarrow> i < n \<and> level_char (f i) b)"
proof (induction n arbitrary: cur)
  case 0
  then show ?case by (auto simp: no_levels_def mask_of_def split: vvp_bit4_t.splits)
next
  case (Suc n)
  then obtain c where c: "foldM (\<lambda>pp. or_based_on_char (f pp) (shl 1 pp)) [0..<n] no_levels = Some c" "or_based_on_char (f n) (shl 1 n) c = Some cur"
    by (auto simp: foldM_append split: option.splits)
  show ?case using Suc.IH[OF c(1)] or_char[OF c(2)] Suc.prems(2) by (auto simp: bit_shl_one less_Suc_eq)
qed

text \<open>The masks of a list of inputs.\<close>

definition encodes :: "vvp_bit4_t list \<Rightarrow> 'a udp_levels_table_scheme \<Rightarrow> bool" where
  "encodes ins cur \<longleftrightarrow> length ins \<le> 64 \<and> BIT4_Z \<notin> set ins \<and> (\<forall>b i. b \<noteq> BIT4_Z \<longrightarrow> (bit (mask_of b cur) i \<longleftrightarrow> i < length ins \<and> ins ! i = b))"

lemma and_eq_iff: "(w :: u64) = w AND r \<longleftrightarrow> (\<forall>i. bit w i \<longrightarrow> bit r i)"
proof
  assume "w = w AND r"
  then have "bit w i = bit (w AND r) i" for i by (rule arg_cong)
  then show "\<forall>i. bit w i \<longrightarrow> bit r i" by (auto simp: bit_and_iff)
next
  assume a: "\<forall>i. bit w i \<longrightarrow> bit r i"
  show "w = w AND r" by (rule bit_eqI) (use a in \<open>auto simp: bit_and_iff\<close>)
qed

lemma all_inputs: "(\<forall>b. b \<noteq> BIT4_Z \<longrightarrow> P b) \<longleftrightarrow> P BIT4_0 \<and> P BIT4_1 \<and> P BIT4_X"
proof
  assume p: "P BIT4_0 \<and> P BIT4_1 \<and> P BIT4_X"
  show "\<forall>b. b \<noteq> BIT4_Z \<longrightarrow> P b"
  proof (intro allI impI)
    fix b assume "b \<noteq> BIT4_Z"
    then show "P b" using p by (cases b) simp_all
  qed
qed simp

lemma row_hit_masks: "row_hit cur row \<longleftrightarrow> (\<forall>b. b \<noteq> BIT4_Z \<longrightarrow> (\<forall>i. bit (mask_of b cur) i \<longrightarrow> bit (mask_of b row) i))"
  unfolding all_inputs row_hit_def and_eq_iff by (simp add: mask_of_def)

lemma row_hit_iff:
  assumes "encodes ins cur"
  shows "row_hit cur row \<longleftrightarrow> (\<forall>i<length ins. bit (mask_of (ins ! i) row) i)"
proof -
  have z: "i < length ins \<Longrightarrow> ins ! i \<noteq> BIT4_Z" for i using assms by (auto simp: encodes_def dest: nth_mem)
  have "row_hit cur row \<longleftrightarrow> (\<forall>b. b \<noteq> BIT4_Z \<longrightarrow> (\<forall>i. bit (mask_of b cur) i \<longrightarrow> bit (mask_of b row) i))"
    by (rule row_hit_masks)
  also have "\<dots> \<longleftrightarrow> (\<forall>b. b \<noteq> BIT4_Z \<longrightarrow> (\<forall>i. i < length ins \<and> ins ! i = b \<longrightarrow> bit (mask_of b row) i))"
    using assms by (simp add: encodes_def)
  also have "\<dots> \<longleftrightarrow> (\<forall>i<length ins. bit (mask_of (ins ! i) row) i)" using z by auto
  finally show ?thesis .
qed

lemma encodes_inject:
  assumes "encodes xs cur" "encodes ys prev" "length xs = length ys"
  shows "cur = (prev :: udp_levels_table) \<longleftrightarrow> xs = ys"
proof
  have nz: "i < length xs \<Longrightarrow> xs ! i \<noteq> BIT4_Z" for i using assms(1) by (auto simp: encodes_def dest: nth_mem)
  assume "cur = prev"
  then have "i < length xs \<Longrightarrow> ys ! i = xs ! i" for i using assms nz[of i] unfolding encodes_def by metis
  then show "xs = ys" using assms(3) by (simp add: list_eq_iff_nth_eq)
next
  assume e: "xs = ys"
  have "b \<noteq> BIT4_Z \<Longrightarrow> mask_of b cur = mask_of b prev" for b using assms e by (simp add: encodes_def bit_eq_iff)
  from this[of BIT4_0] this[of BIT4_1] this[of BIT4_X] show "cur = prev" by (simp add: mask_of_def)
qed

section \<open>Combinational primitives\<close>

definition comb_hit :: "nat \<Rightarrow> char \<Rightarrow> vvp_bit4_t list \<Rightarrow> string \<Rightarrow> bool" where
  "comb_hit n out ins row \<longleftrightarrow> row ! n = out \<and> (\<forall>i<n. level_char (row ! i) (ins ! i))"

definition comb_lookup :: "nat \<Rightarrow> string list \<Rightarrow> vvp_bit4_t list \<Rightarrow> vvp_bit4_t" where
  "comb_lookup n tab ins =
     (if list_ex (comb_hit n CHR ''0'' ins) tab then BIT4_0 else if list_ex (comb_hit n CHR ''1'' ins) tab then BIT4_1 else BIT4_X)"

lemma comb_row_hits:
  assumes "comb_compile_row row d = Some d'" "encodes ins cur" "length ins = comb_ports d"
  shows "comb_ports d' = comb_ports d \<and>
    (list_ex (row_hit cur) (comb_levels0 d') \<longleftrightarrow> list_ex (row_hit cur) (comb_levels0 d) \<or> comb_hit (comb_ports d) CHR ''0'' ins row) \<and>
    (list_ex (row_hit cur) (comb_levels1 d') \<longleftrightarrow> list_ex (row_hit cur) (comb_levels1 d) \<or> comb_hit (comb_ports d) CHR ''1'' ins row)"
proof -
  let ?n = "comb_ports d"
  obtain c where c: "foldM (\<lambda>pp. or_based_on_char (row ! pp) (shl 1 pp)) [0..<?n] no_levels = Some c" "row ! ?n \<in> set ''01x''" "?n \<le> 64"
    "d' = (if row ! ?n = CHR ''0'' then d\<lparr>comb_levels0 := comb_levels0 d @ [c]\<rparr>
              else if row ! ?n = CHR ''1'' then d\<lparr>comb_levels1 := comb_levels1 d @ [c]\<rparr> else d)"
    using assms(1) by (auto simp: comb_compile_row_def Let_def bind_eq_Some_conv split: if_splits)
  have "row_hit cur c \<longleftrightarrow> (\<forall>i<?n. level_char (row ! i) (ins ! i))"
    using level_fold[OF c(1,3)] by (simp add: row_hit_iff[OF assms(2)] assms(3))
  then show ?thesis using c(2,4) by (auto simp: comb_hit_def)
qed

lemma comb_table_hits:
  "foldM comb_compile_row tab d = Some d' \<Longrightarrow> encodes ins cur \<Longrightarrow> length ins = comb_ports d \<Longrightarrow> comb_ports d' = comb_ports d \<and>
    (list_ex (row_hit cur) (comb_levels0 d') \<longleftrightarrow> list_ex (row_hit cur) (comb_levels0 d) \<or> list_ex (comb_hit (comb_ports d) CHR ''0'' ins) tab) \<and>
    (list_ex (row_hit cur) (comb_levels1 d') \<longleftrightarrow> list_ex (row_hit cur) (comb_levels1 d) \<or> list_ex (comb_hit (comb_ports d) CHR ''1'' ins) tab)"
proof (induction tab arbitrary: d)
  case (Cons row tab)
  then obtain d1 where d1: "comb_compile_row row d = Some d1" "foldM comb_compile_row tab d1 = Some d'" by (auto split: option.splits)
  note r = comb_row_hits[OF d1(1) Cons.prems(2,3)]
  show ?case using r Cons.IH[OF d1(2) Cons.prems(2)] Cons.prems(3) by auto
qed simp

lemma comb_output:
  assumes "comb_compile_table n tab = Some d" "encodes ins cur" "length ins = n"
  shows "comb_ports d = n \<and> comb_test_levels d cur = comb_lookup n tab ins"
  using comb_table_hits[OF assms(1)[unfolded comb_compile_table_def] assms(2)] assms(3)
  by (simp add: comb_test_levels_def comb_lookup_def)

end
