(* ===== verification/Udp_Edges.thy ===== *)
theory Udp_Edges
  imports Udp_Rows
begin

text \<open>The rows with edges of sequential primitives: the compiled rows and the loop over the changed inputs.\<close>

section \<open>Letters of compiled rows\<close>

text \<open>The value a letter asks for now, and before.\<close>

definition to_char :: "char \<Rightarrow> vvp_bit4_t \<Rightarrow> bool" where
  "to_char c b \<longleftrightarrow> level_char c b \<or> (case b of BIT4_0 \<Rightarrow> c \<in> set ''BfFN_'' | BIT4_1 \<Rightarrow> c \<in> set ''BPrR+'' | _ \<Rightarrow> c \<in> set ''MNPqQ%'')"

definition from_char :: "char \<Rightarrow> vvp_bit4_t \<Rightarrow> bool" where
  "from_char c b \<longleftrightarrow> (case b of BIT4_0 \<Rightarrow> c \<in> set ''PqQr%+'' | BIT4_1 \<Rightarrow> c \<in> set ''fMNq%_'' | _ \<Rightarrow> c \<in> set ''BFR+_'')"

definition from_of :: "vvp_bit4_t \<Rightarrow> udp_edges_table \<Rightarrow> bool" where
  "from_of b row = (case b of BIT4_0 \<Rightarrow> edge_mask0 row | BIT4_1 \<Rightarrow> edge_mask1 row | _ \<Rightarrow> edge_maskx row)"

lemma bit_int_bit: "pos \<le> 31 \<Longrightarrow> i \<le> 31 \<Longrightarrow> bit (int_bit pos) i \<longleftrightarrow> i = pos"
  by (auto simp: int_bit_def bit_signed_iff bit_push_bit_iff bit_1_iff bit_exp_iff)

lemma edge_masks:
  "edge_based_on_char c pos cur =
     (if c \<in> level_chars then or_based_on_char c (int_bit pos) cur
      else if c \<in> edge_chars then Some (set_edge pos (from_char c BIT4_0) (from_char c BIT4_X) (from_char c BIT4_1)
        (or_masks (to_char c BIT4_0) (to_char c BIT4_1) (to_char c BIT4_X) (int_bit pos) cur))
      else None)"
  by (simp add: edge_based_on_char_def Let_def from_char_def to_char_def level_char_def)

lemma edge_char:
  assumes "edge_based_on_char c pos cur = Some cur'" "pos \<le> 31"
  shows "c \<in> level_chars \<union> edge_chars \<and>
    (\<forall>b i. b \<noteq> BIT4_Z \<longrightarrow> i \<le> 31 \<longrightarrow> (bit (mask_of b cur') i \<longleftrightarrow> bit (mask_of b cur) i \<or> to_char c b \<and> i = pos)) \<and>
    (if c \<in> level_chars then edge_position cur' = edge_position cur \<and> (\<forall>b. from_of b cur' = from_of b cur)
     else edge_position cur' = pos \<and> (\<forall>b. b \<noteq> BIT4_Z \<longrightarrow> from_of b cur' = from_char c b))"
proof (cases "c \<in> level_chars")
  case True
  then have o: "or_based_on_char c (int_bit pos) cur = Some cur'" using assms(1) unfolding edge_masks by (simp only: if_True)
  have "to_char c b = level_char c b" for b
    using True by (simp only: list.set insert_iff empty_iff, elim disjE) (cases b; simp add: to_char_def)+
  moreover have "from_of b cur' = from_of b cur" for b using or_char_more[OF o] by (cases b) (simp_all add: from_of_def)
  ultimately show ?thesis using or_char[OF o] or_char_more[OF o] True assms(2) by (simp only: Un_iff if_True bit_int_bit) (simp add: bit_int_bit)
next
  case False
  then have c: "c \<in> edge_chars" "cur' = set_edge pos (from_char c BIT4_0) (from_char c BIT4_X) (from_char c BIT4_1)
        (or_masks (to_char c BIT4_0) (to_char c BIT4_1) (to_char c BIT4_X) (int_bit pos) cur)"
    using assms(1) unfolding edge_masks by (metis option.distinct(1), metis option.distinct(1) option.inject)
  have m: "mask_of b cur' = mask_of b (or_masks (to_char c BIT4_0) (to_char c BIT4_1) (to_char c BIT4_X) (int_bit pos) cur)" for b
    unfolding c(2) by (cases b) (simp_all add: set_edge_def mask_of_def)
  have "bit (mask_of b cur') i \<longleftrightarrow> bit (mask_of b cur) i \<or> to_char c b \<and> i = pos" if "b \<noteq> BIT4_Z" "i \<le> 31" for b i
    unfolding m or_masks_bits bit_int_bit[OF assms(2) that(2)] using that(1) by (cases b) simp_all
  moreover have "edge_position cur' = pos" unfolding c(2) using assms(2) by (simp add: set_edge_def)
  moreover have "from_of b cur' = from_char c b" if "b \<noteq> BIT4_Z" for b
    unfolding c(2) using that by (cases b) (simp_all add: set_edge_def from_of_def)
  ultimately show ?thesis using c(1) False by (simp only: Un_iff if_False) blast
qed

text \<open>A row built from the letters \<open>f\<close> at the positions below \<open>n\<close>.\<close>

definition built :: "nat \<Rightarrow> (nat \<Rightarrow> char) \<Rightarrow> udp_edges_table \<Rightarrow> bool" where
  "built n f row \<longleftrightarrow> (\<forall>i<n. f i \<in> level_chars \<union> edge_chars) \<and>
     (\<forall>b i. b \<noteq> BIT4_Z \<longrightarrow> i \<le> 31 \<longrightarrow> (bit (mask_of b row) i \<longleftrightarrow> i < n \<and> to_char (f i) b)) \<and>
     (\<forall>k<n. f k \<notin> level_chars \<and> (\<forall>i<n. i \<noteq> k \<longrightarrow> f i \<in> level_chars) \<longrightarrow>
       edge_position row = k \<and> (\<forall>b. b \<noteq> BIT4_Z \<longrightarrow> from_of b row = from_char (f k) b))"

lemma built_0: "built 0 f no_edges"
  by (simp add: built_def no_edges_def mask_of_def split: vvp_bit4_t.split)

lemma built_Suc:
  assumes "built n f row" "edge_based_on_char (f n) n row = Some row'" "n \<le> 31"
  shows "built (Suc n) f row'"
proof -
  note e = edge_char[OF assms(2,3)]
  have "edge_position row' = k \<and> (\<forall>b. b \<noteq> BIT4_Z \<longrightarrow> from_of b row' = from_char (f k) b)"
    if k: "k < Suc n" "f k \<notin> level_chars" "\<forall>i<Suc n. i \<noteq> k \<longrightarrow> f i \<in> level_chars" for k
  proof (cases "k = n")
    case True
    then have "(f n \<in> level_chars) = False" using k(2) by blast
    then show ?thesis using e unfolding True by (simp only: if_False) blast
  next
    case False
    then have f: "f n \<in> level_chars" "k < n" "\<forall>i<n. i \<noteq> k \<longrightarrow> f i \<in> level_chars" using k by (simp_all only: less_Suc_eq) blast+
    have "edge_position row = k \<and> (\<forall>b. b \<noteq> BIT4_Z \<longrightarrow> from_of b row = from_char (f k) b)"
      using assms(1) f k(2) unfolding built_def by blast
    then show ?thesis using e f(1) by (simp only: if_True) blast
  qed
  moreover have "\<forall>i<Suc n. f i \<in> level_chars \<union> edge_chars" using assms(1) e unfolding built_def less_Suc_eq by blast
  moreover have "bit (mask_of b row') i \<longleftrightarrow> i < Suc n \<and> to_char (f i) b" if "b \<noteq> BIT4_Z" "i \<le> 31" for b i
  proof -
    have "bit (mask_of b row) i \<longleftrightarrow> i < n \<and> to_char (f i) b" using assms(1) that unfolding built_def by blast
    moreover have "bit (mask_of b row') i \<longleftrightarrow> bit (mask_of b row) i \<or> to_char (f n) b \<and> i = n" using e that by blast
    ultimately show ?thesis unfolding less_Suc_eq by blast
  qed
  ultimately show ?thesis unfolding built_def by blast
qed

section \<open>Rows with an edge\<close>

definition sub_cur :: "char \<Rightarrow> char" where
  "sub_cur c = (if c = CHR ''n'' then CHR ''N'' else if c = CHR ''p'' \<or> c = CHR ''*'' then CHR ''P'' else c)"

definition sub_ext0 :: "char \<Rightarrow> char" where
  "sub_ext0 c = (if c = CHR ''n'' then CHR ''_'' else if c = CHR ''p'' then CHR ''+'' else if c = CHR ''*'' then CHR ''N'' else c)"

definition sub_ext1 :: "char \<Rightarrow> char" where
  "sub_ext1 c = (if c = CHR ''*'' then CHR ''B'' else c)"

definition rows_built :: "nat \<Rightarrow> (nat \<Rightarrow> char) \<Rightarrow> edge_rows \<Rightarrow> bool" where
  "rows_built n g er \<longleftrightarrow> built n (\<lambda>i. sub_cur (g i)) (er_cur er) \<and> built n (\<lambda>i. sub_ext0 (g i)) (er_ext0 er) \<and>
     ((\<forall>i<n. g i \<notin> set ''np'') \<longrightarrow> built n (\<lambda>i. sub_ext1 (g i)) (er_ext1 er)) \<and>
     (need_ext0 er \<longleftrightarrow> (\<exists>i<n. g i \<in> set ''np*'')) \<and> (need_ext1 er \<longleftrightarrow> (\<exists>i<n. g i = CHR ''*''))"

lemma rows_built_port:
  assumes "rows_built n g er" "edge_rows_port (g n) n er = Some er'" "n \<le> 31"
  shows "rows_built (Suc n) g er'"
proof -
  have r: "built n (\<lambda>i. sub_cur (g i)) (er_cur er)" "built n (\<lambda>i. sub_ext0 (g i)) (er_ext0 er)"
    "(\<forall>i<n. g i \<notin> set ''np'') \<Longrightarrow> built n (\<lambda>i. sub_ext1 (g i)) (er_ext1 er)"
    "need_ext0 er \<longleftrightarrow> (\<exists>i<n. g i \<in> set ''np*'')" "need_ext1 er \<longleftrightarrow> (\<exists>i<n. g i = CHR ''*'')"
    using assms(1) unfolding rows_built_def by blast+
  note b = built_Suc[OF r(1) _ assms(3)] built_Suc[OF r(2) _ assms(3)] built_Suc[OF r(3) _ assms(3)]
  consider "g n = CHR ''n''" | "g n = CHR ''p''" | "g n = CHR ''*''" | "g n \<noteq> CHR ''n''" "g n \<noteq> CHR ''p''" "g n \<noteq> CHR ''*''" by blast
  then show ?thesis
  proof cases
    case 1
    then obtain cur ext0 where e: "edge_based_on_char CHR ''N'' n (er_cur er) = Some cur" "edge_based_on_char CHR ''_'' n (er_ext0 er) = Some ext0"
      "er' = er\<lparr>er_cur := cur, er_ext0 := ext0, need_ext0 := True\<rparr>"
      using assms(2) by (auto simp: edge_rows_port_def bind_eq_Some_conv)
    show ?thesis using b(1)[of cur] b(2)[of ext0] e 1 r(5) by (auto simp: rows_built_def sub_cur_def sub_ext0_def less_Suc_eq)
  next
    case 2
    then obtain cur ext0 where e: "edge_based_on_char CHR ''P'' n (er_cur er) = Some cur" "edge_based_on_char CHR ''+'' n (er_ext0 er) = Some ext0"
      "er' = er\<lparr>er_cur := cur, er_ext0 := ext0, need_ext0 := True\<rparr>"
      using assms(2) by (auto simp: edge_rows_port_def bind_eq_Some_conv)
    show ?thesis using b(1)[of cur] b(2)[of ext0] e 2 r(5) by (auto simp: rows_built_def sub_cur_def sub_ext0_def less_Suc_eq)
  next
    case 3
    then obtain cur ext0 ext1 where e: "edge_based_on_char CHR ''P'' n (er_cur er) = Some cur" "edge_based_on_char CHR ''N'' n (er_ext0 er) = Some ext0"
      "edge_based_on_char CHR ''B'' n (er_ext1 er) = Some ext1" "er' = er\<lparr>er_cur := cur, er_ext0 := ext0, er_ext1 := ext1, need_ext0 := True, need_ext1 := True\<rparr>"
      using assms(2) by (auto simp: edge_rows_port_def bind_eq_Some_conv)
    show ?thesis using b(1)[of cur] b(2)[of ext0] b(3)[of ext1] e 3 by (auto simp: rows_built_def sub_cur_def sub_ext0_def sub_ext1_def less_Suc_eq)
  next
    case 4
    then obtain cur ext0 ext1 where e: "edge_based_on_char (g n) n (er_cur er) = Some cur" "edge_based_on_char (g n) n (er_ext0 er) = Some ext0"
      "edge_based_on_char (g n) n (er_ext1 er) = Some ext1" "er' = er\<lparr>er_cur := cur, er_ext0 := ext0, er_ext1 := ext1\<rparr>"
      using assms(2) by (auto simp: edge_rows_port_def bind_eq_Some_conv)
    show ?thesis using b(1)[of cur] b(2)[of ext0] b(3)[of ext1] e 4 r(4,5) by (auto simp: rows_built_def sub_cur_def sub_ext0_def sub_ext1_def less_Suc_eq)
  qed
qed

lemma rows_built_ports:
  "foldM (\<lambda>pp. edge_rows_port (g pp) pp) [0..<n]
     \<lparr>er_cur = no_edges, er_ext0 = no_edges, er_ext1 = no_edges, need_ext0 = False, need_ext1 = False\<rparr> = Some er \<Longrightarrow> n \<le> 32 \<Longrightarrow> rows_built n g er"
proof (induction n arbitrary: er)
  case 0
  then show ?case by (auto simp: rows_built_def built_0)
next
  case (Suc n)
  then obtain er1 where "foldM (\<lambda>pp. edge_rows_port (g pp) pp) [0..<n]
     \<lparr>er_cur = no_edges, er_ext0 = no_edges, er_ext1 = no_edges, need_ext0 = False, need_ext1 = False\<rparr> = Some er1" "edge_rows_port (g n) n er1 = Some er"
    by (auto simp: foldM_append split: option.splits)
  then show ?case using Suc.IH[of er1] Suc.prems(2) rows_built_port by simp
qed

text \<open>The edges of the rows that a letter needs are the edges of the letter.\<close>

lemma sub_edges:
  assumes "c \<in> edge_chars \<union> set ''np*''" "a \<noteq> BIT4_Z" "b \<noteq> BIT4_Z"
  shows "from_char (sub_cur c) a \<and> to_char (sub_cur c) b \<or> c \<in> set ''np*'' \<and> from_char (sub_ext0 c) a \<and> to_char (sub_ext0 c) b \<or>
     c = CHR ''*'' \<and> from_char (sub_ext1 c) a \<and> to_char (sub_ext1 c) b \<longleftrightarrow> (a, b) \<in> set (udp_edges c)"
  using assms
  by (simp only: list.set insert_iff empty_iff Un_iff, elim disjE)
    (cases a; cases b; simp add: from_char_def to_char_def level_char_def sub_cur_def sub_ext0_def sub_ext1_def udp_edges_def)+

end
