(* ===== verification/Udp_Seq.thy ===== *)
theory Udp_Seq
  imports Udp_Edges
begin

text \<open>Sequential primitives: the output is the one that the rows of the table name.\<close>

section \<open>The meaning of a table\<close>

text \<open>A row of levels, and a row with an edge from \<open>a\<close> at input \<open>k\<close>; \<open>full\<close> are the inputs and the output.\<close>

definition level_hit :: "nat \<Rightarrow> char \<Rightarrow> vvp_bit4_t list \<Rightarrow> string \<Rightarrow> bool" where
  "level_hit n out full row \<longleftrightarrow> row ! (n + 1) = out \<and> (\<forall>i<n. level_char (row ! (i + 1)) (full ! i)) \<and> level_char (row ! 0) (full ! n)"

definition edge_hit_row :: "nat \<Rightarrow> char \<Rightarrow> vvp_bit4_t \<Rightarrow> nat \<Rightarrow> vvp_bit4_t list \<Rightarrow> string \<Rightarrow> bool" where
  "edge_hit_row n out a k full row \<longleftrightarrow> row ! (n + 1) = out \<and> (a, full ! k) \<in> set (udp_edges (row ! (k + 1))) \<and>
     (\<forall>i<n. i \<noteq> k \<longrightarrow> level_char (row ! (i + 1)) (full ! i)) \<and> level_char (row ! 0) (full ! n)"

definition seq_lookup :: "nat \<Rightarrow> string list \<Rightarrow> vvp_bit4_t \<Rightarrow> nat \<Rightarrow> vvp_bit4_t list \<Rightarrow> vvp_bit4_t \<Rightarrow> vvp_bit4_t" where
  "seq_lookup n tab a k ins out =
     (let full = ins @ [out]; levels = (\<lambda>c. list_ex (level_hit n c full) tab); edges = (\<lambda>c. list_ex (edge_hit_row n c a k full) tab)
      in if levels CHR ''0'' then BIT4_0 else if levels CHR ''1'' then BIT4_1 else if levels CHR ''x'' then BIT4_X
         else if levels CHR ''-'' then out
         else if edges CHR ''0'' then BIT4_0 else if edges CHR ''1'' then BIT4_1 else if edges CHR ''-'' then out else BIT4_X)"

text \<open>A row may have one edge, at an input.\<close>

definition one_edge :: "nat \<Rightarrow> string \<Rightarrow> bool" where
  "one_edge n row \<longleftrightarrow> row ! 0 \<in> level_chars \<and>
     (\<forall>i<n. \<forall>j<n. row ! (i + 1) \<notin> level_chars \<longrightarrow> row ! (j + 1) \<notin> level_chars \<longrightarrow> i = j)"

section \<open>Compiled rows\<close>

definition cell :: "nat \<Rightarrow> string \<Rightarrow> nat \<Rightarrow> char" where
  "cell n row i = (if i < n then row ! (i + 1) else row ! 0)"

lemma all_less_Suc: "(\<forall>i<Suc n. P i) \<longleftrightarrow> (\<forall>i<n. P i) \<and> P n"
  by (auto simp: less_Suc_eq)

lemma level_row_hits:
  assumes "seq_level_row row d = Some d'" "encodes full cur" "length full = Suc (seq_ports d)" "seq_ports d < 64"
  shows "seq_ports d' = seq_ports d \<and>
    (list_ex (row_hit cur) (levels0 d') \<longleftrightarrow> list_ex (row_hit cur) (levels0 d) \<or> level_hit (seq_ports d) CHR ''0'' full row) \<and>
    (list_ex (row_hit cur) (levels1 d') \<longleftrightarrow> list_ex (row_hit cur) (levels1 d) \<or> level_hit (seq_ports d) CHR ''1'' full row) \<and>
    (list_ex (row_hit cur) (levelsx d') \<longleftrightarrow> list_ex (row_hit cur) (levelsx d) \<or> level_hit (seq_ports d) CHR ''x'' full row) \<and>
    (list_ex (row_hit cur) (levelsL d') \<longleftrightarrow> list_ex (row_hit cur) (levelsL d) \<or> level_hit (seq_ports d) CHR ''-'' full row) \<and>
    edges0 d' = edges0 d \<and> edges1 d' = edges1 d \<and> edgesL d' = edgesL d"
proof -
  let ?n = "seq_ports d" and ?out = "row ! (seq_ports d + 1)"
  obtain c1 c where c: "foldM (\<lambda>pp. or_based_on_char (row ! (pp + 1)) (shl 1 pp)) [0..<?n] no_levels = Some c1"
    "or_based_on_char (row ! 0) (shl 1 ?n) c1 = Some c"
    and out: "(if ?out = CHR ''0'' then Some (d\<lparr>levels0 := levels0 d @ [c]\<rparr>)
        else if ?out = CHR ''1'' then Some (d\<lparr>levels1 := levels1 d @ [c]\<rparr>)
        else if ?out = CHR ''x'' then Some (d\<lparr>levelsx := levelsx d @ [c]\<rparr>)
        else if ?out = CHR ''-'' then Some (d\<lparr>levelsL := levelsL d @ [c]\<rparr>)
        else None) = Some d'"
    using assms(1) unfolding seq_level_row_def Let_def bind_eq_Some_conv by blast
  note l = level_fold[OF c(1)] and o = or_char[OF c(2)]
  have "row_hit cur c \<longleftrightarrow> (\<forall>i<?n. level_char (row ! (i + 1)) (full ! i)) \<and> level_char (row ! 0) (full ! ?n)"
    unfolding row_hit_iff[OF assms(2)] assms(3) all_less_Suc using l o assms(4) by (auto simp: bit_shl_one)
  then have h: "\<And>x. ?out = x \<Longrightarrow> level_hit ?n x full row = row_hit cur c" "\<And>x. ?out \<noteq> x \<Longrightarrow> \<not> level_hit ?n x full row"
    unfolding level_hit_def by blast+
  consider "?out = CHR ''0''" | "?out = CHR ''1''" | "?out = CHR ''x''" | "?out = CHR ''-''"
    using out by (metis option.distinct(1))
  then show ?thesis
  proof cases
    case 1
    have "d' = d\<lparr>levels0 := levels0 d @ [c]\<rparr>" using out 1 by simp
    then show ?thesis using h(1)[OF 1] h(2) 1 by simp
  next
    case 2
    have "d' = d\<lparr>levels1 := levels1 d @ [c]\<rparr>" using out 2 by simp
    then show ?thesis using h(1)[OF 2] h(2) 2 by simp
  next
    case 3
    have "d' = d\<lparr>levelsx := levelsx d @ [c]\<rparr>" using out 3 by simp
    then show ?thesis using h(1)[OF 3] h(2) 3 by simp
  next
    case 4
    have "d' = d\<lparr>levelsL := levelsL d @ [c]\<rparr>" using out 4 by simp
    then show ?thesis using h(1)[OF 4] h(2) 4 by simp
  qed
qed

lemma built_hit:
  assumes "built (Suc n) f row" "n \<le> 31" "j < n" "f j \<notin> level_chars" "\<forall>i<Suc n. i \<noteq> j \<longrightarrow> f i \<in> level_chars"
    "encodes full cur" "length full = Suc n" "a \<noteq> BIT4_Z"
  shows "edge_row_hit k (a = BIT4_0) (a = BIT4_X) (a = BIT4_1) cur row \<longleftrightarrow> j = k \<and> from_char (f j) a \<and> to_char (f j) (full ! j) \<and>
     (\<forall>i<Suc n. i \<noteq> j \<longrightarrow> level_char (f i) (full ! i))"
proof -
  have j: "edge_position row = j" "from_of a row = from_char (f j) a"
    using assms(1,3,4,5,8) unfolding built_def by (metis less_SucI)+
  have z: "i < Suc n \<Longrightarrow> full ! i \<noteq> BIT4_Z" for i using assms(6,7) by (metis encodes_def nth_mem)
  have "bit (mask_of (full ! i) row) i \<longleftrightarrow> to_char (f i) (full ! i)" if "i < Suc n" for i
    using assms(1,2) z[OF that] that unfolding built_def by simp
  then have "row_hit cur row \<longleftrightarrow> (\<forall>i<Suc n. to_char (f i) (full ! i))"
    unfolding row_hit_iff[OF assms(6)] assms(7) by blast
  moreover have "to_char (f i) b = level_char (f i) b" if "i < Suc n" "i \<noteq> j" for i b
  proof -
    have "f i \<in> level_chars" using assms(5) that by blast
    then show ?thesis by (simp only: list.set insert_iff empty_iff, elim disjE) (cases b; simp add: to_char_def)+
  qed
  ultimately have "row_hit cur row \<longleftrightarrow> to_char (f j) (full ! j) \<and> (\<forall>i<Suc n. i \<noteq> j \<longrightarrow> level_char (f i) (full ! i))"
    using assms(3) by (metis less_SucI)
  moreover have "edge_row_hit k (a = BIT4_0) (a = BIT4_X) (a = BIT4_1) cur row \<longleftrightarrow> edge_position row = k \<and> from_of a row \<and> row_hit cur row"
    using assms(8) by (cases a) (auto simp: edge_row_hit_def from_of_def)
  ultimately show ?thesis using j by blast
qed

text \<open>The rows compiled from one row with its edge at input \<open>j\<close>.\<close>

lemma edge_rows_hit:
  assumes g: "rows_built n g er" "edge_based_on_char (g n) n (er_cur er) = Some cur0" "edge_based_on_char (g n) n (er_ext0 er) = Some ext0"
    "edge_based_on_char (g n) n (er_ext1 er) = Some ext1"
    and one: "n \<le> 31" "j < n" "g j \<notin> level_chars" "\<forall>i<Suc n. i \<noteq> j \<longrightarrow> g i \<in> level_chars"
    and full: "encodes full cur" "length full = Suc n" "a \<noteq> BIT4_Z"
  shows "list_ex (edge_row_hit k (a = BIT4_0) (a = BIT4_X) (a = BIT4_1) cur)
      ([cur0] @ (if need_ext0 er then [ext0] else []) @ (if need_ext1 er then [ext1] else [])) \<longleftrightarrow>
    j = k \<and> (a, full ! j) \<in> set (udp_edges (g j)) \<and> (\<forall>i<Suc n. i \<noteq> j \<longrightarrow> level_char (g i) (full ! i))"
proof -
  let ?hit = "edge_row_hit k (a = BIT4_0) (a = BIT4_X) (a = BIT4_1) cur"
  have r: "built n (\<lambda>i. sub_cur (g i)) (er_cur er)" "built n (\<lambda>i. sub_ext0 (g i)) (er_ext0 er)"
    "(\<forall>i<n. g i \<notin> set ''np'') \<Longrightarrow> built n (\<lambda>i. sub_ext1 (g i)) (er_ext1 er)"
    "need_ext0 er \<longleftrightarrow> (\<exists>i<n. g i \<in> set ''np*'')" "need_ext1 er \<longleftrightarrow> (\<exists>i<n. g i = CHR ''*'')"
    using g(1) unfolding rows_built_def by blast+
  have lv: "c \<in> level_chars \<Longrightarrow> sub_cur c = c \<and> sub_ext0 c = c \<and> sub_ext1 c = c \<and> c \<notin> set ''np*''" for c
    by (simp only: list.set insert_iff empty_iff, elim disjE) (simp_all add: sub_cur_def sub_ext0_def sub_ext1_def)
  have gn: "g n \<in> level_chars" using one(2,4) by simp
  note gn = this lv[OF this]
  have b: "built (Suc n) (\<lambda>i. sub_cur (g i)) cur0" "built (Suc n) (\<lambda>i. sub_ext0 (g i)) ext0"
    by (rule built_Suc[OF r(1)], use g(2) gn one(1) in simp_all, rule built_Suc[OF r(2)], use g(3) gn one(1) in simp_all)
  have b1: "built (Suc n) (\<lambda>i. sub_ext1 (g i)) ext1" if "need_ext1 er"
  proof (rule built_Suc[OF r(3)])
    have "g j = CHR ''*''" using that one(2,4) lv unfolding r(5) by (metis less_SucI list.set_intros(1,2))
    then have "g i \<notin> set ''np''" if "i < n" for i
    proof (cases "i = j")
      case False
      then have "g i \<notin> set ''np*''" using one(4) lv that less_SucI by blast
      then show ?thesis by simp
    qed simp
    then show "\<forall>i<n. g i \<notin> set ''np''" by blast
  qed (use g(4) gn one(1) in simp_all)
  have need: "need_ext0 er \<longleftrightarrow> g j \<in> set ''np*''" "need_ext1 er \<longleftrightarrow> g j = CHR ''*''"
    using one(2,4) lv unfolding r(4,5) by (metis less_SucI, metis less_SucI list.set_intros(1,2))
  have ok: "i < Suc n \<Longrightarrow> i \<noteq> j \<Longrightarrow> sub_cur (g i) = g i \<and> sub_ext0 (g i) = g i \<and> sub_ext1 (g i) = g i" for i using one(4) lv by blast
  have gj: "g j \<in> edge_chars \<union> set ''np*''"
  proof (cases "g j \<in> set ''np*''")
    case False
    then have "sub_cur (g j) = g j" by (simp add: sub_cur_def)
    moreover have "sub_cur (g j) \<in> level_chars \<union> edge_chars" using r(1) one(2) unfolding built_def by blast
    ultimately show ?thesis using one(3) by (simp only: Un_iff) blast
  qed blast
  then have sj: "sub_cur (g j) \<notin> level_chars \<and> sub_ext0 (g j) \<notin> level_chars \<and> sub_ext1 (g j) \<notin> level_chars"
    by (simp only: list.set insert_iff empty_iff Un_iff, elim disjE) (simp_all add: sub_cur_def sub_ext0_def sub_ext1_def)
  have all: "(\<forall>i<Suc n. i \<noteq> j \<longrightarrow> level_char (f (g i)) (full ! i)) \<longleftrightarrow> (\<forall>i<Suc n. i \<noteq> j \<longrightarrow> level_char (g i) (full ! i))"
    if "f = sub_cur \<or> f = sub_ext0 \<or> f = sub_ext1" for f using that ok by metis
  have h: "?hit cur0 \<longleftrightarrow> j = k \<and> from_char (sub_cur (g j)) a \<and> to_char (sub_cur (g j)) (full ! j) \<and> (\<forall>i<Suc n. i \<noteq> j \<longrightarrow> level_char (g i) (full ! i))"
    "?hit ext0 \<longleftrightarrow> j = k \<and> from_char (sub_ext0 (g j)) a \<and> to_char (sub_ext0 (g j)) (full ! j) \<and> (\<forall>i<Suc n. i \<noteq> j \<longrightarrow> level_char (g i) (full ! i))"
    "need_ext1 er \<Longrightarrow> ?hit ext1 \<longleftrightarrow> j = k \<and> from_char (sub_ext1 (g j)) a \<and> to_char (sub_ext1 (g j)) (full ! j) \<and> (\<forall>i<Suc n. i \<noteq> j \<longrightarrow> level_char (g i) (full ! i))"
    using built_hit[OF b(1) one(1,2) _ _ full, of k] built_hit[OF b(2) one(1,2) _ _ full, of k] built_hit[OF b1 one(1,2) _ _ full, of k]
      sj ok one(4) all by simp_all
  have z: "full ! j \<noteq> BIT4_Z" using full one(2) by (metis encodes_def less_SucI nth_mem)
  note e = sub_edges[OF gj full(3) z]
  have "list_ex ?hit ([cur0] @ (if need_ext0 er then [ext0] else []) @ (if need_ext1 er then [ext1] else [])) \<longleftrightarrow>
      ?hit cur0 \<or> need_ext0 er \<and> ?hit ext0 \<or> need_ext1 er \<and> ?hit ext1" by simp
  also have "\<dots> \<longleftrightarrow> j = k \<and> (a, full ! j) \<in> set (udp_edges (g j)) \<and> (\<forall>i<Suc n. i \<noteq> j \<longrightarrow> level_char (g i) (full ! i))"
    using h need e by blast
  finally show ?thesis .
qed

lemma strspn_first: "m \<le> length s \<Longrightarrow> m \<le> strspn s accept \<longleftrightarrow> (\<forall>i<m. s ! i \<in> set accept)"
proof
  assume m: "m \<le> strspn s accept"
  show "\<forall>i<m. s ! i \<in> set accept"
  proof (intro allI impI)
    fix i assume "i < m"
    then have "i < length (takeWhile (\<lambda>c. c \<in> set accept) s)" using m by (simp add: strspn_def)
    then show "s ! i \<in> set accept" by (metis nth_mem set_takeWhileD takeWhile_nth)
  qed
next
  assume m: "m \<le> length s" "\<forall>i<m. s ! i \<in> set accept"
  show "m \<le> strspn s accept"
  proof (rule ccontr)
    assume "\<not> m \<le> strspn s accept"
    then have l: "length (takeWhile (\<lambda>c. c \<in> set accept) s) < m" by (simp add: strspn_def)
    then have "s ! length (takeWhile (\<lambda>c. c \<in> set accept) s) \<notin> set accept" using m(1) nth_length_takeWhile[of "\<lambda>c. c \<in> set accept" s] by simp
    then show False using l m(2) by blast
  qed
qed

lemma first_cells: "(\<forall>i<n + 1. row ! i \<in> A) \<longleftrightarrow> row ! 0 \<in> A \<and> (\<forall>i<n. row ! (i + 1) \<in> A)"
  by (metis Suc_eq_plus1 gr0_conv_Suc less_Suc_eq_0_disj)

definition change_hit :: "vvp_bit4_t \<Rightarrow> nat \<Rightarrow> udp_levels_table \<Rightarrow> udp_edges_table \<Rightarrow> bool" where
  "change_hit a k = edge_row_hit k (a = BIT4_0) (a = BIT4_X) (a = BIT4_1)"

lemma edge_row_hits:
  assumes "seq_edge_row row d = Some d'" and n: "n = seq_ports d" "n \<le> 31" and row: "length row = n + 2" "one_edge n row" "\<not> n + 1 \<le> strspn row ''01xblh?''"
    and full: "encodes full cur" "length full = Suc n" "a \<noteq> BIT4_Z" "k < n"
  shows "seq_ports d' = seq_ports d \<and> levels0 d' = levels0 d \<and> levels1 d' = levels1 d \<and> levelsx d' = levelsx d \<and> levelsL d' = levelsL d \<and>
    (list_ex (change_hit a k cur) (edges0 d') \<longleftrightarrow> list_ex (change_hit a k cur) (edges0 d) \<or> edge_hit_row n CHR ''0'' a k full row) \<and>
    (list_ex (change_hit a k cur) (edges1 d') \<longleftrightarrow> list_ex (change_hit a k cur) (edges1 d) \<or> edge_hit_row n CHR ''1'' a k full row) \<and>
    (list_ex (change_hit a k cur) (edgesL d') \<longleftrightarrow> list_ex (change_hit a k cur) (edgesL d) \<or> edge_hit_row n CHR ''-'' a k full row)"
proof -
  let ?out = "row ! (n + 1)" and ?g = "cell n row"
  obtain er c0 e0 e1 where c: "foldM (\<lambda>pp. edge_rows_port (row ! (pp + 1)) pp) [0..<n]
      \<lparr>er_cur = no_edges, er_ext0 = no_edges, er_ext1 = no_edges, need_ext0 = False, need_ext1 = False\<rparr> = Some er"
    "edge_based_on_char (row ! 0) n (er_cur er) = Some c0" "edge_based_on_char (row ! 0) n (er_ext0 er) = Some e0"
    "edge_based_on_char (row ! 0) n (er_ext1 er) = Some e1"
    and out: "(if ?out = CHR ''0'' then Some (d\<lparr>edges0 := edges0 d @ ([c0] @ (if need_ext0 er then [e0] else []) @ (if need_ext1 er then [e1] else []))\<rparr>)
        else if ?out = CHR ''1'' then Some (d\<lparr>edges1 := edges1 d @ ([c0] @ (if need_ext0 er then [e0] else []) @ (if need_ext1 er then [e1] else []))\<rparr>)
        else if ?out = CHR ''x'' then Some d
        else if ?out = CHR ''-'' then Some (d\<lparr>edgesL := edgesL d @ ([c0] @ (if need_ext0 er then [e0] else []) @ (if need_ext1 er then [e1] else []))\<rparr>)
        else None) = Some d'"
    using assms(1) unfolding seq_edge_row_def Let_def bind_eq_Some_conv n(1)[symmetric] by blast
  have "foldM (\<lambda>pp. edge_rows_port (?g pp) pp) [0..<n]
      \<lparr>er_cur = no_edges, er_ext0 = no_edges, er_ext1 = no_edges, need_ext0 = False, need_ext1 = False\<rparr> = Some er"
    using c(1) by (subst foldM_cong[where g = "\<lambda>pp. edge_rows_port (row ! (pp + 1)) pp"]) (simp_all add: cell_def)
  then have g: "rows_built n ?g er" "?g n = row ! 0" by (rule rows_built_ports) (use n in \<open>simp_all add: cell_def\<close>)
  obtain j where j: "j < n" "row ! (j + 1) \<notin> level_chars"
    using row strspn_first[of "n + 1" row "''01xblh?''"] unfolding first_cells one_edge_def by auto
  have "?g i \<in> level_chars" if "i \<noteq> j" for i
  proof (cases "i < n")
    case True
    then have "row ! (i + 1) \<in> level_chars" using j row(2) that unfolding one_edge_def by blast
    then show ?thesis using True by (simp only: cell_def if_True)
  next
    case False
    then show ?thesis using row(2) by (simp only: cell_def if_False one_edge_def)
  qed
  then have "\<forall>i<Suc n. i \<noteq> j \<longrightarrow> ?g i \<in> level_chars" by blast
  moreover have "?g j \<notin> level_chars" using j by (simp only: cell_def if_True not_False_eq_True)
  ultimately have one: "?g j \<notin> level_chars" "\<forall>i<Suc n. i \<noteq> j \<longrightarrow> ?g i \<in> level_chars" by blast+
  define rows where "rows = [c0] @ (if need_ext0 er then [e0] else []) @ (if need_ext1 er then [e1] else [])"
  have "list_ex (change_hit a k cur) rows \<longleftrightarrow> j = k \<and> (a, full ! j) \<in> set (udp_edges (?g j)) \<and> (\<forall>i<Suc n. i \<noteq> j \<longrightarrow> level_char (?g i) (full ! i))"
    unfolding rows_def change_hit_def
    by (rule edge_rows_hit[OF g(1) _ _ _ n(2) j(1) one full(1-3)]) (use c g(2) in simp_all)
  also have "\<dots> \<longleftrightarrow> (a, full ! k) \<in> set (udp_edges (row ! (k + 1))) \<and> (\<forall>i<n. i \<noteq> k \<longrightarrow> level_char (row ! (i + 1)) (full ! i)) \<and> level_char (row ! 0) (full ! n)"
  proof (cases "j = k")
    case True
    then show ?thesis using j(1) unfolding all_less_Suc cell_def by auto
  next
    case False
    then have "\<not> level_char (row ! (j + 1)) (full ! j)" by (intro not_level_char j(2))
    then show ?thesis using False j(1) by blast
  qed
  finally have hit: "list_ex (change_hit a k cur) rows \<longleftrightarrow> edge_hit_row n ?out a k full row" by (simp add: edge_hit_row_def)
  then have h: "\<And>x. ?out = x \<Longrightarrow> edge_hit_row n x a k full row = list_ex (change_hit a k cur) rows" "\<And>x. ?out \<noteq> x \<Longrightarrow> \<not> edge_hit_row n x a k full row"
    by (blast, simp add: edge_hit_row_def)
  note out = out[folded rows_def]
  consider "?out = CHR ''0''" | "?out = CHR ''1''" | "?out = CHR ''x''" | "?out = CHR ''-''"
    using out by (metis option.distinct(1))
  then show ?thesis
  proof cases
    case 1
    have "d' = d\<lparr>edges0 := edges0 d @ rows\<rparr>" using out 1 by simp
    then show ?thesis using h(1)[OF 1] h(2) 1 by simp
  next
    case 2
    have "d' = d\<lparr>edges1 := edges1 d @ rows\<rparr>" using out 2 by simp
    then show ?thesis using h(1)[OF 2] h(2) 2 by simp
  next
    case 3
    have "d' = d" using out 3 by simp
    then show ?thesis using h(2) 3 by simp
  next
    case 4
    have "d' = d\<lparr>edgesL := edgesL d @ rows\<rparr>" using out 4 by simp
    then show ?thesis using h(1)[OF 4] h(2) 4 by simp
  qed
qed

text \<open>The tables of a primitive after the rows \<open>tab\<close>.\<close>

definition tables_ok :: "nat \<Rightarrow> vvp_bit4_t \<Rightarrow> nat \<Rightarrow> vvp_bit4_t list \<Rightarrow> udp_levels_table \<Rightarrow> string list \<Rightarrow> vvp_udp_seq \<Rightarrow> bool" where
  "tables_ok n a k full cur tab d \<longleftrightarrow> seq_ports d = n \<and>
     (list_ex (row_hit cur) (levels0 d) \<longleftrightarrow> list_ex (level_hit n CHR ''0'' full) tab) \<and>
     (list_ex (row_hit cur) (levels1 d) \<longleftrightarrow> list_ex (level_hit n CHR ''1'' full) tab) \<and>
     (list_ex (row_hit cur) (levelsx d) \<longleftrightarrow> list_ex (level_hit n CHR ''x'' full) tab) \<and>
     (list_ex (row_hit cur) (levelsL d) \<longleftrightarrow> list_ex (level_hit n CHR ''-'' full) tab) \<and>
     (list_ex (change_hit a k cur) (edges0 d) \<longleftrightarrow> list_ex (edge_hit_row n CHR ''0'' a k full) tab) \<and>
     (list_ex (change_hit a k cur) (edges1 d) \<longleftrightarrow> list_ex (edge_hit_row n CHR ''1'' a k full) tab) \<and>
     (list_ex (change_hit a k cur) (edgesL d) \<longleftrightarrow> list_ex (edge_hit_row n CHR ''-'' a k full) tab)"

lemma tables_row:
  assumes "tables_ok n a k full cur tab d" "seq_compile_row row d = Some d'" "n \<le> 31" "one_edge n row"
    "encodes full cur" "length full = Suc n" "a \<noteq> BIT4_Z" "k < n"
  shows "tables_ok n a k full cur (tab @ [row]) d'"
proof -
  have n: "seq_ports d = n" "length row = n + 2" using assms(1,2) by (auto simp: tables_ok_def seq_compile_row_def split: if_splits)
  note lv = strspn_first[of "n + 1" row "''01xblh?''", unfolded first_cells]
  show ?thesis
  proof (cases "n + 1 \<le> strspn row ''01xblh?''")
    case True
    then have "row ! (k + 1) \<in> level_chars" using lv n(2) assms(8) by auto
    then have "\<not> edge_hit_row n x a k full row" for x by (simp only: edge_hit_row_def level_no_edges) simp
    moreover have "seq_level_row row d = Some d'" using assms(2) n True by (simp add: seq_compile_row_def)
    ultimately show ?thesis
      using level_row_hits[of row d d' full cur] assms(1,3,5,6) n(1) by (simp add: tables_ok_def)
  next
    case False
    then obtain j where j: "j < n" "row ! (j + 1) \<notin> level_chars" using lv n(2) assms(4) unfolding one_edge_def by auto
    have "\<not> level_hit n x full row" for x using j(1) not_level_char[OF j(2)] unfolding level_hit_def by blast
    moreover have "seq_edge_row row d = Some d'" using assms(2) n False by (simp add: seq_compile_row_def)
    ultimately show ?thesis
      using edge_row_hits[of row d d' n full cur a k] assms(1,3-8) n False by (simp add: tables_ok_def)
  qed
qed

lemma tables_rows:
  "foldM seq_compile_row tab d = Some d' \<Longrightarrow> tables_ok n a k full cur pre d \<Longrightarrow> n \<le> 31 \<Longrightarrow> list_all (one_edge n) tab \<Longrightarrow>
   encodes full cur \<Longrightarrow> length full = Suc n \<Longrightarrow> a \<noteq> BIT4_Z \<Longrightarrow> k < n \<Longrightarrow> tables_ok n a k full cur (pre @ tab) d'"
proof (induction tab arbitrary: pre d)
  case (Cons row tab)
  then obtain d1 where d1: "seq_compile_row row d = Some d1" "foldM seq_compile_row tab d1 = Some d'" by (auto split: option.splits)
  have "tables_ok n a k full cur (pre @ [row]) d1" using tables_row[OF Cons.prems(2) d1(1)] Cons.prems by simp
  from Cons.IH[OF d1(2) this] show ?case using Cons.prems by simp
qed simp

end
