(* ===== verification/Udp_Results.thy ===== *)
theory Udp_Results
  imports Udp_Seq
begin

text \<open>Instances of primitives: what they send after each message is what the rows of the table say.\<close>

section \<open>The output of a sequential primitive\<close>

lemma encodes_and:
  assumes "encodes full cur" "b \<noteq> BIT4_Z" "k < length full" "\<And>i. i < length full \<Longrightarrow> bit m i \<longleftrightarrow> i = k"
  shows "mask_of b cur AND m \<noteq> 0 \<longleftrightarrow> full ! k = b"
proof -
  have "bit (mask_of b cur AND m) i \<longleftrightarrow> i = k \<and> full ! k = b" for i
    using assms by (auto simp: encodes_def bit_and_iff)
  moreover have "length full \<le> 64" using assms(1) by (simp add: encodes_def)
  ultimately show ?thesis using assms(3) by (auto simp: u64_zero_iff)
qed

lemma kept_output_encodes:
  assumes "encodes full cur" "length full = Suc n" "n \<le> 31"
  shows "kept_output n cur = Some (full ! n)"
proof -
  have "mask_of b cur AND int_bit n \<noteq> 0 \<longleftrightarrow> full ! n = b" if "b \<noteq> BIT4_Z" for b
    by (rule encodes_and[OF assms(1) that]) (use assms(2,3) in \<open>auto simp: bit_int_bit\<close>)
  from this[of BIT4_0] this[of BIT4_1] this[of BIT4_X]
  have "mask0 cur AND int_bit n \<noteq> 0 \<longleftrightarrow> full ! n = BIT4_0" "mask1 cur AND int_bit n \<noteq> 0 \<longleftrightarrow> full ! n = BIT4_1"
    "maskx cur AND int_bit n \<noteq> 0 \<longleftrightarrow> full ! n = BIT4_X" by (simp_all add: mask_of_def)
  moreover have "full ! n \<noteq> BIT4_Z" using assms(1,2) by (metis encodes_def lessI nth_mem)
  ultimately show ?thesis unfolding kept_output_def by (cases "full ! n") simp_all
qed

lemma lowest_bit_push: "k < m \<Longrightarrow> k < 64 \<Longrightarrow> lowest_bit m (shl 1 k) p = Some (1, p + k)"
proof (induction m arbitrary: k p)
  case (Suc m)
  have bit0: "shl 1 k AND 1 = 0 \<longleftrightarrow> k \<noteq> 0" using Suc.prems(2) by (simp add: and_1_eq_of_bool bit_shl_one)
  show ?case
  proof (cases k)
    case 0
    then show ?thesis using bit0 by (simp add: shl_def)
  next
    case (Suc j)
    have "shr (shl 1 k) 1 = shl 1 j" using Suc Suc.prems(2) by (auto simp: u64_eq_iff bit_shr bit_shl_one)
    then show ?thesis using Suc.IH[of j "p + 1"] Suc.prems Suc bit0 by simp
  qed
qed simp

text \<open>The output is appended to the inputs.\<close>

definition with_output :: "nat \<Rightarrow> vvp_bit4_t \<Rightarrow> udp_levels_table \<Rightarrow> udp_levels_table" where
  "with_output n out cur = (case out of
       BIT4_0 \<Rightarrow> cur\<lparr>mask0 := mask0 cur OR shl 1 n\<rparr> | BIT4_1 \<Rightarrow> cur\<lparr>mask1 := mask1 cur OR shl 1 n\<rparr> | _ \<Rightarrow> cur\<lparr>maskx := maskx cur OR shl 1 n\<rparr>)"

lemma encodes_output:
  assumes "encodes ins cur" "length ins = n" "n < 64" "out \<noteq> BIT4_Z"
  shows "encodes (ins @ [out]) (with_output n out cur)"
proof -
  have "bit (mask_of b (with_output n out cur)) i \<longleftrightarrow> bit (mask_of b cur) i \<or> b = out \<and> i = n" if "b \<noteq> BIT4_Z" for b i
    using assms(3,4) that by (cases out; cases b) (simp_all add: with_output_def mask_of_def bit_or_iff bit_shl_one)
  then show ?thesis using assms by (auto simp: encodes_def nth_append less_Suc_eq)
qed

lemma changed_mask:
  assumes "encodes full cur" "encodes ins prev" "length full = Suc n" "length ins = n" "n < 64" "k < n" "full ! k \<noteq> ins ! k"
    "\<And>i. i < n \<Longrightarrow> i \<noteq> k \<Longrightarrow> full ! i = ins ! i"
  shows "((mask0 cur XOR mask0 prev) OR (maskx cur XOR maskx prev) OR (mask1 cur XOR mask1 prev)) AND NOT (shl (- 1) n) = shl 1 k"
proof -
  have nz: "i < n \<Longrightarrow> full ! i \<noteq> BIT4_Z" "i < n \<Longrightarrow> ins ! i \<noteq> BIT4_Z" for i
    using assms(1-4) by (metis encodes_def less_SucI nth_mem)+
  have m: "i < n \<Longrightarrow> b \<noteq> BIT4_Z \<Longrightarrow> bit (mask_of b cur) i \<longleftrightarrow> full ! i = b" "i < n \<Longrightarrow> b \<noteq> BIT4_Z \<Longrightarrow> bit (mask_of b prev) i \<longleftrightarrow> ins ! i = b" for i b
    using assms(1-4) by (auto simp: encodes_def)
  have bits: "i < n \<Longrightarrow> bit (mask0 cur) i \<longleftrightarrow> full ! i = BIT4_0" "i < n \<Longrightarrow> bit (mask1 cur) i \<longleftrightarrow> full ! i = BIT4_1"
    "i < n \<Longrightarrow> bit (maskx cur) i \<longleftrightarrow> full ! i = BIT4_X" "i < n \<Longrightarrow> bit (mask0 prev) i \<longleftrightarrow> ins ! i = BIT4_0"
    "i < n \<Longrightarrow> bit (mask1 prev) i \<longleftrightarrow> ins ! i = BIT4_1" "i < n \<Longrightarrow> bit (maskx prev) i \<longleftrightarrow> ins ! i = BIT4_X" for i
    using m(1)[of i BIT4_0] m(1)[of i BIT4_1] m(1)[of i BIT4_X] m(2)[of i BIT4_0] m(2)[of i BIT4_1] m(2)[of i BIT4_X]
    by (simp_all add: mask_of_def)
  have "bit (((mask0 cur XOR mask0 prev) OR (maskx cur XOR maskx prev) OR (mask1 cur XOR mask1 prev)) AND NOT (shl (- 1) n)) i \<longleftrightarrow>
      i < n \<and> full ! i \<noteq> ins ! i" for i
  proof (cases "i < n")
    case True
    then show ?thesis using nz[of i] assms(5) bits[of i]
      by (cases "full ! i"; cases "ins ! i") (simp_all add: not_shl_minus_1 bit_and_iff bit_or_iff bit_xor_iff bit_mask_iff)
  qed (simp add: not_shl_minus_1[OF assms(5)] bit_and_iff bit_mask_iff)
  moreover have "i < n \<and> full ! i \<noteq> ins ! i \<longleftrightarrow> i = k" for i using assms(6-8) by blast
  ultimately show ?thesis using assms(5,6) by (simp add: u64_eq_iff bit_shl_one)
qed

lemma seq_output:
  assumes compiled: "seq_compile_table n tab = Some d" "n \<le> 31" "list_all (one_edge n) tab"
    and ins: "encodes ins prev" "encodes (ins[k := b]) cur" "length ins = n" "k < n" "b \<noteq> BIT4_Z" "out \<noteq> BIT4_Z"
  shows "seq_ports d = n \<and> seq_calculate_output d cur prev out =
    Some (if ins[k := b] = ins then out else seq_lookup n tab (ins ! k) k (ins[k := b]) out)"
proof -
  let ?ins = "ins[k := b]" and ?cur = "with_output n out cur" and ?a = "ins ! k"
  let ?full = "?ins @ [out]"
  have a: "?a \<noteq> BIT4_Z" using ins(1,3,4) by (metis encodes_def nth_mem)
  have full: "encodes ?full ?cur" "length ?full = Suc n" using encodes_output[OF ins(2) _ _ ins(6)] ins(3) compiled(2) by simp_all
  have t: "tables_ok n ?a k ?full ?cur tab d"
    using tables_rows[OF compiled(1)[unfolded seq_compile_table_def], of n ?a k ?full ?cur "[]"] compiled(2,3) full a ins(4)
    by (simp add: tables_ok_def)
  have n: "seq_ports d = n" using t by (simp add: tables_ok_def)
  have keep: "kept_output n ?cur = Some out" using kept_output_encodes[OF full compiled(2)] ins(3) by (simp add: nth_append)
  have lev: "seq_test_levels d ?cur = Some (if list_ex (level_hit n CHR ''0'' ?full) tab then BIT4_0
      else if list_ex (level_hit n CHR ''1'' ?full) tab then BIT4_1 else if list_ex (level_hit n CHR ''x'' ?full) tab then BIT4_X
      else if list_ex (level_hit n CHR ''-'' ?full) tab then out else BIT4_Z)"
    using t keep by (simp add: seq_test_levels_def tables_ok_def)
  have edg: "seq_test_edges d ?cur prev = Some (if list_ex (edge_hit_row n CHR ''0'' ?a k ?full) tab then BIT4_0
      else if list_ex (edge_hit_row n CHR ''1'' ?a k ?full) tab then BIT4_1 else if list_ex (edge_hit_row n CHR ''-'' ?a k ?full) tab then out else BIT4_X)"
    if ch: "?ins \<noteq> ins"
  proof -
    have "b \<noteq> ?a" using ch by auto
    then have m: "((mask0 ?cur XOR mask0 prev) OR (maskx ?cur XOR maskx prev) OR (mask1 ?cur XOR mask1 prev)) AND NOT (shl (- 1) n) = shl 1 k"
      using changed_mask[OF full(1) ins(1) full(2) ins(3) _ ins(4)] compiled(2) ins(3,4) by (simp add: nth_append)
    have k: "k < 64" using ins(4) compiled(2) by simp
    then have nz: "shl 1 k \<noteq> 0" by (auto simp: u64_zero_iff bit_shl_one)
    have "mask_of x prev AND shl 1 k \<noteq> 0 \<longleftrightarrow> ?a = x" if "x \<noteq> BIT4_Z" for x
      by (rule encodes_and[OF ins(1) that]) (use ins(3,4) k in \<open>simp_all add: bit_shl_one\<close>)
    from this[of BIT4_0] this[of BIT4_1] this[of BIT4_X]
    have p: "(mask0 prev AND shl 1 k \<noteq> 0) = (?a = BIT4_0)" "(maskx prev AND shl 1 k \<noteq> 0) = (?a = BIT4_X)" "(mask1 prev AND shl 1 k \<noteq> 0) = (?a = BIT4_1)"
      by (simp_all add: mask_of_def)
    have low: "lowest_bit 64 (shl 1 k) 0 = Some (1, k)" using lowest_bit_push[of k 64 0] k by simp
    have hit: "edge_row_hit k (mask0 prev AND shl 1 k \<noteq> 0) (maskx prev AND shl 1 k \<noteq> 0) (mask1 prev AND shl 1 k \<noteq> 0) = change_hit ?a k"
      unfolding p change_hit_def ..
    have "seq_test_edges d ?cur prev = (if list_ex (change_hit ?a k ?cur) (edges0 d) then Some BIT4_0
      else if list_ex (change_hit ?a k ?cur) (edges1 d) then Some BIT4_1
      else if list_ex (change_hit ?a k ?cur) (edgesL d) then kept_output n ?cur else Some BIT4_X)"
      unfolding seq_test_edges_def n m Let_def hit[symmetric] by (simp add: nz low)
    then show ?thesis using t keep by (simp add: tables_ok_def)
  qed
  have eq: "cur = prev \<longleftrightarrow> ?ins = ins" by (rule encodes_inject[OF ins(2,1)]) simp
  have out: "(case out of BIT4_0 \<Rightarrow> cur\<lparr>mask0 := mask0 cur OR shl 1 n\<rparr> | BIT4_1 \<Rightarrow> cur\<lparr>mask1 := mask1 cur OR shl 1 n\<rparr>
      | _ \<Rightarrow> cur\<lparr>maskx := maskx cur OR shl 1 n\<rparr>) = ?cur" by (simp add: with_output_def)
  show ?thesis
  proof (cases "?ins = ins")
    case True
    then show ?thesis using eq n by (simp add: seq_calculate_output_def)
  next
    case False
    then show ?thesis using eq lev edg[OF False] ins(6) unfolding seq_calculate_output_def n Let_def out by (simp add: seq_lookup_def)
  qed
qed

section \<open>Instances\<close>

text \<open>What the table says of the output when input \<open>port\<close> becomes \<open>b\<close>.\<close>

definition table_output :: "bool \<Rightarrow> nat \<Rightarrow> string list \<Rightarrow> vvp_bit4_t list \<Rightarrow> vvp_bit4_t \<Rightarrow> nat \<Rightarrow> vvp_bit4_t \<Rightarrow> vvp_bit4_t" where
  "table_output sequ n tab ins out port b =
     (let ins' = ins[port := b]
      in if \<not> sequ then comb_lookup n tab ins' else if ins' = ins then out else seq_lookup n tab (ins ! port) port ins' out)"

text \<open>A message goes to a port of one of the functors in front of the instance, which starts at a base.\<close>

type_synonym udp_message = "nat \<times> vvp_net_ptr_t \<times> vvp_vector4_t"

definition udp_port :: "udp_message \<Rightarrow> nat" where
  "udp_port m = fst m + ptr_port (fst (snd m))"

text \<open>After each message: what a run would send, and whether a run was scheduled.\<close>

fun udp_trace :: "udp_message list \<Rightarrow> vvp_udp_fun_core \<Rightarrow> (vvp_bit4_t list \<times> bool) list option" where
  "udp_trace [] s = Some []"
| "udp_trace ((base, p, v) # ms) s =
     do { (s, acts) \<leftarrow> wide_recv_vec4 base p v s;
          sent \<leftarrow> udp_run_run s;
          outs \<leftarrow> udp_trace ms s;
          Some ((vec4_bits sent, acts \<noteq> []) # outs) }"

fun table_trace :: "bool \<Rightarrow> nat \<Rightarrow> string list \<Rightarrow> vvp_bit4_t list \<Rightarrow> vvp_bit4_t \<Rightarrow> udp_message list \<Rightarrow> (vvp_bit4_t list \<times> bool) list" where
  "table_trace sequ n tab ins out [] = []"
| "table_trace sequ n tab ins out (m # ms) =
     (let b = tri (vec4_value (snd (snd m)) 0); out' = table_output sequ n tab ins out (udp_port m) b
      in ([out'], out' \<noteq> out) # table_trace sequ n tab (ins[udp_port m := b]) out' ms)"

definition core_ok :: "vvp_udp \<Rightarrow> nat \<Rightarrow> vvp_bit4_t list \<Rightarrow> vvp_bit4_t \<Rightarrow> vvp_udp_fun_core \<Rightarrow> bool" where
  "core_ok def n ins out s \<longleftrightarrow> udp_def s = def \<and> length (port_values s) = n \<and> length ins = n \<and> encodes ins (current s) \<and>
     cur_out s = out \<and> out \<noteq> BIT4_Z"

lemma output_not_z: "out \<noteq> BIT4_Z \<Longrightarrow> table_output sequ n tab ins out port b \<noteq> BIT4_Z"
  by (simp add: table_output_def comb_lookup_def seq_lookup_def Let_def)

lemma run_sends: "\<exists>v. udp_run_run s = Some v \<and> vec4_bits v = [cur_out s]"
proof -
  obtain v where v: "udp_run_run s = Some v" "vec_size v = 1" "vec4_value v 0 = cur_out s"
    using vec4_set_bit_correct[of "vec4_new 1 BIT4_X" 0 "cur_out s"] by (auto simp: udp_run_run_def vsize)
  then show ?thesis by (simp add: vec4_bits_def)
qed

lemma encodes_store:
  fixes prev :: udp_levels_table
  assumes "encodes ins prev" "k < length ins"
  defines "m \<equiv> shl 1 k"
  shows "encodes (ins[k := tri b]) (case b of
       BIT4_0 \<Rightarrow> \<lparr>mask0 = mask0 prev OR m, mask1 = mask1 prev AND NOT m, maskx = maskx prev AND NOT m\<rparr>
     | BIT4_1 \<Rightarrow> \<lparr>mask0 = mask0 prev AND NOT m, mask1 = mask1 prev OR m, maskx = maskx prev AND NOT m\<rparr>
     | _ \<Rightarrow> \<lparr>mask0 = mask0 prev AND NOT m, mask1 = mask1 prev AND NOT m, maskx = maskx prev OR m\<rparr>)" (is "encodes ?ins ?cur")
proof -
  have k: "k < 64" using assms(1,2) by (simp add: encodes_def)
  have m: "bit m i \<longleftrightarrow> i = k" for i using k by (simp add: m_def bit_shl_one)
  have "bit (mask_of x ?cur) i \<longleftrightarrow> (if i = k then tri b = x else bit (mask_of x prev) i)" if x: "x \<noteq> BIT4_Z" for x i
  proof (cases "i < 64")
    case True
    then show ?thesis using x m[of i] by (cases b; cases x) (simp_all add: mask_of_def tri_def bit_or_iff bit_and_iff bit_not_iff)
  next
    case False
    then show ?thesis using x k by (auto simp: not_less dest: bit_imp_le_length)
  qed
  moreover have "BIT4_Z \<notin> set ?ins" using assms(1) set_update_subset_insert[of ins k "tri b"] by (auto simp: encodes_def tri_def)
  ultimately show ?thesis using assms(1,2) by (auto simp: encodes_def)
qed

lemma core_step:
  assumes def: "compile_udp_def sequ n init tab = Some def" "n < 64" "sequ \<Longrightarrow> n \<le> 31 \<and> list_all (one_edge n) tab"
    and s: "core_ok def n ins out s" and v: "port < n" "vec_size v = 1"
  defines "b \<equiv> tri (vec4_value v 0)"
  shows "\<exists>s' acts. dispatch_vec4_from_input port v s = Some (s', acts) \<and> core_ok def n (ins[port := b]) (table_output sequ n tab ins out port b) s' \<and>
    (acts \<noteq> [] \<longleftrightarrow> table_output sequ n tab ins out port b \<noteq> out)"
proof -
  let ?m = "shl 1 port" and ?prev = "current s"
  define cur where "cur = (case vec4_value v 0 of
       BIT4_0 \<Rightarrow> \<lparr>mask0 = mask0 ?prev OR ?m, mask1 = mask1 ?prev AND NOT ?m, maskx = maskx ?prev AND NOT ?m\<rparr>
     | BIT4_1 \<Rightarrow> \<lparr>mask0 = mask0 ?prev AND NOT ?m, mask1 = mask1 ?prev OR ?m, maskx = maskx ?prev AND NOT ?m\<rparr>
     | _ \<Rightarrow> \<lparr>mask0 = mask0 ?prev AND NOT ?m, mask1 = mask1 ?prev AND NOT ?m, maskx = maskx ?prev OR ?m\<rparr>)"
  have k: "udp_def s = def" "length (port_values s) = n" "length ins = n" "encodes ins ?prev" "cur_out s = out" "out \<noteq> BIT4_Z"
    using s by (simp_all add: core_ok_def)
  have cur: "encodes (ins[port := b]) cur" unfolding b_def cur_def by (rule encodes_store) (use k v in simp_all)
  have calc: "udp_port_count def = n \<and> calculate_output def cur ?prev out = Some (table_output sequ n tab ins out port b)"
  proof (cases sequ)
    case True
    then obtain d i where d: "seq_compile_table n tab = Some d" "def = Udp_seq d i" using def(1) by (auto simp: compile_udp_def_def Let_def)
    have "b \<noteq> BIT4_Z" by (simp add: b_def tri_def)
    then show ?thesis using seq_output[OF d(1) _ _ k(4) cur k(3) v(1) _ k(6)] def(3)[OF True] True d(2) by (simp add: table_output_def Let_def)
  next
    case False
    then obtain d where d: "comb_compile_table n tab = Some d" "def = Udp_comb d" using def(1) by (auto simp: compile_udp_def_def)
    show ?thesis using comb_output[OF d(1) cur] k(3) False d(2) by (simp add: table_output_def Let_def)
  qed
  define out' where "out' = table_output sequ n tab ins out port b"
  have "dispatch_vec4_from_input port v s = (let s = s\<lparr>port_values := (port_values s)[port := v]\<rparr> in
      Some (if out' = out then (s\<lparr>current := cur\<rparr>, []) else (s\<lparr>current := cur, cur_out := out'\<rparr>, [Schedule_udp])))"
    using calc v k(1,2,5) by (simp add: dispatch_vec4_from_input_def recv_vec4_from_inputs_def cur_def[symmetric] out'_def Let_def)
  then show ?thesis
    unfolding out'_def[symmetric] using k cur output_not_z[OF k(6)] by (auto simp: core_ok_def Let_def out'_def)
qed

text \<open>C12. User defined primitives: whatever masks the table is compiled to, after every message an instance would send
  exactly the value that the rows of the table say, and it schedules a run exactly when this value is new.
  A combinational primitive looks for a row that ends in 0 and matches all inputs, then for one that ends in 1,
  else X. A sequential one looks first for a row of levels (0, 1, X, kept output), then for a row whose edge is
  the change of the input that the message changed. Inputs start as X, Z counts as X, and a primitive has at most 63
  inputs, a sequential one at most 31, with one edge in a row.\<close>

theorem udp_follows_table:
  assumes "compile_udp_def sequ n init tab = Some def" "n < 64" "sequ \<Longrightarrow> n \<le> 31 \<and> list_all (one_edge n) tab"
    "\<forall>m\<in>set ms. udp_port m < n \<and> vec_size (snd (snd m)) = 1"
  shows "udp_trace ms (fst (new_udp_core def)) =
    Some (table_trace sequ n tab (replicate n BIT4_X) (if sequ \<and> init = 0 then BIT4_0 else if sequ \<and> init = 1 then BIT4_1 else BIT4_X) ms)"
proof -
  have trace: "core_ok def n ins out s \<Longrightarrow> \<forall>m\<in>set ms. udp_port m < n \<and> vec_size (snd (snd m)) = 1 \<Longrightarrow>
      udp_trace ms s = Some (table_trace sequ n tab ins out ms)" for ins out s ms
  proof (induction ms arbitrary: ins out s)
    case (Cons m ms)
    obtain base p v where m: "m = (base, p, v)" by (cases m)
    obtain s' acts where step: "wide_recv_vec4 base p v s = Some (s', acts)"
      "core_ok def n (ins[udp_port m := tri (vec4_value v 0)]) (table_output sequ n tab ins out (udp_port m) (tri (vec4_value v 0))) s'"
      "acts \<noteq> [] \<longleftrightarrow> table_output sequ n tab ins out (udp_port m) (tri (vec4_value v 0)) \<noteq> out"
      using core_step[OF assms(1-3) Cons.prems(1), of "udp_port m" v] Cons.prems(2) by (auto simp: m wide_recv_vec4_def udp_port_def)
    obtain w where w: "udp_run_run s' = Some w" "vec4_bits w = [cur_out s']" using run_sends by blast
    have "cur_out s' = table_output sequ n tab ins out (udp_port m) (tri (vec4_value v 0))" using step(2) by (simp add: core_ok_def)
    then show ?case using Cons.IH[OF step(2)] Cons.prems(2) step w by (simp add: m Let_def)
  qed simp
  have enc: "encodes (replicate n BIT4_X) \<lparr>mask0 = 0, mask1 = 0, maskx = NOT (shl (- 1) n)\<rparr>"
    using assms(2) by (auto simp: encodes_def mask_of_def not_shl_minus_1 bit_mask_iff split: vvp_bit4_t.splits)
  show ?thesis
  proof (cases "n = 0")
    case True
    then have "ms = []" using assms(4) by (metis last_in_set not_less0)
    then show ?thesis by simp
  next
    case False
    have "udp_port_count def = n \<and> udp_get_init def = (if sequ \<and> init = 0 then BIT4_0 else if sequ \<and> init = 1 then BIT4_1 else BIT4_X)"
    proof (cases sequ)
      case True
      then obtain d where d: "seq_compile_table n tab = Some d" "def = Udp_seq d (if init = 0 then BIT4_0 else if init = 1 then BIT4_1 else BIT4_X)"
        using assms(1) by (auto simp: compile_udp_def_def Let_def)
      have "(replicate n BIT4_X)[0 := BIT4_X] = replicate n BIT4_X" using False by (cases n) simp_all
      then have "seq_ports d = n"
        using seq_output[OF d(1) _ _ enc, of 0 BIT4_X _ BIT4_X] enc assms(3)[OF True] False by simp
      then show ?thesis using d(2) True by simp
    next
      case False
      then obtain d where d: "comb_compile_table n tab = Some d" "def = Udp_comb d"
        using assms(1) by (auto simp: compile_udp_def_def)
      show ?thesis using comb_output[OF d(1) enc] d(2) False by simp
    qed
    then have "core_ok def n (replicate n BIT4_X) (if sequ \<and> init = 0 then BIT4_0 else if sequ \<and> init = 1 then BIT4_1 else BIT4_X) (fst (new_udp_core def))"
      using enc by (simp add: core_ok_def new_udp_core_def Let_def)
    then show ?thesis using trace assms(4) by blast
  qed
qed

text \<open>A flip-flop: clock and data.\<close>

definition flip_flop :: "string list" where
  "flip_flop = [''?r00'', ''?r11'', ''?f?-'', ''?0*-'']"

definition flip_messages :: "udp_message list" where
  "flip_messages = (let m = (\<lambda>p b. (0, \<lparr>ptr_net = 7, ptr_port = p\<rparr>, vec4_new 1 b)) in [m 0 BIT4_0, m 1 BIT4_1, m 0 BIT4_1, m 0 BIT4_0, m 1 BIT4_0])"

theorem udp_follows_table_witness:
  "\<exists>def. compile_udp_def True 2 2 flip_flop = Some def \<and>
     udp_trace flip_messages (fst (new_udp_core def)) =
       Some [([BIT4_X], False), ([BIT4_X], False), ([BIT4_1], True), ([BIT4_1], False), ([BIT4_1], False)]"
proof -
  have "compile_udp_def True 2 2 flip_flop \<noteq> None" by code_simp
  then obtain def where def: "compile_udp_def True 2 2 flip_flop = Some def" by blast
  have v: "vec4_value (vec4_new 1 b) 0 = b" for b by (simp add: vsize bitlevel)
  have "udp_trace flip_messages (fst (new_udp_core def)) = Some (table_trace True 2 flip_flop (replicate 2 BIT4_X) BIT4_X flip_messages)"
    using udp_follows_table[OF def, of flip_messages] by (simp add: flip_messages_def flip_flop_def one_edge_def udp_port_def vsize Let_def numeral_2_eq_2 all_less_Suc)
  also have "\<dots> = Some [([BIT4_X], False), ([BIT4_X], False), ([BIT4_1], True), ([BIT4_1], False), ([BIT4_1], False)]"
    by (simp add: flip_messages_def v[unfolded One_nat_def] v table_output_def seq_lookup_def level_hit_def edge_hit_row_def level_char_def
        udp_edges_def tri_def udp_port_def flip_flop_def Let_def numeral_2_eq_2 all_less_Suc)
  finally show ?thesis using def by blast
qed

end
