(* ===== verification/Vector4_Setarray.thy ===== *)
theory Vector4_Setarray
  imports Vector4_Memory
begin

text \<open>
  Writing machine words into a part of a vector (\<^verbatim>\<open>setarray\<close> of \<^verbatim>\<open>vvp_net.cc\<close>), by which the opcodes store
  the results they computed on words. The loop moves as many bits at a time as the present word of the
  source and the present word of the vector both have left. It is a partial function and shown to end.
\<close>

record setarray_state =
  sa_wid :: nat
  sa_off :: nat
  sa_ptr :: nat
  sa_val_off :: nat
  sa_val_ptr :: nat
  sa_abits :: "u64 list"
  sa_bbits :: "u64 list"

text \<open>The bits of a word from \<open>lo\<close> up to \<open>hi\<close>.\<close>

definition setarray_mask :: "nat \<Rightarrow> nat \<Rightarrow> u64" where
  "setarray_mask lo hi =
     (let lmask = shl 1 lo - 1; hmask = (if hi < 64 then shl (- 1) hi else 0) in NOT (hmask OR lmask))"

definition setarray_step :: "u64 list \<Rightarrow> setarray_state \<Rightarrow> setarray_state" where
  "setarray_step val s =
     (let tr = sa_wid s;
          tr = (if tr > 64 - sa_val_off s then 64 - sa_val_off s else tr);
          tr = (if tr > 64 - sa_off s then 64 - sa_off s else tr);
          msk = setarray_mask (sa_off s) (sa_off s + tr);
          p = sa_ptr s;
          a = sa_abits s ! p AND NOT msk;
          w = val ! sa_val_ptr s;
          a = a OR (msk AND (if sa_val_off s \<ge> sa_off s then shr w (sa_val_off s - sa_off s) else shl w (sa_off s - sa_val_off s)));
          voff = sa_val_off s + tr;
          off = sa_off s + tr
      in \<lparr>sa_wid = sa_wid s - tr,
          sa_off = (if off = 64 then 0 else off), sa_ptr = (if off = 64 then p + 1 else p),
          sa_val_off = (if voff = 64 then 0 else voff),
          sa_val_ptr = (if voff = 64 then sa_val_ptr s + 1 else sa_val_ptr s),
          sa_abits = (sa_abits s)[p := a], sa_bbits = (sa_bbits s)[p := sa_bbits s ! p AND NOT msk]\<rparr>)"

partial_function (option) setarray_loop :: "u64 list \<Rightarrow> setarray_state \<Rightarrow> (u64 list \<times> u64 list) option" where
  "setarray_loop val s =
     (if sa_wid s = 0 then Some (sa_abits s, sa_bbits s) else setarray_loop val (setarray_step val s))"

definition vec4_setarray :: "vvp_vector4_t \<Rightarrow> nat \<Rightarrow> nat \<Rightarrow> u64 list \<Rightarrow> vvp_vector4_t option" where
  "vec4_setarray v adr wid val =
     (if adr + wid \<le> vec_size v then
        if vec_size v \<le> 64 then
          let msk = setarray_mask adr (adr + wid)
          in Some (v\<lparr>abits := (abits v)[0 := (abits v ! 0 AND NOT msk) OR (msk AND shl (val ! 0) adr)],
                     bbits := (bbits v)[0 := bbits v ! 0 AND NOT msk]\<rparr>)
        else
          map_option (\<lambda>(a, b). v\<lparr>abits := a, bbits := b\<rparr>)
            (setarray_loop val \<lparr>sa_wid = wid, sa_off = adr mod 64, sa_ptr = adr div 64, sa_val_off = 0, sa_val_ptr = 0,
                                sa_abits = abits v, sa_bbits = bbits v\<rparr>)
      else None)"

section \<open>One round\<close>

lemma bit_setarray_mask: "lo < 64 \<Longrightarrow> j < 64 \<Longrightarrow> bit (setarray_mask lo hi) j \<longleftrightarrow> lo \<le> j \<and> j < hi"
  by (auto simp: setarray_mask_def Let_def bit_not_iff bit_or_iff bit_and_iff shl_1_minus_1 bit_mask_iff bit_shl)

lemma bit_aligned:
  assumes "off \<le> j" "j < off + tr" "off + tr \<le> 64" "voff + tr \<le> 64"
  shows "bit (if voff \<ge> off then shr w (voff - off) else shl w (off - voff)) j = bit w (voff + (j - off))"
  using assms by (auto simp: bit_shr bit_shl add.commute)

text \<open>The words after \<open>k\<close> bits have been moved.\<close>

definition moved :: "u64 list \<Rightarrow> nat \<Rightarrow> nat \<Rightarrow> u64 list \<Rightarrow> u64 list \<Rightarrow> u64 list \<Rightarrow> u64 list \<Rightarrow> bool" where
  "moved val adr k a0 b0 a b \<longleftrightarrow> length a = length a0 \<and> length b = length b0 \<and>
     (\<forall>i<64 * length a0. plane_bit a i = (if adr \<le> i \<and> i < adr + k then plane_bit val (i - adr) else plane_bit a0 i)) \<and>
     (\<forall>i<64 * length b0. plane_bit b i = (plane_bit b0 i \<and> \<not> (adr \<le> i \<and> i < adr + k)))"

lemma same_word:
  fixes p :: nat
  assumes "off = p mod 64" "off + tr \<le> 64" "0 < tr"
  shows "i div 64 = p div 64 \<and> off \<le> i mod 64 \<and> i mod 64 < off + tr \<longleftrightarrow> p \<le> i \<and> i < p + tr"
    "p \<le> i \<Longrightarrow> i < p + tr \<Longrightarrow> i mod 64 = off + (i - p)"
proof -
  have fwd: "i div 64 = p div 64 \<and> i mod 64 = off + (i - p)" if "p \<le> i" "i < p + tr"
    using div_mod_64_add[of p "i - p"] that assms by simp
  then show "p \<le> i \<Longrightarrow> i < p + tr \<Longrightarrow> i mod 64 = off + (i - p)" by simp
  have p: "p = 64 * (p div 64) + off" using assms(1) by simp
  have "p \<le> i \<and> i < p + tr" if "i div 64 = p div 64" "off \<le> i mod 64" "i mod 64 < off + tr"
  proof -
    have "i = 64 * (p div 64) + i mod 64" using that(1) mult_div_mod_eq[of 64 i] by simp
    then show ?thesis using p that(2,3) by linarith
  qed
  then show "i div 64 = p div 64 \<and> off \<le> i mod 64 \<and> i mod 64 < off + tr \<longleftrightarrow> p \<le> i \<and> i < p + tr"
    using fwd assms(2) by fastforce
qed

lemma put_bits:
  assumes "off = p mod 64" "off + tr \<le> 64" "0 < tr" "p div 64 < length ws"
  shows "plane_bit (ws[p div 64 := (ws ! (p div 64) AND NOT (setarray_mask off (off + tr))) OR (setarray_mask off (off + tr) AND x)]) i =
      (if p \<le> i \<and> i < p + tr then bit x (off + (i - p)) else plane_bit ws i)"
    "plane_bit (ws[p div 64 := ws ! (p div 64) AND NOT (setarray_mask off (off + tr))]) i =
      (plane_bit ws i \<and> \<not> (p \<le> i \<and> i < p + tr))"
proof -
  have off: "off < 64" using assms(1) by simp
  have m: "bit (setarray_mask off (off + tr)) (i mod 64) \<longleftrightarrow> off \<le> i mod 64 \<and> i mod 64 < off + tr"
    using bit_setarray_mask[OF off, of "i mod 64" "off + tr"] by simp
  note sw = same_word[OF assms(1-3), of i]
  show "plane_bit (ws[p div 64 := (ws ! (p div 64) AND NOT (setarray_mask off (off + tr))) OR (setarray_mask off (off + tr) AND x)]) i =
      (if p \<le> i \<and> i < p + tr then bit x (off + (i - p)) else plane_bit ws i)"
  proof (cases "i div 64 = p div 64")
    case True
    then show ?thesis
      using m sw assms(4) by (cases "p \<le> i \<and> i < p + tr") (auto simp: plane_bit_def bit_or_iff bit_and_iff bit_not_iff)
  next
    case False
    then have "\<not> (p \<le> i \<and> i < p + tr)" using sw(1) by blast
    then show ?thesis using False by (auto simp: plane_bit_def nth_list_update)
  qed
  show "plane_bit (ws[p div 64 := ws ! (p div 64) AND NOT (setarray_mask off (off + tr))]) i =
      (plane_bit ws i \<and> \<not> (p \<le> i \<and> i < p + tr))"
  proof (cases "i div 64 = p div 64")
    case True
    then show ?thesis using m sw assms(4) by (auto simp: plane_bit_def bit_and_iff bit_not_iff)
  next
    case False
    then have "\<not> (p \<le> i \<and> i < p + tr)" using sw(1) by blast
    then show ?thesis using False by (auto simp: plane_bit_def nth_list_update)
  qed
qed

lemma setarray_step_inv:
  assumes s: "s = \<lparr>sa_wid = wid - k, sa_off = (adr + k) mod 64, sa_ptr = (adr + k) div 64, sa_val_off = k mod 64, sa_val_ptr = k div 64,
        sa_abits = a, sa_bbits = b\<rparr>"
    and k: "k < wid" and len: "adr + wid \<le> 64 * length a0" "length b0 = length a0"
    and inv: "moved val adr k a0 b0 a b"
  obtains tr a' b' where "0 < tr" "tr \<le> wid - k"
    "setarray_step val s = \<lparr>sa_wid = wid - (k + tr), sa_off = (adr + (k + tr)) mod 64, sa_ptr = (adr + (k + tr)) div 64,
        sa_val_off = (k + tr) mod 64, sa_val_ptr = (k + tr) div 64, sa_abits = a', sa_bbits = b'\<rparr>"
    "moved val adr (k + tr) a0 b0 a' b'"
proof -
  define off where "off = (adr + k) mod 64"
  define t1 where "t1 = (if wid - k > 64 - k mod 64 then 64 - k mod 64 else wid - k)"
  define tr where "tr = (if t1 > 64 - off then 64 - off else t1)"
  have off: "off < 64" "off = (adr + k) mod 64" by (simp_all add: off_def)
  have kmod: "k mod 64 < 64" by simp
  have tr: "0 < tr" "tr \<le> wid - k" "off + tr \<le> 64" "k mod 64 + tr \<le> 64"
    using k off(1) kmod by (simp_all only: tr_def t1_def split: if_split) linarith+
  define w where "w = val ! (k div 64)"
  define x where "x = (if k mod 64 \<ge> off then shr w (k mod 64 - off) else shl w (off - k mod 64))"
  have p: "(adr + k) div 64 < length a0" using k len(1) by (intro less_mult_imp_div_less) simp
  have ab: "length a = length a0" "length b = length a0" using inv len(2) by (simp_all add: moved_def)
  define a' where "a' = a[(adr + k) div 64 := (a ! ((adr + k) div 64) AND NOT (setarray_mask off (off + tr))) OR (setarray_mask off (off + tr) AND x)]"
  define b' where "b' = b[(adr + k) div 64 := b ! ((adr + k) div 64) AND NOT (setarray_mask off (off + tr))]"
  have x: "bit x (off + j) = plane_bit val (k + j)" if "j < tr" for j
  proof -
    have "bit x (off + j) = bit w (k mod 64 + j)"
      unfolding x_def using bit_aligned[of off "off + j" tr "k mod 64" w] tr that by simp
    moreover have "(k + j) div 64 = k div 64" "(k + j) mod 64 = k mod 64 + j"
      using div_mod_64_add[of k j] tr(4) that by simp_all
    ultimately show ?thesis by (simp add: plane_bit_def w_def)
  qed
  have ai: "plane_bit a' i = (if adr + k \<le> i \<and> i < adr + k + tr then plane_bit val (i - adr) else plane_bit a i)" for i
    using put_bits(1)[OF off(2) tr(3,1), of a x i] x[of "i - (adr + k)"] p ab(1) by (auto simp: a'_def)
  have bi: "plane_bit b' i = (plane_bit b i \<and> \<not> (adr + k \<le> i \<and> i < adr + k + tr))" for i
    using put_bits(2)[OF off(2) tr(3,1), of b i] p ab(2) by (auto simp: b'_def)
  have "moved val adr (k + tr) a0 b0 a' b'"
    using inv ai bi by (auto simp: moved_def a'_def b'_def)
  moreover have "setarray_step val s = \<lparr>sa_wid = wid - (k + tr), sa_off = (adr + (k + tr)) mod 64, sa_ptr = (adr + (k + tr)) div 64,
        sa_val_off = (k + tr) mod 64, sa_val_ptr = (k + tr) div 64, sa_abits = a', sa_bbits = b'\<rparr>"
  proof -
    have "(k + tr) div 64 = (if k mod 64 + tr = 64 then k div 64 + 1 else k div 64)"
      "(k + tr) mod 64 = (if k mod 64 + tr = 64 then 0 else k mod 64 + tr)"
      using tr(4) div_mod_64_add[of k tr] div_mod_64_full[of k tr] by auto
    moreover have "(adr + (k + tr)) div 64 = (if off + tr = 64 then (adr + k) div 64 + 1 else (adr + k) div 64)"
      "(adr + (k + tr)) mod 64 = (if off + tr = 64 then 0 else off + tr)"
      using tr(3) off div_mod_64_add[of "adr + k" tr] div_mod_64_full[of "adr + k" tr] by (auto simp: add.assoc)
    ultimately show ?thesis
      unfolding s setarray_step_def Let_def setarray_state.simps
      unfolding off_def[symmetric] w_def[symmetric] unfolding t1_def[symmetric] x_def[symmetric] unfolding tr_def[symmetric]
      unfolding a'_def[symmetric] b'_def[symmetric]
      by simp
  qed
  ultimately show thesis using that tr by blast
qed

lemma setarray_loop_result:
  assumes "moved val adr k a0 b0 a b" "k \<le> wid" "adr + wid \<le> 64 * length a0" "length b0 = length a0"
  shows "\<exists>a' b'. setarray_loop val \<lparr>sa_wid = wid - k, sa_off = (adr + k) mod 64, sa_ptr = (adr + k) div 64, sa_val_off = k mod 64,
        sa_val_ptr = k div 64, sa_abits = a, sa_bbits = b\<rparr> = Some (a', b') \<and> moved val adr wid a0 b0 a' b'"
  using assms(1,2)
proof (induction "wid - k" arbitrary: k a b rule: less_induct)
  case (less k a b)
  show ?case
  proof (cases "k < wid")
    case False
    then have "k = wid" using less.prems by simp
    then show ?thesis using less.prems by (subst setarray_loop.simps) auto
  next
    case True
    let ?s = "\<lparr>sa_wid = wid - k, sa_off = (adr + k) mod 64, sa_ptr = (adr + k) div 64, sa_val_off = k mod 64,
        sa_val_ptr = k div 64, sa_abits = a, sa_bbits = b\<rparr>"
    obtain tr a' b' where tr: "0 < tr" "tr \<le> wid - k"
      "setarray_step val ?s = \<lparr>sa_wid = wid - (k + tr), sa_off = (adr + (k + tr)) mod 64, sa_ptr = (adr + (k + tr)) div 64,
        sa_val_off = (k + tr) mod 64, sa_val_ptr = (k + tr) div 64, sa_abits = a', sa_bbits = b'\<rparr>"
      "moved val adr (k + tr) a0 b0 a' b'"
      using setarray_step_inv[OF refl True assms(3,4) less.prems(1)] by metis
    have "setarray_loop val ?s = setarray_loop val (setarray_step val ?s)"
      using True by (subst setarray_loop.simps) simp
    then show ?thesis using less.hyps[of "k + tr" a' b'] tr True by simp
  qed
qed

section \<open>The whole\<close>

lemma word_count_cover: "n \<le> 64 * word_count n"
  by presburger

lemma vec4_setarray_bits:
  assumes "vec4_wf v" "adr + wid \<le> vec_size v" "0 < wid" "word_count wid \<le> length val"
  shows "\<exists>r. vec4_setarray v adr wid val = Some r \<and> vec4_wf r \<and> vec_size r = vec_size v \<and>
    (\<forall>i<vec_size v. vec4_value r i =
       (if adr \<le> i \<and> i < adr + wid then (if plane_bit val (i - adr) then BIT4_1 else BIT4_0) else vec4_value v i))"
proof -
  have cover: "vec_size v \<le> 64 * nwords (vec_size v)"
    using word_count_cover[of "vec_size v"] by (cases "64 < vec_size v") simp_all
  have "\<exists>r. vec4_setarray v adr wid val = Some r \<and> vec_size r = vec_size v \<and> moved val adr wid (abits v) (bbits v) (abits r) (bbits r)"
  proof (cases "vec_size v \<le> 64")
    case True
    then have small: "adr < 64" "adr + wid \<le> 64" using assms by auto
    have ws: "length (abits v) = 1" "length (bbits v) = 1" using assms(1) True by (simp_all add: vec4_wf_def)
    let ?m = "setarray_mask adr (adr + wid)"
    let ?a = "(abits v)[adr div 64 := (abits v ! (adr div 64) AND NOT ?m) OR (?m AND shl (val ! 0) adr)]"
    let ?b = "(bbits v)[adr div 64 := bbits v ! (adr div 64) AND NOT ?m]"
    have d: "adr div 64 = 0" "adr = adr mod 64" using small by simp_all
    have "plane_bit ?a i = (if adr \<le> i \<and> i < adr + wid then bit (shl (val ! 0) adr) (adr + (i - adr)) else plane_bit (abits v) i)" for i
      using put_bits(1)[of adr adr wid "abits v" "shl (val ! 0) adr" i] small assms(3) ws d by simp
    then have a: "plane_bit ?a i = (if adr \<le> i \<and> i < adr + wid then plane_bit val (i - adr) else plane_bit (abits v) i)" for i
      using small by (auto simp: bit_shl plane_bit_def)
    have b: "plane_bit ?b i = (plane_bit (bbits v) i \<and> \<not> (adr \<le> i \<and> i < adr + wid))" for i
      using put_bits(2)[of adr adr wid "bbits v" i] small assms(3) ws d by simp
    show ?thesis
      using a b True assms(2) d(1) by (simp add: vec4_setarray_def Let_def moved_def)
  next
    case False
    have "moved val adr 0 (abits v) (bbits v) (abits v) (bbits v)" by (auto simp: moved_def)
    moreover have "length (bbits v) = length (abits v)" "adr + wid \<le> 64 * length (abits v)"
      using assms(1,2) cover by (simp_all add: vec4_wf_def)
    ultimately obtain a b where "setarray_loop val \<lparr>sa_wid = wid, sa_off = adr mod 64, sa_ptr = adr div 64, sa_val_off = 0,
        sa_val_ptr = 0, sa_abits = abits v, sa_bbits = bbits v\<rparr> = Some (a, b)" "moved val adr wid (abits v) (bbits v) a b"
      using setarray_loop_result[of val adr 0 "abits v" "bbits v" "abits v" "bbits v" wid] by (auto simp del: not_less)
    then show ?thesis using False assms(2) by (simp add: vec4_setarray_def)
  qed
  then obtain r where r: "vec4_setarray v adr wid val = Some r" "vec_size r = vec_size v"
    "moved val adr wid (abits v) (bbits v) (abits r) (bbits r)" by blast
  moreover have "vec4_wf r" using r assms(1) by (simp add: vec4_wf_def moved_def)
  moreover have "vec4_value r i =
       (if adr \<le> i \<and> i < adr + wid then (if plane_bit val (i - adr) then BIT4_1 else BIT4_0) else vec4_value v i)" if "i < vec_size v" for i
  proof -
    have "i < 64 * length (abits v)" "i < 64 * length (bbits v)" using that cover assms(1) by (simp_all add: vec4_wf_def)
    then show ?thesis using r that by (simp add: vec4_value_planes moved_def bit4_ab_def)
  qed
  ultimately show ?thesis by blast
qed

text \<open>The use the opcodes make of it: a whole vector from the words of a number.\<close>

lemma setarray_whole:
  assumes "vec4_wf v" "0 < vec_size v" "word_count (vec_size v) \<le> length val"
  shows "\<exists>r. vec4_setarray v 0 (vec_size v) val = Some r \<and> vec4_wf r \<and> vec4_bits r = num_bits (vec_size v) (int (words_val val))"
proof -
  obtain r where r: "vec4_setarray v 0 (vec_size v) val = Some r" "vec4_wf r" "vec_size r = vec_size v"
    "\<forall>i<vec_size v. vec4_value r i = (if plane_bit val i then BIT4_1 else BIT4_0)"
    using vec4_setarray_bits[of v 0 "vec_size v" val] assms by auto
  have "plane_bit val i = bit (int (words_val val)) i" if "i < vec_size v" for i
  proof -
    have "i < 64 * length val"
      using that assms(3) word_count_cover[of "vec_size v"] by linarith
    then show ?thesis by (simp add: bit_of_nat_iff_bit bit_words_val_plane)
  qed
  then have "vec4_bits r = num_bits (vec_size v) (int (words_val val))"
    using r(3,4) by (simp add: vec4_bits_def num_bits_def)
  then show ?thesis using r by blast
qed

end
