(* ===== verification/Thread_Division.thy ===== *)
theory Thread_Division
  imports Vector4_Setarray Vector4_Arith
begin

text \<open>
  The arithmetic on arrays of words behind \<^verbatim>\<open>%div\<close> and \<^verbatim>\<open>%div/s\<close> (\<^verbatim>\<open>vthread.cc\<close>): the division of two words by
  one, the product of an array and a word, and the long division \<^verbatim>\<open>divide_bits\<close>. The loops that are not bounded
  by a counter are partial functions.
\<close>

section \<open>Operations\<close>

text \<open>The dividend is \<^verbatim>\<open>{high, a}\<close>; \<open>res\<close> accumulates the quotient.\<close>

partial_function (option) divide2words_loop :: "u64 \<Rightarrow> u64 \<Rightarrow> u64 \<Rightarrow> u64 \<Rightarrow> u64 option" where
  "divide2words_loop b a high res =
     (if high > 0 then
        let tmp_result = (- 1) div b;
            remain = (- 1) mod b;
            remain = remain + 1;
            (remain, tmp_result) = (if remain \<ge> b then (remain - b, tmp_result + 1) else (remain, tmp_result));
            res = res + tmp_result * high;
            (remain, high) = multiply_with_carry high remain;
            a = a + remain;
            high = (if a < remain then high + 1 else high)
        in divide2words_loop b a high res
      else Some (res + a div b))"

definition divide2words :: "u64 \<Rightarrow> u64 \<Rightarrow> u64 \<Rightarrow> u64 option" where
  "divide2words a b high = divide2words_loop b a high 0"

definition multiply_array_imm :: "u64 list \<Rightarrow> nat \<Rightarrow> u64 \<Rightarrow> u64 list" where
  "multiply_array_imm val n imm = fold (\<lambda>mul_idx. mul_cell n (val ! mul_idx) imm mul_idx) [0..<n] (replicate n 0)"

text \<open>Adding \<open>f idx\<close> to the words from \<open>p\<close> up to \<open>n\<close>.\<close>

definition add_span :: "(nat \<Rightarrow> u64) \<Rightarrow> nat \<Rightarrow> nat \<Rightarrow> u64 list \<times> u64 \<Rightarrow> u64 list \<times> u64" where
  "add_span f p n st =
     fold (\<lambda>idx (ap, carry). let (w, carry) = add_with_carry (ap ! idx) (f idx) carry in (ap[idx := w], carry)) [p..<n] st"

partial_function (option) add_back :: "(nat \<Rightarrow> u64) \<Rightarrow> nat \<Rightarrow> nat \<Rightarrow> u64 list \<Rightarrow> u64 \<Rightarrow> (u64 list \<times> u64) option" where
  "add_back f p n ap cur_res =
     (let cur_res = cur_res - 1; (ap, carry) = add_span f p n (ap, 0)
      in if carry = 0 then add_back f p n ap cur_res else Some (ap, cur_res))"

fun find_btop :: "u64 list \<Rightarrow> nat \<Rightarrow> nat" where
  "find_btop bp btop = (if btop > 0 \<and> bp ! btop = 0 then find_btop bp (btop - 1) else btop)"

declare find_btop.simps [simp del]

text \<open>The guess for one word of the quotient; no guess where the code goes on to the next word.\<close>

definition divide_guess :: "u64 list \<Rightarrow> u64 list \<Rightarrow> nat \<Rightarrow> nat \<Rightarrow> nat \<Rightarrow> u64 option option" where
  "divide_guess ap bp n btop cur_ptr =
     (if ap ! (cur_ptr + btop) \<ge> bp ! btop then
        let high = (if cur_ptr + btop + 1 < n then ap ! (cur_ptr + btop + 1) else 0)
        in map_option Some (divide2words (ap ! (cur_ptr + btop)) (bp ! btop) high)
      else if cur_ptr + btop + 1 \<ge> n then Some None
      else if ap ! (cur_ptr + btop + 1) = 0 then Some None
      else map_option Some (divide2words (ap ! (cur_ptr + btop)) (bp ! btop) (ap ! (cur_ptr + btop + 1))))"

definition divide_step :: "u64 list \<Rightarrow> nat \<Rightarrow> nat \<Rightarrow> nat \<Rightarrow> u64 list \<times> u64 list \<Rightarrow> (u64 list \<times> u64 list) option" where
  "divide_step bp n btop cur_ptr st =
     (let (ap, result) = st
      in case divide_guess ap bp n btop cur_ptr of
           None \<Rightarrow> None
         | Some None \<Rightarrow> Some (ap, result)
         | Some (Some cur_res) \<Rightarrow>
             (let diff = multiply_array_imm bp (n - cur_ptr) cur_res;
                  (ap, carry) = add_span (\<lambda>idx. NOT (diff ! (idx - cur_ptr))) cur_ptr n (ap, 1)
              in if carry AND 1 = 0
                 then map_option (\<lambda>(ap, cur_res). (ap, result[cur_ptr := cur_res])) (add_back (\<lambda>idx. bp ! (idx - cur_ptr)) cur_ptr n ap cur_res)
                 else Some (ap, result[cur_ptr := cur_res])))"

text \<open>The result is no array for a zero divisor; otherwise the remainder and the quotient.\<close>

definition divide_bits :: "u64 list \<Rightarrow> u64 list \<Rightarrow> nat \<Rightarrow> (u64 list \<times> u64 list) option option" where
  "divide_bits ap bp wid =
     (let n = (wid + 63) div 64; btop = find_btop bp (n - 1)
      in if btop = 0 \<and> bp ! 0 = 0 then Some None
         else map_option Some (foldM (divide_step bp n btop) (rev [0..<n - btop]) (ap, replicate n 0)))"

definition negate_words :: "u64 list \<Rightarrow> nat \<Rightarrow> u64 list" where
  "negate_words val n =
     fst (fold (\<lambda>idx (val, carry). let (w, carry) = add_with_carry 0 (NOT (val ! idx)) carry in (val[idx := w], carry)) [0..<n] (val, 1))"

section \<open>Two words by one\<close>

lemma word_div_mod_max:
  fixes b :: u64
  assumes "b > 0"
  shows "unat ((- 1) div b) = (2 ^ 64 - 1) div unat b" "unat ((- 1) mod b) = (2 ^ 64 - 1) mod unat b"
  by (simp_all add: unat_div unat_mod unsigned_minus_1_eq_mask mask_eq_exp_minus_1)

lemma divide2words_round:
  fixes b high :: u64
  assumes "b > 0"
  shows "\<exists>q r. (let tmp_result = (- 1) div b; remain = (- 1) mod b; remain = remain + 1
      in if remain \<ge> b then (remain - b, tmp_result + 1) else (remain, tmp_result)) = (r, q) \<and>
    unat r = 2 ^ 64 mod unat b \<and> unat q = 2 ^ 64 div unat b mod 2 ^ 64"
proof -
  define B where "B = unat b"
  define M where "M = (2 :: nat) ^ 64"
  have B: "0 < B" "B < M" using assms unat_u64_less[of b] by (simp_all add: B_def M_def word_less_nat_alt)
  define q0 r0 where "q0 = (M - 1) div B" "r0 = (M - 1) mod B"
  have un: "unat ((- 1) div b) = q0" "unat ((- 1) mod b) = r0"
    using word_div_mod_max[OF assms] by (simp_all add: q0_r0_def M_def B_def)
  have split: "M - 1 = B * q0 + r0" "r0 < B" using B by (simp_all add: q0_r0_def)
  have q0: "q0 < M" unfolding q0_r0_def using B by (meson div_le_dividend le_less_trans diff_less zero_less_one order.strict_trans)
  have inc: "unat ((- 1) mod b + 1) = Suc r0"
    using split(2) B un(2) by (simp add: unat_word_ariths M_def)
  show ?thesis
  proof (cases "Suc r0 = B")
    case True
    then have "M = B * (q0 + 1)" using split B by (simp add: algebra_simps)
    then have "M mod B = 0" "M div B = q0 + 1" using B by simp_all
    then show ?thesis
      using True inc un B q0 unfolding M_def[symmetric] B_def[symmetric]
      by (auto simp: Let_def word_le_nat_alt B_def M_def unat_word_ariths unat_sub)
  next
    case False
    then have "Suc r0 < B" using split(2) by simp
    moreover have M: "M = B * q0 + Suc r0" using split(1) B by simp
    ultimately have d: "M div B = q0" by (intro div_nat_eqI) simp_all
    then have "M mod B = Suc r0" using M mult_div_mod_eq[of B M] by simp
    then show ?thesis
      using \<open>Suc r0 < B\<close> d \<open>M mod B = Suc r0\<close> inc un q0 unfolding M_def[symmetric] B_def[symmetric]
      by (auto simp: Let_def word_le_nat_alt B_def M_def)
  qed
qed

lemma add_overflow:
  fixes a w hi :: u64
  assumes "unat hi < 2 ^ 64 - 1"
  shows "2 ^ 64 * unat (if a + w < w then hi + 1 else hi) + unat (a + w) = 2 ^ 64 * unat hi + (unat a + unat w)"
proof -
  define M where "M = (2 :: nat) ^ 64"
  have l: "unat a < M" "unat w < M" by (simp_all add: M_def)
  have s: "unat (a + w) = (unat a + unat w) mod M" by (simp add: unat_word_ariths M_def)
  show ?thesis
  proof (cases "unat a + unat w < M")
    case True
    then have "unat (a + w) = unat a + unat w" using s by simp
    then show ?thesis by (simp add: word_less_nat_alt)
  next
    case False
    then have "unat (a + w) = unat a + unat w - M" using s l by (simp add: mod_if)
    moreover have "unat (hi + 1) = unat hi + 1" using assms by (simp add: unat_word_ariths)
    ultimately show ?thesis using False l(1) unfolding M_def[symmetric]
      by (auto simp: word_less_nat_alt algebra_simps)
  qed
qed

lemma divide2words_loop_val:
  assumes "b > 0"
  shows "\<exists>r. divide2words_loop b a high res = Some r \<and>
    unat r = (unat res + (unat high * 2 ^ 64 + unat a) div unat b) mod 2 ^ 64"
proof (induction "unat high * 2 ^ 64 + unat a" arbitrary: a high res rule: less_induct)
  case (less a high res)
  define M where "M = (2 :: nat) ^ 64"
  have Mpos: "0 < M" by (simp add: M_def)
  define B where "B = unat b"
  have B: "0 < B" using assms by (simp add: B_def word_less_nat_alt)
  show ?case
  proof (cases "high > 0")
    case False
    then have "high = 0" using word_gt_0[of high] by simp
    then show ?thesis by (subst divide2words_loop.simps) (simp add: unat_word_ariths unat_div mod_simps)
  next
    case True
    obtain q r where qr: "(let tmp_result = (- 1) div b; remain = (- 1) mod b; remain = remain + 1
      in if remain \<ge> b then (remain - b, tmp_result + 1) else (remain, tmp_result)) = (r, q)"
      "unat r = M mod B" "unat q = M div B mod M"
      using divide2words_round[OF assms] unfolding M_def B_def by blast
    obtain lo hi where m: "multiply_with_carry high r = (lo, hi)" by (meson surj_pair)
    have prod: "unat lo + M * unat hi = unat high * unat r"
      using multiply_with_carry_full[of high r] m by (simp add: M_def)
    have less_M: "unat w < M" for w :: u64 by (simp add: M_def)
    have "unat high * unat r \<le> (M - 1) * (M - 1)"
      using less_M[of high] less_M[of r] by (intro mult_le_mono) linarith+
    then have "M * unat hi \<le> (M - 1) * (M - 1)" using prod by linarith
    also have "\<dots> < M * (M - 1)" by (simp add: M_def)
    finally have "unat hi < M - 1" by (simp only: mult_less_cancel1)
    define a' where "a' = a + lo"
    define high' where "high' = (if a' < lo then hi + 1 else hi)"
    have new: "unat high' * M + unat a' = unat high * unat r + unat a"
      using add_overflow[of hi a lo] \<open>unat hi < M - 1\<close> prod unfolding M_def[symmetric] a'_def[symmetric] high'_def[symmetric]
      by (simp add: mult.commute)
    have step: "divide2words_loop b a high res = divide2words_loop b a' high' (res + q * high)"
      using True qr(1) m unfolding a'_def high'_def
      by (subst divide2words_loop.simps) (auto simp: Let_def split: if_splits prod.splits)
    have "unat r < M" "0 < unat high" using less_M True by (simp_all add: word_less_nat_alt)
    then have dec: "unat high' * 2 ^ 64 + unat a' < unat high * 2 ^ 64 + unat a"
      using new unfolding M_def[symmetric] by simp
    obtain x where x: "divide2words_loop b a' high' (res + q * high) = Some x"
      "unat x = (unat (res + q * high) + (unat high' * M + unat a') div B) mod M"
      using less.hyps[OF dec] unfolding M_def B_def by blast
    have T: "unat high * M + unat a = B * (unat high * (M div B)) + (unat high' * M + unat a')"
    proof -
      have "unat high * M = unat high * (B * (M div B)) + unat high * (M mod B)"
        by (metis distrib_left mult_div_mod_eq)
      then show ?thesis unfolding new qr(2) mult.left_commute[of B] by (simp only: add.assoc)
    qed
    have "(unat high * M + unat a) div B = unat high * (M div B) + (unat high' * M + unat a') div B"
      unfolding T using B by simp
    moreover have "unat (res + q * high) mod M = (unat res + unat high * (M div B)) mod M"
      unfolding M_def by (simp add: unat_word_ariths qr(3)[unfolded M_def] mod_simps mult.commute)
    then have "(unat (res + q * high) + t) mod M = (unat res + unat high * (M div B) + t) mod M" for t
      by (metis mod_add_cong)
    ultimately show ?thesis using x step unfolding M_def[symmetric] B_def[symmetric] by (simp add: add.assoc)
  qed
qed

lemma divide2words_val:
  assumes "b > 0"
  shows "\<exists>r. divide2words a b high = Some r \<and> unat r = (unat high * 2 ^ 64 + unat a) div unat b mod 2 ^ 64"
  using divide2words_loop_val[OF assms, of a high 0] by (simp add: divide2words_def)

section \<open>Sums and products of arrays\<close>

lemma add_span_val:
  assumes "p \<le> k" "k \<le> length ap" "unat c \<le> 1"
  shows "case add_span f p k (ap, c) of (ap', c') \<Rightarrow> length ap' = length ap \<and> unat c' \<le> 1 \<and>
    words_val ap' + 2 ^ (64 * k) * unat c' = words_val ap + 2 ^ (64 * p) * (words_val (map f [p..<k]) + unat c)"
  using assms(1,2)
proof (induction k rule: dec_induct)
  case base
  then show ?case using assms(3) by (simp add: add_span_def)
next
  case (step k)
  obtain xs c1 where st: "add_span f p k (ap, c) = (xs, c1)" by (meson surj_pair)
  with step have IH: "length xs = length ap" "unat c1 \<le> 1"
    "words_val xs + 2 ^ (64 * k) * unat c1 = words_val ap + 2 ^ (64 * p) * (words_val (map f [p..<k]) + unat c)" by simp_all
  obtain w c2 where w: "add_with_carry (xs ! k) (f k) c1 = (w, c2)" by (meson surj_pair)
  note s = add_with_carry_words[OF IH(2) w]
  have upd: "words_val (xs[k := w]) + 2 ^ (64 * k) * unat (xs ! k) = words_val xs + 2 ^ (64 * k) * unat w"
    using step.prems IH(1) by (intro words_val_update) simp
  have cell: "2 ^ (64 * k) * unat w + 2 ^ (64 * Suc k) * unat c2 =
      2 ^ (64 * k) * unat (xs ! k) + 2 ^ (64 * k) * unat (f k) + 2 ^ (64 * k) * unat c1"
    using arg_cong[OF conjunct1[OF s], of "\<lambda>x. 2 ^ (64 * k) * x"] by (simp add: power_add algebra_simps)
  have "(2 :: nat) ^ (64 * p) * 2 ^ (64 * (k - p)) = 2 ^ (64 * k)" using step.hyps by (simp flip: power_add add: algebra_simps)
  then have "2 ^ (64 * p) * words_val (map f [p..<Suc k]) = 2 ^ (64 * p) * words_val (map f [p..<k]) + 2 ^ (64 * k) * unat (f k)"
    using step.hyps by (simp add: words_val_append distrib_left mult.assoc[symmetric])
  then have "words_val (xs[k := w]) + 2 ^ (64 * Suc k) * unat c2 =
      words_val ap + 2 ^ (64 * p) * (words_val (map f [p..<Suc k]) + unat c)"
    using IH(3) upd cell by (simp add: distrib_left)
  moreover have "add_span f p (Suc k) (ap, c) = (xs[k := w], c2)"
    using st w step.hyps by (simp add: add_span_def)
  ultimately show ?case using IH s by simp
qed

lemma multiply_array_imm_val:
  assumes "n \<le> length val"
  shows "length (multiply_array_imm val n imm) = n \<and>
    words_val (multiply_array_imm val n imm) = words_val (take n val) * unat imm mod 2 ^ (64 * n)"
proof -
  let ?M = "2 ^ (64 * n) :: nat"
  define row where "row k = fold (\<lambda>mul_idx. mul_cell n (val ! mul_idx) imm mul_idx) [0..<k] (replicate n 0)" for k
  have "k \<le> n \<Longrightarrow> length (row k) = n \<and> words_val (row k) mod ?M = words_val (take k val) * unat imm mod ?M" for k
  proof (induction k)
    case 0
    then show ?case by (simp add: row_def)
  next
    case (Suc k)
    then have IH: "length (row k) = n" "words_val (row k) mod ?M = words_val (take k val) * unat imm mod ?M" by simp_all
    have "row (Suc k) = mul_cell n (val ! k) imm k (row k)" by (simp add: row_def)
    then have "length (row (Suc k)) = n" "words_val (row (Suc k)) mod ?M =
        (words_val (row k) + 2 ^ (64 * k) * (unat (val ! k) * unat imm)) mod ?M"
      using mul_cell_val[of k n "row k"] Suc.prems IH(1) by simp_all
    moreover have "words_val (take (Suc k) val) * unat imm = words_val (take k val) * unat imm + 2 ^ (64 * k) * (unat (val ! k) * unat imm)"
      using Suc.prems assms by (simp add: words_val_take_Suc algebra_simps)
    ultimately show ?case using mod_add_cong[OF IH(2) refl] by simp
  qed
  from this[of n] have r: "length (row n) = n" "words_val (row n) mod ?M = words_val (take n val) * unat imm mod ?M" by simp_all
  moreover have "words_val (row n) < ?M" using words_val_less[of "row n"] r(1) by simp
  ultimately show ?thesis by (simp add: row_def multiply_array_imm_def)
qed

lemma negate_words_val:
  assumes "length val = n"
  shows "length (negate_words val n) = n \<and> words_val (negate_words val n) = (2 ^ (64 * n) - words_val val) mod 2 ^ (64 * n)"
proof -
  let ?M = "2 ^ (64 * n) :: nat"
  define st where "st k = fold (\<lambda>idx (ws, carry). let (w, carry) = add_with_carry 0 (NOT (ws ! idx)) carry in (ws[idx := w], carry)) [0..<k] (val, 1)" for k
  have "k \<le> n \<Longrightarrow> (case st k of (ws, c) \<Rightarrow> length ws = n \<and> unat c \<le> 1 \<and> drop k ws = drop k val \<and>
      words_val (take k ws) + 2 ^ (64 * k) * unat c = words_val (map (\<lambda>w. NOT w) (take k val)) + 1)" for k
  proof (induction k)
    case 0
    then show ?case using assms by (simp add: st_def)
  next
    case (Suc k)
    obtain ws c where ws: "st k = (ws, c)" by (meson surj_pair)
    with Suc have IH: "length ws = n" "unat c \<le> 1" "drop k ws = drop k val"
      "words_val (take k ws) + 2 ^ (64 * k) * unat c = words_val (map (\<lambda>w. NOT w) (take k val)) + 1" by simp_all
    have k: "k < length ws" "k < length val" using Suc.prems IH(1) assms by simp_all
    then have nth: "ws ! k = val ! k" using IH(3) by (metis hd_drop_conv_nth)
    obtain w c2 where w: "add_with_carry 0 (NOT (ws ! k)) c = (w, c2)" by (meson surj_pair)
    note s = add_with_carry_words[OF IH(2) w]
    have cell: "2 ^ (64 * k) * unat w + 2 ^ (64 * Suc k) * unat c2 = 2 ^ (64 * k) * unat (NOT (val ! k)) + 2 ^ (64 * k) * unat c"
      using arg_cong[OF conjunct1[OF s], of "\<lambda>x. 2 ^ (64 * k) * x"] nth by (simp add: power_add algebra_simps)
    have "words_val (map (\<lambda>w. NOT w) (take (Suc k) val)) = words_val (map (\<lambda>w. NOT w) (take k val)) + 2 ^ (64 * k) * unat (NOT (val ! k))"
      using k by (simp add: take_Suc_conv_app_nth words_val_append min_def)
    moreover have "words_val (take (Suc k) (ws[k := w])) = words_val (take k ws) + 2 ^ (64 * k) * unat w"
      using k by (simp add: words_val_take_Suc)
    moreover have "st (Suc k) = (ws[k := w], c2)" using ws w by (simp add: st_def)
    moreover have "drop (Suc k) ws = drop (Suc k) val" using IH(3) by (metis drop_Suc tl_drop)
    ultimately show ?case using IH s cell by simp
  qed
  from this[of n] obtain ws c where r: "st n = (ws, c)" "length ws = n" "unat c \<le> 1"
    "words_val ws + ?M * unat c = words_val (map (\<lambda>w. NOT w) val) + 1"
    using assms by (cases "st n") auto
  have tot: "words_val ws + ?M * unat c = ?M - words_val val"
    using r(4) words_val_not[of val] assms by simp
  have "words_val ws < ?M" using words_val_less[of ws] r(2) by simp
  then have "words_val ws = (?M - words_val val) mod ?M" unfolding tot[symmetric] by simp
  moreover have "negate_words val n = ws" using r(1) by (simp add: negate_words_def st_def)
  ultimately show ?thesis using r(2) by simp
qed

section \<open>Division by one word\<close>

lemma unat_below_word: "unat (w :: u64) < 2 ^ 64"
  by simp

lemma words_val_prefix:
  assumes "words_val ws < 2 ^ (64 * k)"
  shows "words_val (take k ws) = words_val ws"
proof (cases "k < length ws")
  case True
  have "words_val ws = words_val (take k ws) + 2 ^ (64 * k) * words_val (drop k ws)"
    using words_val_append[of "take k ws" "drop k ws"] True by simp
  moreover from this have "words_val (drop k ws) = 0"
    using assms by (cases "words_val (drop k ws)") simp_all
  ultimately show ?thesis by simp
qed simp

text \<open>Below a bound only the word at \<open>c\<close> and the next one stand above the words before \<open>c\<close>.\<close>

lemma top_two_words:
  assumes "words_val ap < 2 ^ (64 * (c + 2))" "c < length ap"
  shows "words_val ap = words_val (take c ap) +
    2 ^ (64 * c) * (unat (ap ! c) + 2 ^ 64 * unat (if c + 1 < length ap then ap ! (c + 1) else 0))"
proof -
  have one: "words_val (take (Suc c) ap) = words_val (take c ap) + 2 ^ (64 * c) * unat (ap ! c)"
    using assms(2) by (rule words_val_take_Suc)
  have full: "words_val ap = words_val (take (c + 2) ap)" using words_val_prefix[OF assms(1)] by simp
  show ?thesis
  proof (cases "c + 1 < length ap")
    case True
    then have "words_val (take (Suc (Suc c)) ap) = words_val (take (Suc c) ap) + 2 ^ (64 * Suc c) * unat (ap ! Suc c)"
      by (intro words_val_take_Suc) simp
    then show ?thesis using full one True by (simp add: power_add distrib_left)
  next
    case False
    then show ?thesis using full one by simp
  qed
qed

lemma single_guess:
  assumes "length ap = n" "c < n" "0 < unat (bp ! 0)"
    and "words_val ap < unat (bp ! 0) * 2 ^ (64 * (c + 1))"
  defines "T \<equiv> unat (ap ! c) + 2 ^ 64 * unat (if c + 1 < n then ap ! (c + 1) else 0)"
  shows "words_val ap = words_val (take c ap) + 2 ^ (64 * c) * T" "T < unat (bp ! 0) * 2 ^ 64"
    "\<exists>g. divide_guess ap bp n 0 c = Some g \<and> (case g of None \<Rightarrow> T < unat (bp ! 0) | Some w \<Rightarrow> unat w = T div unat (bp ! 0))"
proof -
  let ?B = "unat (bp ! 0)"
  have "words_val ap < 2 ^ 64 * 2 ^ (64 * (c + 1))"
    by (rule order.strict_trans2[OF assms(4) mult_le_mono1[OF less_imp_le[OF unat_below_word]]])
  then have "words_val ap < 2 ^ (64 * (c + 2))" by (simp add: power_add)
  from top_two_words[OF this] show val: "words_val ap = words_val (take c ap) + 2 ^ (64 * c) * T"
    using assms(1,2) by (simp add: T_def)
  have "(2 :: nat) ^ (64 * (c + 1)) = 2 ^ (64 * c) * 2 ^ 64" by (simp add: power_add)
  then have "2 ^ (64 * c) * T < 2 ^ (64 * c) * (?B * 2 ^ 64)"
    using assms(4) val by (simp only: mult.left_commute[of _ ?B])
  then show T: "T < ?B * 2 ^ 64" by (simp only: mult_less_cancel1)
  then have q: "T div ?B < 2 ^ 64" using assms(3) by (simp add: div_less_iff_less_mult mult.commute)
  have div: "\<exists>w. divide2words (ap ! c) (bp ! 0) (if c + 1 < n then ap ! (c + 1) else 0) = Some w \<and> unat w = T div ?B"
  proof -
    obtain w where "divide2words (ap ! c) (bp ! 0) (if c + 1 < n then ap ! (c + 1) else 0) = Some w"
      "unat w = (unat (if c + 1 < n then ap ! (c + 1) else 0) * 2 ^ 64 + unat (ap ! c)) div ?B mod 2 ^ 64"
      using divide2words_val[of "bp ! 0" "ap ! c" "if c + 1 < n then ap ! (c + 1) else 0"] assms(3)
      by (auto simp: word_less_nat_alt)
    moreover have "unat (if c + 1 < n then ap ! (c + 1) else 0) * 2 ^ 64 + unat (ap ! c) = T" by (simp add: T_def)
    ultimately show ?thesis using q by (metis mod_less)
  qed
  show "\<exists>g. divide_guess ap bp n 0 c = Some g \<and> (case g of None \<Rightarrow> T < ?B | Some w \<Rightarrow> unat w = T div ?B)"
  proof (cases "ap ! c \<ge> bp ! 0")
    case True
    then show ?thesis using div by (auto simp: divide_guess_def Let_def)
  next
    case False
    then have "unat (ap ! c) < ?B" by (simp add: word_less_nat_alt not_le)
    then show ?thesis using False div by (auto simp: divide_guess_def T_def not_le)
  qed
qed

text \<open>What the rounds keep: \<open>a\<close> is the divisor times the quotient so far plus the rest, which is below the
  divisor shifted to the present place.\<close>

definition division_inv :: "nat \<Rightarrow> nat \<Rightarrow> nat \<Rightarrow> nat \<Rightarrow> u64 list \<times> u64 list \<Rightarrow> bool" where
  "division_inv n a b c st \<longleftrightarrow> (case st of (ap, result) \<Rightarrow> length ap = n \<and> length result = n \<and>
     words_val ap < b * 2 ^ (64 * c) \<and> a = b * words_val result + words_val ap \<and> (\<forall>i<c. result ! i = 0))"

lemma single_step:
  assumes "division_inv n a (unat (bp ! 0)) (c + 1) (ap, result)" "c < n" "0 < unat (bp ! 0)"
    "length bp = n" "words_val bp = unat (bp ! 0)"
  shows "\<exists>st. divide_step bp n 0 c (ap, result) = Some st \<and> division_inv n a (unat (bp ! 0)) c st"
proof -
  let ?B = "unat (bp ! 0)" and ?P = "2 ^ (64 * c) :: nat"
  have inv: "length ap = n" "length result = n" "words_val ap < ?B * 2 ^ (64 * (c + 1))"
    "a = ?B * words_val result + words_val ap" "\<And>i. i < c + 1 \<Longrightarrow> result ! i = 0"
    using assms(1) by (auto simp: division_inv_def)
  define T where "T = unat (ap ! c) + 2 ^ 64 * unat (if c + 1 < n then ap ! (c + 1) else 0)"
  define L where "L = words_val (take c ap)"
  have L: "L < ?P" using words_val_less[of "take c ap"] inv(1) assms(2) by (simp add: L_def min_def)
  note sg = single_guess[OF inv(1) assms(2,3) inv(3), folded T_def L_def]
  obtain g where g: "divide_guess ap bp n 0 c = Some g" "case g of None \<Rightarrow> T < ?B | Some w \<Rightarrow> unat w = T div ?B"
    using sg(3) by blast
  show ?thesis
  proof (cases g)
    case None
    then have "T + 1 \<le> ?B" using g(2) by simp
    then have "?P * (T + 1) \<le> ?P * ?B" by (rule mult_le_mono2)
    then have "words_val ap < ?B * ?P" using sg(1) L by (simp add: algebra_simps)
    then show ?thesis using g None inv by (simp add: divide_step_def division_inv_def)
  next
    case (Some w)
    then have w: "unat w = T div ?B" using g(2) by simp
    define diff where "diff = multiply_array_imm bp (n - c) w"
    have BT: "?B * unat w \<le> T" using w by simp
    have cut: "?P * 2 ^ (64 * (n - c)) = (2 ^ (64 * n) :: nat)" using assms(2) by (simp flip: power_add add: algebra_simps)
    have "?P * T < 2 ^ (64 * n)" using words_val_less[of ap] inv(1) sg(1) by simp
    then have Tn: "T < 2 ^ (64 * (n - c))" unfolding cut[symmetric] by (simp only: mult_less_cancel1)
    have "?B < 2 ^ (64 * (n - c))"
    proof -
      have "?B < 2 ^ 64" by (rule unat_below_word)
      also have "\<dots> \<le> 2 ^ (64 * (n - c))" using assms(2) by (intro power_increasing) simp_all
      finally show ?thesis .
    qed
    then have "words_val (take (n - c) bp) = ?B" using words_val_prefix[of bp "n - c"] assms(5) by simp
    then have diff: "length diff = n - c" "words_val diff = ?B * unat w"
      using multiply_array_imm_val[of "n - c" bp w] assms(4) BT Tn by (simp_all add: diff_def)
    have negs: "map (\<lambda>idx. NOT (diff ! (idx - c))) [c..<n] = map (\<lambda>w. NOT w) diff"
      using diff(1) by (simp add: list_eq_iff_nth_eq)
    obtain ap' c' where sub: "add_span (\<lambda>idx. NOT (diff ! (idx - c))) c n (ap, 1) = (ap', c')" by (meson surj_pair)
    have s: "length ap' = n" "unat c' \<le> 1"
      "words_val ap' + 2 ^ (64 * n) * unat c' = words_val ap + ?P * (words_val (map (\<lambda>w. NOT w) diff) + 1)"
      using add_span_val[of c n ap 1 "\<lambda>idx. NOT (diff ! (idx - c))"] sub inv(1) assms(2) negs by simp_all
    have "words_val (map (\<lambda>w. NOT w) diff) + 1 + ?B * unat w = 2 ^ (64 * (n - c))"
      using words_val_not[of diff] diff by simp
    then have "?P * (words_val (map (\<lambda>w. NOT w) diff) + 1) + ?P * (?B * unat w) = 2 ^ (64 * n)"
      unfolding cut[symmetric] by (simp only: distrib_left[symmetric])
    then have tot: "words_val ap' + 2 ^ (64 * n) * unat c' + ?P * (?B * unat w) = words_val ap + 2 ^ (64 * n)"
      using s(3) by linarith
    have PBT: "?P * (?B * unat w) \<le> ?P * T" using BT by simp
    have "words_val ap' < 2 ^ (64 * n)" using words_val_less[of ap'] s(1) by simp
    have "unat c' = 1"
    proof (rule ccontr)
      assume "unat c' \<noteq> 1"
      then have "unat c' = 0" using s(2) by simp
      then have "words_val ap + 2 ^ (64 * n) < 2 ^ (64 * n) + ?P * (?B * unat w)"
        using tot \<open>words_val ap' < 2 ^ (64 * n)\<close> by simp
      then show False using PBT sg(1) by simp
    qed
    then have carry: "c' = 1" by (simp add: word_unat_eq_iff)
    have rest: "words_val ap' + ?P * (?B * unat w) = words_val ap" using tot \<open>unat c' = 1\<close> by simp
    have "T - ?B * unat w = T mod ?B" using w by (simp add: minus_mult_div_eq_mod)
    then have "T = ?B * unat w + T mod ?B" using BT by simp
    then have "?P * T = ?P * (?B * unat w) + ?P * (T mod ?B)" by (metis distrib_left)
    then have "words_val ap' = L + ?P * (T mod ?B)" using rest sg(1) by linarith
    also have "\<dots> < ?P * (T mod ?B + 1)" using L by simp
    also have "\<dots> \<le> ?P * ?B" using assms(3) by (intro mult_le_mono2) (simp add: Suc_leI)
    finally have "words_val ap' < ?B * ?P" by (simp add: mult.commute)
    moreover have "words_val (result[c := w]) = words_val result + ?P * unat w"
      using words_val_update[of c result w] inv(2,5) assms(2) by simp
    then have "a = ?B * words_val (result[c := w]) + words_val ap'"
      using rest inv(4) by (simp add: distrib_left mult.left_commute)
    moreover have "divide_step bp n 0 c (ap, result) = Some (ap', result[c := w])"
      using g(1) Some sub carry diff_def by (simp add: divide_step_def Let_def)
    ultimately show ?thesis using s(1) inv(2,5) by (simp add: division_inv_def nth_list_update)
  qed
qed

lemma foldM_rev_upt_inv:
  assumes "P n s" "\<And>i s. i < n \<Longrightarrow> P (Suc i) s \<Longrightarrow> \<exists>s'. f i s = Some s' \<and> P i s'"
  shows "\<exists>s'. foldM f (rev [0..<n]) s = Some s' \<and> P 0 s'"
  using assms
proof (induction n arbitrary: s)
  case 0
  then show ?case by simp
next
  case (Suc n)
  then obtain s1 where "f n s = Some s1" "P n s1" by blast
  then show ?case using Suc.IH[of s1] Suc.prems(2) by simp
qed

lemma find_btop_zero: "(\<And>i. 0 < i \<Longrightarrow> i \<le> k \<Longrightarrow> bp ! i = 0) \<Longrightarrow> find_btop bp k = 0"
  by (induction k) (subst find_btop.simps, simp)+

lemma divide_bits_one_word:
  assumes "0 < wid" "length ap = word_count wid" "length bp = word_count wid" "words_val bp < 2 ^ 64"
  shows "if words_val bp = 0 then divide_bits ap bp wid = Some None
    else \<exists>r q. divide_bits ap bp wid = Some (Some (r, q)) \<and> length q = word_count wid \<and>
      words_val q = words_val ap div words_val bp \<and> words_val r = words_val ap mod words_val bp"
proof -
  let ?n = "word_count wid"
  have n: "0 < ?n" using assms(1) by (simp add: div_greater_zero_iff)
  then obtain b bs where bp: "bp = b # bs" using assms(3) by (cases bp) auto
  have low: "words_val bs = 0" using assms(4) by (cases "words_val bs") (simp_all add: bp)
  then have val: "words_val bp = unat (bp ! 0)" by (simp add: bp)
  have zero: "i < length bs \<Longrightarrow> bs ! i = 0" for i
    using low by (induction bs arbitrary: i) (auto simp: nth_Cons' unat_eq_zero)
  have top: "find_btop bp (?n - 1) = 0"
    using zero assms(3) by (intro find_btop_zero) (auto simp: bp nth_Cons')
  show ?thesis
  proof (cases "words_val bp = 0")
    case True
    then have "bp ! 0 = 0" using val by (simp add: unat_eq_zero)
    then show ?thesis using True top by (simp add: divide_bits_def Let_def)
  next
    case False
    then have pos: "0 < unat (bp ! 0)" using val by simp
    have "1 * 2 ^ (64 * ?n) \<le> unat (bp ! 0) * 2 ^ (64 * ?n)" using pos by (intro mult_le_mono1) simp
    then have "division_inv ?n (words_val ap) (unat (bp ! 0)) ?n (ap, replicate ?n 0)"
      using words_val_less[of ap] assms(2) order.strict_trans2[OF words_val_less[of ap]] by (simp add: division_inv_def)
    from foldM_rev_upt_inv[where P = "division_inv ?n (words_val ap) (unat (bp ! 0))" and f = "divide_step bp ?n 0", OF this]
    obtain r q where st: "foldM (divide_step bp ?n 0) (rev [0..<?n]) (ap, replicate ?n 0) = Some (r, q)"
      "division_inv ?n (words_val ap) (unat (bp ! 0)) 0 (r, q)"
      using single_step[OF _ _ pos assms(3) val] by (metis Suc_eq_plus1 surj_pair)
    have "bp ! 0 \<noteq> 0" using pos by auto
    then have "divide_bits ap bp wid = Some (Some (r, q))" using top st(1) by (simp add: divide_bits_def Let_def)
    moreover have e: "words_val ap = words_val bp * words_val q + words_val r" "words_val r < words_val bp" "length q = ?n"
      using st(2) val by (simp_all add: division_inv_def)
    moreover have "words_val ap div words_val bp = words_val q" "words_val ap mod words_val bp = words_val r"
      unfolding e(1) using e(2) by simp_all
    ultimately show ?thesis using False by simp
  qed
qed

text \<open>A divisor of two words can be guessed too large by far; the product then overflows the words and the
  subtraction does not notice: two to the 128 minus two to the 64, divided by two to the 65 minus 1.\<close>

lemma divide_bits_wrong:
  "divide_bits [0, - 1] [- 1, 1] 128 = Some (Some ([- 1, 1], [- 1, 0]))"
proof -
  have "divide2words (- 1) 1 0 = Some (- 1)"
    by (simp add: divide2words_def divide2words_loop.simps)
  moreover have "multiply_array_imm [- 1, 1] 2 (- 1) = [1, - 3]"
    by code_simp
  moreover have "add_span (\<lambda>idx. NOT ([1, - 3] ! (idx - 0))) 0 2 ([0, - 1], 1) = ([- 1, 1], 1)"
    by code_simp
  ultimately show ?thesis
    by (simp add: divide_bits_def Let_def find_btop.simps divide_step_def divide_guess_def upt_rec numeral_2_eq_2)
qed

section \<open>The division always ends\<close>

lemma add_back_ends:
  assumes "p \<le> n" "length ap = n" "0 < words_val (map f [p..<n])"
  shows "\<exists>ap' c. add_back f p n ap cur_res = Some (ap', c) \<and> length ap' = n"
  using assms(2)
proof (induction "2 ^ (64 * n) - words_val ap" arbitrary: ap cur_res rule: less_induct)
  case less
  obtain ap' carry where sp: "add_span f p n (ap, 0) = (ap', carry)" by (meson surj_pair)
  then have s: "length ap' = n" "unat carry \<le> 1" "words_val ap' + 2 ^ (64 * n) * unat carry = words_val ap + 2 ^ (64 * p) * words_val (map f [p..<n])"
    using add_span_val[of p n ap 0 f] assms(1) less.prems by simp_all
  show ?case
  proof (cases "carry = 0")
    case False
    then show ?thesis using sp s(1) by (subst add_back.simps) simp
  next
    case True
    then have "words_val ap < words_val ap'" using s(3) assms(3) by simp
    moreover have "words_val ap' < 2 ^ (64 * n)" using words_val_less[of ap'] s(1) by simp
    ultimately have "2 ^ (64 * n) - words_val ap' < 2 ^ (64 * n) - words_val ap" by linarith
    then show ?thesis using less.hyps[of ap' "cur_res - 1"] s(1) sp True by (subst add_back.simps) simp
  qed
qed

lemma words_val_pos: "i < length ws \<Longrightarrow> ws ! i \<noteq> 0 \<Longrightarrow> 0 < words_val ws"
proof (induction ws arbitrary: i)
  case (Cons w ws)
  show ?case
  proof (cases i)
    case 0
    then have "0 < unat w" using Cons.prems(2) by (simp add: unat_gt_0)
    then show ?thesis by simp
  next
    case (Suc j)
    then have "0 < words_val ws" using Cons by simp
    then show ?thesis by simp
  qed
qed simp

lemma divide_step_ends:
  assumes "length ap = n" "length result = n" "length bp = n" "cur_ptr + btop < n" "bp ! btop \<noteq> 0"
  shows "\<exists>ap' result'. divide_step bp n btop cur_ptr (ap, result) = Some (ap', result') \<and> length ap' = n \<and> length result' = n"
proof -
  have pos: "bp ! btop > 0" using assms(5) by (simp add: word_gt_0)
  have d: "\<exists>r. divide2words a (bp ! btop) h = Some r" for a h using divide2words_val[OF pos] by blast
  have "\<exists>g. divide_guess ap bp n btop cur_ptr = Some g"
    using d[of "ap ! (cur_ptr + btop)" 0] d[of "ap ! (cur_ptr + btop)" "ap ! (cur_ptr + btop + 1)"]
    by (auto simp: divide_guess_def Let_def)
  then obtain g where g: "divide_guess ap bp n btop cur_ptr = Some g" by blast
  show ?thesis
  proof (cases g)
    case None
    then show ?thesis using g assms by (simp add: divide_step_def)
  next
    case (Some w)
    define f where "f = (\<lambda>idx. NOT (multiply_array_imm bp (n - cur_ptr) w ! (idx - cur_ptr)))"
    obtain ap1 carry where sp: "add_span f cur_ptr n (ap, 1) = (ap1, carry)" by (meson surj_pair)
    have l: "length ap1 = n" using add_span_val[of cur_ptr n ap 1 f] sp assms by simp
    have map: "map (\<lambda>idx. bp ! (idx - cur_ptr)) [cur_ptr..<n] = take (n - cur_ptr) bp"
      using assms(3,4) by (simp add: list_eq_iff_nth_eq)
    have "0 < words_val (take (n - cur_ptr) bp)"
      by (rule words_val_pos[of btop]) (use assms in auto)
    then obtain ap2 c where bk: "add_back (\<lambda>idx. bp ! (idx - cur_ptr)) cur_ptr n ap1 w = Some (ap2, c)" "length ap2 = n"
      using add_back_ends[of cur_ptr n ap1 "\<lambda>idx. bp ! (idx - cur_ptr)" w] l assms(4) map by auto
    show ?thesis
      using g Some sp[unfolded f_def] bk l assms(2) by (simp add: divide_step_def)
  qed
qed

lemma find_btop_zero_word: "0 < k \<Longrightarrow> bp ! k = 0 \<Longrightarrow> find_btop bp k = find_btop bp (k - 1)"
  by (subst find_btop.simps) simp

lemma find_btop_stop: "k = 0 \<or> bp ! k \<noteq> 0 \<Longrightarrow> find_btop bp k = k"
  by (subst find_btop.simps) auto

lemma find_btop_le: "find_btop bp k \<le> k"
proof (induction k)
  case (Suc k)
  then show ?case by (cases "bp ! Suc k = 0") (simp_all add: find_btop_zero_word find_btop_stop)
qed (simp add: find_btop_stop)

lemma find_btop_nonzero: "find_btop bp k \<noteq> 0 \<or> bp ! 0 \<noteq> 0 \<Longrightarrow> bp ! find_btop bp k \<noteq> 0"
proof (induction k)
  case (Suc k)
  then show ?case by (cases "bp ! Suc k = 0") (simp_all add: find_btop_zero_word find_btop_stop)
qed (simp add: find_btop_stop)

lemma divide_bits_ends:
  assumes "0 < wid" "length ap = word_count wid" "length bp = word_count wid"
  shows "\<exists>g. divide_bits ap bp wid = Some g \<and> (case g of None \<Rightarrow> True | Some (r, q) \<Rightarrow> length q = word_count wid)"
proof (cases "find_btop bp (word_count wid - 1) = 0 \<and> bp ! 0 = 0")
  case True
  then show ?thesis by (simp add: divide_bits_def Let_def)
next
  case False
  let ?n = "word_count wid"
  define btop where "btop = find_btop bp (?n - 1)"
  have "0 < ?n" using assms(1) by (simp add: div_greater_zero_iff)
  then have bt: "btop < ?n" using find_btop_le[of bp "?n - 1"] by (simp add: btop_def)
  have nz: "bp ! btop \<noteq> 0" using find_btop_nonzero[of bp "?n - 1"] False by (auto simp: btop_def)
  have "\<exists>st. foldM (divide_step bp ?n btop) (rev [0..<?n - btop]) (ap, replicate ?n 0) = Some st \<and>
      (length (fst st) = ?n \<and> length (snd st) = ?n)"
  proof (rule foldM_rev_upt_inv[where P = "\<lambda>i st. length (fst st) = ?n \<and> length (snd st) = ?n"])
    fix i and st :: "u64 list \<times> u64 list" assume "i < ?n - btop" "length (fst st) = ?n \<and> length (snd st) = ?n"
    then show "\<exists>st'. divide_step bp ?n btop i st = Some st' \<and> length (fst st') = ?n \<and> length (snd st') = ?n"
      using divide_step_ends[of "fst st" ?n "snd st" bp i btop] assms(3) nz by auto
  qed (use assms in simp)
  then show ?thesis using False by (auto simp: divide_bits_def Let_def btop_def)
qed

end
