(* ===== verification/Thread_State.thy ===== *)
theory Thread_State
  imports Vector_Numbers Thread_Division
begin

text \<open>
  The private state of a thread (\<^verbatim>\<open>vthread.cc\<close>, \<^verbatim>\<open>struct vthread_s\<close>): program counter, flags, index registers and the operand stacks.
  The top of a stack is the head of its list. An operation that reads below the bottom of a stack, outside
  the flags or outside the registers has the value \<open>None\<close>, as has a failing \<^verbatim>\<open>assert\<close>. A double is its 64 bits.
  The links to other threads are in \<open>Thread_Tree\<close>.
\<close>

record vthread =
  thr_pc :: nat
  thr_flags :: "vvp_bit4_t list"
  thr_words :: "u64 list"
  stack_vec4 :: "vvp_vector4_t list"
  stack_real :: "u64 list"
  stack_str :: "string list"

definition FLAGS_COUNT :: nat where
  "FLAGS_COUNT = 256"

definition WORDS_COUNT :: nat where
  "WORDS_COUNT = 16"

section \<open>Stacks\<close>

definition pop_vec4 :: "vthread \<Rightarrow> (vvp_vector4_t \<times> vthread) option" where
  "pop_vec4 thr = (case stack_vec4 thr of [] \<Rightarrow> None | val # rest \<Rightarrow> Some (val, thr\<lparr>stack_vec4 := rest\<rparr>))"

definition push_vec4 :: "vvp_vector4_t \<Rightarrow> vthread \<Rightarrow> vthread" where
  "push_vec4 val thr = thr\<lparr>stack_vec4 := val # stack_vec4 thr\<rparr>"

definition peek_vec4 :: "nat \<Rightarrow> vthread \<Rightarrow> vvp_vector4_t option" where
  "peek_vec4 depth thr = (if depth < length (stack_vec4 thr) then Some (stack_vec4 thr ! depth) else None)"

definition poke_vec4 :: "nat \<Rightarrow> vvp_vector4_t \<Rightarrow> vthread \<Rightarrow> vthread option" where
  "poke_vec4 depth val thr =
     (if depth < length (stack_vec4 thr) then Some (thr\<lparr>stack_vec4 := (stack_vec4 thr)[depth := val]\<rparr>) else None)"

definition pop_vec4_cnt :: "nat \<Rightarrow> vthread \<Rightarrow> vthread option" where
  "pop_vec4_cnt cnt thr =
     (if cnt \<le> length (stack_vec4 thr) then Some (thr\<lparr>stack_vec4 := drop cnt (stack_vec4 thr)\<rparr>) else None)"

definition pop_real :: "vthread \<Rightarrow> (u64 \<times> vthread) option" where
  "pop_real thr = (case stack_real thr of [] \<Rightarrow> None | val # rest \<Rightarrow> Some (val, thr\<lparr>stack_real := rest\<rparr>))"

definition push_real :: "u64 \<Rightarrow> vthread \<Rightarrow> vthread" where
  "push_real val thr = thr\<lparr>stack_real := val # stack_real thr\<rparr>"

definition peek_real :: "nat \<Rightarrow> vthread \<Rightarrow> u64 option" where
  "peek_real depth thr = (if depth < length (stack_real thr) then Some (stack_real thr ! depth) else None)"

definition poke_real :: "nat \<Rightarrow> u64 \<Rightarrow> vthread \<Rightarrow> vthread option" where
  "poke_real depth val thr =
     (if depth < length (stack_real thr) then Some (thr\<lparr>stack_real := (stack_real thr)[depth := val]\<rparr>) else None)"

definition pop_real_cnt :: "nat \<Rightarrow> vthread \<Rightarrow> vthread option" where
  "pop_real_cnt cnt thr =
     (if cnt \<le> length (stack_real thr) then Some (thr\<lparr>stack_real := drop cnt (stack_real thr)\<rparr>) else None)"

definition pop_str :: "vthread \<Rightarrow> (string \<times> vthread) option" where
  "pop_str thr = (case stack_str thr of [] \<Rightarrow> None | val # rest \<Rightarrow> Some (val, thr\<lparr>stack_str := rest\<rparr>))"

definition push_str :: "string \<Rightarrow> vthread \<Rightarrow> vthread" where
  "push_str val thr = thr\<lparr>stack_str := val # stack_str thr\<rparr>"

definition peek_str :: "nat \<Rightarrow> vthread \<Rightarrow> string option" where
  "peek_str depth thr = (if depth < length (stack_str thr) then Some (stack_str thr ! depth) else None)"

definition poke_str :: "nat \<Rightarrow> string \<Rightarrow> vthread \<Rightarrow> vthread option" where
  "poke_str depth val thr =
     (if depth < length (stack_str thr) then Some (thr\<lparr>stack_str := (stack_str thr)[depth := val]\<rparr>) else None)"

definition pop_str_cnt :: "nat \<Rightarrow> vthread \<Rightarrow> vthread option" where
  "pop_str_cnt cnt thr =
     (if cnt \<le> length (stack_str thr) then Some (thr\<lparr>stack_str := drop cnt (stack_str thr)\<rparr>) else None)"

text \<open>An operation that pops one operand and edits the new top in place; one that edits the top.\<close>

definition on_top_two :: "(vvp_vector4_t \<Rightarrow> vvp_vector4_t \<Rightarrow> vvp_vector4_t option) \<Rightarrow> vthread \<Rightarrow> vthread option" where
  "on_top_two f thr =
     (case pop_vec4 thr of
        None \<Rightarrow> None
      | Some (r, thr) \<Rightarrow>
          (case peek_vec4 0 thr of
             None \<Rightarrow> None
           | Some l \<Rightarrow> (case f l r of None \<Rightarrow> None | Some v \<Rightarrow> poke_vec4 0 v thr)))"

definition on_top :: "(vvp_vector4_t \<Rightarrow> vvp_vector4_t option) \<Rightarrow> vthread \<Rightarrow> vthread option" where
  "on_top f thr =
     (case peek_vec4 0 thr of
        None \<Rightarrow> None
      | Some v \<Rightarrow> (case f v of None \<Rightarrow> None | Some v \<Rightarrow> poke_vec4 0 v thr))"

section \<open>Flags and registers\<close>

definition get_flag :: "nat \<Rightarrow> vthread \<Rightarrow> vvp_bit4_t option" where
  "get_flag n thr = (if n < length (thr_flags thr) then Some (thr_flags thr ! n) else None)"

definition set_flag :: "nat \<Rightarrow> vvp_bit4_t \<Rightarrow> vthread \<Rightarrow> vthread option" where
  "set_flag n b thr = (if n < length (thr_flags thr) then Some (thr\<lparr>thr_flags := (thr_flags thr)[n := b]\<rparr>) else None)"

definition get_word :: "nat \<Rightarrow> vthread \<Rightarrow> u64 option" where
  "get_word n thr = (if n < length (thr_words thr) then Some (thr_words thr ! n) else None)"

definition set_word :: "nat \<Rightarrow> u64 \<Rightarrow> vthread \<Rightarrow> vthread option" where
  "set_word n w thr = (if n < length (thr_words thr) then Some (thr\<lparr>thr_words := (thr_words thr)[n := w]\<rparr>) else None)"

lemma on_top_two_eq:
  "on_top_two f thr = (case stack_vec4 thr of r # l # rest \<Rightarrow> map_option (\<lambda>v. thr\<lparr>stack_vec4 := v # rest\<rparr>) (f l r) | _ \<Rightarrow> None)"
  by (auto simp: on_top_two_def pop_vec4_def peek_vec4_def poke_vec4_def split: list.splits option.splits)

lemma on_top_eq:
  "on_top f thr = (case stack_vec4 thr of v # rest \<Rightarrow> map_option (\<lambda>v. thr\<lparr>stack_vec4 := v # rest\<rparr>) (f v) | _ \<Rightarrow> None)"
  by (auto simp: on_top_def peek_vec4_def poke_vec4_def split: list.splits option.splits)

end
