(* ===== verification/Thread_Ops.thy ===== *)
theory Thread_Ops
  imports Thread_State Arith Vector4_Parts Vector4_Select
begin

text \<open>
  The opcodes of a thread that work on its own state (\<^verbatim>\<open>vthread.cc\<close>): one definition \<open>of_X\<close> per function
  \<^verbatim>\<open>of_X\<close> and the functions these share. Operands of an instruction are arguments. The opcodes that touch nets,
  objects, real arithmetic or other threads are not here.
\<close>

section \<open>Immediate operands\<close>

text \<open>The loop stops when the rest of the immediate is zero. The code of a bit is that of the enumeration.\<close>

fun immediate_loop :: "nat list \<Rightarrow> 32 word \<Rightarrow> 32 word \<Rightarrow> vvp_vector4_t \<Rightarrow> vvp_vector4_t option" where
  "immediate_loop [] vala valb val = Some val"
| "immediate_loop (idx # is) vala valb val =
     (if vala OR valb = 0 then Some val
      else let ba = push_bit 1 (valb AND 1) OR (vala AND 1)
           in case (if ba \<noteq> 0 then vec4_set_bit val idx (bit4_cast (unat ba)) else Some val) of
                None \<Rightarrow> None
              | Some val \<Rightarrow> immediate_loop is (drop_bit 1 vala) (drop_bit 1 valb) val)"

definition get_immediate_rval :: "32 word \<Rightarrow> 32 word \<Rightarrow> nat \<Rightarrow> vvp_vector4_t \<Rightarrow> vvp_vector4_t option" where
  "get_immediate_rval vala valb wid val =
     (if valb = 0 then
        if vala = 0 then Some val
        else vec4_setarray val 0 (if wid < 64 then wid else 64) [ucast vala]
      else immediate_loop [0..<wid] vala valb val)"

text \<open>An operation with an immediate right operand.\<close>

definition with_immediate :: "32 word \<Rightarrow> 32 word \<Rightarrow> nat \<Rightarrow> (vvp_vector4_t \<Rightarrow> 'a option) \<Rightarrow> 'a option" where
  "with_immediate vala valb wid f =
     (case get_immediate_rval vala valb wid (vec4_new wid BIT4_0) of None \<Rightarrow> None | Some r \<Rightarrow> f r)"

section \<open>Arithmetic\<close>

definition of_ADD :: "vthread \<Rightarrow> vthread option" where
  "of_ADD = on_top_two vec4_add"

definition of_ADDI :: "32 word \<Rightarrow> 32 word \<Rightarrow> nat \<Rightarrow> vthread \<Rightarrow> vthread option" where
  "of_ADDI vala valb wid = on_top (\<lambda>l. with_immediate vala valb wid (vec4_add l))"

definition of_SUB :: "vthread \<Rightarrow> vthread option" where
  "of_SUB = on_top_two vec4_sub"

definition of_SUBI :: "32 word \<Rightarrow> 32 word \<Rightarrow> nat \<Rightarrow> vthread \<Rightarrow> vthread option" where
  "of_SUBI vala valb wid = on_top (\<lambda>l. with_immediate vala valb wid (vec4_sub l))"

definition of_MUL :: "vthread \<Rightarrow> vthread option" where
  "of_MUL = on_top_two vec4_mul"

definition of_MULI :: "32 word \<Rightarrow> 32 word \<Rightarrow> nat \<Rightarrow> vthread \<Rightarrow> vthread option" where
  "of_MULI vala valb wid = on_top (\<lambda>l. with_immediate vala valb wid (vec4_mul l))"

text \<open>Both operands as words; \<open>None\<close> inside is an X result.\<close>

definition fetch_words :: "vvp_vector4_t \<Rightarrow> vvp_vector4_t \<Rightarrow> (u64 list \<times> u64 list) option option" where
  "fetch_words vala valb =
     (let wid = vec_size vala
      in case vec4_subarray vala 0 wid False of
           None \<Rightarrow> None
         | Some None \<Rightarrow> Some None
         | Some (Some ap) \<Rightarrow>
             (case vec4_subarray valb 0 wid False of
                None \<Rightarrow> None
              | Some None \<Rightarrow> Some None
              | Some (Some bp) \<Rightarrow> Some (Some (ap, bp))))"

definition div_vectors :: "vvp_vector4_t \<Rightarrow> vvp_vector4_t \<Rightarrow> vvp_vector4_t option" where
  "div_vectors vala valb =
     (let wid = vec_size vala
      in if wid \<noteq> vec_size valb then None
         else case fetch_words vala valb of
                None \<Rightarrow> None
              | Some None \<Rightarrow> Some (vec4_new wid BIT4_X)
              | Some (Some (ap, bp)) \<Rightarrow>
                  if wid \<le> 64 then
                    if bp ! 0 = 0 then Some (vec4_new wid BIT4_X)
                    else vec4_setarray vala 0 wid (ap[0 := ap ! 0 div bp ! 0])
                  else (case divide_bits ap bp wid of
                          None \<Rightarrow> None
                        | Some None \<Rightarrow> Some (vec4_new wid BIT4_X)
                        | Some (Some (_, result)) \<Rightarrow> vec4_setarray vala 0 wid result))"

definition of_DIV :: "vthread \<Rightarrow> vthread option" where
  "of_DIV = on_top_two div_vectors"

text \<open>The sign of the top word is copied into the bits beyond the width.\<close>

definition extend_sign :: "u64 \<Rightarrow> nat \<Rightarrow> u64 list \<Rightarrow> u64 list" where
  "extend_sign sign_mask n ws =
     (if ws ! (n - 1) AND shr sign_mask 1 \<noteq> 0 then ws[n - 1 := ws ! (n - 1) OR sign_mask] else ws)"

definition div_signed_word :: "nat \<Rightarrow> u64 \<Rightarrow> vvp_vector4_t \<Rightarrow> u64 list \<Rightarrow> u64 list \<Rightarrow> vvp_vector4_t option" where
  "div_signed_word wid sign_mask vala ap bp =
     (if bp ! 0 = 0 then Some (vec4_new wid BIT4_X)
      else if sint (ap ! 0) = - (2 ^ 63) \<and> sint (bp ! 0) = - 1 then vec4_set_bit (vec4_new wid BIT4_0) (wid - 1) BIT4_1
      else vec4_setarray vala 0 wid (ap[0 := word_of_int (sint (ap ! 0) sdiv sint (bp ! 0)) AND NOT sign_mask]))"

definition div_signed_wide :: "nat \<Rightarrow> u64 \<Rightarrow> vvp_vector4_t \<Rightarrow> u64 list \<Rightarrow> u64 list \<Rightarrow> vvp_vector4_t option" where
  "div_signed_wide wid sign_mask vala ap bp =
     (let n = (wid + 63) div 64;
          negate_flag = (sint (ap ! (n - 1)) < 0);
          ap = (if sint (ap ! (n - 1)) < 0 then negate_words ap n else ap);
          negate_flag = (negate_flag \<noteq> (sint (bp ! (n - 1)) < 0));
          bp = (if sint (bp ! (n - 1)) < 0 then negate_words bp n else bp)
      in case divide_bits ap bp wid of
           None \<Rightarrow> None
         | Some None \<Rightarrow> Some (vec4_new wid BIT4_X)
         | Some (Some (_, result)) \<Rightarrow>
             (let result = (if negate_flag then negate_words result n else result);
                  result = result[n - 1 := result ! (n - 1) AND NOT sign_mask]
              in vec4_setarray vala 0 wid result))"

definition div_signed_vectors :: "vvp_vector4_t \<Rightarrow> vvp_vector4_t \<Rightarrow> vvp_vector4_t option" where
  "div_signed_vectors vala valb =
     (let wid = vec_size vala; n = (wid + 63) div 64
      in if wid \<noteq> vec_size valb then None
         else case fetch_words vala valb of
                None \<Rightarrow> None
              | Some None \<Rightarrow> Some (vec4_new wid BIT4_X)
              | Some (Some (ap, bp)) \<Rightarrow>
                  (let sign_bits = n * 64 - wid;
                       sign_mask = (if sign_bits \<noteq> 0 then shl (- 1) (64 - sign_bits) else 0);
                       ap = (if sign_bits \<noteq> 0 then extend_sign sign_mask n ap else ap);
                       bp = (if sign_bits \<noteq> 0 then extend_sign sign_mask n bp else bp)
                   in if wid \<le> 64 then div_signed_word wid sign_mask vala ap bp else div_signed_wide wid sign_mask vala ap bp))"

definition of_DIV_S :: "vthread \<Rightarrow> vthread option" where
  "of_DIV_S = on_top_two div_signed_vectors"

text \<open>The remainder on machine words; the loop over the bits leaves when one is X or Z.\<close>

fun mod_load :: "vvp_vector4_t \<Rightarrow> vvp_vector4_t \<Rightarrow> nat list \<Rightarrow> u64 \<Rightarrow> u64 \<Rightarrow> (u64 \<times> u64) option" where
  "mod_load vala valb [] lv rv = Some (lv, rv)"
| "mod_load vala valb (idx # is) lv rv =
     (let lb = vec4_value vala idx; rb = vec4_value valb idx
      in if bit4_is_xz lb \<or> bit4_is_xz rb then None
         else mod_load vala valb is (lv OR shl (of_nat (bit4_int lb)) idx) (rv OR shl (of_nat (bit4_int rb)) idx))"

definition mod_word :: "vvp_vector4_t \<Rightarrow> vvp_vector4_t \<Rightarrow> vvp_vector4_t option" where
  "mod_word vala valb =
     (let wid = vec_size vala
      in case mod_load vala valb [0..<wid] 0 0 of
           None \<Rightarrow> Some (vec4_new wid BIT4_X)
         | Some (lv, rv) \<Rightarrow> if rv = 0 then Some (vec4_new wid BIT4_X) else word_bits_into vala wid (lv mod rv))"

definition mod_signed_word :: "vvp_vector4_t \<Rightarrow> vvp_vector4_t \<Rightarrow> vvp_vector4_t option" where
  "mod_signed_word vala valb =
     (let wid = vec_size vala
      in case mod_load vala valb [0..<wid] 0 0 of
           None \<Rightarrow> Some (vec4_new wid BIT4_X)
         | Some (lv, rv) \<Rightarrow>
             if rv = 0 then Some (vec4_new wid BIT4_X)
             else if sint lv = - (2 ^ 63) \<and> sint rv = - 1 then Some (vec4_new wid BIT4_0)
             else let lv = (if wid < 64 \<and> lv AND shl 1 (wid - 1) \<noteq> 0 then lv OR shl (- 1) wid else lv);
                      rv = (if wid < 64 \<and> rv AND shl 1 (wid - 1) \<noteq> 0 then rv OR shl (- 1) wid else rv)
                  in word_bits_into vala wid (word_of_int (sint lv smod sint rv)))"

text \<open>
  The remainder of long vectors, on arrays of one bit per byte. \<open>verylong_bit\<close> negates a magnitude bit by bit;
  \<^verbatim>\<open>a\<close> holds the complement of the divisor, for the addition of its two's complement.
\<close>

definition verylong_bit :: "bool \<Rightarrow> nat \<Rightarrow> nat \<Rightarrow> nat \<times> nat" where
  "verylong_bit neg carry lb =
     (if neg then let lb = (1 - lb) + carry in (lb mod 2, if lb div 2 \<noteq> 0 then 1 else 0) else (lb, carry))"

fun verylong_load ::
  "bool \<Rightarrow> bool \<Rightarrow> (vvp_bit4_t \<times> vvp_bit4_t) list \<Rightarrow> nat \<Rightarrow> nat \<Rightarrow> (nat list \<times> nat list) option" where
  "verylong_load left_is_neg right_is_neg [] lb_carry rb_carry = Some ([], [])"
| "verylong_load left_is_neg right_is_neg ((l, r) # ps) lb_carry rb_carry =
     (if bit4_is_xz l \<or> bit4_is_xz r then None
      else let (lb, lb_carry) = verylong_bit left_is_neg lb_carry (bit4_int l);
               (rb, rb_carry) = verylong_bit right_is_neg rb_carry (bit4_int r)
           in map_option (\<lambda>(z, a). (lb # z, (1 - rb) # a)) (verylong_load left_is_neg right_is_neg ps lb_carry rb_carry))"

text \<open>The highest index at which \<open>P\<close> holds, \<open>None\<close> for \<^verbatim>\<open>-1\<close>.\<close>

fun highest :: "(nat \<Rightarrow> bool) \<Rightarrow> nat \<Rightarrow> nat option" where
  "highest P 0 = None"
| "highest P (Suc i) = (if P i then Some i else highest P i)"

text \<open>One addition of the complement at \<open>cur\<close>: the bits \<^verbatim>\<open>t\<close> and the carry.\<close>

fun verylong_add :: "nat list \<Rightarrow> nat list \<Rightarrow> nat \<Rightarrow> nat list \<times> nat" where
  "verylong_add (z # zs) (a # as) carry =
     (let tmp = z + a + carry; (t, carry) = verylong_add zs as (tmp div 2) in (tmp mod 2 # t, carry))"
| "verylong_add zs as carry = ([], carry)"

definition verylong_round :: "nat list \<Rightarrow> nat \<Rightarrow> nat \<Rightarrow> nat list \<Rightarrow> nat list" where
  "verylong_round a copylen cur z =
     (let (t, carry) = verylong_add (take copylen (drop cur z)) (take copylen a) 1
      in if carry \<noteq> 0 then take cur z @ t @ drop (cur + copylen) z else z)"

fun verylong_tally :: "bool \<Rightarrow> nat list \<Rightarrow> nat \<Rightarrow> nat list" where
  "verylong_tally neg [] carry = []"
| "verylong_tally neg (z # zs) carry = (let (ob, carry) = verylong_bit neg carry z in ob # verylong_tally neg zs carry)"

definition do_verylong_mod :: "vvp_vector4_t \<Rightarrow> vvp_vector4_t \<Rightarrow> bool \<Rightarrow> bool \<Rightarrow> vvp_vector4_t option" where
  "do_verylong_mod vala valb left_is_neg right_is_neg =
     (let len = vec_size vala
      in case verylong_load left_is_neg right_is_neg (map (\<lambda>idx. (vec4_value vala idx, vec4_value valb idx)) [0..<len])
                (of_bool left_is_neg) (of_bool right_is_neg) of
           None \<Rightarrow> Some (vec4_new len BIT4_X)
         | Some (z, a) \<Rightarrow>
             (let z = z @ [0]; a = a @ [1];
                  mxa = highest (\<lambda>i. a ! i = 0) len;
                  mxz = highest (\<lambda>i. z ! i \<noteq> 0) len
              in case mxa of
                   None \<Rightarrow> Some (vec4_new len BIT4_X)
                 | Some ma \<Rightarrow>
                     (let z = (case mxz of
                                 None \<Rightarrow> z
                               | Some mz \<Rightarrow> if ma > mz then z
                                            else fold (verylong_round a (ma + 2)) (rev [0..<Suc (mz - ma)]) z);
                          bits = verylong_tally left_is_neg (take len z) (of_bool left_is_neg)
                      in foldM (\<lambda>idx tmp. vec4_set_bit tmp idx (if bits ! idx \<noteq> 0 then BIT4_1 else BIT4_0))
                           [0..<len] (vec4_new len BIT4_X))))"

definition mod_vectors :: "vvp_vector4_t \<Rightarrow> vvp_vector4_t \<Rightarrow> vvp_vector4_t option" where
  "mod_vectors vala valb =
     (if vec_size vala \<noteq> vec_size valb then None
      else if vec_size vala \<le> 64 then mod_word vala valb
      else do_verylong_mod vala valb False False)"

definition of_MOD :: "vthread \<Rightarrow> vthread option" where
  "of_MOD = on_top_two mod_vectors"

definition mod_signed_vectors :: "vvp_vector4_t \<Rightarrow> vvp_vector4_t \<Rightarrow> vvp_vector4_t option" where
  "mod_signed_vectors vala valb =
     (if vec_size vala \<noteq> vec_size valb then None
      else if vec_size vala \<le> 64 then mod_signed_word vala valb
      else do_verylong_mod vala valb (vec4_value vala (vec_size vala - 1) = BIT4_1) (vec4_value valb (vec_size valb - 1) = BIT4_1))"

definition of_MOD_S :: "vthread \<Rightarrow> vthread option" where
  "of_MOD_S = on_top_two mod_signed_vectors"

text \<open>Power. For a negative exponent the result is 0, 1, -1 or X.\<close>

definition pow_negative :: "nat \<Rightarrow> vvp_vector2_t \<Rightarrow> vvp_vector2_t \<Rightarrow> vvp_vector4_t option" where
  "pow_negative wid xv2 yv2 =
     (let odd_y = (vec2_value yv2 0 \<noteq> 0);
          of_minus_one = (if odd_y then (BIT4_1, BIT4_1) else (BIT4_0, BIT4_1));
          (ok, a_val) = vector2_to_value xv2 True
      in case (if ok then
                 let r = (BIT4_0, BIT4_0);
                     r = (if a_val = 0 then (BIT4_X, BIT4_X) else r);
                     r = (if a_val = 1 then (BIT4_0, BIT4_1) else r)
                 in Some (if a_val = - 1 then of_minus_one else r)
               else if vec2_is_zero xv2 then Some (BIT4_X, BIT4_X)
               else case vec2_is_one xv2 of
                      None \<Rightarrow> None
                    | Some True \<Rightarrow> Some (BIT4_0, BIT4_1)
                    | Some False \<Rightarrow>
                        map_option (\<lambda>all. if all then of_minus_one else (BIT4_0, BIT4_0)) (vec2_is_all_one xv2)) of
           None \<Rightarrow> None
         | Some (pad, lsb) \<Rightarrow> vec4_set_bit (vec4_new wid pad) 0 lsb)"

definition pow_vectors :: "bool \<Rightarrow> vvp_vector4_t \<Rightarrow> vvp_vector4_t \<Rightarrow> vvp_vector4_t option" where
  "pow_vectors signed_flag vala valb =
     (let wid = vec_size vala
      in case (vec2_from_vec4 vala True, vec2_from_vec4 valb True) of
           (Some xv2, Some yv2) \<Rightarrow>
             if vec2_is_NaN xv2 \<or> vec2_is_NaN yv2 then Some (vec4_new wid BIT4_X)
             else if signed_flag \<and> vec2_value yv2 (v2_size yv2 - 1) \<noteq> 0 then pow_negative wid xv2 yv2
             else (case vec2_pow xv2 yv2 of
                     None \<Rightarrow> None
                   | Some (result, _) \<Rightarrow>
                       foldM (\<lambda>jdx v. vec4_set_bit v jdx
                           (if jdx \<ge> v2_size result then BIT4_0 else if vec2_value result jdx \<noteq> 0 then BIT4_1 else BIT4_0))
                         [0..<wid] vala)
         | _ \<Rightarrow> None)"

definition of_POW :: "vthread \<Rightarrow> vthread option" where
  "of_POW = on_top_two (pow_vectors False)"

definition of_POW_S :: "vthread \<Rightarrow> vthread option" where
  "of_POW_S = on_top_two (pow_vectors True)"

section \<open>Bitwise and reduction operators\<close>

definition of_AND :: "vthread \<Rightarrow> vthread option" where
  "of_AND = on_top_two (\<lambda>vala valb. if vec_size vala \<noteq> vec_size valb then None else Some (vec4_and_assign vala valb))"

definition of_OR :: "vthread \<Rightarrow> vthread option" where
  "of_OR = on_top_two (\<lambda>vala valb. Some (vec4_or_assign vala valb))"

text \<open>The loop of the other operators; they edit the left operand.\<close>

definition bit_loop :: "(vvp_bit4_t \<Rightarrow> vvp_bit4_t \<Rightarrow> vvp_bit4_t) \<Rightarrow> vvp_vector4_t \<Rightarrow> vvp_vector4_t \<Rightarrow> vvp_vector4_t option" where
  "bit_loop f vall valr =
     (if vec_size vall \<noteq> vec_size valr then None
      else foldM (\<lambda>idx v. vec4_set_bit v idx (f (vec4_value v idx) (vec4_value valr idx))) [0..<vec_size vall] vall)"

definition of_NAND :: "vthread \<Rightarrow> vthread option" where
  "of_NAND = on_top_two (bit_loop (\<lambda>lb rb. bit4_not (bit4_and lb rb)))"

definition of_NOR :: "vthread \<Rightarrow> vthread option" where
  "of_NOR = on_top_two (bit_loop (\<lambda>lb rb. bit4_not (bit4_or lb rb)))"

definition of_XNOR :: "vthread \<Rightarrow> vthread option" where
  "of_XNOR = on_top_two (bit_loop (\<lambda>lb rb. bit4_not (bit4_xor lb rb)))"

definition of_XOR :: "vthread \<Rightarrow> vthread option" where
  "of_XOR = on_top_two (bit_loop bit4_xor)"

definition of_INV :: "vthread \<Rightarrow> vthread option" where
  "of_INV = on_top (\<lambda>val. Some (vec4_invert val))"

text \<open>The two forms of the reduction loops: \<open>key\<close> decides the result, and an unknown bit makes it X or decides it.\<close>

fun and_or_reduce :: "vvp_bit4_t \<Rightarrow> vvp_bit4_t \<Rightarrow> vvp_bit4_t \<Rightarrow> vvp_bit4_t list \<Rightarrow> vvp_bit4_t" where
  "and_or_reduce key out lb [] = lb"
| "and_or_reduce key out lb (rb # rbs) =
     (if rb = key then out
      else and_or_reduce key out (if rb \<noteq> bit4_not key then BIT4_X else lb) rbs)"

fun xor_reduce :: "vvp_bit4_t \<Rightarrow> vvp_bit4_t list \<Rightarrow> vvp_bit4_t" where
  "xor_reduce lb [] = lb"
| "xor_reduce lb (rb # rbs) =
     (if rb = BIT4_1 then xor_reduce (bit4_not lb) rbs
      else if rb \<noteq> BIT4_0 then BIT4_X
      else xor_reduce lb rbs)"

definition reduce_top :: "(vvp_bit4_t list \<Rightarrow> vvp_bit4_t) \<Rightarrow> vthread \<Rightarrow> vthread option" where
  "reduce_top f = on_top (\<lambda>val. Some (vec4_new 1 (f (map (vec4_value val) [0..<vec_size val]))))"

definition of_ANDR :: "vthread \<Rightarrow> vthread option" where
  "of_ANDR = reduce_top (and_or_reduce BIT4_0 BIT4_0 BIT4_1)"

definition of_NANDR :: "vthread \<Rightarrow> vthread option" where
  "of_NANDR = reduce_top (and_or_reduce BIT4_0 BIT4_1 BIT4_0)"

definition of_ORR :: "vthread \<Rightarrow> vthread option" where
  "of_ORR = reduce_top (and_or_reduce BIT4_1 BIT4_1 BIT4_0)"

definition of_NORR :: "vthread \<Rightarrow> vthread option" where
  "of_NORR = reduce_top (and_or_reduce BIT4_1 BIT4_0 BIT4_1)"

definition of_XORR :: "vthread \<Rightarrow> vthread option" where
  "of_XORR = reduce_top (xor_reduce BIT4_0)"

definition of_XNORR :: "vthread \<Rightarrow> vthread option" where
  "of_XNORR = reduce_top (xor_reduce BIT4_1)"

text \<open>The merge of the two branches of a conditional expression with an unknown condition.\<close>

definition of_BLEND :: "vthread \<Rightarrow> vthread option" where
  "of_BLEND = on_top_two (\<lambda>valb vala.
     if vec_size vala \<noteq> vec_size valb then None
     else foldM (\<lambda>idx v.
         let b = vec4_value v idx
         in if b = vec4_value valb idx \<and> b \<noteq> BIT4_Z then Some v else vec4_set_bit v idx BIT4_X)
       [0..<vec_size vala] vala)"

definition of_CAST2 :: "vthread \<Rightarrow> vthread option" where
  "of_CAST2 = on_top (\<lambda>val.
     foldM (\<lambda>idx v. case vec4_value v idx of BIT4_0 \<Rightarrow> Some v | BIT4_1 \<Rightarrow> Some v | _ \<Rightarrow> vec4_set_bit v idx BIT4_0)
       [0..<vec_size val] val)"

section \<open>Comparisons\<close>

text \<open>Flag 4 is equality, 5 less-than, 6 case equality.\<close>

definition set_flag4 :: "vvp_bit4_t \<Rightarrow> vthread \<Rightarrow> vthread option" where
  "set_flag4 eq = set_flag 4 eq"

definition set_flags46 :: "vvp_bit4_t \<Rightarrow> vvp_bit4_t \<Rightarrow> vthread \<Rightarrow> vthread option" where
  "set_flags46 eq eeq thr = Option.bind (set_flag 4 eq thr) (set_flag 6 eeq)"

definition set_flags456 :: "vvp_bit4_t \<Rightarrow> vvp_bit4_t \<Rightarrow> vvp_bit4_t \<Rightarrow> vthread \<Rightarrow> vthread option" where
  "set_flags456 eq lt eeq thr = Option.bind (set_flag 4 eq thr) (\<lambda>thr. Option.bind (set_flag 5 lt thr) (set_flag 6 eeq))"

text \<open>The loop of \<^verbatim>\<open>do_CMPE\<close> and \<^verbatim>\<open>of_CMPU_the_hard_way\<close>.\<close>

fun cmpe_loop :: "(vvp_bit4_t \<times> vvp_bit4_t) list \<Rightarrow> vvp_bit4_t \<Rightarrow> vvp_bit4_t \<Rightarrow> vvp_bit4_t \<times> vvp_bit4_t" where
  "cmpe_loop [] eq eeq = (eq, eeq)"
| "cmpe_loop ((lv, rv) # ps) eq eeq =
     (let eeq = (if lv \<noteq> rv then BIT4_0 else eeq);
          eq = (if eq = BIT4_1 \<and> (bit4_is_xz lv \<or> bit4_is_xz rv) then BIT4_X else eq);
          eq = (if lv = BIT4_0 \<and> rv = BIT4_1 then BIT4_0 else eq);
          eq = (if lv = BIT4_1 \<and> rv = BIT4_0 then BIT4_0 else eq)
      in if eq = BIT4_0 then (eq, eeq) else cmpe_loop ps eq eeq)"

definition bit_pairs :: "vvp_vector4_t \<Rightarrow> vvp_vector4_t \<Rightarrow> (vvp_bit4_t \<times> vvp_bit4_t) list" where
  "bit_pairs lval rval = map (\<lambda>idx. (vec4_value lval idx, vec4_value rval idx)) [0..<vec_size lval]"

definition do_CMPE :: "vvp_vector4_t \<Rightarrow> vvp_vector4_t \<Rightarrow> vthread \<Rightarrow> vthread option" where
  "do_CMPE lval rval thr =
     (if vec_size rval \<noteq> vec_size lval then None
      else if vec4_has_xz lval \<or> vec4_has_xz rval
      then let (eq, eeq) = cmpe_loop (bit_pairs lval rval) BIT4_1 BIT4_1 in set_flags46 eq eeq thr
      else let b = (if vec4_eeq lval rval then BIT4_1 else BIT4_0) in set_flags46 b b thr)"

text \<open>The frame of the comparisons: peek at both operands, set flags, pop. With an immediate, one operand.\<close>

definition compare_top_two :: "(vvp_vector4_t \<Rightarrow> vvp_vector4_t \<Rightarrow> vthread \<Rightarrow> vthread option) \<Rightarrow> vthread \<Rightarrow> vthread option" where
  "compare_top_two cmp thr =
     (case (peek_vec4 0 thr, peek_vec4 1 thr) of
        (Some rval, Some lval) \<Rightarrow> Option.bind (cmp lval rval thr) (pop_vec4_cnt 2)
      | _ \<Rightarrow> None)"

definition compare_immediate ::
  "(vvp_vector4_t \<Rightarrow> vvp_vector4_t \<Rightarrow> vthread \<Rightarrow> vthread option) \<Rightarrow> 32 word \<Rightarrow> 32 word \<Rightarrow> nat \<Rightarrow> vthread \<Rightarrow> vthread option" where
  "compare_immediate cmp vala valb wid thr =
     (case peek_vec4 0 thr of
        None \<Rightarrow> None
      | Some lval \<Rightarrow> Option.bind (with_immediate vala valb wid (\<lambda>rval. cmp lval rval thr)) (pop_vec4_cnt 1))"

definition invert_flag :: "nat \<Rightarrow> vthread \<Rightarrow> vthread option" where
  "invert_flag n thr = (case get_flag n thr of None \<Rightarrow> None | Some b \<Rightarrow> set_flag n (bit4_not b) thr)"

definition do_CMPNE :: "vvp_vector4_t \<Rightarrow> vvp_vector4_t \<Rightarrow> vthread \<Rightarrow> vthread option" where
  "do_CMPNE lval rval thr = Option.bind (do_CMPE lval rval thr) (\<lambda>thr. Option.bind (invert_flag 4 thr) (invert_flag 6))"

definition of_CMPE :: "vthread \<Rightarrow> vthread option" where
  "of_CMPE = compare_top_two do_CMPE"

definition of_CMPNE :: "vthread \<Rightarrow> vthread option" where
  "of_CMPNE = compare_top_two do_CMPNE"

definition of_CMPIE :: "32 word \<Rightarrow> 32 word \<Rightarrow> nat \<Rightarrow> vthread \<Rightarrow> vthread option" where
  "of_CMPIE = compare_immediate do_CMPE"

definition of_CMPINE :: "32 word \<Rightarrow> 32 word \<Rightarrow> nat \<Rightarrow> vthread \<Rightarrow> vthread option" where
  "of_CMPINE = compare_immediate do_CMPNE"

text \<open>The scan from the top for the first difference; the result is equality and less-than.\<close>

fun cmps_scan :: "(vvp_bit4_t \<times> vvp_bit4_t) list \<Rightarrow> vvp_bit4_t \<times> vvp_bit4_t" where
  "cmps_scan [] = (BIT4_1, BIT4_0)"
| "cmps_scan ((lv, rv) # ps) =
     (if lv = rv then cmps_scan ps else (BIT4_0, if lv = BIT4_0 then BIT4_1 else BIT4_0))"

definition do_CMPS :: "vvp_vector4_t \<Rightarrow> vvp_vector4_t \<Rightarrow> vthread \<Rightarrow> vthread option" where
  "do_CMPS lval rval thr =
     (if vec_size rval \<noteq> vec_size lval then None
      else if vec4_has_xz lval \<or> vec4_has_xz rval
      then set_flags456 BIT4_X BIT4_X (if vec4_eeq lval rval then BIT4_1 else BIT4_0) thr
      else let wid = vec_size lval;
               sig1 = vec4_value lval (wid - 1);
               sig2 = vec4_value rval (wid - 1)
           in if sig1 = BIT4_1 \<and> sig2 = BIT4_0 then set_flags456 BIT4_0 BIT4_1 BIT4_0 thr
              else if sig1 = BIT4_0 \<and> sig2 = BIT4_1 then set_flags456 BIT4_0 BIT4_0 BIT4_0 thr
              else let (eq, lt) = cmps_scan (map (\<lambda>idx. (vec4_value lval (wid - 1 - idx), vec4_value rval (wid - 1 - idx))) [1..<wid])
                   in set_flags456 eq lt eq thr)"

definition of_CMPS :: "vthread \<Rightarrow> vthread option" where
  "of_CMPS = compare_top_two do_CMPS"

definition of_CMPIS :: "32 word \<Rightarrow> 32 word \<Rightarrow> nat \<Rightarrow> vthread \<Rightarrow> vthread option" where
  "of_CMPIS = compare_immediate do_CMPS"

definition of_CMPU_the_hard_way :: "vvp_vector4_t \<Rightarrow> vvp_vector4_t \<Rightarrow> vthread \<Rightarrow> vthread option" where
  "of_CMPU_the_hard_way lval rval thr =
     (let (eq, eeq) = cmpe_loop (bit_pairs lval rval) BIT4_1 BIT4_1 in set_flags456 eq BIT4_X eeq thr)"

text \<open>The words are compared from the lowest up; the last difference counts.\<close>

definition cmpu_words :: "u64 list \<Rightarrow> u64 list \<Rightarrow> nat \<Rightarrow> vvp_bit4_t \<times> vvp_bit4_t" where
  "cmpu_words larray rarray n =
     fold (\<lambda>wdx (eq, lt).
         if larray ! wdx = rarray ! wdx then (eq, lt)
         else (BIT4_0, if larray ! wdx < rarray ! wdx then BIT4_1 else BIT4_0))
       [0..<n] (BIT4_1, BIT4_0)"

definition do_CMPU :: "vvp_vector4_t \<Rightarrow> vvp_vector4_t \<Rightarrow> vthread \<Rightarrow> vthread option" where
  "do_CMPU lval rval thr =
     (if vec_size rval \<noteq> vec_size lval then None
      else case fetch_words lval rval of
             None \<Rightarrow> None
           | Some None \<Rightarrow> of_CMPU_the_hard_way lval rval thr
           | Some (Some (larray, rarray)) \<Rightarrow>
               (let (eq, lt) = cmpu_words larray rarray ((vec_size lval + 63) div 64) in set_flags456 eq lt eq thr))"

definition of_CMPU :: "vthread \<Rightarrow> vthread option" where
  "of_CMPU = compare_top_two do_CMPU"

definition of_CMPIU :: "32 word \<Rightarrow> 32 word \<Rightarrow> nat \<Rightarrow> vthread \<Rightarrow> vthread option" where
  "of_CMPIU = compare_immediate do_CMPU"

definition do_CMPX :: "vvp_vector4_t \<Rightarrow> vvp_vector4_t \<Rightarrow> vthread \<Rightarrow> vthread option" where
  "do_CMPX lval rval thr =
     (if vec_size rval \<noteq> vec_size lval then None
      else set_flag4 (if list_ex (\<lambda>(lv, rv). lv \<noteq> rv \<and> \<not> bit4_is_xz lv \<and> \<not> bit4_is_xz rv) (bit_pairs lval rval) then BIT4_0 else BIT4_1) thr)"

definition of_CMPX :: "vthread \<Rightarrow> vthread option" where
  "of_CMPX = compare_top_two do_CMPX"

definition do_CMPZ :: "vvp_vector4_t \<Rightarrow> vvp_vector4_t \<Rightarrow> vthread \<Rightarrow> vthread option" where
  "do_CMPZ lval rval thr =
     (if vec_size rval \<noteq> vec_size lval then None
      else set_flag4 (if list_ex (\<lambda>(lv, rv). lv \<noteq> rv \<and> rv \<noteq> BIT4_Z \<and> lv \<noteq> BIT4_Z) (bit_pairs lval rval) then BIT4_0 else BIT4_1) thr)"

definition of_CMPZ :: "vthread \<Rightarrow> vthread option" where
  "of_CMPZ = compare_top_two do_CMPZ"

fun cmpwe_loop :: "(vvp_bit4_t \<times> vvp_bit4_t) list \<Rightarrow> vvp_bit4_t \<Rightarrow> vvp_bit4_t" where
  "cmpwe_loop [] eq = eq"
| "cmpwe_loop ((lv, rv) # ps) eq =
     (if bit4_is_xz rv then cmpwe_loop ps eq
      else let eq = (if eq = BIT4_1 \<and> bit4_is_xz lv then BIT4_X else eq);
               eq = (if lv = BIT4_0 \<and> rv = BIT4_1 then BIT4_0 else eq);
               eq = (if lv = BIT4_1 \<and> rv = BIT4_0 then BIT4_0 else eq)
           in if eq = BIT4_0 then eq else cmpwe_loop ps eq)"

definition do_CMPWE :: "vvp_vector4_t \<Rightarrow> vvp_vector4_t \<Rightarrow> vthread \<Rightarrow> vthread option" where
  "do_CMPWE lval rval thr =
     (if vec_size rval \<noteq> vec_size lval then None
      else if vec4_has_xz lval \<or> vec4_has_xz rval then set_flag4 (cmpwe_loop (bit_pairs lval rval) BIT4_1) thr
      else set_flag4 (if vec4_eeq lval rval then BIT4_1 else BIT4_0) thr)"

definition of_CMPWE :: "vthread \<Rightarrow> vthread option" where
  "of_CMPWE = compare_top_two do_CMPWE"

definition of_CMPWNE :: "vthread \<Rightarrow> vthread option" where
  "of_CMPWNE = compare_top_two (\<lambda>lval rval thr. Option.bind (do_CMPWE lval rval thr) (invert_flag 4))"

definition of_CMPWS :: "nat \<Rightarrow> nat \<Rightarrow> vthread \<Rightarrow> vthread option" where
  "of_CMPWS i j thr =
     (case (get_word i thr, get_word j thr) of
        (Some l, Some r) \<Rightarrow>
          Option.bind (set_flag 4 (if sint l = sint r then BIT4_1 else BIT4_0) thr) (set_flag 5 (if sint l < sint r then BIT4_1 else BIT4_0))
      | _ \<Rightarrow> None)"

definition of_CMPWU :: "nat \<Rightarrow> nat \<Rightarrow> vthread \<Rightarrow> vthread option" where
  "of_CMPWU i j thr =
     (case (get_word i thr, get_word j thr) of
        (Some l, Some r) \<Rightarrow> Option.bind (set_flag 4 (if l = r then BIT4_1 else BIT4_0) thr) (set_flag 5 (if l < r then BIT4_1 else BIT4_0))
      | _ \<Rightarrow> None)"

section \<open>Flags\<close>

definition of_FLAG_GET_VEC4 :: "nat \<Rightarrow> vthread \<Rightarrow> vthread option" where
  "of_FLAG_GET_VEC4 flag thr = map_option (\<lambda>b. push_vec4 (vec4_new 1 b) thr) (get_flag flag thr)"

definition of_FLAG_INV :: "nat \<Rightarrow> vthread \<Rightarrow> vthread option" where
  "of_FLAG_INV = invert_flag"

definition of_FLAG_MOV :: "nat \<Rightarrow> nat \<Rightarrow> vthread \<Rightarrow> vthread option" where
  "of_FLAG_MOV flag1 flag2 thr = (case get_flag flag2 thr of None \<Rightarrow> None | Some b \<Rightarrow> set_flag flag1 b thr)"

definition of_FLAG_OR :: "nat \<Rightarrow> nat \<Rightarrow> vthread \<Rightarrow> vthread option" where
  "of_FLAG_OR flag1 flag2 thr =
     (case (get_flag flag1 thr, get_flag flag2 thr) of
        (Some a, Some b) \<Rightarrow> set_flag flag1 (bit4_or a b) thr
      | _ \<Rightarrow> None)"

definition of_FLAG_SET_IMM :: "nat \<Rightarrow> nat \<Rightarrow> vthread \<Rightarrow> vthread option" where
  "of_FLAG_SET_IMM flag vali thr =
     (if vali < 4 then set_flag flag ([BIT4_0, BIT4_1, BIT4_Z, BIT4_X] ! vali) thr else None)"

definition of_FLAG_SET_VEC4 :: "nat \<Rightarrow> vthread \<Rightarrow> vthread option" where
  "of_FLAG_SET_VEC4 flag thr =
     (case peek_vec4 0 thr of
        None \<Rightarrow> None
      | Some val \<Rightarrow> Option.bind (set_flag flag (vec4_value val 0) thr) (pop_vec4_cnt 1))"

section \<open>Widths and parts\<close>

definition concat_vectors :: "vvp_vector4_t \<Rightarrow> vvp_vector4_t \<Rightarrow> vvp_vector4_t option" where
  "concat_vectors msb lsb =
     (case vec4_set_vec (vec4_new (vec_size msb + vec_size lsb) BIT4_X) 0 lsb of
        None \<Rightarrow> None
      | Some (res, _) \<Rightarrow> map_option fst (vec4_set_vec res (vec_size lsb) msb))"

definition of_CONCAT_VEC4 :: "vthread \<Rightarrow> vthread option" where
  "of_CONCAT_VEC4 = on_top_two concat_vectors"

definition of_CONCATI_VEC4 :: "32 word \<Rightarrow> 32 word \<Rightarrow> nat \<Rightarrow> vthread \<Rightarrow> vthread option" where
  "of_CONCATI_VEC4 vala valb wid =
     on_top (\<lambda>msb. case immediate_loop [0..<wid] vala valb (vec4_new wid BIT4_0) of
                     None \<Rightarrow> None | Some lsb \<Rightarrow> concat_vectors msb lsb)"

definition of_REPLICATE :: "nat \<Rightarrow> vthread \<Rightarrow> vthread option" where
  "of_REPLICATE rept =
     on_top (\<lambda>val. foldM (\<lambda>idx res. map_option fst (vec4_set_vec res (idx * vec_size val) val)) [0..<rept]
                     (vec4_new (vec_size val * rept) BIT4_X))"

definition of_PAD_S :: "nat \<Rightarrow> vthread \<Rightarrow> vthread option" where
  "of_PAD_S wid =
     on_top (\<lambda>val. Some (if vec_size val < wid then vec4_resize val wid (vec4_value val (vec_size val - 1))
                         else vec4_resize val wid BIT4_X))"

definition of_PAD_U :: "nat \<Rightarrow> vthread \<Rightarrow> vthread option" where
  "of_PAD_U wid = on_top (\<lambda>val. Some (vec4_resize val wid BIT4_0))"

text \<open>The part select of \<^verbatim>\<open>of_PART_base\<close> and \<^verbatim>\<open>of_PARTI_base\<close>. The base is a signed 32-bit integer;
  it is converted to unsigned where the code adds a width to it, sizes are below \<open>2 ^ 31\<close>.\<close>

definition part_of_value :: "32 word \<Rightarrow> nat \<Rightarrow> vvp_vector4_t \<Rightarrow> vvp_vector4_t option" where
  "part_of_value base wid value =
     (let res = vec4_new wid BIT4_X
      in if sint base \<ge> sint (of_nat (vec_size value) :: 32 word) then Some res
         else if sint (base + of_nat wid) \<le> 0 then Some res
         else
           let (vbase, wid, base) = (if sint base < 0 then (nat (- sint base), wid - nat (- sint base), 0) else (0, wid, base));
               wid = (if unat (base + of_nat wid) > vec_size value then vec_size value - unat base else wid)
           in case vec4_subvalue value (unat base) wid of
                None \<Rightarrow> None
              | Some part \<Rightarrow> map_option fst (vec4_set_vec res vbase part))"

definition of_PART_base :: "bool \<Rightarrow> nat \<Rightarrow> vthread \<Rightarrow> vthread option" where
  "of_PART_base signed_flag wid =
     on_top_two (\<lambda>value base4.
       case vec4_to_value base4 signed_flag True of
         (True, Some base) \<Rightarrow> part_of_value base wid value
       | _ \<Rightarrow> Some (vec4_new wid BIT4_X))"

definition of_PART_S :: "nat \<Rightarrow> vthread \<Rightarrow> vthread option" where
  "of_PART_S = of_PART_base True"

definition of_PART_U :: "nat \<Rightarrow> vthread \<Rightarrow> vthread option" where
  "of_PART_U = of_PART_base False"

definition parti_base :: "bool \<Rightarrow> 32 word \<Rightarrow> nat \<Rightarrow> 32 word" where
  "parti_base signed_flag base bwid =
     (if signed_flag \<and> bwid < 32 \<and> base AND push_bit (bwid - 1) 1 \<noteq> 0 then base OR push_bit bwid (- 1) else base)"

definition of_PARTI_base :: "bool \<Rightarrow> nat \<Rightarrow> 32 word \<Rightarrow> nat \<Rightarrow> vthread \<Rightarrow> vthread option" where
  "of_PARTI_base signed_flag wid base bwid = on_top (part_of_value (parti_base signed_flag base bwid) wid)"

definition of_PARTI_S :: "nat \<Rightarrow> 32 word \<Rightarrow> nat \<Rightarrow> vthread \<Rightarrow> vthread option" where
  "of_PARTI_S = of_PARTI_base True"

definition of_PARTI_U :: "nat \<Rightarrow> 32 word \<Rightarrow> nat \<Rightarrow> vthread \<Rightarrow> vthread option" where
  "of_PARTI_U = of_PARTI_base False"

definition of_SPLIT_VEC4 :: "nat \<Rightarrow> vthread \<Rightarrow> vthread option" where
  "of_SPLIT_VEC4 lsb_wid thr =
     (case peek_vec4 0 thr of
        None \<Rightarrow> None
      | Some val \<Rightarrow>
          if lsb_wid < vec_size val then
            (case (vec4_subvalue val 0 lsb_wid, vec4_subvalue val lsb_wid (vec_size val - lsb_wid)) of
               (Some lsb, Some msb) \<Rightarrow> map_option (push_vec4 lsb) (poke_vec4 0 msb thr)
             | _ \<Rightarrow> None)
          else None)"

section \<open>Shifts\<close>

text \<open>The amount is in an index register, and flag 4 says whether it is unknown or too large.\<close>

definition shift_left :: "vvp_bit4_t \<Rightarrow> u64 \<Rightarrow> vvp_vector4_t \<Rightarrow> vvp_vector4_t option" where
  "shift_left flag shift val =
     (let wid = vec_size val
      in if flag = BIT4_1 then Some (vec4_new wid BIT4_X)
         else if flag = BIT4_X \<or> unat shift \<ge> wid then Some (vec4_new wid BIT4_0)
         else if shift > 0 then
           (case vec4_subvalue val 0 (wid - unat shift) of
              None \<Rightarrow> None
            | Some blk \<Rightarrow>
                (case vec4_set_vec val 0 (vec4_new (unat shift) BIT4_0) of
                   None \<Rightarrow> None
                 | Some (val, _) \<Rightarrow> map_option fst (vec4_set_vec val (unat shift) blk)))
         else Some val)"

definition shift_right :: "vvp_bit4_t \<Rightarrow> vvp_bit4_t \<Rightarrow> u64 \<Rightarrow> vvp_vector4_t \<Rightarrow> vvp_vector4_t option" where
  "shift_right pad flag shift val =
     (let wid = vec_size val
      in if flag = BIT4_1 then Some (vec4_new wid BIT4_X)
         else if flag = BIT4_X \<or> unat shift > wid then Some (vec4_new wid pad)
         else if shift > 0 then
           (case vec4_subvalue val (unat shift) (wid - unat shift) of
              None \<Rightarrow> None
            | Some blk \<Rightarrow>
                (case vec4_set_vec val 0 blk of
                   None \<Rightarrow> None
                 | Some (val, _) \<Rightarrow> map_option fst (vec4_set_vec val (wid - unat shift) (vec4_new (unat shift) pad))))
         else Some val)"

definition shift_top :: "(vvp_bit4_t \<Rightarrow> u64 \<Rightarrow> vvp_vector4_t \<Rightarrow> vvp_vector4_t option) \<Rightarrow> nat \<Rightarrow> vthread \<Rightarrow> vthread option" where
  "shift_top f use_index thr =
     (case (get_word use_index thr, get_flag 4 thr) of
        (Some shift, Some flag) \<Rightarrow> on_top (f flag shift) thr
      | _ \<Rightarrow> None)"

definition of_SHIFTL :: "nat \<Rightarrow> vthread \<Rightarrow> vthread option" where
  "of_SHIFTL = shift_top shift_left"

definition of_SHIFTR :: "nat \<Rightarrow> vthread \<Rightarrow> vthread option" where
  "of_SHIFTR = shift_top (shift_right BIT4_0)"

definition of_SHIFTR_S :: "nat \<Rightarrow> vthread \<Rightarrow> vthread option" where
  "of_SHIFTR_S = shift_top (\<lambda>flag shift val. shift_right (vec4_value val (vec_size val - 1)) flag shift val)"

section \<open>Index registers\<close>

definition get_as_64_bit :: "32 word \<Rightarrow> 32 word \<Rightarrow> u64" where
  "get_as_64_bit low_32 high_32 = push_bit 32 (ucast high_32) OR ucast low_32"

definition on_word :: "(u64 \<Rightarrow> u64) \<Rightarrow> nat \<Rightarrow> vthread \<Rightarrow> vthread option" where
  "on_word f n thr = (case get_word n thr of None \<Rightarrow> None | Some w \<Rightarrow> set_word n (f w) thr)"

definition of_IX_ADD :: "nat \<Rightarrow> 32 word \<Rightarrow> 32 word \<Rightarrow> vthread \<Rightarrow> vthread option" where
  "of_IX_ADD n low high = on_word (\<lambda>w. w + get_as_64_bit low high) n"

definition of_IX_SUB :: "nat \<Rightarrow> 32 word \<Rightarrow> 32 word \<Rightarrow> vthread \<Rightarrow> vthread option" where
  "of_IX_SUB n low high = on_word (\<lambda>w. w - get_as_64_bit low high) n"

definition of_IX_MUL :: "nat \<Rightarrow> 32 word \<Rightarrow> 32 word \<Rightarrow> vthread \<Rightarrow> vthread option" where
  "of_IX_MUL n low high = on_word (\<lambda>w. w * get_as_64_bit low high) n"

definition of_IX_LOAD :: "nat \<Rightarrow> 32 word \<Rightarrow> 32 word \<Rightarrow> vthread \<Rightarrow> vthread option" where
  "of_IX_LOAD n low high = set_word n (get_as_64_bit low high)"

definition of_IX_MOV :: "nat \<Rightarrow> nat \<Rightarrow> vthread \<Rightarrow> vthread option" where
  "of_IX_MOV i j thr = (case get_word j thr of None \<Rightarrow> None | Some w \<Rightarrow> set_word i w thr)"

definition of_MOV_WU :: "nat \<Rightarrow> nat \<Rightarrow> vthread \<Rightarrow> vthread option" where
  "of_MOV_WU dst src thr = (case get_word src thr of None \<Rightarrow> None | Some w \<Rightarrow> set_word dst w thr)"

text \<open>The words of a vector above the first must only repeat the sign.\<close>

fun index_loop :: "bool \<Rightarrow> u64 \<Rightarrow> u64 list \<Rightarrow> vvp_bit4_t" where
  "index_loop signed_flag v [] = BIT4_0"
| "index_loop signed_flag v (tmp # bits) =
     (if (if signed_flag \<and> shr v 63 \<noteq> 0 then NOT tmp \<noteq> 0 else tmp \<noteq> 0) then BIT4_X else index_loop signed_flag v bits)"

definition vec4_to_index :: "bool \<Rightarrow> vthread \<Rightarrow> (u64 \<times> vthread) option" where
  "vec4_to_index signed_flag thr =
     (case peek_vec4 0 thr of
        None \<Rightarrow> None
      | Some val \<Rightarrow>
          (let val_size = vec_size val
           in case (vec4_subarray val 0 val_size False, pop_vec4_cnt 1 thr) of
                (Some None, Some thr) \<Rightarrow> map_option (\<lambda>thr. (0, thr)) (set_flag4 BIT4_1 thr)
              | (Some (Some bits), Some thr) \<Rightarrow>
                  (let v = (if bits = [] then 0 else hd bits);
                       flag = index_loop signed_flag v (tl bits);
                       v = (if val_size < 64 then
                              if signed_flag \<and> v AND shl 1 (val_size - 1) \<noteq> 0 then v OR shl (- 1) val_size
                              else v AND NOT (shl (- 1) val_size)
                            else v)
                   in map_option (\<lambda>thr. (v, thr)) (set_flag4 flag thr))
              | _ \<Rightarrow> None))"

definition ix_vec4 :: "bool \<Rightarrow> nat \<Rightarrow> vthread \<Rightarrow> vthread option" where
  "ix_vec4 signed_flag use_idx thr =
     (case vec4_to_index signed_flag thr of None \<Rightarrow> None | Some (v, thr) \<Rightarrow> set_word use_idx v thr)"

definition of_IX_VEC4 :: "nat \<Rightarrow> vthread \<Rightarrow> vthread option" where
  "of_IX_VEC4 = ix_vec4 False"

definition of_IX_VEC4_S :: "nat \<Rightarrow> vthread \<Rightarrow> vthread option" where
  "of_IX_VEC4_S = ix_vec4 True"

section \<open>Stacks\<close>

definition of_PUSHI_VEC4 :: "32 word \<Rightarrow> 32 word \<Rightarrow> nat \<Rightarrow> vthread \<Rightarrow> vthread option" where
  "of_PUSHI_VEC4 vala valb wid thr =
     (let val = vec4_new wid BIT4_0
      in map_option (\<lambda>val. push_vec4 val thr)
           (if vala = 0 \<and> valb = 0 then Some val
            else if valb = 0 \<and> wid \<le> 64 then vec4_setarray val 0 wid [ucast vala]
            else immediate_loop [0..<wid] vala valb val))"

definition of_POP_VEC4 :: "nat \<Rightarrow> vthread \<Rightarrow> vthread option" where
  "of_POP_VEC4 = pop_vec4_cnt"

definition of_DUP_VEC4 :: "vthread \<Rightarrow> vthread option" where
  "of_DUP_VEC4 thr = map_option (\<lambda>val. push_vec4 val thr) (peek_vec4 0 thr)"

definition of_POP_REAL :: "nat \<Rightarrow> vthread \<Rightarrow> vthread option" where
  "of_POP_REAL cnt = foldM (\<lambda>idx thr. map_option snd (pop_real thr)) [0..<cnt]"

definition of_DUP_REAL :: "vthread \<Rightarrow> vthread option" where
  "of_DUP_REAL thr = map_option (\<lambda>val. push_real val thr) (peek_real 0 thr)"

text \<open>\<^verbatim>\<open>fabs\<close> clears the sign bit.\<close>

definition of_ABS_WR :: "vthread \<Rightarrow> vthread option" where
  "of_ABS_WR thr = map_option (\<lambda>(val, thr). push_real (val AND 0x7FFFFFFFFFFFFFFF) thr) (pop_real thr)"

definition of_POP_STR :: "nat \<Rightarrow> vthread \<Rightarrow> vthread option" where
  "of_POP_STR = pop_str_cnt"

definition of_PUSHI_STR :: "string \<Rightarrow> vthread \<Rightarrow> vthread option" where
  "of_PUSHI_STR txt thr = Some (push_str txt thr)"

section \<open>Strings\<close>

definition of_CONCATI_STR :: "string \<Rightarrow> vthread \<Rightarrow> vthread option" where
  "of_CONCATI_STR txt thr = (case peek_str 0 thr of None \<Rightarrow> None | Some s \<Rightarrow> poke_str 0 (s @ txt) thr)"

definition of_CONCAT_STR :: "vthread \<Rightarrow> vthread option" where
  "of_CONCAT_STR thr = (case pop_str thr of None \<Rightarrow> None | Some (txt, thr) \<Rightarrow> of_CONCATI_STR txt thr)"

text \<open>\<^verbatim>\<open>strcmp\<close> on the parts before the first NUL, which compares bytes.\<close>

definition c_str :: "string \<Rightarrow> string" where
  "c_str s = takeWhile (\<lambda>c. c \<noteq> char_of (0 :: nat)) s"

fun strcmp :: "string \<Rightarrow> string \<Rightarrow> int" where
  "strcmp [] [] = 0"
| "strcmp [] (r # rs) = - 1"
| "strcmp (l # ls) [] = 1"
| "strcmp (l # ls) (r # rs) =
     (if l = r then strcmp ls rs else if (of_char l :: nat) < of_char r then - 1 else 1)"

definition of_CMPSTR :: "vthread \<Rightarrow> vthread option" where
  "of_CMPSTR thr =
     (case pop_str thr of
        None \<Rightarrow> None
      | Some (re, thr) \<Rightarrow>
          (case pop_str thr of
             None \<Rightarrow> None
           | Some (le, thr) \<Rightarrow>
               (let rc = strcmp (c_str le) (c_str re);
                    eq = (if rc = 0 then BIT4_1 else BIT4_0);
                    lt = (if rc < 0 then BIT4_1 else BIT4_0)
                in Option.bind (set_flag 4 eq thr) (set_flag 5 lt))))"

text \<open>The characters of a vector from the lowest byte up, without the zero ones.\<close>

definition vector_char :: "vvp_vector4_t \<Rightarrow> nat \<Rightarrow> nat" where
  "vector_char vec idx =
     (let tr = (if idx + 8 > vec_size vec then vec_size vec - idx else 8)
      in fold (\<lambda>bdx tmp. if vec4_value vec (idx + bdx) = BIT4_1 then tmp OR push_bit bdx 1 else tmp) [0..<tr] 0)"

definition of_PUSHV_STR :: "vthread \<Rightarrow> vthread option" where
  "of_PUSHV_STR thr =
     (case pop_vec4 thr of
        None \<Rightarrow> None
      | Some (vec, thr) \<Rightarrow>
          (let buf = filter (\<lambda>tmp. tmp \<noteq> 0) (map (\<lambda>k. vector_char vec (8 * k)) [0..<(vec_size vec + 7) div 8])
           in Some (push_str (map char_of (rev buf)) thr)))"

text \<open>A string as a vector, the first character in the highest byte. A wrong size stops the simulation;
  the flag says whether the thread goes on.\<close>

definition of_CAST_VEC4_STR :: "nat \<Rightarrow> vthread \<Rightarrow> (vthread \<times> bool) option" where
  "of_CAST_VEC4_STR wid thr =
     (case pop_str thr of
        None \<Rightarrow> None
      | Some (str, thr) \<Rightarrow>
          (let vec = vec4_new wid BIT4_0
           in if wid \<noteq> 8 * length str then Some (push_vec4 vec thr, False)
              else map_option (\<lambda>vec. (push_vec4 vec thr, True))
                     (foldM (\<lambda>sdx. foldM (\<lambda>bdx vec.
                         if bit (of_char (str ! sdx) :: nat) bdx then vec4_set_bit vec (wid - 8 * (sdx + 1) + bdx) BIT4_1 else Some vec)
                       [0..<8]) [0..<length str] vec)))"

text \<open>The positions are the low 32 bits of a register, as signed numbers.\<close>

definition of_SUBSTR :: "nat \<Rightarrow> nat \<Rightarrow> vthread \<Rightarrow> vthread option" where
  "of_SUBSTR i j thr =
     (case (get_word i thr, get_word j thr, peek_str 0 thr) of
        (Some wi, Some wj, Some val) \<Rightarrow>
          (let first = sint (ucast wi :: 32 word); lst = sint (ucast wj :: 32 word)
           in if first < 0 \<or> lst < first \<or> lst \<ge> int (length val) then poke_str 0 [] thr
              else poke_str 0 (take (nat (lst - first + 1)) (drop (nat first) val)) thr)
      | _ \<Rightarrow> None)"

definition of_SUBSTR_VEC4 :: "nat \<Rightarrow> nat \<Rightarrow> vthread \<Rightarrow> vthread option" where
  "of_SUBSTR_VEC4 sel_idx wid thr =
     (case (get_word sel_idx thr, peek_str 0 thr) of
        (Some w, Some val) \<Rightarrow>
          (let sel = sint (ucast w :: 32 word)
           in if wid mod 8 \<noteq> 0 then None
              else if sel < 0 \<or> sel \<ge> int (length val) then Some (push_vec4 (vec4_new wid BIT4_0) thr)
              else if wid \<noteq> 8 then None
              else map_option (\<lambda>res. push_vec4 res thr)
                     (foldM (\<lambda>idx res. if bit (of_char (val ! nat sel) :: nat) idx then vec4_set_bit res idx BIT4_1 else Some res)
                        [0..<8] (vec4_new wid BIT4_0)))
      | _ \<Rightarrow> None)"

section \<open>Jumps\<close>

text \<open>A jump sets the program counter when its condition holds; while the simulation is stopped it
  reschedules the thread instead of going on. \<open>op_next\<close> says how an opcode leaves the loop of \<^verbatim>\<open>vthread_run\<close>.\<close>

datatype op_next = Go | Pause_scheduled | Pause_stop | Pause_delay u64 | Pause_end

definition jump_when :: "bool \<Rightarrow> (vvp_bit4_t \<Rightarrow> bool) \<Rightarrow> nat \<Rightarrow> nat \<Rightarrow> vthread \<Rightarrow> (vthread \<times> op_next) option" where
  "jump_when stopped cond cptr flag thr =
     (case get_flag flag thr of
        None \<Rightarrow> None
      | Some b \<Rightarrow>
          (let thr = (if cond b then thr\<lparr>thr_pc := cptr\<rparr> else thr)
           in Some (thr, if stopped then Pause_scheduled else Go)))"

definition of_JMP :: "bool \<Rightarrow> nat \<Rightarrow> vthread \<Rightarrow> (vthread \<times> op_next) option" where
  "of_JMP stopped cptr thr = Some (thr\<lparr>thr_pc := cptr\<rparr>, if stopped then Pause_scheduled else Go)"

definition of_JMP0 :: "bool \<Rightarrow> nat \<Rightarrow> nat \<Rightarrow> vthread \<Rightarrow> (vthread \<times> op_next) option" where
  "of_JMP0 stopped = jump_when stopped (\<lambda>b. b = BIT4_0)"

definition of_JMP0XZ :: "bool \<Rightarrow> nat \<Rightarrow> nat \<Rightarrow> vthread \<Rightarrow> (vthread \<times> op_next) option" where
  "of_JMP0XZ stopped = jump_when stopped (\<lambda>b. b \<noteq> BIT4_1)"

definition of_JMP1 :: "bool \<Rightarrow> nat \<Rightarrow> nat \<Rightarrow> vthread \<Rightarrow> (vthread \<times> op_next) option" where
  "of_JMP1 stopped = jump_when stopped (\<lambda>b. b = BIT4_1)"

definition of_JMP1XZ :: "bool \<Rightarrow> nat \<Rightarrow> nat \<Rightarrow> vthread \<Rightarrow> (vthread \<times> op_next) option" where
  "of_JMP1XZ stopped = jump_when stopped (\<lambda>b. b \<noteq> BIT4_0)"

text \<open>A delay pauses the thread and schedules it again, in the inactive region when the delay is 0.\<close>

definition of_DELAY :: "32 word \<Rightarrow> 32 word \<Rightarrow> vthread \<Rightarrow> (vthread \<times> op_next) option" where
  "of_DELAY low hig thr = Some (thr, Pause_delay (push_bit 32 (ucast hig) OR ucast low))"

definition of_DELAYX :: "nat \<Rightarrow> vthread \<Rightarrow> (vthread \<times> op_next) option" where
  "of_DELAYX n thr =
     (if n < WORDS_COUNT then map_option (\<lambda>delay. (thr, Pause_delay delay)) (get_word n thr) else None)"

definition of_NOOP :: "vthread \<Rightarrow> vthread option" where
  "of_NOOP thr = Some thr"

end
