(* ===== verification/Thread_Arith.thy ===== *)
theory Thread_Arith
  imports Thread_Ops Arith_Compare
begin

text \<open>
  What the arithmetic opcodes of \<open>Thread_Ops\<close> compute, on every path: machine words, arrays of words and
  arrays of bits. The specifications are functions of the bits of the two operands; those of \<open>Arith_Results\<close>
  are used where opcode and functor agree.
\<close>

section \<open>Vectors and words\<close>

lemma setarray_num:
  assumes "vec4_wf v" "0 < vec_size v" "word_count (vec_size v) \<le> length val"
    and "\<And>i. i < vec_size v \<Longrightarrow> plane_bit val i = bit (k :: int) i"
  shows "\<exists>r. vec4_setarray v 0 (vec_size v) val = Some r \<and> vec4_wf r \<and> vec4_bits r = num_bits (vec_size v) k"
proof -
  obtain r where r: "vec4_setarray v 0 (vec_size v) val = Some r" "vec4_wf r" "vec_size r = vec_size v"
    "\<forall>i<vec_size v. vec4_value r i = (if plane_bit val i then BIT4_1 else BIT4_0)"
    using vec4_setarray_bits[of v 0 "vec_size v" val] assms(1-3) by auto
  then have "vec4_bits r = num_bits (vec_size v) k" using assms(4) by (simp add: vec4_bits_def num_bits_def)
  then show ?thesis using r by blast
qed

lemma subarray_num:
  assumes "vec4_wf v" "0 < vec_size v"
  shows "if list_ex bit4_is_xz (vec4_bits v) then vec4_subarray v 0 (vec_size v) False = Some None
    else \<exists>ws. vec4_subarray v 0 (vec_size v) False = Some (Some ws) \<and> length ws = word_count (vec_size v) \<and>
      int (words_val ws) = bits_num (vec4_bits v)"
proof -
  let ?w = "vec_size v"
  have xz: "list_ex bit4_is_xz (vec4_bits v) \<longleftrightarrow> (\<exists>i<?w. bit4_is_xz (vec4_value v i))"
    by (auto simp: list_ex_iff vec4_bits_def)
  obtain r where r: "vec4_subarray v 0 ?w False = Some r"
    "if \<exists>i<?w. bit4_is_xz (vec4_value v i) then r = None
     else \<exists>ws. r = Some ws \<and> length ws = word_count ?w \<and>
       (\<forall>i<64 * word_count ?w. plane_bit ws i \<longleftrightarrow> i < ?w \<and> vec4_value v i = BIT4_1)"
    using vec4_subarray_bits[OF assms(1) _ assms(2), of 0 False] by (simp only: add_0 order_refl not_False_eq_True simp_thms) blast
  have "int (words_val ws) = bits_num (vec4_bits v)"
    if "length ws = word_count ?w" "\<forall>i<64 * word_count ?w. plane_bit ws i \<longleftrightarrow> i < ?w \<and> vec4_value v i = BIT4_1" for ws
  proof (rule bit_eqI)
    fix i
    show "bit (int (words_val ws)) i = bit (bits_num (vec4_bits v)) i"
    proof (cases "i < 64 * length ws")
      case True
      then show ?thesis using that by (auto simp: bit_of_nat_iff_bit bit_words_val_plane bit_bits_num)
    next
      case False
      then have "\<not> i div 64 < length ws" by (simp add: div_less_iff_less_mult mult.commute)
      moreover have "\<not> i < ?w" using False that(1) word_count_cover[of ?w] by simp
      ultimately show ?thesis by (simp add: bit_of_nat_iff_bit bit_words_val bit_bits_num)
    qed
  qed
  then show ?thesis using r unfolding xz by (auto split: if_splits)
qed

lemma fetch_words_num:
  assumes "vec4_wf l" "vec4_wf r" "vec_size l = w" "vec_size r = w" "0 < w"
  shows "if list_ex bit4_is_xz (vec4_bits l @ vec4_bits r) then fetch_words l r = Some None
    else \<exists>ap bp. fetch_words l r = Some (Some (ap, bp)) \<and> length ap = word_count w \<and> length bp = word_count w \<and>
      int (words_val ap) = bits_num (vec4_bits l) \<and> int (words_val bp) = bits_num (vec4_bits r)"
  using subarray_num[OF assms(1)] subarray_num[OF assms(2)] assms(3-5)
  by (auto simp: fetch_words_def split: if_splits)

lemma x_vector: "vec4_wf (vec4_new w BIT4_X)" "vec4_bits (vec4_new w BIT4_X) = replicate w BIT4_X"
  by (simp_all add: vec4_new_wf list_eq_iff_nth_eq vec4_value_new)

lemma plane_bit_words:
  assumes "int (words_val ws) = take_bit (64 * length ws) k" "i < 64 * length ws"
  shows "plane_bit ws i = bit k i"
  using assms by (metis bit_of_nat_iff_bit bit_take_bit_iff bit_words_val_plane)

lemma words_val_bits:
  assumes "\<And>i. i < 64 * length ws \<Longrightarrow> plane_bit ws i = bit (k :: int) i"
  shows "int (words_val ws) = take_bit (64 * length ws) k"
proof (rule bit_eqI)
  fix i
  show "bit (int (words_val ws)) i = bit (take_bit (64 * length ws) k) i"
  proof (cases "i < 64 * length ws")
    case True
    then show ?thesis using assms by (simp add: bit_of_nat_iff_bit bit_words_val_plane bit_take_bit_iff)
  next
    case False
    then have "\<not> i div 64 < length ws" by (simp add: div_less_iff_less_mult mult.commute)
    then show ?thesis using False by (simp add: bit_of_nat_iff_bit bit_words_val bit_take_bit_iff)
  qed
qed

section \<open>Division\<close>

definition quotient_bits :: "bool \<Rightarrow> nat \<Rightarrow> vvp_bit4_t list \<Rightarrow> vvp_bit4_t list \<Rightarrow> vvp_bit4_t list" where
  "quotient_bits sf w xs ys =
     (if list_ex bit4_is_xz (xs @ ys) \<or> bits_num ys = 0 then replicate w BIT4_X
      else num_bits w (if sf then bits_snum xs sdiv bits_snum ys else bits_num xs div bits_num ys))"

lemma bits_num_small:
  assumes "vec_size v \<le> 64"
  shows "bits_num (vec4_bits v) < 2 ^ 64"
proof -
  have "bits_num (vec4_bits v) < 2 ^ vec_size v" using bits_num_bounds[of "vec4_bits v"] by simp
  also have "\<dots> \<le> 2 ^ 64" using assms by (intro power_increasing) simp_all
  finally show ?thesis .
qed

lemma one_word: "0 < w \<Longrightarrow> w \<le> 64 \<Longrightarrow> word_count w = 1"
  by simp

lemma div_vectors_bits:
  assumes "vec4_wf l" "vec4_wf r" "vec_size l = w" "vec_size r = w" "0 < w"
  shows "\<exists>v. div_vectors l r = Some v \<and> vec4_wf v \<and> vec_size v = w \<and>
    (w \<le> 64 \<or> bits_num (vec4_bits r) < 2 ^ 64 \<longrightarrow> vec4_bits v = quotient_bits False w (vec4_bits l) (vec4_bits r))"
proof (cases "list_ex bit4_is_xz (vec4_bits l @ vec4_bits r)")
  case True
  then have "div_vectors l r = Some (vec4_new w BIT4_X)"
    using fetch_words_num[OF assms] assms(3,4) by (simp add: div_vectors_def)
  then show ?thesis using True x_vector by (simp add: quotient_bits_def vsize)
next
  case False
  let ?a = "bits_num (vec4_bits l)" and ?b = "bits_num (vec4_bits r)"
  obtain ap bp where f: "fetch_words l r = Some (Some (ap, bp))" "length ap = word_count w" "length bp = word_count w"
    "int (words_val ap) = ?a" "int (words_val bp) = ?b"
    using fetch_words_num[OF assms] False by (auto split: if_splits)
  have store: "\<exists>v. vec4_setarray l 0 w q = Some v \<and> vec4_wf v \<and> vec_size v = w \<and> vec4_bits v = num_bits w (int (words_val q))"
    if len: "word_count w \<le> length q" for q
  proof -
    obtain v where "vec4_setarray l 0 w q = Some v" "vec4_wf v" "vec4_bits v = num_bits w (int (words_val q))"
      using setarray_whole[OF assms(1), unfolded assms(3), OF assms(5) len] by blast
    then show ?thesis using length_vec4_bits[of v] by auto
  qed
  show ?thesis
  proof (cases "w \<le> 64")
    case True
    then obtain a b where ab: "ap = [a]" "bp = [b]"
      using f(2,3) one_word[OF assms(5) True] by (metis One_nat_def length_0_conv length_Suc_conv)
    have zero: "b = 0 \<longleftrightarrow> ?b = 0" using f(5) ab(2) uint_0_iff[of b] by auto
    have "int (words_val [a div b]) = ?a div ?b" using f(4,5) ab by (simp add: unat_div zdiv_int)
    then show ?thesis
      using f(1) ab zero True False store[of "[a div b]"] one_word[OF assms(5) True] assms(3,4) x_vector[of w]
      by (auto simp: div_vectors_def quotient_bits_def vsize)
  next
    case big: False
    show ?thesis
    proof (cases "?b < 2 ^ 64")
      case True
      then have "words_val bp < 2 ^ 64" unfolding f(5)[symmetric] by simp
      note d = divide_bits_one_word[OF assms(5) f(2,3) this]
      show ?thesis
      proof (cases "?b = 0")
        case zero: True
        then have "words_val bp = 0" using f(5) by simp
        then show ?thesis using d f(1) zero big assms(3,4) x_vector[of w] by (simp add: div_vectors_def quotient_bits_def vsize)
      next
        case nz: False
        then have "words_val bp \<noteq> 0" using f(5) by auto
        then obtain r' q where q: "divide_bits ap bp w = Some (Some (r', q))" "length q = word_count w"
          "words_val q = words_val ap div words_val bp" using d by auto
        then have "int (words_val q) = ?a div ?b" using f(4,5) by (simp add: zdiv_int)
        then show ?thesis using store[of q] q(1,2) f(1) nz big False assms(3,4) by (auto simp: div_vectors_def quotient_bits_def)
      qed
    next
      case wide: False
      obtain g where g: "divide_bits ap bp w = Some g" "case g of None \<Rightarrow> True | Some (r, q) \<Rightarrow> length q = word_count w"
        using divide_bits_ends[OF assms(5) f(2,3)] by blast
      have "div_vectors l r = (case g of None \<Rightarrow> Some (vec4_new w BIT4_X) | Some (_, q) \<Rightarrow> vec4_setarray l 0 w q)"
        using g(1) big f(1) assms(3,4) by (auto simp: div_vectors_def split: option.splits)
      moreover have "\<exists>v. vec4_setarray l 0 w q = Some v \<and> vec4_wf v \<and> vec_size v = w" if "length q = word_count w" for q
        using store[OF eq_refl[OF that[symmetric]]] by blast
      ultimately show ?thesis
        using wide big g(2) x_vector[of w] by (cases g) (auto simp: vsize)
    qed
  qed
qed

section \<open>Signed division\<close>

lemma bit_snum:
  assumes "length bs = w" "0 < w"
  shows "bit (bits_snum bs) i = bit (bits_num bs) (if i < w then i else w - 1)"
  using assms by (auto simp: bits_snum_def bit_signed_take_bit_iff min_def intro!: arg_cong[where f = "bit (bits_num bs)"])

text \<open>The words with the sign copied into the unused bits of the top word.\<close>

definition signed_words :: "nat \<Rightarrow> u64 list \<Rightarrow> u64 list" where
  "signed_words w ws =
     (let n = (w + 63) div 64; sign_bits = n * 64 - w;
          sign_mask = (if sign_bits \<noteq> 0 then shl (- 1) (64 - sign_bits) else 0)
      in if sign_bits \<noteq> 0 then extend_sign sign_mask n ws else ws)"

lemma signed_words_num:
  assumes "length ws = word_count w" "0 < w" "length bs = w" "int (words_val ws) = bits_num bs"
  shows "length (signed_words w ws) = word_count w"
    "int (words_val (signed_words w ws)) = take_bit (64 * word_count w) (bits_snum bs)"
proof -
  let ?n = "word_count w"
  define f where "f = 64 - (?n * 64 - w)"
  have n: "0 < ?n" using assms(2) by (simp add: div_greater_zero_iff)
  have cover: "w \<le> 64 * ?n" by (rule word_count_cover)
  have last: "64 * (?n - 1) < w" using assms(2) by presburger
  show len: "length (signed_words w ws) = ?n" using assms(1) by (simp add: signed_words_def Let_def extend_sign_def)
  have plane: "plane_bit ws i = bit (bits_num bs) i" if "i < 64 * ?n" for i
    using that assms(1,4) by (metis bit_of_nat_iff_bit bit_words_val_plane)
  have "plane_bit (signed_words w ws) i = bit (bits_snum bs) i" if i: "i < 64 * ?n" for i
  proof (cases "?n * 64 - w = 0")
    case True
    then have "w = 64 * ?n" using cover by simp
    then show ?thesis using True i plane[OF i] bit_snum[OF assms(3,2)] by (simp add: signed_words_def)
  next
    case False
    then have fr: "0 < f" "f < 64" "w = 64 * (?n - 1) + f"
      using cover last n unfolding f_def by (simp_all add: algebra_simps) 
    have mask: "bit (shl (- 1) f) j \<longleftrightarrow> f \<le> j \<and> j < 64" for j using fr by (auto simp: bit_shl)
    have top: "(ws ! (?n - 1) AND shr (shl (- 1) f) 1 \<noteq> 0) \<longleftrightarrow> bit (bits_num bs) (w - 1)"
    proof -
      have high: "\<not> bit (ws ! (?n - 1)) j" if "f \<le> j" "j < 64" for j
      proof -
        have "64 * (?n - 1) + j < 64 * ?n" using that n by simp
        then have "bit (ws ! (?n - 1)) j = bit (bits_num bs) (64 * (?n - 1) + j)"
          using plane[of "64 * (?n - 1) + j"] that by (simp add: plane_bit_def)
        then show ?thesis using that fr(3) assms(3) by (simp add: bit_bits_num)
      qed
      define g where "g = f - 1"
      have g: "g < 64" "w - 1 = 64 * (?n - 1) + g" using fr by (simp_all add: g_def)
      have "64 * (?n - 1) + g < 64 * ?n" using g(1) n by simp
      then have "bit (ws ! (?n - 1)) g = bit (bits_num bs) (w - 1)"
        using plane[of "64 * (?n - 1) + g"] g by (simp add: plane_bit_def)
      then have sign: "bit (ws ! (?n - 1)) (f - 1) = bit (bits_num bs) (w - 1)" by (simp only: g_def)
      have "bit (shr (shl (- 1) f) 1) j \<longleftrightarrow> f - 1 \<le> j \<and> j < 63" for j
        using fr(1,2) by (auto simp: bit_shr bit_shl)
      then have "(ws ! (?n - 1) AND shr (shl (- 1) f) 1 \<noteq> 0) \<longleftrightarrow> (\<exists>j<64. bit (ws ! (?n - 1)) j \<and> f - 1 \<le> j \<and> j < 63)"
        by (auto simp: u64_zero_iff bit_and_iff)
      also have "\<dots> \<longleftrightarrow> bit (ws ! (?n - 1)) (f - 1)"
      proof
        assume "\<exists>j<64. bit (ws ! (?n - 1)) j \<and> f - 1 \<le> j \<and> j < 63"
        then obtain j where j: "j < 64" "bit (ws ! (?n - 1)) j" "f - 1 \<le> j" by blast
        then have "\<not> f \<le> j" using high by blast
        then have "j = f - 1" using j(3) by simp
        then show "bit (ws ! (?n - 1)) (f - 1)" using j(2) by simp
      next
        assume b: "bit (ws ! (?n - 1)) (f - 1)"
        have "f - 1 < 63" using fr(1,2) by simp
        then show "\<exists>j<64. bit (ws ! (?n - 1)) j \<and> f - 1 \<le> j \<and> j < 63" using b by (intro exI[of _ "f - 1"]) simp
      qed
      finally show ?thesis using sign by simp
    qed
    have code: "signed_words w ws = (if bit (bits_num bs) (w - 1) then ws[?n - 1 := ws ! (?n - 1) OR shl (- 1) f] else ws)"
      using False top by (simp add: signed_words_def extend_sign_def Let_def f_def)
    have place: "i div 64 = ?n - 1 \<Longrightarrow> i mod 64 < f \<longleftrightarrow> i < w"
      using fr(3) mult_div_mod_eq[of 64 i] by simp linarith
    show ?thesis
    proof (cases "i < w")
      case True
      then have "i div 64 = ?n - 1 \<Longrightarrow> \<not> f \<le> i mod 64" using place by simp
      then show ?thesis
        using True plane[OF i] bit_snum[OF assms(3,2), of i] assms(1) n mask
        unfolding code by (auto simp: plane_bit_def nth_list_update bit_or_iff)
    next
      case out: False
      then have "i div 64 = ?n - 1" using fr i by (intro div_nat_eqI) (simp_all add: algebra_simps)
      moreover from this have "f \<le> i mod 64" using place out by simp
      moreover have "\<not> bit (bits_num bs) i" using out assms(3) by (simp add: bit_bits_num)
      ultimately show ?thesis
        using out plane[OF i] bit_snum[OF assms(3,2), of i] assms(1) n mask
        unfolding code by (auto simp: plane_bit_def nth_list_update bit_or_iff)
    qed
  qed
  then show "int (words_val (signed_words w ws)) = take_bit (64 * ?n) (bits_snum bs)"
    using words_val_bits[of "signed_words w ws" "bits_snum bs"] len by simp
qed

lemma snum_range:
  assumes "length bs = w" "0 < w"
  shows "- (2 ^ (w - 1)) \<le> bits_snum bs" "bits_snum bs < 2 ^ (w - 1)"
  using signed_take_bit_int_greater_eq_minus_exp[of "w - 1" "bits_num bs"] signed_take_bit_int_less_exp[of "w - 1" "bits_num bs"] assms
  by (simp_all add: bits_snum_def)

lemma snum_zero: "length bs = w \<Longrightarrow> 0 < w \<Longrightarrow> bits_snum bs = 0 \<longleftrightarrow> bits_num bs = 0"
proof -
  assume l: "length bs = w" "0 < w"
  have "bits_num bs = take_bit w (bits_snum bs)"
    by (rule bit_eqI) (auto simp: bit_take_bit_iff bit_snum[OF l] bit_bits_num l(1))
  then show ?thesis by (auto simp: bits_snum_def)
qed

text \<open>The magnitude of a number from its words, as the code finds it.\<close>

definition magnitude_words :: "u64 list \<Rightarrow> nat \<Rightarrow> u64 list" where
  "magnitude_words ws n = (if sint (ws ! (n - 1)) < 0 then negate_words ws n else ws)"

lemma magnitude_words_num:
  assumes "length ws = n" "0 < n" "int (words_val ws) = take_bit (64 * n) s" "- (2 ^ (64 * n - 1)) \<le> s" "s < 2 ^ (64 * n - 1)"
  shows "sint (ws ! (n - 1)) < 0 \<longleftrightarrow> s < 0" "length (magnitude_words ws n) = n"
    "int (words_val (magnitude_words ws n)) = \<bar>s\<bar>"
proof -
  have e: "(2 :: int) ^ (64 * n) = 2 * 2 ^ (64 * n - 1)" using assms(2) by (simp flip: power_Suc)
  have top: "bit s (64 * n - 1) \<longleftrightarrow> s < 0"
  proof -
    have "s = signed_take_bit (64 * n - 1) s" using assms(4,5) by (simp add: signed_take_bit_int_eq_self)
    then show ?thesis by (metis bit_signed_take_bit_iff min.idem signed_take_bit_negative_iff)
  qed
  have "sint (ws ! (n - 1)) < 0 \<longleftrightarrow> bit (ws ! (n - 1)) 63" by (simp add: sint_uint signed_take_bit_negative_iff bit_uint_iff)
  also have "\<dots> \<longleftrightarrow> plane_bit ws (64 * n - 1)"
  proof -
    have "(64 * n - 1) div 64 = n - 1" "(64 * n - 1) mod 64 = 63" using assms(2) by (cases n; simp)+
    then show ?thesis by (simp add: plane_bit_def)
  qed
  also have "\<dots> \<longleftrightarrow> bit s (64 * n - 1)" using plane_bit_words[of ws s] assms(1-3) by simp
  finally show neg: "sint (ws ! (n - 1)) < 0 \<longleftrightarrow> s < 0" using top by simp
  show "length (magnitude_words ws n) = n" using negate_words_val[OF assms(1)] assms(1) by (simp add: magnitude_words_def)
  show "int (words_val (magnitude_words ws n)) = \<bar>s\<bar>"
  proof (cases "s < 0")
    case True
    have "s mod 2 ^ (64 * n) = (s + 2 ^ (64 * n)) mod 2 ^ (64 * n)" by simp
    also have "\<dots> = s + 2 ^ (64 * n)" using True assms(4) e by (intro mod_pos_pos_trivial) linarith+
    finally have "take_bit (64 * n) s = s + 2 ^ (64 * n)" by (simp only: take_bit_eq_mod)
    then have v: "int (words_val ws) = s + 2 ^ (64 * n)" using assms(3) by simp
    have "int (2 ^ (64 * n) - words_val ws) = - s"
      using v words_val_less[of ws] assms(1) by (simp add: of_nat_diff)
    moreover have "- s < 2 ^ (64 * n)" using assms(4) e by (smt (verit) zero_less_power)
    ultimately have "2 ^ (64 * n) - words_val ws < 2 ^ (64 * n)" by (metis of_nat_less_iff of_nat_numeral of_nat_power)
    then show ?thesis
      using negate_words_val[OF assms(1)] True neg \<open>int (2 ^ (64 * n) - words_val ws) = - s\<close> by (simp add: magnitude_words_def)
  next
    case False
    then have "take_bit (64 * n) s = s" using assms(5) e by (simp add: take_bit_int_eq_self)
    then show ?thesis using neg False assms(3) by (simp add: magnitude_words_def)
  qed
qed

lemma div_signed_vectors_bits:
  assumes "vec4_wf l" "vec4_wf r" "vec_size l = w" "vec_size r = w" "0 < w"
  shows "\<exists>v. div_signed_vectors l r = Some v \<and> vec4_wf v \<and> vec_size v = w \<and>
    (w \<le> 64 \<or> \<bar>bits_snum (vec4_bits r)\<bar> < 2 ^ 64 \<longrightarrow> vec4_bits v = quotient_bits True w (vec4_bits l) (vec4_bits r))"
proof (cases "list_ex bit4_is_xz (vec4_bits l @ vec4_bits r)")
  case True
  then have "div_signed_vectors l r = Some (vec4_new w BIT4_X)"
    using fetch_words_num[OF assms] assms(3,4) by (simp add: div_signed_vectors_def Let_def)
  then show ?thesis using True x_vector by (simp add: quotient_bits_def vsize)
next
  case False
  let ?n = "word_count w"
  define a b where "a = bits_snum (vec4_bits l)" "b = bits_snum (vec4_bits r)"
  define sign_bits where "sign_bits = ?n * 64 - w"
  define msk where "msk = (if sign_bits \<noteq> 0 then shl (- 1) (64 - sign_bits) else 0)"
  have n: "0 < ?n" using assms(5) by (simp add: div_greater_zero_iff)
  obtain ap0 bp0 where f: "fetch_words l r = Some (Some (ap0, bp0))" "length ap0 = ?n" "length bp0 = ?n"
    "int (words_val ap0) = bits_num (vec4_bits l)" "int (words_val bp0) = bits_num (vec4_bits r)"
    using fetch_words_num[OF assms] False by (auto split: if_splits)
  define ap bp where "ap = signed_words w ap0" "bp = signed_words w bp0"
  have A: "length ap = ?n" "int (words_val ap) = take_bit (64 * ?n) a"
    using signed_words_num[OF f(2) assms(5) _ f(4)] assms(3) by (simp_all add: ap_bp_def a_b_def)
  have B: "length bp = ?n" "int (words_val bp) = take_bit (64 * ?n) b"
    using signed_words_num[OF f(3) assms(5) _ f(5)] assms(4) by (simp_all add: ap_bp_def a_b_def)
  have code: "div_signed_vectors l r = (if w \<le> 64 then div_signed_word w msk l ap bp else div_signed_wide w msk l ap bp)"
    using f(1) assms(3,4) by (simp add: div_signed_vectors_def Let_def msk_def sign_bits_def ap_bp_def signed_words_def)
  have bounds: "- (2 ^ (w - 1)) \<le> a" "a < 2 ^ (w - 1)" "- (2 ^ (w - 1)) \<le> b" "b < 2 ^ (w - 1)"
    using snum_range[of "vec4_bits l" w] snum_range[of "vec4_bits r" w] assms(3-5) by (simp_all add: a_b_def)
  have zero: "b = 0 \<longleftrightarrow> bits_num (vec4_bits r) = 0"
    using snum_zero[of "vec4_bits r" w] assms(4,5) by (simp add: a_b_def)
  have q: "quotient_bits True w (vec4_bits l) (vec4_bits r) = (if b = 0 then replicate w BIT4_X else num_bits w (a sdiv b))"
    using False zero by (simp add: quotient_bits_def a_b_def)
  have msk: "\<not> bit msk (i mod 64)" if "i < w" "i div 64 = ?n - 1" for i
  proof (cases "sign_bits = 0")
    case nz: False
    have "i mod 64 < 64 - sign_bits"
      using that mult_div_mod_eq[of 64 i] n word_count_cover[of w] nz unfolding sign_bits_def by linarith
    then show ?thesis using nz by (simp add: msk_def bit_shl)
  qed (simp add: msk_def)
  have store: "\<exists>v. vec4_setarray l 0 w ws = Some v \<and> vec4_wf v \<and> vec_size v = w \<and> vec4_bits v = num_bits w k"
    if ws: "length ws = ?n" "\<And>i. i < w \<Longrightarrow> plane_bit ws i = bit (k :: int) i" for ws k
  proof -
    have "word_count (vec_size l) \<le> length ws" using ws(1) assms(3) by simp
    from setarray_num[OF assms(1) _ this, of k] obtain v where "vec4_setarray l 0 w ws = Some v" "vec4_wf v" "vec4_bits v = num_bits w k"
      using assms(3,5) ws(2) by auto
    then show ?thesis using length_vec4_bits[of v] by auto
  qed
  have top: "plane_bit (ws[?n - 1 := ws ! (?n - 1) AND NOT msk]) i = plane_bit ws i" if "length ws = ?n" "i < w" for ws i
    using that msk[of i] n by (auto simp: plane_bit_def nth_list_update bit_and_iff bit_not_iff)
  show ?thesis
  proof (cases "w \<le> 64")
    case True
    have one: "?n = 1" by (rule one_word[OF assms(5) True])
    then obtain x y where xy: "ap = [x]" "bp = [y]" using A(1) B(1) by (metis One_nat_def length_0_conv length_Suc_conv)
    have w63: "(2 :: int) ^ (w - 1) \<le> 2 ^ 63" using True by (intro power_increasing) simp_all
    have x: "x = word_of_int a" "y = word_of_int b"
      using A(2) B(2) xy one unfolding word_uint_eq_iff by (simp_all add: uint_word_of_int take_bit_eq_mod)
    have s: "sint x = a" "sint y = b"
      using bounds w63 unfolding x by (simp_all add: signed_of_int signed_take_bit_int_eq_self)
    have y0: "y = 0 \<longleftrightarrow> b = 0" using x(2) s(2) by auto
    show ?thesis
    proof (cases "b = 0")
      case bz: True
      then show ?thesis using code True q xy y0 x_vector[of w] by (simp add: div_signed_word_def vsize)
    next
      case bnz: False
      show ?thesis
      proof (cases "a = - (2 ^ 63) \<and> b = - 1")
        case extreme: True
        then have "2 ^ 63 \<le> (2 :: int) ^ (w - 1)" using bounds(1) by linarith
        then have "63 \<le> w - 1" by (simp only: power_increasing_iff) 
        then have w: "w = 64" using True by simp
        obtain v where v: "vec4_set_bit (vec4_new w BIT4_0) (w - 1) BIT4_1 = Some v" "vec4_wf v" "vec_size v = w"
          "\<And>j. j < w \<Longrightarrow> vec4_value v j = (if j = w - 1 then BIT4_1 else BIT4_0)"
          using vec4.set_in_range[of "vec4_new w BIT4_0" "w - 1" BIT4_1] assms(5) by (auto simp: vsize bitlevel)
        define k :: int where "k = 2 ^ 63"
        have k: "bit k i \<longleftrightarrow> i = 63" for i unfolding k_def by (subst bit_exp_iff) auto
        have "a sdiv b = k" using extreme by (simp add: signed_divide_int_def k_def)
        then have "vec4_bits v = num_bits w (a sdiv b)"
          using v(3,4) w k by (simp add: list_eq_iff_nth_eq)
        then show ?thesis using code True q xy y0 s bnz extreme v by (simp add: div_signed_word_def)
      next
        case normal: False
        have "div_signed_word w msk l ap bp = vec4_setarray l 0 w ([word_of_int (a sdiv b)][?n - 1 := [word_of_int (a sdiv b)] ! (?n - 1) AND NOT msk])"
          using xy y0 s bnz normal one by (auto simp: div_signed_word_def)
        moreover have "plane_bit [word_of_int (a sdiv b)] i = bit (a sdiv b) i" if "i < w" for i
          using that True by (simp add: plane_bit_def bit_word_of_int_iff)
        ultimately show ?thesis
          using store[of "[word_of_int (a sdiv b)][?n - 1 := [word_of_int (a sdiv b)] ! (?n - 1) AND NOT msk]" "a sdiv b"]
            top[of "[word_of_int (a sdiv b)]"] one code True q bnz by auto
      qed
    qed
  next
    case big: False
    have "w \<le> 64 * ?n" by (rule word_count_cover)
    then have w64: "(2 :: int) ^ (w - 1) \<le> 2 ^ (64 * ?n - 1)" by (intro power_increasing) simp_all
    note MA = magnitude_words_num[OF A(1) n A(2)] and MB = magnitude_words_num[OF B(1) n B(2)]
    have rng: "- (2 ^ (64 * ?n - 1)) \<le> a" "a < 2 ^ (64 * ?n - 1)" "- (2 ^ (64 * ?n - 1)) \<le> b" "b < 2 ^ (64 * ?n - 1)"
      using bounds w64 by linarith+
    let ?ma = "magnitude_words ap ?n" and ?mb = "magnitude_words bp ?n"
    define fin where "fin q = (let q = (if (a < 0) \<noteq> (b < 0) then negate_words q ?n else q) in q[?n - 1 := q ! (?n - 1) AND NOT msk])" for q
    have wide: "div_signed_wide w msk l ap bp =
        (case divide_bits ?ma ?mb w of None \<Rightarrow> None | Some None \<Rightarrow> Some (vec4_new w BIT4_X) | Some (Some (_, q)) \<Rightarrow> vec4_setarray l 0 w (fin q))"
      unfolding div_signed_wide_def magnitude_words_def Let_def fin_def MA(1)[OF rng(1,2)] MB(1)[OF rng(3,4)] by (rule refl)
    have flen: "length (fin q) = ?n" if "length q = ?n" for q
      using that negate_words_val[OF that] by (simp add: fin_def Let_def)
    note lens = MA(2)[OF rng(1,2)] MB(2)[OF rng(3,4)]
    show ?thesis
    proof (cases "\<bar>b\<bar> < 2 ^ 64")
      case True
      have mb: "words_val ?mb < 2 ^ 64" using True unfolding MB(3)[OF rng(3,4), symmetric] by simp
      note d = divide_bits_one_word[OF assms(5) lens mb]
      show ?thesis
      proof (cases "b = 0")
        case bz: True
        then have "words_val ?mb = 0" using MB(3)[OF rng(3,4)] by simp
        then show ?thesis using d code big wide q bz x_vector[of w] by (simp add: vsize)
      next
        case bnz: False
        then have "words_val ?mb \<noteq> 0" using MB(3)[OF rng(3,4)] by auto
        then obtain r' qw where qw: "divide_bits ?ma ?mb w = Some (Some (r', qw))" "length qw = ?n"
          "words_val qw = words_val ?ma div words_val ?mb" using d by auto
        have qv: "int (words_val qw) = \<bar>a\<bar> div \<bar>b\<bar>" using qw(3) MA(3)[OF rng(1,2)] MB(3)[OF rng(3,4)] by (simp add: zdiv_int)
        define q' where "q' = (if (a < 0) \<noteq> (b < 0) then negate_words qw ?n else qw)"
        have q'len: "length q' = ?n" using negate_words_val[OF qw(2)] qw(2) by (simp add: q'_def)
        have "int (words_val q') = take_bit (64 * ?n) (a sdiv b)"
        proof (cases "(a < 0) \<noteq> (b < 0)")
          case True
          have "words_val qw < 2 ^ (64 * ?n)" using words_val_less[of qw] qw(2) by simp
          then have "int (words_val q') = (2 ^ (64 * ?n) - int (words_val qw)) mod 2 ^ (64 * ?n)"
            using negate_words_val[OF qw(2)] True by (simp add: q'_def zmod_int of_nat_diff)
          also have "\<dots> = (- int (words_val qw)) mod 2 ^ (64 * ?n)" by (metis mod_add_self1 uminus_add_conv_diff add.commute diff_conv_add_uminus)
          finally show ?thesis
            using True qv signed_by_magnitude(1)[of a b] by (simp add: take_bit_eq_mod)
        next
          case False
          moreover have "words_val qw < 2 ^ (64 * ?n)" using words_val_less[of qw] qw(2) by simp
          ultimately show ?thesis
            using qv signed_by_magnitude(1)[of a b] by (simp add: q'_def take_bit_int_eq_self flip: of_nat_less_iff[of _ "2 ^ (64 * ?n)", where 'a = int])
        qed
        then have "plane_bit q' i = bit (a sdiv b) i" if "i < w" for i
          using that plane_bit_words[of q' "a sdiv b" i] q'len \<open>w \<le> 64 * ?n\<close> by simp
        then have "plane_bit (fin qw) i = bit (a sdiv b) i" if "i < w" for i
          using that top[OF q'len that] by (simp add: fin_def Let_def q'_def)
        then show ?thesis using store[OF flen[OF qw(2)], of "a sdiv b"] code big wide q bnz qw(1) by auto
      qed
    next
      case False
      obtain g where g: "divide_bits ?ma ?mb w = Some g" "case g of None \<Rightarrow> True | Some (r, q) \<Rightarrow> length q = ?n"
        using divide_bits_ends[OF assms(5) lens] by blast
      have "\<exists>v. vec4_setarray l 0 w ws = Some v \<and> vec4_wf v \<and> vec_size v = w" if "length ws = ?n" for ws
        using store[OF that, of "int (words_val ws)"] that \<open>w \<le> 64 * ?n\<close>
        by (metis bit_of_nat_iff_bit bit_words_val_plane order_less_le_trans)
      then show ?thesis using g code big wide False flen x_vector[of w] by (cases g) (auto simp: a_b_def vsize)
    qed
  qed
qed

end
