(* ===== verification/Thread_Mod.thy ===== *)
theory Thread_Mod
  imports Thread_Arith
begin

text \<open>
  The remainder opcodes \<^verbatim>\<open>%mod\<close> and \<^verbatim>\<open>%mod/s\<close> of \<open>Thread_Ops\<close>: on machine words, and on long vectors by
  restoring division on arrays of single bits. They compute what the functor of \<open>Arith\<close> does (\<open>mod_result\<close>).
\<close>

section \<open>Machine words\<close>

lemma mod_load_bits:
  assumes "k \<le> n" "n \<le> 64"
    and "\<And>i. i < 64 \<Longrightarrow> bit lv i \<longleftrightarrow> i < k \<and> vec4_value u i = BIT4_1"
    and "\<And>i. i < 64 \<Longrightarrow> bit rv i \<longleftrightarrow> i < k \<and> vec4_value v i = BIT4_1"
  shows "if \<exists>i\<in>{k..<n}. bit4_is_xz (vec4_value u i) \<or> bit4_is_xz (vec4_value v i) then mod_load u v [k..<n] lv rv = None
    else \<exists>lv' rv'. mod_load u v [k..<n] lv rv = Some (lv', rv') \<and>
      (\<forall>i<64. (bit lv' i \<longleftrightarrow> i < n \<and> vec4_value u i = BIT4_1) \<and> (bit rv' i \<longleftrightarrow> i < n \<and> vec4_value v i = BIT4_1))"
  using assms
proof (induction "n - k" arbitrary: k lv rv)
  case 0
  then show ?case by simp
next
  case (Suc m)
  then have k: "k < n" by simp
  then have split: "[k..<n] = k # [Suc k..<n]" "{k..<n} = insert k {Suc k..<n}" by (simp add: upt_conv_Cons, auto)
  show ?case
  proof (cases "bit4_is_xz (vec4_value u k) \<or> bit4_is_xz (vec4_value v k)")
    case True
    then show ?thesis unfolding split by auto
  next
    case False
    define lv1 where "lv1 = lv OR shl (of_nat (bit4_int (vec4_value u k))) k"
    define rv1 where "rv1 = rv OR shl (of_nat (bit4_int (vec4_value v k))) k"
    have one: "bit (shl (of_nat (bit4_int b)) k) i \<longleftrightarrow> i = k \<and> b = BIT4_1" if "i < 64" "\<not> bit4_is_xz b" for b i
      using that k Suc.prems(2) by (cases b) (auto simp: bit_shl bit_1_iff)
    have l: "bit lv1 i \<longleftrightarrow> i < Suc k \<and> vec4_value u i = BIT4_1" if "i < 64" for i
      using that one[of i "vec4_value u k"] False Suc.prems(3)[OF that] by (auto simp: lv1_def bit_or_iff less_Suc_eq)
    have r: "bit rv1 i \<longleftrightarrow> i < Suc k \<and> vec4_value v i = BIT4_1" if "i < 64" for i
      using that one[of i "vec4_value v k"] False Suc.prems(4)[OF that] by (auto simp: rv1_def bit_or_iff less_Suc_eq)
    have "mod_load u v [k..<n] lv rv = mod_load u v [Suc k..<n] lv1 rv1"
      unfolding split(1) using False by (simp add: lv1_def rv1_def Let_def)
    then show ?thesis
      using Suc.hyps(1)[of "Suc k" lv1 rv1] Suc.hyps(2) k Suc.prems(2) l r False unfolding split(2) by auto
  qed
qed

lemma mod_load_num:
  assumes "vec_size u = w" "vec_size v = w" "w \<le> 64"
  shows "mod_load u v [0..<w] 0 0 =
    (if list_ex bit4_is_xz (vec4_bits u @ vec4_bits v) then None
     else Some (word_of_int (bits_num (vec4_bits u)), word_of_int (bits_num (vec4_bits v))))"
proof -
  have xz: "list_ex bit4_is_xz (vec4_bits u @ vec4_bits v) \<longleftrightarrow> (\<exists>i\<in>{0..<w}. bit4_is_xz (vec4_value u i) \<or> bit4_is_xz (vec4_value v i))"
    using assms(1,2) by (auto simp: list_ex_iff vec4_bits_def)
  have word: "x = word_of_int (bits_num (vec4_bits z))" if "\<forall>i<64. bit x i \<longleftrightarrow> i < w \<and> vec4_value z i = BIT4_1" "vec_size z = w" for x :: u64 and z
    using that assms(3) by (auto simp: u64_eq_iff bit_word_of_int_iff bit_bits_num)
  show ?thesis
    using mod_load_bits[of 0 w 0 u 0 v] assms xz word by (auto split: if_splits)
qed

lemma num_extended:
  assumes "length bs = w" "0 < w" "w \<le> 64"
  shows "(if w < 64 \<and> (word_of_int (bits_num bs) :: u64) AND shl 1 (w - 1) \<noteq> 0
      then word_of_int (bits_num bs) OR shl (- 1) w else word_of_int (bits_num bs)) = (word_of_int (bits_snum bs) :: u64)"
proof -
  have b: "bit (word_of_int k :: u64) i \<longleftrightarrow> i < 64 \<and> bit k i" for k :: int and i by (simp add: bit_word_of_int_iff)
  have top: "(word_of_int (bits_num bs) :: u64) AND shl 1 (w - 1) \<noteq> 0 \<longleftrightarrow> bit (bits_num bs) (w - 1)"
  proof -
    have "bit (shl 1 (w - 1)) i \<longleftrightarrow> i = w - 1" for i using assms(2,3) by (auto simp: bit_shl bit_1_iff)
    then show ?thesis using assms(2,3) by (auto simp: u64_zero_iff bit_and_iff b)
  qed
  have s: "bit (bits_snum bs) i = bit (bits_num bs) (if i < w then i else w - 1)" for i by (rule bit_snum[OF assms(1,2)])
  have out: "\<not> bit (bits_num bs) i" if "w \<le> i" for i using that assms(1) by (simp add: bit_bits_num)
  show ?thesis
    unfolding top by (rule bit_eqI) (use assms(3) out in \<open>auto simp: b s bit_or_iff bit_shl\<close>)
qed

lemma mod_word_bits:
  assumes "vec4_wf l" "vec_size l = w" "vec_size r = w" "0 < w" "w \<le> 64"
  shows "\<exists>v. mod_word l r = Some v \<and> vec4_wf v \<and> vec4_bits v = mod_result False w (vec4_bits l) (vec4_bits r)"
proof -
  let ?a = "bits_num (vec4_bits l)" and ?b = "bits_num (vec4_bits r)"
  have rng: "0 \<le> ?a" "?a < 2 ^ 64" "0 \<le> ?b" "?b < 2 ^ 64"
    using bits_num_small[of l] bits_num_small[of r] num_range[of l] num_range[of r] assms by simp_all
  note word = word_of_int_div_mod[OF rng]
  show ?thesis
    using mod_load_num[OF assms(2,3,5)] word_bits_into_bits[OF assms(1,2,5), of "?a mod ?b"] word(2,3) x_vector[of w] assms(2)
    by (auto simp: mod_word_def mod_result_def)
qed

lemma mod_signed_word_bits:
  assumes "vec4_wf l" "vec_size l = w" "vec_size r = w" "0 < w" "w \<le> 64"
  shows "\<exists>v. mod_signed_word l r = Some v \<and> vec4_wf v \<and> vec4_bits v = mod_result True w (vec4_bits l) (vec4_bits r)"
proof (cases "list_ex bit4_is_xz (vec4_bits l @ vec4_bits r)")
  case True
  then show ?thesis using mod_load_num[OF assms(2,3,5)] x_vector[of w] assms(2) by (auto simp: mod_signed_word_def mod_result_def)
next
  case False
  let ?a = "bits_num (vec4_bits l)" and ?b = "bits_num (vec4_bits r)"
  define sa sb where "sa = bits_snum (vec4_bits l)" "sb = bits_snum (vec4_bits r)"
  have len: "length (vec4_bits l) = w" "length (vec4_bits r) = w" using assms by simp_all
  have w63: "(2 :: int) ^ (w - 1) \<le> 2 ^ 63" using assms(5) by (intro power_increasing) simp_all
  have rs: "- (2 ^ 63) \<le> sa" "sa < 2 ^ 63" "- (2 ^ 63) \<le> sb" "sb < 2 ^ 63"
    using snum_range[OF len(1) assms(4)] snum_range[OF len(2) assms(4)] w63 unfolding sa_sb_def by linarith+
  have s: "sint (word_of_int sa :: u64) = sa" "sint (word_of_int sb :: u64) = sb"
    using rs by (simp_all add: signed_of_int signed_take_bit_int_eq_self)
  have zero: "(word_of_int ?b :: u64) = 0 \<longleftrightarrow> ?b = 0"
    using bits_num_small[of r] num_range[of r] assms by (intro word_of_int_div_mod(3)[of 0 ?b]) simp_all
  have X: "(word_of_int ?a :: u64) = word_of_int sa" "(word_of_int ?b :: u64) = word_of_int sb" if "w = 64"
    using num_extended[OF len(1) assms(4,5)] num_extended[OF len(2) assms(4,5)] that by (simp_all add: sa_sb_def)
  define code where "code = (if ?b = 0 then Some (vec4_new w BIT4_X)
      else if sint (word_of_int ?a :: u64) = - (2 ^ 63) \<and> sint (word_of_int ?b :: u64) = - 1 then Some (vec4_new w BIT4_0)
      else word_bits_into l w (word_of_int (sa smod sb)))"
  have code: "mod_signed_word l r = code"
    unfolding mod_signed_word_def Let_def assms(2) mod_load_num[OF assms(2,3,5)] if_not_P[OF False] option.case prod.case zero
      num_extended[OF len(1) assms(4,5)] num_extended[OF len(2) assms(4,5)] sa_sb_def[symmetric] s code_def by (rule refl)
  show ?thesis
  proof (cases "?b \<noteq> 0 \<and> sint (word_of_int ?a :: u64) = - (2 ^ 63) \<and> sint (word_of_int ?b :: u64) = - 1")
    case True
    have "w = 64"
    proof (rule ccontr)
      assume "w \<noteq> 64"
      then have "w \<le> 63" using assms(5) by simp
      then have "?a < 2 ^ 63"
        using num_range[of l] assms(2) power_increasing[of w 63 "2 :: int"] by (simp del: power_increasing_iff)
      then have "sint (word_of_int ?a :: u64) = ?a" using num_range[of l] by (simp add: signed_of_int signed_take_bit_int_eq_self)
      then show False using True num_range[of l] by simp
    qed
    then have "sb = - 1" using True X(2) s(2) by simp
    then have "sa smod sb = 0" by (simp add: signed_modulo_int_def)
    moreover have "num_bits w 0 = replicate w BIT4_0" by (simp add: num_bits_def list_eq_iff_nth_eq)
    moreover have "vec4_bits (vec4_new w BIT4_0) = replicate w BIT4_0" by (simp add: list_eq_iff_nth_eq vsize bitlevel)
    ultimately show ?thesis using True code False by (simp add: code_def mod_result_def sa_sb_def[symmetric] vsize)
  next
    case normal: False
    then show ?thesis
      using code False word_bits_into_bits[OF assms(1,2,5), of "sa smod sb"] x_vector[of w] by (auto simp: code_def mod_result_def sa_sb_def[symmetric])
  qed
qed

section \<open>Arrays of bits\<close>

fun bin_val :: "nat list \<Rightarrow> nat" where
  "bin_val [] = 0"
| "bin_val (z # zs) = z + 2 * bin_val zs"

definition binary :: "nat list \<Rightarrow> bool" where
  "binary zs \<longleftrightarrow> (\<forall>z\<in>set zs. z \<le> 1)"

lemma binary_Cons [simp]: "binary [] = True" "binary (z # zs) = (z \<le> 1 \<and> binary zs)"
  by (simp_all add: binary_def)

lemma binary_append [simp]: "binary (xs @ ys) = (binary xs \<and> binary ys)"
  by (auto simp: binary_def)

lemma binary_take_drop: "binary zs \<Longrightarrow> binary (take n zs)" "binary zs \<Longrightarrow> binary (drop n zs)"
  by (auto simp: binary_def dest: in_set_takeD in_set_dropD)

lemma bin_val_append: "bin_val (xs @ ys) = bin_val xs + 2 ^ length xs * bin_val ys"
  by (induction xs) (simp_all add: algebra_simps)

lemma bin_val_less: "binary zs \<Longrightarrow> bin_val zs < 2 ^ length zs"
  by (induction zs) auto

lemma bit_bin_val: "binary zs \<Longrightarrow> bit (bin_val zs) i \<longleftrightarrow> i < length zs \<and> zs ! i = 1"
proof (induction zs arbitrary: i)
  case (Cons z zs)
  have z: "z = 0 \<or> z = 1" using Cons.prems by (auto simp: le_Suc_eq)
  then have "odd (bin_val (z # zs)) \<longleftrightarrow> z = 1" "bin_val (z # zs) div 2 = bin_val zs" by auto
  moreover have "bit (bin_val zs) j \<longleftrightarrow> j < length zs \<and> zs ! j = 1" for j using Cons by simp
  ultimately show ?case by (cases i) (simp_all only: bit_0 bit_Suc length_Cons nth_Cons_0 nth_Cons_Suc zero_less_Suc Suc_less_eq simp_thms)
qed simp

lemma bin_val_top:
  assumes "binary zs" "i < length zs" "zs ! i = 1" "\<And>j. i < j \<Longrightarrow> j < length zs \<Longrightarrow> zs ! j = 0"
  shows "2 ^ i \<le> bin_val zs" "bin_val zs < 2 ^ (i + 1)"
proof -
  have "bin_val zs = bin_val (take i zs @ zs ! i # drop (Suc i) zs)"
    by (rule arg_cong[OF id_take_nth_drop[OF assms(2)]])
  moreover have d: "drop (Suc i) zs = replicate (length zs - Suc i) 0" using assms(4) by (simp add: list_eq_iff_nth_eq)
  moreover have "bin_val (replicate n 0) = 0" for n by (induction n) simp_all
  ultimately have "bin_val zs = bin_val (take i zs) + 2 ^ i"
    using assms(2,3) by (simp add: d bin_val_append min_def)
  moreover have "bin_val (take i zs) < 2 ^ i"
    using bin_val_less[OF binary_take_drop(1)[OF assms(1), of i]] assms(2) by (simp add: min_def)
  ultimately show "2 ^ i \<le> bin_val zs" "bin_val zs < 2 ^ (i + 1)" by simp_all
qed

lemma highest_props:
  "(case highest P n of None \<Rightarrow> \<forall>j<n. \<not> P j | Some i \<Rightarrow> i < n \<and> P i \<and> (\<forall>j. i < j \<and> j < n \<longrightarrow> \<not> P j))"
  by (induction n) (auto simp: less_Suc_eq split: option.splits)

text \<open>The adder, and one round of the division.\<close>

lemma verylong_add_val:
  assumes "binary zs" "binary as" "length as = length zs" "c \<le> 1"
  shows "case verylong_add zs as c of (t, c') \<Rightarrow> length t = length zs \<and> binary t \<and> c' \<le> 1 \<and>
    bin_val t + 2 ^ length zs * c' = bin_val zs + bin_val as + c"
  using assms
proof (induction zs as c rule: verylong_add.induct)
  case (1 z zs a as carry)
  define x where "x = z + a + carry"
  have regroup: "L = m + 2 * (P + d) \<Longrightarrow> m + 2 * d = n \<Longrightarrow> L = n + 2 * P" for L m P d n :: nat by simp
  have "x \<le> 3" using 1(2,3,5) by (simp add: x_def)
  then have x: "x div 2 \<le> 1" "x mod 2 + 2 * (x div 2) = x" by simp_all
  obtain t c' where t: "verylong_add zs as (x div 2) = (t, c')" by (meson surj_pair)
  with 1 x(1) have "length t = length zs" "binary t" "c' \<le> 1" "bin_val t + 2 ^ length zs * c' = bin_val zs + bin_val as + x div 2"
    unfolding x_def by auto
  then have "length (x mod 2 # t) = length (z # zs)" "binary (x mod 2 # t)" "c' \<le> 1" by simp_all
  moreover have "bin_val (x mod 2 # t) + 2 ^ length (z # zs) * c' = x mod 2 + 2 * (bin_val t + 2 ^ length zs * c')"
    by (simp add: algebra_simps)
  then have "bin_val (x mod 2 # t) + 2 ^ length (z # zs) * c' = x + 2 * (bin_val zs + bin_val as)"
    unfolding \<open>bin_val t + 2 ^ length zs * c' = bin_val zs + bin_val as + x div 2\<close> by (rule regroup) (rule x(2))
  then have "bin_val (x mod 2 # t) + 2 ^ length (z # zs) * c' = bin_val (z # zs) + bin_val (a # as) + carry"
    by (simp add: x_def)
  moreover have "verylong_add (z # zs) (a # as) carry = (x mod 2 # t, c')" using t by (simp add: x_def)
  ultimately show ?case by (simp only: prod.case simp_thms)
qed auto

lemma verylong_round_val:
  assumes "binary z" "binary a" "length a = length z" "cur + cl \<le> length z"
    and z: "bin_val z < b * 2 ^ (cur + 1)" and b: "2 * b \<le> 2 ^ cl" "bin_val (take cl a) + b + 1 = 2 ^ cl"
  shows "binary (verylong_round a cl cur z)" "length (verylong_round a cl cur z) = length z"
    "bin_val (verylong_round a cl cur z) < b * 2 ^ cur" "bin_val (verylong_round a cl cur z) mod b = bin_val z mod b"
proof -
  define lo mid hi where "lo = take cur z" "mid = take cl (drop cur z)" "hi = drop (cur + cl) z"
  have split: "z = lo @ mid @ hi" by (simp add: lo_mid_hi_def add.commute take_add[symmetric] flip: drop_drop)
  have len: "length lo = cur" "length mid = cl" using assms(4) by (simp_all add: lo_mid_hi_def)
  have bin: "binary lo" "binary mid" "binary hi" using assms(1) by (simp_all add: lo_mid_hi_def binary_take_drop)
  have val: "bin_val z = bin_val lo + 2 ^ cur * (bin_val mid + 2 ^ cl * bin_val hi)"
    by (subst split) (simp add: bin_val_append len)
  have "b * 2 ^ (cur + 1) \<le> 2 ^ cur * 2 ^ cl" using mult_le_mono2[OF b(1), of "2 ^ cur"] by (simp add: algebra_simps)
  moreover have "2 ^ cur * (2 ^ cl * bin_val hi) \<le> bin_val z" unfolding val by (simp add: distrib_left)
  ultimately have "(2 ^ cur * 2 ^ cl) * bin_val hi < (2 ^ cur * 2 ^ cl) * 1" using z by (simp only: mult.assoc mult_1_right)
  then have "bin_val hi < 1" by (simp only: mult_less_cancel1)
  then have hi: "bin_val hi = 0" by simp
  let ?T = "bin_val mid"
  have v: "bin_val z = bin_val lo + 2 ^ cur * ?T" using val hi by simp
  have lo: "bin_val lo < 2 ^ cur" using bin_val_less[OF bin(1)] len(1) by simp
  obtain t c where t: "verylong_add mid (take cl a) 1 = (t, c)" by (meson surj_pair)
  have "length (take cl a) = length mid" using assms(3,4) len by simp
  then have s: "length t = cl" "binary t" "c \<le> 1" "bin_val t + 2 ^ cl * c = ?T + bin_val (take cl a) + 1"
    using verylong_add_val[OF bin(2) binary_take_drop(1)[OF assms(2), of cl], of 1] t len(2) by auto
  then have s4: "bin_val t + 2 ^ cl * c + b = ?T + 2 ^ cl" using b(2) by linarith
  have tl: "bin_val t < 2 ^ cl" using bin_val_less[OF s(2)] s(1) by simp
  have code: "verylong_round a cl cur z = (if c \<noteq> 0 then lo @ t @ hi else z)"
    using t by (simp add: verylong_round_def lo_mid_hi_def)
  have "binary (verylong_round a cl cur z) \<and> length (verylong_round a cl cur z) = length z \<and>
    bin_val (verylong_round a cl cur z) < b * 2 ^ cur \<and> bin_val (verylong_round a cl cur z) mod b = bin_val z mod b"
  proof (cases "c = 0")
    case True
    then have "?T + 1 \<le> b" using s4 tl by simp
    then have "2 ^ cur * (?T + 1) \<le> 2 ^ cur * b" by (rule mult_le_mono2)
    then show ?thesis using True code assms(1) v lo by (simp add: algebra_simps)
  next
    case False
    then have c: "c = 1" using s(3) by simp
    then have t1: "?T = bin_val t + b" using s4 by simp
    have n: "bin_val (lo @ t @ hi) = bin_val lo + 2 ^ cur * bin_val t" using hi len s(1) by (simp add: bin_val_append)
    have zz: "bin_val z = bin_val (lo @ t @ hi) + b * 2 ^ cur" using v n t1 by (simp add: algebra_simps)
    then have "bin_val (lo @ t @ hi) < b * 2 ^ cur" using z by simp
    moreover have "bin_val (lo @ t @ hi) mod b = bin_val z mod b" unfolding zz by simp
    moreover have "length (lo @ t @ hi) = length z" using arg_cong[OF split, of length] by (simp add: s(1) len)
    ultimately show ?thesis using code c bin s(2) by simp
  qed
  then show "binary (verylong_round a cl cur z)" "length (verylong_round a cl cur z) = length z"
    "bin_val (verylong_round a cl cur z) < b * 2 ^ cur" "bin_val (verylong_round a cl cur z) mod b = bin_val z mod b"
    by simp_all
qed

lemma verylong_rounds_val:
  assumes "binary a" "length a = length z" "n + cl \<le> length z + 1" "0 < b" "2 * b \<le> 2 ^ cl" "bin_val (take cl a) + b + 1 = 2 ^ cl"
    and "binary z" "bin_val z < b * 2 ^ n"
  shows "binary (fold (verylong_round a cl) (rev [0..<n]) z) \<and> length (fold (verylong_round a cl) (rev [0..<n]) z) = length z \<and>
    bin_val (fold (verylong_round a cl) (rev [0..<n]) z) = bin_val z mod b"
  using assms(2,3,7,8)
proof (induction n arbitrary: z)
  case 0
  then show ?case by simp
next
  case (Suc n)
  note r = verylong_round_val[OF Suc.prems(3) assms(1) Suc.prems(1), of n cl b]
  have "n + cl \<le> length z" using Suc.prems(2) by simp
  with r Suc.prems(4) assms(5,6) have "binary (verylong_round a cl n z)" "length (verylong_round a cl n z) = length z"
    "bin_val (verylong_round a cl n z) < b * 2 ^ n" "bin_val (verylong_round a cl n z) mod b = bin_val z mod b" by simp_all
  then show ?case using Suc.IH[of "verylong_round a cl n z"] Suc.prems(1,2) by simp
qed

text \<open>Negation bit by bit, on loading and on storing.\<close>

lemma verylong_tally_val:
  assumes "binary zs" "c \<le> 1"
  shows "length (verylong_tally neg zs c) = length zs \<and> binary (verylong_tally neg zs c) \<and>
    (\<exists>d. bin_val (verylong_tally neg zs c) + 2 ^ length zs * d = (if neg then 2 ^ length zs - 1 - bin_val zs + c else bin_val zs))"
  using assms
proof (induction zs arbitrary: c)
  case Nil
  then show ?case by (auto intro: exI[of _ c])
next
  case (Cons z zs)
  have zs: "binary zs" "bin_val zs < 2 ^ length zs" "z \<le> 1" using Cons.prems bin_val_less by auto
  show ?case
  proof (cases neg)
    case False
    then obtain d where d: "bin_val (verylong_tally False zs c) + 2 ^ length zs * d = bin_val zs"
      and l: "length (verylong_tally False zs c) = length zs" "binary (verylong_tally False zs c)"
      using Cons.IH[OF zs(1) Cons.prems(2)] by auto
    have t: "verylong_tally neg (z # zs) c = z # verylong_tally False zs c" using False by (simp add: verylong_bit_def)
    have "bin_val (verylong_tally neg (z # zs) c) + 2 ^ length (z # zs) * d = bin_val (z # zs)"
      unfolding t by (simp add: d[symmetric] algebra_simps)
    then show ?thesis using False l t zs(3) by (auto simp del: verylong_tally.simps bin_val.simps)
  next
    case True
    define x where "x = 1 - z + c"
    have "x \<le> 2" "z + x = 1 + c" using zs(3) Cons.prems(2) by (simp_all add: x_def)
    then have x: "x div 2 \<le> 1" "x mod 2 + 2 * (x div 2) = x" by simp_all
    have c': "(if x div 2 \<noteq> 0 then 1 else 0) = x div 2" using x(1) by simp
    obtain d where d: "bin_val (verylong_tally True zs (x div 2)) + 2 ^ length zs * d = 2 ^ length zs - 1 - bin_val zs + x div 2"
      and l: "length (verylong_tally True zs (x div 2)) = length zs" "binary (verylong_tally True zs (x div 2))"
      using Cons.IH[OF zs(1) x(1)] True by auto
    have t: "verylong_tally neg (z # zs) c = x mod 2 # verylong_tally True zs (x div 2)"
      using True c' by (simp add: verylong_bit_def x_def Let_def)
    have "bin_val (verylong_tally neg (z # zs) c) + 2 ^ length (z # zs) * d = x mod 2 + 2 * (2 ^ length zs - 1 - bin_val zs + x div 2)"
      unfolding t d[symmetric] by (simp add: algebra_simps)
    also have "\<dots> = x mod 2 + 2 * (x div 2) + 2 * (2 ^ length zs - 1 - bin_val zs)" by (simp only: distrib_left ac_simps)
    also have "\<dots> = x + 2 * (2 ^ length zs - 1 - bin_val zs)" by (simp only: x(2))
    also have "\<dots> = 2 ^ length (z # zs) - 1 - bin_val (z # zs) + c"
    proof -
      obtain k where "2 ^ length zs = Suc (bin_val zs + k)" using less_imp_Suc_add[OF zs(2)] by blast
      then show ?thesis using \<open>z + x = 1 + c\<close> zs(3) by simp
    qed
    finally show ?thesis using True l t by (auto simp del: verylong_tally.simps bin_val.simps)
  qed
qed

lemma verylong_tally_neg:
  assumes "binary zs"
  shows "bin_val (verylong_tally neg zs (of_bool neg)) = (if neg then 2 ^ length zs - bin_val zs else bin_val zs) mod 2 ^ length zs"
proof -
  have c: "of_bool neg \<le> (1 :: nat)" by simp
  define L where "L = bin_val (verylong_tally neg zs (of_bool neg))"
  obtain d where d: "L + 2 ^ length zs * d = (if neg then 2 ^ length zs - 1 - bin_val zs + of_bool neg else bin_val zs)"
    and "length (verylong_tally neg zs (of_bool neg)) = length zs" "binary (verylong_tally neg zs (of_bool neg))"
    using verylong_tally_val[OF assms c, of neg] by (auto simp: L_def)
  then have "L < 2 ^ length zs" using bin_val_less by (fastforce simp: L_def)
  then have "(L + 2 ^ length zs * d) mod 2 ^ length zs = L" by simp
  moreover have "(if neg then 2 ^ length zs - 1 - bin_val zs + of_bool neg else bin_val zs) = (if neg then 2 ^ length zs - bin_val zs else bin_val zs)"
    using bin_val_less[OF assms] by (cases neg) simp_all
  ultimately show ?thesis unfolding d by (simp only: L_def)
qed

lemma verylong_load_tally:
  "verylong_load nl nr ps lc rc =
    (if \<exists>p\<in>set ps. bit4_is_xz (fst p) \<or> bit4_is_xz (snd p) then None
     else Some (verylong_tally nl (map (bit4_int \<circ> fst) ps) lc, map (\<lambda>b. 1 - b) (verylong_tally nr (map (bit4_int \<circ> snd) ps) rc)))"
  by (induction nl nr ps lc rc rule: verylong_load.induct) (auto simp: comp_def split: prod.splits)

lemma bin_val_complement: "binary zs \<Longrightarrow> bin_val (map (\<lambda>b. 1 - b) zs) + bin_val zs + 1 = 2 ^ length zs"
  by (induction zs) auto

lemma binary_complement: "binary (map (\<lambda>b. 1 - b) zs)"
  by (simp add: binary_def)

lemma bin_val_take:
  assumes "binary zs" "n \<le> length zs"
  shows "bin_val (take n zs) = bin_val zs mod 2 ^ n"
proof -
  have "length (take n zs) = n" using assms(2) by simp
  then have "bin_val zs = bin_val (take n zs) + 2 ^ n * bin_val (drop n zs)"
    using bin_val_append[of "take n zs" "drop n zs"] by simp
  moreover have "bin_val (take n zs) < 2 ^ n" using bin_val_less[OF binary_take_drop(1)[OF assms(1)], of n] \<open>length (take n zs) = n\<close> by simp
  ultimately show ?thesis by simp
qed

lemma bin_val_bits:
  "\<not> list_ex bit4_is_xz bs \<Longrightarrow> binary (map bit4_int bs) \<and> int (bin_val (map bit4_int bs)) = bits_num bs"
proof (induction bs)
  case Nil
  then show ?case by (simp add: bits_num_def)
next
  case (Cons b bs)
  have "bits_num (b # bs) = of_bool (b = BIT4_1) + 2 * bits_num bs"
  proof (rule bit_eqI)
    fix i
    have "(of_bool (b = BIT4_1) + 2 * bits_num bs) div 2 = bits_num bs" by simp
    moreover have "odd (of_bool (b = BIT4_1) + 2 * bits_num bs) \<longleftrightarrow> b = BIT4_1" by simp
    moreover have "bit (bits_num (b # bs)) i \<longleftrightarrow> i < Suc (length bs) \<and> (b # bs) ! i = BIT4_1" by (simp add: bit_bits_num)
    ultimately show "bit (bits_num (b # bs)) i = bit (of_bool (b = BIT4_1) + 2 * bits_num bs) i"
      by (cases i) (simp_all only: bit_0 bit_Suc bit_bits_num nth_Cons_0 nth_Cons_Suc zero_less_Suc Suc_less_eq simp_thms)
  qed
  then show ?case using Cons by (cases b) auto
qed

text \<open>The division proper, on the magnitudes.\<close>

lemma highest_Some: "highest P n = Some i \<Longrightarrow> i < n \<and> P i \<and> (\<forall>j. i < j \<and> j < n \<longrightarrow> \<not> P j)"
  using highest_props[where P = P and n = n] by simp

lemma highest_cong: "(\<And>i. i < n \<Longrightarrow> P i = Q i) \<Longrightarrow> highest P n = highest Q n"
  by (induction n) simp_all

lemma highest_None: "highest P n = None \<Longrightarrow> j < n \<Longrightarrow> \<not> P j"
  using highest_props[where P = P and n = n] by simp

lemma bin_val_replicate_0: "(\<And>z. z \<in> set zs \<Longrightarrow> z = 0) \<Longrightarrow> bin_val zs = 0"
  by (induction zs) auto

lemma highest_top:
  assumes "binary zs" "length zs = n"
  shows "case highest (\<lambda>i. zs ! i \<noteq> 0) n of None \<Rightarrow> bin_val zs = 0
    | Some m \<Rightarrow> m < n \<and> 2 ^ m \<le> bin_val zs \<and> bin_val zs < 2 ^ (m + 1)"
proof (cases "highest (\<lambda>i. zs ! i \<noteq> 0) n")
  case None
  then have "z = 0" if "z \<in> set zs" for z using that highest_None[OF None] assms(2) by (auto simp: in_set_conv_nth)
  then show ?thesis using None by (simp add: bin_val_replicate_0)
next
  case (Some m)
  note h = highest_Some[OF Some]
  have "zs ! m = 1" using h assms by (metis binary_def le_SucE le_zero_eq nth_mem One_nat_def)
  then show ?thesis using Some h bin_val_top[OF assms(1), of m] assms(2) by simp
qed

text \<open>The rounds leave the remainder of the magnitudes; \<open>bs\<close> are the bits of the divisor.\<close>

lemma verylong_core:
  assumes z: "binary zs" "length zs = n" and b: "binary bs" "length bs = n"
  defines "a \<equiv> map (\<lambda>b. 1 - b) bs @ [1]"
  shows "case highest (\<lambda>i. a ! i = 0) n of
      None \<Rightarrow> bin_val bs = 0
    | Some ma \<Rightarrow> bin_val bs \<noteq> 0 \<and>
       (\<forall>z'. z' = (case highest (\<lambda>i. (zs @ [0]) ! i \<noteq> 0) n of
            None \<Rightarrow> zs @ [0]
          | Some mz \<Rightarrow> if ma > mz then zs @ [0] else fold (verylong_round a (ma + 2)) (rev [0..<Suc (mz - ma)]) (zs @ [0])) \<longrightarrow>
        binary z' \<and> length z' = n + 1 \<and> bin_val z' = bin_val zs mod bin_val bs)"
proof -
  have P: "highest (\<lambda>i. a ! i = 0) n = highest (\<lambda>i. bs ! i \<noteq> 0) n"
  proof (rule highest_cong)
    fix i assume "i < n"
    moreover then have "bs ! i \<le> 1" using b by (auto simp: binary_def)
    ultimately show "(a ! i = 0) = (bs ! i \<noteq> 0)" using b(2) by (auto simp: a_def nth_append)
  qed
  have Q: "highest (\<lambda>i. (zs @ [0]) ! i \<noteq> 0) n = highest (\<lambda>i. zs ! i \<noteq> 0) n"
    by (rule highest_cong) (simp add: nth_append z(2))
  show ?thesis
  proof (cases "highest (\<lambda>i. bs ! i \<noteq> 0) n")
    case None
    then show ?thesis using highest_top[OF b] unfolding P by simp
  next
    case (Some ma)
    then have ma: "ma < n" "2 ^ ma \<le> bin_val bs" "bin_val bs < 2 ^ (ma + 1)" using highest_top[OF b] by simp_all
    have b0: "0 < bin_val bs" using ma(2) by (metis gr0I not_le zero_less_numeral zero_less_power)
    have v0: "bin_val (zs @ [0]) = bin_val zs" by (simp add: bin_val_append)
    have base: "binary (zs @ [0])" "length (zs @ [0]) = n + 1" using z by simp_all
    have small: "binary (zs @ [0]) \<and> length (zs @ [0]) = n + 1 \<and> bin_val (zs @ [0]) = bin_val zs mod bin_val bs" if "bin_val zs < bin_val bs"
      using that base v0 by simp
    have "binary z' \<and> length z' = n + 1 \<and> bin_val z' = bin_val zs mod bin_val bs"
      if z': "z' = (case highest (\<lambda>i. zs ! i \<noteq> 0) n of None \<Rightarrow> zs @ [0]
          | Some mz \<Rightarrow> if ma > mz then zs @ [0] else fold (verylong_round a (ma + 2)) (rev [0..<Suc (mz - ma)]) (zs @ [0]))" for z'
    proof (cases "highest (\<lambda>i. zs ! i \<noteq> 0) n")
      case None
      then have "bin_val zs = 0" using highest_top[OF z] by simp
      then show ?thesis using z' None small b0 by simp
    next
      case (Some mz)
      then have mz: "mz < n" "bin_val zs < 2 ^ (mz + 1)" using highest_top[OF z] by simp_all
      show ?thesis
      proof (cases "ma > mz")
        case True
        then have "(2 :: nat) ^ (mz + 1) \<le> 2 ^ ma" by (intro power_increasing) simp_all
        then have "bin_val zs < bin_val bs" using mz(2) ma(2) by linarith
        then show ?thesis using z' Some True small by simp
      next
        case False
        have A: "binary a" "length a = length (zs @ [0])" using b z binary_complement[of bs] by (simp_all add: a_def)
        have take: "bin_val (take (ma + 2) a) + bin_val bs + 1 = 2 ^ (ma + 2)"
        proof -
          define u where "u = take (ma + 2) (bs @ [0])"
          have "take (ma + 2) a = map (\<lambda>b. 1 - b) u" by (simp add: a_def u_def take_map take_Cons')
          moreover have "binary u" unfolding u_def using b(1) by (intro binary_take_drop) simp
          moreover have "length u = ma + 2" using ma(1) b(2) by (simp add: u_def)
          moreover have "bin_val u = bin_val bs"
          proof -
            have "bin_val bs < 2 ^ (ma + 2)" using ma(3) by simp
            then show ?thesis using bin_val_take[of "bs @ [0]" "ma + 2"] b ma(1) unfolding u_def by (simp add: bin_val_append)
          qed
          ultimately show ?thesis using bin_val_complement[of u] by simp
        qed
        have "bin_val (zs @ [0]) < bin_val bs * 2 ^ Suc (mz - ma)"
        proof -
          have "(2 :: nat) ^ (mz + 1) = 2 ^ ma * 2 ^ Suc (mz - ma)" using False by (simp flip: power_add)
          also have "\<dots> \<le> bin_val bs * 2 ^ Suc (mz - ma)" by (rule mult_le_mono1[OF ma(2)])
          finally show ?thesis using mz(2) v0 by simp
        qed
        moreover have "Suc (mz - ma) + (ma + 2) \<le> length (zs @ [0]) + 1" using False mz(1) z(2) by simp
        moreover have "2 * bin_val bs \<le> 2 ^ (ma + 2)" using ma(3) by simp
        ultimately have "binary (fold (verylong_round a (ma + 2)) (rev [0..<Suc (mz - ma)]) (zs @ [0])) \<and>
            length (fold (verylong_round a (ma + 2)) (rev [0..<Suc (mz - ma)]) (zs @ [0])) = length (zs @ [0]) \<and>
            bin_val (fold (verylong_round a (ma + 2)) (rev [0..<Suc (mz - ma)]) (zs @ [0])) = bin_val (zs @ [0]) mod bin_val bs"
          using verylong_rounds_val[OF A _ b0 _ take base(1)] by blast
        then show ?thesis using z' Some False v0 base(2) by (simp del: upt_Suc)
      qed
    qed
    then show ?thesis unfolding P Q Some using b0 by simp
  qed
qed

lemma do_verylong_mod_bits:
  assumes "vec4_wf l" "vec_size l = w" "vec_size r = w" "0 < w"
    and signs: "if sf then nl = (vec4_value l (w - 1) = BIT4_1) \<and> nr = (vec4_value r (w - 1) = BIT4_1) else \<not> nl \<and> \<not> nr"
  shows "\<exists>v. do_verylong_mod l r nl nr = Some v \<and> vec4_wf v \<and> vec4_bits v = mod_result sf w (vec4_bits l) (vec4_bits r)"
proof -
  define ps where "ps = map (\<lambda>idx. (vec4_value l idx, vec4_value r idx)) [0..<w]"
  have ps: "map (bit4_int \<circ> fst) ps = map bit4_int (vec4_bits l)" "map (bit4_int \<circ> snd) ps = map bit4_int (vec4_bits r)"
    using assms(2,3) by (simp_all add: ps_def vec4_bits_def)
  have xz: "(\<exists>p\<in>set ps. bit4_is_xz (fst p) \<or> bit4_is_xz (snd p)) \<longleftrightarrow> list_ex bit4_is_xz (vec4_bits l @ vec4_bits r)"
    using assms(2,3) by (auto simp: ps_def list_ex_iff vec4_bits_def)
  note load = verylong_load_tally[of nl nr ps "of_bool nl" "of_bool nr", unfolded xz ps]
  show ?thesis
  proof (cases "list_ex bit4_is_xz (vec4_bits l @ vec4_bits r)")
    case True
    then show ?thesis using load x_vector[of w] assms(2) by (simp add: do_verylong_mod_def ps_def mod_result_def)
  next
    case False
    let ?a = "bits_num (vec4_bits l)" and ?b = "bits_num (vec4_bits r)"
    define A B where "A = (if sf then bits_snum (vec4_bits l) else ?a)" and "B = (if sf then bits_snum (vec4_bits r) else ?b)"
    have known: "\<not> list_ex bit4_is_xz (vec4_bits l)" "\<not> list_ex bit4_is_xz (vec4_bits r)" using False by simp_all
    define zs bs where "zs = verylong_tally nl (map bit4_int (vec4_bits l)) (of_bool nl)"
      and "bs = verylong_tally nr (map bit4_int (vec4_bits r)) (of_bool nr)"
    have mag: "int (bin_val (verylong_tally ng (map bit4_int (vec4_bits v)) (of_bool ng))) = \<bar>if sf then bits_snum (vec4_bits v) else bits_num (vec4_bits v)\<bar> \<and>
        binary (verylong_tally ng (map bit4_int (vec4_bits v)) (of_bool ng)) \<and>
        length (verylong_tally ng (map bit4_int (vec4_bits v)) (of_bool ng)) = w \<and>
        (sf \<longrightarrow> (ng \<longleftrightarrow> bits_snum (vec4_bits v) < 0)) \<and> (\<not> sf \<longrightarrow> \<not> ng)"
      if v: "\<not> list_ex bit4_is_xz (vec4_bits v)" "vec_size v = w" "if sf then ng = (vec4_value v (w - 1) = BIT4_1) else \<not> ng" for v ng
    proof -
      note b = bin_val_bits[OF v(1)]
      have len: "length (map bit4_int (vec4_bits v)) = w" using v(2) by simp
      have t: "length (verylong_tally ng (map bit4_int (vec4_bits v)) (of_bool ng)) = w"
        "binary (verylong_tally ng (map bit4_int (vec4_bits v)) (of_bool ng))"
        using verylong_tally_val[of "map bit4_int (vec4_bits v)" "of_bool ng" ng] b len by simp_all
      have val: "bin_val (verylong_tally ng (map bit4_int (vec4_bits v)) (of_bool ng)) =
          (if ng then 2 ^ w - bin_val (map bit4_int (vec4_bits v)) else bin_val (map bit4_int (vec4_bits v))) mod 2 ^ w"
        using verylong_tally_neg[of "map bit4_int (vec4_bits v)" ng] b len by simp
      have lt: "bin_val (map bit4_int (vec4_bits v)) < 2 ^ w" using bin_val_less b len by metis
      note s = snum_top[OF v(1), unfolded v(2), OF assms(4)]
      have pos: "0 < bin_val (map bit4_int (vec4_bits v))" if "vec4_value v (w - 1) = BIT4_1"
      proof -
        have "(0 :: int) < 2 ^ (w - 1)" by simp
        then show ?thesis using s that b by linarith
      qed
      have "(2 ^ w - bin_val (map bit4_int (vec4_bits v))) mod 2 ^ w = 2 ^ w - bin_val (map bit4_int (vec4_bits v))"
        if "vec4_value v (w - 1) = BIT4_1" using pos[OF that] by simp
      then show ?thesis using t val v(3) s b lt num_range[of v] v(2) by (auto simp: of_nat_diff split: if_splits)
    qed
    note MGL = mag[OF known(1) assms(2)] and MGR = mag[OF known(2) assms(3)]
    have sg: "if sf then nl = (vec4_value l (w - 1) = BIT4_1) else \<not> nl" "if sf then nr = (vec4_value r (w - 1) = BIT4_1) else \<not> nr"
      using signs by (cases sf; simp)+
    have Z: "int (bin_val zs) = \<bar>A\<bar>" "binary zs" "length zs = w" using MGL[OF sg(1)] by (simp_all only: zs_def A_def)
    have B: "int (bin_val bs) = \<bar>B\<bar>" "binary bs" "length bs = w" using MGR[OF sg(2)] by (simp_all only: bs_def B_def)
    have neg: "nl \<longleftrightarrow> A < 0" using MGL[OF sg(1)] num_range[of l] by (cases sf) (simp_all add: A_def)
    have Bzero: "bin_val bs = 0 \<longleftrightarrow> ?b = 0"
      using B(1) snum_zero[of "vec4_bits r" w] assms(3,4) by (auto simp: B_def split: if_splits)
    note core = verylong_core[OF Z(2,3) B(2,3)]
    have loaded: "verylong_load nl nr ps (of_bool nl) (of_bool nr) = Some (zs, map (\<lambda>b. 1 - b) bs)"
      using load False by (simp add: zs_def bs_def)
    show ?thesis
    proof (cases "highest (\<lambda>i. (map (\<lambda>b. 1 - b) bs @ [1]) ! i = 0) w")
      case None
      then have "?b = 0" using core Bzero by simp
      then show ?thesis
        using loaded None x_vector[of w] assms(2) by (simp add: do_verylong_mod_def ps_def mod_result_def Let_def)
    next
      case (Some ma)
      define z' where "z' = (case highest (\<lambda>i. (zs @ [0]) ! i \<noteq> 0) w of
            None \<Rightarrow> zs @ [0]
          | Some mz \<Rightarrow> if ma > mz then zs @ [0]
             else fold (verylong_round (map (\<lambda>b. 1 - b) bs @ [1]) (ma + 2)) (rev [0..<Suc (mz - ma)]) (zs @ [0]))"
      have z': "binary z'" "length z' = w + 1" "bin_val z' = bin_val zs mod bin_val bs" and nz: "bin_val bs \<noteq> 0"
        using core Some z'_def by auto
      define out where "out = verylong_tally nl (take w z') (of_bool nl)"
      have code: "do_verylong_mod l r nl nr =
          foldM (\<lambda>idx tmp. vec4_set_bit tmp idx (if out ! idx \<noteq> 0 then BIT4_1 else BIT4_0)) [0..<w] (vec4_new w BIT4_X)"
        unfolding do_verylong_mod_def Let_def assms(2) ps_def[symmetric] loaded option.case prod.case Some out_def z'_def by (rule refl)
      have "bin_val bs \<le> 2 ^ w" using bin_val_less[OF B(2)] B(3) by simp
      then have "bin_val z' < 2 ^ w" using z'(3) nz by (metis mod_less_divisor neq0_conv order_less_le_trans)
      then have tv: "bin_val (take w z') = bin_val zs mod bin_val bs" using bin_val_take[OF z'(1), of w] z'(2,3) by simp
      have tb: "binary (take w z')" "length (take w z') = w" using z'(1,2) binary_take_drop(1) by simp_all
      have ob: "binary out" "length out = w" using verylong_tally_val[OF tb(1), of "of_bool nl" nl] tb(2) by (simp_all add: out_def)
      have m: "int (bin_val zs mod bin_val bs) = \<bar>A\<bar> mod \<bar>B\<bar>" using Z(1) B(1) by (simp add: zmod_int)
      have "int (bin_val out) = take_bit w (if A < 0 then - (\<bar>A\<bar> mod \<bar>B\<bar>) else \<bar>A\<bar> mod \<bar>B\<bar>)"
      proof -
        have lt: "bin_val (take w z') < 2 ^ w" using bin_val_less[OF tb(1)] tb(2) by simp
        have "int (bin_val out) = (if nl then 2 ^ w - int (bin_val (take w z')) else int (bin_val (take w z'))) mod 2 ^ w"
          unfolding out_def verylong_tally_neg[OF tb(1)] tb(2) using lt by (simp add: zmod_int of_nat_diff)
        moreover have "(2 ^ w - x) mod 2 ^ w = (- x) mod 2 ^ w" for x :: int by (metis diff_0 mod_diff_left_eq mod_self)
        ultimately show ?thesis unfolding tv m neg by (simp add: take_bit_eq_mod)
      qed
      then have val: "int (bin_val out) = take_bit w (A smod B)" unfolding signed_by_magnitude(2) .
      have bits: "out ! i \<noteq> 0 \<longleftrightarrow> bit (A smod B) i" if "i < w" for i
      proof -
        have "out ! i \<le> 1" using ob that by (auto simp: binary_def)
        then have "out ! i \<noteq> 0 \<longleftrightarrow> bit (int (bin_val out)) i"
          using bit_bin_val[OF ob(1), of i] ob(2) that by (auto simp: bit_of_nat_iff_bit)
        then show ?thesis using val that by (simp add: bit_take_bit_iff)
      qed
      have "A smod B = (if sf then bits_snum (vec4_bits l) smod bits_snum (vec4_bits r) else ?a mod ?b)"
        using num_range[of l] num_range[of r] by (auto simp: A_def B_def signed_modulo_int_def sgn_if)
      then have "mod_result sf w (vec4_bits l) (vec4_bits r) = num_bits w (A smod B)"
        using False nz Bzero by (simp add: mod_result_def)
      moreover have "num_bits w (A smod B) = map (\<lambda>i. if out ! i \<noteq> 0 then BIT4_1 else BIT4_0) [0..<w]"
        using bits by (simp add: num_bits_def)
      ultimately show ?thesis
        using vec4_fill_loop[of "vec4_new w BIT4_X" w "\<lambda>i. if out ! i \<noteq> 0 then BIT4_1 else BIT4_0"] code
        by (auto simp: vec4_new_wf)
    qed
  qed
qed

lemma mod_vectors_bits:
  assumes "vec4_wf l" "vec_size l = w" "vec_size r = w" "0 < w"
  shows "\<exists>v. (if sf then mod_signed_vectors l r else mod_vectors l r) = Some v \<and> vec4_wf v \<and>
    vec4_bits v = mod_result sf w (vec4_bits l) (vec4_bits r)"
  using mod_word_bits[OF assms] mod_signed_word_bits[OF assms] assms(2,3)
    do_verylong_mod_bits[OF assms, of sf "sf \<and> vec4_value l (w - 1) = BIT4_1" "sf \<and> vec4_value r (w - 1) = BIT4_1"]
  by (cases sf; cases "w \<le> 64") (simp_all add: mod_vectors_def mod_signed_vectors_def)

end
