(* ===== verification/Thread_Pow.thy ===== *)
theory Thread_Pow
  imports Thread_Mod
begin

text \<open>
  The power opcodes of \<open>Thread_Ops\<close>. Unlike the functor of \<open>Arith\<close>, they find the bases 0, 1 and -1 of a
  negative exponent at every width.
\<close>

section \<open>The bases that are treated apart\<close>

lemma words_val_0_iff: "words_val ws = 0 \<longleftrightarrow> (\<forall>w\<in>set ws. w = 0)"
  by (induction ws) (auto simp: unat_eq_0)

lemma vec2_is_zero_num: "vec2_ok v \<Longrightarrow> vec2_is_zero v \<longleftrightarrow> vec2_num v = 0"
  by (auto simp: vec2_is_zero_def vec2_num_def words_val_0_iff vec2_ok_def list_all_iff in_set_conv_nth Ball_def)

lemma vec2_is_one_num:
  assumes "vec2_ok v" "0 < v2_size v"
  shows "vec2_is_one v = Some (vec2_num v = 1)"
proof -
  obtain w ws where v: "v2_vec v = w # ws" using assms by (cases "v2_vec v") (auto simp: vec2_ok_def)
  then have len: "word_count (v2_size v) = Suc (length ws)" using assms(1) by (simp add: vec2_ok_def)
  have tl: "list_all (\<lambda>idx. v2_vec v ! idx = 0) [1..<word_count (v2_size v)] \<longleftrightarrow> (\<forall>x\<in>set ws. x = 0)"
  proof -
    have "list_all P [1..<Suc n] = list_all (\<lambda>i. P (Suc i)) [0..<n]" for P n
      unfolding One_nat_def map_Suc_upt[symmetric] list.pred_map by (simp add: comp_def)
    then show ?thesis unfolding len v by (auto simp: list_all_iff all_set_conv_all_nth)
  qed
  have "vec2_num v = 1 \<longleftrightarrow> w = 1 \<and> words_val ws = 0"
  proof
    assume "vec2_num v = 1"
    then have "unat w + 2 ^ 64 * words_val ws = 1" by (simp add: vec2_num_def v)
    then have "words_val ws = 0 \<and> unat w = 1" by (cases "words_val ws") simp_all
    then show "w = 1 \<and> words_val ws = 0" by (metis unat_1 word_unat_eq_iff)
  qed (simp add: vec2_num_def v)
  then show ?thesis using assms(2) tl by (auto simp: vec2_is_one_def v words_val_0_iff)
qed

lemma nat_all_ones_iff:
  fixes x :: nat
  assumes "x < 2 ^ n"
  shows "x = 2 ^ n - 1 \<longleftrightarrow> (\<forall>i<n. bit x i)"
proof -
  have "x = mask n \<longleftrightarrow> (\<forall>i<n. bit x i)"
    using assms by (auto simp: bit_eq_iff bit_mask_iff nat_less_exp_iff) (metis not_le)
  then show ?thesis by (simp add: mask_eq_exp_minus_1)
qed

lemma vec2_is_all_one_num:
  assumes "vec2_clean v" "0 < v2_size v"
  shows "vec2_is_all_one v = Some (vec2_num v = 2 ^ v2_size v - 1)"
proof -
  let ?n = "v2_size v" and ?k = "(v2_size v - 1) div 64"
  have ok: "vec2_ok v" using assms(1) by (simp add: vec2_clean_def)
  have k: "64 * ?k < ?n" using assms(2) by (metis Suc_pred' div_mult_self_is_m less_Suc_eq_le mult.commute times_div_less_eq_dividend)
  have len: "?k < length (v2_vec v)" using ok div_less_word_count[of "?n - 1" ?n] assms(2) by (simp add: vec2_ok_def)
  have word: "(v2_vec v ! j = - 1) \<longleftrightarrow> (\<forall>m<64. bit (vec2_num v) (64 * j + m))" if "j < ?k" for j
    using that len by (auto simp: u64_eq_iff vec2_num_def bit_words_val_at bit_minus_1_iff)
  have val: "vec2_value v i = 1 \<longleftrightarrow> bit (vec2_num v) i" if "i < ?n" for i using vec2_value_bit[OF ok, of i] that by simp
  have "(\<forall>j<?k. v2_vec v ! j = - 1) \<and> (\<forall>i. 64 * ?k \<le> i \<and> i < ?n \<longrightarrow> vec2_value v i = 1) \<longleftrightarrow> (\<forall>i<?n. bit (vec2_num v) i)"
  proof
    assume L: "(\<forall>j<?k. v2_vec v ! j = - 1) \<and> (\<forall>i. 64 * ?k \<le> i \<and> i < ?n \<longrightarrow> vec2_value v i = 1)"
    show "\<forall>i<?n. bit (vec2_num v) i"
    proof (intro allI impI)
      fix i assume i: "i < ?n"
      show "bit (vec2_num v) i"
      proof (cases "64 * ?k \<le> i")
        case True
        then show ?thesis using L i val by simp
      next
        case False
        then have "i div 64 < ?k" by (simp add: div_less_iff_less_mult mult.commute)
        then have "\<forall>m<64. bit (vec2_num v) (64 * (i div 64) + m)" using L word[of "i div 64"] by blast
        moreover have "i mod 64 < 64" by simp
        ultimately have "bit (vec2_num v) (64 * (i div 64) + i mod 64)" by blast
        then show ?thesis by (simp only: mult_div_mod_eq)
      qed
    qed
  next
    assume R: "\<forall>i<?n. bit (vec2_num v) i"
    have "64 * j + m < ?n" if "j < ?k" "m < 64" for j m
    proof -
      have "64 * j + m < 64 * Suc j" using that by simp
      also have "\<dots> \<le> 64 * ?k" using that by simp
      finally show ?thesis using k by simp
    qed
    then show "(\<forall>j<?k. v2_vec v ! j = - 1) \<and> (\<forall>i. 64 * ?k \<le> i \<and> i < ?n \<longrightarrow> vec2_value v i = 1)" using R word val by simp
  qed
  then show ?thesis
    using assms nat_all_ones_iff[of "vec2_num v" ?n]
    by (auto simp: vec2_is_all_one_def Let_def list_all_iff vec2_clean_def mult.commute)
qed

section \<open>Power\<close>

definition power_result :: "bool \<Rightarrow> nat \<Rightarrow> vvp_bit4_t list \<Rightarrow> vvp_bit4_t list \<Rightarrow> vvp_bit4_t list" where
  "power_result sf w xs ys =
     (if list_ex bit4_is_xz (xs @ ys) then replicate w BIT4_X
      else if sf \<and> bits_snum ys < 0 then
        (if bits_snum xs = 0 then replicate w BIT4_X
         else num_bits w (if bits_snum xs = 1 then 1 else if bits_snum xs = - 1 then (if odd (bits_num ys) then - 1 else 1) else 0))
      else num_bits w (bits_num xs ^ nat (bits_num ys)))"

lemma pad_lsb_bits:
  assumes "0 < w"
  shows "\<exists>v. vec4_set_bit (vec4_new w pad) 0 lsb = Some v \<and> vec4_wf v \<and> vec4_bits v = lsb # replicate (w - 1) pad"
proof -
  obtain v where v: "vec4_set_bit (vec4_new w pad) 0 lsb = Some v" "vec4_wf v" "vec_size v = w"
    "\<forall>j<w. vec4_value v j = (if j = 0 then lsb else vec4_value (vec4_new w pad) j)"
    using vec4_set_bit_correct[of "vec4_new w pad" 0 lsb] assms by (auto simp: vec4_new_wf)
  have "vec4_bits v = lsb # replicate (w - 1) pad"
    using v(3,4) assms by (simp add: list_eq_iff_nth_eq vec4_value_new nth_Cons')
  then show ?thesis using v by blast
qed

lemma small_num_bits:
  assumes "0 < w"
  shows "num_bits w 0 = BIT4_0 # replicate (w - 1) BIT4_0" "num_bits w 1 = BIT4_1 # replicate (w - 1) BIT4_0"
    "num_bits w (- 1) = BIT4_1 # replicate (w - 1) BIT4_1" "replicate w BIT4_X = BIT4_X # replicate (w - 1) BIT4_X"
  using assms by (simp_all add: list_eq_iff_nth_eq nth_Cons' bit_1_iff bit_minus_1_iff)

lemma pow_negative_bits:
  assumes l: "vec4_wf l" "vec_size l = w" "0 < w" "\<not> list_ex bit4_is_xz (vec4_bits l)"
    and x: "vec2_clean x" "v2_size x = w" "int (vec2_num x) = bits_num (vec4_bits l)"
    and y: "vec2_ok y" "0 < v2_size y" "int (vec2_num y) = bits_num ys"
  shows "\<exists>v. pow_negative w x y = Some v \<and> vec4_wf v \<and>
    vec4_bits v = (if bits_snum (vec4_bits l) = 0 then replicate w BIT4_X
         else num_bits w (if bits_snum (vec4_bits l) = 1 then 1
            else if bits_snum (vec4_bits l) = - 1 then (if odd (bits_num ys) then - 1 else 1) else 0))"
proof -
  let ?s = "bits_snum (vec4_bits l)" and ?n = "bits_num (vec4_bits l)"
  have okx: "vec2_ok x" using x(1) by (simp add: vec2_clean_def)
  have odd: "vec2_value y 0 \<noteq> 0 \<longleftrightarrow> odd (bits_num ys)" unfolding vec2_value_0[OF y(1,2)] by (simp flip: y(3))
  obtain fits a_val where v: "vector2_to_value x True = (fits, a_val)" by (meson surj_pair)
  have "signed_take_bit (w - 1) (int (vec2_num x)) = ?s" using x(3) l(2) by (simp add: bits_snum_def)
  then have val: "fits \<longleftrightarrow> w \<le> 32" "w \<le> 32 \<Longrightarrow> a_val = word_of_int ?s"
    using vector2_to_value_signed[OF x(1)] x(2) l(3) v by auto
  have pos: "0 < vec_size l" using l(2,3) by simp
  have small: "w \<le> 32 \<Longrightarrow> (a_val = 0 \<longleftrightarrow> ?s = 0) \<and> (a_val = 1 \<longleftrightarrow> ?s = 1) \<and> (a_val = - 1 \<longleftrightarrow> ?s = - 1)"
  proof -
    assume w: "w \<le> 32"
    have "\<bar>?s\<bar> \<le> 2 ^ (w - 1)" using snum_bounds[OF l(4) pos] l(2) by simp
    also have "(2 :: int) ^ (w - 1) \<le> 2 ^ 31" using w by (intro power_increasing) simp_all
    finally have "\<bar>?s\<bar> \<le> 2 ^ 31" .
    from word32_of_small[OF this, of 0] word32_of_small[OF this, of 1] word32_of_small[OF this, of "- 1"]
    show ?thesis using val(2)[OF w] by simp
  qed
  have wide: "32 < w \<Longrightarrow> (vec2_num x = 0 \<longleftrightarrow> ?s = 0) \<and> (vec2_num x = 1 \<longleftrightarrow> ?s = 1) \<and> (vec2_num x = 2 ^ w - 1 \<longleftrightarrow> ?s = - 1)"
  proof -
    assume w: "32 < w"
    have p: "(4 :: int) \<le> 2 ^ (w - 1)" "(2 :: int) ^ w = 2 * 2 ^ (w - 1)"
      using power_increasing[of 2 "w - 1" "2 :: int"] w by (simp_all flip: power_Suc)
    have sn: "?s = (if 2 ^ (w - 1) \<le> ?n then ?n - 2 ^ w else ?n)" using snum_top[OF l(4) pos] l(2) by auto
    have "vec2_num x = 2 ^ w - 1 \<longleftrightarrow> ?n = 2 ^ w - 1"
    proof -
      have "vec2_num x = 2 ^ w - 1 \<longleftrightarrow> int (vec2_num x) = int (2 ^ w - 1)" by (simp only: of_nat_eq_iff)
      then show ?thesis using x(3) by (simp add: of_nat_diff)
    qed
    moreover have "vec2_num x = 0 \<longleftrightarrow> ?n = 0" "vec2_num x = 1 \<longleftrightarrow> ?n = 1" unfolding x(3)[symmetric] by simp_all
    ultimately show ?thesis using num_range[of l] p l(2) unfolding sn by auto
  qed
  define fill where "fill = (if ?s = 0 then (BIT4_X, BIT4_X) else if ?s = 1 then (BIT4_0, BIT4_1)
      else if ?s = - 1 then (if odd (bits_num ys) then (BIT4_1, BIT4_1) else (BIT4_0, BIT4_1)) else (BIT4_0, BIT4_0))"
  have "pow_negative w x y = (case fill of (pad, lsb) \<Rightarrow> vec4_set_bit (vec4_new w pad) 0 lsb)"
  proof (cases "w \<le> 32")
    case True
    then show ?thesis using small[OF True] v val(1) odd by (auto simp: pow_negative_def fill_def Let_def)
  next
    case False
    then have "32 < w" by simp
    then show ?thesis
      using wide v val(1) odd l(3) x(2) vec2_is_zero_num[OF okx] vec2_is_one_num[OF okx] vec2_is_all_one_num[OF x(1)]
      by (auto simp: pow_negative_def fill_def)
  qed
  then show ?thesis
    using pad_lsb_bits[OF l(3), of "fst fill" "snd fill"] small_num_bits[OF l(3)] by (auto simp: fill_def)
qed

lemma pow_vectors_bits:
  assumes l: "vec4_wf l" "vec_size l = w" "0 < w" and r: "vec4_wf r" "0 < vec_size r"
  shows "\<exists>v. pow_vectors sf l r = Some v \<and> vec4_wf v \<and> vec4_bits v = power_result sf w (vec4_bits l) (vec4_bits r)"
proof -
  let ?x = "bits_num (vec4_bits l)" and ?y = "bits_num (vec4_bits r)" and ?sy = "bits_snum (vec4_bits r)" and ?m = "vec_size r"
  have pos: "0 < vec_size l" using l(2,3) by simp
  note a = vec2_of_vec4[OF l(1) pos] and b = vec2_of_vec4[OF r]
  show ?thesis
  proof (cases "list_ex bit4_is_xz (vec4_bits l @ vec4_bits r)")
    case True
    have "\<exists>a2 b2. vec2_from_vec4 l True = Some a2 \<and> vec2_from_vec4 r True = Some b2 \<and> (vec2_is_NaN a2 \<or> vec2_is_NaN b2)"
      using a b True by (auto simp: vec2_is_NaN_def vec2_null_def split: if_splits)
    then have "pow_vectors sf l r = Some (vec4_new w BIT4_X)" using l(2) by (auto simp: pow_vectors_def)
    then show ?thesis using x_vector[of w] True by (simp add: power_result_def)
  next
    case False
    then have known: "\<not> list_ex bit4_is_xz (vec4_bits l)" "\<not> list_ex bit4_is_xz (vec4_bits r)" by simp_all
    obtain a2 b2 where u: "vec2_from_vec4 l True = Some a2" "vec2_clean a2" "v2_size a2 = w" "int (vec2_num a2) = ?x"
      "vec2_from_vec4 r True = Some b2" "vec2_clean b2" "v2_size b2 = ?m" "int (vec2_num b2) = ?y"
      using a b known l(2) by auto
    have ok: "vec2_ok b2" "vec2_ok a2" using u by (simp_all add: vec2_clean_def)
    have NaN: "\<not> vec2_is_NaN a2" "\<not> vec2_is_NaN b2" using u l(3) r(2) by (simp_all add: vec2_is_NaN_def)
    have "vec2_value b2 (?m - 1) \<noteq> 0 \<longleftrightarrow> vec4_value r (?m - 1) = BIT4_1"
      using vec2_value_bit[OF ok(1), of "?m - 1"] u(7) r(2) bit_bits_num[of "vec4_bits r" "?m - 1"]
      by (simp add: bit_of_nat_iff_bit flip: u(8))
    then have top: "vec2_value b2 (v2_size b2 - 1) \<noteq> 0 \<longleftrightarrow> ?sy < 0"
      using snum_top[OF known(2) r(2)] num_range[of r] u(7) by (auto split: if_splits)
    show ?thesis
    proof (cases "sf \<and> ?sy < 0")
      case neg: True
      have sizey: "0 < v2_size b2" using u(7) r(2) by simp
      have "pow_vectors sf l r = pow_negative w a2 b2" using u(1,5) NaN neg top l(2) by (simp add: pow_vectors_def)
      then show ?thesis
        using pow_negative_bits[OF l known(1) u(2-4) ok(1) sizey u(8)] neg False by (simp add: power_result_def)
    next
      case neg: False
      obtain q y' where q: "vec2_pow a2 b2 = Some (q, y')" "v2_size q = w" "vec2_ok q" "vec2_num q = vec2_num a2 ^ vec2_num b2 mod 2 ^ (64 * word_count w)"
        using vec2_pow_num[OF ok(2) _ u(6)] u(3) l(3) by auto
      let ?f = "\<lambda>jdx. if jdx \<ge> v2_size q then BIT4_0 else if vec2_value q jdx \<noteq> 0 then BIT4_1 else BIT4_0"
      have code: "pow_vectors sf l r = foldM (\<lambda>jdx v. vec4_set_bit v jdx (?f jdx)) [0..<w] l"
        using u(1,5) NaN neg top q(1) l(2) by (cases sf) (simp_all add: pow_vectors_def)
      have "vec2_value q i \<noteq> 0 \<longleftrightarrow> bit (int (vec2_num q)) i" if "i < w" for i
        using vec2_value_bit[OF q(3), of i] q(2) that by (simp add: bit_of_nat_iff_bit)
      then have "map ?f [0..<w] = num_bits w (int (vec2_num q))" using q(2) by (simp add: num_bits_def)
      moreover have "int (vec2_num q) = ?x ^ nat ?y mod 2 ^ (64 * word_count w)" using q(4) by (simp add: zmod_int flip: u(4,8))
      then have "num_bits w (int (vec2_num q)) = num_bits w (?x ^ nat ?y)" using num_bits_mod_more[OF word_count_bound] by simp
      ultimately have bits: "map ?f [0..<w] = power_result sf w (vec4_bits l) (vec4_bits r)" unfolding power_result_def if_not_P[OF neg] using False by simp
      have "w = vec_size l" using l(2) by simp
      then show ?thesis using vec4_fill_loop[OF l(1), of w ?f] code bits by auto
    qed
  qed
qed

end
