(* ===== verification/Thread_Bits.thy ===== *)
theory Thread_Bits
  imports Thread_Pow
begin

text \<open>
  What the opcodes of \<open>Thread_Ops\<close> on single bits compute: immediate operands, bitwise and reduction
  operators, concatenation, padding, part selects and shifts, as functions of the bits of their operands.
\<close>

section \<open>Immediate operands\<close>

definition immediate_bits :: "32 word \<Rightarrow> 32 word \<Rightarrow> nat \<Rightarrow> vvp_bit4_t list" where
  "immediate_bits vala valb wid = map (\<lambda>i. bit4_ab (bit vala i) (bit valb i)) [0..<wid]"

lemma length_immediate_bits [simp]: "length (immediate_bits vala valb wid) = wid"
  by (simp add: immediate_bits_def)

lemma immediate_code:
  "(let ba = push_bit 1 (valb AND 1) OR (vala AND 1 :: 32 word)
    in ba \<noteq> 0 \<longleftrightarrow> bit4_ab (bit vala 0) (bit valb 0) \<noteq> BIT4_0) \<and>
   bit4_cast (unat (push_bit 1 (valb AND 1) OR (vala AND 1 :: 32 word))) = bit4_ab (bit vala 0) (bit valb 0)"
proof -
  have "x AND 1 = of_bool (bit x 0)" for x :: "32 word" by (simp add: and_one_eq bit_0 odd_iff_mod_2_eq_one)
  then show ?thesis by (cases "bit vala 0"; cases "bit valb 0") (simp_all add: bit4_cast_def bit4_ab_def)
qed

lemma immediate_loop_bits:
  assumes "vec4_wf val" "vec_size val = wid" "k \<le> wid" "\<And>i. k \<le> i \<Longrightarrow> i < wid \<Longrightarrow> vec4_value val i = BIT4_0"
  shows "\<exists>v. immediate_loop [k..<wid] vala valb val = Some v \<and> vec4_wf v \<and> vec_size v = wid \<and>
    (\<forall>i<wid. vec4_value v i = (if i < k then vec4_value val i else bit4_ab (bit vala (i - k)) (bit valb (i - k))))"
  using assms
proof (induction "wid - k" arbitrary: k vala valb val)
  case 0
  then show ?case by auto
next
  case (Suc m)
  then have k: "k < wid" by simp
  then have split: "[k..<wid] = k # [Suc k..<wid]" by (simp add: upt_conv_Cons)
  show ?case
  proof (cases "vala OR valb = 0")
    case True
    have z: "\<not> bit vala i \<and> \<not> bit valb i" for i using arg_cong[OF True, of "\<lambda>w. bit w i"] by (simp add: bit_or_iff)
    then have "\<forall>i<wid. vec4_value val i = (if i < k then vec4_value val i else bit4_ab (bit vala (i - k)) (bit valb (i - k)))"
      using Suc.prems(4) by (simp add: bit4_ab_def)
    then show ?thesis using True Suc.prems(1,2) unfolding split by auto
  next
    case False
    let ?b = "bit4_ab (bit vala 0) (bit valb 0)"
    let ?set = "if ?b \<noteq> BIT4_0 then vec4_set_bit val k ?b else Some val"
    obtain v1 where v1: "?set = Some v1" "vec4_wf v1" "vec_size v1 = wid"
      "\<forall>j<wid. vec4_value v1 j = (if j = k then ?b else vec4_value val j)"
      using vec4_set_bit_correct[OF Suc.prems(1), of k ?b] Suc.prems(1,2,4) k by (cases "?b = BIT4_0") auto
    have step: "immediate_loop [k..<wid] vala valb val = immediate_loop [Suc k..<wid] (drop_bit 1 vala) (drop_bit 1 valb) v1"
      using False immediate_code[of valb vala] v1(1) unfolding split by (auto simp: Let_def split: if_splits)
    have m: "m = wid - Suc k" using Suc.hyps(2) by simp
    obtain v where v: "immediate_loop [Suc k..<wid] (drop_bit 1 vala) (drop_bit 1 valb) v1 = Some v" "vec4_wf v" "vec_size v = wid"
      "\<forall>i<wid. vec4_value v i = (if i < Suc k then vec4_value v1 i else bit4_ab (bit (drop_bit 1 vala) (i - Suc k)) (bit (drop_bit 1 valb) (i - Suc k)))"
      using Suc.hyps(1)[OF m v1(2,3), of "drop_bit 1 vala" "drop_bit 1 valb"] v1(4) Suc.prems(4) k by auto
    have "vec4_value v i = (if i < k then vec4_value val i else bit4_ab (bit vala (i - k)) (bit valb (i - k)))" if "i < wid" for i
      using that v(4) v1(4) by (cases i k rule: linorder_cases) (auto simp: bit_drop_bit_eq Suc_diff_Suc less_Suc_eq)
    then show ?thesis using step v(1-3) by auto
  qed
qed

lemma immediate_vector:
  "\<exists>v. immediate_loop [0..<wid] vala valb (vec4_new wid BIT4_0) = Some v \<and> vec4_wf v \<and> vec_size v = wid \<and>
     vec4_bits v = immediate_bits vala valb wid"
  using immediate_loop_bits[of "vec4_new wid BIT4_0" wid 0 vala valb]
  by (auto simp: vec4_new_wf vec4_value_new vsize vec4_bits_def immediate_bits_def)

lemma setarray_immediate:
  assumes "0 < wid" "n = (if wid < 64 then wid else 64)"
  shows "\<exists>v. vec4_setarray (vec4_new wid BIT4_0) 0 n [ucast vala] = Some v \<and> vec4_wf v \<and> vec_size v = wid \<and>
    vec4_bits v = immediate_bits vala 0 wid"
proof -
  have n64: "n \<le> 64" using assms(2) by simp
  have n: "0 < n" "n \<le> wid" "word_count n \<le> length [ucast vala :: u64]" using assms word_count_le_1[OF n64] by (simp_all split: if_splits)
  obtain v where v: "vec4_setarray (vec4_new wid BIT4_0) 0 n [ucast vala] = Some v" "vec4_wf v" "vec_size v = wid"
    "\<forall>i<wid. vec4_value v i = (if i < n then (if plane_bit [ucast vala :: u64] i then BIT4_1 else BIT4_0) else vec4_value (vec4_new wid BIT4_0) i)"
    using vec4_setarray_bits[OF vec4_new_wf(1), of 0 n wid BIT4_0 "[ucast vala]"] n by (auto simp: vsize)
  have "vec4_value v i = bit4_ab (bit vala i) False" if "i < wid" for i
  proof (cases "i < n")
    case True
    then have "plane_bit [ucast vala :: u64] i = bit vala i" using assms(2) by (auto simp: plane_bit_def bit_ucast_iff split: if_splits)
    then show ?thesis using v(4) that True by (simp add: bit4_ab_def)
  next
    case False
    then have "\<not> bit vala i" using that assms(2) by (auto simp: bit_eq_iff dest: bit_imp_le_length split: if_splits)
    then show ?thesis using v(4) that False by (simp add: bit4_ab_def vec4_value_new)
  qed
  then show ?thesis using v(1-3) by (auto simp: vec4_bits_def immediate_bits_def)
qed

lemma get_immediate_bits:
  assumes "0 < wid"
  shows "\<exists>v. get_immediate_rval vala valb wid (vec4_new wid BIT4_0) = Some v \<and> vec4_wf v \<and> vec_size v = wid \<and>
    vec4_bits v = immediate_bits vala valb wid"
proof (cases "valb = 0")
  case True
  have "vec4_bits (vec4_new wid BIT4_0) = immediate_bits 0 0 wid"
    by (simp add: list_eq_iff_nth_eq vec4_value_new vsize immediate_bits_def bit4_ab_def)
  then show ?thesis
    using setarray_immediate[OF assms refl, of vala] True by (auto simp: get_immediate_rval_def vec4_new_wf vsize)
next
  case False
  then show ?thesis using immediate_vector[of wid vala valb] by (simp add: get_immediate_rval_def)
qed

lemma pushi_vector:
  assumes "0 < wid"
  shows "\<exists>v. of_PUSHI_VEC4 vala valb wid thr = Some (push_vec4 v thr) \<and> vec4_wf v \<and> vec_size v = wid \<and> vec4_bits v = immediate_bits vala valb wid"
proof -
  have zero: "vec4_bits (vec4_new wid BIT4_0) = immediate_bits 0 0 wid"
    by (simp add: list_eq_iff_nth_eq vec4_value_new vsize immediate_bits_def bit4_ab_def)
  consider "vala = 0" "valb = 0" | "valb = 0" "vala \<noteq> 0" "wid \<le> 64" | "valb \<noteq> 0 \<or> 64 < wid" "vala \<noteq> 0 \<or> valb \<noteq> 0"
    by (cases "vala = 0"; cases "valb = 0"; cases "wid \<le> 64") auto
  then show ?thesis
  proof cases
    case 1
    then show ?thesis using zero by (auto simp: of_PUSHI_VEC4_def vec4_new_wf vsize)
  next
    case 2
    then have "wid = (if wid < 64 then wid else 64)" by simp
    then show ?thesis using setarray_immediate[OF assms, of wid vala] 2 by (auto simp: of_PUSHI_VEC4_def)
  next
    case 3
    then show ?thesis using immediate_vector[of wid vala valb] by (auto simp: of_PUSHI_VEC4_def)
  qed
qed

section \<open>Bitwise and reduction operators\<close>

lemma map_index_map2:
  assumes "vec_size u = vec_size v"
  shows "map (\<lambda>i. f (vec4_value u i) (vec4_value v i)) [0..<vec_size u] = map2 f (vec4_bits u) (vec4_bits v)"
  using assms by (simp add: list_eq_iff_nth_eq)

lemma bit_loop_bits:
  assumes "vec4_wf u" "vec_size u = vec_size v"
  shows "\<exists>r. bit_loop f u v = Some r \<and> vec4_wf r \<and> vec_size r = vec_size u \<and> vec4_bits r = map2 f (vec4_bits u) (vec4_bits v)"
  using vec4_map_loop[OF assms(1), of "\<lambda>i b. f b (vec4_value v i)"] assms(2)
  by (simp add: bit_loop_def flip: map_index_map2[OF assms(2)])

lemma vec4_and_bits:
  assumes "vec4_wf u" "vec4_wf v" "vec_size u = vec_size v"
  shows "vec4_wf (vec4_and_assign u v) \<and> vec4_bits (vec4_and_assign u v) = map2 bit4_and (vec4_bits u) (vec4_bits v)"
  using assms vec4_bitwise_wf by (simp add: list_eq_iff_nth_eq bitlevel)

lemma vec4_or_bits:
  assumes "vec4_wf u" "vec4_wf v" "vec_size u = vec_size v"
  shows "vec4_wf (vec4_or_assign u v) \<and> vec4_bits (vec4_or_assign u v) = map2 bit4_or (vec4_bits u) (vec4_bits v)"
  using assms vec4_bitwise_wf by (simp add: list_eq_iff_nth_eq bitlevel)

lemma and_or_reduce_bits:
  assumes "key = BIT4_0 \<or> key = BIT4_1"
  shows "and_or_reduce key out lb bs = (if key \<in> set bs then out else if list_ex bit4_is_xz bs then BIT4_X else lb)"
proof (induction bs arbitrary: lb)
  case (Cons b bs)
  have "bit4_not BIT4_0 = BIT4_1" "bit4_not BIT4_1 = BIT4_0" by (simp_all add: bit4_not_def bit4_cast_def)
  then show ?case using assms Cons by (cases b) auto
qed simp

lemma xor_reduce_bits:
  assumes "lb = BIT4_0 \<or> lb = BIT4_1"
  shows "xor_reduce lb bs = (if list_ex bit4_is_xz bs then BIT4_X else if odd (count_list bs BIT4_1) then bit4_not lb else lb)"
  using assms
proof (induction bs arbitrary: lb)
  case (Cons b bs)
  have "bit4_not BIT4_0 = BIT4_1" "bit4_not BIT4_1 = BIT4_0" by (simp_all add: bit4_not_def bit4_cast_def)
  then show ?case using Cons by (cases b) auto
qed simp

definition merge_bit :: "vvp_bit4_t \<Rightarrow> vvp_bit4_t \<Rightarrow> vvp_bit4_t" where
  "merge_bit a b = (if a = b \<and> a \<noteq> BIT4_Z then a else BIT4_X)"

lemma blend_bits:
  assumes "vec4_wf u" "vec_size u = vec_size v"
  shows "\<exists>r. foldM (\<lambda>idx r. let b = vec4_value r idx
         in if b = vec4_value v idx \<and> b \<noteq> BIT4_Z then Some r else vec4_set_bit r idx BIT4_X) [0..<vec_size u] u = Some r \<and>
    vec4_wf r \<and> vec_size r = vec_size u \<and> vec4_bits r = map2 merge_bit (vec4_bits u) (vec4_bits v)"
proof -
  have "\<exists>r. foldM (\<lambda>idx r. let b = vec4_value r idx
         in if b = vec4_value v idx \<and> b \<noteq> BIT4_Z then Some r else vec4_set_bit r idx BIT4_X) [0..<vec_size u] u = Some r \<and>
    (vec4_wf r \<and> vec_size r = vec_size u \<and>
     (\<forall>j<vec_size u. vec4_value r j = (if j < vec_size u then merge_bit (vec4_value u j) (vec4_value v j) else vec4_value u j)))"
  proof (rule foldM_upt_inv[where P = "\<lambda>k r. vec4_wf r \<and> vec_size r = vec_size u \<and>
     (\<forall>j<vec_size u. vec4_value r j = (if j < k then merge_bit (vec4_value u j) (vec4_value v j) else vec4_value u j))"], goal_cases)
    case 1
    show ?case using assms by simp
  next
    case (2 i r)
    then show ?case
      using vec4_set_bit_correct[of r i BIT4_X] by (cases "vec4_value u i = vec4_value v i \<and> vec4_value u i \<noteq> BIT4_Z") (auto simp: less_Suc_eq merge_bit_def)
  qed
  then obtain r where r: "foldM (\<lambda>idx r. let b = vec4_value r idx
         in if b = vec4_value v idx \<and> b \<noteq> BIT4_Z then Some r else vec4_set_bit r idx BIT4_X) [0..<vec_size u] u = Some r"
    "vec4_wf r" "vec_size r = vec_size u" "\<forall>j<vec_size u. vec4_value r j = merge_bit (vec4_value u j) (vec4_value v j)" by auto
  then have "vec4_bits r = map2 merge_bit (vec4_bits u) (vec4_bits v)"
    unfolding map_index_map2[OF assms(2), symmetric] by (simp add: vec4_bits_def)
  then show ?thesis using r by blast
qed

definition cast2_bit :: "vvp_bit4_t \<Rightarrow> vvp_bit4_t" where
  "cast2_bit b = (if b = BIT4_1 then BIT4_1 else BIT4_0)"

lemma cast2_bits:
  assumes "vec4_wf u"
  shows "\<exists>r. foldM (\<lambda>idx r. case vec4_value r idx of BIT4_0 \<Rightarrow> Some r | BIT4_1 \<Rightarrow> Some r | _ \<Rightarrow> vec4_set_bit r idx BIT4_0) [0..<vec_size u] u = Some r \<and>
    vec4_wf r \<and> vec_size r = vec_size u \<and> vec4_bits r = map cast2_bit (vec4_bits u)"
proof -
  have "\<exists>r. foldM (\<lambda>idx r. case vec4_value r idx of BIT4_0 \<Rightarrow> Some r | BIT4_1 \<Rightarrow> Some r | _ \<Rightarrow> vec4_set_bit r idx BIT4_0) [0..<vec_size u] u = Some r \<and>
    (vec4_wf r \<and> vec_size r = vec_size u \<and>
     (\<forall>j<vec_size u. vec4_value r j = (if j < vec_size u then cast2_bit (vec4_value u j) else vec4_value u j)))"
  proof (rule foldM_upt_inv[where P = "\<lambda>k r. vec4_wf r \<and> vec_size r = vec_size u \<and>
     (\<forall>j<vec_size u. vec4_value r j = (if j < k then cast2_bit (vec4_value u j) else vec4_value u j))"], goal_cases)
    case 1
    show ?case using assms by simp
  next
    case (2 i r)
    then show ?case
      using vec4_set_bit_correct[of r i BIT4_0] by (cases "vec4_value u i") (auto simp: less_Suc_eq cast2_bit_def)
  qed
  then show ?thesis by (auto simp: vec4_bits_def)
qed

section \<open>Widths and parts\<close>

lemma set_vec_prefix:
  assumes "vec4_wf v" "0 < vec_size that" "adr + vec_size that \<le> vec_size v"
  shows "\<exists>r d. vec4_set_vec v adr that = Some (r, d) \<and> vec4_wf r \<and> vec_size r = vec_size v \<and>
    vec4_bits r = take adr (vec4_bits v) @ vec4_bits that @ drop (adr + vec_size that) (vec4_bits v)"
proof -
  obtain r d where r: "vec4_set_vec v adr that = Some (r, d)" "vec4_wf r"
    "vec4_bits r = take adr (vec4_bits v) @ vec4_bits that @ drop (adr + vec_size that) (vec4_bits v)"
    using vec4_set_vec_bits[OF assms(1,2), of adr] assms(3) by auto
  have "length (vec4_bits r) = vec_size v" unfolding r(3) using assms(3) by simp
  then have "vec_size r = vec_size v" by simp
  then show ?thesis using r by blast
qed

lemma concat_vectors_bits:
  assumes "0 < vec_size msb" "0 < vec_size lsb"
  shows "\<exists>r. concat_vectors msb lsb = Some r \<and> vec4_wf r \<and> vec4_bits r = vec4_bits lsb @ vec4_bits msb"
proof -
  let ?n = "vec_size msb + vec_size lsb"
  obtain r1 d1 where r1: "vec4_set_vec (vec4_new ?n BIT4_X) 0 lsb = Some (r1, d1)" "vec4_wf r1" "vec_size r1 = ?n"
    "vec4_bits r1 = vec4_bits lsb @ drop (vec_size lsb) (vec4_bits (vec4_new ?n BIT4_X))"
    using set_vec_prefix[OF vec4_new_wf(1) assms(2), of 0 ?n BIT4_X] by (auto simp: vec4_new_wf)
  obtain r2 d2 where r2: "vec4_set_vec r1 (vec_size lsb) msb = Some (r2, d2)" "vec4_wf r2"
    "vec4_bits r2 = take (vec_size lsb) (vec4_bits r1) @ vec4_bits msb @ drop (vec_size lsb + vec_size msb) (vec4_bits r1)"
    using set_vec_prefix[OF r1(2) assms(1), of "vec_size lsb"] r1(3) by auto
  have "vec4_bits r2 = vec4_bits lsb @ vec4_bits msb" unfolding r2(3) r1(4) using r1(3) by (simp add: vec4_new_wf)
  then show ?thesis using r1(1) r2(1,2) by (simp add: concat_vectors_def)
qed

lemma replicate_bits:
  assumes "0 < vec_size v"
  shows "\<exists>r. foldM (\<lambda>idx res. map_option fst (vec4_set_vec res (idx * vec_size v) v)) [0..<rept] (vec4_new (vec_size v * rept) BIT4_X) = Some r \<and>
    vec4_wf r \<and> vec4_bits r = concat (replicate rept (vec4_bits v))"
proof -
  let ?n = "vec_size v" and ?P = "\<lambda>k r. vec4_wf r \<and> vec_size r = vec_size v * rept \<and> take (k * vec_size v) (vec4_bits r) = concat (replicate k (vec4_bits v))"
  have "\<exists>r. foldM (\<lambda>idx res. map_option fst (vec4_set_vec res (idx * ?n) v)) [0..<rept] (vec4_new (?n * rept) BIT4_X) = Some r \<and> ?P rept r"
  proof (rule foldM_upt_inv[where P = ?P], goal_cases)
    case 1
    show ?case by (simp add: vec4_new_wf vsize)
  next
    case (2 i r)
    have "i * ?n + ?n \<le> ?n * rept" using 2(1) by (metis Suc_leI mult.commute mult_Suc mult_le_mono2 add.commute)
    then obtain r' d where r': "vec4_set_vec r (i * ?n) v = Some (r', d)" "vec4_wf r'" "vec_size r' = ?n * rept"
      "vec4_bits r' = take (i * ?n) (vec4_bits r) @ vec4_bits v @ drop (i * ?n + ?n) (vec4_bits r)"
      using set_vec_prefix[of r v "i * ?n"] 2(2) assms by auto
    have "length (concat (replicate i (vec4_bits v))) = i * ?n" by (simp add: length_concat sum_list_replicate)
    then have "take (Suc i * ?n) (vec4_bits r') = concat (replicate i (vec4_bits v)) @ vec4_bits v"
      unfolding r'(4) using 2(2) by simp
    also have "\<dots> = concat (replicate (Suc i) (vec4_bits v))" by (induction i) simp_all
    finally show ?case using r' by simp
  qed
  then show ?thesis by (auto simp: mult.commute)
qed

end
