(* ===== verification/Thread_Select.thy ===== *)
theory Thread_Select
  imports Thread_Bits
begin

text \<open>
  Padding, part selects, shifts and index conversion of \<open>Thread_Ops\<close>, as functions of the bits of their operands.
\<close>

section \<open>Part selects\<close>

text \<open>The bits from a signed base on, X outside the vector.\<close>

definition select_bits :: "vvp_bit4_t list \<Rightarrow> int \<Rightarrow> nat \<Rightarrow> vvp_bit4_t list" where
  "select_bits bs base wid =
     map (\<lambda>i. if 0 \<le> base + int i \<and> base + int i < int (length bs) then bs ! nat (base + int i) else BIT4_X) [0..<wid]"

lemma length_select_bits [simp]: "length (select_bits bs base wid) = wid"
  by (simp add: select_bits_def)

lemma part_of_value_bits:
  assumes "0 < wid" "vec_size v + wid < 2 ^ 31" "0 < vec_size v"
  shows "\<exists>r. part_of_value base wid v = Some r \<and> vec4_wf r \<and> vec4_bits r = select_bits (vec4_bits v) (sint base) wid"
proof -
  let ?n = "vec_size v" and ?b = "sint base"
  have "int (?n + wid) < int (2 ^ 31)" using assms(2) by (rule of_nat_less_iff[THEN iffD2])
  then have bound: "int ?n + int wid < 2 ^ 31" by simp
  have rng: "- (2 ^ 31) \<le> ?b" "?b < 2 ^ 31" using sint_ge[of base] sint_lt[of base] by simp_all
  have small: "sint (word_of_int k :: 32 word) = k" if "- (2 ^ 31) \<le> k" "k < 2 ^ 31" for k
    using that by (simp add: signed_of_int signed_take_bit_int_eq_self)
  have n: "sint (of_nat ?n :: 32 word) = int ?n" using small[of "int ?n"] bound by simp
  have none: "vec4_wf (vec4_new wid BIT4_X) \<and> vec4_bits (vec4_new wid BIT4_X) = select_bits (vec4_bits v) ?b wid"
    if "?b \<ge> int ?n \<or> ?b + int wid \<le> 0"
    using that by (auto simp: list_eq_iff_nth_eq vec4_value_new vec4_new_wf vsize select_bits_def)
  show ?thesis
  proof (cases "?b \<ge> int ?n")
    case True
    then show ?thesis using none n by (simp add: part_of_value_def)
  next
    case False
    have add: "sint (base + of_nat wid) = ?b + int wid"
    proof -
      have "base + of_nat wid = word_of_int (?b + int wid)" by simp
      moreover have "sint (word_of_int (?b + int wid) :: 32 word) = ?b + int wid"
        by (rule small) (use rng False bound in linarith)+
      ultimately show ?thesis by simp
    qed
    show ?thesis
    proof (cases "?b + int wid \<le> 0")
      case True
      then show ?thesis using none n add False by (simp add: part_of_value_def)
    next
      case inside: False
      define vb w b where "vb = (if ?b < 0 then nat (- ?b) else 0)" "w = (if ?b < 0 then wid - nat (- ?b) else wid)"
        "b = (if ?b < 0 then 0 else base)"
      have b: "int (unat b) = (if ?b < 0 then 0 else ?b)"
      proof (cases "?b < 0")
        case False
        then have "uint base = ?b" using rng uint_sint[of base] by (simp add: take_bit_int_eq_self)
        then show ?thesis using False by (simp add: vb_w_b_def)
      qed (simp add: vb_w_b_def)
      have w: "0 < w" "vb + w = wid" using inside assms(1) by (auto simp: vb_w_b_def)
      have bw: "unat (b + of_nat w) = unat b + w"
      proof -
        have "int (unat b) + int w < 2 ^ 32" using b bound False w by (auto split: if_splits)
        then have "int (unat b + w) < int (2 ^ 32)" by simp
        then have "unat b + w < 2 ^ 32" by (rule of_nat_less_iff[THEN iffD1])
        then show ?thesis by (simp add: unat_word_ariths unat_of_nat)
      qed
      define w' where "w' = (if unat b + w > ?n then ?n - unat b else w)"
      have bn: "unat b < ?n"
      proof -
        have "int (unat b) < int ?n" using b False assms(3) by (cases "?b < 0") simp_all
        then show ?thesis by (rule of_nat_less_iff[THEN iffD1])
      qed
      then have w': "0 < w'" "vb + w' \<le> wid" "unat b + w' \<le> ?n" "w' = min w (?n - unat b)" using w by (auto simp: w'_def)
      obtain p where p: "vec4_subvalue v (unat b) w' = Some p" "vec4_wf p" "vec4_bits p = map (\<lambda>i. vec4_value v (unat b + i)) [0..<w']"
        using vec4_subvalue_bits by blast
      have ps: "vec_size p = w'" using arg_cong[OF p(3), of length] by simp
      obtain r d where r: "vec4_set_vec (vec4_new wid BIT4_X) vb p = Some (r, d)" "vec4_wf r" "vec_size r = wid"
        "vec4_bits r = take vb (vec4_bits (vec4_new wid BIT4_X)) @ vec4_bits p @ drop (vb + w') (vec4_bits (vec4_new wid BIT4_X))"
        using set_vec_prefix[OF vec4_new_wf(1), of p vb wid BIT4_X] ps w' by (auto simp: vec4_new_wf)
      have code: "part_of_value base wid v = Some r"
      proof -
        have tup: "(if ?b < 0 then (nat (- ?b), wid - nat (- ?b), 0) else (0, wid, base)) = (vb, w, b)" by (simp add: vb_w_b_def)
        have w'_code: "(if unat (b + of_nat w) > ?n then ?n - unat b else w) = w'" unfolding bw w'_def by (rule refl)
        show ?thesis unfolding part_of_value_def Let_def n add tup prod.case w'_code using False inside p(1) r(1) by simp
      qed
      have "vec4_bits r = select_bits (vec4_bits v) ?b wid"
      proof (rule nth_equalityI)
        fix i assume "i < length (vec4_bits r)"
        then have i: "i < wid" using r(3) by simp
        have x: "vec4_bits (vec4_new wid BIT4_X) = replicate wid BIT4_X" by (rule x_vector(2))
        have "vec4_bits r ! i = (if vb \<le> i \<and> i < vb + w' then vec4_value v (unat b + (i - vb)) else BIT4_X)"
          unfolding r(4) x p(3) using i w'(1-3) by (auto simp: nth_append)
        moreover have "vb \<le> i \<and> i < vb + w' \<longleftrightarrow> 0 \<le> ?b + int i \<and> ?b + int i < int ?n"
        proof -
          have "int vb = (if ?b < 0 then - ?b else 0)" by (simp add: vb_w_b_def)
          then have "vb \<le> i \<and> i < vb + w' \<longleftrightarrow> 0 \<le> ?b + int i \<and> ?b + int i < int ?n"
            if "int ub = (if ?b < 0 then 0 else ?b)" "ub < ?n" "w' = min w (?n - ub)" for ub
            using that w(2) i by (cases "?b < 0") (auto simp: min_def)
          then show ?thesis using b bn w'(4) by blast
        qed
        moreover have "unat b + (i - vb) = nat (?b + int i)" if "vb \<le> i"
        proof -
          have "int vb = (if ?b < 0 then - ?b else 0)" by (simp add: vb_w_b_def)
          then have "int (unat b + (i - vb)) = ?b + int i" using b that by (simp add: of_nat_diff)
          then show ?thesis by linarith
        qed
        ultimately show "vec4_bits r ! i = select_bits (vec4_bits v) ?b wid ! i" using i by (auto simp: select_bits_def)
      qed (simp add: r(3))
      then show ?thesis using code r(2) by blast
    qed
  qed
qed

text \<open>The base from the stack. An unknown base gives X; an unsigned one wraps into the signed range.\<close>

definition base_of :: "bool \<Rightarrow> vvp_bit4_t list \<Rightarrow> int" where
  "base_of sf bs = signed_take_bit 31 (if sf then bits_snum bs else bits_num bs)"

section \<open>Shifts\<close>

definition shift_left_bits :: "vvp_bit4_t \<Rightarrow> nat \<Rightarrow> vvp_bit4_t list \<Rightarrow> vvp_bit4_t list" where
  "shift_left_bits flag n bs =
     (let w = length bs in
      if flag = BIT4_1 then replicate w BIT4_X
      else if flag = BIT4_X then replicate w BIT4_0
      else replicate (min n w) BIT4_0 @ take (w - n) bs)"

definition shift_right_bits :: "vvp_bit4_t \<Rightarrow> vvp_bit4_t \<Rightarrow> nat \<Rightarrow> vvp_bit4_t list \<Rightarrow> vvp_bit4_t list" where
  "shift_right_bits pad flag n bs =
     (let w = length bs in
      if flag = BIT4_1 then replicate w BIT4_X
      else if flag = BIT4_X then replicate w pad
      else drop n bs @ replicate (min n w) pad)"

lemma const_vector: "vec4_wf (vec4_new w b)" "vec4_bits (vec4_new w b) = replicate w b"
  by (simp_all add: vec4_new_wf list_eq_iff_nth_eq vec4_value_new vsize)

lemma shift_left_result:
  assumes "vec4_wf v" "0 < vec_size v"
  shows "\<exists>r. shift_left flag n v = Some r \<and> vec4_wf r \<and> vec4_bits r = shift_left_bits flag (unat n) (vec4_bits v)"
proof -
  let ?w = "vec_size v" and ?n = "unat n"
  consider "flag = BIT4_1 \<or> flag = BIT4_X \<or> ?w \<le> ?n" | "flag \<noteq> BIT4_1" "flag \<noteq> BIT4_X" "?n = 0"
    | "flag \<noteq> BIT4_1" "flag \<noteq> BIT4_X" "0 < ?n" "?n < ?w" by linarith
  then show ?thesis
  proof cases
    case 1
    then show ?thesis using const_vector[of ?w] by (auto simp: shift_left_def shift_left_bits_def Let_def)
  next
    case 2
    then have "n = 0" by (simp add: unat_eq_0)
    then show ?thesis using 2 assms by (simp add: shift_left_def shift_left_bits_def)
  next
    case 3
    then have n: "n > 0" by (metis unat_0 word_gt_0 less_irrefl)
    obtain blk where blk: "vec4_subvalue v 0 (?w - ?n) = Some blk" "vec4_wf blk" "vec4_bits blk = map (vec4_value v) [0..<?w - ?n]"
      using vec4_subvalue_bits[of v 0 "?w - ?n"] by auto
    have bs: "vec_size blk = ?w - ?n" using arg_cong[OF blk(3), of length] by simp
    obtain r1 d1 where r1: "vec4_set_vec v 0 (vec4_new ?n BIT4_0) = Some (r1, d1)" "vec4_wf r1" "vec_size r1 = ?w"
      "vec4_bits r1 = vec4_bits (vec4_new ?n BIT4_0) @ drop ?n (vec4_bits v)"
      using set_vec_prefix[OF assms(1), of "vec4_new ?n BIT4_0" 0] 3 by (auto simp: vec4_new_wf)
    obtain r2 d2 where r2: "vec4_set_vec r1 ?n blk = Some (r2, d2)" "vec4_wf r2"
      "vec4_bits r2 = take ?n (vec4_bits r1) @ vec4_bits blk @ drop (?n + (?w - ?n)) (vec4_bits r1)"
      using set_vec_prefix[OF r1(2), of blk ?n] 3 bs r1(3) by auto
    have "shift_left flag n v = Some r2" using 3 n blk(1) r1(1) r2(1) by (simp add: shift_left_def)
    moreover have "vec4_bits r2 = replicate ?n BIT4_0 @ take (?w - ?n) (vec4_bits v)"
      unfolding r2(3) r1(4) blk(3) const_vector(2) using 3 r1(3) by (simp add: vec4_bits_def take_map)
    ultimately show ?thesis using r2(2) 3 by (simp add: shift_left_bits_def)
  qed
qed

lemma set_vec_empty:
  assumes "vec_size that = 0"
  shows "vec4_set_vec v 0 that = Some (v, False)"
proof -
  have "set_vec_plane (vec_size v) 0 0 src ws = (ws, False)" for src ws
    by (simp add: set_vec_plane_def put_word_def shl_def Let_def)
  then show ?thesis using assms by (simp add: vec4_set_vec_def)
qed

lemma shift_right_result:
  assumes "vec4_wf v" "0 < vec_size v"
  shows "\<exists>r. shift_right pad flag n v = Some r \<and> vec4_wf r \<and> vec4_bits r = shift_right_bits pad flag (unat n) (vec4_bits v)"
proof -
  let ?w = "vec_size v" and ?n = "unat n"
  consider "flag = BIT4_1 \<or> flag = BIT4_X \<or> ?w < ?n" | "flag \<noteq> BIT4_1" "flag \<noteq> BIT4_X" "?n = 0"
    | "flag \<noteq> BIT4_1" "flag \<noteq> BIT4_X" "0 < ?n" "?n \<le> ?w" by linarith
  then show ?thesis
  proof cases
    case 1
    then show ?thesis using const_vector[of ?w] by (auto simp: shift_right_def shift_right_bits_def Let_def)
  next
    case 2
    then have "n = 0" by (simp add: unat_eq_0)
    then show ?thesis using 2 assms by (simp add: shift_right_def shift_right_bits_def)
  next
    case 3
    then have n: "n > 0" by (metis unat_0 word_gt_0 less_irrefl)
    obtain blk where blk: "vec4_subvalue v ?n (?w - ?n) = Some blk" "vec4_wf blk" "vec4_bits blk = map (\<lambda>i. vec4_value v (?n + i)) [0..<?w - ?n]"
      using vec4_subvalue_bits[of v ?n "?w - ?n"] by auto
    have bs: "vec_size blk = ?w - ?n" using arg_cong[OF blk(3), of length] by simp
    obtain r1 d1 where r1: "vec4_set_vec v 0 blk = Some (r1, d1)" "vec4_wf r1" "vec_size r1 = ?w"
      "vec4_bits r1 = vec4_bits blk @ drop (?w - ?n) (vec4_bits v)"
    proof (cases "?n = ?w")
      case True
      then have "vec_size blk = 0" using bs by simp
      then show ?thesis using that[of v False] set_vec_empty[of blk v] assms(1) True blk(3) by simp
    next
      case False
      then show ?thesis using that set_vec_prefix[OF assms(1), of blk 0] 3 bs by auto
    qed
    obtain r2 d2 where r2: "vec4_set_vec r1 (?w - ?n) (vec4_new ?n pad) = Some (r2, d2)" "vec4_wf r2"
      "vec4_bits r2 = take (?w - ?n) (vec4_bits r1) @ vec4_bits (vec4_new ?n pad) @ drop (?w - ?n + ?n) (vec4_bits r1)"
      using set_vec_prefix[OF r1(2), of "vec4_new ?n pad" "?w - ?n"] 3 r1(3) by (auto simp: vec4_new_wf)
    have "shift_right pad flag n v = Some r2" using 3 n blk(1) r1(1) r2(1) by (simp add: shift_right_def)
    moreover have "map (\<lambda>i. vec4_value v (?n + i)) [0..<?w - ?n] = drop ?n (vec4_bits v)"
      by (simp add: list_eq_iff_nth_eq)
    then have "vec4_bits r2 = drop ?n (vec4_bits v) @ replicate ?n pad"
      unfolding r2(3) r1(4) blk(3) const_vector(2) using 3 r1(3) by simp
    ultimately show ?thesis using r2(2) 3 by (simp add: shift_right_bits_def)
  qed
qed

end
