(* ===== verification/Thread_Compare.thy ===== *)
theory Thread_Compare
  imports Thread_Select
begin

text \<open>
  The comparison opcodes of \<open>Thread_Ops\<close>: the flags they set are the results of the comparison functors of
  \<open>Arith\<close> (\<open>eq_result\<close>, \<open>eeq_result\<close>, \<open>weq_result\<close>), and flag 5 orders the numbers.
\<close>

section \<open>The loops\<close>

definition known_differ :: "vvp_bit4_t \<times> vvp_bit4_t \<Rightarrow> bool" where
  "known_differ p \<longleftrightarrow> fst p \<noteq> snd p \<and> \<not> bit4_is_xz (fst p) \<and> \<not> bit4_is_xz (snd p)"

definition either_xz :: "vvp_bit4_t \<times> vvp_bit4_t \<Rightarrow> bool" where
  "either_xz p \<longleftrightarrow> bit4_is_xz (fst p) \<or> bit4_is_xz (snd p)"

lemma cmpe_loop_result:
  "eq \<noteq> BIT4_0 \<Longrightarrow> cmpe_loop ps eq eeq =
    (if list_ex known_differ ps then BIT4_0 else if eq = BIT4_1 \<and> list_ex either_xz ps then BIT4_X else eq,
     if list_all (\<lambda>p. fst p = snd p) ps then eeq else BIT4_0)"
proof (induction ps arbitrary: eq eeq)
  case (Cons p ps)
  obtain l r where p: "p = (l, r)" by (cases p)
  show ?case
  proof (cases "known_differ p")
    case True
    then show ?thesis unfolding p by (cases l; cases r) (auto simp: known_differ_def)
  next
    case False
    define eq' where "eq' = (if eq = BIT4_1 \<and> either_xz p then BIT4_X else eq)"
    have "cmpe_loop (p # ps) eq eeq = cmpe_loop ps eq' (if l \<noteq> r then BIT4_0 else eeq)"
      using False Cons.prems unfolding p by (cases l; cases r) (auto simp: known_differ_def either_xz_def eq'_def p)
    moreover have "eq' \<noteq> BIT4_0" using Cons.prems by (simp add: eq'_def)
    ultimately show ?thesis using Cons.IH[of eq' "if l \<noteq> r then BIT4_0 else eeq"] False by (auto simp: p eq'_def)
  qed
qed simp

lemma cmpwe_loop_result:
  "eq \<noteq> BIT4_0 \<Longrightarrow> cmpwe_loop ps eq =
    (if list_ex known_differ ps then BIT4_0
     else if eq = BIT4_1 \<and> list_ex (\<lambda>p. bit4_is_xz (fst p) \<and> \<not> bit4_is_xz (snd p)) ps then BIT4_X else eq)"
proof (induction ps arbitrary: eq)
  case (Cons p ps)
  obtain l r where p: "p = (l, r)" by (cases p)
  show ?case
    using Cons.IH[of eq] Cons.IH[of BIT4_X] Cons.prems unfolding p by (cases l; cases r) (auto simp: known_differ_def)
qed simp

lemma bit_pairs_zip: "vec_size u = vec_size v \<Longrightarrow> bit_pairs u v = zip (vec4_bits u) (vec4_bits v)"
  by (simp add: bit_pairs_def list_eq_iff_nth_eq)

lemma pairs_equal: "length xs = length ys \<Longrightarrow> list_all (\<lambda>p. fst p = snd p) (zip xs ys) \<longleftrightarrow> xs = ys"
  by (induction xs ys rule: list_induct2) auto

lemma pairs_xz: "length xs = length ys \<Longrightarrow> list_ex either_xz (zip xs ys) \<longleftrightarrow> list_ex bit4_is_xz (xs @ ys)"
  by (induction xs ys rule: list_induct2) (auto simp: either_xz_def)

lemma eq_flag:
  assumes "length xs = length ys"
  shows "[if list_ex known_differ (zip xs ys) then BIT4_0 else if list_ex either_xz (zip xs ys) then BIT4_X else BIT4_1] =
    eq_result BIT4_1 BIT4_0 w xs ys"
proof -
  have "list_ex known_differ (zip xs ys) = some_pair (\<lambda>a b. \<not> bit4_is_xz a \<and> \<not> bit4_is_xz b \<and> a \<noteq> b) xs ys"
    by (auto simp: some_pair_def known_differ_def list_ex_iff Bex_def)
  then show ?thesis by (simp add: eq_result_def pairs_xz[OF assms])
qed

lemma weq_flag:
  "[if list_ex known_differ (zip xs ys) then BIT4_0
    else if list_ex (\<lambda>p. bit4_is_xz (fst p) \<and> \<not> bit4_is_xz (snd p)) (zip xs ys) then BIT4_X else BIT4_1] =
   weq_result BIT4_1 BIT4_0 w xs ys"
  by (auto simp: weq_result_def some_pair_def known_differ_def list_ex_iff Bex_def)

lemma known_eq_flag:
  assumes "length xs = length ys" "\<not> list_ex bit4_is_xz (xs @ ys)"
  shows "eq_result BIT4_1 BIT4_0 w xs ys = [if xs = ys then BIT4_1 else BIT4_0]"
    "weq_result BIT4_1 BIT4_0 w xs ys = [if xs = ys then BIT4_1 else BIT4_0]"
proof -
  have "some_pair (\<lambda>a b. \<not> bit4_is_xz a \<and> \<not> bit4_is_xz b \<and> a \<noteq> b) xs ys \<longleftrightarrow> xs \<noteq> ys"
    using assms by (induction xs ys rule: list_induct2) auto
  moreover have "\<not> some_pair (\<lambda>a b. bit4_is_xz a \<and> \<not> bit4_is_xz b) xs ys"
    using assms by (induction xs ys rule: list_induct2) auto
  ultimately show "eq_result BIT4_1 BIT4_0 w xs ys = [if xs = ys then BIT4_1 else BIT4_0]"
    "weq_result BIT4_1 BIT4_0 w xs ys = [if xs = ys then BIT4_1 else BIT4_0]"
    using assms(2) by (cases "xs = ys"; simp add: eq_result_def weq_result_def)+
qed

section \<open>Order\<close>

lemma cmpu_words_num:
  assumes "length a = n" "length b = n" "k \<le> n"
  shows "cmpu_words a b k =
    (if words_val (take k a) = words_val (take k b) then BIT4_1 else BIT4_0,
     if words_val (take k a) < words_val (take k b) then BIT4_1 else BIT4_0)"
  using assms(3)
proof (induction k)
  case 0
  then show ?case by (simp add: cmpu_words_def)
next
  case (Suc k)
  let ?x = "words_val (take k a)" and ?y = "words_val (take k b)"
  have less: "?x < 2 ^ (64 * k)" "?y < 2 ^ (64 * k)"
    using words_val_less[of "take k a"] words_val_less[of "take k b"] Suc.prems assms(1,2) by simp_all
  have vals: "words_val (take (Suc k) a) = ?x + 2 ^ (64 * k) * unat (a ! k)" "words_val (take (Suc k) b) = ?y + 2 ^ (64 * k) * unat (b ! k)"
    using Suc.prems assms(1,2) by (simp_all add: take_Suc_conv_app_nth words_val_append)
  have step: "cmpu_words a b (Suc k) =
      (if a ! k = b ! k then cmpu_words a b k else (BIT4_0, if a ! k < b ! k then BIT4_1 else BIT4_0))"
    by (simp add: cmpu_words_def split_beta)
  show ?case
  proof (cases "a ! k = b ! k")
    case True
    then show ?thesis using Suc unfolding step vals by simp
  next
    case False
    have lt: "unat u < unat v \<Longrightarrow> x + 2 ^ (64 * k) * unat u < y + 2 ^ (64 * k) * unat v" if "x < 2 ^ (64 * k)" for x y :: nat and u v :: u64
    proof -
      assume "unat u < unat v"
      then have "2 ^ (64 * k) * Suc (unat u) \<le> 2 ^ (64 * k) * unat v" by (intro mult_le_mono2) simp
      then show ?thesis using that by simp
    qed
    consider "unat (a ! k) < unat (b ! k)" | "unat (b ! k) < unat (a ! k)" using False by (metis linorder_neq_iff word_unat_eq_iff)
    then show ?thesis
    proof cases
      case 1
      then show ?thesis using lt[OF less(1) 1, of ?y] False unfolding step vals by (simp add: word_less_nat_alt)
    next
      case 2
      then show ?thesis using lt[OF less(2) 2, of ?x] False unfolding step vals by (simp add: word_less_nat_alt)
    qed
  qed
qed

lemma cmps_scan_bits:
  fixes a b :: int
  shows "cmps_scan (map (\<lambda>k. (if bit a k then BIT4_1 else BIT4_0, if bit b k then BIT4_1 else BIT4_0)) (rev [0..<m])) =
    (if take_bit m a = take_bit m b then BIT4_1 else BIT4_0, if take_bit m a < take_bit m b then BIT4_1 else BIT4_0)"
proof (induction m)
  case (Suc m)
  define x y where "x = take_bit m a" and "y = take_bit m b"
  have "x < 2 ^ m" "y < 2 ^ m" "0 \<le> x" "0 \<le> y" by (simp_all add: x_def y_def)
  then show ?case
    using Suc by (cases "bit a m"; cases "bit b m") (simp_all add: take_bit_Suc_top flip: x_def y_def)
qed simp

section \<open>Flags\<close>

definition with_flags :: "(nat \<times> vvp_bit4_t) list \<Rightarrow> vthread \<Rightarrow> vthread" where
  "with_flags fs thr = thr\<lparr>thr_flags := fold (\<lambda>(n, b) flags. flags[n := b]) fs (thr_flags thr)\<rparr>"

definition flags_ok :: "vthread \<Rightarrow> bool" where
  "flags_ok thr \<longleftrightarrow> length (thr_flags thr) = FLAGS_COUNT"

lemma set_flags:
  assumes "flags_ok thr"
  shows "n < 256 \<Longrightarrow> set_flag n b thr = Some (with_flags [(n, b)] thr)"
    "set_flag4 eq thr = Some (with_flags [(4, eq)] thr)"
    "set_flags46 eq eeq thr = Some (with_flags [(4, eq), (6, eeq)] thr)"
    "set_flags456 eq lt eeq thr = Some (with_flags [(4, eq), (5, lt), (6, eeq)] thr)"
  using assms by (simp_all add: flags_ok_def FLAGS_COUNT_def set_flag_def set_flag4_def set_flags46_def set_flags456_def with_flags_def)

lemma do_CMPE_flags:
  assumes "flags_ok thr" "vec_size u = vec_size v" "0 < vec_size u"
  shows "do_CMPE u v thr = Some (with_flags [(4, hd (eq_result BIT4_1 BIT4_0 w (vec4_bits u) (vec4_bits v))),
    (6, hd (eeq_result BIT4_1 BIT4_0 w (vec4_bits u) (vec4_bits v)))] thr)"
proof -
  let ?x = "vec4_bits u" and ?y = "vec4_bits v"
  have len: "length ?x = length ?y" using assms(2) by simp
  have xz: "vec4_has_xz u \<or> vec4_has_xz v \<longleftrightarrow> list_ex bit4_is_xz (?x @ ?y)"
    using vec4_has_xz_iff[of u] vec4_has_xz_iff[of v] assms(2,3) by (auto simp: list_ex_iff vec4_bits_def)
  show ?thesis
  proof (cases "list_ex bit4_is_xz (?x @ ?y)")
    case True
    have "cmpe_loop (bit_pairs u v) BIT4_1 BIT4_1 = (hd (eq_result BIT4_1 BIT4_0 w ?x ?y), hd (eeq_result BIT4_1 BIT4_0 w ?x ?y))"
      unfolding bit_pairs_zip[OF assms(2)] eq_flag[OF len, symmetric] by (simp add: cmpe_loop_result pairs_equal[OF len] eeq_result_def)
    then show ?thesis using True xz assms(2) set_flags(3)[OF assms(1)] by (simp add: do_CMPE_def)
  next
    case False
    then show ?thesis
      using xz assms(2) set_flags(3)[OF assms(1)] known_eq_flag(1)[OF len, of w] by (simp add: do_CMPE_def vec4_eeq_iff eeq_result_def Let_def)
  qed
qed

lemma do_CMPWE_flags:
  assumes "flags_ok thr" "vec_size u = vec_size v" "0 < vec_size u"
  shows "do_CMPWE u v thr = Some (with_flags [(4, hd (weq_result BIT4_1 BIT4_0 w (vec4_bits u) (vec4_bits v)))] thr)"
proof -
  let ?x = "vec4_bits u" and ?y = "vec4_bits v"
  have len: "length ?x = length ?y" using assms(2) by simp
  have xz: "vec4_has_xz u \<or> vec4_has_xz v \<longleftrightarrow> list_ex bit4_is_xz (?x @ ?y)"
    using vec4_has_xz_iff[of u] vec4_has_xz_iff[of v] assms(2,3) by (auto simp: list_ex_iff vec4_bits_def)
  show ?thesis
  proof (cases "list_ex bit4_is_xz (?x @ ?y)")
    case True
    have "cmpwe_loop (bit_pairs u v) BIT4_1 = hd (weq_result BIT4_1 BIT4_0 w ?x ?y)"
      unfolding bit_pairs_zip[OF assms(2)] weq_flag[symmetric] by (simp add: cmpwe_loop_result)
    then show ?thesis using True xz assms(2) set_flags(2)[OF assms(1)] by (simp add: do_CMPWE_def)
  next
    case False
    then show ?thesis
      using xz assms(2) set_flags(2)[OF assms(1)] known_eq_flag(2)[OF len, of w] by (simp add: do_CMPWE_def vec4_eeq_iff Let_def)
  qed
qed

text \<open>Flag 5 of the ordering comparisons.\<close>

definition less_flag :: "bool \<Rightarrow> vvp_bit4_t list \<Rightarrow> vvp_bit4_t list \<Rightarrow> vvp_bit4_t" where
  "less_flag sf xs ys =
     (if list_ex bit4_is_xz (xs @ ys) then BIT4_X
      else if (if sf then bits_snum xs < bits_snum ys else bits_num xs < bits_num ys) then BIT4_1 else BIT4_0)"

lemma bits_num_eq_iff:
  assumes "\<not> list_ex bit4_is_xz (xs @ ys)" "length xs = length ys"
  shows "bits_num xs = bits_num ys \<longleftrightarrow> xs = ys"
proof
  assume eq: "bits_num xs = bits_num ys"
  show "xs = ys"
  proof (rule nth_equalityI[OF assms(2)])
    fix i assume i: "i < length xs"
    then have "xs ! i = BIT4_1 \<longleftrightarrow> ys ! i = BIT4_1" using arg_cong[OF eq, of "\<lambda>k. bit k i"] assms(2) by (simp add: bit_bits_num)
    moreover have "\<not> bit4_is_xz (xs ! i)" "\<not> bit4_is_xz (ys ! i)" using assms i by (auto simp: list_ex_iff)
    ultimately show "xs ! i = ys ! i" by (cases "xs ! i"; cases "ys ! i") simp_all
  qed
qed simp

lemma do_CMPU_flags:
  assumes "flags_ok thr" "vec4_wf u" "vec4_wf v" "vec_size u = vec_size v" "0 < vec_size u"
  shows "do_CMPU u v thr = Some (with_flags [(4, hd (eq_result BIT4_1 BIT4_0 w (vec4_bits u) (vec4_bits v))),
    (5, less_flag False (vec4_bits u) (vec4_bits v)), (6, hd (eeq_result BIT4_1 BIT4_0 w (vec4_bits u) (vec4_bits v)))] thr)"
proof -
  let ?x = "vec4_bits u" and ?y = "vec4_bits v"
  have len: "length ?x = length ?y" using assms(4) by simp
  show ?thesis
  proof (cases "list_ex bit4_is_xz (?x @ ?y)")
    case True
    have "cmpe_loop (bit_pairs u v) BIT4_1 BIT4_1 = (hd (eq_result BIT4_1 BIT4_0 w ?x ?y), hd (eeq_result BIT4_1 BIT4_0 w ?x ?y))"
      unfolding bit_pairs_zip[OF assms(4)] eq_flag[OF len, symmetric] by (simp add: cmpe_loop_result pairs_equal[OF len] eeq_result_def)
    moreover have "fetch_words u v = Some None" using fetch_words_num[OF assms(2,3) refl assms(4)[symmetric] assms(5)] True by simp
    ultimately show ?thesis
      using True assms(4) set_flags(4)[OF assms(1)] by (simp add: do_CMPU_def of_CMPU_the_hard_way_def less_flag_def)
  next
    case False
    obtain ap bp where f: "fetch_words u v = Some (Some (ap, bp))" "length ap = word_count (vec_size u)" "length bp = word_count (vec_size u)"
      "int (words_val ap) = bits_num ?x" "int (words_val bp) = bits_num ?y"
      using fetch_words_num[OF assms(2,3) refl assms(4)[symmetric] assms(5)] False by auto
    have lt: "words_val ap < words_val bp \<longleftrightarrow> bits_num ?x < bits_num ?y" "words_val ap = words_val bp \<longleftrightarrow> ?x = ?y"
      unfolding bits_num_eq_iff[OF False len, symmetric] f(4,5)[symmetric] by simp_all
    have "cmpu_words ap bp (word_count (vec_size u)) =
        (if ?x = ?y then BIT4_1 else BIT4_0, if bits_num ?x < bits_num ?y then BIT4_1 else BIT4_0)"
      using cmpu_words_num[OF f(2,3) order_refl] lt f(2,3) by simp
    then show ?thesis
      using False f(1) assms(4) set_flags(4)[OF assms(1)] known_eq_flag(1)[OF len False, of w]
      by (simp add: do_CMPU_def less_flag_def eeq_result_def)
  qed
qed

lemma do_CMPS_flags:
  assumes "flags_ok thr" "vec_size u = vec_size v" "0 < vec_size u"
  shows "do_CMPS u v thr = Some (with_flags
    [(4, if list_ex bit4_is_xz (vec4_bits u @ vec4_bits v) then BIT4_X else hd (eeq_result BIT4_1 BIT4_0 w (vec4_bits u) (vec4_bits v))),
     (5, less_flag True (vec4_bits u) (vec4_bits v)), (6, hd (eeq_result BIT4_1 BIT4_0 w (vec4_bits u) (vec4_bits v)))] thr)"
proof -
  let ?x = "vec4_bits u" and ?y = "vec4_bits v" and ?w = "vec_size u"
  let ?a = "bits_num ?x" and ?b = "bits_num ?y"
  have len: "length ?x = length ?y" using assms(2) by simp
  have xz: "vec4_has_xz u \<or> vec4_has_xz v \<longleftrightarrow> list_ex bit4_is_xz (?x @ ?y)"
    using vec4_has_xz_iff[of u] vec4_has_xz_iff[of v] assms(2,3) by (auto simp: list_ex_iff vec4_bits_def)
  show ?thesis
  proof (cases "list_ex bit4_is_xz (?x @ ?y)")
    case True
    then show ?thesis using xz assms(2) set_flags(4)[OF assms(1)] by (simp add: do_CMPS_def less_flag_def vec4_eeq_iff eeq_result_def)
  next
    case False
    then have known: "\<not> list_ex bit4_is_xz ?x" "\<not> list_ex bit4_is_xz ?y" by simp_all
    have pos: "0 < vec_size v" using assms(2,3) by simp
    note sx = snum_top[OF known(1) assms(3)] and sy = snum_top[OF known(2) pos, unfolded assms(2)[symmetric]]
    have val: "vec4_value u i = (if bit ?a i then BIT4_1 else BIT4_0)" "vec4_value v i = (if bit ?b i then BIT4_1 else BIT4_0)" if "i < ?w" for i
      using known_value[OF known(1), of i] known_value[OF known(2), of i] that assms(2) by simp_all
    have "map (\<lambda>idx. (vec4_value u (?w - 1 - idx), vec4_value v (?w - 1 - idx))) [1..<?w] =
        map (\<lambda>k. (if bit ?a k then BIT4_1 else BIT4_0, if bit ?b k then BIT4_1 else BIT4_0)) (rev [0..<?w - 1])"
      by (rule nth_equalityI) (simp_all add: val rev_nth)
    then have scan: "cmps_scan (map (\<lambda>idx. (vec4_value u (?w - 1 - idx), vec4_value v (?w - 1 - idx))) [1..<?w]) =
        (if take_bit (?w - 1) ?a = take_bit (?w - 1) ?b then BIT4_1 else BIT4_0, if take_bit (?w - 1) ?a < take_bit (?w - 1) ?b then BIT4_1 else BIT4_0)"
      by (simp only: cmps_scan_bits)
    define la lb P where "la = take_bit (?w - 1) ?a" and "lb = take_bit (?w - 1) ?b" and "P = (2 :: int) ^ (?w - 1)"
    have split: "?a = la + P * of_bool (bit ?a (?w - 1))" "?b = lb + P * of_bool (bit ?b (?w - 1))"
      using take_bit_Suc_top[of "?w - 1" ?a] take_bit_Suc_top[of "?w - 1" ?b] num_range[of u] num_range[of v] assms(2,3)
      by (simp_all add: take_bit_int_eq_self la_def lb_def P_def)
    have low: "la < P" "0 \<le> la" "lb < P" "0 \<le> lb" by (simp_all add: la_def lb_def P_def)
    have P2: "(2 :: int) ^ ?w = 2 * P" unfolding P_def using assms(3) by (simp flip: power_Suc)
    have top: "vec4_value u (?w - 1) = (if bit ?a (?w - 1) then BIT4_1 else BIT4_0)" "vec4_value v (?w - 1) = (if bit ?b (?w - 1) then BIT4_1 else BIT4_0)"
      using val assms(3) by simp_all
    have sn: "bits_snum ?x = la - P * of_bool (bit ?a (?w - 1))" "bits_snum ?y = lb - P * of_bool (bit ?b (?w - 1))"
      using sx sy split top P2 by (auto split: if_splits)
    have eq: "?x = ?y \<longleftrightarrow> ?a = ?b" using bits_num_eq_iff[OF False len] by simp
    have less: "bits_snum ?x < bits_snum ?y \<longleftrightarrow>
        bit ?a (?w - 1) \<and> \<not> bit ?b (?w - 1) \<or> (bit ?a (?w - 1) = bit ?b (?w - 1)) \<and> la < lb"
      unfolding sn using low by (cases "bit ?a (?w - 1)"; cases "bit ?b (?w - 1)") simp_all
    have same: "?a = ?b \<longleftrightarrow> bit ?a (?w - 1) = bit ?b (?w - 1) \<and> la = lb"
    proof
      assume "?a = ?b"
      then show "bit ?a (?w - 1) = bit ?b (?w - 1) \<and> la = lb" by (simp add: la_def lb_def)
    next
      assume "bit ?a (?w - 1) = bit ?b (?w - 1) \<and> la = lb"
      then have "la + P * of_bool (bit ?a (?w - 1)) = lb + P * of_bool (bit ?b (?w - 1))" by simp
      then show "?a = ?b" unfolding split[symmetric] .
    qed
    note scan = scan[folded la_def lb_def]
    show ?thesis
      using False xz assms(2) set_flags(4)[OF assms(1)] scan top less eq same
      by (cases "bit ?a (?w - 1)"; cases "bit ?b (?w - 1)") (simp_all add: do_CMPS_def less_flag_def eeq_result_def)
  qed
qed

lemma do_CMPXZ_flags:
  assumes "flags_ok thr" "vec_size u = vec_size v"
  shows "do_CMPX u v thr = Some (with_flags [(4, if some_pair (\<lambda>a b. a \<noteq> b \<and> \<not> bit4_is_xz a \<and> \<not> bit4_is_xz b) (vec4_bits u) (vec4_bits v) then BIT4_0 else BIT4_1)] thr)"
    "do_CMPZ u v thr = Some (with_flags [(4, if some_pair (\<lambda>a b. a \<noteq> b \<and> b \<noteq> BIT4_Z \<and> a \<noteq> BIT4_Z) (vec4_bits u) (vec4_bits v) then BIT4_0 else BIT4_1)] thr)"
  using set_flags(2)[OF assms(1)] assms(2) by (simp_all add: do_CMPX_def do_CMPZ_def bit_pairs_zip some_pair_def)

end
