(* ===== verification/Thread_Typing.thy ===== *)
theory Thread_Typing
  imports Thread_Compare
begin

text \<open>
  The instructions of a thread as a datatype, their execution by the loop of \<^verbatim>\<open>vthread_run\<close>, and a type
  system for the stacks: the widths of the vectors and the numbers of reals and strings at each point of a
  program. Code that passes the check never hits an \<^verbatim>\<open>assert\<close> and never leaves a stack or register file.
\<close>

section \<open>Instructions\<close>

datatype bin_op = ADD | SUB | MUL | DIV | DIV_S | MOD | MOD_S | POW | POW_S
  | B_AND | B_OR | B_NAND | B_NOR | B_XNOR | B_XOR | BLEND

datatype imm_op = ADDI | SUBI | MULI

datatype un_op = INV | CAST2 | ANDR | NANDR | ORR | NORR | XORR | XNORR

datatype cmp_op = CMPE | CMPNE | CMPS | CMPU | CMPX | CMPZ | CMPWE | CMPWNE

datatype cmpi_op = CMPIE | CMPINE | CMPIS | CMPIU

datatype jump_op = JMP | JMP0 | JMP0XZ | JMP1 | JMP1XZ

datatype word_op = IX_ADD | IX_SUB | IX_MUL | IX_LOAD

datatype shift_op = SHIFTL | SHIFTR | SHIFTR_S

datatype stack_op = DUP_VEC4 | DUP_REAL | ABS_WR | CONCAT_STR | CMPSTR | PUSHV_STR | NOOP

datatype instr =
    Bin bin_op
  | Imm imm_op "32 word" "32 word" nat
  | Una un_op
  | Cmp cmp_op
  | CmpI cmpi_op "32 word" "32 word" nat
  | CmpW bool nat nat
  | FLAG_GET_VEC4 nat | FLAG_INV nat | FLAG_MOV nat nat | FLAG_OR nat nat | FLAG_SET_IMM nat nat | FLAG_SET_VEC4 nat
  | CONCAT_VEC4 | CONCATI_VEC4 "32 word" "32 word" nat | REPLICATE nat | PAD bool nat
  | PART bool nat | PARTI bool nat "32 word" nat | SPLIT_VEC4 nat
  | Shift shift_op nat
  | Ix word_op nat "32 word" "32 word" | IX_MOV nat nat | IX_VEC4 bool nat
  | PUSHI_VEC4 "32 word" "32 word" nat | POP_VEC4 nat | POP_REAL nat | POP_STR nat
  | PUSHI_STR string | CONCATI_STR string | CAST_VEC4_STR nat | SUBSTR nat nat | SUBSTR_VEC4 nat nat
  | StackOp stack_op
  | Jump jump_op nat nat
  | DELAY "32 word" "32 word" | DELAYX nat
  | END

primrec of_bin :: "bin_op \<Rightarrow> vthread \<Rightarrow> vthread option" where
  "of_bin ADD = of_ADD" | "of_bin SUB = of_SUB" | "of_bin MUL = of_MUL"
| "of_bin DIV = of_DIV" | "of_bin DIV_S = of_DIV_S" | "of_bin MOD = of_MOD" | "of_bin MOD_S = of_MOD_S"
| "of_bin POW = of_POW" | "of_bin POW_S = of_POW_S"
| "of_bin B_AND = of_AND" | "of_bin B_OR = of_OR" | "of_bin B_NAND = of_NAND" | "of_bin B_NOR = of_NOR"
| "of_bin B_XNOR = of_XNOR" | "of_bin B_XOR = of_XOR" | "of_bin BLEND = of_BLEND"

primrec of_imm :: "imm_op \<Rightarrow> 32 word \<Rightarrow> 32 word \<Rightarrow> nat \<Rightarrow> vthread \<Rightarrow> vthread option" where
  "of_imm ADDI = of_ADDI" | "of_imm SUBI = of_SUBI" | "of_imm MULI = of_MULI"

primrec of_un :: "un_op \<Rightarrow> vthread \<Rightarrow> vthread option" where
  "of_un INV = of_INV" | "of_un CAST2 = of_CAST2" | "of_un ANDR = of_ANDR" | "of_un NANDR = of_NANDR"
| "of_un ORR = of_ORR" | "of_un NORR = of_NORR" | "of_un XORR = of_XORR" | "of_un XNORR = of_XNORR"

primrec of_cmp :: "cmp_op \<Rightarrow> vthread \<Rightarrow> vthread option" where
  "of_cmp CMPE = of_CMPE" | "of_cmp CMPNE = of_CMPNE" | "of_cmp CMPS = of_CMPS" | "of_cmp CMPU = of_CMPU"
| "of_cmp CMPX = of_CMPX" | "of_cmp CMPZ = of_CMPZ" | "of_cmp CMPWE = of_CMPWE" | "of_cmp CMPWNE = of_CMPWNE"

primrec of_cmpi :: "cmpi_op \<Rightarrow> 32 word \<Rightarrow> 32 word \<Rightarrow> nat \<Rightarrow> vthread \<Rightarrow> vthread option" where
  "of_cmpi CMPIE = of_CMPIE" | "of_cmpi CMPINE = of_CMPINE" | "of_cmpi CMPIS = of_CMPIS" | "of_cmpi CMPIU = of_CMPIU"

primrec of_jump :: "jump_op \<Rightarrow> bool \<Rightarrow> nat \<Rightarrow> nat \<Rightarrow> vthread \<Rightarrow> (vthread \<times> op_next) option" where
  "of_jump JMP = (\<lambda>stopped cptr flag. of_JMP stopped cptr)"
| "of_jump JMP0 = of_JMP0" | "of_jump JMP0XZ = of_JMP0XZ" | "of_jump JMP1 = of_JMP1" | "of_jump JMP1XZ = of_JMP1XZ"

primrec of_word :: "word_op \<Rightarrow> nat \<Rightarrow> 32 word \<Rightarrow> 32 word \<Rightarrow> vthread \<Rightarrow> vthread option" where
  "of_word IX_ADD = of_IX_ADD" | "of_word IX_SUB = of_IX_SUB" | "of_word IX_MUL = of_IX_MUL" | "of_word IX_LOAD = of_IX_LOAD"

primrec of_shift :: "shift_op \<Rightarrow> nat \<Rightarrow> vthread \<Rightarrow> vthread option" where
  "of_shift SHIFTL = of_SHIFTL" | "of_shift SHIFTR = of_SHIFTR" | "of_shift SHIFTR_S = of_SHIFTR_S"

primrec of_stack :: "stack_op \<Rightarrow> vthread \<Rightarrow> vthread option" where
  "of_stack DUP_VEC4 = of_DUP_VEC4" | "of_stack DUP_REAL = of_DUP_REAL" | "of_stack ABS_WR = of_ABS_WR"
| "of_stack CONCAT_STR = of_CONCAT_STR" | "of_stack CMPSTR = of_CMPSTR" | "of_stack PUSHV_STR = of_PUSHV_STR"
| "of_stack NOOP = of_NOOP"

text \<open>The opcodes that always go on.\<close>

fun exec_straight :: "instr \<Rightarrow> vthread \<Rightarrow> vthread option" where
  "exec_straight (Bin b) = of_bin b"
| "exec_straight (Imm b va vb wid) = of_imm b va vb wid"
| "exec_straight (Una u) = of_un u"
| "exec_straight (Cmp c) = of_cmp c"
| "exec_straight (CmpI c va vb wid) = of_cmpi c va vb wid"
| "exec_straight (CmpW sf i j) = (if sf then of_CMPWS i j else of_CMPWU i j)"
| "exec_straight (FLAG_GET_VEC4 n) = of_FLAG_GET_VEC4 n"
| "exec_straight (FLAG_INV n) = of_FLAG_INV n"
| "exec_straight (FLAG_MOV a b) = of_FLAG_MOV a b"
| "exec_straight (FLAG_OR a b) = of_FLAG_OR a b"
| "exec_straight (FLAG_SET_IMM n v) = of_FLAG_SET_IMM n v"
| "exec_straight (FLAG_SET_VEC4 n) = of_FLAG_SET_VEC4 n"
| "exec_straight CONCAT_VEC4 = of_CONCAT_VEC4"
| "exec_straight (CONCATI_VEC4 va vb wid) = of_CONCATI_VEC4 va vb wid"
| "exec_straight (REPLICATE n) = of_REPLICATE n"
| "exec_straight (PAD sf wid) = (if sf then of_PAD_S wid else of_PAD_U wid)"
| "exec_straight (PART sf wid) = (if sf then of_PART_S wid else of_PART_U wid)"
| "exec_straight (PARTI sf wid base bwid) = (if sf then of_PARTI_S wid base bwid else of_PARTI_U wid base bwid)"
| "exec_straight (SPLIT_VEC4 wid) = of_SPLIT_VEC4 wid"
| "exec_straight (Shift s n) = of_shift s n"
| "exec_straight (Ix w n lo hi) = of_word w n lo hi"
| "exec_straight (IX_MOV i j) = of_IX_MOV i j"
| "exec_straight (IX_VEC4 sf n) = (if sf then of_IX_VEC4_S n else of_IX_VEC4 n)"
| "exec_straight (PUSHI_VEC4 va vb wid) = of_PUSHI_VEC4 va vb wid"
| "exec_straight (POP_VEC4 n) = of_POP_VEC4 n"
| "exec_straight (POP_REAL n) = of_POP_REAL n"
| "exec_straight (POP_STR n) = of_POP_STR n"
| "exec_straight (PUSHI_STR txt) = of_PUSHI_STR txt"
| "exec_straight (CONCATI_STR txt) = of_CONCATI_STR txt"
| "exec_straight (SUBSTR i j) = of_SUBSTR i j"
| "exec_straight (SUBSTR_VEC4 i wid) = of_SUBSTR_VEC4 i wid"
| "exec_straight (StackOp s) = of_stack s"
| "exec_straight _ = (\<lambda>_. None)"

fun exec :: "bool \<Rightarrow> instr \<Rightarrow> vthread \<Rightarrow> (vthread \<times> op_next) option" where
  "exec stopped (Jump j cptr flag) thr = of_jump j stopped cptr flag thr"
| "exec stopped (CAST_VEC4_STR wid) thr =
     map_option (\<lambda>(thr, on). (thr, if on then Go else Pause_stop)) (of_CAST_VEC4_STR wid thr)"
| "exec stopped (DELAY lo hi) thr = of_DELAY lo hi thr"
| "exec stopped (DELAYX n) thr = of_DELAYX n thr"
| "exec stopped END thr = Some (thr, Pause_end)"
| "exec stopped i thr = map_option (\<lambda>thr. (thr, Go)) (exec_straight i thr)"

text \<open>
  One round of the loop of \<^verbatim>\<open>vthread_run\<close>: fetch, increment the program counter, execute. The code of a
  program is a list; \<open>None\<close> is a failing \<^verbatim>\<open>assert\<close> or a fetch outside the code. The loop has fuel; \<open>Go\<close>
  after the last round means that the thread would go on.
\<close>

definition thread_step :: "instr list \<Rightarrow> bool \<Rightarrow> vthread \<Rightarrow> (vthread \<times> op_next) option" where
  "thread_step code stopped thr =
     (let cp = thr_pc thr
      in if cp < length code then exec stopped (code ! cp) (thr\<lparr>thr_pc := cp + 1\<rparr>) else None)"

fun thread_loop :: "nat \<Rightarrow> instr list \<Rightarrow> bool \<Rightarrow> vthread \<Rightarrow> (vthread \<times> op_next) option" where
  "thread_loop 0 code stopped thr = Some (thr, Go)"
| "thread_loop (Suc k) code stopped thr =
     (case thread_step code stopped thr of
        Some (thr, Go) \<Rightarrow> thread_loop k code stopped thr
      | r \<Rightarrow> r)"

section \<open>Types of stacks\<close>

text \<open>The widths of the vectors from the top down, the number of reals, the number of strings.\<close>

record stype =
  ty_vec4 :: "nat list"
  ty_real :: nat
  ty_str :: nat

definition typed :: "vthread \<Rightarrow> stype \<Rightarrow> bool" where
  "typed thr ty \<longleftrightarrow> map vec_size (stack_vec4 thr) = ty_vec4 ty \<and> (\<forall>v\<in>set (stack_vec4 thr). vec4_wf v \<and> 0 < vec_size v) \<and>
     length (stack_real thr) = ty_real ty \<and> length (stack_str thr) = ty_str ty \<and>
     length (thr_flags thr) = FLAGS_COUNT \<and> length (thr_words thr) = WORDS_COUNT"

definition need :: "bool \<Rightarrow> 'a \<Rightarrow> 'a option" where
  "need c x = (if c then Some x else None)"

text \<open>What an instruction asks of the stacks and what it makes of them.\<close>

fun check_vec4 :: "instr \<Rightarrow> nat list \<Rightarrow> nat list option" where
  "check_vec4 (Bin b) (r # l # ws) = need (l = r) (l # ws)"
| "check_vec4 (Imm b va vb wid) (l # ws) = need (l = wid) (l # ws)"
| "check_vec4 (Una u) (w # ws) = Some ((if u = INV \<or> u = CAST2 then w else 1) # ws)"
| "check_vec4 (Cmp c) (r # l # ws) = need (l = r) ws"
| "check_vec4 (CmpI c va vb wid) (l # ws) = need (l = wid) ws"
| "check_vec4 (CmpW sf i j) ws = need (i < 16 \<and> j < 16) ws"
| "check_vec4 (FLAG_GET_VEC4 n) ws = need (n < 256) (1 # ws)"
| "check_vec4 (FLAG_INV n) ws = need (n < 256) ws"
| "check_vec4 (FLAG_MOV a b) ws = need (a < 256 \<and> b < 256) ws"
| "check_vec4 (FLAG_OR a b) ws = need (a < 256 \<and> b < 256) ws"
| "check_vec4 (FLAG_SET_IMM n v) ws = need (n < 256 \<and> v < 4) ws"
| "check_vec4 (FLAG_SET_VEC4 n) (w # ws) = need (n < 256) ws"
| "check_vec4 CONCAT_VEC4 (l # m # ws) = Some ((m + l) # ws)"
| "check_vec4 (CONCATI_VEC4 va vb wid) (m # ws) = need (0 < wid) ((m + wid) # ws)"
| "check_vec4 (REPLICATE n) (w # ws) = need (0 < n) ((w * n) # ws)"
| "check_vec4 (PAD sf wid) (w # ws) = need (0 < wid) (wid # ws)"
| "check_vec4 (PART sf wid) (b # w # ws) = need (0 < wid \<and> w + wid < 2 ^ 31) (wid # ws)"
| "check_vec4 (PARTI sf wid base bwid) (w # ws) = need (0 < wid \<and> w + wid < 2 ^ 31) (wid # ws)"
| "check_vec4 (SPLIT_VEC4 wid) (w # ws) = need (0 < wid \<and> wid < w) (wid # (w - wid) # ws)"
| "check_vec4 (Shift s n) (w # ws) = need (n < 16) (w # ws)"
| "check_vec4 (Ix x n lo hi) ws = need (n < 16) ws"
| "check_vec4 (IX_MOV i j) ws = need (i < 16 \<and> j < 16) ws"
| "check_vec4 (IX_VEC4 sf n) (w # ws) = need (n < 16) ws"
| "check_vec4 (PUSHI_VEC4 va vb wid) ws = need (0 < wid) (wid # ws)"
| "check_vec4 (POP_VEC4 n) ws = need (n \<le> length ws) (drop n ws)"
| "check_vec4 (POP_REAL n) ws = Some ws"
| "check_vec4 (POP_STR n) ws = Some ws"
| "check_vec4 (PUSHI_STR txt) ws = Some ws"
| "check_vec4 (CONCATI_STR txt) ws = Some ws"
| "check_vec4 (CAST_VEC4_STR wid) ws = need (0 < wid) (wid # ws)"
| "check_vec4 (SUBSTR i j) ws = need (i < 16 \<and> j < 16) ws"
| "check_vec4 (SUBSTR_VEC4 i wid) ws = need (i < 16 \<and> wid = 8) (8 # ws)"
| "check_vec4 (StackOp s) ws =
     (if s = DUP_VEC4 then (case ws of w # _ \<Rightarrow> Some (w # ws) | [] \<Rightarrow> None)
      else if s = PUSHV_STR then (case ws of w # ws \<Rightarrow> Some ws | [] \<Rightarrow> None)
      else Some ws)"
| "check_vec4 (Jump j cptr flag) ws = need (flag < 256) ws"
| "check_vec4 (DELAY lo hi) ws = Some ws"
| "check_vec4 (DELAYX n) ws = need (n < 16) ws"
| "check_vec4 END ws = Some ws"
| "check_vec4 _ _ = None"

fun check_real :: "instr \<Rightarrow> nat \<Rightarrow> nat option" where
  "check_real (POP_REAL n) k = need (n \<le> k) (k - n)"
| "check_real (StackOp s) k =
     (if s = DUP_REAL then need (0 < k) (k + 1) else if s = ABS_WR then need (0 < k) k else Some k)"
| "check_real _ k = Some k"

fun check_str :: "instr \<Rightarrow> nat \<Rightarrow> nat option" where
  "check_str (POP_STR n) k = need (n \<le> k) (k - n)"
| "check_str (PUSHI_STR txt) k = Some (k + 1)"
| "check_str (CONCATI_STR txt) k = need (0 < k) k"
| "check_str (CAST_VEC4_STR wid) k = need (0 < k) (k - 1)"
| "check_str (SUBSTR i j) k = need (0 < k) k"
| "check_str (SUBSTR_VEC4 i wid) k = need (0 < k) k"
| "check_str (StackOp s) k =
     (if s = CONCAT_STR then need (1 < k) (k - 1) else if s = CMPSTR then need (1 < k) (k - 2)
      else if s = PUSHV_STR then Some (k + 1) else Some k)"
| "check_str _ k = Some k"

definition check :: "instr \<Rightarrow> stype \<Rightarrow> stype option" where
  "check i ty =
     (case (check_vec4 i (ty_vec4 ty), check_real i (ty_real ty), check_str i (ty_str ty)) of
        (Some ws, Some r, Some s) \<Rightarrow> Some \<lparr>ty_vec4 = ws, ty_real = r, ty_str = s\<rparr>
      | _ \<Rightarrow> None)"

text \<open>Where an instruction at \<open>pc\<close> can go on.\<close>

fun successors :: "nat \<Rightarrow> instr \<Rightarrow> nat list" where
  "successors pc END = []"
| "successors pc (Jump j cptr flag) = (if j = JMP then [cptr] else [cptr, pc + 1])"
| "successors pc _ = [pc + 1]"

text \<open>A program is well typed when every point that has a type passes the check and hands it on.\<close>

definition well_typed :: "instr list \<Rightarrow> (nat \<Rightarrow> stype option) \<Rightarrow> bool" where
  "well_typed code tys \<longleftrightarrow>
     list_all (\<lambda>pc. case tys pc of
         None \<Rightarrow> True
       | Some ty \<Rightarrow> (case check (code ! pc) ty of
           None \<Rightarrow> False
         | Some ty' \<Rightarrow> list_all (\<lambda>q. q < length code \<and> tys q = Some ty') (successors pc (code ! pc))))
       [0..<length code]"

end
