(* ===== verification/Thread_Sound.thy ===== *)
theory Thread_Sound
  imports Thread_Typing
begin

text \<open>
  What the instructions of \<open>Thread_Typing\<close> compute on their operands, and the soundness of its type system.
\<close>

section \<open>Binary operators\<close>

text \<open>The result of an operator of two operands of width \<open>w\<close>, as a function of their bits.\<close>

fun bin_result :: "bin_op \<Rightarrow> nat \<Rightarrow> vvp_bit4_t list \<Rightarrow> vvp_bit4_t list \<Rightarrow> vvp_bit4_t list" where
  "bin_result ADD w = lift_int4 w (+)" | "bin_result SUB w = lift_int4 w (-)" | "bin_result MUL w = lift_int4 w (*)"
| "bin_result DIV w = quotient_bits False w" | "bin_result DIV_S w = quotient_bits True w"
| "bin_result MOD w = mod_result False w" | "bin_result MOD_S w = mod_result True w"
| "bin_result POW w = power_result False w" | "bin_result POW_S w = power_result True w"
| "bin_result B_AND w = map2 bit4_and" | "bin_result B_OR w = map2 bit4_or"
| "bin_result B_NAND w = map2 (\<lambda>a b. bit4_not (bit4_and a b))" | "bin_result B_NOR w = map2 (\<lambda>a b. bit4_not (bit4_or a b))"
| "bin_result B_XNOR w = map2 (\<lambda>a b. bit4_not (bit4_xor a b))" | "bin_result B_XOR w = map2 bit4_xor"
| "bin_result BLEND w = map2 merge_bit"

text \<open>The division of vectors wider than a word is exact for a divisor of at most one word.\<close>

fun exact_for :: "bin_op \<Rightarrow> nat \<Rightarrow> vvp_bit4_t list \<Rightarrow> bool" where
  "exact_for DIV w ys = (w \<le> 64 \<or> bits_num ys < 2 ^ 64)"
| "exact_for DIV_S w ys = (w \<le> 64 \<or> \<bar>bits_snum ys\<bar> < 2 ^ 64)"
| "exact_for _ w ys = True"

lemma merge_bit_commute: "map2 merge_bit xs ys = map2 merge_bit ys xs"
proof (induction xs arbitrary: ys)
  case (Cons x xs)
  then show ?case by (cases ys) (auto simp: merge_bit_def)
qed simp

lemma bits_sized:
  assumes "\<exists>x. r = Some x \<and> vec4_wf x \<and> vec4_bits x = bs" "length bs = w"
  shows "\<exists>x. r = Some x \<and> vec4_wf x \<and> vec_size x = w \<and> vec4_bits x = bs"
  using assms by (metis length_vec4_bits)

lemma length_results [simp]:
  "length (mod_result sf w xs ys) = w" "length (power_result sf w xs ys) = w" "length (quotient_bits sf w xs ys) = w"
  by (simp_all add: mod_result_def power_result_def quotient_bits_def)

lemma of_bin_fun:
  "\<exists>f. of_bin b = on_top_two f \<and> (\<forall>u v w. vec4_wf u \<and> vec4_wf v \<and> vec_size u = w \<and> vec_size v = w \<and> 0 < w \<longrightarrow>
     (\<exists>x. f u v = Some x \<and> vec4_wf x \<and> vec_size x = w \<and>
       (exact_for b w (vec4_bits v) \<longrightarrow> vec4_bits x = bin_result b w (vec4_bits u) (vec4_bits v))))"
proof (cases b)
  case ADD
  have "\<exists>x. vec4_add u v = Some x \<and> vec4_wf x \<and> vec_size x = w \<and> vec4_bits x = bin_result b w (vec4_bits u) (vec4_bits v)"
    if "vec4_wf u" "vec4_wf v" "vec_size u = w" "vec_size v = w" for u v w
    using vec4_add_bits[of u v] that ADD by auto
  then show ?thesis using ADD by (intro exI[of _ vec4_add]) (auto simp: of_ADD_def)
next
  case SUB
  have "\<exists>x. vec4_sub u v = Some x \<and> vec4_wf x \<and> vec_size x = w \<and> vec4_bits x = bin_result b w (vec4_bits u) (vec4_bits v)"
    if "vec4_wf u" "vec4_wf v" "vec_size u = w" "vec_size v = w" for u v w
    using vec4_sub_bits[of u v] that SUB by auto
  then show ?thesis using SUB by (intro exI[of _ vec4_sub]) (auto simp: of_SUB_def)
next
  case MUL
  have "\<exists>x. vec4_mul u v = Some x \<and> vec4_wf x \<and> vec_size x = w \<and> vec4_bits x = bin_result b w (vec4_bits u) (vec4_bits v)"
    if "vec4_wf u" "vec4_wf v" "vec_size u = w" "vec_size v = w" for u v w
    using vec4_mul_bits[of u v] that MUL by auto
  then show ?thesis using MUL by (intro exI[of _ vec4_mul]) (auto simp: of_MUL_def)
next
  case DIV
  then show ?thesis using div_vectors_bits by (intro exI[of _ div_vectors]) (auto simp: of_DIV_def)
next
  case DIV_S
  then show ?thesis using div_signed_vectors_bits by (intro exI[of _ div_signed_vectors]) (auto simp: of_DIV_S_def)
next
  case MOD
  have "\<exists>x. mod_vectors u v = Some x \<and> vec4_wf x \<and> vec_size x = w \<and> vec4_bits x = mod_result False w (vec4_bits u) (vec4_bits v)"
    if "vec4_wf u" "vec_size u = w" "vec_size v = w" "0 < w" for u v w
    using mod_vectors_bits[OF that, of False] by (intro bits_sized) simp_all
  then show ?thesis using MOD by (intro exI[of _ mod_vectors]) (auto simp: of_MOD_def)
next
  case MOD_S
  have "\<exists>x. mod_signed_vectors u v = Some x \<and> vec4_wf x \<and> vec_size x = w \<and> vec4_bits x = mod_result True w (vec4_bits u) (vec4_bits v)"
    if "vec4_wf u" "vec_size u = w" "vec_size v = w" "0 < w" for u v w
    using mod_vectors_bits[OF that, of True] by (intro bits_sized) simp_all
  then show ?thesis using MOD_S by (intro exI[of _ mod_signed_vectors]) (auto simp: of_MOD_S_def)
next
  case POW
  have "\<exists>x. pow_vectors False u v = Some x \<and> vec4_wf x \<and> vec_size x = w \<and> vec4_bits x = power_result False w (vec4_bits u) (vec4_bits v)"
    if "vec4_wf u" "vec4_wf v" "vec_size u = w" "vec_size v = w" "0 < w" for u v w
    using pow_vectors_bits[OF that(1,3,5,2), of False] that(4,5) by (intro bits_sized) simp_all
  then show ?thesis using POW by (intro exI[of _ "pow_vectors False"]) (auto simp: of_POW_def)
next
  case POW_S
  have "\<exists>x. pow_vectors True u v = Some x \<and> vec4_wf x \<and> vec_size x = w \<and> vec4_bits x = power_result True w (vec4_bits u) (vec4_bits v)"
    if "vec4_wf u" "vec4_wf v" "vec_size u = w" "vec_size v = w" "0 < w" for u v w
    using pow_vectors_bits[OF that(1,3,5,2), of True] that(4,5) by (intro bits_sized) simp_all
  then show ?thesis using POW_S by (intro exI[of _ "pow_vectors True"]) (auto simp: of_POW_S_def)
next
  case B_AND
  have "vec4_bits (vec4_and_assign u v) = map2 bit4_and (vec4_bits u) (vec4_bits v)"
    if "vec4_wf u" "vec4_wf v" "vec_size u = vec_size v" for u v using vec4_and_bits that by simp
  then show ?thesis
    using B_AND by (intro exI[of _ "\<lambda>u v. if vec_size u \<noteq> vec_size v then None else Some (vec4_and_assign u v)"])
      (auto simp: of_AND_def vsize)
next
  case B_OR
  have "vec4_bits (vec4_or_assign u v) = map2 bit4_or (vec4_bits u) (vec4_bits v)"
    if "vec4_wf u" "vec4_wf v" "vec_size u = vec_size v" for u v using vec4_or_bits that by simp
  then show ?thesis using B_OR by (intro exI[of _ "\<lambda>u v. Some (vec4_or_assign u v)"]) (auto simp: of_OR_def vsize)
next
  case B_NAND
  have "\<exists>x. bit_loop (\<lambda>a b. bit4_not (bit4_and a b)) u v = Some x \<and> vec4_wf x \<and> vec_size x = w \<and> vec4_bits x = bin_result b w (vec4_bits u) (vec4_bits v)"
    if "vec4_wf u" "vec_size u = w" "vec_size v = w" for u v w
    using bit_loop_bits[of u v "\<lambda>a b. bit4_not (bit4_and a b)"] that B_NAND by auto
  then show ?thesis using B_NAND by (intro exI[of _ "bit_loop (\<lambda>a b. bit4_not (bit4_and a b))"]) (auto simp: of_NAND_def)
next
  case B_NOR
  have "\<exists>x. bit_loop (\<lambda>a b. bit4_not (bit4_or a b)) u v = Some x \<and> vec4_wf x \<and> vec_size x = w \<and> vec4_bits x = bin_result b w (vec4_bits u) (vec4_bits v)"
    if "vec4_wf u" "vec_size u = w" "vec_size v = w" for u v w
    using bit_loop_bits[of u v "\<lambda>a b. bit4_not (bit4_or a b)"] that B_NOR by auto
  then show ?thesis using B_NOR by (intro exI[of _ "bit_loop (\<lambda>a b. bit4_not (bit4_or a b))"]) (auto simp: of_NOR_def)
next
  case B_XNOR
  have "\<exists>x. bit_loop (\<lambda>a b. bit4_not (bit4_xor a b)) u v = Some x \<and> vec4_wf x \<and> vec_size x = w \<and> vec4_bits x = bin_result b w (vec4_bits u) (vec4_bits v)"
    if "vec4_wf u" "vec_size u = w" "vec_size v = w" for u v w
    using bit_loop_bits[of u v "\<lambda>a b. bit4_not (bit4_xor a b)"] that B_XNOR by auto
  then show ?thesis using B_XNOR by (intro exI[of _ "bit_loop (\<lambda>a b. bit4_not (bit4_xor a b))"]) (auto simp: of_XNOR_def)
next
  case B_XOR
  have "\<exists>x. bit_loop bit4_xor u v = Some x \<and> vec4_wf x \<and> vec_size x = w \<and> vec4_bits x = bin_result b w (vec4_bits u) (vec4_bits v)"
    if "vec4_wf u" "vec_size u = w" "vec_size v = w" for u v w
    using bit_loop_bits[of u v "bit4_xor"] that B_XOR by auto
  then show ?thesis using B_XOR by (intro exI[of _ "bit_loop bit4_xor"]) (auto simp: of_XOR_def)
next
  case BLEND
  define f where "f = (\<lambda>valb vala. if vec_size vala \<noteq> vec_size valb then None
     else foldM (\<lambda>idx v. let b = vec4_value v idx
         in if b = vec4_value valb idx \<and> b \<noteq> BIT4_Z then Some v else vec4_set_bit v idx BIT4_X) [0..<vec_size vala] vala)"
  have "\<exists>x. f u v = Some x \<and> vec4_wf x \<and> vec_size x = w \<and> vec4_bits x = map2 merge_bit (vec4_bits u) (vec4_bits v)"
    if "vec4_wf v" "vec_size u = w" "vec_size v = w" for u v w
    using blend_bits[OF that(1), of u] that(2,3) merge_bit_commute by (auto simp: f_def)
  then show ?thesis using BLEND by (intro exI[of _ f]) (auto simp: of_BLEND_def f_def)
qed

section \<open>One instruction\<close>

lemma typed_two:
  assumes "typed thr ty" "ty_vec4 ty = r # l # ws"
  obtains v u rest where "stack_vec4 thr = v # u # rest" "vec4_wf v" "vec4_wf u" "vec_size v = r" "vec_size u = l" "0 < r" "0 < l"
    "map vec_size rest = ws" "\<forall>x\<in>set rest. vec4_wf x \<and> 0 < vec_size x"
  using assms by (auto simp: typed_def)

lemma typed_one:
  assumes "typed thr ty" "ty_vec4 ty = l # ws"
  obtains u rest where "stack_vec4 thr = u # rest" "vec4_wf u" "vec_size u = l" "0 < l"
    "map vec_size rest = ws" "\<forall>x\<in>set rest. vec4_wf x \<and> 0 < vec_size x"
  using assms by (auto simp: typed_def)

definition result_typed :: "vthread option \<Rightarrow> nat \<Rightarrow> stype \<Rightarrow> bool" where
  "result_typed r pc ty \<longleftrightarrow> (\<exists>thr. r = Some thr \<and> thr_pc thr = pc \<and> typed thr ty)"

lemma on_top_two_typed:
  assumes "typed thr ty" "ty_vec4 ty = r # l # ws" "0 < w"
    and "\<And>u v. vec4_wf u \<Longrightarrow> vec4_wf v \<Longrightarrow> vec_size u = l \<Longrightarrow> vec_size v = r \<Longrightarrow> 0 < l \<Longrightarrow> 0 < r \<Longrightarrow>
      \<exists>x. f u v = Some x \<and> vec4_wf x \<and> vec_size x = w"
  shows "result_typed (on_top_two f thr) (thr_pc thr) (ty\<lparr>ty_vec4 := w # ws\<rparr>)"
proof (rule typed_two[OF assms(1,2)])
  fix v u rest
  assume s: "stack_vec4 thr = v # u # rest" "vec4_wf v" "vec4_wf u" "vec_size v = r" "vec_size u = l" "0 < r" "0 < l"
    "map vec_size rest = ws" "\<forall>x\<in>set rest. vec4_wf x \<and> 0 < vec_size x"
  then obtain x where "f u v = Some x" "vec4_wf x" "vec_size x = w" using assms(4) by blast
  then show ?thesis using s assms(1,3) by (simp add: result_typed_def on_top_two_eq typed_def)
qed

lemma on_top_typed:
  assumes "typed thr ty" "ty_vec4 ty = l # ws" "0 < w"
    and "\<And>u. vec4_wf u \<Longrightarrow> vec_size u = l \<Longrightarrow> 0 < l \<Longrightarrow> \<exists>x. f u = Some x \<and> vec4_wf x \<and> vec_size x = w"
  shows "result_typed (on_top f thr) (thr_pc thr) (ty\<lparr>ty_vec4 := w # ws\<rparr>)"
proof (rule typed_one[OF assms(1,2)])
  fix u rest
  assume s: "stack_vec4 thr = u # rest" "vec4_wf u" "vec_size u = l" "0 < l"
    "map vec_size rest = ws" "\<forall>x\<in>set rest. vec4_wf x \<and> 0 < vec_size x"
  then obtain x where "f u = Some x" "vec4_wf x" "vec_size x = w" using assms(4) by blast
  then show ?thesis using s assms(1,3) by (simp add: result_typed_def on_top_eq typed_def)
qed

lemma with_flags_simps [simp]:
  "stack_vec4 (with_flags fs thr) = stack_vec4 thr" "stack_real (with_flags fs thr) = stack_real thr"
  "stack_str (with_flags fs thr) = stack_str thr" "thr_words (with_flags fs thr) = thr_words thr" "thr_pc (with_flags fs thr) = thr_pc thr"
  by (simp_all add: with_flags_def)

lemma length_with_flags [simp]: "length (thr_flags (with_flags fs thr)) = length (thr_flags thr)"
proof -
  have "length (fold (\<lambda>(n, b) flags. flags[n := b]) fs xs) = length xs" for xs :: "vvp_bit4_t list"
    by (induction fs arbitrary: xs) (auto split: prod.splits)
  then show ?thesis by (simp add: with_flags_def)
qed

lemma typed_flags_ok: "typed thr ty \<Longrightarrow> flags_ok thr"
  by (simp add: typed_def flags_ok_def)

lemma typed_with_flags [simp]: "typed (with_flags fs thr) ty = typed thr ty"
  by (simp add: typed_def)

lemma flags_rewritten: "(xs[4 := a, 6 := b])[4 := c] = xs[4 := c, 6 := b]"
  by (simp add: list_update_swap[of 6 4])

lemma invert_flag_flags:
  assumes "flags_ok thr"
  shows "n < 256 \<Longrightarrow> \<exists>b. invert_flag n thr = Some (with_flags [(n, b)] thr)"
    "invert_flag 4 (with_flags [(4, eq)] thr) = Some (with_flags [(4, bit4_not eq)] thr)"
    "Option.bind (invert_flag 4 (with_flags [(4, eq), (6, eeq)] thr)) (invert_flag 6) = Some (with_flags [(4, bit4_not eq), (6, bit4_not eeq)] thr)"
  using assms by (auto simp: invert_flag_def get_flag_def set_flag_def with_flags_def flags_ok_def FLAGS_COUNT_def flags_rewritten)

text \<open>The comparisons set flags and drop their operands.\<close>

lemma do_CMPNE_flags:
  assumes "flags_ok thr" "vec_size u = vec_size v" "0 < vec_size u"
  shows "do_CMPNE u v thr = Some (with_flags [(4, bit4_not (hd (eq_result BIT4_1 BIT4_0 w (vec4_bits u) (vec4_bits v)))),
    (6, bit4_not (hd (eeq_result BIT4_1 BIT4_0 w (vec4_bits u) (vec4_bits v))))] thr)"
  using do_CMPE_flags[OF assms, of w] invert_flag_flags(3)[OF assms(1)] by (simp add: do_CMPNE_def)

lemma of_cmp_flags:
  assumes "flags_ok thr" "vec4_wf u" "vec4_wf v" "vec_size u = vec_size v" "0 < vec_size u"
  shows "\<exists>f. of_cmp c = compare_top_two f \<and> (\<exists>fs. f u v thr = Some (with_flags fs thr))"
proof (cases c)
  case CMPE
  then show ?thesis using do_CMPE_flags[OF assms(1,4,5)] by (auto simp: of_CMPE_def)
next
  case CMPNE
  then show ?thesis using do_CMPNE_flags[OF assms(1,4,5)] by (auto simp: of_CMPNE_def)
next
  case CMPS
  then show ?thesis using do_CMPS_flags[OF assms(1,4,5)] by (auto simp: of_CMPS_def)
next
  case CMPU
  then show ?thesis using do_CMPU_flags[OF assms] by (auto simp: of_CMPU_def)
next
  case CMPX
  then show ?thesis using do_CMPXZ_flags[OF assms(1,4)] by (auto simp: of_CMPX_def)
next
  case CMPZ
  then show ?thesis using do_CMPXZ_flags[OF assms(1,4)] by (auto simp: of_CMPZ_def)
next
  case CMPWE
  then show ?thesis using do_CMPWE_flags[OF assms(1,4,5)] by (auto simp: of_CMPWE_def)
next
  case CMPWNE
  then show ?thesis
    using do_CMPWE_flags[OF assms(1,4,5), of 0] invert_flag_flags(2)[OF assms(1)]
    by (intro exI[of _ "\<lambda>lval rval thr. Option.bind (do_CMPWE lval rval thr) (invert_flag 4)"]) (auto simp: of_CMPWNE_def)
qed

lemma of_cmpi_flags:
  assumes "flags_ok thr" "vec4_wf u" "vec_size u = wid" "0 < wid"
  shows "\<exists>f. of_cmpi c va vb wid = compare_immediate f va vb wid \<and> (\<exists>fs. with_immediate va vb wid (\<lambda>r. f u r thr) = Some (with_flags fs thr))"
proof -
  obtain r where r: "get_immediate_rval va vb wid (vec4_new wid BIT4_0) = Some r" "vec4_wf r" "vec_size r = wid"
    using get_immediate_bits[OF assms(4), of va vb] by blast
  have sz: "vec_size u = vec_size r" "0 < vec_size u" using assms r by simp_all
  show ?thesis
  proof (cases c)
    case CMPIE
    then show ?thesis
      using do_CMPE_flags[OF assms(1) sz] r(1) by (intro exI[of _ do_CMPE]) (auto simp: of_CMPIE_def with_immediate_def)
  next
    case CMPINE
    then show ?thesis
      using do_CMPNE_flags[OF assms(1) sz] r(1) by (intro exI[of _ do_CMPNE]) (auto simp: of_CMPINE_def with_immediate_def)
  next
    case CMPIS
    then show ?thesis
      using do_CMPS_flags[OF assms(1) sz] r(1) by (intro exI[of _ do_CMPS]) (auto simp: of_CMPIS_def with_immediate_def)
  next
    case CMPIU
    then show ?thesis
      using do_CMPU_flags[OF assms(1,2) r(2) sz] r(1) by (intro exI[of _ do_CMPU]) (auto simp: of_CMPIU_def with_immediate_def)
  qed
qed

lemma compare_typed:
  assumes "typed thr ty" "ty_vec4 ty = l # l # ws"
  shows "result_typed (of_cmp c thr) (thr_pc thr) (ty\<lparr>ty_vec4 := ws\<rparr>)"
proof (rule typed_two[OF assms])
  fix v u rest
  assume s: "stack_vec4 thr = v # u # rest" "vec4_wf v" "vec4_wf u" "vec_size v = l" "vec_size u = l" "0 < l"
    "map vec_size rest = ws" "\<forall>x\<in>set rest. vec4_wf x \<and> 0 < vec_size x"
  have "vec_size u = vec_size v" "0 < vec_size u" using s by simp_all
  then obtain f fs where f: "of_cmp c = compare_top_two f" "f u v thr = Some (with_flags fs thr)"
    using of_cmp_flags[OF typed_flags_ok[OF assms(1)] s(3,2)] by blast
  have "typed (with_flags fs thr) ty" using assms(1) by simp
  then show ?thesis
    using s f by (simp add: result_typed_def compare_top_two_def peek_vec4_def pop_vec4_cnt_def) (simp add: typed_def)
qed

lemma compare_immediate_typed:
  assumes "typed thr ty" "ty_vec4 ty = l # ws"
  shows "result_typed (of_cmpi c va vb l thr) (thr_pc thr) (ty\<lparr>ty_vec4 := ws\<rparr>)"
proof (rule typed_one[OF assms])
  fix u rest
  assume s: "stack_vec4 thr = u # rest" "vec4_wf u" "vec_size u = l" "0 < l"
    "map vec_size rest = ws" "\<forall>x\<in>set rest. vec4_wf x \<and> 0 < vec_size x"
  obtain f fs where f: "of_cmpi c va vb l = compare_immediate f va vb l" "with_immediate va vb l (\<lambda>r. f u r thr) = Some (with_flags fs thr)"
    using of_cmpi_flags[OF typed_flags_ok[OF assms(1)] s(2-4)] by blast
  have "typed (with_flags fs thr) ty" using assms(1) by simp
  then show ?thesis
    using s f by (simp add: result_typed_def compare_immediate_def peek_vec4_def pop_vec4_cnt_def) (simp add: typed_def)
qed

lemma bin_typed:
  assumes "typed thr ty" "ty_vec4 ty = l # l # ws"
  shows "result_typed (of_bin b thr) (thr_pc thr) (ty\<lparr>ty_vec4 := l # ws\<rparr>)"
proof -
  obtain f where f: "of_bin b = on_top_two f" "\<And>u v w. vec4_wf u \<Longrightarrow> vec4_wf v \<Longrightarrow> vec_size u = w \<Longrightarrow> vec_size v = w \<Longrightarrow> 0 < w \<Longrightarrow>
      \<exists>x. f u v = Some x \<and> vec4_wf x \<and> vec_size x = w"
    using of_bin_fun[of b] by blast
  have "0 < l" using assms by (auto simp: typed_def)
  then show ?thesis unfolding f(1) using f(2) by (intro on_top_two_typed[OF assms]) simp_all
qed

lemma imm_typed:
  assumes "typed thr ty" "ty_vec4 ty = l # ws"
  shows "result_typed (of_imm b va vb l thr) (thr_pc thr) (ty\<lparr>ty_vec4 := l # ws\<rparr>)"
proof -
  have l: "0 < l" using assms by (auto simp: typed_def)
  obtain r where r: "get_immediate_rval va vb l (vec4_new l BIT4_0) = Some r" "vec4_wf r" "vec_size r = l"
    using get_immediate_bits[OF l, of va vb] by blast
  have "\<exists>x. with_immediate va vb l (f u) = Some x \<and> vec4_wf x \<and> vec_size x = l"
    if "f \<in> {vec4_add, vec4_sub, vec4_mul}" "vec4_wf u" "vec_size u = l" for f u
    using that r vec4_add_bits[of u r] vec4_sub_bits[of u r] vec4_mul_bits[of u r] by (auto simp: with_immediate_def)
  then have "result_typed (on_top (\<lambda>u. with_immediate va vb l (f u)) thr) (thr_pc thr) (ty\<lparr>ty_vec4 := l # ws\<rparr>)"
    if "f \<in> {vec4_add, vec4_sub, vec4_mul}" for f
    using that by (intro on_top_typed[OF assms l]) blast
  then show ?thesis by (cases b) (simp_all add: of_ADDI_def of_SUBI_def of_MULI_def)
qed

lemma un_typed:
  assumes "typed thr ty" "ty_vec4 ty = l # ws"
  shows "result_typed (of_un u thr) (thr_pc thr) (ty\<lparr>ty_vec4 := (if u = INV \<or> u = CAST2 then l else 1) # ws\<rparr>)"
proof -
  have l: "0 < l" using assms by (auto simp: typed_def)
  have red: "result_typed (reduce_top f thr) (thr_pc thr) (ty\<lparr>ty_vec4 := 1 # ws\<rparr>)" for f
    unfolding reduce_top_def by (rule on_top_typed[OF assms]) (simp_all add: vec4_new_wf)
  have inv: "result_typed (of_INV thr) (thr_pc thr) (ty\<lparr>ty_vec4 := l # ws\<rparr>)"
    unfolding of_INV_def by (rule on_top_typed[OF assms l]) (simp add: vec4_not_wf)
  have cast: "result_typed (of_CAST2 thr) (thr_pc thr) (ty\<lparr>ty_vec4 := l # ws\<rparr>)"
    unfolding of_CAST2_def by (rule on_top_typed[OF assms l]) (use cast2_bits in auto)
  show ?thesis
    using red inv cast by (cases u) (simp_all add: of_ANDR_def of_NANDR_def of_ORR_def of_NORR_def of_XORR_def of_XNORR_def)
qed

end
