(* ===== verification/Thread_Progress.thy ===== *)
theory Thread_Progress
  imports Thread_Sound
begin

text \<open>
  The type system of \<open>Thread_Typing\<close> for the opcodes on widths, registers, flags and strings, and its soundness for
  whole programs.
\<close>

section \<open>Widths\<close>

lemma sized:
  assumes "\<exists>x. r = Some x \<and> vec4_wf x \<and> vec4_bits x = bs" "length bs = w"
  shows "\<exists>x. r = Some x \<and> vec4_wf x \<and> vec_size x = w"
  using bits_sized[OF assms] by blast

lemma const_sized: "\<exists>x. Some (vec4_new w b) = Some x \<and> vec4_wf x \<and> vec_size x = w"
  by (simp add: vec4_new_wf)

lemma concat_typed:
  assumes "typed thr ty" "ty_vec4 ty = l # m # ws"
  shows "result_typed (of_CONCAT_VEC4 thr) (thr_pc thr) (ty\<lparr>ty_vec4 := (m + l) # ws\<rparr>)"
  unfolding of_CONCAT_VEC4_def
proof (rule on_top_two_typed[OF assms])
  show "0 < m + l" using assms by (auto simp: typed_def)
  fix u v :: vvp_vector4_t
  assume uv: "vec_size u = m" "vec_size v = l" "0 < m" "0 < l"
  show "\<exists>x. concat_vectors u v = Some x \<and> vec4_wf x \<and> vec_size x = m + l"
    by (rule sized[OF concat_vectors_bits]) (use uv in simp_all)
qed

lemma concat_immediate_typed:
  assumes "typed thr ty" "ty_vec4 ty = m # ws" "0 < wid"
  shows "result_typed (of_CONCATI_VEC4 va vb wid thr) (thr_pc thr) (ty\<lparr>ty_vec4 := (m + wid) # ws\<rparr>)"
  unfolding of_CONCATI_VEC4_def
proof (rule on_top_typed[OF assms(1,2)])
  fix u :: vvp_vector4_t
  assume u: "vec_size u = m" "0 < m"
  obtain r where r: "immediate_loop [0..<wid] va vb (vec4_new wid BIT4_0) = Some r" "vec_size r = wid"
    using immediate_vector[of wid va vb] by blast
  have "\<exists>x. concat_vectors u r = Some x \<and> vec4_wf x \<and> vec_size x = m + wid"
    by (rule sized[OF concat_vectors_bits]) (use u r assms(3) in simp_all)
  then show "\<exists>x. (case immediate_loop [0..<wid] va vb (vec4_new wid BIT4_0) of None \<Rightarrow> None | Some lsb \<Rightarrow> concat_vectors u lsb) = Some x \<and>
      vec4_wf x \<and> vec_size x = m + wid"
    using r(1) by simp
qed (use assms in simp)

lemma replicate_typed:
  assumes "typed thr ty" "ty_vec4 ty = m # ws" "0 < n"
  shows "result_typed (of_REPLICATE n thr) (thr_pc thr) (ty\<lparr>ty_vec4 := (m * n) # ws\<rparr>)"
  unfolding of_REPLICATE_def
proof (rule on_top_typed[OF assms(1,2)])
  show "0 < m * n" using assms by (auto simp: typed_def)
  fix u :: vvp_vector4_t
  assume u: "vec_size u = m" "0 < m"
  show "\<exists>x. foldM (\<lambda>idx res. map_option fst (vec4_set_vec res (idx * vec_size u) u)) [0..<n] (vec4_new (vec_size u * n) BIT4_X) = Some x \<and>
      vec4_wf x \<and> vec_size x = m * n"
    by (rule sized[OF replicate_bits]) (use u in \<open>simp_all add: length_concat sum_list_replicate\<close>)
qed

lemma resize_size: "vec4_wf u \<Longrightarrow> vec_size (vec4_resize u wid b) = wid"
  using vec4_resize_bits[of u wid b] length_vec4_bits[of "vec4_resize u wid b"] by simp

lemma pad_typed:
  assumes "typed thr ty" "ty_vec4 ty = m # ws" "0 < wid"
  shows "result_typed (if sf then of_PAD_S wid thr else of_PAD_U wid thr) (thr_pc thr) (ty\<lparr>ty_vec4 := wid # ws\<rparr>)"
  unfolding of_PAD_S_def of_PAD_U_def
  using on_top_typed[OF assms, of "\<lambda>val. Some (vec4_resize val wid BIT4_0)"]
    on_top_typed[OF assms, of "\<lambda>val. Some (if vec_size val < wid then vec4_resize val wid (vec4_value val (vec_size val - 1)) else vec4_resize val wid BIT4_X)"]
  by (simp add: resize_size vec4_resize_bits)

lemma part_typed:
  assumes "typed thr ty" "ty_vec4 ty = b # m # ws" "0 < wid" "m + wid < 2 ^ 31"
  shows "result_typed (if sf then of_PART_S wid thr else of_PART_U wid thr) (thr_pc thr) (ty\<lparr>ty_vec4 := wid # ws\<rparr>)"
proof -
  have "result_typed (of_PART_base sf wid thr) (thr_pc thr) (ty\<lparr>ty_vec4 := wid # ws\<rparr>)" for sf
    unfolding of_PART_base_def
  proof (rule on_top_two_typed[OF assms(1-3)])
    fix u v :: vvp_vector4_t
    assume u: "vec_size u = m" "0 < m"
    have part: "\<exists>x. part_of_value base wid u = Some x \<and> vec4_wf x \<and> vec_size x = wid" for base
      by (rule sized[OF part_of_value_bits]) (use u assms in simp_all)
    show "\<exists>x. (case vec4_to_value v sf True of (True, Some base) \<Rightarrow> part_of_value base wid u | _ \<Rightarrow> Some (vec4_new wid BIT4_X)) = Some x \<and>
        vec4_wf x \<and> vec_size x = wid"
      using part const_sized[of wid BIT4_X] by (auto split: prod.split option.split bool.split)
  qed
  then show ?thesis by (simp add: of_PART_S_def of_PART_U_def)
qed

lemma parti_typed:
  assumes "typed thr ty" "ty_vec4 ty = m # ws" "0 < wid" "m + wid < 2 ^ 31"
  shows "result_typed (if sf then of_PARTI_S wid base bwid thr else of_PARTI_U wid base bwid thr) (thr_pc thr) (ty\<lparr>ty_vec4 := wid # ws\<rparr>)"
proof -
  have "result_typed (of_PARTI_base sf wid base bwid thr) (thr_pc thr) (ty\<lparr>ty_vec4 := wid # ws\<rparr>)" for sf
    unfolding of_PARTI_base_def
  proof (rule on_top_typed[OF assms(1-3)])
    fix u :: vvp_vector4_t
    assume u: "vec_size u = m" "0 < m"
    show "\<exists>x. part_of_value (parti_base sf base bwid) wid u = Some x \<and> vec4_wf x \<and> vec_size x = wid"
      by (rule sized[OF part_of_value_bits]) (use u assms in simp_all)
  qed
  then show ?thesis by (simp add: of_PARTI_S_def of_PARTI_U_def)
qed

lemma split_typed:
  assumes "typed thr ty" "ty_vec4 ty = m # ws" "0 < wid" "wid < m"
  shows "result_typed (of_SPLIT_VEC4 wid thr) (thr_pc thr) (ty\<lparr>ty_vec4 := wid # (m - wid) # ws\<rparr>)"
proof (rule typed_one[OF assms(1,2)])
  fix u rest
  assume s: "stack_vec4 thr = u # rest" "vec4_wf u" "vec_size u = m" "map vec_size rest = ws" "\<forall>x\<in>set rest. vec4_wf x \<and> 0 < vec_size x"
  have sub: "\<exists>x. vec4_subvalue u a k = Some x \<and> vec4_wf x \<and> vec_size x = k" for a k
    by (rule sized[OF vec4_subvalue_bits]) simp
  obtain l where l: "vec4_subvalue u 0 wid = Some l" "vec4_wf l" "vec_size l = wid" using sub by blast
  obtain h where h: "vec4_subvalue u wid (m - wid) = Some h" "vec4_wf h" "vec_size h = m - wid" using sub by blast
  show ?thesis
    using s l h assms by (simp add: of_SPLIT_VEC4_def result_typed_def peek_vec4_def poke_vec4_def push_vec4_def) (simp add: typed_def)
qed

section \<open>Shifts, registers and flags\<close>

lemma reads:
  assumes "typed thr ty"
  shows "n < 16 \<Longrightarrow> \<exists>w. get_word n thr = Some w" "n < 256 \<Longrightarrow> \<exists>b. get_flag n thr = Some b"
  using assms by (simp_all add: get_word_def get_flag_def typed_def FLAGS_COUNT_def WORDS_COUNT_def)

lemma writes:
  assumes "typed thr ty"
  shows "n < 16 \<Longrightarrow> result_typed (set_word n w thr) (thr_pc thr) ty" "n < 256 \<Longrightarrow> result_typed (set_flag n b thr) (thr_pc thr) ty"
  using assms by (simp_all add: set_word_def set_flag_def result_typed_def typed_def FLAGS_COUNT_def WORDS_COUNT_def)

lemma result_typed_bind:
  assumes "result_typed r pc ty" "\<And>thr. thr_pc thr = pc \<Longrightarrow> typed thr ty \<Longrightarrow> result_typed (f thr) (thr_pc thr) ty'"
  shows "result_typed (Option.bind r f) pc ty'"
  using assms by (force simp: result_typed_def)

lemma shift_typed:
  assumes "typed thr ty" "ty_vec4 ty = m # ws" "n < 16"
  shows "result_typed (of_shift s n thr) (thr_pc thr) (ty\<lparr>ty_vec4 := m # ws\<rparr>)"
proof -
  have m: "0 < m" using assms by (auto simp: typed_def)
  obtain w b where wb: "get_word n thr = Some w" "get_flag 4 thr = Some b"
    using reads[OF assms(1)] assms(3) by fastforce
  have left: "\<exists>x. shift_left b w u = Some x \<and> vec4_wf x \<and> vec_size x = m" if "vec4_wf u" "vec_size u = m" "0 < m" for u
    by (rule sized[OF shift_left_result]) (use that in \<open>auto simp: shift_left_bits_def Let_def min_def\<close>)
  have right: "\<exists>x. shift_right pad b w u = Some x \<and> vec4_wf x \<and> vec_size x = m" if "vec4_wf u" "vec_size u = m" "0 < m" for u pad
    by (rule sized[OF shift_right_result]) (use that in \<open>auto simp: shift_right_bits_def Let_def min_def\<close>)
  show ?thesis
    by (cases s) (simp_all add: of_SHIFTL_def of_SHIFTR_def of_SHIFTR_S_def shift_top_def wb on_top_typed[OF assms(1,2) m] left right)
qed

lemma word_typed:
  assumes "typed thr ty" "n < 16"
  shows "result_typed (of_word x n lo hi thr) (thr_pc thr) ty"
proof -
  have "result_typed (on_word f n thr) (thr_pc thr) ty" for f
    using reads(1)[OF assms] writes(1)[OF assms] by (auto simp: on_word_def)
  then show ?thesis
    using writes(1)[OF assms] by (cases x) (simp_all add: of_IX_ADD_def of_IX_SUB_def of_IX_MUL_def of_IX_LOAD_def)
qed

lemma mov_typed:
  assumes "typed thr ty" "i < 16" "j < 16"
  shows "result_typed (of_IX_MOV i j thr) (thr_pc thr) ty"
  using reads(1)[OF assms(1,3)] writes(1)[OF assms(1,2)] by (auto simp: of_IX_MOV_def)

lemma index_typed:
  assumes "typed thr ty" "ty_vec4 ty = m # ws" "n < 16"
  shows "result_typed (if sf then of_IX_VEC4_S n thr else of_IX_VEC4 n thr) (thr_pc thr) (ty\<lparr>ty_vec4 := ws\<rparr>)"
proof (rule typed_one[OF assms(1,2)])
  fix u rest
  assume s: "stack_vec4 thr = u # rest" "vec4_wf u" "vec_size u = m" "0 < m" "map vec_size rest = ws" "\<forall>x\<in>set rest. vec4_wf x \<and> 0 < vec_size x"
  define thr1 where "thr1 = thr\<lparr>stack_vec4 := rest\<rparr>"
  have t1: "typed thr1 (ty\<lparr>ty_vec4 := ws\<rparr>)" "thr_pc thr1 = thr_pc thr" using s assms(1) by (simp_all add: typed_def thr1_def)
  have pop: "peek_vec4 0 thr = Some u" "pop_vec4_cnt 1 thr = Some thr1" using s(1) by (simp_all add: peek_vec4_def pop_vec4_cnt_def thr1_def)
  obtain r where r: "vec4_subarray u 0 (vec_size u) False = Some r"
    using subarray_num[OF s(2)] s(3,4) by (auto split: if_splits)
  have flag: "result_typed (case map_option (\<lambda>thr. (v, thr)) (set_flag4 b thr1) of None \<Rightarrow> None | Some (v, thr) \<Rightarrow> set_word n v thr)
      (thr_pc thr) (ty\<lparr>ty_vec4 := ws\<rparr>)" for v b
  proof -
    have "result_typed (Option.bind (set_flag 4 b thr1) (set_word n v)) (thr_pc thr1) (ty\<lparr>ty_vec4 := ws\<rparr>)"
      by (rule result_typed_bind[OF writes(2)[OF t1(1)]], simp, erule writes(1)[OF _ assms(3)])
    then show ?thesis by (cases "set_flag 4 b thr1") (simp_all add: t1(2) set_flag4_def)
  qed
  have "result_typed (ix_vec4 sf n thr) (thr_pc thr) (ty\<lparr>ty_vec4 := ws\<rparr>)" for sf
  proof (cases r)
    case None
    then show ?thesis unfolding ix_vec4_def vec4_to_index_def Let_def pop r None option.case prod.case by (intro flag)
  next
    case (Some ws')
    then show ?thesis unfolding ix_vec4_def vec4_to_index_def Let_def pop r Some option.case prod.case by (intro flag)
  qed
  then show ?thesis by (simp add: of_IX_VEC4_def of_IX_VEC4_S_def)
qed

lemma compare_words_typed:
  assumes "typed thr ty" "i < 16" "j < 16"
  shows "result_typed (if sf then of_CMPWS i j thr else of_CMPWU i j thr) (thr_pc thr) ty"
proof -
  obtain l r where lr: "get_word i thr = Some l" "get_word j thr = Some r"
    using reads(1)[OF assms(1)] assms by blast
  have "result_typed (Option.bind (set_flag 4 a thr) (set_flag 5 b)) (thr_pc thr) ty" for a b
    by (rule result_typed_bind[OF writes(2)[OF assms(1)]], simp, erule writes(2), simp)
  then show ?thesis by (simp add: of_CMPWS_def of_CMPWU_def lr)
qed

lemma flag_typed:
  assumes "typed thr ty" "n < 256"
  shows "result_typed (of_FLAG_GET_VEC4 n thr) (thr_pc thr) (ty\<lparr>ty_vec4 := 1 # ty_vec4 ty\<rparr>)"
    "result_typed (of_FLAG_INV n thr) (thr_pc thr) ty"
    "m < 256 \<Longrightarrow> result_typed (of_FLAG_MOV n m thr) (thr_pc thr) ty"
    "m < 256 \<Longrightarrow> result_typed (of_FLAG_OR n m thr) (thr_pc thr) ty"
    "v < 4 \<Longrightarrow> result_typed (of_FLAG_SET_IMM n v thr) (thr_pc thr) ty"
proof -
  obtain b where b: "get_flag n thr = Some b" using reads(2)[OF assms] by blast
  note w = writes(2)[OF assms]
  show "result_typed (of_FLAG_GET_VEC4 n thr) (thr_pc thr) (ty\<lparr>ty_vec4 := 1 # ty_vec4 ty\<rparr>)"
    using assms(1) by (simp add: of_FLAG_GET_VEC4_def b result_typed_def push_vec4_def typed_def vec4_new_wf)
  show "result_typed (of_FLAG_INV n thr) (thr_pc thr) ty"
    using w by (simp add: of_FLAG_INV_def invert_flag_def b)
  show "result_typed (of_FLAG_MOV n m thr) (thr_pc thr) ty" "result_typed (of_FLAG_OR n m thr) (thr_pc thr) ty" if m: "m < 256"
    using w reads(2)[OF assms(1) m] by (auto simp: of_FLAG_MOV_def of_FLAG_OR_def b)
  show "result_typed (of_FLAG_SET_IMM n v thr) (thr_pc thr) ty" if "v < 4"
    using w that by (simp add: of_FLAG_SET_IMM_def)
qed

lemma flag_set_typed:
  assumes "typed thr ty" "ty_vec4 ty = m # ws" "n < 256"
  shows "result_typed (of_FLAG_SET_VEC4 n thr) (thr_pc thr) (ty\<lparr>ty_vec4 := ws\<rparr>)"
proof (rule typed_one[OF assms(1,2)])
  fix u rest
  assume s: "stack_vec4 thr = u # rest" "map vec_size rest = ws" "\<forall>x\<in>set rest. vec4_wf x \<and> 0 < vec_size x"
  have "n < length (thr_flags thr)" using assms by (simp add: typed_def FLAGS_COUNT_def)
  then show ?thesis
    using s assms(1) by (simp add: of_FLAG_SET_VEC4_def result_typed_def peek_vec4_def pop_vec4_cnt_def set_flag_def) (simp add: typed_def)
qed

section \<open>Stacks and strings\<close>

lemma pushi_typed:
  assumes "typed thr ty" "0 < wid"
  shows "result_typed (of_PUSHI_VEC4 va vb wid thr) (thr_pc thr) (ty\<lparr>ty_vec4 := wid # ty_vec4 ty\<rparr>)"
  using pushi_vector[OF assms(2), of va vb thr] assms by (auto simp: result_typed_def push_vec4_def typed_def)

lemma pop_typed:
  assumes "typed thr ty"
  shows "n \<le> length (ty_vec4 ty) \<Longrightarrow> result_typed (of_POP_VEC4 n thr) (thr_pc thr) (ty\<lparr>ty_vec4 := drop n (ty_vec4 ty)\<rparr>)"
    "n \<le> ty_str ty \<Longrightarrow> result_typed (of_POP_STR n thr) (thr_pc thr) (ty\<lparr>ty_str := ty_str ty - n\<rparr>)"
proof -
  have len: "length (ty_vec4 ty) = length (stack_vec4 thr)" using assms by (metis length_map typed_def)
  show "n \<le> length (ty_vec4 ty) \<Longrightarrow> result_typed (of_POP_VEC4 n thr) (thr_pc thr) (ty\<lparr>ty_vec4 := drop n (ty_vec4 ty)\<rparr>)"
    using assms by (auto simp: of_POP_VEC4_def pop_vec4_cnt_def result_typed_def len typed_def drop_map[symmetric] dest: in_set_dropD)
  show "n \<le> ty_str ty \<Longrightarrow> result_typed (of_POP_STR n thr) (thr_pc thr) (ty\<lparr>ty_str := ty_str ty - n\<rparr>)"
    using assms by (auto simp: of_POP_STR_def pop_str_cnt_def result_typed_def typed_def)
qed

lemma pop_reals:
  "n \<le> length (stack_real thr) \<Longrightarrow> of_POP_REAL n thr = Some (thr\<lparr>stack_real := drop n (stack_real thr)\<rparr>)"
proof (induction n)
  case (Suc n)
  then obtain x xs where "drop n (stack_real thr) = x # xs" by (cases "drop n (stack_real thr)") auto
  moreover have "drop (Suc n) (stack_real thr) = tl (drop n (stack_real thr))" by (simp add: drop_Suc tl_drop)
  ultimately show ?case using Suc by (simp add: of_POP_REAL_def foldM_snoc pop_real_def)
qed (simp add: of_POP_REAL_def)

lemma pop_real_typed:
  assumes "typed thr ty" "n \<le> ty_real ty"
  shows "result_typed (of_POP_REAL n thr) (thr_pc thr) (ty\<lparr>ty_real := ty_real ty - n\<rparr>)"
  using assms by (simp add: pop_reals result_typed_def typed_def)

lemma real_typed:
  assumes "typed thr ty" "0 < ty_real ty"
  shows "result_typed (of_DUP_REAL thr) (thr_pc thr) (ty\<lparr>ty_real := ty_real ty + 1\<rparr>)"
    "result_typed (of_ABS_WR thr) (thr_pc thr) ty"
proof -
  obtain r rest where s: "stack_real thr = r # rest" using assms by (cases "stack_real thr") (auto simp: typed_def)
  show "result_typed (of_DUP_REAL thr) (thr_pc thr) (ty\<lparr>ty_real := ty_real ty + 1\<rparr>)" "result_typed (of_ABS_WR thr) (thr_pc thr) ty"
    using assms(1) s by (simp_all add: of_DUP_REAL_def of_ABS_WR_def peek_real_def pop_real_def push_real_def result_typed_def) (simp_all add: typed_def)
qed

lemma str_typed:
  assumes "typed thr ty"
  shows "result_typed (of_PUSHI_STR txt thr) (thr_pc thr) (ty\<lparr>ty_str := ty_str ty + 1\<rparr>)"
    "0 < ty_str ty \<Longrightarrow> result_typed (of_CONCATI_STR txt thr) (thr_pc thr) ty"
  using assms by (auto simp: of_PUSHI_STR_def of_CONCATI_STR_def push_str_def peek_str_def poke_str_def result_typed_def typed_def)

lemma substr_typed:
  assumes "typed thr ty" "0 < ty_str ty" "i < 16" "j < 16"
  shows "result_typed (of_SUBSTR i j thr) (thr_pc thr) ty"
proof -
  obtain w x where w: "get_word i thr = Some w" "get_word j thr = Some x" using reads(1)[OF assms(1)] assms by blast
  have poke: "result_typed (poke_str 0 t thr) (thr_pc thr) ty" for t
    using assms by (simp add: poke_str_def result_typed_def typed_def)
  have "peek_str 0 thr = Some (stack_str thr ! 0)" using assms by (simp add: peek_str_def typed_def)
  then show ?thesis using poke by (simp add: of_SUBSTR_def w Let_def)
qed

lemma two_strings:
  assumes "typed thr ty" "1 < ty_str ty"
  obtains r l rest where "stack_str thr = r # l # rest" "ty_str ty = length rest + 2"
  using assms by (cases "stack_str thr"; cases "tl (stack_str thr)") (auto simp: typed_def)

lemma concat_str_typed:
  assumes "typed thr ty" "1 < ty_str ty"
  shows "result_typed (of_CONCAT_STR thr) (thr_pc thr) (ty\<lparr>ty_str := ty_str ty - 1\<rparr>)"
proof (rule two_strings[OF assms])
  fix r l rest assume s: "stack_str thr = r # l # rest" "ty_str ty = length rest + 2"
  then show ?thesis
    using assms(1) by (simp add: of_CONCAT_STR_def of_CONCATI_STR_def pop_str_def peek_str_def poke_str_def result_typed_def) (simp add: typed_def)
qed

lemma cmp_str_typed:
  assumes "typed thr ty" "1 < ty_str ty"
  shows "result_typed (of_CMPSTR thr) (thr_pc thr) (ty\<lparr>ty_str := ty_str ty - 2\<rparr>)"
proof (rule two_strings[OF assms])
  fix r l rest assume s: "stack_str thr = r # l # rest" "ty_str ty = length rest + 2"
  define thr1 where "thr1 = thr\<lparr>stack_str := rest\<rparr>"
  have t1: "typed thr1 (ty\<lparr>ty_str := ty_str ty - 2\<rparr>)" "thr_pc thr1 = thr_pc thr" using s assms(1) by (simp_all add: thr1_def typed_def)
  have "result_typed (Option.bind (set_flag 4 a thr1) (set_flag 5 b)) (thr_pc thr1) (ty\<lparr>ty_str := ty_str ty - 2\<rparr>)" for a b
    by (rule result_typed_bind[OF writes(2)[OF t1(1)]], simp, erule writes(2), simp)
  then show ?thesis unfolding t1(2) by (simp add: of_CMPSTR_def pop_str_def s Let_def flip: thr1_def)
qed

lemma dup_typed:
  assumes "typed thr ty" "ty_vec4 ty = w # ws"
  shows "result_typed (of_DUP_VEC4 thr) (thr_pc thr) (ty\<lparr>ty_vec4 := w # w # ws\<rparr>)"
proof (rule typed_one[OF assms])
  fix u rest
  assume "stack_vec4 thr = u # rest" "vec4_wf u" "vec_size u = w" "0 < w" "map vec_size rest = ws" "\<forall>x\<in>set rest. vec4_wf x \<and> 0 < vec_size x"
  then show ?thesis
    using assms(1) by (simp add: of_DUP_VEC4_def peek_vec4_def push_vec4_def result_typed_def) (simp add: typed_def)
qed

lemma pushv_typed:
  assumes "typed thr ty" "ty_vec4 ty = w # ws"
  shows "result_typed (of_PUSHV_STR thr) (thr_pc thr) (ty\<lparr>ty_vec4 := ws, ty_str := ty_str ty + 1\<rparr>)"
proof (rule typed_one[OF assms])
  fix u rest
  assume "stack_vec4 thr = u # rest" "map vec_size rest = ws" "\<forall>x\<in>set rest. vec4_wf x \<and> 0 < vec_size x"
  then show ?thesis
    using assms(1) by (simp add: of_PUSHV_STR_def pop_vec4_def push_str_def result_typed_def Let_def) (simp add: typed_def)
qed

text \<open>A loop that sets bits of a vector inside its size.\<close>

lemma set_bits_loop:
  assumes "vec4_wf v" "\<And>i. i < n \<Longrightarrow> g i < vec_size v"
  shows "\<exists>r. foldM (\<lambda>i r. if P i then vec4_set_bit r (g i) b else Some r) [0..<n] v = Some r \<and> vec4_wf r \<and> vec_size r = vec_size v"
  by (rule foldM_upt_inv[where P = "\<lambda>_ r. vec4_wf r \<and> vec_size r = vec_size v"])
    (use assms vec4_set_bit_correct in fastforce)+

lemma cast_str_typed:
  assumes "typed thr ty" "0 < ty_str ty" "0 < wid"
  shows "\<exists>thr' on. of_CAST_VEC4_STR wid thr = Some (thr', on) \<and> thr_pc thr' = thr_pc thr \<and>
    typed thr' (ty\<lparr>ty_vec4 := wid # ty_vec4 ty, ty_str := ty_str ty - 1\<rparr>)"
proof -
  obtain s rest where s: "stack_str thr = s # rest" using assms by (cases "stack_str thr") (auto simp: typed_def)
  have push: "typed (push_vec4 v (thr\<lparr>stack_str := rest\<rparr>)) (ty\<lparr>ty_vec4 := wid # ty_vec4 ty, ty_str := ty_str ty - 1\<rparr>)"
    if "vec4_wf v" "vec_size v = wid" for v
    using that s assms by (auto simp: typed_def push_vec4_def)
  show ?thesis
  proof (cases "wid = 8 * length s")
    case True
    have "\<exists>v. foldM (\<lambda>sdx. foldM (\<lambda>bdx vec.
        if bit (of_char (s ! sdx) :: nat) bdx then vec4_set_bit vec (wid - 8 * (sdx + 1) + bdx) BIT4_1 else Some vec) [0..<8])
        [0..<length s] (vec4_new wid BIT4_0) = Some v \<and> (vec4_wf v \<and> vec_size v = wid)"
    proof (rule foldM_upt_inv[where P = "\<lambda>_ v. vec4_wf v \<and> vec_size v = wid"])
      fix sdx v assume v: "sdx < length s" "vec4_wf v \<and> vec_size v = wid"
      then have "wid - 8 * (sdx + 1) + i < vec_size v" if "i < 8" for i using True that v by auto
      then show "\<exists>v'. foldM (\<lambda>bdx vec. if bit (of_char (s ! sdx) :: nat) bdx then vec4_set_bit vec (wid - 8 * (sdx + 1) + bdx) BIT4_1 else Some vec) [0..<8] v = Some v' \<and>
          vec4_wf v' \<and> vec_size v' = wid"
        using set_bits_loop[of v 8 "\<lambda>i. wid - 8 * (sdx + 1) + i" "bit (of_char (s ! sdx) :: nat)" BIT4_1] v by (simp del: upt_rec_numeral)
    qed (simp add: vec4_new_wf)
    then obtain v where v: "foldM (\<lambda>sdx. foldM (\<lambda>bdx vec.
        if bit (of_char (s ! sdx) :: nat) bdx then vec4_set_bit vec (wid - 8 * (sdx + 1) + bdx) BIT4_1 else Some vec) [0..<8])
        [0..<length s] (vec4_new wid BIT4_0) = Some v" "vec4_wf v" "vec_size v = wid" by blast
    then have "of_CAST_VEC4_STR wid thr = Some (push_vec4 v (thr\<lparr>stack_str := rest\<rparr>), True)"
      unfolding of_CAST_VEC4_STR_def pop_str_def s Let_def list.case option.case prod.case v(1) using True by simp
    then show ?thesis using push[OF v(2,3)] by (auto simp: push_vec4_def)
  next
    case False
    then have "of_CAST_VEC4_STR wid thr = Some (push_vec4 (vec4_new wid BIT4_0) (thr\<lparr>stack_str := rest\<rparr>), False)"
      by (simp add: of_CAST_VEC4_STR_def pop_str_def s Let_def)
    then show ?thesis using push[of "vec4_new wid BIT4_0"] by (auto simp: vec4_new_wf push_vec4_def)
  qed
qed

lemma substr_vec4_typed:
  assumes "typed thr ty" "0 < ty_str ty" "i < 16"
  shows "result_typed (of_SUBSTR_VEC4 i 8 thr) (thr_pc thr) (ty\<lparr>ty_vec4 := 8 # ty_vec4 ty\<rparr>)"
proof -
  obtain s rest where s: "stack_str thr = s # rest" using assms by (cases "stack_str thr") (auto simp: typed_def)
  obtain w where w: "get_word i thr = Some w" using reads(1)[OF assms(1,3)] by blast
  have push: "result_typed (Some (push_vec4 v thr)) (thr_pc thr) (ty\<lparr>ty_vec4 := 8 # ty_vec4 ty\<rparr>)"
    if "vec4_wf v" "vec_size v = 8" for v
    using that assms by (auto simp: typed_def push_vec4_def result_typed_def)
  define sel where "sel = sint (ucast w :: 32 word)"
  obtain v where v: "foldM (\<lambda>idx res. if bit (of_char (s ! nat sel) :: nat) idx then vec4_set_bit res idx BIT4_1 else Some res)
      [0..<8] (vec4_new 8 BIT4_0) = Some v" "vec4_wf v" "vec_size v = 8"
    using set_bits_loop[of "vec4_new 8 BIT4_0" 8 "\<lambda>i. i" "bit (of_char (s ! nat sel) :: nat)" BIT4_1] by (auto simp: vec4_new_wf simp del: upt_rec_numeral)
  have peek: "peek_str 0 thr = Some s" by (simp add: peek_str_def s)
  show ?thesis
    unfolding of_SUBSTR_VEC4_def w peek Let_def option.case prod.case sel_def[symmetric] v(1)
    using push[OF v(2,3)] push[of "vec4_new 8 BIT4_0"] by (simp add: vec4_new_wf)
qed

section \<open>Soundness\<close>

lemma need_Some [simp]: "need c x = Some y \<longleftrightarrow> c \<and> x = y"
  by (simp add: need_def)

text \<open>What the check of an instruction that reads vectors says of the stack.\<close>

lemma check_shapes:
  "check_vec4 (Bin b) xs = Some ws \<longleftrightarrow> (\<exists>l rest. xs = l # l # rest \<and> ws = l # rest)"
  "check_vec4 (Imm i va vb wid) xs = Some ws \<longleftrightarrow> (\<exists>rest. xs = wid # rest \<and> ws = wid # rest)"
  "check_vec4 (Una u) xs = Some ws \<longleftrightarrow> (\<exists>l rest. xs = l # rest \<and> ws = (if u = INV \<or> u = CAST2 then l else 1) # rest)"
  "check_vec4 (Cmp c) xs = Some ws \<longleftrightarrow> (\<exists>l. xs = l # l # ws)"
  "check_vec4 (CmpI ci va vb wid) xs = Some ws \<longleftrightarrow> xs = wid # ws"
  "check_vec4 (FLAG_SET_VEC4 n) xs = Some ws \<longleftrightarrow> n < 256 \<and> (\<exists>w. xs = w # ws)"
  "check_vec4 CONCAT_VEC4 xs = Some ws \<longleftrightarrow> (\<exists>l m rest. xs = l # m # rest \<and> ws = (m + l) # rest)"
  "check_vec4 (CONCATI_VEC4 va vb wid) xs = Some ws \<longleftrightarrow> 0 < wid \<and> (\<exists>m rest. xs = m # rest \<and> ws = (m + wid) # rest)"
  "check_vec4 (REPLICATE n) xs = Some ws \<longleftrightarrow> 0 < n \<and> (\<exists>m rest. xs = m # rest \<and> ws = (m * n) # rest)"
  "check_vec4 (PAD sf wid) xs = Some ws \<longleftrightarrow> 0 < wid \<and> (\<exists>m rest. xs = m # rest \<and> ws = wid # rest)"
  by (cases xs; cases "tl xs"; force)+

lemma check_shapes2:
  "check_vec4 (PART sf wid) xs = Some ws \<longleftrightarrow> (\<exists>b m rest. xs = b # m # rest \<and> 0 < wid \<and> m + wid < 2 ^ 31 \<and> ws = wid # rest)"
  "check_vec4 (PARTI sf wid base bwid) xs = Some ws \<longleftrightarrow> (\<exists>m rest. xs = m # rest \<and> 0 < wid \<and> m + wid < 2 ^ 31 \<and> ws = wid # rest)"
  "check_vec4 (SPLIT_VEC4 wid) xs = Some ws \<longleftrightarrow> (\<exists>m rest. xs = m # rest \<and> 0 < wid \<and> wid < m \<and> ws = wid # (m - wid) # rest)"
  "check_vec4 (Shift s n) xs = Some ws \<longleftrightarrow> n < 16 \<and> (\<exists>m rest. xs = m # rest \<and> ws = m # rest)"
  "check_vec4 (IX_VEC4 sf n) xs = Some ws \<longleftrightarrow> n < 16 \<and> (\<exists>m. xs = m # ws)"
  "check_vec4 (StackOp DUP_VEC4) xs = Some ws \<longleftrightarrow> (\<exists>m rest. xs = m # rest \<and> ws = m # m # rest)"
  "check_vec4 (StackOp PUSHV_STR) xs = Some ws \<longleftrightarrow> (\<exists>m. xs = m # ws)"
  by (cases xs; cases "tl xs"; force)+

lemma check_eq:
  "check i \<lparr>ty_vec4 = xs, ty_real = r, ty_str = s\<rparr> = Some ty' \<longleftrightarrow>
     (\<exists>ws r' s'. check_vec4 i xs = Some ws \<and> check_real i r = Some r' \<and> check_str i s = Some s' \<and> ty' = \<lparr>ty_vec4 = ws, ty_real = r', ty_str = s'\<rparr>)"
  by (auto simp: check_def split: option.splits)

fun straight :: "instr \<Rightarrow> bool" where
  "straight (Jump j cptr flag) = False" | "straight (CAST_VEC4_STR wid) = False" | "straight (DELAY lo hi) = False"
| "straight (DELAYX n) = False" | "straight END = False" | "straight _ = True"

lemmas operand_typed = bin_typed imm_typed un_typed compare_typed compare_immediate_typed concat_typed concat_immediate_typed
  replicate_typed split_typed shift_typed flag_set_typed

lemmas signed_typed = pad_typed[where sf = True, simplified] part_typed[where sf = True, simplified]
  parti_typed[where sf = True, simplified] index_typed[where sf = True, simplified] compare_words_typed[where sf = True, simplified]

lemmas unsigned_typed = pad_typed[where sf = False, simplified] part_typed[where sf = False, simplified]
  parti_typed[where sf = False, simplified] index_typed[where sf = False, simplified] compare_words_typed[where sf = False, simplified]

lemmas plain_typed = word_typed mov_typed flag_typed pushi_typed pop_typed pop_real_typed str_typed substr_typed substr_vec4_typed

lemma stack_op_typed:
  assumes "typed thr ty" "check (StackOp s) ty = Some ty'"
  shows "result_typed (of_stack s thr) (thr_pc thr) ty'"
proof -
  obtain xs r k where ty: "ty = \<lparr>ty_vec4 = xs, ty_real = r, ty_str = k\<rparr>" by (cases ty)
  have noop: "result_typed (of_NOOP thr) (thr_pc thr) ty" using assms(1) by (simp add: of_NOOP_def result_typed_def)
  show ?thesis
  proof (cases s)
    case DUP_VEC4
    then show ?thesis using assms(2) dup_typed[OF assms(1)] by (auto simp: ty check_eq split: list.splits)
  next
    case DUP_REAL
    then show ?thesis using assms(2) real_typed(1)[OF assms(1)] by (auto simp: ty check_eq)
  next
    case ABS_WR
    then show ?thesis using assms(2) real_typed(2)[OF assms(1)] by (auto simp: ty check_eq)
  next
    case CONCAT_STR
    then show ?thesis using assms(2) concat_str_typed[OF assms(1)] by (auto simp: ty check_eq)
  next
    case CMPSTR
    then show ?thesis using assms(2) cmp_str_typed[OF assms(1)] by (auto simp: ty check_eq)
  next
    case PUSHV_STR
    then show ?thesis using assms(2) pushv_typed[OF assms(1)] by (auto simp: ty check_eq split: list.splits)
  next
    case NOOP
    then show ?thesis using assms(2) noop by (auto simp: ty check_eq)
  qed
qed

lemma straight_typed:
  assumes "typed thr ty" "check i ty = Some ty'" "straight i"
  shows "result_typed (exec_straight i thr) (thr_pc thr) ty'"
proof (cases "\<exists>s. i = StackOp s")
  case True
  then show ?thesis using stack_op_typed[OF assms(1)] assms(2) by auto
next
  case False
  obtain xs r k where ty: "ty = \<lparr>ty_vec4 = xs, ty_real = r, ty_str = k\<rparr>" by (cases ty)
  show ?thesis
    using assms(2,3) False operand_typed[OF assms(1)] signed_typed[OF assms(1)] unsigned_typed[OF assms(1)] plain_typed[OF assms(1)]
    by (cases i) (auto simp: ty check_eq check_shapes check_shapes2)
qed

lemma jump_typed:
  assumes "typed thr ty" "flag < 256" "thr_pc thr = Suc pc"
  shows "\<exists>thr' nxt. of_jump j stopped cptr flag thr = Some (thr', nxt) \<and> typed thr' ty \<and>
    thr_pc thr' \<in> set (successors pc (Jump j cptr flag)) \<and> (nxt = Go \<longrightarrow> \<not> stopped)"
proof -
  obtain b where b: "get_flag flag thr = Some b" using reads(2)[OF assms(1,2)] by blast
  have t: "typed (thr\<lparr>thr_pc := cptr\<rparr>) ty" using assms(1) by (simp add: typed_def)
  have "\<exists>thr' nxt. jump_when stopped c cptr flag thr = Some (thr', nxt) \<and> typed thr' ty \<and>
      thr_pc thr' \<in> {cptr, Suc pc} \<and> (nxt = Go \<longrightarrow> \<not> stopped)" for c
    using assms(1,3) t by (simp add: jump_when_def b Let_def)
  then show ?thesis
    using t by (cases j) (simp_all add: of_JMP_def of_JMP0_def of_JMP0XZ_def of_JMP1_def of_JMP1XZ_def)
qed

lemma straight_exec:
  "straight i \<Longrightarrow> exec stopped i thr = map_option (\<lambda>thr. (thr, Go)) (exec_straight i thr)" "straight i \<Longrightarrow> successors pc i = [pc + 1]"
  by (cases i; simp)+

lemma exec_typed:
  assumes "typed thr ty" "check i ty = Some ty'" "thr_pc thr = Suc pc"
  shows "\<exists>thr' nxt. exec stopped i thr = Some (thr', nxt) \<and>
    (nxt \<noteq> Pause_end \<longrightarrow> typed thr' ty' \<and> thr_pc thr' \<in> set (successors pc i)) \<and> (nxt = Go \<longrightarrow> stopped \<longrightarrow> thr_pc thr' = Suc pc)"
proof (cases "straight i")
  case True
  then show ?thesis
    using straight_typed[OF assms(1,2)] assms(3) by (auto simp: straight_exec result_typed_def)
next
  case False
  obtain xs r k where ty: "ty = \<lparr>ty_vec4 = xs, ty_real = r, ty_str = k\<rparr>" by (cases ty)
  show ?thesis
  proof (cases i)
    case (Jump j cptr flag)
    have c: "flag < 256" "ty' = ty" using assms(2) Jump by (auto simp: check_eq ty)
    obtain thr' nxt where "of_jump j stopped cptr flag thr = Some (thr', nxt)" "typed thr' ty"
      "thr_pc thr' \<in> set (successors pc (Jump j cptr flag))" "nxt = Go \<longrightarrow> \<not> stopped"
      using jump_typed[OF assms(1) c(1) assms(3), of j stopped cptr] by blast
    then show ?thesis unfolding Jump exec.simps c(2) by blast
  next
    case (CAST_VEC4_STR wid)
    have c: "0 < ty_str ty" "0 < wid" "ty' = ty\<lparr>ty_vec4 := wid # ty_vec4 ty, ty_str := ty_str ty - 1\<rparr>"
      using assms(2) CAST_VEC4_STR by (auto simp: check_eq ty)
    obtain thr' on where "of_CAST_VEC4_STR wid thr = Some (thr', on)" "thr_pc thr' = thr_pc thr" "typed thr' ty'"
      using cast_str_typed[OF assms(1) c(1,2)] c(3) by blast
    then show ?thesis using assms(3) CAST_VEC4_STR by simp
  next
    case (DELAY lo hi)
    then have "ty' = ty" using assms(2) by (auto simp: check_eq ty)
    then show ?thesis using assms DELAY by (simp add: of_DELAY_def)
  next
    case (DELAYX n)
    then have n: "n < 16" "ty' = ty" using assms(2) by (auto simp: check_eq ty)
    obtain w where "get_word n thr = Some w" using reads(1)[OF assms(1) n(1)] by blast
    then show ?thesis using assms(1,3) n DELAYX by (simp add: of_DELAYX_def WORDS_COUNT_def)
  next
    case END
    then show ?thesis by simp
  qed (use False in auto)
qed

text \<open>A thread at a typed point of its code.\<close>

definition at_typed :: "instr list \<Rightarrow> (nat \<Rightarrow> stype option) \<Rightarrow> vthread \<Rightarrow> bool" where
  "at_typed code tys thr \<longleftrightarrow> thr_pc thr < length code \<and> (case tys (thr_pc thr) of None \<Rightarrow> False | Some ty \<Rightarrow> typed thr ty)"

lemma well_typed_point:
  assumes "well_typed code tys" "pc < length code" "tys pc = Some ty"
  shows "\<exists>ty'. check (code ! pc) ty = Some ty' \<and> (\<forall>q\<in>set (successors pc (code ! pc)). q < length code \<and> tys q = Some ty')"
proof -
  have "case tys pc of None \<Rightarrow> True
       | Some ty \<Rightarrow> (case check (code ! pc) ty of
           None \<Rightarrow> False
         | Some ty' \<Rightarrow> list_all (\<lambda>q. q < length code \<and> tys q = Some ty') (successors pc (code ! pc)))"
    using assms(1,2) unfolding well_typed_def list_all_iff[of _ "[0..<length code]"] by simp
  then show ?thesis using assms(3) by (auto simp: list_all_iff split: option.splits)
qed

lemma step_typed:
  assumes "well_typed code tys" "at_typed code tys thr"
  shows "\<exists>thr' nxt. thread_step code stopped thr = Some (thr', nxt) \<and> (nxt \<noteq> Pause_end \<longrightarrow> at_typed code tys thr' \<and>
    thr_pc thr' \<in> set (successors (thr_pc thr) (code ! thr_pc thr))) \<and> (nxt = Go \<longrightarrow> stopped \<longrightarrow> thr_pc thr' = Suc (thr_pc thr))"
proof -
  define pc where "pc = thr_pc thr"
  obtain ty where ty: "pc < length code" "tys pc = Some ty" "typed thr ty"
    using assms(2) by (auto simp: at_typed_def pc_def split: option.splits)
  obtain ty' where ty': "check (code ! pc) ty = Some ty'" "\<forall>q\<in>set (successors pc (code ! pc)). q < length code \<and> tys q = Some ty'"
    using well_typed_point[OF assms(1) ty(1,2)] by blast
  have "typed (thr\<lparr>thr_pc := Suc pc\<rparr>) ty" using ty(3) by (simp add: typed_def)
  from exec_typed[OF this ty'(1), of pc stopped] obtain thr' nxt where e: "exec stopped (code ! pc) (thr\<lparr>thr_pc := Suc pc\<rparr>) = Some (thr', nxt)"
    "nxt \<noteq> Pause_end \<longrightarrow> typed thr' ty' \<and> thr_pc thr' \<in> set (successors pc (code ! pc))" "nxt = Go \<longrightarrow> stopped \<longrightarrow> thr_pc thr' = Suc pc"
    by auto
  then show ?thesis using ty(1) ty'(2) by (auto simp: thread_step_def at_typed_def Let_def pc_def)
qed

lemma loop_typed:
  assumes "well_typed code tys" "at_typed code tys thr"
  shows "\<exists>thr' nxt. thread_loop k code stopped thr = Some (thr', nxt) \<and> (nxt = Pause_end \<or> at_typed code tys thr')"
  using assms(2)
proof (induction k arbitrary: thr)
  case (Suc k)
  obtain thr' nxt where s: "thread_step code stopped thr = Some (thr', nxt)" "nxt \<noteq> Pause_end \<longrightarrow> at_typed code tys thr'"
    using step_typed[OF assms(1) Suc.prems, of stopped] by blast
  then show ?case using Suc.IH by (cases nxt) auto
qed simp

text \<open>Code whose jumps only go forward.\<close>

definition forward_code :: "instr list \<Rightarrow> bool" where
  "forward_code code \<longleftrightarrow> list_all (\<lambda>pc. list_all (\<lambda>q. pc < q) (successors pc (code ! pc))) [0..<length code]"

lemma loop_pauses:
  assumes "well_typed code tys" "at_typed code tys thr" "stopped \<or> forward_code code" "length code - thr_pc thr \<le> k"
  shows "\<exists>thr' nxt. thread_loop k code stopped thr = Some (thr', nxt) \<and> nxt \<noteq> Go"
  using assms(2,4)
proof (induction k arbitrary: thr)
  case 0
  then show ?case by (simp add: at_typed_def)
next
  case (Suc k)
  obtain thr' nxt where s: "thread_step code stopped thr = Some (thr', nxt)"
    "nxt \<noteq> Pause_end \<longrightarrow> at_typed code tys thr' \<and> thr_pc thr' \<in> set (successors (thr_pc thr) (code ! thr_pc thr))"
    "nxt = Go \<longrightarrow> stopped \<longrightarrow> thr_pc thr' = Suc (thr_pc thr)"
    using step_typed[OF assms(1) Suc.prems(1), of stopped] by blast
  show ?case
  proof (cases "nxt = Go")
    case True
    have pc: "thr_pc thr < length code" using Suc.prems(1) by (simp add: at_typed_def)
    have "thr_pc thr < thr_pc thr'"
    proof (cases stopped)
      case False
      then have "\<forall>q\<in>set (successors (thr_pc thr) (code ! thr_pc thr)). thr_pc thr < q"
        using assms(3) pc by (auto simp: forward_code_def list_all_iff)
      then show ?thesis using s(2) True by simp
    qed (use s(3) True in simp)
    then have "length code - thr_pc thr' \<le> k" using Suc.prems(2) pc by linarith
    then show ?thesis using Suc.IH[of thr'] s True by simp
  next
    case False
    then have "thread_loop (Suc k) code stopped thr = Some (thr', nxt)" using s(1) by (cases nxt) auto
    then show ?thesis using False by blast
  qed
qed

end
