(* ===== verification/Thread_Results.thy ===== *)
theory Thread_Results
  imports Thread_Progress
begin

text \<open>
  The properties of the thread engine: type safety and termination of a program, and the results of the opcodes.
\<close>

section \<open>Programs\<close>

text \<open>A thread with empty stacks at the first instruction, and two programs, for the witnesses.\<close>

definition example_thread :: vthread where
  "example_thread = \<lparr>thr_pc = 0, thr_flags = [BIT4_0, BIT4_1, BIT4_X, BIT4_Z] @ replicate 252 BIT4_X, thr_words = replicate WORDS_COUNT 0,
     stack_vec4 = [], stack_real = [], stack_str = []\<rparr>"

definition types_of :: "nat list list \<Rightarrow> nat \<Rightarrow> stype option" where
  "types_of wss pc = (if pc < length wss then Some \<lparr>ty_vec4 = wss ! pc, ty_real = 0, ty_str = 0\<rparr> else None)"

definition loop_code :: "instr list" where
  "loop_code = [PUSHI_VEC4 1 0 8, PUSHI_VEC4 3 0 8, Bin ADD, Imm MULI 7 0 8, CmpI CMPIE 28 0 8, Jump JMP0 0 4, END]"

definition straight_code :: "instr list" where
  "straight_code = [PUSHI_VEC4 200 0 16, PUSHI_VEC4 7 0 16, Bin DIV_S, SPLIT_VEC4 4, Jump JMP0 6 4, Shift SHIFTL 3, END]"

text \<open>C36. A thread that starts at a point of well-typed code, with stacks of the type of this point, never
  fails an assertion, never reads outside its stacks, flags or registers and never fetches an instruction outside
  the code: after any number of rounds of the loop of vthread_run the loop has a result, which has ended or is
  again at a typed point with stacks of its type.\<close>

theorem thread_type_safe:
  assumes "well_typed code tys" "at_typed code tys thr"
  shows "\<exists>thr' nxt. thread_loop k code stopped thr = Some (thr', nxt) \<and> (nxt = Pause_end \<or> at_typed code tys thr')"
  using loop_typed[OF assms] .

theorem thread_type_safe_witness:
  "\<exists>thr' nxt. thread_loop 100 loop_code False example_thread = Some (thr', nxt) \<and>
     (nxt = Pause_end \<or> at_typed loop_code (types_of [[], [8], [8, 8], [8], [8], [], []]) thr')"
proof (rule thread_type_safe)
  show "well_typed loop_code (types_of [[], [8], [8, 8], [8], [8], [], []])"
    by (simp add: well_typed_def loop_code_def types_of_def check_def need_def upt_rec)
  show "at_typed loop_code (types_of [[], [8], [8, 8], [8], [8], [], []]) example_thread"
    by (simp add: at_typed_def loop_code_def types_of_def example_thread_def typed_def FLAGS_COUNT_def)
qed

text \<open>C37. Within as many rounds as there are instructions left the loop of vthread_run leaves the thread, when
  the jumps of the code go forward or the simulation is stopped: then every jump gives control back, so a thread
  in an endless loop does not keep a stopped simulator busy.\<close>

theorem thread_gives_control_back:
  assumes "well_typed code tys" "at_typed code tys thr" "stopped \<or> forward_code code" "length code - thr_pc thr \<le> k"
  shows "\<exists>thr' nxt. thread_loop k code stopped thr = Some (thr', nxt) \<and> nxt \<noteq> Go"
  using loop_pauses[OF assms] .

theorem thread_gives_control_back_witness:
  "(\<exists>thr' nxt. thread_loop 7 straight_code False example_thread = Some (thr', nxt) \<and> nxt \<noteq> Go) \<and>
   (\<exists>thr' nxt. thread_loop 7 loop_code True example_thread = Some (thr', nxt) \<and> nxt \<noteq> Go)"
proof
  show "\<exists>thr' nxt. thread_loop 7 straight_code False example_thread = Some (thr', nxt) \<and> nxt \<noteq> Go"
  proof (rule thread_gives_control_back[where tys = "types_of [[], [16], [16, 16], [16], [4, 12], [4, 12], [4, 12]]"])
    show "well_typed straight_code (types_of [[], [16], [16, 16], [16], [4, 12], [4, 12], [4, 12]])"
      by (simp add: well_typed_def straight_code_def types_of_def check_def need_def upt_rec)
  qed (simp_all add: at_typed_def straight_code_def types_of_def example_thread_def typed_def FLAGS_COUNT_def forward_code_def upt_rec)
  show "\<exists>thr' nxt. thread_loop 7 loop_code True example_thread = Some (thr', nxt) \<and> nxt \<noteq> Go"
  proof (rule thread_gives_control_back[where tys = "types_of [[], [8], [8, 8], [8], [8], [], []]"])
    show "well_typed loop_code (types_of [[], [8], [8, 8], [8], [8], [], []])"
      by (simp add: well_typed_def loop_code_def types_of_def check_def need_def upt_rec)
  qed (simp_all add: at_typed_def loop_code_def types_of_def example_thread_def typed_def FLAGS_COUNT_def)
qed

section \<open>Results of the opcodes\<close>

lemma find_btop_above: "find_btop bp k < i \<Longrightarrow> i \<le> k \<Longrightarrow> bp ! i = 0"
proof (induction k)
  case (Suc k)
  show ?case
  proof (cases "bp ! Suc k = 0")
    case True
    then have "find_btop bp (Suc k) = find_btop bp k" using find_btop_zero_word[of "Suc k" bp] by simp
    then show ?thesis using Suc True by (cases "i = Suc k") auto
  next
    case False
    then have "find_btop bp (Suc k) = Suc k" by (intro find_btop_stop) simp
    then show ?thesis using Suc.prems by simp
  qed
qed simp

lemma words_val_zero: "(\<And>i. i < length ws \<Longrightarrow> ws ! i = 0) \<Longrightarrow> words_val ws = 0"
proof (induction ws)
  case (Cons w ws)
  have "w = 0" using Cons.prems[of 0] by simp
  moreover have "words_val ws = 0"
  proof (rule Cons.IH)
    fix i assume "i < length ws"
    then show "ws ! i = 0" using Cons.prems[of "Suc i"] by simp
  qed
  ultimately show ?case by simp
qed simp

lemma divide_bits_none:
  assumes "0 < wid" "length ap = word_count wid" "length bp = word_count wid"
  shows "divide_bits ap bp wid = Some None \<longleftrightarrow> words_val bp = 0"
proof
  assume "divide_bits ap bp wid = Some None"
  then have z: "find_btop bp (word_count wid - 1) = 0" "bp ! 0 = 0" by (auto simp: divide_bits_def Let_def split: if_splits)
  show "words_val bp = 0"
  proof (rule words_val_zero)
    fix i assume "i < length bp"
    then show "bp ! i = 0" using z find_btop_above[of bp "word_count wid - 1" i] assms(3) by (cases "i = 0") simp_all
  qed
next
  assume "words_val bp = 0"
  then show "divide_bits ap bp wid = Some None" using divide_bits_one_word[OF assms] by simp
qed

text \<open>C38. The sixteen binary opcodes on vectors replace their two operands by one vector of the same width: sum,
  difference, product, unsigned and signed quotient, remainder and power of the numbers modulo two to the width,
  the bitwise operators, and the merge of the branches of a conditional; X results for unknown bits and for the
  divisor 0. For the quotients of vectors wider than 64 bits this is stated only for divisors below two to the 64 in magnitude
  (\<open>exact_for\<close>): for longer divisors the code can be wrong.\<close>

theorem binary_opcodes_compute:
  assumes "stack_vec4 thr = v # u # rest" "vec4_wf u" "vec4_wf v" "vec_size u = w" "vec_size v = w" "0 < w"
    and "exact_for b w (vec4_bits v)"
  shows "\<exists>x. of_bin b thr = Some (thr\<lparr>stack_vec4 := x # rest\<rparr>) \<and> vec4_wf x \<and>
    vec4_bits x = bin_result b w (vec4_bits u) (vec4_bits v)"
proof -
  obtain f where f: "of_bin b = on_top_two f" "\<forall>u v w. vec4_wf u \<and> vec4_wf v \<and> vec_size u = w \<and> vec_size v = w \<and> 0 < w \<longrightarrow>
     (\<exists>x. f u v = Some x \<and> vec4_wf x \<and> vec_size x = w \<and> (exact_for b w (vec4_bits v) \<longrightarrow> vec4_bits x = bin_result b w (vec4_bits u) (vec4_bits v)))"
    using of_bin_fun[of b] by (elim exE conjE)
  then obtain x where "f u v = Some x" "vec4_wf x" "vec4_bits x = bin_result b w (vec4_bits u) (vec4_bits v)"
    using assms(2-7) by blast
  then show ?thesis using assms(1) by (intro exI[of _ x]) (simp add: f(1) on_top_two_eq)
qed

theorem binary_opcodes_compute_witness:
  "\<exists>x. of_bin DIV_S (example_thread\<lparr>stack_vec4 := [vec4_new 100 BIT4_1, vec4_new 100 BIT4_1]\<rparr>) = Some (example_thread\<lparr>stack_vec4 := [x]\<rparr>) \<and>
     vec4_wf x \<and> vec4_bits x = bin_result DIV_S 100 (replicate 100 BIT4_1) (replicate 100 BIT4_1)"
proof -
  have "\<bar>bits_snum (replicate 100 BIT4_1)\<bar> < 2 ^ 64" by code_simp
  then show ?thesis
    using binary_opcodes_compute[of "example_thread\<lparr>stack_vec4 := [vec4_new 100 BIT4_1, vec4_new 100 BIT4_1]\<rparr>"
        "vec4_new 100 BIT4_1" "vec4_new 100 BIT4_1" "[]" 100 DIV_S]
    by (simp add: const_vector vsize)
qed

text \<open>The flags a comparison sets: 4 for equality, 5 for less-than, 6 for case equality.\<close>

fun cmp_flags :: "cmp_op \<Rightarrow> vvp_bit4_t list \<Rightarrow> vvp_bit4_t list \<Rightarrow> (nat \<times> vvp_bit4_t) list" where
  "cmp_flags CMPE xs ys = [(4, hd (eq_result BIT4_1 BIT4_0 1 xs ys)), (6, hd (eeq_result BIT4_1 BIT4_0 1 xs ys))]"
| "cmp_flags CMPNE xs ys = [(4, bit4_not (hd (eq_result BIT4_1 BIT4_0 1 xs ys))), (6, bit4_not (hd (eeq_result BIT4_1 BIT4_0 1 xs ys)))]"
| "cmp_flags CMPU xs ys =
     [(4, hd (eq_result BIT4_1 BIT4_0 1 xs ys)), (5, less_flag False xs ys), (6, hd (eeq_result BIT4_1 BIT4_0 1 xs ys))]"
| "cmp_flags CMPS xs ys =
     [(4, if list_ex bit4_is_xz (xs @ ys) then BIT4_X else hd (eeq_result BIT4_1 BIT4_0 1 xs ys)),
      (5, less_flag True xs ys), (6, hd (eeq_result BIT4_1 BIT4_0 1 xs ys))]"
| "cmp_flags CMPX xs ys = [(4, if some_pair (\<lambda>a b. a \<noteq> b \<and> \<not> bit4_is_xz a \<and> \<not> bit4_is_xz b) xs ys then BIT4_0 else BIT4_1)]"
| "cmp_flags CMPZ xs ys = [(4, if some_pair (\<lambda>a b. a \<noteq> b \<and> b \<noteq> BIT4_Z \<and> a \<noteq> BIT4_Z) xs ys then BIT4_0 else BIT4_1)]"
| "cmp_flags CMPWE xs ys = [(4, hd (weq_result BIT4_1 BIT4_0 1 xs ys))]"
| "cmp_flags CMPWNE xs ys = [(4, bit4_not (hd (weq_result BIT4_1 BIT4_0 1 xs ys)))]"

text \<open>C39. A comparison of two vectors of one width drops both and sets exactly its flags. CMPE, CMPNE, CMPU, CMPWE and
  CMPWNE set the equality flags to what the comparison functors of the netlist answer: X for \<open>==\<close> when a bit is unknown and no
  known bits differ. CMPU and CMPS set the flag for less-than from the unsigned or signed numbers, X when a bit is unknown. CMPS sets the
  equality flag to X for any unknown bit, also where known bits differ and CMPU gives 0; \<^verbatim>\<open>opcodes.txt\<close> says that the two
  differ in the flag for less-than only. CMPX and CMPZ, for casex and casez, take X and Z, or Z only, of either operand for a
  match, where the functors \<^verbatim>\<open>vvp_cmp_eqx\<close> and \<^verbatim>\<open>vvp_cmp_eqz\<close> look at the right operand only.\<close>

theorem comparisons_set_flags:
  assumes "stack_vec4 thr = v # u # rest" "vec4_wf u" "vec4_wf v" "vec_size u = vec_size v" "0 < vec_size u"
    and "length (thr_flags thr) = FLAGS_COUNT"
  shows "of_cmp c thr = Some (with_flags (cmp_flags c (vec4_bits u) (vec4_bits v)) (thr\<lparr>stack_vec4 := rest\<rparr>))"
proof -
  have ok: "flags_ok thr" using assms(6) by (simp add: flags_ok_def)
  have pop: "pop_vec4_cnt 2 (with_flags fs thr) = Some (with_flags fs (thr\<lparr>stack_vec4 := rest\<rparr>))" for fs
    using assms(1) by (simp add: pop_vec4_cnt_def with_flags_def)
  have peek: "peek_vec4 0 thr = Some v" "peek_vec4 1 thr = Some u" using assms(1) by (simp_all add: peek_vec4_def)
  note sz = assms(4,5)
  show ?thesis
  proof (cases c)
    case CMPWNE
    then show ?thesis
      using do_CMPWE_flags[OF ok sz, of 1] invert_flag_flags(2)[OF ok] by (simp add: of_CMPWNE_def compare_top_two_def peek pop del: One_nat_def)
  qed (simp_all add: of_CMPE_def of_CMPNE_def of_CMPU_def of_CMPS_def of_CMPX_def of_CMPZ_def of_CMPWE_def compare_top_two_def peek
      do_CMPE_flags[OF ok sz, of 1] do_CMPNE_flags[OF ok sz, of 1] do_CMPU_flags[OF ok assms(2,3) sz, of 1] do_CMPS_flags[OF ok sz, of 1]
      do_CMPXZ_flags[OF ok sz(1)] do_CMPWE_flags[OF ok sz, of 1] pop del: One_nat_def)
qed

theorem comparisons_set_flags_witness:
  "of_cmp CMPS (example_thread\<lparr>stack_vec4 := [vec4_new 4 BIT4_0, vec4_new 4 BIT4_1]\<rparr>) =
     Some (with_flags [(4, BIT4_0), (5, BIT4_1), (6, BIT4_0)] example_thread)"
proof -
  have "cmp_flags CMPS (replicate 4 BIT4_1) (replicate 4 BIT4_0) = [(4, BIT4_0), (5, BIT4_1), (6, BIT4_0)]" by code_simp
  then show ?thesis
    using comparisons_set_flags[of "example_thread\<lparr>stack_vec4 := [vec4_new 4 BIT4_0, vec4_new 4 BIT4_1]\<rparr>"
        "vec4_new 4 BIT4_0" "vec4_new 4 BIT4_1" "[]" CMPS]
    by (simp add: const_vector vsize example_thread_def FLAGS_COUNT_def)
qed

text \<open>C40. The long division of machine words ends for all operands and reports exactly the divisor 0; for a divisor below two to
  the 64 it returns the quotient and the remainder. For longer divisors the guess of a quotient word can be far too
  big, so that the subtraction wraps around twice: dividing (2^64 - 1) * 2^64 by 2^65 - 1 yields 2^64 - 1, while the
  quotient is 2^63 - 1.\<close>

theorem long_division:
  assumes "0 < wid" "length ap = word_count wid" "length bp = word_count wid"
  shows "(\<exists>g. divide_bits ap bp wid = Some g \<and> (g = None \<longleftrightarrow> words_val bp = 0) \<and>
      (words_val bp < 2 ^ 64 \<longrightarrow>
       (case g of None \<Rightarrow> True | Some (r, q) \<Rightarrow> words_val q = words_val ap div words_val bp \<and> words_val r = words_val ap mod words_val bp))) \<and>
    divide_bits [0, - 1] [- 1, 1] 128 = Some (Some ([- 1, 1], [- 1, 0]))"
proof -
  obtain g where g: "divide_bits ap bp wid = Some g" using divide_bits_ends[OF assms] by blast
  have "g = None \<longleftrightarrow> words_val bp = 0" using divide_bits_none[OF assms] g by simp
  moreover have "words_val bp < 2 ^ 64 \<longrightarrow>
       (case g of None \<Rightarrow> True | Some (r, q) \<Rightarrow> words_val q = words_val ap div words_val bp \<and> words_val r = words_val ap mod words_val bp)"
  proof
    assume "words_val bp < 2 ^ 64"
    note one = divide_bits_one_word[OF assms this]
    show "case g of None \<Rightarrow> True | Some (r, q) \<Rightarrow> words_val q = words_val ap div words_val bp \<and> words_val r = words_val ap mod words_val bp"
    proof (cases "words_val bp = 0")
      case True
      then show ?thesis using one g by simp
    next
      case False
      then obtain r q where "divide_bits ap bp wid = Some (Some (r, q))" "words_val q = words_val ap div words_val bp"
        "words_val r = words_val ap mod words_val bp"
        using one by (auto simp only: if_False)
      then show ?thesis using g by simp
    qed
  qed
  ultimately show ?thesis using g by (intro conjI exI[of _ g] divide_bits_wrong)
qed

theorem long_division_witness:
  "\<exists>g. divide_bits [5, 7] [3, 0] 128 = Some g \<and>
     (case g of None \<Rightarrow> True | Some (r, q) \<Rightarrow> words_val q = words_val [5, 7] div 3 \<and> words_val r = words_val [5, 7] mod 3)"
proof -
  have v: "words_val [3 :: u64, 0] = 3" by simp
  have len: "0 < (128 :: nat)" "length [5 :: u64, 7] = word_count 128" "length [3 :: u64, 0] = word_count 128" by simp_all
  have "(3 :: nat) < 2 ^ 64" by simp
  then show ?thesis using long_division[OF len, unfolded v] by blast
qed

end
