(* ===== verification/Thread_Tree.thy ===== *)
theory Thread_Tree
  imports Prelude "HOL-Library.Monad_Syntax" "HOL-Library.Word"
begin

text \<open>
  The links between threads (\<^verbatim>\<open>vthread.cc\<close>): how threads are created, joined, detached, disabled and deleted, and who
  wakes whom. A thread is its address; a set of threads is the sorted list of its addresses, as a \<^verbatim>\<open>std::set\<close>
  of pointers is. An access to a thread that has been deleted has the value \<open>None\<close>, as has a failing \<^verbatim>\<open>assert\<close>.
  The stacks, flags and registers are in \<open>Thread_State\<close>; threads that run the code of functions are left out.
\<close>

section \<open>State\<close>

type_synonym tid = nat

record tnode =
  pc_null :: bool
  i_am_joining :: bool
  i_am_detached :: bool
  i_am_waiting :: bool
  i_have_ended :: bool
  i_was_disabled :: bool
  waiting_for_event :: bool
  is_scheduled :: bool
  delay_delete :: bool
  children :: "tid list"
  detached_children :: "tid list"
  task_func_children :: "tid list"
  parent :: "tid option"
  parent_scope :: nat
  wt_context :: "nat option"
  rd_context :: "nat option"

text \<open>
  The memory with the threads, the running thread, the threads of each scope, the context below a stacked
  context, and the calls of \<^verbatim>\<open>schedule_vthread\<close> and
  \<^verbatim>\<open>schedule_del_thr\<close>: threads to run with their delay and push flag, threads to delete.
\<close>

record ttree =
  tnodes :: "tid \<Rightarrow> tnode option"
  running_thread :: "tid option"
  scope_threads :: "nat \<Rightarrow> tid list"
  stacked_context :: "nat \<Rightarrow> nat option"
  thr_events :: "(tid list \<times> 64 word \<times> bool) list"
  del_events :: "tid list"

definition upd :: "tid \<Rightarrow> (tnode \<Rightarrow> tnode) \<Rightarrow> ttree \<Rightarrow> ttree option" where
  "upd t f s = map_option (\<lambda>n. s\<lparr>tnodes := (tnodes s)(t \<mapsto> f n)\<rparr>) (tnodes s t)"

definition set_insert :: "tid \<Rightarrow> tid list \<Rightarrow> tid list" where
  "set_insert t ts = (if t \<in> set ts then ts else insort t ts)"

definition set_erase :: "tid \<Rightarrow> tid list \<Rightarrow> tid list" where
  "set_erase t = filter (\<lambda>x. x \<noteq> t)"

lemma set_of_lists [simp]: "set (set_insert t ts) = insert t (set ts)" "set (set_erase t ts) = set ts - {t}"
  by (auto simp: set_insert_def set_erase_def set_insort_key)

lemma set_erase_Nil [simp]: "set_erase t ts = [] \<longleftrightarrow> set ts \<subseteq> {t}"
  by (auto simp: set_erase_def filter_empty_conv)

section \<open>Threads\<close>

text \<open>The allocator returns an address that is not in use.\<close>

definition vthread_new :: "tid \<Rightarrow> nat \<Rightarrow> ttree \<Rightarrow> ttree option" where
  "vthread_new thr scope s =
     (if tnodes s thr \<noteq> None then None
      else Some (s\<lparr>tnodes := (tnodes s)(thr \<mapsto> \<lparr>pc_null = False, i_am_joining = False, i_am_detached = False, i_am_waiting = False,
          i_have_ended = False, i_was_disabled = False, waiting_for_event = False, is_scheduled = False, delay_delete = False,
          children = [], detached_children = [], task_func_children = [], parent = None, parent_scope = scope,
          wt_context = None, rd_context = None\<rparr>),
        scope_threads := (scope_threads s)(scope := set_insert thr (scope_threads s scope))\<rparr>))"

definition vthread_delete :: "tid \<Rightarrow> ttree \<Rightarrow> ttree" where
  "vthread_delete thr s = s\<lparr>tnodes := (tnodes s)(thr := None)\<rparr>"

definition queue_deletion :: "tid \<Rightarrow> ttree \<Rightarrow> ttree" where
  "queue_deletion thr s = s\<lparr>del_events := del_events s @ [thr]\<rparr>"

text \<open>A list of threads linked by \<^verbatim>\<open>wait_next\<close> is scheduled by one event.\<close>

definition vthread_mark_scheduled :: "tid list \<Rightarrow> ttree \<Rightarrow> ttree option" where
  "vthread_mark_scheduled =
     foldM (\<lambda>thr s. do { n \<leftarrow> tnodes s thr; if is_scheduled n then None else upd thr (\<lambda>n. n\<lparr>is_scheduled := True\<rparr>) s })"

definition queue_vthread :: "tid list \<Rightarrow> 64 word \<Rightarrow> bool \<Rightarrow> ttree \<Rightarrow> ttree option" where
  "queue_vthread thrs delay push_flag s =
     do { s \<leftarrow> vthread_mark_scheduled thrs s; Some (s\<lparr>thr_events := thr_events s @ [(thrs, delay, push_flag)]\<rparr>) }"

definition vthread_schedule_list :: "tid list \<Rightarrow> ttree \<Rightarrow> ttree option" where
  "vthread_schedule_list thrs s =
     do { s \<leftarrow> foldM (\<lambda>thr s. do { n \<leftarrow> tnodes s thr; if waiting_for_event n then upd thr (\<lambda>n. n\<lparr>waiting_for_event := False\<rparr>) s else None }) thrs s;
          queue_vthread thrs 0 False s }"

definition vthread_reap :: "tid \<Rightarrow> ttree \<Rightarrow> ttree option" where
  "vthread_reap thr s =
     do { n \<leftarrow> tnodes s thr;
          s \<leftarrow> foldM (\<lambda>child s. do { c \<leftarrow> tnodes s child;
                 if parent c = Some thr then upd child (\<lambda>c. c\<lparr>parent := parent n\<rparr>) s else None }) (children n) s;
          s \<leftarrow> foldM (\<lambda>child s. do { c \<leftarrow> tnodes s child;
                 if parent c = Some thr \<and> i_am_detached c then upd child (\<lambda>c. c\<lparr>parent := None, i_am_detached := False\<rparr>) s else None })
                 (detached_children n) s;
          s \<leftarrow> (case parent n of
                 None \<Rightarrow> Some s
               | Some p \<Rightarrow> do { m \<leftarrow> tnodes s p;
                   if i_am_detached n then
                     if thr \<in> set (detached_children m) then upd p (\<lambda>m. m\<lparr>detached_children := set_erase thr (detached_children m)\<rparr>) s else None
                   else if thr \<in> set (children m) then upd p (\<lambda>m. m\<lparr>children := set_erase thr (children m)\<rparr>) s else None });
          s \<leftarrow> upd thr (\<lambda>n. n\<lparr>parent := None, pc_null := True\<rparr>)
                 (s\<lparr>scope_threads := (scope_threads s)(parent_scope n := set_erase thr (scope_threads s (parent_scope n)))\<rparr>);
          if \<not> is_scheduled n \<and> \<not> waiting_for_event n then
            if children n \<noteq> [] then None
            else Some (if delay_delete n then queue_deletion thr s else vthread_delete thr s)
          else Some s }"

section \<open>Fork and join\<close>

definition of_FORK :: "tid \<Rightarrow> nat \<Rightarrow> bool \<Rightarrow> bool \<Rightarrow> tid \<Rightarrow> ttree \<Rightarrow> ttree option" where
  "of_FORK child scope is_automatic is_task thr s =
     do { s \<leftarrow> vthread_new child scope s;
          n \<leftarrow> tnodes s thr;
          s \<leftarrow> (if is_automatic then upd child (\<lambda>c. c\<lparr>wt_context := wt_context n, rd_context := wt_context n\<rparr>) s else Some s);
          s \<leftarrow> upd child (\<lambda>c. c\<lparr>parent := Some thr\<rparr>) s;
          s \<leftarrow> upd thr (\<lambda>n. n\<lparr>children := set_insert child (children n)\<rparr>) s;
          s \<leftarrow> (if is_task then upd thr (\<lambda>n. n\<lparr>task_func_children := set_insert child (task_func_children n)\<rparr>) s else Some s);
          queue_vthread [child] 0 True s }"

definition test_joinable :: "tnode \<Rightarrow> tid \<Rightarrow> bool" where
  "test_joinable n child = (task_func_children n = [] \<or> child \<in> set (task_func_children n))"

definition do_join :: "tid \<Rightarrow> tid \<Rightarrow> ttree \<Rightarrow> ttree option" where
  "do_join thr child s =
     do { c \<leftarrow> tnodes s child;
          if parent c \<noteq> Some thr then None
          else do {
            s \<leftarrow> upd thr (\<lambda>n. n\<lparr>task_func_children := set_erase child (task_func_children n)\<rparr>) s;
            n \<leftarrow> tnodes s thr;
            s \<leftarrow> (case wt_context n of
                   Some child_context \<Rightarrow>
                     if wt_context c \<noteq> None \<and> wt_context n \<noteq> rd_context n then
                       upd thr (\<lambda>n. n\<lparr>wt_context := stacked_context s child_context, rd_context := Some child_context\<rparr>)
                         (s\<lparr>stacked_context := (stacked_context s)(child_context := rd_context n)\<rparr>)
                     else Some s
                 | None \<Rightarrow> if wt_context c \<noteq> None \<and> rd_context n \<noteq> None then None else Some s);
            vthread_reap child s } }"

text \<open>The first child that has ended and can be joined.\<close>

fun ended_child :: "tid \<Rightarrow> tid list \<Rightarrow> ttree \<Rightarrow> tid option option" where
  "ended_child thr [] s = Some None"
| "ended_child thr (cur # rest) s =
     do { c \<leftarrow> tnodes s cur; n \<leftarrow> tnodes s thr;
          if i_have_ended c \<and> test_joinable n cur then Some (Some cur) else ended_child thr rest s }"

text \<open>The flag of an opcode says whether the thread goes on.\<close>

definition of_JOIN :: "tid \<Rightarrow> ttree \<Rightarrow> (ttree \<times> bool) option" where
  "of_JOIN thr s =
     do { n \<leftarrow> tnodes s thr;
          if i_am_joining n \<or> children n = [] then None
          else do { r \<leftarrow> ended_child thr (children n) s;
                    case r of
                      Some curp \<Rightarrow> do { s \<leftarrow> do_join thr curp s; Some (s, True) }
                    | None \<Rightarrow> do { s \<leftarrow> upd thr (\<lambda>n. n\<lparr>i_am_joining := True\<rparr>) s; Some (s, False) } } }"

text \<open>The loop takes the first child until none is left; each round removes it.\<close>

definition detach_child :: "tid \<Rightarrow> tid \<Rightarrow> ttree \<Rightarrow> ttree option" where
  "detach_child thr child s =
     do { c \<leftarrow> tnodes s child; n \<leftarrow> tnodes s thr;
          if parent c \<noteq> Some thr \<or> \<not> (wt_context c = None \<or> wt_context n \<noteq> wt_context c) then None
          else if i_have_ended c then vthread_reap child s
          else if child \<notin> set (children n) then None
          else do { s \<leftarrow> upd thr (\<lambda>n. n\<lparr>children := set_erase child (children n)\<rparr>) s;
                    s \<leftarrow> upd child (\<lambda>c. c\<lparr>i_am_detached := True\<rparr>) s;
                    upd thr (\<lambda>n. n\<lparr>detached_children := set_insert child (detached_children n)\<rparr>) s } }"

definition of_JOIN_DETACH :: "nat \<Rightarrow> tid \<Rightarrow> ttree \<Rightarrow> ttree option" where
  "of_JOIN_DETACH count thr s =
     do { n \<leftarrow> tnodes s thr;
          if task_func_children n \<noteq> [] \<or> count \<noteq> length (children n) then None
          else foldM (detach_child thr) (children n) s }"

definition of_WAIT_FORK :: "tid \<Rightarrow> ttree \<Rightarrow> (ttree \<times> bool) option" where
  "of_WAIT_FORK thr s =
     do { n \<leftarrow> tnodes s thr;
          if i_am_joining n \<or> i_am_waiting n \<or> children n \<noteq> [] then None
          else if detached_children n = [] then Some (s, True)
          else do { s \<leftarrow> upd thr (\<lambda>n. n\<lparr>i_am_waiting := True\<rparr>) s; Some (s, False) } }"

text \<open>The list of an event with the new thread in front belongs to the event.\<close>

definition of_WAIT :: "tid \<Rightarrow> ttree \<Rightarrow> ttree option" where
  "of_WAIT thr s =
     do { n \<leftarrow> tnodes s thr; if waiting_for_event n then None else upd thr (\<lambda>n. n\<lparr>waiting_for_event := True\<rparr>) s }"

section \<open>The end of a thread\<close>

definition free_child :: "tid \<Rightarrow> tid \<Rightarrow> ttree \<Rightarrow> ttree option" where
  "free_child thr child s =
     do { c \<leftarrow> tnodes s child;
          if parent c \<noteq> Some thr \<or> \<not> i_am_detached c then None
          else do { s \<leftarrow> upd child (\<lambda>c. c\<lparr>parent := None, i_am_detached := False\<rparr>) s;
                    upd thr (\<lambda>n. n\<lparr>detached_children := set_erase child (detached_children n)\<rparr>) s } }"

definition end_detached :: "tid \<Rightarrow> ttree \<Rightarrow> ttree option" where
  "end_detached thr s =
     do { n \<leftarrow> tnodes s thr;
          tmp \<leftarrow> parent n;
          m \<leftarrow> tnodes s tmp;
          if thr \<notin> set (detached_children m) then None
          else do { s \<leftarrow> upd tmp (\<lambda>m. m\<lparr>detached_children := set_erase thr (detached_children m)\<rparr>) s;
                    m \<leftarrow> tnodes s tmp;
                    s \<leftarrow> (if i_am_waiting m \<and> detached_children m = []
                         then do { s \<leftarrow> upd tmp (\<lambda>m. m\<lparr>i_am_waiting := False\<rparr>) s; queue_vthread [tmp] 0 True s }
                         else Some s);
                    upd thr (\<lambda>n. n\<lparr>i_am_detached := False, parent := None\<rparr>) s } }"

definition of_END :: "tid \<Rightarrow> ttree \<Rightarrow> ttree option" where
  "of_END thr s =
     do { n \<leftarrow> tnodes s thr;
          if waiting_for_event n then None
          else do {
            s \<leftarrow> upd thr (\<lambda>n. n\<lparr>i_have_ended := True, pc_null := True\<rparr>) s;
            s \<leftarrow> foldM (free_child thr) (detached_children n) s;
            if children n \<noteq> [] then None
            else do {
              joined \<leftarrow> (case parent n of
                  None \<Rightarrow> Some None
                | Some tmp \<Rightarrow> do { m \<leftarrow> tnodes s tmp; Some (if \<not> i_am_detached n \<and> i_am_joining m then Some (tmp, m) else None) });
              case joined of
                Some (tmp, m) \<Rightarrow>
                  if \<not> test_joinable m thr then Some s
                  else do { s \<leftarrow> upd tmp (\<lambda>m. m\<lparr>i_am_joining := False\<rparr>) s;
                            s \<leftarrow> queue_vthread [tmp] 0 True s;
                            do_join tmp thr s }
              | None \<Rightarrow> do {
                  s \<leftarrow> (if i_am_detached n then end_detached thr s else Some s);
                  n \<leftarrow> tnodes s thr;
                  if parent n = None then vthread_reap thr s else Some s } } } }"

definition of_ZOMBIE :: "tid \<Rightarrow> ttree \<Rightarrow> ttree option" where
  "of_ZOMBIE thr s =
     do { n \<leftarrow> tnodes s thr;
          s \<leftarrow> upd thr (\<lambda>n. n\<lparr>pc_null := True\<rparr>) s;
          Some (if parent n = None \<and> children n = [] then
                  if delay_delete n then queue_deletion thr s else vthread_delete thr s
                else s) }"

section \<open>Disable\<close>

text \<open>The recursion over the children, with fuel for its depth and the number of children.\<close>

fun do_disable :: "nat \<Rightarrow> tid \<Rightarrow> tid \<Rightarrow> ttree \<Rightarrow> (ttree \<times> bool) option"
  and disable_children :: "nat \<Rightarrow> tid \<Rightarrow> tid \<Rightarrow> bool \<Rightarrow> ttree \<Rightarrow> (ttree \<times> bool) option" where
  "do_disable 0 thr match s = None"
| "do_disable (Suc k) thr match s =
     do { n \<leftarrow> tnodes s thr;
          s \<leftarrow> upd thr (\<lambda>n. n\<lparr>pc_null := True, i_was_disabled := True, i_have_ended := True\<rparr>)
                 (s\<lparr>scope_threads := (scope_threads s)(parent_scope n := set_erase thr (scope_threads s (parent_scope n)))\<rparr>);
          (s, flag) \<leftarrow> disable_children k thr match False s;
          n \<leftarrow> tnodes s thr;
          s \<leftarrow> (case parent n of
                 None \<Rightarrow> vthread_reap thr s
               | Some p \<Rightarrow> do { m \<leftarrow> tnodes s p;
                   if i_am_joining m \<and> test_joinable m thr then
                     do { s \<leftarrow> upd p (\<lambda>m. m\<lparr>i_am_joining := False\<rparr>) s;
                          s \<leftarrow> (if i_have_ended m then Some s else queue_vthread [p] 0 True s);
                          do_join p thr s }
                   else Some s });
          Some (s, flag \<or> thr = match) }"
| "disable_children 0 thr match flag s = None"
| "disable_children (Suc k) thr match flag s =
     do { n \<leftarrow> tnodes s thr;
          case children n of
            [] \<Rightarrow> Some (s, flag)
          | tmp # _ \<Rightarrow> do {
              c \<leftarrow> tnodes s tmp;
              if parent c \<noteq> Some thr then None
              else do { s \<leftarrow> upd thr (\<lambda>n. n\<lparr>i_am_joining := False\<rparr>) s;
                        (s, flag') \<leftarrow> do_disable k tmp match s;
                        s \<leftarrow> vthread_reap tmp s;
                        disable_children k thr match (flag \<or> flag') s } } }"

text \<open>The opcode disables the threads of a scope one after the other; here with fuel for each and for all.\<close>

fun of_DISABLE :: "nat \<Rightarrow> nat \<Rightarrow> tid \<Rightarrow> ttree \<Rightarrow> (ttree \<times> bool) option" where
  "of_DISABLE 0 scope thr s = None"
| "of_DISABLE (Suc k) scope thr s =
     (case scope_threads s scope of
        [] \<Rightarrow> Some (s, True)
      | cur # _ \<Rightarrow> do { (s, disabled_myself) \<leftarrow> do_disable k cur thr s;
                        (s, go_on) \<leftarrow> of_DISABLE k scope thr s;
                        Some (s, go_on \<and> \<not> disabled_myself) })"

fun disable_detached :: "nat \<Rightarrow> tid \<Rightarrow> ttree \<Rightarrow> ttree option" where
  "disable_detached 0 thr s = None"
| "disable_detached (Suc k) thr s =
     do { n \<leftarrow> tnodes s thr;
          case detached_children n of
            [] \<Rightarrow> Some s
          | child # _ \<Rightarrow> do {
              c \<leftarrow> tnodes s child;
              if parent c \<noteq> Some thr then None
              else do { (s, res) \<leftarrow> do_disable k child thr s;
                        if res then None
                        else do { s \<leftarrow> vthread_reap child s; disable_detached k thr s } } } }"

definition of_DISABLE_FORK :: "nat \<Rightarrow> tid \<Rightarrow> ttree \<Rightarrow> ttree option" where
  "of_DISABLE_FORK k thr s =
     do { n \<leftarrow> tnodes s thr; if i_am_joining n \<or> children n \<noteq> [] then None else disable_detached k thr s }"

end
