(* ===== verification/Thread_Live.thy ===== *)
theory Thread_Live
  imports Thread_Tree
begin

text \<open>
  The threads as a state machine, and its invariant: parents and children agree, every thread is in exactly one
  phase, and a blocked thread waits for something that is still going to happen.
\<close>

section \<open>Actions\<close>

text \<open>
  What can happen to the threads of a simulation without \<^verbatim>\<open>%disable\<close>: the scheduler starts the next scheduled
  thread or deletes one; the running thread executes an opcode that touches other threads; an event functor wakes
  its list of waiting threads; a system task asks for a delayed deletion. The order in
  which scheduled threads run is left open: the model has every order, that of the event queue among them.
\<close>

datatype action =
    Start tid nat
  | Run tid
  | Fork tid nat bool bool
  | Join
  | Join_detach nat
  | Wait_fork
  | Wait
  | Delay "64 word"
  | End
  | Wake "tid list"
  | Ask_delay_delete
  | Delete tid

definition pause :: "ttree \<Rightarrow> ttree" where
  "pause s = s\<lparr>running_thread := None\<rparr>"

definition thread_start :: "tid \<Rightarrow> nat \<Rightarrow> ttree \<Rightarrow> ttree option" where
  "thread_start thr scope s = do { s \<leftarrow> vthread_new thr scope s; queue_vthread [thr] 0 False s }"

definition thread_run :: "tid \<Rightarrow> ttree \<Rightarrow> ttree option" where
  "thread_run thr s =
     do { n \<leftarrow> tnodes s thr;
          if running_thread s \<noteq> None \<or> \<not> is_scheduled n then None
          else do { s \<leftarrow> upd thr (\<lambda>n. n\<lparr>is_scheduled := False\<rparr>) s;
                    if pc_null n then of_ZOMBIE thr s else Some (s\<lparr>running_thread := Some thr\<rparr>) } }"

fun tree_step :: "action \<Rightarrow> ttree \<Rightarrow> ttree option" where
  "tree_step (Start thr scope) s = thread_start thr scope s"
| "tree_step (Run thr) s = thread_run thr s"
| "tree_step (Fork child scope is_automatic is_task) s =
     do { thr \<leftarrow> running_thread s; of_FORK child scope is_automatic is_task thr s }"
| "tree_step Join s =
     do { thr \<leftarrow> running_thread s; (s, on) \<leftarrow> of_JOIN thr s; Some (if on then s else pause s) }"
| "tree_step (Join_detach count) s = do { thr \<leftarrow> running_thread s; of_JOIN_DETACH count thr s }"
| "tree_step Wait_fork s =
     do { thr \<leftarrow> running_thread s; (s, on) \<leftarrow> of_WAIT_FORK thr s; Some (if on then s else pause s) }"
| "tree_step Wait s = do { thr \<leftarrow> running_thread s; s \<leftarrow> of_WAIT thr s; Some (pause s) }"
| "tree_step (Delay delay) s = do { thr \<leftarrow> running_thread s; s \<leftarrow> queue_vthread [thr] delay False s; Some (pause s) }"
| "tree_step End s = do { thr \<leftarrow> running_thread s; s \<leftarrow> of_END thr s; Some (pause s) }"
| "tree_step (Wake thrs) s = (if distinct thrs then vthread_schedule_list thrs s else None)"
| "tree_step Ask_delay_delete s = do { thr \<leftarrow> running_thread s; upd thr (\<lambda>n. n\<lparr>delay_delete := True\<rparr>) s }"
| "tree_step (Delete thr) s =
     (if thr \<in> set (del_events s) then Some (vthread_delete thr (s\<lparr>del_events := remove1 thr (del_events s)\<rparr>)) else None)"

definition no_threads :: ttree where
  "no_threads = \<lparr>tnodes = (\<lambda>_. None), running_thread = None, scope_threads = (\<lambda>_. []), stacked_context = (\<lambda>_. None), thr_events = [], del_events = []\<rparr>"

inductive reachable :: "ttree \<Rightarrow> bool" where
  start: "reachable no_threads"
| step: "reachable s \<Longrightarrow> tree_step a s = Some s' \<Longrightarrow> reachable s'"

section \<open>The invariant\<close>

definition sel :: "'a \<Rightarrow> (tnode \<Rightarrow> 'a) \<Rightarrow> (tid \<Rightarrow> tnode option) \<Rightarrow> tid \<Rightarrow> 'a" where
  "sel d f N t = (case N t of None \<Rightarrow> d | Some n \<Rightarrow> f n)"

lemma sel_upd [simp]: "sel d f (N(t \<mapsto> n)) = (sel d f N)(t := f n)" "sel d f (N(t := None)) = (sel d f N)(t := d)"
  by (auto simp: sel_def)

lemma sel_Some: "N t = Some n \<Longrightarrow> sel d f N t = f n"
  by (simp add: sel_def)

lemma sel_None: "N t = None \<Longrightarrow> sel d f N t = d"
  by (simp add: sel_def)

abbreviation "kids \<equiv> sel {} (\<lambda>n. set (children n))"
abbreviation "freed_kids \<equiv> sel {} (\<lambda>n. set (detached_children n))"
abbreviation "task_kids \<equiv> sel {} (\<lambda>n. set (task_func_children n))"
abbreviation "up \<equiv> sel None parent"
abbreviation "freed \<equiv> sel False i_am_detached"
abbreviation "ended \<equiv> sel False i_have_ended"
abbreviation "joining \<equiv> sel False i_am_joining"
abbreviation "fork_waiting \<equiv> sel False i_am_waiting"

text \<open>Children and parents agree.\<close>

definition links ::
  "(tid \<Rightarrow> tid set) \<Rightarrow> (tid \<Rightarrow> tid set) \<Rightarrow> (tid \<Rightarrow> tid set) \<Rightarrow> (tid \<Rightarrow> tid option) \<Rightarrow> (tid \<Rightarrow> bool) \<Rightarrow> (tid \<Rightarrow> bool) \<Rightarrow> bool" where
  "links K D T U d e \<longleftrightarrow>
     (\<forall>c p. c \<in> K p \<longleftrightarrow> U c = Some p \<and> \<not> d c) \<and> (\<forall>c p. c \<in> D p \<longleftrightarrow> U c = Some p \<and> d c) \<and> (\<forall>p. T p \<subseteq> K p) \<and>
     (\<forall>c. d c \<longrightarrow> U c \<noteq> None \<and> \<not> e c) \<and> (\<forall>p. e p \<longrightarrow> K p = {} \<and> D p = {})"

text \<open>A thread in \<^verbatim>\<open>%join\<close> has children, and none that has ended could be joined; one in \<^verbatim>\<open>%wait/fork\<close> has a detached child.\<close>

definition waits_ok ::
  "(tid \<Rightarrow> tid set) \<Rightarrow> (tid \<Rightarrow> tid set) \<Rightarrow> (tid \<Rightarrow> tid set) \<Rightarrow> (tid \<Rightarrow> bool) \<Rightarrow> (tid \<Rightarrow> bool) \<Rightarrow> (tid \<Rightarrow> bool) \<Rightarrow> bool" where
  "waits_ok K D T e j w \<longleftrightarrow>
     (\<forall>p. j p \<longrightarrow> K p \<noteq> {} \<and> (\<forall>c\<in>K p. e c \<longrightarrow> T p \<noteq> {} \<and> c \<notin> T p)) \<and> (\<forall>p. w p \<longrightarrow> D p \<noteq> {})"

text \<open>The parent relation has no cycles.\<close>

definition tree_shaped :: "(tid \<Rightarrow> tid option) \<Rightarrow> bool" where
  "tree_shaped U \<longleftrightarrow> acyclic {(c, p). U c = Some p}"

text \<open>Every thread is in exactly one phase.\<close>

definition phase_ok :: "bool \<Rightarrow> tnode \<Rightarrow> bool" where
  "phase_ok running n \<longleftrightarrow>
     length (filter id [running, is_scheduled n, waiting_for_event n, i_am_joining n, i_am_waiting n, i_have_ended n]) = 1 \<and>
     pc_null n = i_have_ended n"

definition deletes_ok :: "(tid \<Rightarrow> tid option) \<Rightarrow> (tid \<Rightarrow> bool) \<Rightarrow> tid list \<Rightarrow> bool" where
  "deletes_ok U e dels \<longleftrightarrow> distinct dels \<and> (\<forall>t\<in>set dels. e t \<and> U t = None)"

definition tree_ok :: "ttree \<Rightarrow> bool" where
  "tree_ok s \<longleftrightarrow>
     (let N = tnodes s in
      links (kids N) (freed_kids N) (task_kids N) (up N) (freed N) (ended N) \<and>
      waits_ok (kids N) (freed_kids N) (task_kids N) (ended N) (joining N) (fork_waiting N) \<and>
      tree_shaped (up N) \<and> finite (dom N) \<and>
      (\<forall>t n. N t = Some n \<longrightarrow> phase_ok (running_thread s = Some t) n) \<and>
      (\<forall>t. running_thread s = Some t \<longrightarrow> N t \<noteq> None) \<and>
      deletes_ok (up N) (ended N) (del_events s))"

lemma tree_okI:
  assumes "links (kids (tnodes s)) (freed_kids (tnodes s)) (task_kids (tnodes s)) (up (tnodes s)) (freed (tnodes s)) (ended (tnodes s))"
    "waits_ok (kids (tnodes s)) (freed_kids (tnodes s)) (task_kids (tnodes s)) (ended (tnodes s)) (joining (tnodes s)) (fork_waiting (tnodes s))"
    "tree_shaped (up (tnodes s))" "finite (dom (tnodes s))" "\<And>t n. tnodes s t = Some n \<Longrightarrow> phase_ok (running_thread s = Some t) n"
    "\<And>t. running_thread s = Some t \<Longrightarrow> tnodes s t \<noteq> None" "deletes_ok (up (tnodes s)) (ended (tnodes s)) (del_events s)"
  shows "tree_ok s"
  using assms by (simp add: tree_ok_def Let_def)

lemma tree_okD:
  assumes "tree_ok s"
  shows "links (kids (tnodes s)) (freed_kids (tnodes s)) (task_kids (tnodes s)) (up (tnodes s)) (freed (tnodes s)) (ended (tnodes s))"
    "waits_ok (kids (tnodes s)) (freed_kids (tnodes s)) (task_kids (tnodes s)) (ended (tnodes s)) (joining (tnodes s)) (fork_waiting (tnodes s))"
    "tree_shaped (up (tnodes s))" "finite (dom (tnodes s))" "\<And>t n. tnodes s t = Some n \<Longrightarrow> phase_ok (running_thread s = Some t) n"
    "\<And>t. running_thread s = Some t \<Longrightarrow> tnodes s t \<noteq> None" "deletes_ok (up (tnodes s)) (ended (tnodes s)) (del_events s)"
  using assms by (simp_all add: tree_ok_def Let_def)

lemma phase_cases:
  "phase_ok r n \<Longrightarrow> pc_null n = i_have_ended n"
  "phase_ok True n \<Longrightarrow> \<not> is_scheduled n \<and> \<not> waiting_for_event n \<and> \<not> i_am_joining n \<and> \<not> i_am_waiting n \<and> \<not> i_have_ended n"
  "phase_ok r n \<Longrightarrow> is_scheduled n \<Longrightarrow> \<not> r \<and> \<not> waiting_for_event n \<and> \<not> i_am_joining n \<and> \<not> i_am_waiting n \<and> \<not> i_have_ended n"
  "phase_ok r n \<Longrightarrow> waiting_for_event n \<Longrightarrow> \<not> r \<and> \<not> is_scheduled n \<and> \<not> i_am_joining n \<and> \<not> i_am_waiting n \<and> \<not> i_have_ended n"
  "phase_ok r n \<Longrightarrow> i_am_joining n \<Longrightarrow> \<not> r \<and> \<not> is_scheduled n \<and> \<not> waiting_for_event n \<and> \<not> i_am_waiting n \<and> \<not> i_have_ended n"
  "phase_ok r n \<Longrightarrow> i_am_waiting n \<Longrightarrow> \<not> r \<and> \<not> is_scheduled n \<and> \<not> waiting_for_event n \<and> \<not> i_am_joining n \<and> \<not> i_have_ended n"
  "phase_ok r n \<Longrightarrow> i_have_ended n \<Longrightarrow> \<not> r \<and> \<not> is_scheduled n \<and> \<not> waiting_for_event n \<and> \<not> i_am_joining n \<and> \<not> i_am_waiting n"
  by (auto simp: phase_ok_def split: if_splits)

lemma phase_upd [simp]:
  "phase_ok r (children_update f n) = phase_ok r n" "phase_ok r (detached_children_update f n) = phase_ok r n"
  "phase_ok r (task_func_children_update f n) = phase_ok r n" "phase_ok r (parent_update g n) = phase_ok r n"
  "phase_ok r (i_am_detached_update h n) = phase_ok r n" "phase_ok r (wt_context_update k n) = phase_ok r n"
  "phase_ok r (rd_context_update k n) = phase_ok r n" "phase_ok r (delay_delete_update h n) = phase_ok r n"
  by (simp_all add: phase_ok_def)

section \<open>Changes of the links\<close>

lemma links_fork:
  assumes "links K D T U d e" "U c = None" "\<not> d c" "\<not> e p" "X \<subseteq> {c}"
  shows "links (K(p := insert c (K p))) D (T(p := T p \<union> X)) (U(c \<mapsto> p)) d e"
  using assms unfolding links_def by (auto; blast)

lemma links_remove:
  assumes "links K D T U d e" "c \<in> K p"
  shows "links (K(p := K p - {c})) D (T(p := T p - {c})) (U(c := None)) d e"
  using assms unfolding links_def by (auto; blast)

lemma links_detach:
  assumes "links K D T U d e" "c \<in> K p" "\<not> e c" "T p = {}"
  shows "links (K(p := K p - {c})) (D(p := insert c (D p))) T U (d(c := True)) e"
  using assms unfolding links_def by (auto; blast)

lemma links_free:
  assumes "links K D T U d e" "c \<in> D p"
  shows "links K (D(p := D p - {c})) T (U(c := None)) (d(c := False)) e"
  using assms unfolding links_def by (auto; blast)

lemma links_end:
  assumes "links K D T U d e" "K t = {}" "D t = {}" "\<not> d t"
  shows "links K D T U d (e(t := True))"
  using assms unfolding links_def by auto

lemma links_forget:
  assumes "links K D T U d e"
  shows "links K D T U d (e(t := False))"
  using assms unfolding links_def by auto

lemma tree_shaped_less: "tree_shaped U \<Longrightarrow> (\<And>c. U' c = U c \<or> U' c = None) \<Longrightarrow> tree_shaped U'"
  unfolding tree_shaped_def by (erule acyclic_subset) (auto, metis option.distinct(1))

lemma tree_shaped_fork:
  assumes "tree_shaped U" "\<And>x. U x \<noteq> Some c" "c \<noteq> p"
  shows "tree_shaped (U(c \<mapsto> p))"
proof -
  let ?r = "{(c, p). U c = Some p}"
  have sub: "{(x, y). (U(c \<mapsto> p)) x = Some y} \<subseteq> insert (c, p) ?r" by (auto split: if_splits)
  have "(p, c) \<notin> ?r\<^sup>*"
  proof
    assume "(p, c) \<in> ?r\<^sup>*"
    then show False using assms(2,3) by (auto elim: rtranclE)
  qed
  then have "acyclic (insert (c, p) ?r)" using assms(1) by (simp add: tree_shaped_def acyclic_insert)
  then show ?thesis unfolding tree_shaped_def using sub acyclic_subset by blast
qed

lemma tree_shaped_neq: "tree_shaped U \<Longrightarrow> U c = Some p \<Longrightarrow> c \<noteq> p"
  unfolding tree_shaped_def by (auto simp: acyclic_def)

section \<open>Effects of the operations\<close>

lemma upd_Some: "upd t f s = Some s' \<longleftrightarrow> (\<exists>n. tnodes s t = Some n \<and> s' = s\<lparr>tnodes := (tnodes s)(t \<mapsto> f n)\<rparr>)"
  by (auto simp: upd_def)

lemma schedule_one:
  "queue_vthread [t] d b s = Some s' \<longleftrightarrow>
    (\<exists>n. tnodes s t = Some n \<and> \<not> is_scheduled n \<and>
      s' = s\<lparr>tnodes := (tnodes s)(t \<mapsto> n\<lparr>is_scheduled := True\<rparr>), thr_events := thr_events s @ [([t], d, b)]\<rparr>)"
  by (cases "tnodes s t") (auto simp: queue_vthread_def vthread_mark_scheduled_def upd_def)

text \<open>Reaping a thread without children.\<close>

lemma reap_leaf:
  assumes "tnodes s c = Some n" "children n = []" "detached_children n = []" "\<not> is_scheduled n" "\<not> waiting_for_event n"
    "\<not> i_am_detached n" "parent n \<noteq> Some c" "vthread_reap c s = Some s'"
  shows "running_thread s' = running_thread s \<and> thr_events s' = thr_events s \<and>
    (\<exists>N. tnodes s' = N(c := if delay_delete n then Some (n\<lparr>parent := None, pc_null := True\<rparr>) else None) \<and>
      del_events s' = del_events s @ (if delay_delete n then [c] else []) \<and>
      (case parent n of None \<Rightarrow> N = tnodes s
       | Some p \<Rightarrow> (\<exists>m. tnodes s p = Some m \<and> c \<in> set (children m) \<and> N = (tnodes s)(p \<mapsto> m\<lparr>children := set_erase c (children m)\<rparr>))))"
proof (cases "parent n")
  case None
  then show ?thesis
    using assms by (auto simp: vthread_reap_def upd_def queue_deletion_def vthread_delete_def split: if_splits)
next
  case (Some p)
  then have "p \<noteq> c" using assms(7) by auto
  then show ?thesis
    using assms Some
    by (cases "tnodes s p") (auto simp: vthread_reap_def upd_def queue_deletion_def vthread_delete_def split: if_splits)
qed

section \<open>The operations keep the invariant\<close>

text \<open>A thread changes its phase.\<close>

lemma phase_change:
  assumes ok: "tree_ok s" and n: "tnodes s t = Some n"
    and same: "children n' = children n" "detached_children n' = detached_children n" "task_func_children n' = task_func_children n"
      "parent n' = parent n" "i_am_detached n' = i_am_detached n" "i_have_ended n' = i_have_ended n"
    and s': "tnodes s' = (tnodes s)(t \<mapsto> n')" "del_events s' = del_events s"
    and phase: "phase_ok (running_thread s' = Some t) n'" "\<And>x. x \<noteq> t \<Longrightarrow> running_thread s' = Some x \<longleftrightarrow> running_thread s = Some x"
    and waits: "i_am_joining n' \<Longrightarrow> i_am_joining n \<or> children n \<noteq> [] \<and>
        (\<forall>c\<in>set (children n). ended (tnodes s) c \<longrightarrow> task_func_children n \<noteq> [] \<and> c \<notin> set (task_func_children n))"
      "i_am_waiting n' \<Longrightarrow> i_am_waiting n \<or> detached_children n \<noteq> []"
  shows "tree_ok s'"
proof -
  let ?N = "tnodes s"
  note k = tree_okD[OF ok]
  have eq: "kids (tnodes s') = kids ?N" "freed_kids (tnodes s') = freed_kids ?N" "task_kids (tnodes s') = task_kids ?N"
    "up (tnodes s') = up ?N" "freed (tnodes s') = freed ?N" "ended (tnodes s') = ended ?N"
    by (simp_all add: s' same n sel_Some[where N = ?N, OF n] fun_upd_idem)
  show ?thesis
  proof (rule tree_okI)
    show "waits_ok (kids (tnodes s')) (freed_kids (tnodes s')) (task_kids (tnodes s')) (ended (tnodes s')) (joining (tnodes s')) (fork_waiting (tnodes s'))"
    proof -
      have at: "joining ?N t = i_am_joining n" "fork_waiting ?N t = i_am_waiting n" "kids ?N t = set (children n)"
        "freed_kids ?N t = set (detached_children n)" "task_kids ?N t = set (task_func_children n)"
        by (simp_all add: sel_Some[where N = ?N, OF n])
      have "kids ?N t \<noteq> {} \<and> (\<forall>c\<in>kids ?N t. ended ?N c \<longrightarrow> task_kids ?N t \<noteq> {} \<and> c \<notin> task_kids ?N t)" if "i_am_joining n'"
      proof (cases "i_am_joining n")
        case True
        then show ?thesis using k(2) at(1) unfolding waits_ok_def by blast
      next
        case False
        then show ?thesis using waits(1)[OF that] unfolding at by simp
      qed
      moreover have "freed_kids ?N t \<noteq> {}" if "i_am_waiting n'"
      proof (cases "i_am_waiting n")
        case True
        then show ?thesis using k(2) at(2) unfolding waits_ok_def by blast
      next
        case False
        then show ?thesis using waits(2)[OF that] unfolding at by simp
      qed
      moreover have "joining (tnodes s') = (joining ?N)(t := i_am_joining n')" "fork_waiting (tnodes s') = (fork_waiting ?N)(t := i_am_waiting n')"
        by (simp_all add: s')
      ultimately show ?thesis using k(2) unfolding eq waits_ok_def by simp
    qed
    show "phase_ok (running_thread s' = Some x) m" if "tnodes s' x = Some m" for x m
      using that k(5)[of x m] phase by (cases "x = t") (auto simp: s')
    show "tnodes s' x \<noteq> None" if "running_thread s' = Some x" for x
      using that k(6)[of x] phase(2)[of x] by (cases "x = t") (auto simp: s')
    show "finite (dom (tnodes s'))" using k(4) by (simp add: s')
  qed (use k in \<open>simp_all add: eq s'(2)\<close>)
qed

end
