(* ===== verification/Thread_Invariant.thy ===== *)
theory Thread_Invariant
  imports Thread_Live
begin

text \<open>
  Every action of the threads keeps the invariant \<open>tree_ok\<close>.
\<close>

section \<open>Phases\<close>

lemma running_node:
  assumes "tree_ok s" "running_thread s = Some t"
  obtains n where "tnodes s t = Some n" "phase_ok True n"
  using tree_okD(5,6)[OF assms(1)] assms(2) by (metis not_Some_eq)

lemma running_phase:
  assumes "phase_ok True n"
  shows "phase_ok False (n\<lparr>is_scheduled := True\<rparr>)" "phase_ok False (n\<lparr>waiting_for_event := True\<rparr>)"
    "phase_ok False (n\<lparr>i_am_joining := True\<rparr>)" "phase_ok False (n\<lparr>i_am_waiting := True\<rparr>)"
    "phase_ok False (n\<lparr>i_have_ended := True, pc_null := True\<rparr>)"
  using assms by (auto simp: phase_ok_def split: if_splits)

lemma other_threads:
  assumes "running_thread s = Some t" "running_thread s' = None" "x \<noteq> t"
  shows "running_thread s' = Some x \<longleftrightarrow> running_thread s = Some x"
  using assms by simp

lemma delay_ok:
  assumes "tree_ok s" "tree_step (Delay d) s = Some s'"
  shows "tree_ok s'"
proof -
  obtain t where r: "running_thread s = Some t" using assms(2) by (cases "running_thread s") auto
  obtain n where n: "tnodes s t = Some n" "phase_ok True n" using running_node[OF assms(1) r] .
  have s': "tnodes s' = (tnodes s)(t \<mapsto> n\<lparr>is_scheduled := True\<rparr>)" "del_events s' = del_events s" "running_thread s' = None"
    using assms(2) n by (auto simp: r schedule_one pause_def bind_eq_Some_conv)
  show ?thesis
    by (rule phase_change[OF assms(1) n(1) _ _ _ _ _ _ s'(1,2)]) (use running_phase(1)[OF n(2)] phase_cases(2)[OF n(2)] s'(3) r in auto)
qed

lemma wait_ok:
  assumes "tree_ok s" "tree_step Wait s = Some s'"
  shows "tree_ok s'"
proof -
  obtain t where r: "running_thread s = Some t" using assms(2) by (cases "running_thread s") auto
  obtain n where n: "tnodes s t = Some n" "phase_ok True n" using running_node[OF assms(1) r] .
  have s': "tnodes s' = (tnodes s)(t \<mapsto> n\<lparr>waiting_for_event := True\<rparr>)" "del_events s' = del_events s" "running_thread s' = None"
    using assms(2) n by (auto simp: r of_WAIT_def upd_Some pause_def bind_eq_Some_conv split: if_splits)
  show ?thesis
    by (rule phase_change[OF assms(1) n(1) _ _ _ _ _ _ s'(1,2)]) (use running_phase(2)[OF n(2)] phase_cases(2)[OF n(2)] s'(3) r in auto)
qed

lemma wait_fork_ok:
  assumes "tree_ok s" "tree_step Wait_fork s = Some s'"
  shows "tree_ok s'"
proof -
  obtain t where r: "running_thread s = Some t" using assms(2) by (cases "running_thread s") auto
  obtain n where n: "tnodes s t = Some n" "phase_ok True n" using running_node[OF assms(1) r] .
  show ?thesis
  proof (cases "detached_children n = []")
    case True
    then have "s' = s" using assms(2) n by (auto simp: r of_WAIT_FORK_def bind_eq_Some_conv split: if_splits)
    then show ?thesis using assms(1) by simp
  next
    case False
    then have s': "tnodes s' = (tnodes s)(t \<mapsto> n\<lparr>i_am_waiting := True\<rparr>)" "del_events s' = del_events s" "running_thread s' = None"
      using assms(2) n by (auto simp: r of_WAIT_FORK_def upd_Some pause_def bind_eq_Some_conv split: if_splits)
    show ?thesis
      by (rule phase_change[OF assms(1) n(1) _ _ _ _ _ _ s'(1,2)]) (use False running_phase(4)[OF n(2)] phase_cases(2)[OF n(2)] s'(3) r in auto)
  qed
qed

lemma ask_ok:
  assumes "tree_ok s" "tree_step Ask_delay_delete s = Some s'"
  shows "tree_ok s'"
proof -
  obtain t where r: "running_thread s = Some t" using assms(2) by (cases "running_thread s") auto
  obtain n where n: "tnodes s t = Some n" "phase_ok True n" using running_node[OF assms(1) r] .
  have s': "tnodes s' = (tnodes s)(t \<mapsto> n\<lparr>delay_delete := True\<rparr>)" "del_events s' = del_events s" "running_thread s' = Some t"
    using assms(2) n by (auto simp: r upd_Some bind_eq_Some_conv)
  have "phase_ok True (n\<lparr>delay_delete := True\<rparr>)" using n(2) by (simp add: phase_ok_def)
  then show ?thesis
    by (intro phase_change[OF assms(1) n(1) _ _ _ _ _ _ s'(1,2)]) (use s'(3) r in auto)
qed

lemma run_ok:
  assumes "tree_ok s" "tree_step (Run t) s = Some s'"
  shows "tree_ok s'"
proof -
  obtain n where n: "tnodes s t = Some n" "is_scheduled n" "running_thread s = None"
    using assms(2) by (auto simp: thread_run_def bind_eq_Some_conv split: if_splits)
  have ph: "phase_ok False n" using tree_okD(5)[OF assms(1) n(1)] n(3) by simp
  then have "\<not> pc_null n" using phase_cases(1,3) n(2) by blast
  then have s': "tnodes s' = (tnodes s)(t \<mapsto> n\<lparr>is_scheduled := False\<rparr>)" "del_events s' = del_events s" "running_thread s' = Some t"
    using assms(2) n by (auto simp: thread_run_def upd_Some bind_eq_Some_conv split: if_splits)
  have "phase_ok True (n\<lparr>is_scheduled := False\<rparr>)" using ph n(2) by (auto simp: phase_ok_def split: if_splits)
  then show ?thesis
    by (intro phase_change[OF assms(1) n(1) _ _ _ _ _ _ s'(1,2)]) (use s'(3) n in auto)
qed

text \<open>A list of waiting threads is woken.\<close>

lemma clear_waiting:
  "foldM (\<lambda>thr s. do { n \<leftarrow> tnodes s thr; if waiting_for_event n then upd thr (\<lambda>n. n\<lparr>waiting_for_event := False\<rparr>) s else None }) ts s = Some s' \<Longrightarrow>
   distinct ts \<Longrightarrow>
   (\<forall>t\<in>set ts. \<exists>n. tnodes s t = Some n \<and> waiting_for_event n) \<and>
   s' = s\<lparr>tnodes := (\<lambda>x. if x \<in> set ts then map_option (\<lambda>n. n\<lparr>waiting_for_event := False\<rparr>) (tnodes s x) else tnodes s x)\<rparr>"
proof (induction ts arbitrary: s)
  case (Cons t ts)
  obtain n where n: "tnodes s t = Some n" "waiting_for_event n"
    using Cons.prems(1) by (auto simp: bind_eq_Some_conv split: option.splits if_splits)
  let ?s = "s\<lparr>tnodes := (tnodes s)(t \<mapsto> n\<lparr>waiting_for_event := False\<rparr>)\<rparr>"
  have "foldM (\<lambda>thr s. do { n \<leftarrow> tnodes s thr; if waiting_for_event n then upd thr (\<lambda>n. n\<lparr>waiting_for_event := False\<rparr>) s else None }) ts ?s = Some s'"
    using Cons.prems(1) n by (simp add: upd_def)
  from Cons.IH[OF this] Cons.prems(2) have ih: "\<forall>x\<in>set ts. \<exists>m. tnodes ?s x = Some m \<and> waiting_for_event m"
    "s' = ?s\<lparr>tnodes := (\<lambda>x. if x \<in> set ts then map_option (\<lambda>n. n\<lparr>waiting_for_event := False\<rparr>) (tnodes ?s x) else tnodes ?s x)\<rparr>" by auto
  have "x \<noteq> t" if "x \<in> set ts" for x using that Cons.prems(2) by auto
  then show ?case using ih n by (auto simp: fun_eq_iff)
qed simp

lemma mark_all:
  "vthread_mark_scheduled ts s = Some s' \<Longrightarrow> distinct ts \<Longrightarrow>
   (\<forall>t\<in>set ts. \<exists>n. tnodes s t = Some n \<and> \<not> is_scheduled n) \<and>
   s' = s\<lparr>tnodes := (\<lambda>x. if x \<in> set ts then map_option (\<lambda>n. n\<lparr>is_scheduled := True\<rparr>) (tnodes s x) else tnodes s x)\<rparr>"
  unfolding vthread_mark_scheduled_def
proof (induction ts arbitrary: s)
  case (Cons t ts)
  obtain n where n: "tnodes s t = Some n" "\<not> is_scheduled n"
    using Cons.prems(1) by (auto simp: bind_eq_Some_conv split: option.splits if_splits)
  let ?s = "s\<lparr>tnodes := (tnodes s)(t \<mapsto> n\<lparr>is_scheduled := True\<rparr>)\<rparr>"
  have "foldM (\<lambda>thr s. do { n \<leftarrow> tnodes s thr; if is_scheduled n then None else upd thr (\<lambda>n. n\<lparr>is_scheduled := True\<rparr>) s }) ts ?s = Some s'"
    using Cons.prems(1) n by (simp add: upd_def)
  from Cons.IH[OF this] Cons.prems(2) have ih: "\<forall>x\<in>set ts. \<exists>m. tnodes ?s x = Some m \<and> \<not> is_scheduled m"
    "s' = ?s\<lparr>tnodes := (\<lambda>x. if x \<in> set ts then map_option (\<lambda>n. n\<lparr>is_scheduled := True\<rparr>) (tnodes ?s x) else tnodes ?s x)\<rparr>" by auto
  have "x \<noteq> t" if "x \<in> set ts" for x using that Cons.prems(2) by auto
  then show ?case using ih n by (auto simp: fun_eq_iff)
qed simp

lemma sel_same: "(\<And>x n. N x = Some n \<Longrightarrow> f (g x n) = f n) \<Longrightarrow> sel d f (\<lambda>x. map_option (g x) (N x)) = sel d f N"
  by (auto simp: sel_def fun_eq_iff split: option.splits)

lemma wake_ok:
  assumes "tree_ok s" "tree_step (Wake ts) s = Some s'"
  shows "tree_ok s'"
proof -
  obtain s1 s2 where st: "distinct ts"
    "foldM (\<lambda>thr s. do { n \<leftarrow> tnodes s thr; if waiting_for_event n then upd thr (\<lambda>n. n\<lparr>waiting_for_event := False\<rparr>) s else None }) ts s = Some s1"
    "vthread_mark_scheduled ts s1 = Some s2" "s' = s2\<lparr>thr_events := thr_events s2 @ [(ts, 0, False)]\<rparr>"
    using assms(2) by (auto simp: vthread_schedule_list_def queue_vthread_def bind_eq_Some_conv split: if_splits)
  define g :: "tid \<Rightarrow> tnode \<Rightarrow> tnode" where "g = (\<lambda>x n. if x \<in> set ts then n\<lparr>waiting_for_event := False, is_scheduled := True\<rparr> else n)"
  have N: "tnodes s' = (\<lambda>x. map_option (g x) (tnodes s x))"
    using clear_waiting[OF st(2,1)] mark_all[OF st(3,1)] st(4) by (auto simp: g_def fun_eq_iff option.map_ident option.map_comp comp_def)
  have same: "running_thread s' = running_thread s" "del_events s' = del_events s"
    using clear_waiting[OF st(2,1)] mark_all[OF st(3,1)] st(4) by simp_all
  have eq: "kids (tnodes s') = kids (tnodes s)" "freed_kids (tnodes s') = freed_kids (tnodes s)" "task_kids (tnodes s') = task_kids (tnodes s)"
    "up (tnodes s') = up (tnodes s)" "freed (tnodes s') = freed (tnodes s)" "ended (tnodes s') = ended (tnodes s)"
    "joining (tnodes s') = joining (tnodes s)" "fork_waiting (tnodes s') = fork_waiting (tnodes s)"
    unfolding N by (rule sel_same; simp add: g_def)+
  note k = tree_okD[OF assms(1)]
  show ?thesis
  proof (rule tree_okI)
    show "finite (dom (tnodes s'))" using k(4) by (simp add: N dom_def)
    show "phase_ok (running_thread s' = Some x) m" if x: "tnodes s' x = Some m" for x m
    proof -
      obtain n where n: "tnodes s x = Some n" "m = g x n" using x by (auto simp: N)
      have ph: "phase_ok (running_thread s = Some x) n" by (rule k(5)[OF n(1)])
      show ?thesis
      proof (cases "x \<in> set ts")
        case True
        then have "waiting_for_event n" using clear_waiting[OF st(2,1)] n(1) by force
        then show ?thesis using ph True n(2) by (auto simp: phase_ok_def g_def same split: if_splits)
      qed (use ph n(2) in \<open>simp add: g_def same\<close>)
    qed
    show "tnodes s' x \<noteq> None" if "running_thread s' = Some x" for x
      using k(6)[of x] that by (simp add: N same)
  qed (use k in \<open>simp_all add: eq same\<close>)
qed

section \<open>New threads\<close>

lemma no_kids_fresh:
  assumes "tree_ok s" "tnodes s c = None"
  shows "up (tnodes s) x \<noteq> Some c"
  using tree_okD(1)[OF assms(1)] sel_None[of "tnodes s" c, OF assms(2)] unfolding links_def by (metis empty_iff)

lemma start_ok:
  assumes "tree_ok s" "tree_step (Start c scope) s = Some s'"
  shows "tree_ok s'"
proof -
  obtain n where n: "tnodes s c = None" "tnodes s' = (tnodes s)(c \<mapsto> n)" "running_thread s' = running_thread s" "del_events s' = del_events s"
    "children n = []" "detached_children n = []" "task_func_children n = []" "parent n = None" "\<not> i_am_detached n" "\<not> i_have_ended n"
    "\<not> i_am_joining n" "\<not> i_am_waiting n" "phase_ok False n"
    using assms(2) by (auto simp: thread_start_def vthread_new_def schedule_one phase_ok_def split: if_splits)
  have eq: "kids (tnodes s') = kids (tnodes s)" "freed_kids (tnodes s') = freed_kids (tnodes s)" "task_kids (tnodes s') = task_kids (tnodes s)"
    "up (tnodes s') = up (tnodes s)" "freed (tnodes s') = freed (tnodes s)" "ended (tnodes s') = ended (tnodes s)"
    "joining (tnodes s') = joining (tnodes s)" "fork_waiting (tnodes s') = fork_waiting (tnodes s)"
    by (simp_all add: n sel_None[of "tnodes s" c] fun_upd_idem)
  note k = tree_okD[OF assms(1)]
  have "running_thread s \<noteq> Some c" using k(6) n(1) by blast
  then show ?thesis
  proof (intro tree_okI)
    show "phase_ok (running_thread s' = Some x) m" if "tnodes s' x = Some m" for x m
      using that k(5)[of x m] n \<open>running_thread s \<noteq> Some c\<close> by (cases "x = c") auto
    show "tnodes s' x \<noteq> None" if "running_thread s' = Some x" for x
      using that k(6)[of x] by (simp add: n)
    show "finite (dom (tnodes s'))" using k(4) by (simp add: n)
  qed (use k in \<open>simp_all add: eq n(3,4)\<close>)
qed

lemma fork_effect:
  assumes "of_FORK c scope auto task t s = Some s'" "tnodes s t = Some n" "m = the (tnodes s' c)"
  shows "tnodes s c = None \<and> running_thread s' = running_thread s \<and> del_events s' = del_events s \<and>
    tnodes s' = (tnodes s)(t \<mapsto> n\<lparr>children := set_insert c (children n),
      task_func_children := (if task then set_insert c (task_func_children n) else task_func_children n)\<rparr>, c \<mapsto> m) \<and>
    children m = [] \<and> detached_children m = [] \<and> task_func_children m = [] \<and> parent m = Some t \<and> \<not> i_am_detached m \<and> \<not> i_have_ended m \<and>
    \<not> i_am_joining m \<and> \<not> i_am_waiting m \<and> phase_ok False m"
  unfolding assms(3) using assms(1,2)
  by (cases "tnodes s c"; cases task; cases auto)
    (auto simp: of_FORK_def vthread_new_def upd_def schedule_one phase_ok_def fun_eq_iff split: if_splits)

lemma fork_ok:
  assumes "tree_ok s" "tree_step (Fork c scope auto task) s = Some s'"
  shows "tree_ok s'"
proof -
  obtain t where r: "running_thread s = Some t" using assms(2) by (cases "running_thread s") auto
  obtain n where n: "tnodes s t = Some n" "phase_ok True n" using running_node[OF assms(1) r] .
  have step: "of_FORK c scope auto task t s = Some s'" using assms(2) r by simp
  define m where "m = the (tnodes s' c)"
  have m: "tnodes s c = None" "tnodes s' = (tnodes s)(t \<mapsto> n\<lparr>children := set_insert c (children n),
      task_func_children := (if task then set_insert c (task_func_children n) else task_func_children n)\<rparr>, c \<mapsto> m)"
    "running_thread s' = running_thread s" "del_events s' = del_events s"
    "children m = []" "detached_children m = []" "task_func_children m = []" "parent m = Some t" "\<not> i_am_detached m" "\<not> i_have_ended m"
    "\<not> i_am_joining m" "\<not> i_am_waiting m" "phase_ok False m"
    using fork_effect[OF step n(1) m_def] by simp_all
  let ?N = "tnodes s" and ?X = "if task then {c} else {}"
  note k = tree_okD[OF assms(1)]
  have ne: "c \<noteq> t" using m(1) n(1) by auto
  note at = sel_Some[of ?N, OF n(1)] sel_None[of ?N, OF m(1)]
  have idle: "\<not> i_have_ended n" "\<not> i_am_joining n" "\<not> i_am_waiting n" using phase_cases(2)[OF n(2)] by auto
  have eq: "kids (tnodes s') = (kids ?N)(t := insert c (kids ?N t))" "freed_kids (tnodes s') = freed_kids ?N"
    "task_kids (tnodes s') = (task_kids ?N)(t := task_kids ?N t \<union> ?X)" "up (tnodes s') = (up ?N)(c \<mapsto> t)"
    "freed (tnodes s') = freed ?N" "ended (tnodes s') = ended ?N" "joining (tnodes s') = joining ?N" "fork_waiting (tnodes s') = fork_waiting ?N"
    using ne by (auto simp: m at fun_eq_iff)
  show ?thesis
  proof (rule tree_okI)
    show "links (kids (tnodes s')) (freed_kids (tnodes s')) (task_kids (tnodes s')) (up (tnodes s')) (freed (tnodes s')) (ended (tnodes s'))"
      unfolding eq by (rule links_fork[OF k(1)]) (simp_all add: at idle)
    show "waits_ok (kids (tnodes s')) (freed_kids (tnodes s')) (task_kids (tnodes s')) (ended (tnodes s')) (joining (tnodes s')) (fork_waiting (tnodes s'))"
      unfolding eq using k(2) idle by (simp add: waits_ok_def at)
    show "tree_shaped (up (tnodes s'))"
      unfolding eq by (rule tree_shaped_fork[OF k(3) no_kids_fresh[OF assms(1) m(1)] ne])
    show "phase_ok (running_thread s' = Some x) y" if "tnodes s' x = Some y" for x y
      using that k(5)[of x y] n(2) m ne r by (cases "x = t"; cases "x = c") auto
    show "tnodes s' x \<noteq> None" if "running_thread s' = Some x" for x
      using that k(6)[of x] by (simp add: m)
    show "finite (dom (tnodes s'))" using k(4) by (simp add: m)
    show "deletes_ok (up (tnodes s')) (ended (tnodes s')) (del_events s')"
      using k(7) unfolding eq m(4) by (auto simp: deletes_ok_def at)
  qed
qed

section \<open>Threads that go away\<close>

lemma delete_ok:
  assumes "tree_ok s" "tree_step (Delete t) s = Some s'"
  shows "tree_ok s'"
proof -
  have d: "t \<in> set (del_events s)" and s': "tnodes s' = (tnodes s)(t := None)" "running_thread s' = running_thread s"
    "del_events s' = remove1 t (del_events s)"
    using assms(2) by (auto simp: vthread_delete_def split: if_splits)
  note k = tree_okD[OF assms(1)]
  have t: "ended (tnodes s) t" "up (tnodes s) t = None" using k(7) d by (simp_all add: deletes_ok_def)
  then obtain n where n: "tnodes s t = Some n" "i_have_ended n" by (cases "tnodes s t") (auto simp: sel_def)
  note at = sel_Some[of "tnodes s", OF n(1)]
  have leaf: "kids (tnodes s) t = {}" "freed_kids (tnodes s) t = {}" "task_kids (tnodes s) t = {}" "\<not> freed (tnodes s) t"
    using k(1) t unfolding links_def by blast+
  have ph: "\<not> i_am_joining n" "\<not> i_am_waiting n" "running_thread s \<noteq> Some t" using phase_cases(7)[OF k(5)[OF n(1)] n(2)] by auto
  have eq: "kids (tnodes s') = kids (tnodes s)" "freed_kids (tnodes s') = freed_kids (tnodes s)" "task_kids (tnodes s') = task_kids (tnodes s)"
    "up (tnodes s') = up (tnodes s)" "freed (tnodes s') = freed (tnodes s)" "ended (tnodes s') = (ended (tnodes s))(t := False)"
    "joining (tnodes s') = joining (tnodes s)" "fork_waiting (tnodes s') = fork_waiting (tnodes s)"
    using leaf t(2) ph by (auto simp: s' fun_eq_iff at)
  show ?thesis
  proof (rule tree_okI)
    show "links (kids (tnodes s')) (freed_kids (tnodes s')) (task_kids (tnodes s')) (up (tnodes s')) (freed (tnodes s')) (ended (tnodes s'))"
      unfolding eq by (rule links_forget[OF k(1)])
    show "waits_ok (kids (tnodes s')) (freed_kids (tnodes s')) (task_kids (tnodes s')) (ended (tnodes s')) (joining (tnodes s')) (fork_waiting (tnodes s'))"
      unfolding eq using k(2) by (simp add: waits_ok_def)
    show "phase_ok (running_thread s' = Some x) y" if "tnodes s' x = Some y" for x y
      using that k(5)[of x y] by (cases "x = t") (auto simp: s')
    show "tnodes s' x \<noteq> None" if "running_thread s' = Some x" for x
      using that k(6)[of x] ph(3) by (auto simp: s')
    show "finite (dom (tnodes s'))" using k(4) by (simp add: s')
    show "deletes_ok (up (tnodes s')) (ended (tnodes s')) (del_events s')"
      using k(7) d unfolding eq s'(3) by (auto simp: deletes_ok_def)
  qed (use k in \<open>simp_all add: eq\<close>)
qed

end
