(* ===== verification/Thread_Ending.thy ===== *)
theory Thread_Ending
  imports Thread_Invariant
begin

text \<open>
  Joining, detaching and ending threads keep the invariant; every reachable state satisfies it.
\<close>

section \<open>Removing a child\<close>

text \<open>What may be left of a reaped thread: nothing, or a thread that waits for its deletion.\<close>

definition garbage :: "tnode option \<Rightarrow> bool" where
  "garbage g \<longleftrightarrow> (case g of None \<Rightarrow> True | Some g \<Rightarrow>
     children g = [] \<and> detached_children g = [] \<and> task_func_children g = [] \<and> parent g = None \<and> \<not> i_am_detached g \<and> i_have_ended g \<and>
     \<not> i_am_joining g \<and> \<not> i_am_waiting g \<and> phase_ok False g)"

lemma garbage_sel:
  assumes "garbage g" "t \<noteq> c"
  shows "sel d f (N(t \<mapsto> n, c := g)) = (sel d f N)(t := f n, c := (case g of None \<Rightarrow> d | Some g \<Rightarrow> f g))"
  by (auto simp: sel_def fun_eq_iff split: option.splits)

lemma garbage_fields:
  assumes "garbage g"
  shows "(case g of None \<Rightarrow> {} | Some g \<Rightarrow> set (children g)) = {}" "(case g of None \<Rightarrow> {} | Some g \<Rightarrow> set (detached_children g)) = {}"
    "(case g of None \<Rightarrow> {} | Some g \<Rightarrow> set (task_func_children g)) = {}" "(case g of None \<Rightarrow> None | Some g \<Rightarrow> parent g) = None"
    "(case g of None \<Rightarrow> False | Some g \<Rightarrow> i_am_detached g) = False" "(case g of None \<Rightarrow> False | Some g \<Rightarrow> i_have_ended g) = (g \<noteq> None)"
    "(case g of None \<Rightarrow> False | Some g \<Rightarrow> i_am_joining g) = False" "(case g of None \<Rightarrow> False | Some g \<Rightarrow> i_am_waiting g) = False"
  using assms by (auto simp: garbage_def split: option.splits)

lemma no_wait_leaf:
  assumes "tree_ok s" "kids (tnodes s) c = {}" "freed_kids (tnodes s) c = {}"
  shows "task_kids (tnodes s) c = {}" "\<not> joining (tnodes s) c" "\<not> fork_waiting (tnodes s) c"
  using tree_okD(1,2)[OF assms(1)] assms(2,3) unfolding links_def waits_ok_def by blast+

lemma remove_child:
  assumes ok: "tree_ok s" and m: "tnodes s p = Some m" and c: "c \<in> set (children m)"
    and leaf: "kids (tnodes s) c = {}" "freed_kids (tnodes s) c = {}"
    and N: "tnodes s' = (tnodes s)(p \<mapsto> m', c := g)" and g: "garbage g" "del_events s' = del_events s @ (if g = None then [] else [c])"
    and m': "set (children m') = set (children m) - {c}" "set (task_func_children m') = set (task_func_children m) - {c}"
      "detached_children m' = detached_children m" "parent m' = parent m" "i_am_detached m' = i_am_detached m" "i_have_ended m' = i_have_ended m"
      "\<not> i_am_joining m'" "i_am_waiting m' = i_am_waiting m" "phase_ok (running_thread s' = Some p) m'"
    and r: "running_thread s' \<noteq> Some c" "\<And>x. x \<noteq> c \<Longrightarrow> x \<noteq> p \<Longrightarrow> running_thread s' = Some x \<longleftrightarrow> running_thread s = Some x"
  shows "tree_ok s'"
proof -
  let ?N = "tnodes s"
  note k = tree_okD[OF ok]
  note at = sel_Some[of ?N, OF m]
  have cp: "c \<in> kids ?N p" using c by (simp add: at)
  have up: "up ?N c = Some p" and nd: "\<not> freed ?N c" using k(1) cp unfolding links_def by blast+
  have ne: "p \<noteq> c" using tree_shaped_neq[OF k(3) up] by simp
  note w = no_wait_leaf[OF ok leaf]
  note S = garbage_sel[OF g(1) ne, of _ _ ?N m'] garbage_fields[OF g(1)]
  have eq: "kids (tnodes s') = (kids ?N)(p := kids ?N p - {c})" "freed_kids (tnodes s') = freed_kids ?N"
    "task_kids (tnodes s') = (task_kids ?N)(p := task_kids ?N p - {c})" "up (tnodes s') = (up ?N)(c := None)" "freed (tnodes s') = freed ?N"
    "ended (tnodes s') = (ended ?N)(c := g \<noteq> None)" "joining (tnodes s') = (joining ?N)(p := False)" "fork_waiting (tnodes s') = fork_waiting ?N"
    using w leaf nd ne unfolding N S m' by (auto simp: at fun_eq_iff m')
  have L: "links ((kids ?N)(p := kids ?N p - {c})) (freed_kids ?N) ((task_kids ?N)(p := task_kids ?N p - {c})) ((up ?N)(c := None)) (freed ?N) (ended ?N)"
    by (rule links_remove[OF k(1) cp])
  show ?thesis
  proof (rule tree_okI)
    show "links (kids (tnodes s')) (freed_kids (tnodes s')) (task_kids (tnodes s')) (up (tnodes s')) (freed (tnodes s')) (ended (tnodes s'))"
      unfolding eq using links_end[OF L, of c] links_forget[OF L, of c] leaf nd ne by (cases "g = None") simp_all
    show "waits_ok (kids (tnodes s')) (freed_kids (tnodes s')) (task_kids (tnodes s')) (ended (tnodes s')) (joining (tnodes s')) (fork_waiting (tnodes s'))"
    proof -
      have other: "c \<notin> kids ?N q" if "q \<noteq> p" for q
        using k(1) up that unfolding links_def by (metis option.inject)
      have "kids ?N q \<noteq> {} \<and> (\<forall>x\<in>kids ?N q. x \<noteq> c \<and> (ended ?N x \<longrightarrow> task_kids ?N q \<noteq> {} \<and> x \<notin> task_kids ?N q))"
        if "q \<noteq> p" "joining ?N q" for q
        using k(2) other[OF that(1)] that(2) unfolding waits_ok_def by blast
      then show ?thesis unfolding eq waits_ok_def using k(2) by (simp add: waits_ok_def)
    qed
    show "tree_shaped (up (tnodes s'))" unfolding eq by (rule tree_shaped_less[OF k(3)]) simp
    show "phase_ok (running_thread s' = Some x) y" if "tnodes s' x = Some y" for x y
      using that k(5)[of x y] m'(9) r ne g(1) by (cases "x = p"; cases "x = c") (auto simp: N garbage_def)
    show "tnodes s' x \<noteq> None" if "running_thread s' = Some x" for x
    proof (cases "x = p")
      case False
      moreover have "x \<noteq> c" using that r(1) by auto
      ultimately show ?thesis using that k(6)[of x] r(2)[of x] by (simp add: N)
    qed (use ne in \<open>simp add: N\<close>)
    show "finite (dom (tnodes s'))" using k(4) unfolding N by (cases g) simp_all
    show "deletes_ok (up (tnodes s')) (ended (tnodes s')) (del_events s')"
    proof -
      have "c \<notin> set (del_events s)" using k(7) up by (auto simp: deletes_ok_def)
      then show ?thesis using k(7) unfolding eq g(2) by (cases "g = None") (auto simp: deletes_ok_def)
    qed
  qed
qed

lemma reap_succeeds:
  assumes "tnodes s c = Some n" "children n = []" "detached_children n = []" "\<not> i_am_detached n" "parent n \<noteq> Some c"
    and "\<And>p. parent n = Some p \<Longrightarrow> \<exists>m. tnodes s p = Some m \<and> c \<in> set (children m)"
  shows "\<exists>s'. vthread_reap c s = Some s'"
proof (cases "parent n")
  case None
  then show ?thesis using assms(1-3) by (simp add: vthread_reap_def upd_def)
next
  case (Some p)
  then obtain m where "tnodes s p = Some m" "c \<in> set (children m)" using assms(6) by blast
  moreover have "p \<noteq> c" using Some assms(5) by auto
  ultimately show ?thesis using assms(1-4) Some by (simp add: vthread_reap_def upd_def)
qed

text \<open>A join with a child that has ended.\<close>

lemma do_join_effect:
  assumes "tnodes s c = Some n" "tnodes s p = Some m" "p \<noteq> c" "children n = []" "detached_children n = []" "\<not> is_scheduled n"
    "\<not> waiting_for_event n" "\<not> i_am_detached n" "do_join p c s = Some s'"
  shows "\<exists>m'. c \<in> set (children m) \<and> tnodes s' = (tnodes s)(p \<mapsto> m', c := (if delay_delete n then Some (n\<lparr>parent := None, pc_null := True\<rparr>) else None)) \<and>
    del_events s' = del_events s @ (if delay_delete n then [c] else []) \<and> running_thread s' = running_thread s \<and>
    thr_events s' = thr_events s \<and> parent n = Some p \<and> (\<exists>w r. m' = m\<lparr>children := set_erase c (children m), task_func_children := set_erase c (task_func_children m), wt_context := w, rd_context := r\<rparr>)"
proof -
  have par: "parent n = Some p" using assms(1,9) by (auto simp: do_join_def bind_eq_Some_conv split: if_splits)
  let ?m = "m\<lparr>task_func_children := set_erase c (task_func_children m)\<rparr>"
  have same: "?m\<lparr>wt_context := wt_context m, rd_context := rd_context m\<rparr> = ?m" by (cases m) simp
  have "\<exists>s1 w r. vthread_reap c s1 = Some s' \<and> del_events s1 = del_events s \<and> running_thread s1 = running_thread s \<and>
      thr_events s1 = thr_events s \<and> tnodes s1 = (tnodes s)(p \<mapsto> ?m\<lparr>wt_context := w, rd_context := r\<rparr>)"
  proof (cases "vthread_reap c (s\<lparr>tnodes := (tnodes s)(p \<mapsto> ?m)\<rparr>) = Some s'")
    case True
    then show ?thesis using same by (intro exI[of _ "s\<lparr>tnodes := (tnodes s)(p \<mapsto> ?m)\<rparr>"] exI[of _ "wt_context m"] exI[of _ "rd_context m"]) simp
  next
    case False
    then obtain x where x: "wt_context m = Some x" "wt_context n \<noteq> None" "wt_context m \<noteq> rd_context m"
      using assms(1,2,3,9) par by (cases "wt_context m") (auto simp: do_join_def upd_def split: if_splits)
    let ?s = "s\<lparr>stacked_context := (stacked_context s)(x := rd_context m),
        tnodes := (tnodes s)(p \<mapsto> ?m\<lparr>wt_context := stacked_context s x, rd_context := Some x\<rparr>)\<rparr>"
    have "vthread_reap c ?s = Some s'" using assms(1,2,3,9) par x by (simp add: do_join_def upd_def)
    then show ?thesis by (intro exI[of _ ?s] exI) (auto intro!: exI)
  qed
  then obtain s1 w r where s1: "vthread_reap c s1 = Some s'" "del_events s1 = del_events s" "running_thread s1 = running_thread s"
    "tnodes s1 = (tnodes s)(p \<mapsto> ?m\<lparr>wt_context := w, rd_context := r\<rparr>)" "thr_events s1 = thr_events s" by blast
  have "tnodes s1 c = Some n" using s1(4) assms(1,3) by simp
  from reap_leaf[OF this assms(4-8) _ s1(1)] par assms(3) obtain N m1 where e: "tnodes s1 p = Some m1" "c \<in> set (children m1)"
    "N = (tnodes s1)(p \<mapsto> m1\<lparr>children := set_erase c (children m1)\<rparr>)"
    "tnodes s' = N(c := if delay_delete n then Some (n\<lparr>parent := None, pc_null := True\<rparr>) else None)"
    "del_events s' = del_events s1 @ (if delay_delete n then [c] else [])" "running_thread s' = running_thread s1" "thr_events s' = thr_events s1"
    by auto
  have m1: "m1 = ?m\<lparr>wt_context := w, rd_context := r\<rparr>" using e(1) s1(4) by simp
  have "m1\<lparr>children := set_erase c (children m1)\<rparr> =
      m\<lparr>children := set_erase c (children m), task_func_children := set_erase c (task_func_children m), wt_context := w, rd_context := r\<rparr>"
    by (cases m) (simp add: m1)
  then have "tnodes s' = (tnodes s)(p \<mapsto> m\<lparr>children := set_erase c (children m), task_func_children := set_erase c (task_func_children m),
      wt_context := w, rd_context := r\<rparr>, c := (if delay_delete n then Some (n\<lparr>parent := None, pc_null := True\<rparr>) else None))"
    using e(3,4) s1(4) by simp
  moreover have "c \<in> set (children m)" using e(2) m1 by simp
  moreover have "del_events s' = del_events s @ (if delay_delete n then [c] else [])" "running_thread s' = running_thread s" "thr_events s' = thr_events s"
    using e(5-7) s1(2,3,5) by simp_all
  ultimately show ?thesis
    by (intro exI[of _ "m\<lparr>children := set_erase c (children m), task_func_children := set_erase c (task_func_children m),
      wt_context := w, rd_context := r\<rparr>"] conjI par) (assumption | (intro exI, rule refl))+
qed

section \<open>Join and detach\<close>

lemma ended_child_Some:
  assumes "tnodes s thr = Some m"
  shows "ended_child thr cs s = Some (Some c) \<Longrightarrow> c \<in> set cs \<and> (\<exists>n. tnodes s c = Some n \<and> i_have_ended n)"
    "ended_child thr cs s = Some None \<Longrightarrow> \<forall>c\<in>set cs. ended (tnodes s) c \<longrightarrow> \<not> test_joinable m c"
proof -
  show "ended_child thr cs s = Some (Some c) \<Longrightarrow> c \<in> set cs \<and> (\<exists>n. tnodes s c = Some n \<and> i_have_ended n)"
    using assms by (induction cs) (auto simp: bind_eq_Some_conv split: if_splits)
  show "ended_child thr cs s = Some None \<Longrightarrow> \<forall>c\<in>set cs. ended (tnodes s) c \<longrightarrow> \<not> test_joinable m c"
    using assms by (induction cs) (auto simp: bind_eq_Some_conv sel_def split: if_splits)
qed

text \<open>A child that has ended is a leaf.\<close>

lemma ended_leaf:
  assumes "tree_ok s" "tnodes s c = Some n" "i_have_ended n"
  shows "kids (tnodes s) c = {}" "freed_kids (tnodes s) c = {}" "children n = []" "detached_children n = []" "task_func_children n = []"
    "\<not> is_scheduled n" "\<not> waiting_for_event n" "\<not> i_am_joining n" "\<not> i_am_waiting n" "\<not> i_am_detached n" "running_thread s \<noteq> Some c"
    "phase_ok False n"
proof -
  note k = tree_okD[OF assms(1)]
  note at = sel_Some[of "tnodes s", OF assms(2)]
  have e: "ended (tnodes s) c" using assms(3) by (simp add: at)
  show leaf: "kids (tnodes s) c = {}" "freed_kids (tnodes s) c = {}" using k(1) e unfolding links_def by blast+
  show "children n = []" "detached_children n = []" using leaf by (simp_all add: at)
  show "task_func_children n = []" using no_wait_leaf(1)[OF assms(1) leaf] by (simp add: at)
  have "\<not> freed (tnodes s) c" using k(1) e unfolding links_def by blast
  then show "\<not> i_am_detached n" by (simp add: at)
  show ph: "\<not> is_scheduled n" "\<not> waiting_for_event n" "\<not> i_am_joining n" "\<not> i_am_waiting n" "running_thread s \<noteq> Some c"
    using phase_cases(7)[OF k(5)[OF assms(2)] assms(3)] by auto
  show "phase_ok False n" using k(5)[OF assms(2)] ph(5) by simp
qed

lemma garbage_ended:
  assumes "tree_ok s" "tnodes s c = Some n" "i_have_ended n"
  shows "garbage (if delay_delete n then Some (n\<lparr>parent := None, pc_null := True\<rparr>) else None)"
proof -
  note l = ended_leaf[OF assms]
  have "phase_ok False (n\<lparr>parent := None, pc_null := True\<rparr>)" using l(12) assms(3) by (simp add: phase_ok_def)
  then show ?thesis using l assms(3) by (simp add: garbage_def)
qed

lemma do_join_succeeds:
  assumes "tnodes s c = Some n" "tnodes s p = Some m" "p \<noteq> c" "children n = []" "detached_children n = []" "\<not> i_am_detached n"
    "parent n = Some p" "c \<in> set (children m)" "wt_context m \<noteq> None \<or> wt_context n = None \<or> rd_context m = None"
  shows "\<exists>s'. do_join p c s = Some s'"
proof -
  let ?m = "m\<lparr>task_func_children := set_erase c (task_func_children m)\<rparr>"
  have reap: "\<exists>s'. vthread_reap c s1 = Some s'" if "tnodes s1 = (tnodes s)(p \<mapsto> m1)" "children m1 = children m" for s1 m1
    by (rule reap_succeeds[where n = n]) (use assms that in auto)
  show ?thesis
  proof (cases "wt_context m")
    case None
    have "\<exists>s'. vthread_reap c (s\<lparr>tnodes := (tnodes s)(p \<mapsto> ?m)\<rparr>) = Some s'" by (rule reap[of _ ?m]) simp_all
    then show ?thesis using assms None by (simp add: do_join_def upd_def)
  next
    case (Some x)
    let ?s = "s\<lparr>stacked_context := (stacked_context s)(x := rd_context m),
        tnodes := (tnodes s)(p \<mapsto> ?m\<lparr>wt_context := stacked_context s x, rd_context := Some x\<rparr>)\<rparr>"
    have "\<exists>s'. vthread_reap c (s\<lparr>tnodes := (tnodes s)(p \<mapsto> ?m)\<rparr>) = Some s'" by (rule reap[of _ ?m]) simp_all
    moreover have "\<exists>s'. vthread_reap c ?s = Some s'" by (rule reap[of _ "?m\<lparr>wt_context := stacked_context s x, rd_context := Some x\<rparr>"]) simp_all
    ultimately show ?thesis using assms Some by (auto simp: do_join_def upd_def)
  qed
qed

lemma kid_neq:
  assumes "tree_ok s" "tnodes s t = Some m" "c \<in> set (children m)"
  shows "c \<noteq> t"
proof -
  have "c \<in> kids (tnodes s) t" using assms(3) by (simp add: sel_Some[of "tnodes s", OF assms(2)])
  then have "up (tnodes s) c = Some t" using tree_okD(1)[OF assms(1)] unfolding links_def by blast
  then show ?thesis by (rule tree_shaped_neq[OF tree_okD(3)[OF assms(1)]])
qed

lemma join_ok:
  assumes "tree_ok s" "tree_step Join s = Some s'"
  shows "tree_ok s'"
proof -
  obtain t where r: "running_thread s = Some t" using assms(2) by (cases "running_thread s") auto
  obtain m where m: "tnodes s t = Some m" "phase_ok True m" using running_node[OF assms(1) r] .
  obtain q where q: "ended_child t (children m) s = Some q" "children m \<noteq> []"
    using assms(2) m by (auto simp: r of_JOIN_def bind_eq_Some_conv split: if_splits)
  note idle = phase_cases(2)[OF m(2)]
  show ?thesis
  proof (cases q)
    case None
    have s': "tnodes s' = (tnodes s)(t \<mapsto> m\<lparr>i_am_joining := True\<rparr>)" "del_events s' = del_events s" "running_thread s' = None"
      using assms(2) m q None idle by (auto simp: r of_JOIN_def upd_Some pause_def bind_eq_Some_conv split: if_splits)
    have "\<forall>c\<in>set (children m). ended (tnodes s) c \<longrightarrow> task_func_children m \<noteq> [] \<and> c \<notin> set (task_func_children m)"
      using ended_child_Some(2)[OF m(1) q(1)[unfolded None]] by (auto simp: test_joinable_def)
    then show ?thesis
      by (intro phase_change[OF assms(1) m(1) _ _ _ _ _ _ s'(1,2)]) (use q(2) running_phase(3)[OF m(2)] idle s'(3) r in auto)
  next
    case (Some c)
    obtain n where n: "c \<in> set (children m)" "tnodes s c = Some n" "i_have_ended n"
      using ended_child_Some(1)[OF m(1) q(1)[unfolded Some]] by blast
    have ne: "t \<noteq> c" using kid_neq[OF assms(1) m(1) n(1)] by simp
    note leaf = ended_leaf[OF assms(1) n(2,3)]
    have "do_join t c s = Some s'"
      using assms(2) m q Some idle by (auto simp: r of_JOIN_def bind_eq_Some_conv split: if_splits)
    from do_join_effect[OF n(2) m(1) ne leaf(3,4,6,7,10) this] obtain m' w z where e:
      "tnodes s' = (tnodes s)(t \<mapsto> m', c := (if delay_delete n then Some (n\<lparr>parent := None, pc_null := True\<rparr>) else None))"
      "del_events s' = del_events s @ (if delay_delete n then [c] else [])" "running_thread s' = running_thread s"
      "m' = m\<lparr>children := set_erase c (children m), task_func_children := set_erase c (task_func_children m), wt_context := w, rd_context := z\<rparr>"
      by blast
    show ?thesis
      by (rule remove_child[OF assms(1) m(1) n(1) leaf(1,2) e(1) garbage_ended[OF assms(1) n(2,3)]])
        (use e m(2) r ne idle in auto)
  qed
qed

lemma foldM_keeps:
  assumes "foldM f xs s = Some s'" "P s" "\<And>x s s'. P s \<Longrightarrow> f x s = Some s' \<Longrightarrow> P s'"
  shows "P s'"
  using assms(1,2) by (induction xs arbitrary: s) (auto split: option.splits intro: assms(3))

lemma detach_ok:
  assumes "tree_ok s" "running_thread s = Some t" "task_kids (tnodes s) t = {}" "detach_child t c s = Some s'"
  shows "tree_ok s' \<and> running_thread s' = Some t \<and> task_kids (tnodes s') t = {}"
proof -
  obtain m where m: "tnodes s t = Some m" "phase_ok True m" using running_node[OF assms(1,2)] .
  obtain n where n: "tnodes s c = Some n" "parent n = Some t"
    using assms(4) m by (auto simp: detach_child_def bind_eq_Some_conv split: if_splits)
  note k = tree_okD[OF assms(1)]
  note at = sel_Some[of "tnodes s", OF n(1)] sel_Some[of "tnodes s", OF m(1)]
  note idle = phase_cases(2)[OF m(2)]
  have up: "up (tnodes s) c = Some t" using n by (simp add: at)
  have ne: "c \<noteq> t" by (rule tree_shaped_neq[OF k(3) up])
  have T: "task_func_children m = []" using assms(3) by (simp add: at)
  show ?thesis
  proof (cases "i_have_ended n")
    case True
    note leaf = ended_leaf[OF assms(1) n(1) True]
    have "vthread_reap c s = Some s'" using assms(4) m n True by (auto simp: detach_child_def split: if_splits)
    from reap_leaf[OF n(1) leaf(3,4,6,7,10) _ this] n(2) ne m(1) have e: "c \<in> set (children m)" "running_thread s' = running_thread s"
      "tnodes s' = (tnodes s)(t \<mapsto> m\<lparr>children := set_erase c (children m)\<rparr>, c := (if delay_delete n then Some (n\<lparr>parent := None, pc_null := True\<rparr>) else None))"
      "del_events s' = del_events s @ (if delay_delete n then [c] else [])" by auto
    have "tree_ok s'"
      by (rule remove_child[OF assms(1) m(1) e(1) leaf(1,2) e(3) garbage_ended[OF assms(1) n(1) True]])
        (use e m(2) assms(2) ne idle T in auto)
    moreover have "tnodes s' t = Some (m\<lparr>children := set_erase c (children m)\<rparr>)" using ne by (simp add: e(3))
    ultimately show ?thesis using e(2) assms(2) T by (simp add: sel_Some)
  next
    case False
    let ?m = "m\<lparr>children := set_erase c (children m), detached_children := set_insert c (detached_children m)\<rparr>"
    have e: "c \<in> set (children m)" "running_thread s' = running_thread s" "del_events s' = del_events s"
      "tnodes s' = (tnodes s)(t \<mapsto> ?m, c \<mapsto> n\<lparr>i_am_detached := True\<rparr>)"
      using assms(4) m(1) n False ne by (auto simp: detach_child_def upd_def fun_upd_twist split: if_splits)
    let ?N = "tnodes s"
    have eq: "kids (tnodes s') = (kids ?N)(t := kids ?N t - {c})" "freed_kids (tnodes s') = (freed_kids ?N)(t := insert c (freed_kids ?N t))"
      "task_kids (tnodes s') = task_kids ?N" "up (tnodes s') = up ?N" "freed (tnodes s') = (freed ?N)(c := True)"
      "ended (tnodes s') = ended ?N" "joining (tnodes s') = joining ?N" "fork_waiting (tnodes s') = fork_waiting ?N"
      using ne by (auto simp: e(4) at fun_eq_iff)
    have "tree_ok s'"
    proof (rule tree_okI)
      show "links (kids (tnodes s')) (freed_kids (tnodes s')) (task_kids (tnodes s')) (up (tnodes s')) (freed (tnodes s')) (ended (tnodes s'))"
        unfolding eq by (rule links_detach[OF k(1)]) (simp_all add: at e(1) False T)
      show "waits_ok (kids (tnodes s')) (freed_kids (tnodes s')) (task_kids (tnodes s')) (ended (tnodes s')) (joining (tnodes s')) (fork_waiting (tnodes s'))"
        unfolding eq using k(2) idle by (simp add: waits_ok_def at)
      show "phase_ok (running_thread s' = Some x) y" if "tnodes s' x = Some y" for x y
        using that k(5)[of x y] k(5)[OF n(1)] m(2) assms(2) ne by (cases "x = t"; cases "x = c") (auto simp: e)
      show "tnodes s' x \<noteq> None" if "running_thread s' = Some x" for x
        using that k(6)[of x] by (simp add: e)
      show "finite (dom (tnodes s'))" using k(4) by (simp add: e)
      show "deletes_ok (up (tnodes s')) (ended (tnodes s')) (del_events s')" using k(7) unfolding eq e(3) .
    qed (use k in \<open>simp_all add: eq\<close>)
    then show ?thesis using e(2) assms(2,3) eq(3) by simp
  qed
qed

lemma join_detach_ok:
  assumes "tree_ok s" "tree_step (Join_detach count) s = Some s'"
  shows "tree_ok s'"
proof -
  obtain t where r: "running_thread s = Some t" using assms(2) by (cases "running_thread s") auto
  obtain m where m: "tnodes s t = Some m" using running_node[OF assms(1) r] by blast
  have l: "task_func_children m = []" "foldM (detach_child t) (children m) s = Some s'"
    using assms(2) m by (auto simp: r of_JOIN_DETACH_def split: if_splits)
  have "tree_ok s' \<and> running_thread s' = Some t \<and> task_kids (tnodes s') t = {}"
  proof (rule foldM_keeps[OF l(2), where P = "\<lambda>s. tree_ok s \<and> running_thread s = Some t \<and> task_kids (tnodes s) t = {}"])
    show "tree_ok s \<and> running_thread s = Some t \<and> task_kids (tnodes s) t = {}" using assms(1) r l(1) m by (simp add: sel_Some)
  qed (use detach_ok in blast)
  then show ?thesis by simp
qed

section \<open>The end of a thread\<close>

definition free_node :: "tnode \<Rightarrow> tnode" where
  "free_node c = c\<lparr>parent := None, i_am_detached := False\<rparr>"

lemma free_loop:
  "foldM (free_child t) ds s = Some s' \<Longrightarrow> t \<notin> set ds \<Longrightarrow> tnodes s t = Some n \<Longrightarrow>
   s' = s\<lparr>tnodes := (\<lambda>x. if x \<in> set ds then map_option free_node (tnodes s x) else tnodes s x)
     (t \<mapsto> n\<lparr>detached_children := filter (\<lambda>x. x \<notin> set ds) (detached_children n)\<rparr>)\<rparr>"
proof (induction ds arbitrary: s n)
  case Nil
  then show ?case by (simp add: fun_upd_idem)
next
  case (Cons c ds)
  obtain m where m: "tnodes s c = Some m"
    using Cons.prems(1) by (cases "tnodes s c") (auto simp: free_child_def)
  let ?n = "n\<lparr>detached_children := set_erase c (detached_children n)\<rparr>"
  let ?s = "s\<lparr>tnodes := (tnodes s)(c \<mapsto> free_node m, t \<mapsto> ?n)\<rparr>"
  have ne: "c \<noteq> t" using Cons.prems(2) by auto
  obtain s1 where s1: "free_child t c s = Some s1" "foldM (free_child t) ds s1 = Some s'"
    using Cons.prems(1) by (cases "free_child t c s") auto
  have "s1 = ?s"
    using s1(1) Cons.prems(3) m ne by (auto simp: free_child_def upd_def free_node_def split: if_splits)
  then have fold: "foldM (free_child t) ds ?s = Some s'" using s1(2) by simp
  have nt: "t \<notin> set ds" and tn: "tnodes ?s t = Some ?n" using Cons.prems(2) by auto
  note s' = Cons.IH[OF fold nt tn]
  have twice: "free_node (free_node m) = free_node m" by (simp add: free_node_def)
  have "filter (\<lambda>x. x \<notin> set ds) (detached_children ?n) = filter (\<lambda>x. x \<notin> set (c # ds)) (detached_children n)"
    by (auto simp: set_erase_def intro: filter_cong)
  then show ?case using ne m twice unfolding s' by (auto simp: fun_eq_iff)
qed

text \<open>The state in which the thread has let its detached children go.\<close>

definition let_go :: "tid \<Rightarrow> tnode \<Rightarrow> ttree \<Rightarrow> ttree" where
  "let_go t n s = s\<lparr>tnodes := (\<lambda>x. if x \<in> set (detached_children n) then map_option free_node (tnodes s x) else tnodes s x)
     (t \<mapsto> n\<lparr>detached_children := []\<rparr>)\<rparr>"

lemma links_free_all:
  assumes "links K D T U d e"
  shows "links K (D(p := {})) T (\<lambda>c. if c \<in> D p then None else U c) (\<lambda>c. d c \<and> c \<notin> D p) e"
  using assms unfolding links_def by auto

lemma sel_free:
  assumes "t \<notin> C"
  shows "sel d f ((\<lambda>x. if x \<in> C then map_option free_node (N x) else N x)(t \<mapsto> n)) =
    (\<lambda>x. if x \<in> C then sel d (f \<circ> free_node) N x else sel d f N x)(t := f n)"
  by (auto simp: sel_def fun_eq_iff split: option.splits)

lemma free_fields:
  "(\<lambda>n. set (children n)) \<circ> free_node = (\<lambda>n. set (children n))" "(\<lambda>n. set (detached_children n)) \<circ> free_node = (\<lambda>n. set (detached_children n))"
  "(\<lambda>n. set (task_func_children n)) \<circ> free_node = (\<lambda>n. set (task_func_children n))" "parent \<circ> free_node = (\<lambda>_. None)"
  "i_am_detached \<circ> free_node = (\<lambda>_. False)" "i_have_ended \<circ> free_node = i_have_ended" "i_am_joining \<circ> free_node = i_am_joining"
  "i_am_waiting \<circ> free_node = i_am_waiting" "sel d (\<lambda>_. d) N x = d"
  by (auto simp: fun_eq_iff free_node_def sel_def split: option.splits)

lemma let_go_ok:
  assumes "tree_ok s" "running_thread s = Some t" "tnodes s t = Some n"
  shows "tree_ok (let_go t n s)" "t \<notin> set (detached_children n)"
proof -
  let ?N = "tnodes s" and ?C = "set (detached_children n)"
  note k = tree_okD[OF assms(1)]
  note at = sel_Some[of ?N, OF assms(3)]
  have C: "?C = freed_kids ?N t" by (simp add: at)
  have up: "up ?N c = Some t" "freed ?N c" if "c \<in> ?C" for c using k(1) that C unfolding links_def by blast+
  show nt: "t \<notin> ?C" using up(1)[of t] tree_shaped_neq[OF k(3)] by blast
  have ph: "phase_ok True n" using k(5)[OF assms(3)] assms(2) by simp
  note idle = phase_cases(2)[OF ph]
  have sf: "tnodes (let_go t n s) = (\<lambda>x. if x \<in> ?C then map_option free_node (?N x) else ?N x)(t \<mapsto> n\<lparr>detached_children := []\<rparr>)"
    by (simp add: let_go_def)
  note S = sel_free[OF nt, of _ _ ?N "n\<lparr>detached_children := []\<rparr>"]
  have eq: "kids (tnodes (let_go t n s)) = kids ?N" "freed_kids (tnodes (let_go t n s)) = (freed_kids ?N)(t := {})"
    "task_kids (tnodes (let_go t n s)) = task_kids ?N" "up (tnodes (let_go t n s)) = (\<lambda>c. if c \<in> freed_kids ?N t then None else up ?N c)"
    "freed (tnodes (let_go t n s)) = (\<lambda>c. freed ?N c \<and> c \<notin> freed_kids ?N t)" "ended (tnodes (let_go t n s)) = ended ?N"
    "joining (tnodes (let_go t n s)) = joining ?N" "fork_waiting (tnodes (let_go t n s)) = fork_waiting ?N"
    unfolding sf S free_fields by (auto simp: fun_eq_iff at nt)
  show "tree_ok (let_go t n s)"
  proof (rule tree_okI)
    show "links (kids (tnodes (let_go t n s))) (freed_kids (tnodes (let_go t n s))) (task_kids (tnodes (let_go t n s)))
        (up (tnodes (let_go t n s))) (freed (tnodes (let_go t n s))) (ended (tnodes (let_go t n s)))"
      unfolding eq by (rule links_free_all[OF k(1)])
    show "waits_ok (kids (tnodes (let_go t n s))) (freed_kids (tnodes (let_go t n s))) (task_kids (tnodes (let_go t n s)))
        (ended (tnodes (let_go t n s))) (joining (tnodes (let_go t n s))) (fork_waiting (tnodes (let_go t n s)))"
      unfolding eq using k(2) idle by (simp add: waits_ok_def at)
    show "tree_shaped (up (tnodes (let_go t n s)))" unfolding eq by (rule tree_shaped_less[OF k(3)]) simp
    show "phase_ok (running_thread (let_go t n s) = Some x) y" if "tnodes (let_go t n s) x = Some y" for x y
      using that k(5)[of x] ph assms(2) by (auto simp: let_go_def free_node_def split: if_splits)
    show "tnodes (let_go t n s) x \<noteq> None" if "running_thread (let_go t n s) = Some x" for x
      using that assms(2) by (simp add: let_go_def)
    show "finite (dom (tnodes (let_go t n s)))"
      by (rule finite_subset[OF _ k(4)]) (use assms(3) in \<open>auto simp: let_go_def dom_def split: if_splits\<close>)
    show "deletes_ok (up (tnodes (let_go t n s))) (ended (tnodes (let_go t n s))) (del_events (let_go t n s))"
      using k(7) unfolding eq by (simp add: deletes_ok_def let_go_def)
  qed
qed

end
