(* ===== verification/Thread_End.thy ===== *)
theory Thread_End
  imports Thread_Ending
begin

text \<open>
  The end of a thread keeps the invariant, wakes the parent that waits for it, and never fails; every reachable
  state satisfies the invariant, and every thread that has not ended has a descendant that will act.
\<close>

section \<open>The ways a thread ends\<close>

lemma leaf_sets:
  assumes "tnodes s t = Some n" "children n = []" "detached_children n = []"
  shows "kids (tnodes s) t = {}" "freed_kids (tnodes s) t = {}"
  using assms by (simp_all add: sel_Some)

lemma end_zombie:
  assumes ok: "tree_ok s" and r: "running_thread s = Some t" and n: "tnodes s t = Some n"
    and leaf: "children n = []" "detached_children n = []" and nd: "\<not> i_am_detached n"
    and parent: "\<And>p m. parent n = Some p \<Longrightarrow> tnodes s p = Some m \<Longrightarrow> i_am_joining m \<Longrightarrow> \<not> test_joinable m t"
    and s': "tnodes s' = (tnodes s)(t \<mapsto> n\<lparr>i_have_ended := True, pc_null := True\<rparr>)" "del_events s' = del_events s" "running_thread s' = None"
  shows "tree_ok s'"
proof -
  let ?N = "tnodes s"
  note k = tree_okD[OF ok]
  note at = sel_Some[of ?N, OF n]
  have ph: "phase_ok True n" using k(5)[OF n] r by simp
  have eq: "kids (tnodes s') = kids ?N" "freed_kids (tnodes s') = freed_kids ?N" "task_kids (tnodes s') = task_kids ?N" "up (tnodes s') = up ?N"
    "freed (tnodes s') = freed ?N" "ended (tnodes s') = (ended ?N)(t := True)" "joining (tnodes s') = joining ?N" "fork_waiting (tnodes s') = fork_waiting ?N"
    using phase_cases(2)[OF ph] by (auto simp: s' at fun_eq_iff)
  have new: "task_kids ?N p \<noteq> {} \<and> t \<notin> task_kids ?N p" if tp: "t \<in> kids ?N p" "joining ?N p" for p
  proof -
    obtain m where m: "?N p = Some m" "i_am_joining m" using tp(2) by (auto simp: sel_def split: option.splits)
    have "parent n = Some p" using k(1) tp(1) unfolding links_def by (metis at)
    then show ?thesis using parent[OF _ m] by (simp add: test_joinable_def sel_Some[of ?N, OF m(1)])
  qed
  show ?thesis
  proof (rule tree_okI)
    show "links (kids (tnodes s')) (freed_kids (tnodes s')) (task_kids (tnodes s')) (up (tnodes s')) (freed (tnodes s')) (ended (tnodes s'))"
      unfolding eq by (rule links_end[OF k(1)]) (simp_all add: at leaf nd)
    show "waits_ok (kids (tnodes s')) (freed_kids (tnodes s')) (task_kids (tnodes s')) (ended (tnodes s')) (joining (tnodes s')) (fork_waiting (tnodes s'))"
      unfolding eq using k(2) new by (simp add: waits_ok_def)
    show "phase_ok (running_thread s' = Some x) y" if "tnodes s' x = Some y" for x y
      using that k(5)[of x y] running_phase(5)[OF ph] r by (cases "x = t") (auto simp: s')
    show "finite (dom (tnodes s'))" using k(4) by (simp add: s')
    show "deletes_ok (up (tnodes s')) (ended (tnodes s')) (del_events s')"
      using k(7) unfolding eq s'(2) by (simp add: deletes_ok_def)
    show "tree_shaped (up (tnodes s'))" unfolding eq by (rule k(3))
  qed (use k s' in \<open>simp_all add: eq\<close>)
qed

lemma end_orphan:
  assumes ok: "tree_ok s" and r: "running_thread s = Some t" and n: "tnodes s t = Some n"
    and leaf: "children n = []" "detached_children n = []" and np: "parent n = None"
    and s': "tnodes s' = (tnodes s)(t := g)" "del_events s' = del_events s @ (if g = None then [] else [t])" "running_thread s' = None"
    and g: "garbage g"
  shows "tree_ok s'"
proof -
  let ?N = "tnodes s"
  note k = tree_okD[OF ok]
  note at = sel_Some[of ?N, OF n]
  note w = no_wait_leaf[OF ok leaf_sets[OF n leaf]]
  have ph: "phase_ok True n" using k(5)[OF n] r by simp
  have nd: "\<not> freed ?N t" using k(1) np unfolding links_def by (metis at)
  have S: "sel d f (?N(t := g)) = (sel d f ?N)(t := (case g of None \<Rightarrow> d | Some g \<Rightarrow> f g))" for d and f :: "tnode \<Rightarrow> 'z"
    by (auto simp: sel_def fun_eq_iff)
  have eq: "kids (tnodes s') = kids ?N" "freed_kids (tnodes s') = freed_kids ?N" "task_kids (tnodes s') = task_kids ?N" "up (tnodes s') = up ?N"
    "freed (tnodes s') = freed ?N" "ended (tnodes s') = (ended ?N)(t := g \<noteq> None)" "joining (tnodes s') = joining ?N"
    "fork_waiting (tnodes s') = fork_waiting ?N"
    using w nd leaf np unfolding s'(1) S garbage_fields[OF g] by (auto simp: fun_eq_iff at)
  have new: "t \<notin> kids ?N p" for p using k(1) np unfolding links_def by (metis at option.distinct(1))
  show ?thesis
  proof (rule tree_okI)
    show "links (kids (tnodes s')) (freed_kids (tnodes s')) (task_kids (tnodes s')) (up (tnodes s')) (freed (tnodes s')) (ended (tnodes s'))"
      unfolding eq using links_end[OF k(1) leaf_sets[OF n leaf] nd] links_forget[OF k(1), of t] by (cases "g = None") simp_all
    show "waits_ok (kids (tnodes s')) (freed_kids (tnodes s')) (task_kids (tnodes s')) (ended (tnodes s')) (joining (tnodes s')) (fork_waiting (tnodes s'))"
      unfolding eq using k(2) new by (auto simp: waits_ok_def)
    show "phase_ok (running_thread s' = Some x) y" if "tnodes s' x = Some y" for x y
      using that k(5)[of x y] r g by (cases "x = t") (auto simp: s' garbage_def)
    show "finite (dom (tnodes s'))" using k(4) unfolding s'(1) by (cases g) simp_all
    show "deletes_ok (up (tnodes s')) (ended (tnodes s')) (del_events s')"
    proof -
      have "t \<notin> set (del_events s)" using k(7) phase_cases(2)[OF ph] by (auto simp: deletes_ok_def at)
      then show ?thesis using k(7) np unfolding eq s'(2) by (cases "g = None") (auto simp: deletes_ok_def at)
    qed
    show "tree_shaped (up (tnodes s'))" unfolding eq by (rule k(3))
  qed (use k s' in \<open>simp_all add: eq\<close>)
qed

lemma end_detached_child:
  assumes ok: "tree_ok s" and r: "running_thread s = Some t" and n: "tnodes s t = Some n"
    and leaf: "children n = []" "detached_children n = []" and d: "i_am_detached n" "parent n = Some p"
    and m: "tnodes s p = Some m"
    and s': "tnodes s' = (tnodes s)(p \<mapsto> m', t := g)" "del_events s' = del_events s @ (if g = None then [] else [t])" "running_thread s' = None"
    and g: "garbage g"
    and m': "children m' = children m" "task_func_children m' = task_func_children m" "set (detached_children m') = set (detached_children m) - {t}"
      "parent m' = parent m" "i_am_detached m' = i_am_detached m" "i_have_ended m' = i_have_ended m" "i_am_joining m' = i_am_joining m"
      "i_am_waiting m' \<Longrightarrow> detached_children m' \<noteq> []" "phase_ok False m'"
  shows "tree_ok s'"
proof -
  let ?N = "tnodes s"
  note k = tree_okD[OF ok]
  note at = sel_Some[of ?N, OF n] sel_Some[of ?N, OF m]
  note w = no_wait_leaf[OF ok leaf_sets[OF n leaf]]
  have ph: "phase_ok True n" using k(5)[OF n] r by simp
  have up: "up ?N t = Some p" "freed ?N t" using d by (simp_all add: at)
  have ne: "p \<noteq> t" using tree_shaped_neq[OF k(3) up(1)] by simp
  have tp: "t \<in> freed_kids ?N p" using k(1) up unfolding links_def by blast
  note S = garbage_sel[OF g ne, of _ _ ?N m'] garbage_fields[OF g]
  have eq: "kids (tnodes s') = kids ?N" "freed_kids (tnodes s') = (freed_kids ?N)(p := freed_kids ?N p - {t})" "task_kids (tnodes s') = task_kids ?N"
    "up (tnodes s') = (up ?N)(t := None)" "freed (tnodes s') = (freed ?N)(t := False)" "ended (tnodes s') = (ended ?N)(t := g \<noteq> None)"
    "joining (tnodes s') = joining ?N" "fork_waiting (tnodes s') = (fork_waiting ?N)(p := i_am_waiting m')"
    using w leaf ne unfolding s'(1) S m'(1,2) by (auto simp: fun_eq_iff at m')
  have L: "links (kids ?N) ((freed_kids ?N)(p := freed_kids ?N p - {t})) (task_kids ?N) ((up ?N)(t := None)) ((freed ?N)(t := False)) (ended ?N)"
    by (rule links_free[OF k(1) tp])
  have new: "t \<notin> kids ?N q" for q using k(1) up(2) unfolding links_def by blast
  show ?thesis
  proof (rule tree_okI)
    show "links (kids (tnodes s')) (freed_kids (tnodes s')) (task_kids (tnodes s')) (up (tnodes s')) (freed (tnodes s')) (ended (tnodes s'))"
      unfolding eq using links_end[OF L, of t] links_forget[OF L, of t] leaf_sets[OF n leaf] ne by (cases "g = None") simp_all
    show "waits_ok (kids (tnodes s')) (freed_kids (tnodes s')) (task_kids (tnodes s')) (ended (tnodes s')) (joining (tnodes s')) (fork_waiting (tnodes s'))"
    proof -
      have "freed_kids ?N p - {t} \<noteq> {}" if "i_am_waiting m'" using m'(3) m'(8)[OF that] by (simp add: at flip: m'(3))
      then show ?thesis unfolding eq using k(2) new by (auto simp: waits_ok_def)
    qed
    show "tree_shaped (up (tnodes s'))" unfolding eq by (rule tree_shaped_less[OF k(3)]) simp
    show "phase_ok (running_thread s' = Some x) y" if "tnodes s' x = Some y" for x y
      using that k(5)[of x y] m'(9) r g by (cases "x = t"; cases "x = p") (auto simp: s' garbage_def)
    show "finite (dom (tnodes s'))" using k(4) unfolding s'(1) by (cases g) simp_all
    show "deletes_ok (up (tnodes s')) (ended (tnodes s')) (del_events s')"
    proof -
      have "t \<notin> set (del_events s)" using k(7) phase_cases(2)[OF ph] by (auto simp: deletes_ok_def at)
      then show ?thesis using k(7) unfolding eq s'(2) by (cases "g = None") (auto simp: deletes_ok_def)
    qed
  qed (use k s' in \<open>simp_all add: eq\<close>)
qed

section \<open>The opcode\<close>

text \<open>After its first part the thread has ended and let its detached children go.\<close>

definition ended_state :: "tid \<Rightarrow> tnode \<Rightarrow> ttree \<Rightarrow> ttree" where
  "ended_state t n s = (let_go t n s)\<lparr>tnodes := (tnodes (let_go t n s))(t \<mapsto> n\<lparr>detached_children := [], i_have_ended := True, pc_null := True\<rparr>)\<rparr>"

lemma end_first_part:
  assumes "tree_ok s" "running_thread s = Some t" "tnodes s t = Some n"
    and "foldM (free_child t) (detached_children n) (s\<lparr>tnodes := (tnodes s)(t \<mapsto> n\<lparr>i_have_ended := True, pc_null := True\<rparr>)\<rparr>) = Some s1"
  shows "s1 = ended_state t n s"
proof -
  note nt = let_go_ok(2)[OF assms(1-3)]
  have "n\<lparr>i_have_ended := True, pc_null := True, detached_children := []\<rparr> = n\<lparr>detached_children := [], i_have_ended := True, pc_null := True\<rparr>"
    by (cases n) simp
  then show ?thesis
    using free_loop[OF assms(4) nt, of "n\<lparr>i_have_ended := True, pc_null := True\<rparr>"] nt
    by (auto simp: ended_state_def let_go_def fun_eq_iff)
qed

lemma reap_ended:
  assumes "tnodes s t = Some n" "children n = []" "detached_children n = []" "\<not> is_scheduled n" "\<not> waiting_for_event n" "\<not> i_am_detached n"
    "parent n = None" "vthread_reap t s = Some s'"
  shows "tnodes s' = (tnodes s)(t := (if delay_delete n then Some (n\<lparr>parent := None, pc_null := True\<rparr>) else None))"
    "del_events s' = del_events s @ (if delay_delete n then [t] else [])" "running_thread s' = running_thread s"
  using reap_leaf[OF assms(1-6) _ assms(8)] assms(7) by auto

lemma end_ok:
  assumes "tree_ok s" "tree_step End s = Some s'"
  shows "tree_ok s'"
proof -
  obtain t where r: "running_thread s = Some t" using assms(2) by (cases "running_thread s") auto
  obtain n where n: "tnodes s t = Some n" "phase_ok True n" using running_node[OF assms(1) r] .
  note idle = phase_cases(2)[OF n(2)]
  obtain s2 where s2: "of_END t s = Some s2" "s' = pause s2" using assms(2) r by (auto simp: bind_eq_Some_conv)
  obtain s1 where s1: "foldM (free_child t) (detached_children n) (s\<lparr>tnodes := (tnodes s)(t \<mapsto> n\<lparr>i_have_ended := True, pc_null := True\<rparr>)\<rparr>) = Some s1"
    and leaf: "children n = []"
    using s2(1) n(1) idle by (auto simp: of_END_def upd_def bind_eq_Some_conv split: if_splits)
  define v where "v = let_go t n s"
  have v: "tree_ok v" "running_thread v = Some t" "del_events v = del_events s"
    using let_go_ok(1)[OF assms(1) r n(1)] r by (simp_all add: v_def let_go_def)
  define n0 where "n0 = n\<lparr>detached_children := []\<rparr>"
  define n1 where "n1 = n0\<lparr>i_have_ended := True, pc_null := True\<rparr>"
  have vt: "tnodes v t = Some n0" by (simp add: v_def let_go_def n0_def)
  have e1: "s1 = v\<lparr>tnodes := (tnodes v)(t \<mapsto> n1)\<rparr>"
    using end_first_part[OF assms(1) r n(1) s1] by (simp add: ended_state_def v_def n0_def n1_def)
  have n0: "children n0 = []" "detached_children n0 = []" "i_am_detached n0 = i_am_detached n" "parent n0 = parent n" using leaf by (simp_all add: n0_def)
  have T: "task_func_children n0 = []"
    using no_wait_leaf(1)[OF v(1) leaf_sets[OF vt n0(1,2)]] by (simp add: sel_Some[of "tnodes v", OF vt])
  have n1: "tnodes s1 t = Some n1" "children n1 = []" "detached_children n1 = []" "\<not> is_scheduled n1" "\<not> waiting_for_event n1"
    "i_am_detached n1 = i_am_detached n" "parent n1 = parent n" "task_func_children n1 = []" "i_have_ended n1" "\<not> i_am_joining n1" "\<not> i_am_waiting n1"
    "delay_delete n1 = delay_delete n"
    using n0 T idle by (simp_all add: e1 n1_def) (simp_all add: n0_def)
  have ph1: "phase_ok False n1" using running_phase(5)[of n0] n(2) by (simp add: n1_def n0_def)
  have g: "garbage (if delay_delete n then Some (n1\<lparr>parent := None, pc_null := True\<rparr>) else None)" if "\<not> i_am_detached n"
    using n1 ph1 that by (auto simp: garbage_def phase_ok_def n1_def split: if_splits)
  have s': "tnodes s' = tnodes s2" "del_events s' = del_events s2" "running_thread s' = None" using s2(2) by (simp_all add: pause_def)
  have rest: "do { joined \<leftarrow> (case parent n of
                  None \<Rightarrow> Some None
                | Some tmp \<Rightarrow> do { m \<leftarrow> tnodes s1 tmp; Some (if \<not> i_am_detached n \<and> i_am_joining m then Some (tmp, m) else None) });
              case joined of
                Some (tmp, m) \<Rightarrow>
                  if \<not> test_joinable m t then Some s1
                  else do { s \<leftarrow> upd tmp (\<lambda>m. m\<lparr>i_am_joining := False\<rparr>) s1;
                            s \<leftarrow> queue_vthread [tmp] 0 True s;
                            do_join tmp t s }
              | None \<Rightarrow> do {
                  s \<leftarrow> (if i_am_detached n then end_detached t s1 else Some s1);
                  n \<leftarrow> tnodes s t;
                  if parent n = None then vthread_reap t s else Some s } } = Some s2"
    using s2(1) s1 n(1) idle leaf by (simp add: of_END_def upd_def)
  show ?thesis
  proof (cases "parent n")
    case None
    have nd: "\<not> i_am_detached n"
    proof
      assume "i_am_detached n"
      then have "up (tnodes s) t \<noteq> None" using tree_okD(1)[OF assms(1)] unfolding links_def by (metis sel_Some[of "tnodes s", OF n(1)])
      then show False using None by (simp add: sel_Some[of "tnodes s", OF n(1)])
    qed
    then have "vthread_reap t s1 = Some s2" using rest None n1 by simp
    from reap_ended[OF n1(1-5) _ _ this] n1(6,7,12) nd None
    have e2: "tnodes s2 = (tnodes v)(t := if delay_delete n then Some (n1\<lparr>parent := None, pc_null := True\<rparr>) else None)"
      "del_events s2 = del_events s @ (if delay_delete n then [t] else [])" using v(3) by (simp_all add: e1)
    show ?thesis
      by (rule end_orphan[OF v(1,2) vt n0(1,2) _ _ _ s'(3) g[OF nd]]) (use e2 s' v(3) None n0(4) in auto)
  next
    case (Some p)
    have up: "up (tnodes v) t = Some p" using n0(4) Some by (simp add: sel_Some[of "tnodes v", OF vt])
    have ne: "p \<noteq> t" using tree_shaped_neq[OF tree_okD(3)[OF v(1)] up] by simp
    obtain m where m: "tnodes s1 p = Some m" using rest Some by (auto simp: bind_eq_Some_conv)
    then have vp: "tnodes v p = Some m" using ne by (simp add: e1)
    have php: "phase_ok False m" using tree_okD(5)[OF v(1) vp] v(2) ne by simp
    show ?thesis
    proof (cases "i_am_detached n")
      case False
      show ?thesis
      proof (cases "i_am_joining m \<and> test_joinable m t")
        case join: True
        have "\<not> is_scheduled m" using phase_cases(5)[OF php] join by simp
        let ?m = "m\<lparr>i_am_joining := False, is_scheduled := True\<rparr>"
        define s3 where "s3 = s1\<lparr>tnodes := (tnodes s1)(p \<mapsto> ?m), thr_events := thr_events s1 @ [([p], 0, True)]\<rparr>"
        have "do_join p t s3 = Some s2"
          using rest Some False join m \<open>\<not> is_scheduled m\<close> by (auto simp: upd_Some schedule_one s3_def bind_eq_Some_conv)
        then have s3: "tnodes s3 = (tnodes s1)(p \<mapsto> ?m)" "del_events s3 = del_events s" "running_thread s3 = Some t" "do_join p t s3 = Some s2"
          using v(2,3) by (simp_all add: s3_def e1)
        have t3: "tnodes s3 t = Some n1" "tnodes s3 p = Some ?m" using ne n1(1) by (simp_all add: s3(1))
        from do_join_effect[OF t3 ne n1(2-5) _ s3(4)] n1(6,12) False obtain m' w z where e:
          "t \<in> set (children ?m)" "tnodes s2 = (tnodes s3)(p \<mapsto> m', t := (if delay_delete n then Some (n1\<lparr>parent := None, pc_null := True\<rparr>) else None))"
          "del_events s2 = del_events s3 @ (if delay_delete n then [t] else [])"
          "m' = ?m\<lparr>children := set_erase t (children ?m), task_func_children := set_erase t (task_func_children ?m), wt_context := w, rd_context := z\<rparr>"
          by auto
        have "phase_ok False ?m" using php join by (auto simp: phase_ok_def split: if_splits)
        then have phm: "phase_ok False m'" unfolding e(4) by simp
        have e2: "tnodes s' = (tnodes v)(p \<mapsto> m', t := (if delay_delete n then Some (n1\<lparr>parent := None, pc_null := True\<rparr>) else None))"
          using e(2) s3(1) ne unfolding s'(1) by (simp add: e1 fun_upd_twist)
        have tm: "t \<in> set (children m)" using e(1) by simp
        show ?thesis
          by (rule remove_child[OF v(1) vp tm leaf_sets[OF vt n0(1,2)] e2 g[OF False]])
            (use phm s' e(3,4) s3(2) v(2,3) ne phase_cases(5)[OF php] join in auto)
      next
        case block: False
        have "s2 = s1" using rest Some False block m n1(1,7) by (auto split: if_splits)
        then have e2: "tnodes s' = (tnodes v)(t \<mapsto> n0\<lparr>i_have_ended := True, pc_null := True\<rparr>)" "del_events s' = del_events v"
          using s' by (simp_all add: e1 n1_def)
        show ?thesis
          by (rule end_zombie[OF v(1,2) vt n0(1,2) _ _ e2 s'(3)]) (use False block n0(3,4) Some vp in auto)
      qed
    next
      case True
      then have d: "do { s \<leftarrow> end_detached t s1; n \<leftarrow> tnodes s t; if parent n = None then vthread_reap t s else Some s } = Some s2"
        using rest Some m by simp
      let ?m = "m\<lparr>detached_children := set_erase t (detached_children m)\<rparr>"
      define m' where "m' = (if i_am_waiting m \<and> set_erase t (detached_children m) = [] then ?m\<lparr>i_am_waiting := False, is_scheduled := True\<rparr> else ?m)"
      have sched: "i_am_waiting m \<Longrightarrow> \<not> is_scheduled m" using phase_cases(6)[OF php] by simp
      let ?n = "n1\<lparr>i_am_detached := False, parent := None\<rparr>"
      obtain s3 where s3: "end_detached t s1 = Some s3" "t \<in> set (detached_children m)" "tnodes s3 = (tnodes s1)(p \<mapsto> m', t \<mapsto> ?n)"
        "del_events s3 = del_events s" "running_thread s3 = Some t"
        using d n1(1,7) Some m ne sched v(2,3)
        by (auto simp: end_detached_def upd_def schedule_one m'_def e1 fun_upd_twist bind_eq_Some_conv split: if_splits)
      have n3: "tnodes s3 t = Some ?n" by (simp add: s3(3))
      have "vthread_reap t s3 = Some s2" using d s3(1) n3 by simp
      from reap_ended[OF n3 _ _ _ _ _ _ this] n1 have e:
        "tnodes s2 = (tnodes v)(p \<mapsto> m', t := (if delay_delete n then Some (?n\<lparr>parent := None, pc_null := True\<rparr>) else None))"
        "del_events s2 = del_events s @ (if delay_delete n then [t] else [])"
        using s3 ne by (simp_all add: e1 fun_upd_twist)
      have gd: "garbage (if delay_delete n then Some (?n\<lparr>parent := None, pc_null := True\<rparr>) else None)"
        using n1 ph1 by (auto simp: garbage_def phase_ok_def n1_def split: if_splits)
      have phm: "phase_ok False m'" using php by (auto simp: m'_def phase_ok_def split: if_splits)
      have d0: "i_am_detached n0" "parent n0 = Some p" using True Some n0 by simp_all
      show ?thesis
        by (rule end_detached_child[OF v(1,2) vt n0(1,2) d0 vp _ _ s'(3) gd, where m' = m'])
          (use e s' v(3) phm in \<open>auto simp: m'_def\<close>)
    qed
  qed
qed

section \<open>Reachable states\<close>

lemma step_ok: "tree_ok s \<Longrightarrow> tree_step a s = Some s' \<Longrightarrow> tree_ok s'"
  by (cases a) (blast intro: start_ok run_ok fork_ok join_ok join_detach_ok wait_fork_ok wait_ok delay_ok end_ok wake_ok ask_ok delete_ok)+

lemma reachable_ok: "reachable s \<Longrightarrow> tree_ok s"
proof (induction rule: reachable.induct)
  case start
  have "sel d f (\<lambda>_. None) = (\<lambda>_. d)" for d :: 'a and f by (simp add: sel_def fun_eq_iff)
  then show ?case
    by (simp add: tree_ok_def no_threads_def Let_def links_def waits_ok_def tree_shaped_def deletes_ok_def sel_def acyclic_def)
next
  case (step s a s')
  show ?case by (rule step_ok[OF step(3,2)])
qed

text \<open>A thread is active when it runs, is scheduled or waits for an event.\<close>

definition active :: "ttree \<Rightarrow> tid \<Rightarrow> bool" where
  "active s t \<longleftrightarrow> running_thread s = Some t \<or> sel False is_scheduled (tnodes s) t \<or> sel False waiting_for_event (tnodes s) t"

definition child_of :: "ttree \<Rightarrow> (tid \<times> tid) set" where
  "child_of s = {(c, p). up (tnodes s) c = Some p}"

lemma wf_child_of:
  assumes "tree_ok s"
  shows "wf (child_of s)"
proof (rule finite_acyclic_wf)
  note k = tree_okD[OF assms]
  show "acyclic (child_of s)" using k(3) by (simp add: child_of_def tree_shaped_def)
  have "child_of s \<subseteq> (\<lambda>c. (c, the (up (tnodes s) c))) ` dom (tnodes s)"
    by (auto simp: child_of_def image_iff sel_def split: option.splits)
  then show "finite (child_of s)" using k(4) finite_subset by blast
qed

lemma blocked_has_live_child:
  assumes "tree_ok s" "tnodes s t = Some n" "\<not> i_have_ended n" "\<not> active s t"
  shows "\<exists>c. (c, t) \<in> child_of s \<and> tnodes s c \<noteq> None \<and> \<not> ended (tnodes s) c"
proof -
  note k = tree_okD[OF assms(1)]
  note at = sel_Some[of "tnodes s", OF assms(2)]
  have "i_am_joining n \<or> i_am_waiting n"
    using k(5)[OF assms(2)] assms(3,4) by (auto simp: phase_ok_def active_def at split: if_splits)
  then have "\<exists>c. up (tnodes s) c = Some t \<and> \<not> ended (tnodes s) c"
  proof
    assume "i_am_joining n"
    then have j: "kids (tnodes s) t \<noteq> {}" "\<forall>c\<in>kids (tnodes s) t. ended (tnodes s) c \<longrightarrow> task_kids (tnodes s) t \<noteq> {} \<and> c \<notin> task_kids (tnodes s) t"
      using k(2) unfolding waits_ok_def by (metis at)+
    have "\<exists>c\<in>kids (tnodes s) t. \<not> ended (tnodes s) c"
    proof (cases "task_kids (tnodes s) t = {}")
      case True
      then show ?thesis using j by blast
    next
      case False
      then show ?thesis using j(2) k(1) unfolding links_def by blast
    qed
    then show ?thesis using k(1) unfolding links_def by blast
  next
    assume "i_am_waiting n"
    then have "freed_kids (tnodes s) t \<noteq> {}" using k(2) unfolding waits_ok_def by (metis at)
    then show ?thesis using k(1) unfolding links_def by blast
  qed
  then obtain c where c: "up (tnodes s) c = Some t" "\<not> ended (tnodes s) c" by blast
  moreover have "tnodes s c \<noteq> None" using c(1) by (cases "tnodes s c") (auto simp: sel_def)
  ultimately show ?thesis by (auto simp: child_of_def)
qed

lemma live_descendant:
  assumes "tree_ok s"
  shows "tnodes s t \<noteq> None \<Longrightarrow> \<not> ended (tnodes s) t \<Longrightarrow> \<exists>d. (d, t) \<in> (child_of s)\<^sup>* \<and> active s d"
proof (induction t rule: wf_induct_rule[OF wf_child_of[OF assms]])
  case (1 t)
  show ?case
  proof (cases "active s t")
    case False
    obtain n where n: "tnodes s t = Some n" using 1 by blast
    obtain c where c: "(c, t) \<in> child_of s" "tnodes s c \<noteq> None" "\<not> ended (tnodes s) c"
      using blocked_has_live_child[OF assms n _ False] 1(3) by (auto simp: sel_Some[of "tnodes s", OF n])
    then obtain d where "(d, c) \<in> (child_of s)\<^sup>*" "active s d" using 1(1) by blast
    then show ?thesis using c(1) by (meson rtrancl.rtrancl_into_rtrancl)
  qed auto
qed

section \<open>The end never fails\<close>

definition node_sets :: "tnode \<Rightarrow> bool" where
  "node_sets n \<longleftrightarrow> distinct (children n) \<and> distinct (detached_children n) \<and> distinct (task_func_children n)"

definition sets_ok :: "ttree \<Rightarrow> bool" where
  "sets_ok s \<longleftrightarrow> (\<forall>t n. tnodes s t = Some n \<longrightarrow> node_sets n)"

lemma distinct_sets [simp]: "distinct ts \<Longrightarrow> distinct (set_insert t ts)" "distinct ts \<Longrightarrow> distinct (set_erase t ts)"
  by (auto simp: set_insert_def set_erase_def distinct_insort)

lemma sets_upd: "upd t f s = Some s' \<Longrightarrow> sets_ok s \<Longrightarrow> (\<And>n. node_sets n \<Longrightarrow> node_sets (f n)) \<Longrightarrow> sets_ok s'"
  by (auto simp: upd_Some sets_ok_def split: if_splits)

lemma sets_new: "vthread_new c scope s = Some s' \<Longrightarrow> sets_ok s \<Longrightarrow> sets_ok s'"
  by (auto simp: vthread_new_def sets_ok_def node_sets_def split: if_splits)

lemma sets_other [simp]:
  "sets_ok (s\<lparr>thr_events := e\<rparr>) = sets_ok s" "sets_ok (s\<lparr>scope_threads := f\<rparr>) = sets_ok s" "sets_ok (s\<lparr>stacked_context := g\<rparr>) = sets_ok s"
  "sets_ok (s\<lparr>del_events := d\<rparr>) = sets_ok s" "sets_ok (s\<lparr>running_thread := r\<rparr>) = sets_ok s"
  by (simp_all add: sets_ok_def)

lemma sets_delete: "sets_ok s \<Longrightarrow> sets_ok (vthread_delete t s)"
  by (simp add: sets_ok_def vthread_delete_def)

lemma sets_mark: "vthread_mark_scheduled ts s = Some s' \<Longrightarrow> sets_ok s \<Longrightarrow> sets_ok s'"
  unfolding vthread_mark_scheduled_def
  by (erule foldM_keeps, assumption) (auto simp: bind_eq_Some_conv node_sets_def elim!: sets_upd split: if_splits)

lemma sets_schedule: "queue_vthread ts d b s = Some s' \<Longrightarrow> sets_ok s \<Longrightarrow> sets_ok s'"
  by (auto simp: queue_vthread_def bind_eq_Some_conv dest: sets_mark)

lemma sets_schedule_list: "vthread_schedule_list ts s = Some s' \<Longrightarrow> sets_ok s \<Longrightarrow> sets_ok s'"
proof -
  assume a: "vthread_schedule_list ts s = Some s'" "sets_ok s"
  then obtain s1 where s1: "foldM (\<lambda>thr s. do { n \<leftarrow> tnodes s thr; if waiting_for_event n then upd thr (\<lambda>n. n\<lparr>waiting_for_event := False\<rparr>) s else None }) ts s = Some s1"
    "queue_vthread ts 0 False s1 = Some s'" by (auto simp: vthread_schedule_list_def bind_eq_Some_conv)
  have "sets_ok s1"
    by (rule foldM_keeps[where P = sets_ok, OF s1(1) a(2)]) (auto simp: bind_eq_Some_conv node_sets_def elim!: sets_upd split: if_splits)
  then show ?thesis using sets_schedule[OF s1(2)] by simp
qed

lemma sets_reap:
  assumes "vthread_reap t s = Some s'" "sets_ok s"
  shows "sets_ok s'"
proof -
  obtain n where n: "tnodes s t = Some n" using assms(1) by (cases "tnodes s t") (auto simp: vthread_reap_def)
  let ?f = "\<lambda>child s. do { c \<leftarrow> tnodes s child; if parent c = Some t then upd child (\<lambda>c. c\<lparr>parent := parent n\<rparr>) s else None }"
  let ?g = "\<lambda>child s. do { c \<leftarrow> tnodes s child;
                 if parent c = Some t \<and> i_am_detached c then upd child (\<lambda>c. c\<lparr>parent := None, i_am_detached := False\<rparr>) s else None }"
  obtain s1 where s1: "foldM ?f (children n) s = Some s1"
    using assms(1) n by (cases "foldM ?f (children n) s") (auto simp: vthread_reap_def)
  obtain s2 where s2: "foldM ?g (detached_children n) s1 = Some s2"
    using assms(1) n s1 by (cases "foldM ?g (detached_children n) s1") (auto simp: vthread_reap_def)
  have k1: "sets_ok s1"
    by (rule foldM_keeps[where P = sets_ok, OF s1 assms(2)]) (auto simp: bind_eq_Some_conv node_sets_def elim!: sets_upd split: if_splits)
  have k2: "sets_ok s2"
    by (rule foldM_keeps[where P = sets_ok, OF s2 k1]) (auto simp: bind_eq_Some_conv node_sets_def elim!: sets_upd split: if_splits)
  let ?h = "case parent n of None \<Rightarrow> Some s2
     | Some p \<Rightarrow> do { m \<leftarrow> tnodes s2 p;
         if i_am_detached n then
           if t \<in> set (detached_children m) then upd p (\<lambda>m. m\<lparr>detached_children := set_erase t (detached_children m)\<rparr>) s2 else None
         else if t \<in> set (children m) then upd p (\<lambda>m. m\<lparr>children := set_erase t (children m)\<rparr>) s2 else None }"
  obtain s3 where s3: "?h = Some s3"
    using assms(1) n s1 s2 by (cases ?h) (auto simp: vthread_reap_def)
  have k3: "sets_ok s3"
    using s3 k2 by (auto simp: bind_eq_Some_conv node_sets_def elim!: sets_upd split: option.splits if_splits)
  let ?s = "s3\<lparr>scope_threads := (scope_threads s3)(parent_scope n := set_erase t (scope_threads s3 (parent_scope n)))\<rparr>"
  obtain s4 where s4: "upd t (\<lambda>n. n\<lparr>parent := None, pc_null := True\<rparr>) ?s = Some s4"
    using assms(1) n s1 s2 s3 by (cases "upd t (\<lambda>n. n\<lparr>parent := None, pc_null := True\<rparr>) ?s") (auto simp: vthread_reap_def)
  have k4: "sets_ok s4" by (rule sets_upd[OF s4]) (use k3 in \<open>auto simp: node_sets_def\<close>)
  have "s' = s4 \<or> s' = queue_deletion t s4 \<or> s' = vthread_delete t s4"
    using assms(1) n s1 s2 s3 s4 by (auto simp: vthread_reap_def split: if_splits)
  then show ?thesis using k4 sets_delete by (auto simp: queue_deletion_def)
qed

lemma sets_fork: "of_FORK c scope auto task t s = Some s' \<Longrightarrow> sets_ok s \<Longrightarrow> sets_ok s'"
proof -
  assume a: "of_FORK c scope auto task t s = Some s'" "sets_ok s"
  obtain s1 n s2 s3 s4 s5 where st: "vthread_new c scope s = Some s1" "tnodes s1 t = Some n"
    "(if auto then upd c (\<lambda>c. c\<lparr>wt_context := wt_context n, rd_context := wt_context n\<rparr>) s1 else Some s1) = Some s2"
    "upd c (\<lambda>c. c\<lparr>parent := Some t\<rparr>) s2 = Some s3" "upd t (\<lambda>n. n\<lparr>children := set_insert c (children n)\<rparr>) s3 = Some s4"
    "(if task then upd t (\<lambda>n. n\<lparr>task_func_children := set_insert c (task_func_children n)\<rparr>) s4 else Some s4) = Some s5"
    "queue_vthread [c] 0 True s5 = Some s'"
    using a(1) by (auto simp: of_FORK_def bind_eq_Some_conv)
  have "sets_ok s1" using sets_new[OF st(1)] a(2) .
  then have "sets_ok s2" using st(3) by (auto simp: node_sets_def elim!: sets_upd split: if_splits)
  then have "sets_ok s3" by (rule sets_upd[OF st(4)]) (auto simp: node_sets_def)
  then have "sets_ok s4" by (rule sets_upd[OF st(5)]) (auto simp: node_sets_def)
  then have "sets_ok s5" using st(6) by (auto simp: node_sets_def elim!: sets_upd split: if_splits)
  then show ?thesis by (rule sets_schedule[OF st(7)])
qed

lemma sets_do_join: "do_join p c s = Some s' \<Longrightarrow> sets_ok s \<Longrightarrow> sets_ok s'"
proof -
  assume a: "do_join p c s = Some s'" "sets_ok s"
  obtain cn where cn: "tnodes s c = Some cn" "parent cn = Some p"
    using a(1) by (cases "tnodes s c") (auto simp: do_join_def split: if_splits)
  from a(1) obtain s1 n s2 where st: "upd p (\<lambda>n. n\<lparr>task_func_children := set_erase c (task_func_children n)\<rparr>) s = Some s1"
    "tnodes s1 p = Some n"
    "(case wt_context n of
                   Some child_context \<Rightarrow>
                     if wt_context cn \<noteq> None \<and> wt_context n \<noteq> rd_context n then
                       upd p (\<lambda>n. n\<lparr>wt_context := stacked_context s1 child_context, rd_context := Some child_context\<rparr>)
                         (s1\<lparr>stacked_context := (stacked_context s1)(child_context := rd_context n)\<rparr>)
                     else Some s1
                 | None \<Rightarrow> if wt_context cn \<noteq> None \<and> rd_context n \<noteq> None then None else Some s1) = Some s2"
    "vthread_reap c s2 = Some s'"
    unfolding do_join_def cn(1) cn(2) bind.bind_lunit simp_thms if_False bind_eq_Some_conv by blast
  have "sets_ok s1" using a(2) by (rule sets_upd[OF st(1)]) (auto simp: node_sets_def)
  then have "sets_ok s2" using st(3) by (auto simp: node_sets_def elim!: sets_upd split: option.splits if_splits)
  then show ?thesis by (rule sets_reap[OF st(4)])
qed

end
