(* ===== verification/Thread_Wakeup.thy ===== *)
theory Thread_Wakeup
  imports Thread_End
begin

text \<open>
  The sets of threads have no duplicates, the end of a thread never fails and wakes its parent; the properties of the
  tree of threads.
\<close>

section \<open>Sets\<close>

lemma sets_detach: "detach_child t c s = Some s' \<Longrightarrow> sets_ok s \<Longrightarrow> sets_ok s'"
proof -
  assume a: "detach_child t c s = Some s'" "sets_ok s"
  obtain cn where cn: "tnodes s c = Some cn" using a(1) by (cases "tnodes s c") (auto simp: detach_child_def)
  obtain n where n: "tnodes s t = Some n" using a(1) cn by (cases "tnodes s t") (auto simp: detach_child_def)
  show ?thesis
  proof (cases "i_have_ended cn")
    case True
    then have "vthread_reap c s = Some s'" using a(1) cn n by (auto simp: detach_child_def split: if_splits)
    then show ?thesis using sets_reap a(2) by blast
  next
    case False
    then obtain s1 s2 where st: "upd t (\<lambda>n. n\<lparr>children := set_erase c (children n)\<rparr>) s = Some s1" "upd c (\<lambda>c. c\<lparr>i_am_detached := True\<rparr>) s1 = Some s2"
      "upd t (\<lambda>n. n\<lparr>detached_children := set_insert c (detached_children n)\<rparr>) s2 = Some s'"
      using a(1) cn n by (auto simp: detach_child_def bind_eq_Some_conv split: if_splits)
    have "sets_ok s1" using a(2) by (rule sets_upd[OF st(1)]) (auto simp: node_sets_def)
    then have "sets_ok s2" by (rule sets_upd[OF st(2)]) (auto simp: node_sets_def)
    then show ?thesis by (rule sets_upd[OF st(3)]) (auto simp: node_sets_def)
  qed
qed

lemma sets_free: "free_child t c s = Some s' \<Longrightarrow> sets_ok s \<Longrightarrow> sets_ok s'"
proof -
  assume a: "free_child t c s = Some s'" "sets_ok s"
  then obtain s1 where st: "upd c (\<lambda>c. c\<lparr>parent := None, i_am_detached := False\<rparr>) s = Some s1"
    "upd t (\<lambda>n. n\<lparr>detached_children := set_erase c (detached_children n)\<rparr>) s1 = Some s'"
    by (cases "tnodes s c") (auto simp: free_child_def bind_eq_Some_conv split: if_splits)
  have "sets_ok s1" using a(2) by (rule sets_upd[OF st(1)]) (auto simp: node_sets_def)
  then show ?thesis by (rule sets_upd[OF st(2)]) (auto simp: node_sets_def)
qed

lemma sets_end_detached: "end_detached t s = Some s' \<Longrightarrow> sets_ok s \<Longrightarrow> sets_ok s'"
proof -
  assume a: "end_detached t s = Some s'" "sets_ok s"
  obtain n p m where n: "tnodes s t = Some n" "parent n = Some p" "tnodes s p = Some m" "t \<in> set (detached_children m)"
    using a(1) by (auto simp: end_detached_def bind_eq_Some_conv split: if_splits)
  have "(t \<notin> set (detached_children m)) = False" using n(4) by simp
  from a(1) obtain s1 m1 s2 where st: "upd p (\<lambda>m. m\<lparr>detached_children := set_erase t (detached_children m)\<rparr>) s = Some s1" "tnodes s1 p = Some m1"
    "(if i_am_waiting m1 \<and> detached_children m1 = [] then do { s \<leftarrow> upd p (\<lambda>m. m\<lparr>i_am_waiting := False\<rparr>) s1; queue_vthread [p] 0 True s } else Some s1) = Some s2"
    "upd t (\<lambda>n. n\<lparr>i_am_detached := False, parent := None\<rparr>) s2 = Some s'"
    unfolding end_detached_def n(1,2,3) bind.bind_lunit \<open>(t \<notin> set (detached_children m)) = False\<close> if_False bind_eq_Some_conv by blast
  have "sets_ok s1" using a(2) by (rule sets_upd[OF st(1)]) (auto simp: node_sets_def)
  then have "sets_ok s2" using st(3) by (auto simp: bind_eq_Some_conv node_sets_def dest!: sets_schedule elim!: sets_upd split: if_splits)
  then show ?thesis by (rule sets_upd[OF st(4)]) (auto simp: node_sets_def)
qed

lemma sets_end: "of_END t s = Some s' \<Longrightarrow> sets_ok s \<Longrightarrow> sets_ok s'"
proof -
  assume a: "of_END t s = Some s'" "sets_ok s"
  obtain n where n: "tnodes s t = Some n" "\<not> waiting_for_event n" "children n = []"
    using a(1) by (cases "tnodes s t") (auto simp: of_END_def bind_eq_Some_conv split: if_splits)
  have F: "waiting_for_event n = False" "(children n \<noteq> []) = False" using n by simp_all
  from a(1) obtain s0 s1 j where st: "upd t (\<lambda>n. n\<lparr>i_have_ended := True, pc_null := True\<rparr>) s = Some s0"
    "foldM (free_child t) (detached_children n) s0 = Some s1"
    "(case j of
                Some (tmp, m) \<Rightarrow>
                  if \<not> test_joinable m t then Some s1
                  else do { s \<leftarrow> upd tmp (\<lambda>m. m\<lparr>i_am_joining := False\<rparr>) s1;
                            s \<leftarrow> queue_vthread [tmp] 0 True s;
                            do_join tmp t s }
              | None \<Rightarrow> do {
                  s \<leftarrow> (if i_am_detached n then end_detached t s1 else Some s1);
                  n \<leftarrow> tnodes s t;
                  if parent n = None then vthread_reap t s else Some s }) = Some s'"
    unfolding of_END_def n(1) bind.bind_lunit F if_False bind_eq_Some_conv by blast
  have "sets_ok s0" using a(2) by (rule sets_upd[OF st(1)]) (auto simp: node_sets_def)
  then have k: "sets_ok s1" by (rule foldM_keeps[where P = sets_ok, OF st(2)]) (rule sets_free)
  show ?thesis
  proof (cases j)
    case None
    obtain s2 where s2: "(if i_am_detached n then end_detached t s1 else Some s1) = Some s2" "s' = s2 \<or> vthread_reap t s2 = Some s'"
      using st(3) unfolding None option.case bind_eq_Some_conv by (auto split: if_splits)
    have "sets_ok s2" using s2(1) k sets_end_detached by (auto split: if_splits)
    then show ?thesis using s2(2) sets_reap by blast
  next
    case (Some q)
    obtain p m where q: "q = (p, m)" by (cases q)
    show ?thesis
    proof (cases "test_joinable m t")
      case True
      then obtain s2 s3 where s2: "upd p (\<lambda>m. m\<lparr>i_am_joining := False\<rparr>) s1 = Some s2" "queue_vthread [p] 0 True s2 = Some s3" "do_join p t s3 = Some s'"
        using st(3) unfolding Some q option.case prod.case by (auto simp: bind_eq_Some_conv)
      have "sets_ok s2" using k by (rule sets_upd[OF s2(1)]) (auto simp: node_sets_def)
      then show ?thesis using sets_schedule[OF s2(2)] sets_do_join[OF s2(3)] by blast
    qed (use st(3) k Some q in simp)
  qed
qed

lemma sets_join: "of_JOIN t s = Some (s', on) \<Longrightarrow> sets_ok s \<Longrightarrow> sets_ok s'"
proof -
  assume a: "of_JOIN t s = Some (s', on)" "sets_ok s"
  then consider c where "do_join t c s = Some s'" | "upd t (\<lambda>n. n\<lparr>i_am_joining := True\<rparr>) s = Some s'"
    by (auto simp: of_JOIN_def bind_eq_Some_conv split: if_splits option.splits)
  then show ?thesis
    using sets_do_join a(2) by cases (auto simp: node_sets_def elim!: sets_upd)
qed

lemma sets_step: "tree_step a s = Some s' \<Longrightarrow> sets_ok s \<Longrightarrow> sets_ok s'"
proof (cases a)
  case (Run t)
  assume a: "tree_step a s = Some s'" "sets_ok s"
  then obtain s1 where s1: "upd t (\<lambda>n. n\<lparr>is_scheduled := False\<rparr>) s = Some s1" "of_ZOMBIE t s1 = Some s' \<or> s' = s1\<lparr>running_thread := Some t\<rparr>"
    using Run by (auto simp: thread_run_def bind_eq_Some_conv split: if_splits)
  have k: "sets_ok s1" using a(2) by (rule sets_upd[OF s1(1)]) (auto simp: node_sets_def)
  show ?thesis
  proof (cases "of_ZOMBIE t s1 = Some s'")
    case True
    then obtain s2 where z: "upd t (\<lambda>n. n\<lparr>pc_null := True\<rparr>) s1 = Some s2" "s' = s2 \<or> s' = queue_deletion t s2 \<or> s' = vthread_delete t s2"
      by (auto simp: of_ZOMBIE_def bind_eq_Some_conv split: if_splits)
    have "sets_ok s2" using k by (rule sets_upd[OF z(1)]) (auto simp: node_sets_def)
    then show ?thesis using sets_delete z(2) by (auto simp: queue_deletion_def)
  qed (use s1(2) k in auto)
next
  case (Join_detach count)
  assume a: "tree_step a s = Some s'" "sets_ok s"
  then obtain t cs where f: "foldM (detach_child t) cs s = Some s'"
    using Join_detach by (auto simp: of_JOIN_DETACH_def bind_eq_Some_conv split: if_splits)
  show ?thesis by (rule foldM_keeps[where P = sets_ok, OF f a(2)]) (rule sets_detach)
qed (auto simp: thread_start_def bind_eq_Some_conv pause_def of_WAIT_FORK_def of_WAIT_def node_sets_def
    dest!: sets_new sets_schedule sets_schedule_list sets_fork sets_end sets_join intro!: sets_delete elim!: sets_upd split: if_splits)

lemma reachable_sets: "reachable s \<Longrightarrow> sets_ok s"
proof (induction rule: reachable.induct)
  case (step s a s')
  show ?case by (rule sets_step[OF step(2,3)])
qed (simp add: no_threads_def sets_ok_def)

section \<open>The end of a thread\<close>

lemma free_loop_succeeds:
  "\<forall>c\<in>set ds. \<exists>m. tnodes s c = Some m \<and> parent m = Some t \<and> i_am_detached m \<Longrightarrow> distinct ds \<Longrightarrow> t \<notin> set ds \<Longrightarrow> tnodes s t \<noteq> None \<Longrightarrow>
   \<exists>s'. foldM (free_child t) ds s = Some s'"
proof (induction ds arbitrary: s)
  case (Cons c ds)
  obtain m n where m: "tnodes s c = Some m" "parent m = Some t" "i_am_detached m" "tnodes s t = Some n" using Cons.prems(1,4) by auto
  obtain s1 where s1: "free_child t c s = Some s1" "tnodes s1 = (tnodes s)(c \<mapsto> free_node m, t \<mapsto> n\<lparr>detached_children := set_erase c (detached_children n)\<rparr>)"
    using m Cons.prems(3) by (simp add: free_child_def upd_def free_node_def)
  have "\<exists>s'. foldM (free_child t) ds s1 = Some s'"
  proof (rule Cons.IH)
    show "\<forall>x\<in>set ds. \<exists>m. tnodes s1 x = Some m \<and> parent m = Some t \<and> i_am_detached m"
      using Cons.prems(1-3) unfolding s1(2) by auto
  qed (use Cons.prems in \<open>auto simp: s1(2)\<close>)
  then show ?case using s1(1) by simp
qed simp

text \<open>The parent waits for exactly this thread.\<close>

definition waits_for :: "tnode \<Rightarrow> tnode \<Rightarrow> tid \<Rightarrow> bool" where
  "waits_for m n t \<longleftrightarrow> (if i_am_detached n then i_am_waiting m \<and> set (detached_children m) = {t} else i_am_joining m \<and> test_joinable m t)"

lemma tree_shaped_twice: "tree_shaped U \<Longrightarrow> U c = Some p \<Longrightarrow> U p \<noteq> Some c"
proof
  assume a: "tree_shaped U" "U c = Some p" "U p = Some c"
  then have "(c, c) \<in> {(c, p). U c = Some p}\<^sup>+" by (intro trancl_into_trancl[OF r_into_trancl[of c p]]) simp_all
  then show False using a(1) by (simp add: tree_shaped_def acyclic_def)
qed

lemma end_wakes:
  assumes ok: "tree_ok s" "sets_ok s" and r: "running_thread s = Some t" and n: "tnodes s t = Some n" and leaf: "children n = []"
    and ctx: "\<And>p m. parent n = Some p \<Longrightarrow> tnodes s p = Some m \<Longrightarrow> wt_context m \<noteq> None \<or> wt_context n = None \<or> rd_context m = None"
  shows "\<exists>s'. of_END t s = Some s' \<and> (\<forall>p m. parent n = Some p \<and> tnodes s p = Some m \<and> waits_for m n t \<longrightarrow>
    sel False is_scheduled (tnodes s') p \<and> ([p], 0, True) \<in> set (thr_events s'))"
proof -
  note k = tree_okD[OF ok(1)]
  have ph: "phase_ok True n" using k(5)[OF n] r by simp
  note idle = phase_cases(2)[OF ph]
  note at = sel_Some[of "tnodes s", OF n]
  note nt = let_go_ok(2)[OF ok(1) r n]
  define s0 where "s0 = s\<lparr>tnodes := (tnodes s)(t \<mapsto> n\<lparr>i_have_ended := True, pc_null := True\<rparr>)\<rparr>"
  have "\<exists>s1. foldM (free_child t) (detached_children n) s0 = Some s1"
  proof (rule free_loop_succeeds)
    have "distinct (detached_children n)" using ok(2) n by (auto simp: sets_ok_def node_sets_def)
    then show "distinct (detached_children n)" .
    show "\<forall>c\<in>set (detached_children n). \<exists>m. tnodes s0 c = Some m \<and> parent m = Some t \<and> i_am_detached m"
    proof
      fix c assume c: "c \<in> set (detached_children n)"
      then have "c \<in> freed_kids (tnodes s) t" by (simp add: at)
      then have u: "up (tnodes s) c = Some t" "freed (tnodes s) c" using k(1) unfolding links_def by blast+
      then obtain m where "tnodes s c = Some m" by (cases "tnodes s c") (auto simp: sel_def)
      moreover have "c \<noteq> t" using c nt by auto
      ultimately show "\<exists>m. tnodes s0 c = Some m \<and> parent m = Some t \<and> i_am_detached m" using u by (simp add: s0_def sel_def)
    qed
  qed (use nt in \<open>simp_all add: s0_def\<close>)
  then obtain s1 where s1: "foldM (free_child t) (detached_children n) s0 = Some s1" by blast
  define n1 where "n1 = n\<lparr>detached_children := [], i_have_ended := True, pc_null := True\<rparr>"
  have e1: "s1 = ended_state t n s" using end_first_part[OF ok(1) r n] s1 by (simp add: s0_def)
  have t1: "tnodes s1 t = Some n1" by (simp add: e1 ended_state_def n1_def)
  have other: "tnodes s1 x = tnodes s x" if "x \<noteq> t" "x \<notin> set (detached_children n)" for x
    using that by (simp add: e1 ended_state_def let_go_def)
  have n1: "children n1 = []" "detached_children n1 = []" "\<not> is_scheduled n1" "\<not> waiting_for_event n1" "i_am_detached n1 = i_am_detached n"
    "parent n1 = parent n" "wt_context n1 = wt_context n"
    using leaf idle by (simp_all add: n1_def)
  define rest where "rest = do { joined \<leftarrow> (case parent n of
                  None \<Rightarrow> Some None
                | Some tmp \<Rightarrow> do { m \<leftarrow> tnodes s1 tmp; Some (if \<not> i_am_detached n \<and> i_am_joining m then Some (tmp, m) else None) });
              case joined of
                Some (tmp, m) \<Rightarrow>
                  if \<not> test_joinable m t then Some s1
                  else do { s \<leftarrow> upd tmp (\<lambda>m. m\<lparr>i_am_joining := False\<rparr>) s1;
                            s \<leftarrow> queue_vthread [tmp] 0 True s;
                            do_join tmp t s }
              | None \<Rightarrow> do {
                  s \<leftarrow> (if i_am_detached n then end_detached t s1 else Some s1);
                  n \<leftarrow> tnodes s t;
                  if parent n = None then vthread_reap t s else Some s } }"
  have END: "of_END t s = rest"
    using s1 n idle leaf by (simp add: of_END_def upd_def rest_def s0_def)
  have det: "i_am_detached n \<Longrightarrow> parent n \<noteq> None" using k(1) unfolding links_def by (metis at)
  show ?thesis
  proof (cases "parent n")
    case None
    have "\<exists>s2. vthread_reap t s1 = Some s2" by (rule reap_succeeds[OF t1]) (use n1 None det in auto)
    then show ?thesis using None det n1 t1 by (auto simp: END rest_def)
  next
    case (Some p)
    have up: "up (tnodes s) t = Some p" by (simp add: at Some)
    have ne: "p \<noteq> t" using tree_shaped_neq[OF k(3) up] by simp
    have pC: "p \<notin> set (detached_children n)"
    proof
      assume "p \<in> set (detached_children n)"
      then have "p \<in> freed_kids (tnodes s) t" by (simp add: at)
      then have "up (tnodes s) p = Some t" using k(1) unfolding links_def by blast
      then show False using tree_shaped_twice[OF k(3) up] by simp
    qed
    have tp: "t \<in> (if i_am_detached n then freed_kids (tnodes s) p else kids (tnodes s) p)"
      using k(1) up unfolding links_def by (simp add: at)
    then obtain m where m: "tnodes s p = Some m" by (cases "tnodes s p") (auto simp: sel_def split: if_splits)
    have tm: "t \<in> set (if i_am_detached n then detached_children m else children m)"
      using tp by (simp add: sel_Some[of "tnodes s", OF m] split: if_splits)
    have m1: "tnodes s1 p = Some m" using other[OF ne pC] m by simp
    have php: "phase_ok False m" using k(5)[OF m] r ne by simp
    show ?thesis
    proof (cases "i_am_detached n")
      case False
      show ?thesis
      proof (cases "i_am_joining m \<and> test_joinable m t")
        case join: True
        then have ns: "\<not> is_scheduled m" using phase_cases(5)[OF php] by simp
        let ?m = "m\<lparr>i_am_joining := False, is_scheduled := True\<rparr>"
        define s3 where "s3 = s1\<lparr>tnodes := (tnodes s1)(p \<mapsto> ?m), thr_events := thr_events s1 @ [([p], 0, True)]\<rparr>"
        have t3: "tnodes s3 t = Some n1" "tnodes s3 p = Some ?m" using ne t1 by (simp_all add: s3_def)
        have rest: "rest = do_join p t s3"
          using Some False join m1 ns by (simp add: rest_def upd_def s3_def queue_vthread_def vthread_mark_scheduled_def)
        have "\<exists>s2. do_join p t s3 = Some s2"
          by (rule do_join_succeeds[OF t3 ne n1(1,2)]) (use n1 False Some tm ctx[OF Some m] in auto)
        then obtain s2 where s2: "do_join p t s3 = Some s2" by blast
        from do_join_effect[OF t3 ne n1(1-4) _ s2] n1(5) False obtain m' g w z where e: "tnodes s2 = (tnodes s3)(p \<mapsto> m', t := g)"
          "thr_events s2 = thr_events s3" "m' = ?m\<lparr>children := set_erase t (children ?m), task_func_children := set_erase t (task_func_children ?m), wt_context := w, rd_context := z\<rparr>"
          by auto
        have "tnodes s2 p = Some m'" "is_scheduled m'" using ne by (simp_all add: e(1,3))
        then have "sel False is_scheduled (tnodes s2) p" by (simp add: sel_Some)
        moreover have "([p], 0, True) \<in> set (thr_events s2)" by (simp add: e(2) s3_def)
        ultimately show ?thesis using s2 Some by (auto simp: END rest)
      next
        case no: False
        have "rest = Some s1" using Some False no m1 t1 n1(6) by (auto simp: rest_def)
        moreover have "\<not> waits_for m n t" using no False by (simp add: waits_for_def)
        ultimately show ?thesis using Some m by (auto simp: END)
      qed
    next
      case True
      let ?m = "m\<lparr>detached_children := set_erase t (detached_children m)\<rparr>"
      let ?wakes = "i_am_waiting m \<and> set_erase t (detached_children m) = []"
      define m' where "m' = (if ?wakes then ?m\<lparr>i_am_waiting := False, is_scheduled := True\<rparr> else ?m)"
      have sched: "i_am_waiting m \<Longrightarrow> \<not> is_scheduled m" using phase_cases(6)[OF php] by simp
      let ?n = "n1\<lparr>i_am_detached := False, parent := None\<rparr>"
      define s3 where "s3 = s1\<lparr>tnodes := (tnodes s1)(p \<mapsto> m', t \<mapsto> ?n),
        thr_events := thr_events s1 @ (if ?wakes then [([p], 0, True)] else [])\<rparr>"
      have "end_detached t s1 = Some s3"
        using t1 n1(6) Some m1 ne sched tm True
        by (auto simp: end_detached_def upd_def queue_vthread_def vthread_mark_scheduled_def m'_def s3_def fun_upd_twist)
      moreover have n3: "tnodes s3 t = Some ?n" by (simp add: s3_def)
      ultimately have rest: "rest = vthread_reap t s3" using Some True m1 by (simp add: rest_def)
      have "\<exists>s2. vthread_reap t s3 = Some s2" by (rule reap_succeeds[OF n3]) (use n1 in auto)
      then obtain s2 where s2: "vthread_reap t s3 = Some s2" by blast
      from reap_leaf[OF n3 _ _ _ _ _ _ s2] n1 obtain g where e: "tnodes s2 = (tnodes s3)(t := g)" "thr_events s2 = thr_events s3" by auto
      have w: "is_scheduled m' \<and> ?wakes" if "waits_for m n t" using that True by (simp add: waits_for_def m'_def)
      have "tnodes s2 p = Some m'" using ne by (simp add: e(1) s3_def)
      then have "sel False is_scheduled (tnodes s2) p = is_scheduled m'" by (simp add: sel_Some)
      moreover have "([p], 0, True) \<in> set (thr_events s2)" if ?wakes using that unfolding e(2) s3_def by simp
      ultimately show ?thesis using s2 Some m w by (auto simp: END rest)
    qed
  qed
qed

end
