(* ===== verification/Thread_Disable.thy ===== *)
theory Thread_Disable
  imports Thread_Wakeup
begin

text \<open>
  What \<^verbatim>\<open>%disable\<close> does to a detached thread and its parent, and an invariant of every later run: a thread
  that waits for a detached child whose code is gone is never scheduled again.
\<close>

section \<open>The opcode as a step\<close>

definition tree_disable :: "nat \<Rightarrow> nat \<Rightarrow> ttree \<Rightarrow> ttree option" where
  "tree_disable k scope s =
     do { thr \<leftarrow> running_thread s; (s, on) \<leftarrow> of_DISABLE k scope thr s; Some (if on then s else pause s) }"

section \<open>A stranded thread\<close>

definition waits_with :: "tid \<Rightarrow> tnode \<Rightarrow> bool" where
  "waits_with c m \<longleftrightarrow> i_am_waiting m \<and> \<not> i_am_joining m \<and> c \<in> set (detached_children m) \<and> \<not> is_scheduled m \<and>
     \<not> waiting_for_event m \<and> \<not> i_have_ended m"

definition silenced :: "tid \<Rightarrow> tnode \<Rightarrow> bool" where
  "silenced p n \<longleftrightarrow> parent n = Some p \<and> pc_null n"

definition stranded :: "tid \<Rightarrow> tid \<Rightarrow> ttree \<Rightarrow> bool" where
  "stranded p c s \<longleftrightarrow> p \<noteq> c \<and> (\<exists>m. tnodes s p = Some m \<and> waits_with c m) \<and> (\<exists>n. tnodes s c = Some n \<and> silenced p n) \<and>
     running_thread s \<noteq> Some p \<and> running_thread s \<noteq> Some c \<and> p \<notin> set (del_events s) \<and> c \<notin> set (del_events s)"

lemmas strand_defs = waits_with_def silenced_def

lemma stranded_waits: "stranded p c s \<Longrightarrow> fork_waiting (tnodes s) p"
  by (auto simp: stranded_def waits_with_def sel_Some)

lemma stranded_nodes:
  assumes "stranded p c s"
  shows "tnodes s c = Some n \<Longrightarrow> parent n = Some p" "tnodes s c = Some n \<Longrightarrow> pc_null n"
    "tnodes s p = Some m \<Longrightarrow> \<not> i_have_ended m" "tnodes s p = Some m \<Longrightarrow> \<not> is_scheduled m"
    "tnodes s p = Some m \<Longrightarrow> \<not> waiting_for_event m" "tnodes s p = Some m \<Longrightarrow> \<not> i_am_joining m"
    "tnodes s p = Some m \<Longrightarrow> c \<in> set (detached_children m)"
  using assms by (auto simp: stranded_def strand_defs)

lemma stranded_running: "stranded p c s \<Longrightarrow> running_thread s = Some t \<Longrightarrow> t \<noteq> p \<and> t \<noteq> c"
  by (auto simp: stranded_def)

lemma strand_upd:
  "upd t f s = Some s' \<Longrightarrow> stranded p c s \<Longrightarrow> (\<And>m. t = p \<Longrightarrow> waits_with c m \<Longrightarrow> waits_with c (f m)) \<Longrightarrow>
     (\<And>n. t = c \<Longrightarrow> silenced p n \<Longrightarrow> silenced p (f n)) \<Longrightarrow> stranded p c s'"
  by (auto simp: upd_Some stranded_def)

lemma strand_new: "vthread_new x scope s = Some s' \<Longrightarrow> stranded p c s \<Longrightarrow> stranded p c s'"
  by (auto simp: vthread_new_def stranded_def split: if_splits)

lemma strand_other [simp]:
  "stranded p c (s\<lparr>thr_events := e\<rparr>) = stranded p c s" "stranded p c (s\<lparr>scope_threads := f\<rparr>) = stranded p c s"
  "stranded p c (s\<lparr>stacked_context := g\<rparr>) = stranded p c s"
  by (simp_all add: stranded_def)

lemma strand_delete: "stranded p c s \<Longrightarrow> x \<noteq> p \<Longrightarrow> x \<noteq> c \<Longrightarrow> stranded p c (vthread_delete x s)"
  by (simp add: stranded_def vthread_delete_def)

lemma strand_queue_deletion: "stranded p c s \<Longrightarrow> x \<noteq> p \<Longrightarrow> x \<noteq> c \<Longrightarrow> stranded p c (queue_deletion x s)"
  by (simp add: stranded_def queue_deletion_def)

lemma strand_pause: "stranded p c s \<Longrightarrow> stranded p c (pause s)"
  by (simp add: stranded_def pause_def)

lemma strand_schedule:
  assumes "queue_vthread ts d b s = Some s'" "stranded p c s" "p \<notin> set ts"
  shows "stranded p c s'"
proof -
  obtain s1 where s1: "vthread_mark_scheduled ts s = Some s1" "s' = s1\<lparr>thr_events := thr_events s1 @ [(ts, d, b)]\<rparr>"
    using assms(1) by (auto simp: queue_vthread_def bind_eq_Some_conv)
  have "stranded p c s1" using s1(1) assms(2,3) unfolding vthread_mark_scheduled_def
  proof (induction ts arbitrary: s)
    case (Cons t ts)
    then obtain s2 where s2: "upd t (\<lambda>n. n\<lparr>is_scheduled := True\<rparr>) s = Some s2"
      "foldM (\<lambda>thr s. do { n \<leftarrow> tnodes s thr; if is_scheduled n then None else upd thr (\<lambda>n. n\<lparr>is_scheduled := True\<rparr>) s }) ts s2 = Some s1"
      by (auto simp: bind_eq_Some_conv split: option.splits if_splits)
    have "stranded p c s2" by (rule strand_upd[OF s2(1) Cons.prems(2)]) (use Cons.prems(3) in \<open>auto simp: silenced_def\<close>)
    then show ?case using Cons.IH[OF s2(2)] Cons.prems(3) by simp
  qed simp
  then show ?thesis by (simp add: s1(2))
qed

lemma strand_schedule_list:
  assumes "vthread_schedule_list ts s = Some s'" "stranded p c s"
  shows "stranded p c s'"
proof -
  let ?f = "\<lambda>thr s. do { n \<leftarrow> tnodes s thr; if waiting_for_event n then upd thr (\<lambda>n. n\<lparr>waiting_for_event := False\<rparr>) s else None }"
  obtain s1 where s1: "foldM ?f ts s = Some s1" "queue_vthread ts 0 False s1 = Some s'"
    using assms(1) by (auto simp: vthread_schedule_list_def bind_eq_Some_conv)
  have "stranded p c s1 \<and> p \<notin> set ts" using s1(1) assms(2)
  proof (induction ts arbitrary: s)
    case (Cons t ts)
    then obtain n s2 where s2: "tnodes s t = Some n" "waiting_for_event n" "upd t (\<lambda>n. n\<lparr>waiting_for_event := False\<rparr>) s = Some s2"
      "foldM ?f ts s2 = Some s1"
      by (auto simp: bind_eq_Some_conv split: option.splits if_splits)
    have "t \<noteq> p" using stranded_nodes(5)[OF Cons.prems(2)] s2(1,2) by auto
    moreover have "stranded p c s2" by (rule strand_upd[OF s2(3) Cons.prems(2)]) (use \<open>t \<noteq> p\<close> in \<open>auto simp: silenced_def\<close>)
    ultimately show ?case using Cons.IH[OF s2(4)] by simp
  qed simp
  then show ?thesis using strand_schedule[OF s1(2)] by simp
qed

lemma strand_reap:
  assumes "vthread_reap t s = Some s'" "stranded p c s" "t \<noteq> p" "t \<noteq> c"
  shows "stranded p c s'"
proof -
  obtain n where n: "tnodes s t = Some n" using assms(1) by (cases "tnodes s t") (auto simp: vthread_reap_def)
  let ?f = "\<lambda>child s. do { c \<leftarrow> tnodes s child; if parent c = Some t then upd child (\<lambda>c. c\<lparr>parent := parent n\<rparr>) s else None }"
  let ?g = "\<lambda>child s. do { c \<leftarrow> tnodes s child;
                 if parent c = Some t \<and> i_am_detached c then upd child (\<lambda>c. c\<lparr>parent := None, i_am_detached := False\<rparr>) s else None }"
  have not_c: "x \<noteq> c" if "stranded p c s0" "tnodes s0 x = Some y" "parent y = Some t" for x y s0
    using stranded_nodes(1)[OF that(1)] that(2,3) assms(3) by auto
  obtain s1 where s1: "foldM ?f (children n) s = Some s1"
    using assms(1) n by (cases "foldM ?f (children n) s") (auto simp: vthread_reap_def)
  obtain s2 where s2: "foldM ?g (detached_children n) s1 = Some s2"
    using assms(1) n s1 by (cases "foldM ?g (detached_children n) s1") (auto simp: vthread_reap_def)
  have k1: "stranded p c s1"
    by (rule foldM_keeps[where P = "stranded p c", OF s1 assms(2)])
      (auto simp: bind_eq_Some_conv waits_with_def dest: not_c elim!: strand_upd split: if_splits)
  have k2: "stranded p c s2"
    by (rule foldM_keeps[where P = "stranded p c", OF s2 k1])
      (auto simp: bind_eq_Some_conv waits_with_def dest: not_c elim!: strand_upd split: if_splits)
  let ?h = "case parent n of None \<Rightarrow> Some s2
     | Some p \<Rightarrow> do { m \<leftarrow> tnodes s2 p;
         if i_am_detached n then
           if t \<in> set (detached_children m) then upd p (\<lambda>m. m\<lparr>detached_children := set_erase t (detached_children m)\<rparr>) s2 else None
         else if t \<in> set (children m) then upd p (\<lambda>m. m\<lparr>children := set_erase t (children m)\<rparr>) s2 else None }"
  obtain s3 where s3: "?h = Some s3"
    using assms(1) n s1 s2 by (cases ?h) (auto simp: vthread_reap_def)
  have k3: "stranded p c s3"
    using s3 k2 assms(4) by (auto simp: bind_eq_Some_conv strand_defs elim!: strand_upd split: option.splits if_splits)
  let ?s = "s3\<lparr>scope_threads := (scope_threads s3)(parent_scope n := set_erase t (scope_threads s3 (parent_scope n)))\<rparr>"
  obtain s4 where s4: "upd t (\<lambda>n. n\<lparr>parent := None, pc_null := True\<rparr>) ?s = Some s4"
    using assms(1) n s1 s2 s3 by (cases "upd t (\<lambda>n. n\<lparr>parent := None, pc_null := True\<rparr>) ?s") (auto simp: vthread_reap_def)
  have k4: "stranded p c s4" by (rule strand_upd[OF s4]) (use k3 assms(3,4) in auto)
  have "s' = s4 \<or> s' = queue_deletion t s4 \<or> s' = vthread_delete t s4"
    using assms(1) n s1 s2 s3 s4 by (auto simp: vthread_reap_def split: if_splits)
  then show ?thesis using k4 strand_delete strand_queue_deletion assms(3,4) by auto
qed

lemma strand_do_join:
  assumes "do_join q t s = Some s'" "stranded p c s" "t \<noteq> p" "t \<noteq> c"
  shows "stranded p c s'"
proof -
  obtain cn where cn: "tnodes s t = Some cn" "parent cn = Some q"
    using assms(1) by (cases "tnodes s t") (auto simp: do_join_def split: if_splits)
  from assms(1) obtain s1 n s2 where st: "upd q (\<lambda>n. n\<lparr>task_func_children := set_erase t (task_func_children n)\<rparr>) s = Some s1"
    "tnodes s1 q = Some n"
    "(case wt_context n of
                   Some child_context \<Rightarrow>
                     if wt_context cn \<noteq> None \<and> wt_context n \<noteq> rd_context n then
                       upd q (\<lambda>n. n\<lparr>wt_context := stacked_context s1 child_context, rd_context := Some child_context\<rparr>)
                         (s1\<lparr>stacked_context := (stacked_context s1)(child_context := rd_context n)\<rparr>)
                     else Some s1
                 | None \<Rightarrow> if wt_context cn \<noteq> None \<and> rd_context n \<noteq> None then None else Some s1) = Some s2"
    "vthread_reap t s2 = Some s'"
    unfolding do_join_def cn(1) cn(2) bind.bind_lunit simp_thms if_False bind_eq_Some_conv by blast
  have "stranded p c s1" using assms(2) by (rule strand_upd[OF st(1)]) (auto simp: strand_defs)
  then have "stranded p c s2" using st(3) by (auto simp: strand_defs elim!: strand_upd split: option.splits if_splits)
  then show ?thesis by (rule strand_reap[OF st(4) _ assms(3,4)])
qed

lemma strand_fork:
  assumes "of_FORK x scope auto task t s = Some s'" "stranded p c s" "t \<noteq> p" "t \<noteq> c"
  shows "stranded p c s'"
proof -
  obtain s1 n s2 s3 s4 s5 where st: "vthread_new x scope s = Some s1" "tnodes s1 t = Some n"
    "(if auto then upd x (\<lambda>c. c\<lparr>wt_context := wt_context n, rd_context := wt_context n\<rparr>) s1 else Some s1) = Some s2"
    "upd x (\<lambda>c. c\<lparr>parent := Some t\<rparr>) s2 = Some s3" "upd t (\<lambda>n. n\<lparr>children := set_insert x (children n)\<rparr>) s3 = Some s4"
    "(if task then upd t (\<lambda>n. n\<lparr>task_func_children := set_insert x (task_func_children n)\<rparr>) s4 else Some s4) = Some s5"
    "queue_vthread [x] 0 True s5 = Some s'"
    using assms(1) by (auto simp: of_FORK_def bind_eq_Some_conv)
  have x: "x \<noteq> p" "x \<noteq> c" using st(1) assms(2) by (auto simp: vthread_new_def stranded_def split: if_splits)
  have "stranded p c s1" using strand_new[OF st(1) assms(2)] .
  then have "stranded p c s2" using st(3) x by (auto elim!: strand_upd split: if_splits)
  then have "stranded p c s3" by (rule strand_upd[OF st(4)]) (use x in auto)
  then have "stranded p c s4" by (rule strand_upd[OF st(5)]) (use assms(3,4) in auto)
  then have "stranded p c s5" using st(6) assms(3,4) by (auto elim!: strand_upd split: if_splits)
  then show ?thesis by (rule strand_schedule[OF st(7)]) (use x in simp)
qed

lemma strand_detach:
  assumes "detach_child t x s = Some s'" "stranded p c s" "t \<noteq> p" "t \<noteq> c"
  shows "stranded p c s'"
proof -
  obtain xn where xn: "tnodes s x = Some xn" using assms(1) by (cases "tnodes s x") (auto simp: detach_child_def)
  obtain n where n: "tnodes s t = Some n" using assms(1) xn by (cases "tnodes s t") (auto simp: detach_child_def)
  have par: "parent xn = Some t" using assms(1) xn n by (auto simp: detach_child_def split: if_splits)
  have x: "x \<noteq> c" using stranded_nodes(1)[OF assms(2)] xn par assms(3) by auto
  show ?thesis
  proof (cases "i_have_ended xn")
    case True
    then have "vthread_reap x s = Some s'" using assms(1) xn n by (auto simp: detach_child_def split: if_splits)
    moreover have "x \<noteq> p" using stranded_nodes(3)[OF assms(2)] xn True by auto
    ultimately show ?thesis using strand_reap assms(2) x by blast
  next
    case False
    then obtain s1 s2 where st: "upd t (\<lambda>n. n\<lparr>children := set_erase x (children n)\<rparr>) s = Some s1" "upd x (\<lambda>c. c\<lparr>i_am_detached := True\<rparr>) s1 = Some s2"
      "upd t (\<lambda>n. n\<lparr>detached_children := set_insert x (detached_children n)\<rparr>) s2 = Some s'"
      using assms(1) xn n by (auto simp: detach_child_def bind_eq_Some_conv split: if_splits)
    have "stranded p c s1" using assms(2) by (rule strand_upd[OF st(1)]) (use assms(3,4) in auto)
    then have "stranded p c s2" by (rule strand_upd[OF st(2)]) (auto simp: strand_defs)
    then show ?thesis by (rule strand_upd[OF st(3)]) (use assms(3,4) in auto)
  qed
qed

lemma strand_free:
  assumes "free_child t x s = Some s'" "stranded p c s" "t \<noteq> p" "t \<noteq> c"
  shows "stranded p c s'"
proof -
  obtain xn s1 where st: "tnodes s x = Some xn" "parent xn = Some t" "upd x (\<lambda>c. c\<lparr>parent := None, i_am_detached := False\<rparr>) s = Some s1"
    "upd t (\<lambda>n. n\<lparr>detached_children := set_erase x (detached_children n)\<rparr>) s1 = Some s'"
    using assms(1) by (cases "tnodes s x") (auto simp: free_child_def bind_eq_Some_conv split: if_splits)
  have "x \<noteq> c" using stranded_nodes(1)[OF assms(2)] st(1,2) assms(3) by auto
  then have "stranded p c s1" using assms(2) by (intro strand_upd[OF st(3)]) (auto simp: waits_with_def)
  then show ?thesis by (rule strand_upd[OF st(4)]) (use assms(3,4) in auto)
qed

text \<open>The end of another detached child of the same thread does not wake it, because this one is never taken out.\<close>

lemma strand_end_detached:
  assumes "end_detached t s = Some s'" "stranded p c s" "t \<noteq> p" "t \<noteq> c"
  shows "stranded p c s'"
proof -
  obtain n q m where n: "tnodes s t = Some n" "parent n = Some q" "tnodes s q = Some m" "t \<in> set (detached_children m)"
    using assms(1) by (auto simp: end_detached_def bind_eq_Some_conv split: if_splits)
  have "(t \<notin> set (detached_children m)) = False" using n(4) by simp
  from assms(1) obtain s1 m1 s2 where st: "upd q (\<lambda>m. m\<lparr>detached_children := set_erase t (detached_children m)\<rparr>) s = Some s1" "tnodes s1 q = Some m1"
    "(if i_am_waiting m1 \<and> detached_children m1 = [] then do { s \<leftarrow> upd q (\<lambda>m. m\<lparr>i_am_waiting := False\<rparr>) s1; queue_vthread [q] 0 True s } else Some s1) = Some s2"
    "upd t (\<lambda>n. n\<lparr>i_am_detached := False, parent := None\<rparr>) s2 = Some s'"
    unfolding end_detached_def n(1,2,3) bind.bind_lunit \<open>(t \<notin> set (detached_children m)) = False\<close> if_False bind_eq_Some_conv by blast
  have k1: "stranded p c s1" using assms(2) by (rule strand_upd[OF st(1)]) (use assms(4) in \<open>auto simp: strand_defs\<close>)
  have k2: "stranded p c s2"
  proof (cases "i_am_waiting m1 \<and> detached_children m1 = []")
    case True
    then have q: "q \<noteq> p" using stranded_nodes(7)[OF k1] st(2) by auto
    from st(3) True obtain s3 where s3: "upd q (\<lambda>m. m\<lparr>i_am_waiting := False\<rparr>) s1 = Some s3" "queue_vthread [q] 0 True s3 = Some s2"
      by (auto simp: bind_eq_Some_conv)
    have "stranded p c s3" by (rule strand_upd[OF s3(1) k1]) (use q in \<open>auto simp: silenced_def\<close>)
    then show ?thesis by (rule strand_schedule[OF s3(2)]) (use q in simp)
  next
    case False
    then show ?thesis using st(3)[unfolded if_not_P[OF False]] k1 by simp
  qed
  show ?thesis by (rule strand_upd[OF st(4) k2]) (use assms(3,4) in auto)
qed

lemma strand_end:
  assumes "of_END t s = Some s'" "stranded p c s" "t \<noteq> p" "t \<noteq> c"
  shows "stranded p c s'"
proof -
  obtain n where n: "tnodes s t = Some n" "\<not> waiting_for_event n" "children n = []"
    using assms(1) by (cases "tnodes s t") (auto simp: of_END_def bind_eq_Some_conv split: if_splits)
  have F: "waiting_for_event n = False" "(children n \<noteq> []) = False" using n by simp_all
  from assms(1) obtain s0 s1 j where st: "upd t (\<lambda>n. n\<lparr>i_have_ended := True, pc_null := True\<rparr>) s = Some s0"
    "foldM (free_child t) (detached_children n) s0 = Some s1"
    "(case parent n of
                  None \<Rightarrow> Some None
                | Some tmp \<Rightarrow> do { m \<leftarrow> tnodes s1 tmp; Some (if \<not> i_am_detached n \<and> i_am_joining m then Some (tmp, m) else None) }) = Some j"
    "(case j of
                Some (tmp, m) \<Rightarrow>
                  if \<not> test_joinable m t then Some s1
                  else do { s \<leftarrow> upd tmp (\<lambda>m. m\<lparr>i_am_joining := False\<rparr>) s1;
                            s \<leftarrow> queue_vthread [tmp] 0 True s;
                            do_join tmp t s }
              | None \<Rightarrow> do {
                  s \<leftarrow> (if i_am_detached n then end_detached t s1 else Some s1);
                  n \<leftarrow> tnodes s t;
                  if parent n = None then vthread_reap t s else Some s }) = Some s'"
    unfolding of_END_def n(1) bind.bind_lunit F if_False bind_eq_Some_conv by blast
  have "stranded p c s0" using assms(2) by (rule strand_upd[OF st(1)]) (use assms(3,4) in auto)
  then have k: "stranded p c s1" by (rule foldM_keeps[where P = "stranded p c", OF st(2)]) (rule strand_free[OF _ _ assms(3,4)])
  show ?thesis
  proof (cases j)
    case None
    obtain s2 where s2: "(if i_am_detached n then end_detached t s1 else Some s1) = Some s2" "s' = s2 \<or> vthread_reap t s2 = Some s'"
      using st(4) unfolding None option.case bind_eq_Some_conv by (auto split: if_splits)
    have "stranded p c s2" using s2(1) k strand_end_detached[OF _ _ assms(3,4)] by (auto split: if_splits)
    then show ?thesis using s2(2) strand_reap[OF _ _ assms(3,4)] by blast
  next
    case (Some r)
    obtain q m where q: "r = (q, m)" by (cases r)
    have m: "tnodes s1 q = Some m" "i_am_joining m" using st(3) unfolding Some q by (auto simp: bind_eq_Some_conv split: option.splits if_splits)
    then have ne: "q \<noteq> p" using stranded_nodes(6)[OF k] by auto
    show ?thesis
    proof (cases "test_joinable m t")
      case True
      then obtain s2 s3 where s2: "upd q (\<lambda>m. m\<lparr>i_am_joining := False\<rparr>) s1 = Some s2" "queue_vthread [q] 0 True s2 = Some s3" "do_join q t s3 = Some s'"
        using st(4) unfolding Some q option.case prod.case by (auto simp: bind_eq_Some_conv)
      have "stranded p c s2" using k by (rule strand_upd[OF s2(1)]) (use ne in \<open>auto simp: silenced_def\<close>)
      then have "stranded p c s3" by (rule strand_schedule[OF s2(2)]) (use ne in simp)
      then show ?thesis by (rule strand_do_join[OF s2(3) _ assms(3,4)])
    qed (use st(4) k Some q in simp)
  qed
qed

lemma strand_join:
  assumes "of_JOIN t s = Some (s', on)" "stranded p c s" "t \<noteq> p" "t \<noteq> c"
  shows "stranded p c s'"
proof -
  from assms(1) obtain m where m: "tnodes s t = Some m" by (cases "tnodes s t") (auto simp: of_JOIN_def)
  from assms(1) m consider x where "ended_child t (children m) s = Some (Some x)" "do_join t x s = Some s'" | "upd t (\<lambda>n. n\<lparr>i_am_joining := True\<rparr>) s = Some s'"
    by (auto simp: of_JOIN_def bind_eq_Some_conv split: if_splits option.splits)
  then show ?thesis
  proof cases
    case 1
    obtain n where n: "tnodes s x = Some n" "i_have_ended n" using ended_child_Some(1)[OF m 1(1)] by blast
    have "parent n = Some t" using 1(2) n(1) by (auto simp: do_join_def bind_eq_Some_conv split: if_splits)
    then have "x \<noteq> p" "x \<noteq> c" using stranded_nodes(1,3)[OF assms(2)] n assms(3) by auto
    then show ?thesis by (rule strand_do_join[OF 1(2) assms(2)])
  next
    case 2
    show ?thesis by (rule strand_upd[OF 2 assms(2)]) (use assms(3,4) in auto)
  qed
qed

lemma strand_run:
  assumes "thread_run t s = Some s'" "stranded p c s"
  shows "stranded p c s'"
proof -
  from assms(1) obtain n s1 where n: "tnodes s t = Some n" "is_scheduled n" "upd t (\<lambda>n. n\<lparr>is_scheduled := False\<rparr>) s = Some s1"
    "if pc_null n then of_ZOMBIE t s1 = Some s' else s' = s1\<lparr>running_thread := Some t\<rparr>"
    by (auto simp: thread_run_def bind_eq_Some_conv split: if_splits)
  have t: "t \<noteq> p" using stranded_nodes(4)[OF assms(2)] n(1,2) by auto
  have k: "stranded p c s1" by (rule strand_upd[OF n(3) assms(2)]) (use t in \<open>auto simp: silenced_def\<close>)
  show ?thesis
  proof (cases "pc_null n")
    case True
    then have z: "of_ZOMBIE t s1 = Some s'" using n(4) by simp
    obtain n1 s2 where s2: "tnodes s1 t = Some n1" "upd t (\<lambda>n. n\<lparr>pc_null := True\<rparr>) s1 = Some s2"
      "s' = s2 \<or> parent n1 = None \<and> (s' = queue_deletion t s2 \<or> s' = vthread_delete t s2)"
      using z by (auto simp: of_ZOMBIE_def bind_eq_Some_conv split: if_splits)
    have "stranded p c s2" by (rule strand_upd[OF s2(2) k]) (use t in \<open>auto simp: silenced_def\<close>)
    moreover have "parent n1 = None \<Longrightarrow> t \<noteq> c" using stranded_nodes(1)[OF k] s2(1) by auto
    ultimately show ?thesis using s2(3) t by (elim disjE conjE) (simp_all add: strand_delete strand_queue_deletion)
  next
    case False
    then have "t \<noteq> c" using stranded_nodes(2)[OF assms(2)] n(1) by auto
    then show ?thesis using False n(4) k t by (auto simp: stranded_def)
  qed
qed

lemma strand_step: "tree_step a s = Some s' \<Longrightarrow> stranded p c s \<Longrightarrow> stranded p c s'"
proof (cases a)
  case (Join_detach count)
  assume a: "tree_step a s = Some s'" "stranded p c s"
  then obtain t cs where f: "running_thread s = Some t" "foldM (detach_child t) cs s = Some s'"
    using Join_detach by (auto simp: of_JOIN_DETACH_def bind_eq_Some_conv split: if_splits)
  have "t \<noteq> p" "t \<noteq> c" using a(2) f(1) by (auto simp: stranded_def)
  then show ?thesis by (intro foldM_keeps[where P = "stranded p c", OF f(2) a(2)]) (rule strand_detach)
next
  case (Delete t)
  assume a: "tree_step a s = Some s'" "stranded p c s"
  then have d: "t \<in> set (del_events s)" "s' = vthread_delete t (s\<lparr>del_events := remove1 t (del_events s)\<rparr>)"
    using Delete by (simp_all split: if_splits)
  then have "t \<noteq> p" "t \<noteq> c" using a(2) by (auto simp: stranded_def)
  moreover have "stranded p c (s\<lparr>del_events := remove1 t (del_events s)\<rparr>)"
    using a(2) set_remove1_subset[of t "del_events s"] unfolding stranded_def by fastforce
  ultimately show ?thesis unfolding d(2) using strand_delete by blast
next
  case (Start t scope)
  assume a: "tree_step a s = Some s'" "stranded p c s"
  then obtain s1 where s1: "vthread_new t scope s = Some s1" "queue_vthread [t] 0 False s1 = Some s'"
    using Start by (auto simp: thread_start_def bind_eq_Some_conv)
  have "t \<noteq> p" using s1(1) a(2) by (auto simp: vthread_new_def stranded_def split: if_splits)
  then show ?thesis by (intro strand_schedule[OF s1(2) strand_new[OF s1(1) a(2)]]) simp
next
  case (Fork x1 x2 x3 x4)
  assume a: "tree_step a s = Some s'" "stranded p c s"
  then obtain t where t: "running_thread s = Some t" "of_FORK x1 x2 x3 x4 t s = Some s'"
    using Fork by (auto simp: bind_eq_Some_conv)
  then show ?thesis using stranded_running[OF a(2) t(1)] by (intro strand_fork[OF t(2) a(2)]) simp_all
next
  case Join
  assume a: "tree_step a s = Some s'" "stranded p c s"
  then obtain t s1 on where s1: "running_thread s = Some t" "of_JOIN t s = Some (s1, on)" "s' = s1 \<or> s' = pause s1"
    using Join by (auto simp: bind_eq_Some_conv split: if_splits)
  have "t \<noteq> p" "t \<noteq> c" using a(2) s1(1) by (auto simp: stranded_def)
  then have "stranded p c s1" by (rule strand_join[OF s1(2) a(2)])
  then show ?thesis using s1(3) strand_pause by blast
next
  case (Delay d)
  assume a: "tree_step a s = Some s'" "stranded p c s"
  then obtain t s1 where s1: "running_thread s = Some t" "queue_vthread [t] d False s = Some s1" "s' = pause s1"
    using Delay by (auto simp: bind_eq_Some_conv)
  have "p \<notin> set [t]" using a(2) s1(1) by (auto simp: stranded_def)
  then show ?thesis using strand_pause[OF strand_schedule[OF s1(2) a(2)]] s1(3) by simp
next
  case End
  assume a: "tree_step a s = Some s'" "stranded p c s"
  then obtain t s1 where s1: "running_thread s = Some t" "of_END t s = Some s1" "s' = pause s1"
    using End by (auto simp: bind_eq_Some_conv)
  have "t \<noteq> p" "t \<noteq> c" using a(2) s1(1) by (auto simp: stranded_def)
  then show ?thesis using strand_pause[OF strand_end[OF s1(2) a(2)]] s1(3) by simp
next
  case (Run t)
  assume "tree_step a s = Some s'" "stranded p c s"
  then show ?thesis using Run strand_run by simp
next
  case (Wake ts)
  assume "tree_step a s = Some s'" "stranded p c s"
  then show ?thesis using Wake strand_schedule_list by (simp split: if_splits)
next
  case Wait_fork
  assume a: "tree_step a s = Some s'" "stranded p c s"
  then obtain t s1 where s1: "running_thread s = Some t" "s1 = s \<or> upd t (\<lambda>n. n\<lparr>i_am_waiting := True\<rparr>) s = Some s1"
    "s' = s1 \<or> s' = pause s1"
    using Wait_fork by (auto simp: of_WAIT_FORK_def bind_eq_Some_conv split: if_splits)
  have "stranded p c s1" using s1(2) a(2) stranded_running[OF a(2) s1(1)] by (auto elim!: strand_upd)
  then show ?thesis using s1(3) strand_pause by blast
next
  case Wait
  assume a: "tree_step a s = Some s'" "stranded p c s"
  then obtain t s1 where s1: "running_thread s = Some t" "upd t (\<lambda>n. n\<lparr>waiting_for_event := True\<rparr>) s = Some s1" "s' = pause s1"
    using Wait by (auto simp: of_WAIT_def bind_eq_Some_conv split: if_splits)
  have "stranded p c s1" using s1(2) a(2) stranded_running[OF a(2) s1(1)] by (auto elim!: strand_upd)
  then show ?thesis using s1(3) strand_pause by blast
next
  case Ask_delay_delete
  assume a: "tree_step a s = Some s'" "stranded p c s"
  then obtain t where t: "running_thread s = Some t" "upd t (\<lambda>n. n\<lparr>delay_delete := True\<rparr>) s = Some s'"
    using Ask_delay_delete by (auto simp: bind_eq_Some_conv)
  then show ?thesis using stranded_running[OF a(2) t(1)] by (intro strand_upd[OF t(2) a(2)]) simp_all
qed

lemma strand_steps: "foldM tree_step as s = Some s' \<Longrightarrow> stranded p c s \<Longrightarrow> stranded p c s'"
  by (erule foldM_keeps, assumption) (rule strand_step)

section \<open>Disabling a detached thread\<close>

text \<open>The thread is alone in its scope and has no children, so the recursion marks it and looks at its parent.\<close>

definition disabled_node :: "tnode \<Rightarrow> tnode" where
  "disabled_node n = n\<lparr>pc_null := True, i_was_disabled := True, i_have_ended := True\<rparr>"

definition marked :: "tid \<Rightarrow> tnode \<Rightarrow> ttree \<Rightarrow> ttree" where
  "marked t n s = s\<lparr>scope_threads := (scope_threads s)(parent_scope n := set_erase t (scope_threads s (parent_scope n))),
     tnodes := (tnodes s)(t \<mapsto> disabled_node n)\<rparr>"

lemma do_disable_leaf:
  assumes "tnodes s t = Some n" "children n = []" "parent n = Some p" "tnodes s p = Some m" "p \<noteq> t"
  shows "do_disable (Suc (Suc k)) t r s =
    (if i_am_joining m \<and> test_joinable m t
     then do { s \<leftarrow> upd p (\<lambda>m. m\<lparr>i_am_joining := False\<rparr>) (marked t n s);
               s \<leftarrow> (if i_have_ended m then Some s else queue_vthread [p] 0 True s);
               s \<leftarrow> do_join p t s; Some (s, t = r) }
     else Some (marked t n s, t = r))"
  using assms by (simp add: upd_def marked_def disabled_node_def)

lemma tree_disable_alone:
  assumes "running_thread s = Some r" "scope_threads s scope = [t]" "do_disable (Suc (Suc k)) t r s = Some (s', t = r)"
    "scope_threads s' scope = []"
  shows "tree_disable (Suc (Suc (Suc k))) scope s = Some (if t = r then pause s' else s')"
  using assms by (simp add: tree_disable_def del: do_disable.simps)

lemma detached_links:
  assumes "tree_ok s" "tnodes s t = Some n" "i_am_detached n" "parent n = Some p" "tnodes s p = Some m"
  shows "p \<noteq> t" "t \<in> set (detached_children m)" "t \<notin> set (children m)" "t \<notin> set (del_events s)" "p \<notin> set (del_events s)"
    "\<not> i_have_ended m"
proof -
  note k = tree_okD[OF assms(1)]
  have up: "up (tnodes s) t = Some p" "freed (tnodes s) t" using assms(2-4) by (simp_all add: sel_Some)
  then show "p \<noteq> t" using tree_shaped_neq[OF k(3)] by blast
  have "t \<in> freed_kids (tnodes s) p" "t \<notin> kids (tnodes s) p" "\<not> ended (tnodes s) p"
    using k(1) up unfolding links_def by blast+
  then show "t \<in> set (detached_children m)" "t \<notin> set (children m)" "\<not> i_have_ended m" by (simp_all add: sel_Some[of "tnodes s", OF assms(5)])
  then show "p \<notin> set (del_events s)" using k(7) assms(5) by (auto simp: deletes_ok_def sel_Some)
  show "t \<notin> set (del_events s)" using k(7) up by (auto simp: deletes_ok_def)
qed

lemma disable_strands:
  assumes ok: "tree_ok s" and r: "running_thread s = Some r" and n: "tnodes s t = Some n" "i_am_detached n" "parent n = Some p" "children n = []"
    and m: "tnodes s p = Some m" "i_am_waiting m" and scope: "parent_scope n = scope" "scope_threads s scope = [t]"
  shows "\<exists>s'. tree_disable (Suc (Suc (Suc k))) scope s = Some s' \<and> ended (tnodes s') t \<and> stranded p t s'"
proof -
  note l = detached_links[OF ok n(1-3) m(1)]
  note idle = phase_cases(6)[OF tree_okD(5)[OF ok m(1)] m(2)]
  have "do_disable (Suc (Suc k)) t r s = Some (marked t n s, t = r)"
    using do_disable_leaf[OF n(1,4,3) m(1) l(1)] idle by simp
  moreover have "scope_threads (marked t n s) scope = []" using scope by (simp add: marked_def)
  ultimately have "tree_disable (Suc (Suc (Suc k))) scope s = Some (if t = r then pause (marked t n s) else marked t n s)"
    by (rule tree_disable_alone[OF r scope(2)])
  moreover have "running_thread s \<noteq> Some p" using idle by simp
  then have "stranded p t (if t = r then pause (marked t n s) else marked t n s)"
    using l idle m n(3) r by (auto simp: stranded_def strand_defs marked_def disabled_node_def pause_def)
  moreover have "ended (tnodes (if t = r then pause (marked t n s) else marked t n s)) t"
    by (simp add: marked_def disabled_node_def pause_def)
  ultimately show ?thesis by blast
qed

lemma do_join_detached:
  assumes "tnodes s t = Some n" "tnodes s p = Some m" "p \<noteq> t" "children n = []" "detached_children n = []" "i_am_detached n"
    "parent n = Some p" "t \<in> set (detached_children m)" "wt_context m \<noteq> None \<or> wt_context n = None \<or> rd_context m = None"
  shows "\<exists>s' m'. do_join p t s = Some s' \<and> tnodes s' p = Some m' \<and> children m' = children m \<and> is_scheduled m' = is_scheduled m \<and>
    i_am_joining m' = i_am_joining m \<and> pc_null m' = pc_null m \<and> running_thread s' = running_thread s \<and> thr_events s' = thr_events s \<and>
    (\<forall>x. x \<noteq> p \<and> x \<noteq> t \<longrightarrow> tnodes s' x = tnodes s x) \<and>
    scope_threads s' = (scope_threads s)(parent_scope n := set_erase t (scope_threads s (parent_scope n)))"
proof -
  have reap: "\<exists>s' m'. vthread_reap t s1 = Some s' \<and> tnodes s' p = Some m' \<and> children m' = children m \<and> is_scheduled m' = is_scheduled m \<and>
      i_am_joining m' = i_am_joining m \<and> pc_null m' = pc_null m \<and> running_thread s' = running_thread s \<and> thr_events s' = thr_events s \<and>
      (\<forall>x. x \<noteq> p \<and> x \<noteq> t \<longrightarrow> tnodes s' x = tnodes s x) \<and>
      scope_threads s' = (scope_threads s)(parent_scope n := set_erase t (scope_threads s (parent_scope n)))"
    if "s1 = s\<lparr>stacked_context := c, tnodes := (tnodes s)(p \<mapsto> m\<lparr>task_func_children := ts, wt_context := w, rd_context := z\<rparr>)\<rparr>" for s1 c ts w z
    using assms(1-8) that by (simp add: vthread_reap_def upd_def vthread_delete_def queue_deletion_def)
  let ?ts = "set_erase t (task_func_children m)"
  have same: "s\<lparr>tnodes := (tnodes s)(p \<mapsto> m\<lparr>task_func_children := ?ts\<rparr>)\<rparr> =
      s\<lparr>stacked_context := stacked_context s, tnodes := (tnodes s)(p \<mapsto> m\<lparr>task_func_children := ?ts, wt_context := wt_context m, rd_context := rd_context m\<rparr>)\<rparr>"
    by simp
  have plain: "do_join p t s = vthread_reap t (s\<lparr>tnodes := (tnodes s)(p \<mapsto> m\<lparr>task_func_children := ?ts\<rparr>)\<rparr>)"
    if "wt_context n = None \<or> wt_context m = rd_context m \<or> wt_context m = None"
    using assms(1-3,7,9) that by (cases "wt_context m") (auto simp: do_join_def upd_def)
  show ?thesis
  proof (cases "wt_context n = None \<or> wt_context m = rd_context m \<or> wt_context m = None")
    case True
    show ?thesis unfolding plain[OF True] by (rule reap[OF same])
  next
    case False
    then obtain x where x: "wt_context m = Some x" by auto
    have "do_join p t s = vthread_reap t (s\<lparr>stacked_context := (stacked_context s)(x := rd_context m),
        tnodes := (tnodes s)(p \<mapsto> m\<lparr>task_func_children := ?ts, wt_context := stacked_context s x, rd_context := Some x\<rparr>)\<rparr>)"
      using assms(1-3,7) False x by (simp add: do_join_def upd_def)
    then show ?thesis using reap[OF refl] by simp
  qed
qed

lemma disable_joins:
  assumes ok: "tree_ok s" and r: "running_thread s = Some r"
    and n: "tnodes s t = Some n" "i_am_detached n" "parent n = Some p" "children n = []" "detached_children n = []"
    and m: "tnodes s p = Some m" "i_am_joining m" "test_joinable m t" and scope: "parent_scope n = scope" "scope_threads s scope = [t]"
    and ctx: "wt_context m \<noteq> None \<or> wt_context n = None \<or> rd_context m = None"
  shows "\<exists>s' m'. tree_disable (Suc (Suc (Suc k))) scope s = Some s' \<and> tnodes s' p = Some m' \<and> \<not> i_am_joining m' \<and> is_scheduled m' \<and>
    \<not> pc_null m' \<and> children m' = children m \<and> (\<forall>x. x \<noteq> p \<and> x \<noteq> t \<longrightarrow> tnodes s' x = tnodes s x) \<and> ([p], 0, True) \<in> set (thr_events s')"
proof -
  note l = detached_links[OF ok n(1-3) m(1)]
  note ph = tree_okD(5)[OF ok m(1)]
  note idle = phase_cases(5)[OF ph m(2)]
  define m1 where "m1 = m\<lparr>i_am_joining := False, is_scheduled := True\<rparr>"
  define s1 where "s1 = (marked t n s)\<lparr>tnodes := (tnodes (marked t n s))(p \<mapsto> m1), thr_events := thr_events s @ [([p], 0, True)]\<rparr>"
  have at: "tnodes s1 t = Some (disabled_node n)" "tnodes s1 p = Some m1" using l(1) by (simp_all add: s1_def marked_def)
  have "do_disable (Suc (Suc k)) t r s = do { s \<leftarrow> do_join p t s1; Some (s, t = r) }"
    using do_disable_leaf[OF n(1,4,3) m(1) l(1)] m l(1) idle
    by (simp add: upd_def s1_def m1_def marked_def queue_vthread_def vthread_mark_scheduled_def)
  moreover from do_join_detached[OF at l(1)] obtain s2 m' where s2: "do_join p t s1 = Some s2" "tnodes s2 p = Some m'"
    "children m' = children m1" "is_scheduled m' = is_scheduled m1" "i_am_joining m' = i_am_joining m1" "pc_null m' = pc_null m1"
    "thr_events s2 = thr_events s1" "\<forall>x. x \<noteq> p \<and> x \<noteq> t \<longrightarrow> tnodes s2 x = tnodes s1 x"
    "scope_threads s2 = (scope_threads s1)(parent_scope n := set_erase t (scope_threads s1 (parent_scope n)))"
    using n l(2) ctx by (auto simp: disabled_node_def m1_def)
  moreover have "scope_threads s2 scope = []" using s2(9) scope by (simp add: s1_def marked_def)
  ultimately have "tree_disable (Suc (Suc (Suc k))) scope s = Some (if t = r then pause s2 else s2)"
    by (intro tree_disable_alone[OF r scope(2)]) simp_all
  moreover have "\<not> pc_null m" using phase_cases(1)[OF ph] idle by simp
  then have "\<not> i_am_joining m'" "is_scheduled m'" "\<not> pc_null m'" "children m' = children m" "([p], 0, True) \<in> set (thr_events s2)"
    "\<forall>x. x \<noteq> p \<and> x \<noteq> t \<longrightarrow> tnodes s2 x = tnodes s x"
    using s2 by (simp_all add: m1_def s1_def marked_def)
  ultimately show ?thesis
    using s2(2) by (intro exI[of _ "if t = r then pause s2 else s2"] exI[of _ m']) (simp add: pause_def)
qed

end
