(* ===== verification/Thread_Tree_Results.thy ===== *)
theory Thread_Tree_Results
  imports Thread_Disable
begin

text \<open>
  The properties of the tree of threads: it stays consistent, no thread waits for something that will not happen, the
  end of a thread wakes its parent, and what \<^verbatim>\<open>%disable\<close> breaks of this.
\<close>

section \<open>Runs\<close>

lemma reachable_run: "reachable s \<Longrightarrow> foldM tree_step as s = Some s' \<Longrightarrow> reachable s'"
  by (induction as arbitrary: s) (auto split: option.splits intro: reachable.step)

lemma run_reachable: "foldM tree_step as no_threads = Some s \<Longrightarrow> reachable s"
  using reachable_run[OF reachable.start] .

text \<open>Thread 1 forks thread 2, which runs while 1 waits: in \<^verbatim>\<open>%join\<close>, or detached in \<^verbatim>\<open>%wait/fork\<close>.\<close>

definition join_run :: "action list" where
  "join_run = [Start 1 0, Run 1, Fork 2 5 False False, Join, Run 2]"

definition detach_run :: "action list" where
  "detach_run = [Start 1 0, Run 1, Fork 2 5 False False, Join_detach 1, Wait_fork, Run 2]"

definition ran :: "action list \<Rightarrow> ttree" where
  "ran as = (case foldM tree_step as no_threads of Some s \<Rightarrow> s | None \<Rightarrow> no_threads)"

lemma reachable_ran: "reachable (ran as)"
  by (auto simp: ran_def reachable.start intro: run_reachable split: option.split)

lemmas run_simps = ran_def join_run_def detach_run_def no_threads_def thread_start_def thread_run_def vthread_new_def queue_vthread_def
  vthread_mark_scheduled_def upd_def of_FORK_def of_JOIN_def of_JOIN_DETACH_def of_WAIT_FORK_def detach_child_def pause_def set_insert_def
  set_erase_def test_joinable_def waits_for_def

section \<open>Properties\<close>

text \<open>C9. In every reachable state the links between threads agree: a thread is in the set of children, or when it is
  detached in the set of detached children, of exactly the thread that is its parent; the parent relation has no
  cycles; every thread is in exactly one phase (running, scheduled, waiting for an event, joining, waiting for its
  detached children, or ended); a joining thread has children of which no ended one could be joined; a
  thread to be deleted is deleted once.\<close>

theorem threads_consistent:
  assumes "reachable s"
  shows "tree_ok s \<and> sets_ok s"
  using reachable_ok[OF assms] reachable_sets[OF assms] ..

theorem threads_consistent_witness: "tree_ok (ran join_run) \<and> sets_ok (ran join_run)"
  using threads_consistent[OF reachable_ran] .

text \<open>C7. No thread is stuck: in every reachable state a thread that has not ended is running, scheduled or in the list
  of an event, or has a descendant, through children and detached children, that is. So a thread in a join or in a
  wait for its detached children always waits for a thread that can still end.\<close>

theorem no_thread_stuck:
  assumes "reachable s" "tnodes s t = Some n" "\<not> i_have_ended n"
  shows "\<exists>d. (d, t) \<in> (child_of s)\<^sup>* \<and> active s d"
  by (rule live_descendant[OF reachable_ok[OF assms(1)]]) (use assms in \<open>simp_all add: sel_Some\<close>)

theorem no_thread_stuck_witness:
  "(\<exists>d. (d, 1) \<in> (child_of (ran join_run))\<^sup>* \<and> active (ran join_run) d) \<and>
   (\<exists>d. (d, 1) \<in> (child_of (ran detach_run))\<^sup>* \<and> active (ran detach_run) d)"
proof -
  have "\<exists>d. (d, 1) \<in> (child_of (ran as))\<^sup>* \<and> active (ran as) d" if as: "as = join_run \<or> as = detach_run" for as
  proof -
    obtain n where "tnodes (ran as) 1 = Some n" "\<not> i_have_ended n" using as by (auto simp: run_simps)
    then show ?thesis by (rule no_thread_stuck[OF reachable_ran])
  qed
  then show ?thesis by blast
qed

text \<open>C8. When the running thread ends and has no children the opcode never fails, and a parent that waits for this
  thread, in a join that may take it or for the last of its detached children, is scheduled by an event of the present
  time in front of the others. The contexts of the two threads must be such that the join finds the one it passes on.\<close>

theorem end_wakes_parent:
  assumes "reachable s" "running_thread s = Some t" "tnodes s t = Some n" "children n = []"
    "\<And>p m. parent n = Some p \<Longrightarrow> tnodes s p = Some m \<Longrightarrow> wt_context m \<noteq> None \<or> wt_context n = None \<or> rd_context m = None"
  shows "\<exists>s'. tree_step End s = Some s' \<and> running_thread s' = None \<and> (\<forall>p m. parent n = Some p \<and> tnodes s p = Some m \<and> waits_for m n t \<longrightarrow>
    sel False is_scheduled (tnodes s') p \<and> ([p], 0, True) \<in> set (thr_events s'))"
proof -
  have "\<exists>s'. of_END t s = Some s' \<and> (\<forall>p m. parent n = Some p \<and> tnodes s p = Some m \<and> waits_for m n t \<longrightarrow>
    sel False is_scheduled (tnodes s') p \<and> ([p], 0, True) \<in> set (thr_events s'))"
    by (rule end_wakes[OF reachable_ok[OF assms(1)] reachable_sets[OF assms(1)] assms(2-4)]) (rule assms(5))
  then obtain s' where s': "of_END t s = Some s'" "\<forall>p m. parent n = Some p \<and> tnodes s p = Some m \<and> waits_for m n t \<longrightarrow>
    sel False is_scheduled (tnodes s') p \<and> ([p], 0, True) \<in> set (thr_events s')" by blast
  show ?thesis by (intro exI[of _ "pause s'"]) (use s' assms(2) in \<open>auto simp: pause_def\<close>)
qed

theorem end_wakes_parent_witness:
  "(\<exists>s'. tree_step End (ran join_run) = Some s' \<and> sel False is_scheduled (tnodes s') 1 \<and> ([1], 0, True) \<in> set (thr_events s')) \<and>
   (\<exists>s'. tree_step End (ran detach_run) = Some s' \<and> sel False is_scheduled (tnodes s') 1 \<and> ([1], 0, True) \<in> set (thr_events s'))"
proof -
  have "\<exists>s'. tree_step End (ran as) = Some s' \<and> sel False is_scheduled (tnodes s') 1 \<and> ([1], 0, True) \<in> set (thr_events s')"
    if as: "as = join_run \<or> as = detach_run" for as
  proof -
    obtain n m where n: "running_thread (ran as) = Some 2" "tnodes (ran as) 2 = Some n" "children n = []" "wt_context n = None" "parent n = Some 1"
      "tnodes (ran as) 1 = Some m" "waits_for m n 2"
      using as by (auto simp: run_simps)
    have "\<exists>s'. tree_step End (ran as) = Some s' \<and> running_thread s' = None \<and> (\<forall>p m. parent n = Some p \<and> tnodes (ran as) p = Some m \<and> waits_for m n 2 \<longrightarrow>
      sel False is_scheduled (tnodes s') p \<and> ([p], 0, True) \<in> set (thr_events s'))"
      by (rule end_wakes_parent[OF reachable_ran n(1-3)]) (use n(4) in simp)
    then show ?thesis using n(5-7) by blast
  qed
  then show ?thesis by blast
qed

text \<open>What the parent of a disabled detached thread does then.\<close>

lemma disabled_join_fails:
  assumes ok: "tree_ok s" and m: "tnodes s p = Some m" "i_am_joining m" and t: "t \<notin> set (children m)"
    and s': "tnodes s' p = Some m'" "is_scheduled m'" "\<not> pc_null m'" "children m' = children m" "\<forall>x. x \<noteq> p \<and> x \<noteq> t \<longrightarrow> tnodes s' x = tnodes s x"
  shows "kids (tnodes s') p \<noteq> {} \<and> (\<forall>c\<in>kids (tnodes s') p. test_joinable m c \<longrightarrow> \<not> ended (tnodes s') c) \<and>
    (\<exists>s1. tree_step (Run p) (pause s') = Some s1 \<and> running_thread s1 = Some p \<and> tree_step End s1 = None)"
proof -
  have "joining (tnodes s) p" using m by (simp add: sel_Some)
  then have w: "kids (tnodes s) p \<noteq> {} \<and> (\<forall>c\<in>kids (tnodes s) p. ended (tnodes s) c \<longrightarrow> task_kids (tnodes s) p \<noteq> {} \<and> c \<notin> task_kids (tnodes s) p)"
    using tree_okD(2)[OF ok] unfolding waits_ok_def by blast
  have kids: "kids (tnodes s') p = set (children m)" "kids (tnodes s) p = set (children m)" "task_kids (tnodes s) p = set (task_func_children m)"
    using s'(1,4) m(1) by (simp_all add: sel_Some)
  have "ended (tnodes s') c = ended (tnodes s) c" if "c \<in> set (children m)" for c
    using s'(5) that t kid_neq[OF ok m(1) that] by (auto simp: sel_def)
  then have "\<forall>c\<in>kids (tnodes s') p. test_joinable m c \<longrightarrow> \<not> ended (tnodes s') c"
    using w unfolding kids test_joinable_def by auto
  moreover define s1 where "s1 = (pause s')\<lparr>tnodes := (tnodes s')(p \<mapsto> m'\<lparr>is_scheduled := False\<rparr>), running_thread := Some p\<rparr>"
  then have "tree_step (Run p) (pause s') = Some s1" using s'(1-3) by (simp add: thread_run_def upd_def pause_def)
  moreover have "children m' \<noteq> []" using w s'(4) unfolding kids by simp
  then have "of_END p s1 = None"
    unfolding of_END_def by (simp add: s1_def upd_def split: bind_splits)
  ultimately show ?thesis using w unfolding kids by (auto simp: s1_def)
qed

text \<open>C10. Disabling a detached thread breaks this. Take any reachable state, a detached thread that is
  alone in its scope and has no children, detached ones neither, and its parent; the contexts of the two must be such that a join finds
  the one it passes on, as for the end of a thread. If the parent waits for its detached children, the disabled thread has ended but stays among
  them: whatever the threads do from then on (short of another \<^verbatim>\<open>%disable\<close>), the parent waits, and is neither scheduled nor
  run. If the parent waits in a join that would take the thread, the end of the detached thread is taken for the end of a joined one: the
  parent is scheduled, although it has children and none that it could join has ended, and when it runs and comes to its own end the
  assertion that it has no children fails.\<close>

theorem disable_detached_child:
  assumes "reachable s" "running_thread s = Some r" "tnodes s t = Some n" "i_am_detached n" "parent n = Some p" "tnodes s p = Some m"
    "children n = []" "detached_children n = []" "scope_threads s (parent_scope n) = [t]" "3 \<le> k"
    "wt_context m \<noteq> None \<or> wt_context n = None \<or> rd_context m = None"
  shows "(i_am_waiting m \<longrightarrow> (\<exists>s'. tree_disable k (parent_scope n) s = Some s' \<and> ended (tnodes s') t \<and>
      (\<forall>as s''. foldM tree_step as s' = Some s'' \<longrightarrow>
        fork_waiting (tnodes s'') p \<and> \<not> sel False is_scheduled (tnodes s'') p \<and> running_thread s'' \<noteq> Some p))) \<and>
    (i_am_joining m \<and> test_joinable m t \<longrightarrow> (\<exists>s'. tree_disable k (parent_scope n) s = Some s' \<and> sel False is_scheduled (tnodes s') p \<and>
      kids (tnodes s') p \<noteq> {} \<and> (\<forall>c\<in>kids (tnodes s') p. test_joinable m c \<longrightarrow> \<not> ended (tnodes s') c) \<and>
      (\<exists>s1. tree_step (Run p) (pause s') = Some s1 \<and> running_thread s1 = Some p \<and> tree_step End s1 = None)))"
proof (intro conjI impI)
  note ok = reachable_ok[OF assms(1)]
  obtain j where k: "k = Suc (Suc (Suc j))" using assms(10) by (cases k; cases "k - 1"; cases "k - 2") auto
  {
    assume w: "i_am_waiting m"
    obtain s' where s': "tree_disable k (parent_scope n) s = Some s'" "ended (tnodes s') t" "stranded p t s'"
      using disable_strands[OF ok assms(2-5,7,6) w refl assms(9)] unfolding k by blast
    have "fork_waiting (tnodes s'') p \<and> \<not> sel False is_scheduled (tnodes s'') p \<and> running_thread s'' \<noteq> Some p"
      if "foldM tree_step as s' = Some s''" for as s''
      using strand_steps[OF that s'(3)] by (auto simp: stranded_def waits_with_def sel_Some)
    then show "\<exists>s'. tree_disable k (parent_scope n) s = Some s' \<and> ended (tnodes s') t \<and> (\<forall>as s''. foldM tree_step as s' = Some s'' \<longrightarrow>
        fork_waiting (tnodes s'') p \<and> \<not> sel False is_scheduled (tnodes s'') p \<and> running_thread s'' \<noteq> Some p)"
      using s'(1,2) by blast
  next
    assume w: "i_am_joining m \<and> test_joinable m t"
    obtain s' m' where s': "tree_disable k (parent_scope n) s = Some s'" "tnodes s' p = Some m'" "is_scheduled m'" "\<not> pc_null m'"
      "children m' = children m" "\<forall>x. x \<noteq> p \<and> x \<noteq> t \<longrightarrow> tnodes s' x = tnodes s x"
      using disable_joins[OF ok assms(2-5,7,8,6) conjunct1[OF w] conjunct2[OF w] refl assms(9,11)] unfolding k by blast
    show "\<exists>s'. tree_disable k (parent_scope n) s = Some s' \<and> sel False is_scheduled (tnodes s') p \<and>
      kids (tnodes s') p \<noteq> {} \<and> (\<forall>c\<in>kids (tnodes s') p. test_joinable m c \<longrightarrow> \<not> ended (tnodes s') c) \<and>
      (\<exists>s1. tree_step (Run p) (pause s') = Some s1 \<and> running_thread s1 = Some p \<and> tree_step End s1 = None)"
      using disabled_join_fails[OF ok assms(6) conjunct1[OF w] detached_links(3)[OF ok assms(3-6)] s'(2-6)] s'(1-3) by (auto simp: sel_Some)
  }
qed

text \<open>Thread 9 disables the scope 5 of thread 2, which thread 1 has forked and detached.\<close>

definition detached_run :: "action list" where
  "detached_run = [Start 1 0, Run 1, Fork 2 5 False False, Join_detach 1, Wait_fork, Start 9 0, Run 9]"

definition join_other_run :: "action list" where
  "join_other_run = [Start 1 0, Run 1, Fork 2 5 False False, Join_detach 1, Fork 3 6 False False, Join, Start 9 0, Run 9]"

theorem disable_detached_child_witness:
  "(\<exists>s'. tree_disable 3 5 (ran detached_run) = Some s' \<and> (\<forall>as s''. foldM tree_step as s' = Some s'' \<longrightarrow> fork_waiting (tnodes s'') 1)) \<and>
   (\<exists>s' s1. tree_disable 3 5 (ran join_other_run) = Some s' \<and> tree_step (Run 1) (pause s') = Some s1 \<and> tree_step End s1 = None)"
proof
  obtain n m where a: "running_thread (ran detached_run) = Some 9" "tnodes (ran detached_run) 2 = Some n" "i_am_detached n" "parent n = Some 1"
    "tnodes (ran detached_run) 1 = Some m" "children n = []" "detached_children n = []" "scope_threads (ran detached_run) (parent_scope n) = [2]"
    "wt_context n = None" "i_am_waiting m" "parent_scope n = 5"
    by (simp add: run_simps detached_run_def)
  show "\<exists>s'. tree_disable 3 5 (ran detached_run) = Some s' \<and> (\<forall>as s''. foldM tree_step as s' = Some s'' \<longrightarrow> fork_waiting (tnodes s'') 1)"
    using disable_detached_child[OF reachable_ran a(1-8), of 3] a(9-11) by auto
  obtain n m where b: "running_thread (ran join_other_run) = Some 9" "tnodes (ran join_other_run) 2 = Some n" "i_am_detached n" "parent n = Some 1"
    "tnodes (ran join_other_run) 1 = Some m" "children n = []" "detached_children n = []" "scope_threads (ran join_other_run) (parent_scope n) = [2]"
    "wt_context n = None" "i_am_joining m" "test_joinable m 2" "parent_scope n = 5"
    by (simp add: run_simps join_other_run_def)
  show "\<exists>s' s1. tree_disable 3 5 (ran join_other_run) = Some s' \<and> tree_step (Run 1) (pause s') = Some s1 \<and> tree_step End s1 = None"
    using disable_detached_child[OF reachable_ran b(1-8), of 3] b(9-12) by auto
qed

end
