(* ===== verification/Spec2Isabelle.thy ===== *)
theory Spec2Isabelle
  imports Vector4_Parts Vector4_Select Vector4_Memory Vector8 Event_Ring Scheduler Simulate_Audit Logic Wiring Arith_Compare Event_Functor Udp_Results Thread_Results Thread_Tree_Results
begin

text \<open>
  EpicSim is a Verilog simulator: \<^verbatim>\<open>ivlpp\<close> preprocesses, \<^verbatim>\<open>ivl\<close> parses and elaborates the design,
  \<^verbatim>\<open>tgt-vvp\<close> writes it as a program for the \<^verbatim>\<open>vvp\<close> engine, and \<^verbatim>\<open>vvp\<close> runs it. This library
  verifies the core of \<^verbatim>\<open>vvp\<close>: the values that flow through a simulation, the event queue that
  orders it, the functors that compute the nets and the threads that execute the procedural code.

  \<^bold>\<open>Conventions.\<close> \<^verbatim>\<open>unsigned long\<close> is a 64-bit word, \<^verbatim>\<open>unsigned\<close> sizes and addresses are naturals
  (their sums are assumed to stay below two to the 32), a failing \<^verbatim>\<open>assert\<close> is the value \<open>None\<close>. Shifts
  by 64 or more, which C++ leaves undefined, are modelled as x86-64 executes them (\<open>shl\<close> and \<open>shr\<close> of
  \<open>Prelude\<close>), and the theorems hold on the lengths where the code performs them.

  \<^bold>\<open>Values\<close> (\<^verbatim>\<open>vvp/vvp_net.h\<close>, \<^verbatim>\<open>vvp/vvp_net.cc\<close>).
  \<^item> \<open>Bit4\<close>: \<^verbatim>\<open>vvp_bit4_t\<close>, its operators, edges, adders. The locale \<open>gate4\<close> states that an operator is
    the most precise sound one; it is interpreted for and, or and xor.
  \<^item> \<open>Bit_Vector\<close>: the locale \<open>bit_vector\<close>, what clients of a vector class rely on.
  \<^item> \<open>Vector4\<close>, \<open>Vector4_Bitwise\<close>, \<open>Vector4_Parts\<close>, \<open>Vector4_Select\<close>: the packed vector
    \<^verbatim>\<open>vvp_vector4_t\<close>, two planes of words; each word-level operation is shown to do to the single bits
    what its contract says.
  \<^item> \<open>Word_Array\<close>, \<open>Vector4_Arith\<close>, \<open>Vector4_Serial\<close>: arithmetic modulo two to the width and the
    relational operators, against the integers (\<open>lift_int4\<close>, \<open>gtge_result\<close>).
  \<^item> \<open>Vector4_Convert\<close>, \<open>Vector4_Memory\<close>: machine integers, the text form, fetching and storing words,
    memories. The loop of \<^verbatim>\<open>subarray\<close> is a partial function and shown to end.
  \<^item> \<open>Vector_Numbers\<close>: vectors from doubles, given by their bits; the loops that move the mantissa word by
    word into the vector are shown to round (\<open>double_round\<close>).
  \<^item> \<open>Vector2\<close>, \<open>Vector2_Arith\<close>, \<open>Vector2_Division\<close>: \<^verbatim>\<open>vvp_vector2_t\<close>, the two-valued vectors of the wide
    operators, against the natural numbers (\<open>vec2_num\<close>); the loops of the division are shown to end.
  \<^item> \<open>Strength\<close>, \<open>Vector8\<close>: \<^verbatim>\<open>vvp_scalar_t\<close> and \<^verbatim>\<open>vvp_vector8_t\<close>; resolution of drivers, through any
    tree of resolvers, computes the strongest driver to 0 and to 1.

  \<^bold>\<open>Time\<close> (\<^verbatim>\<open>vvp/schedule.cc\<close>).
  \<^item> \<open>Event_Ring\<close>: the circular lists of events at the level of pointers; they are queues (locale
    \<open>event_fifo\<close>).
  \<^item> \<open>Scheduler\<close>: time steps with their regions and the interface by which events are scheduled, against
    an abstract agenda (\<open>pending\<close>).
  \<^item> \<open>Simulate\<close>: \<^verbatim>\<open>schedule_simulate\<close> over an arbitrary behaviour of the events (a function from the state to
    the calls it makes into the scheduler): the order of regions and times, what \<^verbatim>\<open>schedule_finish\<close> stops,
    and termination. Its loops are partial functions, and a potential bounds them.
  \<^item> \<open>Simulate_Audit\<close>: a behaviour is made to keep books of what it schedules and what it runs (\<open>audited\<close>); after any number
    of rounds they agree with the events that are left in the queue, so that none is lost, moved in time or run twice.

  \<^bold>\<open>Functors\<close> (\<^verbatim>\<open>vvp/vvp_net.h\<close>, \<^verbatim>\<open>vvp/logic.cc\<close>, \<^verbatim>\<open>arith.cc\<close>, \<^verbatim>\<open>reduce.cc\<close>, \<^verbatim>\<open>concat.cc\<close>, \<^verbatim>\<open>extend.cc\<close>, \<^verbatim>\<open>part.cc\<close>).
  \<^item> \<open>Functor\<close>: the messages a net receives, the actions a functor answers with, and the locale
    \<open>lazy_functor\<close> for the functors that store their inputs and ask the scheduler for one run: no update is
    lost. It is interpreted for every such functor below.
  \<^item> \<open>Logic\<close>: gates, buffers, inverters, multiplexers.
  \<^item> \<open>Arith\<close>, \<open>Arith_Results\<close>, \<open>Arith_Compare\<close>: the arithmetic, shift and comparison functors, which answer
    every message at once (locale \<open>arith_functor\<close>); each is shown to compute its operation on the integers
    or the bits (\<open>op_result\<close>), on the machine-word and on the wide path.
  \<^item> \<open>Wiring\<close>: reduction operators, concatenation, repetition, sign extension, part selects.
  \<^item> \<open>Event_Functor\<close> (\<^verbatim>\<open>event.cc\<close>): what threads and non-blocking event controls wait for: edge and change
    detectors, the or of events, named events.
  \<^item> \<open>Udp\<close> (\<^verbatim>\<open>udp.cc\<close>): user defined primitives, whose tables are compiled to rows of bit masks, and their
    instances. \<open>Udp_Rows\<close>, \<open>Udp_Edges\<close>, \<open>Udp_Seq\<close>, \<open>Udp_Results\<close>: the meaning of the letters of a table, and
    that the compiled rows compute it. The loop over the bits of a word has 64 rounds of fuel, one for each bit.

  \<^bold>\<open>Threads\<close> (\<^verbatim>\<open>vvp/vthread.cc\<close>, \<^verbatim>\<open>vvp/codes.h\<close>).
  \<^item> \<open>Thread_State\<close>, \<open>Thread_Ops\<close>: the private state of a thread (program counter, flags, registers, operand
    stacks) and one definition \<open>of_X\<close> for each opcode on it. \<open>Thread_Division\<close>: the long division on machine
    words that the division opcodes use; its loops are partial functions and shown to end.
  \<^item> \<open>Thread_Arith\<close>, \<open>Thread_Mod\<close>, \<open>Thread_Pow\<close>, \<open>Thread_Bits\<close>, \<open>Thread_Select\<close>, \<open>Thread_Compare\<close>: what the
    opcodes compute, as functions of the bits and numbers of their operands.
  \<^item> \<open>Thread_Typing\<close>: instructions, the loop of \<^verbatim>\<open>vthread_run\<close> with fuel, and a type system for the stacks.
    \<open>Thread_Sound\<close>, \<open>Thread_Progress\<close>: its soundness. Code that jumps backwards may run forever; for the rest
    the length of the code is enough fuel. \<open>Thread_Results\<close> holds the properties.
  \<^item> \<open>Thread_Tree\<close>: the threads as linked objects in a memory: fork, join, detach, wait, end, disable, reaping and
    deletion, with \<open>None\<close> for a failing \<^verbatim>\<open>assert\<close> and for the use of a deleted thread. The recursion of
    \<^verbatim>\<open>do_disable\<close> has fuel, three rounds for a thread without children that is alone in its scope.
  \<^item> \<open>Thread_Live\<close>: the scheduler and the opcodes as steps of a state machine, its reachable states (those without
    \<^verbatim>\<open>%disable\<close>) and the invariant \<open>tree_ok\<close>; \<open>Thread_Invariant\<close>, \<open>Thread_Ending\<close>, \<open>Thread_End\<close>,
    \<open>Thread_Wakeup\<close>: every step keeps it. \<open>Thread_Disable\<close>: \<^verbatim>\<open>%disable\<close> of a detached thread, and an invariant of every run
    after it: its waiting parent is never scheduled again (\<open>stranded\<close>). \<open>Thread_Tree_Results\<close>: a blocked thread waits for one that can still act, the end of a thread
    wakes its parent, and what \<^verbatim>\<open>%disable\<close> breaks.

  \<^bold>\<open>Not modelled.\<close> The compiler (\<^verbatim>\<open>ivl\<close>, \<^verbatim>\<open>ivlpp\<close>, \<^verbatim>\<open>vhdlpp\<close>, \<^verbatim>\<open>tgt-vvp\<close>, \<^verbatim>\<open>driver\<close>), the system task
  library (\<^verbatim>\<open>vpi\<close>, \<^verbatim>\<open>libveriuser\<close>), the opcodes on nets, arrays, objects and real numbers, threads that run the
  code of functions, the variants of functors for automatic scopes, the parser and linker of vvp programs and the VPI
  objects. Of the value classes: conversion of a vector to \<^verbatim>\<open>double\<close> and arithmetic on doubles, which HOL does
  not have, stream output, and allocation pools.
\<close>

end
